(* ===== verification/Prelude.thy ===== *)
theory Prelude
  imports Main "HOL-Library.Word"
begin

text \<open>
  Shared vocabulary of the development: the outcome type of kernel code, its sequencing
  operator, the identities of spin locks and sleep channels, C integer arithmetic with the
  wrap-around written out, bit arrays stored in bytes, and the generic lemmas on lists, words
  and functions that the component theories use.
\<close>

unbundle bit_operations_syntax

section \<open>Collections of facts\<close>

named_theorems res_simps \<open>evaluation rules of the outcome type\<close>
named_theorems cint_simps \<open>C integer operations that stay in range\<close>

section \<open>Machine types\<close>

type_synonym u8 = "8 word"
type_synonym u16 = "16 word"
type_synonym u32 = "32 word"
type_synonym u64 = "64 word"
type_synonym addr = int

section \<open>Locks and sleep channels\<close>

text \<open>
  Spin locks and sleep channels are identified in C by the address of an object. Distinct
  objects have distinct addresses, so each is a constructor applied to the index (or address)
  of the object that holds it.
\<close>

datatype lock =
    LkBuddy | LkPid | LkWait | LkBcache | LkItable | LkLog | LkCons | LkUart | LkPr | LkDisk
  | LkTicks | LkProc nat | LkBuf nat | LkInode nat | LkPipe addr | LkFile addr

datatype chan =
    ChProc nat | ChBufLock nat | ChInodeLock nat | ChLog | ChPipeRead addr | ChPipeWrite addr
  | ChCons | ChUart | ChDiskFree | ChDiskBuf nat | ChTicks

section \<open>Outcomes of kernel code\<close>

text \<open>
  A kernel routine that is run in state \<open>s\<close> has one of these outcomes:
  \<open>Ok x t\<close>, it returns \<open>x\<close> in state \<open>t\<close>;
  \<open>Panic m\<close>, it calls \<open>panic(m)\<close>;
  \<open>Fault m\<close>, it dereferences a null pointer or indexes an array out of bounds;
  \<open>Sleep c t\<close>, it is suspended in \<open>sleep(c, \<dots>)\<close> in state \<open>t\<close>;
  \<open>Spin l\<close>, it busy-waits for the spin lock \<open>l\<close>, which another hart holds;
  \<open>Diverge\<close>, it loops forever.
\<close>

datatype ('s, 'a) res =
    Ok 'a 's | Panic string | Fault string | Sleep chan 's | Spin lock | Diverge

definition bindr :: "('s, 'a) res \<Rightarrow> ('a \<Rightarrow> 's \<Rightarrow> ('s, 'b) res) \<Rightarrow> ('s, 'b) res" where
  "bindr m f = (case m of Ok x s \<Rightarrow> f x s | Panic e \<Rightarrow> Panic e | Fault e \<Rightarrow> Fault e
                | Sleep c s \<Rightarrow> Sleep c s | Spin l \<Rightarrow> Spin l | Diverge \<Rightarrow> Diverge)"

lemma bindr_simps [simp, res_simps]:
  "bindr (Ok x s) f = f x s"
  "bindr (Panic e) f = Panic e"
  "bindr (Fault e) f = Fault e"
  "bindr (Sleep c s) f = Sleep c s"
  "bindr (Spin l) f = Spin l"
  "bindr Diverge f = Diverge"
  by (simp_all add: bindr_def)

lemma bindr_eq_Ok: "bindr m f = Ok y t \<longleftrightarrow> (\<exists>x s. m = Ok x s \<and> f x s = Ok y t)"
  by (cases m) simp_all

lemma bindr_assoc: "bindr (bindr m f) g = bindr m (\<lambda>x s. bindr (f x s) g)"
  by (cases m) simp_all

lemma bindr_cong [fundef_cong]:
  "m = m' \<Longrightarrow> (\<And>x s. m' = Ok x s \<Longrightarrow> f x s = f' x s) \<Longrightarrow> bindr m f = bindr m' f'"
  by (cases m') simp_all

text \<open>An access that is undefined in C when its result is \<open>None\<close>.\<close>

definition orfault :: "string \<Rightarrow> 'a option \<Rightarrow> ('a \<Rightarrow> ('s, 'b) res) \<Rightarrow> ('s, 'b) res" where
  "orfault e x f = (case x of None \<Rightarrow> Fault e | Some y \<Rightarrow> f y)"

lemma orfault_simps [simp, res_simps]:
  "orfault e None f = Fault e" "orfault e (Some x) f = f x"
  by (simp_all add: orfault_def)

lemma orfault_eq_Ok: "orfault e x f = Ok y t \<longleftrightarrow> (\<exists>z. x = Some z \<and> f z = Ok y t)"
  by (cases x) simp_all

text \<open>
  A component whose state is a part of a larger one: \<open>liftr get put f\<close> runs \<open>f\<close> on the part.
\<close>

definition liftr :: "('s \<Rightarrow> 'c) \<Rightarrow> ('c \<Rightarrow> 's \<Rightarrow> 's) \<Rightarrow> ('c \<Rightarrow> ('c, 'a) res) \<Rightarrow> 's \<Rightarrow> ('s, 'a) res" where
  "liftr get put f s = (case f (get s) of Ok x c \<Rightarrow> Ok x (put c s) | Panic e \<Rightarrow> Panic e
     | Fault e \<Rightarrow> Fault e | Sleep ch c \<Rightarrow> Sleep ch (put c s) | Spin l \<Rightarrow> Spin l
     | Diverge \<Rightarrow> Diverge)"

lemma liftr_Ok: "f (get s) = Ok x c \<Longrightarrow> liftr get put f s = Ok x (put c s)"
  by (simp add: liftr_def)

section \<open>C integers\<close>

text \<open>
  \<open>s32\<close> is the value of a 64-bit or mathematical integer stored in a C \<open>int\<close>; \<open>cdiv\<close> and
  \<open>cmod\<close> are C's truncating division and remainder.
\<close>

definition s32 :: "int \<Rightarrow> int" where
  "s32 x = (x + 2 ^ 31) mod 2 ^ 32 - 2 ^ 31"

definition cdiv :: "int \<Rightarrow> int \<Rightarrow> int" where
  "cdiv a b = sgn a * sgn b * (\<bar>a\<bar> div \<bar>b\<bar>)"

definition cmod :: "int \<Rightarrow> int \<Rightarrow> int" where
  "cmod a b = a - b * cdiv a b"

lemma s32_id [cint_simps]: "- (2 ^ 31) \<le> x \<Longrightarrow> x < 2 ^ 31 \<Longrightarrow> s32 x = x"
  by (simp add: s32_def)

lemma s32_nonneg [cint_simps]: "0 \<le> x \<Longrightarrow> x < 2 ^ 31 \<Longrightarrow> s32 x = x"
  by (rule s32_id) simp_all

lemma s32_range: "- (2 ^ 31) \<le> s32 x \<and> s32 x < 2 ^ 31"
  using pos_mod_bound [of "2 ^ 32" "x + 2 ^ 31"] by (simp add: s32_def)

lemma cdiv_nonneg [cint_simps]: "0 \<le> a \<Longrightarrow> 0 < b \<Longrightarrow> cdiv a b = a div b"
  by (cases "a = 0") (simp_all add: cdiv_def)

lemma cmod_nonneg [cint_simps]: "0 \<le> a \<Longrightarrow> 0 < b \<Longrightarrow> cmod a b = a mod b"
  by (simp add: cmod_def cdiv_nonneg minus_mult_div_eq_mod)

section \<open>Bit arrays in bytes\<close>

text \<open>The mask \<open>1 << (i % 8)\<close> as a byte.\<close>

definition bitmask :: "nat \<Rightarrow> u8" where
  "bitmask i = push_bit (i mod 8) 1"

lemma bit_bitmask [simp]: "bit (bitmask i) n \<longleftrightarrow> n = i mod 8"
proof -
  have "i mod 8 < 8" by simp
  then show ?thesis
    by (auto simp: bitmask_def bit_exp_iff)
qed

lemma and_bitmask_eq: "(b AND bitmask i) = bitmask i \<longleftrightarrow> bit b (i mod 8)"
proof
  assume "(b AND bitmask i) = bitmask i"
  then have "bit (b AND bitmask i) (i mod 8) = bit (bitmask i) (i mod 8)" by simp
  then show "bit b (i mod 8)" by (simp add: bit_and_iff)
next
  assume "bit b (i mod 8)"
  then show "(b AND bitmask i) = bitmask i"
    by (intro bit_word_eqI) (auto simp: bit_and_iff)
qed

lemma and_bitmask_zero: "(b AND bitmask i) = 0 \<longleftrightarrow> \<not> bit b (i mod 8)"
proof
  assume "(b AND bitmask i) = 0"
  then have "\<not> bit (b AND bitmask i) (i mod 8)" by simp
  then show "\<not> bit b (i mod 8)" by (simp add: bit_and_iff)
next
  assume "\<not> bit b (i mod 8)"
  then show "(b AND bitmask i) = 0"
    by (intro bit_word_eqI) (auto simp: bit_and_iff)
qed

lemma bit_byte_ops:
  "n < 8 \<Longrightarrow> bit (b OR bitmask i) n \<longleftrightarrow> bit b n \<or> n = i mod 8"
  "n < 8 \<Longrightarrow> bit (b AND NOT (bitmask i)) n \<longleftrightarrow> bit b n \<and> n \<noteq> i mod 8"
  "n < 8 \<Longrightarrow> bit (b XOR bitmask i) n \<longleftrightarrow> (if n = i mod 8 then \<not> bit b n else bit b n)"
  by (auto simp: bit_or_iff bit_and_iff bit_xor_iff bit_not_iff)

text \<open>The bit array that a byte array stores.\<close>

definition getbit :: "u8 list \<Rightarrow> nat \<Rightarrow> bool" where
  "getbit a i = bit (a ! (i div 8)) (i mod 8)"

lemma div8_mod8_eq: "(i::nat) div 8 = j div 8 \<Longrightarrow> i mod 8 = j mod 8 \<Longrightarrow> i = j"
  by (metis div_mult_mod_eq)

text \<open>Changing the byte of index \<open>i\<close> by a bit operation on \<open>i\<close>'s mask changes only bit \<open>i\<close>.\<close>

lemma getbit_update:
  assumes "i div 8 < length a"
    and "\<And>n. n < 8 \<Longrightarrow> n \<noteq> i mod 8 \<Longrightarrow> bit b n = bit (a ! (i div 8)) n"
  shows "getbit (a[i div 8 := b]) j = (if j = i then bit b (i mod 8) else getbit a j)"
proof (cases "j div 8 = i div 8")
  case True
  show ?thesis
  proof (cases "j = i")
    case True
    with assms(1) show ?thesis by (simp add: getbit_def)
  next
    case False
    with \<open>j div 8 = i div 8\<close> have "j mod 8 \<noteq> i mod 8" using div8_mod8_eq by blast
    with assms \<open>j div 8 = i div 8\<close> False show ?thesis by (simp add: getbit_def)
  qed
next
  case False
  then show ?thesis by (auto simp: getbit_def)
qed

lemma getbit_replicate_0 [simp]: "i div 8 < n \<Longrightarrow> \<not> getbit (replicate n 0) i"
  by (simp add: getbit_def)

section \<open>Lists and functions\<close>

lemma set_remove_mid: "distinct (xs @ x # ys) \<Longrightarrow> set (xs @ ys) = set (xs @ x # ys) - {x}"
  by auto

lemma nth_list_update_if: "i < length xs \<Longrightarrow> xs[i := v] ! j = (if j = i then v else xs ! j)"
  by simp

end
