(* ===== verification/Klist.thy ===== *)
theory Klist
  imports Prelude
begin

text \<open>
  The circular doubly linked lists of \<open>kernel/list.c\<close>. The two pointer fields of
  \<open>struct list\<close> are a split heap: one map per field, from node addresses to node addresses.
  \<open>dlist h l xs\<close> relates the heap to the sequence \<open>xs\<close> of the nodes on the list with head \<open>l\<close>;
  the operations refine cons, tail and removal of an element, and leave every other list alone.
\<close>

section \<open>The operations\<close>

record lheap =
  lnext :: "addr \<Rightarrow> addr"
  lprev :: "addr \<Rightarrow> addr"

definition lst_init :: "addr \<Rightarrow> lheap \<Rightarrow> lheap" where
  "lst_init lst h =
     (let h = h\<lparr>lnext := (lnext h)(lst := lst)\<rparr>
      in h\<lparr>lprev := (lprev h)(lst := lst)\<rparr>)"

definition lst_empty :: "addr \<Rightarrow> lheap \<Rightarrow> bool" where
  "lst_empty lst h = (lnext h lst = lst)"

definition lst_remove :: "addr \<Rightarrow> lheap \<Rightarrow> lheap" where
  "lst_remove e h =
     (let h = h\<lparr>lnext := (lnext h)(lprev h e := lnext h e)\<rparr>
      in h\<lparr>lprev := (lprev h)(lnext h e := lprev h e)\<rparr>)"

definition lst_pop :: "addr \<Rightarrow> lheap \<Rightarrow> (lheap, addr) res" where
  "lst_pop lst h =
     (if lnext h lst = lst then Panic ''lst_pop''
      else let p = lnext h lst in Ok p (lst_remove p h))"

definition lst_push :: "addr \<Rightarrow> addr \<Rightarrow> lheap \<Rightarrow> lheap" where
  "lst_push lst p h =
     (let h = h\<lparr>lnext := (lnext h)(p := lnext h lst)\<rparr>;
          h = h\<lparr>lprev := (lprev h)(p := lst)\<rparr>;
          h = h\<lparr>lprev := (lprev h)(lnext h lst := p)\<rparr>
      in h\<lparr>lnext := (lnext h)(lst := p)\<rparr>)"

text \<open>
  \<open>lst_print\<close> walks the list from \<open>p\<close> and prints each node; the model returns the nodes printed.
  On a heap where the walk never comes back to the head it does not return.
\<close>

partial_function (option) lst_print_from :: "addr \<Rightarrow> addr \<Rightarrow> lheap \<Rightarrow> addr list \<Rightarrow> addr list option" where
  "lst_print_from lst p h out =
     (if p = lst then Some out else lst_print_from lst (lnext h p) h (out @ [p]))"

declare lst_print_from.simps [code]

definition lst_print :: "addr \<Rightarrow> lheap \<Rightarrow> addr list option" where
  "lst_print lst h = lst_print_from lst (lnext h lst) h []"

section \<open>The lists a heap represents\<close>

text \<open>\<open>dseg h a xs b\<close>: following \<open>next\<close> from \<open>a\<close> visits \<open>xs\<close> and then \<open>b\<close>, and \<open>prev\<close> leads back.\<close>

fun dseg :: "lheap \<Rightarrow> addr \<Rightarrow> addr list \<Rightarrow> addr \<Rightarrow> bool" where
  "dseg h a [] b = (lnext h a = b \<and> lprev h b = a)"
| "dseg h a (x # xs) b = (lnext h a = x \<and> lprev h x = a \<and> dseg h x xs b)"

definition dlist :: "lheap \<Rightarrow> addr \<Rightarrow> addr list \<Rightarrow> bool" where
  "dlist h l xs \<longleftrightarrow> distinct (l # xs) \<and> dseg h l xs l"

lemma dseg_append: "dseg h a (xs @ y # ys) b \<longleftrightarrow> dseg h a xs y \<and> dseg h y ys b"
  by (induction xs arbitrary: a) auto

lemma dseg_cong:
  assumes "\<And>y. y = a \<or> y \<in> set xs \<Longrightarrow> lnext h' y = lnext h y"
    and "\<And>y. y = b \<or> y \<in> set xs \<Longrightarrow> lprev h' y = lprev h y"
  shows "dseg h' a xs b = dseg h a xs b"
  using assms by (induction xs arbitrary: a) auto

lemma dlist_cong:
  assumes "\<And>y. y \<in> insert l (set xs) \<Longrightarrow> lnext h' y = lnext h y \<and> lprev h' y = lprev h y"
  shows "dlist h' l xs = dlist h l xs"
  using dseg_cong [of l xs h' h l] assms by (auto simp: dlist_def)

lemma dseg_first: "dseg h a xs b \<Longrightarrow> lnext h a = (case xs of [] \<Rightarrow> b | x # _ \<Rightarrow> x)"
  by (cases xs) auto

lemma dseg_last: "dseg h a xs b \<Longrightarrow> lprev h b = (if xs = [] then a else last xs)"
  by (induction xs arbitrary: a) auto

lemma dlist_next_in: "dlist h l xs \<Longrightarrow> lnext h l \<in> insert l (set xs)"
  by (auto simp: dlist_def dest!: dseg_first split: list.splits)

lemma dlist_init: "dlist (lst_init l h) l []"
  by (simp add: dlist_def lst_init_def Let_def)

lemma dlist_empty_iff: "dlist h l xs \<Longrightarrow> lst_empty l h \<longleftrightarrow> xs = []"
  by (cases xs) (auto simp: dlist_def lst_empty_def)

lemma dlist_unique: "dlist h l xs \<Longrightarrow> dlist h l ys \<Longrightarrow> xs = ys"
proof -
  have "dseg h a xs l \<Longrightarrow> dseg h a ys l \<Longrightarrow> l \<notin> set xs \<Longrightarrow> l \<notin> set ys \<Longrightarrow> xs = ys" for a
    by (induction xs arbitrary: a ys; case_tac ys) auto
  then show "dlist h l xs \<Longrightarrow> dlist h l ys \<Longrightarrow> xs = ys"
    by (auto simp: dlist_def)
qed

lemma dlist_push:
  assumes "dlist h l xs" and "p \<notin> insert l (set xs)"
  shows "dlist (lst_push l p h) l (p # xs)"
proof (cases xs)
  case Nil
  with assms show ?thesis by (auto simp: dlist_def lst_push_def Let_def)
next
  case (Cons x xs')
  with assms have "dseg (lst_push l p h) x xs' l = dseg h x xs' l"
    by (intro dseg_cong) (auto simp: dlist_def lst_push_def Let_def)
  with assms Cons show ?thesis
    by (auto simp: dlist_def lst_push_def Let_def)
qed

lemma dlist_remove:
  assumes "dlist h l (xs @ e # ys)"
  shows "dlist (lst_remove e h) l (xs @ ys)"
proof -
  from assms have d: "distinct (l # xs @ e # ys)" and s1: "dseg h l xs e" and s2: "dseg h e ys l"
    by (auto simp: dlist_def dseg_append)
  let ?p = "lprev h e" and ?n = "lnext h e"
  have p: "?p = (if xs = [] then l else last xs)" by (rule dseg_last [OF s1])
  have n: "?n = (case ys of [] \<Rightarrow> l | y # _ \<Rightarrow> y)" by (rule dseg_first [OF s2])
  have pin: "?p \<in> insert l (set xs)" using p by auto
  then have "?p \<noteq> e" using d by auto
  then have h': "lnext (lst_remove e h) = (lnext h)(?p := ?n)"
    "lprev (lst_remove e h) = (lprev h)(?n := ?p)"
    by (auto simp: lst_remove_def Let_def)
  have g1: "dseg (lst_remove e h) l xs ?n"
    if "\<And>y. y \<in> set xs \<Longrightarrow> y \<noteq> ?n"
    using s1 d p that h'
  proof (induction xs arbitrary: l)
    case Nil
    then show ?case by simp
  next
    case (Cons x xs)
    then show ?case
      by (cases "xs = []") (auto split: if_splits)
  qed
  have "dseg (lst_remove e h) l (xs @ ys) l"
  proof (cases ys)
    case Nil
    then have "?n = l" using n by simp
    with g1 d Nil show ?thesis by auto
  next
    case (Cons y ys')
    then have ny: "?n = y" using n by simp
    have "dseg (lst_remove e h) l xs y" using g1 d Cons ny by auto
    moreover have "dseg (lst_remove e h) y ys' l = dseg h y ys' l"
      using d Cons pin h' ny by (intro dseg_cong) auto
    ultimately show ?thesis using s2 Cons by (simp add: dseg_append)
  qed
  with d show ?thesis by (simp add: dlist_def)
qed

lemma dlist_pop:
  "dlist h l (x # xs) \<Longrightarrow> lst_pop l h = Ok x (lst_remove x h) \<and> dlist (lst_remove x h) l xs"
  using dlist_remove [of h l "[]" x xs] by (auto simp: dlist_def lst_pop_def)

lemma lst_pop_panics: "dlist h l [] \<Longrightarrow> lst_pop l h = Panic ''lst_pop''"
  by (simp add: dlist_def lst_pop_def)

text \<open>What each operation leaves alone.\<close>

lemma push_frame:
  assumes "dlist h l xs" and "y \<notin> insert l (insert p (set xs))"
  shows "lnext (lst_push l p h) y = lnext h y \<and> lprev (lst_push l p h) y = lprev h y"
  using assms dlist_next_in [OF assms(1)] by (auto simp: lst_push_def Let_def)

lemma remove_frame:
  assumes "dlist h l (xs @ e # ys)" and "y \<notin> insert l (set (xs @ ys))"
  shows "lnext (lst_remove e h) y = lnext h y \<and> lprev (lst_remove e h) y = lprev h y"
proof -
  from assms have d: "distinct (l # xs @ e # ys)" and s1: "dseg h l xs e" and s2: "dseg h e ys l"
    by (auto simp: dlist_def dseg_append)
  have "lprev h e \<in> insert l (set xs)" using dseg_last [OF s1] by auto
  moreover have "lnext h e \<in> insert l (set ys)" using dseg_first [OF s2] by (auto split: list.splits)
  ultimately show ?thesis using assms(2) d by (auto simp: lst_remove_def Let_def)
qed

text \<open>\<open>lst_print\<close> returns on every list and prints its nodes in order.\<close>

lemma lst_print_from_dseg:
  "dseg h a xs l \<Longrightarrow> l \<notin> set xs \<Longrightarrow> lst_print_from l (lnext h a) h out = Some (out @ xs)"
proof (induction xs arbitrary: a out)
  case Nil
  then show ?case by (simp add: lst_print_from.simps)
next
  case (Cons x xs)
  then have "lst_print_from l (lnext h x) h (out @ [x]) = Some ((out @ [x]) @ xs)" by auto
  with Cons.prems show ?case by (simp add: lst_print_from.simps [of l x])
qed

lemma lst_print_dlist: "dlist h l xs \<Longrightarrow> lst_print l h = Some xs"
  using lst_print_from_dseg [of h l xs l "[]"] by (simp add: dlist_def lst_print_def)

section \<open>Families of lists\<close>

text \<open>
  The allocator keeps one list per block size in the same heap. \<open>dlists h hds F n\<close>: for every
  \<open>k < n\<close> the list with head \<open>hds k\<close> holds \<open>F k\<close>, and no node is shared between two lists.
\<close>

definition nodes :: "(nat \<Rightarrow> addr) \<Rightarrow> (nat \<Rightarrow> addr list) \<Rightarrow> nat \<Rightarrow> addr set" where
  "nodes hds F k = insert (hds k) (set (F k))"

definition dlists :: "lheap \<Rightarrow> (nat \<Rightarrow> addr) \<Rightarrow> (nat \<Rightarrow> addr list) \<Rightarrow> nat \<Rightarrow> bool" where
  "dlists h hds F n \<longleftrightarrow> (\<forall>k < n. dlist h (hds k) (F k)) \<and>
     (\<forall>j < n. \<forall>k < n. j \<noteq> k \<longrightarrow> nodes hds F j \<inter> nodes hds F k = {})"

definition fresh_node :: "(nat \<Rightarrow> addr) \<Rightarrow> (nat \<Rightarrow> addr list) \<Rightarrow> nat \<Rightarrow> addr \<Rightarrow> bool" where
  "fresh_node hds F n p \<longleftrightarrow> (\<forall>k < n. p \<notin> nodes hds F k)"

lemma dlists_update:
  assumes d: "dlists h hds F n" and k: "k < n"
    and new: "dlist h' (hds k) xs"
    and sub: "\<And>j. j < n \<Longrightarrow> j \<noteq> k \<Longrightarrow> insert (hds k) (set xs) \<inter> nodes hds F j = {}"
    and frame: "\<And>j y. j < n \<Longrightarrow> j \<noteq> k \<Longrightarrow> y \<in> nodes hds F j \<Longrightarrow> lnext h' y = lnext h y \<and> lprev h' y = lprev h y"
  shows "dlists h' hds (F(k := xs)) n"
proof -
  have "dlist h' (hds j) ((F(k := xs)) j)" if "j < n" for j
  proof (cases "j = k")
    case True
    with new show ?thesis by simp
  next
    case False
    with that frame [of j] have "dlist h' (hds j) (F j) = dlist h (hds j) (F j)"
      by (intro dlist_cong) (simp add: nodes_def)
    with False that d show ?thesis by (simp add: dlists_def)
  qed
  moreover have "nodes hds (F(k := xs)) i \<inter> nodes hds (F(k := xs)) j = {}"
    if "i < n" "j < n" "i \<noteq> j" for i j
    using that d sub [of i] sub [of j] by (auto simp: dlists_def nodes_def)
  ultimately show ?thesis by (simp add: dlists_def)
qed

lemma dlists_push:
  assumes d: "dlists h hds F n" and k: "k < n" and p: "fresh_node hds F n p"
  shows "dlists (lst_push (hds k) p h) hds (F(k := p # F k)) n"
proof (rule dlists_update [OF d k])
  have l: "dlist h (hds k) (F k)" using d k by (simp add: dlists_def)
  show "dlist (lst_push (hds k) p h) (hds k) (p # F k)"
    using l p k by (intro dlist_push) (auto simp: fresh_node_def nodes_def)
  fix j assume j: "j < n" "j \<noteq> k"
  then show dis: "insert (hds k) (set (p # F k)) \<inter> nodes hds F j = {}"
    using d k p by (force simp: dlists_def fresh_node_def nodes_def)
  fix y assume "y \<in> nodes hds F j"
  with dis show "lnext (lst_push (hds k) p h) y = lnext h y \<and> lprev (lst_push (hds k) p h) y = lprev h y"
    by (intro push_frame [OF l]) auto
qed

lemma dlists_remove:
  assumes d: "dlists h hds F n" and k: "k < n" and F: "F k = xs @ e # ys"
  shows "dlists (lst_remove e h) hds (F(k := xs @ ys)) n"
proof (rule dlists_update [OF d k])
  have l: "dlist h (hds k) (xs @ e # ys)" using d k F by (metis dlists_def)
  show "dlist (lst_remove e h) (hds k) (xs @ ys)" by (rule dlist_remove [OF l])
  fix j assume j: "j < n" "j \<noteq> k"
  then have "nodes hds F k \<inter> nodes hds F j = {}" using d k by (simp add: dlists_def)
  then show dis: "insert (hds k) (set (xs @ ys)) \<inter> nodes hds F j = {}"
    using F by (auto simp: nodes_def)
  fix y assume "y \<in> nodes hds F j"
  with dis show "lnext (lst_remove e h) y = lnext h y \<and> lprev (lst_remove e h) y = lprev h y"
    by (intro remove_frame [OF l]) auto
qed

lemma dlists_pop:
  assumes d: "dlists h hds F n" and k: "k < n" and F: "F k = x # xs"
  shows "\<exists>h'. lst_pop (hds k) h = Ok x h' \<and> dlists h' hds (F(k := xs)) n"
proof -
  have "dlist h (hds k) (x # xs)" using d k F by (metis dlists_def)
  then have "lst_pop (hds k) h = Ok x (lst_remove x h)" using dlist_pop by blast
  moreover have "dlists (lst_remove x h) hds (F(k := xs)) n"
    using dlists_remove [OF d k, of "[]" x xs] F by simp
  ultimately show ?thesis by blast
qed

lemma dlists_inits:
  assumes "\<And>i j. i < n \<Longrightarrow> j < n \<Longrightarrow> hds i = hds j \<Longrightarrow> i = j"
  shows "dlists (fold (\<lambda>k. lst_init (hds k)) [0..<n] h) hds (\<lambda>_. []) n"
  using assms
proof (induction n)
  case 0
  then show ?case by (simp add: dlists_def)
next
  case (Suc n)
  let ?h = "fold (\<lambda>k. lst_init (hds k)) [0..<n] h"
  have IH: "dlists ?h hds (\<lambda>_. []) n" using Suc by auto
  have "dlist (lst_init (hds n) ?h) (hds k) []" if "k < Suc n" for k
  proof (cases "k = n")
    case True
    then show ?thesis by (simp add: dlist_init)
  next
    case False
    with that Suc.prems have "hds k \<noteq> hds n" by (metis less_SucE less_Suc_eq)
    then have "dlist (lst_init (hds n) ?h) (hds k) [] = dlist ?h (hds k) []"
      by (intro dlist_cong) (simp add: lst_init_def Let_def)
    with IH that False show ?thesis by (simp add: dlists_def)
  qed
  with Suc.prems show ?case by (auto simp: dlists_def nodes_def)
qed

text \<open>
  The contract the allocator relies on, as an interface: a heap that represents a family of
  sequences, and operations on the front, on any element, and the emptiness test.
\<close>

locale list_family =
  fixes rep :: "'h \<Rightarrow> (nat \<Rightarrow> addr) \<Rightarrow> (nat \<Rightarrow> addr list) \<Rightarrow> nat \<Rightarrow> bool"
    and is_empty :: "addr \<Rightarrow> 'h \<Rightarrow> bool"
    and push :: "addr \<Rightarrow> addr \<Rightarrow> 'h \<Rightarrow> 'h"
    and pop :: "addr \<Rightarrow> 'h \<Rightarrow> ('h, addr) res"
    and remove :: "addr \<Rightarrow> 'h \<Rightarrow> 'h"
  assumes rep_empty: "rep h hds F n \<Longrightarrow> k < n \<Longrightarrow> is_empty (hds k) h \<longleftrightarrow> F k = []"
    and rep_push: "rep h hds F n \<Longrightarrow> k < n \<Longrightarrow> fresh_node hds F n p \<Longrightarrow>
      rep (push (hds k) p h) hds (F(k := p # F k)) n"
    and rep_pop: "rep h hds F n \<Longrightarrow> k < n \<Longrightarrow> F k = x # xs \<Longrightarrow>
      \<exists>h'. pop (hds k) h = Ok x h' \<and> rep h' hds (F(k := xs)) n"
    and rep_remove: "rep h hds F n \<Longrightarrow> k < n \<Longrightarrow> F k = xs @ e # ys \<Longrightarrow>
      rep (remove e h) hds (F(k := xs @ ys)) n"
    and rep_distinct: "rep h hds F n \<Longrightarrow> k < n \<Longrightarrow> distinct (F k)"
begin

lemma pop_nonempty:
  assumes "rep h hds F n" and "k < n" and "\<not> is_empty (hds k) h"
  obtains x xs h' where "F k = x # xs" and "pop (hds k) h = Ok x h'" and "rep h' hds (F(k := xs)) n"
  using assms rep_empty [OF assms(1,2)] rep_pop [OF assms(1,2)] by (metis list.exhaust)

lemma pop_after_push:
  assumes "rep h hds F n" and "k < n" and "fresh_node hds F n p"
  shows "\<exists>h'. pop (hds k) (push (hds k) p h) = Ok p h' \<and> rep h' hds F n"
  using rep_pop [OF rep_push [OF assms] assms(2), of p "F k"] by simp

lemma remove_set:
  assumes r: "rep h hds F n" and k: "k < n" and e: "e \<in> set (F k)"
  shows "\<exists>xs. rep (remove e h) hds (F(k := xs)) n \<and> set xs = set (F k) - {e}"
proof -
  obtain ys zs where F: "F k = ys @ e # zs" using e by (meson split_list)
  have "set (ys @ zs) = set (F k) - {e}" using rep_distinct [OF r k] F by auto
  with rep_remove [OF r k F] show ?thesis by blast
qed

lemma push_set:
  assumes "rep h hds F n" and "k < n" and "fresh_node hds F n p"
  shows "\<exists>xs. rep (push (hds k) p h) hds (F(k := xs)) n \<and> set xs = insert p (set (F k))"
  using rep_push [OF assms] by (intro exI [of _ "p # F k"]) simp

end

interpretation lf: list_family dlists lst_empty lst_push lst_pop lst_remove
proof unfold_locales
  show "dlists h hds F n \<Longrightarrow> k < n \<Longrightarrow> lst_empty (hds k) h \<longleftrightarrow> F k = []" for h hds F n k
    by (simp add: dlists_def dlist_empty_iff)
  show "dlists h hds F n \<Longrightarrow> k < n \<Longrightarrow> distinct (F k)" for h hds F n k
    by (simp add: dlists_def dlist_def)
qed (rule dlists_push dlists_pop dlists_remove; assumption)+

end
