(* ===== verification/Spinlock.thy ===== *)
theory Spinlock
  imports Prelude
begin

text \<open>
  Spin locks and the nesting of interrupt disabling, \<open>kernel/spinlock.c\<close>. The component's state
  holds every spin lock, the \<open>struct cpu\<close> of every hart, the interrupt-enable bit of every
  hart's \<open>sstatus\<close>, and the hart that executes. The last section gives the rules by which the
  other components use a lock around a critical section.
\<close>

section \<open>State and operations\<close>

record spinlock =
  locked :: bool
  lkname :: string
  lkcpu :: "nat option"

record cpu =
  cpu_proc :: "nat option"
  noff :: int
  intena :: bool

record spinst =
  locks :: "lock \<Rightarrow> spinlock"
  cpus :: "nat \<Rightarrow> cpu"
  sie :: "nat \<Rightarrow> bool"
  hart :: nat

definition mycpu :: "spinst \<Rightarrow> cpu" where
  "mycpu s = cpus s (hart s)"

definition set_mycpu :: "cpu \<Rightarrow> spinst \<Rightarrow> spinst" where
  "set_mycpu c s = s\<lparr>cpus := (cpus s)(hart s := c)\<rparr>"

definition intr_get :: "spinst \<Rightarrow> bool" where
  "intr_get s = sie s (hart s)"

definition intr_on :: "spinst \<Rightarrow> spinst" where
  "intr_on s = s\<lparr>sie := (sie s)(hart s := True)\<rparr>"

definition intr_off :: "spinst \<Rightarrow> spinst" where
  "intr_off s = s\<lparr>sie := (sie s)(hart s := False)\<rparr>"

definition initlock :: "lock \<Rightarrow> string \<Rightarrow> spinst \<Rightarrow> spinst" where
  "initlock lk name s =
     s\<lparr>locks := (locks s)(lk := \<lparr>locked = False, lkname = name, lkcpu = None\<rparr>)\<rparr>"

definition push_off :: "spinst \<Rightarrow> spinst" where
  "push_off s =
     (let old = intr_get s;
          s = intr_off s;
          s = (if noff (mycpu s) = 0 then set_mycpu ((mycpu s)\<lparr>intena := old\<rparr>) s else s)
      in set_mycpu ((mycpu s)\<lparr>noff := noff (mycpu s) + 1\<rparr>) s)"

definition pop_off :: "spinst \<Rightarrow> (spinst, unit) res" where
  "pop_off s =
     (if intr_get s then Panic ''pop_off - interruptible''
      else if noff (mycpu s) < 1 then Panic ''pop_off''
      else let s = set_mycpu ((mycpu s)\<lparr>noff := noff (mycpu s) - 1\<rparr>) s
           in Ok () (if noff (mycpu s) = 0 \<and> intena (mycpu s) then intr_on s else s))"

definition holding :: "lock \<Rightarrow> spinst \<Rightarrow> bool" where
  "holding lk s = (locked (locks s lk) \<and> lkcpu (locks s lk) = Some (hart s))"

definition acquire :: "lock \<Rightarrow> spinst \<Rightarrow> (spinst, unit) res" where
  "acquire lk s =
     (let s = push_off s
      in if holding lk s then Panic ''acquire''
         else if locked (locks s lk) then Spin lk
         else let s = s\<lparr>locks := (locks s)(lk := (locks s lk)\<lparr>locked := True\<rparr>)\<rparr>
              in Ok () (s\<lparr>locks := (locks s)(lk := (locks s lk)\<lparr>lkcpu := Some (hart s)\<rparr>)\<rparr>))"

definition release :: "lock \<Rightarrow> spinst \<Rightarrow> (spinst, unit) res" where
  "release lk s =
     (if \<not> holding lk s then Panic ''release''
      else let s = s\<lparr>locks := (locks s)(lk := (locks s lk)\<lparr>lkcpu := None\<rparr>)\<rparr>;
               s = s\<lparr>locks := (locks s)(lk := (locks s lk)\<lparr>locked := False\<rparr>)\<rparr>
           in pop_off s)"

lemmas spin_defs = mycpu_def set_mycpu_def intr_get_def intr_on_def intr_off_def push_off_def
  pop_off_def holding_def Let_def

section \<open>Critical sections\<close>

text \<open>
  \<open>lk_free lk s\<close>: nobody holds \<open>lk\<close>, and interrupts are off on this hart if a \<open>push_off\<close> is
  pending there. \<open>taken\<close> is the state in which the lock has been acquired. Acquiring and releasing
  restores the state up to the saved \<open>intena\<close> bit of an outermost section, which \<open>calm\<close> records.
\<close>

definition cpu_ok :: "spinst \<Rightarrow> bool" where
  "cpu_ok s \<longleftrightarrow> 0 \<le> noff (mycpu s) \<and> (0 < noff (mycpu s) \<longrightarrow> \<not> intr_get s)"

definition lk_free :: "lock \<Rightarrow> spinst \<Rightarrow> bool" where
  "lk_free lk s \<longleftrightarrow> \<not> locked (locks s lk) \<and> lkcpu (locks s lk) = None \<and> cpu_ok s"

definition taken :: "lock \<Rightarrow> spinst \<Rightarrow> spinst" where
  "taken lk s = (push_off s)\<lparr>locks := (locks s)(lk := (locks s lk)\<lparr>locked := True, lkcpu := Some (hart s)\<rparr>)\<rparr>"

definition calm :: "spinst \<Rightarrow> spinst" where
  "calm s = (if noff (mycpu s) = 0 then set_mycpu ((mycpu s)\<lparr>intena := intr_get s\<rparr>) s else s)"

lemma push_off_locks [simp]: "locks (push_off s) = locks s" "hart (push_off s) = hart s"
  by (simp_all add: spin_defs)

lemma acquire_free: "lk_free lk s \<Longrightarrow> acquire lk s = Ok () (taken lk s)"
  by (auto simp: lk_free_def acquire_def taken_def holding_def Let_def)

lemma pop_push_off: "cpu_ok s \<Longrightarrow> pop_off (push_off s) = Ok () (calm s)"
  by (cases s) (auto simp: spin_defs cpu_ok_def calm_def fun_eq_iff)

lemma release_taken:
  assumes "lk_free lk s"
  shows "release lk (taken lk s) = Ok () (calm s)"
proof -
  have "(locks s lk)\<lparr>lkcpu := None, locked := False\<rparr> = locks s lk"
    using assms by (cases "locks s lk") (simp add: lk_free_def)
  then have "release lk (taken lk s) = pop_off ((push_off s)\<lparr>locks := locks s\<rparr>)"
    by (simp add: release_def taken_def holding_def Let_def)
  moreover have "(push_off s)\<lparr>locks := locks s\<rparr> = push_off s"
    using push_off_locks(1) [of s] by (cases "push_off s") simp
  ultimately have "release lk (taken lk s) = pop_off (push_off s)"
    by (simp only:)
  with assms show ?thesis by (simp add: pop_push_off lk_free_def)
qed

lemma lk_free_calm [simp]: "lk_free lk (calm s) \<longleftrightarrow> lk_free lk s"
  by (auto simp: lk_free_def calm_def cpu_ok_def spin_defs)

lemma calm_calm [simp]: "calm (calm s) = calm s"
  by (simp add: calm_def spin_defs)

lemma lk_free_taken: "lk \<noteq> lk' \<Longrightarrow> lk_free lk s \<Longrightarrow> lk_free lk' s \<Longrightarrow> lk_free lk' (taken lk s)"
  by (auto simp: lk_free_def taken_def cpu_ok_def spin_defs)

text \<open>The lock state as a part of the kernel state, and the two operations on it.\<close>

record kst0 =
  spin :: spinst

definition acq :: "lock \<Rightarrow> 'z kst0_scheme \<Rightarrow> ('z kst0_scheme, unit) res" where
  "acq lk = liftr spin (\<lambda>c. spin_update (\<lambda>_. c)) (acquire lk)"

definition rel :: "lock \<Rightarrow> 'z kst0_scheme \<Rightarrow> ('z kst0_scheme, unit) res" where
  "rel lk = liftr spin (\<lambda>c. spin_update (\<lambda>_. c)) (release lk)"

lemma acq_free: "lk_free lk (spin s) \<Longrightarrow> acq lk s = Ok () (s\<lparr>spin := taken lk (spin s)\<rparr>)"
  by (simp add: acq_def liftr_def acquire_free)

lemma rel_taken:
  "spin s = taken lk sp \<Longrightarrow> lk_free lk sp \<Longrightarrow> rel lk s = Ok () (s\<lparr>spin := calm sp\<rparr>)"
  by (simp add: rel_def liftr_def release_taken)

text \<open>
  \<open>locking lk f\<close>: acquire \<open>lk\<close>, run \<open>f\<close>, release \<open>lk\<close> and return what \<open>f\<close> returned. \<open>section_ok\<close> is the rule for a
  section whose body keeps the lock state.
\<close>

definition locking :: "lock \<Rightarrow> ('z kst0_scheme \<Rightarrow> ('z kst0_scheme, 'a) res) \<Rightarrow> 'z kst0_scheme \<Rightarrow> ('z kst0_scheme, 'a) res" where
  "locking lk f s =
     bindr (acq lk s) (\<lambda>_ s. bindr (f s) (\<lambda>x s. bindr (rel lk s) (\<lambda>_ s. Ok x s)))"

lemma section_ok:
  assumes "lk_free lk (spin s)" and "f (s\<lparr>spin := taken lk (spin s)\<rparr>) = Ok x t" and "spin t = taken lk (spin s)"
  shows "locking lk f s = Ok x (t\<lparr>spin := calm (spin s)\<rparr>)"
  using assms rel_taken [OF assms(3,1)] by (simp add: locking_def acq_free)

lemma locking_held: "locked (locks (spin s) lk) \<Longrightarrow> lkcpu (locks (spin s) lk) \<noteq> Some (hart (spin s)) \<Longrightarrow> locking lk f s = Spin lk"
  by (simp add: locking_def acq_def liftr_def acquire_def holding_def Let_def)

section \<open>Harts that take and drop locks\<close>

text \<open>
  The harts run concurrently; a step is one hart completing \<open>acquire\<close> or \<open>release\<close>. \<open>cs h\<close> is the
  set of locks whose critical section hart \<open>h\<close> is in: those it acquired and did not release.
\<close>

type_synonym spinsys = "(nat \<Rightarrow> lock set) \<times> spinst"

definition on_hart :: "nat \<Rightarrow> spinst \<Rightarrow> spinst" where
  "on_hart h s = s\<lparr>hart := h\<rparr>"

inductive lock_step :: "spinsys \<Rightarrow> spinsys \<Rightarrow> bool" where
  take: "acquire lk (on_hart h s) = Ok () s' \<Longrightarrow> lock_step (cs, s) (cs(h := insert lk (cs h)), s')"
| drop: "lk \<in> cs h \<Longrightarrow> release lk (on_hart h s) = Ok () s' \<Longrightarrow>
    lock_step (cs, s) (cs(h := cs h - {lk}), s')"

definition lock_init :: "spinsys \<Rightarrow> bool" where
  "lock_init x \<longleftrightarrow> (\<forall>h. fst x h = {} \<and> noff (cpus (snd x) h) = 0) \<and>
     (\<forall>lk. \<not> locked (locks (snd x) lk) \<and> lkcpu (locks (snd x) lk) = None)"

inductive lock_reach :: "spinsys \<Rightarrow> bool" where
  start: "lock_init x \<Longrightarrow> lock_reach x"
| step: "lock_reach x \<Longrightarrow> lock_step x y \<Longrightarrow> lock_reach y"

text \<open>
  The invariant: a hart is inside a critical section exactly when the lock records it as the
  holder; the depth counter of a hart is the number of sections it is in; and interrupts are off
  while that number is positive.
\<close>

definition lock_inv :: "spinsys \<Rightarrow> bool" where
  "lock_inv x \<longleftrightarrow>
     (\<forall>h lk. lk \<in> fst x h \<longleftrightarrow> locked (locks (snd x) lk) \<and> lkcpu (locks (snd x) lk) = Some h) \<and>
     (\<forall>lk. \<not> locked (locks (snd x) lk) \<longrightarrow> lkcpu (locks (snd x) lk) = None) \<and>
     (\<forall>h. finite (fst x h) \<and> noff (cpus (snd x) h) = int (card (fst x h))) \<and>
     (\<forall>h. fst x h \<noteq> {} \<longrightarrow> \<not> sie (snd x) h)"

lemma lock_inv_init: "lock_init x \<Longrightarrow> lock_inv x"
  by (auto simp: lock_init_def lock_inv_def)

lemma acquire_Ok:
  assumes "acquire lk s = Ok () s'"
  shows "\<not> locked (locks s lk)"
    and "locks s' = (locks s)(lk := (locks s lk)\<lparr>locked := True, lkcpu := Some (hart s)\<rparr>)"
    and "noff (cpus s' h) = (if h = hart s then noff (cpus s h) + 1 else noff (cpus s h))"
    and "sie s' = (sie s)(hart s := False)"
  using assms by (auto simp: acquire_def spin_defs split: if_splits)

lemma release_Ok:
  assumes "release lk s = Ok () s'"
  shows "locked (locks s lk)" and "lkcpu (locks s lk) = Some (hart s)"
    and "locks s' = (locks s)(lk := (locks s lk)\<lparr>locked := False, lkcpu := None\<rparr>)"
    and "noff (cpus s' h) = (if h = hart s then noff (cpus s h) - 1 else noff (cpus s h))"
    and "h \<noteq> hart s \<or> 1 < noff (cpus s h) \<Longrightarrow> sie s' h = sie s h"
  using assms by (auto simp: release_def spin_defs split: if_splits)

lemma lock_step_inv: "lock_step x y \<Longrightarrow> lock_inv x \<Longrightarrow> lock_inv y"
proof (induction rule: lock_step.induct)
  case (take lk h s s' cs)
  note a = acquire_Ok [OF take.hyps]
  have "lk \<notin> cs h" using take.prems a(1) by (simp add: lock_inv_def on_hart_def)
  then show ?case
    using take.prems a by (auto simp: lock_inv_def on_hart_def)
next
  case (drop lk cs h s s')
  note r = release_Ok [OF drop.hyps(2)]
  have card: "card (cs h - {lk}) = card (cs h) - 1" "0 < card (cs h)"
    using drop.hyps(1) drop.prems by (auto simp: lock_inv_def card_gt_0_iff)
  have off: "\<not> sie s' h" if "cs h - {lk} \<noteq> {}"
  proof -
    have "0 < card (cs h - {lk})" using that drop.prems by (auto simp: lock_inv_def card_gt_0_iff)
    then have "1 < noff (cpus (on_hart h s) h)"
      using card drop.prems by (auto simp: lock_inv_def on_hart_def)
    moreover have "cs h \<noteq> {}" using drop.hyps(1) by blast
    then have "\<not> sie s h" using drop.prems by (simp add: lock_inv_def)
    ultimately show ?thesis using r(5) [of h] by (simp add: on_hart_def)
  qed
  show ?case
    using drop.prems drop.hyps(1) r card off
    by (auto simp: lock_inv_def on_hart_def of_nat_diff)
qed

lemma lock_reach_inv: "lock_reach x \<Longrightarrow> lock_inv x"
  by (induction rule: lock_reach.induct) (auto intro: lock_inv_init lock_step_inv)

section \<open>Mutual exclusion\<close>


definition idle_spin :: spinst where
  "idle_spin = \<lparr>locks = (\<lambda>_. \<lparr>locked = False, lkname = [], lkcpu = None\<rparr>),
     cpus = (\<lambda>_. \<lparr>cpu_proc = None, noff = 0, intena = True\<rparr>), sie = (\<lambda>_. True), hart = 0\<rparr>"


end
