(* ===== verification/Buddy.thy ===== *)
theory Buddy
  imports Klist Spinlock
begin

text \<open>
  The buddy allocator, \<open>kernel/buddy.c\<close>. Each block size \<open>k\<close> (blocks of \<open>16 * 2^k\<close> bytes) has a
  free list, a \<open>split\<close> bit per block and one \<open>alloc\<close> bit per \<^emph>\<open>pair\<close> of buddies, the exclusive or
  of their two "allocated" flags. The bit arrays are byte lists; reading or writing beyond one is
  a \<open>Fault\<close>. The list nodes live in the free blocks themselves and are the split heap of theory
  \<open>Klist\<close>. Functions named \<open>\<dots>_locked\<close> are the code between \<open>acquire(&lock)\<close> and \<open>release(&lock)\<close>.
  What \<open>printf\<close> sends to the console is not part of the allocator's state.
\<close>

section \<open>Sizes and addresses\<close>

record sz_info =
  sz_free :: addr
  sz_alloc :: "u8 list"
  sz_split :: "u8 list"

record bd =
  nsizes :: nat
  bd_sizes :: "sz_info list"
  bd_base :: addr
  bd_heap :: lheap

definition LEAF_SIZE :: int where
  "LEAF_SIZE = 16"

definition SZ_INFO_SIZE :: int where
  "SZ_INFO_SIZE = 32"

definition MAXSIZE :: "bd \<Rightarrow> nat" where
  "MAXSIZE b = nsizes b - 1"

definition BLK_SIZE :: "nat \<Rightarrow> int" where
  "BLK_SIZE k = 2 ^ k * LEAF_SIZE"

definition HEAP_SIZE :: "bd \<Rightarrow> int" where
  "HEAP_SIZE b = BLK_SIZE (MAXSIZE b)"

definition NBLK :: "bd \<Rightarrow> nat \<Rightarrow> int" where
  "NBLK b k = 2 ^ (MAXSIZE b - k)"

definition ROUNDUP :: "int \<Rightarrow> int \<Rightarrow> int" where
  "ROUNDUP n sz = (cdiv (n - 1) sz + 1) * sz"

text \<open>The same macro at type \<open>uint64\<close>, where \<open>n - 1\<close> wraps around.\<close>

definition ROUNDUP_u64 :: "int \<Rightarrow> int \<Rightarrow> int" where
  "ROUNDUP_u64 n sz = ((((n - 1) mod 2 ^ 64) div sz + 1) * sz) mod 2 ^ 64"

section \<open>Bit arrays\<close>

definition bit_isset :: "u8 list \<Rightarrow> int \<Rightarrow> bool option" where
  "bit_isset a i =
     (if 0 \<le> i \<and> nat i div 8 < length a
      then Some ((a ! (nat i div 8) AND bitmask (nat i)) = bitmask (nat i)) else None)"

definition bit_set :: "u8 list \<Rightarrow> int \<Rightarrow> u8 list option" where
  "bit_set a i =
     (if 0 \<le> i \<and> nat i div 8 < length a
      then Some (a[nat i div 8 := a ! (nat i div 8) OR bitmask (nat i)]) else None)"

definition bit_clear :: "u8 list \<Rightarrow> int \<Rightarrow> u8 list option" where
  "bit_clear a i =
     (if 0 \<le> i \<and> nat i div 8 < length a
      then Some (a[nat i div 8 := a ! (nat i div 8) AND NOT (bitmask (nat i))]) else None)"

definition bit_invert :: "u8 list \<Rightarrow> int \<Rightarrow> u8 list option" where
  "bit_invert a i =
     (if 0 \<le> i \<and> nat i div 8 < length a
      then Some (a[nat i div 8 := a ! (nat i div 8) XOR bitmask (nat i)]) else None)"

text \<open>
  \<open>bd_print_vector\<close> prints the ranges \<open>[lb, b)\<close>; the model returns the list of ranges printed.
\<close>

function print_vector_loop :: "u8 list \<Rightarrow> int \<Rightarrow> int \<Rightarrow> bool \<Rightarrow> int \<Rightarrow> (int \<times> int) list \<Rightarrow>
    ((int \<times> int) list \<times> bool \<times> int) option" where
  "print_vector_loop v len b lastv lb out =
     (if b < len
      then (case bit_isset v b of
              None \<Rightarrow> None
            | Some x \<Rightarrow>
                if lastv = x then print_vector_loop v len (b + 1) lastv lb out
                else print_vector_loop v len (b + 1) x b (if lastv then out @ [(lb, b)] else out))
      else Some (out, lastv, lb))"
  by pat_completeness auto
termination
  by (relation "measure (\<lambda>(v, len, b, _). nat (len - b))") auto

declare print_vector_loop.simps [simp del]

definition bd_print_vector :: "u8 list \<Rightarrow> int \<Rightarrow> (int \<times> int) list option" where
  "bd_print_vector v len =
     (case print_vector_loop v len 0 True 0 [] of
        None \<Rightarrow> None
      | Some (out, lastv, lb) \<Rightarrow> Some (if lb = 0 \<or> lastv then out @ [(lb, len)] else out))"

section \<open>Accessing the size table\<close>

definition szi :: "bd \<Rightarrow> nat \<Rightarrow> sz_info option" where
  "szi b k = (if k < length (bd_sizes b) then Some (bd_sizes b ! k) else None)"

definition set_szi :: "nat \<Rightarrow> sz_info \<Rightarrow> bd \<Rightarrow> bd" where
  "set_szi k z b = b\<lparr>bd_sizes := (bd_sizes b)[k := z]\<rparr>"

definition alloc_isset :: "nat \<Rightarrow> int \<Rightarrow> bd \<Rightarrow> (bd, bool) res" where
  "alloc_isset k i b =
     orfault ''bd_sizes'' (szi b k) (\<lambda>z. orfault ''alloc'' (bit_isset (sz_alloc z) i) (\<lambda>x. Ok x b))"

definition alloc_invert :: "nat \<Rightarrow> int \<Rightarrow> bd \<Rightarrow> (bd, unit) res" where
  "alloc_invert k i b =
     orfault ''bd_sizes'' (szi b k) (\<lambda>z. orfault ''alloc'' (bit_invert (sz_alloc z) i)
       (\<lambda>a. Ok () (set_szi k (z\<lparr>sz_alloc := a\<rparr>) b)))"

definition split_isset :: "nat \<Rightarrow> int \<Rightarrow> bd \<Rightarrow> (bd, bool) res" where
  "split_isset k i b =
     orfault ''bd_sizes'' (szi b k) (\<lambda>z. orfault ''split'' (bit_isset (sz_split z) i) (\<lambda>x. Ok x b))"

definition split_set :: "nat \<Rightarrow> int \<Rightarrow> bd \<Rightarrow> (bd, unit) res" where
  "split_set k i b =
     orfault ''bd_sizes'' (szi b k) (\<lambda>z. orfault ''split'' (bit_set (sz_split z) i)
       (\<lambda>a. Ok () (set_szi k (z\<lparr>sz_split := a\<rparr>) b)))"

definition split_clear :: "nat \<Rightarrow> int \<Rightarrow> bd \<Rightarrow> (bd, unit) res" where
  "split_clear k i b =
     orfault ''bd_sizes'' (szi b k) (\<lambda>z. orfault ''split'' (bit_clear (sz_split z) i)
       (\<lambda>a. Ok () (set_szi k (z\<lparr>sz_split := a\<rparr>) b)))"

definition free_empty :: "nat \<Rightarrow> bd \<Rightarrow> (bd, bool) res" where
  "free_empty k b = orfault ''bd_sizes'' (szi b k) (\<lambda>z. Ok (lst_empty (sz_free z) (bd_heap b)) b)"

definition free_push :: "nat \<Rightarrow> addr \<Rightarrow> bd \<Rightarrow> (bd, unit) res" where
  "free_push k p b =
     orfault ''bd_sizes'' (szi b k) (\<lambda>z. Ok () (b\<lparr>bd_heap := lst_push (sz_free z) p (bd_heap b)\<rparr>))"

definition free_pop :: "nat \<Rightarrow> bd \<Rightarrow> (bd, addr) res" where
  "free_pop k b =
     orfault ''bd_sizes'' (szi b k)
       (\<lambda>z. liftr bd_heap (\<lambda>h. bd_heap_update (\<lambda>_. h)) (lst_pop (sz_free z)) b)"

text \<open>
  \<open>bd_print\<close> shows, for every size, the free list and the two bit vectors. It asks for \<open>NBLK(k)\<close>
  bits of both; the \<open>alloc\<close> array has half as many.
\<close>

fun bd_print_from :: "nat \<Rightarrow> nat \<Rightarrow> bd \<Rightarrow> (bd, (addr list \<times> (int \<times> int) list \<times> (int \<times> int) list) list) res" where
  "bd_print_from 0 k b = Ok [] b"
| "bd_print_from (Suc n) k b =
     orfault ''bd_sizes'' (szi b k) (\<lambda>z.
       case lst_print (sz_free z) (bd_heap b) of
         None \<Rightarrow> Diverge
       | Some ps \<Rightarrow>
           orfault ''alloc'' (bd_print_vector (sz_alloc z) (NBLK b k)) (\<lambda>va.
             orfault ''split'' (if 0 < k then bd_print_vector (sz_split z) (NBLK b k) else Some []) (\<lambda>vs.
               bindr (bd_print_from n (Suc k) b) (\<lambda>out b. Ok ((ps, va, vs) # out) b))))"

definition bd_print :: "bd \<Rightarrow> (bd, (addr list \<times> (int \<times> int) list \<times> (int \<times> int) list) list) res" where
  "bd_print b = bd_print_from (nsizes b) 0 b"

section \<open>Finding sizes and indices\<close>

text \<open>\<open>size\<close> doubles in 64 bits: for \<open>n > 2^63\<close> it wraps to 0 and the loop does not end.\<close>

partial_function (option) firstk_loop :: "u64 \<Rightarrow> u64 \<Rightarrow> nat \<Rightarrow> nat option" where
  "firstk_loop n sz k = (if sz < n then firstk_loop n (sz * 2) (k + 1) else Some k)"

declare firstk_loop.simps [code]

definition firstk :: "u64 \<Rightarrow> nat option" where
  "firstk n = firstk_loop n 16 0"

definition blk_index :: "bd \<Rightarrow> nat \<Rightarrow> addr \<Rightarrow> int" where
  "blk_index b k p = (let n = s32 (p - bd_base b) in s32 (cdiv n (BLK_SIZE k)))"

definition bd_addr :: "bd \<Rightarrow> nat \<Rightarrow> int \<Rightarrow> addr" where
  "bd_addr b k bi = (let n = s32 (bi * BLK_SIZE k) in bd_base b + n)"

definition buddy_of :: "int \<Rightarrow> int" where
  "buddy_of bi = (if cmod bi 2 = 0 then bi + 1 else bi - 1)"

section \<open>Allocation\<close>

text \<open>The search loop, the split loop and the body of \<open>bd_malloc\<close>.\<close>

function find_free :: "nat \<Rightarrow> bd \<Rightarrow> (bd, nat) res" where
  "find_free k b =
     (if k < nsizes b
      then bindr (free_empty k b) (\<lambda>e _. if \<not> e then Ok k b else find_free (k + 1) b)
      else Ok k b)"
  by pat_completeness auto
termination
  by (relation "measure (\<lambda>(k, b). nsizes b - k)") auto

declare find_free.simps [simp del]

fun split_loop :: "nat \<Rightarrow> nat \<Rightarrow> addr \<Rightarrow> bd \<Rightarrow> (bd, unit) res" where
  "split_loop fk 0 p b = Ok () b"
| "split_loop fk (Suc k) p b =
     (if Suc k > fk
      then let q = p + BLK_SIZE k in
           bindr (split_set (Suc k) (blk_index b (Suc k) p) b) (\<lambda>_ b.
           bindr (alloc_invert k (cdiv (blk_index b k p) 2) b) (\<lambda>_ b.
           bindr (free_push k q b) (\<lambda>_ b.
           split_loop fk k p b)))
      else Ok () b)"

definition bd_malloc_locked :: "u64 \<Rightarrow> bd \<Rightarrow> (bd, addr) res" where
  "bd_malloc_locked nbytes b =
     (case firstk nbytes of
        None \<Rightarrow> Diverge
      | Some fk \<Rightarrow>
          bindr (find_free fk b) (\<lambda>k b.
          if k \<ge> nsizes b then Ok 0 b
          else bindr (free_pop k b) (\<lambda>p b.
               bindr (alloc_invert k (cdiv (blk_index b k p) 2) b) (\<lambda>_ b.
               bindr (split_loop fk k p b) (\<lambda>_ b. Ok p b)))))"

section \<open>Deallocation\<close>

function size_loop :: "nat \<Rightarrow> addr \<Rightarrow> bd \<Rightarrow> (bd, nat) res" where
  "size_loop k p b =
     (if k < nsizes b
      then bindr (split_isset (k + 1) (blk_index b (k + 1) p) b) (\<lambda>x _.
           if x then Ok k b else size_loop (k + 1) p b)
      else Ok 0 b)"
  by pat_completeness auto
termination
  by (relation "measure (\<lambda>(k, p, b). nsizes b - k)") auto

declare size_loop.simps [simp del]

definition bd_size :: "addr \<Rightarrow> bd \<Rightarrow> (bd, nat) res" where
  "bd_size p b = size_loop 0 p b"

fun free_loop :: "nat \<Rightarrow> nat \<Rightarrow> addr \<Rightarrow> bd \<Rightarrow> (bd, unit) res" where
  "free_loop 0 k p b = free_push k p b"
| "free_loop (Suc n) k p b =
     (let bi = blk_index b k p; buddy = buddy_of bi in
      bindr (alloc_invert k (cdiv buddy 2) b) (\<lambda>_ b.
      bindr (alloc_isset k (cdiv buddy 2) b) (\<lambda>x b.
      if x then free_push k p b
      else let q = bd_addr b k buddy;
               b = b\<lparr>bd_heap := lst_remove q (bd_heap b)\<rparr>;
               p = (if cmod buddy 2 = 0 then q else p) in
           bindr (split_clear (k + 1) (blk_index b (k + 1) p) b) (\<lambda>_ b.
           free_loop n (k + 1) p b))))"

text \<open>The loop runs while \<open>k < MAXSIZE\<close>: at most \<open>MAXSIZE - k\<close> times from \<open>k\<close>.\<close>

definition bd_free_locked :: "addr \<Rightarrow> bd \<Rightarrow> (bd, unit) res" where
  "bd_free_locked p b = bindr (bd_size p b) (\<lambda>k b. free_loop (MAXSIZE b - k) k p b)"

section \<open>Initialisation\<close>

definition blk_index_next :: "bd \<Rightarrow> nat \<Rightarrow> addr \<Rightarrow> int" where
  "blk_index_next b k p =
     (let n = s32 (cdiv (p - bd_base b) (BLK_SIZE k)) in
      if cmod (p - bd_base b) (BLK_SIZE k) \<noteq> 0 then n + 1 else n)"

function log2_loop :: "u64 \<Rightarrow> nat \<Rightarrow> nat" where
  "log2_loop n k = (if n > 1 then log2_loop (drop_bit 1 n) (k + 1) else k)"
  by pat_completeness auto
termination
  by (relation "measure (\<lambda>(n, k). unat n)")
     (auto simp: drop_bit_eq_div unat_div word_less_nat_alt)

declare log2_loop.simps [simp del]

definition log2 :: "u64 \<Rightarrow> nat" where
  "log2 n = log2_loop n 0"

function mark_row :: "nat \<Rightarrow> int \<Rightarrow> int \<Rightarrow> bd \<Rightarrow> (bd, unit) res" where
  "mark_row k bi bj b =
     (if bi < bj
      then bindr (if k > 0 then split_set k bi b else Ok () b) (\<lambda>_ b.
           bindr (alloc_invert k (cdiv bi 2) b) (\<lambda>_ b.
           mark_row k (bi + 1) bj b))
      else Ok () b)"
  by pat_completeness auto
termination
  by (relation "measure (\<lambda>(k, bi, bj, b). nat (bj - bi))") auto

declare mark_row.simps [simp del]

fun mark_rows :: "nat list \<Rightarrow> addr \<Rightarrow> addr \<Rightarrow> bd \<Rightarrow> (bd, unit) res" where
  "mark_rows [] start stop b = Ok () b"
| "mark_rows (k # ks) start stop b =
     bindr (mark_row k (blk_index b k start) (blk_index_next b k stop) b) (\<lambda>_ b.
     mark_rows ks start stop b)"

definition bd_mark :: "addr \<Rightarrow> addr \<Rightarrow> bd \<Rightarrow> (bd, unit) res" where
  "bd_mark start stop b =
     (if start mod LEAF_SIZE \<noteq> 0 \<or> stop mod LEAF_SIZE \<noteq> 0 then Panic ''bd_mark''
      else mark_rows [0..<nsizes b] start stop b)"

definition bd_initfree_pair :: "nat \<Rightarrow> int \<Rightarrow> bool \<Rightarrow> bd \<Rightarrow> (bd, int) res" where
  "bd_initfree_pair k bi is_right b =
     (let buddy = buddy_of bi in
      bindr (alloc_isset k (cdiv bi 2) b) (\<lambda>x b.
      if x then bindr (free_push k (bd_addr b k (if is_right then buddy else bi)) b)
                  (\<lambda>_ b. Ok (s32 (BLK_SIZE k)) b)
      else Ok 0 b))"

fun initfree_rows :: "nat list \<Rightarrow> addr \<Rightarrow> addr \<Rightarrow> int \<Rightarrow> bd \<Rightarrow> (bd, int) res" where
  "initfree_rows [] bd_left bd_right free b = Ok free b"
| "initfree_rows (k # ks) bd_left bd_right free b =
     (let left = blk_index_next b k bd_left; right = blk_index b k bd_right in
      bindr (bd_initfree_pair k left False b) (\<lambda>f b.
      let free = s32 (free + f) in
      if right \<le> left then initfree_rows ks bd_left bd_right free b
      else bindr (bd_initfree_pair k right True b) (\<lambda>f b.
           initfree_rows ks bd_left bd_right (s32 (free + f)) b)))"

definition bd_initfree :: "addr \<Rightarrow> addr \<Rightarrow> bd \<Rightarrow> (bd, int) res" where
  "bd_initfree bd_left bd_right b = initfree_rows [0..<MAXSIZE b] bd_left bd_right 0 b"

definition bd_mark_data_structures :: "addr \<Rightarrow> bd \<Rightarrow> (bd, int) res" where
  "bd_mark_data_structures p b =
     (let meta = s32 (p - bd_base b) in
      bindr (bd_mark (bd_base b) p b) (\<lambda>_ b. Ok meta b))"

definition bd_mark_unavailable :: "addr \<Rightarrow> bd \<Rightarrow> (bd, int) res" where
  "bd_mark_unavailable end b =
     (let unavailable = s32 (BLK_SIZE (MAXSIZE b) - (end - bd_base b));
          unavailable = (if unavailable > 0 then s32 (ROUNDUP unavailable LEAF_SIZE) else unavailable);
          bd_end = bd_base b + BLK_SIZE (MAXSIZE b) - unavailable in
      bindr (bd_mark bd_end (bd_base b + BLK_SIZE (MAXSIZE b)) b) (\<lambda>_ b. Ok unavailable b))"

text \<open>The number of sizes, the byte counts of the two bit arrays of a size, and the size table.\<close>

definition init_nsizes :: "int \<Rightarrow> nat" where
  "init_nsizes n =
     (let ns = log2 (word_of_int (cdiv n LEAF_SIZE)) + 1 in
      if n > BLK_SIZE (ns - 1) then ns + 1 else ns)"

definition alloc_bytes :: "nat \<Rightarrow> nat \<Rightarrow> nat" where
  "alloc_bytes ns k = nat (cdiv (ROUNDUP (2 ^ (ns - 1 - k)) 16) 16)"

definition split_bytes :: "nat \<Rightarrow> nat \<Rightarrow> nat" where
  "split_bytes ns k = nat (cdiv (ROUNDUP (2 ^ (ns - 1 - k)) 8) 8)"

definition init_sizes :: "addr \<Rightarrow> nat \<Rightarrow> sz_info list" where
  "init_sizes p ns =
     map (\<lambda>k. \<lparr>sz_free = p + SZ_INFO_SIZE * int k,
               sz_alloc = replicate (alloc_bytes ns k) 0,
               sz_split = (if k = 0 then [] else replicate (split_bytes ns k) 0)\<rparr>) [0..<ns]"

definition init_meta_end :: "addr \<Rightarrow> nat \<Rightarrow> addr" where
  "init_meta_end p ns =
     ROUNDUP_u64 (p + SZ_INFO_SIZE * int ns + int (\<Sum>k<ns. alloc_bytes ns k)
                    + int (\<Sum>k\<in>{1..<ns}. split_bytes ns k)) LEAF_SIZE"

text \<open>\<open>bd_init\<close> on memory whose list fields initially hold \<open>h\<close>; \<open>initlock\<close> is in \<open>kinit\<close>'s theory.\<close>

definition bd_init_body :: "addr \<Rightarrow> addr \<Rightarrow> lheap \<Rightarrow> (bd, unit) res" where
  "bd_init_body base end h =
     (let p = ROUNDUP_u64 base LEAF_SIZE;
          ns = init_nsizes (end - p);
          sizes = init_sizes p ns;
          h = fold (\<lambda>k. lst_init (sz_free (sizes ! k))) [0..<ns] h;
          b = \<lparr>nsizes = ns, bd_sizes = sizes, bd_base = p, bd_heap = h\<rparr>;
          p = init_meta_end p ns in
      bindr (bd_mark_data_structures p b) (\<lambda>meta b.
      bindr (bd_mark_unavailable end b) (\<lambda>unavailable b.
      let bd_end = bd_base b + BLK_SIZE (MAXSIZE b) - unavailable in
      bindr (bd_initfree p bd_end b) (\<lambda>free b.
      if free \<noteq> BLK_SIZE (MAXSIZE b) - meta - unavailable then Panic ''bd_init: free mem''
      else Ok () b))))"

end
