(* ===== verification/Buddy_Inv.thy ===== *)
theory Buddy_Inv
  imports Buddy
begin

text \<open>
  What the allocator's data structures mean, and that \<open>bd_malloc\<close> and \<open>bd_free\<close> keep it. The ghost
  \<open>st\<close> gives every block \<open>(k, i)\<close> of the binary tree a status. \<open>bd_inv b st\<close> says how the free lists,
  the \<open>split\<close> bits and the exclusive-or \<open>alloc\<close> bits of \<open>b\<close> encode \<open>st\<close>; \<open>bd_rel b L\<close> abstracts \<open>b\<close> to
  the set \<open>L\<close> of live blocks.
\<close>

section \<open>The tree of blocks\<close>

datatype bstat = NoBlk | FreeB | LiveB | SplitB

type_synonym btree = "nat \<Rightarrow> nat \<Rightarrow> bstat"
type_synonym blk = "nat \<times> nat"

definition used :: "bstat \<Rightarrow> bool" where
  "used x \<longleftrightarrow> x = LiveB \<or> x = SplitB"

definition upd :: "btree \<Rightarrow> nat \<Rightarrow> nat \<Rightarrow> bstat \<Rightarrow> btree" where
  "upd st k i v = (\<lambda>k' i'. if k' = k \<and> i' = i then v else st k' i')"

definition live :: "btree \<Rightarrow> blk set" where
  "live st = {(k, i). st k i = LiveB}"

definition leaves :: "blk \<Rightarrow> nat set" where
  "leaves x = {snd x * 2 ^ fst x ..< (snd x + 1) * 2 ^ fst x}"

definition in_heap :: "nat \<Rightarrow> blk \<Rightarrow> bool" where
  "in_heap M x \<longleftrightarrow> fst x \<le> M \<and> snd x < 2 ^ (M - fst x)"

definition tree_ok :: "nat \<Rightarrow> btree \<Rightarrow> bool" where
  "tree_ok M st \<longleftrightarrow>
     (\<forall>k i. st k i \<noteq> NoBlk \<longrightarrow> in_heap M (k, i)) \<and>
     st M 0 \<noteq> NoBlk \<and>
     (\<forall>k i. k < M \<longrightarrow> i < 2 ^ (M - k) \<longrightarrow> (st k i \<noteq> NoBlk \<longleftrightarrow> st (Suc k) (i div 2) = SplitB)) \<and>
     (\<forall>i. st 0 i \<noteq> SplitB)"

text \<open>Freed buddies are always merged.\<close>

definition coalesced :: "nat \<Rightarrow> btree \<Rightarrow> bool" where
  "coalesced M st \<longleftrightarrow> (\<forall>k j. k < M \<longrightarrow> \<not> (st k (2 * j) = FreeB \<and> st k (2 * j + 1) = FreeB))"

lemma leaves_iff: "l \<in> leaves (k, i) \<longleftrightarrow> l div 2 ^ k = i"
proof
  assume "l \<in> leaves (k, i)"
  then have "i * 2 ^ k \<le> l" "l < (i + 1) * 2 ^ k" by (auto simp: leaves_def)
  then show "l div 2 ^ k = i"
    by (intro div_nat_eqI) (auto simp: mult.commute)
next
  assume "l div 2 ^ k = i"
  then show "l \<in> leaves (k, i)"
    using div_times_less_eq_dividend [of l "2 ^ k"] dividend_less_div_times [of "2 ^ k" l]
    by (simp add: leaves_def)
qed

lemma div_pow_Suc: "(l::nat) div 2 ^ Suc k = l div 2 ^ k div 2"
  by (simp add: div_mult2_eq [symmetric] mult.commute)

lemma pow_minus_Suc: "k < M \<Longrightarrow> (2::nat) ^ (M - k) = 2 * 2 ^ (M - Suc k)"
  by (metis Suc_diff_Suc power_Suc)

lemma leaves_nonempty: "i * 2 ^ k \<in> leaves (k, i)"
  by (simp add: leaves_iff)

lemma leaves_parent: "leaves (k, i) \<subseteq> leaves (Suc k, i div 2)"
  by (auto simp: leaves_iff div_pow_Suc simp del: power_Suc)

lemma in_heap_parent: "in_heap M (k, i) \<Longrightarrow> k < M \<Longrightarrow> in_heap M (Suc k, i div 2)"
proof -
  assume "in_heap M (k, i)" "k < M"
  then have "i < 2 * 2 ^ (M - Suc k)" by (simp add: in_heap_def pow_minus_Suc)
  with \<open>k < M\<close> show ?thesis by (auto simp: in_heap_def)
qed

lemma tree_in_heap: "tree_ok M st \<Longrightarrow> st k i \<noteq> NoBlk \<Longrightarrow> in_heap M (k, i)"
  by (simp add: tree_ok_def)

lemma tree_parent:
  "tree_ok M st \<Longrightarrow> in_heap M (k, i) \<Longrightarrow> k < M \<Longrightarrow> st k i \<noteq> NoBlk \<longleftrightarrow> st (Suc k) (i div 2) = SplitB"
  by (simp add: tree_ok_def in_heap_def)

lemma tree_leaf: "tree_ok M st \<Longrightarrow> st 0 i \<noteq> SplitB"
  by (simp add: tree_ok_def)

lemma tree_anc:
  assumes "tree_ok M st" and "st k i \<noteq> NoBlk" and "k < j" and "j \<le> M"
  shows "st j (i div 2 ^ (j - k)) = SplitB"
proof -
  have "\<And>m. k + Suc m \<le> M \<Longrightarrow> st (k + Suc m) (i div 2 ^ Suc m) = SplitB"
  proof -
    fix m show "k + Suc m \<le> M \<Longrightarrow> st (k + Suc m) (i div 2 ^ Suc m) = SplitB"
    proof (induction m)
      case 0
      have "in_heap M (k, i)" by (rule tree_in_heap [OF assms(1,2)])
      from tree_parent [OF assms(1) this] 0 assms(2) show ?case by simp
    next
      case (Suc m)
      let ?k = "k + Suc m" and ?i = "i div 2 ^ Suc m"
      have s: "st ?k ?i = SplitB" using Suc by auto
      then have "in_heap M (?k, ?i)" by (intro tree_in_heap [OF assms(1)]) simp
      from tree_parent [OF assms(1) this] s Suc.prems have "st (Suc ?k) (?i div 2) = SplitB"
        by simp
      moreover have "?i div 2 = i div 2 ^ Suc (Suc m)"
        by (simp only: div_pow_Suc)
      ultimately show ?case by simp
    qed
  qed
  moreover obtain m where "j = k + Suc m" using assms(3) less_imp_Suc_add by auto
  ultimately show ?thesis using assms(4) by (metis add_diff_cancel_left')
qed

text \<open>Two blocks that are free or live overlap only if they are the same block.\<close>

lemma tree_overlap:
  assumes t: "tree_ok M st"
    and a: "st k i = FreeB \<or> st k i = LiveB" and b: "st j i' = FreeB \<or> st j i' = LiveB"
    and l: "l \<in> leaves (k, i)" "l \<in> leaves (j, i')"
  shows "k = j \<and> i = i'"
proof -
  have *: False if "st k i = FreeB \<or> st k i = LiveB" "st j i' = FreeB \<or> st j i' = LiveB"
      "l div 2 ^ k = i" "l div 2 ^ j = i'" "k < j" for k i j i'
  proof -
    have "in_heap M (j, i')" using that(2) by (intro tree_in_heap [OF t]) auto
    then have "j \<le> M" by (simp add: in_heap_def)
    have "st j (i div 2 ^ (j - k)) = SplitB"
      using tree_anc [OF t _ \<open>k < j\<close> \<open>j \<le> M\<close>] that(1) by auto
    moreover have "i div 2 ^ (j - k) = i'"
    proof -
      have "(2::nat) ^ j = 2 ^ k * 2 ^ (j - k)" using \<open>k < j\<close> by (simp flip: power_add)
      then show ?thesis using that(3,4) by (metis div_mult2_eq)
    qed
    ultimately show False using that(2) by auto
  qed
  have "l div 2 ^ k = i" "l div 2 ^ j = i'" using l by (simp_all add: leaves_iff)
  with * [OF a b] * [OF b a] show ?thesis by (metis linorder_neqE_nat)
qed

text \<open>Every leaf of the heap lies in a free or a live block.\<close>

lemma tree_cover:
  assumes t: "tree_ok M st"
  shows "st k i = SplitB \<Longrightarrow> l \<in> leaves (k, i) \<Longrightarrow>
    \<exists>j i'. j < k \<and> l \<in> leaves (j, i') \<and> leaves (j, i') \<subseteq> leaves (k, i) \<and> (st j i' = FreeB \<or> st j i' = LiveB)"
proof (induction k arbitrary: i)
  case 0
  with tree_leaf [OF t] show ?case by simp
next
  case (Suc k)
  let ?c = "l div 2 ^ k"
  have ci: "?c div 2 = i" using Suc.prems(2) by (simp add: leaves_iff div_pow_Suc del: power_Suc)
  have lc: "l \<in> leaves (k, ?c)" by (simp add: leaves_iff)
  have sub: "leaves (k, ?c) \<subseteq> leaves (Suc k, i)" using leaves_parent [of k ?c] ci by simp
  have h: "in_heap M (Suc k, i)" using Suc.prems(1) by (intro tree_in_heap [OF t]) simp
  then have k: "k < M" and "i < 2 ^ (M - Suc k)" by (auto simp: in_heap_def)
  then have "?c < 2 ^ (M - k)" using ci by (simp add: pow_minus_Suc)
  with tree_parent [OF t, of k ?c] k ci Suc.prems(1) have "st k ?c \<noteq> NoBlk"
    by (simp add: in_heap_def)
  then consider "st k ?c = FreeB \<or> st k ?c = LiveB" | "st k ?c = SplitB" by (cases "st k ?c") auto
  then show ?case
  proof cases
    case 1
    with lc sub show ?thesis by blast
  next
    case 2
    from Suc.IH [OF this lc] sub show ?thesis by (meson less_SucI order_trans)
  qed
qed

text \<open>A split block always holds a live block: otherwise its two halves would have been merged.\<close>

lemma split_has_live:
  assumes t: "tree_ok M st" and c: "coalesced M st"
  shows "st k i = SplitB \<Longrightarrow> \<exists>j i'. st j i' = LiveB \<and> leaves (j, i') \<subseteq> leaves (k, i)"
proof (induction k arbitrary: i)
  case 0
  with tree_leaf [OF t] show ?case by simp
next
  case (Suc k)
  have h: "in_heap M (Suc k, i)" using Suc.prems by (intro tree_in_heap [OF t]) simp
  then have k: "k < M" by (simp add: in_heap_def)
  have "2 * i + 1 < 2 * 2 ^ (M - Suc k)" using h by (simp add: in_heap_def)
  then have b: "2 * i + 1 < 2 ^ (M - k)" using k by (simp add: pow_minus_Suc)
  have n: "st k (2 * i) \<noteq> NoBlk" "st k (2 * i + 1) \<noteq> NoBlk"
    using tree_parent [OF t, of k "2 * i"] tree_parent [OF t, of k "2 * i + 1"] k b Suc.prems
    by (simp_all add: in_heap_def)
  have sub: "leaves (k, 2 * i) \<subseteq> leaves (Suc k, i)" "leaves (k, 2 * i + 1) \<subseteq> leaves (Suc k, i)"
    using leaves_parent [of k "2 * i"] leaves_parent [of k "2 * i + 1"] by simp_all
  have "\<not> (st k (2 * i) = FreeB \<and> st k (2 * i + 1) = FreeB)" using c k by (auto simp: coalesced_def)
  with n consider c where "c = 2 * i \<or> c = 2 * i + 1" "st k c = LiveB"
    | c where "c = 2 * i \<or> c = 2 * i + 1" "st k c = SplitB"
    by (metis bstat.exhaust)
  then show ?case
  proof cases
    case 1
    with sub show ?thesis by blast
  next
    case 2
    from Suc.IH [OF 2(2)] 2(1) sub show ?thesis by blast
  qed
qed

section \<open>Changing the tree\<close>

text \<open>The three changes: a block becomes free or live, a live block is split, two halves are merged.\<close>

definition occupied :: "bstat \<Rightarrow> bool" where
  "occupied x \<longleftrightarrow> x = FreeB \<or> x = LiveB"

lemma occupied_simps [simp]:
  "occupied FreeB" "occupied LiveB" "\<not> occupied NoBlk" "\<not> occupied SplitB"
  by (simp_all add: occupied_def)

lemma occupied_not [dest]: "occupied x \<Longrightarrow> x \<noteq> NoBlk" "occupied x \<Longrightarrow> x \<noteq> SplitB"
  by (auto simp: occupied_def)

lemma upd_apply [simp]: "upd st k i v k' i' = (if k' = k \<and> i' = i then v else st k' i')"
  by (simp add: upd_def)

lemma tree_children:
  assumes "tree_ok M st" and "in_heap M (Suc k, i)"
  shows "st k (2 * i) \<noteq> NoBlk \<longleftrightarrow> st (Suc k) i = SplitB"
    and "st k (2 * i + 1) \<noteq> NoBlk \<longleftrightarrow> st (Suc k) i = SplitB"
    and "k < M" and "in_heap M (k, 2 * i)" and "in_heap M (k, 2 * i + 1)"
proof -
  show k: "k < M" using assms(2) by (simp add: in_heap_def)
  show h: "in_heap M (k, 2 * i)" "in_heap M (k, 2 * i + 1)"
    using assms(2) k by (auto simp: in_heap_def pow_minus_Suc)
  show "st k (2 * i) \<noteq> NoBlk \<longleftrightarrow> st (Suc k) i = SplitB" "st k (2 * i + 1) \<noteq> NoBlk \<longleftrightarrow> st (Suc k) i = SplitB"
    using tree_parent [OF assms(1) h(1) k] tree_parent [OF assms(1) h(2) k] by simp_all
qed

lemma tree_okI:
  assumes "\<And>k i. st k i \<noteq> NoBlk \<Longrightarrow> in_heap M (k, i)" and "st M 0 \<noteq> NoBlk"
    and "\<And>k i. k < M \<Longrightarrow> in_heap M (k, i) \<Longrightarrow> st k i \<noteq> NoBlk \<longleftrightarrow> st (Suc k) (i div 2) = SplitB"
    and "\<And>i. st 0 i \<noteq> SplitB"
  shows "tree_ok M st"
  using assms by (simp add: tree_ok_def in_heap_def)

lemma tree_upd:
  assumes t: "tree_ok M st" and o: "occupied (st k i)" "occupied v"
  shows "tree_ok M (upd st k i v)"
proof (rule tree_okI)
  fix k' i'
  show "upd st k i v k' i' \<noteq> NoBlk \<Longrightarrow> in_heap M (k', i')"
    using tree_in_heap [OF t, of k' i'] o by (auto split: if_splits)
  assume "k' < M" "in_heap M (k', i')"
  from tree_parent [OF t this(2,1)]
  show "upd st k i v k' i' \<noteq> NoBlk \<longleftrightarrow> upd st k i v (Suc k') (i' div 2) = SplitB"
    using o by (auto split: if_splits)
next
  show "upd st k i v M 0 \<noteq> NoBlk" using t o by (auto simp: tree_ok_def)
  show "upd st k i v 0 i' \<noteq> SplitB" for i' using tree_leaf [OF t] o by auto
qed

definition split_blk :: "btree \<Rightarrow> nat \<Rightarrow> nat \<Rightarrow> btree" where
  "split_blk st k i = upd (upd (upd st (Suc k) i SplitB) k (2 * i) LiveB) k (2 * i + 1) FreeB"

definition merge_blk :: "btree \<Rightarrow> nat \<Rightarrow> nat \<Rightarrow> btree" where
  "merge_blk st k i = upd (upd (upd st (Suc k) i LiveB) k (2 * i) NoBlk) k (2 * i + 1) NoBlk"

lemma half_cases: "(i'::nat) div 2 = i \<longleftrightarrow> i' = 2 * i \<or> i' = 2 * i + 1"
  by auto

lemma tree_split_blk:
  assumes t: "tree_ok M st" and l: "st (Suc k) i = LiveB"
  shows "tree_ok M (split_blk st k i)"
proof (rule tree_okI)
  have h: "in_heap M (Suc k, i)" using l by (intro tree_in_heap [OF t]) simp
  note ch = tree_children [OF t h]
  fix k' i'
  show "split_blk st k i k' i' \<noteq> NoBlk \<Longrightarrow> in_heap M (k', i')"
    using tree_in_heap [OF t, of k' i'] ch(4,5) h by (auto simp: split_blk_def split: if_splits)
  assume a: "k' < M" "in_heap M (k', i')"
  have p: "st k' i' \<noteq> NoBlk \<longleftrightarrow> st (Suc k') (i' div 2) = SplitB" by (rule tree_parent [OF t a(2,1)])
  show "split_blk st k i k' i' \<noteq> NoBlk \<longleftrightarrow> split_blk st k i (Suc k') (i' div 2) = SplitB"
  proof (cases "k' = k \<and> i' div 2 = i")
    case True
    then show ?thesis by (auto simp: split_blk_def half_cases)
  next
    case False
    then have "\<not> (k' = k \<and> (i' = 2 * i \<or> i' = 2 * i + 1))" by (auto simp: half_cases)
    with False p ch(1,2) l show ?thesis by (auto simp: split_blk_def)
  qed
next
  have h: "in_heap M (Suc k, i)" using l by (intro tree_in_heap [OF t]) simp
  show "split_blk st k i M 0 \<noteq> NoBlk" using t by (auto simp: split_blk_def tree_ok_def)
  show "split_blk st k i 0 i' \<noteq> SplitB" for i' using tree_leaf [OF t] by (auto simp: split_blk_def)
qed

lemma tree_merge_blk:
  assumes t: "tree_ok M st" and o: "occupied (st k (2 * i))" "occupied (st k (2 * i + 1))"
    and k: "k < M"
  shows "tree_ok M (merge_blk st k i)"
proof (rule tree_okI)
  have hk: "in_heap M (k, 2 * i)" using o by (intro tree_in_heap [OF t]) auto
  then have h: "in_heap M (Suc k, i)" using in_heap_parent [OF hk k] by simp
  note ch = tree_children [OF t h]
  have s: "st (Suc k) i = SplitB" using ch(1) o by auto
  fix k' i'
  show "merge_blk st k i k' i' \<noteq> NoBlk \<Longrightarrow> in_heap M (k', i')"
    using tree_in_heap [OF t, of k' i'] h by (auto simp: merge_blk_def split: if_splits)
  assume a: "k' < M" "in_heap M (k', i')"
  have p: "st k' i' \<noteq> NoBlk \<longleftrightarrow> st (Suc k') (i' div 2) = SplitB" by (rule tree_parent [OF t a(2,1)])
  show "merge_blk st k i k' i' \<noteq> NoBlk \<longleftrightarrow> merge_blk st k i (Suc k') (i' div 2) = SplitB"
  proof (cases "k' = k \<and> i' div 2 = i")
    case True
    then show ?thesis by (auto simp: merge_blk_def half_cases)
  next
    case False
    then have "\<not> (k' = k \<and> (i' = 2 * i \<or> i' = 2 * i + 1))" by (auto simp: half_cases)
    with False p s o show ?thesis by (auto simp: merge_blk_def split: if_splits)
  qed
next
  show "merge_blk st k i M 0 \<noteq> NoBlk" using t k by (auto simp: merge_blk_def tree_ok_def)
  show "merge_blk st k i 0 i' \<noteq> SplitB" for i' using tree_leaf [OF t] by (auto simp: merge_blk_def)
qed

lemma live_upd_Live: "live (upd st k i LiveB) = insert (k, i) (live st)"
  by (auto simp: live_def split: if_splits)

lemma live_upd_Free: "live (upd st k i FreeB) = live st - {(k, i)}"
  by (auto simp: live_def split: if_splits)

lemma live_split_blk: "st (Suc k) i = LiveB \<Longrightarrow> st k (2 * i + 1) = NoBlk \<Longrightarrow>
    live (split_blk st k i) = insert (k, 2 * i) (live st - {(Suc k, i)})"
  by (auto simp: live_def split_blk_def split: if_splits)

lemma live_merge_blk:
  "{st k (2 * i), st k (2 * i + 1)} = {LiveB, FreeB} \<Longrightarrow> st k j = LiveB \<Longrightarrow> j div 2 = i \<Longrightarrow>
    live (merge_blk st k i) = insert (Suc k, i) (live st - {(k, j)})"
  by (auto simp: live_def merge_blk_def half_cases doubleton_eq_iff split: if_splits)

section \<open>What the data structures represent\<close>

definition splitbit :: "bd \<Rightarrow> nat \<Rightarrow> nat \<Rightarrow> bool" where
  "splitbit b k i = getbit (sz_split (bd_sizes b ! k)) i"

definition allocbit :: "bd \<Rightarrow> nat \<Rightarrow> nat \<Rightarrow> bool" where
  "allocbit b k j = getbit (sz_alloc (bd_sizes b ! k)) j"

definition baddr :: "bd \<Rightarrow> nat \<Rightarrow> nat \<Rightarrow> addr" where
  "baddr b k i = bd_base b + LEAF_SIZE * int (i * 2 ^ k)"

definition head_addr :: "bd \<Rightarrow> nat \<Rightarrow> addr" where
  "head_addr b k = bd_base b + SZ_INFO_SIZE * int k"

text \<open>The shape of the size table; 27 sizes keep every byte offset of the heap within an \<open>int\<close>.\<close>

definition bd_wf :: "bd \<Rightarrow> bool" where
  "bd_wf b \<longleftrightarrow> 1 \<le> nsizes b \<and> nsizes b \<le> 27 \<and> length (bd_sizes b) = nsizes b \<and>
     (\<forall>k < nsizes b. length (sz_alloc (bd_sizes b ! k)) = alloc_bytes (nsizes b) k \<and>
        (0 < k \<longrightarrow> length (sz_split (bd_sizes b ! k)) = split_bytes (nsizes b) k) \<and>
        sz_free (bd_sizes b ! k) = head_addr b k)"

definition bits_ok :: "bd \<Rightarrow> btree \<Rightarrow> bool" where
  "bits_ok b st \<longleftrightarrow>
     (\<forall>k i. 0 < k \<longrightarrow> in_heap (MAXSIZE b) (k, i) \<longrightarrow> splitbit b k i = (st k i = SplitB)) \<and>
     (\<forall>k j. k < MAXSIZE b \<longrightarrow> j < 2 ^ (MAXSIZE b - Suc k) \<longrightarrow>
        allocbit b k j = (used (st k (2 * j)) \<noteq> used (st k (2 * j + 1))))"

definition lists_ok :: "bd \<Rightarrow> btree \<Rightarrow> bool" where
  "lists_ok b st \<longleftrightarrow> (\<exists>F. dlists (bd_heap b) (head_addr b) F (nsizes b) \<and>
     (\<forall>k < nsizes b. set (F k) = baddr b k ` {i. st k i = FreeB}))"

text \<open>
  The list heads lie in the first leaves of the heap, at \<open>2 * k\<close>; those leaves stay live. All the
  conditions together are the invariant.
\<close>

definition heads_live :: "bd \<Rightarrow> btree \<Rightarrow> bool" where
  "heads_live b st \<longleftrightarrow> (\<forall>k < nsizes b. st 0 (2 * k) = LiveB)"

definition bd_inv :: "bd \<Rightarrow> btree \<Rightarrow> bool" where
  "bd_inv b st \<longleftrightarrow> bd_wf b \<and> tree_ok (MAXSIZE b) st \<and> coalesced (MAXSIZE b) st \<and>
     bits_ok b st \<and> lists_ok b st \<and> heads_live b st"

text \<open>Blocks that hold a list head belong to the allocator; every other live block is a client's.\<close>

definition is_head :: "bd \<Rightarrow> blk \<Rightarrow> bool" where
  "is_head b x \<longleftrightarrow> (\<exists>k < nsizes b. x = (0, 2 * k))"

lemma ROUNDUP_div: "1 \<le> n \<Longrightarrow> 0 < m \<Longrightarrow> cdiv (ROUNDUP n m) m = (n - 1) div m + 1"
proof -
  assume "1 \<le> n" "0 < m"
  then have r: "ROUNDUP n m = ((n - 1) div m + 1) * m" and "0 \<le> (n - 1) div m"
    by (simp_all add: ROUNDUP_def cdiv_nonneg pos_imp_zdiv_nonneg_iff)
  then have "0 \<le> ROUNDUP n m" using \<open>0 < m\<close> by simp
  then have "cdiv (ROUNDUP n m) m = ROUNDUP n m div m" by (rule cdiv_nonneg) fact
  with r \<open>0 < m\<close> show ?thesis by simp
qed

lemma nat_ceil_16: "nat ((int x - 1) div 16 + 1) = (x + 15) div 16"
proof -
  have "(int x - 1) div 16 + 1 = ((int x - 1) + 16) div 16" by simp
  also have "\<dots> = (int x + 15) div 16" by simp
  also have "\<dots> = int ((x + 15) div 16)" by (simp add: zdiv_int)
  finally show ?thesis by simp
qed

lemma nat_ceil_8: "nat ((int x - 1) div 8 + 1) = (x + 7) div 8"
proof -
  have "(int x - 1) div 8 + 1 = ((int x - 1) + 8) div 8" by simp
  also have "\<dots> = (int x + 7) div 8" by simp
  also have "\<dots> = int ((x + 7) div 8)" by (simp add: zdiv_int)
  finally show ?thesis by simp
qed

lemma alloc_bytes_nat: "alloc_bytes ns k = (2 ^ (ns - 1 - k) + 15) div 16"
  using nat_ceil_16 [of "2 ^ (ns - 1 - k)"] by (simp add: alloc_bytes_def ROUNDUP_div)

lemma split_bytes_nat: "split_bytes ns k = (2 ^ (ns - 1 - k) + 7) div 8"
  using nat_ceil_8 [of "2 ^ (ns - 1 - k)"] by (simp add: split_bytes_def ROUNDUP_div)

lemma wf_sizes:
  assumes "bd_wf b"
  shows "nsizes b = Suc (MAXSIZE b)" and "MAXSIZE b \<le> 26" and "length (bd_sizes b) = nsizes b"
  using assms by (auto simp: bd_wf_def MAXSIZE_def)

lemma wf_lengths:
  assumes "bd_wf b" and "k \<le> MAXSIZE b"
  shows "length (sz_alloc (bd_sizes b ! k)) = (2 ^ (MAXSIZE b - k) + 15) div 16"
    and "0 < k \<Longrightarrow> length (sz_split (bd_sizes b ! k)) = (2 ^ (MAXSIZE b - k) + 7) div 8"
    and "szi b k = Some (bd_sizes b ! k)"
    and "sz_free (bd_sizes b ! k) = head_addr b k"
proof -
  note w = wf_sizes [OF assms(1)]
  have k: "k < nsizes b" using assms(2) w(1) by simp
  have m: "nsizes b - Suc k = MAXSIZE b - k" by (simp add: MAXSIZE_def)
  show "length (sz_alloc (bd_sizes b ! k)) = (2 ^ (MAXSIZE b - k) + 15) div 16"
    "0 < k \<Longrightarrow> length (sz_split (bd_sizes b ! k)) = (2 ^ (MAXSIZE b - k) + 7) div 8"
    "szi b k = Some (bd_sizes b ! k)"
    "sz_free (bd_sizes b ! k) = head_addr b k"
    using assms(1) k m by (auto simp: bd_wf_def alloc_bytes_nat split_bytes_nat szi_def)
qed

lemma half_byte_bound:
  assumes "(j::nat) < x"
  shows "j div 8 < (2 * x + 15) div 16"
proof -
  define q where "q = j div 8"
  have "8 * q \<le> j" by (simp add: q_def)
  with assms have "(q + 1) * 16 \<le> 2 * x + 15" by (simp add: add_mult_distrib)
  then have "q + 1 \<le> (2 * x + 15) div 16" by (simp only: less_eq_div_iff_mult_less_eq)
  then show ?thesis by (simp add: q_def)
qed

lemma byte_bound:
  assumes "(j::nat) < x"
  shows "j div 8 < (x + 7) div 8"
proof -
  define q where "q = j div 8"
  have "8 * q \<le> j" by (simp add: q_def)
  with assms have "(q + 1) * 8 \<le> x + 7" by (simp add: add_mult_distrib)
  then have "q + 1 \<le> (x + 7) div 8" by (simp only: less_eq_div_iff_mult_less_eq)
  then show ?thesis by (simp add: q_def)
qed

lemma wf_alloc_bound:
  assumes "bd_wf b" and "in_heap (MAXSIZE b) (k, i)"
  shows "i div 2 div 8 < length (sz_alloc (bd_sizes b ! k))"
proof -
  have k: "k \<le> MAXSIZE b" and i: "i < 2 ^ (MAXSIZE b - k)" using assms(2) by (auto simp: in_heap_def)
  have "i div 2 div 8 < (2 ^ (MAXSIZE b - k) + 15) div 16"
  proof (cases "k = MAXSIZE b")
    case True
    with i show ?thesis by simp
  next
    case False
    with k have "(2::nat) ^ (MAXSIZE b - k) = 2 * 2 ^ (MAXSIZE b - Suc k)" by (intro pow_minus_Suc) simp
    moreover from this i have "i div 2 < 2 ^ (MAXSIZE b - Suc k)" by linarith
    ultimately show ?thesis using half_byte_bound by simp
  qed
  with wf_lengths(1) [OF assms(1) k] show ?thesis by simp
qed

lemma wf_split_bound:
  assumes "bd_wf b" and "in_heap (MAXSIZE b) (k, i)" and "0 < k"
  shows "i div 8 < length (sz_split (bd_sizes b ! k))"
  using wf_lengths(2) [OF assms(1) _ assms(3)] assms(2) byte_bound by (simp add: in_heap_def)

text \<open>Offsets within the heap fit an \<open>int\<close>, so the index and address computations are exact.\<close>

lemma leaf_bound:
  assumes "bd_wf b" and "l < 2 ^ MAXSIZE b"
  shows "int l * 16 < 2 ^ 31"
proof -
  have "int l < 2 ^ MAXSIZE b" using assms(2) by (metis of_nat_less_iff of_nat_numeral of_nat_power)
  also have "\<dots> \<le> 2 ^ 26" using wf_sizes(2) [OF assms(1)] by (intro power_increasing) auto
  finally show ?thesis by simp
qed

lemma blk_index_leaf:
  assumes "bd_wf b" and "l < 2 ^ MAXSIZE b"
  shows "blk_index b k (bd_base b + LEAF_SIZE * int l) = int (l div 2 ^ k)"
proof -
  note bound = leaf_bound [OF assms]
  have s: "s32 (LEAF_SIZE * int l) = 16 * int l"
    using bound by (subst s32_nonneg) (auto simp: LEAF_SIZE_def)
  have d: "cdiv (16 * int l) (BLK_SIZE k) = int (l div 2 ^ k)"
  proof -
    have "cdiv (16 * int l) (BLK_SIZE k) = (16 * int l) div (2 ^ k * 16)"
      by (simp add: cdiv_nonneg BLK_SIZE_def LEAF_SIZE_def)
    also have "\<dots> = int l div 2 ^ k"
      using div_mult_mult1 [of 16 "int l" "2 ^ k"] by (simp add: mult.commute)
    finally show ?thesis by (simp add: zdiv_int)
  qed
  have "int (l div 2 ^ k) \<le> int l" by simp
  with bound have "s32 (int (l div 2 ^ k)) = int (l div 2 ^ k)"
    by (intro s32_nonneg) linarith+
  with s d show ?thesis by (simp add: blk_index_def Let_def)
qed

lemma in_heap_leaf: "in_heap M (k, i) \<Longrightarrow> i * 2 ^ k < 2 ^ M"
proof -
  assume "in_heap M (k, i)"
  then have "i < 2 ^ (M - k)" "k \<le> M" by (auto simp: in_heap_def)
  then have "i * 2 ^ k < 2 ^ (M - k) * 2 ^ k" by simp
  with \<open>k \<le> M\<close> show ?thesis by (simp flip: power_add)
qed

lemma blk_index_baddr:
  assumes "bd_wf b" and "in_heap (MAXSIZE b) (k, i)"
  shows "blk_index b k (baddr b k i) = int i"
    and "k < MAXSIZE b \<Longrightarrow> blk_index b (Suc k) (baddr b k i) = int (i div 2)"
  using blk_index_leaf [OF assms(1) in_heap_leaf [OF assms(2)]]
  by (simp_all add: baddr_def div_pow_Suc del: power_Suc)

lemma bd_addr_baddr:
  assumes "bd_wf b" and "in_heap (MAXSIZE b) (k, i)"
  shows "bd_addr b k (int i) = baddr b k i"
proof -
  have "int (i * 2 ^ k) * 16 < 2 ^ 31" by (rule leaf_bound [OF assms(1) in_heap_leaf [OF assms(2)]])
  then have "s32 (int i * (2 ^ k * 16)) = int i * (2 ^ k * 16)" by (intro s32_nonneg) simp_all
  then show ?thesis by (simp add: bd_addr_def baddr_def BLK_SIZE_def LEAF_SIZE_def Let_def)
qed

lemma baddr_eq_iff: "baddr b k i = baddr b j i' \<longleftrightarrow> i * 2 ^ k = i' * 2 ^ j"
proof -
  have "baddr b k i = baddr b j i' \<longleftrightarrow> int (i * 2 ^ k) = int (i' * 2 ^ j)"
    by (simp only: baddr_def LEAF_SIZE_def) linarith
  then show ?thesis by (simp only: of_nat_eq_iff)
qed

lemma baddr_head_iff: "baddr b k i = head_addr b j \<longleftrightarrow> i * 2 ^ k = 2 * j"
proof -
  have "baddr b k i = head_addr b j \<longleftrightarrow> int (i * 2 ^ k) = int (2 * j)"
    by (simp add: baddr_def head_addr_def LEAF_SIZE_def SZ_INFO_SIZE_def)
  then show ?thesis by (simp only: of_nat_eq_iff)
qed

section \<open>The primitive steps on the data structures\<close>

text \<open>\<open>same_geom b b'\<close>: the same sizes and addresses. The bit operations change one bit and nothing else.\<close>

definition same_geom :: "bd \<Rightarrow> bd \<Rightarrow> bool" where
  "same_geom b b' \<longleftrightarrow> nsizes b' = nsizes b \<and> bd_base b' = bd_base b"

lemma same_geom_refl [simp]: "same_geom b b"
  by (simp add: same_geom_def)

lemma same_geom_trans: "same_geom b b' \<Longrightarrow> same_geom b' b'' \<Longrightarrow> same_geom b b''"
  by (simp add: same_geom_def)

lemma same_geomD:
  assumes "same_geom b b'"
  shows "nsizes b' = nsizes b" "MAXSIZE b' = MAXSIZE b" "bd_base b' = bd_base b" "baddr b' = baddr b"
    "head_addr b' = head_addr b" "is_head b' = is_head b"
  using assms by (auto simp: same_geom_def MAXSIZE_def baddr_def head_addr_def is_head_def fun_eq_iff)

lemma same_geom_heap [simp]: "same_geom b (b\<lparr>bd_heap := h\<rparr>)"
  by (simp add: same_geom_def)

lemma wf_heap [simp]: "bd_wf (b\<lparr>bd_heap := h\<rparr>) = bd_wf b"
  by (simp add: bd_wf_def head_addr_def)

lemma bits_heap [simp]:
  "splitbit (b\<lparr>bd_heap := h\<rparr>) = splitbit b" "allocbit (b\<lparr>bd_heap := h\<rparr>) = allocbit b"
  by (simp_all add: splitbit_def allocbit_def fun_eq_iff)

lemma wf_set_szi:
  assumes "bd_wf b" and "k \<le> MAXSIZE b"
    and "length (sz_alloc z) = length (sz_alloc (bd_sizes b ! k))"
    and "length (sz_split z) = length (sz_split (bd_sizes b ! k))"
    and "sz_free z = sz_free (bd_sizes b ! k)"
  shows "bd_wf (set_szi k z b)" and "same_geom b (set_szi k z b)"
proof -
  have kl: "k < length (bd_sizes b)" using assms(2) wf_sizes [OF assms(1)] by simp
  show "same_geom b (set_szi k z b)" by (simp add: set_szi_def same_geom_def)
  show "bd_wf (set_szi k z b)"
    using assms(1,3-) by (auto simp: bd_wf_def set_szi_def head_addr_def nth_list_update_if [OF kl])
qed

lemma alloc_invert_ok:
  assumes w: "bd_wf b" and h: "in_heap (MAXSIZE b) (k, i)"
  shows "\<exists>b'. alloc_invert k (cdiv (int i) 2) b = Ok () b' \<and> bd_wf b' \<and> same_geom b b' \<and>
    bd_heap b' = bd_heap b \<and> splitbit b' = splitbit b \<and>
    (\<forall>k' j. allocbit b' k' j = (if k' = k \<and> j = i div 2 then \<not> allocbit b k' j else allocbit b k' j))"
proof -
  have k: "k \<le> MAXSIZE b" using h by (simp add: in_heap_def)
  have kl: "k < length (bd_sizes b)" using k wf_sizes [OF w] by simp
  have c: "cdiv (int i) 2 = int (i div 2)" by (simp add: cdiv_nonneg zdiv_int)
  let ?z = "bd_sizes b ! k"
  let ?a = "(sz_alloc ?z)[i div 2 div 8 := sz_alloc ?z ! (i div 2 div 8) XOR bitmask (i div 2)]"
  let ?b = "set_szi k (?z\<lparr>sz_alloc := ?a\<rparr>) b"
  note bd = wf_alloc_bound [OF w h]
  have g: "getbit ?a j = (if j = i div 2 then \<not> getbit (sz_alloc ?z) j else getbit (sz_alloc ?z) j)" for j
    by (subst getbit_update [OF bd]) (auto simp: bit_byte_ops getbit_def)
  have "alloc_invert k (cdiv (int i) 2) b = Ok () ?b"
    unfolding alloc_invert_def wf_lengths(3) [OF w k] c using bd by (simp add: bit_invert_def)
  moreover have "bd_wf ?b" "same_geom b ?b" using wf_set_szi [OF w k, of "?z\<lparr>sz_alloc := ?a\<rparr>"] by simp_all
  moreover have "bd_heap ?b = bd_heap b" by (simp add: set_szi_def)
  moreover have "splitbit ?b = splitbit b"
    by (intro ext) (simp add: splitbit_def set_szi_def nth_list_update_if [OF kl])
  moreover have "allocbit ?b k' j = (if k' = k \<and> j = i div 2 then \<not> allocbit b k' j else allocbit b k' j)" for k' j
    by (simp add: allocbit_def set_szi_def nth_list_update_if [OF kl] g)
  ultimately show ?thesis by blast
qed

lemma alloc_isset_ok:
  assumes w: "bd_wf b" and h: "in_heap (MAXSIZE b) (k, i)"
  shows "alloc_isset k (cdiv (int i) 2) b = Ok (allocbit b k (i div 2)) b"
proof -
  have k: "k \<le> MAXSIZE b" using h by (simp add: in_heap_def)
  have c: "cdiv (int i) 2 = int (i div 2)" by (simp add: cdiv_nonneg zdiv_int)
  from wf_alloc_bound [OF w h] show ?thesis
    unfolding alloc_isset_def wf_lengths(3) [OF w k] c
    by (simp add: bit_isset_def and_bitmask_eq allocbit_def getbit_def)
qed

lemma split_isset_ok:
  assumes w: "bd_wf b" and h: "in_heap (MAXSIZE b) (k, i)" and k0: "0 < k"
  shows "split_isset k (int i) b = Ok (splitbit b k i) b"
proof -
  have k: "k \<le> MAXSIZE b" using h by (simp add: in_heap_def)
  from wf_split_bound [OF w h k0] show ?thesis
    unfolding split_isset_def wf_lengths(3) [OF w k]
    by (simp add: bit_isset_def and_bitmask_eq splitbit_def getbit_def)
qed

lemma split_update_ok:
  assumes w: "bd_wf b" and h: "in_heap (MAXSIZE b) (k, i)" and k0: "0 < k"
    and v: "v = sz_split (bd_sizes b ! k) ! (i div 8) OR bitmask i \<and> x
      \<or> v = sz_split (bd_sizes b ! k) ! (i div 8) AND NOT (bitmask i) \<and> \<not> x"
  defines "b' \<equiv> set_szi k ((bd_sizes b ! k)\<lparr>sz_split := (sz_split (bd_sizes b ! k))[i div 8 := v]\<rparr>) b"
  shows "bd_wf b' \<and> same_geom b b' \<and> bd_heap b' = bd_heap b \<and> allocbit b' = allocbit b \<and>
    (\<forall>k' i'. splitbit b' k' i' = (if k' = k \<and> i' = i then x else splitbit b k' i'))"
proof -
  have k: "k \<le> MAXSIZE b" using h by (simp add: in_heap_def)
  have kl: "k < length (bd_sizes b)" using k wf_sizes [OF w] by simp
  let ?z = "bd_sizes b ! k"
  have "getbit ((sz_split ?z)[i div 8 := v]) j = (if j = i then x else getbit (sz_split ?z) j)" for j
    by (subst getbit_update [OF wf_split_bound [OF w h k0]]) (use v in \<open>auto simp: bit_byte_ops\<close>)
  then have "splitbit b' k' i' = (if k' = k \<and> i' = i then x else splitbit b k' i')" for k' i'
    by (simp add: splitbit_def b'_def set_szi_def nth_list_update_if [OF kl])
  moreover have "allocbit b' = allocbit b"
    by (intro ext) (simp add: allocbit_def b'_def set_szi_def nth_list_update_if [OF kl])
  ultimately show ?thesis
    using wf_set_szi [OF w k, of "?z\<lparr>sz_split := (sz_split ?z)[i div 8 := v]\<rparr>"]
    by (simp add: b'_def) (simp add: set_szi_def)
qed

lemma split_set_ok:
  assumes w: "bd_wf b" and h: "in_heap (MAXSIZE b) (k, i)" and k0: "0 < k"
  shows "\<exists>b'. split_set k (int i) b = Ok () b' \<and> bd_wf b' \<and> same_geom b b' \<and>
    bd_heap b' = bd_heap b \<and> allocbit b' = allocbit b \<and>
    (\<forall>k' i'. splitbit b' k' i' = (if k' = k \<and> i' = i then True else splitbit b k' i'))"
proof -
  have k: "k \<le> MAXSIZE b" using h by (simp add: in_heap_def)
  from wf_split_bound [OF w h k0] split_update_ok [OF w h k0, of "_ OR bitmask i" True] show ?thesis
    unfolding split_set_def wf_lengths(3) [OF w k] by (simp add: bit_set_def)
qed

lemma split_clear_ok:
  assumes w: "bd_wf b" and h: "in_heap (MAXSIZE b) (k, i)" and k0: "0 < k"
  shows "\<exists>b'. split_clear k (int i) b = Ok () b' \<and> bd_wf b' \<and> same_geom b b' \<and>
    bd_heap b' = bd_heap b \<and> allocbit b' = allocbit b \<and>
    (\<forall>k' i'. splitbit b' k' i' = (if k' = k \<and> i' = i then False else splitbit b k' i'))"
proof -
  have k: "k \<le> MAXSIZE b" using h by (simp add: in_heap_def)
  from wf_split_bound [OF w h k0] split_update_ok [OF w h k0, of "_ AND NOT (bitmask i)" False]
  show ?thesis
    unfolding split_clear_def wf_lengths(3) [OF w k] by (simp add: bit_clear_def)
qed

lemma free_push_ok:
  "bd_wf b \<Longrightarrow> k \<le> MAXSIZE b \<Longrightarrow>
    free_push k p b = Ok () (b\<lparr>bd_heap := lst_push (head_addr b k) p (bd_heap b)\<rparr>)"
  by (simp add: free_push_def wf_lengths)

lemma free_empty_ok:
  "bd_wf b \<Longrightarrow> k \<le> MAXSIZE b \<Longrightarrow> free_empty k b = Ok (lst_empty (head_addr b k) (bd_heap b)) b"
  by (simp add: free_empty_def wf_lengths)

text \<open>The free lists under a push, a removal, and a change of the tree that keeps the free blocks.\<close>

lemma lists_ok_cong:
  assumes "lists_ok b st" and "same_geom b b'" and "bd_heap b' = bd_heap b"
    and "\<And>k i. st' k i = FreeB \<longleftrightarrow> st k i = FreeB"
  shows "lists_ok b' st'"
  using assms same_geomD [OF assms(2)] by (simp add: lists_ok_def)

lemma lists_push:
  assumes l: "lists_ok b st" and k: "k < nsizes b"
    and f: "\<And>j. j < nsizes b \<Longrightarrow> baddr b k i \<noteq> head_addr b j"
      "\<And>j i'. j < nsizes b \<Longrightarrow> st j i' = FreeB \<Longrightarrow> baddr b k i \<noteq> baddr b j i'"
    and st': "\<And>k' i'. st' k' i' = FreeB \<longleftrightarrow> (k' = k \<and> i' = i) \<or> st k' i' = FreeB"
  shows "lists_ok (b\<lparr>bd_heap := lst_push (head_addr b k) (baddr b k i) (bd_heap b)\<rparr>) st'"
proof -
  from l obtain F where F: "dlists (bd_heap b) (head_addr b) F (nsizes b)"
    "\<And>k. k < nsizes b \<Longrightarrow> set (F k) = baddr b k ` {i. st k i = FreeB}"
    by (auto simp: lists_ok_def)
  have "fresh_node (head_addr b) F (nsizes b) (baddr b k i)"
    using f F(2) by (auto simp: fresh_node_def nodes_def)
  from lf.push_set [OF F(1) k this] obtain xs where
    "dlists (lst_push (head_addr b k) (baddr b k i) (bd_heap b)) (head_addr b) (F(k := xs)) (nsizes b)"
    "set xs = insert (baddr b k i) (set (F k))" by blast
  moreover have "set ((F(k := xs)) j) = baddr b j ` {i'. st' j i' = FreeB}" if "j < nsizes b" for j
    using that F(2) calculation(2) st' by (auto simp: image_iff)
  ultimately show ?thesis
    using same_geomD [OF same_geom_heap [of b "lst_push (head_addr b k) (baddr b k i) (bd_heap b)"]]
    by (auto simp: lists_ok_def)
qed

lemma lists_remove:
  assumes l: "lists_ok b st" and k: "k < nsizes b" and i: "st k i = FreeB"
    and st': "\<And>k' i'. st' k' i' = FreeB \<longleftrightarrow> \<not> (k' = k \<and> i' = i) \<and> st k' i' = FreeB"
  shows "lists_ok (b\<lparr>bd_heap := lst_remove (baddr b k i) (bd_heap b)\<rparr>) st'"
proof -
  from l obtain F where F: "dlists (bd_heap b) (head_addr b) F (nsizes b)"
    "\<And>k. k < nsizes b \<Longrightarrow> set (F k) = baddr b k ` {i. st k i = FreeB}"
    by (auto simp: lists_ok_def)
  have "baddr b k i \<in> set (F k)" using F(2) [OF k] i by blast
  from lf.remove_set [OF F(1) k this] obtain xs where
    "dlists (lst_remove (baddr b k i) (bd_heap b)) (head_addr b) (F(k := xs)) (nsizes b)"
    "set xs = set (F k) - {baddr b k i}" by blast
  moreover have "set ((F(k := xs)) j) = baddr b j ` {i'. st' j i' = FreeB}" if "j < nsizes b" for j
    using that F(2) calculation(2) st' by (auto simp: image_iff baddr_eq_iff)
  ultimately show ?thesis
    using same_geomD [OF same_geom_heap [of b "lst_remove (baddr b k i) (bd_heap b)"]]
    by (auto simp: lists_ok_def)
qed

lemma lists_pop:
  assumes l: "lists_ok b st" and k: "k < nsizes b" and e: "\<not> lst_empty (head_addr b k) (bd_heap b)"
  obtains i h' where "st k i = FreeB" and "lst_pop (head_addr b k) (bd_heap b) = Ok (baddr b k i) h'"
    and "\<And>st'. (\<And>k' i'. st' k' i' = FreeB \<longleftrightarrow> \<not> (k' = k \<and> i' = i) \<and> st k' i' = FreeB) \<Longrightarrow>
      lists_ok (b\<lparr>bd_heap := h'\<rparr>) st'"
proof -
  from l obtain F where F: "dlists (bd_heap b) (head_addr b) F (nsizes b)"
    "\<And>k. k < nsizes b \<Longrightarrow> set (F k) = baddr b k ` {i. st k i = FreeB}"
    by (auto simp: lists_ok_def)
  obtain x xs h' where x: "F k = x # xs" and p: "lst_pop (head_addr b k) (bd_heap b) = Ok x h'"
    and h': "dlists h' (head_addr b) (F(k := xs)) (nsizes b)"
    by (rule lf.pop_nonempty [OF F(1) k e])
  from x F(2) [OF k] obtain i where i: "st k i = FreeB" "x = baddr b k i" by force
  have d: "set xs = set (F k) - {x}" using x lf.rep_distinct [OF F(1) k] by auto
  show thesis
  proof (rule that [OF i(1), of h'])
    show "lst_pop (head_addr b k) (bd_heap b) = Ok (baddr b k i) h'" using p i by simp
    fix st' :: btree
    assume st': "\<And>k' i'. st' k' i' = FreeB \<longleftrightarrow> \<not> (k' = k \<and> i' = i) \<and> st k' i' = FreeB"
    have "set ((F(k := xs)) j) = baddr b j ` {i'. st' j i' = FreeB}" if "j < nsizes b" for j
      using that F(2) d i st' by (auto simp: image_iff baddr_eq_iff)
    with h' show "lists_ok (b\<lparr>bd_heap := h'\<rparr>) st'"
      using same_geomD [OF same_geom_heap [of b h']] by (auto simp: lists_ok_def)
  qed
qed

lemma lists_empty_iff:
  assumes "lists_ok b st" and "k < nsizes b"
  shows "lst_empty (head_addr b k) (bd_heap b) \<longleftrightarrow> (\<forall>i. st k i \<noteq> FreeB)"
proof -
  from assms obtain F where F: "dlists (bd_heap b) (head_addr b) F (nsizes b)"
    "\<And>k. k < nsizes b \<Longrightarrow> set (F k) = baddr b k ` {i. st k i = FreeB}"
    by (auto simp: lists_ok_def)
  have "F k = [] \<longleftrightarrow> set (F k) = {}" by simp
  with F(2) [OF assms(2)] lf.rep_empty [OF F(1) assms(2)] show ?thesis by simp
qed

section \<open>Each step keeps the invariant\<close>

lemma inv_D:
  assumes "bd_inv b st"
  shows "bd_wf b" "tree_ok (MAXSIZE b) st" "coalesced (MAXSIZE b) st" "bits_ok b st" "lists_ok b st"
    "heads_live b st"
  using assms by (simp_all add: bd_inv_def)

lemma bits_split: "bits_ok b st \<Longrightarrow> 0 < k \<Longrightarrow> in_heap (MAXSIZE b) (k, i) \<Longrightarrow> splitbit b k i = (st k i = SplitB)"
  by (simp add: bits_ok_def)

lemma bits_alloc: "bits_ok b st \<Longrightarrow> k < MAXSIZE b \<Longrightarrow> j < 2 ^ (MAXSIZE b - Suc k) \<Longrightarrow>
    allocbit b k j = (used (st k (2 * j)) \<noteq> used (st k (2 * j + 1)))"
  by (simp add: bits_ok_def)

lemma bits_okI:
  assumes "\<And>k i. 0 < k \<Longrightarrow> in_heap (MAXSIZE b) (k, i) \<Longrightarrow> splitbit b k i = (st k i = SplitB)"
    and "\<And>k j. k < MAXSIZE b \<Longrightarrow> j < 2 ^ (MAXSIZE b - Suc k) \<Longrightarrow>
      allocbit b k j = (used (st k (2 * j)) \<noteq> used (st k (2 * j + 1)))"
  shows "bits_ok b st"
  using assms by (simp add: bits_ok_def)

lemma used_simps [simp]: "used LiveB" "used SplitB" "\<not> used NoBlk" "\<not> used FreeB"
  by (simp_all add: used_def)

lemma half_parity: "(i::nat) = 2 * (i div 2) \<or> i = 2 * (i div 2) + 1"
  by presburger

lemma bits_flip:
  assumes b: "bits_ok b st" and m: "MAXSIZE b' = MAXSIZE b" and s: "splitbit b' = splitbit b"
    and a: "\<forall>k' j. allocbit b' k' j = (if k' = k \<and> j = i div 2 then \<not> allocbit b k' j else allocbit b k' j)"
    and v: "used v \<noteq> used (st k i)" "v \<noteq> SplitB" "st k i \<noteq> SplitB"
  shows "bits_ok b' (upd st k i v)"
proof (rule bits_okI)
  fix k' i' assume "0 < k'" "in_heap (MAXSIZE b') (k', i')"
  with bits_split [OF b] m s v show "splitbit b' k' i' = (upd st k i v k' i' = SplitB)" by auto
next
  fix k' j :: nat assume "k' < MAXSIZE b'" "j < 2 ^ (MAXSIZE b' - Suc k')"
  with bits_alloc [OF b] m have
    old: "allocbit b k' j = (used (st k' (2 * j)) \<noteq> used (st k' (2 * j + 1)))" by simp
  show "allocbit b' k' j = (used (upd st k i v k' (2 * j)) \<noteq> used (upd st k i v k' (2 * j + 1)))"
  proof (cases "k' = k \<and> j = i div 2")
    case True
    with half_parity [of i] a old v(1) show ?thesis by auto
  next
    case False
    then have "\<not> (k' = k \<and> 2 * j = i)" "\<not> (k' = k \<and> 2 * j + 1 = i)" by auto
    with False a old show ?thesis by auto
  qed
qed

text \<open>Two blocks of the tree that are not split start at different addresses.\<close>

lemma occupied_addr:
  assumes "tree_ok M st" and "occupied (st k i)" and "occupied (st j i')"
    and "i * 2 ^ k = i' * 2 ^ j"
  shows "k = j \<and> i = i'"
proof -
  have "i * 2 ^ k \<in> leaves (k, i)" "i * 2 ^ k \<in> leaves (j, i')"
    using leaves_nonempty assms(4) by metis+
  with tree_overlap [OF assms(1)] assms(2,3) show ?thesis unfolding occupied_def by blast
qed

lemma heads_addr:
  assumes "tree_ok (MAXSIZE b) st" and "heads_live b st" and "occupied (st k i)" and "j < nsizes b"
    and "baddr b k i = head_addr b j"
  shows "k = 0" and "i = 2 * j"
  using occupied_addr [OF assms(1,3), of 0 "2 * j"] assms(2,4,5)
  by (auto simp: heads_live_def baddr_head_iff)

lemma coalesced_upd:
  "coalesced M st \<Longrightarrow> v \<noteq> FreeB \<Longrightarrow> coalesced M (upd st k i v)"
  by (simp add: coalesced_def)

lemma inv_alloc:
  assumes inv: "bd_inv b st" and k: "k < nsizes b" and e: "\<not> lst_empty (head_addr b k) (bd_heap b)"
  shows "\<exists>i b'. st k i = FreeB \<and>
    bindr (free_pop k b) (\<lambda>p b. bindr (alloc_invert k (cdiv (blk_index b k p) 2) b) (\<lambda>_ b. C p b))
      = C (baddr b k i) b' \<and> same_geom b b' \<and> bd_inv b' (upd st k i LiveB)"
proof -
  note d = inv_D [OF inv]
  have kM: "k \<le> MAXSIZE b" using k wf_sizes [OF d(1)] by simp
  obtain i h' where i: "st k i = FreeB" and p: "lst_pop (head_addr b k) (bd_heap b) = Ok (baddr b k i) h'"
    and l: "\<And>st'. (\<And>k' i'. st' k' i' = FreeB \<longleftrightarrow> \<not> (k' = k \<and> i' = i) \<and> st k' i' = FreeB) \<Longrightarrow>
      lists_ok (b\<lparr>bd_heap := h'\<rparr>) st'"
    using lists_pop [OF d(5) k e] by blast
  let ?b = "b\<lparr>bd_heap := h'\<rparr>"
  have M: "MAXSIZE ?b = MAXSIZE b" using same_geomD [OF same_geom_heap [of b h']] by simp
  have h: "in_heap (MAXSIZE ?b) (k, i)" unfolding M by (rule tree_in_heap [OF d(2)]) (simp add: i)
  have w: "bd_wf ?b" using d(1) by simp
  from blk_index_baddr(1) [OF w h] have bi: "blk_index ?b k (baddr b k i) = int i"
    using same_geomD [OF same_geom_heap [of b h']] by simp
  from alloc_invert_ok [OF w h] obtain b' where b': "alloc_invert k (cdiv (int i) 2) ?b = Ok () b'"
    "bd_wf b'" "same_geom ?b b'" "bd_heap b' = bd_heap ?b" "splitbit b' = splitbit ?b"
    "\<forall>k' j. allocbit b' k' j = (if k' = k \<and> j = i div 2 then \<not> allocbit ?b k' j else allocbit ?b k' j)"
    by blast
  have g: "same_geom b b'" using b'(3) by (simp add: same_geom_def)
  note gD = same_geomD [OF g]
  have "bd_inv b' (upd st k i LiveB)"
    unfolding bd_inv_def gD
  proof (intro conjI)
    show "tree_ok (MAXSIZE b) (upd st k i LiveB)" using tree_upd [OF d(2)] i by simp
    show "coalesced (MAXSIZE b) (upd st k i LiveB)" using coalesced_upd [OF d(3)] by simp
    show "bits_ok b' (upd st k i LiveB)"
      using bits_flip [OF d(4) gD(2), of k i LiveB] b'(5,6) i by simp
    show "lists_ok b' (upd st k i LiveB)"
      using lists_ok_cong [OF l [of "upd st k i LiveB"] b'(3,4)] by auto
    show "heads_live b' (upd st k i LiveB)" using d(6) gD by (auto simp: heads_live_def)
  qed (rule b'(2))
  moreover have "free_pop k b = Ok (baddr b k i) ?b"
    using p by (simp add: free_pop_def wf_lengths [OF d(1) kM] liftr_def)
  ultimately show ?thesis using i g b'(1) bi by auto
qed

lemma coalesced_split_blk:
  assumes "coalesced M st" and "st k (2 * i) \<noteq> FreeB"
  shows "coalesced M (split_blk st k i)"
  unfolding coalesced_def
proof (intro allI impI)
  fix k' j assume "k' < M"
  with assms(1) have "\<not> (st k' (2 * j) = FreeB \<and> st k' (2 * j + 1) = FreeB)" by (simp add: coalesced_def)
  with assms(2) show "\<not> (split_blk st k i k' (2 * j) = FreeB \<and> split_blk st k i k' (2 * j + 1) = FreeB)"
    by (cases "k' = k \<and> j = i") (auto simp: split_blk_def)
qed

lemma bits_split_blk:
  assumes b: "bits_ok b st" and m: "MAXSIZE b' = MAXSIZE b"
    and s: "\<forall>k' i'. splitbit b' k' i' = (if k' = Suc k \<and> i' = i then True else splitbit b k' i')"
    and a: "\<forall>k' j. allocbit b' k' j = (if k' = k \<and> j = i then \<not> allocbit b k' j else allocbit b k' j)"
    and st: "st (Suc k) i = LiveB" "st k (2 * i) = NoBlk" "st k (2 * i + 1) = NoBlk"
  shows "bits_ok b' (split_blk st k i)"
proof (rule bits_okI)
  fix k' i' assume "0 < k'" "in_heap (MAXSIZE b') (k', i')"
  with bits_split [OF b] m have "splitbit b k' i' = (st k' i' = SplitB)" by simp
  with s st show "splitbit b' k' i' = (split_blk st k i k' i' = SplitB)" by (auto simp: split_blk_def)
next
  fix k' j :: nat assume "k' < MAXSIZE b'" "j < 2 ^ (MAXSIZE b' - Suc k')"
  with bits_alloc [OF b] m have
    old: "allocbit b k' j = (used (st k' (2 * j)) \<noteq> used (st k' (2 * j + 1)))" by simp
  show "allocbit b' k' j = (used (split_blk st k i k' (2 * j)) \<noteq> used (split_blk st k i k' (2 * j + 1)))"
  proof (cases "k' = k \<and> j = i")
    case True
    with a old st show ?thesis by (simp add: split_blk_def)
  next
    case False
    then have "used (split_blk st k i k' (2 * j)) = used (st k' (2 * j))"
      "used (split_blk st k i k' (2 * j + 1)) = used (st k' (2 * j + 1))"
      using st(1) by (auto simp: split_blk_def)
    with False a old show ?thesis by auto
  qed
qed

lemma baddr_left: "baddr b (Suc k) i = baddr b k (2 * i)"
  by (simp add: baddr_def mult.assoc mult.left_commute)

lemma baddr_right: "baddr b k (2 * i) + BLK_SIZE k = baddr b k (2 * i + 1)"
  by (simp add: baddr_def BLK_SIZE_def LEAF_SIZE_def algebra_simps)

lemma inv_split:
  assumes inv: "bd_inv b st" and l: "st (Suc k) i = LiveB"
  defines "p \<equiv> baddr b k (2 * i)"
  shows "\<exists>b'. bindr (split_set (Suc k) (blk_index b (Suc k) p) b) (\<lambda>_ b.
      bindr (alloc_invert k (cdiv (blk_index b k p) 2) b) (\<lambda>_ b.
      bindr (free_push k (p + BLK_SIZE k) b) (\<lambda>_ b. C b))) = C b' \<and> same_geom b b' \<and>
      bd_inv b' (split_blk st k i)"
proof -
  note d = inv_D [OF inv]
  let ?st = "split_blk st k i"
  have h: "in_heap (MAXSIZE b) (Suc k, i)" by (rule tree_in_heap [OF d(2)]) (simp add: l)
  note ch = tree_children [OF d(2) h]
  have no: "st k (2 * i) = NoBlk" "st k (2 * i + 1) = NoBlk" using ch(1,2) l by auto
  have t: "tree_ok (MAXSIZE b) ?st" by (rule tree_split_blk [OF d(2) l])
  have hl: "heads_live b ?st" using d(6) no by (auto simp: heads_live_def split_blk_def)
  from split_set_ok [OF d(1) h] obtain b1 where b1: "split_set (Suc k) (int i) b = Ok () b1" "bd_wf b1"
    "same_geom b b1" "bd_heap b1 = bd_heap b" "allocbit b1 = allocbit b"
    "\<forall>k' i'. splitbit b1 k' i' = (if k' = Suc k \<and> i' = i then True else splitbit b k' i')" by blast
  note g1 = same_geomD [OF b1(3)]
  have h1: "in_heap (MAXSIZE b1) (k, 2 * i)" using ch(4) g1 by simp
  from alloc_invert_ok [OF b1(2) h1] obtain b2 where
    b2: "alloc_invert k (cdiv (int (2 * i)) 2) b1 = Ok () b2" "bd_wf b2" "same_geom b1 b2"
    "bd_heap b2 = bd_heap b1" "splitbit b2 = splitbit b1"
    "\<forall>k' j. allocbit b2 k' j = (if k' = k \<and> j = 2 * i div 2 then \<not> allocbit b1 k' j else allocbit b1 k' j)"
    by blast
  note g2 = same_geomD [OF same_geom_trans [OF b1(3) b2(3)]]
  let ?b = "b2\<lparr>bd_heap := lst_push (head_addr b2 k) (baddr b2 k (2 * i + 1)) (bd_heap b2)\<rparr>"
  have i1: "blk_index b (Suc k) p = int i" using blk_index_baddr(1) [OF d(1) h] by (simp add: p_def baddr_left)
  have i2: "blk_index b1 k p = int (2 * i)" using blk_index_baddr(1) [OF b1(2) h1] by (simp add: p_def g1)
  have i3: "free_push k (p + BLK_SIZE k) b2 = Ok () ?b"
    using free_push_ok [OF b2(2)] ch(3) g2 by (simp add: p_def baddr_right)
  have k: "k < nsizes b2" using ch(3) g2(1) wf_sizes [OF d(1)] by simp
  have lo: "lists_ok b2 st"
    using lists_ok_cong [OF d(5) same_geom_trans [OF b1(3) b2(3)]] b1(4) b2(4) by simp
  have lists: "lists_ok ?b ?st"
  proof (rule lists_push [OF lo k])
    fix j assume j: "j < nsizes b2"
    show "baddr b2 k (2 * i + 1) \<noteq> head_addr b2 j"
    proof
      assume "baddr b2 k (2 * i + 1) = head_addr b2 j"
      with heads_addr(2) [OF t hl, of k "2 * i + 1" j] j g2 have "2 * i + 1 = 2 * j"
        by (simp add: split_blk_def)
      then show False by presburger
    qed
    fix i' assume f: "st j i' = FreeB"
    with no l have "?st j i' = FreeB" "?st k (2 * i + 1) = FreeB" by (auto simp: split_blk_def)
    with occupied_addr [OF t, of k "2 * i + 1" j i'] no(2) f
    show "baddr b2 k (2 * i + 1) \<noteq> baddr b2 j i'" unfolding baddr_eq_iff by auto
  next
    fix k' i' show "?st k' i' = FreeB \<longleftrightarrow> (k' = k \<and> i' = 2 * i + 1) \<or> st k' i' = FreeB"
      using no l by (auto simp: split_blk_def)
  qed
  have g: "same_geom b ?b" using b1(3) b2(3) by (simp add: same_geom_def)
  note gD = same_geomD [OF g]
  have "bd_inv ?b ?st"
    unfolding bd_inv_def gD
  proof (intro conjI)
    show "bd_wf ?b" using b2(2) by simp
    show "bits_ok ?b ?st" by (rule bits_split_blk [OF d(4) gD(2)]) (use b1 b2 no l in auto)
    show "heads_live ?b ?st" using hl gD by (simp add: heads_live_def)
    show "coalesced (MAXSIZE b) ?st" using coalesced_split_blk [OF d(3)] no by simp
  qed (fact t lists)+
  with g i1 i2 i3 b1(1) b2(1) show ?thesis by auto
qed

end
