(* ===== verification/Buddy_Ops.thy ===== *)
theory Buddy_Ops
  imports Buddy_Inv
begin

text \<open>
  The loops of \<open>bd_malloc\<close> and \<open>bd_free\<close>, and the two operations, as refinements: on the set of live
  blocks allocation inserts a block that overlaps no live one, and fails only when there is no such block,
  and deallocation removes the block.
\<close>

section \<open>The steps of bd_free\<close>

definition bud :: "nat \<Rightarrow> nat" where
  "bud i = (if even i then i + 1 else i - 1)"

lemma bud_div: "bud i div 2 = i div 2"
  by (auto simp: bud_def elim!: oddE)

lemma bud_pair: "{i, bud i} = {2 * (i div 2), 2 * (i div 2) + 1}"
  by (auto simp: bud_def elim!: oddE)

lemma buddy_of_bud: "buddy_of (int i) = int (bud i)"
proof -
  have "cmod (int i) 2 = int (i mod 2)" by (simp add: cmod_nonneg zmod_int)
  then show ?thesis by (cases "even i") (auto simp: buddy_of_def bud_def elim!: oddE)
qed

lemma bud_in_heap: "in_heap M (k, i) \<Longrightarrow> k < M \<Longrightarrow> in_heap M (k, bud i)"
proof -
  assume h: "in_heap M (k, i)" "k < M"
  then have "i < 2 * 2 ^ (M - Suc k)" by (simp add: in_heap_def pow_minus_Suc)
  then have "bud i < 2 * 2 ^ (M - Suc k)" by (auto simp: bud_def elim!: evenE)
  with h(2) show ?thesis by (simp add: in_heap_def pow_minus_Suc)
qed

lemma bits_pair:
  assumes "bits_ok b st" and "in_heap (MAXSIZE b) (k, i)" and "k < MAXSIZE b"
  shows "allocbit b k (i div 2) = (used (st k i) \<noteq> used (st k (bud i)))"
proof -
  have "i div 2 < 2 ^ (MAXSIZE b - Suc k)"
    using in_heap_parent [OF assms(2,3)] by (simp add: in_heap_def)
  from bits_alloc [OF assms(1,3) this] bud_pair [of i] show ?thesis
    by (auto simp: doubleton_eq_iff)
qed

lemma inv_push:
  assumes inv: "bd_inv b st" and l: "st k i = LiveB" and nh: "\<not> is_head b (k, i)"
    and b1: "bd_wf b1" "same_geom b b1" "bd_heap b1 = bd_heap b" "bits_ok b1 (upd st k i FreeB)"
    and c: "coalesced (MAXSIZE b) (upd st k i FreeB)"
  shows "\<exists>b'. free_push k (baddr b k i) b1 = Ok () b' \<and> same_geom b b' \<and> bd_inv b' (upd st k i FreeB)"
proof -
  note d = inv_D [OF inv] and g1 = same_geomD [OF b1(2)]
  let ?st = "upd st k i FreeB"
  let ?b = "b1\<lparr>bd_heap := lst_push (head_addr b1 k) (baddr b1 k i) (bd_heap b1)\<rparr>"
  have kM: "k \<le> MAXSIZE b" using tree_in_heap [OF d(2), of k i] l by (simp add: in_heap_def)
  have k: "k < nsizes b1" using kM g1 wf_sizes [OF d(1)] by simp
  have "lists_ok b1 st" using lists_ok_cong [OF d(5) b1(2,3)] by simp
  then have lists: "lists_ok ?b ?st"
  proof (rule lists_push [OF _ k])
    fix j assume "j < nsizes b1"
    with heads_addr [OF d(2,6), of k i j] nh l g1 show "baddr b1 k i \<noteq> head_addr b1 j"
      by (auto simp: is_head_def)
    fix i' assume "st j i' = FreeB"
    with occupied_addr [OF d(2), of k i j i'] l show "baddr b1 k i \<noteq> baddr b1 j i'"
      unfolding baddr_eq_iff by auto
  qed (use l in auto)
  have g: "same_geom b ?b" using b1(2) by (simp add: same_geom_def)
  note gD = same_geomD [OF g]
  have "bd_inv ?b ?st"
    unfolding bd_inv_def gD
  proof (intro conjI)
    show "bd_wf ?b" using b1(1) by simp
    show "tree_ok (MAXSIZE b) ?st" using tree_upd [OF d(2)] l by simp
    show "bits_ok ?b ?st" using b1(4) gD g1 by (simp add: bits_ok_def)
    show "heads_live ?b ?st" using d(6) nh gD by (auto simp: heads_live_def is_head_def)
  qed (fact c lists)+
  moreover have "free_push k (baddr b k i) b1 = Ok () ?b"
    using free_push_ok [OF b1(1)] kM g1 by simp
  ultimately show ?thesis using g by blast
qed

lemma coalesced_free:
  assumes "coalesced M st" and "st k (bud i) \<noteq> FreeB \<or> M \<le> k"
  shows "coalesced M (upd st k i FreeB)"
  unfolding coalesced_def
proof (intro allI impI)
  fix k' j assume k': "k' < M"
  with assms(1) have "\<not> (st k' (2 * j) = FreeB \<and> st k' (2 * j + 1) = FreeB)" by (simp add: coalesced_def)
  moreover have "bud (2 * j) = 2 * j + 1" "bud (2 * j + 1) = 2 * j" by (auto simp: bud_def)
  ultimately show "\<not> (upd st k i FreeB k' (2 * j) = FreeB \<and> upd st k i FreeB k' (2 * j + 1) = FreeB)"
    using assms(2) k' by auto
qed

lemma bits_merge_blk:
  assumes b: "bits_ok b st" and m: "MAXSIZE b' = MAXSIZE b"
    and s: "\<forall>k' i'. splitbit b' k' i' = (if k' = Suc k \<and> i' = i then False else splitbit b k' i')"
    and a: "\<forall>k' j. allocbit b' k' j = (if k' = k \<and> j = i then \<not> allocbit b k' j else allocbit b k' j)"
    and st: "st (Suc k) i = SplitB" "{st k (2 * i), st k (2 * i + 1)} = {LiveB, FreeB}"
  shows "bits_ok b' (merge_blk st k i)"
proof (rule bits_okI)
  fix k' i' assume "0 < k'" "in_heap (MAXSIZE b') (k', i')"
  with bits_split [OF b] m have "splitbit b k' i' = (st k' i' = SplitB)" by simp
  with s st show "splitbit b' k' i' = (merge_blk st k i k' i' = SplitB)"
    by (auto simp: merge_blk_def doubleton_eq_iff)
next
  fix k' j :: nat assume "k' < MAXSIZE b'" "j < 2 ^ (MAXSIZE b' - Suc k')"
  with bits_alloc [OF b] m have
    old: "allocbit b k' j = (used (st k' (2 * j)) \<noteq> used (st k' (2 * j + 1)))" by simp
  show "allocbit b' k' j = (used (merge_blk st k i k' (2 * j)) \<noteq> used (merge_blk st k i k' (2 * j + 1)))"
  proof (cases "k' = k \<and> j = i")
    case True
    with a old st(2) show ?thesis by (auto simp: merge_blk_def doubleton_eq_iff)
  next
    case False
    then have "used (merge_blk st k i k' (2 * j)) = used (st k' (2 * j))"
      "used (merge_blk st k i k' (2 * j + 1)) = used (st k' (2 * j + 1))"
      using st(1) by (auto simp: merge_blk_def)
    with False a old show ?thesis by auto
  qed
qed

lemma coalesced_merge_blk: "coalesced M st \<Longrightarrow> coalesced M (merge_blk st k i)"
  by (auto simp: coalesced_def merge_blk_def)

lemma merge_pair:
  assumes "st k i = LiveB" and "st k (bud i) = FreeB"
  shows "{st k (2 * (i div 2)), st k (2 * (i div 2) + 1)} = {LiveB, FreeB}"
proof -
  have "{st k (2 * (i div 2)), st k (2 * (i div 2) + 1)} = st k ` {i, bud i}" using bud_pair [of i] by simp
  with assms show ?thesis by simp
qed

lemma inv_merge:
  assumes inv: "bd_inv b st" and l: "st k i = LiveB" and nh: "\<not> is_head b (k, i)"
    and k: "k < MAXSIZE b" and f: "st k (bud i) = FreeB"
    and b1: "bd_wf b1" "same_geom b b1" "bd_heap b1 = bd_heap b" "splitbit b1 = splitbit b"
      "\<forall>k' j. allocbit b1 k' j = (if k' = k \<and> j = i div 2 then \<not> allocbit b k' j else allocbit b k' j)"
  shows "\<exists>b'. split_clear (Suc k) (int (i div 2)) (b1\<lparr>bd_heap := lst_remove (baddr b k (bud i)) (bd_heap b1)\<rparr>)
      = Ok () b' \<and> same_geom b b' \<and> bd_inv b' (merge_blk st k (i div 2))"
proof -
  note d = inv_D [OF inv] and g1 = same_geomD [OF b1(2)]
  let ?j = "i div 2"
  let ?st = "merge_blk st k ?j"
  let ?b1 = "b1\<lparr>bd_heap := lst_remove (baddr b1 k (bud i)) (bd_heap b1)\<rparr>"
  have hi: "in_heap (MAXSIZE b) (k, i)" by (rule tree_in_heap [OF d(2)]) (simp add: l)
  have h: "in_heap (MAXSIZE b) (Suc k, ?j)" by (rule in_heap_parent [OF hi k])
  have s: "st (Suc k) ?j = SplitB" using tree_parent [OF d(2) hi k] l by simp
  have pr: "{st k (2 * ?j), st k (2 * ?j + 1)} = {LiveB, FreeB}" using l f by (rule merge_pair)
  then have occ: "occupied (st k (2 * ?j))" "occupied (st k (2 * ?j + 1))" by (auto simp: doubleton_eq_iff)
  have gh: "same_geom b ?b1" using b1(2) by (simp add: same_geom_def)
  have "in_heap (MAXSIZE ?b1) (Suc k, ?j)" using h same_geomD [OF gh] by simp
  from split_clear_ok [OF _ this] b1(1) obtain b' where
    b': "split_clear (Suc k) (int ?j) ?b1 = Ok () b'" "bd_wf b'" "same_geom ?b1 b'" "bd_heap b' = bd_heap ?b1"
    "allocbit b' = allocbit b1"
    "\<forall>k' i'. splitbit b' k' i' = (if k' = Suc k \<and> i' = ?j then False else splitbit b1 k' i')" by auto
  have g: "same_geom b b'" by (rule same_geom_trans [OF gh b'(3)])
  note gD = same_geomD [OF g]
  have free: "?st k' i' = FreeB \<longleftrightarrow> \<not> (k' = k \<and> i' = bud i) \<and> st k' i' = FreeB" for k' i'
    using l f s bud_pair [of i] by (auto simp: merge_blk_def doubleton_eq_iff)
  have "lists_ok b1 st" using lists_ok_cong [OF d(5) b1(2,3)] by simp
  then have "lists_ok ?b1 ?st"
    by (rule lists_remove [OF _ _ f free]) (use k g1 wf_sizes [OF d(1)] in simp)
  then have lists: "lists_ok b' ?st" using lists_ok_cong [OF _ b'(3,4)] by blast
  have "bd_inv b' ?st"
    unfolding bd_inv_def gD
  proof (intro conjI)
    show "tree_ok (MAXSIZE b) ?st" by (rule tree_merge_blk [OF d(2) occ k])
    show "coalesced (MAXSIZE b) ?st" by (rule coalesced_merge_blk [OF d(3)])
    show "bits_ok b' ?st" by (rule bits_merge_blk [OF d(4) gD(2)]) (use b1 b' s pr in auto)
    have "st 0 (2 * m) = LiveB \<Longrightarrow> m < nsizes b \<Longrightarrow> ?st 0 (2 * m) = LiveB" for m
      using nh f l bud_pair [of i] by (auto simp: merge_blk_def is_head_def doubleton_eq_iff)
    then show "heads_live b' ?st" using d(6) gD by (simp add: heads_live_def)
  qed (fact b' lists)+
  with b' g g1 show ?thesis by auto
qed

section \<open>The loops\<close>

text \<open>The buddy of a live block that is being freed: its parent is split, so it is a block of the tree.\<close>

lemma free_loop_ok:
  assumes "bd_inv b st" and "st k i = LiveB" and "\<not> is_head b (k, i)" and "n = MAXSIZE b - k"
  shows "\<exists>b' st'. free_loop n k (baddr b k i) b = Ok () b' \<and> same_geom b b' \<and> bd_inv b' st' \<and>
    live st' = live st - {(k, i)}"
  using assms
proof (induction n arbitrary: k i b st)
  case 0
  note inv = 0(1) and l = 0(2) and nh = 0(3)
  note d = inv_D [OF inv]
  have h: "in_heap (MAXSIZE b) (k, i)" by (rule tree_in_heap [OF d(2)]) (simp add: l)
  then have k: "k = MAXSIZE b" using 0(4) by (simp add: in_heap_def)
  have "bits_ok b (upd st k i FreeB)"
    by (rule bits_okI) (use bits_split [OF d(4)] bits_alloc [OF d(4)] l k in auto)
  from inv_push [OF inv l nh d(1) same_geom_refl refl this coalesced_free [OF d(3)]] k obtain b' where
    "free_push k (baddr b k i) b = Ok () b'" "same_geom b b'" "bd_inv b' (upd st k i FreeB)" by auto
  then show ?case by (auto simp: live_upd_Free)
next
  case (Suc n)
  note inv = Suc(2) and l = Suc(3) and nh = Suc(4)
  note d = inv_D [OF inv]
  have k: "k < MAXSIZE b" using Suc(5) by simp
  have h: "in_heap (MAXSIZE b) (k, i)" by (rule tree_in_heap [OF d(2)]) (simp add: l)
  have hb: "in_heap (MAXSIZE b) (k, bud i)" by (rule bud_in_heap [OF h k])
  from alloc_invert_ok [OF d(1) hb] obtain b1 where
    b1: "alloc_invert k (cdiv (int (bud i)) 2) b = Ok () b1" "bd_wf b1" "same_geom b b1" "bd_heap b1 = bd_heap b"
    "splitbit b1 = splitbit b"
    "\<forall>k' j. allocbit b1 k' j = (if k' = k \<and> j = i div 2 then \<not> allocbit b k' j else allocbit b k' j)"
    unfolding bud_div by blast
  note g1 = same_geomD [OF b1(3)]
  have buddy: "buddy_of (blk_index b k (baddr b k i)) = int (bud i)"
    using blk_index_baddr(1) [OF d(1) h] by (simp add: buddy_of_bud)
  have is1: "alloc_isset k (cdiv (int (bud i)) 2) b1 = Ok (used (st k (bud i))) b1"
    using alloc_isset_ok [OF b1(2)] hb g1 b1(6) bits_pair [OF d(4) h k] l by (simp add: bud_div)
  show ?case
  proof (cases "used (st k (bud i))")
    case True
    have "bits_ok b1 (upd st k i FreeB)" by (rule bits_flip [OF d(4) g1(2) b1(5,6)]) (use l in auto)
    moreover have "coalesced (MAXSIZE b) (upd st k i FreeB)"
      by (rule coalesced_free [OF d(3)]) (use True in \<open>auto simp: used_def\<close>)
    ultimately obtain b' where
      "free_push k (baddr b k i) b1 = Ok () b'" "same_geom b b'" "bd_inv b' (upd st k i FreeB)"
      using inv_push [OF inv l nh b1(2,3,4)] by blast
    moreover have "free_loop (Suc n) k (baddr b k i) b = free_push k (baddr b k i) b1"
      by (simp add: buddy b1(1) is1 True)
    ultimately show ?thesis by (auto simp: live_upd_Free)
  next
    case False
    let ?j = "i div 2"
    have s: "st (Suc k) ?j = SplitB" using tree_parent [OF d(2) h k] l by simp
    then have "st k (bud i) \<noteq> NoBlk" using tree_parent [OF d(2) hb k] by (simp add: bud_div)
    with False have f: "st k (bud i) = FreeB" by (cases "st k (bud i)") auto
    from inv_merge [OF inv l nh k f b1(2-6)] obtain b2 where
      b2: "split_clear (Suc k) (int ?j) (b1\<lparr>bd_heap := lst_remove (baddr b k (bud i)) (bd_heap b1)\<rparr>) = Ok () b2"
      "same_geom b b2" "bd_inv b2 (merge_blk st k ?j)" by blast
    note g2 = same_geomD [OF b2(2)]
    let ?b1 = "b1\<lparr>bd_heap := lst_remove (baddr b k (bud i)) (bd_heap b1)\<rparr>"
    have q: "bd_addr b1 k (int (bud i)) = baddr b k (bud i)"
      using bd_addr_baddr [OF b1(2)] hb g1 by simp
    have p: "(if cmod (int (bud i)) 2 = 0 then baddr b k (bud i) else baddr b k i) = baddr b (Suc k) ?j"
    proof -
      have m: "cmod (int x) 2 = int (x mod 2)" for x by (simp add: cmod_nonneg zmod_int)
      consider c where "i = 2 * c" | c where "i = 2 * c + 1" using half_parity [of i] by blast
      then show ?thesis unfolding m by cases (simp_all add: baddr_left bud_def)
    qed
    have hp: "in_heap (MAXSIZE b) (Suc k, ?j)" by (rule in_heap_parent [OF h k])
    have bi: "blk_index ?b1 (Suc k) (baddr b (Suc k) ?j) = int ?j"
    proof -
      have "same_geom b ?b1" using b1(3) by (simp add: same_geom_def)
      from same_geomD [OF this] blk_index_baddr(1) [of ?b1 "Suc k" ?j] b1(2) hp show ?thesis by simp
    qed
    have lp: "free_loop (Suc n) k (baddr b k i) b = free_loop n (Suc k) (baddr b2 (Suc k) ?j) b2"
      using b2(1) p bi by (simp add: buddy b1(1) is1 False q Let_def g2 split: if_splits)
    have pr: "{st k (2 * ?j), st k (2 * ?j + 1)} = {LiveB, FreeB}" using l f by (rule merge_pair)
    have ml: "merge_blk st k ?j (Suc k) ?j = LiveB" by (simp add: merge_blk_def)
    have n: "\<not> is_head b2 (Suc k, ?j)" "n = MAXSIZE b2 - Suc k" using Suc(5) g2 by (simp_all add: is_head_def)
    from Suc.IH [OF b2(3) ml n] obtain b' st' where
      r: "free_loop (Suc n) k (baddr b k i) b = Ok () b'" "same_geom b2 b'" "bd_inv b' st'"
      "live st' = live (merge_blk st k ?j) - {(Suc k, ?j)}"
      unfolding lp by blast
    have "live st' = live st - {(k, i)}"
      using r(4) live_merge_blk [of st k ?j i] pr l s by (auto simp: live_def)
    with r b2(2) show ?thesis using same_geom_trans by blast
  qed
qed

lemma size_loop_ok:
  assumes inv: "bd_inv b st" and l: "st k i = LiveB" and k: "k < MAXSIZE b" and "j \<le> k"
  shows "size_loop j (baddr b k i) b = Ok k b"
  using \<open>j \<le> k\<close>
proof (induction "k - j" arbitrary: j)
  case 0
  note d = inv_D [OF inv]
  have j: "j = k" "k < nsizes b" using 0 k wf_sizes [OF d(1)] by simp_all
  have h: "in_heap (MAXSIZE b) (k, i)" by (rule tree_in_heap [OF d(2)]) (simp add: l)
  have hp: "in_heap (MAXSIZE b) (Suc k, i div 2)" by (rule in_heap_parent [OF h k])
  have "st (Suc k) (i div 2) = SplitB" using tree_parent [OF d(2) h k] l by simp
  then have "split_isset (Suc k) (int (i div 2)) b = Ok True b"
    using split_isset_ok [OF d(1) hp] bits_split [OF d(4) _ hp] by simp
  with j blk_index_baddr(2) [OF d(1) h k] show ?case by (simp add: size_loop.simps [of k])
next
  case (Suc x)
  note d = inv_D [OF inv]
  have j: "j < k" "Suc j \<le> k" "j < nsizes b" using Suc(2,3) k wf_sizes [OF d(1)] by simp_all
  let ?l = "i * 2 ^ k"
  let ?i = "?l div 2 ^ Suc j"
  have h: "in_heap (MAXSIZE b) (k, i)" by (rule tree_in_heap [OF d(2)]) (simp add: l)
  have bi: "blk_index b (Suc j) (baddr b k i) = int ?i"
    using blk_index_leaf [OF d(1) in_heap_leaf [OF h]] by (simp add: baddr_def)
  have "(2::nat) ^ k = 2 ^ (k - Suc j) * 2 ^ Suc j" unfolding power_add [symmetric] using j(2) by simp
  then have "?l = i * 2 ^ (k - Suc j) * 2 ^ Suc j" by (simp only: mult.assoc)
  then have e: "?i = i * 2 ^ (k - Suc j)" by (simp only: nonzero_mult_div_cancel_right power_not_zero numeral_neq_zero not_False_eq_True)
  have up: "?i div 2 ^ (k - Suc j) = i" unfolding e by simp
  have "i < 2 ^ (MAXSIZE b - k)" using h by (simp add: in_heap_def)
  then have "?i < 2 ^ (MAXSIZE b - k) * 2 ^ (k - Suc j)" unfolding e by simp
  then have hj: "in_heap (MAXSIZE b) (Suc j, ?i)" using j k by (simp add: in_heap_def flip: power_add)
  have "st (Suc j) ?i \<noteq> SplitB"
  proof (cases "Suc j = k")
    case True
    with up l show ?thesis by simp
  next
    case False
    with j tree_anc [OF d(2), of "Suc j" ?i k] l k up show ?thesis by force
  qed
  then have "split_isset (Suc j) (int ?i) b = Ok False b"
    using split_isset_ok [OF d(1) hj] bits_split [OF d(4) _ hj] by simp
  moreover have "x = k - Suc j" using Suc(2) by simp
  from Suc(1) [OF this j(2)] have "size_loop (Suc j) (baddr b k i) b = Ok k b" .
  ultimately show ?case using j bi by (simp add: size_loop.simps [of j])
qed

lemma find_free_ok:
  assumes inv: "bd_inv b st"
  shows "\<exists>k. find_free fk b = Ok k b \<and> fk \<le> k \<and> (k < nsizes b \<longrightarrow> (\<exists>i. st k i = FreeB)) \<and>
    (\<forall>j i. fk \<le> j \<longrightarrow> j < k \<longrightarrow> j < nsizes b \<longrightarrow> st j i \<noteq> FreeB)"
proof (induction "nsizes b - fk" arbitrary: fk)
  case 0
  then show ?case by (subst find_free.simps) auto
next
  case (Suc x)
  note d = inv_D [OF inv]
  have k: "fk < nsizes b" "fk \<le> MAXSIZE b" using Suc(2) wf_sizes [OF d(1)] by simp_all
  note e = lists_empty_iff [OF d(5) k(1)]
  show ?case
  proof (cases "lst_empty (head_addr b fk) (bd_heap b)")
    case True
    have "x = nsizes b - Suc fk" using Suc(2) by simp
    from Suc(1) [OF this] obtain k' where k': "find_free (Suc fk) b = Ok k' b" "Suc fk \<le> k'"
      "k' < nsizes b \<longrightarrow> (\<exists>i. st k' i = FreeB)"
      "\<forall>j i. Suc fk \<le> j \<longrightarrow> j < k' \<longrightarrow> j < nsizes b \<longrightarrow> st j i \<noteq> FreeB" by blast
    have "find_free fk b = Ok k' b"
      using k' k free_empty_ok [OF d(1) k(2)] True by (simp add: find_free.simps [of fk])
    moreover have "\<forall>j i. fk \<le> j \<longrightarrow> j < k' \<longrightarrow> j < nsizes b \<longrightarrow> st j i \<noteq> FreeB"
      using k'(4) e True by (metis Suc_leI le_neq_implies_less)
    ultimately show ?thesis using k' by auto
  next
    case False
    then show ?thesis using e k free_empty_ok [OF d(1) k(2)] by (subst find_free.simps) auto
  qed
qed

lemma split_loop_ok:
  assumes "bd_inv b st" and "st k i = LiveB" and "fk \<le> k"
  shows "\<exists>b' st'. split_loop fk k (baddr b k i) b = Ok () b' \<and> same_geom b b' \<and> bd_inv b' st' \<and>
    live st' = insert (fk, i * 2 ^ (k - fk)) (live st - {(k, i)})"
  using assms
proof (induction k arbitrary: i b st)
  case 0
  then show ?case by (auto simp: live_def)
next
  case (Suc k)
  show ?case
  proof (cases "Suc k = fk")
    case True
    then show ?thesis using Suc.prems by (auto simp: live_def)
  next
    case False
    with Suc.prems(3) have fk: "fk \<le> k" by simp
    note d = inv_D [OF Suc.prems(1)]
    have h: "in_heap (MAXSIZE b) (Suc k, i)" by (rule tree_in_heap [OF d(2)]) (simp add: Suc.prems(2))
    have no: "st k (2 * i) = NoBlk" "st k (2 * i + 1) = NoBlk"
      using tree_children(1,2) [OF d(2) h] Suc.prems(2) by auto
    from inv_split [OF Suc.prems(1,2), where C = "split_loop fk k (baddr b k (2 * i))"] obtain b1 where
      b1: "split_loop fk (Suc k) (baddr b (Suc k) i) b = split_loop fk k (baddr b k (2 * i)) b1"
      "same_geom b b1" "bd_inv b1 (split_blk st k i)"
      using fk by (auto simp: baddr_left Let_def)
    have "split_blk st k i k (2 * i) = LiveB" by (simp add: split_blk_def)
    from Suc.IH [OF b1(3) this fk] b1(1) same_geomD [OF b1(2)] obtain b' st' where
      r: "split_loop fk (Suc k) (baddr b (Suc k) i) b = Ok () b'" "same_geom b1 b'" "bd_inv b' st'"
      "live st' = insert (fk, 2 * i * 2 ^ (k - fk)) (live (split_blk st k i) - {(k, 2 * i)})" by auto
    have "2 * i * 2 ^ (k - fk) = i * 2 ^ (Suc k - fk)" using fk by (simp add: Suc_diff_le)
    moreover have "live (split_blk st k i) - {(k, 2 * i)} = live st - {(Suc k, i)}"
      using live_split_blk [of st k i] no Suc.prems(2) by (auto simp: live_def)
    ultimately have "live st' = insert (fk, i * 2 ^ (Suc k - fk)) (live st - {(Suc k, i)})"
      using r(4) by (simp only:)
    with r b1(2) show ?thesis using same_geom_trans by blast
  qed
qed

section \<open>The size class of a request\<close>

lemma firstk_loop_ok:
  assumes "unat sz = 16 * 2 ^ k" and "unat n \<le> 16 * 2 ^ (k + d)" and "k + d \<le> 59"
  shows "\<exists>k'. firstk_loop n sz k = Some k' \<and> k \<le> k' \<and> k' \<le> k + d \<and> unat n \<le> 16 * 2 ^ k' \<and>
    (\<forall>j. k \<le> j \<longrightarrow> j < k' \<longrightarrow> 16 * 2 ^ j < unat n)"
  using assms
proof (induction d arbitrary: k sz)
  case 0
  then show ?case by (subst firstk_loop.simps) (simp add: word_less_nat_alt)
next
  case (Suc d)
  show ?case
  proof (cases "sz < n")
    case True
    have "(2::nat) ^ k \<le> 2 ^ 58" using Suc.prems(3) by (intro power_increasing) auto
    then have "2 * unat sz < 2 ^ 64" using Suc.prems(1) by simp
    then have "unat (sz * 2) = 16 * 2 ^ Suc k" using Suc.prems(1) by (simp add: unat_word_ariths(2))
    from Suc.IH [OF this] Suc.prems obtain k' where
      k': "firstk_loop n (sz * 2) (Suc k) = Some k'" "Suc k \<le> k'" "k' \<le> k + Suc d" "unat n \<le> 16 * 2 ^ k'"
      "\<forall>j. Suc k \<le> j \<longrightarrow> j < k' \<longrightarrow> 16 * 2 ^ j < unat n" by auto
    have "16 * 2 ^ k < unat n" using True Suc.prems(1) by (simp add: word_less_nat_alt)
    with k'(5) have "\<forall>j. k \<le> j \<longrightarrow> j < k' \<longrightarrow> 16 * 2 ^ j < unat n"
      by (metis Suc_leI le_neq_implies_less)
    moreover have "firstk_loop n sz k = Some k'" using k'(1) True by (simp add: firstk_loop.simps [of n sz])
    ultimately show ?thesis using k' by auto
  next
    case False
    then show ?thesis using Suc.prems by (subst firstk_loop.simps) (auto simp: word_less_nat_alt)
  qed
qed

lemma firstk_ok:
  assumes "unat n \<le> 2 ^ 63"
  obtains k where "firstk n = Some k" and "k \<le> 59" and "unat n \<le> 16 * 2 ^ k"
    and "\<And>j. j < k \<Longrightarrow> 16 * 2 ^ j < unat n"
  using firstk_loop_ok [of 16 0 n 59] assms by (auto simp: firstk_def)

lemma firstk_loop_diverges:
  assumes "2 ^ 63 < unat n" and "firstk_loop n sz k = Some y"
  shows "sz \<noteq> 0 \<and> (\<forall>j \<le> 63. unat sz \<noteq> 2 ^ j)"
proof -
  have "2 ^ 63 < unat n \<longrightarrow> sz \<noteq> 0 \<and> (\<forall>j \<le> 63. unat sz \<noteq> 2 ^ j)"
  proof (rule firstk_loop.raw_induct [OF _ assms(2)])
    fix f :: "u64 \<Rightarrow> u64 \<Rightarrow> nat \<Rightarrow> nat option" and n sz k y
    assume IH: "\<And>n sz k y. f n sz k = Some y \<Longrightarrow> 2 ^ 63 < unat n \<longrightarrow> sz \<noteq> 0 \<and> (\<forall>j \<le> 63. unat sz \<noteq> 2 ^ j)"
      and e: "(if sz < n then f n (sz * 2) (k + 1) else Some k) = Some y"
    show "2 ^ 63 < unat n \<longrightarrow> sz \<noteq> 0 \<and> (\<forall>j \<le> 63. unat sz \<noteq> 2 ^ j)"
    proof (intro impI)
      assume n: "2 ^ 63 < unat n"
      have dbl: "sz * 2 \<noteq> 0 \<and> (\<forall>j \<le> 63. unat (sz * 2) \<noteq> 2 ^ j)" if "unat sz \<le> 2 ^ 63"
        using IH e n that by (simp add: word_less_nat_alt)
      have "unat sz \<noteq> 2 ^ j" if j: "j \<le> 63" for j
      proof
        assume s: "unat sz = 2 ^ j"
        have le: "(2::nat) ^ j \<le> 2 ^ 63" using j by (intro power_increasing) auto
        show False
        proof (cases "j = 63")
          case True
          then have "unat (sz * 2) = 0" using s by (simp add: unat_word_ariths(2))
          then show False using dbl le s by (simp add: unat_eq_zero)
        next
          case False
          have "(2::nat) ^ j \<le> 2 ^ 62" using j False by (intro power_increasing) auto
          then have "unat (sz * 2) = 2 ^ Suc j" using s by (simp add: unat_word_ariths(2))
          then show False using dbl le s j False by (metis Suc_leI le_neq_implies_less)
        qed
      qed
      then show "sz \<noteq> 0 \<and> (\<forall>j \<le> 63. unat sz \<noteq> 2 ^ j)" using dbl by auto
    qed
  qed
  with assms(1) show ?thesis by blast
qed

lemma firstk_None: "2 ^ 63 < unat n \<Longrightarrow> firstk n = None"
proof (rule ccontr)
  assume n: "2 ^ 63 < unat n" and "firstk n \<noteq> None"
  then obtain y where "firstk_loop n 16 0 = Some y" by (auto simp: firstk_def)
  from firstk_loop_diverges [OF n this, THEN conjunct2, rule_format, of 4] show False by simp
qed

section \<open>The abstract allocator\<close>

text \<open>
  \<open>bd_rel b L\<close>: \<open>b\<close> is a well-formed state in which exactly the blocks of \<open>L\<close> are live. \<open>fits M L k\<close> is what a
  request of size class \<open>k\<close> may get: the blocks of that size in the heap that share no leaf with a live one.
\<close>

definition bd_rel :: "bd \<Rightarrow> blk set \<Rightarrow> bool" where
  "bd_rel b L \<longleftrightarrow> 0 < bd_base b \<and> (\<exists>st. bd_inv b st \<and> L = live st)"

definition fits :: "nat \<Rightarrow> blk set \<Rightarrow> nat \<Rightarrow> nat set" where
  "fits M L k = {i. in_heap M (k, i) \<and> (\<forall>x \<in> L. leaves x \<inter> leaves (k, i) = {})}"

lemma live_no_overlap:
  assumes t: "tree_ok M st" and x: "x \<in> live st" and y: "y \<in> live st" and "x \<noteq> y"
  shows "leaves x \<inter> leaves y = {}"
proof (rule ccontr)
  obtain k i j i' where e: "x = (k, i)" "y = (j, i')" by (cases x, cases y)
  assume "leaves x \<inter> leaves y \<noteq> {}"
  then obtain l where "l \<in> leaves (k, i)" "l \<in> leaves (j, i')" using e by auto
  with tree_overlap [OF t, of k i j i' l] x y e \<open>x \<noteq> y\<close> show False by (auto simp: live_def)
qed

lemma no_free_no_fit:
  assumes t: "tree_ok M st" and c: "coalesced M st" and h: "in_heap M (k, i)"
    and f: "\<And>j i'. k \<le> j \<Longrightarrow> j \<le> M \<Longrightarrow> st j i' \<noteq> FreeB"
  shows "\<exists>x \<in> live st. leaves x \<inter> leaves (k, i) \<noteq> {}"
proof -
  let ?l = "i * 2 ^ k"
  have l: "?l \<in> leaves (k, i)" by (rule leaves_nonempty)
  have kM: "k \<le> M" using h by (simp add: in_heap_def)
  show ?thesis
  proof (cases "st k i")
    case LiveB
    then show ?thesis using l by (force simp: live_def)
  next
    case SplitB
    from split_has_live [OF t c this] obtain j i' where
      "st j i' = LiveB" "leaves (j, i') \<subseteq> leaves (k, i)" by blast
    then show ?thesis using leaves_nonempty [of i' j] by (force simp: live_def)
  next
    case FreeB
    then show ?thesis using f [of k i] kM by simp
  next
    case NoBlk
    have lM: "?l \<in> leaves (M, 0)" using in_heap_leaf [OF h] by (simp add: leaves_iff)
    have "\<exists>j i'. ?l \<in> leaves (j, i') \<and> occupied (st j i')"
      using tree_cover [OF t _ lM] t lM by (cases "st M 0") (auto simp: tree_ok_def occupied_def)
    then obtain j i' where j: "?l \<in> leaves (j, i')" "occupied (st j i')" by blast
    have jM: "j \<le> M" using tree_in_heap [OF t, of j i'] j(2) by (auto simp: in_heap_def)
    have "k < j"
    proof (rule ccontr)
      assume "\<not> k < j"
      then consider "j < k" | "j = k" by linarith
      then show False
      proof cases
        case 1
        have "i' div 2 ^ (k - j) = ?l div 2 ^ j div 2 ^ (k - j)" using j(1) by (simp add: leaves_iff)
        also have "\<dots> = ?l div 2 ^ k" using 1 by (simp flip: div_mult2_eq power_add)
        finally show False using tree_anc [OF t, of j i' k] j(2) 1 kM NoBlk by auto
      next
        case 2
        with j(1) have "i' = i" by (simp add: leaves_iff)
        with 2 j(2) NoBlk show False by simp
      qed
    qed
    with f [of j i'] j jM have "st j i' = LiveB" by (auto simp: occupied_def)
    then show ?thesis using j(1) l by (force simp: live_def)
  qed
qed

lemma malloc_inv:
  assumes inv: "bd_inv b st" and fk: "firstk n = Some fk"
  shows "(\<exists>i b' st'. i \<in> fits (MAXSIZE b) (live st) fk \<and> bd_malloc_locked n b = Ok (baddr b fk i) b' \<and>
      same_geom b b' \<and> bd_inv b' st' \<and> live st' = insert (fk, i) (live st)) \<or>
    (fits (MAXSIZE b) (live st) fk = {} \<and> bd_malloc_locked n b = Ok 0 b)"
proof -
  note d = inv_D [OF inv]
  from find_free_ok [OF inv, of fk] obtain k where k: "find_free fk b = Ok k b" "fk \<le> k"
    "k < nsizes b \<longrightarrow> (\<exists>i. st k i = FreeB)"
    "\<forall>j i. fk \<le> j \<longrightarrow> j < k \<longrightarrow> j < nsizes b \<longrightarrow> st j i \<noteq> FreeB" by blast
  show ?thesis
  proof (cases "k < nsizes b")
    case False
    then have "fits (MAXSIZE b) (live st) fk = {}"
      using no_free_no_fit [OF d(2,3), of fk] k(4) wf_sizes [OF d(1)] by (fastforce simp: fits_def)
    moreover have "bd_malloc_locked n b = Ok 0 b" using k False fk by (simp add: bd_malloc_locked_def)
    ultimately show ?thesis by simp
  next
    case True
    then have e: "\<not> lst_empty (head_addr b k) (bd_heap b)" using k(3) lists_empty_iff [OF d(5) True] by blast
    from inv_alloc [OF inv True e, where C = "\<lambda>p b. bindr (split_loop fk k p b) (\<lambda>_ b. Ok p b)"] obtain i b1 where
      b1: "st k i = FreeB" "same_geom b b1" "bd_inv b1 (upd st k i LiveB)"
      "bindr (free_pop k b) (\<lambda>p b. bindr (alloc_invert k (cdiv (blk_index b k p) 2) b) (\<lambda>_ b.
        bindr (split_loop fk k p b) (\<lambda>_ b. Ok p b))) =
        bindr (split_loop fk k (baddr b k i) b1) (\<lambda>_ b'. Ok (baddr b k i) b')" by blast
    have g1: "baddr b1 = baddr b" using same_geomD [OF b1(2)] by simp
    have "upd st k i LiveB k i = LiveB" by simp
    from split_loop_ok [OF b1(3) this k(2)] obtain b' st' where
      b': "split_loop fk k (baddr b k i) b1 = Ok () b'" "same_geom b1 b'" "bd_inv b' st'"
      "live st' = insert (fk, i * 2 ^ (k - fk)) (live (upd st k i LiveB) - {(k, i)})" unfolding g1 by blast
    let ?i = "i * 2 ^ (k - fk)"
    have ad: "baddr b k i = baddr b fk ?i" using k(2) by (simp add: baddr_eq_iff flip: power_add)
    have lv: "live st' = insert (fk, ?i) (live st)" using b'(4) b1(1) by (auto simp: live_def)
    have g: "same_geom b b'" using b1(2) b'(2) by (rule same_geom_trans)
    have t': "tree_ok (MAXSIZE b) st'" using inv_D(2) [OF b'(3)] same_geomD [OF g] by simp
    have new: "(fk, ?i) \<in> live st'" using lv by simp
    have "?i \<in> fits (MAXSIZE b) (live st) fk"
    proof -
      have "in_heap (MAXSIZE b) (fk, ?i)" using tree_in_heap [OF t', of fk ?i] new by (simp add: live_def)
      moreover have "leaves x \<inter> leaves (fk, ?i) = {}" if x: "x \<in> live st" for x
      proof (cases "x = (fk, ?i)")
        case True
        then have "st fk ?i = LiveB" using x by (simp add: live_def)
        moreover have "?i * 2 ^ fk = i * 2 ^ k" using k(2) by (simp flip: power_add)
        ultimately show ?thesis using occupied_addr [OF d(2), of fk ?i k i] b1(1) by auto
      next
        case False
        then show ?thesis using live_no_overlap [OF t' _ new] x lv by auto
      qed
      ultimately show ?thesis by (simp add: fits_def)
    qed
    moreover have "bd_malloc_locked n b = Ok (baddr b fk ?i) b'"
      using k(1) True b1(4) b'(1) fk by (simp add: bd_malloc_locked_def ad)
    ultimately show ?thesis using g b'(3) lv by blast
  qed
qed

lemma live_below_top:
  assumes inv: "bd_inv b st" and l: "st k i = LiveB" and nh: "\<not> is_head b (k, i)"
  shows "k < MAXSIZE b"
proof (rule ccontr)
  note d = inv_D [OF inv]
  have h: "in_heap (MAXSIZE b) (k, i)" by (rule tree_in_heap [OF d(2)]) (simp add: l)
  assume "\<not> k < MAXSIZE b"
  with h have "i * 2 ^ k = 0 * 2 ^ 0" by (simp add: in_heap_def)
  moreover have "st 0 (2 * 0) = LiveB" using d(6) [unfolded heads_live_def, rule_format, of 0] wf_sizes [OF d(1)] by simp
  ultimately have "k = 0 \<and> i = 0" using occupied_addr [OF d(2), of k i 0 0] l by simp
  then show False using nh wf_sizes [OF d(1)] by (auto simp: is_head_def)
qed

lemma free_inv:
  assumes inv: "bd_inv b st" and l: "st k i = LiveB" and nh: "\<not> is_head b (k, i)"
  shows "\<exists>b' st'. bd_free_locked (baddr b k i) b = Ok () b' \<and> same_geom b b' \<and> bd_inv b' st' \<and>
    live st' = live st - {(k, i)}"
  using free_loop_ok [OF inv l nh refl] size_loop_ok [OF inv l live_below_top [OF inv l nh] le0]
  by (simp add: bd_free_locked_def bd_size_def)

text \<open>Freed buddies are always merged, so the live blocks determine the whole tree.\<close>

lemma split_iff_live:
  assumes t: "tree_ok M st" and c: "coalesced M st" and k: "k \<le> M"
  shows "st k i = SplitB \<longleftrightarrow> (\<exists>j i'. j < k \<and> (j, i') \<in> live st \<and> i' div 2 ^ (k - j) = i)"
proof
  assume s: "st k i = SplitB"
  from split_has_live [OF t c this] obtain j i' where
    j: "st j i' = LiveB" "leaves (j, i') \<subseteq> leaves (k, i)" by blast
  then have l: "i' * 2 ^ j div 2 ^ k = i"
    using subsetD [OF j(2) leaves_nonempty] by (simp only: leaves_iff)
  have jM: "j \<le> M" using tree_in_heap [OF t, of j i'] j(1) by (simp add: in_heap_def)
  have "j < k"
  proof (rule ccontr)
    assume "\<not> j < k"
    then consider "j = k" | "k < j" by linarith
    then show False
    proof cases
      case 1
      with l j(1) s show False by simp
    next
      case 2
      have "i div 2 ^ (j - k) = i' * 2 ^ j div 2 ^ k div 2 ^ (j - k)" using l by simp
      also have "\<dots> = i'" using 2 by (simp flip: div_mult2_eq power_add)
      finally show False using tree_anc [OF t, of k i j] s j(1) 2 jM by simp
    qed
  qed
  moreover have "i' div 2 ^ (k - j) = i"
  proof -
    have "i' * 2 ^ j div 2 ^ k = i' * 2 ^ j div (2 ^ j * 2 ^ (k - j))"
      using \<open>j < k\<close> by (simp flip: power_add)
    also have "\<dots> = i' div 2 ^ (k - j)" by (simp add: div_mult2_eq)
    finally show ?thesis using l by simp
  qed
  ultimately show "\<exists>j i'. j < k \<and> (j, i') \<in> live st \<and> i' div 2 ^ (k - j) = i"
    using j(1) by (auto simp: live_def)
next
  assume "\<exists>j i'. j < k \<and> (j, i') \<in> live st \<and> i' div 2 ^ (k - j) = i"
  then show "st k i = SplitB" using tree_anc [OF t] k by (auto simp: live_def)
qed

lemma tree_unique:
  assumes "tree_ok M st" "coalesced M st" and "tree_ok M st'" "coalesced M st'" and l: "live st = live st'"
  shows "st = st'"
proof (intro ext)
  fix k i
  show "st k i = st' k i"
  proof (cases "in_heap M (k, i)")
    case False
    then show ?thesis using tree_in_heap [OF assms(1)] tree_in_heap [OF assms(3)] by metis
  next
    case h: True
    then have kM: "k \<le> M" by (simp add: in_heap_def)
    have s: "st j x = SplitB \<longleftrightarrow> st' j x = SplitB" if "j \<le> M" for j x
      using split_iff_live [OF assms(1,2) that] split_iff_live [OF assms(3,4) that] l by simp
    have "st k i = LiveB \<longleftrightarrow> st' k i = LiveB" using l by (auto simp: live_def set_eq_iff)
    moreover have "st k i = NoBlk \<longleftrightarrow> st' k i = NoBlk"
    proof (cases "k < M")
      case True
      then show ?thesis using tree_parent [OF assms(1) h] tree_parent [OF assms(3) h] s [of "Suc k"] by auto
    next
      case False
      with h have "k = M" "i = 0" by (auto simp: in_heap_def)
      then show ?thesis using assms(1,3) by (simp add: tree_ok_def)
    qed
    ultimately show ?thesis using s [OF kM, of i] by (cases "st k i"; cases "st' k i") auto
  qed
qed

text \<open>The addresses on the free list of size \<open>k\<close>, as \<open>lst_print\<close> shows them.\<close>

definition free_list :: "bd \<Rightarrow> nat \<Rightarrow> addr list option" where
  "free_list b k = lst_print (sz_free (bd_sizes b ! k)) (bd_heap b)"

lemma free_list_set:
  assumes "bd_inv b st" and "k < nsizes b"
  shows "\<exists>xs. free_list b k = Some xs \<and> distinct xs \<and> set xs = baddr b k ` {i. st k i = FreeB}"
proof -
  note d = inv_D [OF assms(1)]
  from d(5) obtain F where F: "dlists (bd_heap b) (head_addr b) F (nsizes b)"
    "\<And>k. k < nsizes b \<Longrightarrow> set (F k) = baddr b k ` {i. st k i = FreeB}" by (auto simp: lists_ok_def)
  have "k \<le> MAXSIZE b" using assms(2) wf_sizes [OF d(1)] by simp
  moreover have "dlist (bd_heap b) (head_addr b k) (F k)" using F(1) assms(2) by (simp add: dlists_def)
  ultimately show ?thesis
    using F(2) [OF assms(2)] lf.rep_distinct [OF F(1) assms(2)]
    by (auto simp: free_list_def wf_lengths(4) [OF d(1)] dest!: lst_print_dlist)
qed

section \<open>The interface the rest of the kernel relies on\<close>

text \<open>
  \<open>rel b L\<close>: the state \<open>b\<close> has the live blocks \<open>L\<close>; \<open>loc\<close> is a block's address and \<open>own\<close> the blocks a client may
  hold. A client that only frees what it holds never makes the allocator fail.
\<close>

datatype 'n req = Get 'n | Put nat

fun client_run :: "('n \<Rightarrow> 'b \<Rightarrow> ('b, addr) res) \<Rightarrow> (addr \<Rightarrow> 'b \<Rightarrow> ('b, unit) res) \<Rightarrow> 'n req list \<Rightarrow>
    addr list \<Rightarrow> 'b \<Rightarrow> ('b, addr list) res" where
  "client_run al de [] held b = Ok held b"
| "client_run al de (Get n # rs) held b =
     bindr (al n b) (\<lambda>p b. client_run al de rs (if p = 0 then held else p # held) b)"
| "client_run al de (Put j # rs) held b =
     (if j < length held
      then bindr (de (held ! j) b) (\<lambda>_ b. client_run al de rs (take j held @ drop (Suc j) held) b)
      else client_run al de rs held b)"

locale block_allocator =
  fixes rel :: "'b \<Rightarrow> 'x set \<Rightarrow> bool"
    and al :: "'n \<Rightarrow> 'b \<Rightarrow> ('b, addr) res"
    and de :: "addr \<Rightarrow> 'b \<Rightarrow> ('b, unit) res"
    and loc :: "'b \<Rightarrow> 'x \<Rightarrow> addr"
    and own :: "'b \<Rightarrow> 'x \<Rightarrow> bool"
    and good :: "'n \<Rightarrow> bool"
  assumes al_spec: "rel b L \<Longrightarrow> good n \<Longrightarrow> al n b = Ok 0 b \<or>
      (\<exists>x b'. al n b = Ok (loc b x) b' \<and> x \<notin> L \<and> own b x \<and> rel b' (insert x L) \<and>
        loc b' = loc b \<and> own b' = own b)"
    and de_spec: "rel b L \<Longrightarrow> x \<in> L \<Longrightarrow> own b x \<Longrightarrow>
      \<exists>b'. de (loc b x) b = Ok () b' \<and> rel b' (L - {x}) \<and> loc b' = loc b \<and> own b' = own b"
    and loc_inj: "rel b L \<Longrightarrow> x \<in> L \<Longrightarrow> y \<in> L \<Longrightarrow> loc b x = loc b y \<Longrightarrow> x = y"
    and loc_nonzero: "rel b L \<Longrightarrow> loc b x \<noteq> 0"
begin

lemma al_de:
  assumes r: "rel b L" and n: "good n" and a: "al n b = Ok p b'" and p: "p \<noteq> 0"
  shows "\<exists>b''. de p b' = Ok () b'' \<and> rel b'' L \<and> loc b'' = loc b"
proof -
  from al_spec [OF r n] a p obtain x where x: "p = loc b x" "x \<notin> L" "own b x" "rel b' (insert x L)"
    "loc b' = loc b" "own b' = own b" by auto
  from de_spec [OF x(4), of x] x obtain b'' where
    "de p b' = Ok () b''" "rel b'' (insert x L - {x})" "loc b'' = loc b'" by auto
  with x show ?thesis by auto
qed

lemma run_safe:
  assumes "rel b L" and "\<And>n. Get n \<in> set rs \<Longrightarrow> good n"
    and "distinct xs" and "set xs \<subseteq> L" and "\<And>x. x \<in> set xs \<Longrightarrow> own b x"
  shows "\<exists>xs' b'. client_run al de rs (map (loc b) xs) b = Ok (map (loc b) xs') b' \<and>
    distinct xs' \<and> (L - set xs) \<inter> set xs' = {} \<and> rel b' (L - set xs \<union> set xs') \<and> loc b' = loc b"
  using assms
proof (induction rs arbitrary: b L xs)
  case Nil
  moreover have "L - set xs \<union> set xs = L" using Nil.prems by auto
  ultimately show ?case by auto
next
  case (Cons r rs)
  show ?case
  proof (cases r)
    case (Get n)
    from al_spec [OF Cons.prems(1), of n] Cons.prems(2) Get
    consider "al n b = Ok 0 b" | x b' where "al n b = Ok (loc b x) b'" "x \<notin> L" "own b x"
      "rel b' (insert x L)" "loc b' = loc b" "own b' = own b" by auto
    then show ?thesis
    proof cases
      case 1
      from Cons.IH [OF Cons.prems(1) _ Cons.prems(3-5)] Cons.prems(2) show ?thesis using 1 Get by simp
    next
      case 2
      have d: "insert x L - set (x # xs) = L - set xs" using 2(2) by auto
      have "distinct (x # xs)" "set (x # xs) \<subseteq> insert x L" using Cons.prems 2 by auto
      moreover have "own b' y" if "y \<in> set (x # xs)" for y using that Cons.prems(5) 2(3,6) by auto
      moreover have "good m" if "Get m \<in> set rs" for m using that Cons.prems(2) by simp
      ultimately have "\<exists>xs' c. client_run al de rs (map (loc b') (x # xs)) b' = Ok (map (loc b') xs') c \<and>
          distinct xs' \<and> (L - set xs) \<inter> set xs' = {} \<and> rel c (L - set xs \<union> set xs') \<and> loc c = loc b'"
        using Cons.IH [OF 2(4), of "x # xs"] unfolding d by blast
      with 2(1,5) loc_nonzero [OF Cons.prems(1)] Get show ?thesis by simp
    qed
  next
    case (Put j)
    show ?thesis
    proof (cases "j < length xs")
      case False
      with Cons.IH [OF Cons.prems(1) _ Cons.prems(3-5)] Cons.prems(2) Put show ?thesis by simp
    next
      case True
      let ?x = "xs ! j" and ?xs = "take j xs @ drop (Suc j) xs"
      have x: "?x \<in> set xs" using True by simp
      from de_spec [OF Cons.prems(1), of ?x] x Cons.prems(4,5) obtain b' where
        b': "de (loc b ?x) b = Ok () b'" "rel b' (L - {?x})" "loc b' = loc b" "own b' = own b" by blast
      have e: "xs = take j xs @ ?x # drop (Suc j) xs" using True by (rule id_take_nth_drop)
      with Cons.prems(3) have ds: "distinct (take j xs @ ?x # drop (Suc j) xs)" by simp
      from set_remove_mid [OF ds] e have s1: "set ?xs = set xs - {?x}" by simp
      from ds have s2: "distinct ?xs" unfolding distinct_append by auto
      note s = s1 s2
      have d: "L - {?x} - (set xs - {?x}) = L - set xs" using x by auto
      have "own b' y" if "y \<in> set ?xs" for y using that Cons.prems(5) b'(4) unfolding s(1) by simp
      moreover have "good m" if "Get m \<in> set rs" for m using that Cons.prems(2) by simp
      moreover have "set ?xs \<subseteq> L - {?x}" using Cons.prems(4) unfolding s(1) by blast
      ultimately have "\<exists>xs' c. client_run al de rs (map (loc b') ?xs) b' = Ok (map (loc b') xs') c \<and>
          distinct xs' \<and> (L - set xs) \<inter> set xs' = {} \<and> rel c (L - set xs \<union> set xs') \<and> loc c = loc b'"
        using Cons.IH [OF b'(2) _ s(2)] unfolding s(1) d by blast
      with b'(1,3) Put True show ?thesis by (simp add: take_map drop_map)
    qed
  qed
qed

end

lemma head_live:
  assumes "bd_inv b st" and "is_head b x"
  shows "x \<in> live st"
  using assms inv_D(6) [OF assms(1)] by (auto simp: is_head_def heads_live_def live_def)

lemma bd_rel_malloc:
  assumes r: "bd_rel b L" and fk: "firstk n = Some fk"
  shows "(\<exists>i b'. i \<in> fits (MAXSIZE b) L fk \<and> \<not> is_head b (fk, i) \<and>
      bd_malloc_locked n b = Ok (baddr b fk i) b' \<and> same_geom b b' \<and> bd_rel b' (insert (fk, i) L)) \<or>
    (fits (MAXSIZE b) L fk = {} \<and> bd_malloc_locked n b = Ok 0 b)"
proof -
  from r obtain st where st: "bd_inv b st" "L = live st" "0 < bd_base b" by (auto simp: bd_rel_def)
  from malloc_inv [OF st(1) fk] show ?thesis
  proof (elim disjE exE conjE)
    fix i b' st'
    assume a: "i \<in> fits (MAXSIZE b) (live st) fk" "bd_malloc_locked n b = Ok (baddr b fk i) b'"
      "same_geom b b'" "bd_inv b' st'" "live st' = insert (fk, i) (live st)"
    have "\<not> is_head b (fk, i)"
    proof
      assume "is_head b (fk, i)"
      with head_live [OF st(1)] a(1) have "leaves (fk, i) \<inter> leaves (fk, i) = {}" by (auto simp: fits_def)
      then show False using leaves_nonempty by blast
    qed
    moreover have "bd_rel b' (insert (fk, i) L)"
      unfolding bd_rel_def using a(4,5) st same_geomD(3) [OF a(3)] by auto
    ultimately show ?thesis using a st by blast
  qed (use st in simp)
qed

lemma bd_rel_free:
  assumes r: "bd_rel b L" and x: "(k, i) \<in> L" and nh: "\<not> is_head b (k, i)"
  shows "\<exists>b'. bd_free_locked (baddr b k i) b = Ok () b' \<and> same_geom b b' \<and> bd_rel b' (L - {(k, i)})"
proof -
  from r obtain st where st: "bd_inv b st" "L = live st" "0 < bd_base b" by (auto simp: bd_rel_def)
  from x st(2) have "st k i = LiveB" by (simp add: live_def)
  from free_inv [OF st(1) this nh] obtain b' st' where
    f: "bd_free_locked (baddr b k i) b = Ok () b'" "same_geom b b'" "bd_inv b' st'" "live st' = live st - {(k, i)}"
    by blast
  then have "bd_rel b' (L - {(k, i)})" unfolding bd_rel_def using st same_geomD(3) [OF f(2)] by auto
  with f show ?thesis by blast
qed

interpretation bda: block_allocator bd_rel bd_malloc_locked bd_free_locked
  "\<lambda>b x. baddr b (fst x) (snd x)" "\<lambda>b x. \<not> is_head b x" "\<lambda>n. unat n \<le> 2 ^ 63"
proof
  fix b L and n :: u64
  assume r: "bd_rel b L" and n: "unat n \<le> 2 ^ 63"
  obtain fk where fk: "firstk n = Some fk" by (rule firstk_ok [OF n])
  have new: "(fk, i) \<notin> L" if "i \<in> fits (MAXSIZE b) L fk" for i
    using that leaves_nonempty [of i fk] by (force simp: fits_def)
  from bd_rel_malloc [OF r fk] show "bd_malloc_locked n b = Ok 0 b \<or>
      (\<exists>x b'. bd_malloc_locked n b = Ok (baddr b (fst x) (snd x)) b' \<and> x \<notin> L \<and> \<not> is_head b x \<and>
        bd_rel b' (insert x L) \<and> (\<lambda>x. baddr b' (fst x) (snd x)) = (\<lambda>x. baddr b (fst x) (snd x)) \<and>
        (\<lambda>x. \<not> is_head b' x) = (\<lambda>x. \<not> is_head b x))"
  proof (elim disjE exE conjE)
    fix i b' assume a: "i \<in> fits (MAXSIZE b) L fk" "\<not> is_head b (fk, i)"
      "bd_malloc_locked n b = Ok (baddr b fk i) b'" "same_geom b b'" "bd_rel b' (insert (fk, i) L)"
    then show ?thesis
      using new [OF a(1)] same_geomD [OF a(4)] by (intro disjI2 exI [of _ "(fk, i)"] exI [of _ b']) simp
  qed simp
next
  fix b L x assume "bd_rel b L" "x \<in> L" "\<not> is_head b x"
  then obtain b' where "bd_free_locked (baddr b (fst x) (snd x)) b = Ok () b'" "same_geom b b'" "bd_rel b' (L - {x})"
    using bd_rel_free [of b L "fst x" "snd x"] by auto
  then show "\<exists>b'. bd_free_locked (baddr b (fst x) (snd x)) b = Ok () b' \<and> bd_rel b' (L - {x}) \<and>
      (\<lambda>x. baddr b' (fst x) (snd x)) = (\<lambda>x. baddr b (fst x) (snd x)) \<and> (\<lambda>x. \<not> is_head b' x) = (\<lambda>x. \<not> is_head b x)"
    using same_geomD [of b b'] by (intro exI [of _ b']) simp
next
  fix b L x y assume "bd_rel b L" "x \<in> L" "y \<in> L" and e: "baddr b (fst x) (snd x) = baddr b (fst y) (snd y)"
  then obtain st where "bd_inv b st" "occupied (st (fst x) (snd x))" "occupied (st (fst y) (snd y))"
    by (auto simp: bd_rel_def live_def)
  from occupied_addr [OF inv_D(2) [OF this(1)] this(2,3)] e show "x = y"
    by (simp add: baddr_eq_iff prod_eq_iff)
next
  fix b L and x :: blk assume "bd_rel b L"
  then have "0 < bd_base b" by (simp add: bd_rel_def)
  moreover have "0 \<le> LEAF_SIZE * int (snd x * 2 ^ fst x)" by (simp add: LEAF_SIZE_def)
  ultimately show "baddr b (fst x) (snd x) \<noteq> 0" unfolding baddr_def by linarith
qed

section \<open>Properties of bd_malloc and bd_free\<close>

text \<open>
  A small concrete heap for the witnesses: eight leaves at address 4096, all of them live. The four list
  heads are in the leaves 0, 2, 4 and 6.
\<close>

definition full_heap :: bd where
  "full_heap = \<lparr>nsizes = 4,
     bd_sizes = [\<lparr>sz_free = 4096, sz_alloc = [0], sz_split = []\<rparr>, \<lparr>sz_free = 4128, sz_alloc = [0], sz_split = [15]\<rparr>,
       \<lparr>sz_free = 4160, sz_alloc = [0], sz_split = [3]\<rparr>, \<lparr>sz_free = 4192, sz_alloc = [0], sz_split = [1]\<rparr>],
     bd_base = 4096,
     bd_heap = fold (\<lambda>k. lst_init (4096 + 32 * int k)) [0..<4] \<lparr>lnext = \<lambda>_. 0, lprev = \<lambda>_. 0\<rparr>\<rparr>"

definition full_tree :: btree where
  "full_tree k i = (if in_heap 3 (k, i) then if k = 0 then LiveB else SplitB else NoBlk)"

lemma live_full_tree: "live full_tree = (\<lambda>i. (0, i)) ` {..<8}"
  by (auto simp: live_def full_tree_def in_heap_def split: if_splits)

lemma lt_4: "(k::nat) < 4 \<longleftrightarrow> k = 0 \<or> k = 1 \<or> k = 2 \<or> k = 3"
  by auto

lemma full_heap_inv: "bd_inv full_heap full_tree"
proof -
  have M: "MAXSIZE full_heap = 3" "nsizes full_heap = 4" by (simp_all add: MAXSIZE_def full_heap_def)
  have hd_addr: "head_addr full_heap = (\<lambda>k. 4096 + 32 * int k)"
    by (simp add: head_addr_def full_heap_def SZ_INFO_SIZE_def fun_eq_iff)
  have "bd_wf full_heap"
    unfolding bd_wf_def hd_addr alloc_bytes_nat split_bytes_nat M by (auto simp: full_heap_def lt_4)
  moreover have "tree_ok 3 full_tree"
  proof (rule tree_okI)
    fix k i assume "k < (3::nat)" "in_heap 3 (k, i)"
    with in_heap_parent [OF this(2,1)] show "full_tree k i \<noteq> NoBlk \<longleftrightarrow> full_tree (Suc k) (i div 2) = SplitB"
      by (simp add: full_tree_def)
  qed (auto simp: full_tree_def in_heap_def split: if_splits)
  moreover have "coalesced 3 full_tree" by (simp add: coalesced_def full_tree_def)
  moreover have "bits_ok full_heap full_tree"
  proof (rule bits_okI)
    fix k i :: nat assume k: "0 < k" and h: "in_heap (MAXSIZE full_heap) (k, i)"
    then have "full_tree k i = SplitB" by (simp add: full_tree_def M)
    moreover have "k = 1 \<and> i < 4 \<or> k = 2 \<and> i < 2 \<or> k = 3 \<and> i < 1"
      using k h lt_4 [of k] by (auto simp: in_heap_def M)
    then have "splitbit full_heap k i"
      by (auto simp: splitbit_def full_heap_def getbit_def lt_4 less_Suc_eq numeral_2_eq_2)
    ultimately show "splitbit full_heap k i = (full_tree k i = SplitB)" by simp
  next
    fix k j :: nat assume k: "k < MAXSIZE full_heap" and j: "j < 2 ^ (MAXSIZE full_heap - Suc k)"
    then have h: "in_heap 3 (Suc k, j)" by (simp add: in_heap_def M)
    then have "in_heap 3 (k, 2 * j)" "in_heap 3 (k, 2 * j + 1)"
      using k pow_minus_Suc [of k 3] by (auto simp: in_heap_def M)
    then have "used (full_tree k (2 * j))" "used (full_tree k (2 * j + 1))" by (simp_all add: full_tree_def)
    moreover have "\<not> allocbit full_heap k j"
    proof -
      have "k = 0 \<or> k = 1 \<or> k = 2" using k M by linarith
      then have "sz_alloc (bd_sizes full_heap ! k) = [0]" by (auto simp: full_heap_def)
      moreover have "(2::nat) ^ (3 - Suc k) \<le> 2 ^ 2" by (intro power_increasing) auto
      then have "j div 8 = 0" using j by (simp add: M)
      ultimately show ?thesis using getbit_replicate_0 [where n = "Suc 0" and i = j] by (simp add: allocbit_def)
    qed
    ultimately show "allocbit full_heap k j = (used (full_tree k (2 * j)) \<noteq> used (full_tree k (2 * j + 1)))" by simp
  qed
  moreover have "lists_ok full_heap full_tree"
  proof -
    have "dlists (fold (\<lambda>k. lst_init (4096 + 32 * int k)) [0..<4] \<lparr>lnext = \<lambda>_. 0, lprev = \<lambda>_. 0\<rparr>)
        (\<lambda>k. 4096 + 32 * int k) (\<lambda>_. []) 4" by (rule dlists_inits) simp
    then have "dlists (bd_heap full_heap) (head_addr full_heap) (\<lambda>_. []) (nsizes full_heap)"
      unfolding hd_addr M by (simp add: full_heap_def)
    then show ?thesis unfolding lists_ok_def by (intro exI [of _ "\<lambda>_. []"]) (auto simp: full_tree_def)
  qed
  moreover have "heads_live full_heap full_tree"
    by (auto simp: heads_live_def full_tree_def in_heap_def M lt_4)
  ultimately show ?thesis by (simp add: bd_inv_def M)
qed

lemma full_heap_rel: "bd_rel full_heap ((\<lambda>i. (0, i)) ` {..<8})"
  unfolding bd_rel_def live_full_tree [symmetric] using full_heap_inv by (auto simp: full_heap_def)

lemma full_heap_free_1:
  obtains b where "bd_free_locked 4112 full_heap = Ok () b" and "same_geom full_heap b"
    and "bd_rel b ((\<lambda>i. (0, i)) ` {..<8} - {(0, 1)})"
proof -
  have "\<not> is_head full_heap (0, 1)" by (auto simp: is_head_def)
  from bd_rel_free [OF full_heap_rel _ this] that show thesis by (auto simp: baddr_def full_heap_def LEAF_SIZE_def)
qed

lemma full_heap_fits: "fits 3 ((\<lambda>i. (0, i)) ` {..<8} - {(0, 1)}) 0 = {1}"
proof -
  have "i = 1" if "in_heap 3 (0, i)" "\<forall>x \<in> (\<lambda>i. (0, i)) ` {..<8} - {(0, 1)}. leaves x \<inter> leaves (0, i) = {}" for i
  proof (rule ccontr)
    assume "i \<noteq> 1"
    with that have "leaves (0, i) \<inter> leaves (0, i) = {}" by (auto simp: in_heap_def)
    then show False using leaves_nonempty by blast
  qed
  moreover have "in_heap 3 (0, 1)" by (simp add: in_heap_def)
  ultimately show ?thesis by (auto simp: fits_def leaves_iff set_eq_iff)
qed

lemma firstk_16: "firstk 16 = Some 0"
  by (simp add: firstk_def firstk_loop.simps)

lemma full_heap_malloc:
  assumes "bd_rel b ((\<lambda>i. (0, i)) ` {..<8} - {(0, 1)})" and "same_geom full_heap b"
  shows "\<exists>b'. bd_malloc_locked 16 b = Ok 4112 b'"
proof -
  have "MAXSIZE b = 3" "baddr b 0 1 = 4112"
    using same_geomD [OF assms(2)] by (simp_all add: MAXSIZE_def full_heap_def baddr_def LEAF_SIZE_def)
  then show ?thesis using bd_rel_malloc [OF assms(1) firstk_16] full_heap_fits by auto
qed

text \<open>
  C1. \<open>bd_malloc\<close> implements the abstract allocator. For a request of at most \<open>2^63\<close> bytes it picks the smallest
  block size that holds the request. If some block of that size in the heap shares no byte with a live block, it
  returns one such block and that block is the only new live block. If there is none, it returns 0 and changes
  nothing. It never panics and never reads or writes outside its bit arrays.
\<close>

theorem bd_malloc_refines:
  assumes r: "bd_rel b L" and n: "unat n \<le> 2 ^ 63"
  shows "\<exists>k. int (unat n) \<le> BLK_SIZE k \<and> (\<forall>j < k. BLK_SIZE j < int (unat n)) \<and>
    ((\<exists>i b'. i \<in> fits (MAXSIZE b) L k \<and> bd_malloc_locked n b = Ok (baddr b k i) b' \<and> bd_rel b' (insert (k, i) L)) \<or>
     (fits (MAXSIZE b) L k = {} \<and> bd_malloc_locked n b = Ok 0 b))"
proof -
  obtain k where k: "firstk n = Some k" "unat n \<le> 16 * 2 ^ k" "\<And>j. j < k \<Longrightarrow> 16 * 2 ^ j < unat n"
    using firstk_ok [OF n] by blast
  have e: "int (16 * 2 ^ j) = BLK_SIZE j" for j by (simp add: BLK_SIZE_def LEAF_SIZE_def)
  have "int (unat n) \<le> BLK_SIZE k" "\<forall>j < k. BLK_SIZE j < int (unat n)"
    using k(2,3) unfolding e [symmetric] of_nat_le_iff of_nat_less_iff by blast+
  with bd_rel_malloc [OF r k(1)] show ?thesis by blast
qed

theorem bd_malloc_refines_witness:
  "\<exists>b k i b'. bd_free_locked 4112 full_heap = Ok () b \<and> unat (16 :: u64) \<le> 2 ^ 63 \<and>
     bd_malloc_locked 16 b = Ok (baddr b k i) b' \<and> bd_rel b' (insert (k, i) ((\<lambda>i. (0, i)) ` {..<8} - {(0, 1)}))"
proof -
  obtain b where b: "bd_free_locked 4112 full_heap = Ok () b" "same_geom full_heap b"
    "bd_rel b ((\<lambda>i. (0, i)) ` {..<8} - {(0, 1)})" by (rule full_heap_free_1)
  have "bd_malloc_locked 16 b \<noteq> Ok 0 b" using full_heap_malloc [OF b(3,2)] by auto
  with bd_malloc_refines [OF b(3), of 16] b(1) show ?thesis by auto
qed

text \<open>
  C2. \<open>bd_free\<close> implements the abstract allocator. Given the address of any live block that does not hold the
  allocator's own list heads, of whatever size, it returns, finds the size of the block by itself, and afterwards
  exactly that block is no longer live. It never panics and never reads or writes outside its bit arrays.
\<close>

theorem bd_free_refines:
  assumes "bd_rel b L" and "(k, i) \<in> L" and "\<not> is_head b (k, i)"
  shows "\<exists>b'. bd_free_locked (baddr b k i) b = Ok () b' \<and> bd_rel b' (L - {(k, i)})"
  using bd_rel_free [OF assms] by blast

theorem bd_free_refines_witness:
  "(0, 3) \<in> (\<lambda>i. (0, i)) ` {..<8::nat} \<and> \<not> is_head full_heap (0, 3) \<and>
   (\<exists>b'. bd_free_locked (baddr full_heap 0 3) full_heap = Ok () b' \<and> bd_rel b' ((\<lambda>i. (0, i)) ` {..<8} - {(0, 3)}))"
proof -
  have h: "\<not> is_head full_heap (0, 3)" by (auto simp: is_head_def) presburger
  have m: "(0::nat, 3) \<in> (\<lambda>i. (0, i)) ` {..<8::nat}" by simp
  from h m bd_free_refines [OF full_heap_rel m h] show ?thesis by blast
qed

text \<open>
  C3. Allocating a block and freeing it again restores the allocator: every free list holds the same blocks as
  before, each of them once, and all \<open>split\<close> and \<open>alloc\<close> bits are as they were. Splitting and merging undo each
  other completely, so the heap does not fragment.
\<close>

theorem bd_malloc_free_roundtrip:
  assumes r: "bd_rel b L" and n: "unat n \<le> 2 ^ 63" and m: "bd_malloc_locked n b = Ok p b'" and p: "p \<noteq> 0"
  shows "\<exists>b''. bd_free_locked p b' = Ok () b'' \<and>
    (\<forall>k < nsizes b. \<exists>xs ys. free_list b k = Some xs \<and> free_list b'' k = Some ys \<and> distinct xs \<and> distinct ys \<and>
      set ys = set xs) \<and>
    (\<forall>k i. 0 < k \<longrightarrow> in_heap (MAXSIZE b) (k, i) \<longrightarrow> splitbit b'' k i = splitbit b k i) \<and>
    (\<forall>k j. k < MAXSIZE b \<longrightarrow> j < 2 ^ (MAXSIZE b - Suc k) \<longrightarrow> allocbit b'' k j = allocbit b k j)"
proof -
  obtain fk where fk: "firstk n = Some fk" by (rule firstk_ok [OF n])
  from bd_rel_malloc [OF r fk] m p obtain i where
    i: "i \<in> fits (MAXSIZE b) L fk" "\<not> is_head b (fk, i)" "p = baddr b fk i" "same_geom b b'"
    "bd_rel b' (insert (fk, i) L)" by auto
  have new: "(fk, i) \<notin> L" using i(1) leaves_nonempty [of i fk] by (force simp: fits_def)
  from bd_rel_free [OF i(5), of fk i] i(2) obtain b'' where
    f: "bd_free_locked (baddr b' fk i) b' = Ok () b''" "same_geom b' b''" "bd_rel b'' (insert (fk, i) L - {(fk, i)})"
    using same_geomD [OF i(4)] by auto
  have g: "same_geom b b''" using i(4) f(2) by (rule same_geom_trans)
  note gD = same_geomD [OF g]
  from r obtain st where st: "bd_inv b st" "live st = L" by (auto simp: bd_rel_def)
  from f(3) new obtain st' where st': "bd_inv b'' st'" "live st' = L" by (auto simp: bd_rel_def)
  have eq: "st' = st"
    by (rule tree_unique [of "MAXSIZE b"]) (use inv_D [OF st(1)] inv_D [OF st'(1)] gD st st' in simp_all)
  have "\<exists>xs ys. free_list b k = Some xs \<and> free_list b'' k = Some ys \<and> distinct xs \<and> distinct ys \<and> set ys = set xs"
    if "k < nsizes b" for k
    using free_list_set [OF st(1) that] free_list_set [OF st'(1), of k] that gD eq by auto
  moreover have "\<forall>k i. 0 < k \<longrightarrow> in_heap (MAXSIZE b) (k, i) \<longrightarrow> splitbit b'' k i = splitbit b k i"
    using bits_split [OF inv_D(4) [OF st(1)]] bits_split [OF inv_D(4) [OF st'(1)]] gD eq by simp
  moreover have "\<forall>k j. k < MAXSIZE b \<longrightarrow> j < 2 ^ (MAXSIZE b - Suc k) \<longrightarrow> allocbit b'' k j = allocbit b k j"
    using bits_alloc [OF inv_D(4) [OF st(1)]] bits_alloc [OF inv_D(4) [OF st'(1)]] gD eq by simp
  ultimately show ?thesis using f(1) i(3) same_geomD [OF i(4)] by auto
qed

theorem bd_malloc_free_roundtrip_witness:
  "\<exists>b b' b''. bd_free_locked 4112 full_heap = Ok () b \<and> bd_malloc_locked 16 b = Ok 4112 b' \<and>
     bd_free_locked 4112 b' = Ok () b''"
proof -
  obtain b where b: "bd_free_locked 4112 full_heap = Ok () b" "same_geom full_heap b"
    "bd_rel b ((\<lambda>i. (0, i)) ` {..<8} - {(0, 1)})" by (rule full_heap_free_1)
  obtain b' where b': "bd_malloc_locked 16 b = Ok 4112 b'" using full_heap_malloc [OF b(3,2)] by blast
  from bd_malloc_free_roundtrip [OF b(3) _ b'] obtain b'' where "bd_free_locked 4112 b' = Ok () b''" by auto
  with b(1) b' show ?thesis by blast
qed

text \<open>
  C4. Any sequence of allocations and frees by a client that frees only blocks it holds succeeds: no call panics,
  faults or hangs. At the end the live blocks are the ones that were live before and the ones the client holds,
  each held once, and no two live blocks share a byte.
\<close>

theorem bd_client_safe:
  assumes r: "bd_rel b L" and g: "\<And>n. Get n \<in> set rs \<Longrightarrow> unat n \<le> 2 ^ 63"
  shows "\<exists>xs b'. client_run bd_malloc_locked bd_free_locked rs [] b = Ok (map (\<lambda>x. baddr b (fst x) (snd x)) xs) b' \<and>
    distinct xs \<and> L \<inter> set xs = {} \<and> bd_rel b' (L \<union> set xs) \<and>
    (\<forall>x \<in> L \<union> set xs. \<forall>y \<in> L \<union> set xs. x \<noteq> y \<longrightarrow> leaves x \<inter> leaves y = {})"
proof -
  from bda.run_safe [OF r g, of rs "[]"] obtain xs b' where
    x: "client_run bd_malloc_locked bd_free_locked rs [] b = Ok (map (\<lambda>x. baddr b (fst x) (snd x)) xs) b'"
    "distinct xs" "L \<inter> set xs = {}" "bd_rel b' (L \<union> set xs)" by auto
  from x(4) obtain st where "bd_inv b' st" "live st = L \<union> set xs" by (auto simp: bd_rel_def)
  with live_no_overlap [OF inv_D(2)] have
    "\<forall>x \<in> L \<union> set xs. \<forall>y \<in> L \<union> set xs. x \<noteq> y \<longrightarrow> leaves x \<inter> leaves y = {}" by metis
  with x show ?thesis by blast
qed

theorem bd_client_safe_witness:
  "\<exists>xs b'. client_run bd_malloc_locked bd_free_locked [Get 16, Get 100, Put 0] [] full_heap =
     Ok (map (\<lambda>x. baddr full_heap (fst x) (snd x)) xs) b'"
proof -
  have "unat n \<le> 2 ^ 63" if "Get n \<in> set [Get 16, Get 100, Put 0]" for n :: u64 using that by auto
  from bd_client_safe [OF full_heap_rel this] show ?thesis by blast
qed

text \<open>
  C13. A request of more than \<open>2^63\<close> bytes makes \<open>bd_malloc\<close> loop forever, with the allocator's lock held: the
  doubling in \<open>firstk\<close> wraps around to 0 and never reaches the request.
\<close>

theorem bd_malloc_diverges:
  assumes "2 ^ 63 < unat n"
  shows "bd_malloc_locked n b = Diverge"
  using firstk_None [OF assms] by (simp add: bd_malloc_locked_def)

theorem bd_malloc_diverges_witness:
  "2 ^ 63 < unat (9223372036854775809 :: u64) \<and> bd_malloc_locked 9223372036854775809 full_heap = Diverge"
proof -
  have "2 ^ 63 < unat (9223372036854775809 :: u64)" by simp
  with bd_malloc_diverges [OF this] show ?thesis by blast
qed

end
