(* ===== verification/Buddy_Init.thy ===== *)
theory Buddy_Init
  imports Buddy_Ops
begin

text \<open>
  \<open>bd_init\<close> establishes the allocator's invariant. Its two calls of \<open>bd_mark\<close> mark the leaves of the metadata at
  the start of the heap and of the missing memory at its end; \<open>bd_initfree\<close> then fills the free lists, and its
  byte count equals what \<open>bd_init\<close> expects, so that it does not panic.
\<close>

section \<open>The tree after initialisation\<close>

text \<open>
  The first \<open>m\<close> leaves and the leaves from \<open>e\<close> on are marked. At size \<open>k\<close> the blocks that contain a marked leaf are
  those below \<open>lft m k\<close> and from \<open>rgt e k\<close> on.
\<close>

definition lft :: "nat \<Rightarrow> nat \<Rightarrow> nat" where
  "lft m k = (m + 2 ^ k - 1) div 2 ^ k"

definition rgt :: "nat \<Rightarrow> nat \<Rightarrow> nat" where
  "rgt e k = e div 2 ^ k"

definition touched :: "nat \<Rightarrow> nat \<Rightarrow> nat \<Rightarrow> nat \<Rightarrow> bool" where
  "touched m e k i \<longleftrightarrow> i < lft m k \<or> rgt e k \<le> i"

definition init_tree :: "nat \<Rightarrow> nat \<Rightarrow> nat \<Rightarrow> btree" where
  "init_tree M m e k i =
     (if \<not> in_heap M (k, i) then NoBlk
      else if touched m e k i then if k = 0 then LiveB else SplitB
      else if k < M \<and> touched m e (Suc k) (i div 2) then FreeB else NoBlk)"

text \<open>The metadata lie in the first quarter and hold the list heads, and some memory is missing at the end.\<close>

definition init_ok :: "nat \<Rightarrow> nat \<Rightarrow> nat \<Rightarrow> bool" where
  "init_ok M m e \<longleftrightarrow> 2 \<le> M \<and> M \<le> 26 \<and> 2 * Suc M \<le> m \<and> m \<le> 2 ^ (M - 2) \<and> 2 ^ (M - 1) \<le> e \<and> e < 2 ^ M"

lemma lft_0 [simp]: "lft m 0 = m"
  by (simp add: lft_def)

lemma rgt_0 [simp]: "rgt e 0 = e"
  by (simp add: rgt_def)

lemma rgt_Suc: "rgt e (Suc k) = rgt e k div 2"
  by (simp only: rgt_def div_pow_Suc)

lemma lft_Suc: "lft m (Suc k) = (lft m k + 1) div 2"
proof -
  have "m + 2 ^ Suc k - 1 = (m + 2 ^ k - 1) + 2 ^ k" by simp
  then have "lft m (Suc k) = ((m + 2 ^ k - 1) + 2 ^ k) div 2 ^ k div 2"
    by (simp only: lft_def div_pow_Suc)
  also have "((m + 2 ^ k - 1) + 2 ^ k) div 2 ^ k = lft m k + 1"
    using div_add_self2 [of "2 ^ k :: nat" "m + 2 ^ k - 1"] by (simp add: lft_def)
  finally show ?thesis .
qed

lemma lft_odd: "2 * lft m (Suc k) = lft m k + (if odd (lft m k) then 1 else 0)"
  by (auto simp: lft_Suc elim!: oddE)

lemma rgt_odd: "2 * rgt e (Suc k) + (if odd (rgt e k) then 1 else 0) = rgt e k"
  by (auto simp: rgt_Suc elim!: oddE)

lemma lft_le: "m \<le> 2 ^ a \<Longrightarrow> k \<le> a \<Longrightarrow> lft m k \<le> 2 ^ (a - k)"
proof (induction k)
  case (Suc k)
  then have "lft m k \<le> 2 * 2 ^ (a - Suc k)" using pow_minus_Suc [of k a] by simp
  then show ?case unfolding lft_Suc by linarith
qed simp

lemma rgt_ge: "2 ^ a \<le> e \<Longrightarrow> k \<le> a \<Longrightarrow> 2 ^ (a - k) \<le> rgt e k"
proof (induction k)
  case (Suc k)
  then have "2 * 2 ^ (a - Suc k) \<le> rgt e k" using pow_minus_Suc [of k a] by simp
  then show ?case unfolding rgt_Suc by linarith
qed simp

lemma rgt_less: "e < 2 ^ a \<Longrightarrow> k \<le> a \<Longrightarrow> rgt e k < 2 ^ (a - k)"
proof (induction k)
  case (Suc k)
  then have "rgt e k < 2 * 2 ^ (a - Suc k)" using pow_minus_Suc [of k a] by simp
  then show ?case unfolding rgt_Suc by linarith
qed simp

lemma lft_pos: "0 < m \<Longrightarrow> 0 < lft m k"
  by (induction k) (simp_all add: lft_Suc)

text \<open>Left and right stay apart: strictly below the two top sizes, and they meet at size \<open>M - 1\<close>.\<close>

lemma init_ok_D:
  assumes "init_ok M m e"
  shows "2 \<le> M" "M \<le> 26" "0 < m" "2 * Suc M \<le> m" "e < 2 ^ M" "m \<le> 2 ^ (M - 2)" "2 ^ (M - 1) \<le> e"
  using assms by (auto simp: init_ok_def)

lemma lft_rgt_top:
  assumes "init_ok M m e"
  shows "lft m (M - 1) = 1" and "rgt e (M - 1) = 1" and "lft m M = 1" and "rgt e M = 0"
proof -
  note d = init_ok_D [OF assms]
  have M: "M - 1 = Suc (M - 2)" "M = Suc (M - 1)" using d(1) by simp_all
  have "lft m (M - 2) \<le> 2 ^ 0" using lft_le [OF d(6), of "M - 2"] by simp
  then have "lft m (M - 2) = 1" using lft_pos [OF d(3), of "M - 2"] by simp
  then show l: "lft m (M - 1) = 1" unfolding M(1) lft_Suc by simp
  then show "lft m M = 1" by (subst M(2)) (simp add: lft_Suc)
  have "2 ^ 0 \<le> rgt e (M - 1)" using rgt_ge [OF d(7), of "M - 1"] by simp
  moreover have "rgt e (M - 1) < 2 ^ 1" using rgt_less [OF d(5), of "M - 1"] d(1) by simp
  ultimately show r: "rgt e (M - 1) = 1" by simp
  then show "rgt e M = 0" by (subst M(2)) (simp add: rgt_Suc)
qed

lemma lft_rgt_gap:
  assumes "init_ok M m e" and "k + 2 \<le> M"
  shows "lft m k < rgt e k" and "even (lft m k) \<Longrightarrow> lft m k + 1 \<noteq> rgt e k"
proof -
  note d = init_ok_D [OF assms(1)]
  let ?q = "2 ^ (M - 2 - k) :: nat"
  have l: "lft m k \<le> ?q" using lft_le [OF d(6)] assms(2) by simp
  have "M - 1 - k = Suc (M - 2 - k)" using assms(2) by simp
  then have r: "2 * ?q \<le> rgt e k" using rgt_ge [OF d(7), of k] assms(2) by simp
  have q: "1 \<le> ?q" by simp
  from l r q show "lft m k < rgt e k" by linarith
  assume "even (lft m k)"
  show "lft m k + 1 \<noteq> rgt e k"
  proof
    assume "lft m k + 1 = rgt e k"
    with l r q have "lft m k = 1" by linarith
    with \<open>even (lft m k)\<close> show False by simp
  qed
qed

lemma lft_le_rgt:
  assumes "init_ok M m e" and "k < M"
  shows "lft m k \<le> rgt e k"
proof (cases "k + 2 \<le> M")
  case True
  then show ?thesis using lft_rgt_gap(1) [OF assms(1)] by (simp add: less_imp_le)
next
  case False
  with assms(2) have "k = M - 1" by simp
  then show ?thesis using lft_rgt_top [OF assms(1)] by simp
qed

lemma touched_parent: "touched m e (Suc k) j \<longleftrightarrow> touched m e k (2 * j) \<or> touched m e k (2 * j + 1)"
  unfolding touched_def lft_Suc rgt_Suc by auto

lemma touched_half: "touched m e k i \<Longrightarrow> touched m e (Suc k) (i div 2)"
  using half_parity [of i] by (auto simp: touched_parent)

lemma init_tree_touched:
  "in_heap M (k, i) \<Longrightarrow> used (init_tree M m e k i) = touched m e k i"
  by (simp add: init_tree_def)

lemma init_tree_split: "in_heap M (k, i) \<Longrightarrow> 0 < k \<Longrightarrow> init_tree M m e k i = SplitB \<longleftrightarrow> touched m e k i"
  by (simp add: init_tree_def)

lemma tree_ok_init:
  assumes "init_ok M m e"
  shows "tree_ok M (init_tree M m e)"
proof (rule tree_okI)
  fix k i assume k: "k < M" and h: "in_heap M (k, i)"
  have "in_heap M (Suc k, i div 2)" by (rule in_heap_parent [OF h k])
  then show "init_tree M m e k i \<noteq> NoBlk \<longleftrightarrow> init_tree M m e (Suc k) (i div 2) = SplitB"
    using h k touched_half [of m e k i] by (auto simp: init_tree_def)
next
  show "init_tree M m e M 0 \<noteq> NoBlk"
    using lft_rgt_top(3) [OF assms] by (simp add: init_tree_def in_heap_def touched_def)
qed (auto simp: init_tree_def split: if_splits)

lemma coalesced_init: "coalesced M (init_tree M m e)"
  unfolding coalesced_def init_tree_def by (auto simp: touched_parent)

lemma init_tree_live: "live (init_tree M m e) = {(0, l) |l. l < 2 ^ M \<and> (l < m \<or> e \<le> l)}"
proof -
  have "init_tree M m e k i = LiveB \<longleftrightarrow> k = 0 \<and> in_heap M (0, i) \<and> touched m e 0 i" for k i
    by (cases "k = 0") (simp_all add: init_tree_def)
  then show ?thesis by (auto simp: live_def in_heap_def touched_def)
qed

text \<open>Below the top the free blocks of a size are the odd left end and the even right end of the gap.\<close>

lemma init_tree_free:
  assumes "init_ok M m e"
  shows "init_tree M m e k i = FreeB \<longleftrightarrow> k + 2 \<le> M \<and>
    (odd (lft m k) \<and> i = lft m k \<or> odd (rgt e k) \<and> Suc i = rgt e k)"
proof (cases "k + 2 \<le> M")
  case False
  have "touched m e k i" if h: "in_heap M (k, i)"
  proof (cases "k = M")
    case True
    with h lft_rgt_top(3) [OF assms] show ?thesis by (simp add: touched_def in_heap_def)
  next
    case f: False
    with False h have "k = M - 1" unfolding in_heap_def by auto
    with lft_rgt_top(1,2) [OF assms] show ?thesis by (auto simp: touched_def)
  qed
  then show ?thesis using False by (simp add: init_tree_def)
next
  case True
  note gap = lft_rgt_gap [OF assms True] and d = init_ok_D [OF assms]
  have rb: "rgt e k < 2 ^ (M - k)" using rgt_less [OF d(5)] True by simp
  have h: "in_heap M (k, i)" if "i < rgt e k" using that rb True by (simp add: in_heap_def)
  have "init_tree M m e k i = FreeB \<longleftrightarrow> lft m k \<le> i \<and> i < rgt e k \<and> touched m e (Suc k) (i div 2)"
    using True h by (auto simp: init_tree_def touched_def)
  also have "\<dots> \<longleftrightarrow> odd (lft m k) \<and> i = lft m k \<or> odd (rgt e k) \<and> Suc i = rgt e k"
    using gap(1) by (auto simp: touched_def lft_Suc rgt_Suc elim!: oddE; presburger)
  finally show ?thesis using True by simp
qed

section \<open>Marking\<close>

definition in_row :: "nat \<Rightarrow> nat \<Rightarrow> nat \<Rightarrow> bool" where
  "in_row bi bj i \<longleftrightarrow> bi \<le> i \<and> i < bj"

lemma in_row_step:
  assumes "bi < bj"
  shows "(in_row (Suc bi) bj (2 * j) \<noteq> in_row (Suc bi) bj (2 * j + 1)) =
    ((in_row bi bj (2 * j) \<noteq> in_row bi bj (2 * j + 1)) \<noteq> (j = bi div 2))"
proof (cases "j = bi div 2")
  case True
  with half_parity [of bi] assms show ?thesis by (auto simp: in_row_def)
next
  case False
  then have "2 * j \<noteq> bi" "2 * j + 1 \<noteq> bi" by auto
  with False show ?thesis by (auto simp: in_row_def)
qed

lemma mark_row_ok:
  assumes "bd_wf b" and "k \<le> MAXSIZE b" and "bj \<le> 2 ^ (MAXSIZE b - k)"
  shows "\<exists>b'. mark_row k (int bi) (int bj) b = Ok () b' \<and> bd_wf b' \<and> same_geom b b' \<and> bd_heap b' = bd_heap b \<and>
    (\<forall>k' i. splitbit b' k' i = (splitbit b k' i \<or> (k' = k \<and> 0 < k \<and> in_row bi bj i))) \<and>
    (\<forall>k' j. allocbit b' k' j = (allocbit b k' j \<noteq> (k' = k \<and> in_row bi bj (2 * j) \<noteq> in_row bi bj (2 * j + 1))))"
  using assms
proof (induction "bj - bi" arbitrary: bi b)
  case 0
  then have "mark_row k (int bi) (int bj) b = Ok () b" by (simp add: mark_row.simps)
  with 0 show ?case by (auto simp: in_row_def)
next
  case (Suc x)
  have lt: "bi < bj" using Suc(2) by simp
  have h: "in_heap (MAXSIZE b) (k, bi)" using lt Suc.prems by (simp add: in_heap_def)
  have "\<exists>b1. (if k > 0 then split_set k (int bi) b else Ok () b) = Ok () b1 \<and> bd_wf b1 \<and> same_geom b b1 \<and>
      bd_heap b1 = bd_heap b \<and> allocbit b1 = allocbit b \<and>
      (\<forall>k' i. splitbit b1 k' i = (splitbit b k' i \<or> (k' = k \<and> 0 < k \<and> i = bi)))"
    using split_set_ok [OF Suc.prems(1) h] Suc.prems(1) by (cases "0 < k") auto
  then obtain b1 where b1: "(if k > 0 then split_set k (int bi) b else Ok () b) = Ok () b1" "bd_wf b1" "same_geom b b1"
    "bd_heap b1 = bd_heap b" "allocbit b1 = allocbit b"
    "\<And>k' i. splitbit b1 k' i = (splitbit b k' i \<or> (k' = k \<and> 0 < k \<and> i = bi))" by blast
  note g1 = same_geomD [OF b1(3)]
  from alloc_invert_ok [OF b1(2), of k bi] h g1 obtain b2 where
    b2: "alloc_invert k (cdiv (int bi) 2) b1 = Ok () b2" "bd_wf b2" "same_geom b1 b2" "bd_heap b2 = bd_heap b1"
    "splitbit b2 = splitbit b1"
    "\<And>k' j. allocbit b2 k' j = (if k' = k \<and> j = bi div 2 then \<not> allocbit b1 k' j else allocbit b1 k' j)" by auto
  have g: "same_geom b b2" by (rule same_geom_trans [OF b1(3) b2(3)])
  have "x = bj - Suc bi" "k \<le> MAXSIZE b2" "bj \<le> 2 ^ (MAXSIZE b2 - k)"
    using Suc(2) Suc.prems same_geomD [OF g] by simp_all
  from Suc.hyps(1) [OF this(1) b2(2) this(2,3)] obtain b' where
    b': "mark_row k (int (Suc bi)) (int bj) b2 = Ok () b'" "bd_wf b'" "same_geom b2 b'" "bd_heap b' = bd_heap b2"
    "\<And>k' i. splitbit b' k' i = (splitbit b2 k' i \<or> (k' = k \<and> 0 < k \<and> in_row (Suc bi) bj i))"
    "\<And>k' j. allocbit b' k' j = (allocbit b2 k' j \<noteq>
      (k' = k \<and> in_row (Suc bi) bj (2 * j) \<noteq> in_row (Suc bi) bj (2 * j + 1)))" by blast
  have "mark_row k (int bi) (int bj) b = Ok () b'"
    using lt b1(1) b2(1) b'(1) by (simp add: mark_row.simps [of k "int bi"] add.commute)
  moreover have "splitbit b' k' i = (splitbit b k' i \<or> (k' = k \<and> 0 < k \<and> in_row bi bj i))" for k' i
    using lt by (auto simp: b' b2 b1 in_row_def)
  moreover have "allocbit b' k' j = (allocbit b k' j \<noteq> (k' = k \<and> in_row bi bj (2 * j) \<noteq> in_row bi bj (2 * j + 1)))" for k' j
    unfolding b'(6) b2(6) b1(5) in_row_step [OF lt] by auto
  ultimately show ?case
    using b'(2,4) b2(4) b1(4) same_geom_trans [OF g b'(3)] by auto
qed

lemma blk_index_next_leaf:
  assumes w: "bd_wf b" and t: "t \<le> 2 ^ MAXSIZE b" and k: "k \<le> MAXSIZE b"
  shows "blk_index_next b k (bd_base b + LEAF_SIZE * int t) = int (lft t k)"
proof -
  have d: "cdiv (LEAF_SIZE * int t) (BLK_SIZE k) = int (t div 2 ^ k)"
  proof -
    have "cdiv (16 * int t) (2 ^ k * 16) = 16 * int t div (16 * 2 ^ k)"
      by (subst cdiv_nonneg) (simp_all add: mult.commute)
    also have "\<dots> = int t div 2 ^ k" by (rule div_mult_mult1) simp
    finally show ?thesis by (simp add: LEAF_SIZE_def BLK_SIZE_def zdiv_int)
  qed
  have r: "cmod (LEAF_SIZE * int t) (BLK_SIZE k) = 16 * int (t mod 2 ^ k)"
  proof -
    have "cmod (16 * int t) (2 ^ k * 16) = 16 * int t mod (16 * 2 ^ k)"
      by (subst cmod_nonneg) (simp_all add: mult.commute)
    also have "\<dots> = 16 * (int t mod 2 ^ k)" by (rule mult_mod_right [symmetric])
    finally show ?thesis by (simp add: LEAF_SIZE_def BLK_SIZE_def zmod_int)
  qed
  have "t div 2 ^ k \<le> t" by (rule div_le_dividend)
  also have "t \<le> 2 ^ 26" using t wf_sizes(2) [OF w] power_increasing [of "MAXSIZE b" 26 "2::nat"] by linarith
  finally have s: "s32 (int (t div 2 ^ k)) = int (t div 2 ^ k)" by (intro s32_nonneg) simp_all
  have "lft t k = (if t mod 2 ^ k = 0 then t div 2 ^ k else t div 2 ^ k + 1)"
  proof -
    let ?d = "2 ^ k :: nat" let ?q = "t div ?d" and ?r = "t mod ?d"
    have rl: "?r < ?d" by simp
    have e: "x + 2 ^ k * y + 2 ^ k - 1 = x + 2 ^ k - 1 + 2 ^ k * y" for x y :: nat
    proof -
      have "1 \<le> (2 :: nat) ^ k" by simp
      then show ?thesis by linarith
    qed
    have "lft t k = (?r + ?d * ?q + ?d - 1) div ?d" by (simp add: lft_def)
    then have "lft t k = (?r + ?d - 1 + ?d * ?q) div ?d" unfolding e .
    also have "\<dots> = (?r + ?d - 1) div ?d + ?q" by (subst div_mult_self2) simp_all
    also have "(x + D - 1) div D = (if x = 0 then 0 else 1)" if "x < D" for x D :: nat
      using that by (auto intro!: div_nat_eqI)
    note this [OF rl]
    finally show ?thesis by simp
  qed
  then show ?thesis by (simp add: blk_index_next_def d r s)
qed

lemma mark_rows_ok:
  assumes "bd_wf b" and "\<And>k. k \<in> set ks \<Longrightarrow> k \<le> MAXSIZE b" and "distinct ks"
    and s: "s < 2 ^ MAXSIZE b" and t: "t \<le> 2 ^ MAXSIZE b"
  shows "\<exists>b'. mark_rows ks (bd_base b + LEAF_SIZE * int s) (bd_base b + LEAF_SIZE * int t) b = Ok () b' \<and>
    bd_wf b' \<and> same_geom b b' \<and> bd_heap b' = bd_heap b \<and>
    (\<forall>k i. splitbit b' k i = (splitbit b k i \<or> (k \<in> set ks \<and> 0 < k \<and> in_row (rgt s k) (lft t k) i))) \<and>
    (\<forall>k j. allocbit b' k j = (allocbit b k j \<noteq>
      (k \<in> set ks \<and> in_row (rgt s k) (lft t k) (2 * j) \<noteq> in_row (rgt s k) (lft t k) (2 * j + 1))))"
  using assms
proof (induction ks arbitrary: b)
  case Nil
  then show ?case by simp
next
  case (Cons k ks)
  note w = Cons.prems(1)
  have k: "k \<le> MAXSIZE b" using Cons.prems(2) by simp
  have l: "lft t k \<le> 2 ^ (MAXSIZE b - k)" by (rule lft_le [OF Cons.prems(5) k])
  from mark_row_ok [OF w k l, of "rgt s k"] obtain b1 where
    b1: "mark_row k (int (rgt s k)) (int (lft t k)) b = Ok () b1" "bd_wf b1" "same_geom b b1" "bd_heap b1 = bd_heap b"
    "\<And>k' i. splitbit b1 k' i = (splitbit b k' i \<or> (k' = k \<and> 0 < k \<and> in_row (rgt s k) (lft t k) i))"
    "\<And>k' j. allocbit b1 k' j = (allocbit b k' j \<noteq>
      (k' = k \<and> in_row (rgt s k) (lft t k) (2 * j) \<noteq> in_row (rgt s k) (lft t k) (2 * j + 1)))" by blast
  note g1 = same_geomD [OF b1(3)]
  have i: "blk_index b k (bd_base b + LEAF_SIZE * int s) = int (rgt s k)"
    "blk_index_next b k (bd_base b + LEAF_SIZE * int t) = int (lft t k)"
    using blk_index_leaf [OF w Cons.prems(4)] blk_index_next_leaf [OF w Cons.prems(5) k] by (simp_all add: rgt_def)
  have "\<And>k. k \<in> set ks \<Longrightarrow> k \<le> MAXSIZE b1" "distinct ks" "s < 2 ^ MAXSIZE b1" "t \<le> 2 ^ MAXSIZE b1"
    using Cons.prems g1 by auto
  from Cons.IH [OF b1(2) this] obtain b' where
    b': "mark_rows ks (bd_base b + LEAF_SIZE * int s) (bd_base b + LEAF_SIZE * int t) b1 = Ok () b'" "bd_wf b'"
    "same_geom b1 b'" "bd_heap b' = bd_heap b1"
    "\<And>k i. splitbit b' k i = (splitbit b1 k i \<or> (k \<in> set ks \<and> 0 < k \<and> in_row (rgt s k) (lft t k) i))"
    "\<And>k j. allocbit b' k j = (allocbit b1 k j \<noteq>
      (k \<in> set ks \<and> in_row (rgt s k) (lft t k) (2 * j) \<noteq> in_row (rgt s k) (lft t k) (2 * j + 1)))"
    unfolding g1(3) by blast
  have "k \<notin> set ks" using Cons.prems(3) by simp
  then have "allocbit b' k' j = (allocbit b k' j \<noteq>
      (k' \<in> set (k # ks) \<and> in_row (rgt s k') (lft t k') (2 * j) \<noteq> in_row (rgt s k') (lft t k') (2 * j + 1)))" for k' j
    unfolding b'(6) b1(6) by auto
  moreover have "splitbit b' k' i = (splitbit b k' i \<or> (k' \<in> set (k # ks) \<and> 0 < k' \<and> in_row (rgt s k') (lft t k') i))" for k' i
    unfolding b'(5) b1(5) by auto
  moreover have "mark_rows (k # ks) (bd_base b + LEAF_SIZE * int s) (bd_base b + LEAF_SIZE * int t) b = Ok () b'"
    using b1(1) b'(1) by (simp add: i)
  ultimately show ?case using b'(2,4) b1(4) same_geom_trans [OF b1(3) b'(3)] by (intro exI [of _ b']) simp
qed

lemma bd_mark_ok:
  assumes w: "bd_wf b" and a: "bd_base b mod 16 = 0" and s: "s < 2 ^ MAXSIZE b" and t: "t \<le> 2 ^ MAXSIZE b"
  shows "\<exists>b'. bd_mark (bd_base b + LEAF_SIZE * int s) (bd_base b + LEAF_SIZE * int t) b = Ok () b' \<and>
    bd_wf b' \<and> same_geom b b' \<and> bd_heap b' = bd_heap b \<and>
    (\<forall>k i. k \<le> MAXSIZE b \<longrightarrow> splitbit b' k i = (splitbit b k i \<or> (0 < k \<and> in_row (rgt s k) (lft t k) i))) \<and>
    (\<forall>k j. k \<le> MAXSIZE b \<longrightarrow> allocbit b' k j = (allocbit b k j \<noteq>
      (in_row (rgt s k) (lft t k) (2 * j) \<noteq> in_row (rgt s k) (lft t k) (2 * j + 1))))"
proof -
  have "(bd_base b + LEAF_SIZE * int x) mod LEAF_SIZE = 0" for x using a by (simp add: LEAF_SIZE_def)
  moreover have "set [0..<nsizes b] = {..MAXSIZE b}" using wf_sizes(1) [OF w] by auto
  ultimately show ?thesis
    using mark_rows_ok [OF w _ _ s t, of "[0..<nsizes b]"] by (auto simp: bd_mark_def)
qed

lemma lft_pow: "k \<le> M \<Longrightarrow> lft (2 ^ M) k = 2 ^ (M - k)"
proof (induction k)
  case (Suc k)
  then have "lft (2 ^ M) k = 2 * 2 ^ (M - Suc k)" using pow_minus_Suc [of k M] by simp
  then show ?case by (simp add: lft_Suc)
qed simp

lemma mark_bits:
  assumes ok: "init_ok M m e" and M: "MAXSIZE b' = M"
    and zs: "\<And>k i. 0 < k \<Longrightarrow> in_heap M (k, i) \<Longrightarrow> \<not> splitbit b k i"
    and za: "\<And>k j. k < M \<Longrightarrow> j < 2 ^ (M - Suc k) \<Longrightarrow> \<not> allocbit b k j"
    and s1: "\<And>k i. k \<le> M \<Longrightarrow> splitbit b1 k i = (splitbit b k i \<or> (0 < k \<and> in_row 0 (lft m k) i))"
    and a1: "\<And>k j. k \<le> M \<Longrightarrow> allocbit b1 k j = (allocbit b k j \<noteq> (in_row 0 (lft m k) (2 * j) \<noteq> in_row 0 (lft m k) (2 * j + 1)))"
    and s2: "\<And>k i. k \<le> M \<Longrightarrow> splitbit b' k i = (splitbit b1 k i \<or> (0 < k \<and> in_row (rgt e k) (2 ^ (M - k)) i))"
    and a2: "\<And>k j. k \<le> M \<Longrightarrow> allocbit b' k j = (allocbit b1 k j \<noteq>
      (in_row (rgt e k) (2 ^ (M - k)) (2 * j) \<noteq> in_row (rgt e k) (2 ^ (M - k)) (2 * j + 1)))"
  shows "bits_ok b' (init_tree M m e)"
proof (rule bits_okI)
  fix k i assume k: "0 < k" and h: "in_heap (MAXSIZE b') (k, i)"
  then have "k \<le> M" "i < 2 ^ (M - k)" by (simp_all add: M in_heap_def)
  then show "splitbit b' k i = (init_tree M m e k i = SplitB)"
    using k h s1 s2 zs init_tree_split [of M k i m e] by (auto simp: M in_row_def touched_def)
next
  fix k j :: nat assume k: "k < MAXSIZE b'" and j: "j < 2 ^ (MAXSIZE b' - Suc k)"
  have kM: "k < M" "j < 2 ^ (M - Suc k)" using k j M by simp_all
  then have h: "in_heap M (k, 2 * j)" "in_heap M (k, 2 * j + 1)"
    using pow_minus_Suc [of k M] by (auto simp: in_heap_def)
  have lr: "lft m k \<le> rgt e k" by (rule lft_le_rgt [OF ok kM(1)])
  have t: "touched m e k i = (in_row 0 (lft m k) i \<noteq> in_row (rgt e k) (2 ^ (M - k)) i)" if "in_heap M (k, i)" for i
    using that lr by (auto simp: touched_def in_row_def in_heap_def)
  have "allocbit b' k j = (touched m e k (2 * j) \<noteq> touched m e k (2 * j + 1))"
    using a2 [of k j] a1 [of k j] za [OF kM] kM(1) unfolding t [OF h(1)] t [OF h(2)] by auto
  then show "allocbit b' k j = (used (init_tree M m e k (2 * j)) \<noteq> used (init_tree M m e k (2 * j + 1)))"
    using init_tree_touched [OF h(1)] init_tree_touched [OF h(2)] by simp
qed

section \<open>Filling the free lists\<close>

text \<open>\<open>only_below a\<close>: only the free blocks below size \<open>a\<close> are on their lists yet.\<close>

definition only_below :: "nat \<Rightarrow> btree \<Rightarrow> btree" where
  "only_below a st k i = (if st k i = FreeB \<and> k < a then FreeB else NoBlk)"

lemma initfree_pair_ok:
  assumes w: "bd_wf b" and bo: "bits_ok b st" and k: "k < MAXSIZE b" and h: "in_heap (MAXSIZE b) (k, x)"
  shows "bd_initfree_pair k (int x) r b =
    (if used (st k x) \<noteq> used (st k (bud x))
     then Ok (BLK_SIZE k) (b\<lparr>bd_heap := lst_push (head_addr b k) (baddr b k (if r then bud x else x)) (bd_heap b)\<rparr>)
     else Ok 0 b)"
proof -
  have ad: "bd_addr b k (int (if r then bud x else x)) = baddr b k (if r then bud x else x)"
    using bd_addr_baddr [OF w] h bud_in_heap [OF h k] by simp
  have "(2::int) ^ k \<le> 2 ^ 26" using k wf_sizes(2) [OF w] by (intro power_increasing) auto
  then have s: "s32 (BLK_SIZE k) = BLK_SIZE k"
    by (intro s32_nonneg) (simp_all add: BLK_SIZE_def LEAF_SIZE_def)
  have if_int: "(if r then int (bud x) else int x) = int (if r then bud x else x)" by simp
  show ?thesis
    unfolding bd_initfree_pair_def buddy_of_bud Let_def alloc_isset_ok [OF w h] bits_pair [OF bo h k] if_int
    using free_push_ok [OF w less_imp_le [OF k]] by (simp add: ad s del: of_nat_eq_iff)
qed

lemma heads_live_init:
  assumes "init_ok (MAXSIZE b) m e" and "bd_wf b"
  shows "heads_live b (init_tree (MAXSIZE b) m e)"
proof -
  note d = init_ok_D [OF assms(1)]
  have "m \<le> 2 ^ MAXSIZE b" using d(6) power_increasing [of "MAXSIZE b - 2" "MAXSIZE b" "2::nat"] by linarith
  then show ?thesis using d(4) wf_sizes(1) [OF assms(2)]
    by (auto simp: heads_live_def init_tree_def in_heap_def touched_def)
qed

lemma lists_push_init:
  assumes ok: "init_ok (MAXSIZE b) m e" and w: "bd_wf b" and l: "lists_ok b f"
    and sub: "\<And>k i. f k i = FreeB \<Longrightarrow> init_tree (MAXSIZE b) m e k i = FreeB"
    and x: "init_tree (MAXSIZE b) m e k x = FreeB" "f k x \<noteq> FreeB"
    and f': "\<And>k' i'. f' k' i' = FreeB \<longleftrightarrow> (k' = k \<and> i' = x) \<or> f k' i' = FreeB"
  shows "lists_ok (b\<lparr>bd_heap := lst_push (head_addr b k) (baddr b k x) (bd_heap b)\<rparr>) f'"
proof (rule lists_push [OF l _ _ _ f'])
  let ?st = "init_tree (MAXSIZE b) m e"
  note t = tree_ok_init [OF ok] and hl = heads_live_init [OF ok w]
  show "k < nsizes b" using tree_in_heap [OF t, of k x] x(1) wf_sizes(1) [OF w] by (simp add: in_heap_def)
  fix j assume j: "j < nsizes b"
  show "baddr b k x \<noteq> head_addr b j"
  proof
    assume a: "baddr b k x = head_addr b j"
    from heads_addr [OF t hl _ j a] x(1) have "k = 0" "x = 2 * j" by simp_all
    moreover have "?st 0 (2 * j) = LiveB" using hl j by (simp add: heads_live_def)
    ultimately show False using x(1) by simp
  qed
  fix i' assume "f j i' = FreeB"
  with sub [of j i'] x occupied_addr [OF t, of k x j i'] show "baddr b k x \<noteq> baddr b j i'"
    unfolding baddr_eq_iff by auto
qed

text \<open>The bytes put on the free lists below size \<open>a\<close>.\<close>

definition freed :: "nat \<Rightarrow> nat \<Rightarrow> nat \<Rightarrow> int" where
  "freed m e a = 16 * (2 ^ a * int (lft m a) - int m + int e - 2 ^ a * int (rgt e a))"

lemma freed_0 [simp]: "freed m e 0 = 0"
  by (simp add: freed_def)

lemma freed_Suc:
  "freed m e (Suc a) = freed m e a + (if odd (lft m a) then BLK_SIZE a else 0) + (if odd (rgt e a) then BLK_SIZE a else 0)"
proof -
  have l: "2 * int (lft m (Suc a)) = int (lft m a) + (if odd (lft m a) then 1 else 0)"
    using arg_cong [OF lft_odd [of m a], of int] by simp
  have r: "2 * int (rgt e (Suc a)) = int (rgt e a) - (if odd (rgt e a) then 1 else 0)"
    using arg_cong [OF rgt_odd [of e a], of int] by (simp split: if_splits)
  have "freed m e (Suc a) = 16 * (2 ^ a * (2 * int (lft m (Suc a))) - int m + int e - 2 ^ a * (2 * int (rgt e (Suc a))))"
    by (simp add: freed_def)
  then show ?thesis unfolding l r by (simp add: freed_def BLK_SIZE_def LEAF_SIZE_def algebra_simps)
qed

lemma freed_mono: "a \<le> a' \<Longrightarrow> freed m e a \<le> freed m e a'"
proof (induction a' rule: dec_induct)
  case (step n)
  have "0 \<le> BLK_SIZE n" by (simp add: BLK_SIZE_def LEAF_SIZE_def)
  with step show ?case by (simp add: freed_Suc)
qed simp

lemma freed_top: "init_ok M m e \<Longrightarrow> freed m e (M - 1) = 16 * (int e - int m)"
  using lft_rgt_top [of M m e] by (simp add: freed_def)

lemma freed_range:
  assumes "init_ok M m e" and "a \<le> M - 1"
  shows "0 \<le> freed m e a" and "freed m e a < 2 ^ 31"
proof -
  note d = init_ok_D [OF assms(1)]
  show "0 \<le> freed m e a" using freed_mono [of 0 a] by simp
  have "freed m e a \<le> 16 * int e" using freed_mono [OF assms(2), of m e] freed_top [OF assms(1)] by simp
  moreover have "int e < 2 ^ 26"
  proof -
    have "e < 2 ^ 26" using d(2,5) power_increasing [of M 26 "2::nat"] by linarith
    then show ?thesis by simp
  qed
  ultimately show "freed m e a < 2 ^ 31" by simp
qed

definition grow :: "btree \<Rightarrow> bool \<Rightarrow> nat \<Rightarrow> nat \<Rightarrow> btree" where
  "grow f c k x = (\<lambda>k' i'. if c \<and> k' = k \<and> i' = x then FreeB else f k' i')"

lemma bits_ok_heap [simp]: "bits_ok (b\<lparr>bd_heap := h\<rparr>) st = bits_ok b st"
  using same_geomD [OF same_geom_heap [of b h]] by (simp add: bits_ok_def)

lemma pair_grow:
  assumes ok: "init_ok (MAXSIZE b) m e" and w: "bd_wf b" and bo: "bits_ok b (init_tree (MAXSIZE b) m e)"
    and l: "lists_ok b f" and k: "k < MAXSIZE b" and h: "in_heap (MAXSIZE b) (k, y)"
    and x: "x = (if r then bud y else y)"
    and c: "c \<longleftrightarrow> touched m e k y \<noteq> touched m e k (bud y)"
    and sub: "\<And>k i. f k i = FreeB \<Longrightarrow> init_tree (MAXSIZE b) m e k i = FreeB"
    and new: "c \<Longrightarrow> init_tree (MAXSIZE b) m e k x = FreeB \<and> f k x \<noteq> FreeB"
  shows "\<exists>h'. bd_initfree_pair k (int y) r b = Ok (if c then BLK_SIZE k else 0) (b\<lparr>bd_heap := h'\<rparr>) \<and>
    lists_ok (b\<lparr>bd_heap := h'\<rparr>) (grow f c k x)"
proof (cases c)
  case True
  have "used (init_tree (MAXSIZE b) m e k y) \<noteq> used (init_tree (MAXSIZE b) m e k (bud y))"
    using True c init_tree_touched [OF h] init_tree_touched [OF bud_in_heap [OF h k]] by simp
  with initfree_pair_ok [OF w bo k h, of r] True x have
    "bd_initfree_pair k (int y) r b = Ok (if c then BLK_SIZE k else 0)
       (b\<lparr>bd_heap := lst_push (head_addr b k) (baddr b k x) (bd_heap b)\<rparr>)" by simp
  moreover have "lists_ok (b\<lparr>bd_heap := lst_push (head_addr b k) (baddr b k x) (bd_heap b)\<rparr>) (grow f c k x)"
    by (rule lists_push_init [OF ok w l sub]) (use new True in \<open>auto simp: grow_def\<close>)
  ultimately show ?thesis by blast
next
  case False
  have "used (init_tree (MAXSIZE b) m e k y) = used (init_tree (MAXSIZE b) m e k (bud y))"
    using False c init_tree_touched [OF h] init_tree_touched [OF bud_in_heap [OF h k]] by simp
  with initfree_pair_ok [OF w bo k h, of r] False l show ?thesis
    by (intro exI [of _ "bd_heap b"]) (simp add: grow_def)
qed

lemma initfree_level:
  assumes ok: "init_ok (MAXSIZE b) m e" and w: "bd_wf b" and bo: "bits_ok b (init_tree (MAXSIZE b) m e)"
    and l: "lists_ok b (only_below k (init_tree (MAXSIZE b) m e))" and k: "k + 2 \<le> MAXSIZE b"
  shows "\<exists>h'. initfree_rows (k # ks) (bd_base b + LEAF_SIZE * int m) (bd_base b + LEAF_SIZE * int e) (freed m e k) b =
      initfree_rows ks (bd_base b + LEAF_SIZE * int m) (bd_base b + LEAF_SIZE * int e) (freed m e (Suc k)) (b\<lparr>bd_heap := h'\<rparr>) \<and>
    lists_ok (b\<lparr>bd_heap := h'\<rparr>) (only_below (Suc k) (init_tree (MAXSIZE b) m e))"
proof -
  let ?M = "MAXSIZE b" and ?L = "lft m k" and ?R = "rgt e k"
  let ?st = "init_tree ?M m e" and ?l = "bd_base b + LEAF_SIZE * int m" and ?r = "bd_base b + LEAF_SIZE * int e"
  note d = init_ok_D [OF ok] and gap = lft_rgt_gap [OF ok k] and free = init_tree_free [OF ok]
  have kM: "k < ?M" "k \<le> ?M" using k by simp_all
  have R: "?R < 2 ^ (?M - k)" by (rule rgt_less [OF d(5) kM(2)])
  have hL: "in_heap ?M (k, ?L)" and hR: "in_heap ?M (k, ?R)" using R gap(1) kM by (simp_all add: in_heap_def)
  have mM: "m \<le> 2 ^ ?M" using d(6) power_increasing [of "?M - 2" ?M "2::nat"] by linarith
  have iL: "blk_index_next b k ?l = int ?L" by (rule blk_index_next_leaf [OF w mM kM(2)])
  have iR: "blk_index b k ?r = int ?R" using blk_index_leaf [OF w d(5)] by (simp add: rgt_def)
  have cL: "odd ?L \<longleftrightarrow> touched m e k ?L \<noteq> touched m e k (bud ?L)"
    using gap lft_pos [OF d(3), of k] by (auto simp: touched_def bud_def)
  have cR: "odd ?R \<longleftrightarrow> touched m e k ?R \<noteq> touched m e k (bud ?R)"
    using gap(1) by (auto simp: touched_def bud_def)
  have sub: "\<And>k' i. only_below k ?st k' i = FreeB \<Longrightarrow> ?st k' i = FreeB" by (simp add: only_below_def split: if_splits)
  have "odd ?L \<Longrightarrow> ?st k ?L = FreeB \<and> only_below k ?st k ?L \<noteq> FreeB" using free k by (simp add: only_below_def)
  from pair_grow [OF ok w bo l kM(1) hL, of ?L False, OF _ cL sub this] obtain h1 where
    h1: "bd_initfree_pair k (int ?L) False b = Ok (if odd ?L then BLK_SIZE k else 0) (b\<lparr>bd_heap := h1\<rparr>)"
    "lists_ok (b\<lparr>bd_heap := h1\<rparr>) (grow (only_below k ?st) (odd ?L) k ?L)" by auto
  let ?b1 = "b\<lparr>bd_heap := h1\<rparr>"
  have M1: "MAXSIZE ?b1 = ?M" by (simp add: MAXSIZE_def)
  have budR: "Suc (bud ?R) = ?R" if "odd ?R" using that by (auto simp: bud_def elim!: oddE)
  have sub1: "\<And>k' i. grow (only_below k ?st) (odd ?L) k ?L k' i = FreeB \<Longrightarrow> ?st k' i = FreeB"
    using sub free k by (auto simp: grow_def split: if_splits)
  have new1: "?st k (bud ?R) = FreeB \<and> grow (only_below k ?st) (odd ?L) k ?L k (bud ?R) \<noteq> FreeB" if o: "odd ?R"
  proof -
    have "\<not> (odd ?L \<and> bud ?R = ?L)" using budR [OF o] o by (metis even_Suc)
    then show ?thesis using free [of k "bud ?R"] k budR [OF o] o by (auto simp: grow_def only_below_def)
  qed
  from pair_grow [of ?b1 m e "grow (only_below k ?st) (odd ?L) k ?L" k ?R "bud ?R" True "odd ?R"]
  obtain h2 where h2: "bd_initfree_pair k (int ?R) True ?b1 = Ok (if odd ?R then BLK_SIZE k else 0) (b\<lparr>bd_heap := h2\<rparr>)"
    "lists_ok (b\<lparr>bd_heap := h2\<rparr>) (grow (grow (only_below k ?st) (odd ?L) k ?L) (odd ?R) k (bud ?R))"
    using ok w bo h1(2) kM(1) hR cR sub1 new1 unfolding M1 by auto
  have "lists_ok (b\<lparr>bd_heap := h2\<rparr>) (only_below (Suc k) ?st)"
  proof (rule lists_ok_cong [OF h2(2) same_geom_refl refl])
    fix k' i
    have iff: "?st k i = FreeB \<longleftrightarrow> odd ?L \<and> i = ?L \<or> odd ?R \<and> i = bud ?R"
      using free [of k i] k budR by auto
    then show "only_below (Suc k) ?st k' i = FreeB \<longleftrightarrow> grow (grow (only_below k ?st) (odd ?L) k ?L) (odd ?R) k (bud ?R) k' i = FreeB"
      by (cases "k' = k") (simp_all add: only_below_def grow_def iff less_Suc_eq)
  qed
  moreover
  have fr: "0 \<le> freed m e k" "freed m e (Suc k) < 2 ^ 31" using freed_range [OF ok] k by auto
  have B: "0 \<le> BLK_SIZE k" by (simp add: BLK_SIZE_def LEAF_SIZE_def)
  have s1: "s32 (freed m e k + (if odd ?L then BLK_SIZE k else 0)) = freed m e k + (if odd ?L then BLK_SIZE k else 0)"
    using fr B freed_Suc [of m e k] by (intro s32_nonneg) (auto split: if_splits)
  have s2: "s32 (freed m e k + (if odd ?L then BLK_SIZE k else 0) + (if odd ?R then BLK_SIZE k else 0)) = freed m e (Suc k)"
    unfolding freed_Suc [symmetric] using fr freed_mono [of k "Suc k" m e] by (intro s32_nonneg) auto
  have "initfree_rows (k # ks) ?l ?r (freed m e k) b = initfree_rows ks ?l ?r (freed m e (Suc k)) (b\<lparr>bd_heap := h2\<rparr>)"
    using gap(1) unfolding initfree_rows.simps Let_def iL iR h1(1) bindr_simps s1 h2(1) s2 by simp
  ultimately show ?thesis by blast
qed

lemma initfree_top:
  assumes ok: "init_ok (MAXSIZE b) m e" and w: "bd_wf b" and bo: "bits_ok b (init_tree (MAXSIZE b) m e)"
  shows "initfree_rows [MAXSIZE b - 1] (bd_base b + LEAF_SIZE * int m) (bd_base b + LEAF_SIZE * int e) (freed m e (MAXSIZE b - 1)) b
    = Ok (16 * (int e - int m)) b"
proof -
  let ?M = "MAXSIZE b" and ?k = "MAXSIZE b - 1"
  note d = init_ok_D [OF ok] and top = lft_rgt_top [OF ok]
  have k: "?k < ?M" "?k \<le> ?M" using d(1) by simp_all
  have mM: "m \<le> 2 ^ ?M" using d(6) power_increasing [of "?M - 2" ?M "2::nat"] by linarith
  have iL: "blk_index_next b ?k (bd_base b + LEAF_SIZE * int m) = int 1"
    using blk_index_next_leaf [OF w mM k(2)] top(1) by simp
  have iR: "blk_index b ?k (bd_base b + LEAF_SIZE * int e) = int 1"
    using blk_index_leaf [OF w d(5), of ?k] top(2) by (simp add: rgt_def)
  have h: "in_heap ?M (?k, 1)" "in_heap ?M (?k, bud 1)" using d(1) by (simp_all add: in_heap_def bud_def)
  have "used (init_tree ?M m e ?k 1) = used (init_tree ?M m e ?k (bud 1))"
    using top init_tree_touched [OF h(1)] init_tree_touched [OF h(2)] by (simp add: touched_def bud_def)
  with initfree_pair_ok [OF w bo k(1) h(1), of False] have p: "bd_initfree_pair ?k (int 1) False b = Ok 0 b" by simp
  have "s32 (freed m e ?k + 0) = 16 * (int e - int m)"
    using freed_range [OF ok, of ?k] freed_top [OF ok] by (subst s32_nonneg) auto
  then show ?thesis unfolding initfree_rows.simps Let_def iL iR p bindr_simps by simp
qed

lemma initfree_ok:
  assumes "init_ok (MAXSIZE b) m e" and "bd_wf b" and "bits_ok b (init_tree (MAXSIZE b) m e)"
    and "lists_ok b (only_below a (init_tree (MAXSIZE b) m e))" and "a \<le> MAXSIZE b - 1"
  shows "\<exists>h'. initfree_rows [a..<MAXSIZE b] (bd_base b + LEAF_SIZE * int m) (bd_base b + LEAF_SIZE * int e) (freed m e a) b =
      Ok (16 * (int e - int m)) (b\<lparr>bd_heap := h'\<rparr>) \<and> lists_ok (b\<lparr>bd_heap := h'\<rparr>) (init_tree (MAXSIZE b) m e)"
  using assms
proof (induction "MAXSIZE b - 1 - a" arbitrary: a b)
  case 0
  note d = init_ok_D [OF 0(2)]
  have a: "a = MAXSIZE b - 1" using 0 by simp
  then have "[a..<MAXSIZE b] = [MAXSIZE b - 1]" using d(1) by (simp add: upt_rec)
  moreover have "lists_ok b (init_tree (MAXSIZE b) m e)"
    by (rule lists_ok_cong [OF 0(5) same_geom_refl refl]) (use init_tree_free [OF 0(2)] a in \<open>auto simp: only_below_def\<close>)
  ultimately show ?case using initfree_top [OF 0(2-4)] a by (intro exI [of _ "bd_heap b"]) simp
next
  case (Suc x)
  have a: "a + 2 \<le> MAXSIZE b" using Suc(2) by simp
  from initfree_level [OF Suc.prems(1-4) a, of "[Suc a..<MAXSIZE b]"] obtain h where
    h: "initfree_rows (a # [Suc a..<MAXSIZE b]) (bd_base b + LEAF_SIZE * int m) (bd_base b + LEAF_SIZE * int e) (freed m e a) b =
      initfree_rows [Suc a..<MAXSIZE b] (bd_base b + LEAF_SIZE * int m) (bd_base b + LEAF_SIZE * int e) (freed m e (Suc a)) (b\<lparr>bd_heap := h\<rparr>)"
    "lists_ok (b\<lparr>bd_heap := h\<rparr>) (only_below (Suc a) (init_tree (MAXSIZE b) m e))" by blast
  let ?b = "b\<lparr>bd_heap := h\<rparr>"
  have M: "MAXSIZE ?b = MAXSIZE b" by (simp add: MAXSIZE_def)
  have "[a..<MAXSIZE b] = a # [Suc a..<MAXSIZE b]" using a by (simp add: upt_conv_Cons)
  moreover have "x = MAXSIZE ?b - 1 - Suc a" using Suc(2) M by simp
  moreover have "Suc a \<le> MAXSIZE b - 1" using a by simp
  ultimately have e: "[a..<MAXSIZE b] = a # [Suc a..<MAXSIZE b]" and
    "\<exists>h'. initfree_rows [Suc a..<MAXSIZE b] (bd_base b + LEAF_SIZE * int m) (bd_base b + LEAF_SIZE * int e) (freed m e (Suc a)) ?b =
      Ok (16 * (int e - int m)) (b\<lparr>bd_heap := h'\<rparr>) \<and> lists_ok (b\<lparr>bd_heap := h'\<rparr>) (init_tree (MAXSIZE b) m e)"
    using Suc.hyps(1) [of ?b "Suc a"] Suc.prems h(2) unfolding M by simp_all
  then obtain h' where
    "initfree_rows [Suc a..<MAXSIZE b] (bd_base b + LEAF_SIZE * int m) (bd_base b + LEAF_SIZE * int e) (freed m e (Suc a)) ?b =
      Ok (16 * (int e - int m)) (b\<lparr>bd_heap := h'\<rparr>)" "lists_ok (b\<lparr>bd_heap := h'\<rparr>) (init_tree (MAXSIZE b) m e)"
    by blast
  then show ?case unfolding e h(1) by blast
qed

section \<open>The number of sizes and the metadata\<close>

lemma log2_loop_ok:
  "0 < unat n \<Longrightarrow> \<exists>j. log2_loop n k = k + j \<and> 2 ^ j \<le> unat n \<and> unat n < 2 ^ Suc j"
proof (induction n k rule: log2_loop.induct)
  case (1 n k)
  show ?case
  proof (cases "1 < n")
    case True
    have h: "unat (drop_bit 1 n) = unat n div 2" by (simp add: drop_bit_eq_div unat_div)
    have "1 < unat n" using True by (simp add: word_less_nat_alt)
    then have "0 < unat (drop_bit 1 n)" unfolding h by linarith
    from "1.IH" [OF True this] obtain j where
      j: "log2_loop (drop_bit 1 n) (k + 1) = k + 1 + j" "2 ^ j \<le> unat n div 2" "unat n div 2 < 2 ^ Suc j"
      unfolding h by blast
    have "log2_loop n k = k + Suc j" using True j(1) by (simp add: log2_loop.simps [of n])
    moreover have "2 ^ Suc j \<le> unat n" "unat n < 2 ^ Suc (Suc j)"
      using j(2,3) by (simp_all add: less_eq_div_iff_mult_less_eq div_less_iff_less_mult)
    ultimately show ?thesis by blast
  next
    case False
    then have "unat n = 1" using 1(2) by (simp add: word_less_nat_alt)
    then show ?thesis using False by (simp add: log2_loop.simps)
  qed
qed

lemma init_nsizes_ok:
  assumes n: "1024 < n" "n < 2 ^ 30" and x: "n \<noteq> BLK_SIZE (init_nsizes n - 1)"
  shows "\<exists>M. init_nsizes n = Suc M \<and> 7 \<le> M \<and> M \<le> 26 \<and> n < 16 * 2 ^ M \<and> 16 * 2 ^ (M - 1) \<le> n"
proof -
  let ?q = "n div 16"
  have q: "64 \<le> ?q" "?q < 2 ^ 26" using n by auto
  have c: "cdiv n LEAF_SIZE = ?q" using n by (simp add: cdiv_nonneg LEAF_SIZE_def)
  have u: "unat (word_of_int ?q :: u64) = nat ?q"
  proof -
    have "?q mod 2 ^ 64 = ?q" using q by (intro mod_pos_pos_trivial) auto
    then show ?thesis by (simp add: unat_eq_nat_uint uint_word_of_int)
  qed
  obtain j where j: "log2 (word_of_int ?q) = j" "2 ^ j \<le> nat ?q" "nat ?q < 2 ^ Suc j"
    using log2_loop_ok [of "word_of_int ?q" 0] q by (auto simp: log2_def u)
  have ji: "2 ^ j \<le> ?q" "?q < 2 ^ Suc j" using j(2,3) q by (simp_all add: le_nat_iff nat_less_iff)
  have low: "16 * 2 ^ j \<le> n" using ji(1) by linarith
  have j6: "6 \<le> j"
  proof (rule ccontr)
    assume "\<not> 6 \<le> j"
    then have "(2::int) ^ Suc j \<le> 2 ^ 6" by (intro power_increasing) auto
    with ji(2) q(1) show False by simp
  qed
  have j25: "j \<le> 25"
  proof (rule ccontr)
    assume "\<not> j \<le> 25"
    then have "(2::int) ^ 26 \<le> 2 ^ j" by (intro power_increasing) auto
    with ji(1) q(2) show False by simp
  qed
  have ns: "init_nsizes n = (if n > BLK_SIZE j then Suc (Suc j) else Suc j)"
    by (simp add: init_nsizes_def Let_def c j(1))
  have "n > BLK_SIZE j"
  proof (rule ccontr)
    assume "\<not> n > BLK_SIZE j"
    with low have "n = BLK_SIZE j" by (simp add: BLK_SIZE_def LEAF_SIZE_def)
    with x ns show False by simp
  qed
  moreover have "n < 16 * 2 ^ Suc j" using ji(2) by linarith
  ultimately show ?thesis using ns low j6 j25 by (intro exI [of _ "Suc j"]) simp
qed

lemma ROUNDUP_u64_16:
  assumes "0 < x" and "x < 2 ^ 63"
  shows "ROUNDUP_u64 x 16 = 16 * ((x + 15) div 16)"
proof -
  have e: "x - 1 + 16 = x + 15" by simp
  have "(x - 1) mod 2 ^ 64 = x - 1" using assms by (intro mod_pos_pos_trivial) auto
  moreover have "(x - 1) div 16 + 1 = (x + 15) div 16" using div_add_self2 [of 16 "x - 1"] unfolding e by simp
  moreover have "((x + 15) div 16 * 16) mod 2 ^ 64 = (x + 15) div 16 * 16"
    using assms by (intro mod_pos_pos_trivial) auto
  ultimately show ?thesis by (simp add: ROUNDUP_u64_def mult.commute)
qed

lemma sum_pow_diff: "(\<Sum>k\<le>M. 2 ^ (M - k)) = (2 ^ Suc M - 1 :: nat)"
proof (induction M)
  case (Suc M)
  have "(\<Sum>k\<le>Suc M. 2 ^ (Suc M - k)) = (2::nat) ^ Suc M + (\<Sum>k\<le>M. 2 ^ (M - k))"
    by (subst sum.atMost_Suc_shift) simp
  then show ?case unfolding Suc.IH by simp
qed simp

lemma meta_bytes:
  defines "bytes M \<equiv> (\<Sum>k<Suc M. alloc_bytes (Suc M) k) + (\<Sum>k\<in>{1..<Suc M}. split_bytes (Suc M) k)"
  shows "16 * bytes M \<le> 4 * 2 ^ M + 29 * Suc M"
proof -
  have "16 * (\<Sum>k<Suc M. alloc_bytes (Suc M) k) \<le> (\<Sum>k<Suc M. 2 ^ (M - k) + 15)"
    unfolding sum_distrib_left by (rule sum_mono) (simp add: alloc_bytes_nat)
  also have "\<dots> = (\<Sum>k\<le>M. 2 ^ (M - k)) + 15 * Suc M"
    by (simp add: sum.distrib lessThan_Suc_atMost)
  finally have a: "16 * (\<Sum>k<Suc M. alloc_bytes (Suc M) k) \<le> 2 * 2 ^ M + 15 * Suc M"
    unfolding sum_pow_diff by simp
  have "16 * (\<Sum>k\<in>{1..<Suc M}. split_bytes (Suc M) k) \<le> (\<Sum>k\<in>{1..<Suc M}. 2 * 2 ^ (M - k) + 14)"
    unfolding sum_distrib_left by (rule sum_mono) (simp add: split_bytes_nat)
  also have "\<dots> = 2 * (\<Sum>k\<in>{1..<Suc M}. 2 ^ (M - k)) + 14 * M"
    by (simp add: sum.distrib sum_distrib_left)
  also have "(\<Sum>k\<in>{1..<Suc M}. 2 ^ (M - k)) \<le> (2 ^ M - 1 :: nat)"
  proof (cases M)
    case (Suc N)
    have "(\<Sum>k\<in>{1..<Suc M}. (2::nat) ^ (M - k)) = (\<Sum>k\<le>N. 2 ^ (N - k))"
      using sum.shift_bounds_Suc_ivl [of "\<lambda>k. (2::nat) ^ (M - k)" 0 M]
      by (simp add: Suc atLeast0LessThan lessThan_Suc_atMost)
    then show ?thesis unfolding sum_pow_diff Suc by simp
  qed simp
  finally have "16 * (\<Sum>k\<in>{1..<Suc M}. split_bytes (Suc M) k) \<le> 2 * 2 ^ M + 14 * M" by simp
  with a show ?thesis by (simp add: bytes_def)
qed

lemma pow_dominates: "7 \<le> M \<Longrightarrow> 541 * Suc M + 240 \<le> 60 * (2::nat) ^ M"
  by (induction M rule: dec_induct) simp_all

lemma init_meta_end_ok:
  assumes p: "0 < p" "p < 2 ^ 62" "p mod 16 = 0" and M: "7 \<le> M" "M \<le> 26"
  shows "\<exists>m. init_meta_end p (Suc M) = p + 16 * int m \<and> 2 * Suc M \<le> m \<and> m \<le> 2 ^ (M - 2)"
proof -
  define bytes where "bytes = (\<Sum>k<Suc M. alloc_bytes (Suc M) k) + (\<Sum>k\<in>{1..<Suc M}. split_bytes (Suc M) k)"
  let ?x = "32 * Suc M + bytes"
  let ?m = "(?x + 15) div 16"
  have "16 * (?x + 15) \<le> 541 * Suc M + 240 + 4 * 2 ^ M" using meta_bytes [of M, folded bytes_def] by simp
  moreover have "16 * X \<le> A + 4 * P \<Longrightarrow> A \<le> 60 * P \<Longrightarrow> X \<le> 4 * P" for X A P :: nat by simp
  ultimately have x: "?x + 15 \<le> 4 * 2 ^ M" using pow_dominates [OF M(1)] by blast
  have "(2::nat) ^ M \<le> 2 ^ 26" using M by (intro power_increasing) auto
  with x have "?x + 15 \<le> 4 * 2 ^ 26" by (meson le_trans mult_le_mono2)
  then have xb: "int ?x < 2 ^ 30" by simp
  have "init_meta_end p (Suc M) = ROUNDUP_u64 (p + int ?x) 16"
    unfolding init_meta_end_def SZ_INFO_SIZE_def LEAF_SIZE_def bytes_def by (simp add: algebra_simps)
  also have "\<dots> = 16 * ((p + int ?x + 15) div 16)" using p xb by (intro ROUNDUP_u64_16) auto
  also have "\<dots> = p + 16 * int ?m"
  proof -
    obtain c where c: "p = 16 * c" using p(3) by (auto simp: mod_eq_0_iff_dvd dvd_def)
    have "(16 * c + int ?x + 15) div 16 = c + int (?x + 15) div 16"
      using div_mult_self4 [of 16 c "int ?x + 15"] by (simp add: add.commute add.left_commute)
    then show ?thesis unfolding c by (simp add: zdiv_int)
  qed
  finally have e: "init_meta_end p (Suc M) = p + 16 * int ?m" .
  have "2 * Suc M * 16 \<le> ?x + 15" by simp
  then have "2 * Suc M \<le> ?m" by (simp only: less_eq_div_iff_mult_less_eq)
  moreover have "?m \<le> 2 ^ (M - 2)"
  proof -
    have "M = M - 2 + 2" using M(1) by simp
    then have "(2::nat) ^ M = 2 ^ (M - 2) * 4" by (metis power_add power2_eq_square numeral_Bit0 mult_2 numeral_One one_add_one)
    with x have "?x + 15 \<le> 2 ^ (M - 2) * 16" by simp
    then show ?thesis by (metis div_le_mono div_mult_self_is_m zero_less_numeral)
  qed
  ultimately show ?thesis using e by blast
qed

section \<open>bd\_init\<close>

definition blank :: "addr \<Rightarrow> nat \<Rightarrow> lheap \<Rightarrow> bd" where
  "blank p ns h = \<lparr>nsizes = ns, bd_sizes = init_sizes p ns, bd_base = p,
     bd_heap = fold (\<lambda>k. lst_init (sz_free (init_sizes p ns ! k))) [0..<ns] h\<rparr>"

lemma blank_geom [simp]:
  "nsizes (blank p ns h) = ns" "bd_base (blank p ns h) = p" "MAXSIZE (blank p ns h) = ns - 1"
  "head_addr (blank p ns h) k = p + SZ_INFO_SIZE * int k"
  by (simp_all add: blank_def MAXSIZE_def head_addr_def)

lemma blank_wf: "M \<le> 26 \<Longrightarrow> bd_wf (blank p (Suc M) h)"
  unfolding bd_wf_def blank_geom by (auto simp: blank_def init_sizes_def simp del: upt_Suc)

lemma blank_bits:
  assumes M: "M \<le> 26"
  shows "0 < k \<Longrightarrow> in_heap M (k, i) \<Longrightarrow> \<not> splitbit (blank p (Suc M) h) k i"
    and "k < M \<Longrightarrow> j < 2 ^ (M - Suc k) \<Longrightarrow> \<not> allocbit (blank p (Suc M) h) k j"
proof -
  let ?b = "blank p (Suc M) h"
  note w = blank_wf [OF M, of p h]
  {
    assume k: "0 < k" and h: "in_heap M (k, i)"
    then have "sz_split (bd_sizes ?b ! k) = replicate (split_bytes (Suc M) k) 0"
      by (simp add: blank_def init_sizes_def in_heap_def del: upt_Suc)
    moreover have "i div 8 < length (sz_split (bd_sizes ?b ! k))" using wf_split_bound [OF w] k h by simp
    ultimately show "\<not> splitbit ?b k i" by (simp add: splitbit_def)
  }
  assume k: "k < M" and j: "j < 2 ^ (M - Suc k)"
  then have "in_heap M (k, 2 * j)" using pow_minus_Suc [of k M] by (simp add: in_heap_def)
  then have "2 * j div 2 div 8 < length (sz_alloc (bd_sizes ?b ! k))" by (intro wf_alloc_bound [OF w]) simp
  moreover have "sz_alloc (bd_sizes ?b ! k) = replicate (alloc_bytes (Suc M) k) 0"
    using k by (simp add: blank_def init_sizes_def del: upt_Suc)
  ultimately show "\<not> allocbit ?b k j" by (simp add: allocbit_def)
qed

lemma blank_lists:
  assumes "\<And>k i. f k i \<noteq> FreeB"
  shows "lists_ok (blank p ns h) f"
proof -
  have "fold (\<lambda>k. lst_init (sz_free (init_sizes p ns ! k))) [0..<ns] h =
      fold (\<lambda>k. lst_init (p + SZ_INFO_SIZE * int k)) [0..<ns] h"
    by (rule fold_cong) (auto simp: init_sizes_def)
  then have "bd_heap (blank p ns h) = fold (\<lambda>k. lst_init (p + SZ_INFO_SIZE * int k)) [0..<ns] h"
    by (simp add: blank_def)
  then have "dlists (bd_heap (blank p ns h)) (head_addr (blank p ns h)) (\<lambda>_. []) (nsizes (blank p ns h))"
    using dlists_inits [of ns "\<lambda>k. p + SZ_INFO_SIZE * int k" h] by (simp add: SZ_INFO_SIZE_def head_addr_def [abs_def])
  then show ?thesis unfolding lists_ok_def using assms by (intro exI [of _ "\<lambda>_. []"]) simp
qed

lemma mark_unavailable_size:
  assumes M: "M \<le> 26" and n: "0 \<le> n" "n < 16 * 2 ^ M"
  shows "(let u = s32 (16 * 2 ^ M - n) in if u > 0 then s32 (ROUNDUP u 16) else u) = 16 * (2 ^ M - n div 16)"
proof -
  let ?u = "16 * 2 ^ M - n"
  have pb: "(2::int) ^ M \<le> 67108864" using M power_increasing [of M 26 "2::int"] by simp
  have u: "0 < ?u" "?u < 2 ^ 31" using n pb by auto
  then have "s32 ?u = ?u" by (intro s32_nonneg) auto
  moreover have "ROUNDUP ?u 16 = 16 * (2 ^ M - n div 16)"
  proof -
    have "?u - 1 = (- n - 1) + 2 ^ M * 16" by simp
    then have "(?u - 1) div 16 = 2 ^ M + (- n - 1) div 16" using div_mult_self1 [of 16 "- n - 1" "2 ^ M"] by simp
    moreover have "(- n - 1) div 16 = - (n div 16) - 1"
      by (rule int_div_pos_eq [where r = "15 - n mod 16"]) (use mult_div_mod_eq [of 16 n, symmetric] in \<open>simp_all, linarith\<close>)
    ultimately have "(?u - 1) div 16 + 1 = 2 ^ M - n div 16" by simp
    then show ?thesis using u by (simp add: ROUNDUP_def cdiv_nonneg)
  qed
  moreover have "s32 (16 * (2 ^ M - n div 16)) = 16 * (2 ^ M - n div 16)"
    using n pb by (intro s32_nonneg) auto
  ultimately show ?thesis using u by (simp add: Let_def)
qed

lemma bd_init_body_ok:
  assumes p: "p = ROUNDUP_u64 base LEAF_SIZE" "0 < p" "p < 2 ^ 62" "p mod 16 = 0"
    and M: "init_nsizes (end - p) = Suc M" "7 \<le> M" "M \<le> 26"
    and n: "end - p < 16 * 2 ^ M" "16 * 2 ^ (M - 1) \<le> end - p"
    and m: "init_meta_end p (Suc M) = p + 16 * int m" "2 * Suc M \<le> m" "m \<le> 2 ^ (M - 2)"
  defines "e \<equiv> nat ((end - p) div 16)"
  shows "\<exists>b. bd_init_body base end h = Ok () b \<and> bd_base b = p \<and> nsizes b = Suc M \<and>
    bd_rel b {(0, l) |l. l < 2 ^ M \<and> (l < m \<or> e \<le> l)}"
proof -
  let ?n = "end - p" let ?c = "blank p (Suc M) h" let ?st = "init_tree M m e"
  have less: "x < 16 * P \<Longrightarrow> x div 16 < P" and ge: "16 * P \<le> x \<Longrightarrow> P \<le> x div 16" for x P :: int by presburger+
  have pos: "(0::int) < 2 ^ (M - 1)" by simp
  have "0 \<le> ?n div 16" by (rule order_trans [OF less_imp_le [OF pos] ge [OF n(2)]])
  then have e: "int e = ?n div 16" by (simp add: e_def)
  have el: "e < 2 ^ M" using less [OF n(1)] e by (simp flip: of_nat_less_iff [where 'a = int])
  have "int (2 ^ (M - 1)) \<le> int e" unfolding e using ge [OF n(2)] by simp
  then have eg: "2 ^ (M - 1) \<le> e" by (simp only: of_nat_le_iff)
  have ok: "init_ok M m e" using M m el eg by (simp add: init_ok_def)
  have mM: "m \<le> 2 ^ M" using m(3) power_increasing [of "M - 2" M "2::nat"] by linarith
  have PM: "(2::nat) ^ M \<le> 2 ^ 26" using M by (intro power_increasing) auto
  have w0: "bd_wf ?c" by (rule blank_wf [OF M(3)])
  from bd_mark_ok [OF w0, of 0 m] p(4) mM obtain b1 where
    b1: "bd_mark p (p + LEAF_SIZE * int m) ?c = Ok () b1" "bd_wf b1" "same_geom ?c b1" "bd_heap b1 = bd_heap ?c"
    "\<And>k i. k \<le> M \<Longrightarrow> splitbit b1 k i = (splitbit ?c k i \<or> (0 < k \<and> in_row 0 (lft m k) i))"
    "\<And>k j. k \<le> M \<Longrightarrow> allocbit b1 k j = (allocbit ?c k j \<noteq> (in_row 0 (lft m k) (2 * j) \<noteq> in_row 0 (lft m k) (2 * j + 1)))"
    by (auto simp: rgt_def)
  have g1: "MAXSIZE b1 = M" "bd_base b1 = p" using same_geomD [OF b1(3)] by simp_all
  from bd_mark_ok [OF b1(2), of e "2 ^ M"] p(4) el obtain b2 where
    b2: "bd_mark (p + LEAF_SIZE * int e) (p + LEAF_SIZE * int (2 ^ M)) b1 = Ok () b2" "bd_wf b2" "same_geom b1 b2"
    "bd_heap b2 = bd_heap b1"
    "\<And>k i. k \<le> M \<Longrightarrow> splitbit b2 k i = (splitbit b1 k i \<or> (0 < k \<and> in_row (rgt e k) (2 ^ (M - k)) i))"
    "\<And>k j. k \<le> M \<Longrightarrow> allocbit b2 k j = (allocbit b1 k j \<noteq>
      (in_row (rgt e k) (2 ^ (M - k)) (2 * j) \<noteq> in_row (rgt e k) (2 ^ (M - k)) (2 * j + 1)))"
    unfolding g1 by (auto simp: lft_pow)
  have g: "same_geom ?c b2" by (rule same_geom_trans [OF b1(3) b2(3)])
  have g2: "MAXSIZE b2 = M" "bd_base b2 = p" "nsizes b2 = Suc M" using same_geomD [OF g] by simp_all
  have bo: "bits_ok b2 ?st"
    by (rule mark_bits [OF ok g2(1) blank_bits [OF M(3)] b1(5,6) b2(5,6)])
  have "lists_ok ?c (only_below 0 ?st)" by (rule blank_lists) (simp add: only_below_def)
  then have lo: "lists_ok b2 (only_below 0 ?st)"
    using lists_ok_cong [OF _ g, of "only_below 0 ?st"] b1(4) b2(4) by simp
  from initfree_ok [of b2 m e 0] ok b2(2) bo lo M(2) obtain h' where
    h': "bd_initfree (p + 16 * int m) (p + 16 * int e) b2 = Ok (16 * (int e - int m)) (b2\<lparr>bd_heap := h'\<rparr>)"
    "lists_ok (b2\<lparr>bd_heap := h'\<rparr>) ?st"
    unfolding bd_initfree_def g2 by (auto simp: LEAF_SIZE_def)
  let ?b = "b2\<lparr>bd_heap := h'\<rparr>"
  have gb: "same_geom b2 ?b" by simp
  note gD = same_geomD [OF gb]
  have inv: "bd_inv ?b ?st"
    unfolding bd_inv_def gD g2
    using b2(2) tree_ok_init [OF ok] coalesced_init bo h'(2) heads_live_init [of b2 m e] ok gD g2
    by (simp add: heads_live_def)
  have sm: "s32 (16 * int m) = 16 * int m" using mM PM by (intro s32_nonneg) auto
  have st1: "bd_mark_data_structures (p + 16 * int m) ?c = Ok (16 * int m) b1"
    using b1(1) sm by (simp add: bd_mark_data_structures_def LEAF_SIZE_def)
  have bM: "BLK_SIZE M = 16 * 2 ^ M" by (simp add: BLK_SIZE_def LEAF_SIZE_def)
  have "0 \<le> ?n" by (rule order_trans [OF _ n(2)]) simp
  note un = mark_unavailable_size [OF M(3) this n(1), folded e, unfolded Let_def]
  have st2: "bd_mark_unavailable end b1 = Ok (16 * (2 ^ M - int e)) b2"
    unfolding bd_mark_unavailable_def Let_def g1 bM LEAF_SIZE_def un using b2(1) by (simp add: LEAF_SIZE_def)
  have be: "bd_base b2 + BLK_SIZE (MAXSIZE b2) - 16 * (2 ^ M - int e) = p + 16 * int e"
    by (simp add: g2 BLK_SIZE_def LEAF_SIZE_def)
  have "bd_init_body base end h = Ok () ?b"
    unfolding bd_init_body_def Let_def p(1) [symmetric] M(1) m(1) blank_def [symmetric] st1 bindr_simps st2 be h'(1)
    by (simp add: gD g2 BLK_SIZE_def LEAF_SIZE_def)
  moreover have "bd_rel ?b {(0, l) |l. l < 2 ^ M \<and> (l < m \<or> e \<le> l)}"
    unfolding bd_rel_def init_tree_live [symmetric] using inv p(2) g2 by auto
  ultimately show ?thesis using g2 by (intro exI [of _ ?b]) simp
qed

lemma bd_init_body_rel:
  assumes base: "0 < base" "base < 2 ^ 61"
    and n: "1024 < end - ROUNDUP_u64 base LEAF_SIZE" "end - ROUNDUP_u64 base LEAF_SIZE < 2 ^ 30"
    and x: "end - ROUNDUP_u64 base LEAF_SIZE \<noteq> BLK_SIZE (init_nsizes (end - ROUNDUP_u64 base LEAF_SIZE) - 1)"
  shows "\<exists>b m e. bd_init_body base end h = Ok () b \<and> bd_base b = ROUNDUP_u64 base LEAF_SIZE \<and>
    bd_base b + 16 * int m = init_meta_end (bd_base b) (nsizes b) \<and> 4 * m \<le> 2 ^ MAXSIZE b \<and>
    7 \<le> MAXSIZE b \<and> end - bd_base b < 16 * 2 ^ MAXSIZE b \<and> 16 * 2 ^ (MAXSIZE b - 1) \<le> end - bd_base b \<and>
    int e = (end - bd_base b) div 16 \<and> bd_rel b {(0, l) |l. l < 2 ^ MAXSIZE b \<and> (l < m \<or> e \<le> l)}"
proof -
  define p where "p = ROUNDUP_u64 base LEAF_SIZE"
  have p16: "p = 16 * ((base + 15) div 16)"
    unfolding p_def LEAF_SIZE_def by (rule ROUNDUP_u64_16) (use base in auto)
  have pb: "0 < p" "p < 2 ^ 62" "p mod 16 = 0" unfolding p16 using base by auto
  obtain M where M: "init_nsizes (end - p) = Suc M" "7 \<le> M" "M \<le> 26" "end - p < 16 * 2 ^ M" "16 * 2 ^ (M - 1) \<le> end - p"
    using init_nsizes_ok n x unfolding p_def [symmetric] by blast
  obtain m where m: "init_meta_end p (Suc M) = p + 16 * int m" "2 * Suc M \<le> m" "m \<le> 2 ^ (M - 2)"
    using init_meta_end_ok [OF pb M(2,3)] by blast
  from bd_init_body_ok [OF p_def pb M m] obtain b where
    b: "bd_init_body base end h = Ok () b" "bd_base b = p" "nsizes b = Suc M"
    "bd_rel b {(0, l) |l. l < 2 ^ M \<and> (l < m \<or> nat ((end - p) div 16) \<le> l)}" by blast
  have "0 \<le> (end - p) div 16" using n unfolding p_def [symmetric] by (simp add: pos_imp_zdiv_nonneg_iff)
  then have e: "int (nat ((end - p) div 16)) = (end - p) div 16" by simp
  have "4 * m \<le> 4 * 2 ^ (M - 2)" using m(3) by simp
  also have "\<dots> = 2 ^ (2 + (M - 2))" unfolding power_add by simp
  also have "2 + (M - 2) = M" using M(2) by simp
  finally have "4 * m \<le> 2 ^ M" .
  moreover have "MAXSIZE b = M" using b(3) by (simp add: MAXSIZE_def)
  ultimately show ?thesis unfolding p_def [symmetric]
    using b m(1) e M(2,4,5) by (intro exI [of _ b] exI [of _ m] exI [of _ "nat ((end - p) div 16)"]) simp
qed

text \<open>
  C14. \<open>bd_init(base, end)\<close> establishes the allocator's invariant without panicking, for every region of more than
  1024 and less than \<open>2^30\<close> bytes that does not fill its heap exactly. Afterwards the live blocks are exactly the
  16-byte leaves of the metadata at the start of the heap and of the missing memory beyond \<open>end\<close>: all other
  memory of the region can be allocated.
\<close>

theorem bd_init_establishes:
  assumes base: "0 < base" "base < 2 ^ 61"
    and n: "1024 < end - ROUNDUP_u64 base LEAF_SIZE" "end - ROUNDUP_u64 base LEAF_SIZE < 2 ^ 30"
    and x: "end - ROUNDUP_u64 base LEAF_SIZE \<noteq> BLK_SIZE (init_nsizes (end - ROUNDUP_u64 base LEAF_SIZE) - 1)"
  shows "\<exists>b m e. bd_init_body base end h = Ok () b \<and> bd_base b = ROUNDUP_u64 base LEAF_SIZE \<and>
    bd_base b + 16 * int m = init_meta_end (bd_base b) (nsizes b) \<and> 4 * m \<le> 2 ^ MAXSIZE b \<and>
    int e = (end - bd_base b) div 16 \<and> bd_rel b {(0, l) |l. l < 2 ^ MAXSIZE b \<and> (l < m \<or> e \<le> l)}"
  using bd_init_body_rel [OF assms, of h] by blast

theorem bd_init_establishes_witness:
  "\<exists>b m e. bd_init_body 2147680256 2281701376 \<lparr>lnext = \<lambda>_. 0, lprev = \<lambda>_. 0\<rparr> = Ok () b \<and> bd_base b = 2147680256 \<and>
    int e = (2281701376 - bd_base b) div 16 \<and> bd_rel b {(0, l) |l. l < 2 ^ MAXSIZE b \<and> (l < m \<or> e \<le> l)}"
proof -
  have r: "ROUNDUP_u64 2147680256 LEAF_SIZE = 2147680256" by (simp add: ROUNDUP_u64_def LEAF_SIZE_def)
  have "init_nsizes 134021120 = 24" by code_simp
  then have "(134021120 :: int) \<noteq> BLK_SIZE (init_nsizes 134021120 - 1)" by (simp add: BLK_SIZE_def LEAF_SIZE_def)
  with bd_init_establishes [of 2147680256 2281701376 "\<lparr>lnext = \<lambda>_. 0, lprev = \<lambda>_. 0\<rparr>"] show ?thesis
    unfolding r by (auto simp: r)
qed

end
