(* ===== verification/Layout.thy ===== *)
theory Layout
  imports Prelude
begin

text \<open>
  The constants of \<open>kernel/param.h\<close>, \<open>kernel/constants.h\<close>, \<open>kernel/memlayout.h\<close> and the address arithmetic of
  page tables: rounding to pages, the three indices of a virtual address, and the packing of a physical
  address and flags into a page table entry.
\<close>

section \<open>Parameters\<close>

definition NPROC :: nat where "NPROC = 64"
definition NCPU :: nat where "NCPU = 8"
definition NOFILE :: nat where "NOFILE = 16"
definition NFILE :: nat where "NFILE = 100"
definition NINODE :: nat where "NINODE = 50"
definition NDEV :: int where "NDEV = 10"
definition ROOTDEV :: nat where "ROOTDEV = 1"
definition MAXARG :: nat where "MAXARG = 32"
definition MAXOPBLOCKS :: nat where "MAXOPBLOCKS = 10"
definition LOGSIZE :: nat where "LOGSIZE = MAXOPBLOCKS * 3"
definition NBUF :: nat where "NBUF = MAXOPBLOCKS * 3"
definition FSSIZE :: nat where "FSSIZE = 2000"
definition MAXPATH :: nat where "MAXPATH = 128"

lemmas params = NPROC_def NCPU_def NOFILE_def NFILE_def NINODE_def NDEV_def ROOTDEV_def MAXARG_def
  MAXOPBLOCKS_def LOGSIZE_def NBUF_def FSSIZE_def MAXPATH_def

section \<open>Pages and page table entries\<close>

definition PGSIZE :: u64 where "PGSIZE = 4096"
definition PGSHIFT :: nat where "PGSHIFT = 12"

definition PGROUNDUP :: "u64 \<Rightarrow> u64" where
  "PGROUNDUP sz = (sz + PGSIZE - 1) AND NOT (PGSIZE - 1)"

definition PGROUNDDOWN :: "u64 \<Rightarrow> u64" where
  "PGROUNDDOWN a = a AND NOT (PGSIZE - 1)"

definition PTE_V :: u64 where "PTE_V = push_bit 0 1"
definition PTE_R :: u64 where "PTE_R = push_bit 1 1"
definition PTE_W :: u64 where "PTE_W = push_bit 2 1"
definition PTE_X :: u64 where "PTE_X = push_bit 3 1"
definition PTE_U :: u64 where "PTE_U = push_bit 4 1"

definition PA2PTE :: "u64 \<Rightarrow> u64" where
  "PA2PTE pa = push_bit 10 (drop_bit 12 pa)"

definition PTE2PA :: "u64 \<Rightarrow> u64" where
  "PTE2PA pte = push_bit 12 (drop_bit 10 pte)"

definition PTE_FLAGS :: "u64 \<Rightarrow> u64" where
  "PTE_FLAGS pte = pte AND 0x3FF"

definition PXMASK :: u64 where "PXMASK = 0x1FF"

definition PXSHIFT :: "nat \<Rightarrow> nat" where
  "PXSHIFT level = PGSHIFT + 9 * level"

definition PX :: "nat \<Rightarrow> u64 \<Rightarrow> u64" where
  "PX level va = drop_bit (PXSHIFT level) va AND PXMASK"

definition MAXVA :: u64 where "MAXVA = push_bit (9 + 9 + 9 + 12 - 1) 1"

section \<open>Memory layout\<close>

definition UART0 :: u64 where "UART0 = 0x10000000"
definition UART0_IRQ :: int where "UART0_IRQ = 10"
definition VIRTIO0 :: u64 where "VIRTIO0 = 0x10001000"
definition VIRTIO0_IRQ :: int where "VIRTIO0_IRQ = 1"
definition PLIC :: u64 where "PLIC = 0x0c000000"

definition PLIC_SENABLE :: "u64 \<Rightarrow> u64" where
  "PLIC_SENABLE hart = PLIC + 0x2080 + hart * 0x100"

definition PLIC_SPRIORITY :: "u64 \<Rightarrow> u64" where
  "PLIC_SPRIORITY hart = PLIC + 0x201000 + hart * 0x2000"

definition PLIC_SCLAIM :: "u64 \<Rightarrow> u64" where
  "PLIC_SCLAIM hart = PLIC + 0x201004 + hart * 0x2000"

definition KERNBASE :: u64 where "KERNBASE = 0x80000000"
definition PHYSTOP :: u64 where "PHYSTOP = KERNBASE + 128 * 1024 * 1024"
definition TRAMPOLINE :: u64 where "TRAMPOLINE = MAXVA - PGSIZE"
definition TRAPFRAME :: u64 where "TRAPFRAME = TRAMPOLINE - PGSIZE"

definition KSTACK :: "nat \<Rightarrow> u64" where
  "KSTACK p = TRAMPOLINE - (of_nat p + 1) * 2 * PGSIZE"

lemmas page_consts = PGSIZE_def PGSHIFT_def MAXVA_def TRAMPOLINE_def TRAPFRAME_def KERNBASE_def PHYSTOP_def

section \<open>Rounding\<close>

lemma pg_mask: "PGSIZE - 1 = mask 12"
  by (simp add: PGSIZE_def mask_eq_exp_minus_1)

lemma and_pg_mask: "a AND NOT (PGSIZE - 1) = push_bit 12 (drop_bit 12 a)"
  by (rule bit_word_eqI) (auto simp: pg_mask bit_and_iff bit_not_iff bit_mask_iff bit_push_bit_iff bit_drop_bit_eq)

lemma unat_PGROUNDDOWN: "unat (PGROUNDDOWN a) = unat a div 4096 * 4096"
proof -
  have "take_bit 64 (unat a) = unat a"
    using unsigned_less [of a, where 'a = nat] by (simp add: take_bit_nat_eq_self)
  then have "unat (PGROUNDDOWN a) = take_bit 64 (push_bit 12 (drop_bit 12 (unat a)))"
    by (simp add: PGROUNDDOWN_def and_pg_mask unsigned_push_bit_eq unsigned_drop_bit_eq)
  also have "\<dots> = unat a div 4096 * 4096 mod 2 ^ 64"
    by (simp add: take_bit_eq_mod push_bit_eq_mult drop_bit_eq_div mult.commute)
  also have "\<dots> = unat a div 4096 * 4096"
    using div_times_less_eq_dividend [of "unat a" 4096] unsigned_less [of a, where 'a = nat] by simp
  finally show ?thesis .
qed

lemma PGROUNDUP_down: "PGROUNDUP a = PGROUNDDOWN (a + 4095)"
  by (simp add: PGROUNDUP_def PGROUNDDOWN_def PGSIZE_def add.commute)

lemma unat_PGROUNDUP:
  assumes "unat a + 4095 < 2 ^ 64"
  shows "unat (PGROUNDUP a) = (unat a + 4095) div 4096 * 4096"
proof -
  have "unat (a + 4095) = unat a + 4095" using assms by (simp add: unat_word_ariths(1))
  then show ?thesis by (simp add: PGROUNDUP_down unat_PGROUNDDOWN)
qed

text \<open>
  For every address that does not wrap, \<open>PGROUNDDOWN\<close> is the largest page boundary at or below it and
  \<open>PGROUNDUP\<close> the smallest page boundary at or above it.
\<close>

lemma page_rounding:
  assumes "unat a + 4095 < 2 ^ 64"
  shows "4096 dvd unat (PGROUNDDOWN a) \<and> unat (PGROUNDDOWN a) \<le> unat a \<and> unat a < unat (PGROUNDDOWN a) + 4096 \<and>
    4096 dvd unat (PGROUNDUP a) \<and> unat a \<le> unat (PGROUNDUP a) \<and> unat (PGROUNDUP a) < unat a + 4096"
  unfolding unat_PGROUNDDOWN unat_PGROUNDUP [OF assms]
  using div_times_less_eq_dividend [of "unat a" 4096] dividend_less_div_times [of 4096 "unat a"]
    div_times_less_eq_dividend [of "unat a + 4095" 4096] dividend_less_div_times [of 4096 "unat a + 4095"]
  by (auto simp: dvd_def)

section \<open>Page table entries\<close>

lemma PX_less: "unat (PX level va) < 512"
proof -
  have "PX level va = take_bit 9 (drop_bit (PXSHIFT level) va)"
    by (simp add: PX_def PXMASK_def take_bit_eq_mask mask_eq_exp_minus_1)
  then have "unat (PX level va) = take_bit 9 (unat (drop_bit (PXSHIFT level) va))"
    by (simp only: unsigned_take_bit_eq)
  then show ?thesis by (simp add: take_bit_eq_mod)
qed

lemma pte_pack:
  assumes "take_bit 12 pa = 0" and "take_bit 56 pa = pa" and "take_bit 10 fl = fl"
  shows "PTE2PA (PA2PTE pa OR fl) = pa \<and> PTE_FLAGS (PA2PTE pa OR fl) = fl"
proof
  have lo: "\<not> bit pa n" if "n < 12" for n
    using that assms(1) by (metis bit_0_eq bit_take_bit_iff bot_apply bot_bool_def)
  have hi: "\<not> bit pa n" if "56 \<le> n" for n
    using that assms(2) by (metis bit_take_bit_iff not_less)
  have fh: "\<not> bit fl n" if "10 \<le> n" for n
    using that assms(3) by (metis bit_take_bit_iff not_less)
  show "PTE2PA (PA2PTE pa OR fl) = pa"
  proof (rule bit_word_eqI)
    fix n
    show "bit (PTE2PA (PA2PTE pa OR fl)) n = bit pa n" if "n < LENGTH(64)"
      using that lo [of n] fh [of "10 + (n - 12)"]
      by (cases "n < 12") (auto simp: PTE2PA_def PA2PTE_def bit_push_bit_iff bit_drop_bit_eq bit_or_iff)
  qed
  have fl: "bit fl n \<Longrightarrow> n < 10" for n using fh [of n] by linarith
  have m: "(0x3FF :: u64) = mask 10" by (simp add: mask_eq_exp_minus_1)
  show "PTE_FLAGS (PA2PTE pa OR fl) = fl"
    by (rule bit_word_eqI)
      (auto simp: PTE_FLAGS_def m PA2PTE_def bit_push_bit_iff bit_and_iff bit_mask_iff bit_or_iff dest: fl)
qed

text \<open>
  C15. A page table entry built from a page-aligned physical address below \<open>2^56\<close> and flags in the low ten bits
  gives back exactly that address and those flags.
\<close>

theorem pte_roundtrip:
  assumes "take_bit 12 pa = 0" and "take_bit 56 pa = pa" and "take_bit 10 fl = fl"
  shows "PTE2PA (PA2PTE pa OR fl) = pa \<and> PTE_FLAGS (PA2PTE pa OR fl) = fl"
  using pte_pack [OF assms] .

theorem pte_roundtrip_witness:
  "take_bit 12 (0x87fff000 :: u64) = 0 \<and> take_bit 56 (0x87fff000 :: u64) = 0x87fff000 \<and>
   PTE2PA (PA2PTE 0x87fff000 OR 15) = 0x87fff000 \<and> PTE_FLAGS (PA2PTE 0x87fff000 OR 15) = 15"
proof -
  have t: "take_bit 12 (0x87fff000 :: u64) = 0" "take_bit 56 (0x87fff000 :: u64) = 0x87fff000" "take_bit 10 (15 :: u64) = 15"
    by (simp_all add: take_bit_eq_mod)
  with pte_roundtrip [OF t] show ?thesis by simp
qed

end
