(* ===== verification/Kproc.thy ===== *)
theory Kproc
  imports Spinlock Layout
begin

text \<open>
  The process table and the scheduling primitives of \<open>kernel/proc.c\<close>: \<open>sleep\<close> and \<open>wakeup\<close>, \<open>kill\<close>, \<open>yield\<close>, the
  scheduler and pid allocation. A context switch splits a routine: the part before \<open>swtch\<close> ends in the state
  in which the other thread continues, the part after it is a definition of its own (\<open>sleep_wake\<close>,
  \<open>yield_back\<close>, \<open>scheduler_back\<close>). Process creation and destruction, which need page tables and files, are in
  theory \<open>Proc\<close>.
\<close>

section \<open>The process table\<close>

datatype procstate = UNUSED | USED | SLEEPING | RUNNABLE | RUNNING | ZOMBIE

record kcontext =
  cx_ra :: u64
  cx_sp :: u64
  cx_s :: "u64 list"

record proc =
  pstate :: procstate
  pchan :: "chan option"
  pkilled :: int
  xstate :: int
  pid :: int
  parent :: "nat option"
  kstack :: u64
  psz :: u64
  pagetable :: addr
  trapframe :: addr
  pcontext :: kcontext
  ofile :: "addr list"
  cwd :: "nat option"
  pname :: "u8 list"

record kproc = kst0 +
  procs :: "nat \<Rightarrow> proc"
  nextpid :: int
  initproc :: "nat option"

definition upd_proc :: "nat \<Rightarrow> (proc \<Rightarrow> proc) \<Rightarrow> 'z kproc_scheme \<Rightarrow> 'z kproc_scheme" where
  "upd_proc p f s = s\<lparr>procs := (procs s)(p := f (procs s p))\<rparr>"

definition initlk :: "lock \<Rightarrow> string \<Rightarrow> 'z kst0_scheme \<Rightarrow> 'z kst0_scheme" where
  "initlk lk name s = s\<lparr>spin := initlock lk name (spin s)\<rparr>"

fun procinit_loop :: "nat list \<Rightarrow> 'z kproc_scheme \<Rightarrow> 'z kproc_scheme" where
  "procinit_loop [] s = s"
| "procinit_loop (p # ps) s =
     procinit_loop ps (upd_proc p (\<lambda>x. x\<lparr>pstate := UNUSED, kstack := KSTACK p\<rparr>) (initlk (LkProc p) ''proc'' s))"

definition procinit :: "'z kproc_scheme \<Rightarrow> 'z kproc_scheme" where
  "procinit s = procinit_loop [0..<NPROC] (initlk LkWait ''wait_lock'' (initlk LkPid ''nextpid'' s))"

section \<open>The running process\<close>

definition cpuid :: "'z kst0_scheme \<Rightarrow> nat" where
  "cpuid s = hart (spin s)"

definition myproc :: "'z kproc_scheme \<Rightarrow> ('z kproc_scheme, nat option) res" where
  "myproc s =
     (let s = s\<lparr>spin := push_off (spin s)\<rparr>;
          p = cpu_proc (mycpu (spin s)) in
      bindr (liftr spin (\<lambda>c. spin_update (\<lambda>_. c)) pop_off s) (\<lambda>_ s. Ok p s))"

text \<open>The running process where the code dereferences it without a test.\<close>

definition curproc :: "'z kproc_scheme \<Rightarrow> ('z kproc_scheme, nat) res" where
  "curproc s = bindr (myproc s) (\<lambda>p s. orfault ''myproc'' p (\<lambda>p. Ok p s))"

definition allocpid :: "'z kproc_scheme \<Rightarrow> ('z kproc_scheme, int) res" where
  "allocpid = locking LkPid (\<lambda>s. Ok (nextpid s) (s\<lparr>nextpid := s32 (nextpid s + 1)\<rparr>))"

section \<open>Switching to the scheduler\<close>

text \<open>
  \<open>sched\<close> up to the call of \<open>swtch\<close>; it returns the saved \<open>intena\<close>. \<open>sched_back\<close> is what follows when the process
  runs again.
\<close>

definition sched :: "'z kproc_scheme \<Rightarrow> ('z kproc_scheme, bool) res" where
  "sched s =
     bindr (curproc s) (\<lambda>p s.
     if \<not> holding (LkProc p) (spin s) then Panic ''sched p->lock''
     else if noff (mycpu (spin s)) \<noteq> 1 then Panic ''sched locks''
     else if pstate (procs s p) = RUNNING then Panic ''sched running''
     else if intr_get (spin s) then Panic ''sched interruptible''
     else Ok (intena (mycpu (spin s))) s)"

definition sched_back :: "bool \<Rightarrow> 'z kst0_scheme \<Rightarrow> 'z kst0_scheme" where
  "sched_back i s = s\<lparr>spin := set_mycpu ((mycpu (spin s))\<lparr>intena := i\<rparr>) (spin s)\<rparr>"

definition yield_out :: "'z kproc_scheme \<Rightarrow> ('z kproc_scheme, bool) res" where
  "yield_out s =
     bindr (curproc s) (\<lambda>p s.
     bindr (acq (LkProc p) s) (\<lambda>_ s.
     sched (upd_proc p (\<lambda>x. x\<lparr>pstate := RUNNABLE\<rparr>) s)))"

definition yield_back :: "nat \<Rightarrow> bool \<Rightarrow> 'z kproc_scheme \<Rightarrow> ('z kproc_scheme, unit) res" where
  "yield_back p i s = rel (LkProc p) (sched_back i s)"

definition sleep :: "chan \<Rightarrow> lock \<Rightarrow> 'z kproc_scheme \<Rightarrow> ('z kproc_scheme, 'a) res" where
  "sleep ch lk s =
     bindr (curproc s) (\<lambda>p s.
     bindr (acq (LkProc p) s) (\<lambda>_ s.
     bindr (rel lk s) (\<lambda>_ s.
     bindr (sched (upd_proc p (\<lambda>x. x\<lparr>pchan := Some ch, pstate := SLEEPING\<rparr>) s)) (\<lambda>_ s.
     Sleep ch s))))"

definition sleep_wake :: "nat \<Rightarrow> lock \<Rightarrow> bool \<Rightarrow> 'z kproc_scheme \<Rightarrow> ('z kproc_scheme, unit) res" where
  "sleep_wake p lk i s =
     bindr (rel (LkProc p) (upd_proc p (\<lambda>x. x\<lparr>pchan := None\<rparr>) (sched_back i s))) (\<lambda>_ s.
     acq lk s)"

section \<open>Waking and killing\<close>

fun wakeup_loop :: "chan \<Rightarrow> nat list \<Rightarrow> 'z kproc_scheme \<Rightarrow> ('z kproc_scheme, unit) res" where
  "wakeup_loop ch [] s = Ok () s"
| "wakeup_loop ch (p # ps) s =
     bindr (myproc s) (\<lambda>me s.
     if Some p \<noteq> me
     then bindr (locking (LkProc p) (\<lambda>s.
            Ok () (if pstate (procs s p) = SLEEPING \<and> pchan (procs s p) = Some ch
                   then upd_proc p (\<lambda>x. x\<lparr>pstate := RUNNABLE\<rparr>) s else s)) s) (\<lambda>_ s.
          wakeup_loop ch ps s)
     else wakeup_loop ch ps s)"

definition wakeup :: "chan \<Rightarrow> 'z kproc_scheme \<Rightarrow> ('z kproc_scheme, unit) res" where
  "wakeup ch = wakeup_loop ch [0..<NPROC]"

fun kill_loop :: "int \<Rightarrow> nat list \<Rightarrow> 'z kproc_scheme \<Rightarrow> ('z kproc_scheme, int) res" where
  "kill_loop i [] s = Ok (- 1) s"
| "kill_loop i (p # ps) s =
     bindr (locking (LkProc p) (\<lambda>s.
       if pid (procs s p) = i
       then let s = upd_proc p (\<lambda>x. x\<lparr>pkilled := 1\<rparr>) s in
            Ok True (if pstate (procs s p) = SLEEPING then upd_proc p (\<lambda>x. x\<lparr>pstate := RUNNABLE\<rparr>) s else s)
       else Ok False s) s) (\<lambda>found s.
     if found then Ok 0 s else kill_loop i ps s)"

definition kill :: "int \<Rightarrow> 'z kproc_scheme \<Rightarrow> ('z kproc_scheme, int) res" where
  "kill i = kill_loop i [0..<NPROC]"

definition setkilled :: "nat \<Rightarrow> 'z kproc_scheme \<Rightarrow> ('z kproc_scheme, unit) res" where
  "setkilled p = locking (LkProc p) (\<lambda>s. Ok () (upd_proc p (\<lambda>x. x\<lparr>pkilled := 1\<rparr>) s))"

definition killed :: "nat \<Rightarrow> 'z kproc_scheme \<Rightarrow> ('z kproc_scheme, int) res" where
  "killed p = locking (LkProc p) (\<lambda>s. Ok (pkilled (procs s p)) s)"

fun reparent_loop :: "nat \<Rightarrow> nat list \<Rightarrow> 'z kproc_scheme \<Rightarrow> ('z kproc_scheme, unit) res" where
  "reparent_loop p [] s = Ok () s"
| "reparent_loop p (pp # ps) s =
     (if parent (procs s pp) = Some p
      then let s = upd_proc pp (\<lambda>x. x\<lparr>parent := initproc s\<rparr>) s in
           orfault ''initproc'' (initproc s) (\<lambda>ip.
           bindr (wakeup (ChProc ip) s) (\<lambda>_ s. reparent_loop p ps s))
      else reparent_loop p ps s)"

definition reparent :: "nat \<Rightarrow> 'z kproc_scheme \<Rightarrow> ('z kproc_scheme, unit) res" where
  "reparent p = reparent_loop p [0..<NPROC]"

section \<open>The scheduler\<close>

text \<open>
  One entry of the scheduler's scan. With a runnable process \<open>scheduler_try\<close> returns \<open>True\<close> at the point of
  \<open>swtch\<close>, with the process's lock held; \<open>scheduler_back\<close> is what the scheduler does when the process has
  switched back.
\<close>

definition set_cpu_proc :: "nat option \<Rightarrow> 'z kst0_scheme \<Rightarrow> 'z kst0_scheme" where
  "set_cpu_proc p s = s\<lparr>spin := set_mycpu ((mycpu (spin s))\<lparr>cpu_proc := p\<rparr>) (spin s)\<rparr>"

definition scheduler_try :: "nat \<Rightarrow> 'z kproc_scheme \<Rightarrow> ('z kproc_scheme, bool) res" where
  "scheduler_try p s =
     bindr (acq (LkProc p) s) (\<lambda>_ s.
     if pstate (procs s p) = RUNNABLE
     then Ok True (set_cpu_proc (Some p) (upd_proc p (\<lambda>x. x\<lparr>pstate := RUNNING\<rparr>) s))
     else bindr (rel (LkProc p) s) (\<lambda>_ s. Ok False s))"

definition scheduler_back :: "nat \<Rightarrow> 'z kproc_scheme \<Rightarrow> ('z kproc_scheme, unit) res" where
  "scheduler_back p s = rel (LkProc p) (set_cpu_proc None s)"

text \<open>The scan up to the first process that is switched to; \<open>None\<close> when no process is runnable.\<close>

fun scheduler_scan :: "nat list \<Rightarrow> 'z kproc_scheme \<Rightarrow> ('z kproc_scheme, nat option) res" where
  "scheduler_scan [] s = Ok None s"
| "scheduler_scan (p # ps) s =
     bindr (scheduler_try p s) (\<lambda>run s. if run then Ok (Some p) s else scheduler_scan ps s)"

definition scheduler_round :: "'z kproc_scheme \<Rightarrow> ('z kproc_scheme, nat option) res" where
  "scheduler_round s = scheduler_scan [0..<NPROC] (s\<lparr>spin := intr_on (spin s)\<rparr>)"

text \<open>The table of \<open>procdump\<close>, which theory \<open>Console\<close> has.\<close>

fun state_name :: "procstate \<Rightarrow> string" where
  "state_name UNUSED = ''unused''"
| "state_name USED = ''used''"
| "state_name SLEEPING = ''sleep ''"
| "state_name RUNNABLE = ''runble''"
| "state_name RUNNING = ''run   ''"
| "state_name ZOMBIE = ''zombie''"

section \<open>Rules for the primitives\<close>

lemma upd_proc_simps [simp]:
  "spin (upd_proc p f s) = spin s" "procs (upd_proc p f s) = (procs s)(p := f (procs s p))"
  "nextpid (upd_proc p f s) = nextpid s" "initproc (upd_proc p f s) = initproc s"
  by (simp_all add: upd_proc_def)

lemma calm_simps [simp]:
  "hart (calm s) = hart s" "locks (calm s) = locks s" "cpu_proc (mycpu (calm s)) = cpu_proc (mycpu s)"
  "noff (mycpu (calm s)) = noff (mycpu s)" "sie (calm s) = sie s" "cpu_ok (calm s) = cpu_ok s"
  by (simp_all add: calm_def cpu_ok_def spin_defs)

lemma calm_id: "noff (mycpu s) \<noteq> 0 \<Longrightarrow> calm s = s"
  by (simp add: calm_def)

lemma taken_simps [simp]:
  "hart (taken lk s) = hart s" "cpu_proc (mycpu (taken lk s)) = cpu_proc (mycpu s)"
  "noff (mycpu (taken lk s)) = noff (mycpu s) + 1" "intr_get (taken lk s) = False"
  by (simp_all add: taken_def spin_defs)

lemma taken_ok: "cpu_ok s \<Longrightarrow> cpu_ok (taken lk s)"
  by (simp add: cpu_ok_def)

lemma calm_taken: "cpu_ok s \<Longrightarrow> calm (taken lk s) = taken lk s"
  by (rule calm_id) (auto simp: cpu_ok_def)

lemma holding_taken [simp]: "holding lk (taken lk s)"
  by (simp add: holding_def taken_def)

lemma lk_free_ok: "lk_free lk s \<Longrightarrow> cpu_ok s"
  by (simp add: lk_free_def)

lemma taken_commute:
  assumes "cpu_ok s" and "a \<noteq> b"
  shows "taken a (taken b s) = taken b (taken a s)"
  using assms by (auto simp: taken_def spin_defs cpu_ok_def fun_upd_twist)

lemma myproc_ok:
  "cpu_ok (spin s) \<Longrightarrow> myproc s = Ok (cpu_proc (mycpu (spin s))) (s\<lparr>spin := calm (spin s)\<rparr>)"
proof -
  assume a: "cpu_ok (spin s)"
  have "cpu_proc (mycpu (push_off (spin s))) = cpu_proc (mycpu (spin s))" by (simp add: spin_defs)
  with pop_push_off [OF a] show ?thesis by (simp add: myproc_def liftr_def Let_def)
qed

lemma curproc_ok:
  "cpu_ok (spin s) \<Longrightarrow> cpu_proc (mycpu (spin s)) = Some p \<Longrightarrow> curproc s = Ok p (s\<lparr>spin := calm (spin s)\<rparr>)"
  by (simp add: curproc_def myproc_ok)

text \<open>What \<open>wakeup\<close> does to the process table.\<close>

definition woken :: "chan \<Rightarrow> nat option \<Rightarrow> nat set \<Rightarrow> (nat \<Rightarrow> proc) \<Rightarrow> nat \<Rightarrow> proc" where
  "woken ch me A P p =
     (if p \<in> A \<and> Some p \<noteq> me \<and> pstate (P p) = SLEEPING \<and> pchan (P p) = Some ch
      then (P p)\<lparr>pstate := RUNNABLE\<rparr> else P p)"

lemma wakeup_loop_ok:
  assumes "cpu_ok (spin s)" and "me = cpu_proc (mycpu (spin s))"
    and "\<And>p. p \<in> set ps \<Longrightarrow> Some p \<noteq> me \<Longrightarrow> lk_free (LkProc p) (spin s)"
  shows "wakeup_loop ch ps s =
    Ok () (s\<lparr>spin := (if ps = [] then spin s else calm (spin s)), procs := woken ch me (set ps) (procs s)\<rparr>)"
  using assms
proof (induction ps arbitrary: s)
  case Nil
  have "woken ch me {} P = P" for P by (simp add: woken_def fun_eq_iff)
  then show ?case by simp
next
  case (Cons p ps)
  let ?s = "s\<lparr>spin := calm (spin s), procs := woken ch me {p} (procs s)\<rparr>"
  have w: "woken ch me (set ps) (woken ch me {p} P) = woken ch me (insert p (set ps)) P" for P
    by (auto simp: woken_def fun_eq_iff)
  have "bindr (wakeup_loop ch [p] s) (\<lambda>_ s. wakeup_loop ch ps s) = wakeup_loop ch ps ?s"
  proof (cases "Some p = me")
    case True
    then have "woken ch me {p} (procs s) = procs s" by (simp add: woken_def fun_eq_iff)
    with True Cons.prems show ?thesis by (simp add: myproc_ok)
  next
    case False
    let ?f = "\<lambda>s. Ok () (if pstate (procs s p) = SLEEPING \<and> pchan (procs s p) = Some ch
                   then upd_proc p (\<lambda>x. x\<lparr>pstate := RUNNABLE\<rparr>) s else s)"
    let ?s1 = "s\<lparr>spin := calm (spin s)\<rparr>"
    let ?t = "s\<lparr>spin := taken (LkProc p) (calm (spin s)), procs := woken ch me {p} (procs s)\<rparr>"
    have f: "lk_free (LkProc p) (spin ?s1)" using Cons.prems(3) False by simp
    have "?f (?s1\<lparr>spin := taken (LkProc p) (spin ?s1)\<rparr>) = Ok () ?t"
      using False by (auto simp: woken_def fun_eq_iff upd_proc_def)
    from section_ok [where f = ?f, OF f this] have "locking (LkProc p) ?f ?s1 = Ok () ?s" by simp
    with False Cons.prems show ?thesis by (simp add: myproc_ok)
  qed
  moreover have "wakeup_loop ch (p # ps) s = bindr (wakeup_loop ch [p] s) (\<lambda>_ s. wakeup_loop ch ps s)"
    by (simp add: bindr_assoc if_distrib [where f = "\<lambda>m. bindr m _"] cong: if_cong)
  ultimately have "wakeup_loop ch (p # ps) s = wakeup_loop ch ps ?s" by (simp only:)
  also have "\<dots> = Ok () (?s\<lparr>spin := (if ps = [] then spin ?s else calm (spin ?s)), procs := woken ch me (set ps) (procs ?s)\<rparr>)"
    by (rule Cons.IH) (use Cons.prems in simp_all)
  finally show ?case by (simp add: w)
qed

lemma wakeup_ok:
  assumes "cpu_ok (spin s)"
    and "\<And>p. p < NPROC \<Longrightarrow> Some p \<noteq> cpu_proc (mycpu (spin s)) \<Longrightarrow> lk_free (LkProc p) (spin s)"
  shows "wakeup ch s = Ok () (s\<lparr>spin := calm (spin s),
    procs := woken ch (cpu_proc (mycpu (spin s))) {..<NPROC} (procs s)\<rparr>)"
proof -
  have "[0..<NPROC] \<noteq> []" by (simp add: NPROC_def)
  with wakeup_loop_ok [OF assms(1) refl, of "[0..<NPROC]" ch] assms(2) show ?thesis
    by (simp add: wakeup_def atLeast0LessThan)
qed

lemma killed_ok: "lk_free (LkProc p) (spin s) \<Longrightarrow> killed p s = Ok (pkilled (procs s p)) (s\<lparr>spin := calm (spin s)\<rparr>)"
  unfolding killed_def by (subst section_ok [where t = "s\<lparr>spin := taken (LkProc p) (spin s)\<rparr>"]) simp_all

lemma sleep_ok:
  assumes s: "spin s = taken lk sp" and lk: "lk_free lk sp" and p: "lk_free (LkProc p) sp"
    and me: "cpu_proc (mycpu sp) = Some p" and n: "noff (mycpu sp) = 0" and ne: "lk \<noteq> LkProc p"
  shows "sleep ch lk s = Sleep ch (upd_proc p (\<lambda>x. x\<lparr>pchan := Some ch, pstate := SLEEPING\<rparr>)
    (s\<lparr>spin := taken (LkProc p) sp\<rparr>))"
proof -
  note ok = lk_free_ok [OF lk]
  have c: "curproc s = Ok p s" using curproc_ok [of s p] s me ok by (simp add: taken_ok calm_taken)
  have f: "lk_free (LkProc p) (spin s)" using lk_free_taken [OF ne lk p] s by simp
  have a: "acq (LkProc p) s = Ok () (s\<lparr>spin := taken (LkProc p) (taken lk sp)\<rparr>)" using acq_free [OF f] s by simp
  have "lk_free lk (taken (LkProc p) sp)" by (rule lk_free_taken [OF ne [symmetric] p lk])
  from rel_taken [OF _ this, of "s\<lparr>spin := taken (LkProc p) (taken lk sp)\<rparr>"]
  have r: "rel lk (s\<lparr>spin := taken (LkProc p) (taken lk sp)\<rparr>) = Ok () (s\<lparr>spin := taken (LkProc p) sp\<rparr>)"
    using taken_commute [OF ok ne] ok by (simp add: calm_taken)
  let ?s = "upd_proc p (\<lambda>x. x\<lparr>pchan := Some ch, pstate := SLEEPING\<rparr>) (s\<lparr>spin := taken (LkProc p) sp\<rparr>)"
  have "curproc ?s = Ok p ?s" using curproc_ok [of ?s p] me ok by (simp add: taken_ok calm_taken upd_proc_def)
  then have "sched ?s = Ok (intena (mycpu (spin ?s))) ?s" using n by (simp add: sched_def)
  then show ?thesis by (simp add: sleep_def c a r)
qed

end
