(* ===== verification/Kalloc.thy ===== *)
theory Kalloc
  imports Buddy_Init Kproc
begin

text \<open>
  The allocator as the rest of the kernel calls it: \<open>bd_malloc\<close>, \<open>bd_free\<close> and \<open>bd_init\<close> with their spin lock, and
  the page allocator \<open>kernel/kalloc.c\<close> on top of them.
\<close>

record kmem = kproc +
  buddy :: bd

definition on_buddy :: "(bd \<Rightarrow> (bd, 'a) res) \<Rightarrow> 'z kmem_scheme \<Rightarrow> ('z kmem_scheme, 'a) res" where
  "on_buddy = liftr buddy (\<lambda>b s. s\<lparr>buddy := b\<rparr>)"

definition bd_malloc :: "u64 \<Rightarrow> 'z kmem_scheme \<Rightarrow> ('z kmem_scheme, addr) res" where
  "bd_malloc nbytes = locking LkBuddy (on_buddy (bd_malloc_locked nbytes))"

definition bd_free :: "addr \<Rightarrow> 'z kmem_scheme \<Rightarrow> ('z kmem_scheme, unit) res" where
  "bd_free p = locking LkBuddy (on_buddy (bd_free_locked p))"

definition bd_init :: "addr \<Rightarrow> addr \<Rightarrow> 'z kmem_scheme \<Rightarrow> ('z kmem_scheme, unit) res" where
  "bd_init base end s =
     on_buddy (\<lambda>b. bd_init_body base end (bd_heap b)) (initlk LkBuddy ''buddy'' s)"

text \<open>\<open>kend\<close> is the linker's symbol \<open>end\<close>, the first address after the kernel.\<close>

definition kinit :: "u64 \<Rightarrow> 'z kmem_scheme \<Rightarrow> ('z kmem_scheme, unit) res" where
  "kinit kend = bd_init (uint (PGROUNDUP kend)) (uint PHYSTOP)"

definition kfree :: "addr \<Rightarrow> 'z kmem_scheme \<Rightarrow> ('z kmem_scheme, unit) res" where
  "kfree pa = bd_free pa"

definition kalloc :: "'z kmem_scheme \<Rightarrow> ('z kmem_scheme, addr) res" where
  "kalloc = bd_malloc PGSIZE"

section \<open>Rules\<close>

lemma on_buddy_ok: "f (buddy s) = Ok x b \<Longrightarrow> on_buddy f s = Ok x (s\<lparr>buddy := b\<rparr>)"
  by (simp add: on_buddy_def liftr_def)

lemma locked_buddy_ok:
  assumes "lk_free LkBuddy (spin s)" and "f (buddy s) = Ok x b"
  shows "locking LkBuddy (on_buddy f) s = Ok x (s\<lparr>spin := calm (spin s), buddy := b\<rparr>)"
proof -
  have "on_buddy f (s\<lparr>spin := taken LkBuddy (spin s)\<rparr>) = Ok x (s\<lparr>spin := taken LkBuddy (spin s), buddy := b\<rparr>)"
    by (simp add: on_buddy_ok assms(2))
  from section_ok [where f = "on_buddy f", OF assms(1) this] show ?thesis by simp
qed

lemma firstk_page: "firstk PGSIZE = Some 8"
  by (simp add: firstk_def firstk_loop.simps PGSIZE_def)

lemma page_block:
  assumes "in_heap (MAXSIZE b) (8, i)" and "4096 dvd bd_base b"
  shows "4096 dvd baddr b 8 i" and "bd_base b \<le> baddr b 8 i" and "baddr b 8 i + 4096 \<le> bd_base b + HEAP_SIZE b"
proof -
  have e: "baddr b 8 i = bd_base b + 4096 * int i" by (simp add: baddr_def LEAF_SIZE_def)
  show "4096 dvd baddr b 8 i" "bd_base b \<le> baddr b 8 i" using assms(2) by (simp_all add: e)
  have M: "8 \<le> MAXSIZE b" and "i < 2 ^ (MAXSIZE b - 8)" using assms(1) by (simp_all add: in_heap_def)
  then have "int (Suc i) \<le> int (2 ^ (MAXSIZE b - 8))" by (simp only: of_nat_le_iff Suc_le_eq)
  moreover have "(2::int) ^ MAXSIZE b = 2 ^ 8 * 2 ^ (MAXSIZE b - 8)" unfolding power_add [symmetric] using M by simp
  ultimately show "baddr b 8 i + 4096 \<le> bd_base b + HEAP_SIZE b"
    by (simp add: e HEAP_SIZE_def BLK_SIZE_def LEAF_SIZE_def)
qed

section \<open>Properties of the page allocator\<close>

text \<open>
  C16. \<open>kalloc\<close> returns a page-aligned page that lies inside the managed memory and overlaps no live block, and
  that page becomes live; it returns 0 only when no whole page is free, and then changes nothing. It releases
  the allocator's lock on every path.
\<close>

theorem kalloc_page:
  assumes r: "bd_rel (buddy s) L" and f: "lk_free LkBuddy (spin s)" and a: "4096 dvd bd_base (buddy s)"
  shows "(\<exists>i b'. i \<in> fits (MAXSIZE (buddy s)) L 8 \<and> bd_rel b' (insert (8, i) L) \<and> 4096 dvd baddr (buddy s) 8 i \<and>
      bd_base (buddy s) \<le> baddr (buddy s) 8 i \<and> baddr (buddy s) 8 i + 4096 \<le> bd_base (buddy s) + HEAP_SIZE (buddy s) \<and>
      kalloc s = Ok (baddr (buddy s) 8 i) (s\<lparr>spin := calm (spin s), buddy := b'\<rparr>)) \<or>
    (fits (MAXSIZE (buddy s)) L 8 = {} \<and> kalloc s = Ok 0 (s\<lparr>spin := calm (spin s)\<rparr>))"
proof -
  from bd_rel_malloc [OF r firstk_page] show ?thesis
  proof (elim disjE exE conjE)
    fix i b' assume i: "i \<in> fits (MAXSIZE (buddy s)) L 8"
      and m: "bd_malloc_locked PGSIZE (buddy s) = Ok (baddr (buddy s) 8 i) b'" and b': "bd_rel b' (insert (8, i) L)"
    from i have "in_heap (MAXSIZE (buddy s)) (8, i)" by (simp add: fits_def)
    from page_block [OF this a] locked_buddy_ok [where f = "bd_malloc_locked PGSIZE", OF f m] i b' show ?thesis
      by (auto simp: kalloc_def bd_malloc_def)
  next
    assume z: "fits (MAXSIZE (buddy s)) L 8 = {}" and m: "bd_malloc_locked PGSIZE (buddy s) = Ok 0 (buddy s)"
    from locked_buddy_ok [where f = "bd_malloc_locked PGSIZE", OF f m] z show ?thesis by (simp add: kalloc_def bd_malloc_def)
  qed
qed

lemma idle_free: "lk_free lk idle_spin"
  by (simp add: lk_free_def idle_spin_def cpu_ok_def mycpu_def)

definition no_proc :: proc where
  "no_proc = \<lparr>pstate = UNUSED, pchan = None, pkilled = 0, xstate = 0, pid = 0, parent = None, kstack = 0, psz = 0,
     pagetable = 0, trapframe = 0, pcontext = \<lparr>cx_ra = 0, cx_sp = 0, cx_s = []\<rparr>, ofile = replicate NOFILE 0,
     cwd = None, pname = replicate 16 0\<rparr>"

definition idle_mem :: "bd \<Rightarrow> kmem" where
  "idle_mem b = \<lparr>spin = idle_spin, procs = (\<lambda>_. no_proc), nextpid = 1, initproc = None, buddy = b\<rparr>"

theorem kalloc_page_witness:
  "bd_rel full_heap ((\<lambda>i. (0, i)) ` {..<8}) \<and> 4096 dvd bd_base full_heap \<and>
   kalloc (idle_mem full_heap) = Ok 0 ((idle_mem full_heap)\<lparr>spin := calm idle_spin\<rparr>)"
proof -
  have a: "4096 dvd bd_base full_heap" by (simp add: full_heap_def)
  have "fits (MAXSIZE full_heap) ((\<lambda>i. (0, i)) ` {..<8}) 8 = {}"
    by (simp add: fits_def in_heap_def MAXSIZE_def full_heap_def)
  with kalloc_page [of "idle_mem full_heap" "(\<lambda>i. (0, i)) ` {..<8}"] full_heap_rel a idle_free
  show ?thesis by (simp add: idle_mem_def)
qed

text \<open>
  C17. \<open>kfree\<close> of a live page (of any live block of the client's) frees exactly that block and releases the
  allocator's lock.
\<close>

theorem kfree_page:
  assumes r: "bd_rel (buddy s) L" and f: "lk_free LkBuddy (spin s)"
    and x: "(k, i) \<in> L" "\<not> is_head (buddy s) (k, i)"
  shows "\<exists>b'. kfree (baddr (buddy s) k i) s = Ok () (s\<lparr>spin := calm (spin s), buddy := b'\<rparr>) \<and> bd_rel b' (L - {(k, i)})"
proof -
  from bd_rel_free [OF r x] obtain b' where
    b': "bd_free_locked (baddr (buddy s) k i) (buddy s) = Ok () b'" "bd_rel b' (L - {(k, i)})" by blast
  from locked_buddy_ok [where f = "bd_free_locked (baddr (buddy s) k i)", OF f b'(1)] b'(2) show ?thesis
    by (auto simp: kfree_def bd_free_def)
qed

theorem kfree_page_witness:
  "\<exists>b'. kfree (baddr full_heap 0 5) (idle_mem full_heap) = Ok () ((idle_mem full_heap)\<lparr>spin := calm idle_spin, buddy := b'\<rparr>) \<and>
     bd_rel b' ((\<lambda>i. (0, i)) ` {..<8} - {(0, 5)})"
proof -
  have h: "\<not> is_head full_heap (0, 5)" by (auto simp: is_head_def) presburger
  from kfree_page [of "idle_mem full_heap" "(\<lambda>i. (0, i)) ` {..<8}" 0 5] full_heap_rel h idle_free show ?thesis
    by (simp add: idle_mem_def)
qed

lemma kinit_rel:
  assumes k: "unat KERNBASE \<le> unat kend" "unat (PGROUNDUP kend) + 1024 < unat PHYSTOP"
    and x: "uint PHYSTOP - uint (PGROUNDUP kend) \<noteq> BLK_SIZE (init_nsizes (uint PHYSTOP - uint (PGROUNDUP kend)) - 1)"
    and w: "unat kend < 2 ^ 32"
  shows "\<exists>b m e. kinit kend s = Ok () ((initlk LkBuddy ''buddy'' s)\<lparr>buddy := b\<rparr>) \<and> bd_base b = uint (PGROUNDUP kend) \<and> 4 * m \<le> 2 ^ MAXSIZE b \<and>
    7 \<le> MAXSIZE b \<and> uint PHYSTOP - bd_base b < 16 * 2 ^ MAXSIZE b \<and> 16 * 2 ^ (MAXSIZE b - 1) \<le> uint PHYSTOP - bd_base b \<and>
    4096 dvd bd_base b \<and> bd_base b + 16 * int m = init_meta_end (bd_base b) (nsizes b) \<and>
    int e = (uint PHYSTOP - bd_base b) div 16 \<and> bd_rel b {(0, l) |l. l < 2 ^ MAXSIZE b \<and> (l < m \<or> e \<le> l)}"
proof -
  let ?p = "uint (PGROUNDUP kend)"
  have u: "?p = int (unat (PGROUNDUP kend))" by simp
  have up: "unat (PGROUNDUP kend) = (unat kend + 4095) div 4096 * 4096"
    by (rule unat_PGROUNDUP) (use w in simp)
  have PS: "unat PHYSTOP = 2281701376" "uint PHYSTOP = 2281701376" by (simp_all add: PHYSTOP_def KERNBASE_def)
  have d: "4096 dvd ?p" unfolding u up by simp
  have pos: "2147483648 \<le> ?p"
  proof -
    have "unat (PGROUNDUP kend) < unat kend + 4096 \<and> unat kend \<le> unat (PGROUNDUP kend)" unfolding up by linarith
    moreover have "2147483648 \<le> unat kend" using k(1) by (simp add: KERNBASE_def)
    ultimately show ?thesis unfolding u by linarith
  qed
  have lt: "?p + 1024 < 2281701376" using k(2) unfolding u PS by linarith
  have r: "ROUNDUP_u64 ?p LEAF_SIZE = ?p"
  proof -
    obtain c where c: "?p = 16 * c" using dvd_trans [OF _ d, of 16] by (auto simp: dvd_def)
    have "(16 * c + 15) div 16 = c" by simp
    then show ?thesis using ROUNDUP_u64_16 [of ?p] pos lt unfolding LEAF_SIZE_def c by simp
  qed
  have "\<exists>b m e. bd_init_body ?p (uint PHYSTOP) (bd_heap (buddy s)) = Ok () b \<and> bd_base b = ROUNDUP_u64 ?p LEAF_SIZE \<and>
    bd_base b + 16 * int m = init_meta_end (bd_base b) (nsizes b) \<and> 4 * m \<le> 2 ^ MAXSIZE b \<and>
    7 \<le> MAXSIZE b \<and> uint PHYSTOP - bd_base b < 16 * 2 ^ MAXSIZE b \<and> 16 * 2 ^ (MAXSIZE b - 1) \<le> uint PHYSTOP - bd_base b \<and>
    int e = (uint PHYSTOP - bd_base b) div 16 \<and> bd_rel b {(0, l) |l. l < 2 ^ MAXSIZE b \<and> (l < m \<or> e \<le> l)}"
    by (rule bd_init_body_rel) (use pos lt x in \<open>simp_all add: r PS\<close>)
  then obtain b m e where b: "bd_init_body ?p (uint PHYSTOP) (bd_heap (buddy s)) = Ok () b" "bd_base b = ?p" "4 * m \<le> 2 ^ MAXSIZE b"
    "7 \<le> MAXSIZE b" "uint PHYSTOP - bd_base b < 16 * 2 ^ MAXSIZE b" "16 * 2 ^ (MAXSIZE b - 1) \<le> uint PHYSTOP - bd_base b"
    "bd_base b + 16 * int m = init_meta_end (bd_base b) (nsizes b)" "int e = (uint PHYSTOP - bd_base b) div 16"
    "bd_rel b {(0, l) |l. l < 2 ^ MAXSIZE b \<and> (l < m \<or> e \<le> l)}" unfolding r by blast
  have "kinit kend s = Ok () ((initlk LkBuddy ''buddy'' s)\<lparr>buddy := b\<rparr>)"
    using b(1) by (simp add: kinit_def bd_init_def on_buddy_def liftr_def initlk_def)
  with b d show ?thesis by (intro exI [of _ b] exI [of _ m] exI [of _ e]) simp
qed

text \<open>
  C18. \<open>kinit\<close> sets up the page allocator without panicking wherever the kernel image ends, as long as the memory
  up to \<open>PHYSTOP\<close> is more than 1024 bytes and not exactly a power of two of leaves: the managed memory starts on
  a page boundary, the allocator's invariant holds and all of it but the metadata and the missing tail is free.
\<close>

theorem kinit_ok:
  assumes k: "unat KERNBASE \<le> unat kend" "unat (PGROUNDUP kend) + 1024 < unat PHYSTOP"
    and x: "uint PHYSTOP - uint (PGROUNDUP kend) \<noteq> BLK_SIZE (init_nsizes (uint PHYSTOP - uint (PGROUNDUP kend)) - 1)"
    and w: "unat kend < 2 ^ 32"
  shows "\<exists>b m e. kinit kend s = Ok () ((initlk LkBuddy ''buddy'' s)\<lparr>buddy := b\<rparr>) \<and> bd_base b = uint (PGROUNDUP kend) \<and>
    4096 dvd bd_base b \<and> bd_base b + 16 * int m = init_meta_end (bd_base b) (nsizes b) \<and>
    int e = (uint PHYSTOP - bd_base b) div 16 \<and> bd_rel b {(0, l) |l. l < 2 ^ MAXSIZE b \<and> (l < m \<or> e \<le> l)}"
  using kinit_rel [OF assms, of s] by blast

theorem kinit_ok_witness:
  "\<exists>b m e. kinit 0x80021d60 (idle_mem full_heap) = Ok () ((initlk LkBuddy ''buddy'' (idle_mem full_heap))\<lparr>buddy := b\<rparr>) \<and>
    bd_base b = 0x80022000 \<and> bd_rel b {(0, l) |l. l < 2 ^ MAXSIZE b \<and> (l < m \<or> e \<le> l)}"
proof -
  have p: "PGROUNDUP 0x80021d60 = 0x80022000" by (simp add: PGROUNDUP_def PGSIZE_def)
  have PS: "PHYSTOP = 0x88000000" by (simp add: PHYSTOP_def KERNBASE_def)
  have "init_nsizes 0x7FDE000 = 24" by code_simp
  then have "(0x7FDE000 :: int) \<noteq> BLK_SIZE (init_nsizes 0x7FDE000 - 1)" by (simp add: BLK_SIZE_def LEAF_SIZE_def)
  with kinit_ok [where kend = "0x80021d60" and s = "idle_mem full_heap"] show ?thesis
    by (auto simp: p PS KERNBASE_def)
qed

end
