(* ===== verification/Kstring.thy ===== *)
theory Kstring
  imports Prelude
begin

text \<open>
  The byte and string routines of \<open>kernel/string.c\<close> on a byte memory. Lengths are natural numbers, pointers are
  integers; \<open>memset\<close> indexes with a C \<open>int\<close>.
\<close>

type_synonym bmem = "addr \<Rightarrow> u8"

section \<open>Routines\<close>

fun memset_loop :: "addr \<Rightarrow> u8 \<Rightarrow> nat list \<Rightarrow> bmem \<Rightarrow> bmem" where
  "memset_loop dst c [] m = m"
| "memset_loop dst c (i # is) m = memset_loop dst c is (m(dst + s32 (int i) := c))"

definition memset :: "addr \<Rightarrow> u8 \<Rightarrow> nat \<Rightarrow> bmem \<Rightarrow> bmem" where
  "memset dst c n m = memset_loop dst c [0..<n] m"

fun memcmp :: "addr \<Rightarrow> addr \<Rightarrow> nat \<Rightarrow> bmem \<Rightarrow> int" where
  "memcmp s1 s2 0 m = 0"
| "memcmp s1 s2 (Suc n) m =
     (if m s1 \<noteq> m s2 then uint (m s1) - uint (m s2) else memcmp (s1 + 1) (s2 + 1) n m)"

text \<open>The two copy loops: downwards from the ends, and upwards.\<close>

fun memmove_down :: "addr \<Rightarrow> addr \<Rightarrow> nat \<Rightarrow> bmem \<Rightarrow> bmem" where
  "memmove_down d s 0 m = m"
| "memmove_down d s (Suc n) m = memmove_down (d - 1) (s - 1) n (m(d - 1 := m (s - 1)))"

fun memmove_up :: "addr \<Rightarrow> addr \<Rightarrow> nat \<Rightarrow> bmem \<Rightarrow> bmem" where
  "memmove_up d s 0 m = m"
| "memmove_up d s (Suc n) m = memmove_up (d + 1) (s + 1) n (m(d := m s))"

definition memmove :: "addr \<Rightarrow> addr \<Rightarrow> nat \<Rightarrow> bmem \<Rightarrow> bmem" where
  "memmove dst src n m =
     (if n = 0 then m
      else if src < dst \<and> src + int n > dst then memmove_down (dst + int n) (src + int n) n m
      else memmove_up dst src n m)"

definition memcpy :: "addr \<Rightarrow> addr \<Rightarrow> nat \<Rightarrow> bmem \<Rightarrow> bmem" where
  "memcpy dst src n m = memmove dst src n m"

fun strncmp :: "addr \<Rightarrow> addr \<Rightarrow> nat \<Rightarrow> bmem \<Rightarrow> int" where
  "strncmp p q 0 m = 0"
| "strncmp p q (Suc n) m =
     (if m p \<noteq> 0 \<and> m p = m q then strncmp (p + 1) (q + 1) n m else uint (m p) - uint (m q))"

fun zero_fill :: "addr \<Rightarrow> nat \<Rightarrow> bmem \<Rightarrow> bmem" where
  "zero_fill s 0 m = m"
| "zero_fill s (Suc n) m = zero_fill (s + 1) n (m(s := 0))"

fun strncpy_loop :: "addr \<Rightarrow> addr \<Rightarrow> nat \<Rightarrow> bmem \<Rightarrow> bmem" where
  "strncpy_loop s t 0 m = m"
| "strncpy_loop s t (Suc n) m =
     (let m' = m(s := m t) in
      if m t \<noteq> 0 then strncpy_loop (s + 1) (t + 1) n m' else zero_fill (s + 1) n m')"

definition strncpy :: "addr \<Rightarrow> addr \<Rightarrow> int \<Rightarrow> bmem \<Rightarrow> bmem" where
  "strncpy s t n m = strncpy_loop s t (nat n) m"

fun safestrcpy_loop :: "addr \<Rightarrow> addr \<Rightarrow> nat \<Rightarrow> bmem \<Rightarrow> bmem" where
  "safestrcpy_loop s t 0 m = m(s := 0)"
| "safestrcpy_loop s t (Suc n) m =
     (let m' = m(s := m t) in
      if m t \<noteq> 0 then safestrcpy_loop (s + 1) (t + 1) n m' else m'(s + 1 := 0))"

definition safestrcpy :: "addr \<Rightarrow> addr \<Rightarrow> int \<Rightarrow> bmem \<Rightarrow> bmem" where
  "safestrcpy s t n m = (if n \<le> 0 then m else safestrcpy_loop s t (nat (n - 1)) m)"

partial_function (option) strlen_from :: "addr \<Rightarrow> nat \<Rightarrow> bmem \<Rightarrow> nat option" where
  "strlen_from s n m = (if m (s + int n) \<noteq> 0 then strlen_from s (n + 1) m else Some n)"

declare strlen_from.simps [code]

definition strlen :: "addr \<Rightarrow> bmem \<Rightarrow> nat option" where
  "strlen s m = strlen_from s 0 m"

section \<open>What they compute\<close>

lemma memset_loop_eq:
  assumes "\<And>i. i \<in> set is \<Longrightarrow> i < 2 ^ 31"
  shows "memset_loop dst c is m a = (if \<exists>i \<in> set is. a = dst + int i then c else m a)"
  using assms
proof (induction "is" arbitrary: m)
  case (Cons i "is")
  have "s32 (int i) = int i" using Cons.prems [of i] by (intro s32_nonneg) simp_all
  with Cons show ?case by auto
qed simp

lemma memset_eq:
  assumes "n \<le> 2 ^ 31"
  shows "memset dst c n m a = (if dst \<le> a \<and> a < dst + int n then c else m a)"
proof -
  have "(\<exists>i \<in> set [0..<n]. a = dst + int i) \<longleftrightarrow> dst \<le> a \<and> a < dst + int n"
  proof
    assume "dst \<le> a \<and> a < dst + int n"
    then have "nat (a - dst) \<in> set [0..<n]" "a = dst + int (nat (a - dst))" by auto
    then show "\<exists>i \<in> set [0..<n]. a = dst + int i" by blast
  qed auto
  then show ?thesis using memset_loop_eq [of "[0..<n]" dst c m a] assms by (simp add: memset_def)
qed

lemma memmove_down_eq:
  "s < d \<Longrightarrow> memmove_down d s n m a = (if d - int n \<le> a \<and> a < d then m (s + (a - d)) else m a)"
proof (induction n arbitrary: d s m)
  case (Suc n)
  then show ?case by (auto simp: Suc.IH)
qed auto

lemma memmove_up_eq:
  "\<not> (s < d \<and> d < s + int n) \<Longrightarrow>
    memmove_up d s n m a = (if d \<le> a \<and> a < d + int n then m (s + (a - d)) else m a)"
proof (induction n arbitrary: d s m)
  case (Suc n)
  then have "\<not> (s + 1 < d + 1 \<and> d + 1 < s + 1 + int n)" by auto
  from Suc.IH [OF this] Suc.prems show ?case by auto
qed auto

lemma memmove_eq:
  "memmove dst src n m a = (if dst \<le> a \<and> a < dst + int n then m (src + (a - dst)) else m a)"
  by (auto simp: memmove_def memmove_down_eq memmove_up_eq)

lemma strncmp_eq_0:
  "strncmp p q n m = 0 \<longleftrightarrow> (\<forall>i < n. (\<forall>j < i. m (p + int j) \<noteq> 0) \<longrightarrow> m (p + int i) = m (q + int i))"
proof (induction n arbitrary: p q)
  case (Suc n)
  show ?case
  proof (cases "m p \<noteq> 0 \<and> m p = m q")
    case True
    have "(\<forall>i < Suc n. (\<forall>j < i. m (p + int j) \<noteq> 0) \<longrightarrow> m (p + int i) = m (q + int i)) \<longleftrightarrow>
        (\<forall>i < n. (\<forall>j < i. m (p + 1 + int j) \<noteq> 0) \<longrightarrow> m (p + 1 + int i) = m (q + 1 + int i))"
      using True by (auto simp: All_less_Suc2 algebra_simps)
    moreover have "strncmp p q (Suc n) m = strncmp (p + 1) (q + 1) n m" by (simp only: strncmp.simps if_P [OF True])
    ultimately show ?thesis using Suc.IH [of "p + 1" "q + 1"] by (simp only:)
  next
    case False
    show ?thesis
    proof (cases "m p = m q")
      case True
      with False have "m p = 0" "m q = 0" by auto
      then show ?thesis by (auto simp: All_less_Suc2)
    next
      case ne: False
      then have "uint (m p) \<noteq> uint (m q)" by (simp add: word_uint_eq_iff)
      with ne False show ?thesis by (auto intro!: exI [of _ 0])
    qed
  qed
qed simp

lemma zero_fill_eq: "zero_fill s n m a = (if s \<le> a \<and> a < s + int n then 0 else m a)"
  by (induction n arbitrary: s m) auto

lemma strncpy_loop_eq:
  assumes "\<And>i j. i < n \<Longrightarrow> j < n \<Longrightarrow> s + int i \<noteq> t + int j"
  shows "strncpy_loop s t n m a = (if s \<le> a \<and> a < s + int n
    then if \<forall>j < nat (a - s). m (t + int j) \<noteq> 0 then m (t + (a - s)) else 0 else m a)"
  using assms
proof (induction n arbitrary: s t m a)
  case (Suc n)
  have ne: "s \<noteq> t + int j" if "j < Suc n" for j using Suc.prems [of 0 j] that by simp
  have IH: "strncpy_loop (s + 1) (t + 1) n m' x = (if s + 1 \<le> x \<and> x < s + 1 + int n
      then if \<forall>j < nat (x - (s + 1)). m' (t + 1 + int j) \<noteq> 0 then m' (t + 1 + (x - (s + 1))) else 0 else m' x)" for m' x
    by (rule Suc.IH) (use Suc.prems [of "Suc _" "Suc _"] in \<open>auto simp: algebra_simps\<close>)
  show ?case
  proof (cases "s \<le> a \<and> a < s + int (Suc n)")
    case False
    then show ?thesis by (auto simp: IH zero_fill_eq Let_def)
  next
    case True
    then obtain d where d: "a = s + int d" "d < Suc n" by (metis zle_iff_zadd nat_int_comparison(2) add_less_cancel_left)
    show ?thesis
    proof (cases d)
      case 0
      with d show ?thesis by (auto simp: IH zero_fill_eq Let_def)
    next
      case (Suc e)
      have all: "(\<forall>j < Suc e. m (t + int j) \<noteq> 0) \<longleftrightarrow> m t \<noteq> 0 \<and> (\<forall>j < e. m (t + 1 + int j) \<noteq> 0)"
        by (auto simp: All_less_Suc2 algebra_simps)
      have keep: "(m(s := m t)) (t + 1 + int j) = m (t + 1 + int j)" if "j \<le> e" for j
        using ne [of "Suc j"] that d Suc by (auto simp: algebra_simps)
      have a: "a = s + 1 + int e" and n: "nat (a - s) = Suc e" and o: "a - s = 1 + int e" using d Suc by simp_all
      have c1: "s + 1 \<le> a \<and> a < s + 1 + int n" and c2: "nat (a - (s + 1)) = e"
        and c3: "t + 1 + (a - (s + 1)) = t + 1 + int e" using a d Suc by simp_all
      have "strncpy_loop (s + 1) (t + 1) n (m(s := m t)) a =
          (if \<forall>j < e. (m(s := m t)) (t + 1 + int j) \<noteq> 0 then (m(s := m t)) (t + 1 + int e) else 0)"
        by (simp only: IH if_P [OF c1] c2 c3)
      also have "\<dots> = (if \<forall>j < e. m (t + 1 + int j) \<noteq> 0 then m (t + 1 + int e) else 0)"
        using keep by (auto simp del: fun_upd_apply)
      finally have v: "strncpy_loop (s + 1) (t + 1) n (m(s := m t)) a =
          (if \<forall>j < e. m (t + 1 + int j) \<noteq> 0 then m (t + 1 + int e) else 0)" .
      have z: "zero_fill (s + 1) n (m(s := m t)) a = 0" by (simp only: zero_fill_eq if_P [OF c1])
      have "strncpy_loop s t (Suc n) m a = (if m t \<noteq> 0 then strncpy_loop (s + 1) (t + 1) n (m(s := m t)) a
          else zero_fill (s + 1) n (m(s := m t)) a)" by (simp add: Let_def)
      also have "\<dots> = (if m t \<noteq> 0 \<and> (\<forall>j < e. m (t + 1 + int j) \<noteq> 0) then m (t + (1 + int e)) else 0)"
        unfolding v z by (auto simp: add.assoc)
      finally show ?thesis unfolding if_P [OF True] n all unfolding o .
    qed
  qed
qed auto

lemma safestrcpy_loop_eq:
  assumes "\<And>i j. i \<le> n \<Longrightarrow> j \<le> n \<Longrightarrow> s + int i \<noteq> t + int j"
  shows "\<exists>k \<le> n. safestrcpy_loop s t n m (s + int k) = 0 \<and>
    (\<forall>i < k. safestrcpy_loop s t n m (s + int i) = m (t + int i) \<and> m (t + int i) \<noteq> 0) \<and>
    (k < n \<longrightarrow> m (t + int k) = 0) \<and>
    (\<forall>a. a < s \<or> s + int n < a \<longrightarrow> safestrcpy_loop s t n m a = m a)"
  using assms
proof (induction n arbitrary: s t m)
  case (Suc n)
  have ne: "s \<noteq> t + int j" if "j \<le> Suc n" for j using Suc.prems [of 0 j] that by simp
  show ?case
  proof (cases "m t = 0")
    case True
    then show ?thesis by (intro exI [of _ 0]) (auto simp: Let_def)
  next
    case False
    let ?m = "m(s := m t)"
    have "\<And>i j. i \<le> n \<Longrightarrow> j \<le> n \<Longrightarrow> s + 1 + int i \<noteq> t + 1 + int j"
      using Suc.prems [of "Suc _" "Suc _"] by (auto simp: algebra_simps)
    from Suc.IH [OF this, of ?m] obtain k where k: "k \<le> n"
      "safestrcpy_loop (s + 1) (t + 1) n ?m (s + 1 + int k) = 0"
      "\<And>i. i < k \<Longrightarrow> safestrcpy_loop (s + 1) (t + 1) n ?m (s + 1 + int i) = ?m (t + 1 + int i) \<and> ?m (t + 1 + int i) \<noteq> 0"
      "k < n \<Longrightarrow> ?m (t + 1 + int k) = 0"
      "\<And>a. a < s + 1 \<or> s + 1 + int n < a \<Longrightarrow> safestrcpy_loop (s + 1) (t + 1) n ?m a = ?m a" by blast
    have L: "safestrcpy_loop s t (Suc n) m = safestrcpy_loop (s + 1) (t + 1) n ?m"
      using False by (simp add: Let_def fun_eq_iff)
    have keep: "?m (t + 1 + int j) = m (t + 1 + int j)" if "j \<le> n" for j
      using ne [of "Suc j"] that by (auto simp: algebra_simps)
    have "safestrcpy_loop s t (Suc n) m (s + int i) = m (t + int i) \<and> m (t + int i) \<noteq> 0" if "i < Suc k" for i
    proof (cases i)
      case 0
      then show ?thesis using k(5) [of s] False unfolding L by simp
    next
      case (Suc j)
      with that k(1) k(3) [of j] keep [of j] show ?thesis unfolding L by (simp add: algebra_simps del: fun_upd_apply)
    qed
    moreover have "Suc k < Suc n \<Longrightarrow> m (t + int (Suc k)) = 0" using k(4) keep [of k] by (simp add: algebra_simps del: fun_upd_apply)
    moreover have "safestrcpy_loop s t (Suc n) m a = m a" if "a < s \<or> s + int (Suc n) < a" for a
      using k(5) [of a] that unfolding L by auto
    moreover have "safestrcpy_loop s t (Suc n) m (s + int (Suc k)) = 0" using k(2) unfolding L by (simp add: algebra_simps)
    ultimately show ?thesis using k(1) by (intro exI [of _ "Suc k"]) auto
  qed
qed auto

section \<open>Properties\<close>

text \<open>
  C19. \<open>memmove\<close> copies correctly for all overlaps of the two ranges: every byte of the destination range holds what
  the corresponding source byte held before the call, and no other byte changes. (\<open>memcpy\<close> is the same routine.)
\<close>

theorem memmove_correct:
  "memmove dst src n m a = (if dst \<le> a \<and> a < dst + int n then m (src + (a - dst)) else m a) \<and>
   memcpy dst src n m = memmove dst src n m"
  by (simp add: memmove_eq memcpy_def fun_eq_iff)

text \<open>
  C20. \<open>safestrcpy\<close> with a positive bound and ranges that do not overlap always leaves a terminated string of at
  most \<open>n\<close> bytes: the longest prefix of the source string that fits, then a zero; nothing outside the \<open>n\<close> bytes
  is written.
\<close>

theorem safestrcpy_terminates_string:
  assumes n: "0 < n" and d: "\<And>i j. i < nat n \<Longrightarrow> j < nat n \<Longrightarrow> s + int i \<noteq> t + int j"
  shows "\<exists>k < nat n. safestrcpy s t n m (s + int k) = 0 \<and>
    (\<forall>i < k. safestrcpy s t n m (s + int i) = m (t + int i) \<and> m (t + int i) \<noteq> 0) \<and>
    (k < nat n - 1 \<longrightarrow> m (t + int k) = 0) \<and>
    (\<forall>a. a < s \<or> s + n \<le> a \<longrightarrow> safestrcpy s t n m a = m a)"
proof -
  have e: "safestrcpy s t n m = safestrcpy_loop s t (nat (n - 1)) m" using n by (simp add: safestrcpy_def)
  have N: "nat (n - 1) = nat n - 1" "int (nat n - 1) = n - 1" using n by simp_all
  have "\<And>i j. i \<le> nat n - 1 \<Longrightarrow> j \<le> nat n - 1 \<Longrightarrow> s + int i \<noteq> t + int j" using d n by simp
  from safestrcpy_loop_eq [where m = m, OF this] obtain k where k: "k \<le> nat n - 1"
    "safestrcpy s t n m (s + int k) = 0"
    "\<forall>i < k. safestrcpy s t n m (s + int i) = m (t + int i) \<and> m (t + int i) \<noteq> 0"
    "k < nat n - 1 \<longrightarrow> m (t + int k) = 0"
    "\<forall>a. a < s \<or> s + int (nat n - 1) < a \<longrightarrow> safestrcpy s t n m a = m a"
    unfolding e N(1) by blast
  from k(1) n have "k < nat n" by simp
  with k n show ?thesis unfolding N(2) by auto
qed

theorem safestrcpy_terminates_string_witness:
  "\<exists>k < nat 4. safestrcpy 0 100 4 (\<lambda>a. if a = 102 then 0 else 65) (0 + int k) = 0"
  using safestrcpy_terminates_string [where n = 4 and s = 0 and t = 100 and m = "\<lambda>a. if a = 102 then 0 else 65"]
  by auto

text \<open>
  C21. \<open>strncmp\<close> returns 0 exactly when the two strings agree on their first \<open>n\<close> bytes up to the end of the string.
\<close>

theorem strncmp_zero_iff:
  "strncmp p q n m = 0 \<longleftrightarrow>
    \<not> (\<exists>i < n. (\<forall>j < i. m (p + int j) \<noteq> 0) \<and> m (p + int i) \<noteq> m (q + int i))"
  unfolding strncmp_eq_0 by blast

theorem strncmp_zero_iff_witness:
  "strncmp 0 100 5 (\<lambda>a. if a = 2 \<or> a = 102 then 0 else 65) = 0"
  using strncmp_zero_iff [where p = 0 and q = 100 and n = 5 and m = "\<lambda>a. if a = 2 \<or> a = 102 then 0 else 65"]
  by (auto dest: spec [where x = 2])

text \<open>
  C22. \<open>strncpy\<close> on ranges that do not overlap fills all \<open>n\<close> bytes: the source string up to its first zero byte, then
  zeros; nothing else changes.
\<close>

theorem strncpy_correct:
  assumes "\<And>i j. i < nat n \<Longrightarrow> j < nat n \<Longrightarrow> s + int i \<noteq> t + int j"
  shows "strncpy s t n m a = (if s \<le> a \<and> a < s + n
    then if \<exists>j < nat (a - s). m (t + int j) = 0 then 0 else m (t + (a - s)) else m a)"
proof (cases "0 \<le> n")
  case True
  then show ?thesis using strncpy_loop_eq [where n = "nat n" and s = s and t = t, OF assms] by (auto simp: strncpy_def)
next
  case False
  then have "strncpy s t n m a = m a" "\<not> (s \<le> a \<and> a < s + n)" by (auto simp: strncpy_def)
  then show ?thesis by (simp only: if_False)
qed

theorem strncpy_correct_witness:
  "strncpy 0 100 4 (\<lambda>a. if a = 102 then 0 else 65) 1 = 65 \<and> strncpy 0 100 4 (\<lambda>a. if a = 102 then 0 else 65) 3 = 0"
proof -
  have d: "\<And>i j. i < nat 4 \<Longrightarrow> j < nat 4 \<Longrightarrow> (0::int) + int i \<noteq> 100 + int j" by simp
  have "\<exists>j < 3. 100 + int j = 102" by (rule exI [of _ 2]) simp
  then show ?thesis
    using strncpy_correct [where n = 4 and s = 0 and t = 100, OF d, of "\<lambda>a. if a = 102 then 0 else 65" 1]
      strncpy_correct [where n = 4 and s = 0 and t = 100, OF d, of "\<lambda>a. if a = 102 then 0 else 65" 3] by auto
qed

end
