(* ===== verification/Vm.thy ===== *)
theory Vm
  imports Kalloc Kstring
begin

text \<open>
  Page tables and user memory, \<open>kernel/vm.c\<close>. Physical memory is seen through two typed views: the 64-bit words of
  page-table pages (\<open>ptes\<close>, by address) and the bytes of data pages (\<open>bytes\<close>). The linker's symbols \<open>etext\<close> and
  \<open>trampoline\<close> are parameters. Kernel objects that \<open>copyout\<close> reads and \<open>copyin\<close> writes are byte lists:
  \<open>copyin\<close> returns its status with the bytes it has stored at \<open>dst\<close> so far. Loops over pages carry a counter
  that bounds them; where it ran out the outcome is \<open>Diverge\<close>.
\<close>

record kvm = kmem +
  ptes :: "addr \<Rightarrow> u64"
  bytes :: bmem
  kernel_pagetable :: addr
  satp :: "nat \<Rightarrow> u64"

section \<open>Walking a page table\<close>

text \<open>\<open>memset(pagetable, 0, PGSIZE)\<close> on the word view.\<close>

definition clear_table :: "addr \<Rightarrow> 'z kvm_scheme \<Rightarrow> 'z kvm_scheme" where
  "clear_table pg s = s\<lparr>ptes := (\<lambda>a. if pg \<le> a \<and> a < pg + 4096 then 0 else ptes s a)\<rparr>"

definition set_pte :: "addr \<Rightarrow> u64 \<Rightarrow> 'z kvm_scheme \<Rightarrow> 'z kvm_scheme" where
  "set_pte a v s = s\<lparr>ptes := (ptes s)(a := v)\<rparr>"

definition pte_at :: "addr \<Rightarrow> nat \<Rightarrow> u64 \<Rightarrow> addr" where
  "pte_at pt level va = pt + 8 * uint (PX level va)"

definition has :: "u64 \<Rightarrow> u64 \<Rightarrow> bool" where
  "has pte fl \<longleftrightarrow> (pte AND fl) \<noteq> 0"

fun walk_levels :: "nat \<Rightarrow> addr \<Rightarrow> u64 \<Rightarrow> bool \<Rightarrow> 'z kvm_scheme \<Rightarrow> ('z kvm_scheme, addr) res" where
  "walk_levels 0 pt va alloc s = Ok (pte_at pt 0 va) s"
| "walk_levels (Suc l) pt va alloc s =
     (let pte = pte_at pt (Suc l) va in
      if has (ptes s pte) PTE_V then walk_levels l (uint (PTE2PA (ptes s pte))) va alloc s
      else if \<not> alloc then Ok 0 s
      else bindr (kalloc s) (\<lambda>pt s.
           if pt = 0 then Ok 0 s
           else walk_levels l pt va alloc (set_pte pte (PA2PTE (word_of_int pt) OR PTE_V) (clear_table pt s))))"

definition walk :: "addr \<Rightarrow> u64 \<Rightarrow> bool \<Rightarrow> 'z kvm_scheme \<Rightarrow> ('z kvm_scheme, addr) res" where
  "walk pt va alloc s = (if va \<ge> MAXVA then Panic ''walk'' else walk_levels 2 pt va alloc s)"

definition walkaddr :: "addr \<Rightarrow> u64 \<Rightarrow> 'z kvm_scheme \<Rightarrow> ('z kvm_scheme, u64) res" where
  "walkaddr pt va s =
     (if va \<ge> MAXVA then Ok 0 s
      else bindr (walk pt va False s) (\<lambda>pte s.
           if pte = 0 then Ok 0 s
           else if \<not> has (ptes s pte) PTE_V then Ok 0 s
           else if \<not> has (ptes s pte) PTE_U then Ok 0 s
           else Ok (PTE2PA (ptes s pte)) s))"

section \<open>Mapping and unmapping\<close>

fun mappages_loop :: "nat \<Rightarrow> addr \<Rightarrow> u64 \<Rightarrow> u64 \<Rightarrow> u64 \<Rightarrow> u64 \<Rightarrow> 'z kvm_scheme \<Rightarrow> ('z kvm_scheme, int) res" where
  "mappages_loop 0 pt a end pa perm s = Diverge"
| "mappages_loop (Suc n) pt a end pa perm s =
     bindr (walk pt a True s) (\<lambda>pte s.
     if pte = 0 then Ok (- 1) s
     else if has (ptes s pte) PTE_V then Panic ''mappages: remap''
     else let s = set_pte pte (PA2PTE pa OR perm OR PTE_V) s in
          if a = end then Ok 0 s else mappages_loop n pt (a + PGSIZE) end (pa + PGSIZE) perm s)"

definition mappages :: "addr \<Rightarrow> u64 \<Rightarrow> u64 \<Rightarrow> u64 \<Rightarrow> u64 \<Rightarrow> 'z kvm_scheme \<Rightarrow> ('z kvm_scheme, int) res" where
  "mappages pt va sz pa perm s =
     (if va mod PGSIZE \<noteq> 0 then Panic ''mappages: va not aligned''
      else if sz mod PGSIZE \<noteq> 0 then Panic ''mappages: size not aligned''
      else if sz = 0 then Panic ''mappages: size''
      else mappages_loop (unat (sz div PGSIZE)) pt va (va + sz - PGSIZE) pa perm s)"

definition kvmmap :: "addr \<Rightarrow> u64 \<Rightarrow> u64 \<Rightarrow> u64 \<Rightarrow> u64 \<Rightarrow> 'z kvm_scheme \<Rightarrow> ('z kvm_scheme, unit) res" where
  "kvmmap kpgtbl va pa sz perm s =
     bindr (mappages kpgtbl va sz pa perm s) (\<lambda>r s. if r \<noteq> 0 then Panic ''kvmmap'' else Ok () s)"

fun uvmunmap_loop :: "nat \<Rightarrow> addr \<Rightarrow> u64 \<Rightarrow> u64 \<Rightarrow> bool \<Rightarrow> 'z kvm_scheme \<Rightarrow> ('z kvm_scheme, unit) res" where
  "uvmunmap_loop 0 pt a lim do_free s = (if a < lim then Diverge else Ok () s)"
| "uvmunmap_loop (Suc n) pt a lim do_free s =
     (if a < lim
      then bindr (walk pt a False s) (\<lambda>pte s.
           if pte = 0 then Panic ''uvmunmap: walk''
           else if \<not> has (ptes s pte) PTE_V then Panic ''uvmunmap: not mapped''
           else if PTE_FLAGS (ptes s pte) = PTE_V then Panic ''uvmunmap: not a leaf''
           else bindr (if do_free then kfree (uint (PTE2PA (ptes s pte))) s else Ok () s) (\<lambda>_ s.
                uvmunmap_loop n pt (a + PGSIZE) lim do_free (set_pte pte 0 s)))
      else Ok () s)"

definition uvmunmap :: "addr \<Rightarrow> u64 \<Rightarrow> u64 \<Rightarrow> bool \<Rightarrow> 'z kvm_scheme \<Rightarrow> ('z kvm_scheme, unit) res" where
  "uvmunmap pt va npages do_free s =
     (if va mod PGSIZE \<noteq> 0 then Panic ''uvmunmap: not aligned''
      else uvmunmap_loop (unat npages) pt va (va + npages * PGSIZE) do_free s)"

definition uvmcreate :: "'z kvm_scheme \<Rightarrow> ('z kvm_scheme, addr) res" where
  "uvmcreate s = bindr (kalloc s) (\<lambda>pt s. if pt = 0 then Ok 0 s else Ok pt (clear_table pt s))"

definition on_bytes :: "(bmem \<Rightarrow> bmem) \<Rightarrow> 'z kvm_scheme \<Rightarrow> 'z kvm_scheme" where
  "on_bytes f s = s\<lparr>bytes := f (bytes s)\<rparr>"

definition put_bytes :: "addr \<Rightarrow> u8 list \<Rightarrow> bmem \<Rightarrow> bmem" where
  "put_bytes a xs m = (\<lambda>x. if a \<le> x \<and> x < a + int (length xs) then xs ! nat (x - a) else m x)"

definition uvmfirst :: "addr \<Rightarrow> u8 list \<Rightarrow> 'z kvm_scheme \<Rightarrow> ('z kvm_scheme, unit) res" where
  "uvmfirst pt src s =
     (if of_nat (length src) \<ge> PGSIZE then Panic ''uvmfirst: more than a page''
      else bindr (kalloc s) (\<lambda>mem s.
           if mem = 0 then Fault ''uvmfirst''
           else bindr (mappages pt 0 PGSIZE (word_of_int mem) (PTE_W OR PTE_R OR PTE_X OR PTE_U)
                   (on_bytes (memset mem 0 4096) s)) (\<lambda>_ s.
                Ok () (on_bytes (put_bytes mem src) s))))"

section \<open>Growing and shrinking user memory\<close>

definition uvmdealloc :: "addr \<Rightarrow> u64 \<Rightarrow> u64 \<Rightarrow> 'z kvm_scheme \<Rightarrow> ('z kvm_scheme, u64) res" where
  "uvmdealloc pt oldsz newsz s =
     (if newsz \<ge> oldsz then Ok oldsz s
      else bindr (if PGROUNDUP newsz < PGROUNDUP oldsz
                  then let npages = s32 (uint ((PGROUNDUP oldsz - PGROUNDUP newsz) div PGSIZE)) in
                       uvmunmap pt (PGROUNDUP newsz) (word_of_int npages) True s
                  else Ok () s) (\<lambda>_ s. Ok newsz s))"

fun uvmalloc_loop :: "nat \<Rightarrow> addr \<Rightarrow> u64 \<Rightarrow> u64 \<Rightarrow> u64 \<Rightarrow> u64 \<Rightarrow> 'z kvm_scheme \<Rightarrow> ('z kvm_scheme, u64) res" where
  "uvmalloc_loop 0 pt a oldsz newsz xperm s = (if a < newsz then Diverge else Ok newsz s)"
| "uvmalloc_loop (Suc n) pt a oldsz newsz xperm s =
     (if a < newsz
      then bindr (kalloc s) (\<lambda>mem s.
           if mem = 0 then bindr (uvmdealloc pt a oldsz s) (\<lambda>_ s. Ok 0 s)
           else bindr (mappages pt a PGSIZE (word_of_int mem) (PTE_R OR PTE_U OR xperm)
                   (on_bytes (memset mem 0 4096) s)) (\<lambda>r s.
                if r \<noteq> 0
                then bindr (kfree mem s) (\<lambda>_ s. bindr (uvmdealloc pt a oldsz s) (\<lambda>_ s. Ok 0 s))
                else uvmalloc_loop n pt (a + PGSIZE) oldsz newsz xperm s))
      else Ok newsz s)"

definition uvmalloc :: "addr \<Rightarrow> u64 \<Rightarrow> u64 \<Rightarrow> u64 \<Rightarrow> 'z kvm_scheme \<Rightarrow> ('z kvm_scheme, u64) res" where
  "uvmalloc pt oldsz newsz xperm s =
     (if newsz < oldsz then Ok oldsz s
      else let oldsz = PGROUNDUP oldsz in
           uvmalloc_loop (unat newsz div 4096 + 1) pt oldsz oldsz newsz xperm s)"

text \<open>
  \<open>freewalk\<close> recurses into lower-level tables; \<open>d\<close> is the number of levels left. A page table has three, so
  \<open>uvmfree\<close> starts with three; a deeper recursion would be through a malformed table.
\<close>

fun freewalk :: "nat \<Rightarrow> addr \<Rightarrow> 'z kvm_scheme \<Rightarrow> ('z kvm_scheme, unit) res"
  and freewalk_entries :: "nat \<Rightarrow> addr \<Rightarrow> nat list \<Rightarrow> 'z kvm_scheme \<Rightarrow> ('z kvm_scheme, unit) res" where
  "freewalk 0 pt s = Fault ''freewalk depth''"
| "freewalk (Suc d) pt s = bindr (freewalk_entries d pt [0..<512] s) (\<lambda>_ s. kfree pt s)"
| "freewalk_entries d pt [] s = Ok () s"
| "freewalk_entries d pt (i # is) s =
     (let pte = ptes s (pt + 8 * int i) in
      if has pte PTE_V \<and> \<not> has pte (PTE_R OR PTE_W OR PTE_X)
      then bindr (freewalk d (uint (PTE2PA pte)) s) (\<lambda>_ s.
           freewalk_entries d pt is (set_pte (pt + 8 * int i) 0 s))
      else if has pte PTE_V then Panic ''freewalk: leaf''
      else freewalk_entries d pt is s)"

definition uvmfree :: "addr \<Rightarrow> u64 \<Rightarrow> 'z kvm_scheme \<Rightarrow> ('z kvm_scheme, unit) res" where
  "uvmfree pt sz s =
     bindr (if sz > 0 then uvmunmap pt 0 (PGROUNDUP sz div PGSIZE) True s else Ok () s) (\<lambda>_ s.
     freewalk 3 pt s)"

fun uvmcopy_loop :: "nat \<Rightarrow> addr \<Rightarrow> addr \<Rightarrow> u64 \<Rightarrow> u64 \<Rightarrow> 'z kvm_scheme \<Rightarrow> ('z kvm_scheme, int) res" where
  "uvmcopy_loop 0 old new i sz s = (if i < sz then Diverge else Ok 0 s)"
| "uvmcopy_loop (Suc n) old new i sz s =
     (if i < sz
      then bindr (walk old i False s) (\<lambda>pte s.
           if pte = 0 then Panic ''uvmcopy: pte should exist''
           else if \<not> has (ptes s pte) PTE_V then Panic ''uvmcopy: page not present''
           else let pa = PTE2PA (ptes s pte); flags = PTE_FLAGS (ptes s pte) in
                bindr (kalloc s) (\<lambda>mem s.
                if mem = 0 then bindr (uvmunmap new 0 (i div PGSIZE) True s) (\<lambda>_ s. Ok (- 1) s)
                else bindr (mappages new i PGSIZE (word_of_int mem) flags
                        (on_bytes (memmove mem (uint pa) 4096) s)) (\<lambda>r s.
                     if r \<noteq> 0
                     then bindr (kfree mem s) (\<lambda>_ s. bindr (uvmunmap new 0 (i div PGSIZE) True s) (\<lambda>_ s. Ok (- 1) s))
                     else uvmcopy_loop n old new (i + PGSIZE) sz s)))
      else Ok 0 s)"

definition uvmcopy :: "addr \<Rightarrow> addr \<Rightarrow> u64 \<Rightarrow> 'z kvm_scheme \<Rightarrow> ('z kvm_scheme, int) res" where
  "uvmcopy old new sz s = uvmcopy_loop (unat sz div 4096 + 1) old new 0 sz s"

definition uvmclear :: "addr \<Rightarrow> u64 \<Rightarrow> 'z kvm_scheme \<Rightarrow> ('z kvm_scheme, unit) res" where
  "uvmclear pt va s =
     bindr (walk pt va False s) (\<lambda>pte s.
     if pte = 0 then Panic ''uvmclear'' else Ok () (set_pte pte (ptes s pte AND NOT PTE_U) s))"

section \<open>Copying between kernel and user memory\<close>

definition get_bytes :: "addr \<Rightarrow> nat \<Rightarrow> bmem \<Rightarrow> u8 list" where
  "get_bytes a n m = map (\<lambda>i. m (a + int i)) [0..<n]"

text \<open>The bytes of a page from \<open>va\<close> on, at most \<open>len\<close>: never 0 when \<open>len\<close> is not.\<close>

definition page_rest :: "u64 \<Rightarrow> nat \<Rightarrow> nat" where
  "page_rest va len = (let n = unat (PGSIZE - (va - PGROUNDDOWN va)) in if n > len then len else n)"

lemma page_rest_pos: "0 < len \<Longrightarrow> 0 < page_rest va len"
proof -
  assume "0 < len"
  have "unat (PGROUNDDOWN va) \<le> unat va" unfolding unat_PGROUNDDOWN by (rule div_times_less_eq_dividend)
  then have "unat (va - PGROUNDDOWN va) = unat va - unat (PGROUNDDOWN va)"
    by (simp add: unat_sub_if_size word_size)
  also have "\<dots> = unat va mod 4096" unfolding unat_PGROUNDDOWN by (simp add: minus_div_mult_eq_mod)
  finally have o: "unat (va - PGROUNDDOWN va) < 4096" by simp
  then have "unat (PGSIZE - (va - PGROUNDDOWN va)) = 4096 - unat (va - PGROUNDDOWN va)"
    by (simp add: unat_sub_if_size word_size PGSIZE_def)
  with o \<open>0 < len\<close> show ?thesis by (simp add: page_rest_def Let_def)
qed

lemma page_rest_le: "page_rest va len \<le> len"
  by (simp add: page_rest_def Let_def)

function copyout :: "addr \<Rightarrow> u64 \<Rightarrow> u8 list \<Rightarrow> 'z kvm_scheme \<Rightarrow> ('z kvm_scheme, int) res" where
  "copyout pt dstva src s =
     (if src = [] then Ok 0 s
      else let va0 = PGROUNDDOWN dstva in
           if va0 \<ge> MAXVA then Ok (- 1) s
           else bindr (walk pt va0 False s) (\<lambda>pte s.
                if pte = 0 \<or> \<not> has (ptes s pte) PTE_V \<or> \<not> has (ptes s pte) PTE_U \<or> \<not> has (ptes s pte) PTE_W
                then Ok (- 1) s
                else let pa0 = PTE2PA (ptes s pte); n = page_rest dstva (length src) in
                     copyout pt (va0 + PGSIZE) (drop n src)
                       (on_bytes (put_bytes (uint (pa0 + (dstva - va0))) (take n src)) s)))"
  by pat_completeness auto
termination
  by (relation "measure (\<lambda>(pt, dstva, src, s). length src)") (auto simp: page_rest_pos)

declare copyout.simps [simp del]

function copyin :: "addr \<Rightarrow> u64 \<Rightarrow> nat \<Rightarrow> u8 list \<Rightarrow> 'z kvm_scheme \<Rightarrow> ('z kvm_scheme, int \<times> u8 list) res" where
  "copyin pt srcva len dst s =
     (if len = 0 then Ok (0, dst) s
      else let va0 = PGROUNDDOWN srcva in
           bindr (walkaddr pt va0 s) (\<lambda>pa0 s.
           if pa0 = 0 then Ok (- 1, dst) s
           else let n = page_rest srcva len in
                copyin pt (va0 + PGSIZE) (len - n) (dst @ get_bytes (uint (pa0 + (srcva - va0))) n (bytes s)) s))"
  by pat_completeness auto
termination
  by (relation "measure (\<lambda>(pt, srcva, len, dst, s). len)") (auto simp: page_rest_pos)

declare copyin.simps [simp del]

text \<open>The inner loop of \<open>copyinstr\<close>: it stores bytes up to and including a zero byte, at most \<open>n\<close>.\<close>

fun str_chunk :: "nat \<Rightarrow> addr \<Rightarrow> bmem \<Rightarrow> bool \<times> u8 list" where
  "str_chunk 0 p m = (False, [])"
| "str_chunk (Suc n) p m =
     (if m p = 0 then (True, [0])
      else let r = str_chunk n (p + 1) m in (fst r, m p # snd r))"

function copyinstr :: "addr \<Rightarrow> u64 \<Rightarrow> nat \<Rightarrow> u8 list \<Rightarrow> 'z kvm_scheme \<Rightarrow> ('z kvm_scheme, int \<times> u8 list) res" where
  "copyinstr pt srcva mx dst s =
     (if mx = 0 then Ok (- 1, dst) s
      else let va0 = PGROUNDDOWN srcva in
           bindr (walkaddr pt va0 s) (\<lambda>pa0 s.
           if pa0 = 0 then Ok (- 1, dst) s
           else let n = page_rest srcva mx;
                    r = str_chunk n (uint (pa0 + (srcva - va0))) (bytes s) in
                if fst r then Ok (0, dst @ snd r) s
                else copyinstr pt (va0 + PGSIZE) (mx - n) (dst @ snd r) s))"
  by pat_completeness auto
termination
  by (relation "measure (\<lambda>(pt, srcva, mx, dst, s). mx)") (auto simp: page_rest_pos)

declare copyinstr.simps [simp del]

section \<open>The kernel's page table\<close>

fun proc_mapstacks_loop :: "addr \<Rightarrow> nat list \<Rightarrow> 'z kvm_scheme \<Rightarrow> ('z kvm_scheme, unit) res" where
  "proc_mapstacks_loop kpgtbl [] s = Ok () s"
| "proc_mapstacks_loop kpgtbl (p # ps) s =
     bindr (kalloc s) (\<lambda>pa s.
     if pa = 0 then Panic ''kalloc''
     else bindr (kvmmap kpgtbl (KSTACK p) (word_of_int pa) PGSIZE (PTE_R OR PTE_W) s) (\<lambda>_ s.
          proc_mapstacks_loop kpgtbl ps s))"

definition proc_mapstacks :: "addr \<Rightarrow> 'z kvm_scheme \<Rightarrow> ('z kvm_scheme, unit) res" where
  "proc_mapstacks kpgtbl = proc_mapstacks_loop kpgtbl [0..<NPROC]"

definition kvmmake :: "u64 \<Rightarrow> u64 \<Rightarrow> 'z kvm_scheme \<Rightarrow> ('z kvm_scheme, addr) res" where
  "kvmmake etext trampoline s =
     bindr (kalloc s) (\<lambda>kpgtbl s.
     if kpgtbl = 0 then Fault ''kvmmake''
     else bindr (kvmmap kpgtbl UART0 UART0 PGSIZE (PTE_R OR PTE_W) (clear_table kpgtbl s)) (\<lambda>_ s.
          bindr (kvmmap kpgtbl VIRTIO0 VIRTIO0 PGSIZE (PTE_R OR PTE_W) s) (\<lambda>_ s.
          bindr (kvmmap kpgtbl PLIC PLIC 0x400000 (PTE_R OR PTE_W) s) (\<lambda>_ s.
          bindr (kvmmap kpgtbl KERNBASE KERNBASE (etext - KERNBASE) (PTE_R OR PTE_X) s) (\<lambda>_ s.
          bindr (kvmmap kpgtbl etext etext (PHYSTOP - etext) (PTE_R OR PTE_W) s) (\<lambda>_ s.
          bindr (kvmmap kpgtbl TRAMPOLINE trampoline PGSIZE (PTE_R OR PTE_X) s) (\<lambda>_ s.
          bindr (proc_mapstacks kpgtbl s) (\<lambda>_ s. Ok kpgtbl s))))))))"

definition kvminit :: "u64 \<Rightarrow> u64 \<Rightarrow> 'z kvm_scheme \<Rightarrow> ('z kvm_scheme, unit) res" where
  "kvminit etext trampoline s =
     bindr (kvmmake etext trampoline s) (\<lambda>pt s. Ok () (s\<lparr>kernel_pagetable := pt\<rparr>))"

definition SATP_SV39 :: u64 where "SATP_SV39 = push_bit 60 8"

definition MAKE_SATP :: "addr \<Rightarrow> u64" where
  "MAKE_SATP pt = SATP_SV39 OR drop_bit 12 (word_of_int pt)"

definition kvminithart :: "'z kvm_scheme \<Rightarrow> 'z kvm_scheme" where
  "kvminithart s = s\<lparr>satp := (satp s)(hart (spin s) := MAKE_SATP (kernel_pagetable s))\<rparr>"

end
