(* ===== verification/Sleeplock.thy ===== *)
theory Sleeplock
  imports Vm
begin

text \<open>
  Sleeping locks, \<open>kernel/sleeplock.c\<close>. The locks of the buffers and of the in-memory inodes are the two families
  of sleep locks; each has the spin lock and the sleep channel of its owner.
\<close>

datatype slid = SlBuf nat | SlInode nat

fun sl_lk :: "slid \<Rightarrow> lock" where
  "sl_lk (SlBuf i) = LkBuf i"
| "sl_lk (SlInode i) = LkInode i"

fun sl_ch :: "slid \<Rightarrow> chan" where
  "sl_ch (SlBuf i) = ChBufLock i"
| "sl_ch (SlInode i) = ChInodeLock i"

record sleeplock =
  sl_locked :: bool
  sl_name :: string
  sl_pid :: int

record kslp = kvm +
  slocks :: "slid \<Rightarrow> sleeplock"

definition set_slock :: "slid \<Rightarrow> sleeplock \<Rightarrow> 'z kslp_scheme \<Rightarrow> 'z kslp_scheme" where
  "set_slock sl v s = s\<lparr>slocks := (slocks s)(sl := v)\<rparr>"

definition initsleeplock :: "slid \<Rightarrow> string \<Rightarrow> 'z kslp_scheme \<Rightarrow> 'z kslp_scheme" where
  "initsleeplock sl name s =
     set_slock sl \<lparr>sl_locked = False, sl_name = name, sl_pid = 0\<rparr> (initlk (sl_lk sl) ''sleep lock'' s)"

text \<open>
  \<open>acquiresleep\<close> from the test of its loop on, with the spin lock held. A process that finds the lock taken sleeps;
  when it has been woken and holds the spin lock again it is back at this point.
\<close>

definition acquiresleep_loop :: "slid \<Rightarrow> 'z kslp_scheme \<Rightarrow> ('z kslp_scheme, unit) res" where
  "acquiresleep_loop sl s =
     (if sl_locked (slocks s sl) then sleep (sl_ch sl) (sl_lk sl) s
      else let s = set_slock sl ((slocks s sl)\<lparr>sl_locked := True\<rparr>) s in
           bindr (curproc s) (\<lambda>p s.
           rel (sl_lk sl) (set_slock sl ((slocks s sl)\<lparr>sl_pid := pid (procs s p)\<rparr>) s)))"

definition acquiresleep :: "slid \<Rightarrow> 'z kslp_scheme \<Rightarrow> ('z kslp_scheme, unit) res" where
  "acquiresleep sl s = bindr (acq (sl_lk sl) s) (\<lambda>_ s. acquiresleep_loop sl s)"

definition releasesleep :: "slid \<Rightarrow> 'z kslp_scheme \<Rightarrow> ('z kslp_scheme, unit) res" where
  "releasesleep sl =
     locking (sl_lk sl) (\<lambda>s. wakeup (sl_ch sl) (set_slock sl ((slocks s sl)\<lparr>sl_locked := False, sl_pid := 0\<rparr>) s))"

definition holdingsleep :: "slid \<Rightarrow> 'z kslp_scheme \<Rightarrow> ('z kslp_scheme, bool) res" where
  "holdingsleep sl =
     locking (sl_lk sl) (\<lambda>s.
       if sl_locked (slocks s sl)
       then bindr (curproc s) (\<lambda>p s. Ok (sl_pid (slocks s sl) = pid (procs s p)) s)
       else Ok False s)"

section \<open>Rules\<close>

text \<open>
  \<open>calm_in p s\<close>: process \<open>p\<close> runs on this hart, which holds no spin lock that the kernel code needs. The rules hold
  at every nesting depth of \<open>push_off\<close>; what they do to the lock state is \<open>calm\<close>.
\<close>

definition calm_in :: "nat \<Rightarrow> 'z kproc_scheme \<Rightarrow> bool" where
  "calm_in p s \<longleftrightarrow> cpu_proc (mycpu (spin s)) = Some p \<and> (\<forall>lk. lk_free lk (spin s))"

lemma calm_in_D:
  assumes "calm_in p s"
  shows "cpu_proc (mycpu (spin s)) = Some p" "lk_free lk (spin s)" "cpu_ok (spin s)"
  using assms by (auto simp: calm_in_def dest: lk_free_ok)

lemma calm_in_calm [simp]: "calm_in p (s\<lparr>spin := calm (spin s)\<rparr>) = calm_in p s"
  by (simp add: calm_in_def)

lemma not_proc_lock [simp]: "sl_lk sl \<noteq> LkProc p"
  by (cases sl) simp_all

text \<open>\<open>wakeup\<close> inside a critical section of another lock.\<close>

lemma wakeup_taken:
  assumes c: "calm_in p s" and lk: "\<And>q. lk \<noteq> LkProc q" and t: "spin t = taken lk (spin s)"
  shows "wakeup ch t = Ok () (t\<lparr>procs := woken ch (Some p) {..<NPROC} (procs t)\<rparr>)"
proof -
  have ok: "cpu_ok (spin t)" using calm_in_D(3) [OF c] by (simp add: t taken_ok)
  have me: "cpu_proc (mycpu (spin t)) = Some p" using calm_in_D(1) [OF c] by (simp add: t)
  have "lk_free (LkProc q) (spin t)" for q
    using lk_free_taken [OF lk [of q] calm_in_D(2) [OF c] calm_in_D(2) [OF c]] by (simp add: t)
  moreover have "calm (spin t) = spin t" using calm_in_D(3) [OF c] by (simp add: t calm_taken)
  then have "t\<lparr>spin := calm (spin t), procs := P\<rparr> = t\<lparr>procs := P\<rparr>" for P by simp
  ultimately show ?thesis using wakeup_ok [OF ok, of ch] by (simp add: me)
qed

lemma curproc_taken:
  assumes c: "calm_in p s" and t: "spin t = taken lk (spin s)"
  shows "curproc t = Ok p t"
proof -
  have "calm (spin t) = spin t" using calm_in_D(3) [OF c] by (simp add: t calm_taken)
  then have "t\<lparr>spin := calm (spin t)\<rparr> = t" by simp
  with curproc_ok [of t p] calm_in_D(1,3) [OF c] show ?thesis by (simp add: t taken_ok)
qed

lemma acquiresleep_free:
  assumes c: "calm_in p s" and f: "\<not> sl_locked (slocks s sl)"
  shows "acquiresleep sl s = Ok () (s\<lparr>spin := calm (spin s),
    slocks := (slocks s)(sl := (slocks s sl)\<lparr>sl_locked := True, sl_pid := pid (procs s p)\<rparr>)\<rparr>)"
proof -
  let ?t = "s\<lparr>spin := taken (sl_lk sl) (spin s), slocks := (slocks s)(sl := (slocks s sl)\<lparr>sl_locked := True\<rparr>)\<rparr>"
  let ?u = "s\<lparr>spin := taken (sl_lk sl) (spin s),
    slocks := (slocks s)(sl := (slocks s sl)\<lparr>sl_locked := True, sl_pid := pid (procs s p)\<rparr>)\<rparr>"
  have a: "acq (sl_lk sl) s = Ok () (s\<lparr>spin := taken (sl_lk sl) (spin s)\<rparr>)" by (rule acq_free [OF calm_in_D(2) [OF c]])
  have p: "curproc ?t = Ok p ?t" by (rule curproc_taken [OF c, of _ "sl_lk sl"]) simp
  have "rel (sl_lk sl) ?u = Ok () (?u\<lparr>spin := calm (spin s)\<rparr>)"
    by (rule rel_taken [OF _ calm_in_D(2) [OF c]]) simp
  with a p f show ?thesis by (simp add: acquiresleep_def acquiresleep_loop_def set_slock_def Let_def)
qed

lemma releasesleep_ok:
  assumes c: "calm_in p s"
  shows "releasesleep sl s = Ok () (s\<lparr>spin := calm (spin s), procs := woken (sl_ch sl) (Some p) {..<NPROC} (procs s),
    slocks := (slocks s)(sl := (slocks s sl)\<lparr>sl_locked := False, sl_pid := 0\<rparr>)\<rparr>)"
proof -
  let ?t = "s\<lparr>spin := taken (sl_lk sl) (spin s), slocks := (slocks s)(sl := (slocks s sl)\<lparr>sl_locked := False, sl_pid := 0\<rparr>)\<rparr>"
  let ?f = "\<lambda>s. wakeup (sl_ch sl) (set_slock sl ((slocks s sl)\<lparr>sl_locked := False, sl_pid := 0\<rparr>) s)"
  have "wakeup (sl_ch sl) ?t = Ok () (?t\<lparr>procs := woken (sl_ch sl) (Some p) {..<NPROC} (procs ?t)\<rparr>)"
    by (rule wakeup_taken [OF c, of "sl_lk sl"]) simp_all
  then have "?f (s\<lparr>spin := taken (sl_lk sl) (spin s)\<rparr>) = Ok () (?t\<lparr>procs := woken (sl_ch sl) (Some p) {..<NPROC} (procs s)\<rparr>)"
    by (simp add: set_slock_def)
  from section_ok [where lk = "sl_lk sl" and s = s and f = ?f, OF calm_in_D(2) [OF c] this]
  show ?thesis by (simp add: releasesleep_def)
qed

lemma holdingsleep_ok:
  assumes c: "calm_in p s"
  shows "holdingsleep sl s =
    Ok (sl_locked (slocks s sl) \<and> sl_pid (slocks s sl) = pid (procs s p)) (s\<lparr>spin := calm (spin s)\<rparr>)"
proof -
  let ?t = "s\<lparr>spin := taken (sl_lk sl) (spin s)\<rparr>"
  let ?f = "\<lambda>s. if sl_locked (slocks s sl)
       then bindr (curproc s) (\<lambda>p s. Ok (sl_pid (slocks s sl) = pid (procs s p)) s) else Ok False s"
  have "curproc ?t = Ok p ?t" by (rule curproc_taken [OF c, of _ "sl_lk sl"]) simp
  then have "?f ?t = Ok (sl_locked (slocks s sl) \<and> sl_pid (slocks s sl) = pid (procs s p)) ?t" by simp
  from section_ok [where lk = "sl_lk sl" and s = s and f = ?f, OF calm_in_D(2) [OF c] this] show ?thesis
    by (simp add: holdingsleep_def)
qed

end
