(* ===== verification/Devio.thy ===== *)
theory Devio
  imports Sleeplock
begin

text \<open>
  Memory-mapped device registers. What a device answers to a read of a register depends on the device, which is not
  part of the kernel: \<open>iord\<close> is a parameter carried in the state, a function of the writes the kernel has made so far,
  which are the trace \<open>iolog\<close>, and of the number of polls \<open>ioclock\<close>: the answer to a poll may change from one to the next. \<open>sleep_during\<close> runs a piece of code, such as an interrupt handler, while the
  current process sleeps and the hart is in the scheduler.
\<close>

record kio = kslp +
  iolog :: "(u64 \<times> u64) list"
  ioclock :: nat
  iord :: "(u64 \<times> u64) list \<Rightarrow> nat \<Rightarrow> u64 \<Rightarrow> u64"

definition io_write :: "u64 \<Rightarrow> u64 \<Rightarrow> 'z kio_scheme \<Rightarrow> 'z kio_scheme" where
  "io_write a v s = s\<lparr>iolog := iolog s @ [(a, v)]\<rparr>"

definition io_read :: "u64 \<Rightarrow> 'z kio_scheme \<Rightarrow> u64" where
  "io_read a s = iord s (iolog s) (ioclock s) a"

definition io_poll :: "u64 \<Rightarrow> 'z kio_scheme \<Rightarrow> u64 \<times> 'z kio_scheme" where
  "io_poll a s = (io_read a s, s\<lparr>ioclock := Suc (ioclock s)\<rparr>)"

text \<open>
  The process goes to sleep, the scheduler takes its thread back and \<open>f\<close> runs. If \<open>f\<close> has made the process
  runnable the scheduler switches to it again and \<open>sleep\<close> returns; otherwise it stays asleep.
\<close>

definition sleep_during :: "chan \<Rightarrow> lock \<Rightarrow> ('z kproc_scheme \<Rightarrow> ('z kproc_scheme, unit) res) \<Rightarrow>
    'z kproc_scheme \<Rightarrow> ('z kproc_scheme, unit) res" where
  "sleep_during ch lk f s =
     (case sleep ch lk s of
        Sleep c t \<Rightarrow>
          orfault ''myproc'' (cpu_proc (mycpu (spin t))) (\<lambda>p.
          let i = intena (mycpu (spin t)) in
          bindr (scheduler_back p t) (\<lambda>_ t.
          bindr (f t) (\<lambda>_ t.
          bindr (scheduler_try p t) (\<lambda>run t.
          if run then sleep_wake p lk i t else Sleep c t))))
      | r \<Rightarrow> r)"

section \<open>A process that runs undisturbed\<close>

text \<open>Updates of different fields, in the order in which the state's records declare them.\<close>

named_theorems upd_order \<open>updates of the state sorted by field\<close>

lemma upd_order_spin [upd_order]: "s\<lparr>procs := P, spin := sp\<rparr> = s\<lparr>spin := sp, procs := P\<rparr>"
  by (rule kproc.equality) simp_all

lemma upd_order_slocks [upd_order]:
  "s\<lparr>slocks := L, spin := sp\<rparr> = s\<lparr>spin := sp, slocks := L\<rparr>"
  "s\<lparr>slocks := L, procs := P\<rparr> = s\<lparr>procs := P, slocks := L\<rparr>"
  by (rule kslp.equality; simp)+

lemma upd_order_iolog [upd_order]:
  "s\<lparr>iolog := L, spin := sp\<rparr> = s\<lparr>spin := sp, iolog := L\<rparr>"
  "s\<lparr>iolog := L, procs := P\<rparr> = s\<lparr>procs := P, iolog := L\<rparr>"
  "s\<lparr>iolog := L, slocks := S\<rparr> = s\<lparr>slocks := S, iolog := L\<rparr>"
  by (rule kio.equality; simp)+

text \<open>
  \<open>quiet p s\<close>: process \<open>p\<close> runs on this hart outside every critical section, no spin lock is held, and the saved
  interrupt bit is the current one, as every finished critical section leaves it. Code that runs from such a state and
  returns leaves the lock state as it was; of the process table it changes at most what \<open>eased\<close> allows: some of the
  other processes have been made runnable.
\<close>

definition quiet :: "nat \<Rightarrow> 'z kproc_scheme \<Rightarrow> bool" where
  "quiet p s \<longleftrightarrow> calm_in p s \<and> calm (spin s) = spin s \<and> noff (mycpu (spin s)) = 0 \<and> p < NPROC \<and>
     pstate (procs s p) = RUNNING \<and> pchan (procs s p) = None"

definition eased :: "nat \<Rightarrow> (nat \<Rightarrow> proc) \<Rightarrow> (nat \<Rightarrow> proc) \<Rightarrow> bool" where
  "eased p P P' \<longleftrightarrow> (\<forall>q. P' q = P q \<or> (q \<noteq> p \<and> pstate (P q) = SLEEPING \<and> P' q = (P q)\<lparr>pstate := RUNNABLE\<rparr>))"

lemma eased_refl [simp, intro]: "eased p P P"
  by (simp add: eased_def)

lemma eased_trans [trans]: "eased p P Q \<Longrightarrow> eased p Q R \<Longrightarrow> eased p P R"
proof (unfold eased_def, intro allI)
  fix q assume a: "\<forall>q. Q q = P q \<or> q \<noteq> p \<and> pstate (P q) = SLEEPING \<and> Q q = (P q)\<lparr>pstate := RUNNABLE\<rparr>"
    "\<forall>q. R q = Q q \<or> q \<noteq> p \<and> pstate (Q q) = SLEEPING \<and> R q = (Q q)\<lparr>pstate := RUNNABLE\<rparr>"
  show "R q = P q \<or> q \<noteq> p \<and> pstate (P q) = SLEEPING \<and> R q = (P q)\<lparr>pstate := RUNNABLE\<rparr>"
    using a(1) [THEN spec, of q] a(2) [THEN spec, of q] by auto
qed

lemma eased_woken: "eased p P (woken ch (Some p) A P)"
  by (auto simp: eased_def woken_def)

lemma eased_self [simp]: "eased p P P' \<Longrightarrow> P' p = P p"
  by (auto simp: eased_def)

lemma eased_fields:
  assumes "eased p P P'"
  shows "pid (P' q) = pid (P q)" "pkilled (P' q) = pkilled (P q)" "pagetable (P' q) = pagetable (P q)"
    "psz (P' q) = psz (P q)" "ofile (P' q) = ofile (P q)" "cwd (P' q) = cwd (P q)" "trapframe (P' q) = trapframe (P q)"
    "parent (P' q) = parent (P q)" "xstate (P' q) = xstate (P q)"
  using assms [unfolded eased_def, THEN spec, of q] by auto

lemma quiet_D:
  assumes "quiet p s"
  shows "calm_in p s" "calm (spin s) = spin s" "noff (mycpu (spin s)) = 0" "p < NPROC"
    "pstate (procs s p) = RUNNING" "pchan (procs s p) = None" "lk_free lk (spin s)"
    "cpu_proc (mycpu (spin s)) = Some p" "cpu_ok (spin s)"
  using assms calm_in_D [of p s] by (auto simp: quiet_def)

lemma quiet_cong:
  "spin t = spin s \<Longrightarrow> eased p (procs s) (procs t) \<Longrightarrow> quiet p t = quiet p s"
  by (simp add: quiet_def calm_in_def)

lemma quiet_acquiresleep:
  assumes "quiet p s" and "\<not> sl_locked (slocks s sl)"
  shows "acquiresleep sl s =
    Ok () (s\<lparr>slocks := (slocks s)(sl := (slocks s sl)\<lparr>sl_locked := True, sl_pid := pid (procs s p)\<rparr>)\<rparr>)"
  using acquiresleep_free [OF quiet_D(1) [OF assms(1)] assms(2)] quiet_D(2) [OF assms(1)] by simp

lemma quiet_holdingsleep:
  "quiet p s \<Longrightarrow> holdingsleep sl s = Ok (sl_locked (slocks s sl) \<and> sl_pid (slocks s sl) = pid (procs s p)) s"
  using holdingsleep_ok [of p s sl] quiet_D(1,2) [of p s] by simp

lemma quiet_releasesleep:
  "quiet p s \<Longrightarrow> releasesleep sl s = Ok () (s\<lparr>procs := woken (sl_ch sl) (Some p) {..<NPROC} (procs s),
    slocks := (slocks s)(sl := (slocks s sl)\<lparr>sl_locked := False, sl_pid := 0\<rparr>)\<rparr>)"
  using releasesleep_ok [of p s sl] quiet_D(1,2) [of p s] by simp

lemma quiet_section:
  assumes "quiet p s" and "f (s\<lparr>spin := taken lk (spin s)\<rparr>) = Ok x t" and "spin t = taken lk (spin s)"
  shows "locking lk f s = Ok x (t\<lparr>spin := spin s\<rparr>)"
  using section_ok [of lk s f x t, OF quiet_D(7) [OF assms(1)] assms(2,3)] quiet_D(2) [OF assms(1)] by simp

section \<open>Sleeping until an interrupt\<close>

definition parked :: "spinst \<Rightarrow> spinst" where
  "parked sp = set_mycpu ((mycpu sp)\<lparr>cpu_proc := None\<rparr>) sp"

lemma parked_simps [simp]:
  "locks (parked sp) = locks sp" "hart (parked sp) = hart sp" "cpu_proc (mycpu (parked sp)) = None"
  "noff (mycpu (parked sp)) = noff (mycpu sp)" "lk_free lk (parked sp) = lk_free lk sp"
  "intr_get (parked sp) = intr_get sp" "cpu_ok (parked sp) = cpu_ok sp"
  by (auto simp: parked_def lk_free_def cpu_ok_def spin_defs)

lemma calm_parked: "calm (parked sp) = parked (calm sp)"
  by (cases "cpus sp (hart sp)") (auto simp: parked_def calm_def spin_defs)

lemma set_cpu_proc_None_taken: "spin t = taken lk sp \<Longrightarrow> set_cpu_proc None t = t\<lparr>spin := taken lk (parked sp)\<rparr>"
  by (cases "cpus sp (hart sp)") (auto simp: set_cpu_proc_def parked_def taken_def spin_defs)

lemma set_cpu_proc_Some_taken:
  "spin t = taken lk (parked sp) \<Longrightarrow> cpu_proc (mycpu sp) = Some p \<Longrightarrow> set_cpu_proc (Some p) t = t\<lparr>spin := taken lk sp\<rparr>"
  by (cases "cpus sp (hart sp)") (auto simp: set_cpu_proc_def parked_def taken_def spin_defs)

lemma sched_back_taken:
  "spin t = taken lk sp \<Longrightarrow> sched_back (intena (mycpu (taken lk sp))) t = t"
  by (simp add: sched_back_def set_mycpu_def mycpu_def)

lemma scheduler_back_ok:
  "spin t = taken (LkProc p) sp \<Longrightarrow> lk_free (LkProc p) sp \<Longrightarrow>
    scheduler_back p t = Ok () (t\<lparr>spin := parked (calm sp)\<rparr>)"
  unfolding scheduler_back_def
  by (subst set_cpu_proc_None_taken, assumption, subst rel_taken [where sp = "parked sp"]) (simp_all add: calm_parked)

lemma scheduler_try_ok:
  assumes "spin t = parked sp" and "lk_free (LkProc p) sp" and "cpu_proc (mycpu sp) = Some p"
    and "pstate (procs t p) = RUNNABLE"
  shows "scheduler_try p t = Ok True (upd_proc p (\<lambda>x. x\<lparr>pstate := RUNNING\<rparr>) (t\<lparr>spin := taken (LkProc p) sp\<rparr>))"
proof -
  have "set_cpu_proc (Some p) (upd_proc p f (t\<lparr>spin := taken (LkProc p) (parked sp)\<rparr>)) =
      upd_proc p f (t\<lparr>spin := taken (LkProc p) sp\<rparr>)" for f
    by (subst set_cpu_proc_Some_taken [OF _ assms(3)]) (simp_all add: upd_proc_def upd_order)
  with assms show ?thesis by (simp add: scheduler_try_def acq_free)
qed

lemma sleep_wake_ok:
  assumes "spin t = taken (LkProc p) sp" and "lk_free (LkProc p) sp" and "calm sp = sp" and "lk_free lk sp"
  shows "sleep_wake p lk (intena (mycpu (taken (LkProc p) sp))) t =
    Ok () (upd_proc p (\<lambda>x. x\<lparr>pchan := None\<rparr>) (t\<lparr>spin := taken lk sp\<rparr>))"
proof -
  let ?u = "upd_proc p (\<lambda>x. x\<lparr>pchan := None\<rparr>) t"
  have "sched_back (intena (mycpu (taken (LkProc p) sp))) t = t" by (rule sched_back_taken [OF assms(1)])
  moreover have "rel (LkProc p) ?u = Ok () (?u\<lparr>spin := sp\<rparr>)"
    using rel_taken [OF _ assms(2), of ?u] assms(1,3) by simp
  moreover have "acq lk (?u\<lparr>spin := sp\<rparr>) = Ok () (?u\<lparr>spin := taken lk sp\<rparr>)"
    using acq_free [of lk "?u\<lparr>spin := sp\<rparr>"] assms(4) by simp
  ultimately show ?thesis by (simp add: sleep_wake_def upd_proc_def upd_order)
qed

lemma sleep_during_ok:
  assumes q: "quiet p s" and s: "spin u = taken lk (spin s)" "procs u p = procs s p" and lk: "lk \<noteq> LkProc p"
    and f: "f (upd_proc p (\<lambda>x. x\<lparr>pchan := Some ch, pstate := SLEEPING\<rparr>) (u\<lparr>spin := parked (spin s)\<rparr>)) = Ok () t"
    and t: "spin t = parked (spin s)" "procs t p = (procs s p)\<lparr>pchan := Some ch, pstate := RUNNABLE\<rparr>"
  shows "sleep_during ch lk f u = Ok () (t\<lparr>spin := taken lk (spin s), procs := (procs t)(p := procs s p)\<rparr>)"
proof -
  note d = quiet_D [OF q]
  let ?v = "upd_proc p (\<lambda>x. x\<lparr>pchan := Some ch, pstate := SLEEPING\<rparr>) (u\<lparr>spin := taken (LkProc p) (spin s)\<rparr>)"
  let ?w = "upd_proc p (\<lambda>x. x\<lparr>pstate := RUNNING\<rparr>) (t\<lparr>spin := taken (LkProc p) (spin s)\<rparr>)"
  have 1: "(sleep ch lk u :: (_, unit) res) = Sleep ch ?v"
    by (rule sleep_ok [OF s(1) d(7) d(7) d(8) d(3) lk])
  have "scheduler_back p ?v = Ok () (?v\<lparr>spin := parked (calm (spin s))\<rparr>)"
    by (rule scheduler_back_ok [OF _ d(7)]) simp
  then have 2: "scheduler_back p ?v = Ok () (upd_proc p (\<lambda>x. x\<lparr>pchan := Some ch, pstate := SLEEPING\<rparr>) (u\<lparr>spin := parked (spin s)\<rparr>))"
    by (simp add: d(2) upd_proc_def upd_order)
  have 3: "scheduler_try p t = Ok True ?w"
    by (rule scheduler_try_ok [OF t(1) d(7) d(8)]) (simp add: t(2))
  have 4: "sleep_wake p lk (intena (mycpu (taken (LkProc p) (spin s)))) ?w =
      Ok () (upd_proc p (\<lambda>x. x\<lparr>pchan := None\<rparr>) (?w\<lparr>spin := taken lk (spin s)\<rparr>))"
    by (rule sleep_wake_ok [OF _ d(7) d(2) d(7)]) simp
  have "(procs s p)\<lparr>pstate := RUNNING, pchan := None\<rparr> = procs s p"
    using d(5,6) by (cases "procs s p") simp
  with 1 2 f 3 4 show ?thesis
    by (simp add: sleep_during_def upd_proc_def t(2) d(8) upd_order)
qed

end
