(* ===== verification/Ring.thy ===== *)
theory Ring
  imports Prelude
begin

text \<open>
  Ring buffers with free-running indices. The pipe, the console input and the transmit buffer of the serial port all
  keep an array, an index of the next element to read and an index of the next to write; the indices are machine words
  that are never reset and are reduced modulo the size of the array at each access. \<open>ring_list\<close> is the queue such a
  buffer holds. The locale \<open>fifo\<close> is the contract of a bounded queue and what a client may rely on.
\<close>

definition ring_list :: "nat \<Rightarrow> (nat \<Rightarrow> 'a) \<Rightarrow> 'l::len word \<Rightarrow> 'l word \<Rightarrow> 'a list" where
  "ring_list sz d r w = map (\<lambda>k. d (unat (r + of_nat k) mod sz)) [0..<unat (w - r)]"

lemma length_ring_list [simp]: "length (ring_list sz d r w) = unat (w - r)"
  by (simp add: ring_list_def)

lemma ring_list_empty [simp]: "ring_list sz d r r = []"
  by (simp add: ring_list_def)

lemma ring_list_eq_Nil: "ring_list sz d r w = [] \<longleftrightarrow> r = w"
  by (auto simp: ring_list_def unat_eq_zero)

lemma ring_list_pop:
  assumes "r \<noteq> w"
  shows "ring_list sz d r w = d (unat r mod sz) # ring_list sz d (r + 1) w"
proof -
  have "w - r \<noteq> 0" using assms by simp
  then have "unat (w - r) = Suc (unat (w - r - 1))"
    using unat_minus_one [of "w - r"] unat_eq_zero [of "w - r"] by simp
  moreover have "w - r - 1 = w - (r + 1)" by simp
  ultimately have n: "unat (w - r) = Suc (unat (w - (r + 1)))" by simp
  show ?thesis
    unfolding ring_list_def n upt_conv_Cons [OF zero_less_Suc] list.map(2) map_Suc_upt [symmetric] map_map
    by (simp add: add.assoc comp_def)
qed

lemma unat_add_mod:
  fixes x y :: "'l::len word"
  assumes "sz dvd 2 ^ LENGTH('l)"
  shows "unat (x + y) mod sz = (unat x + unat y) mod sz"
  using assms by (simp add: unat_word_ariths mod_mod_cancel)

lemma ring_list_push:
  fixes r w :: "'l::len word"
  assumes sz: "sz dvd 2 ^ LENGTH('l)" "sz < 2 ^ LENGTH('l)" and n: "unat (w - r) < sz"
  shows "ring_list sz (d(unat w mod sz := c)) r (w + 1) = ring_list sz d r w @ [c]"
proof -
  have "unat (w - r + 1) = Suc (unat (w - r))"
    using sz(2) n by (simp add: unat_word_ariths)
  moreover have "w - r + 1 = w + 1 - r" by simp
  ultimately have l: "unat (w + 1 - r) = Suc (unat (w - r))" by simp
  have w: "unat w mod sz = (unat r + unat (w - r)) mod sz"
    using unat_add_mod [OF sz(1), of r "w - r"] by simp
  have "unat (r + of_nat k) mod sz \<noteq> unat w mod sz" if k: "k < unat (w - r)" for k
  proof -
    have "unat (of_nat k :: 'l word) = k"
      using k sz(2) n by (simp add: unat_of_nat)
    then have "unat (r + of_nat k) mod sz = (unat r + k) mod sz" by (simp add: unat_add_mod [OF sz(1)])
    moreover have "(unat r + k) mod sz \<noteq> (unat r + unat (w - r)) mod sz"
    proof
      assume "(unat r + k) mod sz = (unat r + unat (w - r)) mod sz"
      then have "sz dvd (unat r + unat (w - r)) - (unat r + k)"
        using k by (intro mod_eq_dvd_iff_nat [THEN iffD1]) simp_all
      then have "sz dvd unat (w - r) - k" by simp
      with k n show False by (auto dest: dvd_imp_le)
    qed
    ultimately show ?thesis using w by simp
  qed
  then show ?thesis by (simp add: ring_list_def l)
qed

section \<open>Bounded queues\<close>

datatype 'a qop = Put 'a | Get

text \<open>
  A run of a queue: a \<open>Put\<close> is carried out when there is room, a \<open>Get\<close> when there is something to get; the others find
  the queue full or empty and do nothing. The results are the elements put, the elements got and the last state.
\<close>

fun qrun :: "nat \<Rightarrow> ('s \<Rightarrow> 'a list) \<Rightarrow> ('a \<Rightarrow> 's \<Rightarrow> 's) \<Rightarrow> ('s \<Rightarrow> 'a \<times> 's) \<Rightarrow> 'a qop list \<Rightarrow> 's \<Rightarrow> 'a list \<times> 'a list \<times> 's" where
  "qrun cap content put get [] s = ([], [], s)"
| "qrun cap content put get (Put x # ops) s =
     (if length (content s) < cap
      then (case qrun cap content put get ops (put x s) of (ins, outs, t) \<Rightarrow> (x # ins, outs, t))
      else qrun cap content put get ops s)"
| "qrun cap content put get (Get # ops) s =
     (if content s \<noteq> []
      then (case get s of (x, s) \<Rightarrow> case qrun cap content put get ops s of (ins, outs, t) \<Rightarrow> (ins, x # outs, t))
      else qrun cap content put get ops s)"

locale fifo =
  fixes cap :: nat and content :: "'s \<Rightarrow> 'a list" and put :: "'a \<Rightarrow> 's \<Rightarrow> 's" and get :: "'s \<Rightarrow> 'a \<times> 's"
  assumes put_content: "length (content s) < cap \<Longrightarrow> content (put x s) = content s @ [x]"
    and get_content: "content s \<noteq> [] \<Longrightarrow> content s = fst (get s) # content (snd (get s))"
begin

text \<open>What comes out is what was in the queue at first and then what went in, in that order, without loss or repetition.\<close>

lemma run_order:
  "qrun cap content put get ops s = (ins, outs, t) \<Longrightarrow> content s @ ins = outs @ content t"
proof (induction ops arbitrary: s ins outs t)
  case Nil
  then show ?case by simp
next
  case (Cons op ops)
  show ?case
  proof (cases op)
    case (Put x)
    with Cons put_content [of s x] show ?thesis by (fastforce split: if_splits prod.splits)
  next
    case Get
    show ?thesis
    proof (cases "content s = []")
      case True
      with Get Cons.prems show ?thesis using Cons.IH [of s ins outs t] by simp
    next
      case False
      obtain x u where u: "get s = (x, u)" by force
      obtain ins' outs' t' where r: "qrun cap content put get ops u = (ins', outs', t')" by (cases "qrun cap content put get ops u")
      with Cons.prems Get False u have "ins' = ins" "outs = x # outs'" "t' = t" by auto
      with Cons.IH [OF r] get_content [OF False] u show ?thesis by simp
    qed
  qed
qed

lemma run_bounded:
  "qrun cap content put get ops s = (ins, outs, t) \<Longrightarrow> length (content s) \<le> cap \<Longrightarrow> length (content t) \<le> cap"
proof (induction ops arbitrary: s ins outs t)
  case Nil
  then show ?case by simp
next
  case (Cons op ops)
  show ?case
  proof (cases op)
    case (Put x)
    with Cons put_content [of s x] show ?thesis by (fastforce split: if_splits prod.splits)
  next
    case Get
    show ?thesis
    proof (cases "content s = []")
      case True
      with Get Cons.prems show ?thesis using Cons.IH [of s ins outs t] by simp
    next
      case False
      obtain x u where u: "get s = (x, u)" by force
      then have "length (content u) \<le> cap" using get_content [OF False] Cons.prems(2) by simp
      with Cons Get False u show ?thesis by (auto split: prod.splits)
    qed
  qed
qed

end

end
