(* ===== verification/Uart.thy ===== *)
theory Uart
  imports Devio Ring
begin

text \<open>
  The driver of the 16550a serial port, \<open>kernel/uart.c\<close>, but for its interrupt handler, which theory \<open>Console\<close> has.
  A wait for the device that never ends is the outcome \<open>Diverge\<close>.
\<close>

record kuart = kio +
  uart_tx_buf :: "nat \<Rightarrow> u8"
  uart_tx_w :: u64
  uart_tx_r :: u64
  panicked :: bool
  pr_locking :: bool

definition UART_TX_BUF_SIZE :: nat where "UART_TX_BUF_SIZE = 32"

definition uart_reg :: "u64 \<Rightarrow> u64" where
  "uart_reg r = UART0 + r"

definition ReadReg :: "u64 \<Rightarrow> 'z kio_scheme \<Rightarrow> u8 \<times> 'z kio_scheme" where
  "ReadReg r s = (case io_poll (uart_reg r) s of (v, s) \<Rightarrow> (ucast v, s))"

definition WriteReg :: "u64 \<Rightarrow> u8 \<Rightarrow> 'z kio_scheme \<Rightarrow> 'z kio_scheme" where
  "WriteReg r v = io_write (uart_reg r) (ucast v)"

definition LSR :: u64 where "LSR = 5"
definition LSR_RX_READY :: u8 where "LSR_RX_READY = push_bit 0 1"
definition LSR_TX_IDLE :: u8 where "LSR_TX_IDLE = push_bit 5 1"

definition uartinit :: "'z kio_scheme \<Rightarrow> 'z kio_scheme" where
  "uartinit s =
     (let s = WriteReg 1 0 s;
          s = WriteReg 3 (push_bit 7 1) s;
          s = WriteReg 0 3 s;
          s = WriteReg 1 0 s;
          s = WriteReg 3 (push_bit 0 3) s;
          s = WriteReg 2 (push_bit 0 1 OR push_bit 1 3) s;
          s = WriteReg 1 (push_bit 1 1 OR push_bit 0 1) s
      in initlk LkUart ''uart'' s)"

text \<open>\<open>uartstart\<close>, with a bound on the characters in the buffer; each round takes one out.\<close>

fun uartstart_loop :: "nat \<Rightarrow> 'z kuart_scheme \<Rightarrow> ('z kuart_scheme, unit) res" where
  "uartstart_loop 0 s = (if uart_tx_w s = uart_tx_r s then Ok () s else Diverge)"
| "uartstart_loop (Suc n) s =
     (if uart_tx_w s = uart_tx_r s then Ok () s
      else case ReadReg LSR s of
        (v, s) \<Rightarrow>
          if v AND LSR_TX_IDLE = 0 then Ok () s
          else let c = uart_tx_buf s (unat (uart_tx_r s) mod UART_TX_BUF_SIZE);
                   s = s\<lparr>uart_tx_r := uart_tx_r s + 1\<rparr> in
               bindr (wakeup ChUart s) (\<lambda>_ s. uartstart_loop n (WriteReg 0 c s)))"

definition uartstart :: "'z kuart_scheme \<Rightarrow> ('z kuart_scheme, unit) res" where
  "uartstart s = uartstart_loop (unat (uart_tx_w s - uart_tx_r s)) s"

text \<open>\<open>uartputc\<close> with the lock held, from the test of its loop on.\<close>

definition uartputc_loop :: "int \<Rightarrow> 'z kuart_scheme \<Rightarrow> ('z kuart_scheme, unit) res" where
  "uartputc_loop c s =
     (if uart_tx_w s = uart_tx_r s + of_nat UART_TX_BUF_SIZE then sleep ChUart LkUart s
      else let s = s\<lparr>uart_tx_buf := (uart_tx_buf s)(unat (uart_tx_w s) mod UART_TX_BUF_SIZE := word_of_int c)\<rparr>;
               s = s\<lparr>uart_tx_w := uart_tx_w s + 1\<rparr> in
           bindr (uartstart s) (\<lambda>_ s. rel LkUart s))"

definition uartputc :: "int \<Rightarrow> 'z kuart_scheme \<Rightarrow> ('z kuart_scheme, unit) res" where
  "uartputc c s =
     bindr (acq LkUart s) (\<lambda>_ s. if panicked s then Diverge else uartputc_loop c s)"

text \<open>The busy wait for the transmit holding register; \<open>None\<close> when the device never becomes ready.\<close>

partial_function (option) uart_wait :: "'z kio_scheme \<Rightarrow> 'z kio_scheme option" where
  "uart_wait s = (case ReadReg LSR s of (v, s) \<Rightarrow> if v AND LSR_TX_IDLE = 0 then uart_wait s else Some s)"

declare uart_wait.simps [code]

definition uartputc_sync :: "int \<Rightarrow> 'z kuart_scheme \<Rightarrow> ('z kuart_scheme, unit) res" where
  "uartputc_sync c s =
     (let s = s\<lparr>spin := push_off (spin s)\<rparr> in
      if panicked s then Diverge
      else case uart_wait s of
             None \<Rightarrow> Diverge
           | Some s \<Rightarrow> liftr spin (\<lambda>c. spin_update (\<lambda>_. c)) pop_off (WriteReg 0 (word_of_int c) s))"

definition uartgetc :: "'z kio_scheme \<Rightarrow> int \<times> 'z kio_scheme" where
  "uartgetc s =
     (case ReadReg LSR s of
        (v, s) \<Rightarrow> if v AND LSR_RX_READY \<noteq> 0
                  then (case ReadReg 0 s of (c, s) \<Rightarrow> (uint c, s))
                  else (- 1, s))"

end
