(* ===== verification/Printf.thy ===== *)
theory Printf
  imports Uart
begin

text \<open>
  Formatted console output, \<open>kernel/printf.c\<close>, and \<open>consputc\<close> of \<open>kernel/console.c\<close>. The variable arguments are a list of
  values of the three kinds that the format understands; a string argument is its bytes or a null pointer. Reading an
  argument that is missing or of another kind is undefined in C and a fault here.
\<close>

definition BACKSPACE :: int where "BACKSPACE = 0x100"

definition consputc :: "int \<Rightarrow> 'z kuart_scheme \<Rightarrow> ('z kuart_scheme, unit) res" where
  "consputc c s =
     (if c = BACKSPACE
      then bindr (uartputc_sync 8 s) (\<lambda>_ s. bindr (uartputc_sync 32 s) (\<lambda>_ s. uartputc_sync 8 s))
      else uartputc_sync c s)"

fun consputs :: "int list \<Rightarrow> 'z kuart_scheme \<Rightarrow> ('z kuart_scheme, unit) res" where
  "consputs [] s = Ok () s"
| "consputs (c # cs) s = bindr (consputc c s) (\<lambda>_ s. consputs cs s)"

section \<open>Numbers\<close>

definition digits :: "u8 list" where
  "digits = [48, 49, 50, 51, 52, 53, 54, 55, 56, 57, 97, 98, 99, 100, 101, 102]"

text \<open>The loop of \<open>printint\<close> that fills \<open>buf\<close>, least significant digit first.\<close>

function digit_loop :: "nat \<Rightarrow> nat \<Rightarrow> u8 list" where
  "digit_loop x base =
     digits ! (x mod base) # (if x div base = 0 \<or> base < 2 then [] else digit_loop (x div base) base)"
  by pat_completeness auto
termination by (relation "measure fst") (auto simp: div_eq_0_iff)

declare digit_loop.simps [simp del]

text \<open>
  \<open>printint\<close>: \<open>x = -xx\<close> and \<open>x = xx\<close> are stored in a \<open>uint\<close>. The result is what it prints.
\<close>

definition printint :: "int \<Rightarrow> nat \<Rightarrow> bool \<Rightarrow> u8 list" where
  "printint xx base sign =
     (let neg = sign \<and> xx < 0;
          x = nat ((if neg then - xx else xx) mod 2 ^ 32);
          buf = digit_loop x base @ (if neg then [45] else [])
      in rev buf)"

fun ptr_loop :: "nat \<Rightarrow> u64 \<Rightarrow> u8 list" where
  "ptr_loop 0 x = []"
| "ptr_loop (Suc n) x = digits ! unat (drop_bit 60 x) # ptr_loop n (push_bit 4 x)"

definition printptr :: "u64 \<Rightarrow> u8 list" where
  "printptr x = [48, 120] @ ptr_loop 16 x"

section \<open>Formats\<close>

text \<open>The bytes of a string literal.\<close>

definition cstr :: "string \<Rightarrow> u8 list" where
  "cstr x = map (\<lambda>c. of_nat (of_char c)) x"

datatype parg = PInt int | PPtr u64 | PStr "u8 list option"

text \<open>
  The characters \<open>printf\<close> prints for a format, which is its bytes up to the terminating zero. \<open>None\<close> where an argument
  is missing or of the wrong kind.
\<close>

fun format :: "u8 list \<Rightarrow> parg list \<Rightarrow> u8 list option" where
  "format [] args = Some []"
| "format (c # fmt) args =
     (if c \<noteq> 37 then map_option ((#) c) (format fmt args)
      else case fmt of
        [] \<Rightarrow> Some []
      | d # fmt \<Rightarrow>
          if d = 100 then (case args of PInt i # args \<Rightarrow> map_option ((@) (printint i 10 True)) (format fmt args) | _ \<Rightarrow> None)
          else if d = 120 then (case args of PInt i # args \<Rightarrow> map_option ((@) (printint i 16 True)) (format fmt args) | _ \<Rightarrow> None)
          else if d = 112 then (case args of PPtr x # args \<Rightarrow> map_option ((@) (printptr x)) (format fmt args) | _ \<Rightarrow> None)
          else if d = 115
               then (case args of
                       PStr (Some str) # args \<Rightarrow> map_option ((@) str) (format fmt args)
                     | PStr None # args \<Rightarrow> map_option ((@) [40, 110, 117, 108, 108, 41]) (format fmt args)
                     | _ \<Rightarrow> None)
          else if d = 37 then map_option ((#) 37) (format fmt args)
          else map_option (\<lambda>out. 37 # d # out) (format fmt args))"

definition printf :: "u8 list option \<Rightarrow> parg list \<Rightarrow> 'z kuart_scheme \<Rightarrow> ('z kuart_scheme, unit) res" where
  "printf fmt args s =
     (let locking = pr_locking s in
      bindr (if locking then acq LkPr s else Ok () s) (\<lambda>_ s.
      case fmt of
        None \<Rightarrow> Panic ''null fmt''
      | Some f \<Rightarrow>
          orfault ''va_arg'' (format f args) (\<lambda>out.
          bindr (consputs (map uint out) s) (\<lambda>_ s.
          if locking then rel LkPr s else Ok () s))))"

text \<open>\<open>panic\<close> prints its message, freezes the output of the other harts and never returns.\<close>

definition panic_prefix :: "'z kuart_scheme \<Rightarrow> u8 list \<Rightarrow> ('z kuart_scheme, unit) res" where
  "panic_prefix s msg =
     (let s = s\<lparr>pr_locking := False\<rparr> in
      bindr (printf (Some [112, 97, 110, 105, 99, 58, 32]) [] s) (\<lambda>_ s.
      bindr (printf (Some msg) [] s) (\<lambda>_ s.
      bindr (printf (Some [10]) [] s) (\<lambda>_ s.
      Ok () (s\<lparr>panicked := True\<rparr>)))))"

definition printfinit :: "'z kuart_scheme \<Rightarrow> 'z kuart_scheme" where
  "printfinit s = (initlk LkPr ''pr'' s)\<lparr>pr_locking := True\<rparr>"

end
