(* ===== verification/Virtio.thy ===== *)
theory Virtio
  imports Printf
begin

text \<open>
  The driver of the virtio disk, \<open>kernel/virtio_disk.c\<close> and \<open>kernel/virtio.h\<close>. The queue that driver and device share
  is the record \<open>vq\<close>; the driver's own fields of \<open>struct disk\<close> are the record \<open>vdisk\<close>. Descriptors point into three
  kinds of objects, which \<open>daddr\<close> names: a request header, the data of a buffer, a status byte.

  The device is not part of the kernel. It is the parameter \<open>device\<close> of the state: a function on the memory it
  reads and writes (the queue, the data of the buffers) and its medium, \<open>sectors\<close>. \<open>device_ok\<close> is what section 5.2
  of the virtio specification says it does with one pending request.

  \<open>virtio_disk_rw\<close> is the whole call: the request is queued, the process sleeps, the device serves the request and
  interrupts, \<open>virtio_disk_intr\<close> wakes the process, and the call frees the descriptors and returns.
\<close>

section \<open>The queue and the driver's state\<close>

definition BSIZE :: nat where "BSIZE = 1024"
definition NUM :: nat where "NUM = 8"
definition VRING_DESC_F_NEXT :: u16 where "VRING_DESC_F_NEXT = 1"
definition VRING_DESC_F_WRITE :: u16 where "VRING_DESC_F_WRITE = 2"
definition VIRTIO_BLK_T_IN :: u32 where "VIRTIO_BLK_T_IN = 0"
definition VIRTIO_BLK_T_OUT :: u32 where "VIRTIO_BLK_T_OUT = 1"

lemmas virtio_consts = BSIZE_def NUM_def VRING_DESC_F_NEXT_def VRING_DESC_F_WRITE_def VIRTIO_BLK_T_IN_def
  VIRTIO_BLK_T_OUT_def

datatype daddr = ANull | AOps nat | AData nat | AStatus nat

record virtq_desc =
  d_addr :: daddr
  d_len :: nat
  d_flags :: u16
  d_next :: nat

record virtio_blk_req =
  r_type :: u32
  r_reserved :: u32
  r_sector :: nat

record vq =
  desc :: "nat \<Rightarrow> virtq_desc"
  avail_idx :: u16
  avail_ring :: "nat \<Rightarrow> nat"
  used_i :: u16
  used_ring :: "nat \<Rightarrow> nat"
  ops :: "nat \<Rightarrow> virtio_blk_req"
  istatus :: "nat \<Rightarrow> u8"

record vdisk =
  desc_pa :: addr
  avail_pa :: addr
  used_pa :: addr
  vfree :: "nat \<Rightarrow> bool"
  used_idx :: u16
  info_b :: "nat \<Rightarrow> nat option"

record buf =
  bvalid :: bool
  bdisk :: bool
  bdev :: nat
  blockno :: nat
  refcnt :: nat
  bdata :: "u8 list"

text \<open>
  The memory the device has access to, and its medium. \<open>dhist\<close> is a history variable: the contents of the medium
  after each request the device has served, which statements about a crash between two requests refer to.
\<close>

type_synonym dma = "vq \<times> (nat \<Rightarrow> u8 list) \<times> (nat \<Rightarrow> u8 list)"

record kdsk = kuart +
  bufs :: "nat \<Rightarrow> buf"
  vq :: vq
  vdisk :: vdisk
  sectors :: "nat \<Rightarrow> u8 list"
  dhist :: "(nat \<Rightarrow> u8 list) list"
  device :: "dma \<Rightarrow> dma"

definition upd_buf :: "nat \<Rightarrow> (buf \<Rightarrow> buf) \<Rightarrow> 'z kdsk_scheme \<Rightarrow> 'z kdsk_scheme" where
  "upd_buf b f s = s\<lparr>bufs := (bufs s)(b := f (bufs s b))\<rparr>"

definition upd_vq :: "(vq \<Rightarrow> vq) \<Rightarrow> 'z kdsk_scheme \<Rightarrow> 'z kdsk_scheme" where
  "upd_vq f s = s\<lparr>vq := f (vq s)\<rparr>"

definition upd_vdisk :: "(vdisk \<Rightarrow> vdisk) \<Rightarrow> 'z kdsk_scheme \<Rightarrow> 'z kdsk_scheme" where
  "upd_vdisk f s = s\<lparr>vdisk := f (vdisk s)\<rparr>"

definition upd_desc :: "nat \<Rightarrow> virtq_desc \<Rightarrow> vq \<Rightarrow> vq" where
  "upd_desc i d q = q\<lparr>desc := (desc q)(i := d)\<rparr>"

section \<open>Initialisation\<close>

text \<open>\<open>R(r)\<close>, the 32-bit control registers.\<close>

definition vreg :: "u64 \<Rightarrow> u64" where
  "vreg r = VIRTIO0 + r"

definition vrd :: "u64 \<Rightarrow> 'z kio_scheme \<Rightarrow> u32" where
  "vrd r s = ucast (io_read (vreg r) s)"

definition vwr :: "u64 \<Rightarrow> u32 \<Rightarrow> 'z kio_scheme \<Rightarrow> 'z kio_scheme" where
  "vwr r v = io_write (vreg r) (ucast v)"

definition vq_zero :: vq where
  "vq_zero = \<lparr>desc = (\<lambda>_. \<lparr>d_addr = ANull, d_len = 0, d_flags = 0, d_next = 0\<rparr>), avail_idx = 0,
     avail_ring = (\<lambda>_. 0), used_i = 0, used_ring = (\<lambda>_. 0),
     ops = (\<lambda>_. \<lparr>r_type = 0, r_reserved = 0, r_sector = 0\<rparr>), istatus = (\<lambda>_. 0)\<rparr>"

text \<open>
  The features the driver refuses: read-only medium, SCSI commands, cache mode, several queues, any layout, the event
  index and indirect descriptors.
\<close>

definition vfeatures :: "u32 \<Rightarrow> u32" where
  "vfeatures f =
     f AND NOT (push_bit 5 1) AND NOT (push_bit 7 1) AND NOT (push_bit 11 1) AND NOT (push_bit 12 1)
       AND NOT (push_bit 27 1) AND NOT (push_bit 29 1) AND NOT (push_bit 28 1)"

text \<open>The part of \<open>virtio_disk_init\<close> that sets up queue 0, from the allocation of its three pages on.\<close>

definition virtio_queue_init :: "u32 \<Rightarrow> 'z kdsk_scheme \<Rightarrow> ('z kdsk_scheme, unit) res" where
  "virtio_queue_init status s =
     bindr (kalloc s) (\<lambda>d s.
     bindr (kalloc s) (\<lambda>a s.
     bindr (kalloc s) (\<lambda>u s.
     if d = 0 \<or> a = 0 \<or> u = 0 then Panic ''virtio disk kalloc''
     else let s = upd_vdisk (\<lambda>v. v\<lparr>desc_pa := d, avail_pa := a, used_pa := u\<rparr>) s;
              s = upd_vq (\<lambda>q. vq_zero\<lparr>ops := ops q, istatus := istatus q\<rparr>) s;
              s = vwr 0x038 (of_nat NUM) s;
              s = vwr 0x080 (word_of_int d) s;
              s = vwr 0x084 (word_of_int (d div 2 ^ 32)) s;
              s = vwr 0x090 (word_of_int a) s;
              s = vwr 0x094 (word_of_int (a div 2 ^ 32)) s;
              s = vwr 0x0a0 (word_of_int u) s;
              s = vwr 0x0a4 (word_of_int (u div 2 ^ 32)) s;
              s = vwr 0x044 1 s;
              s = upd_vdisk (\<lambda>v. v\<lparr>vfree := (\<lambda>i. i < NUM \<or> vfree v i)\<rparr>) s
          in Ok () (vwr 0x070 (status OR 4) s))))"

definition virtio_disk_init :: "'z kdsk_scheme \<Rightarrow> ('z kdsk_scheme, unit) res" where
  "virtio_disk_init s =
     (let s = initlk LkDisk ''virtio_disk'' s in
      if vrd 0x000 s \<noteq> 0x74726976 \<or> vrd 0x004 s \<noteq> 2 \<or> vrd 0x008 s \<noteq> 2 \<or> vrd 0x00c s \<noteq> 0x554d4551
      then Panic ''could not find virtio disk''
      else let s = vwr 0x070 0 s; status = 1;
               s = vwr 0x070 status s; status = status OR 2;
               s = vwr 0x070 status s;
               s = vwr 0x020 (vfeatures (vrd 0x010 s)) s; status = status OR 8;
               s = vwr 0x070 status s;
               status = vrd 0x070 s
           in if status AND 8 = 0 then Panic ''virtio disk FEATURES_OK unset''
              else let s = vwr 0x030 0 s in
                   if vrd 0x044 s \<noteq> 0 then Panic ''virtio disk should not be ready''
                   else let max = vrd 0x034 s in
                        if max = 0 then Panic ''virtio disk has no queue 0''
                        else if max < of_nat NUM then Panic ''virtio disk max queue too short''
                        else virtio_queue_init status s)"

section \<open>Descriptors\<close>

fun alloc_desc_loop :: "nat list \<Rightarrow> 'z kdsk_scheme \<Rightarrow> nat option \<times> 'z kdsk_scheme" where
  "alloc_desc_loop [] s = (None, s)"
| "alloc_desc_loop (i # is) s =
     (if vfree (vdisk s) i then (Some i, upd_vdisk (\<lambda>v. v\<lparr>vfree := (vfree v)(i := False)\<rparr>) s)
      else alloc_desc_loop is s)"

definition alloc_desc :: "'z kdsk_scheme \<Rightarrow> nat option \<times> 'z kdsk_scheme" where
  "alloc_desc = alloc_desc_loop [0..<NUM]"

definition free_desc :: "nat \<Rightarrow> 'z kdsk_scheme \<Rightarrow> ('z kdsk_scheme, unit) res" where
  "free_desc i s =
     (if i \<ge> NUM then Panic ''free_desc 1''
      else if vfree (vdisk s) i then Panic ''free_desc 2''
      else wakeup ChDiskFree
             (upd_vdisk (\<lambda>v. v\<lparr>vfree := (vfree v)(i := True)\<rparr>)
               (upd_vq (upd_desc i \<lparr>d_addr = ANull, d_len = 0, d_flags = 0, d_next = 0\<rparr>) s)))"

text \<open>Every round marks a used descriptor free, so the ninth would panic: a counter of \<open>NUM + 1\<close> never runs out.\<close>

fun free_chain_loop :: "nat \<Rightarrow> nat \<Rightarrow> 'z kdsk_scheme \<Rightarrow> ('z kdsk_scheme, unit) res" where
  "free_chain_loop 0 i s = Diverge"
| "free_chain_loop (Suc n) i s =
     (let flag = d_flags (desc (vq s) i); nxt = d_next (desc (vq s) i) in
      bindr (free_desc i s) (\<lambda>_ s.
      if (flag AND VRING_DESC_F_NEXT) \<noteq> 0 then free_chain_loop n nxt s else Ok () s))"

definition free_chain :: "nat \<Rightarrow> 'z kdsk_scheme \<Rightarrow> ('z kdsk_scheme, unit) res" where
  "free_chain = free_chain_loop (NUM + 1)"

fun free_descs :: "nat list \<Rightarrow> 'z kdsk_scheme \<Rightarrow> ('z kdsk_scheme, unit) res" where
  "free_descs [] s = Ok () s"
| "free_descs (i # is) s = bindr (free_desc i s) (\<lambda>_ s. free_descs is s)"

text \<open>\<open>alloc3_desc\<close>: \<open>idx\<close> holds the descriptors found so far.\<close>

fun alloc3_desc_loop :: "nat \<Rightarrow> nat list \<Rightarrow> 'z kdsk_scheme \<Rightarrow> ('z kdsk_scheme, nat list option) res" where
  "alloc3_desc_loop 0 idx s = Ok (Some idx) s"
| "alloc3_desc_loop (Suc n) idx s =
     (case alloc_desc s of
        (Some i, s) \<Rightarrow> alloc3_desc_loop n (idx @ [i]) s
      | (None, s) \<Rightarrow> bindr (free_descs idx s) (\<lambda>_ s. Ok None s))"

definition alloc3_desc :: "'z kdsk_scheme \<Rightarrow> ('z kdsk_scheme, nat list option) res" where
  "alloc3_desc = alloc3_desc_loop 3 []"

section \<open>Requests\<close>

text \<open>The three descriptors of a request for buffer \<open>b\<close>: header, data and status.\<close>

definition vformat :: "nat \<Rightarrow> nat \<Rightarrow> nat \<Rightarrow> nat \<Rightarrow> bool \<Rightarrow> nat \<Rightarrow> vq \<Rightarrow> vq" where
  "vformat i0 i1 i2 b write sector q =
     (let q = q\<lparr>ops := (ops q)(i0 := \<lparr>r_type = (if write then VIRTIO_BLK_T_OUT else VIRTIO_BLK_T_IN),
                                     r_reserved = 0, r_sector = sector\<rparr>)\<rparr>;
          q = upd_desc i0 \<lparr>d_addr = AOps i0, d_len = 16, d_flags = VRING_DESC_F_NEXT, d_next = i1\<rparr> q;
          q = upd_desc i1 \<lparr>d_addr = AData b, d_len = BSIZE,
                           d_flags = (if write then 0 else VRING_DESC_F_WRITE) OR VRING_DESC_F_NEXT, d_next = i2\<rparr> q;
          q = q\<lparr>istatus := (istatus q)(i0 := 0xff)\<rparr>
      in upd_desc i2 \<lparr>d_addr = AStatus i0, d_len = 1, d_flags = VRING_DESC_F_WRITE, d_next = 0\<rparr> q)"

text \<open>
  \<open>virtio_disk_rw\<close> up to the notification of the device, with the lock held. With fewer than three free descriptors
  the caller sleeps and tries again when it is woken.
\<close>

definition virtio_submit :: "nat \<Rightarrow> bool \<Rightarrow> 'z kdsk_scheme \<Rightarrow> ('z kdsk_scheme, nat) res" where
  "virtio_submit b write s =
     (let sector = blockno (bufs s b) * (BSIZE div 512) mod 2 ^ 32 in
      bindr (alloc3_desc s) (\<lambda>r s.
      case r of
        Some [i0, i1, i2] \<Rightarrow>
          let s = upd_vq (vformat i0 i1 i2 b write sector) s;
              s = upd_buf b (\<lambda>x. x\<lparr>bdisk := True\<rparr>) s;
              s = upd_vdisk (\<lambda>v. v\<lparr>info_b := (info_b v)(i0 := Some b)\<rparr>) s;
              s = upd_vq (\<lambda>q. q\<lparr>avail_ring := (avail_ring q)(unat (avail_idx q) mod NUM := i0)\<rparr>) s;
              s = upd_vq (\<lambda>q. q\<lparr>avail_idx := avail_idx q + 1\<rparr>) s
          in Ok i0 (vwr 0x050 0 s)
      | _ \<Rightarrow> sleep ChDiskFree LkDisk s))"

text \<open>
  The interrupt handler's loop over the used ring. The ring's index has 16 bits, so it can be at most 65535 entries
  ahead.
\<close>

fun virtio_intr_loop :: "nat \<Rightarrow> 'z kdsk_scheme \<Rightarrow> ('z kdsk_scheme, unit) res" where
  "virtio_intr_loop 0 s = (if used_idx (vdisk s) = used_i (vq s) then Ok () s else Diverge)"
| "virtio_intr_loop (Suc n) s =
     (if used_idx (vdisk s) = used_i (vq s) then Ok () s
      else let id = used_ring (vq s) (unat (used_idx (vdisk s)) mod NUM) in
           if id \<ge> NUM then Fault ''disk.info''
           else if istatus (vq s) id \<noteq> 0 then Panic ''virtio_disk_intr status''
           else orfault ''disk.info.b'' (info_b (vdisk s) id) (\<lambda>b.
                bindr (wakeup (ChDiskBuf b) (upd_buf b (\<lambda>x. x\<lparr>bdisk := False\<rparr>) s)) (\<lambda>_ s.
                virtio_intr_loop n (upd_vdisk (\<lambda>v. v\<lparr>used_idx := used_idx v + 1\<rparr>) s))))"

definition virtio_disk_intr :: "'z kdsk_scheme \<Rightarrow> ('z kdsk_scheme, unit) res" where
  "virtio_disk_intr =
     locking LkDisk (\<lambda>s. virtio_intr_loop (2 ^ 16) (vwr 0x064 (vrd 0x060 s AND 3) s))"

text \<open>The device works on the queue, the buffers' data and its medium.\<close>

definition device_step :: "'z kdsk_scheme \<Rightarrow> 'z kdsk_scheme" where
  "device_step s =
     (case device s (vq s, (\<lambda>b. bdata (bufs s b)), sectors s) of
        (q, d, m) \<Rightarrow> s\<lparr>vq := q, bufs := (\<lambda>b. (bufs s b)\<lparr>bdata := d b\<rparr>), sectors := m, dhist := dhist s @ [m]\<rparr>)"

text \<open>The wait for the request: the device completes it and interrupts while the process sleeps.\<close>

definition virtio_wait :: "nat \<Rightarrow> 'z kdsk_scheme \<Rightarrow> ('z kdsk_scheme, unit) res" where
  "virtio_wait b s =
     (if bdisk (bufs s b)
      then bindr (sleep_during (ChDiskBuf b) LkDisk (\<lambda>s. virtio_disk_intr (device_step s)) s) (\<lambda>_ s.
           if bdisk (bufs s b) then sleep (ChDiskBuf b) LkDisk s else Ok () s)
      else Ok () s)"

definition virtio_finish :: "nat \<Rightarrow> 'z kdsk_scheme \<Rightarrow> ('z kdsk_scheme, unit) res" where
  "virtio_finish i0 s =
     bindr (free_chain i0 (upd_vdisk (\<lambda>v. v\<lparr>info_b := (info_b v)(i0 := None)\<rparr>) s)) (\<lambda>_ s.
     rel LkDisk s)"

definition virtio_disk_rw :: "nat \<Rightarrow> bool \<Rightarrow> 'z kdsk_scheme \<Rightarrow> ('z kdsk_scheme, unit) res" where
  "virtio_disk_rw b write s =
     bindr (acq LkDisk s) (\<lambda>_ s.
     bindr (virtio_submit b write s) (\<lambda>i0 s.
     bindr (virtio_wait b s) (\<lambda>_ s.
     virtio_finish i0 s)))"

section \<open>What the device does\<close>

text \<open>
  One pending request served: the chain at the next entry of the available ring names a header, a data area and a
  status byte; the data are stored at or fetched from the sectors of the request, the status becomes 0, and the
  chain's head is appended to the used ring.
\<close>

definition vserve :: "dma \<Rightarrow> dma" where
  "vserve x =
     (case x of (q, d, m) \<Rightarrow>
        let h = avail_ring q (unat (used_i q) mod NUM);
            d0 = desc q h; d1 = desc q (d_next d0); d2 = desc q (d_next d1)
        in case (d_addr d0, d_addr d1, d_addr d2) of
             (AOps r, AData b, AStatus i) \<Rightarrow>
               let sec = r_sector (ops q r);
                   q' = q\<lparr>istatus := (istatus q)(i := 0),
                          used_ring := (used_ring q)(unat (used_i q) mod NUM := h), used_i := used_i q + 1\<rparr>
               in if r_type (ops q r) = VIRTIO_BLK_T_OUT
                  then (q', d, m(sec := take 512 (d b), Suc sec := drop 512 (d b)))
                  else (q', d(b := m sec @ m (Suc sec)), m)
           | _ \<Rightarrow> x)"

definition device_ok :: "(dma \<Rightarrow> dma) \<Rightarrow> bool" where
  "device_ok dev \<longleftrightarrow> (\<forall>q d m. avail_idx q = used_i q + 1 \<longrightarrow> dev (q, d, m) = vserve (q, d, m))"

lemma vserve_ok: "device_ok vserve"
  by (simp add: device_ok_def)

section \<open>A request is served\<close>

lemma upd_order_bufs [upd_order]:
  "s\<lparr>bufs := y, spin := x0\<rparr> = s\<lparr>spin := x0, bufs := y\<rparr>"
  "s\<lparr>bufs := y, procs := x1\<rparr> = s\<lparr>procs := x1, bufs := y\<rparr>"
  "s\<lparr>bufs := y, slocks := x2\<rparr> = s\<lparr>slocks := x2, bufs := y\<rparr>"
  "s\<lparr>bufs := y, iolog := x3\<rparr> = s\<lparr>iolog := x3, bufs := y\<rparr>"
  by (rule kdsk.equality; simp)+

lemma upd_order_vq [upd_order]:
  "s\<lparr>vq := y, spin := x0\<rparr> = s\<lparr>spin := x0, vq := y\<rparr>"
  "s\<lparr>vq := y, procs := x1\<rparr> = s\<lparr>procs := x1, vq := y\<rparr>"
  "s\<lparr>vq := y, slocks := x2\<rparr> = s\<lparr>slocks := x2, vq := y\<rparr>"
  "s\<lparr>vq := y, iolog := x3\<rparr> = s\<lparr>iolog := x3, vq := y\<rparr>"
  "s\<lparr>vq := y, bufs := x4\<rparr> = s\<lparr>bufs := x4, vq := y\<rparr>"
  by (rule kdsk.equality; simp)+

lemma upd_order_vdisk [upd_order]:
  "s\<lparr>vdisk := y, spin := x0\<rparr> = s\<lparr>spin := x0, vdisk := y\<rparr>"
  "s\<lparr>vdisk := y, procs := x1\<rparr> = s\<lparr>procs := x1, vdisk := y\<rparr>"
  "s\<lparr>vdisk := y, slocks := x2\<rparr> = s\<lparr>slocks := x2, vdisk := y\<rparr>"
  "s\<lparr>vdisk := y, iolog := x3\<rparr> = s\<lparr>iolog := x3, vdisk := y\<rparr>"
  "s\<lparr>vdisk := y, bufs := x4\<rparr> = s\<lparr>bufs := x4, vdisk := y\<rparr>"
  "s\<lparr>vdisk := y, vq := x5\<rparr> = s\<lparr>vq := x5, vdisk := y\<rparr>"
  by (rule kdsk.equality; simp)+

lemma upd_order_sectors [upd_order]:
  "s\<lparr>sectors := y, spin := x0\<rparr> = s\<lparr>spin := x0, sectors := y\<rparr>"
  "s\<lparr>sectors := y, procs := x1\<rparr> = s\<lparr>procs := x1, sectors := y\<rparr>"
  "s\<lparr>sectors := y, slocks := x2\<rparr> = s\<lparr>slocks := x2, sectors := y\<rparr>"
  "s\<lparr>sectors := y, iolog := x3\<rparr> = s\<lparr>iolog := x3, sectors := y\<rparr>"
  "s\<lparr>sectors := y, bufs := x4\<rparr> = s\<lparr>bufs := x4, sectors := y\<rparr>"
  "s\<lparr>sectors := y, vq := x5\<rparr> = s\<lparr>vq := x5, sectors := y\<rparr>"
  "s\<lparr>sectors := y, vdisk := x6\<rparr> = s\<lparr>vdisk := x6, sectors := y\<rparr>"
  by (rule kdsk.equality; simp)+

lemma upd_order_dhist [upd_order]:
  "s\<lparr>dhist := y, spin := x0\<rparr> = s\<lparr>spin := x0, dhist := y\<rparr>"
  "s\<lparr>dhist := y, procs := x1\<rparr> = s\<lparr>procs := x1, dhist := y\<rparr>"
  "s\<lparr>dhist := y, slocks := x2\<rparr> = s\<lparr>slocks := x2, dhist := y\<rparr>"
  "s\<lparr>dhist := y, iolog := x3\<rparr> = s\<lparr>iolog := x3, dhist := y\<rparr>"
  "s\<lparr>dhist := y, bufs := x4\<rparr> = s\<lparr>bufs := x4, dhist := y\<rparr>"
  "s\<lparr>dhist := y, vq := x5\<rparr> = s\<lparr>vq := x5, dhist := y\<rparr>"
  "s\<lparr>dhist := y, vdisk := x6\<rparr> = s\<lparr>vdisk := x6, dhist := y\<rparr>"
  "s\<lparr>dhist := y, sectors := x7\<rparr> = s\<lparr>sectors := x7, dhist := y\<rparr>"
  by (rule kdsk.equality; simp)+

text \<open>\<open>vidle\<close>: no request is pending, every descriptor is free.\<close>

definition vidle :: "'z kdsk_scheme \<Rightarrow> bool" where
  "vidle s \<longleftrightarrow> (\<forall>i < NUM. vfree (vdisk s) i) \<and> avail_idx (vq s) = used_i (vq s) \<and> used_idx (vdisk s) = used_i (vq s)"

text \<open>The queue and the driver's state while the one request, for buffer \<open>b\<close>, is pending, and the queue when it is served.\<close>

definition vpend :: "nat \<Rightarrow> bool \<Rightarrow> nat \<Rightarrow> vq \<Rightarrow> vq" where
  "vpend b write sec q =
     (vformat 0 1 2 b write sec q)\<lparr>avail_ring := (avail_ring q)(unat (avail_idx q) mod NUM := 0), avail_idx := avail_idx q + 1\<rparr>"

definition vbusy :: "nat \<Rightarrow> vdisk \<Rightarrow> vdisk" where
  "vbusy b v = v\<lparr>vfree := (vfree v)(0 := False, 1 := False, 2 := False), info_b := (info_b v)(0 := Some b)\<rparr>"

definition vdone :: "nat \<Rightarrow> bool \<Rightarrow> nat \<Rightarrow> vq \<Rightarrow> vq" where
  "vdone b write sec q =
     (vpend b write sec q)\<lparr>istatus := (istatus q)(0 := 0),
        used_ring := (used_ring q)(unat (used_i q) mod NUM := 0), used_i := used_i q + 1\<rparr>"

lemmas upd_defs = upd_buf_def upd_vq_def upd_vdisk_def upd_desc_def vwr_def io_write_def

lemma alloc3_idle:
  assumes "\<forall>i < NUM. vfree (vdisk s) i"
  shows "alloc3_desc s =
    Ok (Some [0, 1, 2]) (s\<lparr>vdisk := (vdisk s)\<lparr>vfree := (vfree (vdisk s))(0 := False, 1 := False, 2 := False)\<rparr>\<rparr>)"
proof -
  have u: "[0..<NUM] = [0, 1, 2, 3, 4, 5, 6, 7]" by (simp add: NUM_def upt_rec)
  have f: "vfree (vdisk s) 0" "vfree (vdisk s) 1" "vfree (vdisk s) 2" using assms by (simp_all add: NUM_def)
  have "alloc_desc s = (Some 0, s\<lparr>vdisk := (vdisk s)\<lparr>vfree := (vfree (vdisk s))(0 := False)\<rparr>\<rparr>)"
    using f by (simp add: alloc_desc_def u upd_vdisk_def)
  moreover have "alloc_desc (s\<lparr>vdisk := (vdisk s)\<lparr>vfree := (vfree (vdisk s))(0 := False)\<rparr>\<rparr>) =
      (Some 1, s\<lparr>vdisk := (vdisk s)\<lparr>vfree := (vfree (vdisk s))(0 := False, 1 := False)\<rparr>\<rparr>)"
    using f by (simp add: alloc_desc_def u upd_vdisk_def)
  moreover have "alloc_desc (s\<lparr>vdisk := (vdisk s)\<lparr>vfree := (vfree (vdisk s))(0 := False, 1 := False)\<rparr>\<rparr>) =
      (Some 2, s\<lparr>vdisk := (vdisk s)\<lparr>vfree := (vfree (vdisk s))(0 := False, 1 := False, 2 := False)\<rparr>\<rparr>)"
    using f by (simp add: alloc_desc_def u upd_vdisk_def)
  ultimately show ?thesis by (simp add: alloc3_desc_def numeral_3_eq_3)
qed

lemma submit_idle:
  assumes "\<forall>i < NUM. vfree (vdisk s) i"
  shows "virtio_submit b write s = Ok 0 (s\<lparr>iolog := iolog s @ [(vreg 0x050, 0)],
    bufs := (bufs s)(b := (bufs s b)\<lparr>bdisk := True\<rparr>),
    vq := vpend b write (blockno (bufs s b) * 2 mod 2 ^ 32) (vq s), vdisk := vbusy b (vdisk s)\<rparr>)"
  using alloc3_idle [OF assms]
  by (simp add: virtio_submit_def Let_def upd_defs upd_order vpend_def vbusy_def vformat_def BSIZE_def)

lemma vserve_pend:
  assumes "avail_idx q = used_i q"
  shows "vserve (vpend b write sec q, d, m) = (vdone b write sec q,
    (if write then d else d(b := m sec @ m (Suc sec))),
    (if write then m(sec := take 512 (d b), Suc sec := drop 512 (d b)) else m))"
  using assms by (simp add: vserve_def vpend_def vdone_def vformat_def upd_desc_def Let_def virtio_consts)

lemma device_step_pend:
  assumes "device_ok (device s)" and "vq s = vpend b write sec q" and "avail_idx q = used_i q"
  shows "device_step s = s\<lparr>bufs := (if write then bufs s else (bufs s)(b := (bufs s b)\<lparr>bdata := sectors s sec @ sectors s (Suc sec)\<rparr>)),
    vq := vdone b write sec q,
    sectors := (if write then (sectors s)(sec := take 512 (bdata (bufs s b)), Suc sec := drop 512 (bdata (bufs s b))) else sectors s),
    dhist := dhist s @ [(if write then (sectors s)(sec := take 512 (bdata (bufs s b)), Suc sec := drop 512 (bdata (bufs s b))) else sectors s)]\<rparr>"
proof -
  have "avail_idx (vq s) = used_i (vq s) + 1"
    using assms(2,3) by (simp add: vpend_def vformat_def upd_desc_def Let_def)
  then have "device s (vq s, d, m) = vserve (vq s, d, m)" for d m
    using assms(1) by (simp add: device_ok_def)
  moreover have "(\<lambda>b. (bufs s b)\<lparr>bdata := bdata (bufs s b)\<rparr>) = bufs s" by simp
  moreover have "(\<lambda>x. (bufs s x)\<lparr>bdata := ((\<lambda>b. bdata (bufs s b))(b := z)) x\<rparr>) = (bufs s)(b := (bufs s b)\<lparr>bdata := z\<rparr>)" for z
    by auto
  ultimately show ?thesis
    by (simp add: device_step_def assms(2) vserve_pend [OF assms(3)] upd_order)
qed

lemma wakeup_in_section:
  assumes "\<And>l. lk_free l sp" and "\<And>q. lk \<noteq> LkProc q" and "spin t = taken lk sp"
  shows "wakeup ch t = Ok () (t\<lparr>procs := woken ch (cpu_proc (mycpu sp)) {..<NPROC} (procs t)\<rparr>)"
proof -
  have ok: "cpu_ok sp" by (rule lk_free_ok [OF assms(1)])
  then have "cpu_ok (spin t)" "calm (spin t) = spin t" by (simp_all add: assms(3) taken_ok calm_taken)
  moreover have "lk_free (LkProc q) (spin t)" for q
    using lk_free_taken [OF assms(2) [of q] assms(1) assms(1)] by (simp add: assms(3))
  moreover have "t\<lparr>spin := spin t, procs := P\<rparr> = t\<lparr>procs := P\<rparr>" for P by simp
  ultimately show ?thesis using wakeup_ok [of t ch] by (simp add: assms(3))
qed

lemma vdone_simps [simp]:
  "used_i (vdone b w sec q) = used_i q + 1" "istatus (vdone b w sec q) 0 = 0"
  "used_ring (vdone b w sec q) (unat (used_i q) mod NUM) = 0" "avail_idx (vdone b w sec q) = avail_idx q + 1"
  by (simp_all add: vdone_def vpend_def)

lemma vdone_desc:
  "desc (vdone b w sec q) = (desc q)(0 := \<lparr>d_addr = AOps 0, d_len = 16, d_flags = 1, d_next = 1\<rparr>,
     1 := \<lparr>d_addr = AData b, d_len = BSIZE, d_flags = (if w then 0 else 2) OR 1, d_next = 2\<rparr>,
     2 := \<lparr>d_addr = AStatus 0, d_len = 1, d_flags = 2, d_next = 0\<rparr>)"
  by (simp add: vdone_def vpend_def vformat_def upd_desc_def Let_def virtio_consts)

lemma intr_served:
  assumes sp: "\<And>l. lk_free l sp" "calm sp = sp" "spin x = sp" and q: "vq x = vdone b w sec q"
    and u: "used_idx (vdisk x) = used_i q" and i: "info_b (vdisk x) 0 = Some b"
  shows "virtio_disk_intr x = Ok () (x\<lparr>procs := woken (ChDiskBuf b) (cpu_proc (mycpu sp)) {..<NPROC} (procs x),
    iolog := iolog x @ [(vreg 0x064, ucast (vrd 0x060 x AND 3))],
    bufs := (bufs x)(b := (bufs x b)\<lparr>bdisk := False\<rparr>), vdisk := (vdisk x)\<lparr>used_idx := used_i q + 1\<rparr>\<rparr>)"
proof -
  let ?f = "\<lambda>s. virtio_intr_loop (2 ^ 16) (vwr 0x064 (vrd 0x060 s AND 3) s)"
  let ?y = "x\<lparr>spin := taken LkDisk sp, iolog := iolog x @ [(vreg 0x064, ucast (vrd 0x060 x AND 3))]\<rparr>"
  let ?z = "?y\<lparr>bufs := (bufs x)(b := (bufs x b)\<lparr>bdisk := False\<rparr>)\<rparr>"
  have y: "vwr 0x064 (vrd 0x060 (x\<lparr>spin := taken LkDisk sp\<rparr>) AND 3) (x\<lparr>spin := taken LkDisk sp\<rparr>) = ?y"
    by (simp add: vwr_def io_write_def vrd_def io_read_def)
  have w: "wakeup (ChDiskBuf b) ?z = Ok () (?z\<lparr>procs := woken (ChDiskBuf b) (cpu_proc (mycpu sp)) {..<NPROC} (procs ?z)\<rparr>)"
    by (rule wakeup_in_section [of sp LkDisk, OF sp(1)]) simp_all
  obtain n where n: "(2::nat) ^ 16 = Suc (Suc n)" by (rule that [of 65534]) simp
  have "?f (x\<lparr>spin := taken LkDisk sp\<rparr>) = Ok () (?z\<lparr>procs := woken (ChDiskBuf b) (cpu_proc (mycpu sp)) {..<NPROC} (procs x),
      vdisk := (vdisk x)\<lparr>used_idx := used_i q + 1\<rparr>\<rparr>)"
    using w by (simp only: y n) (simp add: q u i NUM_def [symmetric] upd_buf_def upd_vdisk_def, simp add: NUM_def)
  from section_ok [where f = ?f and s = x, OF _ this [folded sp(3)]] sp
  show ?thesis by (simp add: virtio_disk_intr_def upd_order)
qed

lemma eased_sleep_cycle:
  "eased p P ((woken ch None A (P(p := x)))(p := P p))"
proof (unfold eased_def, rule allI)
  fix q
  show "((woken ch None A (P(p := x)))(p := P p)) q = P q \<or>
      q \<noteq> p \<and> pstate (P q) = SLEEPING \<and> ((woken ch None A (P(p := x)))(p := P p)) q = (P q)\<lparr>pstate := RUNNABLE\<rparr>"
    by (cases "q = p") (simp_all add: woken_def)
qed

lemma wait_served:
  assumes s: "quiet p s" and dev: "device_ok (device u)"
    and u: "spin u = taken LkDisk (spin s)" "procs u = procs s" "bdisk (bufs u b)" "vq u = vpend b w sec q"
      "avail_idx q = used_i q" "used_idx (vdisk u) = used_i q" "info_b (vdisk u) 0 = Some b"
  obtains P L where "eased p (procs s) P"
    "virtio_wait b u = Ok () (u\<lparr>procs := P, iolog := L,
       bufs := (bufs u)(b := (bufs u b)\<lparr>bdata := (if w then bdata (bufs u b) else sectors u sec @ sectors u (Suc sec)), bdisk := False\<rparr>),
       vq := vdone b w sec q, vdisk := (vdisk u)\<lparr>used_idx := used_i q + 1\<rparr>,
       sectors := (if w then (sectors u)(sec := take 512 (bdata (bufs u b)), Suc sec := drop 512 (bdata (bufs u b))) else sectors u),
       dhist := dhist u @ [(if w then (sectors u)(sec := take 512 (bdata (bufs u b)), Suc sec := drop 512 (bdata (bufs u b))) else sectors u)]\<rparr>)"
proof -
  note d = quiet_D [OF s]
  let ?x = "upd_proc p (\<lambda>x. x\<lparr>pchan := Some (ChDiskBuf b), pstate := SLEEPING\<rparr>) (u\<lparr>spin := parked (spin s)\<rparr>)"
  let ?B = "if w then bufs u else (bufs u)(b := (bufs u b)\<lparr>bdata := sectors u sec @ sectors u (Suc sec)\<rparr>)"
  let ?M = "if w then (sectors u)(sec := take 512 (bdata (bufs u b)), Suc sec := drop 512 (bdata (bufs u b))) else sectors u"
  define P0 where "P0 = (procs s)(p := (procs s p)\<lparr>pchan := Some (ChDiskBuf b), pstate := SLEEPING\<rparr>)"
  define y where "y = u\<lparr>spin := parked (spin s), procs := P0, bufs := ?B, vq := vdone b w sec q, sectors := ?M, dhist := dhist u @ [?M]\<rparr>"
  have y: "device_step ?x = y"
    by (subst device_step_pend [of _ b w sec q])
      (simp_all add: dev u upd_proc_def y_def P0_def)
  define t where "t = y\<lparr>procs := woken (ChDiskBuf b) None {..<NPROC} (procs y),
    iolog := iolog y @ [(vreg 0x064, ucast (vrd 0x060 y AND 3))],
    bufs := (bufs y)(b := (bufs y b)\<lparr>bdisk := False\<rparr>), vdisk := (vdisk y)\<lparr>used_idx := used_i q + 1\<rparr>\<rparr>"
  have t: "virtio_disk_intr (device_step ?x) = Ok () t"
    unfolding y t_def
    by (subst intr_served [of "parked (spin s)" _ b w sec q]) (simp_all add: y_def d(2,7) calm_parked u)
  have sp: "spin t = parked (spin s)" by (simp add: t_def y_def)
  have pr: "procs t = woken (ChDiskBuf b) None {..<NPROC} P0" by (simp add: t_def y_def)
  have pp: "procs t p = (procs s p)\<lparr>pchan := Some (ChDiskBuf b), pstate := RUNNABLE\<rparr>"
    using d(4) by (simp add: pr woken_def P0_def)
  have fr: "t = u\<lparr>spin := parked (spin s), procs := procs t, iolog := iolog t,
    bufs := (bufs u)(b := (bufs u b)\<lparr>bdata := (if w then bdata (bufs u b) else sectors u sec @ sectors u (Suc sec)), bdisk := False\<rparr>),
    vq := vdone b w sec q, vdisk := (vdisk u)\<lparr>used_idx := used_i q + 1\<rparr>, sectors := ?M, dhist := dhist u @ [?M]\<rparr>"
    by (rule kdsk.equality) (simp_all add: t_def y_def)
  let ?P = "(procs t)(p := procs s p)"
  have "sleep_during (ChDiskBuf b) LkDisk (\<lambda>s. virtio_disk_intr (device_step s)) u =
      Ok () (t\<lparr>spin := taken LkDisk (spin s), procs := ?P\<rparr>)"
    by (rule sleep_during_ok [where f = "\<lambda>s. virtio_disk_intr (device_step s)", OF s u(1) _ _ t sp pp]) (simp_all add: u(2))
  moreover have "\<not> bdisk (bufs t b)" by (simp add: t_def)
  ultimately have "virtio_wait b u = Ok () (t\<lparr>spin := taken LkDisk (spin s), procs := ?P\<rparr>)"
    by (simp add: virtio_wait_def u(3))
  moreover have "u\<lparr>spin := taken LkDisk (spin s)\<rparr> = u" by (simp add: u(1) [symmetric])
  ultimately have "virtio_wait b u = Ok () (u\<lparr>procs := ?P, iolog := iolog t,
       bufs := (bufs u)(b := (bufs u b)\<lparr>bdata := (if w then bdata (bufs u b) else sectors u sec @ sectors u (Suc sec)), bdisk := False\<rparr>),
       vq := vdone b w sec q, vdisk := (vdisk u)\<lparr>used_idx := used_i q + 1\<rparr>,
       sectors := (if w then (sectors u)(sec := take 512 (bdata (bufs u b)), Suc sec := drop 512 (bdata (bufs u b))) else sectors u),
       dhist := dhist u @ [(if w then (sectors u)(sec := take 512 (bdata (bufs u b)), Suc sec := drop 512 (bdata (bufs u b))) else sectors u)]\<rparr>)"
    by (subst (asm) fr) (simp add: upd_order)
  moreover have "eased p (procs s) ?P"
    unfolding pr P0_def by (rule eased_sleep_cycle)
  ultimately show ?thesis by (rule that [rotated])
qed

lemma free_desc_in_section:
  assumes "\<And>l. lk_free l sp" and "spin x = taken LkDisk sp" and "i < NUM" and "\<not> vfree (vdisk x) i"
  shows "free_desc i x = Ok () (x\<lparr>procs := woken ChDiskFree (cpu_proc (mycpu sp)) {..<NPROC} (procs x),
    vq := upd_desc i \<lparr>d_addr = ANull, d_len = 0, d_flags = 0, d_next = 0\<rparr> (vq x),
    vdisk := (vdisk x)\<lparr>vfree := (vfree (vdisk x))(i := True)\<rparr>\<rparr>)"
proof -
  let ?y = "x\<lparr>vq := upd_desc i \<lparr>d_addr = ANull, d_len = 0, d_flags = 0, d_next = 0\<rparr> (vq x),
    vdisk := (vdisk x)\<lparr>vfree := (vfree (vdisk x))(i := True)\<rparr>\<rparr>"
  have "wakeup ChDiskFree ?y = Ok () (?y\<lparr>procs := woken ChDiskFree (cpu_proc (mycpu sp)) {..<NPROC} (procs ?y)\<rparr>)"
    by (rule wakeup_in_section [of sp LkDisk]) (simp_all add: assms)
  then show ?thesis using assms(3,4) by (simp add: free_desc_def upd_vdisk_def upd_vq_def upd_order)
qed

text \<open>The driver's and the queue's state when the three descriptors of a request have been freed.\<close>

definition vfreed :: "vq \<Rightarrow> vq" where
  "vfreed q = (let z = \<lparr>d_addr = ANull, d_len = 0, d_flags = 0, d_next = 0\<rparr> in
     upd_desc 2 z (upd_desc 1 z (upd_desc 0 z q)))"

lemma vfreed_simps [simp]: "used_i (vfreed q) = used_i q" "avail_idx (vfreed q) = avail_idx q"
  by (simp_all add: vfreed_def upd_desc_def Let_def)

lemma free_chain_request:
  assumes sp: "\<And>l. lk_free l sp" "cpu_proc (mycpu sp) = Some p" and x: "spin x = taken LkDisk sp" "vq x = vdone b w sec q"
    and f: "\<not> vfree (vdisk x) 0" "\<not> vfree (vdisk x) 1" "\<not> vfree (vdisk x) 2"
  obtains P where "eased p (procs x) P"
    "free_chain 0 x = Ok () (x\<lparr>procs := P, vq := vfreed (vq x),
       vdisk := (vdisk x)\<lparr>vfree := (vfree (vdisk x))(0 := True, 1 := True, 2 := True)\<rparr>\<rparr>)"
proof -
  let ?w = "woken ChDiskFree (Some p) {..<NPROC}"
  let ?z = "\<lparr>d_addr = ANull, d_len = 0, d_flags = 0, d_next = 0\<rparr>"
  let ?P = "?w (?w (?w (procs x)))"
  define y1 where "y1 = x\<lparr>procs := ?w (procs x), vq := upd_desc 0 ?z (vq x), vdisk := (vdisk x)\<lparr>vfree := (vfree (vdisk x))(0 := True)\<rparr>\<rparr>"
  define y2 where "y2 = y1\<lparr>procs := ?w (procs y1), vq := upd_desc 1 ?z (vq y1), vdisk := (vdisk y1)\<lparr>vfree := (vfree (vdisk y1))(1 := True)\<rparr>\<rparr>"
  define y3 where "y3 = y2\<lparr>procs := ?w (procs y2), vq := upd_desc 2 ?z (vq y2), vdisk := (vdisk y2)\<lparr>vfree := (vfree (vdisk y2))(2 := True)\<rparr>\<rparr>"
  have 1: "free_desc 0 x = Ok () y1"
    using free_desc_in_section [OF sp(1) x(1), of 0] f by (simp add: y1_def sp(2) NUM_def)
  have 2: "free_desc 1 y1 = Ok () y2"
    using free_desc_in_section [OF sp(1), of y1 1] f x(1) by (simp add: y2_def y1_def sp(2) NUM_def)
  have 3: "free_desc 2 y2 = Ok () y3"
    using free_desc_in_section [OF sp(1), of y2 2] f x(1) by (simp add: y3_def y2_def y1_def sp(2) NUM_def)
  have dx: "desc (vq x) 0 = \<lparr>d_addr = AOps 0, d_len = 16, d_flags = 1, d_next = 1\<rparr>"
    "desc (vq y1) 1 = \<lparr>d_addr = AData b, d_len = BSIZE, d_flags = (if w then 0 else 2) OR 1, d_next = 2\<rparr>"
    "desc (vq y2) 2 = \<lparr>d_addr = AStatus 0, d_len = 1, d_flags = 2, d_next = 0\<rparr>"
    by (simp_all add: x(2) vdone_desc y1_def y2_def upd_desc_def)
  have n: "NUM + 1 = Suc (Suc (Suc 6))" by (simp add: NUM_def)
  have "free_chain 0 x = Ok () y3"
    unfolding free_chain_def n free_chain_loop.simps
    by (simp add: Let_def 1 2 3 dx VRING_DESC_F_NEXT_def del: One_nat_def)
  also have "y3 = x\<lparr>procs := ?P, vq := vfreed (vq x),
       vdisk := (vdisk x)\<lparr>vfree := (vfree (vdisk x))(0 := True, 1 := True, 2 := True)\<rparr>\<rparr>"
    by (simp add: y3_def y2_def y1_def vfreed_def Let_def upd_order)
  finally show ?thesis
    by (rule that [rotated]) (meson eased_trans eased_woken)
qed

text \<open>The contents of a block on the medium.\<close>

definition dblock :: "'z kdsk_scheme \<Rightarrow> nat \<Rightarrow> u8 list" where
  "dblock s n = sectors s (2 * n) @ sectors s (Suc (2 * n))"

lemma virtio_rw_done:
  assumes s: "quiet p s" and v: "vidle s" and dev: "device_ok (device s)" and b: "\<not> bdisk (bufs s b)"
    and n: "blockno (bufs s b) < 2 ^ 31"
  obtains P L Q V where "eased p (procs s) P"
    "virtio_disk_rw b w s = Ok () (s\<lparr>procs := P, iolog := L,
       bufs := (bufs s)(b := (bufs s b)\<lparr>bdata := (if w then bdata (bufs s b) else dblock s (blockno (bufs s b)))\<rparr>),
       vq := Q, vdisk := V,
       sectors := (if w then (sectors s)(2 * blockno (bufs s b) := take 512 (bdata (bufs s b)),
                     Suc (2 * blockno (bufs s b)) := drop 512 (bdata (bufs s b))) else sectors s),
       dhist := dhist s @ [(if w then (sectors s)(2 * blockno (bufs s b) := take 512 (bdata (bufs s b)),
                     Suc (2 * blockno (bufs s b)) := drop 512 (bdata (bufs s b))) else sectors s)]\<rparr>)"
    "\<forall>i < NUM. vfree V i" "avail_idx Q = used_i Q" "used_idx V = used_i Q"
proof -
  note d = quiet_D [OF s]
  define sec where "sec = 2 * blockno (bufs s b)"
  have sec: "blockno (bufs s b) * 2 mod 2 ^ 32 = sec" using n by (simp add: sec_def)
  have vi: "\<forall>i < NUM. vfree (vdisk s) i" "avail_idx (vq s) = used_i (vq s)" "used_idx (vdisk s) = used_i (vq s)"
    using v by (simp_all add: vidle_def)
  define u where "u = s\<lparr>spin := taken LkDisk (spin s), iolog := iolog s @ [(vreg 0x050, 0)],
    bufs := (bufs s)(b := (bufs s b)\<lparr>bdisk := True\<rparr>), vq := vpend b w sec (vq s), vdisk := vbusy b (vdisk s)\<rparr>"
  have 1: "acq LkDisk s = Ok () (s\<lparr>spin := taken LkDisk (spin s)\<rparr>)" by (rule acq_free [OF d(7)])
  have 2: "virtio_submit b w (s\<lparr>spin := taken LkDisk (spin s)\<rparr>) = Ok 0 u"
    by (subst submit_idle) (simp_all add: vi(1) sec [simplified] u_def)
  obtain P L where e1: "eased p (procs s) P" and 3: "virtio_wait b u = Ok () (u\<lparr>procs := P, iolog := L,
       bufs := (bufs u)(b := (bufs u b)\<lparr>bdata := (if w then bdata (bufs u b) else sectors u sec @ sectors u (Suc sec)), bdisk := False\<rparr>),
       vq := vdone b w sec (vq s), vdisk := (vdisk u)\<lparr>used_idx := used_i (vq s) + 1\<rparr>,
       sectors := (if w then (sectors u)(sec := take 512 (bdata (bufs u b)), Suc sec := drop 512 (bdata (bufs u b))) else sectors u),
       dhist := dhist u @ [(if w then (sectors u)(sec := take 512 (bdata (bufs u b)), Suc sec := drop 512 (bdata (bufs u b))) else sectors u)]\<rparr>)"
    by (rule wait_served [OF s, of u b w sec "vq s"]) (simp_all add: u_def dev vi vbusy_def)
  define x where "x = u\<lparr>procs := P, iolog := L,
       bufs := (bufs s)(b := (bufs s b)\<lparr>bdata := (if w then bdata (bufs s b) else dblock s (blockno (bufs s b)))\<rparr>),
       vq := vdone b w sec (vq s), vdisk := (vdisk u)\<lparr>used_idx := used_i (vq s) + 1, info_b := (info_b (vdisk u))(0 := None)\<rparr>,
       sectors := (if w then (sectors s)(sec := take 512 (bdata (bufs s b)), Suc sec := drop 512 (bdata (bufs s b))) else sectors s),
       dhist := dhist s @ [(if w then (sectors s)(sec := take 512 (bdata (bufs s b)), Suc sec := drop 512 (bdata (bufs s b))) else sectors s)]\<rparr>"
  have "(bufs s b)\<lparr>bdata := z, bdisk := False\<rparr> = (bufs s b)\<lparr>bdata := z\<rparr>" for z
    using b by (cases "bufs s b") simp
  then have x: "upd_vdisk (\<lambda>v. v\<lparr>info_b := (info_b v)(0 := None)\<rparr>) (u\<lparr>procs := P, iolog := L,
       bufs := (bufs u)(b := (bufs u b)\<lparr>bdata := (if w then bdata (bufs u b) else sectors u sec @ sectors u (Suc sec)), bdisk := False\<rparr>),
       vq := vdone b w sec (vq s), vdisk := (vdisk u)\<lparr>used_idx := used_i (vq s) + 1\<rparr>,
       sectors := (if w then (sectors u)(sec := take 512 (bdata (bufs u b)), Suc sec := drop 512 (bdata (bufs u b))) else sectors u),
       dhist := dhist u @ [(if w then (sectors u)(sec := take 512 (bdata (bufs u b)), Suc sec := drop 512 (bdata (bufs u b))) else sectors u)]\<rparr>) = x"
    by (simp add: x_def u_def upd_vdisk_def upd_order sec_def dblock_def)
  obtain P2 where e2: "eased p (procs x) P2" and 4: "free_chain 0 x = Ok () (x\<lparr>procs := P2, vq := vfreed (vq x),
       vdisk := (vdisk x)\<lparr>vfree := (vfree (vdisk x))(0 := True, 1 := True, 2 := True)\<rparr>\<rparr>)"
    by (rule free_chain_request [OF d(7,8), of x b w sec "vq s"]) (simp_all add: x_def u_def vbusy_def)
  let ?V = "(vdisk x)\<lparr>vfree := (vfree (vdisk x))(0 := True, 1 := True, 2 := True)\<rparr>"
  let ?y = "x\<lparr>procs := P2, vq := vfreed (vq x), vdisk := ?V\<rparr>"
  have 5: "rel LkDisk ?y = Ok () (?y\<lparr>spin := spin s\<rparr>)"
    using rel_taken [OF _ d(7), of ?y] by (simp add: x_def u_def d(2))
  have "virtio_disk_rw b w s = Ok () (?y\<lparr>spin := spin s\<rparr>)"
    by (simp add: virtio_disk_rw_def 1 2 3 virtio_finish_def x 4 5 del: One_nat_def)
  also have "?y\<lparr>spin := spin s\<rparr> = s\<lparr>procs := P2, iolog := L,
       bufs := (bufs s)(b := (bufs s b)\<lparr>bdata := (if w then bdata (bufs s b) else dblock s (blockno (bufs s b)))\<rparr>),
       vq := vfreed (vq x), vdisk := ?V,
       sectors := (if w then (sectors s)(2 * blockno (bufs s b) := take 512 (bdata (bufs s b)),
                     Suc (2 * blockno (bufs s b)) := drop 512 (bdata (bufs s b))) else sectors s),
       dhist := dhist s @ [(if w then (sectors s)(2 * blockno (bufs s b) := take 512 (bdata (bufs s b)),
                     Suc (2 * blockno (bufs s b)) := drop 512 (bdata (bufs s b))) else sectors s)]\<rparr>"
    by (rule kdsk.equality) (simp_all add: x_def u_def sec_def)
  finally show ?thesis
    using vi e1 e2 by (intro that [where P = P2 and L = L and Q = "vfreed (vq x)" and V = ?V]) (auto simp: x_def u_def vbusy_def intro: eased_trans)
qed

section \<open>The disk driver transfers blocks\<close>


definition run_spin :: spinst where
  "run_spin = \<lparr>locks = (\<lambda>_. \<lparr>locked = False, lkname = [], lkcpu = None\<rparr>),
     cpus = (\<lambda>_. \<lparr>cpu_proc = Some 0, noff = 0, intena = True\<rparr>), sie = (\<lambda>_. True), hart = 0\<rparr>"

definition run_disk :: "buf \<Rightarrow> (nat \<Rightarrow> u8 list) \<Rightarrow> kdsk" where
  "run_disk b m = \<lparr>spin = run_spin, procs = (\<lambda>_. no_proc\<lparr>pstate := RUNNING, pid := 1\<rparr>), nextpid = 2, initproc = Some 0,
     buddy = full_heap, ptes = (\<lambda>_. 0), bytes = (\<lambda>_. 0), kernel_pagetable = 0, satp = (\<lambda>_. 0),
     slocks = (\<lambda>_. \<lparr>sl_locked = False, sl_name = [], sl_pid = 0\<rparr>), iolog = [], ioclock = 0, iord = (\<lambda>_ _ _. 0),
     uart_tx_buf = (\<lambda>_. 0), uart_tx_w = 0, uart_tx_r = 0, panicked = False, pr_locking = False,
     bufs = (\<lambda>_. b), vq = vq_zero,
     vdisk = \<lparr>desc_pa = 0, avail_pa = 0, used_pa = 0, vfree = (\<lambda>_. True), used_idx = 0, info_b = (\<lambda>_. None)\<rparr>,
     sectors = m, dhist = [], device = vserve\<rparr>"

lemma run_spin_free: "lk_free lk run_spin"
  by (simp add: lk_free_def run_spin_def cpu_ok_def mycpu_def)

lemma run_spin_simps: "calm run_spin = run_spin" "mycpu run_spin = \<lparr>cpu_proc = Some 0, noff = 0, intena = True\<rparr>"
  by (simp_all add: run_spin_def calm_def spin_defs fun_eq_iff)

lemma run_disk_quiet: "quiet 0 (run_disk b m)" "vidle (run_disk b m)"
  by (simp_all add: quiet_def calm_in_def run_disk_def run_spin_free run_spin_simps no_proc_def NPROC_def vidle_def vq_zero_def)


end
