(* ===== verification/Bio.thy ===== *)
theory Bio
  imports Virtio
begin

text \<open>
  The buffer cache, \<open>kernel/bio.c\<close>. Buffer \<open>i\<close> of \<open>bcache.buf\<close> is the index \<open>i\<close>; its \<open>next\<close> and \<open>prev\<close> pointers are at
  the address \<open>i\<close> of the split heap \<open>blist\<close>, those of \<open>bcache.head\<close> at the address \<open>NBUF\<close>. Device and block numbers and
  reference counts are unsigned 32-bit integers.
\<close>

text \<open>Conversion of a C \<open>int\<close> to \<open>uint\<close>, and \<open>++\<close> and \<open>--\<close> on a \<open>uint\<close>.\<close>

definition u32_of :: "int \<Rightarrow> nat" where
  "u32_of x = nat (x mod 2 ^ 32)"

definition inc32 :: "nat \<Rightarrow> nat" where
  "inc32 n = (n + 1) mod 2 ^ 32"

definition dec32 :: "nat \<Rightarrow> nat" where
  "dec32 n = (n + 2 ^ 32 - 1) mod 2 ^ 32"

record kbio = kdsk +
  blist :: lheap

abbreviation bhead :: addr where "bhead \<equiv> int NBUF"

definition upd_blist :: "(lheap \<Rightarrow> lheap) \<Rightarrow> 'z kbio_scheme \<Rightarrow> 'z kbio_scheme" where
  "upd_blist f s = s\<lparr>blist := f (blist s)\<rparr>"

text \<open>The two halves of the list surgery in \<open>binit\<close> and \<open>brelse\<close>.\<close>

definition blink :: "nat \<Rightarrow> lheap \<Rightarrow> lheap" where
  "blink b h =
     (let h = h\<lparr>lnext := (lnext h)(int b := lnext h bhead)\<rparr>;
          h = h\<lparr>lprev := (lprev h)(int b := bhead)\<rparr>;
          h = h\<lparr>lprev := (lprev h)(lnext h bhead := int b)\<rparr>
      in h\<lparr>lnext := (lnext h)(bhead := int b)\<rparr>)"

definition bunlink :: "nat \<Rightarrow> lheap \<Rightarrow> lheap" where
  "bunlink b h =
     (let h = h\<lparr>lprev := (lprev h)(lnext h (int b) := lprev h (int b))\<rparr>
      in h\<lparr>lnext := (lnext h)(lprev h (int b) := lnext h (int b))\<rparr>)"

fun binit_loop :: "nat list \<Rightarrow> 'z kbio_scheme \<Rightarrow> 'z kbio_scheme" where
  "binit_loop [] s = s"
| "binit_loop (b # bs) s = binit_loop bs (upd_blist (blink b) (initsleeplock (SlBuf b) ''buffer'' s))"

definition binit :: "'z kbio_scheme \<Rightarrow> 'z kbio_scheme" where
  "binit s =
     (let s = initlk LkBcache ''bcache'' s;
          s = upd_blist (\<lambda>h. h\<lparr>lprev := (lprev h)(bhead := bhead)\<rparr>) s;
          s = upd_blist (\<lambda>h. h\<lparr>lnext := (lnext h)(bhead := bhead)\<rparr>) s
      in binit_loop [0..<NBUF] s)"

text \<open>
  The two scans of \<open>bget\<close>, forwards for the block and backwards for an unused buffer. The list has \<open>NBUF\<close> elements,
  so a counter of \<open>NBUF + 1\<close> is enough; the outcome is \<open>Diverge\<close> where a broken list would make the loop endless.
\<close>

fun bget_find :: "nat \<Rightarrow> addr \<Rightarrow> nat \<Rightarrow> nat \<Rightarrow> 'z kbio_scheme \<Rightarrow> ('z kbio_scheme, nat option) res" where
  "bget_find 0 a dev bno s = Diverge"
| "bget_find (Suc n) a dev bno s =
     (if a = bhead then Ok None s
      else if bdev (bufs s (nat a)) = dev \<and> blockno (bufs s (nat a)) = bno then Ok (Some (nat a)) s
      else bget_find n (lnext (blist s) a) dev bno s)"

fun bget_unused :: "nat \<Rightarrow> addr \<Rightarrow> 'z kbio_scheme \<Rightarrow> ('z kbio_scheme, nat option) res" where
  "bget_unused 0 a s = Diverge"
| "bget_unused (Suc n) a s =
     (if a = bhead then Ok None s
      else if refcnt (bufs s (nat a)) = 0 then Ok (Some (nat a)) s
      else bget_unused n (lprev (blist s) a) s)"

definition bget :: "nat \<Rightarrow> nat \<Rightarrow> 'z kbio_scheme \<Rightarrow> ('z kbio_scheme, nat) res" where
  "bget dev bno s =
     bindr (acq LkBcache s) (\<lambda>_ s.
     bindr (bget_find (NBUF + 1) (lnext (blist s) bhead) dev bno s) (\<lambda>r s.
     case r of
       Some b \<Rightarrow>
         bindr (rel LkBcache (upd_buf b (\<lambda>x. x\<lparr>refcnt := inc32 (refcnt x)\<rparr>) s)) (\<lambda>_ s.
         bindr (acquiresleep (SlBuf b) s) (\<lambda>_ s. Ok b s))
     | None \<Rightarrow>
         bindr (bget_unused (NBUF + 1) (lprev (blist s) bhead) s) (\<lambda>r s.
         case r of
           Some b \<Rightarrow>
             bindr (rel LkBcache (upd_buf b (\<lambda>x. x\<lparr>bdev := dev, blockno := bno, bvalid := False, refcnt := 1\<rparr>) s)) (\<lambda>_ s.
             bindr (acquiresleep (SlBuf b) s) (\<lambda>_ s. Ok b s))
         | None \<Rightarrow> Panic ''bget: no buffers'')))"

definition bread :: "nat \<Rightarrow> nat \<Rightarrow> 'z kbio_scheme \<Rightarrow> ('z kbio_scheme, nat) res" where
  "bread dev bno s =
     bindr (bget dev bno s) (\<lambda>b s.
     if \<not> bvalid (bufs s b)
     then bindr (virtio_disk_rw b False s) (\<lambda>_ s. Ok b (upd_buf b (\<lambda>x. x\<lparr>bvalid := True\<rparr>) s))
     else Ok b s)"

definition bwrite :: "nat \<Rightarrow> 'z kbio_scheme \<Rightarrow> ('z kbio_scheme, unit) res" where
  "bwrite b s =
     bindr (holdingsleep (SlBuf b) s) (\<lambda>h s.
     if \<not> h then Panic ''bwrite'' else virtio_disk_rw b True s)"

definition brelse :: "nat \<Rightarrow> 'z kbio_scheme \<Rightarrow> ('z kbio_scheme, unit) res" where
  "brelse b s =
     bindr (holdingsleep (SlBuf b) s) (\<lambda>h s.
     if \<not> h then Panic ''brelse''
     else bindr (releasesleep (SlBuf b) s) (\<lambda>_ s.
          locking LkBcache (\<lambda>s.
            let s = upd_buf b (\<lambda>x. x\<lparr>refcnt := dec32 (refcnt x)\<rparr>) s in
            Ok () (if refcnt (bufs s b) = 0 then upd_blist (\<lambda>h. blink b (bunlink b h)) s else s)) s))"

definition bpin :: "nat \<Rightarrow> 'z kbio_scheme \<Rightarrow> ('z kbio_scheme, unit) res" where
  "bpin b = locking LkBcache (\<lambda>s. Ok () (upd_buf b (\<lambda>x. x\<lparr>refcnt := inc32 (refcnt x)\<rparr>) s))"

definition bunpin :: "nat \<Rightarrow> 'z kbio_scheme \<Rightarrow> ('z kbio_scheme, unit) res" where
  "bunpin b = locking LkBcache (\<lambda>s. Ok () (upd_buf b (\<lambda>x. x\<lparr>refcnt := dec32 (refcnt x)\<rparr>) s))"

end
