(* ===== verification/Encode.thy ===== *)
theory Encode
  imports Prelude
begin

text \<open>
  C objects inside a block of bytes: unsigned integers in little-endian order, read from and written at an offset.
  A structure that lies in a buffer's data is accessed through these.
\<close>

primrec le_bytes :: "nat \<Rightarrow> nat \<Rightarrow> u8 list" where
  "le_bytes 0 k = []"
| "le_bytes (Suc n) k = of_nat k # le_bytes n (k div 256)"

primrec le_val :: "u8 list \<Rightarrow> nat" where
  "le_val [] = 0"
| "le_val (b # bs) = unat b + 256 * le_val bs"

definition put_at :: "nat \<Rightarrow> u8 list \<Rightarrow> u8 list \<Rightarrow> u8 list" where
  "put_at off bs d = take off d @ bs @ drop (off + length bs) d"

definition get_at :: "nat \<Rightarrow> nat \<Rightarrow> u8 list \<Rightarrow> u8 list" where
  "get_at off n d = take n (drop off d)"

definition rd16 :: "nat \<Rightarrow> u8 list \<Rightarrow> nat" where
  "rd16 off d = le_val (get_at off 2 d)"

definition rd32 :: "nat \<Rightarrow> u8 list \<Rightarrow> nat" where
  "rd32 off d = le_val (get_at off 4 d)"

definition wr16 :: "nat \<Rightarrow> nat \<Rightarrow> u8 list \<Rightarrow> u8 list" where
  "wr16 off v = put_at off (le_bytes 2 v)"

definition wr32 :: "nat \<Rightarrow> nat \<Rightarrow> u8 list \<Rightarrow> u8 list" where
  "wr32 off v = put_at off (le_bytes 4 v)"

text \<open>The signed reading of an unsigned 16-bit or 32-bit value.\<close>

definition s16 :: "nat \<Rightarrow> int" where
  "s16 v = (int v + 2 ^ 15) mod 2 ^ 16 - 2 ^ 15"

lemma length_le_bytes [simp]: "length (le_bytes n k) = n"
  by (induction n arbitrary: k) simp_all

lemma le_val_le_bytes: "le_val (le_bytes n k) = k mod 256 ^ n"
proof (induction n arbitrary: k)
  case (Suc n)
  have "unat (of_nat k :: u8) = k mod 256" by (simp add: unat_of_nat)
  with Suc show ?case by (simp add: mod_mult2_eq)
qed simp

lemma le_val_less: "le_val bs < 256 ^ length bs"
proof (induction bs)
  case (Cons b bs)
  have "unat b < 256" using unsigned_less [of b, where 'a = nat] by simp
  with Cons show ?case by simp
qed simp

lemma le_bytes_le_val: "le_bytes (length bs) (le_val bs) = bs"
proof (induction bs)
  case (Cons b bs)
  have b: "unat b < 256" using unsigned_less [of b, where 'a = nat] by simp
  have "of_nat (unat b + 256 * le_val bs) = (of_nat (unat b) :: u8) + 256 * of_nat (le_val bs)" by simp
  also have "(256 :: u8) = 0" by simp
  finally have "of_nat (unat b + 256 * le_val bs) = b" by simp
  with Cons b show ?case by simp
qed simp

lemma length_put_at [simp]: "off + length bs \<le> length d \<Longrightarrow> length (put_at off bs d) = length d"
  by (simp add: put_at_def)

lemma length_get_at [simp]: "off + n \<le> length d \<Longrightarrow> length (get_at off n d) = n"
  by (simp add: get_at_def)

lemma get_put_same: "off \<le> length d \<Longrightarrow> n = length bs \<Longrightarrow> get_at off n (put_at off bs d) = bs"
  by (simp add: put_at_def get_at_def)

lemma get_put_disjoint:
  assumes "off' + n \<le> off \<or> off + length bs \<le> off'" and "off + length bs \<le> length d"
  shows "get_at off' n (put_at off bs d) = get_at off' n d"
proof (rule disjE [OF assms(1)])
  assume "off' + n \<le> off"
  then show ?thesis using assms(2)
    by (auto simp: put_at_def get_at_def drop_take min_def)
next
  assume "off + length bs \<le> off'"
  then show ?thesis using assms(2)
    by (auto simp: put_at_def get_at_def)
qed

lemma put_get_same: "put_at off (get_at off n d) d = d"
proof (cases "off + n \<le> length d")
  case True
  then show ?thesis by (simp add: put_at_def get_at_def) (metis append_take_drop_id add.commute drop_drop)
next
  case False
  then show ?thesis by (simp add: put_at_def get_at_def)
qed

lemma put_put_same: "off \<le> length d \<Longrightarrow> length bs = length cs \<Longrightarrow> put_at off bs (put_at off cs d) = put_at off bs d"
  by (simp add: put_at_def)

lemma length_wr [simp]:
  "off + 2 \<le> length d \<Longrightarrow> length (wr16 off v d) = length d"
  "off + 4 \<le> length d \<Longrightarrow> length (wr32 off v d) = length d"
  by (simp_all add: wr16_def wr32_def)

lemma rd_wr_same:
  "off \<le> length d \<Longrightarrow> rd16 off (wr16 off v d) = v mod 2 ^ 16"
  "off \<le> length d \<Longrightarrow> rd32 off (wr32 off v d) = v mod 2 ^ 32"
  by (simp_all add: rd16_def rd32_def wr16_def wr32_def get_put_same le_val_le_bytes)

lemma rd32_wr32_other:
  "off' + 4 \<le> off \<or> off + 4 \<le> off' \<Longrightarrow> off + 4 \<le> length d \<Longrightarrow> rd32 off' (wr32 off v d) = rd32 off' d"
  by (simp add: rd32_def wr32_def get_put_disjoint)

lemma rd32_less: "rd32 off d < 2 ^ 32"
proof -
  have "le_val (get_at off 4 d) < 256 ^ length (get_at off 4 d)" by (rule le_val_less)
  also have "\<dots> \<le> 256 ^ 4" by (rule power_increasing) (simp_all add: get_at_def)
  finally show ?thesis by (simp add: rd32_def)
qed

end
