(* ===== verification/Log.thy ===== *)
theory Log
  imports Bio Encode
begin

text \<open>
  The write-ahead log of the file system, \<open>kernel/log.c\<close>: group commit of the blocks that the file system calls between
  \<open>begin_op\<close> and \<open>end_op\<close> have modified, and recovery.
\<close>

section \<open>State\<close>

text \<open>
  \<open>struct logheader\<close> on disk is the count at offset 0 of its block and the block numbers from offset 4 on. The array
  \<open>log.lh.block\<close> has \<open>LOGSIZE\<close> elements; an access beyond them is a fault.
\<close>

record superblock =
  sb_magic :: nat
  sb_size :: nat
  sb_nblocks :: nat
  sb_ninodes :: nat
  sb_nlog :: nat
  sb_logstart :: nat
  sb_inodestart :: nat
  sb_bmapstart :: nat

record logst =
  log_start :: int
  log_size :: int
  outstanding :: int
  committing :: bool
  log_dev :: int
  lh_n :: int
  lh_block :: "nat \<Rightarrow> int"

record klog = kbio +
  log :: logst

definition upd_log :: "(logst \<Rightarrow> logst) \<Rightarrow> 'z klog_scheme \<Rightarrow> 'z klog_scheme" where
  "upd_log f s = s\<lparr>log := f (log s)\<rparr>"

definition lh_get_n :: "u8 list \<Rightarrow> int" where
  "lh_get_n d = s32 (int (rd32 0 d))"

definition lh_get_block :: "nat \<Rightarrow> u8 list \<Rightarrow> int" where
  "lh_get_block i d = s32 (int (rd32 (4 + 4 * i) d))"

definition lh_put_n :: "int \<Rightarrow> u8 list \<Rightarrow> u8 list" where
  "lh_put_n v = wr32 0 (u32_of v)"

definition lh_put_block :: "nat \<Rightarrow> int \<Rightarrow> u8 list \<Rightarrow> u8 list" where
  "lh_put_block i v = wr32 (4 + 4 * i) (u32_of v)"

definition copy_block :: "nat \<Rightarrow> nat \<Rightarrow> 'z kdsk_scheme \<Rightarrow> 'z kdsk_scheme" where
  "copy_block to from s = upd_buf to (\<lambda>x. x\<lparr>bdata := bdata (bufs s from)\<rparr>) s"

section \<open>Installing and recovering\<close>

text \<open>The loops run over \<open>tail\<close>; the first argument is the number of rounds left.\<close>

fun install_loop :: "nat \<Rightarrow> nat \<Rightarrow> bool \<Rightarrow> 'z klog_scheme \<Rightarrow> ('z klog_scheme, unit) res" where
  "install_loop 0 tail recovering s = Ok () s"
| "install_loop (Suc k) tail recovering s =
     bindr (bread (u32_of (log_dev (log s))) (u32_of (log_start (log s) + int tail + 1)) s) (\<lambda>lbuf s.
     if tail \<ge> LOGSIZE then Fault ''log.lh.block''
     else bindr (bread (u32_of (log_dev (log s))) (u32_of (lh_block (log s) tail)) s) (\<lambda>dbuf s.
          let s = copy_block dbuf lbuf s in
          bindr (bwrite dbuf s) (\<lambda>_ s.
          bindr (if recovering then Ok () s else bunpin dbuf s) (\<lambda>_ s.
          bindr (brelse lbuf s) (\<lambda>_ s.
          bindr (brelse dbuf s) (\<lambda>_ s.
          install_loop k (Suc tail) recovering s))))))"

definition install_trans :: "bool \<Rightarrow> 'z klog_scheme \<Rightarrow> ('z klog_scheme, unit) res" where
  "install_trans recovering s = install_loop (nat (lh_n (log s))) 0 recovering s"

fun read_head_loop :: "nat \<Rightarrow> nat \<Rightarrow> u8 list \<Rightarrow> 'z klog_scheme \<Rightarrow> ('z klog_scheme, unit) res" where
  "read_head_loop 0 i d s = Ok () s"
| "read_head_loop (Suc k) i d s =
     (if i \<ge> LOGSIZE then Fault ''log.lh.block''
      else read_head_loop k (Suc i) d (upd_log (\<lambda>l. l\<lparr>lh_block := (lh_block l)(i := lh_get_block i d)\<rparr>) s))"

definition read_head :: "'z klog_scheme \<Rightarrow> ('z klog_scheme, unit) res" where
  "read_head s =
     bindr (bread (u32_of (log_dev (log s))) (u32_of (log_start (log s))) s) (\<lambda>b s.
     let d = bdata (bufs s b); s = upd_log (\<lambda>l. l\<lparr>lh_n := lh_get_n d\<rparr>) s in
     bindr (read_head_loop (nat (lh_n (log s))) 0 d s) (\<lambda>_ s. brelse b s))"

fun write_head_loop :: "nat \<Rightarrow> nat \<Rightarrow> nat \<Rightarrow> 'z klog_scheme \<Rightarrow> ('z klog_scheme, unit) res" where
  "write_head_loop 0 i b s = Ok () s"
| "write_head_loop (Suc k) i b s =
     (if i \<ge> LOGSIZE then Fault ''log.lh.block''
      else write_head_loop k (Suc i) b
             (upd_buf b (\<lambda>x. x\<lparr>bdata := lh_put_block i (lh_block (log s) i) (bdata x)\<rparr>) s))"

definition write_head :: "'z klog_scheme \<Rightarrow> ('z klog_scheme, unit) res" where
  "write_head s =
     bindr (bread (u32_of (log_dev (log s))) (u32_of (log_start (log s))) s) (\<lambda>b s.
     let s = upd_buf b (\<lambda>x. x\<lparr>bdata := lh_put_n (lh_n (log s)) (bdata x)\<rparr>) s in
     bindr (write_head_loop (nat (lh_n (log s))) 0 b s) (\<lambda>_ s.
     bindr (bwrite b s) (\<lambda>_ s.
     brelse b s)))"

definition recover_from_log :: "'z klog_scheme \<Rightarrow> ('z klog_scheme, unit) res" where
  "recover_from_log s =
     bindr (read_head s) (\<lambda>_ s.
     bindr (install_trans True s) (\<lambda>_ s.
     write_head (upd_log (\<lambda>l. l\<lparr>lh_n := 0\<rparr>) s)))"

text \<open>\<open>sizeof(struct logheader)\<close> is \<open>4 + 4 * LOGSIZE\<close>.\<close>

definition initlog :: "int \<Rightarrow> superblock \<Rightarrow> 'z klog_scheme \<Rightarrow> ('z klog_scheme, unit) res" where
  "initlog dev sb s =
     (if 4 + 4 * LOGSIZE \<ge> BSIZE then Panic ''initlog: too big logheader''
      else let s = initlk LkLog ''log'' s in
           recover_from_log (upd_log (\<lambda>l. l\<lparr>log_start := s32 (int (sb_logstart sb)),
             log_size := s32 (int (sb_nlog sb)), log_dev := dev\<rparr>) s))"

section \<open>Transactions\<close>

text \<open>\<open>begin_op\<close> with the lock held; a process that has slept is back here when it is woken.\<close>

definition begin_op_loop :: "'z klog_scheme \<Rightarrow> ('z klog_scheme, unit) res" where
  "begin_op_loop s =
     (if committing (log s) then sleep ChLog LkLog s
      else if s32 (lh_n (log s) + (outstanding (log s) + 1) * int MAXOPBLOCKS) > int LOGSIZE then sleep ChLog LkLog s
      else rel LkLog (upd_log (\<lambda>l. l\<lparr>outstanding := outstanding l + 1\<rparr>) s))"

definition begin_op :: "'z klog_scheme \<Rightarrow> ('z klog_scheme, unit) res" where
  "begin_op s = bindr (acq LkLog s) (\<lambda>_ s. begin_op_loop s)"

fun write_log_loop :: "nat \<Rightarrow> nat \<Rightarrow> 'z klog_scheme \<Rightarrow> ('z klog_scheme, unit) res" where
  "write_log_loop 0 tail s = Ok () s"
| "write_log_loop (Suc k) tail s =
     bindr (bread (u32_of (log_dev (log s))) (u32_of (log_start (log s) + int tail + 1)) s) (\<lambda>to s.
     if tail \<ge> LOGSIZE then Fault ''log.lh.block''
     else bindr (bread (u32_of (log_dev (log s))) (u32_of (lh_block (log s) tail)) s) (\<lambda>from s.
          let s = copy_block to from s in
          bindr (bwrite to s) (\<lambda>_ s.
          bindr (brelse from s) (\<lambda>_ s.
          bindr (brelse to s) (\<lambda>_ s.
          write_log_loop k (Suc tail) s)))))"

definition write_log :: "'z klog_scheme \<Rightarrow> ('z klog_scheme, unit) res" where
  "write_log s = write_log_loop (nat (lh_n (log s))) 0 s"

definition commit :: "'z klog_scheme \<Rightarrow> ('z klog_scheme, unit) res" where
  "commit s =
     (if lh_n (log s) > 0
      then bindr (write_log s) (\<lambda>_ s.
           bindr (write_head s) (\<lambda>_ s.
           bindr (install_trans False s) (\<lambda>_ s.
           write_head (upd_log (\<lambda>l. l\<lparr>lh_n := 0\<rparr>) s))))
      else Ok () s)"

definition end_op :: "'z klog_scheme \<Rightarrow> ('z klog_scheme, unit) res" where
  "end_op s =
     bindr (locking LkLog (\<lambda>s.
       let s = upd_log (\<lambda>l. l\<lparr>outstanding := outstanding l - 1\<rparr>) s in
       if committing (log s) then Panic ''log.committing''
       else if outstanding (log s) = 0 then Ok True (upd_log (\<lambda>l. l\<lparr>committing := True\<rparr>) s)
       else bindr (wakeup ChLog s) (\<lambda>_ s. Ok False s)) s) (\<lambda>do_commit s.
     if do_commit
     then bindr (commit s) (\<lambda>_ s.
          locking LkLog (\<lambda>s. wakeup ChLog (upd_log (\<lambda>l. l\<lparr>committing := False\<rparr>) s)) s)
     else Ok () s)"

fun log_find :: "nat \<Rightarrow> nat \<Rightarrow> nat \<Rightarrow> (nat \<Rightarrow> int) \<Rightarrow> nat" where
  "log_find 0 i bno bl = i"
| "log_find (Suc k) i bno bl = (if u32_of (bl i) = bno then i else log_find k (Suc i) bno bl)"

definition log_write :: "nat \<Rightarrow> 'z klog_scheme \<Rightarrow> ('z klog_scheme, unit) res" where
  "log_write b =
     locking LkLog (\<lambda>s.
       if lh_n (log s) \<ge> int LOGSIZE \<or> lh_n (log s) \<ge> log_size (log s) - 1 then Panic ''too big a transaction''
       else if outstanding (log s) < 1 then Panic ''log_write outside of trans''
       else let i = log_find (nat (lh_n (log s))) 0 (blockno (bufs s b)) (lh_block (log s));
                s = upd_log (\<lambda>l. l\<lparr>lh_block := (lh_block l)(i := s32 (int (blockno (bufs s b))))\<rparr>) s
            in if int i = lh_n (log s)
               then bindr (bpin b s) (\<lambda>_ s. Ok () (upd_log (\<lambda>l. l\<lparr>lh_n := lh_n l + 1\<rparr>) s))
               else Ok () s)"

end
