(* ===== verification/Uaccess.thy ===== *)
theory Uaccess
  imports Log
begin

text \<open>
  \<open>either_copyout\<close> and \<open>either_copyin\<close> of \<open>kernel/proc.c\<close>: copies whose other end is a user address or a kernel object. A
  kernel destination is a local object of the caller: the copy returns the bytes that it stores there, and the caller
  puts them where they belong. A kernel source is the bytes it holds.
\<close>

datatype mdst = UserDst u64 | KernDst
datatype msrc = UserSrc u64 | KernSrc "u8 list"

text \<open>The address after \<open>m\<close> bytes: \<open>dst += m\<close>, \<open>src += m\<close>.\<close>

fun dst_adv :: "nat \<Rightarrow> mdst \<Rightarrow> mdst" where
  "dst_adv m (UserDst a) = UserDst (a + of_nat m)"
| "dst_adv m KernDst = KernDst"

fun src_adv :: "nat \<Rightarrow> msrc \<Rightarrow> msrc" where
  "src_adv m (UserSrc a) = UserSrc (a + of_nat m)"
| "src_adv m (KernSrc bs) = KernSrc (drop m bs)"

definition either_copyout :: "mdst \<Rightarrow> u8 list \<Rightarrow> 'z kvm_scheme \<Rightarrow> ('z kvm_scheme, int \<times> u8 list) res" where
  "either_copyout dst src s =
     bindr (myproc s) (\<lambda>p s.
     case dst of
       UserDst a \<Rightarrow> orfault ''myproc'' p (\<lambda>p.
         bindr (copyout (pagetable (procs s p)) a src s) (\<lambda>r s. Ok (r, []) s))
     | KernDst \<Rightarrow> Ok (0, src) s)"

definition either_copyin :: "msrc \<Rightarrow> nat \<Rightarrow> 'z kvm_scheme \<Rightarrow> ('z kvm_scheme, int \<times> u8 list) res" where
  "either_copyin src len s =
     bindr (myproc s) (\<lambda>p s.
     case src of
       UserSrc a \<Rightarrow> orfault ''myproc'' p (\<lambda>p. copyin (pagetable (procs s p)) a len [] s)
     | KernSrc bs \<Rightarrow> Ok (0, take len bs) s)"

end
