(* ===== verification/Fs.thy ===== *)
theory Fs
  imports Uaccess
begin

text \<open>
  The file system, \<open>kernel/fs.c\<close>: the block allocator, inodes on disk and in memory, their contents, directories and
  path names. On-disk structures are read from and written into the buffers' bytes at their offsets. An in-memory
  inode is an index into \<open>itable.inode\<close>, a null pointer is \<open>None\<close>.
\<close>

section \<open>On-disk format\<close>

definition ROOTINO :: nat where "ROOTINO = 1"
definition FSMAGIC :: nat where "FSMAGIC = 0x10203040"
definition NDIRECT :: nat where "NDIRECT = 12"
definition NINDIRECT :: nat where "NINDIRECT = BSIZE div 4"
definition MAXFILE :: nat where "MAXFILE = NDIRECT + NINDIRECT"
definition DIRSIZ :: nat where "DIRSIZ = 14"
definition BPB :: nat where "BPB = BSIZE * 8"
definition IPB :: nat where "IPB = BSIZE div 64"
definition T_DIR :: int where "T_DIR = 1"
definition T_FILE :: int where "T_FILE = 2"
definition T_DEVICE :: int where "T_DEVICE = 3"

lemmas fs_consts = ROOTINO_def FSMAGIC_def NDIRECT_def NINDIRECT_def MAXFILE_def DIRSIZ_def BPB_def IPB_def BSIZE_def
  T_DIR_def T_FILE_def T_DEVICE_def

definition IBLOCK :: "nat \<Rightarrow> superblock \<Rightarrow> nat" where
  "IBLOCK i sb = (i div IPB + sb_inodestart sb) mod 2 ^ 32"

definition BBLOCK :: "nat \<Rightarrow> superblock \<Rightarrow> nat" where
  "BBLOCK b sb = (b div BPB + sb_bmapstart sb) mod 2 ^ 32"

text \<open>The value of a \<open>short\<close> as the 16 bits that are stored.\<close>

definition u16_of :: "int \<Rightarrow> nat" where
  "u16_of x = nat (x mod 2 ^ 16)"

text \<open>The part of \<open>struct inode\<close> that is a copy of \<open>struct dinode\<close>; a \<open>dinode\<close> takes 64 bytes of its block.\<close>

record dinode =
  di_type :: int
  di_major :: int
  di_minor :: int
  di_nlink :: int
  di_size :: nat
  di_addrs :: "nat list"

definition get_dinode :: "nat \<Rightarrow> u8 list \<Rightarrow> dinode" where
  "get_dinode i d =
     (let o' = 64 * i in
      \<lparr>di_type = s16 (rd16 o' d), di_major = s16 (rd16 (o' + 2) d), di_minor = s16 (rd16 (o' + 4) d),
       di_nlink = s16 (rd16 (o' + 6) d), di_size = rd32 (o' + 8) d,
       di_addrs = map (\<lambda>k. rd32 (o' + 12 + 4 * k) d) [0..<NDIRECT + 1]\<rparr>)"

definition dinode_bytes :: "dinode \<Rightarrow> u8 list" where
  "dinode_bytes x =
     le_bytes 2 (u16_of (di_type x)) @ le_bytes 2 (u16_of (di_major x)) @ le_bytes 2 (u16_of (di_minor x)) @
     le_bytes 2 (u16_of (di_nlink x)) @ le_bytes 4 (di_size x) @ concat (map (le_bytes 4) (di_addrs x))"

definition put_dinode :: "nat \<Rightarrow> dinode \<Rightarrow> u8 list \<Rightarrow> u8 list" where
  "put_dinode i x = put_at (64 * i) (dinode_bytes x)"

text \<open>A directory entry: the inode number and the name, 16 bytes.\<close>

definition de_inum :: "u8 list \<Rightarrow> nat" where
  "de_inum de = rd16 0 de"

definition de_name :: "u8 list \<Rightarrow> u8 list" where
  "de_name de = get_at 2 DIRSIZ de"

definition dirent_bytes :: "nat \<Rightarrow> u8 list \<Rightarrow> u8 list" where
  "dirent_bytes inum name = le_bytes 2 inum @ name"

section \<open>State\<close>

record inode =
  idev :: nat
  inum :: nat
  iref :: int
  ivalid :: bool
  icopy :: dinode

record kfs = klog +
  sb :: superblock
  inodes :: "nat \<Rightarrow> inode"

definition upd_inode :: "nat \<Rightarrow> (inode \<Rightarrow> inode) \<Rightarrow> 'z kfs_scheme \<Rightarrow> 'z kfs_scheme" where
  "upd_inode i f s = s\<lparr>inodes := (inodes s)(i := f (inodes s i))\<rparr>"

definition upd_icopy :: "nat \<Rightarrow> (dinode \<Rightarrow> dinode) \<Rightarrow> 'z kfs_scheme \<Rightarrow> 'z kfs_scheme" where
  "upd_icopy i f = upd_inode i (\<lambda>x. x\<lparr>icopy := f (icopy x)\<rparr>)"

definition upd_data :: "nat \<Rightarrow> (u8 list \<Rightarrow> u8 list) \<Rightarrow> 'z kdsk_scheme \<Rightarrow> 'z kdsk_scheme" where
  "upd_data b f = upd_buf b (\<lambda>x. x\<lparr>bdata := f (bdata x)\<rparr>)"

abbreviation itype :: "inode \<Rightarrow> int" where "itype x \<equiv> di_type (icopy x)"
abbreviation isize :: "inode \<Rightarrow> nat" where "isize x \<equiv> di_size (icopy x)"
abbreviation inlink :: "inode \<Rightarrow> int" where "inlink x \<equiv> di_nlink (icopy x)"
abbreviation iaddrs :: "inode \<Rightarrow> nat list" where "iaddrs x \<equiv> di_addrs (icopy x)"

section \<open>The superblock\<close>

definition get_sb :: "u8 list \<Rightarrow> superblock" where
  "get_sb d = \<lparr>sb_magic = rd32 0 d, sb_size = rd32 4 d, sb_nblocks = rd32 8 d, sb_ninodes = rd32 12 d,
     sb_nlog = rd32 16 d, sb_logstart = rd32 20 d, sb_inodestart = rd32 24 d, sb_bmapstart = rd32 28 d\<rparr>"

definition readsb :: "int \<Rightarrow> 'z kfs_scheme \<Rightarrow> ('z kfs_scheme, unit) res" where
  "readsb dev s =
     bindr (bread (u32_of dev) 1 s) (\<lambda>bp s.
     brelse bp (s\<lparr>sb := get_sb (bdata (bufs s bp))\<rparr>))"

definition fsinit :: "int \<Rightarrow> 'z kfs_scheme \<Rightarrow> ('z kfs_scheme, unit) res" where
  "fsinit dev s =
     bindr (readsb dev s) (\<lambda>_ s.
     if sb_magic (sb s) \<noteq> FSMAGIC then Panic ''invalid file system'' else initlog dev (sb s) s)"

section \<open>Blocks\<close>

definition bzero :: "nat \<Rightarrow> nat \<Rightarrow> 'z kfs_scheme \<Rightarrow> ('z kfs_scheme, unit) res" where
  "bzero dev bno s =
     bindr (bread dev bno s) (\<lambda>bp s.
     bindr (log_write bp (upd_data bp (\<lambda>_. replicate BSIZE 0) s)) (\<lambda>_ s.
     brelse bp s))"

text \<open>
  The scan of a bitmap block from bit \<open>bi\<close> on for a free block below \<open>sz\<close>; block \<open>b\<close> is the one of bit 0. The first
  argument is the number of bits left.
\<close>

fun bfind :: "nat \<Rightarrow> nat \<Rightarrow> nat \<Rightarrow> nat \<Rightarrow> u8 list \<Rightarrow> nat option" where
  "bfind 0 bi b sz d = None"
| "bfind (Suc k) bi b sz d =
     (if b + bi \<ge> sz then None
      else if (d ! (bi div 8) AND bitmask bi) = 0 then Some bi
      else bfind k (Suc bi) b sz d)"

text \<open>\<open>balloc\<close> from bitmap block \<open>b / BPB\<close> on, with a bound on the number of bitmap blocks left.\<close>

fun balloc_loop :: "nat \<Rightarrow> nat \<Rightarrow> nat \<Rightarrow> 'z kfs_scheme \<Rightarrow> ('z kfs_scheme, nat) res" where
  "balloc_loop 0 b dev s = Diverge"
| "balloc_loop (Suc k) b dev s =
     (if b \<ge> sb_size (sb s)
      then bindr (printf (Some (cstr ''balloc: out of blocks'' @ [10])) [] s) (\<lambda>_ s. Ok 0 s)
      else bindr (bread dev (BBLOCK b (sb s)) s) (\<lambda>bp s.
           case bfind BPB 0 b (sb_size (sb s)) (bdata (bufs s bp)) of
             Some bi \<Rightarrow>
               let s = upd_data bp (\<lambda>d. d[bi div 8 := d ! (bi div 8) OR bitmask bi]) s in
               bindr (log_write bp s) (\<lambda>_ s.
               bindr (brelse bp s) (\<lambda>_ s.
               bindr (bzero dev (b + bi) s) (\<lambda>_ s.
               Ok (b + bi) s)))
           | None \<Rightarrow> bindr (brelse bp s) (\<lambda>_ s. balloc_loop k (b + BPB) dev s)))"

definition balloc :: "nat \<Rightarrow> 'z kfs_scheme \<Rightarrow> ('z kfs_scheme, nat) res" where
  "balloc dev s = balloc_loop (sb_size (sb s) div BPB + 2) 0 dev s"

definition bfree :: "nat \<Rightarrow> nat \<Rightarrow> 'z kfs_scheme \<Rightarrow> ('z kfs_scheme, unit) res" where
  "bfree dev b s =
     bindr (bread dev (BBLOCK b (sb s)) s) (\<lambda>bp s.
     let bi = b mod BPB; d = bdata (bufs s bp) in
     if (d ! (bi div 8) AND bitmask bi) = 0 then Panic ''freeing free block''
     else bindr (log_write bp (upd_data bp (\<lambda>d. d[bi div 8 := d ! (bi div 8) AND NOT (bitmask bi)]) s)) (\<lambda>_ s.
          brelse bp s))"

section \<open>Inodes\<close>

fun iinit_loop :: "nat list \<Rightarrow> 'z kslp_scheme \<Rightarrow> 'z kslp_scheme" where
  "iinit_loop [] s = s"
| "iinit_loop (i # is) s = iinit_loop is (initsleeplock (SlInode i) ''inode'' s)"

definition iinit :: "'z kslp_scheme \<Rightarrow> 'z kslp_scheme" where
  "iinit s = iinit_loop [0..<NINODE] (initlk LkItable ''itable'' s)"

text \<open>The scan of \<open>iget\<close>: the entry that holds the inode, or else the first empty slot seen.\<close>

fun iget_scan :: "nat list \<Rightarrow> nat option \<Rightarrow> nat \<Rightarrow> nat \<Rightarrow> (nat \<Rightarrow> inode) \<Rightarrow> nat option \<times> nat option" where
  "iget_scan [] spare dev ino t = (None, spare)"
| "iget_scan (i # is) spare dev ino t =
     (if iref (t i) > 0 \<and> idev (t i) = dev \<and> inum (t i) = ino then (Some i, spare)
      else iget_scan is (if spare = None \<and> iref (t i) = 0 then Some i else spare) dev ino t)"

definition iget :: "nat \<Rightarrow> nat \<Rightarrow> 'z kfs_scheme \<Rightarrow> ('z kfs_scheme, nat) res" where
  "iget dev ino =
     locking LkItable (\<lambda>s.
       case iget_scan [0..<NINODE] None dev ino (inodes s) of
         (Some i, _) \<Rightarrow> Ok i (upd_inode i (\<lambda>x. x\<lparr>iref := iref x + 1\<rparr>) s)
       | (None, None) \<Rightarrow> Panic ''iget: no inodes''
       | (None, Some i) \<Rightarrow> Ok i (upd_inode i (\<lambda>x. x\<lparr>idev := dev, inum := ino, iref := 1, ivalid := False\<rparr>) s))"

definition idup :: "nat \<Rightarrow> 'z kfs_scheme \<Rightarrow> ('z kfs_scheme, nat) res" where
  "idup i = locking LkItable (\<lambda>s. Ok i (upd_inode i (\<lambda>x. x\<lparr>iref := iref x + 1\<rparr>) s))"

definition dinode_new :: "int \<Rightarrow> dinode" where
  "dinode_new type = \<lparr>di_type = type, di_major = 0, di_minor = 0, di_nlink = 0, di_size = 0,
     di_addrs = replicate (NDIRECT + 1) 0\<rparr>"

fun ialloc_loop :: "nat \<Rightarrow> nat \<Rightarrow> nat \<Rightarrow> int \<Rightarrow> 'z kfs_scheme \<Rightarrow> ('z kfs_scheme, nat option) res" where
  "ialloc_loop 0 ino dev type s = Diverge"
| "ialloc_loop (Suc k) ino dev type s =
     (if ino \<ge> sb_ninodes (sb s)
      then bindr (printf (Some (cstr ''ialloc: no inodes'' @ [10])) [] s) (\<lambda>_ s. Ok None s)
      else bindr (bread dev (IBLOCK ino (sb s)) s) (\<lambda>bp s.
           if di_type (get_dinode (ino mod IPB) (bdata (bufs s bp))) = 0
           then bindr (log_write bp (upd_data bp (put_dinode (ino mod IPB) (dinode_new type)) s)) (\<lambda>_ s.
                bindr (brelse bp s) (\<lambda>_ s.
                bindr (iget dev ino s) (\<lambda>i s. Ok (Some i) s)))
           else bindr (brelse bp s) (\<lambda>_ s. ialloc_loop k (Suc ino) dev type s)))"

definition ialloc :: "nat \<Rightarrow> int \<Rightarrow> 'z kfs_scheme \<Rightarrow> ('z kfs_scheme, nat option) res" where
  "ialloc dev type s = ialloc_loop (sb_ninodes (sb s) + 1) 1 dev type s"

definition iupdate :: "nat \<Rightarrow> 'z kfs_scheme \<Rightarrow> ('z kfs_scheme, unit) res" where
  "iupdate i s =
     bindr (bread (idev (inodes s i)) (IBLOCK (inum (inodes s i)) (sb s)) s) (\<lambda>bp s.
     let s = upd_data bp (put_dinode (inum (inodes s i) mod IPB) (icopy (inodes s i))) s in
     bindr (log_write bp s) (\<lambda>_ s.
     brelse bp s))"

definition ilock :: "nat option \<Rightarrow> 'z kfs_scheme \<Rightarrow> ('z kfs_scheme, unit) res" where
  "ilock ip s =
     (case ip of
        None \<Rightarrow> Panic ''ilock''
      | Some i \<Rightarrow>
          if iref (inodes s i) < 1 then Panic ''ilock''
          else bindr (acquiresleep (SlInode i) s) (\<lambda>_ s.
               if \<not> ivalid (inodes s i)
               then bindr (bread (idev (inodes s i)) (IBLOCK (inum (inodes s i)) (sb s)) s) (\<lambda>bp s.
                    let s = upd_icopy i (\<lambda>_. get_dinode (inum (inodes s i) mod IPB) (bdata (bufs s bp))) s in
                    bindr (brelse bp s) (\<lambda>_ s.
                    let s = upd_inode i (\<lambda>x. x\<lparr>ivalid := True\<rparr>) s in
                    if itype (inodes s i) = 0 then Panic ''ilock: no type'' else Ok () s))
               else Ok () s))"

definition iunlock :: "nat option \<Rightarrow> 'z kfs_scheme \<Rightarrow> ('z kfs_scheme, unit) res" where
  "iunlock ip s =
     (case ip of
        None \<Rightarrow> Panic ''iunlock''
      | Some i \<Rightarrow>
          bindr (holdingsleep (SlInode i) s) (\<lambda>h s.
          if \<not> h \<or> iref (inodes s i) < 1 then Panic ''iunlock'' else releasesleep (SlInode i) s))"

section \<open>The blocks of an inode\<close>

definition bmap_slot :: "nat \<Rightarrow> nat \<Rightarrow> 'z kfs_scheme \<Rightarrow> ('z kfs_scheme, nat) res" where
  "bmap_slot i k s =
     (let a = iaddrs (inodes s i) ! k in
      if a = 0
      then bindr (balloc (idev (inodes s i)) s) (\<lambda>a s.
           if a = 0 then Ok 0 s else Ok a (upd_icopy i (\<lambda>x. x\<lparr>di_addrs := (di_addrs x)[k := a]\<rparr>) s))
      else Ok a s)"

definition bmap :: "nat \<Rightarrow> nat \<Rightarrow> 'z kfs_scheme \<Rightarrow> ('z kfs_scheme, nat) res" where
  "bmap i bn s =
     (if bn < NDIRECT then bmap_slot i bn s
      else let bn = bn - NDIRECT in
           if bn < NINDIRECT
           then bindr (bmap_slot i NDIRECT s) (\<lambda>a s.
                if a = 0 then Ok 0 s
                else bindr (bread (idev (inodes s i)) a s) (\<lambda>bp s.
                     let a = rd32 (4 * bn) (bdata (bufs s bp)) in
                     bindr (if a = 0
                            then bindr (balloc (idev (inodes s i)) s) (\<lambda>a s.
                                 if a \<noteq> 0
                                 then bindr (log_write bp (upd_data bp (wr32 (4 * bn) a) s)) (\<lambda>_ s. Ok a s)
                                 else Ok a s)
                            else Ok a s) (\<lambda>a s.
                     bindr (brelse bp s) (\<lambda>_ s. Ok a s))))
           else Panic ''bmap: out of range'')"

fun itrunc_direct :: "nat list \<Rightarrow> nat \<Rightarrow> 'z kfs_scheme \<Rightarrow> ('z kfs_scheme, unit) res" where
  "itrunc_direct [] i s = Ok () s"
| "itrunc_direct (k # ks) i s =
     (let a = iaddrs (inodes s i) ! k in
      bindr (if a \<noteq> 0
             then bindr (bfree (idev (inodes s i)) a s) (\<lambda>_ s.
                  Ok () (upd_icopy i (\<lambda>x. x\<lparr>di_addrs := (di_addrs x)[k := 0]\<rparr>) s))
             else Ok () s) (\<lambda>_ s.
      itrunc_direct ks i s))"

fun itrunc_indirect :: "nat list \<Rightarrow> nat \<Rightarrow> nat \<Rightarrow> 'z kfs_scheme \<Rightarrow> ('z kfs_scheme, unit) res" where
  "itrunc_indirect [] bp i s = Ok () s"
| "itrunc_indirect (j # js) bp i s =
     (let a = rd32 (4 * j) (bdata (bufs s bp)) in
      bindr (if a \<noteq> 0 then bfree (idev (inodes s i)) a s else Ok () s) (\<lambda>_ s.
      itrunc_indirect js bp i s))"

definition itrunc :: "nat \<Rightarrow> 'z kfs_scheme \<Rightarrow> ('z kfs_scheme, unit) res" where
  "itrunc i s =
     bindr (itrunc_direct [0..<NDIRECT] i s) (\<lambda>_ s.
     bindr (let a = iaddrs (inodes s i) ! NDIRECT in
            if a \<noteq> 0
            then bindr (bread (idev (inodes s i)) a s) (\<lambda>bp s.
                 bindr (itrunc_indirect [0..<NINDIRECT] bp i s) (\<lambda>_ s.
                 bindr (brelse bp s) (\<lambda>_ s.
                 bindr (bfree (idev (inodes s i)) (iaddrs (inodes s i) ! NDIRECT) s) (\<lambda>_ s.
                 Ok () (upd_icopy i (\<lambda>x. x\<lparr>di_addrs := (di_addrs x)[NDIRECT := 0]\<rparr>) s)))))
            else Ok () s) (\<lambda>_ s.
     iupdate i (upd_icopy i (\<lambda>x. x\<lparr>di_size := 0\<rparr>) s)))"

definition iput :: "nat \<Rightarrow> 'z kfs_scheme \<Rightarrow> ('z kfs_scheme, unit) res" where
  "iput i s =
     bindr (acq LkItable s) (\<lambda>_ s.
     bindr (if iref (inodes s i) = 1 \<and> ivalid (inodes s i) \<and> inlink (inodes s i) = 0
            then bindr (acquiresleep (SlInode i) s) (\<lambda>_ s.
                 bindr (rel LkItable s) (\<lambda>_ s.
                 bindr (itrunc i s) (\<lambda>_ s.
                 bindr (iupdate i (upd_icopy i (\<lambda>x. x\<lparr>di_type := 0\<rparr>) s)) (\<lambda>_ s.
                 bindr (releasesleep (SlInode i) (upd_inode i (\<lambda>x. x\<lparr>ivalid := False\<rparr>) s)) (\<lambda>_ s.
                 acq LkItable s)))))
            else Ok () s) (\<lambda>_ s.
     rel LkItable (upd_inode i (\<lambda>x. x\<lparr>iref := iref x - 1\<rparr>) s)))"

definition iunlockput :: "nat \<Rightarrow> 'z kfs_scheme \<Rightarrow> ('z kfs_scheme, unit) res" where
  "iunlockput i s = bindr (iunlock (Some i) s) (\<lambda>_ s. iput i s)"

text \<open>\<open>struct stat\<close> with its fields in the order they are declared.\<close>

record stat =
  st_dev :: int
  st_ino :: nat
  st_type :: int
  st_nlink :: int
  st_size :: nat

definition stati :: "nat \<Rightarrow> 'z kfs_scheme \<Rightarrow> stat" where
  "stati i s = \<lparr>st_dev = s32 (int (idev (inodes s i))), st_ino = inum (inodes s i), st_type = itype (inodes s i),
     st_nlink = inlink (inodes s i), st_size = isize (inodes s i)\<rparr>"

section \<open>Reading and writing\<close>

text \<open>
  \<open>readi\<close> from the point where \<open>n\<close> has been cut to the end of the file: \<open>out\<close> are the bytes stored at a kernel
  destination so far. The result is the count, or \<open>-1\<close> when a copy to user memory fails.
\<close>

function readi_loop :: "nat \<Rightarrow> mdst \<Rightarrow> nat \<Rightarrow> nat \<Rightarrow> nat \<Rightarrow> u8 list \<Rightarrow> 'z kfs_scheme \<Rightarrow> ('z kfs_scheme, int \<times> u8 list) res" where
  "readi_loop i dst off tot n out s =
     (if tot \<ge> n then Ok (int tot, out) s
      else bindr (bmap i (off div BSIZE) s) (\<lambda>a s.
           if a = 0 then Ok (int tot, out) s
           else bindr (bread (idev (inodes s i)) a s) (\<lambda>bp s.
                let m = min (n - tot) (BSIZE - off mod BSIZE) in
                bindr (either_copyout dst (get_at (off mod BSIZE) m (bdata (bufs s bp))) s) (\<lambda>r s.
                if fst r = - 1 then bindr (brelse bp s) (\<lambda>_ s. Ok (- 1, out) s)
                else bindr (brelse bp s) (\<lambda>_ s.
                     readi_loop i (dst_adv m dst) (off + m) (tot + m) n (out @ snd r) s)))))"
  by pat_completeness auto
termination
  by (relation "measure (\<lambda>(i, dst, off, tot, n, out, s). n - tot)") (auto simp: BSIZE_def)

declare readi_loop.simps [simp del]

definition readi :: "nat \<Rightarrow> mdst \<Rightarrow> nat \<Rightarrow> nat \<Rightarrow> 'z kfs_scheme \<Rightarrow> ('z kfs_scheme, int \<times> u8 list) res" where
  "readi i dst off n s =
     (if off > isize (inodes s i) \<or> (off + n) mod 2 ^ 32 < off then Ok (0, []) s
      else let n = (if off + n > isize (inodes s i) then isize (inodes s i) - off else n) in
           readi_loop i dst off 0 n [] s)"

text \<open>
  The loop of \<open>writei\<close>. When the copy from user memory fails, the bytes it has stored in the buffer by then stay there,
  and the block is not logged.
\<close>

function writei_loop :: "nat \<Rightarrow> msrc \<Rightarrow> nat \<Rightarrow> nat \<Rightarrow> nat \<Rightarrow> 'z kfs_scheme \<Rightarrow> ('z kfs_scheme, nat \<times> nat) res" where
  "writei_loop i src off tot n s =
     (if tot \<ge> n then Ok (tot, off) s
      else bindr (bmap i (off div BSIZE) s) (\<lambda>a s.
           if a = 0 then Ok (tot, off) s
           else bindr (bread (idev (inodes s i)) a s) (\<lambda>bp s.
                let m = min (n - tot) (BSIZE - off mod BSIZE) in
                bindr (either_copyin src m s) (\<lambda>r s.
                let s = upd_data bp (put_at (off mod BSIZE) (snd r)) s in
                if fst r = - 1 then bindr (brelse bp s) (\<lambda>_ s. Ok (tot, off) s)
                else bindr (log_write bp s) (\<lambda>_ s.
                     bindr (brelse bp s) (\<lambda>_ s.
                     writei_loop i (src_adv m src) (off + m) (tot + m) n s))))))"
  by pat_completeness auto
termination
  by (relation "measure (\<lambda>(i, src, off, tot, n, s). n - tot)") (auto simp: BSIZE_def)

declare writei_loop.simps [simp del]

definition writei :: "nat \<Rightarrow> msrc \<Rightarrow> nat \<Rightarrow> nat \<Rightarrow> 'z kfs_scheme \<Rightarrow> ('z kfs_scheme, int) res" where
  "writei i src off n s =
     (if off > isize (inodes s i) \<or> (off + n) mod 2 ^ 32 < off then Ok (- 1) s
      else if off + n > MAXFILE * BSIZE then Ok (- 1) s
      else bindr (writei_loop i src off 0 n s) (\<lambda>r s.
           let s = (if snd r > isize (inodes s i) then upd_icopy i (\<lambda>x. x\<lparr>di_size := snd r\<rparr>) s else s) in
           bindr (iupdate i s) (\<lambda>_ s. Ok (int (fst r)) s)))"

section \<open>Directories\<close>

text \<open>
  Character arrays are byte lists; a byte past the end of the list is the terminating zero. Two arrays of length
  \<open>DIRSIZ\<close> side by side are the memory on which \<open>strncmp\<close> and \<open>strncpy\<close> work.
\<close>

definition arr :: "u8 list \<Rightarrow> nat \<Rightarrow> u8" where
  "arr xs k = (if k < length xs then xs ! k else 0)"

definition two_arrays :: "u8 list \<Rightarrow> u8 list \<Rightarrow> bmem" where
  "two_arrays xs ys = (\<lambda>a. if a < int DIRSIZ then arr xs (nat a) else arr ys (nat a - DIRSIZ))"

definition namecmp :: "u8 list \<Rightarrow> u8 list \<Rightarrow> int" where
  "namecmp xs ys = strncmp 0 (int DIRSIZ) DIRSIZ (two_arrays xs ys)"

definition name_field :: "u8 list \<Rightarrow> u8 list" where
  "name_field name =
     map (\<lambda>k. strncpy 0 (int DIRSIZ) (int DIRSIZ) (two_arrays [] name) (int k)) [0..<DIRSIZ]"

fun dirlookup_loop :: "nat \<Rightarrow> nat \<Rightarrow> nat \<Rightarrow> u8 list \<Rightarrow> 'z kfs_scheme \<Rightarrow> ('z kfs_scheme, (nat \<times> nat) option) res" where
  "dirlookup_loop 0 off dp name s = Diverge"
| "dirlookup_loop (Suc k) off dp name s =
     (if off \<ge> isize (inodes s dp) then Ok None s
      else bindr (readi dp KernDst off 16 s) (\<lambda>r s.
           if fst r \<noteq> 16 then Panic ''dirlookup read''
           else if de_inum (snd r) = 0 then dirlookup_loop k (off + 16) dp name s
           else if namecmp name (de_name (snd r)) = 0
                then bindr (iget (idev (inodes s dp)) (de_inum (snd r)) s) (\<lambda>i s. Ok (Some (i, off)) s)
                else dirlookup_loop k (off + 16) dp name s))"

text \<open>The result is the entry's inode and the offset that the code stores in \<open>*poff\<close>.\<close>

definition dirlookup :: "nat \<Rightarrow> u8 list \<Rightarrow> 'z kfs_scheme \<Rightarrow> ('z kfs_scheme, (nat \<times> nat) option) res" where
  "dirlookup dp name s =
     (if itype (inodes s dp) \<noteq> T_DIR then Panic ''dirlookup not DIR''
      else dirlookup_loop (isize (inodes s dp) div 16 + 2) 0 dp name s)"

fun dirlink_loop :: "nat \<Rightarrow> nat \<Rightarrow> nat \<Rightarrow> 'z kfs_scheme \<Rightarrow> ('z kfs_scheme, nat) res" where
  "dirlink_loop 0 off dp s = Diverge"
| "dirlink_loop (Suc k) off dp s =
     (if off \<ge> isize (inodes s dp) then Ok off s
      else bindr (readi dp KernDst off 16 s) (\<lambda>r s.
           if fst r \<noteq> 16 then Panic ''dirlink read''
           else if de_inum (snd r) = 0 then Ok off s
           else dirlink_loop k (off + 16) dp s))"

definition dirlink :: "nat \<Rightarrow> u8 list \<Rightarrow> nat \<Rightarrow> 'z kfs_scheme \<Rightarrow> ('z kfs_scheme, int) res" where
  "dirlink dp name ino s =
     bindr (dirlookup dp name s) (\<lambda>r s.
     case r of
       Some (ip, _) \<Rightarrow> bindr (iput ip s) (\<lambda>_ s. Ok (- 1) s)
     | None \<Rightarrow>
         bindr (dirlink_loop (isize (inodes s dp) div 16 + 2) 0 dp s) (\<lambda>off s.
         bindr (writei dp (KernSrc (dirent_bytes (ino mod 2 ^ 16) (name_field name))) off 16 s) (\<lambda>n s.
         Ok (if n \<noteq> 16 then - 1 else 0) s)))"

section \<open>Path names\<close>

text \<open>
  A path is the list of its bytes before the terminating zero. \<open>skipelem\<close> returns the rest of the path and the element,
  cut to \<open>DIRSIZ\<close> bytes.
\<close>

abbreviation slash :: u8 where "slash \<equiv> 47"

definition skipelem :: "u8 list \<Rightarrow> (u8 list \<times> u8 list) option" where
  "skipelem path =
     (let p = dropWhile (\<lambda>c. c = slash) path in
      if p = [] then None
      else let name = takeWhile (\<lambda>c. c \<noteq> slash) p;
               rest = dropWhile (\<lambda>c. c \<noteq> slash) p
           in Some (dropWhile (\<lambda>c. c = slash) rest, if length name \<ge> DIRSIZ then take DIRSIZ name else name))"

lemma skipelem_shorter: "skipelem path = Some (rest, name) \<Longrightarrow> length rest < length path"
proof -
  assume a: "skipelem path = Some (rest, name)"
  let ?p = "dropWhile (\<lambda>c. c = slash) path"
  have ne: "?p \<noteq> []" and r: "rest = dropWhile (\<lambda>c. c = slash) (dropWhile (\<lambda>c. c \<noteq> slash) ?p)"
    using a by (auto simp: skipelem_def Let_def split: if_splits)
  then obtain c p where p: "?p = c # p" "c \<noteq> slash" by (cases ?p) (auto dest: dropWhile_eq_Cons_conv [THEN iffD1])
  have "length rest \<le> length (dropWhile (\<lambda>c. c \<noteq> slash) p)"
    unfolding r p(1) using p(2) by (simp add: length_dropWhile_le)
  also have "\<dots> \<le> length p" by (rule length_dropWhile_le)
  also have "length p < length ?p" by (simp add: p)
  also have "\<dots> \<le> length path" by (rule length_dropWhile_le)
  finally show ?thesis .
qed

function namex_loop :: "nat \<Rightarrow> u8 list \<Rightarrow> bool \<Rightarrow> u8 list \<Rightarrow> 'z kfs_scheme \<Rightarrow> ('z kfs_scheme, nat option \<times> u8 list) res" where
  "namex_loop ip path par name s =
     (case skipelem path of
        None \<Rightarrow>
          if par then bindr (iput ip s) (\<lambda>_ s. Ok (None, name) s) else Ok (Some ip, name) s
      | Some (path, name) \<Rightarrow>
          bindr (ilock (Some ip) s) (\<lambda>_ s.
          if itype (inodes s ip) \<noteq> T_DIR then bindr (iunlockput ip s) (\<lambda>_ s. Ok (None, name) s)
          else if par \<and> path = [] then bindr (iunlock (Some ip) s) (\<lambda>_ s. Ok (Some ip, name) s)
          else bindr (dirlookup ip name s) (\<lambda>r s.
               case r of
                 None \<Rightarrow> bindr (iunlockput ip s) (\<lambda>_ s. Ok (None, name) s)
               | Some (next, _) \<Rightarrow> bindr (iunlockput ip s) (\<lambda>_ s. namex_loop next path par name s))))"
  by pat_completeness auto
termination
  by (relation "measure (\<lambda>(ip, path, par, name, s). length path)") (auto dest: skipelem_shorter)

declare namex_loop.simps [simp del]

definition namex :: "u8 list \<Rightarrow> bool \<Rightarrow> 'z kfs_scheme \<Rightarrow> ('z kfs_scheme, nat option \<times> u8 list) res" where
  "namex path par s =
     bindr (if path \<noteq> [] \<and> hd path = slash then iget ROOTDEV ROOTINO s
            else bindr (curproc s) (\<lambda>p s. orfault ''cwd'' (cwd (procs s p)) (\<lambda>i. idup i s))) (\<lambda>ip s.
     namex_loop ip path par [] s)"

definition namei :: "u8 list \<Rightarrow> 'z kfs_scheme \<Rightarrow> ('z kfs_scheme, nat option) res" where
  "namei path s = bindr (namex path False s) (\<lambda>r s. Ok (fst r) s)"

definition nameiparent :: "u8 list \<Rightarrow> 'z kfs_scheme \<Rightarrow> ('z kfs_scheme, nat option \<times> u8 list) res" where
  "nameiparent path s = namex path True s"

end
