(* ===== verification/Console.thy ===== *)
theory Console
  imports Fs
begin

text \<open>
  The console, \<open>kernel/console.c\<close>, and the interrupt handler of the serial port that feeds it. The input buffer has
  three free-running indices: \<open>r\<close>, where \<open>consoleread\<close> reads next, \<open>w\<close>, the end of the lines that are complete, and
  \<open>e\<close>, the end of the line being edited. Control-p runs \<open>procdump\<close> of \<open>kernel/proc.c\<close>, which is here too;
  \<open>sym_proc\<close> is the address of the process table.
\<close>

definition INPUT_BUF_SIZE :: nat where "INPUT_BUF_SIZE = 128"

record consst =
  cbuf :: "nat \<Rightarrow> u8"
  cr :: u32
  cw :: u32
  ce :: u32

record kcons = kfs +
  cons :: consst
  devsw :: "nat \<Rightarrow> bool"
  sym_proc :: u64

definition upd_cons :: "(consst \<Rightarrow> consst) \<Rightarrow> 'z kcons_scheme \<Rightarrow> 'z kcons_scheme" where
  "upd_cons f s = s\<lparr>cons := f (cons s)\<rparr>"

section \<open>Writing\<close>

text \<open>The first argument is the number of bytes left, \<open>i\<close> the number written.\<close>

fun consolewrite_loop :: "nat \<Rightarrow> int \<Rightarrow> msrc \<Rightarrow> 'z kcons_scheme \<Rightarrow> ('z kcons_scheme, int) res" where
  "consolewrite_loop 0 i src s = Ok i s"
| "consolewrite_loop (Suc k) i src s =
     bindr (either_copyin src 1 s) (\<lambda>r s.
     if fst r = - 1 then Ok i s
     else bindr (uartputc (uint (arr (snd r) 0)) s) (\<lambda>_ s.
          consolewrite_loop k (i + 1) (src_adv 1 src) s))"

definition consolewrite :: "msrc \<Rightarrow> int \<Rightarrow> 'z kcons_scheme \<Rightarrow> ('z kcons_scheme, int) res" where
  "consolewrite src n s = consolewrite_loop (nat n) 0 src s"

section \<open>Reading\<close>

text \<open>
  \<open>consoleread\<close> with the lock held and \<open>n\<close> bytes still wanted of \<open>target\<close>; \<open>out\<close> are the bytes stored at a kernel
  destination. A reader that finds no complete line sleeps; when it is woken it is back here.
\<close>

fun consoleread_loop :: "nat \<Rightarrow> int \<Rightarrow> mdst \<Rightarrow> u8 list \<Rightarrow> 'z kcons_scheme \<Rightarrow> ('z kcons_scheme, int \<times> u8 list) res" where
  "consoleread_loop 0 target dst out s = bindr (rel LkCons s) (\<lambda>_ s. Ok (target, out) s)"
| "consoleread_loop (Suc n) target dst out s =
     (if cr (cons s) = cw (cons s)
      then bindr (curproc s) (\<lambda>p s.
           bindr (killed p s) (\<lambda>k s.
           if k \<noteq> 0 then bindr (rel LkCons s) (\<lambda>_ s. Ok (- 1, out) s)
           else sleep ChCons LkCons s))
      else let c = cbuf (cons s) (unat (cr (cons s)) mod INPUT_BUF_SIZE);
               s = upd_cons (\<lambda>x. x\<lparr>cr := cr x + 1\<rparr>) s in
           if c = 4
           then let s = (if int (Suc n) < target then upd_cons (\<lambda>x. x\<lparr>cr := cr x - 1\<rparr>) s else s) in
                bindr (rel LkCons s) (\<lambda>_ s. Ok (target - int (Suc n), out) s)
           else bindr (either_copyout dst [c] s) (\<lambda>r s.
                if fst r = - 1 then bindr (rel LkCons s) (\<lambda>_ s. Ok (target - int (Suc n), out) s)
                else if c = 10 then bindr (rel LkCons s) (\<lambda>_ s. Ok (target - int n, out @ snd r) s)
                else consoleread_loop n target (dst_adv 1 dst) (out @ snd r) s))"

definition consoleread :: "mdst \<Rightarrow> int \<Rightarrow> 'z kcons_scheme \<Rightarrow> ('z kcons_scheme, int \<times> u8 list) res" where
  "consoleread dst n s =
     bindr (acq LkCons s) (\<lambda>_ s.
     if n \<le> 0 then bindr (rel LkCons s) (\<lambda>_ s. Ok (0, []) s)
     else consoleread_loop (nat n) n dst [] s)"

section \<open>Input\<close>

text \<open>Control-u: the rounds are bounded by the length of the line being edited.\<close>

fun kill_line :: "nat \<Rightarrow> 'z kcons_scheme \<Rightarrow> ('z kcons_scheme, unit) res" where
  "kill_line 0 s = (if ce (cons s) = cw (cons s) then Ok () s else Diverge)"
| "kill_line (Suc n) s =
     (if ce (cons s) \<noteq> cw (cons s) \<and> cbuf (cons s) (unat (ce (cons s) - 1) mod INPUT_BUF_SIZE) \<noteq> 10
      then bindr (consputc BACKSPACE (upd_cons (\<lambda>x. x\<lparr>ce := ce x - 1\<rparr>) s)) (\<lambda>_ s. kill_line n s)
      else Ok () s)"

definition SIZEOF_PROC :: u64 where "SIZEOF_PROC = 360"

definition proc_addr :: "nat option \<Rightarrow> 'z kcons_scheme \<Rightarrow> u64" where
  "proc_addr p s = (case p of None \<Rightarrow> 0 | Some p \<Rightarrow> sym_proc s + of_nat p * SIZEOF_PROC)"

fun procdump_loop :: "nat list \<Rightarrow> 'z kcons_scheme \<Rightarrow> ('z kcons_scheme, unit) res" where
  "procdump_loop [] s = Ok () s"
| "procdump_loop (p # ps) s =
     (if pstate (procs s p) = UNUSED then procdump_loop ps s
      else bindr (printf (Some (cstr ''%p %p %d %s %s''))
                    [PPtr (proc_addr (parent (procs s p)) s), PPtr (proc_addr (Some p) s), PInt (pid (procs s p)),
                     PStr (Some (cstr (state_name (pstate (procs s p))))),
                     PStr (Some (takeWhile (\<lambda>c. c \<noteq> 0) (pname (procs s p))))] s) (\<lambda>_ s.
           bindr (printf (Some [10]) [] s) (\<lambda>_ s. procdump_loop ps s)))"

definition procdump :: "'z kcons_scheme \<Rightarrow> ('z kcons_scheme, unit) res" where
  "procdump s = bindr (printf (Some [10]) [] s) (\<lambda>_ s. procdump_loop [0..<NPROC] s)"

definition consoleintr :: "int \<Rightarrow> 'z kcons_scheme \<Rightarrow> ('z kcons_scheme, unit) res" where
  "consoleintr c =
     locking LkCons (\<lambda>s.
       if c = 16 then procdump s
       else if c = 21 then kill_line (unat (ce (cons s) - cw (cons s))) s
       else if c = 8 \<or> c = 127
            then if ce (cons s) \<noteq> cw (cons s)
                 then consputc BACKSPACE (upd_cons (\<lambda>x. x\<lparr>ce := ce x - 1\<rparr>) s) else Ok () s
       else if c \<noteq> 0 \<and> unat (ce (cons s) - cr (cons s)) < INPUT_BUF_SIZE
            then let c = (if c = 13 then 10 else c) in
                 bindr (consputc c s) (\<lambda>_ s.
                 let s = upd_cons (\<lambda>x. x\<lparr>cbuf := (cbuf x)(unat (ce x) mod INPUT_BUF_SIZE := word_of_int c), ce := ce x + 1\<rparr>) s in
                 if c = 10 \<or> c = 4 \<or> unat (ce (cons s) - cr (cons s)) = INPUT_BUF_SIZE
                 then wakeup ChCons (upd_cons (\<lambda>x. x\<lparr>cw := ce x\<rparr>) s)
                 else Ok () s)
       else Ok () s)"

text \<open>
  The receive loop of \<open>uartintr\<close>, over the characters the device has waiting; \<open>None\<close> when they never end.
\<close>

partial_function (option) uartintr_loop :: "'z kcons_scheme \<Rightarrow> ('z kcons_scheme, unit) res option" where
  "uartintr_loop s =
     (case uartgetc s of
        (c, s) \<Rightarrow>
          if c = - 1 then Some (Ok () s)
          else case consoleintr c s of
                 Ok _ s \<Rightarrow> uartintr_loop s
               | r \<Rightarrow> Some r)"

declare uartintr_loop.simps [code]

definition uartintr :: "'z kcons_scheme \<Rightarrow> ('z kcons_scheme, unit) res" where
  "uartintr s =
     (case uartintr_loop s of
        None \<Rightarrow> Diverge
      | Some r \<Rightarrow> bindr r (\<lambda>_ s. locking LkUart uartstart s))"

definition CONSOLE :: nat where "CONSOLE = 1"

definition consoleinit :: "'z kcons_scheme \<Rightarrow> 'z kcons_scheme" where
  "consoleinit s =
     (let s = uartinit (initlk LkCons ''cons'' s) in s\<lparr>devsw := (devsw s)(CONSOLE := True)\<rparr>)"

end
