(* ===== verification/File.thy ===== *)
theory File
  imports Console
begin

text \<open>
  Pipes and open files, \<open>kernel/pipe.c\<close> and \<open>kernel/file.c\<close>. A \<open>struct pipe\<close> is at the start of a page from \<open>kalloc\<close>, a
  \<open>struct file\<close> in 64 bytes from \<open>bd_malloc\<close>; both are typed views of the memory, by address. A write to a null pointer
  is a fault. In a table of device functions only those of the console ever occur, so \<open>devsw\<close> records where they are.
\<close>

section \<open>State\<close>

definition PIPESIZE :: nat where "PIPESIZE = 512"

record pipe =
  pdata :: "nat \<Rightarrow> u8"
  nread :: u32
  nwrite :: u32
  readopen :: bool
  writeopen :: bool

datatype ftype = FD_NONE | FD_PIPE | FD_INODE | FD_DEVICE

record struct_file =
  ftype :: ftype
  fref :: int
  readable :: bool
  writable :: bool
  fpipe :: addr
  fip :: "nat option"
  foff :: nat
  fmajor :: int

record kfile = kcons +
  pipes :: "addr \<Rightarrow> pipe"
  files :: "addr \<Rightarrow> struct_file"

definition upd_pipe :: "addr \<Rightarrow> (pipe \<Rightarrow> pipe) \<Rightarrow> 'z kfile_scheme \<Rightarrow> 'z kfile_scheme" where
  "upd_pipe pi f s = s\<lparr>pipes := (pipes s)(pi := f (pipes s pi))\<rparr>"

definition upd_file :: "addr \<Rightarrow> (struct_file \<Rightarrow> struct_file) \<Rightarrow> 'z kfile_scheme \<Rightarrow> 'z kfile_scheme" where
  "upd_file a f s = s\<lparr>files := (files s)(a := f (files s a))\<rparr>"

section \<open>Pipes\<close>

definition pipeclose :: "addr \<Rightarrow> bool \<Rightarrow> 'z kfile_scheme \<Rightarrow> ('z kfile_scheme, unit) res" where
  "pipeclose pi wr s =
     bindr (acq (LkPipe pi) s) (\<lambda>_ s.
     bindr (if wr then wakeup (ChPipeRead pi) (upd_pipe pi (\<lambda>x. x\<lparr>writeopen := False\<rparr>) s)
            else wakeup (ChPipeWrite pi) (upd_pipe pi (\<lambda>x. x\<lparr>readopen := False\<rparr>) s)) (\<lambda>_ s.
     if \<not> readopen (pipes s pi) \<and> \<not> writeopen (pipes s pi)
     then bindr (rel (LkPipe pi) s) (\<lambda>_ s. kfree pi s)
     else rel (LkPipe pi) s))"

text \<open>The byte that goes in, \<open>data[nwrite++ % PIPESIZE] = ch\<close>, and the byte that comes out.\<close>

definition pipe_put :: "u8 \<Rightarrow> pipe \<Rightarrow> pipe" where
  "pipe_put c x = x\<lparr>pdata := (pdata x)(unat (nwrite x) mod PIPESIZE := c), nwrite := nwrite x + 1\<rparr>"

definition pipe_get :: "pipe \<Rightarrow> u8 \<times> pipe" where
  "pipe_get x = (pdata x (unat (nread x) mod PIPESIZE), x\<lparr>nread := nread x + 1\<rparr>)"

text \<open>
  \<open>pipewrite\<close> with the lock held and \<open>i\<close> bytes written; the first argument is the number of bytes left. A writer that
  finds the pipe full sleeps; when it is woken it is back here with the same \<open>i\<close>.
\<close>

fun pipewrite_loop :: "nat \<Rightarrow> int \<Rightarrow> addr \<Rightarrow> u64 \<Rightarrow> nat \<Rightarrow> 'z kfile_scheme \<Rightarrow> ('z kfile_scheme, int) res" where
  "pipewrite_loop 0 i pi a pr s =
     bindr (wakeup (ChPipeRead pi) s) (\<lambda>_ s. bindr (rel (LkPipe pi) s) (\<lambda>_ s. Ok i s))"
| "pipewrite_loop (Suc k) i pi a pr s =
     bindr (if \<not> readopen (pipes s pi) then Ok True s else bindr (killed pr s) (\<lambda>k s. Ok (k \<noteq> 0) s)) (\<lambda>stop s.
     if stop then bindr (rel (LkPipe pi) s) (\<lambda>_ s. Ok (- 1) s)
     else if nwrite (pipes s pi) = nread (pipes s pi) + of_nat PIPESIZE
     then bindr (wakeup (ChPipeRead pi) s) (\<lambda>_ s. sleep (ChPipeWrite pi) (LkPipe pi) s)
     else bindr (copyin (pagetable (procs s pr)) (a + word_of_int i) 1 [] s) (\<lambda>r s.
          if fst r = - 1
          then bindr (wakeup (ChPipeRead pi) s) (\<lambda>_ s. bindr (rel (LkPipe pi) s) (\<lambda>_ s. Ok i s))
          else pipewrite_loop k (i + 1) pi a pr (upd_pipe pi (pipe_put (arr (snd r) 0)) s)))"

definition pipewrite :: "addr \<Rightarrow> u64 \<Rightarrow> int \<Rightarrow> 'z kfile_scheme \<Rightarrow> ('z kfile_scheme, int) res" where
  "pipewrite pi a n s =
     bindr (curproc s) (\<lambda>pr s.
     bindr (acq (LkPipe pi) s) (\<lambda>_ s.
     pipewrite_loop (nat n) 0 pi a pr s))"

fun piperead_loop :: "nat \<Rightarrow> int \<Rightarrow> addr \<Rightarrow> u64 \<Rightarrow> nat \<Rightarrow> 'z kfile_scheme \<Rightarrow> ('z kfile_scheme, int) res" where
  "piperead_loop 0 i pi a pr s = Ok i s"
| "piperead_loop (Suc k) i pi a pr s =
     (if nread (pipes s pi) = nwrite (pipes s pi) then Ok i s
      else case pipe_get (pipes s pi) of
        (ch, x) \<Rightarrow>
          bindr (copyout (pagetable (procs s pr)) (a + word_of_int i) [ch] (upd_pipe pi (\<lambda>_. x) s)) (\<lambda>r s.
          if r = - 1 then Ok i s else piperead_loop k (i + 1) pi a pr s))"

text \<open>\<open>piperead\<close> with the lock held, from the test of its first loop on.\<close>

definition piperead_wait :: "addr \<Rightarrow> u64 \<Rightarrow> int \<Rightarrow> nat \<Rightarrow> 'z kfile_scheme \<Rightarrow> ('z kfile_scheme, int) res" where
  "piperead_wait pi a n pr s =
     (if nread (pipes s pi) = nwrite (pipes s pi) \<and> writeopen (pipes s pi)
      then bindr (killed pr s) (\<lambda>k s.
           if k \<noteq> 0 then bindr (rel (LkPipe pi) s) (\<lambda>_ s. Ok (- 1) s)
           else sleep (ChPipeRead pi) (LkPipe pi) s)
      else bindr (piperead_loop (nat n) 0 pi a pr s) (\<lambda>i s.
           bindr (wakeup (ChPipeWrite pi) s) (\<lambda>_ s.
           bindr (rel (LkPipe pi) s) (\<lambda>_ s. Ok i s))))"

definition piperead :: "addr \<Rightarrow> u64 \<Rightarrow> int \<Rightarrow> 'z kfile_scheme \<Rightarrow> ('z kfile_scheme, int) res" where
  "piperead pi a n s =
     bindr (curproc s) (\<lambda>pr s.
     bindr (acq (LkPipe pi) s) (\<lambda>_ s.
     piperead_wait pi a n pr s))"

section \<open>Files\<close>

text \<open>A zeroed \<open>struct file\<close> has a zeroed spin lock.\<close>

definition file_zero :: struct_file where
  "file_zero = \<lparr>ftype = FD_NONE, fref = 0, readable = False, writable = False, fpipe = 0, fip = None, foff = 0, fmajor = 0\<rparr>"

definition filealloc :: "'z kfile_scheme \<Rightarrow> ('z kfile_scheme, addr) res" where
  "filealloc s =
     bindr (bd_malloc 64 s) (\<lambda>f s.
     if f = 0 then Fault ''filealloc''
     else Ok f (upd_file f (\<lambda>_. file_zero\<lparr>fref := 1\<rparr>) (initlk (LkFile f) [] s)))"

definition filedup :: "addr \<Rightarrow> 'z kfile_scheme \<Rightarrow> ('z kfile_scheme, addr) res" where
  "filedup f =
     locking (LkFile f) (\<lambda>s.
       if fref (files s f) < 1 then Panic ''filedup''
       else Ok f (upd_file f (\<lambda>x. x\<lparr>fref := fref x + 1\<rparr>) s))"

definition fileclose :: "addr \<Rightarrow> 'z kfile_scheme \<Rightarrow> ('z kfile_scheme, unit) res" where
  "fileclose f s =
     bindr (locking (LkFile f) (\<lambda>s.
       if fref (files s f) < 1 then Panic ''fileclose''
       else let s = upd_file f (\<lambda>x. x\<lparr>fref := fref x - 1\<rparr>) s in Ok (fref (files s f) > 0) s) s) (\<lambda>more s.
     if more then Ok () s
     else bindr (case ftype (files s f) of
                   FD_PIPE \<Rightarrow> pipeclose (fpipe (files s f)) (writable (files s f)) s
                 | FD_NONE \<Rightarrow> Ok () s
                 | _ \<Rightarrow> bindr (begin_op s) (\<lambda>_ s.
                        orfault ''f->ip'' (fip (files s f)) (\<lambda>ip.
                        bindr (iput ip s) (\<lambda>_ s. end_op s)))) (\<lambda>_ s.
          bd_free f s))"

definition pipealloc :: "'z kfile_scheme \<Rightarrow> ('z kfile_scheme, (addr \<times> addr) option) res" where
  "pipealloc s =
     bindr (filealloc s) (\<lambda>f0 s.
     bindr (filealloc s) (\<lambda>f1 s.
     bindr (kalloc s) (\<lambda>pi s.
     if pi = 0
     then bindr (fileclose f0 s) (\<lambda>_ s. bindr (fileclose f1 s) (\<lambda>_ s. Ok None s))
     else let s = upd_pipe pi (\<lambda>x. x\<lparr>nread := 0, nwrite := 0, readopen := True, writeopen := True\<rparr>) s;
              s = initlk (LkPipe pi) ''pipe'' s;
              s = upd_file f0 (\<lambda>x. x\<lparr>ftype := FD_PIPE, readable := True, writable := False, fpipe := pi\<rparr>) s;
              s = upd_file f1 (\<lambda>x. x\<lparr>ftype := FD_PIPE, readable := False, writable := True, fpipe := pi\<rparr>) s
          in Ok (Some (f0, f1)) s)))"

text \<open>\<open>struct stat\<close> takes 24 bytes: \<open>dev\<close>, \<open>ino\<close>, \<open>type\<close>, \<open>nlink\<close>, four bytes of padding, \<open>size\<close>.\<close>

definition stat_bytes :: "u8 list \<Rightarrow> stat \<Rightarrow> u8 list" where
  "stat_bytes pad st =
     le_bytes 4 (u32_of (st_dev st)) @ le_bytes 4 (st_ino st) @ le_bytes 2 (u16_of (st_type st)) @
     le_bytes 2 (u16_of (st_nlink st)) @ pad @ le_bytes 8 (st_size st)"

text \<open>The padding bytes of the local \<open>st\<close> are not set by the code: they are a parameter.\<close>

definition filestat :: "u8 list \<Rightarrow> addr \<Rightarrow> u64 \<Rightarrow> 'z kfile_scheme \<Rightarrow> ('z kfile_scheme, int) res" where
  "filestat pad f a s =
     bindr (curproc s) (\<lambda>p s.
     if ftype (files s f) = FD_INODE \<or> ftype (files s f) = FD_DEVICE
     then bindr (ilock (fip (files s f)) s) (\<lambda>_ s.
          orfault ''f->ip'' (fip (files s f)) (\<lambda>ip.
          let st = stati ip s in
          bindr (iunlock (Some ip) s) (\<lambda>_ s.
          bindr (copyout (pagetable (procs s p)) a (stat_bytes pad st) s) (\<lambda>r s.
          Ok (if r < 0 then - 1 else 0) s))))
     else Ok (- 1) s)"

definition fileread :: "addr \<Rightarrow> u64 \<Rightarrow> int \<Rightarrow> 'z kfile_scheme \<Rightarrow> ('z kfile_scheme, int) res" where
  "fileread f a n s =
     (if \<not> readable (files s f) then Ok (- 1) s
      else case ftype (files s f) of
        FD_PIPE \<Rightarrow> piperead (fpipe (files s f)) a n s
      | FD_DEVICE \<Rightarrow>
          let m = fmajor (files s f) in
          if m < 0 \<or> m \<ge> NDEV \<or> \<not> devsw s (nat m) then Ok (- 1) s
          else bindr (consoleread (UserDst a) n s) (\<lambda>r s. Ok (fst r) s)
      | FD_INODE \<Rightarrow>
          bindr (ilock (fip (files s f)) s) (\<lambda>_ s.
          orfault ''f->ip'' (fip (files s f)) (\<lambda>ip.
          bindr (readi ip (UserDst a) (foff (files s f)) (u32_of n) s) (\<lambda>r s.
          let s = (if fst r > 0 then upd_file f (\<lambda>x. x\<lparr>foff := (foff x + nat (fst r)) mod 2 ^ 32\<rparr>) s else s) in
          bindr (iunlock (Some ip) s) (\<lambda>_ s. Ok (fst r) s))))
      | FD_NONE \<Rightarrow> Panic ''fileread'')"

definition WRITE_MAX :: int where
  "WRITE_MAX = ((int MAXOPBLOCKS - 1 - 1 - 2) div 2) * int BSIZE"

text \<open>
  The loop of \<open>filewrite\<close> on an inode: each round is a transaction of its own. A round that writes everything it was asked
  for makes progress, so \<open>n\<close> rounds are enough.
\<close>

fun filewrite_loop :: "nat \<Rightarrow> addr \<Rightarrow> nat \<Rightarrow> u64 \<Rightarrow> int \<Rightarrow> int \<Rightarrow> 'z kfile_scheme \<Rightarrow> ('z kfile_scheme, int) res" where
  "filewrite_loop 0 f ip a i n s = (if i < n then Diverge else Ok i s)"
| "filewrite_loop (Suc k) f ip a i n s =
     (if i < n
      then let n1 = min (n - i) WRITE_MAX in
           bindr (begin_op s) (\<lambda>_ s.
           bindr (ilock (Some ip) s) (\<lambda>_ s.
           bindr (writei ip (UserSrc (a + word_of_int i)) (foff (files s f)) (nat n1) s) (\<lambda>r s.
           let s = (if r > 0 then upd_file f (\<lambda>x. x\<lparr>foff := (foff x + nat r) mod 2 ^ 32\<rparr>) s else s) in
           bindr (iunlock (Some ip) s) (\<lambda>_ s.
           bindr (end_op s) (\<lambda>_ s.
           if r \<noteq> n1 then Ok i s else filewrite_loop k f ip a (i + r) n s)))))
      else Ok i s)"

definition filewrite :: "addr \<Rightarrow> u64 \<Rightarrow> int \<Rightarrow> 'z kfile_scheme \<Rightarrow> ('z kfile_scheme, int) res" where
  "filewrite f a n s =
     (if \<not> writable (files s f) then Ok (- 1) s
      else case ftype (files s f) of
        FD_PIPE \<Rightarrow> pipewrite (fpipe (files s f)) a n s
      | FD_DEVICE \<Rightarrow>
          let m = fmajor (files s f) in
          if m < 0 \<or> m \<ge> NDEV \<or> \<not> devsw s (nat m) then Ok (- 1) s
          else consolewrite (UserSrc a) n s
      | FD_INODE \<Rightarrow>
          orfault ''f->ip'' (fip (files s f)) (\<lambda>ip.
          bindr (filewrite_loop (nat n) f ip a 0 n s) (\<lambda>i s. Ok (if i = n then n else - 1) s))
      | FD_NONE \<Rightarrow> Panic ''filewrite'')"

section \<open>The pipe is a queue\<close>

definition pipe_content :: "pipe \<Rightarrow> u8 list" where
  "pipe_content x = ring_list PIPESIZE (pdata x) (nread x) (nwrite x)"

lemma pipe_ring:
  "length (pipe_content x) < PIPESIZE \<Longrightarrow> pipe_content (pipe_put c x) = pipe_content x @ [c]"
  "pipe_content x \<noteq> [] \<Longrightarrow> pipe_content x = fst (pipe_get x) # pipe_content (snd (pipe_get x))"
proof -
  assume "length (pipe_content x) < PIPESIZE"
  then show "pipe_content (pipe_put c x) = pipe_content x @ [c]"
    using ring_list_push [of PIPESIZE "nwrite x" "nread x" "pdata x" c]
    by (simp add: pipe_content_def pipe_put_def PIPESIZE_def)
next
  assume "pipe_content x \<noteq> []"
  then show "pipe_content x = fst (pipe_get x) # pipe_content (snd (pipe_get x))"
    by (simp add: pipe_content_def pipe_get_def ring_list_eq_Nil ring_list_pop)
qed

interpretation pipeq: fifo PIPESIZE pipe_content pipe_put pipe_get
  by unfold_locales (fact pipe_ring)+

lemma pipe_full_iff:
  assumes "length (pipe_content x) \<le> PIPESIZE"
  shows "nwrite x = nread x + of_nat PIPESIZE \<longleftrightarrow> length (pipe_content x) = PIPESIZE"
proof -
  have "length (pipe_content x) = unat (nwrite x - nread x)" by (simp add: pipe_content_def)
  moreover have "nwrite x = nread x + of_nat PIPESIZE \<longleftrightarrow> nwrite x - nread x = of_nat PIPESIZE"
    by (auto simp: algebra_simps)
  moreover have "\<dots> \<longleftrightarrow> unat (nwrite x - nread x) = PIPESIZE"
    by (auto simp: PIPESIZE_def word_unat_eq_iff)
  ultimately show ?thesis by simp
qed

lemma pipe_empty_iff: "nread x = nwrite x \<longleftrightarrow> pipe_content x = []"
  by (simp add: pipe_content_def ring_list_eq_Nil)

end
