(* ===== verification/Proc.thy ===== *)
theory Proc
  imports File
begin

text \<open>
  Creation, growth and end of processes: the part of \<open>kernel/proc.c\<close> that needs page tables and files. Trapframes are a
  typed view of their pages. The addresses that the linker assigns to the trampoline page and to \<open>forkret\<close> are fields of
  the state that nothing changes.
\<close>

section \<open>State\<close>

record trapframe =
  kernel_satp :: u64
  kernel_sp :: u64
  kernel_trap :: u64
  epc :: u64
  kernel_hartid :: u64
  tf_ra :: u64
  tf_sp :: u64
  tf_gp :: u64
  tf_tp :: u64
  tf_t0 :: u64
  tf_t1 :: u64
  tf_t2 :: u64
  tf_s0 :: u64
  tf_s1 :: u64
  tf_a0 :: u64
  tf_a1 :: u64
  tf_a2 :: u64
  tf_a3 :: u64
  tf_a4 :: u64
  tf_a5 :: u64
  tf_a6 :: u64
  tf_a7 :: u64
  tf_s2 :: u64
  tf_s3 :: u64
  tf_s4 :: u64
  tf_s5 :: u64
  tf_s6 :: u64
  tf_s7 :: u64
  tf_s8 :: u64
  tf_s9 :: u64
  tf_s10 :: u64
  tf_s11 :: u64
  tf_t3 :: u64
  tf_t4 :: u64
  tf_t5 :: u64
  tf_t6 :: u64

record kpr = kfile +
  tframes :: "addr \<Rightarrow> trapframe"
  fs_first :: bool
  sym_trampoline :: u64
  sym_forkret :: u64

definition upd_tf :: "nat \<Rightarrow> (trapframe \<Rightarrow> trapframe) \<Rightarrow> 'z kpr_scheme \<Rightarrow> 'z kpr_scheme" where
  "upd_tf p f s = s\<lparr>tframes := (tframes s)(trapframe (procs s p) := f (tframes s (trapframe (procs s p))))\<rparr>"

definition tf_of :: "nat \<Rightarrow> 'z kpr_scheme \<Rightarrow> trapframe" where
  "tf_of p s = tframes s (trapframe (procs s p))"

text \<open>\<open>safestrcpy(dst, src, 16)\<close> on a process name; \<open>src\<close> is a string.\<close>

definition name_copy :: "u8 list \<Rightarrow> u8 list \<Rightarrow> u8 list" where
  "name_copy dst src =
     map (\<lambda>k. safestrcpy 0 16 16 (\<lambda>a. if a < 16 then arr dst (nat a) else arr src (nat a - 16)) (int k)) [0..<16]"

section \<open>Page tables of processes\<close>

definition proc_pagetable :: "nat \<Rightarrow> 'z kpr_scheme \<Rightarrow> ('z kpr_scheme, addr) res" where
  "proc_pagetable p s =
     bindr (uvmcreate s) (\<lambda>pt s.
     if pt = 0 then Ok 0 s
     else bindr (mappages pt TRAMPOLINE PGSIZE (sym_trampoline s) (PTE_R OR PTE_X) s) (\<lambda>r s.
          if r < 0 then bindr (uvmfree pt 0 s) (\<lambda>_ s. Ok 0 s)
          else bindr (mappages pt TRAPFRAME PGSIZE (word_of_int (trapframe (procs s p))) (PTE_R OR PTE_W) s) (\<lambda>r s.
               if r < 0
               then bindr (uvmunmap pt TRAMPOLINE 1 False s) (\<lambda>_ s. bindr (uvmfree pt 0 s) (\<lambda>_ s. Ok 0 s))
               else Ok pt s)))"

definition proc_freepagetable :: "addr \<Rightarrow> u64 \<Rightarrow> 'z kvm_scheme \<Rightarrow> ('z kvm_scheme, unit) res" where
  "proc_freepagetable pt sz s =
     bindr (uvmunmap pt TRAMPOLINE 1 False s) (\<lambda>_ s.
     bindr (uvmunmap pt TRAPFRAME 1 False s) (\<lambda>_ s.
     uvmfree pt sz s))"

definition freeproc :: "nat \<Rightarrow> 'z kvm_scheme \<Rightarrow> ('z kvm_scheme, unit) res" where
  "freeproc p s =
     bindr (if trapframe (procs s p) \<noteq> 0 then kfree (trapframe (procs s p)) s else Ok () s) (\<lambda>_ s.
     let s = upd_proc p (\<lambda>x. x\<lparr>trapframe := 0\<rparr>) s in
     bindr (if pagetable (procs s p) \<noteq> 0 then proc_freepagetable (pagetable (procs s p)) (psz (procs s p)) s else Ok () s) (\<lambda>_ s.
     Ok () (upd_proc p (\<lambda>x. x\<lparr>pagetable := 0, psz := 0, pid := 0, parent := None, pname := (pname x)[0 := 0],
       pchan := None, pkilled := 0, xstate := 0, pstate := UNUSED\<rparr>) s)))"

section \<open>Creating a process\<close>

text \<open>The scan for an unused entry of the process table; its lock is held when one is found.\<close>

fun find_unused :: "nat list \<Rightarrow> 'z kproc_scheme \<Rightarrow> ('z kproc_scheme, nat option) res" where
  "find_unused [] s = Ok None s"
| "find_unused (p # ps) s =
     bindr (acq (LkProc p) s) (\<lambda>_ s.
     if pstate (procs s p) = UNUSED then Ok (Some p) s
     else bindr (rel (LkProc p) s) (\<lambda>_ s. find_unused ps s))"

definition allocproc :: "'z kpr_scheme \<Rightarrow> ('z kpr_scheme, nat option) res" where
  "allocproc s =
     bindr (find_unused [0..<NPROC] s) (\<lambda>r s.
     case r of
       None \<Rightarrow> Ok None s
     | Some p \<Rightarrow>
         bindr (allocpid s) (\<lambda>i s.
         let s = upd_proc p (\<lambda>x. x\<lparr>pid := i, pstate := USED\<rparr>) s in
         bindr (kalloc s) (\<lambda>tf s.
         let s = upd_proc p (\<lambda>x. x\<lparr>trapframe := tf\<rparr>) s in
         if tf = 0
         then bindr (freeproc p s) (\<lambda>_ s. bindr (rel (LkProc p) s) (\<lambda>_ s. Ok None s))
         else bindr (proc_pagetable p s) (\<lambda>pt s.
              let s = upd_proc p (\<lambda>x. x\<lparr>pagetable := pt\<rparr>) s in
              if pt = 0
              then bindr (freeproc p s) (\<lambda>_ s. bindr (rel (LkProc p) s) (\<lambda>_ s. Ok None s))
              else Ok (Some p) (upd_proc p (\<lambda>x. x\<lparr>pcontext :=
                     \<lparr>cx_ra = sym_forkret s, cx_sp = kstack x + PGSIZE, cx_s = replicate 12 0\<rparr>\<rparr>) s)))))"

definition initcode :: "u8 list" where
  "initcode = [0x17, 0x05, 0x00, 0x00, 0x13, 0x05, 0x45, 0x02, 0x97,
     0x05, 0x00, 0x00, 0x93, 0x85, 0x35, 0x02, 0x93, 0x08,
     0x70, 0x00, 0x73, 0x00, 0x00, 0x00, 0x93, 0x08, 0x20,
     0x00, 0x73, 0x00, 0x00, 0x00, 0xef, 0xf0, 0x9f, 0xff,
     0x2f, 0x69, 0x6e, 0x69, 0x74, 0x00, 0x00, 0x24, 0x00,
     0x00, 0x00, 0x00, 0x00, 0x00, 0x00, 0x00]"

definition userinit :: "'z kpr_scheme \<Rightarrow> ('z kpr_scheme, unit) res" where
  "userinit s =
     bindr (allocproc s) (\<lambda>r s.
     let s = s\<lparr>initproc := r\<rparr> in
     orfault ''userinit'' r (\<lambda>p.
     bindr (uvmfirst (pagetable (procs s p)) initcode s) (\<lambda>_ s.
     let s = upd_proc p (\<lambda>x. x\<lparr>psz := PGSIZE\<rparr>) s;
         s = upd_tf p (\<lambda>t. t\<lparr>epc := 0, tf_sp := PGSIZE\<rparr>) s;
         s = upd_proc p (\<lambda>x. x\<lparr>pname := name_copy (pname x) [105, 110, 105, 116, 99, 111, 100, 101]\<rparr>) s in
     bindr (namei [slash] s) (\<lambda>d s.
     rel (LkProc p) (upd_proc p (\<lambda>x. x\<lparr>cwd := d, pstate := RUNNABLE\<rparr>) s)))))"

definition growproc :: "int \<Rightarrow> 'z kpr_scheme \<Rightarrow> ('z kpr_scheme, int) res" where
  "growproc n s =
     bindr (curproc s) (\<lambda>p s.
     let sz = psz (procs s p) in
     if n > 0
     then bindr (uvmalloc (pagetable (procs s p)) sz (sz + word_of_int n) PTE_W s) (\<lambda>sz s.
          if sz = 0 then Ok (- 1) s else Ok 0 (upd_proc p (\<lambda>x. x\<lparr>psz := sz\<rparr>) s))
     else if n < 0
     then bindr (uvmdealloc (pagetable (procs s p)) sz (sz + word_of_int n) s) (\<lambda>sz s.
          Ok 0 (upd_proc p (\<lambda>x. x\<lparr>psz := sz\<rparr>) s))
     else Ok 0 (upd_proc p (\<lambda>x. x\<lparr>psz := sz\<rparr>) s))"

fun fork_files :: "nat list \<Rightarrow> nat \<Rightarrow> nat \<Rightarrow> 'z kfile_scheme \<Rightarrow> ('z kfile_scheme, unit) res" where
  "fork_files [] p np s = Ok () s"
| "fork_files (i # is) p np s =
     (let f = ofile (procs s p) ! i in
      bindr (if f \<noteq> 0
             then bindr (filedup f s) (\<lambda>f s. Ok () (upd_proc np (\<lambda>x. x\<lparr>ofile := (ofile x)[i := f]\<rparr>) s))
             else Ok () s) (\<lambda>_ s.
      fork_files is p np s))"

definition fork :: "'z kpr_scheme \<Rightarrow> ('z kpr_scheme, int) res" where
  "fork s =
     bindr (curproc s) (\<lambda>p s.
     bindr (allocproc s) (\<lambda>r s.
     case r of
       None \<Rightarrow> Ok (- 1) s
     | Some np \<Rightarrow>
         bindr (uvmcopy (pagetable (procs s p)) (pagetable (procs s np)) (psz (procs s p)) s) (\<lambda>r s.
         if r < 0
         then bindr (freeproc np s) (\<lambda>_ s. bindr (rel (LkProc np) s) (\<lambda>_ s. Ok (- 1) s))
         else let s = upd_proc np (\<lambda>x. x\<lparr>psz := psz (procs s p)\<rparr>) s;
                  s = upd_tf np (\<lambda>_. tf_of p s) s;
                  s = upd_tf np (\<lambda>t. t\<lparr>tf_a0 := 0\<rparr>) s in
              bindr (fork_files [0..<NOFILE] p np s) (\<lambda>_ s.
              orfault ''cwd'' (cwd (procs s p)) (\<lambda>d.
              bindr (idup d s) (\<lambda>d s.
              let s = upd_proc np (\<lambda>x. x\<lparr>cwd := Some d, pname := name_copy (pname x) (pname (procs s p))\<rparr>) s;
                  i = pid (procs s np) in
              bindr (rel (LkProc np) s) (\<lambda>_ s.
              bindr (locking LkWait (\<lambda>s. Ok () (upd_proc np (\<lambda>x. x\<lparr>parent := Some p\<rparr>) s)) s) (\<lambda>_ s.
              bindr (locking (LkProc np) (\<lambda>s. Ok () (upd_proc np (\<lambda>x. x\<lparr>pstate := RUNNABLE\<rparr>) s)) s) (\<lambda>_ s.
              Ok i s)))))))))"

section \<open>The end of a process\<close>

fun exit_files :: "nat list \<Rightarrow> nat \<Rightarrow> 'z kfile_scheme \<Rightarrow> ('z kfile_scheme, unit) res" where
  "exit_files [] p s = Ok () s"
| "exit_files (fd # fds) p s =
     (let f = ofile (procs s p) ! fd in
      bindr (if f \<noteq> 0
             then bindr (fileclose f s) (\<lambda>_ s. Ok () (upd_proc p (\<lambda>x. x\<lparr>ofile := (ofile x)[fd := 0]\<rparr>) s))
             else Ok () s) (\<lambda>_ s.
      exit_files fds p s))"

text \<open>
  \<open>exit\<close> does not return: \<open>Ok\<close> is the state in which it switches to the scheduler for good. Nobody sleeps on the null
  channel, so a process without a parent wakes nobody.
\<close>

definition exit :: "int \<Rightarrow> 'z kpr_scheme \<Rightarrow> ('z kpr_scheme, unit) res" where
  "exit status s =
     bindr (curproc s) (\<lambda>p s.
     if initproc s = Some p then Panic ''init exiting''
     else bindr (exit_files [0..<NOFILE] p s) (\<lambda>_ s.
          bindr (begin_op s) (\<lambda>_ s.
          orfault ''cwd'' (cwd (procs s p)) (\<lambda>d.
          bindr (iput d s) (\<lambda>_ s.
          bindr (end_op s) (\<lambda>_ s.
          let s = upd_proc p (\<lambda>x. x\<lparr>cwd := None\<rparr>) s in
          bindr (acq LkWait s) (\<lambda>_ s.
          bindr (reparent p s) (\<lambda>_ s.
          bindr (case parent (procs s p) of None \<Rightarrow> Ok () s | Some pp \<Rightarrow> wakeup (ChProc pp) s) (\<lambda>_ s.
          bindr (acq (LkProc p) s) (\<lambda>_ s.
          let s = upd_proc p (\<lambda>x. x\<lparr>xstate := status, pstate := ZOMBIE\<rparr>) s in
          bindr (rel LkWait s) (\<lambda>_ s.
          bindr (sched s) (\<lambda>_ s. Ok () s))))))))))))"

text \<open>
  The scan of \<open>wait\<close>: whether there are children, and the result when one has exited or the copy has failed. In that
  case \<open>wait_lock\<close> has been released.
\<close>

fun wait_scan :: "nat list \<Rightarrow> bool \<Rightarrow> nat \<Rightarrow> u64 \<Rightarrow> 'z kpr_scheme \<Rightarrow> ('z kpr_scheme, bool \<times> int option) res" where
  "wait_scan [] have p a s = Ok (have, None) s"
| "wait_scan (pp # ps) have p a s =
     (if parent (procs s pp) = Some p
      then bindr (acq (LkProc pp) s) (\<lambda>_ s.
           if pstate (procs s pp) = ZOMBIE
           then let i = pid (procs s pp) in
                bindr (if a \<noteq> 0 then copyout (pagetable (procs s p)) a (le_bytes 4 (u32_of (xstate (procs s pp)))) s
                       else Ok 0 s) (\<lambda>r s.
                if r < 0
                then bindr (rel (LkProc pp) s) (\<lambda>_ s. bindr (rel LkWait s) (\<lambda>_ s. Ok (True, Some (- 1)) s))
                else bindr (freeproc pp s) (\<lambda>_ s.
                     bindr (rel (LkProc pp) s) (\<lambda>_ s.
                     bindr (rel LkWait s) (\<lambda>_ s. Ok (True, Some i) s))))
           else bindr (rel (LkProc pp) s) (\<lambda>_ s. wait_scan ps True p a s))
      else wait_scan ps have p a s)"

text \<open>\<open>wait\<close> with \<open>wait_lock\<close> held; a parent that has slept is back here when it is woken.\<close>

definition wait_loop :: "nat \<Rightarrow> u64 \<Rightarrow> 'z kpr_scheme \<Rightarrow> ('z kpr_scheme, int) res" where
  "wait_loop p a s =
     bindr (wait_scan [0..<NPROC] False p a s) (\<lambda>r s.
     case r of
       (have, Some i) \<Rightarrow> Ok i s
     | (have, None) \<Rightarrow>
         bindr (if \<not> have then Ok True s else bindr (killed p s) (\<lambda>k s. Ok (k \<noteq> 0) s)) (\<lambda>stop s.
         if stop then bindr (rel LkWait s) (\<lambda>_ s. Ok (- 1) s)
         else sleep (ChProc p) LkWait s))"

definition wait :: "u64 \<Rightarrow> 'z kpr_scheme \<Rightarrow> ('z kpr_scheme, int) res" where
  "wait a s =
     bindr (curproc s) (\<lambda>p s.
     bindr (acq LkWait s) (\<lambda>_ s.
     wait_loop p a s))"

end
