(* ===== verification/Exec.thy ===== *)
theory Exec
  imports Proc
begin

text \<open>
  Loading a program, \<open>kernel/exec.c\<close> and the formats of \<open>kernel/elf.h\<close>. The argument strings are byte lists without their
  terminating zeros; the jumps to \<open>bad\<close> are the failing results of the phases.
\<close>

definition rd64 :: "nat \<Rightarrow> u8 list \<Rightarrow> u64" where
  "rd64 off d = of_nat (le_val (get_at off 8 d))"

definition ELF_MAGIC :: nat where "ELF_MAGIC = 0x464C457F"
definition ELF_PROG_LOAD :: nat where "ELF_PROG_LOAD = 1"

record elfhdr =
  elf_magic :: nat
  elf_entry :: u64
  elf_phoff :: u64
  elf_phnum :: nat

record proghdr =
  ph_type :: nat
  ph_flags :: nat
  ph_off :: u64
  ph_vaddr :: u64
  ph_filesz :: u64
  ph_memsz :: u64

text \<open>The fields that \<open>exec\<close> reads, from the bytes of a file header (64) and of a program header (56).\<close>

definition get_elfhdr :: "u8 list \<Rightarrow> elfhdr" where
  "get_elfhdr d = \<lparr>elf_magic = rd32 0 d, elf_entry = rd64 24 d, elf_phoff = rd64 32 d, elf_phnum = rd16 56 d\<rparr>"

definition get_proghdr :: "u8 list \<Rightarrow> proghdr" where
  "get_proghdr d = \<lparr>ph_type = rd32 0 d, ph_flags = rd32 4 d, ph_off = rd64 8 d, ph_vaddr = rd64 16 d,
     ph_filesz = rd64 32 d, ph_memsz = rd64 40 d\<rparr>"

definition flags2perm :: "nat \<Rightarrow> u64" where
  "flags2perm flags = (if odd flags then PTE_X else 0) OR (if odd (flags div 2) then PTE_W else 0)"

text \<open>\<open>loadseg\<close>: the first argument bounds the number of pages left.\<close>

fun loadseg_loop :: "nat \<Rightarrow> nat \<Rightarrow> addr \<Rightarrow> u64 \<Rightarrow> nat \<Rightarrow> nat \<Rightarrow> nat \<Rightarrow> 'z kfs_scheme \<Rightarrow> ('z kfs_scheme, int) res" where
  "loadseg_loop 0 i pt va ip offset sz s = (if i < sz then Diverge else Ok 0 s)"
| "loadseg_loop (Suc k) i pt va ip offset sz s =
     (if i < sz
      then bindr (walkaddr pt (va + of_nat i) s) (\<lambda>pa s.
           if pa = 0 then Panic ''loadseg: address should exist''
           else let n = (if sz - i < 4096 then sz - i else 4096) in
                bindr (readi ip KernDst ((offset + i) mod 2 ^ 32) n s) (\<lambda>r s.
                let s = on_bytes (put_bytes (uint pa) (snd r)) s in
                if fst r \<noteq> int n then Ok (- 1) s
                else loadseg_loop k (i + 4096) pt va ip offset sz s))
      else Ok 0 s)"

definition loadseg :: "addr \<Rightarrow> u64 \<Rightarrow> nat \<Rightarrow> nat \<Rightarrow> nat \<Rightarrow> 'z kfs_scheme \<Rightarrow> ('z kfs_scheme, int) res" where
  "loadseg pt va ip offset sz = loadseg_loop (sz div 4096 + 1) 0 pt va ip offset sz"

text \<open>The loop over the program headers; the results are whether it succeeded and the size of the image so far.\<close>

fun exec_load :: "nat \<Rightarrow> int \<Rightarrow> addr \<Rightarrow> nat \<Rightarrow> u64 \<Rightarrow> 'z kfs_scheme \<Rightarrow> ('z kfs_scheme, bool \<times> u64) res" where
  "exec_load 0 off pt ip sz s = Ok (True, sz) s"
| "exec_load (Suc k) off pt ip sz s =
     bindr (readi ip KernDst (u32_of off) 56 s) (\<lambda>r s.
     if fst r \<noteq> 56 then Ok (False, sz) s
     else let ph = get_proghdr (snd r) in
          if ph_type ph \<noteq> ELF_PROG_LOAD then exec_load k (s32 (off + 56)) pt ip sz s
          else if ph_memsz ph < ph_filesz ph then Ok (False, sz) s
          else if ph_vaddr ph + ph_memsz ph < ph_vaddr ph then Ok (False, sz) s
          else if unat (ph_vaddr ph) mod 4096 \<noteq> 0 then Ok (False, sz) s
          else bindr (uvmalloc pt sz (ph_vaddr ph + ph_memsz ph) (flags2perm (ph_flags ph)) s) (\<lambda>sz1 s.
               if sz1 = 0 then Ok (False, sz) s
               else bindr (loadseg pt (ph_vaddr ph) ip (unat (ph_off ph) mod 2 ^ 32) (unat (ph_filesz ph) mod 2 ^ 32) s) (\<lambda>r s.
                    if r < 0 then Ok (False, sz1) s
                    else exec_load k (s32 (off + 56)) pt ip sz1 s)))"

text \<open>Pushing the argument strings; \<open>None\<close> where the code jumps to \<open>bad\<close>.\<close>

definition align16 :: "u64 \<Rightarrow> u64" where
  "align16 sp = sp - sp mod 16"

fun exec_args :: "u8 list list \<Rightarrow> addr \<Rightarrow> u64 \<Rightarrow> u64 list \<Rightarrow> u64 \<Rightarrow> 'z kvm_scheme \<Rightarrow> ('z kvm_scheme, (u64 \<times> u64 list) option) res" where
  "exec_args [] pt stackbase ustack sp s = Ok (Some (sp, ustack)) s"
| "exec_args (x # xs) pt stackbase ustack sp s =
     (if length ustack \<ge> MAXARG then Ok None s
      else let sp = align16 (sp - of_nat (length x + 1)) in
           if sp < stackbase then Ok None s
           else bindr (copyout pt sp (x @ [0]) s) (\<lambda>r s.
                if r < 0 then Ok None s
                else exec_args xs pt stackbase (ustack @ [sp]) sp s))"

definition ustack_bytes :: "u64 list \<Rightarrow> u8 list" where
  "ustack_bytes us = concat (map (\<lambda>x. le_bytes 8 (unat x)) us)"

text \<open>The stack of the new image: the guard page, the strings and the array of pointers to them.\<close>

definition exec_stack :: "addr \<Rightarrow> u64 \<Rightarrow> u8 list list \<Rightarrow> 'z kvm_scheme \<Rightarrow> ('z kvm_scheme, (u64 \<times> (u64 \<times> nat) option)) res" where
  "exec_stack pt sz argv s =
     (let sz = PGROUNDUP sz in
      bindr (uvmalloc pt sz (sz + 2 * PGSIZE) PTE_W s) (\<lambda>sz1 s.
      if sz1 = 0 then Ok (sz, None) s
      else let sz = sz1 in
           bindr (uvmclear pt (sz - 2 * PGSIZE) s) (\<lambda>_ s.
           let stackbase = sz - PGSIZE in
           bindr (exec_args argv pt stackbase [] sz s) (\<lambda>r s.
           case r of
             None \<Rightarrow> Ok (sz, None) s
           | Some (sp, ustack) \<Rightarrow>
               let argc = length ustack in
               if argc \<ge> MAXARG then Fault ''ustack''
               else let sp = align16 (sp - of_nat ((argc + 1) * 8)) in
                    if sp < stackbase then Ok (sz, None) s
                    else bindr (copyout pt sp (ustack_bytes (ustack @ [0])) s) (\<lambda>r s.
                         if r < 0 then Ok (sz, None) s else Ok (sz, Some (sp, argc)) s)))))"

definition last_elem :: "u8 list \<Rightarrow> u8 list" where
  "last_elem path = rev (takeWhile (\<lambda>c. c \<noteq> slash) (rev path))"

definition exec :: "u8 list \<Rightarrow> u8 list list \<Rightarrow> 'z kpr_scheme \<Rightarrow> ('z kpr_scheme, int) res" where
  "exec path argv s =
     bindr (curproc s) (\<lambda>p s.
     bindr (begin_op s) (\<lambda>_ s.
     bindr (namei path s) (\<lambda>r s.
     case r of
       None \<Rightarrow> bindr (end_op s) (\<lambda>_ s. Ok (- 1) s)
     | Some ip \<Rightarrow>
         bindr (ilock (Some ip) s) (\<lambda>_ s.
         bindr (readi ip KernDst 0 64 s) (\<lambda>r s.
         let elf = get_elfhdr (snd r) in
         bindr (if fst r \<noteq> 64 \<or> elf_magic elf \<noteq> ELF_MAGIC then Ok 0 s else proc_pagetable p s) (\<lambda>pt s.
         if pt = 0
         then bindr (iunlockput ip s) (\<lambda>_ s. bindr (end_op s) (\<lambda>_ s. Ok (- 1) s))
         else bindr (exec_load (elf_phnum elf) (s32 (uint (elf_phoff elf))) pt ip 0 s) (\<lambda>r s.
              if \<not> fst r
              then bindr (proc_freepagetable pt (snd r) s) (\<lambda>_ s.
                   bindr (iunlockput ip s) (\<lambda>_ s. bindr (end_op s) (\<lambda>_ s. Ok (- 1) s)))
              else bindr (iunlockput ip s) (\<lambda>_ s.
                   bindr (end_op s) (\<lambda>_ s.
                   bindr (curproc s) (\<lambda>p s.
                   let oldsz = psz (procs s p) in
                   bindr (exec_stack pt (snd r) argv s) (\<lambda>r s.
                   case r of
                     (sz, None) \<Rightarrow> bindr (proc_freepagetable pt sz s) (\<lambda>_ s. Ok (- 1) s)
                   | (sz, Some (sp, argc)) \<Rightarrow>
                       let s = upd_tf p (\<lambda>t. t\<lparr>tf_a1 := sp\<rparr>) s;
                           s = upd_proc p (\<lambda>x. x\<lparr>pname := name_copy (pname x) (last_elem path)\<rparr>) s;
                           oldpt = pagetable (procs s p);
                           s = upd_proc p (\<lambda>x. x\<lparr>pagetable := pt, psz := sz\<rparr>) s;
                           s = upd_tf p (\<lambda>t. t\<lparr>epc := elf_entry elf, tf_sp := sp\<rparr>) s in
                       bindr (proc_freepagetable oldpt oldsz s) (\<lambda>_ s. Ok (int argc) s))))))))))))"

end
