(* ===== verification/Sysargs.thy ===== *)
theory Sysargs
  imports Exec
begin

text \<open>
  The arguments of system calls, the first half of \<open>kernel/syscall.c\<close>. A string argument is returned as its bytes without
  the terminating zero, \<open>None\<close> standing for the error result.
\<close>

record ksys = kpr +
  ticks :: u32

definition fetchaddr :: "u64 \<Rightarrow> 'z ksys_scheme \<Rightarrow> ('z ksys_scheme, u64 option) res" where
  "fetchaddr a s =
     bindr (curproc s) (\<lambda>p s.
     if a \<ge> psz (procs s p) \<or> a + 8 > psz (procs s p) then Ok None s
     else bindr (copyin (pagetable (procs s p)) a 8 [] s) (\<lambda>r s.
          Ok (if fst r \<noteq> 0 then None else Some (rd64 0 (snd r))) s))"

definition fetchstr :: "u64 \<Rightarrow> nat \<Rightarrow> 'z ksys_scheme \<Rightarrow> ('z ksys_scheme, u8 list option) res" where
  "fetchstr a mx s =
     bindr (curproc s) (\<lambda>p s.
     bindr (copyinstr (pagetable (procs s p)) a mx [] s) (\<lambda>r s.
     Ok (if fst r < 0 then None else Some (takeWhile (\<lambda>c. c \<noteq> 0) (snd r))) s))"

definition argraw :: "nat \<Rightarrow> 'z ksys_scheme \<Rightarrow> ('z ksys_scheme, u64) res" where
  "argraw n s =
     bindr (curproc s) (\<lambda>p s.
     if n = 0 then Ok (tf_a0 (tf_of p s)) s
     else if n = 1 then Ok (tf_a1 (tf_of p s)) s
     else if n = 2 then Ok (tf_a2 (tf_of p s)) s
     else if n = 3 then Ok (tf_a3 (tf_of p s)) s
     else if n = 4 then Ok (tf_a4 (tf_of p s)) s
     else if n = 5 then Ok (tf_a5 (tf_of p s)) s
     else Panic ''argraw'')"

definition argint :: "nat \<Rightarrow> 'z ksys_scheme \<Rightarrow> ('z ksys_scheme, int) res" where
  "argint n s = bindr (argraw n s) (\<lambda>v s. Ok (s32 (uint v)) s)"

definition argaddr :: "nat \<Rightarrow> 'z ksys_scheme \<Rightarrow> ('z ksys_scheme, u64) res" where
  "argaddr n s = argraw n s"

definition argstr :: "nat \<Rightarrow> nat \<Rightarrow> 'z ksys_scheme \<Rightarrow> ('z ksys_scheme, u8 list option) res" where
  "argstr n mx s = bindr (argaddr n s) (\<lambda>a s. fetchstr a mx s)"

end
