(* ===== verification/Sysproc.thy ===== *)
theory Sysproc
  imports Sysargs
begin

text \<open>
  The system calls on processes, \<open>kernel/sysproc.c\<close>.
\<close>

text \<open>\<open>exit\<close> does not return: \<open>None\<close> is the result of a call that does not come back.\<close>

definition sys_exit :: "'z ksys_scheme \<Rightarrow> ('z ksys_scheme, u64 option) res" where
  "sys_exit s = bindr (argint 0 s) (\<lambda>n s. bindr (exit n s) (\<lambda>_ s. Ok None s))"

definition sys_getpid :: "'z ksys_scheme \<Rightarrow> ('z ksys_scheme, u64) res" where
  "sys_getpid s = bindr (curproc s) (\<lambda>p s. Ok (word_of_int (pid (procs s p))) s)"

definition sys_fork :: "'z ksys_scheme \<Rightarrow> ('z ksys_scheme, u64) res" where
  "sys_fork s = bindr (fork s) (\<lambda>r s. Ok (word_of_int r) s)"

definition sys_wait :: "'z ksys_scheme \<Rightarrow> ('z ksys_scheme, u64) res" where
  "sys_wait s = bindr (argaddr 0 s) (\<lambda>a s. bindr (wait a s) (\<lambda>r s. Ok (word_of_int r) s))"

definition sys_sbrk :: "'z ksys_scheme \<Rightarrow> ('z ksys_scheme, u64) res" where
  "sys_sbrk s =
     bindr (argint 0 s) (\<lambda>n s.
     bindr (curproc s) (\<lambda>p s.
     let a = psz (procs s p) in
     bindr (growproc n s) (\<lambda>r s.
     Ok (if r < 0 then - 1 else a) s)))"

text \<open>\<open>sys_sleep\<close> with the lock held; a process that has slept is back here when it is woken.\<close>

definition sys_sleep_loop :: "int \<Rightarrow> u32 \<Rightarrow> 'z ksys_scheme \<Rightarrow> ('z ksys_scheme, u64) res" where
  "sys_sleep_loop n ticks0 s =
     (if uint (ticks s - ticks0) < n
      then bindr (curproc s) (\<lambda>p s.
           bindr (killed p s) (\<lambda>k s.
           if k \<noteq> 0 then bindr (rel LkTicks s) (\<lambda>_ s. Ok (- 1) s)
           else sleep ChTicks LkTicks s))
      else bindr (rel LkTicks s) (\<lambda>_ s. Ok 0 s))"

definition sys_sleep :: "'z ksys_scheme \<Rightarrow> ('z ksys_scheme, u64) res" where
  "sys_sleep s =
     bindr (argint 0 s) (\<lambda>n s.
     bindr (acq LkTicks s) (\<lambda>_ s.
     sys_sleep_loop (if n < 0 then 0 else n) (ticks s) s))"

definition sys_kill :: "'z ksys_scheme \<Rightarrow> ('z ksys_scheme, u64) res" where
  "sys_kill s = bindr (argint 0 s) (\<lambda>i s. bindr (kill i s) (\<lambda>r s. Ok (word_of_int r) s))"

definition sys_uptime :: "'z ksys_scheme \<Rightarrow> ('z ksys_scheme, u64) res" where
  "sys_uptime = locking LkTicks (\<lambda>s. Ok (ucast (ticks s)) s)"

end
