(* ===== verification/Sysfile.thy ===== *)
theory Sysfile
  imports Sysargs
begin

text \<open>
  The system calls on files, \<open>kernel/sysfile.c\<close>.
\<close>

section \<open>Descriptors\<close>

text \<open>\<open>argfd\<close>: the descriptor and its file, \<open>None\<close> for the error result.\<close>

definition argfd :: "nat \<Rightarrow> 'z ksys_scheme \<Rightarrow> ('z ksys_scheme, (nat \<times> addr) option) res" where
  "argfd n s =
     bindr (argint n s) (\<lambda>fd s.
     if fd < 0 \<or> fd \<ge> int NOFILE then Ok None s
     else bindr (curproc s) (\<lambda>p s.
          let f = ofile (procs s p) ! nat fd in
          Ok (if f = 0 then None else Some (nat fd, f)) s))"

fun fd_scan :: "nat list \<Rightarrow> addr list \<Rightarrow> nat option" where
  "fd_scan [] fs = None"
| "fd_scan (fd # fds) fs = (if fs ! fd = 0 then Some fd else fd_scan fds fs)"

definition fdalloc :: "addr \<Rightarrow> 'z ksys_scheme \<Rightarrow> ('z ksys_scheme, nat option) res" where
  "fdalloc f s =
     bindr (curproc s) (\<lambda>p s.
     case fd_scan [0..<NOFILE] (ofile (procs s p)) of
       None \<Rightarrow> Ok None s
     | Some fd \<Rightarrow> Ok (Some fd) (upd_proc p (\<lambda>x. x\<lparr>ofile := (ofile x)[fd := f]\<rparr>) s))"

definition set_fd :: "nat \<Rightarrow> addr \<Rightarrow> 'z ksys_scheme \<Rightarrow> ('z ksys_scheme, unit) res" where
  "set_fd fd f s = bindr (curproc s) (\<lambda>p s. Ok () (upd_proc p (\<lambda>x. x\<lparr>ofile := (ofile x)[fd := f]\<rparr>) s))"

definition sys_dup :: "'z ksys_scheme \<Rightarrow> ('z ksys_scheme, u64) res" where
  "sys_dup s =
     bindr (argfd 0 s) (\<lambda>r s.
     case r of
       None \<Rightarrow> Ok (- 1) s
     | Some (_, f) \<Rightarrow>
         bindr (fdalloc f s) (\<lambda>r s.
         case r of
           None \<Rightarrow> Ok (- 1) s
         | Some fd \<Rightarrow> bindr (filedup f s) (\<lambda>_ s. Ok (of_nat fd) s)))"

definition sys_read :: "'z ksys_scheme \<Rightarrow> ('z ksys_scheme, u64) res" where
  "sys_read s =
     bindr (argaddr 1 s) (\<lambda>a s.
     bindr (argint 2 s) (\<lambda>n s.
     bindr (argfd 0 s) (\<lambda>r s.
     case r of
       None \<Rightarrow> Ok (- 1) s
     | Some (_, f) \<Rightarrow> bindr (fileread f a n s) (\<lambda>r s. Ok (word_of_int r) s))))"

definition sys_write :: "'z ksys_scheme \<Rightarrow> ('z ksys_scheme, u64) res" where
  "sys_write s =
     bindr (argaddr 1 s) (\<lambda>a s.
     bindr (argint 2 s) (\<lambda>n s.
     bindr (argfd 0 s) (\<lambda>r s.
     case r of
       None \<Rightarrow> Ok (- 1) s
     | Some (_, f) \<Rightarrow> bindr (filewrite f a n s) (\<lambda>r s. Ok (word_of_int r) s))))"

definition sys_close :: "'z ksys_scheme \<Rightarrow> ('z ksys_scheme, u64) res" where
  "sys_close s =
     bindr (argfd 0 s) (\<lambda>r s.
     case r of
       None \<Rightarrow> Ok (- 1) s
     | Some (fd, f) \<Rightarrow>
         bindr (set_fd fd 0 s) (\<lambda>_ s.
         bindr (fileclose f s) (\<lambda>_ s. Ok 0 s)))"

text \<open>The padding of \<open>struct stat\<close> is a parameter, as in \<open>filestat\<close>.\<close>

definition sys_fstat :: "u8 list \<Rightarrow> 'z ksys_scheme \<Rightarrow> ('z ksys_scheme, u64) res" where
  "sys_fstat pad s =
     bindr (argaddr 1 s) (\<lambda>st s.
     bindr (argfd 0 s) (\<lambda>r s.
     case r of
       None \<Rightarrow> Ok (- 1) s
     | Some (_, f) \<Rightarrow> bindr (filestat pad f st s) (\<lambda>r s. Ok (word_of_int r) s)))"

section \<open>Links\<close>

definition add_nlink :: "int \<Rightarrow> nat \<Rightarrow> 'z kfs_scheme \<Rightarrow> 'z kfs_scheme" where
  "add_nlink d i = upd_icopy i (\<lambda>x. x\<lparr>di_nlink := s16 (u16_of (di_nlink x + d))\<rparr>)"

text \<open>The label \<open>bad\<close> of \<open>sys_link\<close>.\<close>

definition link_bad :: "nat \<Rightarrow> 'z ksys_scheme \<Rightarrow> ('z ksys_scheme, u64) res" where
  "link_bad ip s =
     bindr (ilock (Some ip) s) (\<lambda>_ s.
     bindr (iupdate ip (add_nlink (- 1) ip s)) (\<lambda>_ s.
     bindr (iunlockput ip s) (\<lambda>_ s.
     bindr (end_op s) (\<lambda>_ s. Ok (- 1) s))))"

definition sys_link :: "'z ksys_scheme \<Rightarrow> ('z ksys_scheme, u64) res" where
  "sys_link s =
     bindr (argstr 0 MAXPATH s) (\<lambda>r s.
     case r of None \<Rightarrow> Ok (- 1) s | Some old \<Rightarrow>
     bindr (argstr 1 MAXPATH s) (\<lambda>r s.
     case r of None \<Rightarrow> Ok (- 1) s | Some new \<Rightarrow>
     bindr (begin_op s) (\<lambda>_ s.
     bindr (namei old s) (\<lambda>r s.
     case r of
       None \<Rightarrow> bindr (end_op s) (\<lambda>_ s. Ok (- 1) s)
     | Some ip \<Rightarrow>
         bindr (ilock (Some ip) s) (\<lambda>_ s.
         if itype (inodes s ip) = T_DIR
         then bindr (iunlockput ip s) (\<lambda>_ s. bindr (end_op s) (\<lambda>_ s. Ok (- 1) s))
         else bindr (iupdate ip (add_nlink 1 ip s)) (\<lambda>_ s.
              bindr (iunlock (Some ip) s) (\<lambda>_ s.
              bindr (nameiparent new s) (\<lambda>r s.
              case r of
                (None, name) \<Rightarrow> link_bad ip s
              | (Some dp, name) \<Rightarrow>
                  bindr (ilock (Some dp) s) (\<lambda>_ s.
                  bindr (if idev (inodes s dp) \<noteq> idev (inodes s ip) then Ok (- 1) s
                         else dirlink dp name (inum (inodes s ip)) s) (\<lambda>r s.
                  if r < 0 then bindr (iunlockput dp s) (\<lambda>_ s. link_bad ip s)
                  else bindr (iunlockput dp s) (\<lambda>_ s.
                       bindr (iput ip s) (\<lambda>_ s.
                       bindr (end_op s) (\<lambda>_ s. Ok 0 s)))))))))))))"

fun isdirempty_loop :: "nat \<Rightarrow> nat \<Rightarrow> nat \<Rightarrow> 'z kfs_scheme \<Rightarrow> ('z kfs_scheme, bool) res" where
  "isdirempty_loop 0 off dp s = Diverge"
| "isdirempty_loop (Suc k) off dp s =
     (if off \<ge> isize (inodes s dp) then Ok True s
      else bindr (readi dp KernDst off 16 s) (\<lambda>r s.
           if fst r \<noteq> 16 then Panic ''isdirempty: readi''
           else if de_inum (snd r) \<noteq> 0 then Ok False s
           else isdirempty_loop k (off + 16) dp s))"

definition isdirempty :: "nat \<Rightarrow> 'z kfs_scheme \<Rightarrow> ('z kfs_scheme, bool) res" where
  "isdirempty dp s = isdirempty_loop (isize (inodes s dp) div 16 + 2) 32 dp s"

text \<open>The label \<open>bad\<close> of \<open>sys_unlink\<close>.\<close>

definition unlink_bad :: "nat \<Rightarrow> 'z ksys_scheme \<Rightarrow> ('z ksys_scheme, u64) res" where
  "unlink_bad dp s = bindr (iunlockput dp s) (\<lambda>_ s. bindr (end_op s) (\<lambda>_ s. Ok (- 1) s))"

text \<open>\<open>sys_unlink\<close> from the point where the entry is known to be removable.\<close>

definition unlink_entry :: "nat \<Rightarrow> nat \<Rightarrow> nat \<Rightarrow> 'z ksys_scheme \<Rightarrow> ('z ksys_scheme, u64) res" where
  "unlink_entry dp ip off s =
     bindr (writei dp (KernSrc (replicate 16 0)) off 16 s) (\<lambda>r s.
     if r \<noteq> 16 then Panic ''unlink: writei''
     else bindr (if itype (inodes s ip) = T_DIR then iupdate dp (add_nlink (- 1) dp s) else Ok () s) (\<lambda>_ s.
          bindr (iunlockput dp s) (\<lambda>_ s.
          bindr (iupdate ip (add_nlink (- 1) ip s)) (\<lambda>_ s.
          bindr (iunlockput ip s) (\<lambda>_ s.
          bindr (end_op s) (\<lambda>_ s. Ok 0 s))))))"

definition sys_unlink :: "'z ksys_scheme \<Rightarrow> ('z ksys_scheme, u64) res" where
  "sys_unlink s =
     bindr (argstr 0 MAXPATH s) (\<lambda>r s.
     case r of None \<Rightarrow> Ok (- 1) s | Some path \<Rightarrow>
     bindr (begin_op s) (\<lambda>_ s.
     bindr (nameiparent path s) (\<lambda>r s.
     case r of
       (None, name) \<Rightarrow> bindr (end_op s) (\<lambda>_ s. Ok (- 1) s)
     | (Some dp, name) \<Rightarrow>
         bindr (ilock (Some dp) s) (\<lambda>_ s.
         if namecmp name [46] = 0 \<or> namecmp name [46, 46] = 0 then unlink_bad dp s
         else bindr (dirlookup dp name s) (\<lambda>r s.
              case r of
                None \<Rightarrow> unlink_bad dp s
              | Some (ip, off) \<Rightarrow>
                  bindr (ilock (Some ip) s) (\<lambda>_ s.
                  if inlink (inodes s ip) < 1 then Panic ''unlink: nlink < 1''
                  else bindr (if itype (inodes s ip) = T_DIR
                              then bindr (isdirempty ip s) (\<lambda>e s. Ok (\<not> e) s) else Ok False s) (\<lambda>busy s.
                       if busy then bindr (iunlockput ip s) (\<lambda>_ s. unlink_bad dp s)
                       else unlink_entry dp ip off s)))))))"

section \<open>Creating files\<close>

text \<open>The label \<open>fail\<close> of \<open>create\<close>.\<close>

definition create_fail :: "nat \<Rightarrow> nat \<Rightarrow> 'z ksys_scheme \<Rightarrow> ('z ksys_scheme, nat option) res" where
  "create_fail ip dp s =
     bindr (iupdate ip (upd_icopy ip (\<lambda>x. x\<lparr>di_nlink := 0\<rparr>) s)) (\<lambda>_ s.
     bindr (iunlockput ip s) (\<lambda>_ s.
     bindr (iunlockput dp s) (\<lambda>_ s. Ok None s)))"

text \<open>\<open>create\<close> from the point where the new inode is locked.\<close>

definition create_new :: "nat \<Rightarrow> nat \<Rightarrow> u8 list \<Rightarrow> int \<Rightarrow> int \<Rightarrow> int \<Rightarrow> 'z ksys_scheme \<Rightarrow> ('z ksys_scheme, nat option) res" where
  "create_new ip dp name type maj mnr s =
     bindr (iupdate ip (upd_icopy ip (\<lambda>x. x\<lparr>di_major := maj, di_minor := mnr, di_nlink := 1\<rparr>) s)) (\<lambda>_ s.
     bindr (if type = T_DIR
            then bindr (dirlink ip [46] (inum (inodes s ip)) s) (\<lambda>r s.
                 if r < 0 then Ok r s else dirlink ip [46, 46] (inum (inodes s dp)) s)
            else Ok 0 s) (\<lambda>r s.
     if r < 0 then create_fail ip dp s
     else bindr (dirlink dp name (inum (inodes s ip)) s) (\<lambda>r s.
          if r < 0 then create_fail ip dp s
          else bindr (if type = T_DIR then iupdate dp (add_nlink 1 dp s) else Ok () s) (\<lambda>_ s.
               bindr (iunlockput dp s) (\<lambda>_ s. Ok (Some ip) s)))))"

definition create :: "u8 list \<Rightarrow> int \<Rightarrow> int \<Rightarrow> int \<Rightarrow> 'z ksys_scheme \<Rightarrow> ('z ksys_scheme, nat option) res" where
  "create path type maj mnr s =
     bindr (nameiparent path s) (\<lambda>r s.
     case r of
       (None, name) \<Rightarrow> Ok None s
     | (Some dp, name) \<Rightarrow>
         bindr (ilock (Some dp) s) (\<lambda>_ s.
         bindr (dirlookup dp name s) (\<lambda>r s.
         case r of
           Some (ip, _) \<Rightarrow>
             bindr (iunlockput dp s) (\<lambda>_ s.
             bindr (ilock (Some ip) s) (\<lambda>_ s.
             if type = T_FILE \<and> (itype (inodes s ip) = T_FILE \<or> itype (inodes s ip) = T_DEVICE) then Ok (Some ip) s
             else bindr (iunlockput ip s) (\<lambda>_ s. Ok None s)))
         | None \<Rightarrow>
             bindr (ialloc (idev (inodes s dp)) type s) (\<lambda>r s.
             case r of
               None \<Rightarrow> bindr (iunlockput dp s) (\<lambda>_ s. Ok None s)
             | Some ip \<Rightarrow>
                 bindr (ilock (Some ip) s) (\<lambda>_ s.
                 create_new ip dp name type maj mnr s)))))"

definition O_RDONLY :: int where "O_RDONLY = 0x000"
definition O_WRONLY :: int where "O_WRONLY = 0x001"
definition O_RDWR :: int where "O_RDWR = 0x002"
definition O_CREATE :: int where "O_CREATE = 0x200"
definition O_TRUNC :: int where "O_TRUNC = 0x400"

definition open_end :: "nat \<Rightarrow> 'z ksys_scheme \<Rightarrow> ('z ksys_scheme, u64) res" where
  "open_end ip s = bindr (iunlockput ip s) (\<lambda>_ s. bindr (end_op s) (\<lambda>_ s. Ok (- 1) s))"

text \<open>\<open>sys_open\<close> from the point where the inode is found and locked.\<close>

definition open_inode :: "nat \<Rightarrow> int \<Rightarrow> 'z ksys_scheme \<Rightarrow> ('z ksys_scheme, u64) res" where
  "open_inode ip omode s =
     (if itype (inodes s ip) = T_DEVICE \<and>
         (di_major (icopy (inodes s ip)) < 0 \<or> di_major (icopy (inodes s ip)) \<ge> NDEV)
      then open_end ip s
      else bindr (filealloc s) (\<lambda>f s.
           bindr (fdalloc f s) (\<lambda>r s.
           case r of
             None \<Rightarrow> bindr (fileclose f s) (\<lambda>_ s. open_end ip s)
           | Some fd \<Rightarrow>
               let s = (if itype (inodes s ip) = T_DEVICE
                        then upd_file f (\<lambda>x. x\<lparr>ftype := FD_DEVICE, fmajor := di_major (icopy (inodes s ip))\<rparr>) s
                        else upd_file f (\<lambda>x. x\<lparr>ftype := FD_INODE, foff := 0\<rparr>) s);
                   s = upd_file f (\<lambda>x. x\<lparr>fip := Some ip, readable := (omode AND O_WRONLY = 0),
                         writable := (omode AND O_WRONLY \<noteq> 0 \<or> omode AND O_RDWR \<noteq> 0)\<rparr>) s in
               bindr (if omode AND O_TRUNC \<noteq> 0 \<and> itype (inodes s ip) = T_FILE then itrunc ip s else Ok () s) (\<lambda>_ s.
               bindr (iunlock (Some ip) s) (\<lambda>_ s.
               bindr (end_op s) (\<lambda>_ s. Ok (of_nat fd) s))))))"

definition sys_open :: "'z ksys_scheme \<Rightarrow> ('z ksys_scheme, u64) res" where
  "sys_open s =
     bindr (argint 1 s) (\<lambda>omode s.
     bindr (argstr 0 MAXPATH s) (\<lambda>r s.
     case r of None \<Rightarrow> Ok (- 1) s | Some path \<Rightarrow>
     bindr (begin_op s) (\<lambda>_ s.
     if omode AND O_CREATE \<noteq> 0
     then bindr (create path T_FILE 0 0 s) (\<lambda>r s.
          case r of
            None \<Rightarrow> bindr (end_op s) (\<lambda>_ s. Ok (- 1) s)
          | Some ip \<Rightarrow> open_inode ip omode s)
     else bindr (namei path s) (\<lambda>r s.
          case r of
            None \<Rightarrow> bindr (end_op s) (\<lambda>_ s. Ok (- 1) s)
          | Some ip \<Rightarrow>
              bindr (ilock (Some ip) s) (\<lambda>_ s.
              if itype (inodes s ip) = T_DIR \<and> omode \<noteq> O_RDONLY then open_end ip s
              else open_inode ip omode s)))))"

definition sys_mkdir :: "'z ksys_scheme \<Rightarrow> ('z ksys_scheme, u64) res" where
  "sys_mkdir s =
     bindr (begin_op s) (\<lambda>_ s.
     bindr (argstr 0 MAXPATH s) (\<lambda>r s.
     bindr (case r of None \<Rightarrow> Ok None s | Some path \<Rightarrow> create path T_DIR 0 0 s) (\<lambda>r s.
     case r of
       None \<Rightarrow> bindr (end_op s) (\<lambda>_ s. Ok (- 1) s)
     | Some ip \<Rightarrow> bindr (iunlockput ip s) (\<lambda>_ s. bindr (end_op s) (\<lambda>_ s. Ok 0 s)))))"

definition sys_mknod :: "'z ksys_scheme \<Rightarrow> ('z ksys_scheme, u64) res" where
  "sys_mknod s =
     bindr (begin_op s) (\<lambda>_ s.
     bindr (argint 1 s) (\<lambda>maj s.
     bindr (argint 2 s) (\<lambda>mnr s.
     bindr (argstr 0 MAXPATH s) (\<lambda>r s.
     bindr (case r of None \<Rightarrow> Ok None s
            | Some path \<Rightarrow> create path T_DEVICE (s16 (u16_of maj)) (s16 (u16_of mnr)) s) (\<lambda>r s.
     case r of
       None \<Rightarrow> bindr (end_op s) (\<lambda>_ s. Ok (- 1) s)
     | Some ip \<Rightarrow> bindr (iunlockput ip s) (\<lambda>_ s. bindr (end_op s) (\<lambda>_ s. Ok 0 s)))))))"

definition sys_chdir :: "'z ksys_scheme \<Rightarrow> ('z ksys_scheme, u64) res" where
  "sys_chdir s =
     bindr (curproc s) (\<lambda>p s.
     bindr (begin_op s) (\<lambda>_ s.
     bindr (argstr 0 MAXPATH s) (\<lambda>r s.
     bindr (case r of None \<Rightarrow> Ok None s | Some path \<Rightarrow> namei path s) (\<lambda>r s.
     case r of
       None \<Rightarrow> bindr (end_op s) (\<lambda>_ s. Ok (- 1) s)
     | Some ip \<Rightarrow>
         bindr (ilock (Some ip) s) (\<lambda>_ s.
         if itype (inodes s ip) \<noteq> T_DIR
         then bindr (iunlockput ip s) (\<lambda>_ s. bindr (end_op s) (\<lambda>_ s. Ok (- 1) s))
         else bindr (iunlock (Some ip) s) (\<lambda>_ s.
              orfault ''cwd'' (cwd (procs s p)) (\<lambda>d.
              bindr (iput d s) (\<lambda>_ s.
              bindr (end_op s) (\<lambda>_ s.
              Ok 0 (upd_proc p (\<lambda>x. x\<lparr>cwd := Some ip\<rparr>) s))))))))))"

section \<open>Programs and pipes\<close>

text \<open>
  The loop of \<open>sys_exec\<close> that fetches the argument strings, each into a page of its own; \<open>pages\<close> and \<open>argv\<close> are what has
  been fetched. The result says whether it succeeded. At most \<open>MAXARG\<close> rounds are made.
\<close>

fun exec_fetch :: "nat \<Rightarrow> u64 \<Rightarrow> addr list \<Rightarrow> u8 list list \<Rightarrow> 'z ksys_scheme \<Rightarrow> ('z ksys_scheme, bool \<times> addr list \<times> u8 list list) res" where
  "exec_fetch 0 a pages argv s = Ok (False, pages, argv) s"
| "exec_fetch (Suc k) a pages argv s =
     bindr (fetchaddr a s) (\<lambda>r s.
     case r of
       None \<Rightarrow> Ok (False, pages, argv) s
     | Some uarg \<Rightarrow>
         if uarg = 0 then Ok (True, pages, argv) s
         else bindr (kalloc s) (\<lambda>pg s.
              if pg = 0 then Ok (False, pages, argv) s
              else bindr (fetchstr uarg 4096 s) (\<lambda>r s.
                   case r of
                     None \<Rightarrow> Ok (False, pages @ [pg], argv) s
                   | Some str \<Rightarrow>
                       exec_fetch k (a + 8) (pages @ [pg]) (argv @ [str]) (on_bytes (put_bytes pg (str @ [0])) s))))"

fun kfree_all :: "addr list \<Rightarrow> 'z kmem_scheme \<Rightarrow> ('z kmem_scheme, unit) res" where
  "kfree_all [] s = Ok () s"
| "kfree_all (p # ps) s = bindr (kfree p s) (\<lambda>_ s. kfree_all ps s)"

definition sys_exec :: "'z ksys_scheme \<Rightarrow> ('z ksys_scheme, u64) res" where
  "sys_exec s =
     bindr (argaddr 1 s) (\<lambda>uargv s.
     bindr (argstr 0 MAXPATH s) (\<lambda>r s.
     case r of None \<Rightarrow> Ok (- 1) s | Some path \<Rightarrow>
     bindr (exec_fetch MAXARG uargv [] [] s) (\<lambda>r s.
     case r of
       (True, pages, argv) \<Rightarrow>
         bindr (exec path argv s) (\<lambda>ret s.
         bindr (kfree_all pages s) (\<lambda>_ s. Ok (word_of_int ret) s))
     | (False, pages, argv) \<Rightarrow> bindr (kfree_all pages s) (\<lambda>_ s. Ok (- 1) s))))"

definition pipe_close2 :: "addr \<Rightarrow> addr \<Rightarrow> 'z ksys_scheme \<Rightarrow> ('z ksys_scheme, u64) res" where
  "pipe_close2 f0 f1 s = bindr (fileclose f0 s) (\<lambda>_ s. bindr (fileclose f1 s) (\<lambda>_ s. Ok (- 1) s))"

definition sys_pipe :: "'z ksys_scheme \<Rightarrow> ('z ksys_scheme, u64) res" where
  "sys_pipe s =
     bindr (curproc s) (\<lambda>p s.
     bindr (argaddr 0 s) (\<lambda>fdarray s.
     bindr (pipealloc s) (\<lambda>r s.
     case r of
       None \<Rightarrow> Ok (- 1) s
     | Some (f0, f1) \<Rightarrow>
         bindr (fdalloc f0 s) (\<lambda>r s.
         case r of
           None \<Rightarrow> pipe_close2 f0 f1 s
         | Some fd0 \<Rightarrow>
             bindr (fdalloc f1 s) (\<lambda>r s.
             case r of
               None \<Rightarrow> pipe_close2 f0 f1 (upd_proc p (\<lambda>x. x\<lparr>ofile := (ofile x)[fd0 := 0]\<rparr>) s)
             | Some fd1 \<Rightarrow>
                 bindr (copyout (pagetable (procs s p)) fdarray (le_bytes 4 fd0) s) (\<lambda>r s.
                 bindr (if r < 0 then Ok r s
                        else copyout (pagetable (procs s p)) (fdarray + 4) (le_bytes 4 fd1) s) (\<lambda>r s.
                 if r < 0
                 then pipe_close2 f0 f1 (upd_proc p (\<lambda>x. x\<lparr>ofile := ((ofile x)[fd0 := 0])[fd1 := 0]\<rparr>) s)
                 else Ok 0 s)))))))"

end
