(* ===== verification/Syscall.thy ===== *)
theory Syscall
  imports Sysproc Sysfile
begin

text \<open>
  The dispatch of system calls, the second half of \<open>kernel/syscall.c\<close>, and the numbers of \<open>kernel/syscall.h\<close>.
\<close>

definition returning :: "('s \<Rightarrow> ('s, u64) res) \<Rightarrow> 's \<Rightarrow> ('s, u64 option) res" where
  "returning f s = bindr (f s) (\<lambda>r s. Ok (Some r) s)"

text \<open>
  The table \<open>syscalls\<close>, by number. The padding bytes of \<open>struct stat\<close> are the parameter of \<open>sys_fstat\<close>.
\<close>

definition syscalls :: "u8 list \<Rightarrow> int \<Rightarrow> ('z ksys_scheme \<Rightarrow> ('z ksys_scheme, u64 option) res) option" where
  "syscalls pad num =
     (if num = 1 then Some (returning sys_fork)
      else if num = 2 then Some sys_exit
      else if num = 3 then Some (returning sys_wait)
      else if num = 4 then Some (returning sys_pipe)
      else if num = 5 then Some (returning sys_read)
      else if num = 6 then Some (returning sys_kill)
      else if num = 7 then Some (returning sys_exec)
      else if num = 8 then Some (returning (sys_fstat pad))
      else if num = 9 then Some (returning sys_chdir)
      else if num = 10 then Some (returning sys_dup)
      else if num = 11 then Some (returning sys_getpid)
      else if num = 12 then Some (returning sys_sbrk)
      else if num = 13 then Some (returning sys_sleep)
      else if num = 14 then Some (returning sys_uptime)
      else if num = 15 then Some (returning sys_open)
      else if num = 16 then Some (returning sys_write)
      else if num = 17 then Some (returning sys_mknod)
      else if num = 18 then Some (returning sys_unlink)
      else if num = 19 then Some (returning sys_link)
      else if num = 20 then Some (returning sys_mkdir)
      else if num = 21 then Some (returning sys_close)
      else None)"

text \<open>The result says whether the call came back.\<close>

definition syscall :: "u8 list \<Rightarrow> 'z ksys_scheme \<Rightarrow> ('z ksys_scheme, bool) res" where
  "syscall pad s =
     bindr (curproc s) (\<lambda>p s.
     let num = s32 (uint (tf_a7 (tf_of p s))) in
     case syscalls pad num of
       Some f \<Rightarrow>
         bindr (f s) (\<lambda>r s.
         case r of
           None \<Rightarrow> Ok False s
         | Some v \<Rightarrow> Ok True (upd_tf p (\<lambda>t. t\<lparr>tf_a0 := v\<rparr>) s))
     | None \<Rightarrow>
         bindr (printf (Some (cstr ''%d %s: unknown sys call %d'' @ [10]))
                  [PInt (pid (procs s p)), PStr (Some (takeWhile (\<lambda>c. c \<noteq> 0) (pname (procs s p)))), PInt num] s) (\<lambda>_ s.
         Ok True (upd_tf p (\<lambda>t. t\<lparr>tf_a0 := - 1\<rparr>) s)))"

end
