(* ===== verification/Trap.thy ===== *)
theory Trap
  imports Syscall
begin

text \<open>
  Traps, interrupts and the interrupt controller: \<open>kernel/trap.c\<close>, \<open>kernel/plic.c\<close> and \<open>forkret\<close> of \<open>kernel/proc.c\<close>. The
  supervisor registers that the handlers read and write are kept per hart; the interrupt enable bit of \<open>sstatus\<close> is the
  one of theory \<open>Spinlock\<close>. The addresses of the assembly entry points are fields of the state that nothing changes.
\<close>

section \<open>Supervisor registers\<close>

record csrs =
  c_scause :: u64
  c_sepc :: u64
  c_stval :: u64
  c_stvec :: u64
  c_sip :: u64
  c_spp :: bool
  c_spie :: bool

record ktrap = ksys +
  csr :: "nat \<Rightarrow> csrs"
  sym_kernelvec :: u64
  sym_uservec :: u64
  sym_userret :: u64
  sym_usertrap :: u64

definition mycsr :: "'z ktrap_scheme \<Rightarrow> csrs" where
  "mycsr s = csr s (cpuid s)"

definition upd_csr :: "(csrs \<Rightarrow> csrs) \<Rightarrow> 'z ktrap_scheme \<Rightarrow> 'z ktrap_scheme" where
  "upd_csr f s = s\<lparr>csr := (csr s)(cpuid s := f (csr s (cpuid s)))\<rparr>"

section \<open>The interrupt controller\<close>

definition plicinit :: "'z kio_scheme \<Rightarrow> 'z kio_scheme" where
  "plicinit s =
     io_write (PLIC + word_of_int VIRTIO0_IRQ * 4) 1 (io_write (PLIC + word_of_int UART0_IRQ * 4) 1 s)"

definition plicinithart :: "'z kio_scheme \<Rightarrow> 'z kio_scheme" where
  "plicinithart s =
     (let hart = of_nat (cpuid s);
          s = io_write (PLIC_SENABLE hart) (push_bit (nat UART0_IRQ) 1 OR push_bit (nat VIRTIO0_IRQ) 1) s
      in io_write (PLIC_SPRIORITY hart) 0 s)"

definition plic_claim :: "'z kio_scheme \<Rightarrow> int \<times> 'z kio_scheme" where
  "plic_claim s = (case io_poll (PLIC_SCLAIM (of_nat (cpuid s))) s of (v, s) \<Rightarrow> (s32 (uint v mod 2 ^ 32), s))"

definition plic_complete :: "int \<Rightarrow> 'z kio_scheme \<Rightarrow> 'z kio_scheme" where
  "plic_complete irq s = io_write (PLIC_SCLAIM (of_nat (cpuid s))) (word_of_int (irq mod 2 ^ 32)) s"

section \<open>Interrupts\<close>

definition trapinit :: "'z kst0_scheme \<Rightarrow> 'z kst0_scheme" where
  "trapinit s = initlk LkTicks ''time'' s"

definition trapinithart :: "'z ktrap_scheme \<Rightarrow> 'z ktrap_scheme" where
  "trapinithart s = upd_csr (\<lambda>c. c\<lparr>c_stvec := sym_kernelvec s\<rparr>) s"

definition clockintr :: "'z ksys_scheme \<Rightarrow> ('z ksys_scheme, unit) res" where
  "clockintr = locking LkTicks (\<lambda>s. wakeup ChTicks (s\<lparr>ticks := ticks s + 1\<rparr>))"

definition devintr :: "'z ktrap_scheme \<Rightarrow> ('z ktrap_scheme, int) res" where
  "devintr s =
     (let scause = c_scause (mycsr s) in
      if scause AND 0x8000000000000000 \<noteq> 0 \<and> scause AND 0xff = 9
      then (case plic_claim s of
              (irq, s) \<Rightarrow>
                bindr (if irq = UART0_IRQ then uartintr s
                       else if irq = VIRTIO0_IRQ then virtio_disk_intr s
                       else if irq \<noteq> 0
                            then printf (Some (cstr ''unexpected interrupt irq=%d'' @ [10])) [PInt irq] s
                       else Ok () s) (\<lambda>_ s.
                Ok 1 (if irq \<noteq> 0 then plic_complete irq s else s)))
      else if scause = 0x8000000000000001
      then bindr (if cpuid s = 0 then clockintr s else Ok () s) (\<lambda>_ s.
           Ok 2 (upd_csr (\<lambda>c. c\<lparr>c_sip := c_sip c AND NOT 2\<rparr>) s))
      else Ok 0 s)"

section \<open>To and from user space\<close>

text \<open>The result is the argument of the jump to \<open>userret\<close>: the address jumped to and the page table to switch to.\<close>

definition usertrapret :: "'z ktrap_scheme \<Rightarrow> ('z ktrap_scheme, u64 \<times> u64) res" where
  "usertrapret s =
     bindr (curproc s) (\<lambda>p s.
     let s = s\<lparr>spin := intr_off (spin s)\<rparr>;
         s = upd_csr (\<lambda>c. c\<lparr>c_stvec := TRAMPOLINE + (sym_uservec s - sym_trampoline s)\<rparr>) s;
         s = upd_tf p (\<lambda>t. t\<lparr>kernel_satp := satp s (cpuid s), kernel_sp := kstack (procs s p) + PGSIZE,
               kernel_trap := sym_usertrap s, kernel_hartid := of_nat (cpuid s)\<rparr>) s;
         s = upd_csr (\<lambda>c. c\<lparr>c_spp := False, c_spie := True\<rparr>) s;
         s = upd_csr (\<lambda>c. c\<lparr>c_sepc := epc (tf_of p s)\<rparr>) s
     in Ok (TRAMPOLINE + (sym_userret s - sym_trampoline s), MAKE_SATP (pagetable (procs s p))) s)"

text \<open>
  How \<open>usertrap\<close> ends: it goes back to user space, the process has exited, or it has yielded the hart and will go on
  with \<open>usertrap_resume\<close> when it runs again.
\<close>

datatype trapend = ToUser u64 u64 | Exited | Yielded bool

definition usertrap_end :: "nat \<Rightarrow> int \<Rightarrow> 'z ktrap_scheme \<Rightarrow> ('z ktrap_scheme, trapend) res" where
  "usertrap_end p which_dev s =
     bindr (killed p s) (\<lambda>k s.
     if k \<noteq> 0 then bindr (exit (- 1) s) (\<lambda>_ s. Ok Exited s)
     else if which_dev = 2 then bindr (yield_out s) (\<lambda>i s. Ok (Yielded i) s)
     else bindr (usertrapret s) (\<lambda>r s. Ok (ToUser (fst r) (snd r)) s))"

definition usertrap_resume :: "nat \<Rightarrow> bool \<Rightarrow> 'z ktrap_scheme \<Rightarrow> ('z ktrap_scheme, trapend) res" where
  "usertrap_resume p i s =
     bindr (yield_back p i s) (\<lambda>_ s. bindr (usertrapret s) (\<lambda>r s. Ok (ToUser (fst r) (snd r)) s))"

definition usertrap :: "u8 list \<Rightarrow> 'z ktrap_scheme \<Rightarrow> ('z ktrap_scheme, trapend) res" where
  "usertrap pad s =
     (if c_spp (mycsr s) then Panic ''usertrap: not from user mode''
      else let s = upd_csr (\<lambda>c. c\<lparr>c_stvec := sym_kernelvec s\<rparr>) s in
           bindr (curproc s) (\<lambda>p s.
           let s = upd_tf p (\<lambda>t. t\<lparr>epc := c_sepc (mycsr s)\<rparr>) s in
           if c_scause (mycsr s) = 8
           then bindr (killed p s) (\<lambda>k s.
                if k \<noteq> 0 then bindr (exit (- 1) s) (\<lambda>_ s. Ok Exited s)
                else let s = upd_tf p (\<lambda>t. t\<lparr>epc := epc t + 4\<rparr>) s;
                         s = s\<lparr>spin := intr_on (spin s)\<rparr> in
                     bindr (syscall pad s) (\<lambda>back s.
                     if back then usertrap_end p 0 s else Ok Exited s))
           else bindr (devintr s) (\<lambda>which_dev s.
                if which_dev \<noteq> 0 then usertrap_end p which_dev s
                else bindr (printf (Some (cstr ''usertrap(): unexpected scause %p pid=%d'' @ [10]))
                              [PPtr (c_scause (mycsr s)), PInt (pid (procs s p))] s) (\<lambda>_ s.
                     bindr (printf (Some (cstr ''            sepc=%p stval=%p'' @ [10]))
                              [PPtr (c_sepc (mycsr s)), PPtr (c_stval (mycsr s))] s) (\<lambda>_ s.
                     bindr (setkilled p s) (\<lambda>_ s. usertrap_end p 0 s))))))"

text \<open>
  \<open>kerneltrap\<close>: the result is \<open>Some\<close> when the interrupted process yields the hart, and it goes on with
  \<open>kerneltrap_resume\<close> when it runs again; otherwise the saved registers are restored at once.
\<close>

definition kerneltrap_end :: "u64 \<Rightarrow> bool \<Rightarrow> bool \<Rightarrow> bool \<Rightarrow> 'z ktrap_scheme \<Rightarrow> 'z ktrap_scheme" where
  "kerneltrap_end sepc spp spie sie0 s =
     (let s = upd_csr (\<lambda>c. c\<lparr>c_sepc := sepc, c_spp := spp, c_spie := spie\<rparr>) s
      in s\<lparr>spin := (if sie0 then intr_on (spin s) else intr_off (spin s))\<rparr>)"

definition kerneltrap_resume :: "nat \<Rightarrow> bool \<Rightarrow> u64 \<Rightarrow> bool \<Rightarrow> bool \<Rightarrow> bool \<Rightarrow> 'z ktrap_scheme \<Rightarrow> ('z ktrap_scheme, unit) res" where
  "kerneltrap_resume p i sepc spp spie sie0 s =
     bindr (yield_back p i s) (\<lambda>_ s. Ok () (kerneltrap_end sepc spp spie sie0 s))"

definition kerneltrap :: "'z ktrap_scheme \<Rightarrow> ('z ktrap_scheme, bool option) res" where
  "kerneltrap s =
     (let sepc = c_sepc (mycsr s); spp = c_spp (mycsr s); spie = c_spie (mycsr s); sie0 = intr_get (spin s);
          scause = c_scause (mycsr s) in
      if \<not> spp then Panic ''kerneltrap: not from supervisor mode''
      else if sie0 then Panic ''kerneltrap: interrupts enabled''
      else bindr (devintr s) (\<lambda>which_dev s.
           if which_dev = 0
           then bindr (printf (Some (cstr ''scause %p'' @ [10])) [PPtr scause] s) (\<lambda>_ s.
                bindr (printf (Some (cstr ''sepc=%p stval=%p'' @ [10]))
                         [PPtr (c_sepc (mycsr s)), PPtr (c_stval (mycsr s))] s) (\<lambda>_ s.
                Panic ''kerneltrap''))
           else bindr (myproc s) (\<lambda>p s.
                case p of
                  Some p \<Rightarrow>
                    if which_dev = 2 \<and> pstate (procs s p) = RUNNING
                    then bindr (yield_out s) (\<lambda>i s. Ok (Some i) s)
                    else Ok None (kerneltrap_end sepc spp spie sie0 s)
                | None \<Rightarrow> Ok None (kerneltrap_end sepc spp spie sie0 s))))"

definition forkret :: "'z ktrap_scheme \<Rightarrow> ('z ktrap_scheme, u64 \<times> u64) res" where
  "forkret s =
     bindr (curproc s) (\<lambda>p s.
     bindr (rel (LkProc p) s) (\<lambda>_ s.
     bindr (if fs_first s then bindr (fsinit (int ROOTDEV) s) (\<lambda>_ s. Ok () (s\<lparr>fs_first := False\<rparr>)) else Ok () s) (\<lambda>_ s.
     usertrapret s)))"

end
