(* ===== verification/Kmain.thy ===== *)
theory Kmain
  imports Trap
begin

text \<open>
  Booting: \<open>kernel/main.c\<close> and \<open>kernel/start.c\<close>. The machine-mode registers that \<open>start\<close> writes before it drops to
  supervisor mode are a map by name.
\<close>

section \<open>Machine mode\<close>

datatype mreg = Mstatus | Mepc | Satp0 | Medeleg | Mideleg | Sie | Pmpaddr0 | Pmpcfg0 | Mscratch | Mtvec | Mie | Tp

text \<open>
  The state in machine mode: the registers of this hart, its number, the timer registers of the CLINT and the
  scratch areas of the timer interrupt handler.
\<close>

record mst =
  mregs :: "mreg \<Rightarrow> u64"
  mhartid :: nat
  mtime :: u64
  mtimecmp :: "nat \<Rightarrow> u64"
  timer_scratch :: "nat \<Rightarrow> nat \<Rightarrow> u64"

definition w_mreg :: "mreg \<Rightarrow> u64 \<Rightarrow> mst \<Rightarrow> mst" where
  "w_mreg r v m = m\<lparr>mregs := (mregs m)(r := v)\<rparr>"

definition MSTATUS_MPP_MASK :: u64 where "MSTATUS_MPP_MASK = push_bit 11 3"
definition MSTATUS_MPP_S :: u64 where "MSTATUS_MPP_S = push_bit 11 1"
definition MSTATUS_MIE :: u64 where "MSTATUS_MIE = push_bit 3 1"
definition MIE_MTIE :: u64 where "MIE_MTIE = push_bit 7 1"
definition SIE_SEIE :: u64 where "SIE_SEIE = push_bit 9 1"
definition SIE_STIE :: u64 where "SIE_STIE = push_bit 5 1"
definition SIE_SSIE :: u64 where "SIE_SSIE = push_bit 1 1"
definition CLINT :: u64 where "CLINT = 0x2000000"

definition CLINT_MTIMECMP :: "nat \<Rightarrow> u64" where
  "CLINT_MTIMECMP hartid = CLINT + 0x4000 + 8 * of_nat hartid"

text \<open>\<open>timervec\<close> and \<open>main\<close> are addresses fixed by the linker, \<open>scratch\<close> the address of \<open>timer_scratch[id]\<close>.\<close>

definition timerinit :: "u64 \<Rightarrow> (nat \<Rightarrow> u64) \<Rightarrow> mst \<Rightarrow> mst" where
  "timerinit timervec scratch m =
     (let i = mhartid m; interval = 1000000;
          m = m\<lparr>mtimecmp := (mtimecmp m)(i := mtime m + interval)\<rparr>;
          m = m\<lparr>timer_scratch := (timer_scratch m)(i := (timer_scratch m i)(3 := CLINT_MTIMECMP i, 4 := interval))\<rparr>;
          m = w_mreg Mscratch (scratch i) m;
          m = w_mreg Mtvec timervec m;
          m = w_mreg Mstatus (mregs m Mstatus OR MSTATUS_MIE) m
      in w_mreg Mie (mregs m Mie OR MIE_MTIE) m)"

definition start :: "u64 \<Rightarrow> u64 \<Rightarrow> (nat \<Rightarrow> u64) \<Rightarrow> mst \<Rightarrow> mst" where
  "start main timervec scratch m =
     (let m = w_mreg Mstatus ((mregs m Mstatus AND NOT MSTATUS_MPP_MASK) OR MSTATUS_MPP_S) m;
          m = w_mreg Mepc main m;
          m = w_mreg Satp0 0 m;
          m = w_mreg Medeleg 0xffff m;
          m = w_mreg Mideleg 0xffff m;
          m = w_mreg Sie (mregs m Sie OR SIE_SEIE OR SIE_STIE OR SIE_SSIE) m;
          m = w_mreg Pmpaddr0 0x3fffffffffffff m;
          m = w_mreg Pmpcfg0 0xf m;
          m = timerinit timervec scratch m
      in w_mreg Tp (of_nat (mhartid m)) m)"

section \<open>The kernel's main function\<close>

record kmain = ktrap +
  started :: bool

text \<open>
  \<open>main\<close> on hart 0 up to the call of \<open>scheduler\<close>; \<open>etext\<close>, \<open>trampoline\<close> and \<open>kend\<close> are symbols of the linker.
  \<open>fileinit\<close> has an empty body.
\<close>

definition main_boot :: "u64 \<Rightarrow> u64 \<Rightarrow> u64 \<Rightarrow> 'z kmain_scheme \<Rightarrow> ('z kmain_scheme, unit) res" where
  "main_boot etext trampoline kend s =
     (let s = printfinit (consoleinit s) in
      bindr (printf (Some [10]) [] s) (\<lambda>_ s.
      bindr (printf (Some (cstr ''xv6 kernel is booting'' @ [10])) [] s) (\<lambda>_ s.
      bindr (printf (Some [10]) [] s) (\<lambda>_ s.
      bindr (kinit kend s) (\<lambda>_ s.
      bindr (kvminit etext trampoline s) (\<lambda>_ s.
      let s = procinit (kvminithart s);
          s = trapinithart (trapinit s);
          s = plicinithart (plicinit s);
          s = iinit (binit s) in
      bindr (virtio_disk_init s) (\<lambda>_ s.
      bindr (userinit s) (\<lambda>_ s.
      Ok () (s\<lparr>started := True\<rparr>)))))))))"

text \<open>The whole of \<open>main\<close>: the result says whether the hart reaches \<open>scheduler\<close> or still waits for \<open>started\<close>.\<close>

definition main :: "u64 \<Rightarrow> u64 \<Rightarrow> u64 \<Rightarrow> 'z kmain_scheme \<Rightarrow> ('z kmain_scheme, bool) res" where
  "main etext trampoline kend s =
     (if cpuid s = 0 then bindr (main_boot etext trampoline kend s) (\<lambda>_ s. Ok True s)
      else if \<not> started s then Ok False s
      else bindr (printf (Some (cstr ''hart %d starting'' @ [10])) [PInt (int (cpuid s))] s) (\<lambda>_ s.
           Ok True (plicinithart (trapinithart (kvminithart s)))))"

end
