(* ===== verification/Ptable.thy ===== *)
theory Ptable
  imports Vm
begin

text \<open>
  The page tables as maps from virtual to physical pages. The first section states which pages of the allocator are in
  use; the others relate the words of a page table to the map it stands for, and show what \<open>walk\<close> and \<open>mappages\<close> do to
  that map. The last section has a machine for the examples.
\<close>

section \<open>Ownership of pages\<close>

text \<open>
  \<open>pages s A\<close>: the allocator is in order, its lock is free, and the pages in \<open>A\<close> have been handed out to clients. A page
  is named by its physical address.
\<close>

definition pageaddr :: "addr \<Rightarrow> bool" where
  "pageaddr x \<longleftrightarrow> 4096 dvd x \<and> 0 < x \<and> x + 4096 \<le> 2 ^ 56"

definition pages :: "'z kmem_scheme \<Rightarrow> addr set \<Rightarrow> bool" where
  "pages s A \<longleftrightarrow> lk_free LkBuddy (spin s) \<and> 4096 dvd bd_base (buddy s) \<and>
     bd_base (buddy s) + HEAP_SIZE (buddy s) \<le> 2 ^ 56 \<and>
     (\<exists>L. bd_rel (buddy s) L \<and> (\<forall>x \<in> A. \<exists>i. (8, i) \<in> L \<and> x = baddr (buddy s) 8 i))"

text \<open>What a call of the allocator leaves as it was: all but the allocator, and the bit that \<open>push_off\<close> saves.\<close>

definition memstep :: "'z kmem_scheme \<Rightarrow> 'z kmem_scheme \<Rightarrow> bool" where
  "memstep s t \<longleftrightarrow> (\<exists>sp b. sp \<in> {spin s, calm (spin s)} \<and> t = s\<lparr>spin := sp, buddy := b\<rparr>)"

lemma baddr_inj: "baddr b k i = baddr b k j \<longleftrightarrow> i = j"
  by (simp add: baddr_def LEAF_SIZE_def)

lemma no_page_head: "\<not> is_head b (8, i)"
  by (simp add: is_head_def)

lemma pages_pageaddr:
  assumes "pages s A" and "x \<in> A"
  shows "pageaddr x"
proof -
  from assms obtain L i where L: "bd_rel (buddy s) L" "(8, i) \<in> L" "x = baddr (buddy s) 8 i"
    and b: "4096 dvd bd_base (buddy s)" "bd_base (buddy s) + HEAP_SIZE (buddy s) \<le> 2 ^ 56" by (auto simp: pages_def)
  from L(1) obtain st where st: "bd_inv (buddy s) st" "L = live st" "0 < bd_base (buddy s)" by (auto simp: bd_rel_def)
  have "in_heap (MAXSIZE (buddy s)) (8, i)"
    using inv_D [OF st(1)] L(2) st(2) by (auto simp: tree_ok_def live_def)
  from page_block [OF this b(1)] b(2) st(3) L(3) show ?thesis by (auto simp: pageaddr_def)
qed

lemma pages_subset: "pages s A \<Longrightarrow> B \<subseteq> A \<Longrightarrow> pages s B"
  unfolding pages_def by blast

lemma pages_cong: "spin t = spin s \<Longrightarrow> buddy t = buddy s \<Longrightarrow> pages t A = pages s A"
  by (simp add: pages_def)

lemma kalloc_pages:
  assumes "pages s A"
  shows "(\<exists>x b. kalloc s = Ok x (s\<lparr>spin := calm (spin s), buddy := b\<rparr>) \<and> x \<notin> A \<and> x \<noteq> 0 \<and>
      pages (s\<lparr>spin := calm (spin s), buddy := b\<rparr>) (insert x A)) \<or>
    (kalloc s = Ok 0 (s\<lparr>spin := calm (spin s)\<rparr>) \<and> pages (s\<lparr>spin := calm (spin s)\<rparr>) A)"
proof -
  from assms obtain L where L: "bd_rel (buddy s) L" "\<forall>x \<in> A. \<exists>i. (8, i) \<in> L \<and> x = baddr (buddy s) 8 i"
    and f: "lk_free LkBuddy (spin s)" and b: "4096 dvd bd_base (buddy s)" "bd_base (buddy s) + HEAP_SIZE (buddy s) \<le> 2 ^ 56"
    by (auto simp: pages_def)
  from bd_rel_malloc [OF L(1) firstk_page] show ?thesis
  proof (elim disjE exE conjE)
    fix i b' assume i: "i \<in> fits (MAXSIZE (buddy s)) L 8" and g: "same_geom (buddy s) b'"
      and m: "bd_malloc_locked PGSIZE (buddy s) = Ok (baddr (buddy s) 8 i) b'" and b': "bd_rel b' (insert (8, i) L)"
    let ?t = "s\<lparr>spin := calm (spin s), buddy := b'\<rparr>" and ?x = "baddr (buddy s) 8 i"
    have k: "kalloc s = Ok ?x ?t"
      using locked_buddy_ok [where f = "bd_malloc_locked PGSIZE", OF f m] by (simp add: kalloc_def bd_malloc_def)
    have "leaves (8, i) \<noteq> {}" by (auto simp: leaves_def)
    then have "(8, i) \<notin> L" using i by (auto simp: fits_def)
    then have n: "?x \<notin> A" using L(2) by (auto simp: baddr_inj)
    have p: "pages ?t (insert ?x A)"
      using f b b' L(2) same_geomD [OF g] by (fastforce simp: pages_def HEAP_SIZE_def)
    from pages_pageaddr [OF p, of ?x] have "?x \<noteq> 0" by (auto simp: pageaddr_def)
    with k n p show ?thesis by blast
  next
    assume m: "bd_malloc_locked PGSIZE (buddy s) = Ok 0 (buddy s)"
    from locked_buddy_ok [where f = "bd_malloc_locked PGSIZE", OF f m] assms show ?thesis
      by (simp add: kalloc_def bd_malloc_def pages_def)
  qed
qed

lemma kfree_pages:
  assumes "pages s A" and "x \<in> A"
  shows "\<exists>b. kfree x s = Ok () (s\<lparr>spin := calm (spin s), buddy := b\<rparr>) \<and>
    pages (s\<lparr>spin := calm (spin s), buddy := b\<rparr>) (A - {x})"
proof -
  from assms(1) obtain L where L: "bd_rel (buddy s) L" "\<forall>x \<in> A. \<exists>i. (8, i) \<in> L \<and> x = baddr (buddy s) 8 i"
    and f: "lk_free LkBuddy (spin s)" and b: "4096 dvd bd_base (buddy s)" "bd_base (buddy s) + HEAP_SIZE (buddy s) \<le> 2 ^ 56"
    by (auto simp: pages_def)
  from L(2) assms(2) obtain i where i: "(8, i) \<in> L" "x = baddr (buddy s) 8 i" by blast
  from bd_rel_free [OF L(1) i(1) no_page_head] obtain b' where
    b': "bd_free_locked x (buddy s) = Ok () b'" "same_geom (buddy s) b'" "bd_rel b' (L - {(8, i)})" using i(2) by blast
  have "kfree x s = Ok () (s\<lparr>spin := calm (spin s), buddy := b'\<rparr>)"
    using locked_buddy_ok [where f = "bd_free_locked x", OF f b'(1)] by (simp add: kfree_def bd_free_def)
  moreover have "pages (s\<lparr>spin := calm (spin s), buddy := b'\<rparr>) (A - {x})"
    using f b b'(3) L(2) i(2) same_geomD [OF b'(2)] by (fastforce simp: pages_def HEAP_SIZE_def)
  ultimately show ?thesis by blast
qed

section \<open>The tree of table pages\<close>

text \<open>
  \<open>tab m pt d q\<close> is the table page at depth \<open>d\<close> (0 for the root) that serves the virtual page numbers with prefix \<open>q\<close>;
  \<open>leaf\<close> is the address of the entry for a virtual page, \<open>amap\<close> the map from virtual page numbers to valid entries.
\<close>

fun tab :: "(addr \<Rightarrow> u64) \<Rightarrow> addr \<Rightarrow> nat \<Rightarrow> nat \<Rightarrow> addr option" where
  "tab m pt 0 q = (if q = 0 then Some pt else None)"
| "tab m pt (Suc d) q =
     (case tab m pt d (q div 512) of
        None \<Rightarrow> None
      | Some t \<Rightarrow> let e = m (t + 8 * int (q mod 512)) in if has e PTE_V then Some (uint (PTE2PA e)) else None)"

definition leaf :: "(addr \<Rightarrow> u64) \<Rightarrow> addr \<Rightarrow> nat \<Rightarrow> addr option" where
  "leaf m pt n = map_option (\<lambda>t. t + 8 * int (n mod 512)) (tab m pt 2 (n div 512))"

definition amap :: "(addr \<Rightarrow> u64) \<Rightarrow> addr \<Rightarrow> nat \<Rightarrow> u64 option" where
  "amap m pt n = (case leaf m pt n of None \<Rightarrow> None | Some a \<Rightarrow> if has (m a) PTE_V then Some (m a) else None)"

definition vpn :: "u64 \<Rightarrow> nat" where
  "vpn va = unat va div 4096"

definition tables :: "(addr \<Rightarrow> u64) \<Rightarrow> addr \<Rightarrow> addr set" where
  "tables m pt = {t. \<exists>d \<le> 2. \<exists>q. tab m pt d q = Some t}"

text \<open>
  A well-formed table: its pages are pages, each serves one prefix at one depth, and the entries that point to other
  table pages have no permission bits.
\<close>

definition inner_ok :: "(addr \<Rightarrow> u64) \<Rightarrow> addr \<Rightarrow> bool" where
  "inner_ok m pt \<longleftrightarrow> (\<forall>d < 2. \<forall>q t j. tab m pt d q = Some t \<longrightarrow> j < 512 \<longrightarrow> has (m (t + 8 * int j)) PTE_V \<longrightarrow>
     \<not> has (m (t + 8 * int j)) (PTE_R OR PTE_W OR PTE_X))"

definition pt_ok :: "(addr \<Rightarrow> u64) \<Rightarrow> addr \<Rightarrow> bool" where
  "pt_ok m pt \<longleftrightarrow> (\<forall>t \<in> tables m pt. pageaddr t) \<and> inner_ok m pt \<and>
     (\<forall>d \<le> 2. \<forall>d' \<le> 2. \<forall>q q' t. tab m pt d q = Some t \<longrightarrow> tab m pt d' q' = Some t \<longrightarrow> d = d' \<and> q = q')"

lemma pt_okD:
  assumes "pt_ok m pt"
  shows "tab m pt d q = Some t \<Longrightarrow> d \<le> 2 \<Longrightarrow> pageaddr t"
    and "tab m pt d q = Some t \<Longrightarrow> tab m pt d' q' = Some t \<Longrightarrow> d \<le> 2 \<Longrightarrow> d' \<le> 2 \<Longrightarrow> d = d' \<and> q = q'"
    and "tab m pt d q = Some t \<Longrightarrow> d < 2 \<Longrightarrow> j < 512 \<Longrightarrow> has (m (t + 8 * int j)) PTE_V \<Longrightarrow>
      \<not> has (m (t + 8 * int j)) (PTE_R OR PTE_W OR PTE_X)"
  using assms unfolding pt_ok_def inner_ok_def tables_def by blast+

lemma tablesI: "tab m pt d q = Some t \<Longrightarrow> d \<le> 2 \<Longrightarrow> t \<in> tables m pt"
  by (auto simp: tables_def)

text \<open>Entries of different pages, or at different indices, have different addresses.\<close>

lemma entry_inj:
  assumes "pageaddr t" and "pageaddr u" and "i < 512" and "j < 512" and "t + 8 * int i = u + 8 * int j"
  shows "t = u \<and> i = j"
proof -
  obtain c e where c: "t = 4096 * c" "u = 4096 * e" using assms(1,2) by (auto simp: pageaddr_def dvd_def)
  with assms(5) have "4096 * c + 8 * int i = 4096 * e + 8 * int j" by simp
  then have "c = e" using assms(3,4) by linarith
  with assms(5) c show ?thesis by simp
qed

lemma entry_page: "pageaddr t \<Longrightarrow> pageaddr u \<Longrightarrow> t \<noteq> u \<Longrightarrow> i < 512 \<Longrightarrow> \<not> (u \<le> t + 8 * int i \<and> t + 8 * int i < u + 4096)"
proof
  assume a: "pageaddr t" "pageaddr u" "t \<noteq> u" "i < 512" "u \<le> t + 8 * int i \<and> t + 8 * int i < u + 4096"
  obtain c e where c: "t = 4096 * c" "u = 4096 * e" using a(1,2) by (auto simp: pageaddr_def dvd_def)
  with a(3) have "c < e \<or> e < c" by linarith
  with a(4,5) c show False by linarith
qed

lemma tab_cong:
  assumes "\<And>e r t j. e < d \<Longrightarrow> tab m pt e r = Some t \<Longrightarrow> j < 512 \<Longrightarrow> m' (t + 8 * int j) = m (t + 8 * int j)"
  shows "tab m' pt d q = tab m pt d q"
  using assms
proof (induction d arbitrary: q)
  case 0
  then show ?case by simp
next
  case (Suc d)
  have "tab m' pt d (q div 512) = tab m pt d (q div 512)" by (rule Suc.IH) (rule Suc.prems, simp_all)
  then show ?case using Suc.prems [of d "q div 512" _ "q mod 512"] by (auto split: option.split)
qed

lemma PX_vpn: "uint (PX l va) = int (vpn va div 512 ^ l mod 512)"
proof -
  have "PX l va = take_bit 9 (drop_bit (PXSHIFT l) va)"
    by (simp add: PX_def PXMASK_def take_bit_eq_mask mask_eq_exp_minus_1)
  then have "unat (PX l va) = take_bit 9 (unat (drop_bit (PXSHIFT l) va))"
    by (simp only: unsigned_take_bit_eq)
  also have "unat (drop_bit (PXSHIFT l) va) = unat va div 2 ^ PXSHIFT l"
  proof -
    have "take_bit 64 (unat va) = unat va"
      using unsigned_less [of va, where 'a = nat] by (simp add: take_bit_nat_eq_self)
    then show ?thesis by (simp only: unsigned_drop_bit_eq) (simp add: drop_bit_eq_div)
  qed
  also have "take_bit 9 \<dots> = unat va div 2 ^ (12 + 9 * l) mod 512"
    by (simp add: take_bit_eq_mod PXSHIFT_def PGSHIFT_def)
  also have "(2::nat) ^ (12 + 9 * l) = 4096 * 512 ^ l" by (simp add: power_add power_mult)
  finally have "unat (PX l va) = vpn va div 512 ^ l mod 512" by (simp add: vpn_def div_mult2_eq)
  then show ?thesis by (metis uint_nat)
qed

section \<open>Looking up an entry\<close>

lemma has_0 [simp]: "\<not> has 0 fl"
  by (simp add: has_def)

lemma tab_None: "tab m pt d (q div 512 ^ k) = None \<Longrightarrow> tab m pt (d + k) q = None"
proof (induction k arbitrary: q)
  case 0
  then show ?case by simp
next
  case (Suc k)
  have "tab m pt (d + k) (q div 512) = None" by (rule Suc.IH) (use Suc.prems in \<open>simp add: div_mult2_eq\<close>)
  then show ?case by simp
qed

lemma tab_leaf_None:
  assumes "tab m pt (2 - l) (n div 512 ^ Suc l) = None" and "l \<le> 1"
  shows "leaf m pt n = None"
proof -
  have "tab m pt ((2 - l) + l) (n div 512) = None" by (rule tab_None) (use assms in \<open>simp add: div_mult2_eq\<close>)
  then show ?thesis using assms(2) by (simp add: leaf_def)
qed

definition leaf_addr :: "(addr \<Rightarrow> u64) \<Rightarrow> addr \<Rightarrow> nat \<Rightarrow> addr" where
  "leaf_addr m pt n = (case leaf m pt n of None \<Rightarrow> 0 | Some a \<Rightarrow> a)"

lemma pte_at_vpn: "pte_at t l va = t + 8 * int (vpn va div 512 ^ l mod 512)"
  by (simp add: pte_at_def PX_vpn)

lemma tab_step:
  assumes "tab m pt (2 - Suc l) (n div 512 ^ Suc (Suc l)) = Some t" and "Suc l \<le> 2"
  shows "tab m pt (2 - l) (n div 512 ^ Suc l) =
    (let e = m (t + 8 * int (n div 512 ^ Suc l mod 512)) in if has e PTE_V then Some (uint (PTE2PA e)) else None)"
proof -
  have "2 - l = Suc (2 - Suc l)" using assms(2) by simp
  moreover have "n div 512 ^ Suc l div 512 = n div 512 ^ Suc (Suc l)"
    by (simp only: div_mult2_eq [symmetric] power_Suc2)
  ultimately show ?thesis using assms(1) by simp
qed

lemma walk_levels_read:
  "tab (ptes s) pt (2 - l) (vpn va div 512 ^ Suc l) = Some t \<Longrightarrow> l \<le> 2 \<Longrightarrow>
     walk_levels l t va False s = Ok (leaf_addr (ptes s) pt (vpn va)) s"
proof (induction l arbitrary: t)
  case 0
  then show ?case by (simp add: leaf_addr_def leaf_def pte_at_vpn)
next
  case (Suc l)
  note st = tab_step [OF Suc.prems]
  show ?case
  proof (cases "has (ptes s (pte_at t (Suc l) va)) PTE_V")
    case True
    with Suc st show ?thesis by (simp add: pte_at_vpn Let_def del: power_Suc)
  next
    case False
    then have "leaf (ptes s) pt (vpn va) = None"
      using st Suc.prems(2) by (intro tab_leaf_None [of _ _ l]) (simp_all add: pte_at_vpn Let_def del: power_Suc)
    with False show ?thesis by (simp add: leaf_addr_def)
  qed
qed

lemma vpn_less: "va < MAXVA \<Longrightarrow> vpn va < 2 ^ 26"
proof -
  assume "va < MAXVA"
  then have "unat va < 2 ^ 38" by (simp add: MAXVA_def word_less_nat_alt)
  then show ?thesis by (simp add: vpn_def less_mult_imp_div_less)
qed

lemma root_tab: "va < MAXVA \<Longrightarrow> tab m pt (2 - 2) (vpn va div 512 ^ Suc 2) = Some pt"
proof -
  assume "va < MAXVA"
  then have "vpn va < 512 ^ Suc 2" using vpn_less [of va] by simp
  then show ?thesis by (simp only: div_less) simp
qed

lemma walk_read:
  "va < MAXVA \<Longrightarrow> walk pt va False s = Ok (leaf_addr (ptes s) pt (vpn va)) s"
  using walk_levels_read [OF root_tab] by (auto simp: walk_def not_le)

lemma leaf_nonzero: "pt_ok m pt \<Longrightarrow> leaf m pt n = Some a \<Longrightarrow> 0 < a"
  using pt_okD(1) [of m pt 2 "n div 512"] by (auto simp: leaf_def pageaddr_def)

lemma leaf_addr_0: "pt_ok m pt \<Longrightarrow> leaf_addr m pt n = 0 \<longleftrightarrow> leaf m pt n = None"
  using leaf_nonzero [of m pt n] by (auto simp: leaf_addr_def split: option.splits)

text \<open>What the routines read of a page table: the entry, if it is there and valid.\<close>

lemma walk_valid:
  assumes "pt_ok (ptes s) pt" and "va < MAXVA"
  shows "\<exists>a. walk pt va False s = Ok a s \<and>
    (a \<noteq> 0 \<and> has (ptes s a) PTE_V \<and> amap (ptes s) pt (vpn va) = Some (ptes s a) \<or>
     (a = 0 \<or> \<not> has (ptes s a) PTE_V) \<and> amap (ptes s) pt (vpn va) = None)"
  using walk_read [OF assms(2), of pt s] leaf_addr_0 [OF assms(1), of "vpn va"]
  by (cases "leaf (ptes s) pt (vpn va)") (auto simp: amap_def leaf_addr_def)

section \<open>Adding a table page and changing an entry\<close>

lemma pageaddr_word:
  assumes "pageaddr x"
  shows "uint (word_of_int x :: u64) = x" and "take_bit 12 (word_of_int x :: u64) = 0"
    and "take_bit 56 (word_of_int x :: u64) = word_of_int x"
proof -
  have x: "0 \<le> x" "x < 2 ^ 56" "x mod 4096 = 0" using assms by (auto simp: pageaddr_def)
  then show u: "uint (word_of_int x :: u64) = x" by (simp add: uint_word_of_int take_bit_int_eq_self_iff)
  show "take_bit 12 (word_of_int x :: u64) = 0"
  proof (rule word_uint_eqI)
    have "take_bit 12 x = 0" using x(3) by (simp add: take_bit_eq_mod)
    then show "uint (take_bit 12 (word_of_int x :: u64)) = uint (0 :: u64)" by (simp only: unsigned_take_bit_eq u unsigned_0)
  qed
  show "take_bit 56 (word_of_int x :: u64) = word_of_int x"
  proof (rule word_uint_eqI)
    have "take_bit 56 x = x" using x(1,2) by (simp add: take_bit_int_eq_self_iff)
    then show "uint (take_bit 56 (word_of_int x :: u64)) = uint (word_of_int x :: u64)" by (simp only: unsigned_take_bit_eq u)
  qed
qed

lemma PTE_V_bit: "has e PTE_V \<longleftrightarrow> bit e 0"
  by (simp add: has_def PTE_V_def and_one_eq odd_iff_mod_2_eq_one bit_0)

lemma new_entry:
  assumes "pageaddr x"
  shows "has (PA2PTE (word_of_int x) OR PTE_V) PTE_V" and "uint (PTE2PA (PA2PTE (word_of_int x) OR PTE_V)) = x"
proof -
  show "has (PA2PTE (word_of_int x) OR PTE_V) PTE_V" unfolding PTE_V_bit by (simp add: bit_or_iff PTE_V_def)
  have "take_bit 10 PTE_V = PTE_V" by (simp add: PTE_V_def)
  from pte_pack [OF pageaddr_word(2,3) [OF assms] this] pageaddr_word(1) [OF assms]
  show "uint (PTE2PA (PA2PTE (word_of_int x) OR PTE_V)) = x" by simp
qed

lemma new_entry_inner: "\<not> has (PA2PTE x OR PTE_V) (PTE_R OR PTE_W OR PTE_X)"
proof -
  have "(PA2PTE x OR PTE_V) AND (PTE_R OR PTE_W OR PTE_X) = 0"
    by (rule bit_word_eqI, simp only: PA2PTE_def PTE_V_def PTE_R_def PTE_W_def PTE_X_def bit_and_iff bit_or_iff
      bit_push_bit_iff bit_1_iff) auto
  then show ?thesis by (simp add: has_def)
qed

definition with_table :: "addr \<Rightarrow> addr \<Rightarrow> (addr \<Rightarrow> u64) \<Rightarrow> addr \<Rightarrow> u64" where
  "with_table x a m = (\<lambda>y. if x \<le> y \<and> y < x + 4096 then 0 else m y)(a := PA2PTE (word_of_int x) OR PTE_V)"

declare tab.simps(2) [simp del]

lemma tab_with_table:
  assumes ok: "pt_ok m pt" and t: "tab m pt d q = Some t" "d < 2" "j < 512" "\<not> has (m (t + 8 * int j)) PTE_V"
    and x: "pageaddr x" "x \<notin> tables m pt"
  shows "d' \<le> 2 \<Longrightarrow> tab (with_table x (t + 8 * int j) m) pt d' q' =
    (if d' = Suc d \<and> q' = q * 512 + j then Some x else tab m pt d' q')"
proof (induction d' arbitrary: q')
  case 0
  then show ?case by simp
next
  case (Suc d')
  let ?m = "with_table x (t + 8 * int j) m" and ?p = "q' div 512" and ?i = "q' mod 512"
  have pt: "pageaddr t" using pt_okD(1) [OF ok t(1)] t(2) by simp
  have tx: "t \<noteq> x" using tablesI [OF t(1)] t(2) x(2) by auto
  have d': "d' \<le> 2" "d' < 2" using Suc.prems by simp_all
  note IH = Suc.IH [OF d'(1), of ?p]
  have q': "q' = q * 512 + j \<longleftrightarrow> ?p = q \<and> ?i = j" using t(3) by auto
  have dead: "tab m pt (Suc d) (q * 512 + j) = None" using t by (simp add: tab.simps(2))
  show ?case
  proof (cases "d' = Suc d \<and> ?p = q * 512 + j")
    case True
    have "t + 8 * int j \<noteq> x + 8 * int ?i" using entry_inj [OF pt x(1) t(3), of ?i] tx by auto
    then have "?m (x + 8 * int ?i) = 0" by (simp add: with_table_def)
    then have "tab ?m pt (Suc d') q' = None" using IH True by (simp add: tab.simps(2))
    moreover have "tab m pt (Suc d') q' = None" using True dead by (simp add: tab.simps(2))
    ultimately show ?thesis using True by simp
  next
    case False
    then have IH': "tab ?m pt d' ?p = tab m pt d' ?p" using IH by auto
    show ?thesis
    proof (cases "tab m pt d' ?p")
      case None
      then have "\<not> (d' = d \<and> q' = q * 512 + j)" using t(1) q' by auto
      with None IH' show ?thesis by (auto simp: tab.simps(2))
    next
      case (Some u)
      have u: "pageaddr u" "u \<noteq> x" using pt_okD(1) [OF ok Some d'(1)] tablesI [OF Some d'(1)] x(2) by auto
      have out: "\<not> (x \<le> u + 8 * int ?i \<and> u + 8 * int ?i < x + 4096)" using entry_page [OF u(1) x(1) u(2), of ?i] by simp
      show ?thesis
      proof (cases "d' = d \<and> q' = q * 512 + j")
        case True
        then have "u = t" "?i = j" using Some t(1) q' by auto
        then have "?m (u + 8 * int ?i) = PA2PTE (word_of_int x) OR PTE_V" by (simp add: with_table_def)
        with True IH' Some new_entry [OF x(1)] show ?thesis by (simp add: tab.simps(2))
      next
        case False
        have "u + 8 * int ?i \<noteq> t + 8 * int j"
        proof
          assume "u + 8 * int ?i = t + 8 * int j"
          then have "u = t" "?i = j" using entry_inj [OF u(1) pt, of ?i j] t(3) by auto
          with Some t(1) have "d' = d" "?p = q" using pt_okD(2) [OF ok, of d' ?p t d q] d'(1) t(2) by auto
          with False q' \<open>?i = j\<close> show False by blast
        qed
        then have "?m (u + 8 * int ?i) = m (u + 8 * int ?i)" using out by (auto simp: with_table_def)
        then have "tab ?m pt (Suc d') q' = tab m pt (Suc d') q'" using IH' Some by (simp add: tab.simps(2))
        with False show ?thesis by auto
      qed
    qed
  qed
qed

lemma with_table_ok:
  assumes ok: "pt_ok m pt" and t: "tab m pt d q = Some t" "d < 2" "j < 512" "\<not> has (m (t + 8 * int j)) PTE_V"
    and x: "pageaddr x" "x \<notin> tables m pt"
  shows "tables (with_table x (t + 8 * int j) m) pt = insert x (tables m pt)"
    and "pt_ok (with_table x (t + 8 * int j) m) pt"
    and "amap (with_table x (t + 8 * int j) m) pt = amap m pt"
proof -
  let ?m = "with_table x (t + 8 * int j) m"
  note T = tab_with_table [OF assms]
  have dead: "tab m pt (Suc d) (q * 512 + j) = None" using t by (simp add: tab.simps(2))
  show tb: "tables ?m pt = insert x (tables m pt)"
  proof (intro set_eqI iffI)
    fix u assume "u \<in> tables ?m pt"
    then obtain d' q' where "d' \<le> 2" "tab ?m pt d' q' = Some u" by (auto simp: tables_def)
    then show "u \<in> insert x (tables m pt)" using T [of d' q'] by (auto split: if_splits simp: tables_def)
  next
    fix u assume "u \<in> insert x (tables m pt)"
    then consider "u = x" | d' q' where "d' \<le> 2" "tab m pt d' q' = Some u" by (auto simp: tables_def)
    then show "u \<in> tables ?m pt"
    proof cases
      case 1
      then show ?thesis using T [of "Suc d" "q * 512 + j"] t(2) by (intro tablesI [of _ _ "Suc d" "q * 512 + j"]) simp_all
    next
      case 2
      then have "\<not> (d' = Suc d \<and> q' = q * 512 + j)" using dead by auto
      then have "tab ?m pt d' q' = Some u" using T [OF 2(1), of q'] 2(2) by auto
      then show ?thesis using 2(1) by (rule tablesI)
    qed
  qed
  have inj: "d1 = d2 \<and> q1 = q2" if "tab ?m pt d1 q1 = Some u" "tab ?m pt d2 q2 = Some u" "d1 \<le> 2" "d2 \<le> 2" for d1 d2 q1 q2 u
    using that T [OF that(3), of q1] T [OF that(4), of q2] x(2) pt_okD(2) [OF ok, of d1 q1 u d2 q2] tablesI [of m pt _ _ x]
    by (auto split: if_splits)
  have "inner_ok ?m pt" unfolding inner_ok_def
  proof (intro allI impI)
    fix d1 q1 u i
    assume u: "d1 < 2" "tab ?m pt d1 q1 = Some u" "i < (512::nat)" and v: "has (?m (u + 8 * int i)) PTE_V"
    have pt: "pageaddr t" using pt_okD(1) [OF ok t(1)] t(2) by simp
    have tx: "t \<noteq> x" using tablesI [OF t(1)] t(2) x(2) by auto
    show "\<not> has (?m (u + 8 * int i)) (PTE_R OR PTE_W OR PTE_X)"
    proof (cases "u + 8 * int i = t + 8 * int j")
      case True
      then show ?thesis using new_entry_inner by (simp add: with_table_def)
    next
      case False
      then have nx: "\<not> (x \<le> u + 8 * int i \<and> u + 8 * int i < x + 4096)" using v by (auto simp: with_table_def)
      then have "u \<noteq> x" using u(3) by auto
      then have "tab m pt d1 q1 = Some u" using T [of d1 q1] u(1,2) by (auto split: if_splits)
      from pt_okD(3) [OF ok this u(1,3)] v False nx show ?thesis by (auto simp: with_table_def)
    qed
  qed
  then show "pt_ok ?m pt" unfolding pt_ok_def tb using inj x(1) ok by (auto simp: pt_ok_def)
  show "amap ?m pt = amap m pt"
  proof
    fix n
    have pt: "pageaddr t" using pt_okD(1) [OF ok t(1)] t(2) by simp
    have tx: "t \<noteq> x" using tablesI [OF t(1)] t(2) x(2) by auto
    show "amap ?m pt n = amap m pt n"
    proof (cases "2 = Suc d \<and> n div 512 = q * 512 + j")
      case True
      have "t + 8 * int j \<noteq> x + 8 * int (n mod 512)" using entry_inj [OF pt x(1) t(3), of "n mod 512"] tx by auto
      then have "?m (x + 8 * int (n mod 512)) = 0" by (simp add: with_table_def)
      moreover have "tab ?m pt 2 (n div 512) = Some x" using T [of 2 "n div 512"] True by (simp del: One_nat_def)
      moreover have "tab m pt 2 (n div 512) = None" using dead True by (metis numeral_2_eq_2)
      ultimately show ?thesis by (simp add: amap_def leaf_def)
    next
      case False
      then have s: "tab ?m pt 2 (n div 512) = tab m pt 2 (n div 512)" using T [of 2 "n div 512"] by auto
      show ?thesis
      proof (cases "tab m pt 2 (n div 512)")
        case None
        with s show ?thesis by (simp add: amap_def leaf_def)
      next
        case (Some u)
        have u: "pageaddr u" "u \<noteq> x" using pt_okD(1) [OF ok Some] tablesI [OF Some] x(2) by auto
        have "u \<noteq> t" using Some t(1,2) pt_okD(2) [OF ok, of 2 "n div 512" u d q] by auto
        then have "?m (u + 8 * int (n mod 512)) = m (u + 8 * int (n mod 512))"
          using entry_page [OF u(1) x(1) u(2), of "n mod 512"] entry_inj [OF u(1) pt, of "n mod 512" j] t(3)
          by (auto simp: with_table_def)
        with s Some show ?thesis by (simp add: amap_def leaf_def)
      qed
    qed
  qed
qed

lemma set_leaf:
  assumes ok: "pt_ok m pt" and l: "leaf m pt n = Some a"
  shows "d \<le> 2 \<Longrightarrow> tab (m(a := v)) pt d q = tab m pt d q" and "tables (m(a := v)) pt = tables m pt"
    and "pt_ok (m(a := v)) pt" and "leaf (m(a := v)) pt = leaf m pt"
    and "amap (m(a := v)) pt = (amap m pt)(n := if has v PTE_V then Some v else None)"
proof -
  from l obtain t where t: "tab m pt 2 (n div 512) = Some t" "a = t + 8 * int (n mod 512)" by (auto simp: leaf_def)
  have pt: "pageaddr t" using pt_okD(1) [OF ok t(1)] by simp
  show T: "tab (m(a := v)) pt d q = tab m pt d q" if "d \<le> 2" for d q
  proof (rule tab_cong)
    fix e r u j assume e: "e < d" and u: "tab m pt e r = Some u" and j: "j < (512::nat)"
    have "u \<noteq> t" using pt_okD(2) [OF ok u, of 2 "n div 512"] t(1) e that by auto
    then show "(m(a := v)) (u + 8 * int j) = m (u + 8 * int j)"
      using entry_inj [OF pt_okD(1) [OF ok u] pt j, of "n mod 512"] e that t(2) by auto
  qed
  show tb: "tables (m(a := v)) pt = tables m pt" by (simp add: tables_def T cong: conj_cong)
  have "inner_ok (m(a := v)) pt" unfolding inner_ok_def
  proof (intro allI impI)
    fix d q u j
    assume u: "d < 2" "tab (m(a := v)) pt d q = Some u" "j < (512::nat)" and h: "has ((m(a := v)) (u + 8 * int j)) PTE_V"
    have um: "tab m pt d q = Some u" using T [of d q] u(1,2) by simp
    have "u \<noteq> t" using pt_okD(2) [OF ok um, of 2 "n div 512"] t(1) u(1) by auto
    then have "u + 8 * int j \<noteq> a" using entry_inj [OF pt_okD(1) [OF ok um] pt u(3), of "n mod 512"] u(1) t(2) by auto
    with pt_okD(3) [OF ok um u(1,3)] h show "\<not> has ((m(a := v)) (u + 8 * int j)) (PTE_R OR PTE_W OR PTE_X)" by simp
  qed
  then show "pt_ok (m(a := v)) pt" using ok unfolding pt_ok_def tb by (simp add: T)
  show lf: "leaf (m(a := v)) pt = leaf m pt" by (simp add: leaf_def T fun_eq_iff)
  have "b \<noteq> a" if "leaf m pt k = Some b" "k \<noteq> n" for k b
  proof -
    from that(1) obtain u where u: "tab m pt 2 (k div 512) = Some u" "b = u + 8 * int (k mod 512)" by (auto simp: leaf_def)
    show ?thesis
    proof
      assume "b = a"
      then have "u = t" "k mod 512 = n mod 512"
        using entry_inj [OF pt_okD(1) [OF ok u(1)] pt, of "k mod 512" "n mod 512"] u(2) t(2) by auto
      moreover from this(1) have "k div 512 = n div 512" using pt_okD(2) [OF ok u(1), of 2 "n div 512"] t(1) by simp
      ultimately show False using that(2) by (metis div_mult_mod_eq)
    qed
  qed
  then show "amap (m(a := v)) pt = (amap m pt)(n := if has v PTE_V then Some v else None)"
    using l by (auto simp: amap_def lf fun_eq_iff split: option.split)
qed

section \<open>Walking with allocation\<close>

text \<open>
  \<open>vext pt A s B t\<close>: from \<open>s\<close> to \<open>t\<close> the page table \<open>pt\<close> may have got new table pages, which make up the difference
  between the pages in use before, \<open>A\<close>, and after, \<open>B\<close>; no word outside the table's pages changed.
\<close>

definition same_but_ptes :: "'z kvm_scheme \<Rightarrow> 'z kvm_scheme \<Rightarrow> bool" where
  "same_but_ptes s t \<longleftrightarrow> (\<exists>sp b m. sp \<in> {spin s, calm (spin s)} \<and> t = s\<lparr>spin := sp, buddy := b, ptes := m\<rparr>)"

definition vext :: "addr \<Rightarrow> addr set \<Rightarrow> 'z kvm_scheme \<Rightarrow> addr set \<Rightarrow> 'z kvm_scheme \<Rightarrow> bool" where
  "vext pt A s B t \<longleftrightarrow> A \<subseteq> B \<and> pages t B \<and> pt_ok (ptes t) pt \<and> tables (ptes t) pt = tables (ptes s) pt \<union> (B - A) \<and>
     same_but_ptes s t \<and> (\<forall>a. (\<forall>u \<in> tables (ptes t) pt. \<not> (u \<le> a \<and> a < u + 4096)) \<longrightarrow> ptes t a = ptes s a)"

lemma same_but_ptes_refl: "same_but_ptes s s"
  unfolding same_but_ptes_def by (rule exI [of _ "spin s"], rule exI [of _ "buddy s"], rule exI [of _ "ptes s"]) simp

lemma same_but_ptes_trans:
  assumes "same_but_ptes s t" and "same_but_ptes t u"
  shows "same_but_ptes s u"
proof -
  from assms(1) obtain sp b m where t: "sp \<in> {spin s, calm (spin s)}" "t = s\<lparr>spin := sp, buddy := b, ptes := m\<rparr>"
    by (auto simp: same_but_ptes_def)
  from assms(2) obtain sp' b' m' where u: "sp' \<in> {spin t, calm (spin t)}" "u = t\<lparr>spin := sp', buddy := b', ptes := m'\<rparr>"
    by (auto simp: same_but_ptes_def)
  have "sp' \<in> {spin s, calm (spin s)}" "u = s\<lparr>spin := sp', buddy := b', ptes := m'\<rparr>" using t u by auto
  then show ?thesis unfolding same_but_ptes_def by blast
qed

lemma vext_refl: "pages s A \<Longrightarrow> pt_ok (ptes s) pt \<Longrightarrow> vext pt A s A s"
  by (simp add: vext_def same_but_ptes_refl)

lemma vext_trans:
  assumes 1: "vext pt A s B t" and 2: "vext pt B t C u" and T: "tables (ptes s) pt \<subseteq> A"
  shows "vext pt A s C u"
proof -
  have tb: "tables (ptes u) pt = tables (ptes s) pt \<union> (C - A)" "tables (ptes t) pt \<subseteq> tables (ptes u) pt"
    using 1 2 T by (auto simp: vext_def)
  moreover have "ptes u a = ptes s a" if "\<forall>v \<in> tables (ptes u) pt. \<not> (v \<le> a \<and> a < v + 4096)" for a
    using that 1 2 tb(2) by (auto simp: vext_def)
  ultimately show ?thesis using 1 2 same_but_ptes_trans unfolding vext_def by blast
qed

lemma vext_calm:
  assumes "pages s A" and "pt_ok (ptes s) pt"
  shows "vext pt A s A (s\<lparr>spin := calm (spin s)\<rparr>)"
proof -
  have "same_but_ptes s (s\<lparr>spin := calm (spin s)\<rparr>)"
    unfolding same_but_ptes_def by (rule exI [of _ "calm (spin s)"], rule exI [of _ "buddy s"], rule exI [of _ "ptes s"]) simp
  then show ?thesis using assms by (simp add: vext_def pages_def)
qed

lemma vext_new:
  assumes ok: "pt_ok (ptes s) pt" and t: "tab (ptes s) pt d q = Some t" "d < 2" "j < 512" "\<not> has (ptes s (t + 8 * int j)) PTE_V"
    and k: "s' = s\<lparr>spin := calm (spin s), buddy := b\<rparr>" "pages s' (insert x A)" "x \<notin> A" and T: "tables (ptes s) pt \<subseteq> A"
  defines "u \<equiv> set_pte (t + 8 * int j) (PA2PTE (word_of_int x) OR PTE_V) (clear_table x s')"
  shows "vext pt A s (insert x A) u" and "ptes u = with_table x (t + 8 * int j) (ptes s)"
    and "amap (ptes u) pt = amap (ptes s) pt"
proof -
  show m: "ptes u = with_table x (t + 8 * int j) (ptes s)"
    by (auto simp: u_def set_pte_def clear_table_def with_table_def k(1))
  have x: "pageaddr x" "x \<notin> tables (ptes s) pt" using pages_pageaddr [OF k(2), of x] k(3) T by auto
  note W = with_table_ok [OF ok t x]
  show "amap (ptes u) pt = amap (ptes s) pt" unfolding m by (rule W(3))
  have "same_but_ptes s u" unfolding same_but_ptes_def
    by (rule exI [of _ "calm (spin s)"], rule exI [of _ b], rule exI [of _ "ptes u"])
      (simp add: u_def set_pte_def clear_table_def k(1))
  moreover have "pages u (insert x A)" using k(2) by (simp add: u_def set_pte_def clear_table_def pages_def)
  moreover have "ptes u a = ptes s a" if "\<forall>v \<in> insert x (tables (ptes s) pt). \<not> (v \<le> a \<and> a < v + 4096)" for a
  proof -
    have "t \<in> tables (ptes s) pt" using tablesI [OF t(1)] t(2) by simp
    then have "a \<noteq> t + 8 * int j" using that t(3) by auto
    then show ?thesis using that by (auto simp: m with_table_def)
  qed
  ultimately show "vext pt A s (insert x A) u" using W T k(3) unfolding vext_def by (auto simp: m)
qed

lemma walk_levels_alloc:
  assumes "pages s A" and "pt_ok (ptes s) pt" and "tables (ptes s) pt \<subseteq> A" and "l \<le> 2"
    and "tab (ptes s) pt (2 - l) (vpn va div 512 ^ Suc l) = Some t"
  shows "\<exists>a u B. walk_levels l t va True s = Ok a u \<and> vext pt A s B u \<and> amap (ptes u) pt = amap (ptes s) pt \<and>
    (a = 0 \<or> leaf (ptes u) pt (vpn va) = Some a)"
  using assms
proof (induction l arbitrary: t s A)
  case 0
  then show ?case using vext_refl [OF 0(1,2)]
    by (intro exI [of _ "pte_at t 0 va"] exI [of _ s] exI [of _ A]) (simp add: leaf_def pte_at_vpn)
next
  case (Suc l)
  let ?j = "vpn va div 512 ^ Suc l mod 512" and ?q = "vpn va div 512 ^ Suc (Suc l)"
  note st = tab_step [OF Suc.prems(5,4)]
  show ?case
  proof (cases "has (ptes s (t + 8 * int ?j)) PTE_V")
    case True
    then have "tab (ptes s) pt (2 - l) (vpn va div 512 ^ Suc l) = Some (uint (PTE2PA (ptes s (t + 8 * int ?j))))"
      using st by (simp add: Let_def)
    from Suc.IH [OF Suc.prems(1-3) _ this] Suc.prems(4) True show ?thesis by (simp add: pte_at_vpn Let_def)
  next
    case False
    from kalloc_pages [OF Suc.prems(1)] show ?thesis
    proof (elim disjE exE conjE)
      fix x b
      let ?s = "s\<lparr>spin := calm (spin s), buddy := b\<rparr>"
      assume k: "kalloc s = Ok x ?s" "x \<notin> A" "x \<noteq> 0" "pages ?s (insert x A)"
      define u where "u = set_pte (t + 8 * int ?j) (PA2PTE (word_of_int x) OR PTE_V) (clear_table x ?s)"
      have d: "2 - Suc l < 2" "?j < 512" using Suc.prems(4) by simp_all
      note V = vext_new [OF Suc.prems(2,5) d False refl k(4,2) Suc.prems(3), folded u_def]
      have e: "?q * 512 + ?j = vpn va div 512 ^ Suc l"
        by (simp only: power_Suc2 [of 512 "Suc l"] div_mult2_eq div_mult_mod_eq)
      have "2 - l \<le> 2" "2 - l = Suc (2 - Suc l)" using Suc.prems(4) by simp_all
      moreover have "pageaddr x" "x \<notin> tables (ptes s) pt" using pages_pageaddr [OF k(4), of x] k(2) Suc.prems(3) by auto
      ultimately have tx: "tab (ptes u) pt (2 - l) (vpn va div 512 ^ Suc l) = Some x"
        using tab_with_table [OF Suc.prems(2,5) d False, of x "2 - l" "vpn va div 512 ^ Suc l"] e unfolding V(2)
        by simp
      have vu: "pages u (insert x A)" "pt_ok (ptes u) pt" "tables (ptes u) pt \<subseteq> insert x A"
        using V(1) Suc.prems(3) by (auto simp: vext_def)
      from Suc.IH [OF vu _ tx] Suc.prems(4) obtain a w B where
        w: "walk_levels l x va True u = Ok a w" "vext pt (insert x A) u B w" "amap (ptes w) pt = amap (ptes u) pt"
          "a = 0 \<or> leaf (ptes w) pt (vpn va) = Some a" by auto
      have "walk_levels (Suc l) t va True s = Ok a w"
        using False k(1,3) w(1) by (simp add: pte_at_vpn Let_def u_def)
      then show ?thesis using vext_trans [OF V(1) w(2) Suc.prems(3)] w(3,4) V(3) by auto
    next
      assume k: "kalloc s = Ok 0 (s\<lparr>spin := calm (spin s)\<rparr>)"
      have "walk_levels (Suc l) t va True s = Ok 0 (s\<lparr>spin := calm (spin s)\<rparr>)"
        using False k by (simp add: pte_at_vpn Let_def)
      then show ?thesis using vext_calm [OF Suc.prems(1,2)] by (intro exI [of _ 0] exI [of _ A] exI) auto
    qed
  qed
qed

lemma walk_alloc:
  assumes "pages s A" and "pt_ok (ptes s) pt" and "tables (ptes s) pt \<subseteq> A" and "va < MAXVA"
  obtains a u B where "walk pt va True s = Ok a u" "vext pt A s B u" "amap (ptes u) pt = amap (ptes s) pt"
    "a = 0 \<or> leaf (ptes u) pt (vpn va) = Some a"
proof -
  have "\<exists>a u B. walk_levels 2 pt va True s = Ok a u \<and> vext pt A s B u \<and> amap (ptes u) pt = amap (ptes s) pt \<and>
    (a = 0 \<or> leaf (ptes u) pt (vpn va) = Some a)"
    by (rule walk_levels_alloc [OF assms(1-3) le_refl root_tab [OF assms(4)]])
  moreover have "walk pt va True s = walk_levels 2 pt va True s" using assms(4) by (auto simp: walk_def not_le)
  ultimately show ?thesis using that by metis
qed

section \<open>Mapping pages\<close>

definition maprange :: "nat \<Rightarrow> nat \<Rightarrow> u64 \<Rightarrow> u64 \<Rightarrow> (nat \<Rightarrow> u64 option) \<Rightarrow> nat \<Rightarrow> u64 option" where
  "maprange v n pa perm M =
     (\<lambda>k. if v \<le> k \<and> k < v + n then Some (PA2PTE (pa + of_nat (k - v) * PGSIZE) OR perm OR PTE_V) else M k)"

lemma maprange_0 [simp]: "maprange v 0 pa perm M = M"
  by (auto simp: maprange_def fun_eq_iff)

lemma maprange_Suc:
  "maprange (Suc v) n (pa + PGSIZE) perm (M(v := Some (PA2PTE pa OR perm OR PTE_V))) = maprange v (Suc n) pa perm M"
proof
  fix k
  show "maprange (Suc v) n (pa + PGSIZE) perm (M(v := Some (PA2PTE pa OR perm OR PTE_V))) k = maprange v (Suc n) pa perm M k"
  proof (cases "Suc v \<le> k \<and> k < Suc v + n")
    case True
    then obtain i where "k = Suc v + i" by (metis le_iff_add)
    with True show ?thesis by (simp add: maprange_def algebra_simps)
  next
    case False
    then show ?thesis by (auto simp: maprange_def)
  qed
qed

lemma amap_leaf: "leaf m pt n = Some a \<Longrightarrow> amap m pt n = (if has (m a) PTE_V then Some (m a) else None)"
  by (simp add: amap_def)

lemma has_V_or: "has (e OR fl OR PTE_V) PTE_V"
  unfolding PTE_V_bit by (simp add: bit_or_iff PTE_V_def)

lemma set_pte_vext:
  assumes "pages s A" and ok: "pt_ok (ptes s) pt" and l: "leaf (ptes s) pt n = Some a"
  shows "vext pt A s A (set_pte a v s)"
    and "amap (ptes (set_pte a v s)) pt = (amap (ptes s) pt)(n := if has v PTE_V then Some v else None)"
proof -
  note S = set_leaf [OF ok l, where v = v]
  have m: "ptes (set_pte a v s) = (ptes s)(a := v)" by (simp add: set_pte_def)
  show "amap (ptes (set_pte a v s)) pt = (amap (ptes s) pt)(n := if has v PTE_V then Some v else None)"
    unfolding m by (rule S(5))
  have "same_but_ptes s (set_pte a v s)" unfolding same_but_ptes_def
    by (rule exI [of _ "spin s"], rule exI [of _ "buddy s"], rule exI [of _ "ptes (set_pte a v s)"]) (simp add: set_pte_def)
  moreover have "pages (set_pte a v s) A" using assms(1) by (simp add: set_pte_def pages_def)
  moreover from l obtain t where t: "t \<in> tables (ptes s) pt" "a = t + 8 * int (n mod 512)"
    by (auto simp: leaf_def intro: tablesI)
  then have "((ptes s)(a := v)) b = ptes s b" if "\<forall>u \<in> tables (ptes s) pt. \<not> (u \<le> b \<and> b < u + 4096)" for b
    using that by auto
  ultimately show "vext pt A s A (set_pte a v s)" using S(2,3) by (simp add: vext_def m)
qed

lemma vpn_next: "unat a + 4096 < 2 ^ 64 \<Longrightarrow> unat (a + PGSIZE) = unat a + 4096 \<and> vpn (a + PGSIZE) = Suc (vpn a)"
  by (simp add: unat_word_ariths PGSIZE_def vpn_def)

lemma less_MAXVA: "unat a < 2 ^ 38 \<longleftrightarrow> a < MAXVA"
  by (simp add: MAXVA_def word_less_nat_alt)

lemma mappages_loop_ok:
  assumes "pages s A" and "pt_ok (ptes s) pt" and "tables (ptes s) pt \<subseteq> A"
    and "unat a + 4096 * Suc n \<le> 2 ^ 38" and "lim = a + of_nat n * PGSIZE"
    and "\<And>k. k < Suc n \<Longrightarrow> amap (ptes s) pt (vpn a + k) = None"
  shows "\<exists>r t B j. mappages_loop (Suc n) pt a lim pa perm s = Ok r t \<and> vext pt A s B t \<and>
    amap (ptes t) pt = maprange (vpn a) j pa perm (amap (ptes s) pt) \<and> (r = 0 \<and> j = Suc n \<or> r = - 1 \<and> j < Suc n)"
  using assms
proof (induction n arbitrary: a pa s A)
  case (0 a pa s A)
  have va: "a < MAXVA" using 0(4) by (simp add: less_MAXVA [symmetric])
  from walk_alloc [OF 0(1-3) va] obtain e u B where
    u: "walk pt a True s = Ok e u" "vext pt A s B u" "amap (ptes u) pt = amap (ptes s) pt"
      "e = 0 \<or> leaf (ptes u) pt (vpn a) = Some e" .
  show ?case
  proof (cases "e = 0")
    case True
    then show ?thesis using u by (intro exI [of _ "- 1"] exI [of _ u] exI [of _ B] exI [of _ 0]) simp
  next
    case False
    then have l: "leaf (ptes u) pt (vpn a) = Some e" using u(4) by simp
    have nv: "\<not> has (ptes u e) PTE_V" using 0(6) [of 0] u(3) amap_leaf [OF l] by (auto split: if_splits)
    have ub: "pages u B" "pt_ok (ptes u) pt" using u(2) by (simp_all add: vext_def)
    note S = set_pte_vext [OF ub l, of "PA2PTE pa OR perm OR PTE_V"]
    have "mappages_loop (Suc 0) pt a lim pa perm s = Ok 0 (set_pte e (PA2PTE pa OR perm OR PTE_V) u)"
      using u(1) False nv 0(5) by simp
    moreover have "amap (ptes (set_pte e (PA2PTE pa OR perm OR PTE_V) u)) pt = maprange (vpn a) 1 pa perm (amap (ptes s) pt)"
      using S(2) u(3) by (auto simp: has_V_or maprange_def)
    ultimately show ?thesis using vext_trans [OF u(2) S(1) 0(3)]
      by (intro exI [of _ 0] exI [of _ "set_pte e (PA2PTE pa OR perm OR PTE_V) u"] exI [of _ B] exI [of _ 1]) simp
  qed
next
  case (Suc n a pa s A)
  have va: "a < MAXVA" using Suc.prems(4) by (simp add: less_MAXVA [symmetric])
  from walk_alloc [OF Suc.prems(1-3) va] obtain e u B where
    u: "walk pt a True s = Ok e u" "vext pt A s B u" "amap (ptes u) pt = amap (ptes s) pt"
      "e = 0 \<or> leaf (ptes u) pt (vpn a) = Some e" .
  show ?case
  proof (cases "e = 0")
    case True
    then show ?thesis using u by (intro exI [of _ "- 1"] exI [of _ u] exI [of _ B] exI [of _ 0]) simp
  next
    case False
    then have l: "leaf (ptes u) pt (vpn a) = Some e" using u(4) by simp
    have nv: "\<not> has (ptes u e) PTE_V"
      using Suc.prems(6) [of 0] u(3) amap_leaf [OF l] by (auto split: if_splits)
    have ub: "pages u B" "pt_ok (ptes u) pt" "tables (ptes u) pt \<subseteq> B" using u(2) Suc.prems(3) by (auto simp: vext_def)
    define w where "w = set_pte e (PA2PTE pa OR perm OR PTE_V) u"
    note S = set_pte_vext [OF ub(1,2) l, of "PA2PTE pa OR perm OR PTE_V", folded w_def]
    have wb: "pages w B" "pt_ok (ptes w) pt" "tables (ptes w) pt \<subseteq> B" using S(1) ub(3) by (auto simp: vext_def)
    have nx: "unat (a + PGSIZE) = unat a + 4096" "vpn (a + PGSIZE) = Suc (vpn a)"
      using vpn_next [of a] Suc.prems(4) by simp_all
    have ne: "a \<noteq> lim"
    proof
      assume "a = lim"
      then have "of_nat (Suc n) * PGSIZE = 0" using Suc.prems(5) by simp
      then have "unat (of_nat (Suc n * 4096) :: u64) = 0" by (simp add: PGSIZE_def)
      moreover have "unat (of_nat (Suc n * 4096) :: u64) = Suc n * 4096"
        unfolding unat_of_nat by (rule mod_less) (use Suc.prems(4) in simp)
      ultimately show False by simp
    qed
    have am: "amap (ptes w) pt = (amap (ptes s) pt)(vpn a := Some (PA2PTE pa OR perm OR PTE_V))"
      using S(2) u(3) by (simp add: has_V_or)
    have IH: "\<exists>r t C j. mappages_loop (Suc n) pt (a + PGSIZE) lim (pa + PGSIZE) perm w = Ok r t \<and> vext pt B w C t \<and>
      amap (ptes t) pt = maprange (vpn (a + PGSIZE)) j (pa + PGSIZE) perm (amap (ptes w) pt) \<and>
      (r = 0 \<and> j = Suc n \<or> r = - 1 \<and> j < Suc n)"
    proof (rule Suc.IH [OF wb])
      show "unat (a + PGSIZE) + 4096 * Suc n \<le> 2 ^ 38" using Suc.prems(4) nx(1) by simp
      show "lim = a + PGSIZE + of_nat n * PGSIZE" using Suc.prems(5) by (simp add: algebra_simps)
      show "amap (ptes w) pt (vpn (a + PGSIZE) + k) = None" if "k < Suc n" for k
        using Suc.prems(6) [of "Suc k"] that by (simp add: am nx(2))
    qed
    then obtain r t C j where t: "mappages_loop (Suc n) pt (a + PGSIZE) lim (pa + PGSIZE) perm w = Ok r t" "vext pt B w C t"
      "amap (ptes t) pt = maprange (vpn a) (Suc j) pa perm (amap (ptes s) pt)" "r = 0 \<and> j = Suc n \<or> r = - 1 \<and> j < Suc n"
      unfolding am nx(2) maprange_Suc by blast
    have "mappages_loop (Suc (Suc n)) pt a lim pa perm s = Ok r t"
      using u(1) False nv ne t(1) by (simp add: w_def [symmetric] del: mappages_loop.simps(2) add: mappages_loop.simps(2) [of "Suc n"])
    then show ?thesis using vext_trans [OF vext_trans [OF u(2) S(1) Suc.prems(3)] t(2) Suc.prems(3)] t(3,4)
      by (intro exI [of _ r] exI [of _ t] exI [of _ C] exI [of _ "Suc j"]) auto
  qed
qed

section \<open>A machine that has booted\<close>

text \<open>
  The states in which the examples below run: the memory is initialised by \<open>kinit\<close> for a kernel that ends at
  \<open>0x80021d60\<close>, some pages have been handed out, and all words and bytes are zero.
\<close>

definition raw_vm :: "bd \<Rightarrow> kvm" where
  "raw_vm b = \<lparr>spin = idle_spin, procs = (\<lambda>_. no_proc), nextpid = 1, initproc = None, buddy = b,
     ptes = (\<lambda>_. 0), bytes = (\<lambda>_. 0), kernel_pagetable = 0, satp = (\<lambda>_. 0)\<rparr>"

definition boot_heap :: "bd \<Rightarrow> nat set \<Rightarrow> bool" where
  "boot_heap b J \<longleftrightarrow> finite J \<and> bd_base b = 0x80022000 \<and> 20 \<le> MAXSIZE b \<and> MAXSIZE b \<le> 26 \<and>
     (\<exists>m e. 4 * m \<le> 2 ^ MAXSIZE b \<and> 2 ^ MAXSIZE b \<le> 2 * e \<and>
        bd_rel b ({(0, l) |l. l < 2 ^ MAXSIZE b \<and> (l < m \<or> e \<le> l)} \<union> Pair 8 ` J))"

lemma leaves_page: "leaves (8, i) = {256 * i..<256 * i + 256}" "leaves (0, i) = {i}"
  by (auto simp: leaves_def)

lemma leaves_pages_disj: "i \<noteq> j \<Longrightarrow> leaves (8, i) \<inter> leaves (8, j) = {}"
  unfolding leaves_page by (cases "i < j") auto

lemma boot_heap_0: "\<exists>b. boot_heap b {}"
proof -
  have p: "PGROUNDUP 0x80021d60 = 0x80022000" by (simp add: PGROUNDUP_def PGSIZE_def)
  have PS: "PHYSTOP = 0x88000000" by (simp add: PHYSTOP_def KERNBASE_def)
  have "init_nsizes 0x7FDE000 = 24" by code_simp
  then have "(0x7FDE000 :: int) \<noteq> BLK_SIZE (init_nsizes 0x7FDE000 - 1)" by (simp add: BLK_SIZE_def LEAF_SIZE_def)
  with kinit_rel [where kend = "0x80021d60" and s = "idle_mem full_heap"] obtain b m e where
    b: "bd_base b = 0x80022000" "4 * m \<le> 2 ^ MAXSIZE b" "0x88000000 - bd_base b < 16 * 2 ^ MAXSIZE b" "7 \<le> MAXSIZE b"
      "16 * 2 ^ (MAXSIZE b - 1) \<le> 0x88000000 - bd_base b" "int e = (0x88000000 - bd_base b) div 16"
      "bd_rel b {(0, l) |l. l < 2 ^ MAXSIZE b \<and> (l < m \<or> e \<le> l)}"
    by (auto simp: p PS KERNBASE_def)
  have "20 \<le> MAXSIZE b"
  proof (rule ccontr)
    assume "\<not> 20 \<le> MAXSIZE b"
    then have "(2::int) ^ MAXSIZE b \<le> 2 ^ 19" by (intro power_increasing) auto
    with b(1,3) show False by simp
  qed
  moreover have "MAXSIZE b \<le> 26"
  proof (rule ccontr)
    assume "\<not> MAXSIZE b \<le> 26"
    then have "(2::int) ^ 26 \<le> 2 ^ (MAXSIZE b - 1)" by (intro power_increasing) auto
    with b(1,5) show False by simp
  qed
  moreover have "2 ^ MAXSIZE b \<le> 2 * e"
  proof -
    have "(2::int) ^ (MAXSIZE b - 1) \<le> int e" using b(1,5,6) by simp
    moreover have "(2::int) ^ MAXSIZE b = 2 * 2 ^ (MAXSIZE b - 1)"
      using b(4) by (simp add: power_Suc [symmetric] del: power_Suc)
    ultimately have "int (2 ^ MAXSIZE b) \<le> int (2 * e)" by simp
    then show ?thesis by (simp only: of_nat_le_iff)
  qed
  ultimately have "boot_heap b {}" using b(1,2,7) by (auto simp: boot_heap_def)
  then show ?thesis ..
qed

lemma boot_heap_Suc:
  assumes h: "boot_heap b J" and n: "card J < 1000"
  shows "\<exists>b' i. i \<notin> J \<and> boot_heap b' (insert i J)"
proof -
  define M where "M = MAXSIZE b"
  from h obtain m e where b: "finite J" "bd_base b = 0x80022000" "20 \<le> M" "M \<le> 26" "4 * m \<le> 2 ^ M" "2 ^ M \<le> 2 * e"
    and r: "bd_rel b ({(0, l) |l. l < 2 ^ M \<and> (l < m \<or> e \<le> l)} \<union> Pair 8 ` J)" by (auto simp: boot_heap_def M_def)
  let ?L = "{(0, l) |l. l < 2 ^ M \<and> (l < m \<or> e \<le> l)} \<union> Pair 8 ` J"
  obtain c :: nat where c: "2 ^ M = 1024 * c" "c = 2 ^ (M - 10)"
  proof -
    have "M = 10 + (M - 10)" using b(3) by simp
    then have "(2::nat) ^ M = 2 ^ 10 * 2 ^ (M - 10)" by (metis power_add)
    then show ?thesis using that [of "2 ^ (M - 10)"] by simp
  qed
  have c1: "1024 \<le> c"
  proof -
    have "(2::nat) ^ 10 \<le> 2 ^ (M - 10)" using b(3) by (intro power_increasing) auto
    then show ?thesis using c(2) by simp
  qed
  have "\<exists>i \<in> {c..<c + 1000}. i \<notin> J"
  proof (rule ccontr)
    assume "\<not> ?thesis"
    then have "{c..<c + 1000} \<subseteq> J" by blast
    from card_mono [OF b(1) this] n show False by simp
  qed
  then obtain i where i: "c \<le> i" "i < c + 1000" "i \<notin> J" by auto
  have M8: "2 ^ (M - 8) = 4 * c"
  proof -
    have "M - 8 = 2 + (M - 10)" using b(3) by simp
    then show ?thesis using c(2) by (simp only: power_add) simp
  qed
  have "i \<in> fits M ?L 8"
  proof -
    have "in_heap M (8, i)" using b(3) i c1 by (simp add: in_heap_def M8)
    moreover have "leaves x \<inter> leaves (8, i) = {}" if "x \<in> ?L" for x
    proof -
      from that consider l where "x = (0, l)" "l < m \<or> e \<le> l" | j where "x = (8, j)" "j \<in> J" by blast
      then show ?thesis
      proof cases
        case 1
        then show ?thesis using i b(5,6) c c1 by (auto simp: leaves_page)
      next
        case 2
        with i(3) show ?thesis using leaves_pages_disj [of j i] by auto
      qed
    qed
    ultimately show ?thesis by (simp add: fits_def)
  qed
  with bd_rel_malloc [OF r firstk_page] obtain i' b' where
    i': "i' \<in> fits M ?L 8" "same_geom b b'" "bd_rel b' (insert (8, i') ?L)" by (auto simp: M_def)
  have "i' \<notin> J"
  proof
    assume "i' \<in> J"
    then have "(8, i') \<in> ?L" by simp
    with i'(1) have "leaves (8, i') = {}" unfolding fits_def by blast
    then show False by (simp add: leaves_page)
  qed
  moreover have "boot_heap b' (insert i' J)"
  proof -
    have "4 * m \<le> 2 ^ M \<and> 2 ^ M \<le> 2 * e \<and>
      bd_rel b' ({(0, l) |l. l < 2 ^ M \<and> (l < m \<or> e \<le> l)} \<union> Pair 8 ` insert i' J)" using b i'(3) by simp
    then show ?thesis unfolding boot_heap_def same_geomD [OF i'(2)] M_def [symmetric] using b(1-4) by blast
  qed
  ultimately show ?thesis by blast
qed

lemma boot_pages: "n \<le> 1000 \<Longrightarrow> \<exists>b A. finite A \<and> card A = n \<and> pages (raw_vm b) A"
proof -
  assume n: "n \<le> 1000"
  have "\<exists>b J. card J = n \<and> boot_heap b J" using n
  proof (induction n)
    case 0
    then show ?case using boot_heap_0 by (auto intro!: exI [of _ "{}"])
  next
    case (Suc n)
    then obtain b J where J: "card J = n" "boot_heap b J" by auto
    with boot_heap_Suc [OF J(2)] Suc.prems obtain b' i where "i \<notin> J" "boot_heap b' (insert i J)" by auto
    moreover have "finite J" using J(2) by (simp add: boot_heap_def)
    ultimately show ?case using J(1) by (intro exI [of _ b'] exI [of _ "insert i J"]) simp
  qed
  then obtain b J where J: "card J = n" "boot_heap b J" by blast
  let ?A = "baddr b 8 ` J"
  have "HEAP_SIZE b \<le> 2 ^ 40"
  proof -
    have "(2::int) ^ MAXSIZE b \<le> 2 ^ 26" using J(2) by (intro power_increasing) (auto simp: boot_heap_def)
    then show ?thesis by (simp add: HEAP_SIZE_def BLK_SIZE_def LEAF_SIZE_def)
  qed
  then have "pages (raw_vm b) ?A"
    using J(2) idle_free by (auto simp: pages_def raw_vm_def boot_heap_def)
  moreover have "inj (baddr b 8)" by (simp add: inj_def baddr_inj)
  then have "card ?A = n" using J(1) by (simp add: card_image inj_on_subset)
  moreover have "finite ?A" using J(2) by (simp add: boot_heap_def)
  ultimately show ?thesis by blast
qed

lemma calm_idle: "calm idle_spin = idle_spin"
  by (simp add: calm_def idle_spin_def spin_defs fun_eq_iff)

lemma zero_table:
  assumes "pageaddr pt" and z: "\<And>j. j < 512 \<Longrightarrow> m (pt + 8 * int j) = 0"
  shows "tables m pt = {pt}" and "pt_ok m pt" and "amap m pt = Map.empty"
proof -
  have T: "tab m pt d q = (if d = 0 \<and> q = 0 then Some pt else None)" for d q
  proof (induction d arbitrary: q)
    case 0
    then show ?case by simp
  next
    case (Suc d)
    show ?case using z by (simp add: tab.simps(2) Suc.IH)
  qed
  show "tables m pt = {pt}" by (auto simp: tables_def T split: if_splits)
  moreover have "inner_ok m pt" using z by (auto simp: inner_ok_def T split: if_splits)
  ultimately show "pt_ok m pt" using assms(1) by (simp add: pt_ok_def T)
  show "amap m pt = Map.empty" by (auto simp: amap_def leaf_def T fun_eq_iff)
qed

lemma mappages_ok:
  assumes "pages s A" and "pt_ok (ptes s) pt" and "tables (ptes s) pt \<subseteq> A"
    and al: "va mod PGSIZE = 0" "sz mod PGSIZE = 0" "sz \<noteq> 0" and lim: "unat va + unat sz \<le> unat MAXVA"
    and free: "\<And>k. k < unat sz div 4096 \<Longrightarrow> amap (ptes s) pt (vpn va + k) = None"
  shows "\<exists>r t B j. mappages pt va sz pa perm s = Ok r t \<and> vext pt A s B t \<and>
    amap (ptes t) pt = maprange (vpn va) j pa perm (amap (ptes s) pt) \<and>
    (r = 0 \<and> j = unat sz div 4096 \<or> r = - 1 \<and> j < unat sz div 4096)"
proof -
  have "unat (sz mod PGSIZE) = unat sz mod 4096" by (simp add: PGSIZE_def unat_mod_distrib)
  then have "unat sz mod 4096 = 0" using al(2) by simp
  then obtain N where N: "unat sz = 4096 * N" by (auto simp: dvd_def mod_eq_0_iff_dvd)
  have "unat sz \<noteq> 0" using al(3) by (simp add: unat_eq_zero)
  with N obtain n where n: "unat sz = 4096 * Suc n" by (cases N) auto
  have d: "unat (sz div PGSIZE) = Suc n" using n by (simp add: PGSIZE_def unat_div_distrib)
  have "sz = of_nat (unat sz)" by simp
  also have "\<dots> = of_nat n * PGSIZE + PGSIZE" unfolding n by (simp add: PGSIZE_def algebra_simps)
  finally have e: "va + sz - PGSIZE = va + of_nat n * PGSIZE" by simp
  have lm: "unat va + 4096 * Suc n \<le> 2 ^ 38" using lim n by (simp add: MAXVA_def)
  have "\<exists>r t B j. mappages_loop (Suc n) pt va (va + sz - PGSIZE) pa perm s = Ok r t \<and> vext pt A s B t \<and>
    amap (ptes t) pt = maprange (vpn va) j pa perm (amap (ptes s) pt) \<and> (r = 0 \<and> j = Suc n \<or> r = - 1 \<and> j < Suc n)"
    by (rule mappages_loop_ok [OF assms(1-3) lm e]) (use free n in simp)
  moreover have "mappages pt va sz pa perm s = mappages_loop (Suc n) pt va (va + sz - PGSIZE) pa perm s"
    using al by (simp add: mappages_def d del: mappages_loop.simps)
  ultimately show ?thesis using n by simp
qed

text \<open>
  C25. \<open>mappages\<close> refines an update of the address space. For an aligned range of unmapped pages it never panics; it
  returns 0 and maps page \<open>k\<close> of the range to the \<open>k\<close>-th page from \<open>pa\<close> with the given permissions, or runs out of
  memory, returns -1 and has mapped only a proper prefix of the range. All other mappings stay, the table stays
  well-formed, new table pages are fresh pages of the allocator, and no word outside the table is changed.
\<close>

theorem mappages_refines:
  assumes "pages s A" and "pt_ok (ptes s) pt" and "tables (ptes s) pt \<subseteq> A"
    and al: "va mod PGSIZE = 0" "sz mod PGSIZE = 0" "sz \<noteq> 0" and lim: "unat va + unat sz \<le> unat MAXVA"
    and free: "\<And>k. k < unat sz div 4096 \<Longrightarrow> amap (ptes s) pt (vpn va + k) = None"
  shows "\<exists>r t B j. mappages pt va sz pa perm s = Ok r t \<and> vext pt A s B t \<and>
    amap (ptes t) pt = maprange (vpn va) j pa perm (amap (ptes s) pt) \<and>
    (r = 0 \<and> j = unat sz div 4096 \<or> r = - 1 \<and> j < unat sz div 4096)"
  using mappages_ok [OF assms] .

theorem mappages_refines_witness:
  "\<exists>b pt r t B j. pages (raw_vm b) {pt} \<and>
    mappages pt 0x3000 0x2000 0x80200000 (PTE_R OR PTE_U) (raw_vm b) = Ok r t \<and> vext pt {pt} (raw_vm b) B t \<and>
    amap (ptes t) pt = maprange 3 j 0x80200000 (PTE_R OR PTE_U) Map.empty \<and> (r = 0 \<and> j = 2 \<or> r = - 1 \<and> j < 2)"
proof -
  obtain b A where A: "card A = 1" "pages (raw_vm b) A" using boot_pages [of 1] by auto
  then obtain pt where pt: "pages (raw_vm b) {pt}" by (auto simp: card_1_singleton_iff)
  have z: "ptes (raw_vm b) = (\<lambda>_. 0)" by (simp add: raw_vm_def)
  have "pageaddr pt" using pages_pageaddr [OF pt] by simp
  note Z = zero_table [OF this, of "ptes (raw_vm b)", unfolded z, OF refl]
  have "\<exists>r t B j. mappages pt 0x3000 0x2000 0x80200000 (PTE_R OR PTE_U) (raw_vm b) = Ok r t \<and> vext pt {pt} (raw_vm b) B t \<and>
    amap (ptes t) pt = maprange (vpn 0x3000) j 0x80200000 (PTE_R OR PTE_U) (amap (ptes (raw_vm b)) pt) \<and>
    (r = 0 \<and> j = unat (0x2000 :: u64) div 4096 \<or> r = - 1 \<and> j < unat (0x2000 :: u64) div 4096)"
    by (rule mappages_refines [OF pt]) (simp_all add: z Z PGSIZE_def MAXVA_def)
  moreover have "vpn 0x3000 = 3" by (simp add: vpn_def)
  ultimately show ?thesis using pt unfolding z Z by fastforce
qed

end
