(* ===== verification/Usermem.thy ===== *)
theory Usermem
  imports Ptable
begin

text \<open>
  Copying between kernel and user memory: what \<open>copyout\<close> and \<open>copyin\<close> transfer and what they leave alone, in terms of
  the addresses that a page table maps for the user.
\<close>

section \<open>Copying between kernel and user memory\<close>

text \<open>
  \<open>uaddr m pt ok va\<close> is the physical address of the user byte \<open>va\<close>, if the page table maps its page and \<open>ok\<close> holds of
  the entry. The kernel reads user memory with \<open>ureadable\<close> and writes it with \<open>uwritable\<close> entries only.
\<close>

definition uaddr :: "(addr \<Rightarrow> u64) \<Rightarrow> addr \<Rightarrow> (u64 \<Rightarrow> bool) \<Rightarrow> u64 \<Rightarrow> addr option" where
  "uaddr m pt ok va =
     (if va < MAXVA
      then case amap m pt (vpn va) of
             None \<Rightarrow> None
           | Some e \<Rightarrow> if ok e then Some (uint (PTE2PA e) + int (unat va mod 4096)) else None
      else None)"

definition ureadable :: "u64 \<Rightarrow> bool" where
  "ureadable e \<longleftrightarrow> has e PTE_U \<and> PTE2PA e \<noteq> 0"

definition uwritable :: "u64 \<Rightarrow> bool" where
  "uwritable e \<longleftrightarrow> has e PTE_U \<and> has e PTE_W"

lemma down_off:
  fixes va :: u64
  shows "PGROUNDDOWN va = va - of_nat (unat va mod 4096)" and "va - PGROUNDDOWN va = of_nat (unat va mod 4096)"
    and "vpn (PGROUNDDOWN va) = vpn va" and "PGROUNDDOWN va < MAXVA \<longleftrightarrow> va < MAXVA"
proof -
  have "PGROUNDDOWN va = of_nat (unat (PGROUNDDOWN va))" by simp
  also have "\<dots> = of_nat (unat va div 4096 * 4096)" by (simp only: unat_PGROUNDDOWN)
  also have "unat va div 4096 * 4096 = unat va - unat va mod 4096" by (simp add: minus_mod_eq_div_mult)
  also have "of_nat \<dots> = va - of_nat (unat va mod 4096)" by (simp add: of_nat_diff)
  finally show p: "PGROUNDDOWN va = va - of_nat (unat va mod 4096)" .
  then show "va - PGROUNDDOWN va = of_nat (unat va mod 4096)" by simp
  show "vpn (PGROUNDDOWN va) = vpn va" by (simp add: vpn_def unat_PGROUNDDOWN)
  have "unat va div 4096 * 4096 < 2 ^ 38 \<longleftrightarrow> unat va < 2 ^ 38" by (auto simp: less_mult_imp_div_less div_less_iff_less_mult)
  then show "PGROUNDDOWN va < MAXVA \<longleftrightarrow> va < MAXVA" unfolding less_MAXVA [symmetric] unat_PGROUNDDOWN .
qed

lemma page_rest_eq: "page_rest va len = min len (4096 - unat va mod 4096)"
proof -
  have "unat va mod 4096 < 4096" by simp
  then have "unat (PGSIZE - of_nat (unat va mod 4096)) = 4096 - unat va mod 4096"
    by (simp add: PGSIZE_def unat_sub_if_size unat_of_nat)
  then show ?thesis by (simp add: page_rest_def down_off(2) Let_def min_def)
qed

lemma div_mod_4096: "\<exists>q r. (n::nat) = q * 4096 + r \<and> r < 4096 \<and> n mod 4096 = r \<and> n div 4096 = q"
  by (intro exI [of _ "n div 4096"] exI [of _ "n mod 4096"]) simp

lemma in_page:
  fixes va :: u64
  assumes "i < 4096 - unat va mod 4096"
  shows "vpn (va + of_nat i) = vpn va" and "unat (va + of_nat i) mod 4096 = unat va mod 4096 + i"
    and "va + of_nat i < MAXVA \<longleftrightarrow> va < MAXVA"
proof -
  obtain q r where q: "unat va = q * 4096 + r" "r < 4096" "unat va mod 4096 = r" "unat va div 4096 = q"
    using div_mod_4096 [of "unat va"] by blast
  have i: "r + i < 4096" using assms q(3) by simp
  have "unat va < 2 ^ 64" using unsigned_less [of va, where 'a = nat] by simp
  then have "q < 2 ^ 52" using q(1) by simp
  then have "q * 4096 + 4096 \<le> 2 ^ 64" by simp
  then have "unat va + i < 2 ^ 64" using q(1) i by linarith
  then have "unat (va + of_nat i) = unat va + i" by (simp add: unat_word_ariths unat_of_nat)
  then have u: "unat (va + of_nat i) = q * 4096 + (r + i)" using q(1) by simp
  show v: "vpn (va + of_nat i) = vpn va" unfolding vpn_def u q(4) using i by simp
  show "unat (va + of_nat i) mod 4096 = unat va mod 4096 + i" unfolding u q(3) using i by simp
  have "unat (PGROUNDDOWN (va + of_nat i)) = unat (PGROUNDDOWN va)" using v by (simp add: unat_PGROUNDDOWN vpn_def)
  then have "PGROUNDDOWN (va + of_nat i) = PGROUNDDOWN va" by (simp only: word_unat_eq_iff)
  then show "va + of_nat i < MAXVA \<longleftrightarrow> va < MAXVA" using down_off(4) [of va] down_off(4) [of "va + of_nat i"] by simp
qed

lemma page_pa:
  assumes "k < 4096"
  shows "uint (PTE2PA e + of_nat k) = uint (PTE2PA e) + int k"
proof -
  have "PTE2PA e = PGROUNDDOWN (PTE2PA e)"
    unfolding PGROUNDDOWN_def and_pg_mask PTE2PA_def
    by (rule bit_word_eqI) (auto simp: bit_push_bit_iff bit_drop_bit_eq)
  then have "unat (PTE2PA e) mod 4096 = 0" by (metis unat_PGROUNDDOWN mod_mult_self2_is_0)
  then obtain c where c: "unat (PTE2PA e) = 4096 * c" by (auto simp: dvd_def mod_eq_0_iff_dvd)
  have "4096 * c < 2 ^ 64" using unsigned_less [of "PTE2PA e", where 'a = nat] c by simp
  then have "c < 2 ^ 52" by simp
  then have "4096 * c + k < 2 ^ 64" using assms by simp
  then have "unat (PTE2PA e + of_nat k) = unat (PTE2PA e) + k"
    unfolding c [symmetric] by (simp add: unat_word_ariths unat_of_nat)
  then show ?thesis by (metis of_nat_add uint_nat)
qed

lemma next_page:
  assumes "page_rest va len < len"
  shows "PGROUNDDOWN va + PGSIZE = va + of_nat (page_rest va len)"
proof -
  have n: "page_rest va len = 4096 - unat va mod 4096" using assms unfolding page_rest_eq by simp
  have "unat va mod 4096 \<le> 4096" by (simp add: order_less_imp_le)
  then have "of_nat (4096 - unat va mod 4096) = (4096 - of_nat (unat va mod 4096) :: u64)" by (simp add: of_nat_diff)
  then show ?thesis unfolding n down_off(1) by (simp add: PGSIZE_def)
qed

lemma uaddr_in_page:
  assumes "va < MAXVA" and "amap m pt (vpn va) = Some e" and "ok e" and "i < 4096 - unat va mod 4096"
  shows "uaddr m pt ok (va + of_nat i) = Some (uint (PTE2PA e + (va - PGROUNDDOWN va)) + int i)"
proof -
  have "uint (PTE2PA e + (va - PGROUNDDOWN va)) = uint (PTE2PA e) + int (unat va mod 4096)"
    unfolding down_off(2) by (rule page_pa) simp
  with assms in_page [OF assms(4)] show ?thesis by (simp add: uaddr_def)
qed

lemma uaddr_None_page:
  assumes "uaddr m pt ok (PGROUNDDOWN va) = None"
  shows "uaddr m pt ok va = None"
  using assms down_off(3,4) [of va] by (auto simp: uaddr_def split: option.splits if_splits)

lemma walkaddr_read:
  assumes "pt_ok (ptes s) pt"
  shows "\<exists>pa. walkaddr pt va s = Ok pa s \<and>
    (pa = 0 \<and> uaddr (ptes s) pt ureadable va = None \<or>
     pa \<noteq> 0 \<and> va < MAXVA \<and> (\<exists>e. amap (ptes s) pt (vpn va) = Some e \<and> ureadable e \<and> pa = PTE2PA e))"
proof (cases "va < MAXVA")
  case True
  from walk_valid [OF assms True] obtain a where "walk pt va False s = Ok a s"
    "a \<noteq> 0 \<and> has (ptes s a) PTE_V \<and> amap (ptes s) pt (vpn va) = Some (ptes s a) \<or>
     (a = 0 \<or> \<not> has (ptes s a) PTE_V) \<and> amap (ptes s) pt (vpn va) = None" by blast
  with True show ?thesis by (auto simp: walkaddr_def uaddr_def ureadable_def not_le)
next
  case False
  then show ?thesis by (auto simp: walkaddr_def uaddr_def not_less)
qed

lemma copyin_ok:
  assumes "pt_ok (ptes s) pt"
  shows "\<exists>r xs. copyin pt va len dst s = Ok (r, dst @ xs) s \<and>
    (\<forall>i < length xs. \<exists>a. uaddr (ptes s) pt ureadable (va + of_nat i) = Some a \<and> xs ! i = bytes s a) \<and>
    (r = 0 \<and> length xs = len \<or>
     r = - 1 \<and> length xs < len \<and> uaddr (ptes s) pt ureadable (va + of_nat (length xs)) = None)"
proof (induction len arbitrary: va dst rule: less_induct)
  case (less len)
  show ?case
  proof (cases "len = 0")
    case True
    then show ?thesis by (simp add: copyin.simps)
  next
    case False
    let ?va0 = "PGROUNDDOWN va" and ?n = "page_rest va len" and ?u = "uaddr (ptes s) pt ureadable"
    from walkaddr_read [OF assms, of ?va0] obtain pa where pa: "walkaddr pt ?va0 s = Ok pa s"
      "pa = 0 \<and> ?u ?va0 = None \<or>
       pa \<noteq> 0 \<and> ?va0 < MAXVA \<and> (\<exists>e. amap (ptes s) pt (vpn ?va0) = Some e \<and> ureadable e \<and> pa = PTE2PA e)" by blast
    show ?thesis
    proof (cases "pa = 0")
      case True
      then have "copyin pt va len dst s = Ok (- 1, dst @ []) s" using pa(1) False by (simp add: copyin.simps [of pt va])
      moreover have "?u va = None" using pa(2) True uaddr_None_page by blast
      ultimately show ?thesis using False by (intro exI [of _ "- 1"] exI [of _ "[]"]) simp
    next
      case nz: False
      with pa(2) obtain e where e: "va < MAXVA" "amap (ptes s) pt (vpn va) = Some e" "ureadable e" "pa = PTE2PA e"
        by (auto simp: down_off(3,4))
      define ch where "ch = get_bytes (uint (pa + (va - ?va0))) ?n (bytes s)"
      have st: "copyin pt va len dst s = copyin pt (?va0 + PGSIZE) (len - ?n) (dst @ ch) s"
        using pa(1) False nz by (simp add: copyin.simps [of pt va len] ch_def Let_def)
      have n: "0 < ?n" "?n \<le> len" "?n \<le> 4096 - unat va mod 4096"
        using page_rest_pos [of len va] page_rest_le [of va len] False by (simp_all add: page_rest_eq)
      have c: "length ch = ?n" "\<forall>i < ?n. \<exists>a. ?u (va + of_nat i) = Some a \<and> ch ! i = bytes s a"
        using uaddr_in_page [of va "ptes s" pt e ureadable, OF e(1-3)] n(3) by (auto simp: ch_def get_bytes_def e(4))
      have "len - ?n < len" using n False by simp
      from less.IH [OF this, of "?va0 + PGSIZE" "dst @ ch"] obtain r ys where
        r: "copyin pt (?va0 + PGSIZE) (len - ?n) (dst @ ch) s = Ok (r, (dst @ ch) @ ys) s"
          "\<forall>i < length ys. \<exists>a. ?u (?va0 + PGSIZE + of_nat i) = Some a \<and> ys ! i = bytes s a"
          "r = 0 \<and> length ys = len - ?n \<or> r = - 1 \<and> length ys < len - ?n \<and> ?u (?va0 + PGSIZE + of_nat (length ys)) = None"
        by blast
      have sh: "?u (?va0 + PGSIZE + of_nat i) = ?u (va + of_nat (?n + i))" if "i < len - ?n" for i
        using next_page [of va len] that n(1) by (simp add: add.assoc)
      have "\<forall>i < length (ch @ ys). \<exists>a. ?u (va + of_nat i) = Some a \<and> (ch @ ys) ! i = bytes s a"
      proof (intro allI impI)
        fix i assume i: "i < length (ch @ ys)"
        show "\<exists>a. ?u (va + of_nat i) = Some a \<and> (ch @ ys) ! i = bytes s a"
        proof (cases "i < ?n")
          case True
          then show ?thesis using c by (simp add: nth_append)
        next
          case ge: False
          then obtain k where k: "i = ?n + k" by (metis le_iff_add not_less)
          then have l: "k < length ys" "k < len - ?n" using i c(1) r(3) by auto
          from r(2) l(1) obtain a where "?u (?va0 + PGSIZE + of_nat k) = Some a" "ys ! k = bytes s a" by blast
          then show ?thesis using c(1) sh [OF l(2)] by (simp add: nth_append k)
        qed
      qed
      moreover have "r = 0 \<and> length (ch @ ys) = len \<or> r = - 1 \<and> length (ch @ ys) < len \<and> ?u (va + of_nat (length (ch @ ys))) = None"
        using r(3) sh [of "length ys"] c(1) n(2) by auto
      ultimately show ?thesis using st r(1) by (intro exI [of _ r] exI [of _ "ch @ ys"]) simp
    qed
  qed
qed

text \<open>Byte by byte writes through a translation.\<close>

fun poke :: "(u64 \<Rightarrow> addr option) \<Rightarrow> u64 \<Rightarrow> u8 list \<Rightarrow> bmem \<Rightarrow> bmem" where
  "poke u va [] m = m"
| "poke u va (x # xs) m = poke u (va + 1) xs (m(the (u va) := x))"

lemma poke_append: "poke u va (xs @ ys) m = poke u (va + of_nat (length xs)) ys (poke u va xs m)"
  by (induction xs arbitrary: va m) (simp_all add: add.assoc)

lemma put_bytes_Cons: "put_bytes a (x # xs) m = put_bytes (a + 1) xs (m(a := x))"
proof
  fix y
  consider "y = a" | "a + 1 \<le> y" "y < a + 1 + int (length xs)" | "y < a \<or> a + 1 + int (length xs) \<le> y" by linarith
  then show "put_bytes a (x # xs) m y = put_bytes (a + 1) xs (m(a := x)) y"
  proof cases
    case 2
    then have "nat (y - a) = Suc (nat (y - (a + 1)))" by simp
    with 2 show ?thesis by (simp add: put_bytes_def)
  qed (auto simp: put_bytes_def)
qed

lemma poke_put_bytes:
  "(\<And>i. i < length xs \<Longrightarrow> u (va + of_nat i) = Some (a + int i)) \<Longrightarrow> poke u va xs m = put_bytes a xs m"
proof (induction xs arbitrary: va a m)
  case Nil
  then show ?case by (auto simp: put_bytes_def fun_eq_iff)
next
  case (Cons x xs)
  have "poke u (va + 1) xs (m(a := x)) = put_bytes (a + 1) xs (m(a := x))"
    by (rule Cons.IH) (use Cons.prems [of "Suc i" for i] in \<open>simp add: add.assoc\<close>)
  with Cons.prems [of 0] show ?case by (simp add: put_bytes_Cons)
qed

lemma poke_other:
  "(\<And>i. i < length xs \<Longrightarrow> u (va + of_nat i) \<noteq> Some y \<and> u (va + of_nat i) \<noteq> None) \<Longrightarrow> poke u va xs m y = m y"
proof (induction xs arbitrary: va m)
  case Nil
  then show ?case by simp
next
  case (Cons x xs)
  have "poke u (va + 1) xs (m(the (u va) := x)) y = (m(the (u va) := x)) y"
    by (rule Cons.IH) (use Cons.prems [of "Suc i" for i] in \<open>simp add: add.assoc\<close>)
  moreover have "the (u va) \<noteq> y" using Cons.prems [of 0] by auto
  ultimately show ?case by simp
qed

lemma copyout_ok:
  assumes "pt_ok (ptes s) pt"
  shows "\<exists>r j. copyout pt va src s = Ok r (s\<lparr>bytes := poke (uaddr (ptes s) pt uwritable) va (take j src) (bytes s)\<rparr>) \<and>
    (\<forall>i < j. uaddr (ptes s) pt uwritable (va + of_nat i) \<noteq> None) \<and>
    (r = 0 \<and> j = length src \<or> r = - 1 \<and> j < length src \<and> uaddr (ptes s) pt uwritable (va + of_nat j) = None)"
  using assms
proof (induction "length src" arbitrary: va src s rule: less_induct)
  case less
  note assms = less.prems
  show ?case
  proof (cases "src = []")
    case True
    then show ?thesis by (auto simp: copyout.simps intro!: exI [of _ 0])
  next
    case False
    let ?va0 = "PGROUNDDOWN va" and ?n = "page_rest va (length src)" and ?u = "uaddr (ptes s) pt uwritable"
    consider e where "va < MAXVA" "amap (ptes s) pt (vpn va) = Some e" "uwritable e" "?u ?va0 \<noteq> None"
        "copyout pt va src s = copyout pt (?va0 + PGSIZE) (drop ?n src)
           (on_bytes (put_bytes (uint (PTE2PA e + (va - ?va0))) (take ?n src)) s)"
      | "copyout pt va src s = Ok (- 1) s" "?u ?va0 = None"
    proof (cases "?va0 < MAXVA")
      case True
      from walk_valid [OF assms True] obtain a where a: "walk pt ?va0 False s = Ok a s"
        "a \<noteq> 0 \<and> has (ptes s a) PTE_V \<and> amap (ptes s) pt (vpn ?va0) = Some (ptes s a) \<or>
         (a = 0 \<or> \<not> has (ptes s a) PTE_V) \<and> amap (ptes s) pt (vpn ?va0) = None" by blast
      show ?thesis
      proof (cases "a \<noteq> 0 \<and> has (ptes s a) PTE_V \<and> uwritable (ptes s a)")
        case ok: True
        then have am: "amap (ptes s) pt (vpn ?va0) = Some (ptes s a)" using a(2) by blast
        show ?thesis
        proof (rule that(1) [of "ptes s a"])
          show "va < MAXVA" "amap (ptes s) pt (vpn va) = Some (ptes s a)" "uwritable (ptes s a)"
            using True am ok by (simp_all add: down_off(3,4))
          show "?u ?va0 \<noteq> None" using True am ok by (simp add: uaddr_def)
          show "copyout pt va src s = copyout pt (?va0 + PGSIZE) (drop ?n src)
           (on_bytes (put_bytes (uint (PTE2PA (ptes s a) + (va - ?va0))) (take ?n src)) s)"
            using a(1) False True ok by (simp add: copyout.simps [of pt va src] uwritable_def Let_def not_le [symmetric])
        qed
      next
        case bad: False
        then have "?u ?va0 = None" using a(2) by (auto simp: uaddr_def)
        moreover have "copyout pt va src s = Ok (- 1) s"
          using a(1) bad False True by (auto simp: copyout.simps [of pt va src] uwritable_def Let_def not_le)
        ultimately show ?thesis using that(2) by blast
      qed
    next
      case big: False
      have "?u ?va0 = None" using big by (simp add: uaddr_def)
      moreover have "copyout pt va src s = Ok (- 1) s"
        using big False by (simp add: copyout.simps [of pt va src] not_less)
      ultimately show ?thesis using that(2) by blast
    qed
    then show ?thesis
    proof cases
      case 2
      have e: "s\<lparr>bytes := bytes s\<rparr> = s" by simp
      show ?thesis using 2 uaddr_None_page [OF 2(2)] False by (intro exI [of _ "- 1"] exI [of _ 0]) (simp add: e)
    next
      case 1
      let ?w = "poke ?u va (take ?n src) (bytes s)"
      have n: "0 < ?n" "?n \<le> length src" "?n \<le> 4096 - unat va mod 4096"
        using page_rest_pos [of "length src" va] page_rest_le [of va "length src"] False by (simp_all add: page_rest_eq)
      have ch: "?u (va + of_nat i) = Some (uint (PTE2PA e + (va - ?va0)) + int i)" if "i < ?n" for i
        using uaddr_in_page [of va "ptes s" pt e uwritable, OF 1(1-3), of i] that n(3) by simp
      have "put_bytes (uint (PTE2PA e + (va - ?va0))) (take ?n src) (bytes s) = ?w"
        by (rule poke_put_bytes [symmetric]) (use ch n(2) in simp)
      then have st: "copyout pt va src s = copyout pt (?va0 + PGSIZE) (drop ?n src) (s\<lparr>bytes := ?w\<rparr>)"
        using 1(5) by (simp add: on_bytes_def)
      have "length (drop ?n src) < length src" using n(1) False by simp
      from less.hyps [OF this, of "s\<lparr>bytes := ?w\<rparr>" "?va0 + PGSIZE"] assms obtain r j where
        r: "copyout pt (?va0 + PGSIZE) (drop ?n src) (s\<lparr>bytes := ?w\<rparr>) =
            Ok r (s\<lparr>bytes := poke ?u (?va0 + PGSIZE) (take j (drop ?n src)) ?w\<rparr>)"
          "\<forall>i < j. ?u (?va0 + PGSIZE + of_nat i) \<noteq> None"
          "r = 0 \<and> j = length (drop ?n src) \<or> r = - 1 \<and> j < length (drop ?n src) \<and> ?u (?va0 + PGSIZE + of_nat j) = None"
        by auto
      have sh: "?va0 + PGSIZE = va + of_nat ?n" if "?n < length src" using next_page [OF that] .
      have "poke ?u (?va0 + PGSIZE) (take j (drop ?n src)) ?w = poke ?u va (take (?n + j) src) (bytes s)"
      proof (cases "?n < length src")
        case True
        then show ?thesis using n(2) by (simp add: take_add poke_append sh)
      next
        case False
        then show ?thesis using n(2) by simp
      qed
      moreover have "\<forall>i < ?n + j. ?u (va + of_nat i) \<noteq> None"
      proof (intro allI impI)
        fix i assume i: "i < ?n + j"
        show "?u (va + of_nat i) \<noteq> None"
        proof (cases "i < ?n")
          case True
          then show ?thesis using ch by simp
        next
          case ge: False
          then obtain k where k: "i = ?n + k" by (metis le_iff_add not_less)
          then have "k < j" "?n < length src" using i r(3) by auto
          with r(2) show ?thesis by (simp add: sh k add.assoc)
        qed
      qed
      moreover have "r = 0 \<and> ?n + j = length src \<or> r = - 1 \<and> ?n + j < length src \<and> ?u (va + of_nat (?n + j)) = None"
      proof (cases "?n < length src")
        case True
        with r(3) show ?thesis unfolding sh [OF True] by (auto simp: add.assoc)
      next
        case False
        with r(3) n(2) show ?thesis by simp
      qed
      ultimately show ?thesis using st r(1) by (intro exI [of _ r] exI [of _ "?n + j"]) simp
    qed
  qed
qed

lemma poke_same:
  assumes "\<And>i j. i < length xs \<Longrightarrow> j < length xs \<Longrightarrow> i \<noteq> j \<Longrightarrow> u (va + of_nat i) \<noteq> u (va + of_nat j)"
    and "\<And>i. i < length xs \<Longrightarrow> u (va + of_nat i) \<noteq> None" and "i < length xs"
  shows "poke u va xs m (the (u (va + of_nat i))) = xs ! i"
proof -
  let ?a = "the (u (va + of_nat i))"
  have a: "u (va + of_nat i) = Some ?a" using assms(2,3) by auto
  have x: "xs = take i xs @ xs ! i # drop (Suc i) xs" using assms(3) by (simp add: id_take_nth_drop)
  have "poke u (va + of_nat i + 1) (drop (Suc i) xs) m' ?a = m' ?a" for m'
  proof (rule poke_other)
    fix k assume "k < length (drop (Suc i) xs)"
    then have k: "Suc i + k < length xs" by simp
    have e: "va + of_nat i + 1 + of_nat k = va + of_nat (Suc i + k)" by (simp add: algebra_simps)
    have "u (va + of_nat (Suc i + k)) \<noteq> u (va + of_nat i)" using assms(1) [OF k assms(3)] by simp
    then show "u (va + of_nat i + 1 + of_nat k) \<noteq> Some ?a \<and> u (va + of_nat i + 1 + of_nat k) \<noteq> None"
      unfolding e a [symmetric] using assms(2) [OF k] by blast
  qed
  then show ?thesis using assms(3) by (subst x) (simp add: poke_append)
qed

text \<open>Distinct user pages are in distinct frames, and none is in frame 0.\<close>

definition frames_ok :: "(addr \<Rightarrow> u64) \<Rightarrow> addr \<Rightarrow> bool" where
  "frames_ok m pt \<longleftrightarrow> (\<forall>n e. amap m pt n = Some e \<longrightarrow> PTE2PA e \<noteq> 0) \<and>
     (\<forall>n n' e e'. amap m pt n = Some e \<longrightarrow> amap m pt n' = Some e' \<longrightarrow> PTE2PA e = PTE2PA e' \<longrightarrow> n = n')"

lemma PTE2PA_aligned: "uint (PTE2PA e) mod 4096 = 0"
proof -
  have "PTE2PA e = PGROUNDDOWN (PTE2PA e)"
    unfolding PGROUNDDOWN_def and_pg_mask PTE2PA_def
    by (rule bit_word_eqI) (auto simp: bit_push_bit_iff bit_drop_bit_eq)
  then have "unat (PTE2PA e) mod 4096 = 0" by (metis unat_PGROUNDDOWN mod_mult_self2_is_0)
  then have "int (unat (PTE2PA e) mod 4096) = 0" by simp
  then show ?thesis by (simp add: zmod_int)
qed

lemma uaddr_inj:
  assumes "frames_ok m pt" and "uaddr m pt ok va = Some a" and "uaddr m pt ok vb = Some a"
  shows "va = vb"
proof -
  from assms(2,3) obtain e f where e: "amap m pt (vpn va) = Some e" "a = uint (PTE2PA e) + int (unat va mod 4096)"
      "amap m pt (vpn vb) = Some f" "a = uint (PTE2PA f) + int (unat vb mod 4096)"
    by (auto simp: uaddr_def split: if_splits option.splits)
  obtain c d where c: "uint (PTE2PA e) = 4096 * c" "uint (PTE2PA f) = 4096 * d"
    using PTE2PA_aligned [of e] PTE2PA_aligned [of f] by (auto simp: mod_eq_0_iff_dvd dvd_def)
  have b: "unat va mod 4096 < 4096" "unat vb mod 4096 < 4096" by simp_all
  have eq: "4096 * c + int (unat va mod 4096) = 4096 * d + int (unat vb mod 4096)" using e(2,4) c by simp
  then have cd: "c = d" using b by linarith
  then have "PTE2PA e = PTE2PA f" using c by (simp add: word_uint_eq_iff)
  then have "vpn va = vpn vb" using assms(1) e(1,3) unfolding frames_ok_def by blast
  moreover have "unat va mod 4096 = unat vb mod 4096" using eq cd by simp
  ultimately have "unat va = unat vb" unfolding vpn_def by (metis div_mult_mod_eq)
  then show ?thesis by (simp only: word_unat_eq_iff)
qed

lemma uaddr_read_write:
  assumes "frames_ok m pt" and "uaddr m pt uwritable va = Some a"
  shows "uaddr m pt ureadable va = Some a"
  using assms by (auto simp: uaddr_def uwritable_def ureadable_def frames_ok_def split: if_splits option.splits)

text \<open>
  C26. What \<open>copyout\<close> has written to user memory \<open>copyin\<close> reads back, wherever the range starts and however many
  pages it crosses, when no two user pages share a frame.
\<close>

theorem copyout_copyin_roundtrip:
  assumes "pt_ok (ptes s) pt" and fr: "frames_ok (ptes s) pt" and out: "copyout pt va xs s = Ok 0 t" and len: "length xs < 2 ^ 64"
  shows "copyin pt va (length xs) [] t = Ok (0, xs) t"
proof -
  let ?w = "uaddr (ptes s) pt uwritable" and ?r = "uaddr (ptes s) pt ureadable"
  from copyout_ok [OF assms(1), of va xs] out have
    t: "t = s\<lparr>bytes := poke ?w va xs (bytes s)\<rparr>" and w: "\<And>i. i < length xs \<Longrightarrow> ?w (va + of_nat i) \<noteq> None" by auto
  have r: "?r (va + of_nat i) = ?w (va + of_nat i)" if "i < length xs" for i
    using uaddr_read_write [OF fr] w [OF that] by auto
  have d: "?w (va + of_nat i) \<noteq> ?w (va + of_nat j)" if "i < length xs" "j < length xs" "i \<noteq> j" for i j
  proof
    assume e: "?w (va + of_nat i) = ?w (va + of_nat j)"
    have "?w (va + of_nat i) \<noteq> None" using w that(1) by blast
    then obtain a where a: "?w (va + of_nat i) = Some a" by auto
    have "va + of_nat i = va + of_nat j" using uaddr_inj [OF fr a] a e by metis
    then have "(of_nat i :: u64) = of_nat j" by simp
    then have "unat (of_nat i :: u64) = unat (of_nat j :: u64)" by simp
    then show False using that len by (simp add: unat_of_nat)
  qed
  have ok: "pt_ok (ptes t) pt" using assms(1) by (simp add: t)
  from copyin_ok [OF ok, of va "length xs" "[]"] obtain q ys where
    y: "copyin pt va (length xs) [] t = Ok (q, ys) t"
      "\<forall>i < length ys. \<exists>a. ?r (va + of_nat i) = Some a \<and> ys ! i = bytes t a"
      "q = 0 \<and> length ys = length xs \<or> q = - 1 \<and> length ys < length xs \<and> ?r (va + of_nat (length ys)) = None"
    by (auto simp: t)
  have l: "q = 0" "length ys = length xs" using y(3) r [of "length ys"] w [of "length ys"] by auto
  have "ys = xs"
  proof (rule nth_equalityI [OF l(2)])
    fix i assume i: "i < length ys"
    then obtain a where a: "?r (va + of_nat i) = Some a" "ys ! i = bytes t a" using y(2) by blast
    with poke_same [of xs ?w va i "bytes s", OF d w] r i l(2) show "ys ! i = xs ! i" by (simp add: t)
  qed
  with y(1) l show ?thesis by simp
qed

text \<open>A page table with one user page: virtual page 0 in frame \<open>0x5000\<close>.\<close>

definition ex_ptes :: "addr \<Rightarrow> u64" where
  "ex_ptes = (with_table 0x3000 0x2000 (with_table 0x2000 0x1000 (\<lambda>_. 0)))(0x3000 := PA2PTE 0x5000 OR PTE_V OR PTE_R OR PTE_W OR PTE_U)"

definition ex_vm :: kvm where
  "ex_vm = (raw_vm full_heap)\<lparr>ptes := ex_ptes\<rparr>"

lemma ex_ptes_ok: "pt_ok ex_ptes 0x1000" "amap ex_ptes 0x1000 = [0 \<mapsto> PA2PTE 0x5000 OR PTE_V OR PTE_R OR PTE_W OR PTE_U]"
proof -
  let ?m0 = "\<lambda>_ :: addr. 0 :: u64" and ?e = "PA2PTE 0x5000 OR PTE_V OR PTE_R OR PTE_W OR PTE_U"
  let ?m1 = "with_table 0x2000 0x1000 ?m0" let ?m2 = "with_table 0x3000 0x2000 ?m1"
  have p: "pageaddr 0x1000" "pageaddr 0x2000" "pageaddr 0x3000" by (simp_all add: pageaddr_def)
  note Z = zero_table [OF p(1), of ?m0, OF refl]
  note W1 = with_table_ok [OF Z(2), of 0 0 "0x1000" 0 "0x2000"] tab_with_table [OF Z(2), of 0 0 "0x1000" 0 "0x2000"]
  have t1: "tables ?m1 0x1000 = {0x2000, 0x1000}" "pt_ok ?m1 0x1000" "amap ?m1 0x1000 = Map.empty"
    "tab ?m1 0x1000 1 0 = Some 0x2000" using W1 p Z by simp_all
  have z: "\<not> has (?m1 (0x2000 + 8 * int 0)) PTE_V" by (simp add: with_table_def)
  note W2 = with_table_ok [OF t1(2,4) _ _ z p(3)] tab_with_table [OF t1(2,4) _ _ z p(3), of 2 0]
  have t2: "pt_ok ?m2 0x1000" "amap ?m2 0x1000 = Map.empty" "tab ?m2 0x1000 2 0 = Some 0x3000"
    using W2 t1 by (simp_all add: numeral_2_eq_2)
  then have l: "leaf ?m2 0x1000 0 = Some 0x3000" by (simp add: leaf_def)
  have h: "has ?e PTE_V" unfolding PTE_V_bit by (simp add: bit_or_iff PTE_V_def)
  show "pt_ok ex_ptes 0x1000" "amap ex_ptes 0x1000 = [0 \<mapsto> ?e]"
    using set_leaf(3,5) [OF t2(1) l, of ?e] t2(2) h by (simp_all add: ex_ptes_def)
qed

lemma ex_frames_ok: "frames_ok ex_ptes 0x1000"
  by (auto simp: frames_ok_def ex_ptes_ok PTE2PA_def PA2PTE_def PTE_V_def PTE_R_def PTE_W_def PTE_U_def split: if_splits)

lemma ex_uaddr:
  assumes "unat va < 4096" and "ok (PA2PTE 0x5000 OR PTE_V OR PTE_R OR PTE_W OR PTE_U)"
  shows "uaddr ex_ptes 0x1000 ok va = Some (0x5000 + int (unat va))"
proof -
  have "va < MAXVA" using assms(1) by (simp add: less_MAXVA [symmetric])
  moreover have "uint (PTE2PA (PA2PTE 0x5000 OR PTE_V OR PTE_R OR PTE_W OR PTE_U)) = 0x5000"
    by (simp add: PTE2PA_def PA2PTE_def PTE_V_def PTE_R_def PTE_W_def PTE_U_def)
  ultimately show ?thesis using assms by (simp add: uaddr_def vpn_def ex_ptes_ok)
qed

lemma ex_perms: "ureadable (PA2PTE 0x5000 OR PTE_V OR PTE_R OR PTE_W OR PTE_U)"
  "uwritable (PA2PTE 0x5000 OR PTE_V OR PTE_R OR PTE_W OR PTE_U)"
  by (simp_all add: ureadable_def uwritable_def has_def PTE2PA_def PA2PTE_def PTE_V_def PTE_R_def PTE_W_def PTE_U_def)

theorem copyout_copyin_roundtrip_witness:
  "\<exists>t. copyout 0x1000 0x10 [7, 8, 9] ex_vm = Ok 0 t \<and> copyin 0x1000 0x10 3 [] t = Ok (0, [7, 8, 9]) t"
proof -
  have ok: "pt_ok (ptes ex_vm) 0x1000" "frames_ok (ptes ex_vm) 0x1000" using ex_ptes_ok ex_frames_ok by (simp_all add: ex_vm_def)
  have u: "uaddr (ptes ex_vm) 0x1000 uwritable (0x10 + of_nat i) \<noteq> None" if "i < 3" for i
  proof -
    have "unat (0x10 + of_nat i :: u64) < 4096" using that by (simp add: unat_word_ariths unat_of_nat)
    from ex_uaddr [OF this, of uwritable] ex_perms show ?thesis by (simp add: ex_vm_def)
  qed
  have l: "length [7, 8, 9 :: u8] = 3" by simp
  from copyout_ok [OF ok(1), of "0x10" "[7, 8, 9]"] u obtain t where t: "copyout 0x1000 0x10 [7, 8, 9] ex_vm = Ok 0 t"
    unfolding l by metis
  from copyout_copyin_roundtrip [OF ok t] t show ?thesis unfolding l by simp
qed

text \<open>
  C27. \<open>copyout\<close> is confined: whatever address a user program passes, it returns 0 or -1 without panicking, returns 0
  exactly when every byte of the range is mapped user-writable, and changes no memory but bytes that the page table
  maps user-writable at an address of the range.
\<close>

theorem copyout_confined:
  assumes "pt_ok (ptes s) pt"
  shows "\<exists>r m. copyout pt va src s = Ok r (s\<lparr>bytes := m\<rparr>) \<and>
    (r = 0 \<and> (\<forall>i < length src. uaddr (ptes s) pt uwritable (va + of_nat i) \<noteq> None) \<or>
     r = - 1 \<and> (\<exists>i < length src. uaddr (ptes s) pt uwritable (va + of_nat i) = None)) \<and>
    (\<forall>y. (\<forall>i < length src. uaddr (ptes s) pt uwritable (va + of_nat i) \<noteq> Some y) \<longrightarrow> m y = bytes s y)"
proof -
  let ?u = "uaddr (ptes s) pt uwritable"
  from copyout_ok [OF assms, of va src] obtain r j where
    r: "copyout pt va src s = Ok r (s\<lparr>bytes := poke ?u va (take j src) (bytes s)\<rparr>)"
      "\<forall>i < j. ?u (va + of_nat i) \<noteq> None"
      "r = 0 \<and> j = length src \<or> r = - 1 \<and> j < length src \<and> ?u (va + of_nat j) = None" by blast
  have "poke ?u va (take j src) (bytes s) y = bytes s y" if "\<forall>i < length src. ?u (va + of_nat i) \<noteq> Some y" for y
    by (rule poke_other) (use that r(2,3) in auto)
  with r show ?thesis by (intro exI [of _ r] exI [of _ "poke ?u va (take j src) (bytes s)"]) auto
qed

theorem copyout_confined_witness:
  "\<exists>r m. copyout 0x1000 0x2000 [1, 2] ex_vm = Ok r (ex_vm\<lparr>bytes := m\<rparr>) \<and> r = - 1 \<and> m 0x5000 = 0"
proof -
  have ok: "pt_ok (ptes ex_vm) 0x1000" using ex_ptes_ok by (simp add: ex_vm_def)
  have n: "uaddr (ptes ex_vm) 0x1000 uwritable (0x2000 + of_nat i) = None" if "i < 2" for i
  proof -
    have "vpn (0x2000 + of_nat i) = 2" using that by (simp add: vpn_def unat_word_ariths unat_of_nat)
    then show ?thesis by (simp add: uaddr_def ex_vm_def ex_ptes_ok)
  qed
  have l: "length [1, 2 :: u8] = 2" by simp
  from copyout_confined [OF ok, of "0x2000" "[1, 2]"] n show ?thesis unfolding l by (force simp: ex_vm_def raw_vm_def)
qed

text \<open>
  C28. \<open>copyin\<close> reads exactly the user's bytes: it never panics and changes nothing; when every byte of the range is
  mapped user-readable it returns 0 with the bytes at those addresses, in order, and otherwise -1.
\<close>

theorem copyin_exact:
  assumes "pt_ok (ptes s) pt"
  shows "\<exists>r xs. copyin pt va len [] s = Ok (r, xs) s \<and>
    (r = 0 \<and> map Some xs = map (\<lambda>i. map_option (bytes s) (uaddr (ptes s) pt ureadable (va + of_nat i))) [0..<len] \<or>
     r = - 1 \<and> (\<exists>i < len. uaddr (ptes s) pt ureadable (va + of_nat i) = None))"
proof -
  let ?u = "uaddr (ptes s) pt ureadable"
  from copyin_ok [OF assms, of va len "[]"] obtain r xs where
    r: "copyin pt va len [] s = Ok (r, xs) s" "\<forall>i < length xs. \<exists>a. ?u (va + of_nat i) = Some a \<and> xs ! i = bytes s a"
      "r = 0 \<and> length xs = len \<or> r = - 1 \<and> length xs < len \<and> ?u (va + of_nat (length xs)) = None" by auto
  have "map Some xs = map (\<lambda>i. map_option (bytes s) (?u (va + of_nat i))) [0..<length xs]"
    by (rule nth_equalityI) (use r(2) in auto)
  with r show ?thesis by (intro exI [of _ r] exI [of _ xs]) auto
qed

theorem copyin_exact_witness:
  "\<exists>r xs. copyin 0x1000 0xFFE 2 [] ex_vm = Ok (r, xs) ex_vm \<and> r = 0 \<and> xs = [0, 0]"
proof -
  have ok: "pt_ok (ptes ex_vm) 0x1000" using ex_ptes_ok by (simp add: ex_vm_def)
  have u: "uaddr (ptes ex_vm) 0x1000 ureadable (0xFFE + of_nat i) = Some (0x5FFE + int i)" if "i < 2" for i
  proof -
    have v: "unat (0xFFE + of_nat i :: u64) = 0xFFE + i" using that by (simp add: unat_word_ariths unat_of_nat)
    with ex_uaddr [of "0xFFE + of_nat i" ureadable] ex_perms that show ?thesis by (simp add: ex_vm_def)
  qed
  have two: "[0..<2] = [0, 1 :: nat]" by (simp add: upt_rec)
  have z: "bytes ex_vm = (\<lambda>_. 0)" by (simp add: ex_vm_def raw_vm_def)
  from copyin_exact [OF ok, of "0xFFE" 2] obtain r xs where
    r: "copyin 0x1000 0xFFE 2 [] ex_vm = Ok (r, xs) ex_vm" and
    "r = 0 \<and> map Some xs = map (\<lambda>i. map_option (bytes ex_vm) (uaddr (ptes ex_vm) 0x1000 ureadable (0xFFE + of_nat i))) [0..<2] \<or>
     r = - 1 \<and> (\<exists>i < 2. uaddr (ptes ex_vm) 0x1000 ureadable (0xFFE + of_nat i) = None)" by blast
  then have "r = 0" "map Some xs = [Some 0, Some 0]" using u [of 0] u [of 1] u unfolding two z by auto
  then show ?thesis using r by auto
qed

end
