(* ===== verification/Uspace.thy ===== *)
theory Uspace
  imports Ptable
begin

text \<open>
  User address spaces as a whole: an invariant of a page table and the pages it uses, and what \<open>uvmunmap\<close>, \<open>uvmdealloc\<close>,
  \<open>uvmalloc\<close>, \<open>uvmcopy\<close> and \<open>uvmfree\<close> do to it.
\<close>

section \<open>Unmapping pages\<close>

text \<open>
  \<open>vsame pt s t\<close>: from \<open>s\<close> to \<open>t\<close> the page table \<open>pt\<close> has kept its table pages, and no word outside them changed.
\<close>

definition vsame :: "addr \<Rightarrow> 'z kvm_scheme \<Rightarrow> 'z kvm_scheme \<Rightarrow> bool" where
  "vsame pt s t \<longleftrightarrow> pt_ok (ptes t) pt \<and> tables (ptes t) pt = tables (ptes s) pt \<and> same_but_ptes s t \<and>
     (\<forall>a. (\<forall>u \<in> tables (ptes s) pt. \<not> (u \<le> a \<and> a < u + 4096)) \<longrightarrow> ptes t a = ptes s a)"

definition frame :: "u64 \<Rightarrow> addr" where
  "frame e = uint (PTE2PA e)"

lemma vsame_refl: "pt_ok (ptes s) pt \<Longrightarrow> vsame pt s s"
  by (simp add: vsame_def same_but_ptes_refl)

lemma vsame_trans: "vsame pt s t \<Longrightarrow> vsame pt t u \<Longrightarrow> vsame pt s u"
  unfolding vsame_def using same_but_ptes_trans by (metis (no_types, lifting))

lemma vext_vsame: "vext pt A s A t \<Longrightarrow> vsame pt s t"
  by (auto simp: vext_def vsame_def)

lemma same_but_ptes_calm: "same_but_ptes s (s\<lparr>spin := calm (spin s), buddy := b\<rparr>)"
  unfolding same_but_ptes_def by (rule exI [of _ "calm (spin s)"], rule exI [of _ b], rule exI [of _ "ptes s"]) simp

lemma kfree_vsame:
  assumes "pages s A" and "x \<in> A" and "pt_ok (ptes s) pt"
  obtains t where "kfree x s = Ok () t" "pages t (A - {x})" "vsame pt s t" "ptes t = ptes s"
proof -
  from kfree_pages [OF assms(1,2)] obtain b where b: "kfree x s = Ok () (s\<lparr>spin := calm (spin s), buddy := b\<rparr>)"
    "pages (s\<lparr>spin := calm (spin s), buddy := b\<rparr>) (A - {x})" by blast
  have "vsame pt s (s\<lparr>spin := calm (spin s), buddy := b\<rparr>)" using assms(3) same_but_ptes_calm by (simp add: vsame_def)
  from that [OF b this] show ?thesis by simp
qed

definition unmaprange :: "nat \<Rightarrow> nat \<Rightarrow> (nat \<Rightarrow> u64 option) \<Rightarrow> nat \<Rightarrow> u64 option" where
  "unmaprange v n M = (\<lambda>k. if v \<le> k \<and> k < v + n then None else M k)"

lemma unmaprange_Suc: "unmaprange (Suc v) n (M(v := None)) = unmaprange v (Suc n) M"
  by (auto simp: unmaprange_def fun_eq_iff)

text \<open>The frames of the pages from \<open>v\<close> on.\<close>

definition frames :: "(nat \<Rightarrow> u64 option) \<Rightarrow> nat \<Rightarrow> nat \<Rightarrow> addr set" where
  "frames M v n = (\<Union>k \<in> {v..<v + n}. frame ` set_option (M k))"

lemma frames_0 [simp]: "frames M v 0 = {}"
  by (simp add: frames_def)

lemma frames_Suc: "M v = Some e \<Longrightarrow> frames M v (Suc n) = insert (frame e) (frames M (Suc v) n)"
proof -
  have "{v..<v + Suc n} = insert v {Suc v..<Suc v + n}" by auto
  then show "M v = Some e \<Longrightarrow> ?thesis" by (simp add: frames_def)
qed

lemma frames_upd: "k < v \<Longrightarrow> frames (M(k := x)) v n = frames M v n"
  by (auto simp: frames_def)

lemma unmap_loop_ok:
  assumes "pages s A" and "pt_ok (ptes s) pt" and "tables (ptes s) pt \<subseteq> A" and "unat a + 4096 * n \<le> 2 ^ 38"
    and "lim = a + of_nat n * PGSIZE"
    and "\<And>k. k < n \<Longrightarrow> \<exists>e. amap (ptes s) pt (vpn a + k) = Some e \<and> PTE_FLAGS e \<noteq> PTE_V \<and>
      (do_free \<longrightarrow> frame e \<in> A \<and> frame e \<notin> tables (ptes s) pt)"
    and "\<And>k j e. do_free \<Longrightarrow> k < n \<Longrightarrow> j < n \<Longrightarrow> amap (ptes s) pt (vpn a + k) = Some e \<Longrightarrow>
      (\<exists>e'. amap (ptes s) pt (vpn a + j) = Some e' \<and> frame e' = frame e) \<Longrightarrow> j = k"
  shows "\<exists>t. uvmunmap_loop n pt a lim do_free s = Ok () t \<and> vsame pt s t \<and>
    pages t (if do_free then A - frames (amap (ptes s) pt) (vpn a) n else A) \<and>
    amap (ptes t) pt = unmaprange (vpn a) n (amap (ptes s) pt)"
  using assms
proof (induction n arbitrary: a s A)
  case (0 a s A)
  moreover have "unmaprange v 0 M = M" for v M by (auto simp: unmaprange_def fun_eq_iff)
  ultimately show ?case using vsame_refl [OF 0(2)] by simp
next
  case (Suc n a s A)
  have va: "a < MAXVA" using Suc.prems(4) by (simp add: less_MAXVA [symmetric])
  from Suc.prems(6) [of 0] obtain e where e: "amap (ptes s) pt (vpn a) = Some e" "PTE_FLAGS e \<noteq> PTE_V"
    "do_free \<Longrightarrow> frame e \<in> A \<and> frame e \<notin> tables (ptes s) pt" by auto
  from walk_read [OF va, of pt s] e(1) leaf_nonzero [OF Suc.prems(2), of "vpn a"] obtain l where
    l: "walk pt a False s = Ok l s" "leaf (ptes s) pt (vpn a) = Some l" "l \<noteq> 0" "has (ptes s l) PTE_V" "ptes s l = e"
    by (auto simp: leaf_addr_def amap_def split: option.splits if_splits)
  have lt: "a < lim"
  proof -
    have "unat (of_nat (Suc n) * PGSIZE) = Suc n * 4096"
    proof -
      have "of_nat (Suc n) * PGSIZE = of_nat (Suc n * 4096)" by (simp add: PGSIZE_def algebra_simps)
      moreover have "Suc n * 4096 < 2 ^ LENGTH(64)" using Suc.prems(4) by simp
      ultimately show ?thesis by (simp only: unat_of_nat mod_less)
    qed
    then have "unat lim = unat a + Suc n * 4096" using Suc.prems(4,5) by (simp add: unat_word_ariths)
    then show ?thesis by (simp add: word_less_nat_alt)
  qed
  obtain u where u: "(if do_free then kfree (frame e) s else Ok () s) = Ok () u" "vsame pt s u" "ptes u = ptes s"
    "pages u (if do_free then A - {frame e} else A)"
  proof (cases do_free)
    case True
    then show ?thesis using kfree_vsame [OF Suc.prems(1) _ Suc.prems(2), of "frame e"] e(3) that by auto
  next
    case False
    then show ?thesis using that [of s] vsame_refl [OF Suc.prems(2)] Suc.prems(1) by simp
  qed
  let ?B = "if do_free then A - {frame e} else A"
  define w where "w = set_pte l 0 u"
  have ok: "pt_ok (ptes u) pt" "leaf (ptes u) pt (vpn a) = Some l" using u(3) Suc.prems(2) l(2) by simp_all
  note S = set_pte_vext [OF u(4) ok, of 0, folded w_def]
  have vw: "vsame pt s w" using vsame_trans [OF u(2) vext_vsame [OF S(1)]] .
  have am: "amap (ptes w) pt = (amap (ptes s) pt)(vpn a := None)" using S(2) u(3) by simp
  have st: "uvmunmap_loop (Suc n) pt a lim do_free s = uvmunmap_loop n pt (a + PGSIZE) lim do_free w"
    using lt l e(2) u(1) [unfolded frame_def] by (cases do_free) (simp_all add: w_def)
  have nx: "unat (a + PGSIZE) = unat a + 4096" "vpn (a + PGSIZE) = Suc (vpn a)"
    using vpn_next [of a] Suc.prems(4) by simp_all
  have tb: "tables (ptes w) pt = tables (ptes s) pt" using vw by (simp add: vsame_def)
  have IH: "\<exists>t. uvmunmap_loop n pt (a + PGSIZE) lim do_free w = Ok () t \<and> vsame pt w t \<and>
    pages t (if do_free then ?B - frames (amap (ptes w) pt) (vpn (a + PGSIZE)) n else ?B) \<and>
    amap (ptes t) pt = unmaprange (vpn (a + PGSIZE)) n (amap (ptes w) pt)"
  proof (rule Suc.IH)
    show "pages w ?B" "pt_ok (ptes w) pt" using S(1) by (simp_all add: vext_def)
    show "tables (ptes w) pt \<subseteq> ?B" unfolding tb using Suc.prems(3) e(3) by auto
    show "unat (a + PGSIZE) + 4096 * n \<le> 2 ^ 38" using Suc.prems(4) nx(1) by simp
    show "lim = a + PGSIZE + of_nat n * PGSIZE" using Suc.prems(5) by (simp add: algebra_simps)
    show "\<exists>e. amap (ptes w) pt (vpn (a + PGSIZE) + k) = Some e \<and> PTE_FLAGS e \<noteq> PTE_V \<and>
      (do_free \<longrightarrow> frame e \<in> ?B \<and> frame e \<notin> tables (ptes w) pt)" if k: "k < n" for k
    proof -
      from Suc.prems(6) [of "Suc k"] k obtain f where f: "amap (ptes s) pt (vpn a + Suc k) = Some f" "PTE_FLAGS f \<noteq> PTE_V"
        "do_free \<longrightarrow> frame f \<in> A \<and> frame f \<notin> tables (ptes s) pt" by auto
      have "frame f \<noteq> frame e" if do_free
        using Suc.prems(7) [OF that, of 0 "Suc k" e] e(1) f(1) k by auto
      with f show ?thesis by (simp add: am nx(2) tb)
    qed
    show "j = k" if "do_free" "k < n" "j < n" "amap (ptes w) pt (vpn (a + PGSIZE) + k) = Some f"
      "\<exists>e'. amap (ptes w) pt (vpn (a + PGSIZE) + j) = Some e' \<and> frame e' = frame f" for k j f
      using Suc.prems(7) [of "Suc k" "Suc j" f] that by (simp add: am nx(2))
  qed
  then obtain t where t: "uvmunmap_loop n pt (a + PGSIZE) lim do_free w = Ok () t" "vsame pt w t"
    "pages t (if do_free then ?B - frames (amap (ptes w) pt) (Suc (vpn a)) n else ?B)"
    "amap (ptes t) pt = unmaprange (vpn a) (Suc n) (amap (ptes s) pt)"
    unfolding nx(2) am unmaprange_Suc by blast
  have "pages t (if do_free then A - frames (amap (ptes s) pt) (vpn a) (Suc n) else A)"
    using t(3) unfolding am frames_Suc [of "amap (ptes s) pt" "vpn a" e, OF e(1)] by (simp add: frames_upd Diff_insert2 [symmetric] split: if_splits)
  then show ?case using st t(1,4) vsame_trans [OF vw t(2)] by auto
qed

section \<open>User address spaces\<close>

text \<open>
  \<open>uspace s pt n A\<close>: the page table \<open>pt\<close> is well-formed, its first \<open>n\<close> virtual pages are mapped to distinct pages in
  use that are not table pages, and nothing else is mapped below the trap frame. \<open>A\<close> are the pages in use.
\<close>

definition UTOP :: nat where "UTOP = 2 ^ 26 - 2"

definition npg :: "u64 \<Rightarrow> nat" where
  "npg sz = (unat sz + 4095) div 4096"

definition uspace :: "'z kvm_scheme \<Rightarrow> addr \<Rightarrow> nat \<Rightarrow> addr set \<Rightarrow> bool" where
  "uspace s pt n A \<longleftrightarrow> pages s A \<and> pt_ok (ptes s) pt \<and> tables (ptes s) pt \<subseteq> A \<and> n \<le> UTOP \<and>
     (\<forall>k < n. \<exists>e. amap (ptes s) pt k = Some e \<and> PTE_FLAGS e \<noteq> PTE_V \<and> frame e \<in> A \<and> frame e \<notin> tables (ptes s) pt) \<and>
     (\<forall>j < n. \<forall>k < n. \<forall>e f. amap (ptes s) pt j = Some e \<longrightarrow> amap (ptes s) pt k = Some f \<longrightarrow> frame e = frame f \<longrightarrow> j = k) \<and>
     (\<forall>k. n \<le> k \<longrightarrow> k < UTOP \<longrightarrow> amap (ptes s) pt k = None)"

lemma uspaceD:
  assumes "uspace s pt n A"
  shows "pages s A" "pt_ok (ptes s) pt" "tables (ptes s) pt \<subseteq> A" "n \<le> UTOP"
    and "k < n \<Longrightarrow> \<exists>e. amap (ptes s) pt k = Some e \<and> PTE_FLAGS e \<noteq> PTE_V \<and> frame e \<in> A \<and> frame e \<notin> tables (ptes s) pt"
    and "j < n \<Longrightarrow> k < n \<Longrightarrow> amap (ptes s) pt j = Some e \<Longrightarrow> amap (ptes s) pt k = Some f \<Longrightarrow> frame e = frame f \<Longrightarrow> j = k"
    and "n \<le> k \<Longrightarrow> k < UTOP \<Longrightarrow> amap (ptes s) pt k = None"
  using assms unfolding uspace_def by blast+

text \<open>
  \<open>ustep pt K s t\<close>: a routine on the address space \<open>pt\<close> takes the kernel from \<open>s\<close> to \<open>t\<close>. It may add table pages, from
  outside \<open>K\<close>, changes page table words only in the table pages, and keeps the contents of the pages in \<open>K\<close>.
\<close>

definition same_but_mem :: "'z kvm_scheme \<Rightarrow> 'z kvm_scheme \<Rightarrow> bool" where
  "same_but_mem s t \<longleftrightarrow> (\<exists>sp b m c. sp \<in> {spin s, calm (spin s)} \<and> t = s\<lparr>spin := sp, buddy := b, ptes := m, bytes := c\<rparr>)"

definition ustep :: "addr \<Rightarrow> addr set \<Rightarrow> 'z kvm_scheme \<Rightarrow> 'z kvm_scheme \<Rightarrow> bool" where
  "ustep pt K s t \<longleftrightarrow> same_but_mem s t \<and> tables (ptes s) pt \<subseteq> tables (ptes t) pt \<and>
     (tables (ptes t) pt - tables (ptes s) pt) \<inter> K = {} \<and>
     (\<forall>a. (\<forall>u \<in> tables (ptes t) pt. \<not> (u \<le> a \<and> a < u + 4096)) \<longrightarrow> ptes t a = ptes s a) \<and>
     (\<forall>x \<in> K. \<forall>y. x \<le> y \<longrightarrow> y < x + 4096 \<longrightarrow> bytes t y = bytes s y)"

lemma same_but_memI: "sp \<in> {spin s, calm (spin s)} \<Longrightarrow> same_but_mem s (s\<lparr>spin := sp, buddy := b, ptes := m, bytes := c\<rparr>)"
  unfolding same_but_mem_def by blast

lemma same_but_mem_trans:
  assumes "same_but_mem s t" and "same_but_mem t u"
  shows "same_but_mem s u"
proof -
  from assms(1) obtain sp b m c where t: "sp \<in> {spin s, calm (spin s)}" "t = s\<lparr>spin := sp, buddy := b, ptes := m, bytes := c\<rparr>"
    by (auto simp: same_but_mem_def)
  from assms(2) obtain sp' b' m' c' where u: "sp' \<in> {spin t, calm (spin t)}" "u = t\<lparr>spin := sp', buddy := b', ptes := m', bytes := c'\<rparr>"
    by (auto simp: same_but_mem_def)
  have "sp' \<in> {spin s, calm (spin s)}" "u = s\<lparr>spin := sp', buddy := b', ptes := m', bytes := c'\<rparr>" using t u by auto
  then show ?thesis unfolding same_but_mem_def by blast
qed

lemma same_but_ptes_mem: "same_but_ptes s t \<Longrightarrow> same_but_mem s t"
proof -
  assume "same_but_ptes s t"
  then obtain sp b m where t: "sp \<in> {spin s, calm (spin s)}" "t = s\<lparr>spin := sp, buddy := b, ptes := m\<rparr>"
    by (auto simp: same_but_ptes_def)
  then have "t = s\<lparr>spin := sp, buddy := b, ptes := m, bytes := bytes s\<rparr>" by simp
  with t(1) show ?thesis unfolding same_but_mem_def by blast
qed

lemma same_but_ptes_bytes: "same_but_ptes s t \<Longrightarrow> bytes t = bytes s"
  by (auto simp: same_but_ptes_def)

lemma ustep_trans:
  assumes 1: "ustep pt K s t" and 2: "ustep pt K t u"
  shows "ustep pt K s u"
proof -
  have "ptes u a = ptes s a" if "\<forall>v \<in> tables (ptes u) pt. \<not> (v \<le> a \<and> a < v + 4096)" for a
  proof -
    have "ptes u a = ptes t a" using 2 that by (simp add: ustep_def)
    moreover have "\<forall>v \<in> tables (ptes t) pt. \<not> (v \<le> a \<and> a < v + 4096)" using 2 that by (auto simp: ustep_def)
    then have "ptes t a = ptes s a" using 1 by (simp add: ustep_def)
    ultimately show ?thesis by simp
  qed
  moreover have "same_but_mem s u" using 1 2 same_but_mem_trans [of s t u] by (simp add: ustep_def)
  moreover have "tables (ptes s) pt \<subseteq> tables (ptes u) pt" "(tables (ptes u) pt - tables (ptes s) pt) \<inter> K = {}"
    using 1 2 by (auto simp: ustep_def)
  moreover have "\<forall>x \<in> K. \<forall>y. x \<le> y \<longrightarrow> y < x + 4096 \<longrightarrow> bytes u y = bytes s y" using 1 2 by (simp add: ustep_def)
  ultimately show ?thesis unfolding ustep_def by (intro conjI allI impI) simp_all
qed

lemma ustep_mono: "ustep pt K s t \<Longrightarrow> J \<subseteq> K \<Longrightarrow> ustep pt J s t"
  unfolding ustep_def by blast

lemma vext_ustep: "vext pt A s B t \<Longrightarrow> ustep pt A s t"
  using same_but_ptes_mem [of s t] same_but_ptes_bytes [of s t] by (auto simp: vext_def ustep_def)

lemma vsame_ustep: "vsame pt s t \<Longrightarrow> ustep pt K s t"
  using same_but_ptes_mem [of s t] same_but_ptes_bytes [of s t] by (auto simp: vsame_def ustep_def)

text \<open>Page tables elsewhere are not affected.\<close>

lemma amap_cong:
  assumes ok: "pt_ok m pt" and eq: "\<And>t j. t \<in> tables m pt \<Longrightarrow> j < 512 \<Longrightarrow> m' (t + 8 * int j) = m (t + 8 * int j)"
  shows "tables m' pt = tables m pt" and "amap m' pt = amap m pt" and "pt_ok m' pt"
proof -
  have T: "tab m' pt d q = tab m pt d q" if "d \<le> 2" for d q
    by (rule tab_cong) (use that eq tablesI in auto)
  show tb: "tables m' pt = tables m pt" by (simp add: tables_def T cong: conj_cong)
  have "inner_ok m' pt" using pt_okD(3) [OF ok] eq [OF tablesI] by (auto simp: inner_ok_def T)
  then show "pt_ok m' pt" using ok unfolding pt_ok_def tb by (simp add: T)
  show "amap m' pt = amap m pt"
  proof
    fix n
    show "amap m' pt n = amap m pt n"
      using eq [OF tablesI, of 2 "n div 512" _ "n mod 512"] by (auto simp: amap_def leaf_def T split: option.split)
  qed
qed

lemma ustep_other:
  assumes u: "ustep pt K s t" and ok: "pt_ok (ptes t) pt" "pt_ok (ptes s) pt'" and K: "tables (ptes s) pt' \<subseteq> K"
    and d: "tables (ptes s) pt' \<inter> tables (ptes s) pt = {}"
  shows "tables (ptes t) pt' = tables (ptes s) pt'" and "amap (ptes t) pt' = amap (ptes s) pt'" and "pt_ok (ptes t) pt'"
proof -
  have "ptes t (x + 8 * int j) = ptes s (x + 8 * int j)" if x: "x \<in> tables (ptes s) pt'" "j < 512" for x j
  proof -
    have "\<not> (v \<le> x + 8 * int j \<and> x + 8 * int j < v + 4096)" if v: "v \<in> tables (ptes t) pt" for v
    proof -
      have "pageaddr x" "pageaddr v" using x(1) v ok by (auto simp: pt_ok_def)
      moreover have "x \<noteq> v" using u d K x(1) v by (auto simp: ustep_def)
      ultimately show ?thesis using entry_page [of x v j] x(2) by simp
    qed
    then show ?thesis using u by (simp add: ustep_def)
  qed
  note C = amap_cong [OF ok(2), of "ptes t", OF this]
  from C show "tables (ptes t) pt' = tables (ptes s) pt'" "amap (ptes t) pt' = amap (ptes s) pt'" "pt_ok (ptes t) pt'" by auto
qed

lemma PGROUNDUP_npg:
  assumes "unat sz \<le> 4096 * UTOP"
  shows "unat (PGROUNDUP sz) = 4096 * npg sz" and "npg sz \<le> UTOP" and "unat sz \<le> 4096 * npg sz"
proof -
  have b: "unat sz + 4095 < 2 ^ 64" using assms by (simp add: UTOP_def)
  show "unat (PGROUNDUP sz) = 4096 * npg sz" unfolding unat_PGROUNDUP [OF b] npg_def by simp
  show "npg sz \<le> UTOP" using assms unfolding npg_def by simp
  show "unat sz \<le> 4096 * npg sz" unfolding npg_def by simp
qed

lemma npg_mono: "unat a \<le> unat b \<Longrightarrow> npg a \<le> npg b"
  unfolding npg_def by (intro div_le_mono) simp

lemma vpn_page: "unat va = 4096 * v \<Longrightarrow> vpn va = v \<and> va mod PGSIZE = 0"
proof
  assume u: "unat va = 4096 * v"
  then show "vpn va = v" by (simp add: vpn_def)
  have "unat (va mod PGSIZE) = unat va mod 4096" by (simp add: PGSIZE_def unat_mod_distrib)
  then show "va mod PGSIZE = 0" using u by (simp add: unat_eq_zero)
qed

lemma uvmunmap_ok:
  assumes us: "uspace s pt n A" and v: "unat va = 4096 * v" "v + unat np = n"
  shows "\<exists>t. uvmunmap pt va np True s = Ok () t \<and> vsame pt s t \<and>
    uspace t pt v (A - frames (amap (ptes s) pt) v (unat np)) \<and> amap (ptes t) pt = unmaprange v (unat np) (amap (ptes s) pt)"
proof -
  note D = uspaceD [OF us]
  have va: "vpn va = v" "va mod PGSIZE = 0" using vpn_page [OF v(1)] by auto
  have lim: "unat va + 4096 * unat np \<le> 2 ^ 38" using v D(4) by (simp add: UTOP_def)
  have "\<exists>t. uvmunmap_loop (unat np) pt va (va + np * PGSIZE) True s = Ok () t \<and> vsame pt s t \<and>
    pages t (if True then A - frames (amap (ptes s) pt) (vpn va) (unat np) else A) \<and>
    amap (ptes t) pt = unmaprange (vpn va) (unat np) (amap (ptes s) pt)"
  proof (rule unmap_loop_ok [OF D(1-3) lim])
    show "va + np * PGSIZE = va + of_nat (unat np) * PGSIZE" by simp
    show "\<exists>e. amap (ptes s) pt (vpn va + k) = Some e \<and> PTE_FLAGS e \<noteq> PTE_V \<and>
      (True \<longrightarrow> frame e \<in> A \<and> frame e \<notin> tables (ptes s) pt)" if "k < unat np" for k
      using D(5) [of "v + k"] that v(2) va(1) by simp
    show "j = k" if "k < unat np" "j < unat np" "amap (ptes s) pt (vpn va + k) = Some e"
      "\<exists>e'. amap (ptes s) pt (vpn va + j) = Some e' \<and> frame e' = frame e" for k j e
      using D(6) [of "v + j" "v + k" _ e] that v(2) va(1) by auto
  qed
  then obtain t where t: "uvmunmap pt va np True s = Ok () t" "vsame pt s t"
    "pages t (A - frames (amap (ptes s) pt) v (unat np))" "amap (ptes t) pt = unmaprange v (unat np) (amap (ptes s) pt)"
    using va by (auto simp: uvmunmap_def)
  let ?F = "frames (amap (ptes s) pt) v (unat np)"
  have tb: "tables (ptes t) pt = tables (ptes s) pt" "pt_ok (ptes t) pt" using t(2) by (simp_all add: vsame_def)
  have F: "x \<in> ?F \<Longrightarrow> \<exists>k e. v \<le> k \<and> k < n \<and> amap (ptes s) pt k = Some e \<and> x = frame e" for x
    using v(2) by (auto simp: frames_def)
  have "uspace t pt v (A - ?F)"
    unfolding uspace_def
  proof (intro conjI)
    show "tables (ptes t) pt \<subseteq> A - ?F"
    proof
      fix x assume x: "x \<in> tables (ptes t) pt"
      have "x \<notin> ?F"
      proof
        assume "x \<in> ?F"
        then obtain k e where "k < n" "amap (ptes s) pt k = Some e" "x = frame e" using F by blast
        then show False using D(5) [of k] x tb(1) by auto
      qed
      then show "x \<in> A - ?F" using x D(3) tb(1) by auto
    qed
    show "\<forall>k<v. \<exists>e. amap (ptes t) pt k = Some e \<and> PTE_FLAGS e \<noteq> PTE_V \<and> frame e \<in> A - ?F \<and> frame e \<notin> tables (ptes t) pt"
    proof (intro allI impI)
      fix k assume k: "k < v"
      then obtain e where e: "amap (ptes s) pt k = Some e" "PTE_FLAGS e \<noteq> PTE_V" "frame e \<in> A" "frame e \<notin> tables (ptes s) pt"
        using D(5) [of k] v(2) by auto
      have "frame e \<notin> ?F"
      proof
        assume "frame e \<in> ?F"
        then obtain j f where "v \<le> j" "j < n" "amap (ptes s) pt j = Some f" "frame e = frame f" using F by blast
        then show False using D(6) [of k j e f] e(1) k v(2) by auto
      qed
      with e k show "\<exists>e. amap (ptes t) pt k = Some e \<and> PTE_FLAGS e \<noteq> PTE_V \<and> frame e \<in> A - ?F \<and> frame e \<notin> tables (ptes t) pt"
        by (intro exI [of _ e]) (simp add: t(4) tb(1) unmaprange_def)
    qed
    show "\<forall>j<v. \<forall>k<v. \<forall>e f. amap (ptes t) pt j = Some e \<longrightarrow> amap (ptes t) pt k = Some f \<longrightarrow> frame e = frame f \<longrightarrow> j = k"
    proof (intro allI impI)
      fix j k e f
      assume "j < v" "k < v" "amap (ptes t) pt j = Some e" "amap (ptes t) pt k = Some f" "frame e = frame f"
      then show "j = k" using D(6) [of j k e f] v(2) by (simp add: t(4) unmaprange_def)
    qed
    show "\<forall>k. v \<le> k \<longrightarrow> k < UTOP \<longrightarrow> amap (ptes t) pt k = None"
      using D(7) v(2) by (auto simp: t(4) unmaprange_def)
    show "v \<le> UTOP" using D(4) v(2) by simp
  qed (use t(3) tb(2) in simp_all)
  with t show ?thesis by blast
qed

lemma uvmdealloc_ok:
  fixes newsz :: u64
  assumes us: "uspace s pt (npg oldsz) A" and sz: "unat oldsz \<le> 4096 * UTOP"
  defines "m \<equiv> if newsz < oldsz then npg newsz else npg oldsz"
  shows "\<exists>t. uvmdealloc pt oldsz newsz s = Ok (if newsz < oldsz then newsz else oldsz) t \<and> vsame pt s t \<and>
    uspace t pt m (A - frames (amap (ptes s) pt) m (npg oldsz - m)) \<and>
    amap (ptes t) pt = unmaprange m (npg oldsz - m) (amap (ptes s) pt)"
proof -
  have idle: "vsame pt s s" "unmaprange k 0 M = M" for k M
    using vsame_refl uspaceD(2) [OF us] by (auto simp: unmaprange_def fun_eq_iff)
  show ?thesis
  proof (cases "newsz < oldsz")
    case False
    then have "m = npg oldsz" "uvmdealloc pt oldsz newsz s = Ok oldsz s" by (auto simp: m_def uvmdealloc_def not_less)
    then show ?thesis using False us idle by simp
  next
    case True
    then have n: "unat newsz < unat oldsz" by (simp add: word_less_nat_alt)
    then have sz': "unat newsz \<le> 4096 * UTOP" using sz by simp
    note P = PGROUNDUP_npg [OF sz] and Q = PGROUNDUP_npg [OF sz']
    have m: "m = npg newsz" "m \<le> npg oldsz" using True npg_mono [of newsz oldsz] n by (simp_all add: m_def)
    show ?thesis
    proof (cases "PGROUNDUP newsz < PGROUNDUP oldsz")
      case False
      then have "npg newsz = npg oldsz" using P(1) Q(1) m by (simp add: word_less_nat_alt)
      moreover have "uvmdealloc pt oldsz newsz s = Ok newsz s" using True False by (auto simp: uvmdealloc_def not_le)
      ultimately show ?thesis using True m us idle by simp
    next
      case lt: True
      let ?d = "(PGROUNDUP oldsz - PGROUNDUP newsz) div PGSIZE"
      have "unat (PGROUNDUP oldsz - PGROUNDUP newsz) = 4096 * (npg oldsz - m)"
        using lt P(1) Q(1) m by (simp add: unat_sub_if_size word_less_nat_alt diff_mult_distrib2)
      then have d: "unat ?d = npg oldsz - m" by (simp add: PGSIZE_def unat_div_distrib)
      then have "uint ?d = int (npg oldsz - m)" by (metis uint_nat)
      moreover have "int (npg oldsz - m) < 2 ^ 31" using P(2) by (simp add: UTOP_def)
      ultimately have "s32 (uint ?d) = uint ?d" by (simp add: s32_nonneg)
      then have w: "word_of_int (s32 (uint ?d)) = ?d" by simp
      have "unat (PGROUNDUP newsz) = 4096 * m" "m + unat ?d = npg oldsz" using Q(1) m d by simp_all
      from uvmunmap_ok [OF us this] obtain t where t: "uvmunmap pt (PGROUNDUP newsz) ?d True s = Ok () t" "vsame pt s t"
        "uspace t pt m (A - frames (amap (ptes s) pt) m (npg oldsz - m))"
        "amap (ptes t) pt = unmaprange m (npg oldsz - m) (amap (ptes s) pt)" unfolding d by blast
      have "uvmdealloc pt oldsz newsz s = Ok newsz t" using True lt t(1) w by (auto simp: uvmdealloc_def not_le)
      then show ?thesis using True t by simp
    qed
  qed
qed

section \<open>Adding a page to an address space\<close>

lemma leaf_entry:
  assumes "pageaddr x" and "take_bit 10 perm = perm"
  shows "frame (PA2PTE (word_of_int x) OR perm OR PTE_V) = x" and "PTE_FLAGS (PA2PTE (word_of_int x) OR perm OR PTE_V) = perm OR PTE_V"
proof -
  have "take_bit 10 (perm OR PTE_V) = perm OR PTE_V" using assms(2) by (simp add: take_bit_or PTE_V_def)
  from pte_pack [OF pageaddr_word(2,3) [OF assms(1)] this] pageaddr_word(1) [OF assms(1)]
  show "frame (PA2PTE (word_of_int x) OR perm OR PTE_V) = x" "PTE_FLAGS (PA2PTE (word_of_int x) OR perm OR PTE_V) = perm OR PTE_V"
    by (simp_all add: frame_def)
qed

lemma uspace_more:
  assumes us: "uspace s pt v A" and t: "vext pt C u B t" "amap (ptes t) pt = amap (ptes s) pt"
    and C: "A \<subseteq> C" and tb: "tables (ptes u) pt = tables (ptes s) pt"
  shows "uspace t pt v B"
proof -
  note D = uspaceD [OF us]
  have T: "tables (ptes t) pt = tables (ptes s) pt \<union> (B - C)" "pages t B" "pt_ok (ptes t) pt" "C \<subseteq> B"
    using t(1) tb by (auto simp: vext_def)
  have "\<exists>e. amap (ptes t) pt k = Some e \<and> PTE_FLAGS e \<noteq> PTE_V \<and> frame e \<in> B \<and> frame e \<notin> tables (ptes t) pt" if "k < v" for k
    using D(5) [OF that] C T by (auto simp: t(2))
  moreover have "tables (ptes t) pt \<subseteq> B" using T C D(3) by auto
  ultimately show ?thesis using D(4,6,7) T(2,3) unfolding uspace_def t(2) by blast
qed

lemma add_page:
  assumes us: "uspace s pt v A" and v: "v < UTOP" "unat a = 4096 * v"
    and k: "s1 = s\<lparr>spin := calm (spin s), buddy := b\<rparr>" "pages s1 (insert x A)" "x \<notin> A"
    and c: "\<And>y. \<not> (x \<le> y \<and> y < x + 4096) \<Longrightarrow> c y = bytes s y"
    and perm: "take_bit 10 perm = perm" "perm OR PTE_V \<noteq> PTE_V"
  defines "e \<equiv> PA2PTE (word_of_int x) OR perm OR PTE_V"
  shows "\<exists>r t B. mappages pt a PGSIZE (word_of_int x) perm (s1\<lparr>bytes := c\<rparr>) = Ok r t \<and> ustep pt A s t \<and> bytes t = c \<and>
    B = insert x A \<union> tables (ptes t) pt \<and> x \<notin> tables (ptes t) pt \<and>
    (r = 0 \<and> uspace t pt (Suc v) B \<and> amap (ptes t) pt = (amap (ptes s) pt)(v := Some e) \<or>
     r = - 1 \<and> uspace t pt v B \<and> amap (ptes t) pt = amap (ptes s) pt)"
proof -
  note D = uspaceD [OF us]
  let ?u = "s1\<lparr>bytes := c\<rparr>"
  have pu: "ptes ?u = ptes s" "pages ?u (insert x A)" using k(1,2) by (simp_all add: pages_def)
  have x: "pageaddr x" using pages_pageaddr [OF k(2)] by simp
  have va: "vpn a = v" "a mod PGSIZE = 0" using vpn_page [OF v(2)] by auto
  have one: "unat PGSIZE div 4096 = 1" by (simp add: PGSIZE_def)
  have "\<exists>r t B j. mappages pt a PGSIZE (word_of_int x) perm ?u = Ok r t \<and> vext pt (insert x A) ?u B t \<and>
    amap (ptes t) pt = maprange (vpn a) j (word_of_int x) perm (amap (ptes ?u) pt) \<and>
    (r = 0 \<and> j = unat PGSIZE div 4096 \<or> r = - 1 \<and> j < unat PGSIZE div 4096)"
  proof (rule mappages_ok [OF pu(2)])
    show "pt_ok (ptes ?u) pt" "tables (ptes ?u) pt \<subseteq> insert x A" "a mod PGSIZE = 0" using D(2,3) va pu(1) by auto
    show "PGSIZE mod PGSIZE = 0" "PGSIZE \<noteq> 0" by (simp_all add: PGSIZE_def)
    show "unat a + unat PGSIZE \<le> unat MAXVA" using v by (simp add: UTOP_def PGSIZE_def MAXVA_def)
    show "amap (ptes ?u) pt (vpn a + k) = None" if "k < unat PGSIZE div 4096" for k
      using D(7) [of v] that v(1) va(1) pu(1) unfolding one by simp
  qed
  then obtain r t B j where t: "mappages pt a PGSIZE (word_of_int x) perm ?u = Ok r t" "vext pt (insert x A) ?u B t"
    "amap (ptes t) pt = maprange v j (word_of_int x) perm (amap (ptes s) pt)" "r = 0 \<and> j = 1 \<or> r = - 1 \<and> j = 0"
    unfolding one pu(1) va(1) by auto
  have tb: "tables (ptes t) pt = tables (ptes s) pt \<union> (B - insert x A)" "pages t B" "pt_ok (ptes t) pt" "insert x A \<subseteq> B"
    using t(2) pu(1) by (auto simp: vext_def)
  have B: "B = insert x A \<union> tables (ptes t) pt" using tb D(3) by auto
  have xt: "x \<notin> tables (ptes t) pt" using tb D(3) k(3) by auto
  have bt: "bytes t = c" using t(2) same_but_ptes_bytes [of ?u t] by (simp add: vext_def)
  have su: "ustep pt A s ?u"
  proof -
    have "same_but_mem s ?u" unfolding k(1) same_but_mem_def
      by (rule exI [of _ "calm (spin s)"], rule exI [of _ b], rule exI [of _ "ptes s"], rule exI [of _ c]) simp
    moreover have "c y = bytes s y" if "z \<in> A" "z \<le> y" "y < z + 4096" for z y
    proof (rule c)
      have "pageaddr z" using pages_pageaddr [OF k(2), of z] that(1) by simp
      then obtain p q where "z = 4096 * p" "x = 4096 * q" using x by (auto simp: pageaddr_def dvd_def)
      moreover have "z \<noteq> x" using that(1) k(3) by auto
      ultimately show "\<not> (x \<le> y \<and> y < x + 4096)" using that(2,3) by auto
    qed
    ultimately show ?thesis using pu(1) by (simp add: ustep_def)
  qed
  have st: "ustep pt A s t" using ustep_trans [OF su ustep_mono [OF vext_ustep [OF t(2)]]] by blast
  show ?thesis
  proof (cases "r = 0")
    case False
    then have "r = - 1" "amap (ptes t) pt = amap (ptes s) pt" using t(3,4) by auto
    moreover have "uspace t pt v B" by (rule uspace_more [OF us t(2)]) (use pu(1) calculation in auto)
    ultimately show ?thesis using t(1) st bt B xt
      by (intro exI [of _ r] exI [of _ t] exI [of _ B]) simp
  next
    case True
    then have am: "amap (ptes t) pt = (amap (ptes s) pt)(v := Some e)"
      using t(3,4) by (auto simp: maprange_def e_def fun_eq_iff)
    note L = leaf_entry [OF x perm(1), folded e_def]
    have "uspace t pt (Suc v) B" unfolding uspace_def
    proof (intro conjI)
      show "\<forall>k<Suc v. \<exists>f. amap (ptes t) pt k = Some f \<and> PTE_FLAGS f \<noteq> PTE_V \<and> frame f \<in> B \<and> frame f \<notin> tables (ptes t) pt"
      proof (intro allI impI)
        fix k assume "k < Suc v"
        then consider "k = v" | "k < v" by linarith
        then show "\<exists>f. amap (ptes t) pt k = Some f \<and> PTE_FLAGS f \<noteq> PTE_V \<and> frame f \<in> B \<and> frame f \<notin> tables (ptes t) pt"
        proof cases
          case 1
          then show ?thesis using L perm(2) xt B by (simp add: am)
        next
          case 2
          then show ?thesis using D(5) [OF 2] tb by (auto simp: am)
        qed
      qed
      show "\<forall>j<Suc v. \<forall>k<Suc v. \<forall>f g. amap (ptes t) pt j = Some f \<longrightarrow> amap (ptes t) pt k = Some g \<longrightarrow> frame f = frame g \<longrightarrow> j = k"
      proof (intro allI impI)
        fix j k f g
        assume h: "j < Suc v" "k < Suc v" "amap (ptes t) pt j = Some f" "amap (ptes t) pt k = Some g" "frame f = frame g"
        have old: "frame f \<noteq> x" if "i < v" "amap (ptes s) pt i = Some f" for i f using D(5) [OF that(1)] that(2) k(3) by auto
        show "j = k"
        proof (cases "j = v \<or> k = v")
          case True
          then show ?thesis using h old [of j f] old [of k g] L(1) by (auto simp: am split: if_splits)
        next
          case False
          then show ?thesis using h D(6) [of j k f g] by (simp add: am)
        qed
      qed
      show "\<forall>k. Suc v \<le> k \<longrightarrow> k < UTOP \<longrightarrow> amap (ptes t) pt k = None" using D(7) by (simp add: am)
      show "tables (ptes t) pt \<subseteq> B" using B by blast
      show "Suc v \<le> UTOP" using v(1) by simp
    qed (use tb(2,3) in simp_all)
    then show ?thesis using True t(1) st bt B xt am
      by (intro exI [of _ r] exI [of _ t] exI [of _ B]) simp
  qed
qed

lemma uspace_kfree:
  assumes us: "uspace s pt v B" and x: "x \<in> B" "x \<notin> tables (ptes s) pt"
    and fr: "\<And>k e. k < v \<Longrightarrow> amap (ptes s) pt k = Some e \<Longrightarrow> frame e \<noteq> x"
  obtains t where "kfree x s = Ok () t" "uspace t pt v (B - {x})" "vsame pt s t" "ptes t = ptes s"
proof -
  note D = uspaceD [OF us]
  from kfree_vsame [OF D(1) x(1) D(2)] obtain t where
    t: "kfree x s = Ok () t" "pages t (B - {x})" "vsame pt s t" "ptes t = ptes s" .
  have "\<exists>e. amap (ptes s) pt k = Some e \<and> PTE_FLAGS e \<noteq> PTE_V \<and> frame e \<in> B - {x} \<and> frame e \<notin> tables (ptes s) pt" if "k < v" for k
    using D(5) [OF that] fr [OF that] by auto
  moreover have "tables (ptes s) pt \<subseteq> B - {x}" using D(3) x(2) by auto
  ultimately have "uspace t pt v (B - {x})" using t(2) D(2,4,6,7) unfolding uspace_def t(4) by blast
  with t that show ?thesis by blast
qed

text \<open>
  \<open>grown pt Q s0 A n s v C\<close>: since \<open>s0\<close> the address space got pages \<open>n\<close> to \<open>v\<close>, in new frames, and for each \<open>Q\<close> holds of
  its number, its entry and its contents; \<open>A\<close> and \<open>C\<close> are the pages in use then and now, and no page is forgotten.
\<close>

definition grown :: "addr \<Rightarrow> (nat \<Rightarrow> u64 \<Rightarrow> u8 list \<Rightarrow> bool) \<Rightarrow> 'z kvm_scheme \<Rightarrow> addr set \<Rightarrow> nat \<Rightarrow> 'z kvm_scheme \<Rightarrow> nat \<Rightarrow> addr set \<Rightarrow> bool" where
  "grown pt Q s0 A n s v C \<longleftrightarrow> uspace s pt v C \<and> ustep pt A s0 s \<and> n \<le> v \<and>
     C = A \<union> tables (ptes s) pt \<union> frames (amap (ptes s) pt) n (v - n) \<and>
     (\<forall>k. \<not> (n \<le> k \<and> k < v) \<longrightarrow> amap (ptes s) pt k = amap (ptes s0) pt k) \<and>
     (\<forall>k. n \<le> k \<longrightarrow> k < v \<longrightarrow> (\<exists>e. amap (ptes s) pt k = Some e \<and> frame e \<notin> A \<and> Q k e (get_bytes (frame e) 4096 (bytes s))))"

lemma grownD:
  assumes "grown pt Q s0 A n s v C"
  shows "uspace s pt v C" "ustep pt A s0 s" "n \<le> v" "C = A \<union> tables (ptes s) pt \<union> frames (amap (ptes s) pt) n (v - n)"
    and "\<not> (n \<le> k \<and> k < v) \<Longrightarrow> amap (ptes s) pt k = amap (ptes s0) pt k"
    and "n \<le> k \<Longrightarrow> k < v \<Longrightarrow> \<exists>e. amap (ptes s) pt k = Some e \<and> frame e \<notin> A \<and> Q k e (get_bytes (frame e) 4096 (bytes s))"
  using assms unfolding grown_def by blast+

lemma frames_snoc: "n \<le> v \<Longrightarrow> M v = Some e \<Longrightarrow> frames M n (Suc v - n) = insert (frame e) (frames M n (v - n))"
proof -
  assume "n \<le> v"
  then have "{n..<n + (Suc v - n)} = insert v {n..<n + (v - n)}" by auto
  then show "M v = Some e \<Longrightarrow> ?thesis" by (simp add: frames_def)
qed

lemma frames_cong: "(\<And>k. v \<le> k \<Longrightarrow> k < v + n \<Longrightarrow> M k = N k) \<Longrightarrow> frames M v n = frames N v n"
  by (simp add: frames_def)

lemma page_disj: "pageaddr x \<Longrightarrow> pageaddr z \<Longrightarrow> x \<noteq> z \<Longrightarrow> z \<le> y \<Longrightarrow> y < z + 4096 \<Longrightarrow> \<not> (x \<le> y \<and> y < x + 4096)"
  by (auto simp: pageaddr_def dvd_def)

lemma get_bytes_cong: "(\<And>y. a \<le> y \<Longrightarrow> y < a + int n \<Longrightarrow> m y = m' y) \<Longrightarrow> get_bytes a n m = get_bytes a n m'"
  by (simp add: get_bytes_def)

lemma grown_step:
  assumes g: "grown pt Q s0 A n s v C" and t: "uspace t pt (Suc v) B" "ustep pt C s t"
    and x: "x \<notin> C" "pages s1 (insert x C)" and B: "B = insert x C \<union> tables (ptes t) pt"
    and am: "amap (ptes t) pt = (amap (ptes s) pt)(v := Some e)" and e: "frame e = x" "Q v e (get_bytes x 4096 (bytes t))"
  shows "grown pt Q s0 A n t (Suc v) B"
proof -
  note G = grownD [OF g]
  have AC: "A \<subseteq> C" using G(4) by blast
  have tt: "tables (ptes s) pt \<subseteq> tables (ptes t) pt" using t(2) by (simp add: ustep_def)
  have fr: "frames (amap (ptes t) pt) n (Suc v - n) = insert x (frames (amap (ptes s) pt) n (v - n))"
  proof -
    have "frames (amap (ptes t) pt) n (v - n) = frames (amap (ptes s) pt) n (v - n)"
      by (rule frames_cong) (use G(3) in \<open>simp add: am\<close>)
    then show ?thesis using frames_snoc [of n v "amap (ptes t) pt" e] G(3) e(1) by (simp add: am)
  qed
  show ?thesis unfolding grown_def
  proof (intro conjI)
    show "uspace t pt (Suc v) B" by (rule t(1))
    show "ustep pt A s0 t" using ustep_trans [OF G(2) ustep_mono [OF t(2) AC]] .
    show "n \<le> Suc v" using G(3) by simp
    show "B = A \<union> tables (ptes t) pt \<union> frames (amap (ptes t) pt) n (Suc v - n)" unfolding fr B using G(4) tt by auto
    show "\<forall>k. \<not> (n \<le> k \<and> k < Suc v) \<longrightarrow> amap (ptes t) pt k = amap (ptes s0) pt k" using G(3,5) by (auto simp: am)
    show "\<forall>k\<ge>n. k < Suc v \<longrightarrow> (\<exists>e. amap (ptes t) pt k = Some e \<and> frame e \<notin> A \<and> Q k e (get_bytes (frame e) 4096 (bytes t)))"
    proof (intro allI impI)
      fix k assume k: "n \<le> k" "k < Suc v"
      show "\<exists>e. amap (ptes t) pt k = Some e \<and> frame e \<notin> A \<and> Q k e (get_bytes (frame e) 4096 (bytes t))"
      proof (cases "k = v")
        case True
        then show ?thesis using e x(1) AC by (auto simp: am)
      next
        case False
        then have kv: "k < v" using k(2) by simp
        from G(6) [OF k(1) kv] obtain f where f: "amap (ptes s) pt k = Some f" "frame f \<notin> A" "Q k f (get_bytes (frame f) 4096 (bytes s))"
          by blast
        have "frame f \<in> C" using uspaceD(5) [OF G(1) kv] f(1) by auto
        then have "get_bytes (frame f) 4096 (bytes t) = get_bytes (frame f) 4096 (bytes s)"
          using t(2) by (intro get_bytes_cong) (simp add: ustep_def)
        with f False show ?thesis by (simp add: am)
      qed
    qed
  qed
qed

lemma grown_undo:
  assumes us0: "uspace s0 pt n A" and g: "grown pt Q s0 A n s v C"
    and t: "uspace t pt v (C \<union> tables (ptes t) pt)" "ustep pt C s t" "amap (ptes t) pt = amap (ptes s) pt"
    and u: "vsame pt t u" "uspace u pt n (C \<union> tables (ptes t) pt - frames (amap (ptes t) pt) n (v - n))"
      "amap (ptes u) pt = unmaprange n (v - n) (amap (ptes t) pt)"
  shows "ustep pt A s0 u \<and> uspace u pt n (A \<union> tables (ptes u) pt) \<and> amap (ptes u) pt = amap (ptes s0) pt"
proof -
  note G = grownD [OF g] and D = uspaceD [OF t(1)]
  have tb: "tables (ptes u) pt = tables (ptes t) pt" using u(1) by (simp add: vsame_def)
  have AC: "A \<subseteq> C" using G(4) by blast
  have "C \<union> tables (ptes t) pt - frames (amap (ptes t) pt) n (v - n) = A \<union> tables (ptes u) pt"
  proof -
    have "x \<notin> A \<union> tables (ptes t) pt" if x: "x \<in> frames (amap (ptes t) pt) n (v - n)" for x
    proof -
      from x obtain k e where k: "n \<le> k" "k < v" "amap (ptes t) pt k = Some e" "x = frame e" by (auto simp: frames_def)
      then show ?thesis using G(6) [OF k(1,2)] D(5) [OF k(2)] t(3) by auto
    qed
    moreover have "tables (ptes s) pt \<subseteq> tables (ptes t) pt" using t(2) by (simp add: ustep_def)
    ultimately show ?thesis unfolding tb using G(4) t(3) by auto
  qed
  moreover have "amap (ptes u) pt = amap (ptes s0) pt"
  proof
    fix k
    show "amap (ptes u) pt k = amap (ptes s0) pt k"
      using G(5) [of k] uspaceD(7) [OF us0, of k] D(4) G(3) by (cases "n \<le> k \<and> k < v") (auto simp: u(3) t(3) unmaprange_def)
  qed
  moreover have "ustep pt A s0 u"
    using ustep_trans [OF G(2) ustep_trans [OF ustep_mono [OF t(2) AC] vsame_ustep [OF u(1)]]] .
  ultimately show ?thesis using u(2) by auto
qed

lemma less_npg: "unat a = 4096 * v \<Longrightarrow> a < sz \<longleftrightarrow> v < npg sz"
  unfolding word_less_nat_alt npg_def by linarith

lemma grow_one:
  assumes g: "grown pt Q s0 A n s v C" and v: "v < UTOP" "unat a = 4096 * v"
    and k: "s1 = s\<lparr>spin := calm (spin s), buddy := b\<rparr>" "pages s1 (insert x C)" "x \<notin> C"
    and c: "\<And>y. \<not> (x \<le> y \<and> y < x + 4096) \<Longrightarrow> c y = bytes s y"
    and perm: "take_bit 10 perm = perm" "perm OR PTE_V \<noteq> PTE_V"
    and Q: "Q v (PA2PTE (word_of_int x) OR perm OR PTE_V) (get_bytes x 4096 c)"
  shows "\<exists>r t B w. mappages pt a PGSIZE (word_of_int x) perm (s1\<lparr>bytes := c\<rparr>) = Ok r t \<and>
    (r = 0 \<and> grown pt Q s0 A n t (Suc v) B \<or>
     r = - 1 \<and> kfree x t = Ok () w \<and> uspace w pt v (C \<union> tables (ptes w) pt) \<and> ustep pt C s w \<and>
       amap (ptes w) pt = amap (ptes s) pt)"
proof -
  note G = grownD [OF g]
  from add_page [OF G(1) v k c perm] obtain r t where
    t: "mappages pt a PGSIZE (word_of_int x) perm (s1\<lparr>bytes := c\<rparr>) = Ok r t" "ustep pt C s t" "bytes t = c"
      "x \<notin> tables (ptes t) pt"
      "r = 0 \<and> uspace t pt (Suc v) (insert x C \<union> tables (ptes t) pt) \<and>
         amap (ptes t) pt = (amap (ptes s) pt)(v := Some (PA2PTE (word_of_int x) OR perm OR PTE_V)) \<or>
       r = - 1 \<and> uspace t pt v (insert x C \<union> tables (ptes t) pt) \<and> amap (ptes t) pt = amap (ptes s) pt" by auto
  note L = leaf_entry [OF pages_pageaddr [OF k(2) insertI1] perm(1)]
  show ?thesis
  proof (cases "r = 0")
    case r: True
    let ?B = "insert x C \<union> tables (ptes t) pt" and ?e = "PA2PTE (word_of_int x) OR perm OR PTE_V"
    have "uspace t pt (Suc v) ?B" "amap (ptes t) pt = (amap (ptes s) pt)(v := Some ?e)" using t(5) r by auto
    from grown_step [OF g this(1) t(2) k(3,2) refl this(2) L(1)] Q t(3) have "grown pt Q s0 A n t (Suc v) ?B" by simp
    with t(1) r show ?thesis by blast
  next
    case r: False
    with t(5) have t5: "r = - 1" "uspace t pt v (insert x C \<union> tables (ptes t) pt)" "amap (ptes t) pt = amap (ptes s) pt"
      by auto
    have fx: "frame e \<noteq> x" if "j < v" "amap (ptes t) pt j = Some e" for j e
      using uspaceD(5) [OF G(1) that(1)] that(2) k(3) t5(3) by auto
    have "x \<in> insert x C \<union> tables (ptes t) pt" by simp
    from uspace_kfree [OF t5(2) this t(4) fx] obtain w where
      w: "kfree x t = Ok () w" "uspace w pt v (insert x C \<union> tables (ptes t) pt - {x})" "vsame pt t w" "ptes w = ptes t" .
    have "insert x C \<union> tables (ptes t) pt - {x} = C \<union> tables (ptes w) pt" using k(3) t(4) w(4) by auto
    with w(2) have uw: "uspace w pt v (C \<union> tables (ptes w) pt)" by simp
    have "ustep pt C s w" using ustep_trans [OF t(2) vsame_ustep [OF w(3)]] .
    with uw w(1,4) t(1) t5(1,3) show ?thesis by auto
  qed
qed

lemma grown_kalloc_fail:
  assumes g: "grown pt Q s0 A n s v C"
    and k: "kalloc s = Ok 0 (s\<lparr>spin := calm (spin s)\<rparr>)" "pages (s\<lparr>spin := calm (spin s)\<rparr>) C"
  defines "w \<equiv> s\<lparr>spin := calm (spin s)\<rparr>"
  shows "uspace w pt v (C \<union> tables (ptes w) pt)" "ustep pt C s w" "amap (ptes w) pt = amap (ptes s) pt"
proof -
  note G = grownD [OF g]
  have "vsame pt s w" unfolding w_def using vext_vsame [OF vext_calm [OF uspaceD(1,2) [OF G(1)]]] .
  then show "ustep pt C s w" by (rule vsame_ustep)
  have "C \<union> tables (ptes w) pt = C" using uspaceD(3) [OF G(1)] by (auto simp: w_def)
  then show "uspace w pt v (C \<union> tables (ptes w) pt)" using G(1) k(2) by (simp add: uspace_def w_def)
  show "amap (ptes w) pt = amap (ptes s) pt" by (simp add: w_def)
qed

section \<open>Growing user memory\<close>

lemma dealloc_undo:
  assumes us0: "uspace s0 pt n A" and g: "grown pt Q s0 A n s v C"
    and t: "uspace t pt v (C \<union> tables (ptes t) pt)" "ustep pt C s t" "amap (ptes t) pt = amap (ptes s) pt"
    and a: "unat a = 4096 * v" "unat oldsz = 4096 * n"
  shows "\<exists>u. bindr (uvmdealloc pt a oldsz t) (\<lambda>_ s. Ok 0 s) = Ok (0 :: u64) u \<and> ustep pt A s0 u \<and>
    uspace u pt n (A \<union> tables (ptes u) pt) \<and> amap (ptes u) pt = amap (ptes s0) pt"
proof -
  have np: "npg a = v" "npg oldsz = n" using a by (simp_all add: npg_def)
  have sz: "unat a \<le> 4096 * UTOP" using a(1) uspaceD(4) [OF t(1)] by simp
  have "oldsz < a \<longleftrightarrow> n < v" using a by (simp add: word_less_nat_alt)
  then have m: "(if oldsz < a then npg oldsz else npg a) = n" using grownD(3) [OF g] np by auto
  have "uspace t pt (npg a) (C \<union> tables (ptes t) pt)" using t(1) np by simp
  from uvmdealloc_ok [OF this sz, of oldsz, unfolded m, unfolded np(1)] obtain u where
    u: "uvmdealloc pt a oldsz t = Ok (if oldsz < a then oldsz else a) u" "vsame pt t u"
      "uspace u pt n (C \<union> tables (ptes t) pt - frames (amap (ptes t) pt) n (v - n))"
      "amap (ptes u) pt = unmaprange n (v - n) (amap (ptes t) pt)" by blast
  with grown_undo [OF us0 g t u(2-4)] show ?thesis by auto
qed

definition zeroed :: "u64 \<Rightarrow> nat \<Rightarrow> u64 \<Rightarrow> u8 list \<Rightarrow> bool" where
  "zeroed F k e c \<longleftrightarrow> PTE_FLAGS e = F \<and> c = replicate 4096 0"

lemma get_bytes_memset: "get_bytes x 4096 (memset x 0 4096 m) = replicate 4096 0"
  by (rule nth_equalityI) (simp_all add: get_bytes_def memset_eq)

lemma uvmalloc_loop_ok:
  assumes us0: "uspace s0 pt n A" and old: "unat oldsz = 4096 * n" and new: "unat newsz \<le> 4096 * UTOP"
    and xp: "take_bit 10 xperm = xperm"
  defines "Q \<equiv> zeroed (PTE_R OR PTE_U OR xperm OR PTE_V)"
  shows "grown pt Q s0 A n s v C \<Longrightarrow> unat a = 4096 * v \<Longrightarrow> npg newsz \<le> v + k \<Longrightarrow>
    \<exists>r t B. uvmalloc_loop k pt a oldsz newsz xperm s = Ok r t \<and>
      (r = newsz \<and> grown pt Q s0 A n t (max v (npg newsz)) B \<or>
       r = 0 \<and> ustep pt A s0 t \<and> uspace t pt n (A \<union> tables (ptes t) pt) \<and> amap (ptes t) pt = amap (ptes s0) pt)"
proof (induction k arbitrary: s v C a)
  case 0
  then have "\<not> a < newsz" using less_npg [of a v newsz] by simp
  then show ?case using 0 by (intro exI [of _ newsz] exI [of _ s] exI [of _ C]) (simp add: max_def)
next
  case (Suc k)
  note g = Suc.prems(1) and a = Suc.prems(2)
  note G = grownD [OF g]
  note P = PGROUNDUP_npg [OF new]
  show ?case
  proof (cases "a < newsz")
    case False
    then show ?thesis using Suc less_npg [of a v newsz] by (intro exI [of _ newsz] exI [of _ s] exI [of _ C]) (simp add: max_def)
  next
    case True
    then have vn: "v < npg newsz" "v < UTOP" using less_npg [OF a, of newsz] P(2) by simp_all
    let ?perm = "PTE_R OR PTE_U OR xperm"
    have perm: "take_bit 10 ?perm = ?perm" "?perm OR PTE_V \<noteq> PTE_V"
    proof -
      show "take_bit 10 ?perm = ?perm" using xp by (simp add: take_bit_or PTE_R_def PTE_U_def)
      have "bit (?perm OR PTE_V) 1" by (simp add: bit_or_iff PTE_R_def bit_simps)
      moreover have "\<not> bit PTE_V 1" by (simp add: PTE_V_def bit_simps)
      ultimately show "?perm OR PTE_V \<noteq> PTE_V" by metis
    qed
    from kalloc_pages [OF uspaceD(1) [OF G(1)]] show ?thesis
    proof (elim disjE exE conjE)
      fix x b
      let ?s1 = "s\<lparr>spin := calm (spin s), buddy := b\<rparr>" and ?c = "memset x 0 4096 (bytes s)"
      assume k: "kalloc s = Ok x ?s1" "x \<notin> C" "x \<noteq> 0" "pages ?s1 (insert x C)"
      have cy: "?c y = bytes s y" if "\<not> (x \<le> y \<and> y < x + 4096)" for y using memset_eq [of 4096 x 0 "bytes s" y] that by auto
      have "Q v (PA2PTE (word_of_int x) OR ?perm OR PTE_V) (get_bytes x 4096 ?c)"
        using leaf_entry(2) [OF pages_pageaddr [OF k(4) insertI1] perm(1)] get_bytes_memset
        by (simp add: Q_def zeroed_def or.assoc)
      from grow_one [OF g vn(2) a refl k(4,2) cy perm this] obtain r t B w where
        t: "mappages pt a PGSIZE (word_of_int x) ?perm (?s1\<lparr>bytes := ?c\<rparr>) = Ok r t"
          "r = 0 \<and> grown pt Q s0 A n t (Suc v) B \<or> r = - 1 \<and> kfree x t = Ok () w \<and>
             uspace w pt v (C \<union> tables (ptes w) pt) \<and> ustep pt C s w \<and> amap (ptes w) pt = amap (ptes s) pt" by blast
      have ob: "on_bytes (memset x 0 4096) ?s1 = ?s1\<lparr>bytes := ?c\<rparr>" by (simp add: on_bytes_def)
      from t(2) show ?thesis
      proof (elim disjE conjE)
        assume r: "r = 0" and gr: "grown pt Q s0 A n t (Suc v) B"
        have "unat (a + PGSIZE) = 4096 * Suc v" using vpn_next [of a] a vn(2) by (simp add: UTOP_def)
        from Suc.IH [OF gr this] Suc.prems(3)
        have "\<exists>r u B. uvmalloc_loop k pt (a + PGSIZE) oldsz newsz xperm t = Ok r u \<and>
          (r = newsz \<and> grown pt Q s0 A n u (max (Suc v) (npg newsz)) B \<or>
           r = 0 \<and> ustep pt A s0 u \<and> uspace u pt n (A \<union> tables (ptes u) pt) \<and> amap (ptes u) pt = amap (ptes s0) pt)"
          by simp
        moreover have "uvmalloc_loop (Suc k) pt a oldsz newsz xperm s = uvmalloc_loop k pt (a + PGSIZE) oldsz newsz xperm t"
          using True k(1,3) t(1) r ob by simp
        moreover have "max (Suc v) (npg newsz) = max v (npg newsz)" using vn(1) by simp
        ultimately show ?thesis by simp
      next
        assume r: "r = - 1" and w: "kfree x t = Ok () w" "uspace w pt v (C \<union> tables (ptes w) pt)" "ustep pt C s w"
          "amap (ptes w) pt = amap (ptes s) pt"
        from dealloc_undo [OF us0 g w(2-4) a old] obtain u where
          u: "bindr (uvmdealloc pt a oldsz w) (\<lambda>_ s. Ok 0 s) = Ok (0 :: u64) u" "ustep pt A s0 u"
          "uspace u pt n (A \<union> tables (ptes u) pt)" "amap (ptes u) pt = amap (ptes s0) pt" by blast
        have "uvmalloc_loop (Suc k) pt a oldsz newsz xperm s = Ok 0 u" using True k(1,3) t(1) r ob w(1) u(1) by simp
        then show ?thesis using u(2-4) by (intro exI [of _ 0] exI [of _ u] exI [of _ "{}"]) simp
      qed
    next
      assume k: "kalloc s = Ok 0 (s\<lparr>spin := calm (spin s)\<rparr>)" "pages (s\<lparr>spin := calm (spin s)\<rparr>) C"
      from dealloc_undo [OF us0 g grown_kalloc_fail [OF g k] a old] obtain u where
        u: "bindr (uvmdealloc pt a oldsz (s\<lparr>spin := calm (spin s)\<rparr>)) (\<lambda>_ s. Ok 0 s) = Ok (0 :: u64) u" "ustep pt A s0 u"
        "uspace u pt n (A \<union> tables (ptes u) pt)" "amap (ptes u) pt = amap (ptes s0) pt" by blast
      have "uvmalloc_loop (Suc k) pt a oldsz newsz xperm s = Ok 0 u" using True k(1) u(1) by simp
      then show ?thesis using u(2-4) by (intro exI [of _ 0] exI [of _ u] exI [of _ "{}"]) simp
    qed
  qed
qed

lemma grown_refl:
  assumes "uspace s pt n A"
  shows "grown pt Q s A n s n A"
  using assms uspaceD(3) [OF assms] vsame_ustep [OF vsame_refl [OF uspaceD(2) [OF assms]]] by (auto simp: grown_def)

lemma uvmalloc_ok:
  assumes us: "uspace s pt (npg oldsz) A" and sz: "oldsz \<le> newsz" "unat newsz \<le> 4096 * UTOP" and xp: "take_bit 10 xperm = xperm"
  shows "\<exists>r t B. uvmalloc pt oldsz newsz xperm s = Ok r t \<and>
    (r = newsz \<and> grown pt (zeroed (PTE_R OR PTE_U OR xperm OR PTE_V)) s A (npg oldsz) t (npg newsz) B \<or>
     r = 0 \<and> ustep pt A s t \<and> uspace t pt (npg oldsz) (A \<union> tables (ptes t) pt) \<and> amap (ptes t) pt = amap (ptes s) pt)"
proof -
  have le: "unat oldsz \<le> unat newsz" using sz(1) by (simp add: word_le_nat_alt)
  then have old: "unat oldsz \<le> 4096 * UTOP" using sz(2) by simp
  note P = PGROUNDUP_npg [OF old]
  have k: "npg newsz \<le> npg oldsz + (unat newsz div 4096 + 1)" unfolding npg_def by linarith
  have m: "max (npg oldsz) (npg newsz) = npg newsz" using npg_mono [OF le] by simp
  have "uvmalloc pt oldsz newsz xperm s =
      uvmalloc_loop (unat newsz div 4096 + 1) pt (PGROUNDUP oldsz) (PGROUNDUP oldsz) newsz xperm s"
    using sz(1) by (auto simp: uvmalloc_def Let_def not_less)
  then show ?thesis using uvmalloc_loop_ok [OF us P(1) sz(2) xp grown_refl [OF us] P(1) k] m by (simp only:)
qed

section \<open>Copying an address space\<close>

definition copyof :: "addr \<Rightarrow> 'z kvm_scheme \<Rightarrow> nat \<Rightarrow> u64 \<Rightarrow> u8 list \<Rightarrow> bool" where
  "copyof old s0 k e c \<longleftrightarrow>
     (\<exists>e0. amap (ptes s0) old k = Some e0 \<and> PTE_FLAGS e = PTE_FLAGS e0 \<and> c = get_bytes (frame e0) 4096 (bytes s0))"

lemma get_bytes_memmove: "get_bytes x n (memmove x y n m) = get_bytes y n m"
  by (rule nth_equalityI) (simp_all add: get_bytes_def memmove_eq)

lemma PTE_FLAGS_10: "take_bit 10 (PTE_FLAGS e) = PTE_FLAGS e"
proof -
  have "(0x3FF :: u64) = mask 10" by (simp add: mask_eq_exp_minus_1)
  then show ?thesis by (simp add: PTE_FLAGS_def take_bit_eq_mask and.assoc)
qed

lemma PTE_FLAGS_V: "has e PTE_V \<Longrightarrow> PTE_FLAGS e OR PTE_V = PTE_FLAGS e"
proof -
  assume "has e PTE_V"
  then have "bit e 0" by (simp add: PTE_V_bit)
  moreover have "(0x3FF :: u64) = mask 10" by (simp add: mask_eq_exp_minus_1)
  ultimately show ?thesis
    by (intro bit_word_eqI) (auto simp: PTE_FLAGS_def PTE_V_def bit_simps)
qed

lemma amap_valid: "amap m pt k = Some e \<Longrightarrow> has e PTE_V"
  by (auto simp: amap_def split: option.splits if_splits)

lemma unmap_undo:
  assumes us0: "uspace s0 pt 0 A" and g: "grown pt Q s0 A 0 s v C"
    and t: "uspace t pt v (C \<union> tables (ptes t) pt)" "ustep pt C s t" "amap (ptes t) pt = amap (ptes s) pt"
    and i: "unat i = 4096 * v"
  shows "\<exists>u. bindr (uvmunmap pt 0 (i div PGSIZE) True t) (\<lambda>_ s. Ok (- 1) s) = Ok (- 1 :: int) u \<and> ustep pt A s0 u \<and>
    uspace u pt 0 (A \<union> tables (ptes u) pt) \<and> amap (ptes u) pt = amap (ptes s0) pt"
proof -
  have d: "unat (i div PGSIZE) = v" using i by (simp add: PGSIZE_def unat_div_distrib)
  from uvmunmap_ok [OF t(1), of 0 0 "i div PGSIZE"] obtain u where
    u: "uvmunmap pt 0 (i div PGSIZE) True t = Ok () u" "vsame pt t u"
      "uspace u pt 0 (C \<union> tables (ptes t) pt - frames (amap (ptes t) pt) 0 (v - 0))"
      "amap (ptes u) pt = unmaprange 0 (v - 0) (amap (ptes t) pt)" by (auto simp: d)
  from u(1) grown_undo [OF us0 g t u(2-4)] show ?thesis by auto
qed

lemma uvmcopy_loop_ok:
  assumes old: "uspace s0 old (npg sz) A" and us0: "uspace s0 new 0 A" and d: "tables (ptes s0) old \<inter> tables (ptes s0) new = {}"
    and sz: "unat sz \<le> 4096 * UTOP"
  shows "grown new (copyof old s0) s0 A 0 s v C \<Longrightarrow> unat i = 4096 * v \<Longrightarrow> v \<le> npg sz \<Longrightarrow> npg sz \<le> v + k \<Longrightarrow>
    \<exists>r t B. uvmcopy_loop k old new i sz s = Ok r t \<and>
      (r = 0 \<and> grown new (copyof old s0) s0 A 0 t (npg sz) B \<or>
       r = - 1 \<and> ustep new A s0 t \<and> uspace t new 0 (A \<union> tables (ptes t) new) \<and> amap (ptes t) new = amap (ptes s0) new)"
proof (induction k arbitrary: s v C i)
  case 0
  then have "\<not> i < sz" "v = npg sz" using less_npg [of i v sz] by simp_all
  then show ?case using 0 by (intro exI [of _ 0] exI [of _ s] exI [of _ C]) simp
next
  case (Suc k)
  note g = Suc.prems(1) and i = Suc.prems(2)
  note G = grownD [OF g]
  show ?case
  proof (cases "i < sz")
    case False
    then have "v = npg sz" using less_npg [OF i, of sz] Suc.prems(3) by simp
    with False g show ?thesis by (intro exI [of _ 0] exI [of _ s] exI [of _ C]) simp
  next
    case True
    then have vn: "v < npg sz" using less_npg [OF i, of sz] by simp
    then have vu: "v < UTOP" using PGROUNDUP_npg(2) [OF sz] by simp
    have iv: "vpn i = v" using vpn_page [OF i] by simp
    have im: "i < MAXVA" using i vu by (simp add: less_MAXVA [symmetric] UTOP_def)
    from uspaceD(5) [OF old vn] obtain e0 where
      e0: "amap (ptes s0) old v = Some e0" "PTE_FLAGS e0 \<noteq> PTE_V" "frame e0 \<in> A" by blast
    note O = ustep_other [OF G(2) uspaceD(2) [OF G(1)] uspaceD(2,3) [OF old] d]
    have am: "amap (ptes s) old v = Some e0" using O(2) e0(1) by simp
    from walk_valid [OF O(3) im] am iv obtain a where
      a: "walk old i False s = Ok a s" "a \<noteq> 0" "has (ptes s a) PTE_V" "ptes s a = e0" by auto
    have AC: "A \<subseteq> C" using G(4) by blast
    have src: "get_bytes (frame e0) 4096 (bytes s) = get_bytes (frame e0) 4096 (bytes s0)"
      using G(2) e0(3) by (intro get_bytes_cong) (simp add: ustep_def)
    let ?perm = "PTE_FLAGS e0"
    have perm: "take_bit 10 ?perm = ?perm" "?perm OR PTE_V \<noteq> PTE_V" "?perm OR PTE_V = ?perm"
      using PTE_FLAGS_10 PTE_FLAGS_V [OF amap_valid [OF e0(1)]] e0(2) by simp_all
    from kalloc_pages [OF uspaceD(1) [OF G(1)]] show ?thesis
    proof (elim disjE exE conjE)
      fix x b
      let ?s1 = "s\<lparr>spin := calm (spin s), buddy := b\<rparr>" and ?c = "memmove x (frame e0) 4096 (bytes s)"
      assume k: "kalloc s = Ok x ?s1" "x \<notin> C" "x \<noteq> 0" "pages ?s1 (insert x C)"
      have cy: "?c y = bytes s y" if "\<not> (x \<le> y \<and> y < x + 4096)" for y using that by (auto simp: memmove_eq)
      have "copyof old s0 v (PA2PTE (word_of_int x) OR ?perm OR PTE_V) (get_bytes x 4096 ?c)"
        using leaf_entry(2) [OF pages_pageaddr [OF k(4) insertI1] perm(1)] e0(1) src perm(3)
        by (simp add: copyof_def get_bytes_memmove)
      from grow_one [of new "copyof old s0", OF g vu i refl k(4,2) cy perm(1,2) this] obtain r t B w where
        t: "mappages new i PGSIZE (word_of_int x) ?perm (?s1\<lparr>bytes := ?c\<rparr>) = Ok r t"
          "r = 0 \<and> grown new (copyof old s0) s0 A 0 t (Suc v) B \<or> r = - 1 \<and> kfree x t = Ok () w \<and>
             uspace w new v (C \<union> tables (ptes w) new) \<and> ustep new C s w \<and> amap (ptes w) new = amap (ptes s) new" by blast
      have ob: "on_bytes (memmove x (uint (PTE2PA e0)) 4096) ?s1 = ?s1\<lparr>bytes := ?c\<rparr>" by (simp add: on_bytes_def frame_def)
      from t(2) show ?thesis
      proof (elim disjE conjE)
        assume r: "r = 0" and gr: "grown new (copyof old s0) s0 A 0 t (Suc v) B"
        have "unat (i + PGSIZE) = 4096 * Suc v" using vpn_next [of i] i vu by (simp add: UTOP_def)
        from Suc.IH [OF gr this] Suc.prems(4) vn
        have "\<exists>r u B. uvmcopy_loop k old new (i + PGSIZE) sz t = Ok r u \<and>
          (r = 0 \<and> grown new (copyof old s0) s0 A 0 u (npg sz) B \<or>
           r = - 1 \<and> ustep new A s0 u \<and> uspace u new 0 (A \<union> tables (ptes u) new) \<and> amap (ptes u) new = amap (ptes s0) new)"
          by simp
        moreover have "uvmcopy_loop (Suc k) old new i sz s = uvmcopy_loop k old new (i + PGSIZE) sz t"
          using True a k(1,3) t(1) r ob by (simp add: Let_def)
        ultimately show ?thesis by simp
      next
        assume r: "r = - 1" and w: "kfree x t = Ok () w" "uspace w new v (C \<union> tables (ptes w) new)" "ustep new C s w"
          "amap (ptes w) new = amap (ptes s) new"
        from unmap_undo [OF us0 g w(2-4) i] obtain u where
          u: "bindr (uvmunmap new 0 (i div PGSIZE) True w) (\<lambda>_ s. Ok (- 1) s) = Ok (- 1 :: int) u" "ustep new A s0 u"
          "uspace u new 0 (A \<union> tables (ptes u) new)" "amap (ptes u) new = amap (ptes s0) new" by blast
        have "uvmcopy_loop (Suc k) old new i sz s = Ok (- 1) u" using True a k(1,3) t(1) r ob w(1) u(1) by (simp add: Let_def)
        then show ?thesis using u(2-4) by (intro exI [of _ "- 1"] exI [of _ u] exI [of _ "{}"]) simp
      qed
    next
      assume k: "kalloc s = Ok 0 (s\<lparr>spin := calm (spin s)\<rparr>)" "pages (s\<lparr>spin := calm (spin s)\<rparr>) C"
      from unmap_undo [OF us0 g grown_kalloc_fail [OF g k] i] obtain u where
        u: "bindr (uvmunmap new 0 (i div PGSIZE) True (s\<lparr>spin := calm (spin s)\<rparr>)) (\<lambda>_ s. Ok (- 1) s) = Ok (- 1 :: int) u"
        "ustep new A s0 u" "uspace u new 0 (A \<union> tables (ptes u) new)" "amap (ptes u) new = amap (ptes s0) new" by blast
      have "uvmcopy_loop (Suc k) old new i sz s = Ok (- 1) u" using True a k(1) u(1) by (simp add: Let_def)
      then show ?thesis using u(2-4) by (intro exI [of _ "- 1"] exI [of _ u] exI [of _ "{}"]) simp
    qed
  qed
qed

lemma uvmcopy_ok:
  assumes old: "uspace s old (npg sz) A" and new: "uspace s new 0 A" and d: "tables (ptes s) old \<inter> tables (ptes s) new = {}"
    and sz: "unat sz \<le> 4096 * UTOP"
  shows "\<exists>r t B. uvmcopy old new sz s = Ok r t \<and>
      (r = 0 \<and> grown new (copyof old s) s A 0 t (npg sz) B \<or>
       r = - 1 \<and> ustep new A s t \<and> uspace t new 0 (A \<union> tables (ptes t) new) \<and> amap (ptes t) new = amap (ptes s) new)"
proof -
  have k: "npg sz \<le> 0 + (unat sz div 4096 + 1)" unfolding npg_def by linarith
  show ?thesis unfolding uvmcopy_def
    using uvmcopy_loop_ok [OF assms grown_refl [OF new], of 0 "unat sz div 4096 + 1"] k by simp
qed

section \<open>Freeing a page table\<close>

text \<open>
  \<open>subt m t l\<close> are the table pages at most \<open>l\<close> levels below \<open>t\<close>. \<open>empty_tree\<close>: they are distinct pages, the entries that
  point from one to another have no permission bits, and the entries at the last level are not valid.
\<close>

definition subt :: "(addr \<Rightarrow> u64) \<Rightarrow> addr \<Rightarrow> nat \<Rightarrow> addr set" where
  "subt m t l = {u. \<exists>e \<le> l. \<exists>r. tab m t e r = Some u}"

definition empty_tree :: "(addr \<Rightarrow> u64) \<Rightarrow> addr \<Rightarrow> nat \<Rightarrow> bool" where
  "empty_tree m t l \<longleftrightarrow> (\<forall>u \<in> subt m t l. pageaddr u) \<and>
     (\<forall>d \<le> l. \<forall>e \<le> l. \<forall>q r u. tab m t d q = Some u \<longrightarrow> tab m t e r = Some u \<longrightarrow> d = e \<and> q = r) \<and>
     (\<forall>d < l. \<forall>q u j. tab m t d q = Some u \<longrightarrow> j < 512 \<longrightarrow> has (m (u + 8 * int j)) PTE_V \<longrightarrow>
        \<not> has (m (u + 8 * int j)) (PTE_R OR PTE_W OR PTE_X)) \<and>
     (\<forall>q u j. tab m t l q = Some u \<longrightarrow> j < 512 \<longrightarrow> \<not> has (m (u + 8 * int j)) PTE_V)"

definition child :: "(addr \<Rightarrow> u64) \<Rightarrow> addr \<Rightarrow> nat \<Rightarrow> addr" where
  "child m t i = uint (PTE2PA (m (t + 8 * int i)))"

lemma tab_child:
  assumes "has (m (t + 8 * int i)) PTE_V" and "i < 512"
  shows "tab m (child m t i) e r = Some u \<Longrightarrow> tab m t (Suc e) (i * 512 ^ e + r) = Some u \<and> r < 512 ^ e"
proof (induction e arbitrary: r u)
  case 0
  then show ?case using assms by (auto simp: tab.simps(2) child_def split: if_splits)
next
  case (Suc e)
  from Suc.prems obtain w where w: "tab m (child m t i) e (r div 512) = Some w" by (auto simp: tab.simps(2) split: option.splits)
  from Suc.IH [OF this] have I: "tab m t (Suc e) (i * 512 ^ e + r div 512) = Some w" "r div 512 < 512 ^ e" by auto
  have d: "(i * 512 ^ Suc e + r) div 512 = i * 512 ^ e + r div 512" "(i * 512 ^ Suc e + r) mod 512 = r mod 512"
  proof -
    have eq: "i * 512 ^ Suc e + r = r + (i * 512 ^ e) * 512" by simp
    show "(i * 512 ^ Suc e + r) div 512 = i * 512 ^ e + r div 512" unfolding eq by simp
    show "(i * 512 ^ Suc e + r) mod 512 = r mod 512" unfolding eq by (rule mod_mult_self1)
  qed
  have "tab m t (Suc (Suc e)) (i * 512 ^ Suc e + r) = tab m (child m t i) (Suc e) r"
    using w I(1) unfolding tab.simps(2) [of m t "Suc e"] tab.simps(2) [of m "child m t i" e] d by simp
  moreover have "r < 512 ^ Suc e"
  proof -
    have "r = r div 512 * 512 + r mod 512" by simp
    moreover have "r mod 512 < 512" by simp
    moreover have "Suc (r div 512) * 512 \<le> 512 ^ e * 512" using I(2) by (intro mult_le_mono1) simp
    ultimately show ?thesis by simp
  qed
  ultimately show ?case using Suc.prems by simp
qed

lemma tab_child_conv:
  "tab m t (Suc e) q = Some u \<Longrightarrow>
     \<exists>i r. i < 512 \<and> has (m (t + 8 * int i)) PTE_V \<and> tab m (child m t i) e r = Some u"
proof (induction e arbitrary: q u)
  case 0
  then have "q div 512 = 0" "has (m (t + 8 * int (q mod 512))) PTE_V" "u = child m t (q mod 512)"
    by (auto simp: tab.simps(2) child_def Let_def split: if_splits)
  then show ?case by (intro exI [of _ "q mod 512"] exI [of _ 0]) simp
next
  case (Suc e)
  from Suc.prems obtain w where w: "tab m t (Suc e) (q div 512) = Some w" "has (m (w + 8 * int (q mod 512))) PTE_V"
    "u = uint (PTE2PA (m (w + 8 * int (q mod 512))))"
    unfolding tab.simps(2) [of m t "Suc e"] by (auto simp: Let_def split: option.splits if_splits)
  from Suc.IH [OF w(1)] obtain i r where i: "i < 512" "has (m (t + 8 * int i)) PTE_V" "tab m (child m t i) e r = Some w" by blast
  have d: "(r * 512 + q mod 512) div 512 = r" "(r * 512 + q mod 512) mod 512 = q mod 512" by simp_all
  have "tab m (child m t i) (Suc e) (r * 512 + q mod 512) = Some u"
    unfolding tab.simps(2) d using i(3) w(2,3) by simp
  with i(1,2) show ?case by blast
qed

lemma subt_0: "subt m t 0 = {t}"
  by (auto simp: subt_def split: if_splits)

lemma subt_Suc: "subt m t (Suc l) = insert t (\<Union>i \<in> {i. i < 512 \<and> has (m (t + 8 * int i)) PTE_V}. subt m (child m t i) l)"
proof (intro set_eqI iffI)
  fix u assume "u \<in> subt m t (Suc l)"
  then obtain e q where e: "e \<le> Suc l" "tab m t e q = Some u" by (auto simp: subt_def)
  show "u \<in> insert t (\<Union>i \<in> {i. i < 512 \<and> has (m (t + 8 * int i)) PTE_V}. subt m (child m t i) l)"
  proof (cases e)
    case 0
    with e(2) show ?thesis by (simp split: if_splits)
  next
    case (Suc d)
    from tab_child_conv [of m t d q u] e Suc show ?thesis by (auto simp: subt_def)
  qed
next
  fix u assume "u \<in> insert t (\<Union>i \<in> {i. i < 512 \<and> has (m (t + 8 * int i)) PTE_V}. subt m (child m t i) l)"
  then consider "u = t" | i e r where "i < 512" "has (m (t + 8 * int i)) PTE_V" "e \<le> l" "tab m (child m t i) e r = Some u"
    by (auto simp: subt_def)
  then show "u \<in> subt m t (Suc l)"
  proof cases
    case 1
    then show ?thesis by (auto simp: subt_def intro!: exI [of _ 0])
  next
    case 2
    from tab_child [of m t i, OF 2(2,1,4)] 2(3) show ?thesis by (auto simp: subt_def)
  qed
qed

lemma empty_tree_child:
  assumes w: "empty_tree m t (Suc l)" and i: "has (m (t + 8 * int i)) PTE_V" "i < 512"
  shows "empty_tree m (child m t i) l" and "t \<notin> subt m (child m t i) l"
    and "j < 512 \<Longrightarrow> has (m (t + 8 * int j)) PTE_V \<Longrightarrow> i \<noteq> j \<Longrightarrow> subt m (child m t i) l \<inter> subt m (child m t j) l = {}"
    and "\<not> has (m (t + 8 * int i)) (PTE_R OR PTE_W OR PTE_X)"
proof -
  note C = tab_child [of m t i, OF i]
  have inj: "d = e \<and> q = r" if "tab m t d q = Some u" "tab m t e r = Some u" "d \<le> Suc l" "e \<le> Suc l" for d e q r u
    using w that unfolding empty_tree_def by blast
  show "empty_tree m (child m t i) l" unfolding empty_tree_def
  proof (intro conjI allI impI ballI)
    fix u assume "u \<in> subt m (child m t i) l"
    then have "u \<in> subt m t (Suc l)" using i by (auto simp: subt_Suc)
    then show "pageaddr u" using w by (simp add: empty_tree_def)
  next
    fix d e q r u
    assume a: "d \<le> l" "e \<le> l" "tab m (child m t i) d q = Some u" "tab m (child m t i) e r = Some u"
    from C [OF a(3)] C [OF a(4)] a(1,2) have "Suc d = Suc e \<and> i * 512 ^ d + q = i * 512 ^ e + r"
      by (intro inj [of _ _ u]) auto
    then show "d = e" "q = r" by auto
  next
    fix d q u j
    assume a: "d < l" "tab m (child m t i) d q = Some u" "j < (512::nat)" "has (m (u + 8 * int j)) PTE_V"
    from C [OF a(2)] have "tab m t (Suc d) (i * 512 ^ d + q) = Some u" by simp
    moreover have "Suc d < Suc l" using a(1) by simp
    ultimately show "\<not> has (m (u + 8 * int j)) (PTE_R OR PTE_W OR PTE_X)" using w a(3,4) unfolding empty_tree_def by blast
  next
    fix q u j
    assume a: "tab m (child m t i) l q = Some u" "j < (512::nat)"
    from C [OF a(1)] have "tab m t (Suc l) (i * 512 ^ l + q) = Some u" by simp
    with a(2) w show "\<not> has (m (u + 8 * int j)) PTE_V" unfolding empty_tree_def by blast
  qed
  show "t \<notin> subt m (child m t i) l"
  proof
    assume "t \<in> subt m (child m t i) l"
    then obtain e r where e: "e \<le> l" "tab m (child m t i) e r = Some t" by (auto simp: subt_def)
    with C [OF e(2)] inj [of "Suc e" "i * 512 ^ e + r" t 0 0] show False by simp
  qed
  show "subt m (child m t i) l \<inter> subt m (child m t j) l = {}" if j: "j < 512" "has (m (t + 8 * int j)) PTE_V" "i \<noteq> j"
  proof (rule ccontr)
    assume "subt m (child m t i) l \<inter> subt m (child m t j) l \<noteq> {}"
    then obtain u d e q r where u: "d \<le> l" "e \<le> l" "tab m (child m t i) d q = Some u" "tab m (child m t j) e r = Some u"
      by (auto simp: subt_def)
    have q: "q < 512 ^ d" "r < 512 ^ e" "d = e" "i * 512 ^ d + q = j * 512 ^ e + r"
      using C [OF u(3)] tab_child [of m t j, OF j(2,1) u(4)] inj [of "Suc d" "i * 512 ^ d + q" u "Suc e" "j * 512 ^ e + r"] u(1,2) by auto
    then have "(i * 512 ^ d + q) div 512 ^ d = (j * 512 ^ d + r) div 512 ^ d" by simp
    then have "i = j" using q(1,2,3) by simp
    with j(3) show False ..
  qed
  have "tab m t 0 0 = Some t" by simp
  with w i show "\<not> has (m (t + 8 * int i)) (PTE_R OR PTE_W OR PTE_X)" unfolding empty_tree_def by blast
qed

definition in_pages :: "addr set \<Rightarrow> addr \<Rightarrow> bool" where
  "in_pages S a \<longleftrightarrow> (\<exists>u \<in> S. u \<le> a \<and> a < u + 4096)"

lemma in_pages_entry: "\<forall>u \<in> S. pageaddr u \<Longrightarrow> pageaddr t \<Longrightarrow> t \<notin> S \<Longrightarrow> j < 512 \<Longrightarrow> \<not> in_pages S (t + 8 * int j)"
  unfolding in_pages_def using entry_page by blast

definition freed :: "(addr \<Rightarrow> u64) \<Rightarrow> addr \<Rightarrow> nat \<Rightarrow> nat set \<Rightarrow> addr set" where
  "freed m t l I = (\<Union>i \<in> {i \<in> I. has (m (t + 8 * int i)) PTE_V}. subt m (child m t i) l)"

lemma freed_Cons:
  "freed m t l (insert i I) = (if has (m (t + 8 * int i)) PTE_V then subt m (child m t i) l \<union> freed m t l I else freed m t l I)"
  by (auto simp: freed_def)

lemma freewalk_entries_empty:
  "(\<And>i. i \<in> set is \<Longrightarrow> \<not> has (ptes s (t + 8 * int i)) PTE_V) \<Longrightarrow> freewalk_entries d t is s = Ok () s"
  by (induction "is") (simp_all add: Let_def)

lemma freewalk_entries_ok:
  assumes IH: "\<And>c (s :: 'z kvm_scheme) A. empty_tree m c l \<Longrightarrow> (\<And>u j. u \<in> subt m c l \<Longrightarrow> j < 512 \<Longrightarrow> ptes s (u + 8 * int j) = m (u + 8 * int j)) \<Longrightarrow>
      pages s A \<Longrightarrow> subt m c l \<subseteq> A \<Longrightarrow> \<exists>s'. freewalk (Suc l) c s = Ok () s' \<and> pages s' (A - subt m c l) \<and>
        same_but_ptes s s' \<and> (\<forall>a. \<not> in_pages (subt m c l) a \<longrightarrow> ptes s' a = ptes s a)"
    and w: "empty_tree m t (Suc l)"
  shows "distinct is \<Longrightarrow> set is \<subseteq> {..<512} \<Longrightarrow> (\<And>i. i \<in> set is \<Longrightarrow> ptes (s :: 'z kvm_scheme) (t + 8 * int i) = m (t + 8 * int i)) \<Longrightarrow>
    (\<And>u j. u \<in> freed m t l (set is) \<Longrightarrow> j < 512 \<Longrightarrow> ptes s (u + 8 * int j) = m (u + 8 * int j)) \<Longrightarrow>
    pages s A \<Longrightarrow> freed m t l (set is) \<subseteq> A \<Longrightarrow>
    \<exists>s'. freewalk_entries (Suc l) t is s = Ok () s' \<and> pages s' (A - freed m t l (set is)) \<and> same_but_ptes s s' \<and>
      (\<forall>a. \<not> in_pages (insert t (freed m t l (set is))) a \<longrightarrow> ptes s' a = ptes s a)"
proof (induction "is" arbitrary: s A)
  case Nil
  then show ?case by (simp add: freed_def same_but_ptes_refl)
next
  case (Cons i "is")
  have t: "pageaddr t" using w by (auto simp: empty_tree_def subt_Suc)
  have i: "i < 512" "i \<notin> set is" using Cons.prems(1,2) by auto
  have e: "ptes s (t + 8 * int i) = m (t + 8 * int i)" using Cons.prems(3) by simp
  show ?case
  proof (cases "has (m (t + 8 * int i)) PTE_V")
    case False
    then have f: "freed m t l (set (i # is)) = freed m t l (set is)" by (simp add: freed_Cons)
    have "\<exists>s'. freewalk_entries (Suc l) t is s = Ok () s' \<and> pages s' (A - freed m t l (set is)) \<and> same_but_ptes s s' \<and>
      (\<forall>a. \<not> in_pages (insert t (freed m t l (set is))) a \<longrightarrow> ptes s' a = ptes s a)"
      by (rule Cons.IH) (use Cons.prems f in auto)
    moreover have "freewalk_entries (Suc l) t (i # is) s = freewalk_entries (Suc l) t is s" using False e by (simp add: Let_def)
    ultimately show ?thesis unfolding f by simp
  next
    case True
    let ?c = "child m t i"
    note ch = empty_tree_child [of m t l i, OF w True i(1)]
    have f: "freed m t l (set (i # is)) = subt m ?c l \<union> freed m t l (set is)" using True by (simp add: freed_Cons)
    have pg: "\<forall>u \<in> subt m ?c l. pageaddr u" using ch(1) by (simp add: empty_tree_def)
    have dj: "subt m ?c l \<inter> freed m t l (set is) = {}"
    proof -
      have "subt m ?c l \<inter> subt m (child m t j) l = {}" if "j \<in> set is" "has (m (t + 8 * int j)) PTE_V" for j
        using ch(3) [of j] that i(2) Cons.prems(2) by auto
      then show ?thesis unfolding freed_def by blast
    qed
    have "\<exists>s'. freewalk (Suc l) ?c s = Ok () s' \<and> pages s' (A - subt m ?c l) \<and> same_but_ptes s s' \<and>
      (\<forall>a. \<not> in_pages (subt m ?c l) a \<longrightarrow> ptes s' a = ptes s a)"
      by (rule IH [OF ch(1)]) (use Cons.prems f in auto)
    then obtain u where u: "freewalk (Suc l) ?c s = Ok () u" "pages u (A - subt m ?c l)" "same_but_ptes s u"
      "\<And>a. \<not> in_pages (subt m ?c l) a \<Longrightarrow> ptes u a = ptes s a" by blast
    define v where "v = set_pte (t + 8 * int i) 0 u"
    have v: "pages v (A - subt m ?c l)" "same_but_ptes s v"
    proof -
      show "pages v (A - subt m ?c l)" using u(2) by (simp add: v_def set_pte_def pages_def)
      have "same_but_ptes u v" unfolding same_but_ptes_def
        by (rule exI [of _ "spin u"], rule exI [of _ "buddy u"], rule exI [of _ "ptes v"]) (simp add: v_def set_pte_def)
      with u(3) show "same_but_ptes s v" by (rule same_but_ptes_trans)
    qed
    have pv: "ptes v a = ptes s a" if "\<not> in_pages (subt m ?c l) a" "a \<noteq> t + 8 * int i" for a
      using u(4) [OF that(1)] that(2) by (simp add: v_def set_pte_def)
    have pgf: "\<forall>x \<in> freed m t l (set is). pageaddr x \<and> x \<noteq> t"
    proof
      fix x assume "x \<in> freed m t l (set is)"
      then obtain j where j: "j \<in> set is" "has (m (t + 8 * int j)) PTE_V" "x \<in> subt m (child m t j) l" by (auto simp: freed_def)
      then have "j < 512" using Cons.prems(2) by auto
      from empty_tree_child(1,2) [of m t l j, OF w j(2) this] j(3) show "pageaddr x \<and> x \<noteq> t" by (auto simp: empty_tree_def)
    qed
    have IH2: "\<exists>s'. freewalk_entries (Suc l) t is v = Ok () s' \<and> pages s' (A - subt m ?c l - freed m t l (set is)) \<and>
      same_but_ptes v s' \<and> (\<forall>a. \<not> in_pages (insert t (freed m t l (set is))) a \<longrightarrow> ptes s' a = ptes v a)"
    proof (rule Cons.IH)
      show "distinct is" "set is \<subseteq> {..<512}" using Cons.prems by auto
      show "ptes v (t + 8 * int j) = m (t + 8 * int j)" if "j \<in> set is" for j
      proof -
        have "t + 8 * int j \<noteq> t + 8 * int i" using that i(2) by auto
        moreover have "j < 512" using that Cons.prems(2) by auto
        ultimately have "ptes v (t + 8 * int j) = ptes s (t + 8 * int j)" using in_pages_entry [OF pg t ch(2)] pv by blast
        then show ?thesis using Cons.prems(3) that by simp
      qed
      show "ptes v (x + 8 * int j) = m (x + 8 * int j)" if x: "x \<in> freed m t l (set is)" "j < 512" for x j
      proof -
        have "\<not> in_pages (subt m ?c l) (x + 8 * int j)" by (rule in_pages_entry [OF pg]) (use x dj pgf in auto)
        moreover have "x + 8 * int j \<noteq> t + 8 * int i" using entry_inj [OF _ t x(2) i(1)] x(1) pgf by auto
        ultimately have "ptes v (x + 8 * int j) = ptes s (x + 8 * int j)" by (rule pv)
        then show ?thesis using Cons.prems(4) [of x j] x f by auto
      qed
      show "pages v (A - subt m ?c l)" by (rule v(1))
      show "freed m t l (set is) \<subseteq> A - subt m ?c l" using Cons.prems(6) dj f by auto
    qed
    then obtain s' where s': "freewalk_entries (Suc l) t is v = Ok () s'" "pages s' (A - subt m ?c l - freed m t l (set is))"
      "same_but_ptes v s'" "\<And>a. \<not> in_pages (insert t (freed m t l (set is))) a \<Longrightarrow> ptes s' a = ptes v a" by blast
    have "freewalk_entries (Suc l) t (i # is) s = Ok () s'"
      using True ch(4) e u(1) s'(1) by (simp add: Let_def v_def child_def)
    moreover have "pages s' (A - freed m t l (set (i # is)))" using s'(2) unfolding f by (simp add: Diff_Un Diff_Int2 set_diff_eq Un_def)
    moreover have "same_but_ptes s s'" using v(2) s'(3) by (rule same_but_ptes_trans)
    moreover have "ptes s' a = ptes s a" if a: "\<not> in_pages (insert t (freed m t l (set (i # is)))) a" for a
    proof -
      have "\<not> in_pages (insert t (freed m t l (set is))) a" "\<not> in_pages (subt m ?c l) a" "a \<noteq> t + 8 * int i"
        using a i(1) unfolding f by (auto simp: in_pages_def)
      then show ?thesis using s'(4) pv by simp
    qed
    ultimately show ?thesis by blast
  qed
qed

lemma freewalk_ok:
  "empty_tree m t l \<Longrightarrow> (\<And>u j. u \<in> subt m t l \<Longrightarrow> j < 512 \<Longrightarrow> ptes s (u + 8 * int j) = m (u + 8 * int j)) \<Longrightarrow>
    pages s A \<Longrightarrow> subt m t l \<subseteq> A \<Longrightarrow> \<exists>s'. freewalk (Suc l) t s = Ok () s' \<and> pages s' (A - subt m t l) \<and>
      same_but_ptes s s' \<and> (\<forall>a. \<not> in_pages (subt m t l) a \<longrightarrow> ptes s' a = ptes s a)"
proof (induction l arbitrary: t s A)
  case 0
  have "t \<in> subt m t 0" by (simp add: subt_0)
  then have "\<not> has (ptes s (t + 8 * int i)) PTE_V" if "i < 512" for i
    using 0(1,2) that unfolding empty_tree_def by (metis tab.simps(1))
  then have e: "freewalk_entries 0 t [0..<512] s = Ok () s" by (intro freewalk_entries_empty) simp
  have "t \<in> A" using 0(4) by (simp add: subt_0)
  from kfree_pages [OF 0(3) this] obtain b where b: "kfree t s = Ok () (s\<lparr>spin := calm (spin s), buddy := b\<rparr>)"
    "pages (s\<lparr>spin := calm (spin s), buddy := b\<rparr>) (A - {t})" by blast
  then show ?case using e same_but_ptes_calm by (auto simp: subt_0)
next
  case (Suc l)
  let ?I = "set [0..<512]"
  have st: "subt m t (Suc l) = insert t (freed m t l ?I)" by (auto simp: subt_Suc freed_def)
  have tf: "t \<notin> freed m t l ?I"
  proof
    assume "t \<in> freed m t l ?I"
    then obtain i where i: "i < 512" "has (m (t + 8 * int i)) PTE_V" "t \<in> subt m (child m t i) l" by (auto simp: freed_def)
    from empty_tree_child(2) [of m t l i, OF Suc.prems(1) i(2,1)] i(3) show False by simp
  qed
  have "\<exists>s'. freewalk_entries (Suc l) t [0..<512] s = Ok () s' \<and> pages s' (A - freed m t l ?I) \<and> same_but_ptes s s' \<and>
      (\<forall>a. \<not> in_pages (insert t (freed m t l ?I)) a \<longrightarrow> ptes s' a = ptes s a)"
    by (rule freewalk_entries_ok [OF Suc.IH Suc.prems(1)]) (use Suc.prems(2-4) st in \<open>auto\<close>)
  then obtain u where u: "freewalk_entries (Suc l) t [0..<512] s = Ok () u" "pages u (A - freed m t l ?I)" "same_but_ptes s u"
    "\<And>a. \<not> in_pages (insert t (freed m t l ?I)) a \<Longrightarrow> ptes u a = ptes s a" by blast
  have "t \<in> A - freed m t l ?I" using Suc.prems(4) st tf by auto
  from kfree_pages [OF u(2) this] obtain b where b: "kfree t u = Ok () (u\<lparr>spin := calm (spin u), buddy := b\<rparr>)"
    "pages (u\<lparr>spin := calm (spin u), buddy := b\<rparr>) (A - freed m t l ?I - {t})" by blast
  have "A - freed m t l ?I - {t} = A - subt m t (Suc l)" unfolding st by auto
  moreover have "same_but_ptes s (u\<lparr>spin := calm (spin u), buddy := b\<rparr>)"
    using u(3) same_but_ptes_calm by (rule same_but_ptes_trans)
  ultimately show ?case using u(1,4) b unfolding st by (auto simp del: freewalk_entries.simps)
qed

lemma subt_tables: "subt m pt 2 = tables m pt"
  by (simp add: subt_def tables_def)

lemma empty_tree_tables:
  assumes ok: "pt_ok m pt" and e: "\<And>k. amap m pt k = None"
  shows "empty_tree m pt 2"
proof -
  have "\<not> has (m (u + 8 * int j)) PTE_V" if u: "tab m pt 2 q = Some u" "j < 512" for q u j
  proof -
    have d: "(q * 512 + j) div 512 = q" "(q * 512 + j) mod 512 = j" using u(2) by simp_all
    have "leaf m pt (q * 512 + j) = Some (u + 8 * int j)" unfolding leaf_def d using u(1) by simp
    with e [of "q * 512 + j"] show ?thesis by (auto simp: amap_def split: if_splits)
  qed
  then show ?thesis using pt_okD(2,3) [OF ok] ok unfolding empty_tree_def subt_tables pt_ok_def by blast
qed

lemma uvmfree_ok:
  assumes us: "uspace s pt (npg sz) A" and sz: "unat sz \<le> 4096 * UTOP" and top: "\<And>k. npg sz \<le> k \<Longrightarrow> amap (ptes s) pt k = None"
  shows "\<exists>t. uvmfree pt sz s = Ok () t \<and> same_but_ptes s t \<and>
    pages t (A - tables (ptes s) pt - frames (amap (ptes s) pt) 0 (npg sz)) \<and>
    (\<forall>a. \<not> in_pages (tables (ptes s) pt) a \<longrightarrow> ptes t a = ptes s a)"
proof -
  let ?F = "frames (amap (ptes s) pt) 0 (npg sz)"
  have "\<exists>u. (if sz > 0 then uvmunmap pt 0 (PGROUNDUP sz div PGSIZE) True s else Ok () s) = Ok () u \<and> vsame pt s u \<and>
    pages u (A - ?F) \<and> tables (ptes u) pt \<subseteq> A - ?F \<and> (\<forall>k. amap (ptes u) pt k = None)"
  proof (cases "sz > 0")
    case False
    then have n: "npg sz = 0" by (simp add: npg_def word_gt_0)
    from False show ?thesis using uspaceD [OF us] vsame_refl top by (simp add: n)
  next
    case True
    have d: "unat (PGROUNDUP sz div PGSIZE) = npg sz"
      using PGROUNDUP_npg(1) [OF sz] by (simp add: PGSIZE_def unat_div_distrib)
    from uvmunmap_ok [OF us, of 0 0 "PGROUNDUP sz div PGSIZE", unfolded d] obtain u where
      u: "uvmunmap pt 0 (PGROUNDUP sz div PGSIZE) True s = Ok () u" "vsame pt s u" "uspace u pt 0 (A - ?F)"
        "amap (ptes u) pt = unmaprange 0 (npg sz) (amap (ptes s) pt)" by auto
    then show ?thesis using True uspaceD [OF u(3)] top by (auto simp: unmaprange_def)
  qed
  then obtain u where u: "(if sz > 0 then uvmunmap pt 0 (PGROUNDUP sz div PGSIZE) True s else Ok () s) = Ok () u" "vsame pt s u"
    "pages u (A - ?F)" "tables (ptes u) pt \<subseteq> A - ?F" "\<And>k. amap (ptes u) pt k = None" by blast
  have tb: "tables (ptes u) pt = tables (ptes s) pt" "pt_ok (ptes u) pt" "same_but_ptes s u"
    "\<And>a. \<not> in_pages (tables (ptes s) pt) a \<Longrightarrow> ptes u a = ptes s a"
    using u(2) by (simp_all add: vsame_def in_pages_def)
  from freewalk_ok [OF empty_tree_tables [OF tb(2) u(5)] refl u(3), unfolded subt_tables, OF u(4)] obtain t where
    t: "freewalk (Suc 2) pt u = Ok () t" "pages t (A - ?F - tables (ptes s) pt)" "same_but_ptes u t"
      "\<And>a. \<not> in_pages (tables (ptes s) pt) a \<Longrightarrow> ptes t a = ptes u a" unfolding tb(1) by blast
  have "uvmfree pt sz s = Ok () t" unfolding uvmfree_def u(1) using t(1) by (simp add: numeral_3_eq_3 numeral_2_eq_2)
  moreover have "A - ?F - tables (ptes s) pt = A - tables (ptes s) pt - ?F" by blast
  ultimately show ?thesis using t(2,4) same_but_ptes_trans [OF tb(3) t(3)] tb(4) by auto
qed

section \<open>Properties of the routines on user memory\<close>

text \<open>An address space of one page, at the tables \<open>p\<close>, \<open>a\<close>, \<open>c\<close> and in frame \<open>f\<close>, for the examples.\<close>

definition one_page :: "addr \<Rightarrow> addr \<Rightarrow> addr \<Rightarrow> addr \<Rightarrow> addr \<Rightarrow> u64" where
  "one_page p a c f = (with_table c a (with_table a p (\<lambda>_. 0)))(c := PA2PTE (word_of_int f) OR (PTE_R OR PTE_W OR PTE_U) OR PTE_V)"

lemma one_page_space:
  assumes A: "pages s A" "p \<in> A" "a \<in> A" "c \<in> A" "f \<in> A" and d: "distinct [p, a, c, f]"
  shows "uspace (s\<lparr>ptes := one_page p a c f\<rparr>) p 1 A" and "amap (one_page p a c f) p 0 \<noteq> None"
    and "0 < k \<Longrightarrow> amap (one_page p a c f) p k = None" and "tables (one_page p a c f) p = {p, a, c}"
    and "q \<in> A \<Longrightarrow> q \<notin> {p, a, c} \<Longrightarrow> uspace (s\<lparr>ptes := one_page p a c f\<rparr>) q 0 A \<and> tables (one_page p a c f) q = {q}"
proof -
  let ?m0 = "\<lambda>_ :: addr. 0 :: u64" and ?e = "PA2PTE (word_of_int f) OR (PTE_R OR PTE_W OR PTE_U) OR PTE_V"
  let ?m1 = "with_table a p ?m0" let ?m2 = "with_table c a ?m1"
  have pg: "pageaddr p" "pageaddr a" "pageaddr c" "pageaddr f" using pages_pageaddr [OF A(1)] A(2-5) by simp_all
  note Z = zero_table [OF pg(1), of ?m0, OF refl]
  note W1 = with_table_ok [OF Z(2), of 0 0 p 0 a] tab_with_table [OF Z(2), of 0 0 p 0 a]
  have t1: "tables ?m1 p = {a, p}" "pt_ok ?m1 p" "amap ?m1 p = Map.empty" "tab ?m1 p 1 0 = Some a"
    using W1 pg Z d by auto
  have z: "\<not> has (?m1 (a + 8 * int 0)) PTE_V" using d by (simp add: with_table_def)
  note W2 = with_table_ok [OF t1(2,4) _ _ z pg(3)] tab_with_table [OF t1(2,4) _ _ z pg(3), of 2 0]
  have t2: "tables ?m2 p = {c, a, p}" "pt_ok ?m2 p" "amap ?m2 p = Map.empty" "tab ?m2 p 2 0 = Some c"
    using W2 t1 d by (simp_all add: numeral_2_eq_2)
  then have l: "leaf ?m2 p 0 = Some c" by (simp add: leaf_def)
  have x: "has ?e PTE_V" by (rule has_V_or)
  have am: "amap (one_page p a c f) p = [0 \<mapsto> ?e]" and ok: "pt_ok (one_page p a c f) p"
    and tb: "tables (one_page p a c f) p = {p, a, c}"
    using set_leaf(2,3,5) [OF t2(2) l, of ?e] t2(1,3) x by (auto simp: one_page_def)
  show "amap (one_page p a c f) p 0 \<noteq> None" "0 < k \<Longrightarrow> amap (one_page p a c f) p k = None" "tables (one_page p a c f) p = {p, a, c}"
    using am tb by simp_all
  have perm: "take_bit 10 (PTE_R OR PTE_W OR PTE_U) = PTE_R OR PTE_W OR PTE_U" "(PTE_R OR PTE_W OR PTE_U) OR PTE_V \<noteq> PTE_V"
    by (simp_all add: PTE_R_def PTE_W_def PTE_U_def PTE_V_def)
  note L = leaf_entry [OF pg(4) perm(1)]
  show "uspace (s\<lparr>ptes := one_page p a c f\<rparr>) p 1 A"
    unfolding uspace_def using A am ok tb L perm(2) d by (auto simp: pages_def UTOP_def)
  show "uspace (s\<lparr>ptes := one_page p a c f\<rparr>) q 0 A \<and> tables (one_page p a c f) q = {q}" if q: "q \<in> A" "q \<notin> {p, a, c}"
  proof -
    have pq: "pageaddr q" using pages_pageaddr [OF A(1) q(1)] .
    have "one_page p a c f (q + 8 * int j) = 0" if j: "j < 512" for j
      using entry_inj [OF pq pg(1) j, of 0] entry_inj [OF pq pg(2) j, of 0] entry_inj [OF pq pg(3) j, of 0] q(2)
      by (auto simp: one_page_def with_table_def)
    note Q = zero_table [OF pq, of "one_page p a c f", OF this]
    then show ?thesis unfolding uspace_def using A(1) q(1) by (simp add: pages_def)
  qed
qed

text \<open>
  C29. \<open>uvmalloc\<close> is all or nothing. It either grows the address space to \<open>newsz\<close>, with every new page in a fresh zeroed
  frame with the requested permissions and all old pages as they were, or it runs out of memory, returns 0 and leaves
  every mapping as it was, keeping at most table pages it had to add; in both cases no page is lost, no other memory
  changes and it does not panic.
\<close>

theorem uvmalloc_all_or_nothing:
  assumes "uspace s pt (npg oldsz) A" and "oldsz \<le> newsz" and "unat newsz \<le> 4096 * UTOP" and "take_bit 10 xperm = xperm"
  shows "\<exists>r t B. uvmalloc pt oldsz newsz xperm s = Ok r t \<and>
    (r = newsz \<and> grown pt (zeroed (PTE_R OR PTE_U OR xperm OR PTE_V)) s A (npg oldsz) t (npg newsz) B \<or>
     r = 0 \<and> ustep pt A s t \<and> uspace t pt (npg oldsz) (A \<union> tables (ptes t) pt) \<and> amap (ptes t) pt = amap (ptes s) pt)"
  using uvmalloc_ok [OF assms] .

theorem uvmalloc_all_or_nothing_witness:
  "\<exists>b p a c f r t B. pages (raw_vm b) {p, a, c, f} \<and>
    uvmalloc p 0x1000 0x2800 PTE_W ((raw_vm b)\<lparr>ptes := one_page p a c f\<rparr>) = Ok r t \<and>
    (r = 0x2800 \<and> grown p (zeroed (PTE_R OR PTE_U OR PTE_W OR PTE_V)) ((raw_vm b)\<lparr>ptes := one_page p a c f\<rparr>) {p, a, c, f} 1 t 3 B \<or>
     r = 0 \<and> amap (ptes t) p = amap (one_page p a c f) p)"
proof -
  obtain b A where A: "card A = 4" "pages (raw_vm b) A" using boot_pages [of 4] by auto
  then obtain xs where xs: "A = set xs" "distinct xs" "length xs = 4"
    by (metis card_eq_0_iff distinct_card finite_distinct_list numeral_neq_zero)
  then obtain p a c f where x: "xs = [p, a, c, f]" by (auto simp: numeral_eq_Suc length_Suc_conv)
  have n: "npg 0x1000 = 1" "npg 0x2800 = 3" by (simp_all add: npg_def)
  let ?s = "(raw_vm b)\<lparr>ptes := one_page p a c f\<rparr>"
  have us: "uspace ?s p (npg 0x1000) A" unfolding n by (rule one_page_space(1) [OF A(2)]) (use xs x in auto)
  have "\<exists>r t B. uvmalloc p 0x1000 0x2800 PTE_W ?s = Ok r t \<and>
    (r = 0x2800 \<and> grown p (zeroed (PTE_R OR PTE_U OR PTE_W OR PTE_V)) ?s A (npg 0x1000) t (npg 0x2800) B \<or>
     r = 0 \<and> ustep p A ?s t \<and> uspace t p (npg 0x1000) (A \<union> tables (ptes t) p) \<and> amap (ptes t) p = amap (ptes ?s) p)"
    by (rule uvmalloc_all_or_nothing [OF us]) (simp_all add: UTOP_def PTE_W_def)
  then show ?thesis using A(2) unfolding n xs(1) x by fastforce
qed

text \<open>
  C30. \<open>uvmcopy\<close> gives the child a copy of the parent's memory: every page of the parent is at the same virtual address
  in a fresh frame with the same contents and flags. If memory runs out it returns -1 with the child's space empty as
  before. The parent's mappings and the contents of all pages in use stay as they were.
\<close>

theorem uvmcopy_copies:
  assumes "uspace s old (npg sz) A" and "uspace s new 0 A" and "tables (ptes s) old \<inter> tables (ptes s) new = {}"
    and "unat sz \<le> 4096 * UTOP"
  shows "\<exists>r t B. uvmcopy old new sz s = Ok r t \<and> ustep new A s t \<and> amap (ptes t) old = amap (ptes s) old \<and>
      (r = 0 \<and> uspace t new (npg sz) B \<and>
         (\<forall>k < npg sz. \<exists>e e'. amap (ptes s) old k = Some e \<and> amap (ptes t) new k = Some e' \<and> frame e' \<notin> A \<and>
            PTE_FLAGS e' = PTE_FLAGS e \<and> get_bytes (frame e') 4096 (bytes t) = get_bytes (frame e) 4096 (bytes s)) \<or>
       r = - 1 \<and> uspace t new 0 B \<and> amap (ptes t) new = amap (ptes s) new)"
proof -
  from uvmcopy_ok [OF assms] obtain r t B where
    t: "uvmcopy old new sz s = Ok r t" "r = 0 \<and> grown new (copyof old s) s A 0 t (npg sz) B \<or>
       r = - 1 \<and> ustep new A s t \<and> uspace t new 0 (A \<union> tables (ptes t) new) \<and> amap (ptes t) new = amap (ptes s) new" by blast
  have u: "ustep new A s t" "pt_ok (ptes t) new" using t(2) grownD(1,2) uspaceD(2) by blast+
  note O = ustep_other(2) [OF u uspaceD(2,3) [OF assms(1)] assms(3)]
  from t(2) show ?thesis
  proof (elim disjE conjE)
    assume r: "r = 0" and g: "grown new (copyof old s) s A 0 t (npg sz) B"
    have "\<exists>e e'. amap (ptes s) old k = Some e \<and> amap (ptes t) new k = Some e' \<and> frame e' \<notin> A \<and>
            PTE_FLAGS e' = PTE_FLAGS e \<and> get_bytes (frame e') 4096 (bytes t) = get_bytes (frame e) 4096 (bytes s)"
      if "k < npg sz" for k
      using grownD(6) [OF g, of k] that by (auto simp: copyof_def)
    then show ?thesis using t(1) u(1) O r grownD(1) [OF g]
      by (intro exI [of _ r] exI [of _ t] exI [of _ B]) simp
  next
    assume "r = - 1" "uspace t new 0 (A \<union> tables (ptes t) new)" "amap (ptes t) new = amap (ptes s) new"
    then show ?thesis using t(1) u(1) O
      by (intro exI [of _ r] exI [of _ t] exI [of _ "A \<union> tables (ptes t) new"]) simp
  qed
qed

theorem uvmcopy_copies_witness:
  "\<exists>b p a c f q r t. pages (raw_vm b) {p, a, c, f, q} \<and>
    uvmcopy p q 0x800 ((raw_vm b)\<lparr>ptes := one_page p a c f\<rparr>) = Ok r t \<and> amap (ptes t) p = amap (one_page p a c f) p \<and>
    (r = 0 \<and> (\<exists>e. amap (ptes t) q 0 = Some e \<and> frame e \<notin> {p, a, c, f, q} \<and> get_bytes (frame e) 4096 (bytes t) = replicate 4096 0) \<or>
     r = - 1)"
proof -
  obtain b A where A: "card A = 5" "pages (raw_vm b) A" using boot_pages [of 5] by auto
  then obtain xs where xs: "A = set xs" "distinct xs" "length xs = 5"
    by (metis card_eq_0_iff distinct_card finite_distinct_list numeral_neq_zero)
  then obtain p a c f q where x: "xs = [p, a, c, f, q]" by (auto simp: numeral_eq_Suc length_Suc_conv)
  have n: "npg 0x800 = 1" by (simp add: npg_def)
  let ?s = "(raw_vm b)\<lparr>ptes := one_page p a c f\<rparr>"
  have m: "p \<in> A" "a \<in> A" "c \<in> A" "f \<in> A" "q \<in> A" "distinct [p, a, c, f]" "q \<notin> {p, a, c}" using xs x by auto
  note S = one_page_space [OF A(2) m(1-4,6)]
  have us: "uspace ?s p (npg 0x800) A" "uspace ?s q 0 A" "tables (ptes ?s) p \<inter> tables (ptes ?s) q = {}"
    using S(1,4) S(5) [OF m(5,7)] m(7) n by auto
  have bt: "get_bytes x 4096 (bytes ?s) = replicate 4096 0" for x
    by (rule nth_equalityI) (simp_all add: get_bytes_def raw_vm_def)
  have "\<exists>r t B. uvmcopy p q 0x800 ?s = Ok r t \<and> ustep q A ?s t \<and> amap (ptes t) p = amap (ptes ?s) p \<and>
      (r = 0 \<and> uspace t q (npg 0x800) B \<and>
         (\<forall>k < npg 0x800. \<exists>e e'. amap (ptes ?s) p k = Some e \<and> amap (ptes t) q k = Some e' \<and> frame e' \<notin> A \<and>
            PTE_FLAGS e' = PTE_FLAGS e \<and> get_bytes (frame e') 4096 (bytes t) = get_bytes (frame e) 4096 (bytes ?s)) \<or>
       r = - 1 \<and> uspace t q 0 B \<and> amap (ptes t) q = amap (ptes ?s) q)"
    by (rule uvmcopy_copies [OF us]) (simp add: UTOP_def)
  then show ?thesis using A(2) unfolding n bt xs(1) x by fastforce
qed



end
