(* ===== verification/Uprog.thy ===== *)
theory Uprog
  imports Kstring Encode Printf
begin

text \<open>
  User programs. A program runs against a script: the list of answers that the kernel gives to the system calls it makes,
  one after the other, from the point of view of one process (so \<open>fork\<close> is answered with 0 in the child and with a process
  number in the parent). The run records the calls made. When the script is used up the program waits in its last call.
  The theory has the library that the programs are linked with, \<open>user/ulib.c\<close> and \<open>user/printf.c\<close>.
\<close>

section \<open>System calls\<close>

text \<open>The calls of \<open>user/user.h\<close> with the arguments the kernel gets. The kernel's answer is the value of register
  \<open>a0\<close> and the bytes it has stored in the caller's buffer.\<close>

datatype scall =
    SysFork | SysExit int | SysWait | SysPipe | SysRead int int | SysKill int | SysExec "u8 list" "u8 list list" | SysFstat int
  | SysChdir "u8 list" | SysDup int | SysGetpid | SysSbrk int | SysSleep int | SysUptime | SysOpen "u8 list" int
  | SysWrite int "u8 list" | SysMknod "u8 list" int int | SysUnlink "u8 list" | SysLink "u8 list" "u8 list" | SysMkdir "u8 list"
  | SysClose int

record sret =
  rval :: int
  rbytes :: "u8 list"

text \<open>\<open>mallocs\<close> is the number of further calls of \<open>malloc\<close> that succeed, for programs whose use of it is not traced.\<close>

record world =
  answers :: "sret list"
  calls :: "scall list"
  mallocs :: nat

datatype ('w, 'a) ures =
    Uok 'a 'w | Uexit int 'w | Uwait 'w | Ufault string 'w | Udiverge

definition bindu :: "('w, 'a) ures \<Rightarrow> ('a \<Rightarrow> 'w \<Rightarrow> ('w, 'b) ures) \<Rightarrow> ('w, 'b) ures" where
  "bindu m f = (case m of Uok x w \<Rightarrow> f x w | Uexit n w \<Rightarrow> Uexit n w | Uwait w \<Rightarrow> Uwait w
                | Ufault e w \<Rightarrow> Ufault e w | Udiverge \<Rightarrow> Udiverge)"

lemma bindu_simps [simp, res_simps]:
  "bindu (Uok x w) f = f x w" "bindu (Uexit n w) f = Uexit n w" "bindu (Uwait w) f = Uwait w"
  "bindu (Ufault e w) f = Ufault e w" "bindu Udiverge f = Udiverge"
  by (simp_all add: bindu_def)

lemma bindu_eq_Uok: "bindu m f = Uok y t \<longleftrightarrow> (\<exists>x w. m = Uok x w \<and> f x w = Uok y t)"
  by (cases m) simp_all

lemma bindu_assoc: "bindu (bindu m f) g = bindu m (\<lambda>x w. bindu (f x w) g)"
  by (cases m) simp_all

lemma bindu_diverge: "bindu m f = Udiverge \<longleftrightarrow> m = Udiverge \<or> (\<exists>x w. m = Uok x w \<and> f x w = Udiverge)"
  by (cases m) simp_all

lemma bindu_cong [fundef_cong]:
  "m = m' \<Longrightarrow> (\<And>x w. m' = Uok x w \<Longrightarrow> f x w = f' x w) \<Longrightarrow> bindu m f = bindu m' f'"
  by (cases m') simp_all

definition sys :: "scall \<Rightarrow> 'z world_scheme \<Rightarrow> ('z world_scheme, sret) ures" where
  "sys c w =
     (let w = w\<lparr>calls := calls w @ [c]\<rparr> in
      case answers w of [] \<Rightarrow> Uwait w | r # rs \<Rightarrow> Uok r (w\<lparr>answers := rs\<rparr>))"

definition sysv :: "scall \<Rightarrow> 'z world_scheme \<Rightarrow> ('z world_scheme, int) ures" where
  "sysv c w = bindu (sys c w) (\<lambda>r w. Uok (rval r) w)"

definition uexit :: "int \<Rightarrow> 'z world_scheme \<Rightarrow> ('z world_scheme, 'a) ures" where
  "uexit n w = Uexit n (w\<lparr>calls := calls w @ [SysExit n]\<rparr>)"

lemma sys_cases [case_names wait answer]:
  assumes "answers w = [] \<Longrightarrow> sys c w = Uwait (w\<lparr>calls := calls w @ [c]\<rparr>) \<Longrightarrow> P"
    and "\<And>r rs. answers w = r # rs \<Longrightarrow> sys c w = Uok r (w\<lparr>calls := calls w @ [c], answers := rs\<rparr>) \<Longrightarrow> P"
  shows P
  by (cases "answers w") (use assms in \<open>auto simp: sys_def\<close>)

lemma sys_answer [simp]: "answers w = r # rs \<Longrightarrow> sys c w = Uok r (w\<lparr>calls := calls w @ [c], answers := rs\<rparr>)"
  by (simp add: sys_def)

lemma sys_never [simp]: "sys c w \<noteq> Udiverge" "sys c w \<noteq> Ufault e t" "sys c w \<noteq> Uexit n t"
  by (simp_all add: sys_def Let_def split: list.split)

lemma sysv_never [simp]: "sysv c w \<noteq> Udiverge" "sysv c w \<noteq> Ufault e t" "sysv c w \<noteq> Uexit n t"
  by (cases "answers w"; simp add: sysv_def sys_def)+

section \<open>The library, \<open>ulib.c\<close>\<close>

definition u_main :: "('z world_scheme \<Rightarrow> ('z world_scheme, int) ures) \<Rightarrow> 'z world_scheme \<Rightarrow> ('z world_scheme, unit) ures" where
  "u_main main w = bindu (main w) (\<lambda>_ w. uexit 0 w)"

partial_function (option) ustrcpy :: "addr \<Rightarrow> addr \<Rightarrow> bmem \<Rightarrow> bmem option" where
  "ustrcpy s t m = (let m' = m(s := m t) in if m t \<noteq> 0 then ustrcpy (s + 1) (t + 1) m' else Some m')"

partial_function (option) ustrcmp :: "addr \<Rightarrow> addr \<Rightarrow> bmem \<Rightarrow> int option" where
  "ustrcmp p q m = (if m p \<noteq> 0 \<and> m p = m q then ustrcmp (p + 1) (q + 1) m else Some (uint (m p) - uint (m q)))"

partial_function (option) ustrlen_from :: "addr \<Rightarrow> nat \<Rightarrow> bmem \<Rightarrow> nat option" where
  "ustrlen_from s n m = (if m (s + int n) \<noteq> 0 then ustrlen_from s (n + 1) m else Some n)"

definition ustrlen :: "addr \<Rightarrow> bmem \<Rightarrow> nat option" where
  "ustrlen s m = ustrlen_from s 0 m"

text \<open>The index runs through a C \<open>int\<close>, the bound is a \<open>uint\<close>.\<close>

definition umemset :: "addr \<Rightarrow> u8 \<Rightarrow> nat \<Rightarrow> bmem \<Rightarrow> bmem" where
  "umemset dst c n m = fold (\<lambda>i m. m(dst + s32 (int i) := c)) [0..<n] m"

text \<open>The outer \<open>option\<close> is the search that never ends, the inner one the null pointer.\<close>

partial_function (option) ustrchr :: "addr \<Rightarrow> u8 \<Rightarrow> bmem \<Rightarrow> addr option option" where
  "ustrchr s c m = (if m s = 0 then Some None else if m s = c then Some (Some s) else ustrchr (s + 1) c m)"

definition umemmove :: "addr \<Rightarrow> addr \<Rightarrow> int \<Rightarrow> bmem \<Rightarrow> bmem" where
  "umemmove dst src n m =
     (if src > dst then memmove_up dst src (nat n) m else memmove_down (dst + n) (src + n) (nat n) m)"

fun umemcmp :: "addr \<Rightarrow> addr \<Rightarrow> nat \<Rightarrow> bmem \<Rightarrow> int" where
  "umemcmp p1 p2 0 m = 0"
| "umemcmp p1 p2 (Suc n) m =
     (if m p1 \<noteq> m p2 then uint (m p1) - uint (m p2) else umemcmp (p1 + 1) (p2 + 1) n m)"

text \<open>\<open>atoi\<close> on the bytes of the string; the accumulator is a C \<open>int\<close>.\<close>

fun atoi_loop :: "int \<Rightarrow> u8 list \<Rightarrow> int" where
  "atoi_loop n [] = n"
| "atoi_loop n (c # cs) = (if 48 \<le> c \<and> c \<le> 57 then atoi_loop (s32 (n * 10 + uint c - 48)) cs else n)"

definition atoi :: "u8 list \<Rightarrow> int" where
  "atoi cs = atoi_loop 0 cs"

text \<open>\<open>gets\<close>: \<open>c\<close> is the local character, \<open>acc\<close> the part of \<open>buf\<close> that is filled; the first argument is the number of
  rounds the loop bound allows. The result is the string left in \<open>buf\<close>.\<close>

fun gets_loop :: "nat \<Rightarrow> u8 \<Rightarrow> u8 list \<Rightarrow> 'z world_scheme \<Rightarrow> ('z world_scheme, u8 list) ures" where
  "gets_loop 0 c acc w = Uok acc w"
| "gets_loop (Suc k) c acc w =
     bindu (sys (SysRead 0 1) w) (\<lambda>r w.
     let c = (case rbytes r of [] \<Rightarrow> c | x # _ \<Rightarrow> x) in
     if rval r < 1 then Uok acc w
     else if c = 10 \<or> c = 13 then Uok (acc @ [c]) w
     else gets_loop k c (acc @ [c]) w)"

definition gets :: "u8 \<Rightarrow> int \<Rightarrow> 'z world_scheme \<Rightarrow> ('z world_scheme, u8 list) ures" where
  "gets c mx w = gets_loop (nat (mx - 1)) c [] w"

text \<open>\<open>stat\<close> returns \<open>fstat\<close>'s result and what it has stored.\<close>

definition ustat :: "u8 list \<Rightarrow> 'z world_scheme \<Rightarrow> ('z world_scheme, int \<times> u8 list) ures" where
  "ustat n w =
     bindu (sysv (SysOpen n 0) w) (\<lambda>fd w.
     if fd < 0 then Uok (- 1, []) w
     else bindu (sys (SysFstat fd) w) (\<lambda>r w.
          bindu (sysv (SysClose fd) w) (\<lambda>_ w.
          Uok (rval r, rbytes r) w)))"

section \<open>Formatted output, \<open>printf.c\<close>\<close>

definition udigits :: "u8 list" where
  "udigits = [48, 49, 50, 51, 52, 53, 54, 55, 56, 57, 65, 66, 67, 68, 69, 70]"

text \<open>The loop that fills \<open>buf\<close>, least significant digit first; \<open>x\<close> is a \<open>uint\<close>.\<close>

function udigit_loop :: "nat \<Rightarrow> nat \<Rightarrow> u8 list" where
  "udigit_loop x base =
     udigits ! (x mod base) # (if x div base = 0 \<or> base < 2 then [] else udigit_loop (x div base) base)"
  by pat_completeness auto
termination by (relation "measure fst") (auto simp: div_eq_0_iff)

declare udigit_loop.simps [simp del]

text \<open>What \<open>printint\<close> prints.\<close>

definition uprintint :: "int \<Rightarrow> nat \<Rightarrow> bool \<Rightarrow> u8 list" where
  "uprintint xx base sg =
     (let neg = sg \<and> xx < 0;
          x = nat ((if neg then - xx else xx) mod 2 ^ 32);
          buf = udigit_loop x base @ (if neg then [45] else [])
      in rev buf)"

fun uptr_loop :: "nat \<Rightarrow> u64 \<Rightarrow> u8 list" where
  "uptr_loop 0 x = []"
| "uptr_loop (Suc n) x = udigits ! unat (drop_bit 60 x) # uptr_loop n (push_bit 4 x)"

definition uprintptr :: "u64 \<Rightarrow> u8 list" where
  "uprintptr x = [48, 120] @ uptr_loop 16 x"

text \<open>
  The arguments are integers of any width or strings. \<open>%d\<close>, \<open>%x\<close> and \<open>%c\<close> read 32 bits. \<open>%l\<close> reads 64 bits, but
  \<open>printint\<close> takes an \<open>int\<close> and prints the lower half.
\<close>

datatype uarg = UNum int | UStr "u8 list option"

fun uformat :: "u8 list \<Rightarrow> uarg list \<Rightarrow> u8 list option" where
  "uformat [] args = Some []"
| "uformat (c # fmt) args =
     (if c \<noteq> 37 then map_option ((#) c) (uformat fmt args)
      else case fmt of
        [] \<Rightarrow> Some []
      | d # fmt \<Rightarrow>
          if d \<in> {100, 108, 120, 112, 99}
          then (case args of
                  UNum i # args \<Rightarrow>
                    map_option ((@) (if d = 100 then uprintint (s32 i) 10 True
                                     else if d = 108 then uprintint (s32 i) 10 False
                                     else if d = 120 then uprintint (s32 i) 16 False
                                     else if d = 112 then uprintptr (word_of_int i)
                                     else [word_of_int i])) (uformat fmt args)
                | _ \<Rightarrow> None)
          else if d = 115
               then (case args of
                       UStr (Some str) # args \<Rightarrow> map_option ((@) str) (uformat fmt args)
                     | UStr None # args \<Rightarrow> map_option ((@) [40, 110, 117, 108, 108, 41]) (uformat fmt args)
                     | _ \<Rightarrow> None)
          else if d = 37 then map_option ((#) 37) (uformat fmt args)
          else map_option (\<lambda>out. 37 # d # out) (uformat fmt args))"

definition uputc :: "int \<Rightarrow> u8 \<Rightarrow> 'z world_scheme \<Rightarrow> ('z world_scheme, unit) ures" where
  "uputc fd c w = bindu (sysv (SysWrite fd [c]) w) (\<lambda>_ w. Uok () w)"

fun uputs :: "int \<Rightarrow> u8 list \<Rightarrow> 'z world_scheme \<Rightarrow> ('z world_scheme, unit) ures" where
  "uputs fd [] w = Uok () w"
| "uputs fd (c # cs) w = bindu (uputc fd c w) (\<lambda>_ w. uputs fd cs w)"

definition vprintf :: "int \<Rightarrow> u8 list \<Rightarrow> uarg list \<Rightarrow> 'z world_scheme \<Rightarrow> ('z world_scheme, unit) ures" where
  "vprintf fd fmt args w = (case uformat fmt args of None \<Rightarrow> Ufault ''va_arg'' w | Some out \<Rightarrow> uputs fd out w)"

definition ufprintf :: "int \<Rightarrow> u8 list \<Rightarrow> uarg list \<Rightarrow> 'z world_scheme \<Rightarrow> ('z world_scheme, unit) ures" where
  "ufprintf fd fmt args w = vprintf fd fmt args w"

definition uprintf :: "u8 list \<Rightarrow> uarg list \<Rightarrow> 'z world_scheme \<Rightarrow> ('z world_scheme, unit) ures" where
  "uprintf fmt args w = vprintf 1 fmt args w"

section \<open>What they compute\<close>

definition wrote :: "int \<Rightarrow> u8 list \<Rightarrow> scall list" where
  "wrote fd out = map (\<lambda>c. SysWrite fd [c]) out"

lemma uputs_ok:
  "length out \<le> length (answers w) \<Longrightarrow>
    uputs fd out w = Uok () (w\<lparr>calls := calls w @ wrote fd out, answers := drop (length out) (answers w)\<rparr>)"
proof (induction out arbitrary: w)
  case (Cons c cs)
  then obtain r rs where a: "answers w = r # rs" by (cases "answers w") auto
  show ?case using Cons.IH [of "w\<lparr>calls := calls w @ [SysWrite fd [c]], answers := rs\<rparr>"] Cons.prems a
    by (simp add: uputc_def sysv_def wrote_def)
qed (simp add: wrote_def)

lemma uputs_never [simp]: "uputs fd out w \<noteq> Udiverge" "uputs fd out w \<noteq> Ufault e t" "uputs fd out w \<noteq> Uexit n t"
proof -
  have "uputs fd out w \<noteq> Udiverge \<and> (\<forall>e t. uputs fd out w \<noteq> Ufault e t) \<and> (\<forall>n t. uputs fd out w \<noteq> Uexit n t)"
  proof (induction out arbitrary: w)
    case (Cons c cs)
    then show ?case by (cases "answers w") (auto simp: uputc_def sysv_def sys_def)
  qed simp
  then show "uputs fd out w \<noteq> Udiverge" "uputs fd out w \<noteq> Ufault e t" "uputs fd out w \<noteq> Uexit n t" by auto
qed

text \<open>
  \<open>memmove\<close> of the library copies downwards whenever the source is below the destination, the kernel's only when the two
  overlap. The results are the same.
\<close>

lemma umemmove_memmove: "umemmove dst src (int n) m = memmove dst src n m"
proof
  fix a
  consider "n = 0" | "0 < n" "src = dst" | "0 < n" "src < dst" | "0 < n" "dst < src" by linarith
  then show "umemmove dst src (int n) m a = memmove dst src n m a"
  proof cases
    case 2
    have "memmove_down d d k m' = m'" for d k and m' :: bmem by (induction k arbitrary: d m') auto
    moreover have "memmove_up d d k m' = m'" for d k and m' :: bmem by (induction k arbitrary: d m') auto
    ultimately show ?thesis using 2 by (simp add: umemmove_def memmove_def)
  next
    case 3
    then show ?thesis by (auto simp: umemmove_def memmove_def memmove_down_eq memmove_up_eq)
  next
    case 4
    then show ?thesis by (auto simp: umemmove_def memmove_def)
  qed (simp_all add: umemmove_def memmove_def)
qed

section \<open>Printing and reading numbers\<close>

lemma udigit_dec_uint:
  assumes "k < 10"
  shows "uint (udigits ! k) = 48 + int k \<and> 48 \<le> udigits ! k \<and> udigits ! k \<le> 57"
proof -
  have "k = 0 \<or> k = 1 \<or> k = 2 \<or> k = 3 \<or> k = 4 \<or> k = 5 \<or> k = 6 \<or> k = 7 \<or> k = 8 \<or> k = 9" using assms by arith
  then show ?thesis by (elim disjE) (simp_all add: udigits_def)
qed

lemma atoi_digits:
  "x < 2 ^ 31 \<Longrightarrow> atoi_loop 0 (rev (udigit_loop x 10) @ cs) = atoi_loop (int x) cs"
proof (induction x arbitrary: cs rule: less_induct)
  case (less x)
  define d where "d = udigits ! (x mod 10)"
  have d: "uint d = 48 + int (x mod 10)" "48 \<le> d" "d \<le> 57" using udigit_dec_uint [of "x mod 10"] by (simp_all add: d_def)
  have s: "s32 (int (x div 10) * 10 + uint d - 48) = int x"
    using less.prems unfolding d(1) by (subst s32_nonneg) (simp_all add: zdiv_int zmod_int)
  show ?case
  proof (cases "x div 10 = 0")
    case True
    then have "udigit_loop x 10 = [d]" by (simp add: udigit_loop.simps [of x] d_def)
    then show ?thesis using d s True by simp
  next
    case False
    then have "udigit_loop x 10 = d # udigit_loop (x div 10) 10" by (simp add: udigit_loop.simps [of x] d_def)
    moreover have "x div 10 < x" using False by (intro div_less_dividend) (auto intro: gr0I)
    ultimately show ?thesis using less.IH [of "x div 10" "d # cs"] less.prems d s by simp
  qed
qed

lemma udigit_length: "2 \<le> b \<Longrightarrow> x < b ^ Suc n \<Longrightarrow> length (udigit_loop x b) \<le> Suc n"
proof (induction n arbitrary: x)
  case 0
  then show ?case by (simp add: udigit_loop.simps [of x])
next
  case (Suc n)
  have "x div b < b ^ Suc n" using Suc.prems by (simp add: less_mult_imp_div_less mult.commute)
  from Suc.IH [OF Suc.prems(1) this] show ?case by (simp add: udigit_loop.simps [of x])
qed

lemma uprintint_length: "length (uprintint y 10 sg) \<le> 11" "length (uprintint y 16 sg) \<le> 9"
proof -
  have x: "nat (z mod 2 ^ 32) < 2 ^ 32" for z :: int by (simp add: nat_less_iff)
  have "length (udigit_loop (nat (z mod 2 ^ 32)) 10) \<le> 10" "length (udigit_loop (nat (z mod 2 ^ 32)) 16) \<le> 8" for z :: int
    using udigit_length [of 10 "nat (z mod 2 ^ 32)" 9] udigit_length [of 16 "nat (z mod 2 ^ 32)" 7] x [of z] by simp_all
  from this [of y] this [of "- y"] show "length (uprintint y 10 sg) \<le> 11" "length (uprintint y 16 sg) \<le> 9"
    by (auto simp: uprintint_def Let_def)
qed

text \<open>
  C36. What the library's \<open>printf\<close> prints for a non-negative \<open>int\<close> with \<open>%d\<close> is read back by \<open>atoi\<close> as the same
  number. No argument overruns the 16 bytes of \<open>buf\<close> in \<open>printint\<close>, in base 10 or 16, with its sign.
\<close>

theorem printf_atoi_roundtrip:
  assumes "0 \<le> x" and "x < 2 ^ 31"
  shows "map_option atoi (uformat [37, 100] [UNum x]) = Some x \<and> length (uprintint y 10 sg) \<le> 16 \<and> length (uprintint y 16 sg) \<le> 16"
proof -
  have "uprintint (s32 x) 10 True = rev (udigit_loop (nat x) 10)"
    using assms by (simp add: uprintint_def s32_nonneg)
  moreover have "atoi_loop 0 (rev (udigit_loop (nat x) 10)) = x" using atoi_digits [of "nat x" "[]"] assms by simp
  ultimately show ?thesis using uprintint_length [of y sg] by (simp add: atoi_def)
qed

theorem printf_atoi_roundtrip_witness:
  "map_option atoi (uformat [37, 100] [UNum 20410]) = Some 20410 \<and> length (uprintint (- 2147483648) 10 True) \<le> 16 \<and>
   length (uprintint (- 2147483648) 16 True) \<le> 16"
  using printf_atoi_roundtrip [of 20410 "- 2147483648" True] by simp

section \<open>Runs\<close>

text \<open>
  \<open>ran w t ps\<close>: between \<open>w\<close> and \<open>t\<close> the program has made the calls of \<open>ps\<close> and got the answers of \<open>ps\<close>.
\<close>

definition ran :: "'z world_scheme \<Rightarrow> 'z world_scheme \<Rightarrow> (scall \<times> sret) list \<Rightarrow> bool" where
  "ran w t ps \<longleftrightarrow> calls t = calls w @ map fst ps \<and> answers w = map snd ps @ answers t"

lemma ran_refl: "ran w w []"
  by (simp add: ran_def)

lemma ran_trans: "ran w t ps \<Longrightarrow> ran t u qs \<Longrightarrow> ran w u (ps @ qs)"
  by (simp add: ran_def)

lemma ran_sys: "sys c w = Uok r t \<Longrightarrow> ran w t [(c, r)]"
  by (cases "answers w") (auto simp: sys_def ran_def)

lemma ran_sysv: "sysv c w = Uok v t \<Longrightarrow> \<exists>r. ran w t [(c, r)]"
  by (auto simp: sysv_def bindu_eq_Uok dest: ran_sys)

definition bytes_in :: "(scall \<times> sret) list \<Rightarrow> u8 list" where
  "bytes_in ps = concat (map (\<lambda>(c, r). case c of SysRead fd n \<Rightarrow> if rval r > 0 then rbytes r else [] | _ \<Rightarrow> []) ps)"

definition bytes_out :: "(scall \<times> sret) list \<Rightarrow> u8 list" where
  "bytes_out ps = concat (map (\<lambda>(c, r). case c of SysWrite fd d \<Rightarrow> d | _ \<Rightarrow> []) ps)"

lemma io_simps [simp]:
  "bytes_in [] = []" "bytes_out [] = []" "bytes_in (ps @ qs) = bytes_in ps @ bytes_in qs" "bytes_out (ps @ qs) = bytes_out ps @ bytes_out qs"
  "bytes_in [(SysWrite fd d, r)] = []" "bytes_out [(SysWrite fd d, r)] = d" "bytes_out [(SysRead fd n, r)] = []"
  "bytes_in [(SysRead fd n, r)] = (if rval r > 0 then rbytes r else [])"
  by (simp_all add: bytes_in_def bytes_out_def)

lemma sys_shorter: "sys c w = Uok r t \<Longrightarrow> length (answers t) < length (answers w)"
  by (cases "answers w") (auto simp: sys_def)

lemma sysv_shorter: "sysv c w = Uok r t \<Longrightarrow> length (answers t) < length (answers w)"
  by (auto simp: sysv_def bindu_eq_Uok dest: sys_shorter)

lemma uputs_shorter: "uputs fd out w = Uok u t \<Longrightarrow> length (answers t) \<le> length (answers w)"
proof (induction out arbitrary: w)
  case (Cons c cs)
  then obtain v where "uputc fd c w = Uok () v" "uputs fd cs v = Uok u t" by (auto simp: bindu_eq_Uok)
  moreover from this have "length (answers v) \<le> length (answers w)"
    by (auto simp: uputc_def bindu_eq_Uok dest!: sysv_shorter)
  ultimately show ?case using Cons.IH [of v] by simp
qed simp

lemma vprintf_shorter: "vprintf fd fmt args w = Uok u t \<Longrightarrow> length (answers t) \<le> length (answers w)"
  by (auto simp: vprintf_def split: option.splits dest: uputs_shorter)

lemma uprintf_shorter: "uprintf fmt args w = Uok u t \<Longrightarrow> length (answers t) \<le> length (answers w)"
  unfolding uprintf_def by (rule vprintf_shorter)

lemma ufprintf_shorter: "ufprintf fd fmt args w = Uok u t \<Longrightarrow> length (answers t) \<le> length (answers w)"
  unfolding ufprintf_def by (rule vprintf_shorter)

lemma ustat_shorter: "ustat n w = Uok x t \<Longrightarrow> length (answers t) \<le> length (answers w)"
  by (fastforce simp: ustat_def bindu_eq_Uok split: if_splits dest: sysv_shorter sys_shorter)

lemma gets_shorter: "gets c mx w = Uok u t \<Longrightarrow> length (answers t) \<le> length (answers w)"
proof -
  have "gets_loop k c acc w = Uok u t \<Longrightarrow> length (answers t) \<le> length (answers w)" for k acc
  proof (induction k arbitrary: c acc w)
    case (Suc k)
    then obtain r v where v: "sys (SysRead 0 1) w = Uok r v" by (auto simp: bindu_eq_Uok)
    have "length (answers t) \<le> length (answers v)"
      using Suc.prems Suc.IH [of _ _ v] by (auto simp: v Let_def split: if_splits)
    then show ?case using sys_shorter [OF v] by simp
  qed simp
  then show "gets c mx w = Uok u t \<Longrightarrow> length (answers t) \<le> length (answers w)" by (simp add: gets_def)
qed

end
