(* ===== verification/Grep.thy ===== *)
theory Grep
  imports Uprog
begin

text \<open>
  \<open>user/grep.c\<close>: the matcher for regular expressions, the loop that cuts the input into lines, and the program. The matcher
  is compared with a relation that says what a pattern means, and the lines printed with the lines of the input, which
  does not depend on how the kernel splits the input over the reads.
\<close>

section \<open>The matcher\<close>

text \<open>Patterns and texts are the bytes of the C strings. \<open>42\<close> is the star, \<open>36\<close> the dollar, \<open>46\<close> the dot, \<open>94\<close> the caret.\<close>

fun matchhere :: "u8 list \<Rightarrow> u8 list \<Rightarrow> bool"
  and matchstar :: "u8 \<Rightarrow> u8 list \<Rightarrow> u8 list \<Rightarrow> bool" where
  "matchhere [] tx = True"
| "matchhere (r # re) tx =
     (case re of
        x # re' \<Rightarrow>
          if x = 42 then matchstar r re' tx
          else (case tx of [] \<Rightarrow> False | t # ts \<Rightarrow> (r = 46 \<or> r = t) \<and> matchhere re ts)
      | [] \<Rightarrow>
          if r = 36 then tx = []
          else (case tx of [] \<Rightarrow> False | t # ts \<Rightarrow> (r = 46 \<or> r = t) \<and> matchhere re ts))"
| "matchstar c re tx =
     (matchhere re tx \<or> (case tx of [] \<Rightarrow> False | t # ts \<Rightarrow> (t = c \<or> c = 46) \<and> matchstar c re ts))"

fun match_loop :: "u8 list \<Rightarrow> u8 list \<Rightarrow> bool" where
  "match_loop re [] = matchhere re []"
| "match_loop re (t # ts) = (matchhere re (t # ts) \<or> match_loop re ts)"

definition match :: "u8 list \<Rightarrow> u8 list \<Rightarrow> bool" where
  "match re tx = (case re of r # re' \<Rightarrow> if r = 94 then matchhere re' tx else match_loop re tx | [] \<Rightarrow> match_loop re tx)"

section \<open>What a pattern means\<close>

text \<open>
  A pattern is a sequence of items: a character or any character, once or any number of times, and the end of the text.
  \<open>denotes is p r\<close>: the items describe \<open>p\<close>, followed by \<open>r\<close>.
\<close>

datatype item = One u8 | Star u8 | End

fun items :: "u8 list \<Rightarrow> item list" where
  "items [] = []"
| "items [c] = [if c = 36 then End else One c]"
| "items (c # x # re) = (if x = 42 then Star c # items re else One c # items (x # re))"

definition admits :: "u8 \<Rightarrow> u8 \<Rightarrow> bool" where
  "admits c t \<longleftrightarrow> c = 46 \<or> c = t"

inductive denotes :: "item list \<Rightarrow> u8 list \<Rightarrow> u8 list \<Rightarrow> bool" where
  nil: "denotes [] [] r"
| one: "admits c t \<Longrightarrow> denotes is p r \<Longrightarrow> denotes (One c # is) (t # p) r"
| star: "list_all (admits c) q \<Longrightarrow> denotes is p r \<Longrightarrow> denotes (Star c # is) (q @ p) r"
| fin: "denotes [End] [] []"

inductive_cases denotes_NilE: "denotes [] p r"
inductive_cases denotes_OneE: "denotes (One c # is) p r"
inductive_cases denotes_StarE: "denotes (Star c # is) p r"
inductive_cases denotes_EndE: "denotes [End] p r"

definition here :: "item list \<Rightarrow> u8 list \<Rightarrow> bool" where
  "here is tx \<longleftrightarrow> (\<exists>p r. tx = p @ r \<and> denotes is p r)"

lemma here_Nil: "here [] tx"
  unfolding here_def by (rule exI [of _ "[]"], rule exI [of _ tx]) (simp add: denotes.nil)

lemma here_End: "here [End] tx \<longleftrightarrow> tx = []"
  by (auto simp: here_def elim: denotes_EndE intro: denotes.fin)

lemma here_One: "here (One c # is) tx \<longleftrightarrow> (\<exists>t ts. tx = t # ts \<and> admits c t \<and> here is ts)"
proof
  assume "here (One c # is) tx"
  then show "\<exists>t ts. tx = t # ts \<and> admits c t \<and> here is ts" unfolding here_def by (elim exE conjE denotes_OneE) (simp, blast)
next
  assume "\<exists>t ts. tx = t # ts \<and> admits c t \<and> here is ts"
  then obtain t p r where "tx = t # p @ r" "admits c t" "denotes is p r" by (auto simp: here_def)
  then show "here (One c # is) tx" unfolding here_def by (intro exI [of _ "t # p"] exI [of _ r]) (simp add: denotes.one)
qed

lemma here_Star: "here (Star c # is) tx \<longleftrightarrow> here is tx \<or> (\<exists>t ts. tx = t # ts \<and> admits c t \<and> here (Star c # is) ts)"
proof
  assume "here (Star c # is) tx"
  then obtain q p r where e: "tx = (q @ p) @ r" "list_all (admits c) q" "denotes is p r"
    by (auto simp: here_def elim!: denotes_StarE)
  show "here is tx \<or> (\<exists>t ts. tx = t # ts \<and> admits c t \<and> here (Star c # is) ts)"
  proof (cases q)
    case Nil
    then show ?thesis using e by (auto simp: here_def)
  next
    case (Cons t q')
    then have "here (Star c # is) (q' @ p @ r)" using e denotes.star [of c q' "is" p r]
      unfolding here_def by (intro exI [of _ "q' @ p"] exI [of _ r]) simp
    then show ?thesis using Cons e by auto
  qed
next
  assume "here is tx \<or> (\<exists>t ts. tx = t # ts \<and> admits c t \<and> here (Star c # is) ts)"
  then show "here (Star c # is) tx"
  proof
    assume "here is tx"
    then obtain p r where "tx = p @ r" "denotes is p r" by (auto simp: here_def)
    then show ?thesis using denotes.star [of c "[]" "is" p r] by (auto simp: here_def)
  next
    assume "\<exists>t ts. tx = t # ts \<and> admits c t \<and> here (Star c # is) ts"
    then obtain t q p r where "tx = t # (q @ p) @ r" "admits c t" "list_all (admits c) q" "denotes is p r"
      by (auto simp: here_def elim!: denotes_StarE)
    then show ?thesis using denotes.star [of c "t # q" "is" p r]
      unfolding here_def by (intro exI [of _ "(t # q) @ p"] exI [of _ r]) simp
  qed
qed

lemma matchhere_here:
  "matchhere re tx \<longleftrightarrow> here (items re) tx"
  "matchstar c re tx \<longleftrightarrow> here (Star c # items re) tx"
proof (induction re tx and c re tx rule: matchhere_matchstar.induct)
  case (1 tx)
  then show ?case by (simp add: here_Nil)
next
  case (2 r re tx)
  then show ?case
    by (cases re; cases tx) (auto simp: here_End here_One here_Nil admits_def)
next
  case (3 c re tx)
  then show ?case by (subst here_Star) (auto simp: admits_def split: list.splits)
qed

lemma match_loop_suffix: "match_loop re tx \<longleftrightarrow> (\<exists>pre suf. tx = pre @ suf \<and> here (items re) suf)"
proof (induction tx)
  case (Cons t ts)
  have "(\<exists>pre suf. t # ts = pre @ suf \<and> here (items re) suf) \<longleftrightarrow>
      here (items re) (t # ts) \<or> (\<exists>pre suf. ts = pre @ suf \<and> here (items re) suf)"
    by (auto simp: Cons_eq_append_conv)
  with Cons show ?case by (simp add: matchhere_here)
qed (simp add: matchhere_here)

text \<open>
  C34. The matcher decides the meaning of patterns: it succeeds on a text exactly when the text has a part described by the
  pattern's items, which is at the start of the text when the pattern begins with a caret and at its end when the pattern
  ends with a dollar.
\<close>

theorem match_denotes:
  "match re tx \<longleftrightarrow>
     (\<exists>pre p post. tx = pre @ p @ post \<and>
       (if re \<noteq> [] \<and> hd re = 94 then pre = [] \<and> denotes (items (tl re)) p post else denotes (items re) p post))"
proof (cases "re \<noteq> [] \<and> hd re = 94")
  case True
  then obtain re' where "re = 94 # re'" by (cases re) auto
  then show ?thesis by (auto simp: match_def matchhere_here here_def)
next
  case False
  then have "match re tx \<longleftrightarrow> match_loop re tx" by (cases re) (simp_all add: match_def)
  then show ?thesis using False by (auto simp: match_loop_suffix here_def)
qed

section \<open>The program\<close>

text \<open>
  The inner loop over the complete lines in \<open>buf\<close>, from \<open>p\<close> to the end of the data. Both \<open>strchr\<close> and the matcher stop at
  a zero byte. The result is what is left from \<open>p\<close> on.
\<close>

definition in_line :: "u8 \<Rightarrow> bool" where
  "in_line c \<longleftrightarrow> c \<noteq> 10 \<and> c \<noteq> 0"

function grep_lines :: "u8 list \<Rightarrow> u8 list \<Rightarrow> 'z world_scheme \<Rightarrow> ('z world_scheme, u8 list) ures" where
  "grep_lines pattern p w =
     (let l = takeWhile in_line p; q = dropWhile in_line p in
      if q \<noteq> [] \<and> hd q = 10
      then bindu (if match pattern l then sysv (SysWrite 1 (l @ [10])) w else Uok 0 w) (\<lambda>_ w.
           grep_lines pattern (tl q) w)
      else Uok p w)"
  by pat_completeness auto
termination
  by (relation "measure (\<lambda>(pattern, p, w). length p)")
    (auto intro: less_le_trans [OF diff_Suc_less length_dropWhile_le] simp: length_greater_0_conv dropWhile_eq_Nil_conv)

declare grep_lines.simps [simp del]

lemma grep_lines_shorter: "grep_lines pattern p w = Uok r t \<Longrightarrow> length (answers t) \<le> length (answers w)"
proof (induction pattern p w rule: grep_lines.induct)
  case (1 pattern p w)
  show ?case
  proof (cases "dropWhile in_line p \<noteq> [] \<and> hd (dropWhile in_line p) = 10")
    case True
    with "1.prems" obtain v u where u: "(if match pattern (takeWhile in_line p) then sysv (SysWrite 1 (takeWhile in_line p @ [10])) w else Uok 0 w) = Uok v u"
      "grep_lines pattern (tl (dropWhile in_line p)) u = Uok r t"
      by (auto simp: grep_lines.simps [of pattern p w] bindu_eq_Uok Let_def)
    have "length (answers t) \<le> length (answers u)" using "1.IH" [OF refl refl True u(1,2)] .
    moreover have "length (answers u) \<le> length (answers w)" using u(1) sysv_shorter [of _ w v u]
      by (auto split: if_splits intro: less_imp_le)
    ultimately show ?thesis by simp
  next
    case False
    with "1.prems" show ?thesis by (auto simp: grep_lines.simps [of pattern p w] Let_def)
  qed
qed

text \<open>
  \<open>grep\<close>: \<open>rest\<close> are the \<open>m\<close> bytes at the start of \<open>buf\<close>, which has 1024. More bytes than were asked for would overrun it.
\<close>

function grep :: "u8 list \<Rightarrow> int \<Rightarrow> u8 list \<Rightarrow> 'z world_scheme \<Rightarrow> ('z world_scheme, unit) ures" where
  "grep pattern fd rest w =
     bindu (sys (SysRead fd (1023 - int (length rest))) w) (\<lambda>r w.
     if rval r \<le> 0 then Uok () w
     else if length (rest @ rbytes r) > 1023 then Ufault ''buf'' w
     else bindu (grep_lines pattern (rest @ rbytes r) w) (\<lambda>rest w. grep pattern fd rest w))"
  by pat_completeness auto
termination
  by (relation "measure (\<lambda>(pattern, fd, rest, w). length (answers w))")
    (auto dest!: sys_shorter grep_lines_shorter)

declare grep.simps [simp del]

fun grep_files :: "u8 list \<Rightarrow> u8 list list \<Rightarrow> 'z world_scheme \<Rightarrow> ('z world_scheme, unit) ures" where
  "grep_files pattern [] w = uexit 0 w"
| "grep_files pattern (f # fs) w =
     bindu (sysv (SysOpen f 0) w) (\<lambda>fd w.
     if fd < 0 then bindu (uprintf (cstr ''grep: cannot open %s'' @ [10]) [UStr (Some f)] w) (\<lambda>_ w. uexit 1 w)
     else bindu (grep pattern fd [] w) (\<lambda>_ w.
          bindu (sysv (SysClose fd) w) (\<lambda>_ w. grep_files pattern fs w)))"

definition grep_main :: "u8 list list \<Rightarrow> 'z world_scheme \<Rightarrow> ('z world_scheme, unit) ures" where
  "grep_main argv w =
     (if length argv \<le> 1 then bindu (ufprintf 2 (cstr ''usage: grep pattern [file ...]'' @ [10]) [] w) (\<lambda>_ w. uexit 1 w)
      else if length argv \<le> 2 then bindu (grep (argv ! 1) 0 [] w) (\<lambda>_ w. uexit 0 w)
      else grep_files (argv ! 1) (drop 2 argv) w)"

section \<open>What it prints\<close>

text \<open>The complete lines of a text, and what follows the last of them.\<close>

fun split_lines :: "u8 list \<Rightarrow> u8 list \<Rightarrow> u8 list list \<times> u8 list" where
  "split_lines acc [] = ([], acc)"
| "split_lines acc (c # cs) =
     (if c = 10 then (let (ls, r) = split_lines [] cs in (acc # ls, r)) else split_lines (acc @ [c]) cs)"

definition unlines :: "u8 list list \<Rightarrow> u8 list" where
  "unlines ls = concat (map (\<lambda>l. l @ [10]) ls)"

lemma split_lines_line: "10 \<notin> set l \<Longrightarrow> split_lines acc (l @ 10 # r) = (let (ls, x) = split_lines [] r in ((acc @ l) # ls, x))"
  by (induction l arbitrary: acc) auto

lemma split_lines_none: "10 \<notin> set l \<Longrightarrow> split_lines acc l = ([], acc @ l)"
  by (induction l arbitrary: acc) auto

lemma split_lines_append:
  "split_lines acc (p @ q) = (let (ls, r) = split_lines acc p; (ls', r') = split_lines r q in (ls @ ls', r'))"
  by (induction acc p rule: split_lines.induct) (auto simp: Let_def split: prod.splits)

lemma split_lines_rest: "10 \<notin> set acc \<Longrightarrow> 10 \<notin> set (snd (split_lines acc p))"
  by (induction acc p rule: split_lines.induct) (auto simp: Let_def split: prod.splits)

lemma split_lines_rest_set: "set (snd (split_lines acc p)) \<subseteq> set acc \<union> set p"
  by (induction acc p rule: split_lines.induct) (auto simp: Let_def case_prod_unfold)

lemma split_lines_start:
  assumes "10 \<notin> set r"
  shows "split_lines [] (r @ q) = split_lines r q"
  using split_lines_append [of "[]" r q] split_lines_none [OF assms, of "[]"] by (cases "split_lines r q") simp

lemma unlines_simps [simp]: "unlines [] = []" "unlines (l # ls) = l @ 10 # unlines ls" "unlines (ls @ ls') = unlines ls @ unlines ls'"
  by (simp_all add: unlines_def)

definition matches :: "u8 list \<Rightarrow> u8 list \<Rightarrow> u8 list" where
  "matches pattern p = unlines (filter (match pattern) (fst (split_lines [] p)))"

lemma matches_line:
  assumes "10 \<notin> set l"
  shows "matches pattern (l @ 10 # r) = (if match pattern l then l @ [10] else []) @ matches pattern r"
  using assms by (simp add: matches_def split_lines_line split: prod.split)

lemma matches_append:
  "matches pattern (p @ q) = matches pattern p @ matches pattern (snd (split_lines [] p) @ q)"
proof -
  have "10 \<notin> set (snd (split_lines [] p))" by (rule split_lines_rest) simp
  from split_lines_start [OF this, of q] show ?thesis
    by (simp add: matches_def split_lines_append [of "[]" p q] split: prod.split)
qed

lemma sys_wait: "sys c w = Uwait t \<Longrightarrow> answers t = []"
  by (cases "answers w") (auto simp: sys_def)

lemma sysv_wait: "sysv c w = Uwait t \<Longrightarrow> answers t = []"
  by (cases "answers w") (auto simp: sys_def sysv_def)

lemma grep_lines_ok:
  "0 \<notin> set p \<Longrightarrow>
    (case grep_lines pattern p w of
       Uok r t \<Rightarrow> r = snd (split_lines [] p) \<and> (\<exists>ps. ran w t ps \<and> bytes_in ps = [] \<and> bytes_out ps = matches pattern p)
     | Uwait t \<Rightarrow> answers t = []
     | _ \<Rightarrow> False)"
proof (induction pattern p w rule: grep_lines.induct)
  case (1 pattern p w)
  define l where "l = takeWhile in_line p"
  define q where "q = dropWhile in_line p"
  have p: "p = l @ q" by (simp add: l_def q_def)
  have l: "10 \<notin> set l" by (auto simp: l_def in_line_def dest: set_takeWhileD)
  show ?case
  proof (cases "q \<noteq> [] \<and> hd q = 10")
    case False
    have "q = []"
    proof (rule ccontr)
      assume "q \<noteq> []"
      then have "\<not> in_line (hd q)" using hd_dropWhile [of in_line p] unfolding q_def by blast
      moreover have "hd q \<in> set p" using \<open>q \<noteq> []\<close> unfolding p by simp
      ultimately show False using False \<open>q \<noteq> []\<close> "1.prems" by (auto simp: in_line_def)
    qed
    then have "split_lines [] p = ([], p)" using l p by (simp add: split_lines_none)
    then show ?thesis using False unfolding grep_lines.simps [of pattern p w]
      by (auto simp: l_def [symmetric] q_def [symmetric] matches_def intro: exI [of _ "[]"] ran_refl)
  next
    case True
    then obtain r where q: "q = 10 # r" by (cases q) auto
    have tq: "tl q = r" by (simp add: q)
    have r: "0 \<notin> set r" using "1.prems" by (simp add: p q)
    have sp: "snd (split_lines [] p) = snd (split_lines [] r)" by (simp add: p q split_lines_line [OF l] split: prod.split)
    let ?m = "if match pattern l then sysv (SysWrite 1 (l @ [10])) w else Uok 0 w"
    have g: "grep_lines pattern p w = bindu ?m (\<lambda>_ w. grep_lines pattern r w)"
      unfolding grep_lines.simps [of pattern p w] by (simp add: l_def [symmetric] q_def [symmetric] q)
    have IH: "?m = Uok v u \<Longrightarrow>
       (case grep_lines pattern r u of
         Uok x t \<Rightarrow> x = snd (split_lines [] r) \<and> (\<exists>ps. ran u t ps \<and> bytes_in ps = [] \<and> bytes_out ps = matches pattern r)
       | Uwait t \<Rightarrow> answers t = [] | _ \<Rightarrow> False)" for v u
      using "1.IH" [OF l_def q_def True, of v u] r unfolding tq by blast
    show ?thesis
    proof (cases ?m)
      case (Uok v u)
      obtain ps where ps: "ran w u ps" "bytes_in ps = []" "bytes_out ps = (if match pattern l then l @ [10] else [])"
      proof (cases "match pattern l")
        case True
        then show ?thesis using that ran_sysv [of "SysWrite 1 (l @ [10])" w v u] Uok by fastforce
      next
        case False
        then show ?thesis using that [of "[]"] Uok by (simp add: ran_refl)
      qed
      have m: "matches pattern p = bytes_out ps @ matches pattern r" unfolding p q matches_line [OF l] ps(3) ..
      show ?thesis
      proof (cases "grep_lines pattern r u")
        case (Uok x t)
        then obtain qs where "x = snd (split_lines [] r)" "ran u t qs" "bytes_in qs = []" "bytes_out qs = matches pattern r"
          using IH [OF \<open>?m = Uok v u\<close>] by auto
        then have "x = snd (split_lines [] p)" "ran w t (ps @ qs)" "bytes_in (ps @ qs) = []" "bytes_out (ps @ qs) = matches pattern p"
          using ran_trans [OF ps(1)] ps(2) m sp by auto
        then show ?thesis using Uok by (auto simp: g \<open>?m = Uok v u\<close>)
      qed (use IH [OF \<open>?m = Uok v u\<close>] in \<open>auto simp: g \<open>?m = Uok v u\<close>\<close>)
    qed (simp_all add: g sysv_wait split: if_splits)
  qed
qed

lemma grep_run:
  assumes "0 \<notin> set rest" and "\<And>r. r \<in> set (answers w) \<Longrightarrow> 0 \<notin> set (rbytes r)" and "10 \<notin> set rest"
  shows "case grep pattern fd rest w of
      Uok _ t \<Rightarrow> \<exists>ps n r. ran w t (ps @ [(SysRead fd n, r)]) \<and> rval r \<le> 0 \<and> bytes_out ps = matches pattern (rest @ bytes_in ps)
    | Uwait t \<Rightarrow> answers t = []
    | Ufault e t \<Rightarrow> \<exists>ps n r. ran w t (ps @ [(SysRead fd n, r)]) \<and> int (length (rbytes r)) > n
    | _ \<Rightarrow> False"
  using assms
proof (induction pattern fd rest w rule: grep.induct)
  case (1 pattern fd rest w)
  let ?c = "SysRead fd (1023 - int (length rest))"
  show ?case
  proof (cases "sys ?c w")
    case (Uok r u)
    note ru = ran_sys [OF Uok]
    consider (eof) "rval r \<le> 0" | (big) "rval r > 0" "length (rest @ rbytes r) > 1023" | (some) "\<not> rval r \<le> 0" "\<not> 1023 < length (rest @ rbytes r)"
      by linarith
    then show ?thesis
    proof cases
      case eof
      have "matches pattern rest = []" using split_lines_none [OF "1.prems"(3), of "[]"] by (simp add: matches_def)
      then show ?thesis using eof ru unfolding grep.simps [of pattern fd rest w] Uok
        by (auto intro!: exI [of _ "[]"] exI [of _ "1023 - int (length rest)"] exI [of _ r])
    next
      case big
      then show ?thesis using ru unfolding grep.simps [of pattern fd rest w] Uok
        by (auto intro!: exI [of _ "[]"] exI [of _ "1023 - int (length rest)"] exI [of _ r])
    next
      case some
      let ?p = "rest @ rbytes r"
      have a: "r \<in> set (answers w)" "set (answers u) \<subseteq> set (answers w)" using ru by (auto simp: ran_def)
      have z: "0 \<notin> set ?p" using "1.prems"(1,2) a(1) by auto
      have g: "grep pattern fd rest w = bindu (grep_lines pattern ?p u) (\<lambda>rest w. grep pattern fd rest w)"
        using some unfolding grep.simps [of pattern fd rest w] Uok by auto
      note L = grep_lines_ok [OF z, where pattern = pattern and w = u]
      show ?thesis
      proof (cases "grep_lines pattern ?p u")
        case (Uok x v)
        then obtain ps where x: "x = snd (split_lines [] ?p)" and ps: "ran u v ps" "bytes_in ps = []" "bytes_out ps = matches pattern ?p"
          using L by auto
        have b: "set (answers v) \<subseteq> set (answers w)" using ps(1) a(2) by (auto simp: ran_def)
        have xz: "0 \<notin> set x" using split_lines_rest_set [of "[]" ?p] z unfolding x by auto
        have xn: "10 \<notin> set x" unfolding x by (rule split_lines_rest) simp
        have G: "grep pattern fd rest w = grep pattern fd x v" unfolding g Uok by simp
        have IH: "case grep pattern fd x v of
            Uok _ t \<Rightarrow> \<exists>ps n r. ran v t (ps @ [(SysRead fd n, r)]) \<and> rval r \<le> 0 \<and> bytes_out ps = matches pattern (x @ bytes_in ps)
          | Uwait t \<Rightarrow> answers t = []
          | Ufault e t \<Rightarrow> \<exists>ps n r. ran v t (ps @ [(SysRead fd n, r)]) \<and> int (length (rbytes r)) > n
          | _ \<Rightarrow> False"
          by (rule "1.IH" [OF \<open>sys ?c w = Uok r u\<close> some Uok xz _ xn]) (use "1.prems"(2) b in auto)
        have wv: "ran w v ([(?c, r)] @ ps)" by (rule ran_trans [OF ru ps(1)])
        show ?thesis
        proof (cases "grep pattern fd x v")
          case (Uok _ t)
          then obtain qs n s where q: "ran v t (qs @ [(SysRead fd n, s)])" "rval s \<le> 0" "bytes_out qs = matches pattern (x @ bytes_in qs)"
            using IH by auto
          have "bytes_out ((?c, r) # ps @ qs) = matches pattern (rest @ bytes_in ((?c, r) # ps @ qs))"
            using matches_append [of pattern ?p "bytes_in qs"] ps q(3) some(1)
              io_simps(3) [of "[(?c, r)]" "ps @ qs"] io_simps(4) [of "[(?c, r)]" "ps @ qs"] by (simp add: x)
          moreover have "ran w t (((?c, r) # ps @ qs) @ [(SysRead fd n, s)])" using ran_trans [OF wv q(1)] by simp
          ultimately show ?thesis using q(2) unfolding G Uok ures.case by blast
        next
          case (Ufault e t)
          then obtain qs n s where q: "ran v t (qs @ [(SysRead fd n, s)])" "int (length (rbytes s)) > n" using IH by auto
          have "ran w t (((?c, r) # ps @ qs) @ [(SysRead fd n, s)])" using ran_trans [OF wv q(1)] by simp
          then show ?thesis using q(2) unfolding G Ufault ures.case by blast
        qed (use IH in \<open>simp_all add: G\<close>)
      qed (use L in \<open>simp_all add: g\<close>)
    qed
  qed (simp_all add: grep.simps [of pattern fd rest w] sys_wait)
qed


text \<open>The input \<open>ab\<close>, newline, \<open>ca\<close>, newline, split in the middle of the second line.\<close>

definition two_reads :: world where
  "two_reads = \<lparr>answers = [\<lparr>rval = 4, rbytes = [97, 98, 10, 99]\<rparr>, \<lparr>rval = 3, rbytes = []\<rparr>, \<lparr>rval = 2, rbytes = [97, 10]\<rparr>,
     \<lparr>rval = 0, rbytes = []\<rparr>], calls = [], mallocs = 0\<rparr>"


end
