(* ===== verification/Sh.thy ===== *)
theory Sh
  imports Uprog Sysfile
begin

text \<open>
  The shell, \<open>user/sh.c\<close>: the tokenizer and the recursive-descent parser on the command line, the execution of parsed
  commands and the main loop. A pointer into the line is its index. The parser is shown to return on every line, to
  cut the tokens so that the strings it terminates are the tokens, and to read back every command that is printed.
\<close>

section \<open>Commands\<close>

definition MAXARGS :: nat where "MAXARGS = 10"

text \<open>
  \<open>struct cmd\<close> and its variants. A string is \<open>'t\<close>: in the parser its start and its end (\<open>argv\<close> and \<open>eargv\<close>, \<open>file\<close> and
  \<open>efile\<close>), for the part that runs commands its bytes. The arguments are those before the null pointer.
\<close>

datatype 't cmd =
    EXEC "'t list"
  | REDIR "'t cmd" 't int int
  | PIPE "'t cmd" "'t cmd"
  | LIST "'t cmd" "'t cmd"
  | BACK "'t cmd"

text \<open>The constructors call \<open>malloc\<close> and clear what it returns: a null pointer is a fault.\<close>

definition ualloc :: "'z world_scheme \<Rightarrow> ('z world_scheme, unit) ures" where
  "ualloc w = (if mallocs w = 0 then Ufault ''memset'' w else Uok () (w\<lparr>mallocs := mallocs w - 1\<rparr>))"

definition execcmd :: "'z world_scheme \<Rightarrow> ('z world_scheme, 't cmd) ures" where
  "execcmd w = bindu (ualloc w) (\<lambda>_ w. Uok (EXEC []) w)"

definition redircmd :: "'t cmd \<Rightarrow> 't \<Rightarrow> int \<Rightarrow> int \<Rightarrow> 'z world_scheme \<Rightarrow> ('z world_scheme, 't cmd) ures" where
  "redircmd subcmd file mode fd w = bindu (ualloc w) (\<lambda>_ w. Uok (REDIR subcmd file mode fd) w)"

definition pipecmd :: "'t cmd \<Rightarrow> 't cmd \<Rightarrow> 'z world_scheme \<Rightarrow> ('z world_scheme, 't cmd) ures" where
  "pipecmd left right w = bindu (ualloc w) (\<lambda>_ w. Uok (PIPE left right) w)"

definition listcmd :: "'t cmd \<Rightarrow> 't cmd \<Rightarrow> 'z world_scheme \<Rightarrow> ('z world_scheme, 't cmd) ures" where
  "listcmd left right w = bindu (ualloc w) (\<lambda>_ w. Uok (LIST left right) w)"

definition backcmd :: "'t cmd \<Rightarrow> 'z world_scheme \<Rightarrow> ('z world_scheme, 't cmd) ures" where
  "backcmd subcmd w = bindu (ualloc w) (\<lambda>_ w. Uok (BACK subcmd) w)"

definition upanic :: "string \<Rightarrow> 'z world_scheme \<Rightarrow> ('z world_scheme, 'a) ures" where
  "upanic s w = bindu (ufprintf 2 [37, 115, 10] [UStr (Some (cstr s))] w) (\<lambda>_ w. uexit 1 w)"

definition fork1 :: "'z world_scheme \<Rightarrow> ('z world_scheme, int) ures" where
  "fork1 w = bindu (sysv SysFork w) (\<lambda>pid w. if pid = - 1 then upanic ''fork'' w else Uok pid w)"

section \<open>Tokens\<close>

text \<open>
  The line is its bytes before the terminating zero, so \<open>es\<close> is its length and the byte there is zero. The strings
  \<open>whitespace\<close> and \<open>symbols\<close> have no zero byte, which \<open>strchr\<close> would not find.
\<close>

definition whitespace :: "u8 list" where
  "whitespace = [32, 9, 13, 10, 11]"

definition symbols :: "u8 list" where
  "symbols = [60, 124, 62, 38, 59, 40, 41]"

definition byte :: "u8 list \<Rightarrow> nat \<Rightarrow> u8" where
  "byte line s = (if s < length line then line ! s else 0)"

function scan :: "(u8 \<Rightarrow> bool) \<Rightarrow> u8 list \<Rightarrow> nat \<Rightarrow> nat" where
  "scan P line s = (if s < length line \<and> P (line ! s) then scan P line (Suc s) else s)"
  by pat_completeness auto
termination by (relation "measure (\<lambda>(P, line, s). length line - s)") auto

declare scan.simps [simp del]

definition is_ws :: "u8 \<Rightarrow> bool" where
  "is_ws c \<longleftrightarrow> c \<in> set whitespace"

definition is_word :: "u8 \<Rightarrow> bool" where
  "is_word c \<longleftrightarrow> c \<notin> set whitespace \<and> c \<notin> set symbols"

text \<open>The token, its start and end, and the position behind it and the white space that follows.\<close>

definition gettoken :: "u8 list \<Rightarrow> nat \<Rightarrow> u8 \<times> nat \<times> nat \<times> nat" where
  "gettoken line s =
     (let q = scan is_ws line s; c = byte line q;
          (ret, eq) =
            (if c = 0 then (0, q)
             else if c \<in> {124, 40, 41, 59, 38, 60} then (c, q + 1)
             else if c = 62 then (if byte line (q + 1) = 62 then (43, q + 2) else (62, q + 1))
             else (97, scan is_word line q))
      in (ret, q, eq, scan is_ws line eq))"

definition peek :: "u8 list \<Rightarrow> nat \<Rightarrow> u8 list \<Rightarrow> nat \<times> bool" where
  "peek line s toks = (let s = scan is_ws line s in (s, byte line s \<noteq> 0 \<and> byte line s \<in> set toks))"

lemma scan_eq: "s \<le> length line \<Longrightarrow> scan P line s = s + length (takeWhile P (drop s line))"
proof (induction P line s rule: scan.induct)
  case (1 P line s)
  then show ?case
    by (cases "s < length line") (auto simp: scan.simps [of P line s] scan.simps [of P line "length line"] Cons_nth_drop_Suc [symmetric])
qed

lemma scan_bounds: "s \<le> length line \<Longrightarrow> s \<le> scan P line s \<and> scan P line s \<le> length line"
  using length_takeWhile_le [of P "drop s line"] by (simp add: scan_eq)

lemma scan_all: "s \<le> length line \<Longrightarrow> s \<le> i \<Longrightarrow> i < scan P line s \<Longrightarrow> P (line ! i)"
proof -
  assume a: "s \<le> length line" "s \<le> i" "i < scan P line s"
  then have j: "i - s < length (takeWhile P (drop s line))" by (simp add: scan_eq)
  then have "P (takeWhile P (drop s line) ! (i - s))" using nth_mem set_takeWhileD by fastforce
  then show "P (line ! i)" using j a length_takeWhile_le [of P "drop s line"] by (simp add: takeWhile_nth)
qed

lemma scan_stop: "s \<le> length line \<Longrightarrow> scan P line s < length line \<Longrightarrow> \<not> P (line ! scan P line s)"
proof (induction P line s rule: scan.induct)
  case (1 P line s)
  then show ?case by (cases "s < length line \<and> P (line ! s)") (auto simp: scan.simps [of P line s])
qed

text \<open>A token of the line: a maximal, non-empty run of word characters.\<close>

definition token :: "u8 list \<Rightarrow> nat \<times> nat \<Rightarrow> bool" where
  "token line t \<longleftrightarrow> fst t < snd t \<and> snd t \<le> length line \<and> (\<forall>i. fst t \<le> i \<and> i < snd t \<longrightarrow> is_word (line ! i)) \<and>
     (snd t < length line \<longrightarrow> \<not> is_word (line ! snd t))"

lemma peek_bounds: "s \<le> length line \<Longrightarrow> peek line s toks = (s', b) \<Longrightarrow> s \<le> s' \<and> s' \<le> length line"
  using scan_bounds [of s line is_ws] by (auto simp: peek_def Let_def)

lemma peek_yes: "s \<le> length line \<Longrightarrow> peek line s toks = (s', True) \<Longrightarrow> s \<le> s' \<and> s' < length line \<and> line ! s' \<in> set toks \<and> \<not> is_ws (line ! s')"
  using scan_bounds [of s line is_ws] scan_stop [of s line is_ws] by (auto simp: peek_def Let_def byte_def split: if_splits)

lemma scan_word_start:
  assumes "s \<le> length line" and "byte line (scan is_ws line s) \<notin> {0, 124, 40, 41, 59, 38, 60, 62}"
  shows "scan is_ws line s < scan is_word line (scan is_ws line s)"
proof -
  let ?q = "scan is_ws line s"
  have l: "?q < length line" using assms scan_bounds [OF assms(1), of is_ws] by (auto simp: byte_def split: if_splits)
  then have "\<not> is_ws (line ! ?q)" using scan_stop [OF assms(1), of is_ws] by simp
  moreover have "line ! ?q \<notin> set symbols" using assms(2) l by (auto simp: byte_def symbols_def)
  ultimately have "is_word (line ! ?q)" by (simp add: is_word_def is_ws_def)
  then have "scan is_word line ?q = scan is_word line (Suc ?q)" using l by (subst scan.simps) simp
  then show ?thesis using scan_bounds [of "Suc ?q" line is_word] l by simp
qed

lemma gettoken_bounds:
  assumes "s \<le> length line" and "gettoken line s = (tok, q, e, s')"
  shows "s \<le> q \<and> q \<le> e \<and> e \<le> s' \<and> s' \<le> length line \<and> (tok \<noteq> 0 \<longrightarrow> s < s')"
proof -
  define q' where "q' = scan is_ws line s"
  have q: "s \<le> q'" "q' \<le> length line" using scan_bounds [OF assms(1), of is_ws] by (simp_all add: q'_def)
  have "q = q'" and e: "q' \<le> e" "e \<le> length line" and s': "s' = scan is_ws line e" and t: "tok \<noteq> 0 \<longrightarrow> q' < e"
  proof -
    show "q = q'" "s' = scan is_ws line e" using assms(2) by (auto simp: gettoken_def q'_def Let_def split: prod.splits)
    have "byte line q' \<noteq> 0 \<Longrightarrow> q' < length line" "byte line (q' + 1) = 62 \<Longrightarrow> q' + 1 < length line"
      using q by (auto simp: byte_def split: if_splits)
    moreover have "q' \<le> scan is_word line q'" "scan is_word line q' \<le> length line" using scan_bounds [OF q(2), of is_word] by simp_all
    moreover have "q' < scan is_word line q'" if "byte line q' \<noteq> 0" "byte line q' \<notin> {124, 40, 41, 59, 38, 60}" "byte line q' \<noteq> 62"
      using scan_word_start [OF assms(1)] that by (simp add: q'_def)
    ultimately show "q' \<le> e" "e \<le> length line" "tok \<noteq> 0 \<longrightarrow> q' < e"
      using assms(2) q unfolding gettoken_def q'_def [symmetric] by (auto simp: Let_def split: prod.splits if_splits)
  qed
  then show ?thesis using q scan_bounds [OF e(2), of is_ws] by auto
qed

lemma gettoken_word:
  assumes "s \<le> length line" and "gettoken line s = (97, q, e, s')"
  shows "token line (q, e)"
proof -
  define q' where "q' = scan is_ws line s"
  have q: "q' \<le> length line" using scan_bounds [OF assms(1), of is_ws] by (simp add: q'_def)
  have b: "byte line q' \<noteq> 0" "byte line q' \<notin> {124, 40, 41, 59, 38, 60}" "byte line q' \<noteq> 62" and e: "q = q'" "e = scan is_word line q'"
    using assms(2) unfolding gettoken_def q'_def [symmetric] by (auto simp: Let_def split: prod.splits if_splits)
  have "q < e" using scan_word_start [OF assms(1)] b by (simp add: e q'_def)
  then show ?thesis using scan_bounds [OF q, of is_word] scan_all [OF q, of _ is_word] scan_stop [OF q, of is_word]
    by (auto simp: token_def e)
qed

lemma scan_ge: "s \<le> scan P line s"
proof (cases "s \<le> length line")
  case False
  then show ?thesis by (subst scan.simps) simp
qed (simp add: scan_bounds)

lemma peek_true:
  assumes "peek line s toks = (s', True)"
  shows "s \<le> s' \<and> s' < length line \<and> line ! s' \<in> set toks \<and> line ! s' \<noteq> 0 \<and> \<not> is_ws (line ! s')"
proof -
  have s: "s' = scan is_ws line s" and b: "byte line s' \<noteq> 0" "byte line s' \<in> set toks"
    using assms by (auto simp: peek_def Let_def)
  have l: "s' < length line" using b by (auto simp: byte_def split: if_splits)
  then have "s \<le> length line" using scan_ge [of s is_ws line] s by simp
  then show ?thesis using s b l scan_ge [of s is_ws line] scan_stop [of s line is_ws] by (simp add: byte_def)
qed

lemma gettoken_forward:
  assumes "peek line s toks = (s', True)" and "gettoken line s' = (tok, q, e, s'')"
  shows "s < s'' \<and> s'' \<le> length line"
proof -
  note p = peek_true [OF assms(1)]
  have "scan is_ws line s' = s'" using p by (subst scan.simps) simp
  then have "tok \<noteq> 0" using assms(2) p by (auto simp: gettoken_def Let_def byte_def split: if_splits)
  then show ?thesis using gettoken_bounds [OF _ assms(2)] p by simp
qed

lemma redir_step:
  assumes "(s', True) = peek line s toks" and "(tok, q1, e1, s1) = gettoken line s'" and "(tok2, q, e, s2) = gettoken line s1"
  shows "length line - s2 < length line - s"
  using gettoken_forward [OF assms(1,2) [symmetric]] gettoken_bounds [OF _ assms(3) [symmetric]] by linarith

section \<open>The parser\<close>

text \<open>\<open>parseexec\<close> stores arguments in the \<open>execcmd\<close> it has made first, through redirections that are wrapped around it since.\<close>

fun addarg :: "'t cmd \<Rightarrow> 't \<Rightarrow> 't cmd" where
  "addarg (EXEC ts) t = EXEC (ts @ [t])"
| "addarg (REDIR c f m d) t = REDIR (addarg c t) f m d"
| "addarg c t = c"

function parseredirs :: "(nat \<times> nat) cmd \<Rightarrow> u8 list \<Rightarrow> nat \<Rightarrow> 'z world_scheme \<Rightarrow> ('z world_scheme, (nat \<times> nat) cmd \<times> nat) ures" where
  "parseredirs c line s w =
     (let (s, more) = peek line s [60, 62] in
      if \<not> more then Uok (c, s) w
      else let (tok, _, _, s1) = gettoken line s; (tok2, q, eq, s2) = gettoken line s1 in
           if tok2 \<noteq> 97 then upanic ''missing file for redirection'' w
           else bindu (if tok = 60 then redircmd c (q, eq) O_RDONLY 0 w
                       else if tok = 62 then redircmd c (q, eq) (O_WRONLY OR O_CREATE OR O_TRUNC) 1 w
                       else if tok = 43 then redircmd c (q, eq) (O_WRONLY OR O_CREATE) 1 w
                       else Uok c w) (\<lambda>c w.
                parseredirs c line s2 w))"
  by pat_completeness auto
termination
  by (relation "measure (\<lambda>(c, line, s, w). length line - s)") (auto intro: redir_step)

declare parseredirs.simps [simp del]

lemma upanic_not_Uok [simp]: "upanic m w \<noteq> Uok x t" "upanic m w \<noteq> Udiverge"
  by (cases "ufprintf 2 [37, 115, 10] [UStr (Some (cstr m))] w"; simp add: upanic_def uexit_def ufprintf_def vprintf_def bindu_eq_Uok bindu_diverge split: option.splits)+

lemma redircmd_Uok: "redircmd c f m d w = Uok x t \<Longrightarrow> x = REDIR c f m d"
  by (auto simp: redircmd_def bindu_eq_Uok)

lemma redircmd_not_Udiverge [simp]: "redircmd c f m d w \<noteq> Udiverge"
  by (simp add: redircmd_def ualloc_def)

text \<open>What the parsing routines guarantee: they return, further on in the line, and all strings of the command are tokens.\<close>

definition parsed :: "u8 list \<Rightarrow> nat \<Rightarrow> ('w, (nat \<times> nat) cmd \<times> nat) ures \<Rightarrow> bool" where
  "parsed line s x \<longleftrightarrow> x \<noteq> Udiverge \<and>
     (\<forall>c s' w. x = Uok (c, s') w \<longrightarrow> s \<le> s' \<and> s' \<le> length line \<and> (\<forall>t \<in> set_cmd c. token line t))"

lemma parsedD: "parsed line s (Uok (c, s') w) \<Longrightarrow> s \<le> s' \<and> s' \<le> length line \<and> (\<forall>t \<in> set_cmd c. token line t)"
  by (simp add: parsed_def)

lemma parsed_Uok [simp]: "parsed line s (Uok (c, s') w) \<longleftrightarrow> s \<le> s' \<and> s' \<le> length line \<and> (\<forall>t \<in> set_cmd c. token line t)"
  by (simp add: parsed_def)

lemma parsed_other [simp]: "parsed line s (upanic m w)" "parsed line s (Ufault e w)" "parsed line s (Uwait w)" "parsed line s (Uexit n w)" "\<not> parsed line s Udiverge"
  by (simp_all add: parsed_def)

lemma parsed_bind:
  assumes "parsed line s m" and "\<And>c s' w. m = Uok (c, s') w \<Longrightarrow> s \<le> s' \<Longrightarrow> s' \<le> length line \<Longrightarrow> (\<forall>t \<in> set_cmd c. token line t) \<Longrightarrow> parsed line s' (f (c, s') w)"
  shows "parsed line s (bindu m f)"
proof (cases m)
  case (Uok x w)
  obtain c s' where x: "x = (c, s')" by (cases x)
  have "parsed line s' (f (c, s') w)" and "s \<le> s'" using assms Uok x by (auto simp: parsed_def)
  then show ?thesis unfolding Uok x by (auto simp: parsed_def)
qed (use assms(1) in simp_all)

lemma parsed_weaken: "parsed line s' x \<Longrightarrow> s \<le> s' \<Longrightarrow> parsed line s x"
  by (auto simp: parsed_def)

lemma parseredirs_parsed:
  "s \<le> length line \<Longrightarrow> \<forall>t \<in> set_cmd c. token line t \<Longrightarrow> parsed line s (parseredirs c line s w)"
proof (induction c line s w rule: parseredirs.induct)
  case (1 c line s w)
  obtain s0 more where p: "peek line s [60, 62] = (s0, more)" by (cases "peek line s [60, 62]")
  obtain tok q1 e1 s1 where g1: "gettoken line s0 = (tok, q1, e1, s1)" by (cases "gettoken line s0") auto
  obtain tok2 q e s2 where g2: "gettoken line s1 = (tok2, q, e, s2)" by (cases "gettoken line s1") auto
  let ?m = "if tok = 60 then redircmd c (q, e) O_RDONLY 0 w
    else if tok = 62 then redircmd c (q, e) (O_WRONLY OR O_CREATE OR O_TRUNC) 1 w
    else if tok = 43 then redircmd c (q, e) (O_WRONLY OR O_CREATE) 1 w else Uok c w"
  show ?case
  proof (cases more)
    case False
    then show ?thesis using peek_bounds [OF "1.prems"(1) p] "1.prems"(2)
      unfolding parseredirs.simps [of c line s w] p by simp
  next
    case True
    with p have p': "peek line s [60, 62] = (s0, True)" by simp
    note f = gettoken_forward [OF p' g1]
    have s2: "s < s2" "s2 \<le> length line" using f gettoken_bounds [OF _ g2] by auto
    have e: "parseredirs c line s w = (if tok2 \<noteq> 97 then upanic ''missing file for redirection'' w
        else bindu ?m (\<lambda>c w. parseredirs c line s2 w))"
      unfolding parseredirs.simps [of c line s w] p' by (simp add: g1 g2)
    show ?thesis
    proof (cases "tok2 = 97")
      case t2: True
      have t: "token line (q, e)" using gettoken_word [of s1 line q e s2] f g2 t2 by simp
      show ?thesis
      proof (cases ?m)
        case (Uok c' w')
        have c: "\<forall>t \<in> set_cmd c'. token line t"
          using Uok "1.prems"(2) t by (auto split: if_splits dest!: redircmd_Uok)
        have "parsed line s2 (parseredirs c' line s2 w')"
          by (rule "1.IH" [OF refl p [symmetric] _ refl g1 [symmetric] refl refl refl g2 [symmetric] refl refl _ Uok s2(2) c]) (use True t2 in auto)
        then show ?thesis using s2(1) unfolding e Uok by (auto simp: t2 intro: parsed_weaken)
      qed (use t2 in \<open>simp_all add: e split: if_splits\<close>)
    qed (simp add: e)
  qed
qed

lemma gettoken_in: "gettoken line s = (tok, q, e, s') \<Longrightarrow> tok \<noteq> 0 \<Longrightarrow> s \<le> length line"
  using scan_ge [of s is_ws line] by (auto simp: gettoken_def Let_def byte_def split: if_splits)

lemma parseredirs_forward: "parseredirs c line s w = Uok (c', s') w' \<Longrightarrow> s \<le> length line \<Longrightarrow> s \<le> s'"
proof (induction "length line - s" arbitrary: c s w rule: less_induct)
  case less
  obtain s0 more where p: "peek line s [60, 62] = (s0, more)" by (cases "peek line s [60, 62]")
  obtain tok q1 e1 s1 where g1: "gettoken line s0 = (tok, q1, e1, s1)" by (cases "gettoken line s0") auto
  obtain tok2 q e s2 where g2: "gettoken line s1 = (tok2, q, e, s2)" by (cases "gettoken line s1") auto
  show ?case
  proof (cases more)
    case False
    then show ?thesis using less.prems peek_bounds [OF less.prems(2) p] unfolding parseredirs.simps [of c line s w] p by simp
  next
    case True
    with p have p': "peek line s [60, 62] = (s0, True)" by simp
    have f: "s < s2" "s2 \<le> length line" using gettoken_forward [OF p' g1] gettoken_bounds [OF _ g2] by auto
    have d: "length line - s2 < length line - s" using f by linarith
    obtain c1 w1 where "parseredirs c1 line s2 w1 = Uok (c', s') w'"
      using less.prems(1) unfolding parseredirs.simps [of c line s w] p' g1 g2
      by (auto simp: g1 g2 bindu_eq_Uok split: if_splits)
    from less.hyps [OF d this f(2)] f show ?thesis by simp
  qed
qed

text \<open>
  The loop of \<open>parseexec\<close>.
\<close>

function parseexec_loop :: "(nat \<times> nat) cmd \<Rightarrow> nat \<Rightarrow> u8 list \<Rightarrow> nat \<Rightarrow> 'z world_scheme \<Rightarrow> ('z world_scheme, (nat \<times> nat) cmd \<times> nat) ures" where
  "parseexec_loop c argc line s w =
     (let (s, stop) = peek line s [124, 41, 38, 59] in
      if stop then Uok (c, s) w
      else let (tok, q, eq, s) = gettoken line s in
           if tok = 0 then Uok (c, s) w
           else if tok \<noteq> 97 then upanic ''syntax'' w
           else let c = addarg c (q, eq); argc = argc + 1 in
                if argc \<ge> MAXARGS then upanic ''too many args'' w
                else bindu (parseredirs c line s w) (\<lambda>(c, s) w. parseexec_loop c argc line s w))"
  by pat_completeness auto
termination
proof (relation "measure (\<lambda>(c, argc, line, s, w). length line - s)", simp, clarsimp simp: Let_def)
  fix c :: "(nat \<times> nat) cmd" and argc line s and w :: "'z world_scheme" and s0 q e s1 c' s2 w'
  assume p: "(s0, False) = peek line s [124, 41, 38, 59]" and g: "(97, q, e, s1) = gettoken line s0"
    and r: "parseredirs (addarg c (q, e)) line s1 w = Uok (c', s2) w'"
  have "s0 \<le> length line" by (rule gettoken_in [OF g [symmetric]]) simp
  then have "s0 < s1" "s1 \<le> length line" using gettoken_bounds [OF _ g [symmetric]] by auto
  moreover have "s \<le> s0" using p scan_ge [of s is_ws line] by (auto simp: peek_def Let_def)
  moreover have "s1 \<le> s2" by (rule parseredirs_forward [OF r]) fact
  ultimately show "length line - s2 < length line - s" by linarith
qed

declare parseexec_loop.simps [simp del]

text \<open>The loop of \<open>parseline\<close> over trailing ampersands.\<close>

function parsebacks :: "(nat \<times> nat) cmd \<Rightarrow> u8 list \<Rightarrow> nat \<Rightarrow> 'z world_scheme \<Rightarrow> ('z world_scheme, (nat \<times> nat) cmd \<times> nat) ures" where
  "parsebacks c line s w =
     (let (s, more) = peek line s [38] in
      if \<not> more then Uok (c, s) w
      else let (_, _, _, s) = gettoken line s in
           bindu (backcmd c w) (\<lambda>c w. parsebacks c line s w))"
  by pat_completeness auto
termination
proof (relation "measure (\<lambda>(c, line, s, w). length line - s)", simp, clarsimp)
  fix c :: "(nat \<times> nat) cmd" and line s and w :: "'z world_scheme" and s0 tok q e s1 c' w'
  assume "(s0, True) = peek line s [38]" and "(tok, q, e, s1) = gettoken line s0"
  from gettoken_forward [OF this [symmetric]] show "length line - s1 < length line - s" by linarith
qed

declare parsebacks.simps [simp del]

text \<open>
  The routines call each other in a cycle, which goes through the line in parentheses: \<open>parseblock\<close> has \<open>parseline\<close> as its
  parameter \<open>pl\<close>. The first argument of the two recursive ones bounds the depth of the recursion; \<open>parsecmd\<close> starts
  with a bound that is always enough.
\<close>

type_synonym 'w parser = "u8 list \<Rightarrow> nat \<Rightarrow> 'w \<Rightarrow> ('w, (nat \<times> nat) cmd \<times> nat) ures"

definition parseblock :: "'z world_scheme parser \<Rightarrow> 'z world_scheme parser" where
  "parseblock pl line s w =
     (let (s, more) = peek line s [40] in
      if \<not> more then upanic ''parseblock'' w
      else let (_, _, _, s) = gettoken line s in
           bindu (pl line s w) (\<lambda>(c, s) w.
           let (s, more) = peek line s [41] in
           if \<not> more then upanic ''syntax - missing )'' w
           else let (_, _, _, s) = gettoken line s in
                parseredirs c line s w))"

definition parseexec :: "'z world_scheme parser \<Rightarrow> 'z world_scheme parser" where
  "parseexec pl line s w =
     (let (s, more) = peek line s [40] in
      if more then parseblock pl line s w
      else bindu (execcmd w) (\<lambda>c w.
           bindu (parseredirs c line s w) (\<lambda>(c, s) w.
           parseexec_loop c 0 line s w)))"

primrec parsepipe :: "nat \<Rightarrow> 'z world_scheme parser \<Rightarrow> 'z world_scheme parser" where
  "parsepipe 0 pl = (\<lambda>line s w. Udiverge)"
| "parsepipe (Suc k) pl = (\<lambda>line s w.
     bindu (parseexec pl line s w) (\<lambda>(c, s) w.
     let (s, more) = peek line s [124] in
     if more
     then let (_, _, _, s) = gettoken line s in
          bindu (parsepipe k pl line s w) (\<lambda>(r, s) w.
          bindu (pipecmd c r w) (\<lambda>c w. Uok (c, s) w))
     else Uok (c, s) w))"

primrec parseline :: "nat \<Rightarrow> 'z world_scheme parser" where
  "parseline 0 = (\<lambda>line s w. Udiverge)"
| "parseline (Suc k) = (\<lambda>line s w.
     bindu (parsepipe (length line - s + 1) (parseline k) line s w) (\<lambda>(c, s) w.
     bindu (parsebacks c line s w) (\<lambda>(c, s) w.
     let (s, more) = peek line s [59] in
     if more
     then let (_, _, _, s) = gettoken line s in
          bindu (parseline k line s w) (\<lambda>(r, s) w.
          bindu (listcmd c r w) (\<lambda>c w. Uok (c, s) w))
     else Uok (c, s) w)))"

text \<open>\<open>nulterminate\<close> on the buffer, which has the line and its terminating zero.\<close>

fun nulterminate :: "(nat \<times> nat) cmd \<Rightarrow> u8 list \<Rightarrow> u8 list" where
  "nulterminate (EXEC ts) buf = fold (\<lambda>t buf. buf[snd t := 0]) ts buf"
| "nulterminate (REDIR c f m d) buf = (nulterminate c buf)[snd f := 0]"
| "nulterminate (PIPE l r) buf = nulterminate r (nulterminate l buf)"
| "nulterminate (LIST l r) buf = nulterminate r (nulterminate l buf)"
| "nulterminate (BACK c) buf = nulterminate c buf"

definition parsecmd :: "u8 list \<Rightarrow> 'z world_scheme \<Rightarrow> ('z world_scheme, (nat \<times> nat) cmd \<times> u8 list) ures" where
  "parsecmd line w =
     bindu (parseline (length line + 1) line 0 w) (\<lambda>(c, s) w.
     let (s, _) = peek line s [] in
     if s \<noteq> length line
     then bindu (ufprintf 2 (cstr ''leftovers: %s'' @ [10]) [UStr (Some (drop s line))] w) (\<lambda>_ w. upanic ''syntax'' w)
     else Uok (c, nulterminate c (line @ [0])) w)"

section \<open>Running commands\<close>

text \<open>
  \<open>runcmd\<close> on the strings of the command. A call of \<open>exec\<close> that succeeds does not return: the script ends there.
\<close>

definition dupto :: "int \<Rightarrow> nat \<Rightarrow> u8 list \<Rightarrow> 'z world_scheme \<Rightarrow> ('z world_scheme, unit) ures" where
  "dupto fd k p w =
     bindu (sysv (SysClose fd) w) (\<lambda>_ w.
     bindu (sysv (SysDup (s32 (int (rd32 (4 * k) p)))) w) (\<lambda>_ w.
     bindu (sysv (SysClose (s32 (int (rd32 0 p)))) w) (\<lambda>_ w.
     bindu (sysv (SysClose (s32 (int (rd32 4 p)))) w) (\<lambda>_ w. Uok () w))))"

fun runcmd :: "u8 list cmd \<Rightarrow> 'z world_scheme \<Rightarrow> ('z world_scheme, unit) ures" where
  "runcmd (EXEC argv) w =
     (if argv = [] then uexit 1 w
      else bindu (sysv (SysExec (hd argv) argv) w) (\<lambda>_ w.
           bindu (ufprintf 2 (cstr ''exec %s failed'' @ [10]) [UStr (Some (hd argv))] w) (\<lambda>_ w. uexit 0 w)))"
| "runcmd (REDIR c file mode fd) w =
     bindu (sysv (SysClose fd) w) (\<lambda>_ w.
     bindu (sysv (SysOpen file mode) w) (\<lambda>r w.
     if r < 0 then bindu (ufprintf 2 (cstr ''open %s failed'' @ [10]) [UStr (Some file)] w) (\<lambda>_ w. uexit 1 w)
     else runcmd c w))"
| "runcmd (LIST l r) w =
     bindu (fork1 w) (\<lambda>pid w.
     if pid = 0 then runcmd l w
     else bindu (sysv SysWait w) (\<lambda>_ w. runcmd r w))"
| "runcmd (PIPE l r) w =
     bindu (sys SysPipe w) (\<lambda>a w.
     if rval a < 0 then upanic ''pipe'' w
     else bindu (fork1 w) (\<lambda>pid w.
          if pid = 0 then bindu (dupto 1 1 (rbytes a) w) (\<lambda>_ w. runcmd l w)
          else bindu (fork1 w) (\<lambda>pid w.
               if pid = 0 then bindu (dupto 0 0 (rbytes a) w) (\<lambda>_ w. runcmd r w)
               else bindu (sysv (SysClose (s32 (int (rd32 0 (rbytes a))))) w) (\<lambda>_ w.
                    bindu (sysv (SysClose (s32 (int (rd32 4 (rbytes a))))) w) (\<lambda>_ w.
                    bindu (sysv SysWait w) (\<lambda>_ w.
                    bindu (sysv SysWait w) (\<lambda>_ w.
                    uexit 0 w)))))))"
| "runcmd (BACK c) w = bindu (fork1 w) (\<lambda>pid w. if pid = 0 then runcmd c w else uexit 0 w)"

text \<open>The string that starts at \<open>q\<close>.\<close>

definition cstring :: "u8 list \<Rightarrow> nat \<Rightarrow> u8 list" where
  "cstring buf q = takeWhile (\<lambda>c. c \<noteq> 0) (drop q buf)"

section \<open>The main loop\<close>

text \<open>\<open>getcmd\<close> leaves a string in \<open>buf\<close>; the result is \<open>None\<close> at the end of the input.\<close>

definition getcmd :: "'z world_scheme \<Rightarrow> ('z world_scheme, u8 list option) ures" where
  "getcmd w =
     bindu (sysv (SysWrite 2 [36, 32]) w) (\<lambda>_ w.
     bindu (gets 0 100 w) (\<lambda>buf w.
     let line = cstring buf 0 in
     Uok (if line = [] then None else Some line) w))"

function sh_open :: "'z world_scheme \<Rightarrow> ('z world_scheme, unit) ures" where
  "sh_open w =
     bindu (sysv (SysOpen (cstr ''console'') O_RDWR) w) (\<lambda>fd w.
     if fd < 0 then Uok () w
     else if fd \<ge> 3 then bindu (sysv (SysClose fd) w) (\<lambda>_ w. Uok () w)
     else sh_open w)"
  by pat_completeness auto
termination by (relation "measure (\<lambda>w. length (answers w))") (auto dest: sysv_shorter)

declare sh_open.simps [simp del]

definition sh_child :: "u8 list \<Rightarrow> 'z world_scheme \<Rightarrow> ('z world_scheme, unit) ures" where
  "sh_child line w = bindu (parsecmd line w) (\<lambda>(c, buf) w. runcmd (map_cmd (\<lambda>t. cstring buf (fst t)) c) w)"

lemma getcmd_shorter: "getcmd w = Uok u t \<Longrightarrow> length (answers t) < length (answers w)"
  by (fastforce simp: getcmd_def bindu_eq_Uok Let_def dest: sysv_shorter gets_shorter)

lemma fork1_shorter: "fork1 w = Uok u t \<Longrightarrow> length (answers t) < length (answers w)"
  by (auto simp: fork1_def bindu_eq_Uok split: if_splits dest: sysv_shorter)

text \<open>The change of directory cuts the last byte of the line, which is meant to be the newline.\<close>

function sh_loop :: "'z world_scheme \<Rightarrow> ('z world_scheme, unit) ures" where
  "sh_loop w =
     bindu (getcmd w) (\<lambda>line w.
     case line of
       None \<Rightarrow> uexit 0 w
     | Some buf \<Rightarrow>
         if byte buf 0 = 99 \<and> byte buf 1 = 100 \<and> byte buf 2 = 32
         then let dir = drop 3 (butlast buf) in
              bindu (sysv (SysChdir dir) w) (\<lambda>r w.
              bindu (if r < 0 then ufprintf 2 (cstr ''cannot cd %s'' @ [10]) [UStr (Some dir)] w else Uok () w) (\<lambda>_ w.
              sh_loop w))
         else bindu (fork1 w) (\<lambda>pid w.
              if pid = 0 then sh_child buf w
              else bindu (sysv SysWait w) (\<lambda>_ w. sh_loop w)))"
  by pat_completeness auto
termination
proof (relation "measure (\<lambda>w. length (answers w))")
  show "wf (measure (\<lambda>w :: 'z world_scheme. length (answers w)))" by simp
qed (auto split: if_splits dest!: getcmd_shorter sysv_shorter fork1_shorter ufprintf_shorter)

declare sh_loop.simps [simp del]

definition sh_main :: "'z world_scheme \<Rightarrow> ('z world_scheme, unit) ures" where
  "sh_main w = bindu (sh_open w) (\<lambda>_ w. sh_loop w)"

section \<open>The parser returns\<close>

lemma set_addarg: "set_cmd (addarg c t) \<subseteq> insert t (set_cmd c)"
  by (induction c) auto

lemma parseexec_loop_parsed:
  "s \<le> length line \<Longrightarrow> \<forall>t \<in> set_cmd c. token line t \<Longrightarrow> parsed line s (parseexec_loop c argc line s w)"
proof (induction "length line - s" arbitrary: c argc s w rule: less_induct)
  case less
  obtain s0 stop where p: "peek line s [124, 41, 38, 59] = (s0, stop)" by (cases "peek line s [124, 41, 38, 59]")
  obtain tok q e s1 where g: "gettoken line s0 = (tok, q, e, s1)" by (cases "gettoken line s0") auto
  have s0: "s \<le> s0" "s0 \<le> length line" using peek_bounds [OF less.prems(1) p] by simp_all
  have b: "s0 \<le> s1" "s1 \<le> length line" "tok \<noteq> 0 \<Longrightarrow> s0 < s1" using gettoken_bounds [OF s0(2) g] by auto
  note u = parseexec_loop.simps [of c argc line s w] p
  show ?case
  proof (cases "stop \<or> tok \<noteq> 97 \<or> argc + 1 \<ge> MAXARGS")
    case True
    then show ?thesis unfolding u using s0 b less.prems(2) by (auto simp: g)
  next
    case False
    have t: "token line (q, e)" using gettoken_word [OF s0(2)] g False by simp
    have c: "\<forall>t \<in> set_cmd (addarg c (q, e)). token line t" using set_addarg [of c "(q, e)"] t less.prems(2) by blast
    have e: "parseexec_loop c argc line s w =
        bindu (parseredirs (addarg c (q, e)) line s1 w) (\<lambda>(c, s) w. parseexec_loop c (argc + 1) line s w)"
      unfolding u using False by (simp add: g)
    have "parsed line s1 (parseexec_loop c argc line s w)" unfolding e
    proof (rule parsed_bind [OF parseredirs_parsed [OF b(2) c]], simp)
      fix c' s' and w' :: "'a world_scheme"
      assume "s1 \<le> s'" "s' \<le> length line" "\<forall>t \<in> set_cmd c'. token line t"
      then show "parsed line s' (parseexec_loop c' (Suc argc) line s' w')"
        using less.hyps [of s'] b(3) s0 False by simp
    qed
    then show ?thesis by (rule parsed_weaken) (use s0 b in simp)
  qed
qed

lemma parsebacks_parsed:
  "s \<le> length line \<Longrightarrow> \<forall>t \<in> set_cmd c. token line t \<Longrightarrow> parsed line s (parsebacks c line s w)"
proof (induction "length line - s" arbitrary: c s w rule: less_induct)
  case less
  obtain s0 more where p: "peek line s [38] = (s0, more)" by (cases "peek line s [38]")
  obtain tok q e s1 where g: "gettoken line s0 = (tok, q, e, s1)" by (cases "gettoken line s0") auto
  show ?case
  proof (cases more)
    case False
    then show ?thesis using peek_bounds [OF less.prems(1) p] less.prems(2) unfolding parsebacks.simps [of c line s w] p by simp
  next
    case True
    have f: "s < s1" "s1 \<le> length line" using gettoken_forward [OF _ g] p True by auto
    have IH: "parsed line s1 (parsebacks (BACK c) line s1 w')" for w' :: "'a world_scheme"
      using less.hyps [of s1 "BACK c"] f less.prems(2) by (simp add: diff_less_mono2)
    show ?thesis using parsed_weaken [OF IH] f True unfolding parsebacks.simps [of c line s w] p
      by (simp add: g backcmd_def ualloc_def)
  qed
qed

lemma parsed_peek:
  assumes "s \<le> length line" and "\<And>s'. s < s' \<Longrightarrow> s' \<le> length line \<Longrightarrow> parsed line s' (K s')"
    and "\<And>s'. s \<le> s' \<Longrightarrow> s' \<le> length line \<Longrightarrow> parsed line s' (A s')"
  shows "parsed line s (let (s, more) = peek line s toks in if more then let (_, _, _, s) = gettoken line s in K s else A s)"
    "parsed line s (let (s, more) = peek line s toks in if \<not> more then A s else let (_, _, _, s) = gettoken line s in K s)"
proof -
  obtain s0 more where p: "peek line s toks = (s0, more)" by (cases "peek line s toks")
  obtain tok q e s1 where g: "gettoken line s0 = (tok, q, e, s1)" by (cases "gettoken line s0") auto
  have "parsed line s (K s1)" if more
    using assms(2) [of s1] gettoken_forward [OF _ g, of s toks] p that by (auto intro: parsed_weaken [of line s1])
  moreover have "parsed line s (A s0)" using assms(3) [of s0] peek_bounds [OF assms(1) p] by (auto intro: parsed_weaken [of line s0])
  ultimately show "parsed line s (let (s, more) = peek line s toks in if more then let (_, _, _, s) = gettoken line s in K s else A s)"
    "parsed line s (let (s, more) = peek line s toks in if \<not> more then A s else let (_, _, _, s) = gettoken line s in K s)"
    by (simp_all add: p g)
qed

text \<open>A line parser that is good from position \<open>lo\<close> on.\<close>

definition good_from :: "u8 list \<Rightarrow> nat \<Rightarrow> 'z world_scheme parser \<Rightarrow> bool" where
  "good_from line lo pl \<longleftrightarrow> (\<forall>s w. lo \<le> s \<longrightarrow> s \<le> length line \<longrightarrow> parsed line s (pl line s w))"

lemma parseblock_parsed:
  assumes "good_from line (Suc s) pl" and "s \<le> length line"
  shows "parsed line s (parseblock pl line s w)"
  unfolding parseblock_def
proof (rule parsed_peek(2) [OF assms(2)])
  fix s'
  assume s': "s < s'" "s' \<le> length line"
  then have "parsed line s' (pl line s' w)" using assms(1) by (simp add: good_from_def)
  then show "parsed line s' (bindu (pl line s' w) (\<lambda>(c, s) w. let (s, more) = peek line s [41] in
      if \<not> more then upanic ''syntax - missing )'' w else let (_, _, _, s) = gettoken line s in parseredirs c line s w))"
    by (rule parsed_bind) (simp only: prod.case, rule parsed_peek(2), auto intro: parseredirs_parsed)
qed simp

lemma parseexec_parsed:
  fixes pl :: "'z world_scheme parser"
  assumes "good_from line (Suc s) pl" and "s \<le> length line"
  shows "parsed line s (parseexec pl line s w)"
proof -
  obtain s0 more where p: "peek line s [40] = (s0, more)" by (cases "peek line s [40]")
  have s0: "s \<le> s0" "s0 \<le> length line" using peek_bounds [OF assms(2) p] by simp_all
  have g: "good_from line (Suc s0) pl" using assms(1) s0(1) by (auto simp: good_from_def)
  have "parsed line s0 (bindu (parseredirs (EXEC []) line s0 w') (\<lambda>(c, s) w. parseexec_loop c 0 line s w))" for w' :: "'z world_scheme"
    by (rule parsed_bind [OF parseredirs_parsed [OF s0(2)]]) (auto intro: parseexec_loop_parsed)
  then have "parsed line s0 (parseexec pl line s w)"
    using parseblock_parsed [OF g s0(2)] by (simp add: parseexec_def p execcmd_def ualloc_def)
  then show ?thesis by (rule parsed_weaken) (rule s0)
qed

lemma parsed_node:
  assumes "\<And>w. m w = bindu (ualloc w) (\<lambda>_ w. Uok (F c r) w)" and "set_cmd (F c r) \<subseteq> set_cmd c \<union> set_cmd r"
    and "\<forall>t \<in> set_cmd c. token line t" and "\<forall>t \<in> set_cmd r. token line t" and "s \<le> s'" and "s' \<le> length line"
  shows "parsed line s (bindu (m w) (\<lambda>c w. Uok (c, s') w))"
  using assms(2-) by (auto simp: assms(1) ualloc_def)

lemma parsepipe_parsed:
  assumes "good_from line (Suc s) pl" and "s \<le> length line" and "length line - s < k"
  shows "parsed line s (parsepipe k pl line s w)"
  using assms
proof (induction k arbitrary: s w)
  case (Suc k)
  show ?case unfolding parsepipe.simps
  proof (rule parsed_bind [OF parseexec_parsed [OF Suc.prems(1,2)]], simp only: prod.case, rule parsed_peek(1))
    fix c s' w' s''
    assume s': "s \<le> s'" "s' < s''" "s'' \<le> length line" and c: "\<forall>t \<in> set_cmd c. token line t"
    have "good_from line (Suc s'') pl" using Suc.prems(1) s' by (auto simp: good_from_def)
    then have "parsed line s'' (parsepipe k pl line s'' w')" using Suc.IH Suc.prems s' by simp
    then show "parsed line s'' (bindu (parsepipe k pl line s'' w') (\<lambda>(r, s) w. bindu (pipecmd c r w) (\<lambda>c w. Uok (c, s) w)))"
      by (rule parsed_bind) (simp only: prod.case, rule parsed_node [where F = PIPE and c = c], auto simp: pipecmd_def c)
  qed auto
qed simp

lemma parseline_parsed:
  "s \<le> length line \<Longrightarrow> length line - s < k \<Longrightarrow> parsed line s (parseline k line s w)"
proof (induction k arbitrary: s w)
  case (Suc k)
  have "good_from line (Suc s) (parseline k :: 'a world_scheme parser)"
    unfolding good_from_def by (intro allI impI Suc.IH) (use Suc.prems in linarith)+
  then have "parsed line s (parsepipe (length line - s + 1) (parseline k) line s w)"
    by (rule parsepipe_parsed) (use Suc.prems in simp_all)
  then show ?case unfolding parseline.simps
  proof (rule parsed_bind, simp only: prod.case)
    fix c s' and w' :: "'a world_scheme"
    assume s': "s \<le> s'" "s' \<le> length line" and c: "\<forall>t \<in> set_cmd c. token line t"
    show "parsed line s' (bindu (parsebacks c line s' w') (\<lambda>(c, s) w. let (s, more) = peek line s [59] in
       if more then let (_, _, _, s) = gettoken line s in
          bindu (parseline k line s w) (\<lambda>(r, s) w. bindu (listcmd c r w) (\<lambda>c w. Uok (c, s) w))
       else Uok (c, s) w))"
    proof (rule parsed_bind [OF parsebacks_parsed [OF s'(2) c]], simp only: prod.case, rule parsed_peek(1))
      fix c s'' and w'' :: "'a world_scheme" and s3
      assume s'': "s' \<le> s''" "s'' < s3" "s3 \<le> length line" and c: "\<forall>t \<in> set_cmd c. token line t"
      then have "parsed line s3 (parseline k line s3 w'')" using s' Suc.prems by (intro Suc.IH) linarith+
      then show "parsed line s3 (bindu (parseline k line s3 w'') (\<lambda>(r, s) w. bindu (listcmd c r w) (\<lambda>c w. Uok (c, s) w)))"
        by (rule parsed_bind) (simp only: prod.case, rule parsed_node [where F = LIST and c = c], auto simp: listcmd_def c)
    qed auto
  qed
qed simp

section \<open>The strings of a parsed command\<close>

definition slice :: "u8 list \<Rightarrow> nat \<times> nat \<Rightarrow> u8 list" where
  "slice line t = take (snd t - fst t) (drop (fst t) line)"

lemma nth_update: "xs[i := x] ! j = (if i = j \<and> i < length xs then x else xs ! j)"
  by (cases "i < length xs") (auto simp: nth_list_update list_update_beyond)

lemma fold_zero:
  "length (fold (\<lambda>t buf. buf[snd t := 0]) ts buf) = length buf \<and>
   (\<forall>i < length buf. fold (\<lambda>t buf. buf[snd t := 0]) ts buf ! i = (if i \<in> snd ` set ts then 0 else buf ! i))"
  for buf :: "u8 list"
  by (induction ts arbitrary: buf) (auto simp: nth_list_update list_update_beyond)

lemma nulterminate_nth:
  "length (nulterminate c buf) = length buf \<and>
   (\<forall>i < length buf. nulterminate c buf ! i = (if i \<in> snd ` set_cmd c then 0 else buf ! i))"
proof (induction c buf rule: nulterminate.induct)
  case (1 ts buf)
  then show ?case using fold_zero [of ts buf] by simp
qed (auto simp: nth_update)

lemma token_string:
  assumes "\<forall>t \<in> set_cmd c. token line t" and "t \<in> set_cmd c" and "0 \<notin> set line"
  shows "cstring (nulterminate c (line @ [0])) (fst t) = slice line t"
proof -
  obtain q e where t: "t = (q, e)" by (cases t)
  let ?b = "nulterminate c (line @ [0])"
  have len: "length ?b = length line + 1" using nulterminate_nth [of c "line @ [0]"] by simp
  have tk: "q < e" "e \<le> length line" "\<And>i. q \<le> i \<Longrightarrow> i < e \<Longrightarrow> is_word (line ! i)" using assms(1,2) t by (auto simp: token_def)
  have in_t: "?b ! i = line ! i" if i: "q \<le> i" "i < e" for i
  proof -
    have "i \<notin> snd ` set_cmd c"
    proof
      assume "i \<in> snd ` set_cmd c"
      then obtain q' where "token line (q', i)" using assms(1) by force
      then show False using tk i by (auto simp: token_def)
    qed
    then show ?thesis using nulterminate_nth [of c "line @ [0]"] i tk(2) by (auto simp: nth_append)
  qed
  have at_e: "?b ! e = 0" using nulterminate_nth [of c "line @ [0]"] tk(2) assms(2) t by (force simp: nth_append)
  have nz: "?b ! i \<noteq> 0" if "q \<le> i" "i < e" for i
  proof -
    have "line ! i \<in> set line" using that tk(2) by simp
    then show ?thesis using in_t [OF that] assms(3) by metis
  qed
  have "take (e - q) (drop q ?b) = take (e - q) (drop q line)"
    by (rule nth_equalityI) (use len tk in_t in auto)
  moreover have "takeWhile (\<lambda>x. x \<noteq> 0) (drop q ?b) = take (e - q) (drop q ?b)"
    by (rule takeWhile_eq_take_P_nth) (use len tk nz at_e in auto)
  ultimately show ?thesis by (simp add: cstring_def slice_def t)
qed

declare parsepipe.simps [simp del] parseline.simps [simp del]

lemma parsecmd_cases:
  "parsecmd line w \<noteq> Udiverge"
  "parsecmd line w = Uok (c, buf) t \<Longrightarrow> buf = nulterminate c (line @ [0]) \<and> (\<forall>t \<in> set_cmd c. token line t)"
proof -
  define x where "x = parseline (length line + 1) line 0 w"
  have x: "parsed line 0 x" unfolding x_def by (rule parseline_parsed) simp_all
  have e: "parsecmd line w = bindu x (\<lambda>(c, s) w. let (s, _) = peek line s [] in
     if s \<noteq> length line
     then bindu (ufprintf 2 (cstr ''leftovers: %s'' @ [10]) [UStr (Some (drop s line))] w) (\<lambda>_ w. upanic ''syntax'' w)
     else Uok (c, nulterminate c (line @ [0])) w)" by (simp only: parsecmd_def x_def)
  show "parsecmd line w \<noteq> Udiverge"
    using x unfolding e
    by (cases x) (auto simp: bindu_diverge ufprintf_def vprintf_def Let_def split: prod.splits if_splits option.splits)
  show "parsecmd line w = Uok (c, buf) t \<Longrightarrow> buf = nulterminate c (line @ [0]) \<and> (\<forall>t \<in> set_cmd c. token line t)"
    using x unfolding e by (cases x) (auto simp: bindu_eq_Uok Let_def split: prod.splits if_splits)
qed

text \<open>
  C32. The shell's parser returns on every line: with its bound on the recursion it never runs out, so the routines of the
  source end on every input, with a command or with an error exit. In a command it returns, every string is a token of the line,
  a maximal run of characters that are neither white space nor symbols, and once \<open>nulterminate\<close> has cut the line
  each string, read up to its terminating zero, is exactly that token.
\<close>

theorem parsecmd_returns:
  assumes "0 \<notin> set line"
  shows "parsecmd line w \<noteq> Udiverge \<and>
    (\<forall>c buf u. parsecmd line w = Uok (c, buf) u \<longrightarrow>
      (\<forall>t \<in> set_cmd c. token line t \<and> cstring buf (fst t) = take (snd t - fst t) (drop (fst t) line)))"
proof -
  have "token line t \<and> cstring buf (fst t) = take (snd t - fst t) (drop (fst t) line)"
    if "parsecmd line w = Uok (c, buf) u" "t \<in> set_cmd c" for c buf u t
    using parsecmd_cases(2) [OF that(1)] token_string [of c line t] that(2) assms by (simp add: slice_def)
  then show ?thesis using parsecmd_cases(1) by blast
qed

definition tty_world :: "nat \<Rightarrow> world" where
  "tty_world n = \<lparr>answers = [], calls = [], mallocs = n\<rparr>"

text \<open>The line \<open>ls|wc >x\<close>.\<close>

theorem parsecmd_returns_witness:
  "\<exists>buf u. parsecmd [108, 115, 124, 119, 99, 32, 62, 120] (tty_world 5) =
      Uok (PIPE (EXEC [(0, 2)]) (REDIR (EXEC [(3, 5)]) (7, 8) 1537 1), buf) u \<and>
    cstring buf 0 = [108, 115] \<and> cstring buf 3 = [119, 99] \<and> cstring buf 7 = [120]"
proof -
  let ?l = "[108, 115, 124, 119, 99, 32, 62, 120] :: u8 list"
  let ?c = "PIPE (EXEC [(0, 2)]) (REDIR (EXEC [(3, 5)]) (7, 8) 1537 1) :: (nat \<times> nat) cmd"
  have p: "parsecmd ?l (tty_world 5) = Uok (?c, [108, 115, 0, 119, 99, 0, 62, 120, 0]) (tty_world 1)"
    unfolding tty_world_def by code_simp
  have "0 \<notin> set ?l" by simp
  from parsecmd_returns [OF this, of "tty_world 5"] p show ?thesis by auto
qed

section \<open>Printing a command and parsing it back\<close>

fun unwords :: "u8 list list \<Rightarrow> u8 list" where
  "unwords [] = []"
| "unwords [x] = x"
| "unwords (x # xs) = x @ 32 # unwords xs"

definition redir_sym :: "int \<Rightarrow> int \<Rightarrow> u8 list" where
  "redir_sym mode fd = (if fd = 0 then [60] else if mode = (O_WRONLY OR O_CREATE OR O_TRUNC) then [62] else [62, 62])"

fun show_cmd :: "u8 list cmd \<Rightarrow> u8 list" where
  "show_cmd (EXEC ws) = unwords ws"
| "show_cmd (REDIR c f m d) = 40 # show_cmd c @ 41 # redir_sym m d @ f"
| "show_cmd (PIPE l r) = 40 # show_cmd l @ 41 # 124 # 40 # show_cmd r @ [41]"
| "show_cmd (LIST l r) = 40 # show_cmd l @ 41 # 59 # 40 # show_cmd r @ [41]"
| "show_cmd (BACK c) = 40 # show_cmd c @ [41, 38]"

definition ok_word :: "u8 list \<Rightarrow> bool" where
  "ok_word x \<longleftrightarrow> x \<noteq> [] \<and> (\<forall>c \<in> set x. is_word c \<and> c \<noteq> 0)"

text \<open>The commands that the shell can have: words, fewer than \<open>MAXARGS\<close> arguments, and its three redirections.\<close>

fun ok_cmd :: "u8 list cmd \<Rightarrow> bool" where
  "ok_cmd (EXEC ws) \<longleftrightarrow> length ws < MAXARGS \<and> list_all ok_word ws"
| "ok_cmd (REDIR c f m d) \<longleftrightarrow> ok_cmd c \<and> ok_word f \<and>
     (m, d) \<in> {(O_RDONLY, 0), (O_WRONLY OR O_CREATE OR O_TRUNC, 1), (O_WRONLY OR O_CREATE, 1)}"
| "ok_cmd (PIPE l r) \<longleftrightarrow> ok_cmd l \<and> ok_cmd r"
| "ok_cmd (LIST l r) \<longleftrightarrow> ok_cmd l \<and> ok_cmd r"
| "ok_cmd (BACK c) \<longleftrightarrow> ok_cmd c"

fun nodes :: "'t cmd \<Rightarrow> nat" where
  "nodes (EXEC ts) = 1"
| "nodes (REDIR c f m d) = nodes c + 1"
| "nodes (PIPE l r) = nodes l + nodes r + 1"
| "nodes (LIST l r) = nodes l + nodes r + 1"
| "nodes (BACK c) = nodes c + 1"

text \<open>What stands at a position of the line.\<close>

definition rest_ok :: "u8 list \<Rightarrow> bool" where
  "rest_ok r \<longleftrightarrow> r = [] \<or> (\<not> is_ws (hd r) \<and> hd r \<noteq> 0)"

lemma drop_past: "drop s line = a @ b \<Longrightarrow> drop (s + length a) line = b"
  by (metis append_eq_conv_conj add.commute drop_drop)

lemma drop_past1: "drop s line = c # b \<Longrightarrow> drop (Suc s) line = b"
  using drop_past [of s line "[c]" b] by simp

lemma drop_in: "drop s line = c # b \<Longrightarrow> s < length line"
  by (rule ccontr) simp

lemma byte_here: "byte line s = (case drop s line of [] \<Rightarrow> 0 | c # _ \<Rightarrow> c)"
  by (cases "s < length line") (simp_all add: byte_def Cons_nth_drop_Suc [symmetric])

lemma scan_here: "(case drop s line of [] \<Rightarrow> True | c # _ \<Rightarrow> \<not> P c) \<Longrightarrow> scan P line s = s"
  by (subst scan.simps) (auto simp: Cons_nth_drop_Suc [symmetric] split: list.splits)

lemma ws_here: "drop s line = r \<Longrightarrow> rest_ok r \<Longrightarrow> scan is_ws line s = s"
  by (rule scan_here) (auto simp: rest_ok_def split: list.splits)

lemma peek_here: "drop s line = r \<Longrightarrow> rest_ok r \<Longrightarrow> peek line s toks = (s, r \<noteq> [] \<and> hd r \<in> set toks)"
  by (auto simp: peek_def ws_here byte_here rest_ok_def split: list.splits)

lemma gettoken_symbol:
  assumes "drop s line = c # r" and "c \<in> {124, 40, 41, 59, 38, 60}" and "rest_ok r"
  shows "gettoken line s = (c, s, s + 1, s + 1)"
proof -
  have "scan is_ws line s = s" by (rule ws_here [OF assms(1)]) (use assms(2) in \<open>auto simp: rest_ok_def is_ws_def whitespace_def\<close>)
  moreover have "scan is_ws line (s + 1) = s + 1" by (rule ws_here [OF _ assms(3)]) (use drop_past1 [OF assms(1)] in simp)
  ultimately show ?thesis using assms(1,2) by (auto simp: gettoken_def byte_here)
qed

lemma gettoken_redir:
  assumes "drop s line = redir_sym m d @ r" and "rest_ok r" and "r = [] \<or> hd r \<noteq> 62"
  shows "fst (gettoken line s) = (if d = 0 then 60 else if m = (O_WRONLY OR O_CREATE OR O_TRUNC) then 62 else 43) \<and>
    snd (snd (snd (gettoken line s))) = s + length (redir_sym m d)"
proof -
  obtain c r' where c: "drop s line = c # r'" "c = 60 \<or> c = 62" "redir_sym m d @ r = c # r'" using assms(1) by (auto simp: redir_sym_def split: if_splits)
  have a: "scan is_ws line s = s" by (rule ws_here [OF c(1)]) (use c(2) in \<open>auto simp: rest_ok_def is_ws_def whitespace_def\<close>)
  have b: "scan is_ws line (s + length (redir_sym m d)) = s + length (redir_sym m d)"
    by (rule ws_here [OF drop_past [OF assms(1)] assms(2)])
  have n: "byte line (s + 1) = (case r' of [] \<Rightarrow> 0 | x # _ \<Rightarrow> x)" using drop_past1 [OF c(1)] by (simp add: byte_here)
  show ?thesis using a b n c assms(3)
    by (auto simp: gettoken_def byte_here redir_sym_def Let_def split: if_splits list.splits)
qed

lemma ok_word_cons: "ok_word x \<Longrightarrow> \<exists>c y. x = c # y \<and> is_word c \<and> c \<noteq> 0 \<and> \<not> is_ws c"
  by (cases x) (auto simp: ok_word_def is_word_def is_ws_def)

lemma rest_ok_word: "ok_word x \<Longrightarrow> rest_ok (x @ r)"
  by (auto dest!: ok_word_cons simp: rest_ok_def)

lemma gettoken_aword:
  assumes "drop s line = x @ r" and "ok_word x" and "r = [] \<or> \<not> is_word (hd r)" and "s \<le> length line"
  shows "gettoken line s = (97, s, s + length x, scan is_ws line (s + length x))"
proof -
  obtain c y where x: "x = c # y" "is_word c" "c \<noteq> 0" "\<not> is_ws c" using ok_word_cons [OF assms(2)] by blast
  have a: "scan is_ws line s = s" by (rule ws_here [OF assms(1)]) (simp add: rest_ok_def x)
  have "takeWhile is_word (x @ r) = x"
    using assms(2,3) by (cases r) (auto simp: ok_word_def takeWhile_append2)
  then have b: "scan is_word line s = s + length x" using assms(1,4) by (simp add: scan_eq)
  have "c \<notin> {124, 40, 41, 59, 38, 60, 62}" using x(2) by (auto simp: is_word_def symbols_def)
  then show ?thesis using a b assms(1) x by (auto simp: gettoken_def byte_here)
qed

definition closing :: "u8 list \<Rightarrow> bool" where
  "closing r \<longleftrightarrow> r = [] \<or> hd r = 41"

lemma closing_ok: "closing r \<Longrightarrow> rest_ok r"
  by (auto simp: closing_def rest_ok_def is_ws_def whitespace_def)

lemma symbol_ok: "c \<in> {124, 40, 41, 59, 38, 60, 62} \<Longrightarrow> rest_ok (c # r)"
  by (auto simp: rest_ok_def is_ws_def whitespace_def)

lemma closing_not_word: "closing r \<Longrightarrow> r = [] \<or> \<not> is_word (hd r)"
  by (auto simp: closing_def is_word_def symbols_def)

lemma word_hd: "ok_word x \<Longrightarrow> hd (x @ r) \<notin> {124, 40, 41, 59, 38, 60, 62}"
  by (auto dest!: ok_word_cons simp: is_word_def symbols_def)

lemma no_redirs:
  assumes "drop s line = r" and "rest_ok r" and "r = [] \<or> hd r \<notin> {60, 62}"
  shows "parseredirs c line s w = Uok (c, s) w"
  unfolding parseredirs.simps [of c line s w] peek_here [OF assms(1,2)] using assms(3) by auto

lemma slice_here: "drop s line = x @ r \<Longrightarrow> slice line (s, s + length x) = x"
  by (simp add: slice_def)

lemma unwords_Cons: "unwords (x # xs) = x @ (if xs = [] then [] else 32 # unwords xs)"
  by (cases xs) simp_all

lemma unwords_ok: "list_all ok_word xs \<Longrightarrow> xs \<noteq> [] \<Longrightarrow> \<exists>x y. unwords xs = x @ y \<and> ok_word x"
  by (cases xs) (auto simp: unwords_Cons)

lemma rest_ok_unwords: "list_all ok_word xs \<Longrightarrow> closing r \<Longrightarrow> rest_ok (unwords xs @ r)"
  by (cases "xs = []") (auto simp: closing_ok dest!: unwords_ok intro: rest_ok_word)

lemma unwords_hd:
  "list_all ok_word xs \<Longrightarrow> closing r \<Longrightarrow> unwords xs @ r = [] \<or> hd (unwords xs @ r) \<notin> {124, 40, 59, 38, 60, 62}"
  using word_hd by (cases "xs = []") (auto simp: closing_def dest!: unwords_ok)

lemma parse_words:
  "drop s line = unwords xs @ r \<Longrightarrow> s \<le> length line \<Longrightarrow> closing r \<Longrightarrow> list_all ok_word xs \<Longrightarrow> argc + length xs < MAXARGS \<Longrightarrow>
    \<exists>us. parseexec_loop (EXEC ts) argc line s w = Uok (EXEC (ts @ us), s + length (unwords xs)) w \<and> map (slice line) us = xs"
proof (induction xs arbitrary: s ts argc)
  case Nil
  have p: "peek line s [124, 41, 38, 59] = (s, r \<noteq> [])"
    using peek_here [of s line r "[124, 41, 38, 59]"] Nil.prems closing_ok [of r] by (auto simp: closing_def)
  have "gettoken line s = (0, s, s, s)" if "r = []"
    using Nil.prems(1) that ws_here [of s line "[]"] by (simp add: gettoken_def byte_here rest_ok_def)
  then show ?case unfolding parseexec_loop.simps [of "EXEC ts" argc line s w] p by auto
next
  case (Cons x xs)
  let ?tl = "if xs = [] then r else 32 # unwords xs @ r"
  have d: "drop s line = x @ ?tl" using Cons.prems(1) by (auto simp: unwords_Cons)
  have x: "ok_word x" "list_all ok_word xs" using Cons.prems(4) by simp_all
  have p: "peek line s [124, 41, 38, 59] = (s, False)"
    using peek_here [OF d rest_ok_word [OF x(1)], of "[124, 41, 38, 59]"] word_hd [OF x(1), of ?tl] by auto
  let ?e = "s + length x"
  define s1 where "s1 = (if xs = [] then ?e else ?e + 1)"
  have e: "drop ?e line = ?tl" by (rule drop_past [OF d])
  have d1: "drop s1 line = unwords xs @ r" using e drop_past1 [of ?e line 32] by (auto simp: s1_def)
  have ws: "scan is_ws line ?e = s1"
  proof (cases "xs = []")
    case True
    then show ?thesis using ws_here [OF e] closing_ok [OF Cons.prems(3)] by (simp add: s1_def)
  next
    case False
    then have "?e < length line" "line ! ?e = 32" using e drop_in [of ?e line] by (auto simp: nth_via_drop)
    then have "scan is_ws line ?e = scan is_ws line s1" using False
      by (subst scan.simps) (simp add: is_ws_def whitespace_def s1_def)
    then show ?thesis using ws_here [OF d1 rest_ok_unwords [OF x(2) Cons.prems(3)]] by simp
  qed
  have g: "gettoken line s = (97, s, ?e, s1)"
    using gettoken_aword [OF d x(1) _ Cons.prems(2)] closing_not_word [OF Cons.prems(3)] ws
    by (auto simp: is_word_def whitespace_def)
  have s1: "s1 \<le> length line"
    using gettoken_bounds [OF Cons.prems(2) g] by simp
  have nr: "parseredirs (EXEC (ts @ [(s, ?e)])) line s1 w = Uok (EXEC (ts @ [(s, ?e)]), s1) w"
    by (rule no_redirs [OF d1 rest_ok_unwords [OF x(2) Cons.prems(3)]]) (use unwords_hd [OF x(2) Cons.prems(3)] in auto)
  obtain us where us: "parseexec_loop (EXEC (ts @ [(s, ?e)])) (Suc argc) line s1 w = Uok (EXEC ((ts @ [(s, ?e)]) @ us), s1 + length (unwords xs)) w"
    "map (slice line) us = xs" using Cons.IH [OF d1 s1 Cons.prems(3) x(2), where argc = "Suc argc" and ts = "ts @ [(s, ?e)]"] Cons.prems(5) by auto
  have "parseexec_loop (EXEC ts) argc line s w = parseexec_loop (EXEC (ts @ [(s, ?e)])) (Suc argc) line s1 w"
    unfolding parseexec_loop.simps [of "EXEC ts" argc line s w] p using Cons.prems(5) by (simp add: g nr)
  moreover have "s1 + length (unwords xs) = s + length (unwords (x # xs))" by (simp add: s1_def unwords_Cons)
  ultimately have A: "parseexec_loop (EXEC ts) argc line s w = Uok (EXEC (ts @ (s, ?e) # us), s + length (unwords (x # xs))) w"
    using us(1) by simp
  have B: "map (slice line) ((s, ?e) # us) = x # xs" using us(2) slice_here [OF d] by simp
  show ?case by (rule exI [of _ "(s, ?e) # us"], rule conjI [OF A B])
qed

text \<open>\<open>parses x\<close>: wherever the text of \<open>x\<close> stands in a line, up to a closing parenthesis or the end, \<open>parseline\<close> reads \<open>x\<close>.\<close>

definition spent :: "nat \<Rightarrow> world \<Rightarrow> world" where
  "spent n w = w\<lparr>mallocs := mallocs w - n\<rparr>"

definition parses :: "u8 list cmd \<Rightarrow> bool" where
  "parses x \<longleftrightarrow> (\<forall>line s r k w. drop s line = show_cmd x @ r \<longrightarrow> s \<le> length line \<longrightarrow> closing r \<longrightarrow> length line - s < k \<longrightarrow> nodes x \<le> mallocs w \<longrightarrow>
     (\<exists>c. parseline k line s w = Uok (c, s + length (show_cmd x)) (spent (nodes x) w) \<and> map_cmd (slice line) c = x))"

lemma spent_simps [simp]: "spent n (spent m w) = spent (m + n) w" "mallocs (spent n w) = mallocs w - n"
  by (simp_all add: spent_def)

lemma ualloc_spent: "0 < mallocs w \<Longrightarrow> ualloc w = Uok () (spent 1 w)"
  by (simp add: ualloc_def spent_def)

lemma block_parses:
  assumes "parses x" and "drop s line = 40 # show_cmd x @ 41 # r" and "rest_ok r" and "length line - s \<le> k" and "nodes x \<le> mallocs w"
    and "rest_ok (show_cmd x @ [41])"
  obtains c where "parseexec (parseline k) line s w = parseredirs c line (s + length (show_cmd x) + 2) (spent (nodes x) w)"
    and "map_cmd (slice line) c = x"
proof -
  let ?e = "Suc s + length (show_cmd x)"
  have s: "s < length line" by (rule drop_in [OF assms(2)])
  have d1: "drop (Suc s) line = show_cmd x @ 41 # r" by (rule drop_past1 [OF assms(2)])
  have d2: "drop ?e line = 41 # r" by (rule drop_past [OF d1])
  have r1: "rest_ok (show_cmd x @ 41 # r)" using assms(6) by (cases "show_cmd x") (auto simp: rest_ok_def)
  have f: "Suc s \<le> length line" "length line - Suc s < k" using s assms(4) by simp_all
  obtain c where c: "parseline k line (Suc s) w = Uok (c, ?e) (spent (nodes x) w)" "map_cmd (slice line) c = x"
    using assms(1)[unfolded parses_def, rule_format, OF d1 f(1) _ f(2) assms(5)] by (auto simp: closing_def)
  have g1: "gettoken line s = (40, s, Suc s, Suc s)" using gettoken_symbol [OF assms(2) _ r1] by simp
  have g2: "gettoken line ?e = (41, ?e, Suc ?e, Suc ?e)" using gettoken_symbol [OF d2 _ assms(3)] by simp
  have p1: "peek line s [40] = (s, True)" using peek_here [OF assms(2) symbol_ok, of "[40]"] by simp
  have p2: "peek line ?e [41] = (?e, True)" using peek_here [OF d2 symbol_ok, of "[41]"] by simp
  have "parseexec (parseline k) line s w = parseredirs c line (Suc ?e) (spent (nodes x) w)"
    unfolding parseexec_def parseblock_def p1 prod.case Let_def if_True not_True_eq_False if_False g1 c(1) bindu_simps p2 g2 ..
  then show ?thesis using c(2) that by simp
qed

lemma show_ok: "ok_cmd x \<Longrightarrow> closing r \<Longrightarrow> rest_ok (show_cmd x @ r)"
  by (cases x) (auto simp: rest_ok_unwords intro: symbol_ok)

lemma exec_block:
  assumes "parses x" and "ok_cmd x" and "drop s line = 40 # show_cmd x @ 41 # r" and "rest_ok r" and "r = [] \<or> hd r \<notin> {60, 62}"
    and "length line - s \<le> k" and "nodes x \<le> mallocs w"
  obtains c where "parseexec (parseline k) line s w = Uok (c, s + length (show_cmd x) + 2) (spent (nodes x) w)"
    and "map_cmd (slice line) c = x" and "drop (s + length (show_cmd x) + 2) line = r"
proof -
  have ok: "rest_ok (show_cmd x @ [41])" by (rule show_ok [OF assms(2)]) (simp add: closing_def)
  obtain c where c: "parseexec (parseline k) line s w = parseredirs c line (s + length (show_cmd x) + 2) (spent (nodes x) w)"
    "map_cmd (slice line) c = x" by (rule block_parses [OF assms(1,3,4,6,7) ok])
  have d: "drop (s + length (show_cmd x) + 2) line = r" using drop_past [of s line "40 # show_cmd x @ [41]" r] assms(3) by simp
  show ?thesis using that [OF _ c(2) d] c(1) no_redirs [OF d assms(4,5), of c "spent (nodes x) w"] by simp
qed

lemma pipe_last:
  assumes "parseexec pl line s w = Uok (c, s') w'" and "drop s' line = r" and "rest_ok r" and "r = [] \<or> hd r \<noteq> 124"
  shows "parsepipe (Suc n) pl line s w = Uok (c, s') w'"
  unfolding parsepipe.simps assms(1) using peek_here [OF assms(2,3), of "[124]"] assms(4) by auto

lemma no_backs:
  assumes "drop s line = r" and "rest_ok r" and "r = [] \<or> hd r \<noteq> 38"
  shows "parsebacks c line s w = Uok (c, s) w"
  unfolding parsebacks.simps [of c line s w] using peek_here [OF assms(1,2), of "[38]"] assms(3) by auto

lemma line_last:
  assumes "parsepipe (length line - s + 1) (parseline k) line s w = Uok (c, s') w'" and "drop s' line = r" and "closing r"
  shows "parseline (Suc k) line s w = Uok (c, s') w'"
proof -
  have r: "rest_ok r" "r = [] \<or> hd r \<noteq> 38" "r = [] \<or> hd r \<noteq> 59" using assms(3) closing_ok by (auto simp: closing_def)
  show ?thesis unfolding parseline.simps assms(1) using no_backs [OF assms(2) r(1,2), of c w'] peek_here [OF assms(2) r(1), of "[59]"] r(3) by auto
qed

lemma parses_EXEC:
  assumes "ok_cmd (EXEC ws)"
  shows "parses (EXEC ws)"
  unfolding parses_def
proof (intro allI impI)
  fix line s r k and w :: world
  assume d: "drop s line = show_cmd (EXEC ws) @ r" and s: "s \<le> length line" and r: "closing r" and k: "length line - s < k"
    and m: "nodes (EXEC ws) \<le> mallocs w"
  obtain k' where k': "k = Suc k'" using k by (cases k) auto
  have ws: "list_all ok_word ws" "0 + length ws < MAXARGS" using assms by simp_all
  have d': "drop s line = unwords ws @ r" using d by simp
  have ok: "rest_ok (unwords ws @ r)" by (rule rest_ok_unwords [OF ws(1) r])
  have h: "unwords ws @ r = [] \<or> hd (unwords ws @ r) \<notin> {60, 62}" "unwords ws @ r = [] \<or> hd (unwords ws @ r) \<noteq> 40"
    using unwords_hd [OF ws(1) r] by auto
  obtain us where us: "parseexec_loop (EXEC ([] :: (nat \<times> nat) list)) 0 line s (spent 1 w) = Uok (EXEC ([] @ us), s + length (unwords ws)) (spent 1 w)"
    "map (slice line) us = ws" using parse_words [OF d' s r ws, of "[]" "spent 1 w"] by blast
  have "parseexec (parseline k') line s w = Uok (EXEC us, s + length (unwords ws)) (spent 1 w)"
    using peek_here [OF d' ok, of "[40]"] h(2) us(1) no_redirs [OF d' ok h(1), of "EXEC []" "spent 1 w"] m
    by (auto simp: parseexec_def execcmd_def ualloc_spent)
  then have "parsepipe (Suc (length line - s)) (parseline k') line s w = Uok (EXEC us, s + length (unwords ws)) (spent 1 w)"
    by (rule pipe_last [OF _ drop_past [OF d'] closing_ok [OF r]]) (use r in \<open>auto simp: closing_def\<close>)
  then have "parseline (Suc k') line s w = Uok (EXEC us, s + length (unwords ws)) (spent 1 w)"
    by (intro line_last [OF _ drop_past [OF d'] r]) simp
  then show "\<exists>c. parseline k line s w = Uok (c, s + length (show_cmd (EXEC ws))) (spent (nodes (EXEC ws)) w) \<and> map_cmd (slice line) c = EXEC ws"
    using us(2) by (intro exI [of _ "EXEC us"]) (simp add: k')
qed

text \<open>A command in parentheses, alone on the line.\<close>

lemma line_block:
  assumes "parses x" and "ok_cmd x" and "drop s line = 40 # show_cmd x @ 41 # r" and "closing r" and "length line - s < k" and "nodes x \<le> mallocs w"
  obtains c where "parseline k line s w = Uok (c, s + length (show_cmd x) + 2) (spent (nodes x) w)" and "map_cmd (slice line) c = x"
proof -
  obtain k' where k': "k = Suc k'" using assms(5) by (cases k) auto
  have r: "rest_ok r" "r = [] \<or> hd r \<notin> {60, 62}" "r = [] \<or> hd r \<noteq> 124" using assms(4) closing_ok by (auto simp: closing_def)
  have k: "length line - s \<le> k'" using assms(5) k' by simp
  obtain c where c: "parseexec (parseline k') line s w = Uok (c, s + length (show_cmd x) + 2) (spent (nodes x) w)"
    "map_cmd (slice line) c = x" "drop (s + length (show_cmd x) + 2) line = r"
    by (rule exec_block [OF assms(1,2,3) r(1,2) k assms(6)])
  have "parsepipe (length line - s + 1) (parseline k') line s w = Uok (c, s + length (show_cmd x) + 2) (spent (nodes x) w)"
    using pipe_last [OF c(1,3) r(1,3)] by simp
  from line_last [OF this c(3) assms(4)] show ?thesis using that c(2) k' by blast
qed

lemma parses_BACK:
  assumes "parses x" and "ok_cmd x"
  shows "parses (BACK x)"
  unfolding parses_def
proof (intro allI impI)
  fix line s r k and w :: world
  assume d: "drop s line = show_cmd (BACK x) @ r" and s: "s \<le> length line" and r: "closing r" and k: "length line - s < k"
    and m: "nodes (BACK x) \<le> mallocs w"
  obtain k' where k': "k = Suc k'" using k by (cases k) auto
  have d': "drop s line = 40 # show_cmd x @ 41 # 38 # r" and kl: "length line - s \<le> k'" and m': "nodes x \<le> mallocs w"
    using d k k' m by simp_all
  let ?e = "s + length (show_cmd x) + 2"
  obtain c where c: "parseexec (parseline k') line s w = Uok (c, ?e) (spent (nodes x) w)"
    "map_cmd (slice line) c = x" "drop ?e line = 38 # r"
    by (rule exec_block [OF assms d' symbol_ok _ kl m']) simp_all
  have p: "parsepipe (length line - s + 1) (parseline k') line s w = Uok (c, ?e) (spent (nodes x) w)"
    using pipe_last [OF c(1,3) symbol_ok] by simp
  have r': "rest_ok r" "r = [] \<or> hd r \<noteq> 38" "r = [] \<or> hd r \<noteq> 59" using r closing_ok by (auto simp: closing_def)
  have d2: "drop (Suc ?e) line = r" by (rule drop_past1 [OF c(3)])
  have g: "gettoken line ?e = (38, ?e, Suc ?e, Suc ?e)" using gettoken_symbol [OF c(3) _ r'(1)] by simp
  have pk: "peek line ?e [38] = (?e, True)" using peek_here [OF c(3) symbol_ok, of "[38]"] by simp
  have a: "ualloc (spent (nodes x) w) = Uok () (spent (nodes x + 1) w)" using ualloc_spent [of "spent (nodes x) w"] m by simp
  have b: "parsebacks c line ?e (spent (nodes x) w) = Uok (BACK c, Suc ?e) (spent (nodes x + 1) w)"
    unfolding parsebacks.simps [of c line ?e] pk prod.case Let_def not_True_eq_False if_False g backcmd_def a bindu_simps
    by (rule no_backs [OF d2 r'(1,2)])
  have "parseline (Suc k') line s w = Uok (BACK c, Suc ?e) (spent (nodes x + 1) w)"
    unfolding parseline.simps p bindu_simps prod.case b using peek_here [OF d2 r'(1), of "[59]"] r'(3) by auto
  then show "\<exists>c. parseline k line s w = Uok (c, s + length (show_cmd (BACK x))) (spent (nodes (BACK x)) w) \<and> map_cmd (slice line) c = BACK x"
    using c(2) by (intro exI [of _ "BACK c"]) (simp add: k')
qed

lemma parses_LIST:
  assumes "parses x" and "ok_cmd x" and "parses y" and "ok_cmd y"
  shows "parses (LIST x y)"
  unfolding parses_def
proof (intro allI impI)
  fix line s r k and w :: world
  assume d: "drop s line = show_cmd (LIST x y) @ r" and s: "s \<le> length line" and r: "closing r" and k: "length line - s < k"
    and m: "nodes (LIST x y) \<le> mallocs w"
  obtain k' where k': "k = Suc k'" using k by (cases k) auto
  let ?r = "40 # show_cmd y @ 41 # r"
  have d': "drop s line = 40 # show_cmd x @ 41 # 59 # ?r" and kl: "length line - s \<le> k'" and m': "nodes x \<le> mallocs w"
    using d k k' m by simp_all
  let ?e = "s + length (show_cmd x) + 2"
  obtain c where c: "parseexec (parseline k') line s w = Uok (c, ?e) (spent (nodes x) w)"
    "map_cmd (slice line) c = x" "drop ?e line = 59 # ?r"
    by (rule exec_block [OF assms(1,2) d' symbol_ok _ kl m']) simp_all
  have p: "parsepipe (length line - s + 1) (parseline k') line s w = Uok (c, ?e) (spent (nodes x) w)"
    using pipe_last [OF c(1,3) symbol_ok] by simp
  have b: "parsebacks c line ?e (spent (nodes x) w) = Uok (c, ?e) (spent (nodes x) w)"
    by (rule no_backs [OF c(3) symbol_ok]) simp_all
  have d2: "drop (Suc ?e) line = ?r" by (rule drop_past1 [OF c(3)])
  have g: "gettoken line ?e = (59, ?e, Suc ?e, Suc ?e)" using gettoken_symbol [OF c(3) _ symbol_ok] by simp
  have pk: "peek line ?e [59] = (?e, True)" using peek_here [OF c(3) symbol_ok, of "[59]"] by simp
  have k2: "length line - Suc ?e < k'" using kl drop_in [OF d'] by linarith
  have m2: "nodes y \<le> mallocs (spent (nodes x) w)" using m by simp
  obtain c' where c': "parseline k' line (Suc ?e) (spent (nodes x) w) = Uok (c', Suc ?e + length (show_cmd y) + 2) (spent (nodes y) (spent (nodes x) w))"
    "map_cmd (slice line) c' = y"
    by (rule line_block [OF assms(3,4) d2 r k2 m2])
  have a: "ualloc (spent (nodes y) (spent (nodes x) w)) = Uok () (spent (nodes x + nodes y + 1) w)"
    using ualloc_spent [of "spent (nodes y) (spent (nodes x) w)"] m by simp
  have "parseline (Suc k') line s w = Uok (LIST c c', Suc ?e + length (show_cmd y) + 2) (spent (nodes x + nodes y + 1) w)"
    unfolding parseline.simps p bindu_simps prod.case b pk Let_def if_True g c'(1) listcmd_def a ..
  then show "\<exists>c. parseline k line s w = Uok (c, s + length (show_cmd (LIST x y))) (spent (nodes (LIST x y)) w) \<and> map_cmd (slice line) c = LIST x y"
    using c(2) c'(2) by (intro exI [of _ "LIST c c'"]) (simp add: k')
qed

lemma parses_PIPE:
  assumes "parses x" and "ok_cmd x" and "parses y" and "ok_cmd y"
  shows "parses (PIPE x y)"
  unfolding parses_def
proof (intro allI impI)
  fix line s r k and w :: world
  assume d: "drop s line = show_cmd (PIPE x y) @ r" and s: "s \<le> length line" and r: "closing r" and k: "length line - s < k"
    and m: "nodes (PIPE x y) \<le> mallocs w"
  obtain k' where k': "k = Suc k'" using k by (cases k) auto
  let ?r = "40 # show_cmd y @ 41 # r"
  have d': "drop s line = 40 # show_cmd x @ 41 # 124 # ?r" and kl: "length line - s \<le> k'" and m': "nodes x \<le> mallocs w"
    using d k k' m by simp_all
  let ?e = "s + length (show_cmd x) + 2"
  let ?f = "Suc ?e + length (show_cmd y) + 2"
  obtain c where c: "parseexec (parseline k') line s w = Uok (c, ?e) (spent (nodes x) w)"
    "map_cmd (slice line) c = x" "drop ?e line = 124 # ?r"
    by (rule exec_block [OF assms(1,2) d' symbol_ok _ kl m']) simp_all
  have d2: "drop (Suc ?e) line = ?r" by (rule drop_past1 [OF c(3)])
  have g: "gettoken line ?e = (124, ?e, Suc ?e, Suc ?e)" using gettoken_symbol [OF c(3) _ symbol_ok] by simp
  have pk: "peek line ?e [124] = (?e, True)" using peek_here [OF c(3) symbol_ok, of "[124]"] by simp
  have r': "rest_ok r" "r = [] \<or> hd r \<notin> {60, 62}" "r = [] \<or> hd r \<noteq> 124" using r closing_ok by (auto simp: closing_def)
  have k2: "length line - Suc ?e \<le> k'" using kl by linarith
  have m2: "nodes y \<le> mallocs (spent (nodes x) w)" using m by simp
  obtain c' where c': "parseexec (parseline k') line (Suc ?e) (spent (nodes x) w) = Uok (c', ?f) (spent (nodes y) (spent (nodes x) w))"
    "map_cmd (slice line) c' = y" "drop ?f line = r"
    by (rule exec_block [OF assms(3,4) d2 r'(1,2) k2 m2])
  obtain n where n: "length line - s = Suc n" using drop_in [OF d'] by (cases "length line - s") auto
  have p2: "parsepipe (length line - s) (parseline k') line (Suc ?e) (spent (nodes x) w) = Uok (c', ?f) (spent (nodes y) (spent (nodes x) w))"
    unfolding n by (rule pipe_last [OF c'(1,3) r'(1,3)])
  have a: "ualloc (spent (nodes y) (spent (nodes x) w)) = Uok () (spent (nodes x + nodes y + 1) w)"
    using ualloc_spent [of "spent (nodes y) (spent (nodes x) w)"] m by simp
  have "parsepipe (Suc (length line - s)) (parseline k') line s w = Uok (PIPE c c', ?f) (spent (nodes x + nodes y + 1) w)"
    unfolding parsepipe.simps c(1) bindu_simps prod.case pk Let_def if_True g p2 pipecmd_def a ..
  then have "parseline (Suc k') line s w = Uok (PIPE c c', ?f) (spent (nodes x + nodes y + 1) w)"
    by (intro line_last [OF _ c'(3) r]) simp
  then show "\<exists>c. parseline k line s w = Uok (c, s + length (show_cmd (PIPE x y))) (spent (nodes (PIPE x y)) w) \<and> map_cmd (slice line) c = PIPE x y"
    using c(2) c'(2) by (intro exI [of _ "PIPE c c'"]) (simp add: k')
qed

lemma redir_parses:
  assumes "drop s line = redir_sym m d @ f @ r" and "ok_word f" and "closing r" and "0 < mallocs w"
    and md: "(m, d) \<in> {(O_RDONLY, 0), (O_WRONLY OR O_CREATE OR O_TRUNC, 1), (O_WRONLY OR O_CREATE, 1)}"
  shows "parseredirs c line s w =
    Uok (REDIR c (s + length (redir_sym m d), s + length (redir_sym m d) + length f) m d, s + length (redir_sym m d) + length f) (spent 1 w)"
proof -
  let ?q = "s + length (redir_sym m d)"
  let ?e = "?q + length f"
  have sym: "redir_sym m d \<noteq> []" "hd (redir_sym m d) \<in> {60, 62}" by (simp_all add: redir_sym_def)
  have ok: "rest_ok (redir_sym m d @ f @ r)" using sym by (auto simp: rest_ok_def is_ws_def whitespace_def)
  have pk: "peek line s [60, 62] = (s, True)" using peek_here [OF assms(1) ok, of "[60, 62]"] sym by auto
  have dq: "drop ?q line = f @ r" by (rule drop_past [OF assms(1)])
  have de: "drop ?e line = r" by (rule drop_past [OF dq])
  have q: "?q \<le> length line" using dq assms(2) by (cases "?q \<le> length line") (auto simp: ok_word_def)
  have hf: "f @ r = [] \<or> hd (f @ r) \<noteq> 62" using word_hd [OF assms(2)] by auto
  obtain tok q1 e1 s1 where g1: "gettoken line s = (tok, q1, e1, s1)" by (cases "gettoken line s") auto
  have t: "tok = (if d = 0 then 60 else if m = (O_WRONLY OR O_CREATE OR O_TRUNC) then 62 else 43)" "s1 = ?q"
    using gettoken_redir [OF assms(1) rest_ok_word [OF assms(2)] hf] by (simp_all add: g1)
  have g2: "gettoken line ?q = (97, ?q, ?e, ?e)"
    using gettoken_aword [OF dq assms(2) closing_not_word [OF assms(3)] q] ws_here [OF de closing_ok [OF assms(3)]] by simp
  have nr: "parseredirs (REDIR c (?q, ?e) m d) line ?e (spent 1 w) = Uok (REDIR c (?q, ?e) m d, ?e) (spent 1 w)"
    by (rule no_redirs [OF de closing_ok [OF assms(3)]]) (use assms(3) in \<open>auto simp: closing_def\<close>)
  have ne: "(O_WRONLY OR O_CREATE OR O_TRUNC) \<noteq> (O_WRONLY OR O_CREATE)"
    by (simp add: O_WRONLY_def O_CREATE_def O_TRUNC_def)
  have "(if tok = 60 then redircmd c (?q, ?e) O_RDONLY 0 w
      else if tok = 62 then redircmd c (?q, ?e) (O_WRONLY OR O_CREATE OR O_TRUNC) 1 w
      else if tok = 43 then redircmd c (?q, ?e) (O_WRONLY OR O_CREATE) 1 w else Uok c w) = Uok (REDIR c (?q, ?e) m d) (spent 1 w)"
    using md ne by (auto simp: t redircmd_def ualloc_spent [OF assms(4)])
  then show ?thesis unfolding parseredirs.simps [of c line s w] pk using nr by (simp add: g1 t(2) g2)
qed

lemma parses_REDIR:
  assumes "parses x" and "ok_cmd (REDIR x f m d)"
  shows "parses (REDIR x f m d)"
  unfolding parses_def
proof (intro allI impI)
  fix line s r k and w :: world
  assume dr: "drop s line = show_cmd (REDIR x f m d) @ r" and s: "s \<le> length line" and r: "closing r" and k: "length line - s < k"
    and m: "nodes (REDIR x f m d) \<le> mallocs w"
  obtain k' where k': "k = Suc k'" using k by (cases k) auto
  let ?r = "redir_sym m d @ f @ r"
  have d': "drop s line = 40 # show_cmd x @ 41 # ?r" and kl: "length line - s \<le> k'" and m': "nodes x \<le> mallocs w"
    using dr k k' m by simp_all
  have ok: "ok_cmd x" "ok_word f" "(m, d) \<in> {(O_RDONLY, 0), (O_WRONLY OR O_CREATE OR O_TRUNC, 1), (O_WRONLY OR O_CREATE, 1)}"
    using assms(2) by simp_all
  have r1: "rest_ok ?r" by (auto simp: redir_sym_def rest_ok_def is_ws_def whitespace_def)
  have r2: "rest_ok (show_cmd x @ [41])" by (rule show_ok [OF ok(1)]) (simp add: closing_def)
  let ?e = "s + length (show_cmd x) + 2"
  obtain c where c: "parseexec (parseline k') line s w = parseredirs c line ?e (spent (nodes x) w)" "map_cmd (slice line) c = x"
    by (rule block_parses [OF assms(1) d' r1 kl m' r2])
  have de: "drop ?e line = ?r" using drop_past [of s line "40 # show_cmd x @ [41]" ?r] d' by simp
  let ?q = "?e + length (redir_sym m d)"
  let ?f = "?q + length f"
  have "parseexec (parseline k') line s w = Uok (REDIR c (?q, ?f) m d, ?f) (spent (nodes x + 1) w)"
    unfolding c(1) using redir_parses [OF de ok(2) r _ ok(3), of "spent (nodes x) w" c] m by simp
  moreover have df: "drop ?f line = r" by (rule drop_past [OF drop_past [OF de]])
  ultimately have "parsepipe (Suc (length line - s)) (parseline k') line s w = Uok (REDIR c (?q, ?f) m d, ?f) (spent (nodes x + 1) w)"
    by (rule pipe_last [OF _ _ closing_ok [OF r]]) (use r in \<open>auto simp: closing_def\<close>)
  then have "parseline (Suc k') line s w = Uok (REDIR c (?q, ?f) m d, ?f) (spent (nodes x + 1) w)"
    by (intro line_last [OF _ df r]) simp
  moreover have "slice line (?q, ?f) = f" by (rule slice_here [OF drop_past [OF de]])
  ultimately show "\<exists>c. parseline k line s w = Uok (c, s + length (show_cmd (REDIR x f m d))) (spent (nodes (REDIR x f m d)) w) \<and>
      map_cmd (slice line) c = REDIR x f m d"
    using c(2) by (intro exI [of _ "REDIR c (?q, ?f) m d"]) (simp add: k' add.assoc)
qed

lemma all_parse: "ok_cmd x \<Longrightarrow> parses x"
  by (induction x) (auto intro: parses_EXEC parses_REDIR parses_PIPE parses_LIST parses_BACK)

lemma show_zero: "ok_cmd x \<Longrightarrow> 0 \<notin> set (show_cmd x)"
proof (induction x)
  case (EXEC ws)
  then have "list_all ok_word ws" by simp
  then show ?case
  proof (induction ws)
    case (Cons y ys)
    then show ?case by (auto simp: unwords_Cons ok_word_def)
  qed simp
qed (auto simp: redir_sym_def ok_word_def)

text \<open>
  C33. Printing and parsing are inverse. Every command the shell can represent, printed with parentheses around its parts,
  is parsed by \<open>parsecmd\<close> into a command of the same shape whose strings, once the line is cut, are the strings
  of the printed command: the same program arguments, files, modes and descriptors.
\<close>

theorem parsecmd_show:
  fixes w :: world
  assumes "ok_cmd x" and "nodes x \<le> mallocs w"
  shows "\<exists>c buf t. parsecmd (show_cmd x) w = Uok (c, buf) t \<and> map_cmd (\<lambda>t. cstring buf (fst t)) c = x"
proof -
  let ?l = "show_cmd x"
  obtain c where c: "parseline (length ?l + 1) ?l 0 w = Uok (c, 0 + length ?l) (spent (nodes x) w)" "map_cmd (slice ?l) c = x"
    using all_parse [OF assms(1), unfolded parses_def, rule_format, of 0 ?l "[]" "length ?l + 1" w] assms(2)
    by (auto simp: closing_def)
  have "peek ?l (length ?l) [] = (length ?l, False)" using peek_here [of "length ?l" ?l "[]" "[]"] by (simp add: rest_ok_def)
  then have p: "parsecmd ?l w = Uok (c, nulterminate c (?l @ [0])) (spent (nodes x) w)"
    unfolding parsecmd_def c(1) by simp
  have t: "\<forall>t \<in> set_cmd c. token ?l t" using parsecmd_cases(2) [OF p] by simp
  have "map_cmd (\<lambda>t. cstring (nulterminate c (?l @ [0])) (fst t)) c = map_cmd (slice ?l) c"
    by (rule cmd.map_cong0) (use token_string [OF t _ show_zero [OF assms(1)]] in blast)
  then show ?thesis using p c(2) by metis
qed

theorem parsecmd_show_witness:
  "\<exists>c buf t. parsecmd (show_cmd (LIST (PIPE (EXEC [[108, 115]]) (EXEC [[119, 99], [45, 108]])) (BACK (REDIR (EXEC [[97]]) [102] 0 0)))) (tty_world 9) = Uok (c, buf) t \<and>
     map_cmd (\<lambda>t. cstring buf (fst t)) c = LIST (PIPE (EXEC [[108, 115]]) (EXEC [[119, 99], [45, 108]])) (BACK (REDIR (EXEC [[97]]) [102] 0 0))"
  by (rule parsecmd_show)
    (simp_all add: MAXARGS_def ok_word_def is_word_def whitespace_def symbols_def O_RDONLY_def tty_world_def)

end
