(* ===== verification/Umalloc.thy ===== *)
theory Umalloc
  imports Uprog
begin

text \<open>
  The allocator of user programs, \<open>user/umalloc.c\<close>: a circular list of free blocks in the order of their addresses, with a
  header of 16 bytes in front of every block. Addresses are byte addresses. The headers' fields are a split heap. The
  allocator is shown to keep the list well formed and to refine a set of free bytes, from which \<open>malloc\<close> takes a block and
  to which \<open>free\<close> gives one back.
\<close>

section \<open>The code\<close>

text \<open>
  The fields \<open>s.ptr\<close> and \<open>s.size\<close> of all headers, and \<open>freep\<close>, which is 0 before the first call. \<open>HDR\<close> is
  \<open>sizeof(Header)\<close>; sizes count headers and are a \<open>uint\<close>. The address of \<open>base\<close> is a parameter of the state.
\<close>

record uheap = world +
  base :: addr
  freep :: addr
  hptr :: "addr \<Rightarrow> addr"
  hsize :: "addr \<Rightarrow> nat"

definition HDR :: int where "HDR = 16"

definition u32n :: "nat \<Rightarrow> nat" where
  "u32n n = n mod 2 ^ 32"

text \<open>The search of \<open>free\<close> for the block before \<open>bp\<close>.\<close>

partial_function (option) free_find :: "addr \<Rightarrow> addr \<Rightarrow> (addr \<Rightarrow> addr) \<Rightarrow> addr option" where
  "free_find bp p nx =
     (if bp > p \<and> bp < nx p then Some p
      else if p \<ge> nx p \<and> (bp > p \<or> bp < nx p) then Some p
      else free_find bp (nx p) nx)"

declare free_find.simps [code]

definition free_at :: "addr \<Rightarrow> addr \<Rightarrow> 'z uheap_scheme \<Rightarrow> 'z uheap_scheme" where
  "free_at bp p w =
     (let w = (if bp + HDR * int (hsize w bp) = hptr w p
               then w\<lparr>hsize := (hsize w)(bp := u32n (hsize w bp + hsize w (hptr w p))),
                      hptr := (hptr w)(bp := hptr w (hptr w p))\<rparr>
               else w\<lparr>hptr := (hptr w)(bp := hptr w p)\<rparr>);
          w = (if p + HDR * int (hsize w p) = bp
               then w\<lparr>hsize := (hsize w)(p := u32n (hsize w p + hsize w bp)), hptr := (hptr w)(p := hptr w bp)\<rparr>
               else w\<lparr>hptr := (hptr w)(p := bp)\<rparr>)
      in w\<lparr>freep := p\<rparr>)"

definition ufree :: "addr \<Rightarrow> 'z uheap_scheme \<Rightarrow> ('z uheap_scheme, unit) ures" where
  "ufree ap w =
     (let bp = ap - HDR in
      case free_find bp (freep w) (hptr w) of
        None \<Rightarrow> Udiverge
      | Some p \<Rightarrow> Uok () (free_at bp p w))"

text \<open>\<open>morecore\<close>: the argument of \<open>sbrk\<close> is an \<open>int\<close>. The result is \<open>None\<close> for a null pointer.\<close>

definition morecore :: "nat \<Rightarrow> 'z uheap_scheme \<Rightarrow> ('z uheap_scheme, addr option) ures" where
  "morecore nu w =
     (let nu = (if nu < 4096 then 4096 else nu) in
      bindu (sysv (SysSbrk (s32 (int nu * HDR))) w) (\<lambda>p w.
      if p = - 1 then Uok None w
      else bindu (ufree (p + HDR) (w\<lparr>hsize := (hsize w)(p := nu)\<rparr>)) (\<lambda>_ w.
           Uok (Some (freep w)) w)))"

text \<open>
  The search of \<open>malloc\<close> from block \<open>p\<close>, whose predecessor is \<open>prevp\<close>: a block that is large enough, with its predecessor,
  or \<open>Inr\<close> the block at which \<open>freep\<close> was reached again.
\<close>

partial_function (option) malloc_find ::
  "addr \<Rightarrow> nat \<Rightarrow> addr \<Rightarrow> addr \<Rightarrow> (addr \<Rightarrow> addr) \<Rightarrow> (addr \<Rightarrow> nat) \<Rightarrow> ((addr \<times> addr) + unit) option" where
  "malloc_find fp nunits prevp p nx sz =
     (if sz p \<ge> nunits then Some (Inl (prevp, p))
      else if p = fp then Some (Inr ())
      else malloc_find fp nunits p (nx p) nx sz)"

declare malloc_find.simps [code]

definition carve :: "nat \<Rightarrow> addr \<Rightarrow> addr \<Rightarrow> 'z uheap_scheme \<Rightarrow> addr \<times> 'z uheap_scheme" where
  "carve nunits prevp p w =
     (let (p, w) =
        (if hsize w p = nunits then (p, w\<lparr>hptr := (hptr w)(prevp := hptr w p)\<rparr>)
         else let w = w\<lparr>hsize := (hsize w)(p := hsize w p - nunits)\<rparr>;
                  p = p + HDR * int (hsize w p)
              in (p, w\<lparr>hsize := (hsize w)(p := nunits)\<rparr>))
      in (p + HDR, w\<lparr>freep := prevp\<rparr>))"

lemma free_at_world [simp]: "answers (free_at bp p w) = answers w" "calls (free_at bp p w) = calls w"
  by (simp_all add: free_at_def Let_def)

lemma morecore_shorter: "morecore nu w = Uok r t \<Longrightarrow> length (answers t) < length (answers w)"
proof -
  assume a: "morecore nu w = Uok r t"
  obtain v u where s: "sysv (SysSbrk (s32 (int (if nu < 4096 then 4096 else nu) * HDR))) w = Uok v u"
    and t: "answers t = answers u"
    using a by (auto simp: morecore_def bindu_eq_Uok ufree_def Let_def split: if_splits option.splits)
  show ?thesis using sysv_shorter [OF s] t by simp
qed

text \<open>The loop of \<open>malloc\<close>. After \<open>morecore\<close> it goes on with the block behind the one that \<open>morecore\<close> returns.\<close>

function malloc_loop :: "nat \<Rightarrow> addr \<Rightarrow> 'z uheap_scheme \<Rightarrow> ('z uheap_scheme, addr option) ures" where
  "malloc_loop nunits prevp w =
     (case malloc_find (freep w) nunits prevp (hptr w prevp) (hptr w) (hsize w) of
        None \<Rightarrow> Udiverge
      | Some (Inl (prevp, p)) \<Rightarrow> (let (a, w) = carve nunits prevp p w in Uok (Some a) w)
      | Some (Inr _) \<Rightarrow>
          bindu (morecore nunits w) (\<lambda>r w.
          case r of None \<Rightarrow> Uok None w | Some p \<Rightarrow> malloc_loop nunits p w))"
  by pat_completeness auto
termination
  by (relation "measure (\<lambda>(n, p, w). length (answers w))") (auto dest: morecore_shorter)

declare malloc_loop.simps [simp del]

definition umalloc :: "nat \<Rightarrow> 'z uheap_scheme \<Rightarrow> ('z uheap_scheme, addr option) ures" where
  "umalloc nbytes w =
     (let nunits = (nbytes + 16 - 1) div 16 + 1;
          w = (if freep w = 0
               then w\<lparr>hptr := (hptr w)(base w := base w), freep := base w, hsize := (hsize w)(base w := 0)\<rparr>
               else w)
      in malloc_loop nunits (freep w) w)"

section \<open>Paths\<close>

text \<open>\<open>path nx q L e\<close>: starting at \<open>q\<close> and following \<open>nx\<close> one passes the blocks \<open>L\<close> and arrives at \<open>e\<close>.\<close>

fun path :: "(addr \<Rightarrow> addr) \<Rightarrow> addr \<Rightarrow> addr list \<Rightarrow> addr \<Rightarrow> bool" where
  "path nx q [] e \<longleftrightarrow> q = e"
| "path nx q (x # xs) e \<longleftrightarrow> q = x \<and> path nx (nx x) xs e"

lemma path_append [simp]: "path nx q (xs @ ys) e \<longleftrightarrow> (\<exists>m. path nx q xs m \<and> path nx m ys e)"
  by (induction xs arbitrary: q) auto

lemma path_upd [simp]: "z \<notin> set xs \<Longrightarrow> path (nx(z := v)) q xs e = path nx q xs e"
  by (induction xs arbitrary: q) auto

lemma path_next: "path nx q (as @ x # bs) e \<Longrightarrow> nx x = hd (bs @ [e])"
  by (cases bs) auto

lemma path_mem: "path nx q xs e \<Longrightarrow> c \<in> set xs \<Longrightarrow> nx c \<in> insert e (set xs)"
  by (auto dest!: split_list path_next simp: hd_append split: if_splits)

text \<open>On a closed path without repetitions every block has one predecessor.\<close>

lemma path_pred:
  assumes "path nx q L q" and "distinct L" and "L = as @ c # bs" and "as \<noteq> []" and "v \<in> set L" and "nx v = c"
  shows "v = last as"
proof -
  obtain us vs where v: "L = us @ v # vs" using assms(5) by (auto dest: split_list)
  have n: "hd (vs @ [q]) = c" using path_next [of nx q us v vs q] assms(1,6) v by simp
  have "c \<noteq> q" using assms(1-4) by (cases as) auto
  then obtain vs' where "vs = c # vs'" using n by (cases vs) auto
  then have "L = (us @ [v]) @ c # vs'" using v by simp
  moreover have "c \<notin> set as" "c \<notin> set bs" using assms(2,3) by auto
  ultimately have "us @ [v] = as" using assms(3) append_Cons_eq_iff [of c as bs "us @ [v]" vs'] by simp
  then show ?thesis by auto
qed

section \<open>The searches\<close>

definition stops :: "addr \<Rightarrow> (addr \<Rightarrow> addr) \<Rightarrow> addr \<Rightarrow> bool" where
  "stops bp nx c \<longleftrightarrow> bp > c \<and> bp < nx c \<or> c \<ge> nx c \<and> (bp > c \<or> bp < nx c)"

lemma free_find_walk:
  "path nx q (cs @ p # ds) e \<Longrightarrow> \<forall>c \<in> set cs. \<not> stops bp nx c \<Longrightarrow> stops bp nx p \<Longrightarrow> free_find bp q nx = Some p"
proof (induction cs arbitrary: q)
  case Nil
  then show ?case by (subst free_find.simps) (auto simp: stops_def)
next
  case (Cons c cs)
  then have q: "q = c" and n: "path nx (nx c) (cs @ p # ds) e" by auto
  have "free_find bp c nx = free_find bp (nx c) nx"
    using Cons.prems(2) by (subst free_find.simps) (auto simp: stops_def)
  then show ?case using Cons.IH [OF n] Cons.prems q by simp
qed

lemma malloc_find_walk:
  "nx prv = q \<Longrightarrow> path nx q (R @ [fp]) e \<Longrightarrow> fp \<notin> set R \<Longrightarrow>
    (\<exists>v c. malloc_find fp n prv q nx sz = Some (Inl (v, c)) \<and> nx v = c \<and> v \<in> insert prv (set R) \<and> c \<in> insert fp (set R) \<and> n \<le> sz c) \<or>
    malloc_find fp n prv q nx sz = Some (Inr ()) \<and> (\<forall>c \<in> insert fp (set R). sz c < n)"
proof (induction R arbitrary: prv q)
  case Nil
  then show ?case by (subst (1 2) malloc_find.simps) auto
next
  case (Cons c R)
  then have q: "q = c" and p: "path nx (nx c) (R @ [fp]) e" and fp: "fp \<noteq> c" "fp \<notin> set R" by auto
  show ?case
  proof (cases "n \<le> sz c")
    case True
    then have "malloc_find fp n prv q nx sz = Some (Inl (prv, c))" by (subst malloc_find.simps) (simp add: q)
    then show ?thesis using True Cons.prems(1) q by auto
  next
    case False
    then have "malloc_find fp n prv q nx sz = malloc_find fp n c (nx c) nx sz"
      using fp by (subst malloc_find.simps) (simp add: q)
    then show ?thesis using Cons.IH [OF refl p fp(2)] False by auto
  qed
qed

section \<open>The list of free blocks\<close>

definition blk :: "addr \<Rightarrow> nat \<Rightarrow> addr set" where
  "blk p n = {p ..< p + HDR * int n}"

definition before :: "(addr \<Rightarrow> nat) \<Rightarrow> addr \<Rightarrow> addr \<Rightarrow> bool" where
  "before sz x y \<longleftrightarrow> x < y \<and> x + HDR * int (sz x) \<le> y"

text \<open>
  \<open>flist b nx sz xs\<close>: the list is closed and runs through \<open>base\<close> (\<open>b\<close>), whose size is 0, and the blocks \<open>xs\<close>, in
  increasing order and without overlaps. A block ends below \<open>base\<close> plus 64 GB, so that sizes fit into a \<open>uint\<close>.
\<close>

definition limit :: "addr \<Rightarrow> addr" where
  "limit b = b + HDR * 2 ^ 32"

definition flist :: "addr \<Rightarrow> (addr \<Rightarrow> addr) \<Rightarrow> (addr \<Rightarrow> nat) \<Rightarrow> addr list \<Rightarrow> bool" where
  "flist b nx sz xs \<longleftrightarrow> path nx b (b # xs) b \<and> sz b = 0 \<and> sorted_wrt (before sz) (b # xs) \<and>
     (\<forall>x \<in> set xs. 0 < sz x \<and> x + HDR * int (sz x) \<le> limit b)"

definition free_bytes :: "(addr \<Rightarrow> nat) \<Rightarrow> addr list \<Rightarrow> addr set" where
  "free_bytes sz xs = (\<Union>x \<in> set xs. blk x (sz x))"

lemma sorted_before_cong: "(\<And>x. x \<in> set xs \<Longrightarrow> sz x = sz' x) \<Longrightarrow> sorted_wrt (before sz) xs = sorted_wrt (before sz') xs"
  by (induction xs) (auto simp: before_def)

lemma flist_cong:
  assumes "flist b nx sz xs" and "\<And>x. x \<in> set (b # xs) \<Longrightarrow> nx' x = nx x" and "\<And>x. x \<in> set (b # xs) \<Longrightarrow> sz' x = sz x"
  shows "flist b nx' sz' xs"
proof -
  have "path nx q ys e \<Longrightarrow> set ys \<subseteq> set (b # xs) \<Longrightarrow> path nx' q ys e" for q ys e
    by (induction ys arbitrary: q) (use assms(2) in auto)
  then have "path nx' b (b # xs) b" using assms(1) by (metis flist_def order_refl)
  moreover have "sorted_wrt (before sz') (b # xs)" using sorted_before_cong [of "b # xs" sz' sz] assms by (simp add: flist_def)
  ultimately show ?thesis using assms(1,3) by (auto simp: flist_def)
qed

lemma sorted_before_distinct: "sorted_wrt (before sz) xs \<Longrightarrow> distinct xs"
  by (induction xs) (auto simp: before_def)

lemma flist_distinct: "flist b nx sz xs \<Longrightarrow> distinct (b # xs)"
  unfolding flist_def using sorted_before_distinct by blast

lemma flist_above: "flist b nx sz xs \<Longrightarrow> x \<in> set xs \<Longrightarrow> b < x"
  by (auto simp: flist_def before_def)

lemma free_bytes_cong: "(\<And>x. x \<in> set xs \<Longrightarrow> sz x = sz' x) \<Longrightarrow> free_bytes sz xs = free_bytes sz' xs"
  by (simp add: free_bytes_def)

lemma flist_start: "flist b (nx(b := b)) (sz(b := 0)) []"
  by (simp add: flist_def)

text \<open>The place of a block that does not overlap the free ones.\<close>

lemma free_place:
  assumes "flist b nx sz xs" and "b < bp" and "0 < n" and "blk bp n \<inter> free_bytes sz xs = {}"
  obtains as p cs where "b # xs = as @ p # cs" and "\<forall>x \<in> set (as @ [p]). x < bp \<and> x + HDR * int (sz x) \<le> bp"
    and "\<forall>y \<in> set cs. bp + HDR * int n \<le> y \<and> bp < y"
proof -
  have s: "sorted_wrt (before sz) (b # xs)" "sz b = 0" and pos: "\<forall>x \<in> set xs. 0 < sz x" using assms(1) by (auto simp: flist_def)
  define L as cs where "L = b # xs" and "as = takeWhile (\<lambda>x. x < bp) L" and "cs = dropWhile (\<lambda>x. x < bp) L"
  have L: "L = as @ cs" by (simp add: as_def cs_def)
  have ne: "as \<noteq> []" using assms(2) by (simp add: as_def L_def)
  have low: "x < bp" if "x \<in> set as" for x using that set_takeWhileD unfolding as_def by fast
  have high: "bp \<le> y" if "y \<in> set cs" for y
  proof (cases cs)
    case (Cons c cs')
    have "\<not> c < bp" using hd_dropWhile [of "\<lambda>x. x < bp" L] Cons unfolding cs_def by simp
    moreover have "sorted_wrt (before sz) cs" using s(1) unfolding L_def [symmetric] L by (simp add: sorted_wrt_append)
    ultimately show ?thesis using that unfolding Cons by (auto simp: before_def)
  qed (use that in simp)
  have apart: "x + HDR * int (sz x) \<le> bp \<or> bp + HDR * int n \<le> x" if "x \<in> set xs" for x
  proof (rule ccontr)
    assume a: "\<not> ?thesis"
    let ?m = "max x bp"
    have "?m \<in> blk bp n" "?m \<in> blk x (sz x)" using a assms(3) pos that by (auto simp: blk_def HDR_def)
    then show False using assms(4) that by (auto simp: free_bytes_def)
  qed
  have A: "x < bp \<and> x + HDR * int (sz x) \<le> bp" if x: "x \<in> set as" for x
  proof -
    have "x = b \<or> x \<in> set xs" using x L unfolding L_def by (metis Un_iff set_ConsD set_append)
    then show ?thesis using low [OF x] apart [of x] s(2) assms(3) by (auto simp: HDR_def)
  qed
  have B: "bp + HDR * int n \<le> y \<and> bp < y" if y: "y \<in> set cs" for y
  proof -
    have "y = b \<or> y \<in> set xs" using y L unfolding L_def by (metis Un_iff set_ConsD set_append)
    then have "y \<in> set xs" using high [OF y] assms(2) by auto
    then show ?thesis using apart [of y] high [OF y] pos assms(3) by (auto simp: HDR_def)
  qed
  have e: "as = butlast as @ [last as]" using ne by simp
  show ?thesis
  proof (rule that [of "butlast as" "last as" cs])
    show "b # xs = butlast as @ last as # cs" using L e unfolding L_def by (metis append.assoc append_Cons append_Nil)
    show "\<forall>x \<in> set (butlast as @ [last as]). x < bp \<and> x + HDR * int (sz x) \<le> bp" using A e by simp
    show "\<forall>y \<in> set cs. bp + HDR * int n \<le> y \<and> bp < y" using B by blast
  qed
qed

lemma sorted_before_upd [simp]: "z \<notin> set xs \<Longrightarrow> sorted_wrt (before (sz(z := v))) xs = sorted_wrt (before sz) xs"
  by (rule sorted_before_cong) auto

lemma free_bytes_upd [simp]: "z \<notin> set xs \<Longrightarrow> free_bytes (sz(z := v)) xs = free_bytes sz xs"
  by (rule free_bytes_cong) auto

lemma free_bytes_simps [simp]:
  "free_bytes sz [] = {}" "free_bytes sz (x # xs) = blk x (sz x) \<union> free_bytes sz xs"
  "free_bytes sz (xs @ ys) = free_bytes sz xs \<union> free_bytes sz ys"
  by (auto simp: free_bytes_def)

lemma free_find_place:
  assumes L: "b # xs = as @ p # cs" and fl: "flist b nx sz xs" and lo: "\<forall>x \<in> set (as @ [p]). x < bp" and hi: "\<forall>y \<in> set cs. bp < y"
    and q: "q \<in> set (b # xs)"
  shows "free_find bp q nx = Some p"
proof -
  have pth: "path nx b (as @ p # cs) b" and srt: "sorted_wrt (before sz) (as @ p # cs)" using fl L by (auto simp: flist_def simp del: path_append)
  have bbp: "b < bp" using lo L by (cases as) auto
  have sp: "stops bp nx p"
    using path_next [OF pth] lo hi bbp srt L by (cases cs; cases as) (auto simp: stops_def sorted_wrt_append before_def)
  have sa: "\<not> stops bp nx c" if c: "c \<in> set as" for c
  proof -
    obtain a1 a2 where a: "as = a1 @ c # a2" using c by (auto dest: split_list)
    have n: "nx c = hd (a2 @ [p])" using path_next [of nx b a1 c "a2 @ p # cs" b] pth a by (cases a2) auto
    have "nx c \<in> set (a2 @ [p])" unfolding n by (rule hd_in_set) simp
    then have "nx c < bp" "c < nx c" using lo srt a by (auto simp: sorted_wrt_append before_def)
    then show ?thesis by (simp add: stops_def)
  qed
  have sc: "\<not> stops bp nx c" if c: "c \<in> set cs" for c
  proof -
    obtain c1 c2 where a: "cs = c1 @ c # c2" using c by (auto dest: split_list)
    have n: "nx c = hd (c2 @ [b])" using path_next [of nx b "as @ p # c1" c c2 b] pth a by auto
    show ?thesis
    proof (cases c2)
      case Nil
      then show ?thesis using n bbp hi c by (auto simp: stops_def)
    next
      case (Cons d ds)
      then have "c < nx c" using n srt a by (auto simp: sorted_wrt_append before_def)
      then show ?thesis using hi c by (auto simp: stops_def)
    qed
  qed
  consider "q \<in> set as" | "q = p" | "q \<in> set cs" using q L by (metis Un_iff set_ConsD set_append)
  then show ?thesis
  proof cases
    case 1
    then obtain a1 a2 where a: "as = a1 @ q # a2" by (auto dest: split_list)
    have "path nx q ((q # a2) @ p # cs) b" using pth a by auto
    then show ?thesis by (rule free_find_walk) (use sa sp a in auto)
  next
    case 2
    have "path nx q ([] @ p # cs) b" using pth 2 by auto
    then show ?thesis by (rule free_find_walk) (use sp in auto)
  next
    case 3
    then obtain c1 c2 where a: "cs = c1 @ q # c2" by (auto dest: split_list)
    have "path nx q (q # c2) b" using pth a by auto
    then have "path nx q (((q # c2) @ as) @ p # cs) b" using pth unfolding append_assoc path_append [of _ _ "q # c2"] by blast
    then show ?thesis by (rule free_find_walk) (use sa sc sp a in auto)
  qed
qed

text \<open>The part of the list behind a block.\<close>

definition tail_ok :: "addr \<Rightarrow> (addr \<Rightarrow> addr) \<Rightarrow> (addr \<Rightarrow> nat) \<Rightarrow> addr \<Rightarrow> addr list \<Rightarrow> bool" where
  "tail_ok b nx sz q ds \<longleftrightarrow> path nx q ds b \<and> sorted_wrt (before sz) ds \<and> (\<forall>x \<in> set ds. 0 < sz x \<and> x + HDR * int (sz x) \<le> limit b)"

lemma blk_join: "blk p n \<union> blk (p + HDR * int n) m = blk p (n + m)"
  by (auto simp: blk_def HDR_def algebra_simps)

lemma u32n_fits: "b < p \<Longrightarrow> p + HDR * int (n + m) \<le> limit b \<Longrightarrow> u32n (n + m) = n + m"
  by (auto simp: u32n_def limit_def HDR_def intro!: mod_less)

lemma join_upper:
  assumes t: "tail_ok b nx sz q cs" and bp: "bp \<notin> set cs" "b < bp" "0 < sz bp" "bp + HDR * int (sz bp) \<le> limit b"
    and hi: "\<forall>y \<in> set cs. bp + HDR * int (sz bp) \<le> y \<and> bp < y"
  defines "up \<equiv> bp + HDR * int (sz bp) = q"
  defines "sz1 \<equiv> if up then sz(bp := u32n (sz bp + sz q)) else sz"
    and "nx1 \<equiv> if up then nx(bp := nx q) else nx(bp := q)"
  shows "\<exists>ds. tail_ok b nx1 sz1 bp (bp # ds) \<and> set ds \<subseteq> set cs \<and> sz bp \<le> sz1 bp \<and>
    free_bytes sz1 (bp # ds) = blk bp (sz bp) \<union> free_bytes sz cs"
proof (cases up)
  case True
  then have q: "bp + HDR * int (sz bp) = q" by (simp add: up_def)
  have "q \<noteq> b" using q bp by (auto simp: HDR_def)
  then obtain ds where cs: "cs = q # ds" using t by (cases cs) (auto simp: tail_ok_def)
  have e: "q + HDR * int (sz q) \<le> limit b" "0 < sz q" using t cs by (auto simp: tail_ok_def)
  then have e': "bp + HDR * int (sz bp + sz q) \<le> limit b" using q by (simp add: algebra_simps)
  have sz1: "sz1 = sz(bp := sz bp + sz q)" using True u32n_fits [OF bp(2) e'] by (simp add: sz1_def)
  have nx1: "nx1 = nx(bp := nx q)" using True by (simp add: nx1_def)
  have nin: "bp \<notin> set ds" using bp(1) cs by simp
  have "sorted_wrt (before sz1) ds" using t cs nin by (simp add: tail_ok_def sz1)
  moreover have "before sz1 bp y" if "y \<in> set ds" for y
    using t cs that hi q by (auto simp: tail_ok_def before_def sz1 algebra_simps)
  ultimately have "tail_ok b nx1 sz1 bp (bp # ds)" using t cs nin e' bp(3) by (auto simp: tail_ok_def sz1 nx1)
  moreover have "free_bytes sz1 (bp # ds) = blk bp (sz bp) \<union> free_bytes sz cs"
    using blk_join [of bp "sz bp" "sz q"] q nin cs by (simp add: sz1 Un_assoc [symmetric])
  ultimately show ?thesis using cs sz1 by auto
next
  case False
  then have "tail_ok b nx1 sz1 bp (bp # cs)" using t bp hi by (auto simp: tail_ok_def nx1_def sz1_def before_def)
  moreover have "free_bytes sz1 (bp # cs) = blk bp (sz bp) \<union> free_bytes sz cs" using False by (simp add: sz1_def)
  ultimately show ?thesis using False by (auto simp: sz1_def)
qed

lemma blk_0 [simp]: "blk p 0 = {}"
  by (simp add: blk_def)

lemma join_lower:
  assumes pre: "path nx b as p" "sorted_wrt (before sz) (as @ [p])" "sz b = 0" "b \<in> set (as @ [p])"
      "\<forall>x \<in> set (as @ [p]). b \<le> x \<and> (x = b \<or> 0 < sz x \<and> x + HDR * int (sz x) \<le> limit b)"
    and lo: "\<forall>x \<in> set (as @ [p]). x < bp \<and> x + HDR * int (sz x) \<le> bp"
    and t: "tail_ok b nx sz bp (bp # ds)"
  defines "low \<equiv> p + HDR * int (sz p) = bp"
  defines "sz1 \<equiv> if low then sz(p := u32n (sz p + sz bp)) else sz"
    and "nx1 \<equiv> if low then nx(p := nx bp) else nx(p := bp)"
  shows "\<exists>ys. flist b nx1 sz1 ys \<and> free_bytes sz1 ys = free_bytes sz (as @ [p]) \<union> free_bytes sz (bp # ds) \<and> p \<in> set (b # ys) \<and>
    (\<exists>c \<in> set ys. sz bp \<le> sz1 c)"
proof -
  have d: "distinct (as @ [p])" using sorted_before_distinct [OF pre(2)] .
  have pbp: "p < bp" using lo by simp
  have up: "bp < y" "bp + HDR * int (sz bp) \<le> y" if "y \<in> set ds" for y using t that by (auto simp: tail_ok_def before_def)
  have nin: "p \<notin> set as" "p \<notin> set ds" "p \<noteq> bp" using d up pbp by fastforce+
  have pas: "sorted_wrt (before sz) as" "\<And>x. x \<in> set as \<Longrightarrow> before sz x p" using pre(2) by (auto simp: sorted_wrt_append)
  have sds: "sorted_wrt (before sz) ds" and pds: "path nx (nx bp) ds b" using t by (simp_all add: tail_ok_def)
  have far: "before sz x y" if "x \<in> set (as @ [p])" "y \<in> set (bp # ds)" for x y
    using lo up that unfolding before_def by fastforce
  obtain ws where ws: "as @ [p] = b # ws"
  proof (cases "as @ [p]")
    case (Cons c cs)
    then have "c = b" using pre(2,4,5) by (fastforce simp: before_def)
    then show ?thesis using that Cons by blast
  qed simp
  show ?thesis
  proof (cases low)
    case True
    then have l: "p + HDR * int (sz p) = bp" by (simp add: low_def)
    have pb: "b < p" using l pre(3,5) pbp by (cases "p = b") auto
    have e: "p + HDR * int (sz p + sz bp) \<le> limit b" using t l by (simp add: tail_ok_def algebra_simps)
    have sz1: "sz1 = sz(p := sz p + sz bp)" and nx1: "nx1 = nx(p := nx bp)"
      using True u32n_fits [OF pb e] by (simp_all add: sz1_def nx1_def)
    have pth: "path nx1 b (as @ p # ds) b" using pre(1) pds nin by (auto simp: nx1)
    have ps: "before sz1 p y" if "y \<in> set ds" for y using up [OF that] pbp l by (simp add: before_def sz1 algebra_simps)
    have asp: "before sz1 x p" if "x \<in> set as" for x using pas(2) [OF that] nin that by (auto simp: before_def sz1)
    have asd: "before sz1 x y" if "x \<in> set as" "y \<in> set ds" for x y using far [of x y] nin that by (auto simp: before_def sz1)
    have srt: "sorted_wrt (before sz1) (as @ p # ds)"
      using pas(1) sds nin ps asp asd by (simp add: sorted_wrt_append sz1)
    have ends: "x = b \<or> 0 < sz1 x \<and> x + HDR * int (sz1 x) \<le> limit b" if "x \<in> set (as @ p # ds)" for x
      using that pre(5) t e pb nin l by (auto simp: tail_ok_def sz1)
    have b0: "sz1 b = 0" using pre(3) pb by (simp add: sz1)
    let ?ys = "ws @ ds"
    have L: "as @ p # ds = b # ?ys" using ws by (metis append.assoc append_Cons append_Nil)
    have "distinct (b # ?ys)" using sorted_before_distinct [OF srt] unfolding L .
    then have "flist b nx1 sz1 ?ys" unfolding flist_def using pth srt b0 ends unfolding L by auto
    moreover have "free_bytes sz1 ?ys = free_bytes sz1 (b # ?ys)" using b0 by simp
    moreover have "free_bytes sz1 (as @ p # ds) = free_bytes sz (as @ [p]) \<union> free_bytes sz (bp # ds)"
      using nin blk_join [of p "sz p" "sz bp"] l by (auto simp: sz1)
    moreover have "p \<in> set ?ys" using L pb by (metis in_set_conv_decomp less_irrefl set_ConsD)
    moreover have "sz bp \<le> sz1 p" by (simp add: sz1)
    ultimately show ?thesis unfolding L [symmetric] by (intro exI [of _ ?ys] conjI bexI [of _ p]) simp_all
  next
    case False
    then have sz1: "sz1 = sz" and nx1: "nx1 = nx(p := bp)" by (simp_all add: sz1_def nx1_def)
    have pth: "path nx1 b (as @ p # bp # ds) b" using pre(1) pds nin by (auto simp: nx1)
    have srt: "sorted_wrt (before sz) (as @ p # bp # ds)"
      using pas t far by (simp add: sorted_wrt_append tail_ok_def)
    let ?ys = "ws @ bp # ds"
    have L: "as @ p # bp # ds = b # ?ys" using ws by (metis append.assoc append_Cons append_Nil)
    have "distinct (b # ?ys)" using sorted_before_distinct [OF srt] unfolding L .
    moreover have "\<forall>x \<in> set (as @ p # bp # ds). x = b \<or> 0 < sz x \<and> x + HDR * int (sz x) \<le> limit b"
      using pre(5) t by (auto simp: tail_ok_def)
    ultimately have "flist b nx1 sz1 ?ys" unfolding flist_def sz1 using pth srt pre(3) unfolding L by auto
    moreover have "free_bytes sz1 ?ys = free_bytes sz (b # ?ys)" using pre(3) by (simp add: sz1)
    moreover have "free_bytes sz (as @ p # bp # ds) = free_bytes sz (as @ [p]) \<union> free_bytes sz (bp # ds)" by auto
    moreover have "p \<in> set (b # ?ys)" "bp \<in> set ?ys" using L by (metis in_set_conv_decomp, simp)
    ultimately show ?thesis unfolding sz1 L by (intro exI [of _ ?ys] conjI bexI [of _ bp]) (simp_all add: L)
  qed
qed

lemma free_at_fields [simp]: "base (free_at bp p w) = base w" "freep (free_at bp p w) = p"
  by (simp_all add: free_at_def Let_def)

lemma free_at_sizes: "x \<noteq> bp \<Longrightarrow> x \<noteq> p \<Longrightarrow> hsize (free_at bp p w) x = hsize w x"
  by (simp add: free_at_def Let_def)

text \<open>Giving a block back: the list stays well formed and its bytes are free again.\<close>

lemma free_ok:
  assumes fl: "flist (base w) (hptr w) (hsize w) xs" and fp: "freep w \<in> set (base w # xs)"
    and bp: "base w < bp" "0 < hsize w bp" "bp + HDR * int (hsize w bp) \<le> limit (base w)"
    and dj: "blk bp (hsize w bp) \<inter> free_bytes (hsize w) xs = {}"
  obtains p ys where "ufree (bp + HDR) w = Uok () (free_at bp p w)" and "p \<in> set (base w # xs)"
    and "flist (base w) (hptr (free_at bp p w)) (hsize (free_at bp p w)) ys" and "p \<in> set (base w # ys)"
    and "free_bytes (hsize (free_at bp p w)) ys = free_bytes (hsize w) xs \<union> blk bp (hsize w bp)"
    and "\<exists>c \<in> set ys. hsize w bp \<le> hsize (free_at bp p w) c"
proof -
  let ?b = "base w" and ?nx = "hptr w" and ?sz = "hsize w"
  obtain as p cs where L: "?b # xs = as @ p # cs" and lo: "\<forall>x \<in> set (as @ [p]). x < bp \<and> x + HDR * int (?sz x) \<le> bp"
    and hi: "\<forall>y \<in> set cs. bp + HDR * int (?sz bp) \<le> y \<and> bp < y"
    by (rule free_place [OF fl bp(1,2) dj])
  have find: "free_find bp (freep w) ?nx = Some p"
    by (rule free_find_place [OF L fl _ _ fp]) (use lo hi in auto)
  have srt: "sorted_wrt (before ?sz) (as @ p # cs)" and pth: "path ?nx ?b (as @ p # cs) ?b" and b0: "?sz ?b = 0"
    and ends: "\<forall>x \<in> set (as @ p # cs). ?b \<le> x \<and> (x = ?b \<or> 0 < ?sz x \<and> x + HDR * int (?sz x) \<le> limit ?b)"
    using fl L flist_above [OF fl] unfolding flist_def L [symmetric] by (auto intro: less_imp_le)
  have bcs: "?b \<notin> set cs" using hi bp(1) by auto
  have ecs: "0 < ?sz x \<and> x + HDR * int (?sz x) \<le> limit ?b" if "x \<in> set cs" for x
    using ends bcs that by (cases "x = ?b") auto
  have t: "tail_ok ?b ?nx ?sz (?nx p) cs" using pth srt ecs by (auto simp: tail_ok_def sorted_wrt_append)
  have bpn: "bp \<notin> set cs" "bp \<notin> set (as @ [p])" "bp \<noteq> ?b" using hi lo bp(1) by auto
  define up where "up \<longleftrightarrow> bp + HDR * int (?sz bp) = ?nx p"
  define sz1 where "sz1 = (if up then ?sz(bp := u32n (?sz bp + ?sz (?nx p))) else ?sz)"
  define nx1 where "nx1 = (if up then ?nx(bp := ?nx (?nx p)) else ?nx(bp := ?nx p))"
  obtain ds where ds: "tail_ok ?b nx1 sz1 bp (bp # ds)" "?sz bp \<le> sz1 bp"
      "free_bytes sz1 (bp # ds) = blk bp (?sz bp) \<union> free_bytes ?sz cs"
    using join_upper [OF t bpn(1) bp hi] unfolding sz1_def nx1_def up_def by blast
  have same: "sz1 x = ?sz x" "nx1 x = ?nx x" if "x \<in> insert ?b (set (as @ [p]))" for x
    using bpn that by (auto simp: sz1_def nx1_def)
  have pre: "path nx1 ?b as p" using pth bpn(2) by (auto simp: nx1_def)
  have srt1: "sorted_wrt (before sz1) (as @ [p])"
    using sorted_before_cong [of "as @ [p]" sz1 ?sz] same srt by (auto simp: sorted_wrt_append)
  have bin: "?b \<in> set (as @ [p])" using L bcs by (metis Un_iff append.assoc append_Cons append_Nil list.set_intros(1) set_append)
  have e1: "\<forall>x \<in> set (as @ [p]). ?b \<le> x \<and> (x = ?b \<or> 0 < sz1 x \<and> x + HDR * int (sz1 x) \<le> limit ?b)"
    using ends same by auto
  have lo1: "\<forall>x \<in> set (as @ [p]). x < bp \<and> x + HDR * int (sz1 x) \<le> bp" using lo same by auto
  let ?low = "p + HDR * int (sz1 p) = bp"
  let ?sz2 = "if ?low then sz1(p := u32n (sz1 p + sz1 bp)) else sz1"
  let ?nx2 = "if ?low then nx1(p := nx1 bp) else nx1(p := bp)"
  obtain ys where ys: "flist ?b ?nx2 ?sz2 ys" "free_bytes ?sz2 ys = free_bytes sz1 (as @ [p]) \<union> free_bytes sz1 (bp # ds)" "p \<in> set (?b # ys)"
      "\<exists>c \<in> set ys. sz1 bp \<le> ?sz2 c"
    using join_lower [OF pre srt1 _ bin e1 lo1 ds(1)] same(1) [of ?b] b0 by auto
  have W: "hptr (free_at bp p w) = ?nx2" "hsize (free_at bp p w) = ?sz2"
    by (auto simp: free_at_def Let_def sz1_def nx1_def up_def)
  have fb: "free_bytes sz1 (as @ [p]) = free_bytes ?sz (as @ [p])" by (rule free_bytes_cong) (use same in auto)
  have "free_bytes ?sz (?b # xs) = free_bytes ?sz (as @ [p]) \<union> free_bytes ?sz cs" unfolding L by auto
  then have tot: "free_bytes ?sz2 ys = free_bytes ?sz xs \<union> blk bp (?sz bp)" using ys(2) fb ds(3) b0 by auto
  show ?thesis
  proof (rule that [of p ys])
    show "ufree (bp + HDR) w = Uok () (free_at bp p w)" by (simp add: ufree_def find)
    show "p \<in> set (?b # xs)" unfolding L by simp
    show "\<exists>c \<in> set ys. ?sz bp \<le> hsize (free_at bp p w) c" using ys(4) ds(2) unfolding W by (meson le_trans)
  qed (use ys(1,3) tot W in auto)
qed

lemma blocks_apart: "sorted_wrt (before sz) (as @ c # bs) \<Longrightarrow> blk c (sz c) \<inter> free_bytes sz (as @ bs) = {}"
  by (fastforce simp: sorted_wrt_append before_def free_bytes_def blk_def)

lemma blk_split: "n \<le> k \<Longrightarrow> blk c (k - n) = blk c k - blk (c + HDR * int (k - n)) n"
  by (auto simp: blk_def HDR_def of_nat_diff algebra_simps)

lemma blk_tail: "n \<le> k \<Longrightarrow> blk (c + HDR * int (k - n)) n \<subseteq> blk c k"
  by (auto simp: blk_def HDR_def of_nat_diff algebra_simps)

lemma free_bytes_mem: "x \<in> set xs \<Longrightarrow> 0 < sz x \<Longrightarrow> x \<in> free_bytes sz xs"
  by (auto simp: free_bytes_def blk_def HDR_def)

lemma carve_exact:
  assumes fl: "flist b nx sz xs" and c: "c \<in> set xs" and v: "v \<in> set (b # xs)" "nx v = c"
  obtains ys where "flist b (nx(v := nx c)) sz ys" and "free_bytes sz ys = free_bytes sz xs - blk c (sz c)" and "v \<in> set (b # ys)"
proof -
  obtain as bs where xs: "xs = as @ c # bs" using c by (auto dest: split_list)
  have d: "distinct (b # xs)" by (rule flist_distinct [OF fl])
  have pth: "path nx b ((b # as) @ c # bs) b" and srt: "sorted_wrt (before sz) ((b # as) @ c # bs)"
    using fl unfolding flist_def xs by simp_all
  have vl: "v = last (b # as)"
    by (rule path_pred [of nx b "b # xs" "b # as" c bs]) (use pth d v xs in auto)
  define us where "us = butlast (b # as)"
  have us: "b # as = us @ [v]" by (simp add: us_def vl)
  have p1: "path nx b (us @ v # c # bs) b" using pth unfolding us by simp
  have d1: "distinct (us @ v # c # bs)" using d xs us by (metis append.assoc append_Cons append_Nil)
  have p2: "path (nx(v := nx c)) b (us @ v # bs) b" using p1 d1 by auto
  have L: "us @ v # bs = b # as @ bs" using us by (metis append.assoc append_Cons append_Nil)
  have "sorted_wrt (before sz) (b # as @ bs)" using srt by (auto simp: sorted_wrt_append)
  then have f: "flist b (nx(v := nx c)) sz (as @ bs)"
    using fl p2 unfolding L by (auto simp: flist_def xs simp del: fun_upd_apply)
  have "blk c (sz c) \<inter> free_bytes sz (as @ bs) = {}" using blocks_apart [OF srt] by auto
  then have "free_bytes sz (as @ bs) = free_bytes sz xs - blk c (sz c)" unfolding xs by auto
  moreover have "v \<in> set (b # as @ bs)" using us by (metis L in_set_conv_decomp)
  ultimately show ?thesis using that f by blast
qed

lemma carve_split:
  assumes fl: "flist b nx sz xs" and c: "c \<in> set xs" and n: "0 < n" "n < sz c"
  defines "a \<equiv> c + HDR * int (sz c - n)"
  defines "sz1 \<equiv> sz(c := sz c - n, a := n)"
  shows "flist b nx sz1 xs \<and> free_bytes sz1 xs = free_bytes sz xs - blk a n \<and> a \<notin> set (b # xs)"
proof -
  obtain as bs where xs: "xs = as @ c # bs" using c by (auto dest: split_list)
  have srt: "sorted_wrt (before sz) ((b # as) @ c # bs)" using fl by (simp add: flist_def xs)
  have ac: "c < a" "a < c + HDR * int (sz c)" "a \<in> blk c (sz c)" using n by (auto simp: a_def HDR_def blk_def)
  have d: "distinct (b # xs)" by (rule flist_distinct [OF fl])
  have an: "a \<notin> set (b # xs)"
    using ac srt flist_above [OF fl c] unfolding xs by (fastforce simp: sorted_wrt_append before_def)
  have s1: "sz1 x = (if x = c then sz c - n else sz x)" if "x \<in> set (b # xs)" for x using an that by (auto simp: sz1_def)
  have lesz: "before sz x y \<Longrightarrow> before sz1 x y" if "x \<in> set (b # xs)" for x y
    using s1 [OF that] by (auto simp: before_def HDR_def)
  have "sorted_wrt (before sz1) (b # xs)"
    by (rule sorted_wrt_mono_rel [of _ "before sz"]) (use lesz srt xs in auto)
  moreover have "c \<noteq> b" using flist_above [OF fl c] by simp
  moreover have "x + HDR * int (sz1 x) \<le> limit b \<and> 0 < sz1 x" if "x \<in> set xs" for x
    using fl that s1 [of x] n by (auto simp: flist_def HDR_def)
  ultimately have f: "flist b nx sz1 xs" using fl s1 [of b] by (auto simp: flist_def)
  have nin: "c \<notin> set as" "c \<notin> set bs" "a \<notin> set as" "a \<notin> set bs" "a \<noteq> c" using d an xs by auto
  have "blk c (sz c) \<inter> (free_bytes sz as \<union> free_bytes sz bs) = {}" using blocks_apart [OF srt] by auto
  moreover have "blk a n \<subseteq> blk c (sz c)" using blk_tail [of n "sz c" c] n by (simp add: a_def)
  moreover have "blk c (sz c - n) = blk c (sz c) - blk a n" using blk_split [of n "sz c" c] n by (simp add: a_def)
  ultimately have "free_bytes sz1 xs = free_bytes sz xs - blk a n" unfolding xs using nin by (auto simp: sz1_def)
  then show ?thesis using f an by blast
qed

lemma carve_ok:
  assumes fl: "flist (base w) (hptr w) (hsize w) xs" and c: "c \<in> set xs" and n: "0 < n" "n \<le> hsize w c"
    and v: "v \<in> set (base w # xs)" "hptr w v = c"
  obtains a t ys where "carve n v c w = (a + HDR, t)" and "flist (base w) (hptr t) (hsize t) ys"
    and "free_bytes (hsize t) ys = free_bytes (hsize w) xs - blk a n" and "blk a n \<subseteq> free_bytes (hsize w) xs"
    and "hsize t a = n" and "\<forall>x. x \<notin> free_bytes (hsize w) xs \<longrightarrow> hsize t x = hsize w x"
    and "base t = base w" and "freep t \<in> set (base w # ys)" and "answers t = answers w"
    and "base w < a" and "a + HDR * int n \<le> limit (base w)"
proof -
  let ?b = "base w" and ?nx = "hptr w" and ?sz = "hsize w"
  have sc: "0 < ?sz c" "c + HDR * int (?sz c) \<le> limit ?b" using fl c by (auto simp: flist_def)
  have cb: "?b < c" by (rule flist_above [OF fl c])
  have sub: "blk c (?sz c) \<subseteq> free_bytes ?sz xs" using c by (auto simp: free_bytes_def)
  show ?thesis
  proof (cases "?sz c = n")
    case True
    obtain ys where ys: "flist ?b (?nx(v := ?nx c)) ?sz ys" "free_bytes ?sz ys = free_bytes ?sz xs - blk c (?sz c)" "v \<in> set (?b # ys)"
      by (rule carve_exact [OF fl c v])
    show ?thesis
      by (rule that [of c "w\<lparr>hptr := ?nx(v := ?nx c), freep := v\<rparr>" ys])
        (use True ys sub sc cb in \<open>auto simp: carve_def Let_def\<close>)
  next
    case False
    then have lt: "n < ?sz c" using n by simp
    let ?a = "c + HDR * int (?sz c - n)"
    note S = carve_split [OF fl c n(1) lt]
    have a: "?a \<in> blk c (?sz c)" using lt n by (auto simp: blk_def HDR_def)
    have ac: "?a \<noteq> c" using lt by (simp add: HDR_def)
    have e: "?a + HDR * int n = c + HDR * int (?sz c)" using lt by (simp add: HDR_def of_nat_diff)
    have cin: "c \<in> free_bytes ?sz xs" by (rule free_bytes_mem) (use c sc in auto)
    show ?thesis
      by (rule that [of ?a "w\<lparr>hsize := ?sz(c := ?sz c - n, ?a := n), freep := v\<rparr>" xs])
        (use False S a ac e cin sub sc cb lt v(1) blk_tail [of n "?sz c" c] in \<open>auto simp: carve_def Let_def HDR_def\<close>)
  qed
qed

section \<open>Refinement\<close>

text \<open>
  The abstract state: \<open>A\<close> maps the header address of every live block to its size in headers, \<open>M\<close> are the bytes the
  allocator has got from the kernel. \<open>usim M A w\<close>: they are the free bytes and the live blocks, none of which overlap.
\<close>

definition live_bytes :: "(addr \<rightharpoonup> nat) \<Rightarrow> addr set" where
  "live_bytes A = {x. \<exists>p n. A p = Some n \<and> x \<in> blk p n}"

definition live_ok :: "addr \<Rightarrow> (addr \<Rightarrow> nat) \<Rightarrow> addr set \<Rightarrow> (addr \<rightharpoonup> nat) \<Rightarrow> bool" where
  "live_ok b sz F A \<longleftrightarrow>
     (\<forall>p n. A p = Some n \<longrightarrow> 0 < n \<and> sz p = n \<and> b < p \<and> p + HDR * int n \<le> limit b \<and> blk p n \<inter> F = {}) \<and>
     (\<forall>p n q m. A p = Some n \<longrightarrow> A q = Some m \<longrightarrow> p \<noteq> q \<longrightarrow> blk p n \<inter> blk q m = {})"

definition usim :: "addr set \<Rightarrow> (addr \<rightharpoonup> nat) \<Rightarrow> 'z uheap_scheme \<Rightarrow> bool" where
  "usim M A w \<longleftrightarrow> 0 < base w \<and>
     (if freep w = 0 then A = Map.empty \<and> M = {}
      else \<exists>xs. flist (base w) (hptr w) (hsize w) xs \<and> freep w \<in> set (base w # xs) \<and>
           live_ok (base w) (hsize w) (free_bytes (hsize w) xs) A \<and> M = free_bytes (hsize w) xs \<union> live_bytes A)"

text \<open>What the kernel promises about \<open>sbrk(k)\<close>: it fails, or the memory is new.\<close>

definition sbrk_ok :: "addr set \<Rightarrow> addr \<Rightarrow> int \<Rightarrow> int \<Rightarrow> bool" where
  "sbrk_ok M b k p \<longleftrightarrow> p = - 1 \<or> b < p \<and> p + k \<le> limit b \<and> {p ..< p + k} \<inter> M = {}"

lemma live_bytes_upd:
  assumes "A p = None"
  shows "live_bytes (A(p \<mapsto> n)) = live_bytes A \<union> blk p n"
proof (rule set_eqI)
  fix x
  have "x \<in> live_bytes (A(p \<mapsto> n)) \<longleftrightarrow> (\<exists>q m. (q = p \<and> m = n \<or> q \<noteq> p \<and> A q = Some m) \<and> x \<in> blk q m)"
    by (auto simp: live_bytes_def)
  also have "\<dots> \<longleftrightarrow> x \<in> blk p n \<or> (\<exists>q m. A q = Some m \<and> x \<in> blk q m)" using assms by (metis option.distinct(1))
  finally show "x \<in> live_bytes (A(p \<mapsto> n)) \<longleftrightarrow> x \<in> live_bytes A \<union> blk p n" by (auto simp: live_bytes_def)
qed

lemma live_bytes_None: "A p = Some n \<Longrightarrow> live_bytes A = live_bytes (A(p := None)) \<union> blk p n"
  using live_bytes_upd [of "A(p := None)" p n] by (simp add: fun_upd_idem)

lemma blk_start: "0 < n \<Longrightarrow> p \<in> blk p n"
  by (simp add: blk_def HDR_def)

text \<open>A block that is cut off the free bytes, and one that is given back.\<close>

lemma live_ok_take:
  assumes "live_ok b sz F A" and "blk a n \<subseteq> F" and "0 < n" and "b < a" and "a + HDR * int n \<le> limit b" and "sz1 a = n"
    and "\<forall>x. x \<notin> F \<longrightarrow> sz1 x = sz x"
  shows "live_ok b sz1 (F - blk a n) (A(a \<mapsto> n)) \<and> A a = None"
proof -
  have hdr: "p \<notin> F" if "A p = Some k" for p k using assms(1) that blk_start [of k p] by (auto simp: live_ok_def)
  have "a \<in> F" using assms(2) blk_start [OF assms(3)] by blast
  then have a: "A a = None" using hdr by (cases "A a") auto
  have old: "0 < k" "sz1 p = k" "b < p" "p + HDR * int k \<le> limit b" "blk p k \<inter> F = {}" if "A p = Some k" for p k
    using assms(1,7) that hdr [OF that] by (auto simp: live_ok_def)
  have "live_ok b sz1 (F - blk a n) (A(a \<mapsto> n))" unfolding live_ok_def
  proof (intro conjI allI impI)
    fix p k
    assume p: "(A(a \<mapsto> n)) p = Some k"
    show "0 < k" "sz1 p = k" "b < p" "p + HDR * int k \<le> limit b"
      using p old [of p k] assms(3-6) by (auto split: if_splits)
    show "blk p k \<inter> (F - blk a n) = {}" using p old(5) [of p k] by (auto split: if_splits)
  next
    fix p k q m
    assume p: "(A(a \<mapsto> n)) p = Some k" "(A(a \<mapsto> n)) q = Some m" "p \<noteq> q"
    show "blk p k \<inter> blk q m = {}"
    proof (cases "p = a")
      case True
      then have "k = n" "A q = Some m" using p by auto
      then show ?thesis using old(5) [of q m] assms(2) True by blast
    next
      case pa: False
      then have pk: "A p = Some k" using p by auto
      show ?thesis
      proof (cases "q = a")
        case True
        then have "m = n" using p by auto
        then show ?thesis using old(5) [OF pk] assms(2) True by blast
      next
        case False
        then have "A q = Some m" using p by auto
        then show ?thesis using assms(1) p(3) pk unfolding live_ok_def by blast
      qed
    qed
  qed
  then show ?thesis using a by blast
qed

lemma live_ok_give:
  assumes "live_ok b sz F A" and "A bp = Some n" and "\<forall>x. x \<noteq> bp \<and> x \<notin> F \<and> x \<noteq> b \<longrightarrow> sz1 x = sz x"
  shows "live_ok b sz1 (F \<union> blk bp n) (A(bp := None))"
proof -
  have hdr: "p \<notin> F" "p \<noteq> b" if "A p = Some k" for p k using assms(1) that blk_start [of k p] by (auto simp: live_ok_def)
  show ?thesis unfolding live_ok_def
  proof (intro conjI allI impI)
    fix p k
    assume "(A(bp := None)) p = Some k"
    then have p: "p \<noteq> bp" "A p = Some k" by (auto split: if_splits)
    then have "0 < k \<and> sz p = k \<and> b < p \<and> p + HDR * int k \<le> limit b \<and> blk p k \<inter> F = {}" "blk p k \<inter> blk bp n = {}"
      using assms(1,2) by (auto simp: live_ok_def)
    then show "0 < k" "sz1 p = k" "b < p" "p + HDR * int k \<le> limit b" "blk p k \<inter> (F \<union> blk bp n) = {}"
      using assms(3) hdr [OF p(2)] p(1) by auto
  next
    fix p k q m
    assume "(A(bp := None)) p = Some k" "(A(bp := None)) q = Some m" "p \<noteq> q"
    then show "blk p k \<inter> blk q m = {}" using assms(1) by (auto simp: live_ok_def split: if_splits)
  qed
qed

definition ustate :: "addr set \<Rightarrow> (addr \<rightharpoonup> nat) \<Rightarrow> addr list \<Rightarrow> 'z uheap_scheme \<Rightarrow> bool" where
  "ustate M A xs w \<longleftrightarrow> 0 < base w \<and> flist (base w) (hptr w) (hsize w) xs \<and> freep w \<in> set (base w # xs) \<and>
     live_ok (base w) (hsize w) (free_bytes (hsize w) xs) A \<and> M = free_bytes (hsize w) xs \<union> live_bytes A"

lemma ustate_usim: "ustate M A xs w \<Longrightarrow> usim M A w"
  using flist_above [of "base w" "hptr w" "hsize w" xs "freep w"] by (auto simp: usim_def ustate_def)

lemma ufree_state:
  assumes u: "ustate M A xs w" and bp: "A bp = Some n"
  obtains t ys where "ufree (bp + HDR) w = Uok () t" and "ustate M (A(bp := None)) ys t" and "answers t = answers w"
    and "\<exists>c \<in> set ys. n \<le> hsize t c"
proof -
  have fl: "flist (base w) (hptr w) (hsize w) xs" and fp: "freep w \<in> set (base w # xs)"
    and lv: "live_ok (base w) (hsize w) (free_bytes (hsize w) xs) A" and M: "M = free_bytes (hsize w) xs \<union> live_bytes A" and b: "0 < base w"
    using u by (auto simp: ustate_def)
  have B: "base w < bp" "0 < hsize w bp" "bp + HDR * int (hsize w bp) \<le> limit (base w)" "blk bp (hsize w bp) \<inter> free_bytes (hsize w) xs = {}"
    and n: "hsize w bp = n" using lv bp by (auto simp: live_ok_def)
  obtain p ys where r: "ufree (bp + HDR) w = Uok () (free_at bp p w)" and p: "p \<in> set (base w # xs)"
    and ys: "flist (base w) (hptr (free_at bp p w)) (hsize (free_at bp p w)) ys" "p \<in> set (base w # ys)"
    and fb: "free_bytes (hsize (free_at bp p w)) ys = free_bytes (hsize w) xs \<union> blk bp (hsize w bp)"
    and big: "\<exists>c \<in> set ys. hsize w bp \<le> hsize (free_at bp p w) c"
    by (rule free_ok [OF fl fp B])
  have pf: "p = base w \<or> p \<in> free_bytes (hsize w) xs" using p fl free_bytes_mem [of p xs "hsize w"] by (auto simp: flist_def)
  have "live_ok (base w) (hsize (free_at bp p w)) (free_bytes (hsize w) xs \<union> blk bp n) (A(bp := None))"
    by (rule live_ok_give [OF lv bp]) (use pf in \<open>auto intro: free_at_sizes\<close>)
  moreover have "M = (free_bytes (hsize w) xs \<union> blk bp n) \<union> live_bytes (A(bp := None))"
    using M live_bytes_None [of A bp n] bp by auto
  ultimately have "ustate M (A(bp := None)) ys (free_at bp p w)" using ys fb b n unfolding ustate_def by simp
  then show ?thesis using that [OF r] big n by simp
qed

lemma ufind_cases:
  assumes "flist b nx sz xs" and "fp \<in> set (b # xs)" and "0 < n"
  shows "(\<exists>v c. malloc_find fp n fp (nx fp) nx sz = Some (Inl (v, c)) \<and> nx v = c \<and> v \<in> set (b # xs) \<and> c \<in> set xs \<and> n \<le> sz c) \<or>
    malloc_find fp n fp (nx fp) nx sz = Some (Inr ()) \<and> (\<forall>c \<in> set xs. sz c < n)"
proof -
  obtain as bs where L: "b # xs = as @ fp # bs" using assms(2) by (meson split_list)
  have d: "distinct (as @ fp # bs)" using flist_distinct [OF assms(1)] unfolding L .
  have pth: "path nx b (as @ fp # bs) b" using assms(1) unfolding flist_def L by blast
  then have "path nx (nx fp) ((bs @ as) @ [fp]) (nx fp)" by auto
  from malloc_find_walk [OF refl this, where n = n and sz = sz]
  have W: "(\<exists>v c. malloc_find fp n fp (nx fp) nx sz = Some (Inl (v, c)) \<and> nx v = c \<and> v \<in> insert fp (set (bs @ as)) \<and>
        c \<in> insert fp (set (bs @ as)) \<and> n \<le> sz c) \<or>
      malloc_find fp n fp (nx fp) nx sz = Some (Inr ()) \<and> (\<forall>c \<in> insert fp (set (bs @ as)). sz c < n)"
    using d by auto
  have S: "insert fp (set (bs @ as)) = set (b # xs)" unfolding L by auto
  have b: "sz b = 0" using assms(1) by (simp add: flist_def)
  show ?thesis using W unfolding S using b assms(3) by (auto simp del: malloc_find.simps)
qed

lemma carve_sim:
  assumes u: "ustate M A xs w" and c: "c \<in> set xs" and n: "0 < n" "n \<le> hsize w c" and v: "v \<in> set (base w # xs)" "hptr w v = c"
  obtains a t ys where "carve n v c w = (a + HDR, t)" and "ustate M (A(a \<mapsto> n)) ys t" and "A a = None" and "answers t = answers w"
proof -
  have fl: "flist (base w) (hptr w) (hsize w) xs" and lv: "live_ok (base w) (hsize w) (free_bytes (hsize w) xs) A"
    and M: "M = free_bytes (hsize w) xs \<union> live_bytes A" and b: "0 < base w" using u by (auto simp: ustate_def)
  obtain a t ys where t: "carve n v c w = (a + HDR, t)" and fl': "flist (base w) (hptr t) (hsize t) ys"
    and fb: "free_bytes (hsize t) ys = free_bytes (hsize w) xs - blk a n" and sub: "blk a n \<subseteq> free_bytes (hsize w) xs"
    and sa: "hsize t a = n" "\<forall>x. x \<notin> free_bytes (hsize w) xs \<longrightarrow> hsize t x = hsize w x"
    and bt: "base t = base w" "freep t \<in> set (base w # ys)" and an: "answers t = answers w"
    and lim: "base w < a" "a + HDR * int n \<le> limit (base w)"
    by (rule carve_ok [OF fl c n v])
  have lv': "live_ok (base w) (hsize t) (free_bytes (hsize w) xs - blk a n) (A(a \<mapsto> n))" "A a = None"
    using live_ok_take [OF lv sub n(1) lim sa] by auto
  have "M = (free_bytes (hsize w) xs - blk a n) \<union> live_bytes (A(a \<mapsto> n))" using M sub live_bytes_upd [of A a n] lv'(2) by blast
  then have "ustate M (A(a \<mapsto> n)) ys t" using fl' fb lv'(1) bt b unfolding ustate_def by simp
  then show ?thesis using that t lv'(2) an by blast
qed

lemma loop_hit:
  assumes u: "ustate M A xs w" and n: "0 < n" and big: "\<exists>c \<in> set xs. n \<le> hsize w c"
  shows "\<exists>a t. malloc_loop n (freep w) w = Uok (Some (a + HDR)) t \<and> usim M (A(a \<mapsto> n)) t \<and> A a = None"
proof -
  have fl: "flist (base w) (hptr w) (hsize w) xs" "freep w \<in> set (base w # xs)" using u by (auto simp: ustate_def)
  obtain v c where f: "malloc_find (freep w) n (freep w) (hptr w (freep w)) (hptr w) (hsize w) = Some (Inl (v, c))"
    "hptr w v = c" "v \<in> set (base w # xs)" "c \<in> set xs" "n \<le> hsize w c"
    using ufind_cases [OF fl n] big by (metis not_less)
  obtain a t ys where t: "carve n v c w = (a + HDR, t)" "ustate M (A(a \<mapsto> n)) ys t" "A a = None"
    by (rule carve_sim [OF u f(4) n f(5) f(3) f(2)])
  then show ?thesis using f(1) ustate_usim [OF t(2)] by (subst malloc_loop.simps) simp
qed

text \<open>New memory from the kernel becomes a free block.\<close>

lemma more_ok:
  assumes u: "ustate M A xs w" and nu: "0 < nu" and p: "base w < p" "p + HDR * int nu \<le> limit (base w)" "blk p nu \<inter> M = {}"
  obtains t ys where "ufree (p + HDR) (w\<lparr>hsize := (hsize w)(p := nu)\<rparr>) = Uok () t" and "ustate (M \<union> blk p nu) A ys t"
    and "\<exists>c \<in> set ys. nu \<le> hsize t c"
proof -
  let ?w = "w\<lparr>hsize := (hsize w)(p := nu)\<rparr>"
  have fl: "flist (base w) (hptr w) (hsize w) xs" and lv: "live_ok (base w) (hsize w) (free_bytes (hsize w) xs) A"
    and M: "M = free_bytes (hsize w) xs \<union> live_bytes A" and b: "0 < base w" and fp: "freep w \<in> set (base w # xs)"
    using u by (auto simp: ustate_def)
  have pM: "p \<notin> M" using p(3) blk_start [OF nu] by blast
  have px: "p \<notin> set (base w # xs)"
  proof
    assume "p \<in> set (base w # xs)"
    then have "p \<in> set xs" using p(1) by auto
    then have "p \<in> free_bytes (hsize w) xs" using free_bytes_mem [of p xs "hsize w"] fl by (auto simp: flist_def)
    then show False using M pM by blast
  qed
  have F: "free_bytes ((hsize w)(p := nu)) xs = free_bytes (hsize w) xs" using px by simp
  have fl': "flist (base w) (hptr w) ((hsize w)(p := nu)) xs" by (rule flist_cong [OF fl]) (use px in auto)
  have Ap: "A p = None"
  proof (rule ccontr)
    assume "A p \<noteq> None"
    then obtain k where "A p = Some k" by blast
    then have "p \<in> live_bytes A" using lv blk_start [of k p] by (auto simp: live_ok_def live_bytes_def)
    then show False using pM M by blast
  qed
  have "A(p \<mapsto> nu, p := None) = A" using Ap by auto
  moreover have lv': "live_ok (base w) (hsize ?w) (free_bytes (hsize w) xs) (A(p \<mapsto> nu))"
  proof -
    have dj: "blk q k \<inter> blk p nu = {}" if "A q = Some k" for q k
    proof -
      have "blk q k \<subseteq> M" using that M by (auto simp: live_bytes_def)
      then show ?thesis using p(3) by blast
    qed
    show ?thesis unfolding live_ok_def
    proof (intro conjI allI impI)
      fix q k
      assume q: "(A(p \<mapsto> nu)) q = Some k"
      show "0 < k" "hsize ?w q = k" "base w < q" "q + HDR * int k \<le> limit (base w)"
        using q lv nu p by (auto simp: live_ok_def split: if_splits)
      show "blk q k \<inter> free_bytes (hsize w) xs = {}" using q lv p(3) M by (auto simp: live_ok_def split: if_splits)
    next
      fix q k q' k'
      assume q: "(A(p \<mapsto> nu)) q = Some k" "(A(p \<mapsto> nu)) q' = Some k'" "q \<noteq> q'"
      show "blk q k \<inter> blk q' k' = {}"
      proof (cases "q = p \<or> q' = p")
        case True
        then show ?thesis using q dj [of q k] dj [of q' k'] by (auto simp: Int_commute)
      next
        case False
        then show ?thesis using q lv by (auto simp: live_ok_def)
      qed
    qed
  qed
  moreover have "ustate (M \<union> blk p nu) (A(p \<mapsto> nu)) xs ?w"
    using fl' fp b lv' M F live_bytes_upd [of A p nu] Ap unfolding ustate_def by auto
  ultimately show ?thesis using ufree_state [of "M \<union> blk p nu" "A(p \<mapsto> nu)" xs ?w p nu] that by (metis fun_upd_same)
qed

definition units :: "nat \<Rightarrow> nat" where
  "units nbytes = (nbytes + 16 - 1) div 16 + 1"

lemma ustate_world [simp]: "ustate M A xs (w\<lparr>calls := cs, answers := rs\<rparr>) = ustate M A xs w"
  by (simp add: ustate_def)

lemma sbrk_blk: "{p ..< p + HDR * int nu} = blk p nu"
  by (simp add: blk_def)

lemma loop_sim:
  assumes u: "ustate M A xs w" and n: "0 < n" and k: "HDR * int (max 4096 n) < 2 ^ 31"
    and sb: "answers w = [] \<or> sbrk_ok M (base w) (s32 (HDR * int (max 4096 n))) (rval (hd (answers w)))"
  shows "case malloc_loop n (freep w) w of
      Uok (Some a) t \<Rightarrow> A (a - HDR) = None \<and> (\<exists>M'. usim M' (A(a - HDR \<mapsto> n)) t \<and> (M' = M \<or> M' = M \<union> blk (rval (hd (answers w))) (max 4096 n)))
    | Uok None t \<Rightarrow> usim M A t \<and> rval (hd (answers w)) = - 1
    | Uwait t \<Rightarrow> answers w = []
    | _ \<Rightarrow> False"
proof (cases "\<exists>c \<in> set xs. n \<le> hsize w c")
  case True
  obtain a t where "malloc_loop n (freep w) w = Uok (Some (a + HDR)) t" "usim M (A(a \<mapsto> n)) t" "A a = None"
    using loop_hit [OF u n True] by blast
  then show ?thesis by auto
next
  case False
  let ?nu = "if n < 4096 then 4096 else n"
  have nu: "?nu = max 4096 n" "0 < ?nu" using n by (simp_all add: max_def)
  have fl: "flist (base w) (hptr w) (hsize w) xs" "freep w \<in> set (base w # xs)" and b: "0 < base w" using u by (auto simp: ustate_def)
  have f: "malloc_find (freep w) n (freep w) (hptr w (freep w)) (hptr w) (hsize w) = Some (Inr ())"
    using ufind_cases [OF fl n] False by auto
  have L: "malloc_loop n (freep w) w = bindu (morecore n w) (\<lambda>r w. case r of None \<Rightarrow> Uok None w | Some p \<Rightarrow> malloc_loop n p w)"
    by (subst malloc_loop.simps) (simp add: f)
  have s: "s32 (HDR * int (max 4096 n)) = HDR * int (max 4096 n)" by (rule s32_nonneg) (use k in \<open>simp_all add: HDR_def\<close>)
  show ?thesis
  proof (cases "answers w")
    case Nil
    then show ?thesis by (simp add: L morecore_def sysv_def sys_def)
  next
    case (Cons r rs)
    let ?w = "w\<lparr>calls := calls w @ [SysSbrk (s32 (int ?nu * HDR))], answers := rs\<rparr>"
    have sy: "sysv (SysSbrk (s32 (int ?nu * HDR))) w = Uok (rval r) ?w" using Cons by (simp add: sysv_def)
    have uw: "ustate M A xs ?w" using u by simp
    show ?thesis
    proof (cases "rval r = - 1")
      case True
      then show ?thesis using ustate_usim [OF uw] Cons by (simp add: L morecore_def sy Let_def)
    next
      case False
      then have p: "base ?w < rval r" "rval r + HDR * int ?nu \<le> limit (base ?w)" "blk (rval r) ?nu \<inter> M = {}"
        using sb Cons unfolding sbrk_ok_def s sbrk_blk nu(1) by auto
      obtain t ys where t: "ufree (rval r + HDR) (?w\<lparr>hsize := (hsize ?w)(rval r := ?nu)\<rparr>) = Uok () t" "ustate (M \<union> blk (rval r) ?nu) A ys t"
        "\<exists>c \<in> set ys. ?nu \<le> hsize t c"
        by (rule more_ok [OF uw nu(2) p])
      have "morecore n w = Uok (Some (freep t)) t" unfolding morecore_def Let_def sy using False t(1) by simp
      moreover have "\<exists>c \<in> set ys. n \<le> hsize t c" using t(3) nu(1) by (metis max.bounded_iff)
      ultimately show ?thesis using loop_hit [OF t(2) n] Cons nu(1) by (fastforce simp: L)
    qed
  qed
qed

lemma umalloc_sim:
  assumes u: "usim M A w" and nb: "nbytes < 2 ^ 30"
    and sb: "answers w = [] \<or> sbrk_ok M (base w) (s32 (HDR * int (max 4096 (units nbytes)))) (rval (hd (answers w)))"
  shows "case umalloc nbytes w of
      Uok (Some a) t \<Rightarrow> A (a - HDR) = None \<and> (\<exists>M'. usim M' (A(a - HDR \<mapsto> units nbytes)) t \<and> (M' = M \<or> M' = M \<union> blk (rval (hd (answers w))) (max 4096 (units nbytes))))
    | Uok None t \<Rightarrow> usim M A t \<and> rval (hd (answers w)) = - 1
    | Uwait t \<Rightarrow> answers w = []
    | _ \<Rightarrow> False"
proof -
  let ?w = "if freep w = 0 then w\<lparr>hptr := (hptr w)(base w := base w), freep := base w, hsize := (hsize w)(base w := 0)\<rparr> else w"
  have e: "umalloc nbytes w = malloc_loop (units nbytes) (freep ?w) ?w" by (simp add: umalloc_def units_def)
  obtain xs where us: "ustate M A xs ?w"
  proof (cases "freep w = 0")
    case True
    then have "ustate M A [] ?w" using u flist_start [of "base w" "hptr w" "hsize w"]
      by (simp add: ustate_def usim_def live_ok_def live_bytes_def)
    then show ?thesis using that by blast
  next
    case False
    then show ?thesis using u that by (auto simp: ustate_def usim_def)
  qed
  have a: "answers ?w = answers w" "base ?w = base w" by simp_all
  have "(15 + nbytes) div 16 < 134217727" using nb by (intro less_mult_imp_div_less) simp
  then have k: "HDR * int (max 4096 (units nbytes)) < 2 ^ 31" by (simp add: HDR_def units_def max_def)
  have "0 < units nbytes" by (simp add: units_def)
  from loop_sim [OF us this k] sb show ?thesis unfolding e a by simp
qed

text \<open>
  C37. \<open>malloc\<close> of the user library returns a block of its own. From a state that matches a set of live blocks, and
  when \<open>sbrk\<close> gives new memory or fails, \<open>malloc\<close> ends for every size below 1 GB: its searches of the circular list
  do not go on forever and it asks the kernel at most once. The block it returns holds the bytes asked for, overlaps no live
  block, and becomes a live block of the new state, in which the list of free blocks is well formed again. Nothing the
  allocator has got from the kernel is lost. It returns a null pointer only when \<open>sbrk\<close> failed, and then nothing has changed.
\<close>

theorem umalloc_refines:
  assumes "usim M A w" and "nbytes < 2 ^ 30"
    and "answers w = [] \<or> sbrk_ok M (base w) (s32 (HDR * int (max 4096 (units nbytes)))) (rval (hd (answers w)))"
  shows "case umalloc nbytes w of
      Uok (Some a) t \<Rightarrow> A (a - HDR) = None \<and> {a ..< a + int nbytes} \<subseteq> blk (a - HDR) (units nbytes) \<and>
        (\<exists>M'. usim M' (A(a - HDR \<mapsto> units nbytes)) t \<and> (M' = M \<or> M' = M \<union> blk (rval (hd (answers w))) (max 4096 (units nbytes))))
    | Uok None t \<Rightarrow> usim M A t \<and> rval (hd (answers w)) = - 1
    | Uwait t \<Rightarrow> answers w = []
    | _ \<Rightarrow> False"
proof -
  have "int nbytes \<le> 16 * int (units nbytes) - 16" by (simp add: units_def)
  then have "{a ..< a + int nbytes} \<subseteq> blk (a - HDR) (units nbytes)" for a by (auto simp: blk_def HDR_def)
  then show ?thesis using umalloc_sim [OF assms] by (auto split: ures.splits option.splits)
qed

text \<open>
  C38. \<open>free\<close> of the user library gives a live block back. It ends, for a block anywhere in memory and wherever the last search
  stopped, merges the block with free neighbours, and leaves a well-formed list in which the block's bytes are free
  and all other live blocks and their headers are as before.
\<close>

theorem ufree_refines:
  assumes "usim M A w" and "A bp = Some n"
  shows "\<exists>t. ufree (bp + HDR) w = Uok () t \<and> usim M (A(bp := None)) t \<and> answers t = answers w"
proof -
  have "freep w \<noteq> 0" using assms by (auto simp: usim_def split: if_splits)
  then obtain xs where "ustate M A xs w" using assms(1) by (auto simp: usim_def ustate_def)
  from ufree_state [OF this assms(2)] show ?thesis using ustate_usim by metis
qed

definition new_heap :: "int list \<Rightarrow> uheap" where
  "new_heap ps = \<lparr>answers = map (\<lambda>p. \<lparr>rval = p, rbytes = []\<rparr>) ps, calls = [], mallocs = 0, base = 4096, freep = 0, hptr = (\<lambda>_. 0), hsize = (\<lambda>_. 0)\<rparr>"

lemma new_heap_sim: "usim {} Map.empty (new_heap ps)"
  by (simp add: usim_def new_heap_def)

theorem umalloc_refines_witness:
  "\<exists>a t M'. umalloc 100 (new_heap [8192]) = Uok (Some a) t \<and> usim M' [a - HDR \<mapsto> 8] t"
proof -
  have "answers (new_heap [8192]) = [] \<or> sbrk_ok {} (base (new_heap [8192])) (s32 (HDR * int (max 4096 (units 100)))) (rval (hd (answers (new_heap [8192]))))"
    by (simp add: sbrk_ok_def new_heap_def limit_def HDR_def units_def s32_def)
  from umalloc_refines [OF new_heap_sim _ this] show ?thesis
    by (auto simp: new_heap_def units_def split: ures.splits option.splits)
qed

theorem ufree_refines_witness:
  "\<exists>a t u M. umalloc 100 (new_heap [8192]) = Uok (Some a) t \<and> ufree a t = Uok () u \<and> usim M Map.empty u"
proof -
  have "answers (new_heap [8192]) = [] \<or> sbrk_ok {} (base (new_heap [8192])) (s32 (HDR * int (max 4096 (units 100)))) (rval (hd (answers (new_heap [8192]))))"
    by (simp add: sbrk_ok_def new_heap_def limit_def HDR_def units_def s32_def)
  from umalloc_sim [OF new_heap_sim _ this] obtain a t M where t: "umalloc 100 (new_heap [8192]) = Uok (Some a) t" "usim M [a - HDR \<mapsto> 8] t"
    by (auto simp: new_heap_def units_def split: ures.splits option.splits)
  have "[a - HDR \<mapsto> 8] (a - HDR) = Some (8 :: nat)" by simp
  moreover have "[a - HDR \<mapsto> 8](a - HDR := None) = (Map.empty :: addr \<rightharpoonup> nat)" by simp
  ultimately obtain u where "ufree a t = Uok () u" "usim M Map.empty u"
    using ufree_refines [OF t(2), of "a - HDR" 8] by (metis diff_add_cancel)
  then show ?thesis using t by auto
qed

text \<open>
  For sizes near 4 GB the argument of \<open>sbrk\<close> wraps around: \<open>morecore\<close> asks for 16 bytes and takes them for a block
  of more than 4 GB, and \<open>malloc\<close> returns a pointer to the end of the memory it has got.
\<close>

lemma umalloc_overflow:
  "units (2 ^ 32 - 1) = 2 ^ 28 + 1"
  "answers w = r # rs \<Longrightarrow> rval r \<noteq> - 1 \<Longrightarrow> morecore (2 ^ 28 + 1) w =
     bindu (ufree (rval r + HDR) (w\<lparr>calls := calls w @ [SysSbrk 16], answers := rs, hsize := (hsize w)(rval r := 2 ^ 28 + 1)\<rparr>)) (\<lambda>_ w. Uok (Some (freep w)) w)"
  by (simp_all add: units_def morecore_def sysv_def HDR_def s32_def)

end
