(* ===== verification/Utools.thy ===== *)
theory Utools
  imports Uprog Sysfile
begin

text \<open>
  The small programs of \<open>user/\<close>: \<open>cat\<close>, \<open>echo\<close>, \<open>wc\<close>, \<open>ls\<close>, \<open>kill\<close>, \<open>ln\<close>, \<open>mkdir\<close>, \<open>rm\<close>, \<open>zombie\<close> and \<open>init\<close>, each run on
  a script of the kernel's answers. \<open>argv\<close> is the list of the arguments. \<open>cat\<close> is shown to copy its input, \<open>wc\<close> to count
  it, and \<open>init\<close> never to end while the calls it relies on succeed.
\<close>

section \<open>The programs\<close>

text \<open>\<open>cat\<close>: the buffer has 512 bytes.\<close>

function cat :: "int \<Rightarrow> 'z world_scheme \<Rightarrow> ('z world_scheme, unit) ures" where
  "cat fd w =
     bindu (sys (SysRead fd 512) w) (\<lambda>r w.
     if rval r > 0
     then if length (rbytes r) > 512 then Ufault ''buf'' w
          else bindu (sysv (SysWrite 1 (rbytes r)) w) (\<lambda>m w.
               if m \<noteq> rval r then bindu (ufprintf 2 (cstr ''cat: write error'' @ [10]) [] w) (\<lambda>_ w. uexit 1 w)
               else cat fd w)
     else if rval r < 0 then bindu (ufprintf 2 (cstr ''cat: read error'' @ [10]) [] w) (\<lambda>_ w. uexit 1 w)
     else Uok () w)"
  by pat_completeness auto
termination
  by (relation "measure (\<lambda>(fd, w). length (answers w))") (auto dest!: sys_shorter sysv_shorter)

declare cat.simps [simp del]

fun cat_files :: "u8 list list \<Rightarrow> 'z world_scheme \<Rightarrow> ('z world_scheme, unit) ures" where
  "cat_files [] w = uexit 0 w"
| "cat_files (f # fs) w =
     bindu (sysv (SysOpen f O_RDONLY) w) (\<lambda>fd w.
     if fd < 0 then bindu (ufprintf 2 (cstr ''cat: cannot open %s'' @ [10]) [UStr (Some f)] w) (\<lambda>_ w. uexit 1 w)
     else bindu (cat fd w) (\<lambda>_ w.
          bindu (sysv (SysClose fd) w) (\<lambda>_ w. cat_files fs w)))"

definition cat_main :: "u8 list list \<Rightarrow> 'z world_scheme \<Rightarrow> ('z world_scheme, unit) ures" where
  "cat_main argv w = (if length argv \<le> 1 then bindu (cat 0 w) (\<lambda>_ w. uexit 0 w) else cat_files (tl argv) w)"

fun echo_loop :: "u8 list list \<Rightarrow> 'z world_scheme \<Rightarrow> ('z world_scheme, unit) ures" where
  "echo_loop [] w = Uok () w"
| "echo_loop (a # as) w =
     bindu (sysv (SysWrite 1 a) w) (\<lambda>_ w.
     bindu (sysv (SysWrite 1 (if as \<noteq> [] then [32] else [10])) w) (\<lambda>_ w. echo_loop as w))"

definition echo_main :: "u8 list list \<Rightarrow> 'z world_scheme \<Rightarrow> ('z world_scheme, unit) ures" where
  "echo_main argv w = bindu (echo_loop (tl argv) w) (\<lambda>_ w. uexit 0 w)"

text \<open>\<open>wc\<close>: lines, words, characters and whether a word has begun. The counters are \<open>int\<close>s.\<close>

record counts =
  nl :: int
  nw :: int
  nc :: int
  inword :: bool

definition wc_space :: "u8 \<Rightarrow> bool" where
  "wc_space c \<longleftrightarrow> c \<in> {32, 13, 9, 10, 11}"

definition wc_char :: "u8 \<Rightarrow> counts \<Rightarrow> counts" where
  "wc_char c k =
     (let k = k\<lparr>nc := s32 (nc k + 1)\<rparr>;
          k = (if c = 10 then k\<lparr>nl := s32 (nl k + 1)\<rparr> else k)
      in if wc_space c then k\<lparr>inword := False\<rparr>
         else if \<not> inword k then k\<lparr>nw := s32 (nw k + 1), inword := True\<rparr>
         else k)"

function wc_loop :: "int \<Rightarrow> counts \<Rightarrow> 'z world_scheme \<Rightarrow> ('z world_scheme, counts) ures" where
  "wc_loop fd k w =
     bindu (sys (SysRead fd 512) w) (\<lambda>r w.
     if rval r > 0
     then if length (rbytes r) > 512 then Ufault ''buf'' w else wc_loop fd (fold wc_char (rbytes r) k) w
     else if rval r < 0 then bindu (uprintf (cstr ''wc: read error'' @ [10]) [] w) (\<lambda>_ w. uexit 1 w)
     else Uok k w)"
  by pat_completeness auto
termination
  by (relation "measure (\<lambda>(fd, k, w). length (answers w))") (auto dest!: sys_shorter)

declare wc_loop.simps [simp del]

definition wc :: "int \<Rightarrow> u8 list \<Rightarrow> 'z world_scheme \<Rightarrow> ('z world_scheme, unit) ures" where
  "wc fd name w =
     bindu (wc_loop fd \<lparr>nl = 0, nw = 0, nc = 0, inword = False\<rparr> w) (\<lambda>k w.
     uprintf (cstr ''%d %d %d %s'' @ [10]) [UNum (nl k), UNum (nw k), UNum (nc k), UStr (Some name)] w)"

fun wc_files :: "u8 list list \<Rightarrow> 'z world_scheme \<Rightarrow> ('z world_scheme, unit) ures" where
  "wc_files [] w = uexit 0 w"
| "wc_files (f # fs) w =
     bindu (sysv (SysOpen f O_RDONLY) w) (\<lambda>fd w.
     if fd < 0 then bindu (uprintf (cstr ''wc: cannot open %s'' @ [10]) [UStr (Some f)] w) (\<lambda>_ w. uexit 1 w)
     else bindu (wc fd f w) (\<lambda>_ w.
          bindu (sysv (SysClose fd) w) (\<lambda>_ w. wc_files fs w)))"

definition wc_main :: "u8 list list \<Rightarrow> 'z world_scheme \<Rightarrow> ('z world_scheme, unit) ures" where
  "wc_main argv w = (if length argv \<le> 1 then bindu (wc 0 [] w) (\<lambda>_ w. uexit 0 w) else wc_files (tl argv) w)"

text \<open>\<open>ls\<close>: the name behind the last slash, padded with blanks.\<close>

definition fmtname :: "u8 list \<Rightarrow> u8 list" where
  "fmtname p =
     (let p = rev (takeWhile (\<lambda>c. c \<noteq> 47) (rev p)) in
      if length p \<ge> DIRSIZ then p else p @ replicate (DIRSIZ - length p) 32)"

text \<open>The fields of \<open>struct stat\<close> that \<open>ls\<close> reads.\<close>

definition stat_type :: "u8 list \<Rightarrow> int" where "stat_type st = s16 (rd16 8 st)"
definition stat_ino :: "u8 list \<Rightarrow> int" where "stat_ino st = int (rd32 4 st)"
definition stat_size :: "u8 list \<Rightarrow> int" where "stat_size st = int (le_val (get_at 16 8 st))"

function ls_entries :: "int \<Rightarrow> u8 list \<Rightarrow> 'z world_scheme \<Rightarrow> ('z world_scheme, unit) ures" where
  "ls_entries fd dir w =
     bindu (sys (SysRead fd 16) w) (\<lambda>r w.
     if rval r \<noteq> 16 then Uok () w
     else if de_inum (rbytes r) = 0 then ls_entries fd dir w
     else let buf = dir @ takeWhile (\<lambda>c. c \<noteq> 0) (de_name (rbytes r)) in
          bindu (ustat buf w) (\<lambda>x w.
          if fst x < 0 then bindu (uprintf (cstr ''ls: cannot stat %s'' @ [10]) [UStr (Some buf)] w) (\<lambda>_ w. ls_entries fd dir w)
          else bindu (uprintf (cstr ''%s %d %d %d'' @ [10])
                 [UStr (Some (fmtname buf)), UNum (stat_type (snd x)), UNum (stat_ino (snd x)), UNum (stat_size (snd x))] w) (\<lambda>_ w.
               ls_entries fd dir w)))"
  by pat_completeness auto
termination
  by (relation "measure (\<lambda>(fd, dir, w). length (answers w))")
    (auto dest!: sys_shorter ustat_shorter uprintf_shorter)

declare ls_entries.simps [simp del]

definition ls :: "u8 list \<Rightarrow> 'z world_scheme \<Rightarrow> ('z world_scheme, unit) ures" where
  "ls p w =
     bindu (sysv (SysOpen p O_RDONLY) w) (\<lambda>fd w.
     if fd < 0 then ufprintf 2 (cstr ''ls: cannot open %s'' @ [10]) [UStr (Some p)] w
     else bindu (sys (SysFstat fd) w) (\<lambda>r w.
          if rval r < 0
          then bindu (ufprintf 2 (cstr ''ls: cannot stat %s'' @ [10]) [UStr (Some p)] w) (\<lambda>_ w.
               bindu (sysv (SysClose fd) w) (\<lambda>_ w. Uok () w))
          else let st = rbytes r in
               bindu (if stat_type st = T_DEVICE \<or> stat_type st = T_FILE
                      then uprintf (cstr ''%s %d %d %l'' @ [10])
                             [UStr (Some (fmtname p)), UNum (stat_type st), UNum (stat_ino st), UNum (stat_size st)] w
                      else if stat_type st = T_DIR
                           then if length p + 1 + DIRSIZ + 1 > 512 then uprintf (cstr ''ls: path too long'' @ [10]) [] w
                                else ls_entries fd (p @ [47]) w
                           else Uok () w) (\<lambda>_ w.
               bindu (sysv (SysClose fd) w) (\<lambda>_ w. Uok () w))))"

fun ls_loop :: "u8 list list \<Rightarrow> 'z world_scheme \<Rightarrow> ('z world_scheme, unit) ures" where
  "ls_loop [] w = uexit 0 w"
| "ls_loop (p # ps) w = bindu (ls p w) (\<lambda>_ w. ls_loop ps w)"

definition ls_main :: "u8 list list \<Rightarrow> 'z world_scheme \<Rightarrow> ('z world_scheme, unit) ures" where
  "ls_main argv w = (if length argv < 2 then bindu (ls [46] w) (\<lambda>_ w. uexit 0 w) else ls_loop (tl argv) w)"

text \<open>Programs that make one call for each argument.\<close>

fun kill_args :: "u8 list list \<Rightarrow> 'z world_scheme \<Rightarrow> ('z world_scheme, unit) ures" where
  "kill_args [] w = uexit 0 w"
| "kill_args (a # as) w = bindu (sysv (SysKill (atoi a)) w) (\<lambda>_ w. kill_args as w)"

definition kill_main :: "u8 list list \<Rightarrow> 'z world_scheme \<Rightarrow> ('z world_scheme, unit) ures" where
  "kill_main argv w =
     (if length argv < 2 then bindu (ufprintf 2 (cstr ''usage: kill pid...'' @ [10]) [] w) (\<lambda>_ w. uexit 1 w)
      else kill_args (tl argv) w)"

definition ln_main :: "u8 list list \<Rightarrow> 'z world_scheme \<Rightarrow> ('z world_scheme, unit) ures" where
  "ln_main argv w =
     (if length argv \<noteq> 3 then bindu (ufprintf 2 (cstr ''Usage: ln old new'' @ [10]) [] w) (\<lambda>_ w. uexit 1 w)
      else bindu (sysv (SysLink (argv ! 1) (argv ! 2)) w) (\<lambda>r w.
           bindu (if r < 0 then ufprintf 2 (cstr ''link %s %s: failed'' @ [10]) [UStr (Some (argv ! 1)), UStr (Some (argv ! 2))] w
                  else Uok () w) (\<lambda>_ w. uexit 0 w)))"

fun each_file :: "(u8 list \<Rightarrow> scall) \<Rightarrow> u8 list \<Rightarrow> u8 list list \<Rightarrow> 'z world_scheme \<Rightarrow> ('z world_scheme, unit) ures" where
  "each_file call msg [] w = uexit 0 w"
| "each_file call msg (f # fs) w =
     bindu (sysv (call f) w) (\<lambda>r w.
     if r < 0 then bindu (ufprintf 2 msg [UStr (Some f)] w) (\<lambda>_ w. uexit 0 w) else each_file call msg fs w)"

definition mkdir_main :: "u8 list list \<Rightarrow> 'z world_scheme \<Rightarrow> ('z world_scheme, unit) ures" where
  "mkdir_main argv w =
     (if length argv < 2 then bindu (ufprintf 2 (cstr ''Usage: mkdir files...'' @ [10]) [] w) (\<lambda>_ w. uexit 1 w)
      else each_file SysMkdir (cstr ''mkdir: %s failed to create'' @ [10]) (tl argv) w)"

definition rm_main :: "u8 list list \<Rightarrow> 'z world_scheme \<Rightarrow> ('z world_scheme, unit) ures" where
  "rm_main argv w =
     (if length argv < 2 then bindu (ufprintf 2 (cstr ''Usage: rm files...'' @ [10]) [] w) (\<lambda>_ w. uexit 1 w)
      else each_file SysUnlink (cstr ''rm: %s failed to delete'' @ [10]) (tl argv) w)"

definition zombie_main :: "'z world_scheme \<Rightarrow> ('z world_scheme, unit) ures" where
  "zombie_main w =
     bindu (sysv SysFork w) (\<lambda>pid w.
     bindu (if pid > 0 then sysv (SysSleep 5) w else Uok 0 w) (\<lambda>_ w. uexit 0 w))"

text \<open>\<open>init\<close>: the inner loop waits for the shell \<open>sh\<close>, the outer one starts it.\<close>

function init_wait :: "int \<Rightarrow> 'z world_scheme \<Rightarrow> ('z world_scheme, unit) ures" where
  "init_wait sh w =
     bindu (sysv SysWait w) (\<lambda>wpid w.
     if wpid = sh then Uok () w
     else if wpid < 0 then bindu (uprintf (cstr ''init: wait returned an error'' @ [10]) [] w) (\<lambda>_ w. uexit 1 w)
     else init_wait sh w)"
  by pat_completeness auto
termination by (relation "measure (\<lambda>(sh, w). length (answers w))") (auto dest: sysv_shorter)

declare init_wait.simps [simp del]

lemma init_wait_shorter: "init_wait sh w = Uok u t \<Longrightarrow> length (answers t) < length (answers w)"
proof (induction sh w rule: init_wait.induct)
  case (1 sh w)
  from "1.prems" obtain v s where s: "sysv SysWait w = Uok v s" by (auto simp: init_wait.simps [of sh w] bindu_eq_Uok)
  have "length (answers t) \<le> length (answers s)"
    using "1.prems" "1.IH" [OF s] by (auto simp: init_wait.simps [of sh w] s bindu_eq_Uok uexit_def split: if_splits)
  then show ?case using sysv_shorter [OF s] by simp
qed

definition sh_argv :: "u8 list list" where
  "sh_argv = [cstr ''sh'']"

function init_loop :: "'z world_scheme \<Rightarrow> ('z world_scheme, unit) ures" where
  "init_loop w =
     bindu (uprintf (cstr ''init: starting sh'' @ [10]) [] w) (\<lambda>_ w.
     bindu (sysv SysFork w) (\<lambda>sh w.
     if sh < 0 then bindu (uprintf (cstr ''init: fork failed'' @ [10]) [] w) (\<lambda>_ w. uexit 1 w)
     else if sh = 0
          then bindu (sysv (SysExec (cstr ''sh'') sh_argv) w) (\<lambda>_ w.
               bindu (uprintf (cstr ''init: exec sh failed'' @ [10]) [] w) (\<lambda>_ w. uexit 1 w))
          else bindu (init_wait sh w) (\<lambda>_ w. init_loop w)))"
  by pat_completeness auto
termination
  by (relation "measure (\<lambda>w. length (answers w))") (auto dest!: uprintf_shorter sysv_shorter init_wait_shorter)

declare init_loop.simps [simp del]

definition init_main :: "'z world_scheme \<Rightarrow> ('z world_scheme, unit) ures" where
  "init_main w =
     bindu (sysv (SysOpen (cstr ''console'') O_RDWR) w) (\<lambda>fd w.
     bindu (if fd < 0
            then bindu (sysv (SysMknod (cstr ''console'') (int CONSOLE) 0) w) (\<lambda>_ w. sysv (SysOpen (cstr ''console'') O_RDWR) w)
            else Uok 0 w) (\<lambda>_ w.
     bindu (sysv (SysDup 0) w) (\<lambda>_ w.
     bindu (sysv (SysDup 0) w) (\<lambda>_ w.
     init_loop w))))"

section \<open>\<open>cat\<close> copies\<close>

lemma cat_copies:
  "cat fd w = Uok u t \<Longrightarrow> \<exists>ps r. ran w t (ps @ [(SysRead fd 512, r)]) \<and> rval r = 0 \<and> bytes_out ps = bytes_in ps"
proof (induction fd w rule: cat.induct)
  case (1 fd w)
  from "1.prems" obtain r v where s: "sys (SysRead fd 512) w = Uok r v" by (auto simp: cat.simps [of fd w] bindu_eq_Uok)
  consider "rval r = 0" "t = v"
    | m v' where "rval r > 0" "\<not> length (rbytes r) > 512" "sysv (SysWrite 1 (rbytes r)) v = Uok m v'" "\<not> m \<noteq> rval r" "cat fd v' = Uok u t"
    using "1.prems" by (auto simp: cat.simps [of fd w] s bindu_eq_Uok uexit_def split: if_splits)
  then show ?case
  proof cases
    case 1
    then show ?thesis using ran_sys [OF s] by (intro exI [of _ "[]"] exI [of _ r]) simp
  next
    case 2
    obtain ps r' where ps: "ran v' t (ps @ [(SysRead fd 512, r')])" "rval r' = 0" "bytes_out ps = bytes_in ps"
      using "1.IH" [OF s 2] by blast
    obtain a where a: "ran v v' [(SysWrite 1 (rbytes r), a)]" using ran_sysv [OF 2(3)] ..
    have "ran w t (([(SysRead fd 512, r)] @ [(SysWrite 1 (rbytes r), a)] @ ps) @ [(SysRead fd 512, r')])"
      using ran_trans [OF ran_sys [OF s] ran_trans [OF a ps(1)]] by simp
    moreover have "bytes_out ([(SysRead fd 512, r)] @ [(SysWrite 1 (rbytes r), a)] @ ps)
      = bytes_in ([(SysRead fd 512, r)] @ [(SysWrite 1 (rbytes r), a)] @ ps)" unfolding io_simps using 2(1) ps(3) by simp
    ultimately show ?thesis using ps(2) by blast
  qed
qed

section \<open>\<open>wc\<close> counts\<close>

text \<open>The positions at which a word starts.\<close>

definition word_starts :: "u8 list \<Rightarrow> nat set" where
  "word_starts xs = {i. i < length xs \<and> \<not> wc_space (xs ! i) \<and> (i = 0 \<or> wc_space (xs ! (i - 1)))}"

definition summary :: "u8 list \<Rightarrow> u8 list \<Rightarrow> u8 list" where
  "summary xs name =
     uprintint (s32 (int (count_list xs 10))) 10 True @ [32] @ uprintint (s32 (int (card (word_starts xs)))) 10 True @ [32] @
     uprintint (s32 (int (length xs))) 10 True @ [32] @ name @ [10]"

definition counted :: "u8 list \<Rightarrow> counts \<Rightarrow> bool" where
  "counted xs k \<longleftrightarrow> nl k = s32 (int (count_list xs 10)) \<and> nw k = s32 (int (card (word_starts xs))) \<and> nc k = s32 (int (length xs)) \<and>
     inword k = (xs \<noteq> [] \<and> \<not> wc_space (last xs))"

lemma word_starts_snoc:
  "word_starts (xs @ [c]) = (if \<not> wc_space c \<and> (xs = [] \<or> wc_space (last xs)) then insert (length xs) (word_starts xs) else word_starts xs)"
proof (cases "xs = []")
  case False
  then have "last xs = xs ! (length xs - 1)" "0 < length xs" by (simp_all add: last_conv_nth)
  then show ?thesis by (auto simp: word_starts_def nth_append less_Suc_eq)
qed (auto simp: word_starts_def)

lemma word_starts_finite [simp]: "finite (word_starts xs)" "length xs \<notin> word_starts xs"
  by (simp_all add: word_starts_def)

lemma s32_Suc: "s32 (1 + s32 x) = s32 (1 + x)"
proof -
  have "(1 + (x + 2 ^ 31) mod 2 ^ 32) mod 2 ^ 32 = (1 + (x + 2 ^ 31)) mod (2 ^ 32 :: int)" by (rule mod_add_right_eq)
  then show ?thesis by (simp add: s32_def algebra_simps)
qed

lemma s32_s32: "s32 (s32 x) = s32 x"
  using s32_range [of x] by (subst s32_def) (simp add: mod_pos_pos_trivial)

lemma wc_space_nl [simp]: "wc_space 10"
  by (simp add: wc_space_def)

lemma counted_char: "counted xs k \<Longrightarrow> counted (xs @ [c]) (wc_char c k)"
  by (cases "c = 10"; cases "wc_space c"; cases "inword k")
    (auto simp: counted_def wc_char_def Let_def word_starts_snoc s32_Suc add.commute)

lemma counted_fold: "counted xs k \<Longrightarrow> counted (xs @ ys) (fold wc_char ys k)"
proof (induction ys arbitrary: xs k)
  case (Cons y ys)
  from Cons.IH [OF counted_char [OF Cons.prems]] show ?case by simp
qed simp

lemma counted_0: "counted [] \<lparr>nl = 0, nw = 0, nc = 0, inword = False\<rparr>"
  by (simp add: counted_def word_starts_def s32_def)

lemma uputs_run:
  "case uputs fd out w of Uok u t \<Rightarrow> \<exists>qs. ran w t qs \<and> bytes_out qs = out | Uwait t \<Rightarrow> answers t = [] | _ \<Rightarrow> False"
proof (induction out arbitrary: w)
  case (Cons c cs)
  show ?case
  proof (cases "answers w")
    case Nil
    then show ?thesis by (simp add: uputc_def sysv_def sys_def)
  next
    case (Cons r rs)
    let ?v = "w\<lparr>calls := calls w @ [SysWrite fd [c]], answers := rs\<rparr>"
    have e: "uputs fd (c # cs) w = uputs fd cs ?v" using Cons by (simp add: uputc_def sysv_def)
    have r: "ran w ?v [(SysWrite fd [c], r)]" using Cons by (simp add: ran_def)
    show ?thesis unfolding e
    proof (cases "uputs fd cs ?v")
      case (Uok u t)
      then obtain qs where "ran ?v t qs" "bytes_out qs = cs" using Cons.IH [of ?v] by auto
      then have "ran w t ([(SysWrite fd [c], r)] @ qs)" "bytes_out ([(SysWrite fd [c], r)] @ qs) = c # cs"
        using ran_trans [OF r] unfolding io_simps by auto
      then show "case uputs fd cs ?v of Uok u t \<Rightarrow> \<exists>qs. ran w t qs \<and> bytes_out qs = c # cs | Uwait t \<Rightarrow> answers t = [] | _ \<Rightarrow> False"
        unfolding Uok ures.case by blast
    qed (use Cons.IH [of ?v] in simp_all)
  qed
qed (auto intro: ran_refl exI [of _ "[]"])

lemma uprintf_run:
  "uformat fmt args = Some out \<Longrightarrow>
    case uprintf fmt args w of Uok u t \<Rightarrow> \<exists>qs. ran w t qs \<and> bytes_out qs = out | Uwait t \<Rightarrow> answers t = [] | _ \<Rightarrow> False"
  using uputs_run [where fd = 1 and out = out and w = w] by (simp add: uprintf_def vprintf_def)

lemma wc_loop_run:
  "counted xs k \<Longrightarrow> case wc_loop fd k w of
      Uok k' t \<Rightarrow> \<exists>ps r. ran w t (ps @ [(SysRead fd 512, r)]) \<and> rval r = 0 \<and> counted (xs @ bytes_in ps) k'
    | Uexit n t \<Rightarrow> n = 1 \<and> (\<exists>r \<in> set (answers w). rval r < 0)
    | Uwait t \<Rightarrow> answers t = []
    | Ufault e t \<Rightarrow> \<exists>r \<in> set (answers w). length (rbytes r) > 512
    | Udiverge \<Rightarrow> False"
proof (induction fd k w arbitrary: xs rule: wc_loop.induct)
  case (1 fd k w)
  show ?case
  proof (cases w rule: sys_cases [where c = "SysRead fd 512"])
    case wait
    then show ?thesis by (simp add: wc_loop.simps [of fd k w])
  next
    case (answer r rs)
    let ?v = "w\<lparr>calls := calls w @ [SysRead fd 512], answers := rs\<rparr>"
    consider (more) "0 < rval r" "\<not> length (rbytes r) > 512" | (big) "0 < rval r" "length (rbytes r) > 512" | (bad) "rval r < 0" | (eof) "rval r = 0"
      by linarith
    then show ?thesis
    proof cases
      case more
      let ?k = "fold wc_char (rbytes r) k"
      have e: "wc_loop fd k w = wc_loop fd ?k ?v" using more answer by (simp add: wc_loop.simps [of fd k w])
      note IH = "1.IH" [OF answer(2) more counted_fold [OF "1.prems", of "rbytes r"]]
      have s: "set (answers ?v) \<subseteq> set (answers w)" using answer(1) by auto
      show ?thesis unfolding e
      proof (cases "wc_loop fd ?k ?v")
        case (Uok k' t)
        then obtain ps r' where ps: "ran ?v t (ps @ [(SysRead fd 512, r')])" "rval r' = 0" "counted ((xs @ rbytes r) @ bytes_in ps) k'"
          using IH by auto
        have "ran w t (([(SysRead fd 512, r)] @ ps) @ [(SysRead fd 512, r')])" using ran_trans [OF ran_sys [OF answer(2)] ps(1)] by simp
        moreover have "counted (xs @ bytes_in ([(SysRead fd 512, r)] @ ps)) k'" unfolding io_simps using ps(3) more(1) by simp
        ultimately have "\<exists>ps r. ran w t (ps @ [(SysRead fd 512, r)]) \<and> rval r = 0 \<and> counted (xs @ bytes_in ps) k'" using ps(2) by blast
        then show "case wc_loop fd ?k ?v of
            Uok k' t \<Rightarrow> \<exists>ps r. ran w t (ps @ [(SysRead fd 512, r)]) \<and> rval r = 0 \<and> counted (xs @ bytes_in ps) k'
          | Uexit n t \<Rightarrow> n = 1 \<and> (\<exists>r \<in> set (answers w). rval r < 0)
          | Uwait t \<Rightarrow> answers t = []
          | Ufault e t \<Rightarrow> \<exists>r \<in> set (answers w). length (rbytes r) > 512
          | Udiverge \<Rightarrow> False" unfolding Uok ures.case .
      qed (use IH s in auto)
    next
      case big
      then show ?thesis using answer by (simp add: wc_loop.simps [of fd k w])
    next
      case bad
      have "uformat (cstr ''wc: read error'' @ [10]) [] = Some (cstr ''wc: read error'' @ [10])" by code_simp
      from uprintf_run [OF this, of ?v]
      show ?thesis using bad answer by (auto simp: wc_loop.simps [of fd k w] uexit_def split: ures.splits)
    next
      case eof
      then show ?thesis using answer "1.prems" ran_sys [OF answer(2)] by (auto simp: wc_loop.simps [of fd k w] intro!: exI [of _ "[]"])
    qed
  qed
qed

text \<open>
  C39. \<open>wc\<close> counts its input. However the kernel splits the input over the reads, a run that returns has ended with a read
  that got nothing, and then prints the number of newlines, the number of positions where a word starts and the number of bytes of
  all it has read, as \<open>int\<close>s, and the name: the counters that go through the input byte by byte agree with the
  declarative counts, words that span two reads included. It exits with 1 only when a read fails, and overruns its buffer only when a
  read returns more than was asked for.
\<close>

theorem wc_counts:
  "case wc fd name w of
      Uok _ t \<Rightarrow> \<exists>ps r qs. ran w t (ps @ [(SysRead fd 512, r)] @ qs) \<and> rval r = 0 \<and> bytes_out qs = summary (bytes_in ps) name
    | Uexit n t \<Rightarrow> n = 1 \<and> (\<exists>r \<in> set (answers w). rval r < 0)
    | Uwait t \<Rightarrow> answers t = []
    | Ufault e t \<Rightarrow> \<exists>r \<in> set (answers w). length (rbytes r) > 512
    | Udiverge \<Rightarrow> False"
proof -
  note L = wc_loop_run [OF counted_0, where fd = fd and w = w]
  show ?thesis
  proof (cases "wc_loop fd \<lparr>nl = 0, nw = 0, nc = 0, inword = False\<rparr> w")
    case (Uok k v)
    then obtain ps r where ps: "ran w v (ps @ [(SysRead fd 512, r)])" "rval r = 0" and c: "counted (bytes_in ps) k" using L by auto
    have e: "wc fd name w = uprintf (cstr ''%d %d %d %s'' @ [10]) [UNum (nl k), UNum (nw k), UNum (nc k), UStr (Some name)] v"
      by (simp add: wc_def Uok)
    have "uformat (cstr ''%d %d %d %s'' @ [10]) [UNum (nl k), UNum (nw k), UNum (nc k), UStr (Some name)] = Some (summary (bytes_in ps) name)"
      using c by (simp add: cstr_def summary_def counted_def s32_s32)
    from uprintf_run [OF this, of v] have P: "case wc fd name w of Uok u t \<Rightarrow> \<exists>qs. ran v t qs \<and> bytes_out qs = summary (bytes_in ps) name | Uwait t \<Rightarrow> answers t = [] | _ \<Rightarrow> False"
      unfolding e .
    show ?thesis
    proof (cases "wc fd name w")
      case (Uok u t)
      then obtain qs where qs: "ran v t qs" "bytes_out qs = summary (bytes_in ps) name" using P by auto
      have "ran w t (ps @ [(SysRead fd 512, r)] @ qs)" using ran_trans [OF ps(1) qs(1)] by simp
      with ps(2) qs(2) show ?thesis unfolding Uok ures.case by blast
    qed (use P in simp_all)
  qed (use L in \<open>simp_all add: wc_def\<close>)
qed

section \<open>\<open>init\<close> keeps a shell running\<close>

text \<open>
  What \<open>init\<close> should do, as a machine that reads its calls with their answers. Without a shell it may print and forks; with a
  shell it waits, and is without a shell again as soon as the process that has ended is the shell.
\<close>

fun supervises :: "int option \<Rightarrow> (scall \<times> sret) list \<Rightarrow> bool" where
  "supervises x [] = True"
| "supervises x ((c, r) # ps) =
     (case x of
        None \<Rightarrow> (case c of SysWrite fd d \<Rightarrow> fd = 1 \<and> supervises None ps
                 | SysFork \<Rightarrow> supervises (Some (rval r)) ps
                 | _ \<Rightarrow> False)
      | Some sh \<Rightarrow> c = SysWait \<and> supervises (if rval r = sh then None else Some sh) ps)"

text \<open>\<open>waits x w res\<close>: the program that is at \<open>w\<close>, with shell \<open>x\<close>, behaves like the machine until it waits in its last call.\<close>

definition waits :: "int option \<Rightarrow> 'z world_scheme \<Rightarrow> ('z world_scheme, unit) ures \<Rightarrow> bool" where
  "waits x w res \<longleftrightarrow> (\<exists>t ps c. res = Uwait t \<and> answers t = [] \<and> answers w = map snd ps \<and> calls t = calls w @ map fst ps @ [c] \<and>
     supervises x ps)"

lemma waits_end: "answers w = [] \<Longrightarrow> waits x w (Uwait (w\<lparr>calls := calls w @ [c]\<rparr>))"
  by (auto simp: waits_def)

lemma waits_step:
  assumes "answers w = r # rs" and "\<And>ps. supervises y ps \<Longrightarrow> supervises x ((c, r) # ps)"
    and "waits y (w\<lparr>calls := calls w @ [c], answers := rs\<rparr>) res"
  shows "waits x w res"
proof -
  from assms(3) obtain t ps c' where "res = Uwait t" "answers t = []" "rs = map snd ps" "calls t = calls w @ [c] @ map fst ps @ [c']"
    "supervises y ps" by (auto simp: waits_def)
  then show ?thesis using assms(1,2) unfolding waits_def by (intro exI [of _ t] exI [of _ "(c, r) # ps"] exI [of _ c']) simp
qed

lemma waits_puts:
  assumes "\<And>v. length (answers v) \<le> length (answers w) \<Longrightarrow> set (answers v) \<subseteq> set (answers w) \<Longrightarrow> waits None v (f () v)"
  shows "waits None w (bindu (uputs 1 out w) f)"
  using assms
proof (induction out arbitrary: w)
  case (Cons c cs)
  show ?case
  proof (cases "answers w")
    case Nil
    then show ?thesis using waits_end [OF Nil] by (simp add: uputc_def sysv_def sys_def)
  next
    case (Cons r rs)
    let ?v = "w\<lparr>calls := calls w @ [SysWrite 1 [c]], answers := rs\<rparr>"
    have e: "uputs 1 (c # cs) w = uputs 1 cs ?v" using Cons by (simp add: uputc_def sysv_def)
    have "waits None v (f () v)" if "length (answers v) \<le> length (answers ?v)" "set (answers v) \<subseteq> set (answers ?v)" for v
      using Cons.prems [of v] that Cons by auto
    from Cons.IH [of ?v, OF this] show ?thesis unfolding e by (intro waits_step [OF Cons, where y = None]) simp_all
  qed
qed simp

lemma waits_init_wait:
  assumes "\<forall>r \<in> set (answers w). rval r > 0" "0 < sh"
    and "\<And>v. length (answers v) < length (answers w) \<Longrightarrow> set (answers v) \<subseteq> set (answers w) \<Longrightarrow> waits None v (f () v)"
  shows "waits (Some sh) w (bindu (init_wait sh w) f)"
  using assms
proof (induction sh w rule: init_wait.induct)
  case (1 sh w)
  show ?case
  proof (cases "answers w")
    case Nil
    then show ?thesis using waits_end [OF Nil] by (simp add: init_wait.simps [of sh w] sysv_def sys_def)
  next
    case (Cons r rs)
    let ?v = "w\<lparr>calls := calls w @ [SysWait], answers := rs\<rparr>"
    have s: "sysv SysWait w = Uok (rval r) ?v" using Cons by (simp add: sysv_def)
    have r: "0 < rval r" "\<forall>r \<in> set (answers ?v). rval r > 0" using Cons "1.prems"(1) by auto
    have k: "waits None v (f () v)" if "length (answers v) \<le> length (answers ?v)" "set (answers v) \<subseteq> set (answers ?v)" for v
      using "1.prems"(3) [of v] that Cons by auto
    show ?thesis
    proof (cases "rval r = sh")
      case True
      then show ?thesis using k [of ?v] by (intro waits_step [OF Cons, where y = None]) (simp_all add: init_wait.simps [of sh w] s)
    next
      case False
      have "waits (Some sh) ?v (bindu (init_wait sh ?v) f)" using r False k "1.prems"(2) by (intro "1.IH" [OF s]) auto
      then show ?thesis using False r by (intro waits_step [OF Cons, where y = "Some sh"]) (simp_all add: init_wait.simps [of sh w] s)
    qed
  qed
qed

lemma waits_init_loop:
  fixes w :: "'z world_scheme"
  shows "\<forall>r \<in> set (answers w). rval r > 0 \<Longrightarrow> waits None w (init_loop w)"
proof (induction "length (answers w)" arbitrary: w rule: less_induct)
  case less
  have p: "uprintf (cstr ''init: starting sh'' @ [10]) [] = uputs 1 (cstr ''init: starting sh'' @ [10])"
    by (rule ext) (simp add: uprintf_def vprintf_def cstr_def)
  have "waits None v (bindu (sysv SysFork v) (\<lambda>sh w.
     if sh < 0 then bindu (uprintf (cstr ''init: fork failed'' @ [10]) [] w) (\<lambda>_ w. uexit 1 w)
     else if sh = 0
          then bindu (sysv (SysExec (cstr ''sh'') sh_argv) w) (\<lambda>_ w.
               bindu (uprintf (cstr ''init: exec sh failed'' @ [10]) [] w) (\<lambda>_ w. uexit 1 w))
          else bindu (init_wait sh w) (\<lambda>_ w. init_loop w)))"
    if v: "length (answers v) \<le> length (answers w)" "set (answers v) \<subseteq> set (answers w)" for v :: "'z world_scheme"
  proof (cases "answers v")
    case Nil
    then show ?thesis using waits_end [OF Nil] by (simp add: sysv_def sys_def)
  next
    case (Cons r rs)
    let ?u = "v\<lparr>calls := calls v @ [SysFork], answers := rs\<rparr>"
    have s: "sysv SysFork v = Uok (rval r) ?u" using Cons by (simp add: sysv_def)
    have r: "0 < rval r" "\<forall>r \<in> set (answers ?u). rval r > 0" using Cons v(2) less.prems by auto
    have "waits (Some (rval r)) ?u (bindu (init_wait (rval r) ?u) (\<lambda>_ w. init_loop w))"
    proof (rule waits_init_wait [OF r(2,1)])
      fix u :: "'z world_scheme"
      assume u: "length (answers u) < length (answers ?u)" "set (answers u) \<subseteq> set (answers ?u)"
      show "waits None u (init_loop u)" by (rule less.hyps) (use u v Cons r in auto)
    qed
    then show ?thesis using r by (intro waits_step [OF Cons, where y = "Some (rval r)"]) (simp_all add: s)
  qed
  then show ?case unfolding init_loop.simps [of w] p by (rule waits_puts)
qed

text \<open>
  C40. \<open>init\<close> never ends, and always has a shell. When the console opens, the three descriptors are set up and the calls of
  \<open>fork\<close>, \<open>wait\<close> and \<open>write\<close> after that succeed, then \<open>init\<close> uses up every answer the kernel gives and waits in its next call,
  however many there are: it does not exit, which the kernel would answer with a panic, nor fault or diverge. Whenever the
  process that \<open>wait\<close> returns is the shell it starts a new one next, and it never starts a second one beside it.
\<close>

theorem init_never_exits:
  assumes "answers w = r0 # r1 # r2 # rs" and "0 \<le> rval r0" and "\<forall>r \<in> set rs. 0 < rval r"
  shows "\<exists>t ps c. init_main w = Uwait t \<and> answers t = [] \<and> rs = map snd ps \<and> supervises None ps \<and>
    calls t = calls w @ [SysOpen (cstr ''console'') O_RDWR, SysDup 0, SysDup 0] @ map fst ps @ [c]"
proof -
  let ?v = "w\<lparr>calls := calls w @ [SysOpen (cstr ''console'') O_RDWR, SysDup 0, SysDup 0], answers := rs\<rparr>"
  have e: "init_main w = init_loop ?v" using assms by (simp add: init_main_def sysv_def)
  have "waits None ?v (init_loop ?v)" using assms(3) by (intro waits_init_loop) simp
  then obtain t ps c where "init_loop ?v = Uwait t" "answers t = []" "rs = map snd ps" "supervises None ps"
    "calls t = calls w @ [SysOpen (cstr ''console'') O_RDWR, SysDup 0, SysDup 0] @ map fst ps @ [c]"
    by (auto simp: waits_def)
  then show ?thesis unfolding e by blast
qed

text \<open>A run in which \<open>wait\<close> first reports a process that \<open>init\<close> has inherited, then the shell.\<close>

definition two_shells :: world where
  "two_shells = \<lparr>answers = map (\<lambda>v. \<lparr>rval = v, rbytes = []\<rparr>) ([0, 1, 2] @ replicate 18 1 @ [4, 9, 4] @ replicate 18 1 @ [5]), calls = [],
     mallocs = 0\<rparr>"

theorem init_never_exits_witness:
  "\<exists>t ps c. init_main two_shells = Uwait t \<and> answers t = [] \<and> drop 3 (answers two_shells) = map snd ps \<and> supervises None ps \<and>
    calls t = calls two_shells @ [SysOpen (cstr ''console'') O_RDWR, SysDup 0, SysDup 0] @ map fst ps @ [c]"
  by (rule init_never_exits [of two_shells "\<lparr>rval = 0, rbytes = []\<rparr>" "\<lparr>rval = 1, rbytes = []\<rparr>" "\<lparr>rval = 2, rbytes = []\<rparr>"])
    (simp_all add: two_shells_def)

end
