(* ===== verification/Bcache.thy ===== *)
theory Bcache
  imports Bio
begin

text \<open>
  What the buffer cache promises. A state of the cache is described by block numbers alone: how often each block is
  referenced, which blocks the running process has locked, and what the contents of each block is, as the cached copy
  where there is one and as the medium has it otherwise. \<open>bread\<close>, \<open>bwrite\<close>, \<open>brelse\<close>, \<open>bpin\<close> and \<open>bunpin\<close> are operations on
  this description.
\<close>

section \<open>The list of buffers\<close>

lemma blink_push: "blink b h = lst_push bhead (int b) h"
  by (simp add: blink_def lst_push_def)

lemma bunlink_remove: "bunlink b h = lst_remove (int b) h"
  by (simp add: bunlink_def lst_remove_def Let_def)

definition lru :: "lheap \<Rightarrow> bool" where
  "lru h \<longleftrightarrow> (\<exists>xs. dlist h bhead (map int xs) \<and> set xs = {..<NBUF})"

lemma lruE:
  assumes "lru h"
  obtains xs where "dlist h bhead (map int xs)" "set xs = {..<NBUF}" "distinct xs" "length xs = NBUF"
proof -
  from assms obtain xs where x: "dlist h bhead (map int xs)" "set xs = {..<NBUF}" by (auto simp: lru_def)
  then have "distinct xs" by (auto simp: dlist_def distinct_map)
  with x show ?thesis using distinct_card [of xs] by (intro that [of xs]) auto
qed

lemma lru_touch:
  assumes "lru h" and "b < NBUF"
  shows "lru (blink b (bunlink b h))"
proof -
  obtain xs where xs: "dlist h bhead (map int xs)" "set xs = {..<NBUF}" "distinct xs" by (rule lruE [OF assms(1)])
  have "b \<in> set xs" using xs(2) assms(2) by simp
  then obtain as bs where sp: "xs = as @ b # bs" by (auto simp: in_set_conv_decomp)
  then have "dlist (lst_remove (int b) h) bhead (map int as @ map int bs)"
    using dlist_remove [of h bhead "map int as" "int b" "map int bs"] xs(1) by simp
  then have "dlist (lst_push bhead (int b) (lst_remove (int b) h)) bhead (map int (b # as @ bs))"
    using dlist_push [of "lst_remove (int b) h" bhead "map int as @ map int bs" "int b"] assms(2) xs(3) sp
    by (simp add: image_iff)
  moreover have "set (b # as @ bs) = {..<NBUF}" using xs(2) sp by auto
  ultimately show ?thesis unfolding blink_push bunlink_remove lru_def by blast
qed

lemma bget_find_seg:
  assumes "dseg (blist s) a (map int xs) bhead" and "set xs \<subseteq> {..<NBUF}" and "length xs < n"
  shows "bget_find n (lnext (blist s) a) dev bno s = Ok (find (\<lambda>b. bdev (bufs s b) = dev \<and> blockno (bufs s b) = bno) xs) s"
  using assms
proof (induction xs arbitrary: a n)
  case Nil
  then show ?case by (cases n) auto
next
  case (Cons x xs)
  then obtain m where "n = Suc m" by (cases n) auto
  with Cons show ?case by auto
qed

lemma bget_unused_seg:
  assumes "dseg (blist s) bhead (map int xs) b" and "set xs \<subseteq> {..<NBUF}" and "length xs < n"
  shows "bget_unused n (lprev (blist s) b) s = Ok (find (\<lambda>b. refcnt (bufs s b) = 0) (rev xs)) s"
  using assms
proof (induction xs arbitrary: b n rule: rev_induct)
  case Nil
  then show ?case by (cases n) auto
next
  case (snoc x xs)
  then obtain m where "n = Suc m" by (cases n) auto
  with snoc show ?case by (auto simp: dseg_append)
qed

lemma find_cases: "case find P xs of None \<Rightarrow> \<forall>x \<in> set xs. \<not> P x | Some x \<Rightarrow> x \<in> set xs \<and> P x"
  by (induction xs) (auto split: option.splits)

lemma lru_find:
  assumes "lru (blist s)"
  obtains r where "bget_find (NBUF + 1) (lnext (blist s) bhead) dev bno s = Ok r s"
    "case r of None \<Rightarrow> \<forall>b < NBUF. \<not> (bdev (bufs s b) = dev \<and> blockno (bufs s b) = bno)
     | Some b \<Rightarrow> b < NBUF \<and> bdev (bufs s b) = dev \<and> blockno (bufs s b) = bno"
proof -
  obtain xs where xs: "dlist (blist s) bhead (map int xs)" "set xs = {..<NBUF}" "length xs = NBUF" by (rule lruE [OF assms])
  let ?r = "find (\<lambda>b. bdev (bufs s b) = dev \<and> blockno (bufs s b) = bno) xs"
  have "bget_find (NBUF + 1) (lnext (blist s) bhead) dev bno s = Ok ?r s"
    by (rule bget_find_seg) (use xs in \<open>auto simp: dlist_def\<close>)
  moreover have "case ?r of None \<Rightarrow> \<forall>b < NBUF. \<not> (bdev (bufs s b) = dev \<and> blockno (bufs s b) = bno)
     | Some b \<Rightarrow> b < NBUF \<and> bdev (bufs s b) = dev \<and> blockno (bufs s b) = bno"
    using find_cases [where P = "\<lambda>b. bdev (bufs s b) = dev \<and> blockno (bufs s b) = bno" and xs = xs] xs(2) by (auto split: option.splits)
  ultimately show ?thesis by (rule that)
qed

lemma lru_unused:
  assumes "lru (blist s)"
  obtains r where "bget_unused (NBUF + 1) (lprev (blist s) bhead) s = Ok r s"
    "case r of None \<Rightarrow> \<forall>b < NBUF. refcnt (bufs s b) \<noteq> 0 | Some b \<Rightarrow> b < NBUF \<and> refcnt (bufs s b) = 0"
proof -
  obtain xs where xs: "dlist (blist s) bhead (map int xs)" "set xs = {..<NBUF}" "length xs = NBUF" by (rule lruE [OF assms])
  let ?r = "find (\<lambda>b. refcnt (bufs s b) = 0) (rev xs)"
  have "bget_unused (NBUF + 1) (lprev (blist s) bhead) s = Ok ?r s"
    by (rule bget_unused_seg) (use xs in \<open>auto simp: dlist_def\<close>)
  moreover have "case ?r of None \<Rightarrow> \<forall>b < NBUF. refcnt (bufs s b) \<noteq> 0 | Some b \<Rightarrow> b < NBUF \<and> refcnt (bufs s b) = 0"
    using find_cases [where P = "\<lambda>b. refcnt (bufs s b) = 0" and xs = "rev xs"] xs(2) by (auto split: option.splits)
  ultimately show ?thesis by (rule that)
qed

section \<open>The table of buffers\<close>

text \<open>
  The description of the cache for one device \<open>d\<close>: \<open>R n\<close> counts the references to block \<open>n\<close>, \<open>H\<close> has the blocks whose
  buffers are locked, by the process with pid \<open>pd\<close>, \<open>C n\<close> is the current contents of block \<open>n\<close> and \<open>M n\<close> what the medium
  has. A block without references is clean: its contents are those of the medium, and its buffer may be recycled.
\<close>

definition bufof :: "nat \<Rightarrow> (nat \<Rightarrow> buf) \<Rightarrow> nat \<Rightarrow> nat \<Rightarrow> bool" where
  "bufof d B b n \<longleftrightarrow> b < NBUF \<and> bdev (B b) = d \<and> blockno (B b) = n"

definition btab :: "int \<Rightarrow> nat \<Rightarrow> (nat \<Rightarrow> nat) \<Rightarrow> nat set \<Rightarrow> (nat \<Rightarrow> u8 list) \<Rightarrow> (nat \<Rightarrow> u8 list) \<Rightarrow>
    (nat \<Rightarrow> buf) \<Rightarrow> (nat \<Rightarrow> sleeplock) \<Rightarrow> bool" where
  "btab pd d R H C M B L \<longleftrightarrow>
     (\<forall>b < NBUF. \<not> bdisk (B b) \<and> length (bdata (B b)) = BSIZE \<and> bvalid (B b) = (bdev (B b) = d) \<and>
        (bdev (B b) \<noteq> d \<longrightarrow> refcnt (B b) = 0 \<and> \<not> sl_locked (L b))) \<and>
     (\<forall>b n. bufof d B b n \<longrightarrow> refcnt (B b) = R n \<and> bdata (B b) = C n \<and> sl_locked (L b) = (n \<in> H) \<and>
        (n \<in> H \<longrightarrow> sl_pid (L b) = pd)) \<and>
     (\<forall>b b' n. bufof d B b n \<longrightarrow> bufof d B b' n \<longrightarrow> b = b') \<and>
     (\<forall>n. 0 < R n \<longrightarrow> (\<exists>b. bufof d B b n)) \<and>
     (\<forall>n. R n = 0 \<longrightarrow> C n = M n \<and> n \<notin> H) \<and> (\<forall>n. R n < 2 ^ 32)"

lemma btabD:
  assumes "btab pd d R H C M B L"
  shows "b < NBUF \<Longrightarrow> \<not> bdisk (B b)" "b < NBUF \<Longrightarrow> length (bdata (B b)) = BSIZE" "b < NBUF \<Longrightarrow> bvalid (B b) = (bdev (B b) = d)"
    "b < NBUF \<Longrightarrow> bdev (B b) \<noteq> d \<Longrightarrow> refcnt (B b) = 0" "b < NBUF \<Longrightarrow> bdev (B b) \<noteq> d \<Longrightarrow> \<not> sl_locked (L b)"
    "bufof d B b n \<Longrightarrow> refcnt (B b) = R n" "bufof d B b n \<Longrightarrow> bdata (B b) = C n" "bufof d B b n \<Longrightarrow> sl_locked (L b) = (n \<in> H)"
    "bufof d B b n \<Longrightarrow> n \<in> H \<Longrightarrow> sl_pid (L b) = pd" "bufof d B b n \<Longrightarrow> bufof d B b' n \<Longrightarrow> b = b'"
    "0 < R n \<Longrightarrow> \<exists>b. bufof d B b n" "R n = 0 \<Longrightarrow> C n = M n" "R n = 0 \<Longrightarrow> n \<notin> H" "R n < 2 ^ 32"
    "n \<in> H \<Longrightarrow> 0 < R n" "\<not> (\<exists>b. bufof d B b n) \<Longrightarrow> R n = 0"
  using assms unfolding btab_def by blast+

lemma btab_unused_unlocked:
  "btab pd d R H C M B L \<Longrightarrow> b < NBUF \<Longrightarrow> refcnt (B b) = 0 \<Longrightarrow> \<not> sl_locked (L b)"
  using btabD(5) [of pd d R H C M B L b] btabD(6,8) [of pd d R H C M B L b "blockno (B b)"] btabD(13) [of pd d R H C M B L "blockno (B b)"]
  by (cases "bdev (B b) = d") (auto simp: bufof_def)

lemma bufof_upd:
  assumes "bufof d B b n" and "bdev x = bdev (B b)" and "blockno x = blockno (B b)"
  shows "bufof d (B(b := x)) b' k = bufof d B b' k"
  using assms by (auto simp: bufof_def)

lemma btab_ref:
  assumes t: "btab pd d R H C M B L" and b: "bufof d B b n" and r: "r < 2 ^ 32"
    and H: "H' = H \<or> H' = insert n H \<or> H' = H - {n}" and z: "r = 0 \<Longrightarrow> C n = M n \<and> n \<notin> H'"
    and l: "sl_locked l = (n \<in> H')" "n \<in> H' \<Longrightarrow> sl_pid l = pd"
  shows "btab pd d (R(n := r)) H' C M (B(b := (B b)\<lparr>refcnt := r\<rparr>)) (L(b := l))"
proof -
  let ?B = "B(b := (B b)\<lparr>refcnt := r\<rparr>)"
  note D = btabD [OF t]
  have u: "bufof d ?B b' k = bufof d B b' k" for b' k by (rule bufof_upd [OF b]) simp_all
  have bn: "k = n \<longleftrightarrow> b' = b" if "bufof d B b' k" for b' k
    using D(10) [OF b, of b'] that b by (auto simp: bufof_def)
  have bd: "bdev (B b) = d" "blockno (B b) = n" "b < NBUF" using b by (auto simp: bufof_def)
  show ?thesis unfolding btab_def u
  proof (intro conjI allI impI)
    fix b' k assume k: "bufof d B b' k"
    show "refcnt (?B b') = (R(n := r)) k" using bn [OF k] D(6) [OF k] by auto
    show "bdata (?B b') = C k" using D(7) [OF k] by auto
    show "sl_locked ((L(b := l)) b') = (k \<in> H')" using bn [OF k] D(8) [OF k] H l by auto
    show "sl_pid ((L(b := l)) b') = pd" if "k \<in> H'" using bn [OF k] D(9) [OF k] H l that by auto
  next
    fix b' assume b': "b' < NBUF"
    show "\<not> bdisk (?B b')" "length (bdata (?B b')) = BSIZE" "bvalid (?B b') = (bdev (?B b') = d)"
      using D(1-3) [OF b'] by auto
    assume "bdev (?B b') \<noteq> d"
    then have "b' \<noteq> b" "bdev (B b') \<noteq> d" using bd by (auto split: if_splits)
    then show "refcnt (?B b') = 0" "\<not> sl_locked ((L(b := l)) b')" using D(4,5) [OF b'] by simp_all
  next
    fix b1 b2 k assume "bufof d B b1 k" "bufof d B b2 k"
    then show "b1 = b2" by (rule D(10))
  next
    fix k assume "0 < (R(n := r)) k"
    then show "\<exists>b. bufof d B b k" using D(11) [of k] b by (cases "k = n") auto
  next
    fix k assume k: "(R(n := r)) k = 0"
    show "C k = M k" "k \<notin> H'" using D(12,13) [of k] k z H by (cases "k = n"; auto)+
  next
    fix k show "(R(n := r)) k < 2 ^ 32" using D(14) [of k] r by simp
  qed
qed

lemma btab_modify:
  assumes t: "btab pd d R H C M B L" and b: "bufof d B b n" and n: "0 < R n" and v: "length v = BSIZE"
  shows "btab pd d R H (C(n := v)) M (B(b := (B b)\<lparr>bdata := v\<rparr>)) L"
proof -
  let ?B = "B(b := (B b)\<lparr>bdata := v\<rparr>)"
  note D = btabD [OF t]
  have u: "bufof d ?B b' k = bufof d B b' k" for b' k by (rule bufof_upd [OF b]) simp_all
  have bn: "k = n \<longleftrightarrow> b' = b" if "bufof d B b' k" for b' k
    using D(10) [OF b, of b'] that b by (auto simp: bufof_def)
  show ?thesis unfolding btab_def u
  proof (intro conjI allI impI)
    fix b' k assume k: "bufof d B b' k"
    show "bdata (?B b') = (C(n := v)) k" using bn [OF k] D(7) [OF k] by auto
    show "refcnt (?B b') = R k" using D(6) [OF k] by auto
    show "sl_locked (L b') = (k \<in> H)" by (rule D(8) [OF k])
    show "k \<in> H \<Longrightarrow> sl_pid (L b') = pd" by (rule D(9) [OF k])
  next
    fix b' assume b': "b' < NBUF"
    show "\<not> bdisk (?B b')" "length (bdata (?B b')) = BSIZE" "bvalid (?B b') = (bdev (?B b') = d)"
      using D(1-3) [OF b'] v by auto
    assume "bdev (?B b') \<noteq> d"
    then have "bdev (B b') \<noteq> d" by (auto split: if_splits)
    then show "refcnt (?B b') = 0" "\<not> sl_locked (L b')" using D(4,5) [OF b'] by auto
  next
    fix b1 b2 k assume "bufof d B b1 k" "bufof d B b2 k"
    then show "b1 = b2" by (rule D(10))
  next
    fix k assume k: "R k = 0"
    show "(C(n := v)) k = M k" "k \<notin> H" using D(12,13) [OF k] k n by auto
  qed (use D(11,14) in auto)
qed

lemma btab_written:
  assumes t: "btab pd d R H C M B L"
  shows "btab pd d R H C (M(n := C n)) B L"
  using t unfolding btab_def by (auto split: if_splits)

lemma btab_recycle:
  assumes t: "btab pd d R H C M B L" and b: "b < NBUF" "refcnt (B b) = 0" and n: "\<not> (\<exists>b. bufof d B b n)"
    and x: "bdev x = d" "blockno x = n" "bvalid x" "refcnt x = 1" "bdata x = M n" "\<not> bdisk x" "length (M n) = BSIZE"
    and l: "sl_locked l" "sl_pid l = pd"
  shows "btab pd d (R(n := 1)) (insert n H) C M (B(b := x)) (L(b := l))"
proof -
  let ?B = "B(b := x)"
  note D = btabD [OF t]
  have z: "R n = 0" using D(16) n by blast
  have u: "bufof d ?B b' k \<longleftrightarrow> (if b' = b then k = n else bufof d B b' k)" for b' k
    using b x by (auto simp: bufof_def)
  have o: "b' \<noteq> b" if "bufof d B b' k" "0 < R k" for b' k
    using D(6) [OF that(1)] that(2) b(2) by auto
  show ?thesis unfolding btab_def
  proof (intro conjI allI impI)
    fix b' k assume k: "bufof d ?B b' k"
    have kn: "b' \<noteq> b \<Longrightarrow> k \<noteq> n" using k n by (auto simp: u)
    show "refcnt (?B b') = (R(n := 1)) k" using k kn D(6) x by (auto simp: u split: if_splits)
    show "bdata (?B b') = C k" using k D(7) x D(12) [OF z] by (auto simp: u split: if_splits)
    show "sl_locked ((L(b := l)) b') = (k \<in> insert n H)" using k kn D(8) l by (auto simp: u split: if_splits)
    show "k \<in> insert n H \<Longrightarrow> sl_pid ((L(b := l)) b') = pd" using k kn D(9) l by (auto simp: u split: if_splits)
  next
    fix b1 b2 k assume "bufof d ?B b1 k" "bufof d ?B b2 k"
    then show "b1 = b2" using n D(10) [of b1 k b2] by (auto simp: u split: if_splits)
  next
    fix k assume k: "0 < (R(n := 1)) k"
    show "\<exists>b. bufof d ?B b k"
    proof (cases "k = n")
      case False
      with k D(11) [of k] obtain b' where "bufof d B b' k" by auto
      with o [of b' k] k False have "bufof d ?B b' k" by (simp add: u)
      then show ?thesis ..
    qed (auto simp: u)
  next
    fix b' assume b': "b' < NBUF"
    show "\<not> bdisk (?B b')" "length (bdata (?B b')) = BSIZE" "bvalid (?B b') = (bdev (?B b') = d)"
      using D(1-3) [OF b'] x by auto
    assume "bdev (?B b') \<noteq> d"
    then have "b' \<noteq> b" "bdev (B b') \<noteq> d" using x by (auto split: if_splits)
    then show "refcnt (?B b') = 0" "\<not> sl_locked ((L(b := l)) b')" using D(4,5) [OF b'] by simp_all
  next
    fix k assume k: "(R(n := 1)) k = 0"
    show "C k = M k" "k \<notin> insert n H" using D(12,13) [of k] k by (cases "k = n"; auto)+
  next
    fix k show "(R(n := 1)) k < 2 ^ 32" using D(14) [of k] by simp
  qed
qed

text \<open>A block can be read as long as fewer than \<open>NBUF\<close> blocks are referenced.\<close>

lemma btab_room:
  assumes t: "btab pd d R H C M B L" and c: "card {n. 0 < R n} < NBUF"
  shows "\<exists>b < NBUF. refcnt (B b) = 0"
proof (rule ccontr)
  assume a: "\<not> ?thesis"
  note D = btabD [OF t]
  have f: "bufof d B b (blockno (B b))" if "b < NBUF" for b using that D(4) [OF that] a unfolding bufof_def by blast
  have "(\<lambda>b. blockno (B b)) ` {..<NBUF} \<subseteq> {n. 0 < R n}"
  proof clarsimp
    fix b assume b: "b < NBUF"
    then show "0 < R (blockno (B b))" using D(6) [OF f [OF b]] a by auto
  qed
  moreover have "inj_on (\<lambda>b. blockno (B b)) {..<NBUF}" by (rule inj_onI) (metis D(10) f lessThan_iff)
  moreover have "finite {n. 0 < R n}"
  proof (rule finite_subset)
    show "{n. 0 < R n} \<subseteq> (\<lambda>b. blockno (B b)) ` {..<NBUF}"
    proof
      fix n assume "n \<in> {n. 0 < R n}"
      then obtain b where "bufof d B b n" using D(11) by blast
      then show "n \<in> (\<lambda>b. blockno (B b)) ` {..<NBUF}" by (auto simp: bufof_def)
    qed
  qed simp
  ultimately have "NBUF \<le> card {n. 0 < R n}" by (metis card_image card_lessThan card_mono)
  with c show False by simp
qed

section \<open>The operations\<close>

text \<open>
  \<open>bcache p d R H C s\<close>: process \<open>p\<close> runs undisturbed, no disk request is pending, and the cache is as described.
  \<open>bstep\<close> is what every operation leaves alone: all but the cache, the disk and the process table, and there all but
  sleeping processes that have been woken; a buffer with references keeps its block.
\<close>

definition bcache :: "nat \<Rightarrow> nat \<Rightarrow> (nat \<Rightarrow> nat) \<Rightarrow> nat set \<Rightarrow> (nat \<Rightarrow> u8 list) \<Rightarrow> 'z kbio_scheme \<Rightarrow> bool" where
  "bcache p d R H C s \<longleftrightarrow> quiet p s \<and> vidle s \<and> device_ok (device s) \<and> lru (blist s) \<and> (\<forall>i. length (sectors s i) = 512) \<and>
     btab (pid (procs s p)) d R H C (dblock s) (bufs s) (\<lambda>b. slocks s (SlBuf b))"

definition bframe :: "'z kbio_scheme \<Rightarrow> 'z kbio_scheme \<Rightarrow> bool" where
  "bframe s t \<longleftrightarrow> t = s\<lparr>procs := procs t, slocks := slocks t, iolog := iolog t, bufs := bufs t, vq := vq t, vdisk := vdisk t,
     sectors := sectors t, dhist := dhist t, blist := blist t\<rparr>"

definition bstep :: "nat \<Rightarrow> nat \<Rightarrow> (nat \<Rightarrow> nat) \<Rightarrow> 'z kbio_scheme \<Rightarrow> 'z kbio_scheme \<Rightarrow> bool" where
  "bstep p d R s t \<longleftrightarrow> bframe s t \<and> eased p (procs s) (procs t) \<and>
     (\<forall>b n. 0 < R n \<longrightarrow> bufof d (bufs s) b n \<longrightarrow> bufof d (bufs t) b n)"

lemma bframe_refl [simp, intro]: "bframe s s"
  by (simp add: bframe_def)

lemma bframe_trans: "bframe s t \<Longrightarrow> bframe t u \<Longrightarrow> bframe s u"
proof -
  assume a: "bframe s t" "bframe t u"
  have "u = (s\<lparr>procs := procs t, slocks := slocks t, iolog := iolog t, bufs := bufs t, vq := vq t, vdisk := vdisk t,
     sectors := sectors t, dhist := dhist t, blist := blist t\<rparr>)\<lparr>procs := procs u, slocks := slocks u, iolog := iolog u,
     bufs := bufs u, vq := vq u, vdisk := vdisk u, sectors := sectors u, dhist := dhist u, blist := blist u\<rparr>"
    using a unfolding bframe_def by metis
  also have "\<dots> = s\<lparr>procs := procs u, slocks := slocks u, iolog := iolog u,
     bufs := bufs u, vq := vq u, vdisk := vdisk u, sectors := sectors u, dhist := dhist u, blist := blist u\<rparr>"
    by (rule kbio.equality) simp_all
  finally show "bframe s u" unfolding bframe_def .
qed

lemma bframe_more: "bframe s t \<Longrightarrow> kbio.more t = kbio.more s"
  unfolding bframe_def by (erule ssubst) simp

lemma bframe_spin: "bframe s t \<Longrightarrow> spin t = spin s \<and> device t = device s"
  unfolding bframe_def by (erule ssubst) simp

lemma bstep_refl [simp, intro]: "bstep p d R s s"
  by (simp add: bstep_def)

lemma bstep_trans:
  assumes "bstep p d R s t" and "bstep p d R' t u" and "\<And>n. 0 < R n \<Longrightarrow> 0 < R' n"
  shows "bstep p d R s u"
  using assms eased_trans [of p "procs s" "procs t" "procs u"] bframe_trans [of s t u] unfolding bstep_def by blast

lemma bcacheD:
  assumes "bcache p d R H C s"
  shows "quiet p s" "vidle s" "device_ok (device s)" "lru (blist s)" "length (sectors s i) = 512"
    "btab (pid (procs s p)) d R H C (dblock s) (bufs s) (\<lambda>b. slocks s (SlBuf b))" "length (dblock s n) = BSIZE"
  using assms unfolding bcache_def by (simp_all add: dblock_def BSIZE_def)

lemma slbuf_upd: "(\<lambda>b. (L(SlBuf b' := x)) (SlBuf b)) = (\<lambda>b. L (SlBuf b))(b' := x)"
  by auto

lemma inc32_small: "n + 1 < 2 ^ 32 \<Longrightarrow> inc32 n = n + 1"
  by (simp add: inc32_def)

lemma dec32_small: "0 < n \<Longrightarrow> n < 2 ^ 32 \<Longrightarrow> dec32 n = n - 1"
proof -
  assume a: "0 < n" "n < 2 ^ 32"
  then have "n + 2 ^ 32 - 1 = (n - 1) + 2 ^ 32" by simp
  then have "dec32 n = (n - 1 + 2 ^ 32) mod 2 ^ 32" by (simp only: dec32_def)
  also have "\<dots> = n - 1" using a by (simp only: mod_add_self2) simp
  finally show ?thesis .
qed

lemma upd_order_blist [upd_order]:
  "s\<lparr>blist := y, spin := x0\<rparr> = s\<lparr>spin := x0, blist := y\<rparr>"
  "s\<lparr>blist := y, procs := x1\<rparr> = s\<lparr>procs := x1, blist := y\<rparr>"
  "s\<lparr>blist := y, slocks := x2\<rparr> = s\<lparr>slocks := x2, blist := y\<rparr>"
  "s\<lparr>blist := y, iolog := x3\<rparr> = s\<lparr>iolog := x3, blist := y\<rparr>"
  "s\<lparr>blist := y, bufs := x4\<rparr> = s\<lparr>bufs := x4, blist := y\<rparr>"
  by (rule kbio.equality; simp)+

text \<open>\<open>bget\<close>: the buffer of the block, or a recycled one.\<close>

abbreviation slock_by :: "nat \<Rightarrow> nat \<Rightarrow> 'z kslp_scheme \<Rightarrow> slid \<Rightarrow> sleeplock" where
  "slock_by p b s \<equiv> (slocks s)(SlBuf b := (slocks s (SlBuf b))\<lparr>sl_locked := True, sl_pid := pid (procs s p)\<rparr>)"

lemma bget_lock:
  assumes "quiet p s" and "\<not> sl_locked (slocks s (SlBuf b))"
  shows "bindr (rel LkBcache (s\<lparr>spin := taken LkBcache (spin s), bufs := B\<rparr>)) (\<lambda>_ s. bindr (acquiresleep (SlBuf b) s) (\<lambda>_ s. Ok b s)) =
    Ok b (s\<lparr>slocks := slock_by p b s, bufs := B\<rparr>)"
proof -
  note q = quiet_D [OF assms(1)]
  let ?t = "s\<lparr>spin := taken LkBcache (spin s), bufs := B\<rparr>" and ?u = "s\<lparr>bufs := B\<rparr>"
  have "rel LkBcache ?t = Ok () (?t\<lparr>spin := calm (spin s)\<rparr>)" by (rule rel_taken [OF _ q(7)]) simp
  moreover have "?t\<lparr>spin := calm (spin s)\<rparr> = ?u" by (rule kdsk.equality) (simp_all add: q(2))
  moreover have "quiet p ?u" using assms(1) quiet_cong [of ?u s p] by simp
  note quiet_acquiresleep [OF this, of "SlBuf b"]
  ultimately show ?thesis using assms(2) by (simp add: upd_order)
qed

lemma bget_ok:
  assumes c: "bcache p d R H C s" and n: "n \<notin> H" and room: "R n = 0 \<Longrightarrow> card {k. 0 < R k} < NBUF"
  obtains b where "bufof d (bufs s) b n"
      "bget d n s = Ok b (s\<lparr>slocks := slock_by p b s, bufs := (bufs s)(b := (bufs s b)\<lparr>refcnt := inc32 (refcnt (bufs s b))\<rparr>)\<rparr>)"
    | b where "\<not> (\<exists>b. bufof d (bufs s) b n)" "b < NBUF" "refcnt (bufs s b) = 0"
      "bget d n s = Ok b (s\<lparr>slocks := slock_by p b s,
         bufs := (bufs s)(b := (bufs s b)\<lparr>bdev := d, blockno := n, bvalid := False, refcnt := 1\<rparr>)\<rparr>)"
proof -
  note q = quiet_D [OF bcacheD(1) [OF c]] and T = btabD [OF bcacheD(6) [OF c]]
  let ?s = "s\<lparr>spin := taken LkBcache (spin s)\<rparr>"
  have a: "acq LkBcache s = Ok () ?s" by (rule acq_free [OF q(7)])
  obtain r where f: "bget_find (NBUF + 1) (lnext (blist ?s) bhead) d n ?s = Ok r ?s"
    "case r of None \<Rightarrow> \<forall>b < NBUF. \<not> (bdev (bufs ?s b) = d \<and> blockno (bufs ?s b) = n)
     | Some b \<Rightarrow> b < NBUF \<and> bdev (bufs ?s b) = d \<and> blockno (bufs ?s b) = n"
    by (rule lru_find [of ?s d n]) (use bcacheD(4) [OF c] in auto)
  show ?thesis
  proof (cases r)
    case (Some b)
    then have b: "bufof d (bufs s) b n" using f(2) by (simp add: bufof_def)
    then have l: "\<not> sl_locked (slocks s (SlBuf b))" using T(8) n by blast
    have "bget d n s = Ok b (s\<lparr>slocks := slock_by p b s, bufs := (bufs s)(b := (bufs s b)\<lparr>refcnt := inc32 (refcnt (bufs s b))\<rparr>)\<rparr>)"
      using a f(1) bget_lock [OF bcacheD(1) [OF c] l] by (simp add: bget_def Some upd_buf_def del: bget_find.simps)
    with b show ?thesis by (rule that(1))
  next
    case None
    then have nb: "\<not> (\<exists>b. bufof d (bufs s) b n)" using f(2) by (auto simp: bufof_def)
    obtain r' where u: "bget_unused (NBUF + 1) (lprev (blist ?s) bhead) ?s = Ok r' ?s"
      "case r' of None \<Rightarrow> \<forall>b < NBUF. refcnt (bufs ?s b) \<noteq> 0 | Some b \<Rightarrow> b < NBUF \<and> refcnt (bufs ?s b) = 0"
      by (rule lru_unused [of ?s]) (use bcacheD(4) [OF c] in auto)
    have "\<exists>b < NBUF. refcnt (bufs s b) = 0" by (rule btab_room [OF bcacheD(6) [OF c] room [OF T(16) [OF nb]]])
    then obtain b where b: "r' = Some b" "b < NBUF" "refcnt (bufs s b) = 0" using u(2) by (cases r') auto
    have l: "\<not> sl_locked (slocks s (SlBuf b))" using btab_unused_unlocked [OF bcacheD(6) [OF c] b(2,3)] .
    have "bget d n s = Ok b (s\<lparr>slocks := slock_by p b s,
         bufs := (bufs s)(b := (bufs s b)\<lparr>bdev := d, blockno := n, bvalid := False, refcnt := 1\<rparr>)\<rparr>)"
      using a f(1) u(1) bget_lock [OF bcacheD(1) [OF c] l] by (simp add: bget_def None b(1) upd_buf_def del: bget_find.simps bget_unused.simps)
    with nb b(2,3) show ?thesis by (rule that(2))
  qed
qed

lemma dblock_upd [simp]:
  "dblock (s\<lparr>spin := x0\<rparr>) = dblock s"
  "dblock (s\<lparr>procs := x1\<rparr>) = dblock s"
  "dblock (s\<lparr>slocks := x2\<rparr>) = dblock s"
  "dblock (s\<lparr>iolog := x3\<rparr>) = dblock s"
  "dblock (s\<lparr>bufs := x4\<rparr>) = dblock s"
  "dblock (s\<lparr>blist := x5\<rparr>) = dblock s"
  "dblock (s\<lparr>vq := x6\<rparr>) = dblock s"
  "dblock (s\<lparr>vdisk := x7\<rparr>) = dblock s"
  "dblock (s\<lparr>dhist := x8\<rparr>) = dblock s"
  by (simp_all add: dblock_def fun_eq_iff)

lemma vidle_upd [simp]:
  "vidle (s\<lparr>spin := x0\<rparr>) = vidle s"
  "vidle (s\<lparr>procs := x1\<rparr>) = vidle s"
  "vidle (s\<lparr>slocks := x2\<rparr>) = vidle s"
  "vidle (s\<lparr>iolog := x3\<rparr>) = vidle s"
  "vidle (s\<lparr>bufs := x4\<rparr>) = vidle s"
  "vidle (s\<lparr>blist := x5\<rparr>) = vidle s"
  "vidle (s\<lparr>sectors := x6\<rparr>) = vidle s"
  "vidle (s\<lparr>dhist := x7\<rparr>) = vidle s"
  by (simp_all add: vidle_def)

lemma bcacheI:
  assumes s: "bcache p d R H C s" and T: "btab (pid (procs s p)) d R' H' C' M B L"
    and e: "spin t = spin s" "eased p (procs s) (procs t)" and v: "vidle t" and dv: "device t = device s"
    and l: "lru (blist t)" and sec: "\<And>i. length (sectors t i) = 512"
    and M: "dblock t = M" "bufs t = B" "\<And>b. slocks t (SlBuf b) = L b"
  shows "bcache p d R' H' C' t"
  using bcacheD(1,3) [OF s] quiet_cong [OF e] v dv l sec T eased_self [OF e(2)] unfolding bcache_def M by simp

lemma virtio_read_done:
  assumes "quiet p s" and "vidle s" and "device_ok (device s)" and "\<not> bdisk (bufs s b)" and "blockno (bufs s b) < 2 ^ 31"
  obtains P L Q V where "eased p (procs s) P"
    "virtio_disk_rw b False s = Ok () (s\<lparr>procs := P, iolog := L, bufs := (bufs s)(b := (bufs s b)\<lparr>bdata := dblock s (blockno (bufs s b))\<rparr>),
       vq := Q, vdisk := V, sectors := sectors s, dhist := dhist s @ [sectors s]\<rparr>)"
    "\<forall>i < NUM. vfree V i" "avail_idx Q = used_i Q" "used_idx V = used_i Q"
  by (rule virtio_rw_done [OF assms, of False]) (erule that; simp)

text \<open>The medium when a block has been written.\<close>

definition dput :: "nat \<Rightarrow> u8 list \<Rightarrow> (nat \<Rightarrow> u8 list) \<Rightarrow> nat \<Rightarrow> u8 list" where
  "dput n v m = m(2 * n := take 512 v, Suc (2 * n) := drop 512 v)"

lemma virtio_write_done:
  assumes "quiet p s" and "vidle s" and "device_ok (device s)" and "\<not> bdisk (bufs s b)" and "blockno (bufs s b) < 2 ^ 31"
  obtains P L Q V where "eased p (procs s) P"
    "virtio_disk_rw b True s = Ok () (s\<lparr>procs := P, iolog := L, vq := Q, vdisk := V,
       sectors := dput (blockno (bufs s b)) (bdata (bufs s b)) (sectors s),
       dhist := dhist s @ [dput (blockno (bufs s b)) (bdata (bufs s b)) (sectors s)]\<rparr>)"
    "\<forall>i < NUM. vfree V i" "avail_idx Q = used_i Q" "used_idx V = used_i Q"
  by (rule virtio_rw_done [OF assms, of True]) (erule that; simp add: dput_def)

lemma bread_ok:
  assumes c: "bcache p d R H C s" and n: "n \<notin> H" "n < 2 ^ 31" "R n + 1 < 2 ^ 32"
    and room: "R n = 0 \<Longrightarrow> card {k. 0 < R k} < NBUF"
  obtains b t where "bread d n s = Ok b t" "bcache p d (R(n := R n + 1)) (insert n H) C t" "bufof d (bufs t) b n"
    "bstep p d R s t" "sectors t = sectors s" "dhist t = dhist s \<or> dhist t = dhist s @ [sectors s]"
proof -
  note D = bcacheD [OF c] note T = btabD [OF D(6)]
  consider b where "bufof d (bufs s) b n"
      "bget d n s = Ok b (s\<lparr>slocks := slock_by p b s, bufs := (bufs s)(b := (bufs s b)\<lparr>refcnt := inc32 (refcnt (bufs s b))\<rparr>)\<rparr>)"
    | b where "\<not> (\<exists>b. bufof d (bufs s) b n)" "b < NBUF" "refcnt (bufs s b) = 0"
      "bget d n s = Ok b (s\<lparr>slocks := slock_by p b s,
         bufs := (bufs s)(b := (bufs s b)\<lparr>bdev := d, blockno := n, bvalid := False, refcnt := 1\<rparr>)\<rparr>)"
    using bget_ok [OF c n(1) room] by blast
  then show ?thesis
  proof cases
    case 1
    let ?t = "s\<lparr>slocks := slock_by p b s, bufs := (bufs s)(b := (bufs s b)\<lparr>refcnt := R n + 1\<rparr>)\<rparr>"
    have i: "inc32 (refcnt (bufs s b)) = R n + 1" using T(6) [OF 1(1)] n(3) by (simp add: inc32_small)
    have bd: "b < NBUF" "bdev (bufs s b) = d" using 1(1) by (auto simp: bufof_def)
    have v: "bvalid (bufs s b)" using T(3) [OF bd(1)] bd(2) by simp
    have r: "bread d n s = Ok b ?t" using 1(2) i v by (simp add: bread_def)
    have u: "bufof d (bufs ?t) b' k = bufof d (bufs s) b' k" for b' k
      using bufof_upd [OF 1(1)] by simp
    have "btab (pid (procs s p)) d (R(n := R n + 1)) (insert n H) C (dblock s) ((bufs s)(b := (bufs s b)\<lparr>refcnt := R n + 1\<rparr>))
        ((\<lambda>b. slocks s (SlBuf b))(b := (slocks s (SlBuf b))\<lparr>sl_locked := True, sl_pid := pid (procs s p)\<rparr>))"
      by (rule btab_ref [OF D(6) 1(1)]) (use n(3) in auto)
    from bcacheI [OF c this, of ?t] have "bcache p d (R(n := R n + 1)) (insert n H) C ?t"
      using D(2,4,5) by (simp)
    moreover have "bstep p d R s ?t" unfolding bstep_def bframe_def u by simp
    ultimately show ?thesis using r 1(1) u by (intro that [of b ?t]) simp_all
  next
    case 2
    let ?u = "s\<lparr>slocks := slock_by p b s, bufs := (bufs s)(b := (bufs s b)\<lparr>bdev := d, blockno := n, bvalid := False, refcnt := 1\<rparr>)\<rparr>"
    have qu: "quiet p ?u" using D(1) quiet_cong [of ?u s p] by simp
    have "vidle ?u" "device_ok (device ?u)" "\<not> bdisk (bufs ?u b)" "blockno (bufs ?u b) < 2 ^ 31"
      using D(2,3) T(1) [OF 2(2)] n(2) by (simp_all)
    note virtio_read_done [OF qu this]
    then obtain P L Q V where e: "eased p (procs ?u) P" and w: "virtio_disk_rw b False ?u = Ok () (?u\<lparr>procs := P, iolog := L,
       bufs := (bufs ?u)(b := (bufs ?u b)\<lparr>bdata := dblock ?u (blockno (bufs ?u b))\<rparr>), vq := Q, vdisk := V,
       sectors := sectors ?u, dhist := dhist ?u @ [sectors ?u]\<rparr>)" (is "_ = Ok () ?w")
      and V: "\<forall>i < NUM. vfree V i" "avail_idx Q = used_i Q" "used_idx V = used_i Q" .
    let ?x = "(bufs s b)\<lparr>bdev := d, blockno := n, refcnt := 1, bdata := dblock s n, bvalid := True\<rparr>"
    let ?t = "s\<lparr>procs := P, slocks := slock_by p b s, iolog := L, bufs := (bufs s)(b := ?x), vq := Q, vdisk := V,
       sectors := sectors s, dhist := dhist s @ [sectors s]\<rparr>"
    have "bread d n s = Ok b (upd_buf b (\<lambda>x. x\<lparr>bvalid := True\<rparr>) ?w)" using 2(4) w by (simp add: bread_def)
    also have "upd_buf b (\<lambda>x. x\<lparr>bvalid := True\<rparr>) ?w = ?t"
      by (rule kbio.equality) (simp_all add: upd_buf_def dblock_def)
    finally have r: "bread d n s = Ok b ?t" .
    have o: "b' \<noteq> b" if "bufof d (bufs s) b' k" "0 < R k" for b' k
      using T(6) [OF that(1)] that(2) 2(3) by auto
    have z: "R n = 0" by (rule T(16) [OF 2(1)])
    have "btab (pid (procs s p)) d (R(n := 1)) (insert n H) C (dblock s) ((bufs s)(b := ?x))
        ((\<lambda>b. slocks s (SlBuf b))(b := (slocks s (SlBuf b))\<lparr>sl_locked := True, sl_pid := pid (procs s p)\<rparr>))"
      by (rule btab_recycle [OF D(6) 2(2,3,1)]) (use T(1) [OF 2(2)] D(7) in simp_all)
    moreover have "dblock ?t = dblock s" "vidle ?t" using V by (simp_all add: dblock_def vidle_def fun_eq_iff)
    ultimately have "bcache p d (R(n := 1)) (insert n H) C ?t"
      using e D(4,5) by (elim bcacheI [OF c]) simp_all
    then have "bcache p d (R(n := R n + 1)) (insert n H) C ?t" using z by simp
    moreover have "bstep p d R s ?t" unfolding bstep_def bframe_def using e o by (auto simp: bufof_def)
    ultimately show ?thesis using r 2(2) by (intro that [of b ?t]) (simp_all add: bufof_def)
  qed
qed

text \<open>Changing the bytes of a locked buffer.\<close>

lemma bmodify_ok:
  assumes c: "bcache p d R H C s" and b: "bufof d (bufs s) b n" "n \<in> H" and v: "length v = BSIZE"
  shows "bcache p d R H (C(n := v)) (s\<lparr>bufs := (bufs s)(b := (bufs s b)\<lparr>bdata := v\<rparr>)\<rparr>)"
    and "bstep p d R s (s\<lparr>bufs := (bufs s)(b := (bufs s b)\<lparr>bdata := v\<rparr>)\<rparr>)"
proof -
  note D = bcacheD [OF c] note T = btabD [OF D(6)]
  let ?t = "s\<lparr>bufs := (bufs s)(b := (bufs s b)\<lparr>bdata := v\<rparr>)\<rparr>"
  show "bcache p d R H (C(n := v)) ?t"
    by (rule bcacheI [OF c btab_modify [OF D(6) b(1) T(15) [OF b(2)] v]])
      (use D(2,4,5) in simp_all)
  show "bstep p d R s ?t" using bufof_upd [OF b(1)] by (simp add: bstep_def bframe_def)
qed

lemma dblock_dput: "sectors t = dput n v (sectors s) \<Longrightarrow> dblock t = (dblock s)(n := v)"
proof -
  have "2 * i \<noteq> Suc (2 * j)" "Suc (2 * j) \<noteq> 2 * i" for i j :: nat by presburger+
  moreover assume "sectors t = dput n v (sectors s)"
  ultimately show ?thesis by (auto simp: dblock_def dput_def fun_eq_iff)
qed

lemma bwrite_ok:
  assumes c: "bcache p d R H C s" and b: "bufof d (bufs s) b n" "n \<in> H" "n < 2 ^ 31"
  obtains t where "bwrite b s = Ok () t" "bcache p d R H C t" "bstep p d R s t" "sectors t = dput n (C n) (sectors s)"
    "dhist t = dhist s @ [sectors t]" "bufs t = bufs s"
proof -
  note D = bcacheD [OF c] note T = btabD [OF D(6)]
  have bd: "b < NBUF" "blockno (bufs s b) = n" using b(1) by (auto simp: bufof_def)
  have h: "holdingsleep (SlBuf b) s = Ok True s"
    using quiet_holdingsleep [OF D(1), of "SlBuf b"] T(8,9) [OF b(1)] b(2) by simp
  have "blockno (bufs s b) < 2 ^ 31" using bd(2) b(3) by simp
  note virtio_write_done [OF D(1-3) T(1) [OF bd(1)] this]
  then obtain P L Q V where e: "eased p (procs s) P" and w: "virtio_disk_rw b True s = Ok () (s\<lparr>procs := P, iolog := L, vq := Q, vdisk := V,
       sectors := dput (blockno (bufs s b)) (bdata (bufs s b)) (sectors s),
       dhist := dhist s @ [dput (blockno (bufs s b)) (bdata (bufs s b)) (sectors s)]\<rparr>)"
      and V: "\<forall>i < NUM. vfree V i" "avail_idx Q = used_i Q" "used_idx V = used_i Q" .
  let ?t = "s\<lparr>procs := P, iolog := L, vq := Q, vdisk := V, sectors := dput n (C n) (sectors s), dhist := dhist s @ [dput n (C n) (sectors s)]\<rparr>"
  have "bwrite b s = Ok () ?t" using h w T(7) [OF b(1)] bd(2) by (simp add: bwrite_def)
  moreover have "length (C n) = BSIZE" using T(2) [OF bd(1)] T(7) [OF b(1)] by simp
  then have "length (sectors ?t i) = 512" for i using D(5) by (simp add: dput_def BSIZE_def)
  then have "bcache p d R H C ?t"
    by (intro bcacheI [OF c btab_written [OF D(6), of n]]) (use D(4) V e in \<open>simp_all add: vidle_def dblock_dput [of _ n "C n" s]\<close>)
  moreover have "bstep p d R s ?t" using e by (simp add: bstep_def bframe_def)
  ultimately show ?thesis by (intro that [of ?t]) simp_all
qed

lemma brelse_ok:
  assumes c: "bcache p d R H C s" and b: "bufof d (bufs s) b n" "n \<in> H" and cl: "R n = 1 \<Longrightarrow> C n = dblock s n"
  obtains t where "brelse b s = Ok () t" "bcache p d (R(n := R n - 1)) (H - {n}) C t" "bstep p d R s t"
    "sectors t = sectors s" "dhist t = dhist s" "\<And>b n. bufof d (bufs t) b n = bufof d (bufs s) b n"
proof -
  note D = bcacheD [OF c] note T = btabD [OF D(6)] note q = quiet_D [OF D(1)]
  have bd: "b < NBUF" using b(1) by (auto simp: bufof_def)
  have r: "refcnt (bufs s b) = R n" "0 < R n" "R n < 2 ^ 32" using T(6) [OF b(1)] T(15) [OF b(2)] T(14) by auto
  define P where "P = woken (ChBufLock b) (Some p) {..<NPROC} (procs s)"
  define L where "L = (slocks s)(SlBuf b := (slocks s (SlBuf b))\<lparr>sl_locked := False, sl_pid := 0\<rparr>)"
  define B where "B = (bufs s)(b := (bufs s b)\<lparr>refcnt := R n - 1\<rparr>)"
  define h where "h = (if R n = 1 then blink b (bunlink b (blist s)) else blist s)"
  let ?u = "s\<lparr>procs := P, slocks := L\<rparr>" and ?t = "s\<lparr>procs := P, slocks := L, bufs := B, blist := h\<rparr>"
  have e: "eased p (procs s) P" unfolding P_def by (rule eased_woken)
  have 1: "holdingsleep (SlBuf b) s = Ok True s"
    using quiet_holdingsleep [OF D(1), of "SlBuf b"] T(8,9) [OF b(1)] b(2) by simp
  have 2: "releasesleep (SlBuf b) s = Ok () ?u"
    using quiet_releasesleep [OF D(1), of "SlBuf b"] by (simp add: P_def L_def)
  let ?f = "\<lambda>s. let s = upd_buf b (\<lambda>x. x\<lparr>refcnt := dec32 (refcnt x)\<rparr>) s in
            Ok () (if refcnt (bufs s b) = 0 then upd_blist (\<lambda>h. blink b (bunlink b h)) s else s)"
  have "?f (?u\<lparr>spin := taken LkBcache (spin ?u)\<rparr>) = Ok () (?t\<lparr>spin := taken LkBcache (spin ?u)\<rparr>)"
    using r by (simp add: Let_def upd_buf_def upd_blist_def dec32_small B_def h_def upd_order)
  moreover have "quiet p ?u" using D(1) quiet_cong [of ?u s p] e by simp
  ultimately have "locking LkBcache ?f ?u = Ok () ((?t\<lparr>spin := taken LkBcache (spin ?u)\<rparr>)\<lparr>spin := spin ?u\<rparr>)"
    by (intro quiet_section [of p]) simp_all
  then have "locking LkBcache ?f ?u = Ok () ?t" by simp
  with 1 2 have R: "brelse b s = Ok () ?t" by (simp add: brelse_def)
  have "btab (pid (procs s p)) d (R(n := R n - 1)) (H - {n}) C (dblock s) B
      ((\<lambda>b. slocks s (SlBuf b))(b := (slocks s (SlBuf b))\<lparr>sl_locked := False, sl_pid := 0\<rparr>))"
    unfolding B_def by (rule btab_ref [OF D(6) b(1)]) (use r cl in auto)
  moreover have "lru h" using lru_touch [OF D(4) bd] D(4) by (simp add: h_def)
  ultimately have "bcache p d (R(n := R n - 1)) (H - {n}) C ?t"
    using e D(2,5) by (elim bcacheI [OF c]) (simp_all add: L_def)
  moreover have u: "bufof d (bufs ?t) b' k = bufof d (bufs s) b' k" for b' k
    unfolding B_def using bufof_upd [OF b(1)] by simp
  moreover have "bstep p d R s ?t" unfolding bstep_def bframe_def using e u by simp
  ultimately show ?thesis using R by (intro that [of ?t]) simp_all
qed

lemma bref_section:
  assumes c: "bcache p d R H C s" and b: "bufof d (bufs s) b n" and r: "r < 2 ^ 32" and z: "r = 0 \<Longrightarrow> C n = dblock s n \<and> n \<notin> H"
    and g: "g (R n) = r"
  shows "locking LkBcache (\<lambda>s. Ok () (upd_buf b (\<lambda>x. x\<lparr>refcnt := g (refcnt x)\<rparr>) s)) s = Ok () (s\<lparr>bufs := (bufs s)(b := (bufs s b)\<lparr>refcnt := r\<rparr>)\<rparr>)"
    and "bcache p d (R(n := r)) H C (s\<lparr>bufs := (bufs s)(b := (bufs s b)\<lparr>refcnt := r\<rparr>)\<rparr>)" and "bstep p d R s (s\<lparr>bufs := (bufs s)(b := (bufs s b)\<lparr>refcnt := r\<rparr>)\<rparr>)"
proof -
  let ?t = "(s\<lparr>bufs := (bufs s)(b := (bufs s b)\<lparr>refcnt := r\<rparr>)\<rparr>)"
  note D = bcacheD [OF c] note T = btabD [OF D(6)]
  have "locking LkBcache (\<lambda>s. Ok () (upd_buf b (\<lambda>x. x\<lparr>refcnt := g (refcnt x)\<rparr>) s)) s = Ok () ((s\<lparr>spin := taken LkBcache (spin s), bufs := bufs ?t\<rparr>)\<lparr>spin := spin s\<rparr>)"
    by (rule quiet_section [OF D(1)]) (simp_all add: upd_buf_def T(6) [OF b] g)
  then show "locking LkBcache (\<lambda>s. Ok () (upd_buf b (\<lambda>x. x\<lparr>refcnt := g (refcnt x)\<rparr>) s)) s = Ok () ?t" by (simp add: upd_order)
  have u: "bufof d (bufs ?t) b' k = bufof d (bufs s) b' k" for b' k using bufof_upd [OF b] by simp
  have "btab (pid (procs s p)) d (R(n := r)) H C (dblock s) (bufs ?t)
      ((\<lambda>b. slocks s (SlBuf b))(b := slocks s (SlBuf b)))"
    using btab_ref [OF D(6) b r, of H "slocks s (SlBuf b)"] z T(8,9) [OF b] by simp
  from bcacheI [OF c this, of ?t] show "bcache p d (R(n := r)) H C ?t"
    using D(2,4,5) by (simp)
  show "bstep p d R s ?t" unfolding bstep_def bframe_def using u by simp
qed

lemma bunpin_ok:
  assumes c: "bcache p d R H C s" and b: "bufof d (bufs s) b n" and r: "0 < R n" "R n = 1 \<Longrightarrow> C n = dblock s n \<and> n \<notin> H"
  obtains t where "bunpin b s = Ok () t" "bcache p d (R(n := R n - 1)) H C t" "bstep p d R s t" "sectors t = sectors s"
    "dhist t = dhist s" "\<And>b n. bufof d (bufs t) b n = bufof d (bufs s) b n"
proof -
  note T = btabD [OF bcacheD(6) [OF c]]
  have a: "R n - 1 < 2 ^ 32" "dec32 (R n) = R n - 1" using T(14) [of n] r(1) by (simp_all add: dec32_small)
  have z: "R n - 1 = 0 \<Longrightarrow> C n = dblock s n \<and> n \<notin> H" using r by auto
  note B = bref_section [where g = dec32, OF c b a(1) z a(2)]
  show ?thesis by (rule that [OF _ B(2,3)]) (use B(1) bufof_upd [OF b] in \<open>simp_all add: bunpin_def\<close>)
qed

lemma bpin_ok:
  assumes c: "bcache p d R H C s" and b: "bufof d (bufs s) b n" and r: "R n + 1 < 2 ^ 32"
  obtains t where "bpin b s = Ok () t" "bcache p d (R(n := R n + 1)) H C t" "bstep p d R s t" "sectors t = sectors s"
    "dhist t = dhist s" "\<And>b n. bufof d (bufs t) b n = bufof d (bufs s) b n"
proof -
  have a: "inc32 (R n) = R n + 1" using r by (simp add: inc32_small)
  note B = bref_section [where g = inc32, OF c b r _ a]
  show ?thesis by (rule that [OF _ B(2,3)]) (use B(1) bufof_upd [OF b] in \<open>simp_all add: bpin_def\<close>)
qed

section \<open>Initialisation\<close>

lemma binit_loop_list:
  assumes "dlist (blist s) bhead (map int xs)" and "distinct (bs @ xs)" and "set bs \<subseteq> {..<NBUF}"
  shows "dlist (blist (binit_loop bs s)) bhead (map int (rev bs @ xs))"
  using assms
proof (induction bs arbitrary: s xs)
  case (Cons b bs)
  let ?s = "upd_blist (blink b) (initsleeplock (SlBuf b) ''buffer'' s)"
  have "blist ?s = lst_push bhead (int b) (blist s)"
    by (simp add: upd_blist_def blink_push initsleeplock_def set_slock_def initlk_def)
  then have "dlist (blist ?s) bhead (map int (b # xs))"
    using dlist_push [OF Cons.prems(1), of "int b"] Cons.prems(2,3) by (simp add: image_iff)
  from Cons.IH [OF this] Cons.prems(2,3) show ?case by simp
qed simp

lemma binit_lru: "lru (blist (binit s))"
proof -
  let ?s = "upd_blist (\<lambda>h. h\<lparr>lnext := (lnext h)(bhead := bhead)\<rparr>)
    (upd_blist (\<lambda>h. h\<lparr>lprev := (lprev h)(bhead := bhead)\<rparr>) (initlk LkBcache ''bcache'' s))"
  have "dlist (blist ?s) bhead (map int [])" by (simp add: dlist_def upd_blist_def)
  from binit_loop_list [OF this, of "[0..<NBUF]"]
  have "dlist (blist (binit s)) bhead (map int (rev [0..<NBUF]))" by (simp add: binit_def Let_def atLeast0LessThan)
  then show ?thesis unfolding lru_def by (intro exI [of _ "rev [0..<NBUF]"]) (auto simp: atLeast0LessThan)
qed

lemma bcache_start:
  assumes "quiet p s" "vidle s" "device_ok (device s)" "lru (blist s)" "\<And>i. length (sectors s i) = 512"
    and "\<And>b. b < NBUF \<Longrightarrow> \<not> bdisk (bufs s b) \<and> \<not> bvalid (bufs s b) \<and> bdev (bufs s b) \<noteq> d \<and> refcnt (bufs s b) = 0 \<and>
      length (bdata (bufs s b)) = BSIZE \<and> \<not> sl_locked (slocks s (SlBuf b))"
  shows "bcache p d (\<lambda>_. 0) {} (dblock s) s"
proof -
  have "\<not> bufof d (bufs s) b n" for b n using assms(6) [of b] by (auto simp: bufof_def)
  then show ?thesis unfolding bcache_def btab_def using assms by simp
qed

section \<open>The cache as a store of blocks\<close>

text \<open>
  The abstract store. A client may read a block that it has not locked, if fewer than \<open>NBUF\<close> blocks are in use or the
  block is; change, write and release a block it has locked; and drop a reference. Dropping the last reference to a block
  whose contents have not been written is an error of the client, as it would lose them.
\<close>

record astore =
  aref :: "nat \<Rightarrow> nat"
  aheld :: "nat set"
  adata :: "nat \<Rightarrow> u8 list"
  adisk :: "nat \<Rightarrow> u8 list"

datatype bop = Oread nat | Oset nat "u8 list" | Owrite nat | Orelse nat | Opin nat | Ounpin nat

fun aop :: "bop \<Rightarrow> astore \<Rightarrow> astore option" where
  "aop (Oread n) a =
     (if n \<notin> aheld a \<and> n < 2 ^ 31 \<and> aref a n + 1 < 2 ^ 32 \<and> (0 < aref a n \<or> card {k. 0 < aref a k} < NBUF)
      then Some (a\<lparr>aref := (aref a)(n := aref a n + 1), aheld := insert n (aheld a)\<rparr>) else None)"
| "aop (Oset n v) a = (if n \<in> aheld a \<and> length v = BSIZE then Some (a\<lparr>adata := (adata a)(n := v)\<rparr>) else None)"
| "aop (Owrite n) a = (if n \<in> aheld a \<and> n < 2 ^ 31 then Some (a\<lparr>adisk := (adisk a)(n := adata a n)\<rparr>) else None)"
| "aop (Orelse n) a =
     (if n \<in> aheld a \<and> (aref a n = 1 \<longrightarrow> adata a n = adisk a n)
      then Some (a\<lparr>aref := (aref a)(n := aref a n - 1), aheld := aheld a - {n}\<rparr>) else None)"
| "aop (Opin n) a =
     (if 0 < aref a n \<and> aref a n + 1 < 2 ^ 32 then Some (a\<lparr>aref := (aref a)(n := aref a n + 1)\<rparr>) else None)"
| "aop (Ounpin n) a =
     (if 1 < aref a n \<or> aref a n = 1 \<and> adata a n = adisk a n \<and> n \<notin> aheld a
      then Some (a\<lparr>aref := (aref a)(n := aref a n - 1)\<rparr>) else None)"

fun aops :: "bop list \<Rightarrow> astore \<Rightarrow> astore option" where
  "aops [] a = Some a"
| "aops (x # xs) a = (case aop x a of None \<Rightarrow> None | Some a' \<Rightarrow> aops xs a')"

text \<open>The same client on the cache; it has the buffer of a block from the \<open>bread\<close> that returned it.\<close>

definition with_buf :: "nat \<Rightarrow> nat \<Rightarrow> (nat \<Rightarrow> 'z kbio_scheme \<Rightarrow> ('z kbio_scheme, unit) res) \<Rightarrow> 'z kbio_scheme \<Rightarrow> ('z kbio_scheme, unit) res" where
  "with_buf d n f s =
     orfault ''no buffer'' (find (\<lambda>b. bdev (bufs s b) = d \<and> blockno (bufs s b) = n) [0..<NBUF]) (\<lambda>b. f b s)"

fun cop :: "nat \<Rightarrow> bop \<Rightarrow> 'z kbio_scheme \<Rightarrow> ('z kbio_scheme, unit) res" where
  "cop d (Oread n) s = bindr (bread d n s) (\<lambda>_ s. Ok () s)"
| "cop d (Oset n v) s = with_buf d n (\<lambda>b s. Ok () (upd_buf b (\<lambda>x. x\<lparr>bdata := v\<rparr>) s)) s"
| "cop d (Owrite n) s = with_buf d n bwrite s"
| "cop d (Orelse n) s = with_buf d n brelse s"
| "cop d (Opin n) s = with_buf d n bpin s"
| "cop d (Ounpin n) s = with_buf d n bunpin s"

fun cops :: "nat \<Rightarrow> bop list \<Rightarrow> 'z kbio_scheme \<Rightarrow> ('z kbio_scheme, unit) res" where
  "cops d [] s = Ok () s"
| "cops d (x # xs) s = bindr (cop d x s) (\<lambda>_ s. cops d xs s)"

definition bsim :: "nat \<Rightarrow> nat \<Rightarrow> astore \<Rightarrow> 'z kbio_scheme \<Rightarrow> bool" where
  "bsim p d a s \<longleftrightarrow> bcache p d (aref a) (aheld a) (adata a) s \<and> dblock s = adisk a"

lemma with_buf_of:
  assumes "bcache p d R H C s" and "bufof d (bufs s) b n"
  shows "with_buf d n f s = f b s"
proof -
  let ?P = "\<lambda>b. bdev (bufs s b) = d \<and> blockno (bufs s b) = n"
  have "find ?P [0..<NBUF] = Some b"
  proof (cases "find ?P [0..<NBUF]")
    case None
    then show ?thesis using assms(2) by (auto simp: find_None_iff bufof_def)
  next
    case (Some b')
    then have "bufof d (bufs s) b' n" using find_cases [where P = ?P and xs = "[0..<NBUF]"] by (auto simp: bufof_def)
    with Some btabD(10) [OF bcacheD(6) [OF assms(1)] assms(2)] show ?thesis by blast
  qed
  then show ?thesis by (simp add: with_buf_def)
qed

lemma cop_sim:
  assumes s: "bsim p d a s" and a: "aop x a = Some a'"
  obtains t where "cop d x s = Ok () t" "bsim p d a' t"
proof -
  have c: "bcache p d (aref a) (aheld a) (adata a) s" and m: "dblock s = adisk a" using s by (auto simp: bsim_def)
  note T = btabD [OF bcacheD(6) [OF c]]
  show ?thesis
  proof (cases x)
    case (Oread n)
    with a have g: "n \<notin> aheld a" "n < 2 ^ 31" "aref a n + 1 < 2 ^ 32" "aref a n = 0 \<Longrightarrow> card {k. 0 < aref a k} < NBUF"
      and a': "a' = a\<lparr>aref := (aref a)(n := aref a n + 1), aheld := insert n (aheld a)\<rparr>" by (auto split: if_splits)
    obtain b t where "bread d n s = Ok b t" "bcache p d ((aref a)(n := aref a n + 1)) (insert n (aheld a)) (adata a) t"
      "sectors t = sectors s" by (rule bread_ok [OF c g])
    then show ?thesis using m by (intro that [of t]) (simp_all add: bsim_def a' Oread dblock_def fun_eq_iff)
  next
    case (Oset n v)
    with a have g: "n \<in> aheld a" "length v = BSIZE" and a': "a' = a\<lparr>adata := (adata a)(n := v)\<rparr>" by (auto split: if_splits)
    obtain b where b: "bufof d (bufs s) b n" using T(11) [OF T(15) [OF g(1)]] ..
    show ?thesis
      by (rule that [of "s\<lparr>bufs := (bufs s)(b := (bufs s b)\<lparr>bdata := v\<rparr>)\<rparr>"])
        (use bmodify_ok(1) [OF c b g] m in \<open>simp_all add: bsim_def a' Oset with_buf_of [OF c b] upd_buf_def\<close>)
  next
    case (Owrite n)
    with a have g: "n \<in> aheld a" "n < 2 ^ 31" and a': "a' = a\<lparr>adisk := (adisk a)(n := adata a n)\<rparr>" by (auto split: if_splits)
    obtain b where b: "bufof d (bufs s) b n" using T(11) [OF T(15) [OF g(1)]] ..
    obtain t where "bwrite b s = Ok () t" "bcache p d (aref a) (aheld a) (adata a) t" "sectors t = dput n (adata a n) (sectors s)"
      by (rule bwrite_ok [OF c b g])
    then show ?thesis using m by (intro that [of t]) (simp_all add: bsim_def a' Owrite with_buf_of [OF c b] dblock_dput)
  next
    case (Orelse n)
    with a have g: "n \<in> aheld a" "aref a n = 1 \<Longrightarrow> adata a n = dblock s n"
      and a': "a' = a\<lparr>aref := (aref a)(n := aref a n - 1), aheld := aheld a - {n}\<rparr>" using m by (auto split: if_splits)
    obtain b where b: "bufof d (bufs s) b n" using T(11) [OF T(15) [OF g(1)]] ..
    obtain t where "brelse b s = Ok () t" "bcache p d ((aref a)(n := aref a n - 1)) (aheld a - {n}) (adata a) t"
      "sectors t = sectors s" by (rule brelse_ok [OF c b g])
    then show ?thesis using m
      by (intro that [of t]) (simp_all add: bsim_def a' Orelse with_buf_of [OF c b] dblock_def fun_eq_iff)
  next
    case (Opin n)
    with a have g: "0 < aref a n" "aref a n + 1 < 2 ^ 32" and a': "a' = a\<lparr>aref := (aref a)(n := aref a n + 1)\<rparr>" by (auto split: if_splits)
    obtain b where b: "bufof d (bufs s) b n" using T(11) [OF g(1)] ..
    obtain t where "bpin b s = Ok () t" "bcache p d ((aref a)(n := aref a n + 1)) (aheld a) (adata a) t" "sectors t = sectors s"
      by (rule bpin_ok [OF c b g(2)])
    then show ?thesis using m by (intro that [of t]) (simp_all add: bsim_def a' Opin with_buf_of [OF c b] dblock_def fun_eq_iff)
  next
    case (Ounpin n)
    with a have g: "0 < aref a n" "aref a n = 1 \<Longrightarrow> adata a n = dblock s n \<and> n \<notin> aheld a"
      and a': "a' = a\<lparr>aref := (aref a)(n := aref a n - 1)\<rparr>" using m by (auto split: if_splits)
    obtain b where b: "bufof d (bufs s) b n" using T(11) [OF g(1)] ..
    obtain t where "bunpin b s = Ok () t" "bcache p d ((aref a)(n := aref a n - 1)) (aheld a) (adata a) t" "sectors t = sectors s"
      by (rule bunpin_ok [OF c b g])
    then show ?thesis using m by (intro that [of t]) (simp_all add: bsim_def a' Ounpin with_buf_of [OF c b] dblock_def fun_eq_iff)
  qed
qed

lemma cops_sim:
  assumes "bsim p d a s" and "aops xs a = Some a'"
  shows "\<exists>t. cops d xs s = Ok () t \<and> bsim p d a' t"
  using assms
proof (induction xs arbitrary: a s)
  case (Cons x xs)
  then obtain a1 where a1: "aop x a = Some a1" "aops xs a1 = Some a'" by (auto split: option.splits)
  obtain t where "cop d x s = Ok () t" "bsim p d a1 t" by (rule cop_sim [OF Cons.prems(1) a1(1)])
  with Cons.IH [OF _ a1(2)] show ?case by simp
qed simp

text \<open>
  C12. The buffer cache refines a store of blocks. From a state of the machine that matches an abstract store, every
  sequence of reads, changes, writes, releases, pins and unpins that respects the rules of the store runs on the real
  cache to its end, without panic, fault or an endless loop over the list of buffers, and leaves a state that matches the
  store after the same sequence: each block's contents, its reference count, its lock and its bytes on the medium.
\<close>

theorem buffer_cache_refines:
  assumes "bsim p d a s" and "aops xs a = Some a'"
  shows "\<exists>t. cops d xs s = Ok () t \<and> bsim p d a' t"
  by (rule cops_sim [OF assms])

definition run_bio :: "buf \<Rightarrow> (nat \<Rightarrow> u8 list) \<Rightarrow> kbio" where
  "run_bio b m = kdsk.extend (run_disk b m) \<lparr>blist = blist (binit (kdsk.extend (run_disk b m) \<lparr>blist = \<lparr>lnext = (\<lambda>_. 0), lprev = (\<lambda>_. 0)\<rparr>\<rparr>))\<rparr>"

definition no_buf :: buf where
  "no_buf = \<lparr>bvalid = False, bdisk = False, bdev = 0, blockno = 0, refcnt = 0, bdata = replicate 1024 0\<rparr>"

lemma run_bio_fields:
  "spin (run_bio b m) = run_spin" "procs (run_bio b m) = (\<lambda>_. no_proc\<lparr>pstate := RUNNING, pid := 1\<rparr>)" "device (run_bio b m) = vserve"
  "bufs (run_bio b m) = (\<lambda>_. b)" "sectors (run_bio b m) = m" "slocks (run_bio b m) = (\<lambda>_. \<lparr>sl_locked = False, sl_name = [], sl_pid = 0\<rparr>)"
  "vq (run_bio b m) = vq (run_disk b m)" "vdisk (run_bio b m) = vdisk (run_disk b m)"
  "lru (blist (run_bio b m))"
  using binit_lru by (simp_all add: run_bio_def run_disk_def kdsk.defs)

lemma run_bio_cache:
  assumes "\<And>i. length (m i) = 512"
  shows "bcache 0 1 (\<lambda>_. 0) {} (dblock (run_bio no_buf m)) (run_bio no_buf m)"
proof (rule bcache_start)
  show "quiet 0 (run_bio no_buf m)"
    using run_disk_quiet(1) [of no_buf m] by (simp add: quiet_def calm_in_def run_bio_fields run_disk_def)
  show "vidle (run_bio no_buf m)"
    using run_disk_quiet(2) [of no_buf m] by (simp add: vidle_def run_bio_fields)
qed (simp_all add: run_bio_fields vserve_ok assms no_buf_def BSIZE_def)

theorem buffer_cache_refines_witness:
  "\<exists>t. cops 1 [Oread 7, Oset 7 (replicate 1024 9), Owrite 7, Orelse 7] (run_bio no_buf (\<lambda>_. replicate 512 5)) = Ok () t \<and>
     dblock t 7 = replicate 1024 9 \<and> dblock t 8 = replicate 1024 5"
proof -
  let ?s = "run_bio no_buf (\<lambda>_. replicate 512 5)"
  let ?a = "\<lparr>aref = (\<lambda>_. 0), aheld = {}, adata = dblock ?s, adisk = dblock ?s\<rparr>"
  let ?xs = "[Oread 7, Oset 7 (replicate 1024 9), Owrite 7, Orelse 7]"
  have "bsim 0 1 ?a ?s" using run_bio_cache [of "\<lambda>_. replicate 512 5"] by (simp add: bsim_def)
  moreover have "aops ?xs ?a = Some (?a\<lparr>aref := (\<lambda>_. 0)(7 := 0), adata := (dblock ?s)(7 := replicate 1024 9),
      adisk := (dblock ?s)(7 := replicate 1024 9)\<rparr>)" (is "_ = Some ?a'")
    by (simp add: BSIZE_def params)
  ultimately obtain t where "cops 1 ?xs ?s = Ok () t" "bsim 0 1 ?a' t" using buffer_cache_refines [of 0 1 ?a ?s ?xs ?a'] by blast
  moreover have "dblock ?s 8 = replicate 1024 5" by (simp add: dblock_def run_bio_fields replicate_add [symmetric])
  ultimately show ?thesis by (intro exI [of _ t]) (simp add: bsim_def)
qed

end
