(* ===== verification/Redo.thy ===== *)
theory Redo
  imports Log Bcache
begin

text \<open>
  Redo logging on a medium that can crash between and during the writes of its sectors. The locale \<open>redo_log\<close> states what
  the argument needs of a medium and of the log's header; the lemmas in it say what recovery makes of every state a crash
  can leave. The interpretation is the disk of 512-byte sectors with the header that \<open>kernel/log.c\<close> writes.
\<close>

section \<open>Crashes and replay\<close>

text \<open>
  \<open>wapply\<close> performs a sequence of block writes; \<open>crash\<close> has the states that a crash during the sequence can leave, given
  what a single interrupted write can leave. \<open>replay\<close> is what recovery makes of a medium: the logged blocks are installed at
  the block numbers in the header.
\<close>

fun wapply :: "(nat \<Rightarrow> 'b \<Rightarrow> 'm \<Rightarrow> 'm) \<Rightarrow> (nat \<times> 'b) list \<Rightarrow> 'm \<Rightarrow> 'm" where
  "wapply put [] m = m"
| "wapply put ((n, v) # ws) m = wapply put ws (put n v m)"

fun crash :: "('m \<Rightarrow> nat \<Rightarrow> 'b \<Rightarrow> 'm \<Rightarrow> bool) \<Rightarrow> (nat \<Rightarrow> 'b \<Rightarrow> 'm \<Rightarrow> 'm) \<Rightarrow> (nat \<times> 'b) list \<Rightarrow> 'm \<Rightarrow> 'm \<Rightarrow> bool" where
  "crash wr put [] m x \<longleftrightarrow> x = m"
| "crash wr put ((n, v) # ws) m x \<longleftrightarrow> wr m n v x \<or> crash wr put ws (put n v m) x"

definition replay :: "nat \<Rightarrow> nat list \<Rightarrow> (nat \<Rightarrow> 'b) \<Rightarrow> nat \<Rightarrow> 'b" where
  "replay start hs B k = (case map_of (zip hs (map (\<lambda>i. B (start + 1 + i)) [0..<length hs])) k of Some v \<Rightarrow> v | None \<Rightarrow> B k)"

definition area :: "nat \<Rightarrow> nat \<Rightarrow> nat set" where
  "area start n = {start..start + n}"

lemma wapply_append: "wapply put (ws @ ws') m = wapply put ws' (wapply put ws m)"
  by (induction ws arbitrary: m) auto

lemma crash_append: "crash wr put (ws @ ws') m x \<Longrightarrow> crash wr put ws m x \<or> crash wr put ws' (wapply put ws m) x"
  by (induction ws arbitrary: m) fastforce+

lemma crash_end: "crash wr put ws m (wapply put ws m)"
  by (induction ws arbitrary: m) auto

lemma replay_Nil [simp]: "replay start [] B = B"
  by (simp add: replay_def fun_eq_iff)

lemma replay_nth:
  assumes "distinct hs" and "i < length hs"
  shows "replay start hs B (hs ! i) = B (start + 1 + i)"
  using assms map_of_zip_nth [of hs "map (\<lambda>i. B (start + 1 + i)) [0..<length hs]" i] by (simp add: replay_def)

lemma replay_other: "k \<notin> set hs \<Longrightarrow> replay start hs B k = B k"
  by (auto simp: replay_def split: option.splits dest: map_of_SomeD set_zip_leftD)

locale redo_log =
  fixes blk :: "'m \<Rightarrow> nat \<Rightarrow> 'b" and wr :: "'m \<Rightarrow> nat \<Rightarrow> 'b \<Rightarrow> 'm \<Rightarrow> bool" and put :: "nat \<Rightarrow> 'b \<Rightarrow> 'm \<Rightarrow> 'm"
    and head :: "'m \<Rightarrow> nat list" and hof :: "'b \<Rightarrow> nat list" and start :: nat
  assumes blk_put: "blk (put n v m) k = (if k = n then v else blk m k)"
    and head_put: "head (put n v m) = (if n = start then hof v else head m)"
    and blk_wr: "wr m n v x \<Longrightarrow> k \<noteq> n \<Longrightarrow> blk x k = blk m k"
    and head_wr: "wr m n v x \<Longrightarrow> n \<noteq> start \<Longrightarrow> head x = head m"
    and head_wr_start: "wr m start v x \<Longrightarrow> head x = head m \<or> head x = hof v"
begin

lemma writes_elsewhere:
  assumes "crash wr put ws m x \<or> x = wapply put ws m" and "\<And>n v. (n, v) \<in> set ws \<Longrightarrow> n \<notin> K" and "k \<in> K"
  shows "blk x k = blk m k"
  using assms(1,2)
proof (induction ws arbitrary: m)
  case (Cons w ws)
  obtain n v where w: "w = (n, v)" by (cases w)
  then have n: "n \<noteq> k" using Cons.prems(2) [of n v] assms(3) by auto
  from Cons.prems(1) w consider "wr m n v x" | "crash wr put ws (put n v m) x \<or> x = wapply put ws (put n v m)" by auto
  then show ?case
  proof cases
    case 1
    then show ?thesis using blk_wr n by metis
  next
    case 2
    then have "blk x k = blk (put n v m) k" using Cons.prems(2) by (intro Cons.IH) auto
    with n show ?thesis by (simp add: blk_put)
  qed
qed auto

lemma head_writes_elsewhere:
  assumes "crash wr put ws m x \<or> x = wapply put ws m" and "\<And>n v. (n, v) \<in> set ws \<Longrightarrow> n \<noteq> start"
  shows "head x = head m"
  using assms
proof (induction ws arbitrary: m)
  case (Cons w ws)
  obtain n v where w: "w = (n, v)" by (cases w)
  then have n: "n \<noteq> start" using Cons.prems(2) [of n v] by auto
  from Cons.prems(1) w consider "wr m n v x" | "crash wr put ws (put n v m) x \<or> x = wapply put ws (put n v m)" by auto
  then show ?case
  proof cases
    case 1
    then show ?thesis using head_wr n by blast
  next
    case 2
    then have "head x = head (put n v m)" using Cons.prems(2) by (intro Cons.IH) auto
    with n show ?thesis by (simp add: head_put)
  qed
qed auto

lemma blk_wapply:
  "distinct (map fst ws) \<Longrightarrow> (n, v) \<in> set ws \<Longrightarrow> blk (wapply put ws m) n = v"
proof (induction ws arbitrary: m)
  case (Cons w ws)
  obtain k u where w: "w = (k, u)" by (cases w)
  show ?case
  proof (cases "(n, v) \<in> set ws")
    case False
    then have kn: "k = n" "u = v" using Cons.prems(2) w by auto
    have "blk (wapply put ws (put k u m)) n = blk (put k u m) n"
    proof (rule writes_elsewhere [where ws = ws and K = "{n}"])
      show "n' \<notin> {n}" if "(n', v') \<in> set ws" for n' v' using Cons.prems(1) w kn that by force
    qed simp_all
    then show ?thesis using w kn by (simp add: blk_put)
  qed (use Cons w in auto)
qed simp

text \<open>
  \<open>sealed h D m\<close>: the header names the blocks \<open>h\<close> and the log has their contents \<open>D\<close>. Every crash while the blocks are
  being installed and the header is cleared leaves a medium that replays to the same.
\<close>

definition sealed :: "nat list \<Rightarrow> (nat \<Rightarrow> 'b) \<Rightarrow> (nat \<Rightarrow> 'b) \<Rightarrow> 'm \<Rightarrow> bool" where
  "sealed h D A m \<longleftrightarrow> head m = h \<and> (\<forall>i < length h. blk m (start + 1 + i) = D (h ! i)) \<and>
     (\<forall>k. k \<notin> set h \<longrightarrow> k \<notin> area start (length h) \<longrightarrow> blk m k = A k)"

definition goal :: "nat list \<Rightarrow> (nat \<Rightarrow> 'b) \<Rightarrow> (nat \<Rightarrow> 'b) \<Rightarrow> nat \<Rightarrow> 'b" where
  "goal h D A k = (if k \<in> set h then D k else A k)"

lemma sealed_replay:
  assumes "sealed h D A m" and "distinct h" and "k \<notin> area start (length h)"
  shows "replay start (head m) (blk m) k = goal h D A k"
proof (cases "k \<in> set h")
  case True
  then obtain i where i: "i < length h" "k = h ! i" by (auto simp: in_set_conv_nth)
  with assms show ?thesis using replay_nth [OF assms(2) i(1), of start "blk m"] by (simp add: sealed_def goal_def)
next
  case False
  with assms show ?thesis by (simp add: sealed_def goal_def replay_other)
qed

lemma install_crash:
  assumes s: "sealed h D A m" and h: "distinct h" "set h \<inter> area start (length h) = {}" and v0: "hof v0 = []"
    and x: "crash wr put (map (\<lambda>k. (k, D k)) h @ [(start, v0)]) m x" and k: "k \<notin> area start (length h)"
  shows "replay start (head x) (blk x) k = goal h D A k"
proof -
  let ?ws = "map (\<lambda>k. (k, D k)) h" let ?m = "wapply put ?ws m"
  have st: "start \<notin> set h" using h(2) by (auto simp: area_def)
  have keep: "sealed h D A y" if y: "crash wr put ?ws m y \<or> y = ?m" for y
  proof -
    have "head y = head m" by (rule head_writes_elsewhere [OF y]) (use st in auto)
    moreover have "blk y j = blk m j" if "j \<notin> set h" for j
      by (rule writes_elsewhere [OF y, where K = "{j}"]) (use that in auto)
    moreover have "start + 1 + i \<notin> set h" if "i < length h" for i
    proof -
      have "start + 1 + i \<in> area start (length h)" using that by (simp add: area_def)
      with h(2) show ?thesis by blast
    qed
    ultimately show ?thesis using s by (simp add: sealed_def)
  qed
  have inst: "blk ?m j = goal h D A j" if "j \<notin> area start (length h)" for j
  proof (cases "j \<in> set h")
    case True
    then show ?thesis using h(1) by (subst blk_wapply [where v = "D j"]) (auto simp: goal_def o_def)
  next
    case False
    then show ?thesis using keep [of ?m] that by (simp add: sealed_def goal_def)
  qed
  from crash_append [OF x] consider "crash wr put ?ws m x" | "wr ?m start v0 x" | "x = put start v0 ?m" by auto
  then show ?thesis
  proof cases
    case 1
    then show ?thesis using sealed_replay [OF keep h(1) k] by blast
  next
    case 2
    have b: "blk x j = blk ?m j" if "j \<noteq> start" for j by (rule blk_wr [OF 2 that])
    from head_wr_start [OF 2] v0 consider "head x = head ?m" | "head x = []" by auto
    then show ?thesis
    proof cases
      case 1
      have "sealed h D A x" using keep [of ?m] 1 b by (auto simp: sealed_def area_def)
      then show ?thesis by (rule sealed_replay [OF _ h(1) k])
    next
      case 2
      have "k \<noteq> start" using k by (auto simp: area_def)
      with 2 show ?thesis using b [of k] inst [OF k] by simp
    qed
  next
    case 3
    have "k \<noteq> start" using k by (auto simp: area_def)
    with 3 show ?thesis using inst [OF k] v0 by (simp add: head_put blk_put)
  qed
qed

lemma install_done:
  assumes s: "sealed h D A m" and h: "distinct h" "set h \<inter> area start (length h) = {}" and v0: "hof v0 = []"
    and k: "k \<notin> area start (length h)"
  shows "blk (wapply put (map (\<lambda>k. (k, D k)) h @ [(start, v0)]) m) k = goal h D A k"
    and "head (wapply put (map (\<lambda>k. (k, D k)) h @ [(start, v0)]) m) = []"
proof -
  show hd: "head (wapply put (map (\<lambda>k. (k, D k)) h @ [(start, v0)]) m) = []" by (simp add: wapply_append head_put v0)
  show "blk (wapply put (map (\<lambda>k. (k, D k)) h @ [(start, v0)]) m) k = goal h D A k"
    using install_crash [OF s h v0 crash_end k] hd by simp
qed

text \<open>The whole commit, from a medium whose header is empty.\<close>

lemma commit_crash:
  assumes e: "head m = []" and h: "distinct h" "set h \<inter> area start (length h) = {}" and v: "hof v1 = h" "hof v0 = []"
    and x: "crash wr put (map (\<lambda>i. (start + 1 + i, D (h ! i))) [0..<length h] @ (start, v1) # map (\<lambda>k. (k, D k)) h @ [(start, v0)]) m x"
  shows "(\<forall>k. k \<notin> area start (length h) \<longrightarrow> replay start (head x) (blk x) k = blk m k) \<or>
    (\<forall>k. k \<notin> area start (length h) \<longrightarrow> replay start (head x) (blk x) k = goal h D (blk m) k)"
proof -
  let ?ws = "map (\<lambda>i. (start + 1 + i, D (h ! i))) [0..<length h]" let ?m = "wapply put ?ws m"
  have old: "head y = [] \<and> (\<forall>k. k \<notin> area start (length h) \<longrightarrow> blk y k = blk m k)" if y: "crash wr put ?ws m y \<or> y = ?m" for y
  proof -
    have "head y = head m" by (rule head_writes_elsewhere [OF y]) auto
    moreover have "blk y k = blk m k" if "k \<notin> area start (length h)" for k
      by (rule writes_elsewhere [OF y, where K = "{k}"]) (use that in \<open>auto simp: area_def\<close>)
    ultimately show ?thesis using e by simp
  qed
  have lg: "blk ?m (start + 1 + i) = D (h ! i)" if "i < length h" for i
  proof (rule blk_wapply)
    show "distinct (map fst ?ws)" by (simp add: o_def distinct_map inj_on_def)
  qed (use that in auto)
  have sl: "sealed h D (blk m) (put start v1 ?m)"
    using lg old [of ?m] v(1) unfolding sealed_def by (auto simp: head_put blk_put area_def)
  from crash_append [OF x] consider "crash wr put ?ws m x" | "wr ?m start v1 x"
    | "crash wr put (map (\<lambda>k. (k, D k)) h @ [(start, v0)]) (put start v1 ?m) x" by auto
  then show ?thesis
  proof cases
    case 1
    with old [of x] show ?thesis by simp
  next
    case 2
    have b: "blk x j = blk ?m j" if "j \<noteq> start" for j by (rule blk_wr [OF 2 that])
    from head_wr_start [OF 2] consider "head x = []" | "head x = h" using old [of ?m] v(1) by auto
    then show ?thesis
    proof cases
      case 1
      have "blk x k = blk m k" if "k \<notin> area start (length h)" for k
        using b [of k] old [of ?m] that by (auto simp: area_def)
      with 1 show ?thesis by simp
    next
      case 2
      have "sealed h D (blk m) x" unfolding sealed_def
      proof (intro conjI allI impI)
        fix k assume "k \<notin> area start (length h)"
        then show "blk x k = blk m k" using b [of k] old [of ?m] by (auto simp: area_def)
      qed (use 2 b lg in auto)
      then show ?thesis using sealed_replay [OF _ h(1)] by blast
    qed
  next
    case 3
    show ?thesis using install_crash [OF sl h v(2) 3] by blast
  qed
qed

lemma commit_done:
  assumes e: "head m = []" and h: "distinct h" "set h \<inter> area start (length h) = {}" and v: "hof v1 = h" "hof v0 = []"
    and k: "k \<notin> area start (length h)"
  shows "blk (wapply put (map (\<lambda>i. (start + 1 + i, D (h ! i))) [0..<length h] @ (start, v1) # map (\<lambda>k. (k, D k)) h @ [(start, v0)]) m) k =
      goal h D (blk m) k"
    and "head (wapply put (map (\<lambda>i. (start + 1 + i, D (h ! i))) [0..<length h] @ (start, v1) # map (\<lambda>k. (k, D k)) h @ [(start, v0)]) m) = []"
proof -
  let ?ws = "map (\<lambda>i. (start + 1 + i, D (h ! i))) [0..<length h]" let ?m = "wapply put ?ws m"
  have b: "blk ?m k = blk m k" if "k \<notin> area start (length h)" for k
    by (rule writes_elsewhere [where ws = ?ws and K = "{k}"]) (use that in \<open>auto simp: area_def\<close>)
  have lg: "blk ?m (start + 1 + i) = D (h ! i)" if "i < length h" for i
  proof (rule blk_wapply)
    show "distinct (map fst ?ws)" by (simp add: o_def distinct_map inj_on_def)
  qed (use that in auto)
  have sl: "sealed h D (blk m) (put start v1 ?m)"
    using lg b v(1) unfolding sealed_def by (auto simp: head_put blk_put area_def)
  note R = install_done [OF sl h v(2)]
  show "blk (wapply put (?ws @ (start, v1) # map (\<lambda>k. (k, D k)) h @ [(start, v0)]) m) k = goal h D (blk m) k"
    "head (wapply put (?ws @ (start, v1) # map (\<lambda>k. (k, D k)) h @ [(start, v0)]) m) = []"
    using R [OF k] by (simp_all add: wapply_append)
qed

end

section \<open>The disk\<close>

text \<open>
  A block is two sectors. The device writes each sector as a whole; a crash during a request leaves any of the two
  sectors old or new. The log's header fits into the first sector of its block.
\<close>

definition dblk :: "(nat \<Rightarrow> u8 list) \<Rightarrow> nat \<Rightarrow> u8 list" where
  "dblk m n = m (2 * n) @ m (Suc (2 * n))"

definition torn :: "(nat \<Rightarrow> u8 list) \<Rightarrow> (nat \<Rightarrow> u8 list) \<Rightarrow> (nat \<Rightarrow> u8 list) \<Rightarrow> bool" where
  "torn m m' x \<longleftrightarrow> (\<forall>i. x i = m i \<or> x i = m' i)"

definition lhead :: "u8 list \<Rightarrow> nat list" where
  "lhead d = map (\<lambda>i. u32_of (lh_get_block i d)) [0..<nat (lh_get_n d)]"

definition loghead :: "nat \<Rightarrow> (nat \<Rightarrow> u8 list) \<Rightarrow> nat list" where
  "loghead st m = lhead (m (2 * st))"

lemma dblock_dblk: "dblock s = dblk (sectors s)"
  by (simp add: dblock_def dblk_def fun_eq_iff)

lemma even_odd [simp]: "2 * (i :: nat) \<noteq> Suc (2 * j)" "Suc (2 * j) \<noteq> 2 * i"
  by presburger+

interpretation jl: redo_log dblk "\<lambda>m n v. torn m (dput n v m)" dput "loghead st" "\<lambda>v. lhead (take 512 v)" st for st
proof
  fix m n v x k
  assume t: "torn m (dput n v m) x"
  show "k \<noteq> n \<Longrightarrow> dblk x k = dblk m k"
    using t [unfolded torn_def, THEN spec, of "2 * k"] t [unfolded torn_def, THEN spec, of "Suc (2 * k)"] by (auto simp: dblk_def dput_def)
  show "n \<noteq> st \<Longrightarrow> loghead st x = loghead st m"
    using t [unfolded torn_def, THEN spec, of "2 * st"] by (auto simp: loghead_def dput_def)
next
  fix m v x assume t: "torn m (dput st v m) x"
  show "loghead st x = loghead st m \<or> loghead st x = lhead (take 512 v)"
    using t [unfolded torn_def, THEN spec, of "2 * st"] by (auto simp: loghead_def dput_def)
qed (auto simp: dblk_def dput_def loghead_def)

text \<open>
  The history that the disk driver records: a medium per request, the same as before where the request was a read.
  \<open>hcrash\<close> has the states that a crash can leave, before, during and after any of the requests.
\<close>

fun hcrash :: "(nat \<Rightarrow> u8 list) \<Rightarrow> (nat \<Rightarrow> u8 list) list \<Rightarrow> (nat \<Rightarrow> u8 list) \<Rightarrow> bool" where
  "hcrash m [] x \<longleftrightarrow> x = m"
| "hcrash m (m' # hs) x \<longleftrightarrow> torn m m' x \<or> hcrash m' hs x"

inductive wtrace :: "(nat \<Rightarrow> u8 list) \<Rightarrow> (nat \<times> u8 list) list \<Rightarrow> (nat \<Rightarrow> u8 list) list \<Rightarrow> bool" where
  none: "wtrace m [] []"
| rd: "wtrace m ws hs \<Longrightarrow> wtrace m ws (m # hs)"
| wr: "wtrace (dput n v m) ws hs \<Longrightarrow> wtrace m ((n, v) # ws) (dput n v m # hs)"

inductive_cases wtrace_NilE: "wtrace m ws []"

lemma wtrace_append:
  "wtrace m ws hs \<Longrightarrow> wtrace (wapply dput ws m) ws' hs' \<Longrightarrow> wtrace m (ws @ ws') (hs @ hs')"
  by (induction m ws hs rule: wtrace.induct) (auto intro: wtrace.intros)

lemma torn_same: "torn m m x \<longleftrightarrow> x = m"
  by (auto simp: torn_def)

lemma torn_refl: "torn m m' m"
  by (simp add: torn_def)

lemma wtrace_hcrash:
  "wtrace m ws hs \<Longrightarrow> hcrash m hs x \<Longrightarrow> crash (\<lambda>m n v. torn m (dput n v m)) dput ws m x"
proof (induction m ws hs rule: wtrace.induct)
  case (rd m ws hs)
  have "crash (\<lambda>m n v. torn m (dput n v m)) dput ws m m"
    by (cases ws rule: list.exhaust; auto simp: torn_refl)
  with rd show ?case by (auto simp: torn_same)
qed auto

lemma wtrace_reads: "hs = [] \<or> hs = [m] \<Longrightarrow> wtrace m [] hs"
  by (auto intro: wtrace.intros)

lemma wtrace_write: "wtrace m [(n, v)] [dput n v m]"
  by (auto intro: wtrace.intros)

text \<open>The header that a crash leaves is the old one or one of those that were being written.\<close>

context redo_log
begin

lemma crash_head:
  assumes "crash wr put ws m x"
  shows "head x = head m \<or> (\<exists>v. (start, v) \<in> set ws \<and> head x = hof v)"
  using assms
proof (induction ws arbitrary: m)
  case (Cons w ws)
  obtain n v where w: "w = (n, v)" by (cases w)
  from Cons.prems w consider "wr m n v x" | "crash wr put ws (put n v m) x" by auto
  then show ?case
  proof cases
    case 1
    then show ?thesis using head_wr [OF 1] head_wr_start [of m v x] w by (cases "n = start") auto
  next
    case 2
    from Cons.IH [OF this] show ?thesis using w by (auto simp: head_put split: if_splits)
  qed
qed simp

end

end
