(* ===== verification/Journal.thy ===== *)
theory Journal
  imports Redo
begin

text \<open>
  The log of the file system on the buffer cache and the disk: what \<open>write_log\<close>, \<open>write_head\<close>, \<open>install_trans\<close> and
  \<open>read_head\<close> do to the cache and which block writes they make, and with them that a transaction is atomic and durable in
  the presence of crashes.
\<close>

section \<open>Steps\<close>

text \<open>
  \<open>jstep p s t ws\<close>: on the way from \<open>s\<close> to \<open>t\<close> the disk has served exactly the block writes \<open>ws\<close>, in this order, and the log's
  state in memory is unchanged. \<open>logst\<close> is that state: \<open>h\<close> has the numbers of the logged blocks. \<open>pins h\<close> is the state of the
  reference counts between transactions' operations: the logged blocks are pinned.
\<close>

definition jstep :: "nat \<Rightarrow> 'z klog_scheme \<Rightarrow> 'z klog_scheme \<Rightarrow> (nat \<times> u8 list) list \<Rightarrow> bool" where
  "jstep p s t ws \<longleftrightarrow> log t = log s \<and> eased p (procs s) (procs t) \<and> sectors t = wapply dput ws (sectors s) \<and>
     (\<exists>hs. dhist t = dhist s @ hs \<and> wtrace (sectors s) ws hs)"

definition logged :: "logst \<Rightarrow> nat \<Rightarrow> nat \<Rightarrow> nat list \<Rightarrow> bool" where
  "logged lg d st h \<longleftrightarrow> u32_of (log_dev lg) = d \<and> log_start lg = int st \<and> nat (lh_n lg) = length h \<and>
     (\<forall>i < length h. lh_block lg i = int (h ! i)) \<and> length h < LOGSIZE \<and> st + LOGSIZE < 2 ^ 31 \<and> distinct h \<and>
     (\<forall>n \<in> set h. n < 2 ^ 31) \<and> set h \<inter> area st (LOGSIZE - 1) = {}"

definition pins :: "nat list \<Rightarrow> nat \<Rightarrow> nat" where
  "pins h n = (if n \<in> set h then 1 else 0)"

lemma u32_of_nat: "n < 2 ^ 32 \<Longrightarrow> u32_of (int n) = n"
  by (simp add: u32_of_def)

lemma bframe_log: "bframe s t \<Longrightarrow> log t = log s"
  unfolding bframe_def by (erule ssubst) simp

lemma jstep_refl: "jstep p s s []"
  by (auto simp: jstep_def intro: wtrace.none)

lemma jstep_trans:
  assumes "jstep p s t ws" and "jstep p t u ws'"
  shows "jstep p s u (ws @ ws')"
proof -
  from assms obtain hs hs' where "dhist t = dhist s @ hs" "wtrace (sectors s) ws hs" "dhist u = dhist t @ hs'"
    "wtrace (sectors t) ws' hs'" by (auto simp: jstep_def)
  moreover have "sectors t = wapply dput ws (sectors s)" using assms(1) by (simp add: jstep_def)
  ultimately have "dhist u = dhist s @ (hs @ hs') \<and> wtrace (sectors s) (ws @ ws') (hs @ hs')"
    using wtrace_append [of "sectors s" ws hs ws' hs'] by simp
  with assms eased_trans [of p "procs s" "procs t" "procs u"] show ?thesis unfolding jstep_def wapply_append by auto
qed

lemma jstep_reads:
  assumes "bstep p d R s t" and "sectors t = sectors s" and "dhist t = dhist s \<or> dhist t = dhist s @ [sectors s]"
  shows "jstep p s t []"
proof -
  obtain hs where "dhist t = dhist s @ hs" "hs = [] \<or> hs = [sectors s]" using assms(3) by auto
  with assms(1,2) show ?thesis unfolding jstep_def bstep_def using bframe_log wtrace_reads by auto
qed

lemma jstep_write:
  assumes "bstep p d R s t" and "sectors t = dput n v (sectors s)" and "dhist t = dhist s @ [sectors t]"
  shows "jstep p s t [(n, v)]"
  using assms unfolding jstep_def bstep_def using bframe_log wtrace_write by auto

lemma pins_card: "distinct h \<Longrightarrow> card {k. 0 < pins h k} = length h"
  by (simp add: pins_def distinct_card)

lemma bstep_bufof: "bstep p d R s t \<Longrightarrow> 0 < R n \<Longrightarrow> bufof d (bufs s) b n \<Longrightarrow> bufof d (bufs t) b n"
  by (simp add: bstep_def)

lemma bcache_cong: "bcache p d R H C s \<Longrightarrow> R = R' \<Longrightarrow> H = H' \<Longrightarrow> C = C' \<Longrightarrow> bcache p d R' H' C' s"
  by simp

section \<open>Copying a block\<close>

text \<open>One round of \<open>write_log\<close>: block \<open>K\<close> is pinned, block \<open>L\<close> is not in use.\<close>

lemma log_copy:
  fixes s :: "'z klog_scheme"
  assumes c: "bcache p d R {} C s" and n: "L \<noteq> K" "L < 2 ^ 31" "K < 2 ^ 31" "R L = 0" "R K = 1" and room: "card {k. 0 < R k} < NBUF"
  obtains to s1 fb s2 s3 s4 t where "bread d L s = Ok to s1" "bread d K s1 = Ok fb s2" "bwrite to (copy_block to fb s2) = Ok () s3"
    "brelse fb s3 = Ok () s4" "brelse to s4 = Ok () t" "log s1 = log s" "log s2 = log s"
    "bcache p d R {} (C(L := C K)) t" "jstep p s t [(L, C K)]"
proof -
  obtain to s1 where 1: "bread d L s = Ok to s1" "bcache p d (R(L := R L + 1)) (insert L {}) C s1" "bufof d (bufs s1) to L"
    "bstep p d R s s1" "sectors s1 = sectors s" "dhist s1 = dhist s \<or> dhist s1 = dhist s @ [sectors s]"
    by (rule bread_ok [OF c]) (use n room in auto)
  let ?R1 = "R(L := R L + 1)"
  obtain fb s2 where 2: "bread d K s1 = Ok fb s2" "bcache p d (?R1(K := ?R1 K + 1)) (insert K (insert L {})) C s2" "bufof d (bufs s2) fb K"
    "bstep p d ?R1 s1 s2" "sectors s2 = sectors s1" "dhist s2 = dhist s1 \<or> dhist s2 = dhist s1 @ [sectors s1]"
    by (rule bread_ok [OF 1(2), of K]) (use n in auto)
  let ?R2 = "?R1(K := ?R1 K + 1)"
  have b2: "bufof d (bufs s2) to L" by (rule bstep_bufof [OF 2(4) _ 1(3)]) simp
  note T2 = btabD [OF bcacheD(6) [OF 2(2)]]
  have f: "bdata (bufs s2 fb) = C K" by (rule T2(7) [OF 2(3)])
  have len: "length (C K) = BSIZE" using T2(2) [of fb] f 2(3) by (simp add: bufof_def)
  let ?u = "s2\<lparr>bufs := (bufs s2)(to := (bufs s2 to)\<lparr>bdata := C K\<rparr>)\<rparr>"
  have u: "copy_block to fb s2 = ?u" by (simp add: copy_block_def upd_buf_def f)
  have cu: "bcache p d ?R2 (insert K (insert L {})) (C(L := C K)) ?u" and su: "bstep p d ?R2 s2 ?u"
    using bmodify_ok [OF 2(2) b2 _ len] by auto
  have bu: "bufof d (bufs ?u) to L" "bufof d (bufs ?u) fb K"
    using bstep_bufof [OF su _ b2] bstep_bufof [OF su _ 2(3)] n by auto
  obtain s3 where 3: "bwrite to ?u = Ok () s3" "bcache p d ?R2 (insert K (insert L {})) (C(L := C K)) s3" "bstep p d ?R2 ?u s3"
    "sectors s3 = dput L ((C(L := C K)) L) (sectors ?u)" "dhist s3 = dhist ?u @ [sectors s3]" "bufs s3 = bufs ?u"
    by (rule bwrite_ok [OF cu bu(1)]) (use n in auto)
  have b3: "bufof d (bufs s3) fb K" "bufof d (bufs s3) to L" using bu by (simp_all add: 3(6))
  obtain s4 where 4: "brelse fb s3 = Ok () s4" "bcache p d (?R2(K := ?R2 K - 1)) (insert K (insert L {}) - {K}) (C(L := C K)) s4"
    "bstep p d ?R2 s3 s4" "sectors s4 = sectors s3" "dhist s4 = dhist s3" "\<And>b n. bufof d (bufs s4) b n = bufof d (bufs s3) b n"
    by (rule brelse_ok [OF 3(2) b3(1)]) (use n in auto)
  let ?R4 = "?R2(K := ?R2 K - 1)"
  have w: "dblock s4 L = C K" using dblock_dput [OF 3(4)] 4(4) by (simp add: dblock_dblk)
  have "bufof d (bufs s4) to L" using b3(2) 4(6) by simp
  then obtain t where 5: "brelse to s4 = Ok () t" "bcache p d (?R4(L := ?R4 L - 1)) (insert K (insert L {}) - {K} - {L}) (C(L := C K)) t"
    "bstep p d ?R4 s4 t" "sectors t = sectors s4" "dhist t = dhist s4"
    by (rule brelse_ok [OF 4(2)]) (use n w in auto)
  have "?R4(L := ?R4 L - 1) = R" "insert K (insert L {}) - {K} - {L} = {}" using n by (auto simp: fun_eq_iff)
  then have ct: "bcache p d R {} (C(L := C K)) t" by (rule bcache_cong [OF 5(2)]) simp
  have j: "jstep p s s1 []" "jstep p s1 s2 []" "jstep p s2 ?u []" "jstep p ?u s3 [(L, C K)]" "jstep p s3 s4 []" "jstep p s4 t []"
    using jstep_reads [OF 1(4-6)] jstep_reads [OF 2(4-6)] jstep_reads [OF su] jstep_write [OF 3(3,4,5)]
      jstep_reads [OF 4(3,4)] jstep_reads [OF 5(3,4)] 4(5) 5(5) by simp_all
  have jt: "jstep p s t [(L, C K)]"
    using jstep_trans [OF j(1) jstep_trans [OF j(2) jstep_trans [OF j(3) jstep_trans [OF j(4) jstep_trans [OF j(5,6)]]]]] by simp
  show ?thesis
    by (rule that [OF 1(1) 2(1) _ 4(1) 5(1) _ _ ct jt]) (use 3(1) u j(1,2) in \<open>simp_all add: jstep_def\<close>)
qed

lemma bcache_finite: "bcache p d R H C s \<Longrightarrow> finite {k. 0 < R k}"
proof (rule finite_subset)
  assume c: "bcache p d R H C s"
  show "{k. 0 < R k} \<subseteq> (\<lambda>b. blockno (bufs s b)) ` {..<NBUF}"
  proof
    fix n assume "n \<in> {n. 0 < R n}"
    then obtain b where "bufof d (bufs s) b n" using btabD(11) [OF bcacheD(6) [OF c]] by blast
    then show "n \<in> (\<lambda>b. blockno (bufs s b)) ` {..<NBUF}" by (auto simp: bufof_def)
  qed
qed simp

text \<open>One round of \<open>install_trans\<close>: block \<open>K\<close> is pinned, or not in use when the log is being recovered.\<close>

lemma home_copy:
  fixes s :: "'z klog_scheme"
  assumes c: "bcache p d R {} C s" and n: "L \<noteq> K" "L < 2 ^ 31" "K < 2 ^ 31" "R L = 0" "R K = (if rc then 0 else 1)"
    and room: "Suc (card {k. 0 < R k}) < NBUF \<or> \<not> rc \<and> card {k. 0 < R k} < NBUF"
  obtains lb s1 db s2 s3 s4 s5 t where "bread d L s = Ok lb s1" "bread d K s1 = Ok db s2" "bwrite db (copy_block db lb s2) = Ok () s3"
    "(if rc then Ok () s3 else bunpin db s3) = Ok () s4" "brelse lb s4 = Ok () s5" "brelse db s5 = Ok () t" "log s1 = log s" "log s2 = log s"
    "bcache p d (R(K := 0)) {} (C(K := C L)) t" "jstep p s t [(K, C L)]"
proof -
  obtain lb s1 where 1: "bread d L s = Ok lb s1" "bcache p d (R(L := R L + 1)) (insert L {}) C s1" "bufof d (bufs s1) lb L"
    "bstep p d R s s1" "sectors s1 = sectors s" "dhist s1 = dhist s \<or> dhist s1 = dhist s @ [sectors s]"
    by (rule bread_ok [OF c, of L]) (use n room in auto)
  let ?R1 = "R(L := R L + 1)"
  have "{k. 0 < ?R1 k} \<subseteq> insert L {k. 0 < R k}" by auto
  then have le: "card {k. 0 < ?R1 k} \<le> Suc (card {k. 0 < R k})"
    using card_mono [OF finite.insertI [OF bcache_finite [OF c]]] card_insert_le_m1 [of "Suc (card {k. 0 < R k})"] bcache_finite [OF c]
    by (metis (no_types, lifting) card_insert_if le_SucI)
  have r1: "?R1 K = 0 \<Longrightarrow> card {k. 0 < ?R1 k} < NBUF" by (cases rc) (use le room n in linarith, use n in simp)
  obtain db s2 where 2: "bread d K s1 = Ok db s2" "bcache p d (?R1(K := ?R1 K + 1)) (insert K (insert L {})) C s2" "bufof d (bufs s2) db K"
    "bstep p d ?R1 s1 s2" "sectors s2 = sectors s1" "dhist s2 = dhist s1 \<or> dhist s2 = dhist s1 @ [sectors s1]"
    by (rule bread_ok [OF 1(2), of K]) (use n r1 in auto)
  let ?R2 = "?R1(K := ?R1 K + 1)"
  have b2: "bufof d (bufs s2) lb L" by (rule bstep_bufof [OF 2(4) _ 1(3)]) simp
  note T2 = btabD [OF bcacheD(6) [OF 2(2)]]
  have f: "bdata (bufs s2 lb) = C L" by (rule T2(7) [OF b2])
  have len: "length (C L) = BSIZE" using T2(2) [of lb] f b2 by (simp add: bufof_def)
  let ?u = "s2\<lparr>bufs := (bufs s2)(db := (bufs s2 db)\<lparr>bdata := C L\<rparr>)\<rparr>"
  have u: "copy_block db lb s2 = ?u" by (simp add: copy_block_def upd_buf_def f)
  have cu: "bcache p d ?R2 (insert K (insert L {})) (C(K := C L)) ?u" and su: "bstep p d ?R2 s2 ?u"
    using bmodify_ok [OF 2(2,3) _ len] by auto
  have bu: "bufof d (bufs ?u) lb L" "bufof d (bufs ?u) db K"
    using bstep_bufof [OF su _ b2] bstep_bufof [OF su _ 2(3)] n by auto
  obtain s3 where 3: "bwrite db ?u = Ok () s3" "bcache p d ?R2 (insert K (insert L {})) (C(K := C L)) s3" "bstep p d ?R2 ?u s3"
    "sectors s3 = dput K ((C(K := C L)) K) (sectors ?u)" "dhist s3 = dhist ?u @ [sectors s3]" "bufs s3 = bufs ?u"
    by (rule bwrite_ok [OF cu bu(2)]) (use n in auto)
  have b3: "bufof d (bufs s3) db K" "bufof d (bufs s3) lb L" using bu by (simp_all add: 3(6))
  obtain s4 where 4: "(if rc then Ok () s3 else bunpin db s3) = Ok () s4" "bcache p d (?R2(K := 1)) (insert K (insert L {})) (C(K := C L)) s4"
    "bstep p d ?R2 s3 s4" "sectors s4 = sectors s3" "dhist s4 = dhist s3" "\<And>b n. bufof d (bufs s4) b n = bufof d (bufs s3) b n"
  proof (cases rc)
    case True
    then have "?R2 = ?R2(K := 1)" using n by (simp add: fun_eq_iff)
    then show ?thesis using 3(2) True by (intro that [of s3]) auto
  next
    case False
    obtain s4 where "bunpin db s3 = Ok () s4" "bcache p d (?R2(K := ?R2 K - 1)) (insert K (insert L {})) (C(K := C L)) s4"
      "bstep p d ?R2 s3 s4" "sectors s4 = sectors s3" "dhist s4 = dhist s3" "\<And>b n. bufof d (bufs s4) b n = bufof d (bufs s3) b n"
      by (rule bunpin_ok [OF 3(2) b3(1)]) (use n False in auto)
    then show ?thesis using False n by (intro that [of s4]) auto
  qed
  let ?R4 = "?R2(K := 1)"
  have m4: "dblock s4 L = C L" "dblock s4 K = C L"
    using dblock_dput [OF 3(4)] 4(4) 2(5) 1(5) btabD(12) [OF bcacheD(6) [OF c] n(4)] n(1) by (simp_all add: dblock_dblk)
  have "bufof d (bufs s4) lb L" using b3(2) 4(6) by simp
  then obtain s5 where 5: "brelse lb s4 = Ok () s5" "bcache p d (?R4(L := ?R4 L - 1)) (insert K (insert L {}) - {L}) (C(K := C L)) s5"
    "bstep p d ?R4 s4 s5" "sectors s5 = sectors s4" "dhist s5 = dhist s4" "\<And>b n. bufof d (bufs s5) b n = bufof d (bufs s4) b n"
    by (rule brelse_ok [OF 4(2)]) (use n m4 in auto)
  let ?R5 = "?R4(L := ?R4 L - 1)"
  have "bufof d (bufs s5) db K" using b3(1) 4(6) 5(6) by simp
  then obtain t where 6: "brelse db s5 = Ok () t" "bcache p d (?R5(K := ?R5 K - 1)) (insert K (insert L {}) - {L} - {K}) (C(K := C L)) t"
    "bstep p d ?R5 s5 t" "sectors t = sectors s5" "dhist t = dhist s5"
    by (rule brelse_ok [OF 5(2)]) (use n m4 5(4) in \<open>auto simp: dblock_dblk\<close>)
  have "?R5(K := ?R5 K - 1) = R(K := 0)" "insert K (insert L {}) - {L} - {K} = {}" using n by (auto simp: fun_eq_iff)
  then have ct: "bcache p d (R(K := 0)) {} (C(K := C L)) t" by (rule bcache_cong [OF 6(2)]) simp
  have j: "jstep p s s1 []" "jstep p s1 s2 []" "jstep p s2 ?u []" "jstep p ?u s3 [(K, C L)]" "jstep p s3 s4 []" "jstep p s4 s5 []" "jstep p s5 t []"
    using jstep_reads [OF 1(4-6)] jstep_reads [OF 2(4-6)] jstep_reads [OF su] jstep_write [OF 3(3,4,5)]
      jstep_reads [OF 4(3,4)] jstep_reads [OF 5(3,4)] jstep_reads [OF 6(3,4)] 4(5) 5(5) 6(5) by simp_all
  have jt: "jstep p s t [(K, C L)]"
    using jstep_trans [OF j(1) jstep_trans [OF j(2) jstep_trans [OF j(3) jstep_trans [OF j(4) jstep_trans [OF j(5) jstep_trans [OF j(6,7)]]]]]]
    by simp
  show ?thesis
    by (rule that [OF 1(1) 2(1) _ 4(1) 5(1) 6(1) _ _ ct jt]) (use 3(1) u j(1,2) in \<open>simp_all add: jstep_def\<close>)
qed

section \<open>The loops\<close>

text \<open>The contents of the cache after a sequence of writes.\<close>

fun upds :: "(nat \<times> u8 list) list \<Rightarrow> (nat \<Rightarrow> u8 list) \<Rightarrow> nat \<Rightarrow> u8 list" where
  "upds [] C = C"
| "upds ((n, v) # ws) C = upds ws (C(n := v))"

lemma upds_other: "n \<notin> fst ` set ws \<Longrightarrow> upds ws C n = C n"
  by (induction ws arbitrary: C) auto

lemma upds_in: "distinct (map fst ws) \<Longrightarrow> (n, v) \<in> set ws \<Longrightarrow> upds ws C n = v"
proof (induction ws arbitrary: C)
  case (Cons w ws)
  obtain k u where w: "w = (k, u)" by (cases w)
  show ?case
  proof (cases "(n, v) \<in> set ws")
    case False
    then have kn: "k = n" "u = v" using Cons.prems(2) w by auto
    then have "n \<notin> fst ` set ws" using Cons.prems(1) w by auto
    then show ?thesis using w kn by (simp add: upds_other)
  qed (use Cons w in auto)
qed simp

definition logws :: "nat \<Rightarrow> nat list \<Rightarrow> (nat \<Rightarrow> u8 list) \<Rightarrow> nat \<Rightarrow> (nat \<times> u8 list) list" where
  "logws st h C tail = map (\<lambda>i. (st + 1 + i, C (h ! i))) [tail..<length h]"

definition homews :: "nat \<Rightarrow> nat list \<Rightarrow> (nat \<Rightarrow> u8 list) \<Rightarrow> nat \<Rightarrow> (nat \<times> u8 list) list" where
  "homews st h C tail = map (\<lambda>i. (h ! i, C (st + 1 + i))) [tail..<length h]"

lemma logws_Cons: "tail < length h \<Longrightarrow> logws st h C tail = (st + 1 + tail, C (h ! tail)) # logws st h C (Suc tail)"
  by (simp add: logws_def upt_conv_Cons)

lemma homews_Cons: "tail < length h \<Longrightarrow> homews st h C tail = (h ! tail, C (st + 1 + tail)) # homews st h C (Suc tail)"
  by (simp add: homews_def upt_conv_Cons)

lemma area_mono: "n \<le> k \<Longrightarrow> area st n \<subseteq> area st k"
  by (auto simp: area_def)

lemma loggedD:
  assumes "logged lg d st h"
  shows "u32_of (log_dev lg) = d" "log_start lg = int st" "nat (lh_n lg) = length h" "length h < LOGSIZE" "length h < NBUF" "distinct h"
    "i < length h \<Longrightarrow> u32_of (lh_block lg i) = h ! i" "i < length h \<Longrightarrow> u32_of (log_start lg + int i + 1) = st + 1 + i"
    "i < length h \<Longrightarrow> h ! i < 2 ^ 31" "i < length h \<Longrightarrow> st + 1 + i < 2 ^ 31" "i < length h \<Longrightarrow> j < length h \<Longrightarrow> h ! i \<noteq> st + 1 + j"
    "i < length h \<Longrightarrow> st + 1 + i \<notin> set h" "st \<notin> set h" "st < 2 ^ 31" "u32_of (log_start lg) = st"
    "set h \<inter> area st (length h) = {}"
proof -
  note a = assms [unfolded logged_def]
  have "length h \<le> LOGSIZE - 1" using a by linarith
  then show A: "set h \<inter> area st (length h) = {}" using a area_mono by blast
  show "u32_of (log_dev lg) = d" "log_start lg = int st" "nat (lh_n lg) = length h" "length h < LOGSIZE" "length h < NBUF" "distinct h" "st < 2 ^ 31"
    using a by (simp_all add: params)
  show "st \<notin> set h" using a by (auto simp: area_def)
  show "u32_of (log_start lg) = st" using a by (simp add: u32_of_nat)
  assume i: "i < length h"
  have "h ! i \<in> set h" using i by simp
  then show h: "h ! i < 2 ^ 31" using a by blast
  have "lh_block lg i = int (h ! i)" using a i by blast
  then show "u32_of (lh_block lg i) = h ! i" using h u32_of_nat [of "h ! i"] by simp
  show l: "st + 1 + i < 2 ^ 31" using a i by simp
  have "log_start lg + int i + 1 = int (st + 1 + i)" using a by simp
  then show "u32_of (log_start lg + int i + 1) = st + 1 + i" using l u32_of_nat [of "st + 1 + i"] by (simp only:) simp
  have ar: "st + 1 + j \<in> area st (length h)" if "j < length h" for j using that by (simp add: area_def)
  show "st + 1 + i \<notin> set h" using ar [OF i] A by blast
  show "j < length h \<Longrightarrow> h ! i \<noteq> st + 1 + j" using ar [of j] \<open>h ! i \<in> set h\<close> A by auto
qed

lemma write_log_loop_ok:
  fixes s :: "'z klog_scheme"
  assumes "bcache p d (pins h) {} C s" and "logged (log s) d st h" and "tail + k = length h"
  shows "\<exists>t. write_log_loop k tail s = Ok () t \<and> bcache p d (pins h) {} (upds (logws st h C tail) C) t \<and> jstep p s t (logws st h C tail)"
  using assms
proof (induction k arbitrary: tail s C)
  case 0
  then show ?case by (auto simp: logws_def intro: jstep_refl)
next
  case (Suc k)
  note l = loggedD [OF Suc.prems(2)]
  have i: "tail < length h" using Suc.prems(3) by simp
  let ?L = "st + 1 + tail" and ?K = "h ! tail"
  have pn: "pins h ?L = 0" "pins h ?K = 1" using l(12) [OF i] i by (simp_all add: pins_def)
  obtain to s1 fb s2 s3 s4 t1 where r: "bread d ?L s = Ok to s1" "bread d ?K s1 = Ok fb s2" "bwrite to (copy_block to fb s2) = Ok () s3"
    "brelse fb s3 = Ok () s4" "brelse to s4 = Ok () t1" "log s1 = log s" "log s2 = log s"
    "bcache p d (pins h) {} (C(?L := C ?K)) t1" "jstep p s t1 [(?L, C ?K)]"
    by (rule log_copy [OF Suc.prems(1) _ l(10,9) [OF i] pn])
      (use l(5,6) l(11) [OF i i] in \<open>simp_all add: pins_card neq_commute\<close>)
  have lg: "log t1 = log s" using r(9) by (simp add: jstep_def)
  have lg1: "logged (log t1) d st h" and k1: "Suc tail + k = length h" using Suc.prems(2,3) lg by simp_all
  have u: "u32_of (log_dev (log s)) = d" "u32_of (log_start (log s) + int tail + 1) = ?L" "u32_of (lh_block (log s) tail) = ?K"
    using l(1) l(7,8) [OF i] by simp_all
  have nt: "\<not> tail \<ge> LOGSIZE" using i l(4) by simp
  have e: "write_log_loop (Suc k) tail s = write_log_loop k (Suc tail) t1"
    unfolding write_log_loop.simps u r(1) bindr_simps r(6) if_not_P [OF nt] r(2) Let_def r(3-5) ..
  have same: "logws st h (C(?L := C ?K)) (Suc tail) = logws st h C (Suc tail)"
    unfolding logws_def by (rule map_cong) (use l(11) i in auto)
  obtain t where t: "write_log_loop k (Suc tail) t1 = Ok () t"
    "bcache p d (pins h) {} (upds (logws st h C (Suc tail)) (C(?L := C ?K))) t" "jstep p t1 t (logws st h C (Suc tail))"
    using Suc.IH [OF r(8) lg1 k1] unfolding same by blast
  show ?case
  proof (intro exI conjI)
    show "write_log_loop (Suc k) tail s = Ok () t" using e t(1) by (simp only:)
  qed (use t(2) jstep_trans [OF r(9) t(3)] in \<open>simp_all add: logws_Cons [OF i]\<close>)
qed

lemma install_loop_ok:
  fixes s :: "'z klog_scheme"
  assumes "bcache p d (if rc then (\<lambda>_. 0) else pins (drop tail h)) {} C s" and "logged (log s) d st h" and "tail + k = length h"
  shows "\<exists>t. install_loop k tail rc s = Ok () t \<and> bcache p d (\<lambda>_. 0) {} (upds (homews st h C tail) C) t \<and> jstep p s t (homews st h C tail)"
  using assms
proof (induction k arbitrary: tail s C)
  case 0
  moreover have "pins [] = (\<lambda>_. 0)" by (simp add: pins_def fun_eq_iff)
  ultimately show ?case by (auto simp: homews_def intro: jstep_refl split: if_splits)
next
  case (Suc k)
  note l = loggedD [OF Suc.prems(2)]
  have i: "tail < length h" using Suc.prems(3) by simp
  let ?L = "st + 1 + tail" and ?K = "h ! tail" let ?R = "if rc then (\<lambda>_. 0) else pins (drop tail h)"
  have dr: "drop tail h = ?K # drop (Suc tail) h" using i by (simp add: Cons_nth_drop_Suc)
  have dd: "distinct (drop tail h)" using l(6) by (rule distinct_drop)
  have card: "card {k. 0 < ?R k} \<le> length h" using pins_card [OF dd] by simp
  have rm: "Suc (card {k. 0 < ?R k}) < NBUF \<or> \<not> rc \<and> card {k. 0 < ?R k} < NBUF"
    using card l(5) by (cases rc) (simp_all add: params)
  have rl: "?R ?L = 0" using l(12) [OF i] by (auto simp: pins_def dest: in_set_dropD)
  have rk: "?R ?K = (if rc then 0 else 1)" using dr by (simp add: pins_def)
  obtain lb s1 db s2 s3 s4 s5 t1 where r: "bread d ?L s = Ok lb s1" "bread d ?K s1 = Ok db s2" "bwrite db (copy_block db lb s2) = Ok () s3"
    "(if rc then Ok () s3 else bunpin db s3) = Ok () s4" "brelse lb s4 = Ok () s5" "brelse db s5 = Ok () t1" "log s1 = log s" "log s2 = log s"
    "bcache p d (?R(?K := 0)) {} (C(?K := C ?L)) t1" "jstep p s t1 [(?K, C ?L)]"
    by (rule home_copy [OF Suc.prems(1) _ l(10,9) [OF i] rl rk rm]) (use l(11) [OF i i] in \<open>simp_all add: neq_commute\<close>)
  have R: "?R(?K := 0) = (if rc then (\<lambda>_. 0) else pins (drop (Suc tail) h))"
    using dr dd by (auto simp: pins_def fun_eq_iff)
  have lg: "log t1 = log s" using r(10) by (simp add: jstep_def)
  have lg1: "logged (log t1) d st h" and k1: "Suc tail + k = length h" using Suc.prems(2,3) lg by simp_all
  have u: "u32_of (log_dev (log s)) = d" "u32_of (log_start (log s) + int tail + 1) = ?L" "u32_of (lh_block (log s) tail) = ?K"
    using l(1) l(7,8) [OF i] by simp_all
  have nt: "\<not> tail \<ge> LOGSIZE" using i l(4) by simp
  have e: "install_loop (Suc k) tail rc s = install_loop k (Suc tail) rc t1"
    unfolding install_loop.simps u r(1) bindr_simps r(7) if_not_P [OF nt] r(2) Let_def r(3-6) ..
  have same: "homews st h (C(?K := C ?L)) (Suc tail) = homews st h C (Suc tail)"
    unfolding homews_def by (rule map_cong) (use l(11) [OF i, symmetric] in auto)
  obtain t where t: "install_loop k (Suc tail) rc t1 = Ok () t"
    "bcache p d (\<lambda>_. 0) {} (upds (homews st h C (Suc tail)) (C(?K := C ?L))) t" "jstep p t1 t (homews st h C (Suc tail))"
    using Suc.IH [OF r(9) [unfolded R] lg1 k1] unfolding same by blast
  show ?case
  proof (intro exI conjI)
    show "install_loop (Suc k) tail rc s = Ok () t" using e t(1) by (simp only:)
  qed (use t(2) jstep_trans [OF r(10) t(3)] in \<open>simp_all add: homews_Cons [OF i]\<close>)
qed

section \<open>The header\<close>

text \<open>What \<open>write_head\<close> puts into the header block, and what reading it gives.\<close>

definition hbytes :: "nat list \<Rightarrow> u8 list \<Rightarrow> u8 list" where
  "hbytes h d = fold (\<lambda>i. lh_put_block i (int (h ! i))) [0..<length h] (lh_put_n (int (length h)) d)"

lemma fold_put_blocks:
  assumes "4 + 4 * k \<le> length d"
  shows "length (fold (\<lambda>i. wr32 (4 + 4 * i) (v i)) [0..<k] d) = length d"
    and "rd32 0 (fold (\<lambda>i. wr32 (4 + 4 * i) (v i)) [0..<k] d) = rd32 0 d"
    and "i < k \<Longrightarrow> rd32 (4 + 4 * i) (fold (\<lambda>i. wr32 (4 + 4 * i) (v i)) [0..<k] d) = v i mod 2 ^ 32"
proof -
  have "length (fold (\<lambda>i. wr32 (4 + 4 * i) (v i)) [0..<k] d) = length d \<and> rd32 0 (fold (\<lambda>i. wr32 (4 + 4 * i) (v i)) [0..<k] d) = rd32 0 d \<and>
    (\<forall>i < k. rd32 (4 + 4 * i) (fold (\<lambda>i. wr32 (4 + 4 * i) (v i)) [0..<k] d) = v i mod 2 ^ 32)"
    using assms
  proof (induction k)
    case (Suc k)
    let ?D = "fold (\<lambda>i. wr32 (4 + 4 * i) (v i)) [0..<k] d"
    have IH: "length ?D = length d" "rd32 0 ?D = rd32 0 d" "\<forall>i < k. rd32 (4 + 4 * i) ?D = v i mod 2 ^ 32" using Suc by auto
    have "rd32 (4 + 4 * i) (wr32 (4 + 4 * k) (v k) ?D) = v i mod 2 ^ 32" if "i < Suc k" for i
      using that IH Suc.prems rd32_wr32_other [of "4 + 4 * i" "4 + 4 * k" ?D "v k"] rd_wr_same(2) [of "4 + 4 * k" ?D "v k"]
      by (cases "i = k") simp_all
    with IH Suc.prems show ?case using rd32_wr32_other [of 0 "4 + 4 * k" ?D "v k"] by simp
  qed simp
  then show "length (fold (\<lambda>i. wr32 (4 + 4 * i) (v i)) [0..<k] d) = length d"
    "rd32 0 (fold (\<lambda>i. wr32 (4 + 4 * i) (v i)) [0..<k] d) = rd32 0 d"
    "i < k \<Longrightarrow> rd32 (4 + 4 * i) (fold (\<lambda>i. wr32 (4 + 4 * i) (v i)) [0..<k] d) = v i mod 2 ^ 32" by auto
qed

lemma rd32_take: "off + 4 \<le> n \<Longrightarrow> rd32 off (take n d) = rd32 off d"
  by (simp add: rd32_def get_at_def drop_take min_def)

lemma u32_of_small: "n < 2 ^ 31 \<Longrightarrow> u32_of (int n) = n"
  by (simp add: u32_of_nat)

lemma s32_small: "n < 2 ^ 31 \<Longrightarrow> s32 (int n) = int n"
  by (rule s32_nonneg) simp_all

lemma hbytes_head:
  assumes d: "length d = BSIZE" and h: "length h \<le> LOGSIZE" "\<And>i. i < length h \<Longrightarrow> h ! i < 2 ^ 31"
  shows "length (hbytes h d) = BSIZE" and "lhead (take 512 (hbytes h d)) = h"
proof -
  let ?d = "wr32 0 (length h) d"
  have n: "u32_of (int (length h)) = length h" using h(1) by (intro u32_of_nat) (simp add: params)
  have e: "hbytes h d = fold (\<lambda>i. wr32 (4 + 4 * i) (h ! i)) [0..<length h] ?d"
    unfolding hbytes_def lh_put_n_def lh_put_block_def n
    by (rule fold_cong) (use h(2) in \<open>auto simp: u32_of_small\<close>)
  have ld: "length ?d = BSIZE" using d by (simp add: BSIZE_def)
  have k: "4 + 4 * length h \<le> length ?d" using h(1) ld by (simp add: BSIZE_def params)
  note F = fold_put_blocks [OF k, where v = "(!) h"]
  show "length (hbytes h d) = BSIZE" using F(1) ld e by simp
  have "rd32 0 (take 512 (hbytes h d)) = length h"
    using F(2) rd_wr_same(2) [of 0 d "length h"] h(1) by (simp add: rd32_take e params)
  then have c: "lh_get_n (take 512 (hbytes h d)) = int (length h)"
    using h(1) by (simp add: lh_get_n_def s32_small params)
  have "u32_of (lh_get_block i (take 512 (hbytes h d))) = h ! i" if i: "i < length h" for i
  proof -
    have "rd32 (4 + 4 * i) (take 512 (hbytes h d)) = h ! i"
      using F(3) [OF i] i h(1) h(2) [OF i] by (simp add: rd32_take e params)
    then show ?thesis using h(2) [OF i] by (simp add: lh_get_block_def s32_small u32_of_small)
  qed
  then show "lhead (take 512 (hbytes h d)) = h" unfolding lhead_def c by (intro nth_equalityI) simp_all
qed

lemma write_head_loop_ok:
  "i + k \<le> LOGSIZE \<Longrightarrow> write_head_loop k i b s = Ok () (s\<lparr>bufs := (bufs s)(b := (bufs s b)\<lparr>bdata :=
     fold (\<lambda>j. lh_put_block j (lh_block (log s) j)) [i..<i + k] (bdata (bufs s b))\<rparr>)\<rparr>)"
proof (induction k arbitrary: i s)
  case (Suc k)
  let ?s = "upd_buf b (\<lambda>x. x\<lparr>bdata := lh_put_block i (lh_block (log s) i) (bdata x)\<rparr>) s"
  have u: "[i..<i + Suc k] = i # [Suc i..<Suc i + k]" by (simp add: upt_conv_Cons)
  have "write_head_loop (Suc k) i b s = write_head_loop k (Suc i) b ?s" using Suc.prems by simp
  also note Suc.IH [of "Suc i" ?s]
  finally show ?case unfolding u using Suc.prems by (simp add: upd_buf_def del: upt_Suc cong: if_cong)
qed simp

lemma write_head_ok:
  fixes s :: "'z klog_scheme"
  assumes c: "bcache p d R {} C s" and lg: "logged (log s) d st h" "0 \<le> lh_n (log s)" and R: "R st = 0" and room: "card {k. 0 < R k} < NBUF"
  obtains t v where "write_head s = Ok () t" "lhead (take 512 v) = h" "bcache p d R {} (C(st := v)) t" "jstep p s t [(st, v)]"
proof -
  note l = loggedD [OF lg(1)]
  obtain b s1 where 1: "bread d st s = Ok b s1" "bcache p d (R(st := R st + 1)) (insert st {}) C s1" "bufof d (bufs s1) b st"
    "bstep p d R s s1" "sectors s1 = sectors s" "dhist s1 = dhist s \<or> dhist s1 = dhist s @ [sectors s]"
    by (rule bread_ok [OF c, of st]) (use R room l(14) in auto)
  let ?R = "R(st := R st + 1)"
  note T = btabD [OF bcacheD(6) [OF 1(2)]]
  have bd: "bdata (bufs s1 b) = C st" "length (C st) = BSIZE" using T(7) [OF 1(3)] T(2) [of b] 1(3) by (simp_all add: bufof_def)
  have lb: "lh_block (log s) i = int (h ! i)" if "i < length h" for i using lg(1) that by (simp add: logged_def)
  have hl: "lh_n (log s) = int (length h)" using l(3) lg(2) by simp
  have v: "length (hbytes h (C st)) = BSIZE" "lhead (take 512 (hbytes h (C st))) = h"
    using hbytes_head [OF bd(2), of h] l(4,9) by simp_all
  let ?v = "hbytes h (C st)" and ?u = "s1\<lparr>bufs := (bufs s1)(b := (bufs s1 b)\<lparr>bdata := hbytes h (C st)\<rparr>)\<rparr>"
  have lg1: "log s1 = log s" using 1(4) by (simp add: bstep_def bframe_log)
  have "write_head_loop (length h) 0 b (upd_buf b (\<lambda>x. x\<lparr>bdata := lh_put_n (int (length h)) (bdata x)\<rparr>) s1) = Ok () (s1\<lparr>bufs :=
      (bufs s1)(b := (bufs s1 b)\<lparr>bdata := fold (\<lambda>j. lh_put_block j (lh_block (log s) j)) [0..<length h] (lh_put_n (int (length h)) (C st))\<rparr>)\<rparr>)"
    by (subst write_head_loop_ok) (use l(4) lg1 bd in \<open>simp_all add: upd_buf_def\<close>)
  also have "fold (\<lambda>j. lh_put_block j (lh_block (log s) j)) [0..<length h] (lh_put_n (int (length h)) (C st)) = ?v"
    unfolding hbytes_def by (rule fold_cong) (use lb in auto)
  finally have w: "write_head_loop (length h) 0 b (upd_buf b (\<lambda>x. x\<lparr>bdata := lh_put_n (int (length h)) (bdata x)\<rparr>) s1) = Ok () ?u" .
  have cu: "bcache p d ?R (insert st {}) (C(st := ?v)) ?u" and su: "bstep p d ?R s1 ?u" using bmodify_ok [OF 1(2,3) _ v(1)] by auto
  have bu: "bufof d (bufs ?u) b st" using bstep_bufof [OF su _ 1(3)] by simp
  obtain s3 where 3: "bwrite b ?u = Ok () s3" "bcache p d ?R (insert st {}) (C(st := ?v)) s3" "bstep p d ?R ?u s3"
    "sectors s3 = dput st ((C(st := ?v)) st) (sectors ?u)" "dhist s3 = dhist ?u @ [sectors s3]" "bufs s3 = bufs ?u"
    by (rule bwrite_ok [OF cu bu]) (use l(14) in auto)
  have "bufof d (bufs s3) b st" using bu by (simp add: 3(6))
  then obtain t where 4: "brelse b s3 = Ok () t" "bcache p d (?R(st := ?R st - 1)) (insert st {} - {st}) (C(st := ?v)) t"
    "bstep p d ?R s3 t" "sectors t = sectors s3" "dhist t = dhist s3"
    by (rule brelse_ok [OF 3(2)]) (use dblock_dput [OF 3(4)] in auto)
  have "?R(st := ?R st - 1) = R" using R by (simp add: fun_eq_iff)
  then have ct: "bcache p d R {} (C(st := ?v)) t" by (rule bcache_cong [OF 4(2)]) simp_all
  have u: "lh_n (log s1) = int (length h)" "nat (lh_n (log (upd_buf b (\<lambda>x. x\<lparr>bdata := lh_put_n (int (length h)) (bdata x)\<rparr>) s1))) = length h"
    using lg1 hl by (simp_all add: upd_buf_def)
  have r: "write_head s = Ok () t"
    unfolding write_head_def l(1,15) 1(1) bindr_simps Let_def u(1) u(2) w 3(1) 4(1) ..
  have j: "jstep p s s1 []" "jstep p s1 ?u []" "jstep p ?u s3 [(st, ?v)]" "jstep p s3 t []"
    using jstep_reads [OF 1(4-6)] jstep_reads [OF su] jstep_write [OF 3(3,4,5)] jstep_reads [OF 4(3,4)] 4(5) by simp_all
  have jt: "jstep p s t [(st, ?v)]" using jstep_trans [OF j(1) jstep_trans [OF j(2) jstep_trans [OF j(3,4)]]] by simp
  show ?thesis by (rule that [OF r v(2) ct jt])
qed

text \<open>\<open>jrun\<close> is \<open>jstep\<close> with changes of the log's state.\<close>

definition jrun :: "nat \<Rightarrow> 'z klog_scheme \<Rightarrow> 'z klog_scheme \<Rightarrow> (nat \<times> u8 list) list \<Rightarrow> bool" where
  "jrun p s t ws \<longleftrightarrow> eased p (procs s) (procs t) \<and> sectors t = wapply dput ws (sectors s) \<and>
     (\<exists>hs. dhist t = dhist s @ hs \<and> wtrace (sectors s) ws hs)"

lemma jstep_run: "jstep p s t ws \<Longrightarrow> jrun p s t ws"
  by (simp add: jstep_def jrun_def)

lemma jrun_log: "jrun p s (s\<lparr>log := l\<rparr>) []"
  by (auto simp: jrun_def intro: wtrace.none)

lemma jrun_trans:
  assumes "jrun p s t ws" and "jrun p t u ws'"
  shows "jrun p s u (ws @ ws')"
proof -
  from assms obtain hs hs' where "dhist t = dhist s @ hs" "wtrace (sectors s) ws hs" "dhist u = dhist t @ hs'"
    "wtrace (sectors t) ws' hs'" by (auto simp: jrun_def)
  moreover have "sectors t = wapply dput ws (sectors s)" using assms(1) by (simp add: jrun_def)
  ultimately have "dhist u = dhist s @ (hs @ hs') \<and> wtrace (sectors s) (ws @ ws') (hs @ hs')"
    using wtrace_append [of "sectors s" ws hs ws' hs'] by simp
  with assms eased_trans [of p "procs s" "procs t" "procs u"] show ?thesis unfolding jrun_def wapply_append by auto
qed

lemma bcache_log [simp]: "bcache p d R H C (s\<lparr>log := l\<rparr>) = bcache p d R H C s"
  by (simp add: bcache_def quiet_def calm_in_def vidle_def dblock_dblk)

lemma read_head_loop_ok:
  "i + k \<le> LOGSIZE \<Longrightarrow> \<exists>f. read_head_loop k i d s = Ok () (s\<lparr>log := (log s)\<lparr>lh_block := f\<rparr>\<rparr>) \<and>
     (\<forall>j. f j = (if i \<le> j \<and> j < i + k then lh_get_block j d else lh_block (log s) j))"
proof (induction k arbitrary: i s)
  case 0
  then show ?case by (auto intro: exI [of _ "lh_block (log s)"])
next
  case (Suc k)
  let ?s = "s\<lparr>log := (log s)\<lparr>lh_block := (lh_block (log s))(i := lh_get_block i d)\<rparr>\<rparr>"
  obtain f where f: "read_head_loop k (Suc i) d ?s = Ok () (?s\<lparr>log := (log ?s)\<lparr>lh_block := f\<rparr>\<rparr>)"
    "\<forall>j. f j = (if Suc i \<le> j \<and> j < Suc i + k then lh_get_block j d else lh_block (log ?s) j)"
    using Suc.IH [of "Suc i" ?s] Suc.prems by auto
  show ?case
  proof (intro exI conjI)
    show "read_head_loop (Suc k) i d s = Ok () (s\<lparr>log := (log s)\<lparr>lh_block := f\<rparr>\<rparr>)" using f(1) Suc.prems by (simp add: upd_log_def)
    show "\<forall>j. f j = (if i \<le> j \<and> j < i + Suc k then lh_get_block j d else lh_block (log s) j)"
    proof
      fix j show "f j = (if i \<le> j \<and> j < i + Suc k then lh_get_block j d else lh_block (log s) j)"
        using f(2) [THEN spec, of j] by (cases "j = i") simp_all
    qed
  qed
qed

section \<open>Recovery and commit\<close>

definition hdr_ok :: "nat \<Rightarrow> nat list \<Rightarrow> bool" where
  "hdr_ok st h \<longleftrightarrow> length h < LOGSIZE \<and> distinct h \<and> (\<forall>n \<in> set h. n < 2 ^ 31) \<and> set h \<inter> area st (LOGSIZE - 1) = {}"

lemma hdr_ok_area: "hdr_ok st h \<Longrightarrow> set h \<inter> area st (length h) = {}"
proof -
  assume a: "hdr_ok st h"
  then have "length h \<le> LOGSIZE - 1" unfolding hdr_ok_def by linarith
  then show ?thesis using a area_mono unfolding hdr_ok_def by blast
qed

definition log_at :: "logst \<Rightarrow> nat \<Rightarrow> nat \<Rightarrow> bool" where
  "log_at lg d st \<longleftrightarrow> u32_of (log_dev lg) = d \<and> log_start lg = int st \<and> st + LOGSIZE < 2 ^ 31"

lemma logged_iff:
  "logged lg d st h \<longleftrightarrow> log_at lg d st \<and> hdr_ok st h \<and> nat (lh_n lg) = length h \<and> (\<forall>i < length h. lh_block lg i = int (h ! i))"
  by (auto simp: logged_def log_at_def hdr_ok_def)

lemma logged_Nil: "log_at lg d st \<Longrightarrow> logged (lg\<lparr>lh_n := 0\<rparr>) d st []"
  by (simp add: logged_iff log_at_def hdr_ok_def params)

lemma s32_of_u32: "s32 y = x \<Longrightarrow> u32_of x < 2 ^ 31 \<Longrightarrow> x = int (u32_of x)"
proof -
  assume x: "s32 y = x" "u32_of x < 2 ^ 31"
  have r: "- (2 ^ 31) \<le> x" "x < 2 ^ 31" using s32_range [of y] x(1) by simp_all
  have "0 \<le> x"
  proof (rule ccontr)
    assume "\<not> 0 \<le> x"
    then have "x mod 2 ^ 32 = x + 2 ^ 32" using r by (intro mod_pos_pos_trivial [of "x + 2 ^ 32" "2 ^ 32", simplified mod_add_self2]) simp_all
    then have "2 ^ 31 \<le> x mod 2 ^ 32" using r by simp
    then show False using x(2) by (simp add: u32_of_def)
  qed
  with r show ?thesis by (simp add: u32_of_def)
qed

lemma read_head_ok:
  fixes s :: "'z klog_scheme"
  assumes c: "bcache p d (\<lambda>_. 0) {} C s" and lg: "log_at (log s) d st" and h: "hdr_ok st (loghead st (sectors s))"
  obtains t where "read_head s = Ok () t" "bcache p d (\<lambda>_. 0) {} C t" "logged (log t) d st (loghead st (sectors s))"
    "jrun p s t []" "log_at (log t) d st"
proof -
  let ?h = "loghead st (sectors s)"
  have st: "st < 2 ^ 31" "u32_of (log_start (log s)) = st" "u32_of (log_dev (log s)) = d"
    using lg by (simp_all add: log_at_def u32_of_small)
  obtain b s1 where 1: "bread d st s = Ok b s1" "bcache p d ((\<lambda>_. 0)(st := 0 + 1)) (insert st {}) C s1" "bufof d (bufs s1) b st"
    "bstep p d (\<lambda>_. 0) s s1" "sectors s1 = sectors s" "dhist s1 = dhist s \<or> dhist s1 = dhist s @ [sectors s]"
    by (rule bread_ok [OF c, of st]) (use st in \<open>auto simp: params\<close>)
  have lg1: "log s1 = log s" using 1(4) by (simp add: bstep_def bframe_log)
  have cd: "C st = dblk (sectors s) st" using btabD(12) [OF bcacheD(6) [OF c]] by (simp add: dblock_dblk)
  have bd: "bdata (bufs s1 b) = C st" by (rule btabD(7) [OF bcacheD(6) [OF 1(2)] 1(3)])
  have tk: "take 512 (C st) = sectors s (2 * st)" using bcacheD(5) [OF c] by (simp add: cd dblk_def)
  have rd: "rd32 off (C st) = rd32 off (sectors s (2 * st))" if "off + 4 \<le> 512" for off
    using rd32_take [OF that, of "C st"] tk by simp
  have n: "lh_get_n (C st) = lh_get_n (sectors s (2 * st))" by (simp add: lh_get_n_def rd)
  have len: "nat (lh_get_n (C st)) = length ?h" by (simp add: n loghead_def lhead_def)
  have hl: "length ?h < LOGSIZE" "\<forall>n \<in> set ?h. n < 2 ^ 31" using h by (simp_all add: hdr_ok_def)
  have blk: "lh_get_block i (C st) = int (?h ! i)" if i: "i < length ?h" for i
  proof -
    have g: "lh_get_block i (C st) = lh_get_block i (sectors s (2 * st))"
      using i hl(1) by (simp add: lh_get_block_def rd params)
    have "?h ! i = u32_of (lh_get_block i (sectors s (2 * st)))" using i by (simp add: loghead_def lhead_def)
    moreover have "?h ! i < 2 ^ 31" using hl(2) i by simp
    ultimately show ?thesis using s32_of_u32 [of _ "lh_get_block i (C st)"] g by (auto simp: lh_get_block_def)
  qed
  let ?s2 = "upd_log (\<lambda>l. l\<lparr>lh_n := lh_get_n (C st)\<rparr>) s1"
  obtain f where f: "read_head_loop (length ?h) 0 (C st) ?s2 = Ok () (?s2\<lparr>log := (log ?s2)\<lparr>lh_block := f\<rparr>\<rparr>)"
    "\<forall>j. f j = (if 0 \<le> j \<and> j < 0 + length ?h then lh_get_block j (C st) else lh_block (log ?s2) j)"
    using read_head_loop_ok [of 0 "length ?h" "C st" ?s2] hl(1) by auto
  let ?l = "(log s)\<lparr>lh_n := lh_get_n (C st), lh_block := f\<rparr>" let ?s3 = "s1\<lparr>log := ?l\<rparr>"
  have s3: "?s2\<lparr>log := (log ?s2)\<lparr>lh_block := f\<rparr>\<rparr> = ?s3" by (simp add: upd_log_def lg1)
  have c3: "bcache p d ((\<lambda>_. 0)(st := 0 + 1)) (insert st {}) C ?s3" "bufof d (bufs ?s3) b st" using 1(2,3) by simp_all
  obtain t where 4: "brelse b ?s3 = Ok () t" "bcache p d (((\<lambda>_. 0)(st := 0 + 1))(st := ((\<lambda>_. 0)(st := 0 + 1)) st - 1)) (insert st {} - {st}) C t"
    "bstep p d ((\<lambda>_. 0)(st := 0 + 1)) ?s3 t" "sectors t = sectors ?s3" "dhist t = dhist ?s3"
    by (rule brelse_ok [OF c3]) (use cd 1(5) in \<open>simp_all add: dblock_dblk\<close>)
  have "((\<lambda>_. 0 :: nat)(st := 0 + 1))(st := ((\<lambda>_. 0)(st := 0 + 1)) st - 1) = (\<lambda>_. 0)" by (simp add: fun_eq_iff)
  then have ct: "bcache p d (\<lambda>_. 0) {} C t" by (rule bcache_cong [OF 4(2)]) simp_all
  have lt: "log t = ?l" using 4(3) bframe_log [of ?s3 t] by (simp add: bstep_def)
  have nl: "nat (lh_n (log ?s2)) = length ?h" by (simp add: upd_log_def len)
  have r: "read_head s = Ok () t"
    unfolding read_head_def st 1(1) bindr_simps Let_def bd nl f(1) s3 4(1) ..
  have la: "log_at (log t) d st" using lg by (simp add: lt log_at_def)
  then have lo: "logged (log t) d st ?h" using h f(2) blk len by (simp add: logged_iff lt)
  have "jrun p s s1 []" "jrun p s1 ?s3 []" "jrun p ?s3 t []"
    using jstep_run [OF jstep_reads [OF 1(4-6)]] jrun_log [of p s1] jstep_run [OF jstep_reads [OF 4(3,4)]] 4(5) by simp_all
  then have "jrun p s t []" using jrun_trans [of p s s1 "[]" ?s3 "[]"] jrun_trans [of p s ?s3 "[]" t "[]"] by simp
  then show ?thesis using r ct lo la by (intro that)
qed

lemma homews_replay:
  assumes "distinct h"
  shows "homews st h C 0 = map (\<lambda>k. (k, replay st h C k)) h"
  by (rule nth_equalityI) (use assms in \<open>simp_all add: homews_def replay_nth\<close>)

lemma homews_logged:
  assumes "\<And>i. i < length h \<Longrightarrow> C' (st + 1 + i) = C (h ! i)"
  shows "homews st h C' 0 = map (\<lambda>k. (k, C k)) h"
  by (rule nth_equalityI) (use assms in \<open>auto simp: homews_def\<close>)

lemma recover_ok:
  fixes s :: "'z klog_scheme"
  assumes c: "bcache p d (\<lambda>_. 0) {} (dblock s) s" and lg: "log_at (log s) d st" and h: "hdr_ok st (loghead st (sectors s))"
  obtains t v0 C' where "recover_from_log s = Ok () t" "lhead (take 512 v0) = []" "bcache p d (\<lambda>_. 0) {} C' t" "lh_n (log t) = 0" "log_at (log t) d st"
    "jrun p s t (map (\<lambda>k. (k, replay st (loghead st (sectors s)) (dblk (sectors s)) k)) (loghead st (sectors s)) @ [(st, v0)])"
proof -
  let ?h = "loghead st (sectors s)" and ?C = "dblk (sectors s)"
  have dh: "distinct ?h" using h by (simp add: hdr_ok_def)
  obtain t1 where 1: "read_head s = Ok () t1" "bcache p d (\<lambda>_. 0) {} ?C t1" "logged (log t1) d st ?h" "jrun p s t1 []" "log_at (log t1) d st"
    by (rule read_head_ok [OF c [unfolded dblock_dblk] lg h])
  obtain t2 where 2: "install_loop (length ?h) 0 True t1 = Ok () t2" "bcache p d (\<lambda>_. 0) {} (upds (homews st ?h ?C 0) ?C) t2"
    "jstep p t1 t2 (homews st ?h ?C 0)"
    using install_loop_ok [where rc = True, of p d 0 ?h ?C t1 st "length ?h"] 1(2,3) by auto
  have l2: "log t2 = log t1" using 2(3) by (simp add: jstep_def)
  let ?s3 = "t2\<lparr>log := (log t2)\<lparr>lh_n := 0\<rparr>\<rparr>"
  have lg3: "logged (log ?s3) d st []" using logged_Nil 1(5) l2 by simp
  have c3: "bcache p d (\<lambda>_. 0) {} (upds (homews st ?h ?C 0) ?C) ?s3" using 2(2) by simp
  obtain t v0 where 4: "write_head ?s3 = Ok () t" "lhead (take 512 v0) = []"
    "bcache p d (\<lambda>_. 0) {} ((upds (homews st ?h ?C 0) ?C)(st := v0)) t" "jstep p ?s3 t [(st, v0)]"
    by (rule write_head_ok [OF c3 lg3]) (auto simp: params)
  have n: "nat (lh_n (log t1)) = length ?h" using 1(3) by (simp add: logged_iff)
  have r: "recover_from_log s = Ok () t"
    unfolding recover_from_log_def 1(1) bindr_simps install_trans_def n 2(1) upd_log_def 4(1) ..
  have lt: "log t = (log t1)\<lparr>lh_n := 0\<rparr>" using 4(4) l2 by (simp add: jstep_def)
  have j: "jrun p s t ([] @ (homews st ?h ?C 0 @ ([] @ [(st, v0)])))"
    by (rule jrun_trans [OF 1(4) jrun_trans [OF jstep_run [OF 2(3)] jrun_trans [OF jrun_log jstep_run [OF 4(4)]]]])
  show ?thesis
    by (rule that [OF r 4(2,3)]) (use j lt 1(5) in \<open>simp_all add: homews_replay [OF dh] log_at_def\<close>)
qed

lemma commit_ok:
  fixes s :: "'z klog_scheme"
  assumes c: "bcache p d (pins h) {} C s" and lg: "logged (log s) d st h" and ne: "h \<noteq> []"
  obtains t v1 v0 C' where "commit s = Ok () t" "lhead (take 512 v1) = h" "lhead (take 512 v0) = []" "bcache p d (\<lambda>_. 0) {} C' t"
    "log t = (log s)\<lparr>lh_n := 0\<rparr>" "\<forall>k. k \<notin> area st (length h) \<longrightarrow> C' k = C k"
    "jrun p s t (map (\<lambda>i. (st + 1 + i, C (h ! i))) [0..<length h] @ (st, v1) # map (\<lambda>k. (k, C k)) h @ [(st, v0)])"
proof -
  note l = loggedD [OF lg]
  have "0 < nat (lh_n (log s))" unfolding l(3) using ne by simp
  then have "0 < lh_n (log s)" by (rule zero_less_nat_eq [THEN iffD1])
  note ln = this l(3)
  let ?ws = "logws st h C 0" let ?C1 = "upds ?ws C"
  obtain t1 where 1: "write_log_loop (length h) 0 s = Ok () t1" "bcache p d (pins h) {} ?C1 t1" "jstep p s t1 ?ws"
    using write_log_loop_ok [OF c lg, of 0 "length h"] by auto
  have l1: "log t1 = log s" using 1(3) by (simp add: jstep_def)
  have ps: "pins h st = 0" "card {k. 0 < pins h k} < NBUF" using l(13,5) pins_card [OF l(6)] by (simp_all add: pins_def [of h st])
  have lg1: "logged (log t1) d st h" "0 \<le> lh_n (log t1)" using lg ln l1 by simp_all
  obtain t2 v1 where 2: "write_head t1 = Ok () t2" "lhead (take 512 v1) = h" "bcache p d (pins h) {} (?C1(st := v1)) t2" "jstep p t1 t2 [(st, v1)]"
    by (rule write_head_ok [OF 1(2) lg1 ps])
  let ?C2 = "?C1(st := v1)"
  have l2: "log t2 = log s" using 2(4) l1 by (simp add: jstep_def)
  have dw: "distinct (map fst ?ws)" by (simp add: logws_def o_def distinct_map inj_on_def)
  have logd: "?C2 (st + 1 + i) = C (h ! i)" if "i < length h" for i
    using upds_in [OF dw, of "st + 1 + i" "C (h ! i)"] that by (auto simp: logws_def)
  have hw: "homews st h ?C2 0 = map (\<lambda>k. (k, C k)) h" by (rule homews_logged) (rule logd)
  obtain t3 where 3: "install_loop (length h) 0 False t2 = Ok () t3" "bcache p d (\<lambda>_. 0) {} (upds (homews st h ?C2 0) ?C2) t3"
    "jstep p t2 t3 (homews st h ?C2 0)"
    using install_loop_ok [where rc = False, of p d 0 h ?C2 t2 st "length h"] 2(3) lg l2 by auto
  let ?C3 = "upds (homews st h ?C2 0) ?C2"
  have l3: "log t3 = log s" using 3(3) l2 by (simp add: jstep_def)
  let ?s4 = "t3\<lparr>log := (log t3)\<lparr>lh_n := 0\<rparr>\<rparr>"
  have "log_at (log s) d st" using lg by (simp add: logged_iff)
  then have lg4: "logged (log ?s4) d st []" using logged_Nil l3 by simp
  have c4: "bcache p d (\<lambda>_. 0) {} ?C3 ?s4" using 3(2) by simp
  obtain t v0 where 4: "write_head ?s4 = Ok () t" "lhead (take 512 v0) = []" "bcache p d (\<lambda>_. 0) {} (?C3(st := v0)) t" "jstep p ?s4 t [(st, v0)]"
    by (rule write_head_ok [OF c4 lg4]) (auto simp: params)
  have n: "nat (lh_n (log t2)) = length h" using l2 ln(2) by simp
  have r: "commit s = Ok () t"
    using ln(1) unfolding commit_def write_log_def ln(2) 1(1) bindr_simps 2(1) install_trans_def n 3(1) upd_log_def 4(1) by simp
  have same: "(?C3(st := v0)) k = C k" if k: "k \<notin> area st (length h)" for k
  proof -
    have k': "k \<noteq> st" "k \<notin> fst ` set ?ws" using k by (auto simp: area_def logws_def)
    show ?thesis
    proof (cases "k \<in> set h")
      case True
      then have "?C3 k = C k" unfolding hw by (intro upds_in) (use l(6) in \<open>auto simp: o_def\<close>)
      with k' show ?thesis by simp
    next
      case False
      then have "?C3 k = ?C2 k" unfolding hw by (intro upds_other) auto
      with k' show ?thesis by (simp add: upds_other)
    qed
  qed
  have lt: "log t = (log s)\<lparr>lh_n := 0\<rparr>" using 4(4) l3 by (simp add: jstep_def)
  have "jrun p s t (?ws @ ([(st, v1)] @ (homews st h ?C2 0 @ ([] @ [(st, v0)]))))"
    by (rule jrun_trans [OF jstep_run [OF 1(3)] jrun_trans [OF jstep_run [OF 2(4)] jrun_trans [OF jstep_run [OF 3(3)]
        jrun_trans [OF jrun_log jstep_run [OF 4(4)]]]]])
  then have j: "jrun p s t (map (\<lambda>i. (st + 1 + i, C (h ! i))) [0..<length h] @ (st, v1) # map (\<lambda>k. (k, C k)) h @ [(st, v0)])"
    unfolding hw by (simp add: logws_def)
  show ?thesis by (rule that [OF r 2(2) 4(2,3) lt _ j]) (use same in blast)
qed

section \<open>Atomicity\<close>

text \<open>What recovery makes of a medium.\<close>

definition recovered :: "nat \<Rightarrow> (nat \<Rightarrow> u8 list) \<Rightarrow> nat \<Rightarrow> u8 list" where
  "recovered st m = replay st (loghead st m) (dblk m)"

lemma recover_run:
  fixes s :: "'z klog_scheme"
  assumes c: "bcache p d (\<lambda>_. 0) {} (dblock s) s" and lg: "log_at (log s) d st" and h: "hdr_ok st (loghead st (sectors s))"
  obtains t hs where "recover_from_log s = Ok () t" "dhist t = dhist s @ hs" "lh_n (log t) = 0" "loghead st (sectors t) = []"
    "\<And>k. k \<notin> area st (length (loghead st (sectors s))) \<Longrightarrow> dblk (sectors t) k = recovered st (sectors s) k"
    "\<And>x k. hcrash (sectors s) hs x \<Longrightarrow> k \<notin> area st (length (loghead st (sectors s))) \<Longrightarrow> recovered st x k = recovered st (sectors s) k"
proof -
  let ?m = "sectors s" let ?h = "loghead st ?m"
  let ?D = "recovered st ?m"
  have hh: "distinct ?h" "set ?h \<inter> area st (length ?h) = {}" using h hdr_ok_area [OF h] by (simp_all add: hdr_ok_def)
  obtain t v0 C' where 1: "recover_from_log s = Ok () t" "lhead (take 512 v0) = []" "lh_n (log t) = 0"
    "jrun p s t (map (\<lambda>k. (k, ?D k)) ?h @ [(st, v0)])" unfolding recovered_def by (rule recover_ok [OF c lg h])
  from 1(4) obtain hs where 2: "dhist t = dhist s @ hs" "wtrace ?m (map (\<lambda>k. (k, ?D k)) ?h @ [(st, v0)]) hs"
    "sectors t = wapply dput (map (\<lambda>k. (k, ?D k)) ?h @ [(st, v0)]) ?m" by (auto simp: jrun_def)
  have sl: "jl.sealed st ?h ?D (dblk ?m) ?m"
    unfolding jl.sealed_def by (auto simp: recovered_def replay_nth [OF hh(1)])
  have g: "jl.goal ?h ?D (dblk ?m) = ?D"
    by (auto simp: jl.goal_def recovered_def replay_other fun_eq_iff)
  note d = jl.install_done [OF sl hh 1(2)] note x = jl.install_crash [OF sl hh 1(2)]
  show ?thesis
  proof (rule that [OF 1(1) 2(1) 1(3)])
    show "loghead st (sectors t) = []" unfolding 2(3) by (simp add: wapply_append jl.head_put 1(2))
    show "dblk (sectors t) k = ?D k" if "k \<notin> area st (length ?h)" for k
      unfolding 2(3) using d(1) [OF that] by (simp only: g)
    show "recovered st x k = ?D k" if "hcrash ?m hs x" "k \<notin> area st (length ?h)" for x k
      unfolding recovered_def using x [OF wtrace_hcrash [OF 2(2) that(1)] that(2)] by (simp only: g) (simp only: recovered_def)
  qed
qed

lemma commit_run:
  fixes s :: "'z klog_scheme"
  assumes c: "bcache p d (pins h) {} C s" and lg: "logged (log s) d st h" and ne: "h \<noteq> []" and e: "loghead st (sectors s) = []"
  obtains t hs C' where "commit s = Ok () t" "dhist t = dhist s @ hs" "log t = (log s)\<lparr>lh_n := 0\<rparr>" "loghead st (sectors t) = []"
    "bcache p d (\<lambda>_. 0) {} C' t" "\<forall>k. k \<notin> area st (length h) \<longrightarrow> C' k = C k"
    "\<forall>k. k \<notin> area st (length h) \<longrightarrow> dblk (sectors t) k = C k"
    "\<forall>x. hcrash (sectors s) hs x \<longrightarrow> loghead st x = [] \<or> loghead st x = h"
    "\<forall>x. hcrash (sectors s) hs x \<longrightarrow> (\<forall>k. k \<notin> area st (length h) \<longrightarrow> recovered st x k = dblk (sectors s) k) \<or>
       (\<forall>k. k \<notin> area st (length h) \<longrightarrow> recovered st x k = C k)"
proof -
  let ?m = "sectors s"
  have hh: "distinct h" "set h \<inter> area st (length h) = {}" using loggedD(6,16) [OF lg] by simp_all
  obtain t v1 v0 C' where 1: "commit s = Ok () t" "lhead (take 512 v1) = h" "lhead (take 512 v0) = []"
    "log t = (log s)\<lparr>lh_n := 0\<rparr>" and c': "bcache p d (\<lambda>_. 0) {} C' t" "\<forall>k. k \<notin> area st (length h) \<longrightarrow> C' k = C k"
    and j: "jrun p s t (map (\<lambda>i. (st + 1 + i, C (h ! i))) [0..<length h] @ (st, v1) # map (\<lambda>k. (k, C k)) h @ [(st, v0)])"
    by (rule commit_ok [OF c lg ne])
  let ?ws = "map (\<lambda>i. (st + 1 + i, C (h ! i))) [0..<length h] @ (st, v1) # map (\<lambda>k. (k, C k)) h @ [(st, v0)]"
  from j obtain hs where 2: "dhist t = dhist s @ hs" "wtrace ?m ?ws hs" "sectors t = wapply dput ?ws ?m" by (auto simp: jrun_def)
  have g: "jl.goal h C (dblk ?m) k = C k" for k
    using btabD(12) [OF bcacheD(6) [OF c], of k] by (simp add: jl.goal_def pins_def dblock_dblk)
  note v = 1(2,3)
  note D = jl.commit_done [OF e hh v, where D = C] note X = jl.commit_crash [OF e hh v, where D = C]
  show ?thesis
  proof (rule that [OF 1(1) 2(1) 1(4) _ c'])
    show "loghead st (sectors t) = []" unfolding 2(3) by (simp add: wapply_append jl.head_put v)
    show "\<forall>k. k \<notin> area st (length h) \<longrightarrow> dblk (sectors t) k = C k"
      unfolding 2(3) using D(1) by (simp only: g) blast
    note w = wtrace_hcrash [OF 2(2)]
    show "\<forall>x. hcrash ?m hs x \<longrightarrow> (\<forall>k. k \<notin> area st (length h) \<longrightarrow> recovered st x k = dblk ?m k) \<or> (\<forall>k. k \<notin> area st (length h) \<longrightarrow> recovered st x k = C k)"
      using X [OF w] unfolding g recovered_def by blast
    have "st \<notin> set h" using hh(2) by (auto simp: area_def)
    then show "\<forall>x. hcrash ?m hs x \<longrightarrow> loghead st x = [] \<or> loghead st x = h"
      using jl.crash_head [where st = st, OF w] e v by fastforce
  qed
qed

text \<open>
  C9. Commits are atomic and durable. A transaction has changed the blocks \<open>h\<close> in the cache; \<open>C\<close> is the contents of the file
  system's blocks as the transaction leaves them. \<open>commit\<close> returns, and then the disk has the contents \<open>C\<close>. If the machine
  crashes at any time during it, also in the middle of the two sectors of a block, and the rebooted machine runs
  \<open>recover_from_log\<close>, that call returns and the disk has either all blocks as they were before the transaction or all
  blocks as in \<open>C\<close>.
\<close>

theorem commit_crash_atomic:
  fixes s :: "'z klog_scheme"
  assumes c: "bcache p d (pins h) {} C s" and lg: "logged (log s) d st h" and ne: "h \<noteq> []" and e: "loghead st (sectors s) = []"
  shows "\<exists>t hs. commit s = Ok () t \<and> dhist t = dhist s @ hs \<and> (\<forall>k. k \<notin> area st (length h) \<longrightarrow> dblk (sectors t) k = C k) \<and>
    (\<forall>q (u :: 'z klog_scheme). hcrash (sectors s) hs (sectors u) \<longrightarrow> bcache q d (\<lambda>_. 0) {} (dblock u) u \<longrightarrow> log_at (log u) d st \<longrightarrow>
      (\<exists>v. recover_from_log u = Ok () v \<and>
        ((\<forall>k. k \<notin> area st (length h) \<longrightarrow> dblk (sectors v) k = dblk (sectors s) k) \<or>
         (\<forall>k. k \<notin> area st (length h) \<longrightarrow> dblk (sectors v) k = C k))))"
proof -
  obtain t hs where t: "commit s = Ok () t" "dhist t = dhist s @ hs" "\<forall>k. k \<notin> area st (length h) \<longrightarrow> dblk (sectors t) k = C k"
    and x: "\<forall>x. hcrash (sectors s) hs x \<longrightarrow> loghead st x = [] \<or> loghead st x = h"
      "\<forall>x. hcrash (sectors s) hs x \<longrightarrow> (\<forall>k. k \<notin> area st (length h) \<longrightarrow> recovered st x k = dblk (sectors s) k) \<or>
       (\<forall>k. k \<notin> area st (length h) \<longrightarrow> recovered st x k = C k)"
    by (rule commit_run [OF c lg ne e])
  have ok: "hdr_ok st h" "hdr_ok st []" using lg by (simp_all add: logged_iff hdr_ok_def params)
  have rc: "\<exists>v. recover_from_log u = Ok () v \<and> ((\<forall>k. k \<notin> area st (length h) \<longrightarrow> dblk (sectors v) k = dblk (sectors s) k) \<or>
         (\<forall>k. k \<notin> area st (length h) \<longrightarrow> dblk (sectors v) k = C k))"
    if u: "hcrash (sectors s) hs (sectors u)" "bcache q d (\<lambda>_. 0) {} (dblock u) u" "log_at (log u) d st" for q and u :: "'z klog_scheme"
  proof -
    have "hdr_ok st (loghead st (sectors u))" using x(1) [rule_format, OF u(1)] ok by auto
    from recover_run [OF u(2,3) this] obtain v where v: "recover_from_log u = Ok () v"
      "\<And>k. k \<notin> area st (length (loghead st (sectors u))) \<Longrightarrow> dblk (sectors v) k = recovered st (sectors u) k" by metis
    have "area st (length (loghead st (sectors u))) \<subseteq> area st (length h)" using x(1) [rule_format, OF u(1)] by (auto simp: area_def)
    then have "dblk (sectors v) k = recovered st (sectors u) k" if "k \<notin> area st (length h)" for k using v(2) that by blast
    with x(2) [rule_format, OF u(1)] v(1) show ?thesis by auto
  qed
  show ?thesis using t rc by (intro exI [of _ t] exI [of _ hs]) simp
qed

text \<open>
  C10. Recovery is idempotent. \<open>recover_from_log\<close> on a freshly booted machine returns, the blocks of the file system are
  then those that the log prescribes and the log is empty; and a crash during the recovery, at any of its disk requests or
  in the middle of one, leaves a medium for which the log prescribes the same blocks, so that running it again succeeds.
\<close>

theorem recovery_idempotent:
  fixes s :: "'z klog_scheme"
  assumes "bcache p d (\<lambda>_. 0) {} (dblock s) s" and "log_at (log s) d st" and "hdr_ok st (loghead st (sectors s))"
  shows "\<exists>t hs. recover_from_log s = Ok () t \<and> dhist t = dhist s @ hs \<and> loghead st (sectors t) = [] \<and>
    (\<forall>k. k \<notin> area st (length (loghead st (sectors s))) \<longrightarrow> dblk (sectors t) k = recovered st (sectors s) k) \<and>
    (\<forall>x k. hcrash (sectors s) hs x \<longrightarrow> k \<notin> area st (length (loghead st (sectors s))) \<longrightarrow>
       recovered st x k = recovered st (sectors s) k)"
  by (rule recover_run [OF assms]) blast

text \<open>A machine for the examples: the log starts at block 2 of device 1.\<close>

definition run_log :: "(nat \<Rightarrow> u8 list) \<Rightarrow> (nat \<Rightarrow> buf) \<Rightarrow> nat list \<Rightarrow> klog" where
  "run_log m B h = (kbio.extend (run_bio no_buf m) \<lparr>log = \<lparr>log_start = 2, log_size = 30, outstanding = 0, committing = False,
     log_dev = 1, lh_n = int (length h), lh_block = (\<lambda>i. int (h ! i))\<rparr>\<rparr>)\<lparr>bufs := B\<rparr>"

lemma run_log_fields:
  "spin (run_log m B h) = run_spin" "procs (run_log m B h) = procs (run_bio no_buf m)" "device (run_log m B h) = vserve"
  "bufs (run_log m B h) = B" "sectors (run_log m B h) = m" "slocks (run_log m B h) = (\<lambda>_. \<lparr>sl_locked = False, sl_name = [], sl_pid = 0\<rparr>)"
  "vq (run_log m B h) = vq (run_bio no_buf m)" "vdisk (run_log m B h) = vdisk (run_bio no_buf m)" "lru (blist (run_log m B h))"
  "log (run_log m B h) = \<lparr>log_start = 2, log_size = 30, outstanding = 0, committing = False,
     log_dev = 1, lh_n = int (length h), lh_block = (\<lambda>i. int (h ! i))\<rparr>"
  using run_bio_fields [of no_buf m] by (simp_all add: run_log_def kbio.defs)

lemma run_log_ready: "quiet 0 (run_log m B h)" "vidle (run_log m B h)" "device_ok (device (run_log m B h))"
proof -
  show "quiet 0 (run_log m B h)"
    using run_disk_quiet(1) [of no_buf m] by (simp add: quiet_def calm_in_def run_log_fields run_bio_fields run_disk_def)
  show "vidle (run_log m B h)"
    using run_disk_quiet(2) [of no_buf m] by (simp add: vidle_def run_log_fields run_bio_fields)
  show "device_ok (device (run_log m B h))" by (simp add: run_log_fields vserve_ok)
qed

lemma run_log_boot:
  assumes "\<And>i. length (m i) = 512"
  shows "bcache 0 1 (\<lambda>_. 0) {} (dblock (run_log m (\<lambda>_. no_buf) h)) (run_log m (\<lambda>_. no_buf) h)"
  by (rule bcache_start) (simp_all add: run_log_ready run_log_fields vserve_ok assms no_buf_def BSIZE_def)

definition pinned_buf :: "nat \<Rightarrow> u8 list \<Rightarrow> buf" where
  "pinned_buf n v = \<lparr>bvalid = True, bdisk = False, bdev = 1, blockno = n, refcnt = 1, bdata = v\<rparr>"

lemma run_log_pinned:
  assumes "\<And>i. length (m i) = 512" and "length v = BSIZE"
  shows "bcache 0 1 (pins [n]) {} ((dblk m)(n := v)) (run_log m ((\<lambda>_. no_buf)(0 := pinned_buf n v)) h)"
proof -
  let ?B = "(\<lambda>_. no_buf)(0 := pinned_buf n v)"
  have u: "bufof 1 ?B b k \<longleftrightarrow> b = 0 \<and> k = n" for b k
    by (auto simp: bufof_def no_buf_def pinned_buf_def params)
  have "btab q 1 (pins [n]) {} ((dblk m)(n := v)) (dblk m) ?B (\<lambda>_. \<lparr>sl_locked = False, sl_name = [], sl_pid = 0\<rparr>)" for q
    unfolding btab_def u using assms(2) by (auto simp: no_buf_def pinned_buf_def BSIZE_def pins_def)
  then show ?thesis using assms(1) unfolding bcache_def
    by (simp add: run_log_ready dblock_dblk run_log_fields vserve_ok)
qed

lemma log_at_run: "log_at (log (run_log m B h)) 1 2"
  by (simp add: log_at_def run_log_fields u32_of_def params)

lemma zero_head: "loghead 2 (\<lambda>_. replicate 512 0) = []"
  by (simp add: loghead_def lhead_def lh_get_n_def rd32_def get_at_def numeral_eq_Suc s32_def)

lemma hcrash_first: "hcrash m hs m"
  by (cases hs) (simp_all add: torn_refl)

theorem commit_crash_atomic_witness:
  "\<exists>t v. commit (run_log (\<lambda>_. replicate 512 0) ((\<lambda>_. no_buf)(0 := pinned_buf 40 (replicate 1024 7))) [40]) = Ok () t \<and>
     dblk (sectors t) 40 = replicate 1024 7 \<and> recover_from_log (run_log (\<lambda>_. replicate 512 0) (\<lambda>_. no_buf) []) = Ok () v \<and>
     dblk (sectors v) 40 \<in> {replicate 1024 0, replicate 1024 7}"
proof -
  let ?m = "\<lambda>_ :: nat. replicate 512 (0 :: u8)" let ?v = "replicate 1024 7"
  let ?s = "run_log ?m ((\<lambda>_. no_buf)(0 := pinned_buf 40 ?v)) [40]" let ?u = "run_log ?m (\<lambda>_. no_buf) []"
  have c: "bcache 0 1 (pins [40]) {} ((dblk ?m)(40 := ?v)) ?s" by (rule run_log_pinned) (simp_all add: BSIZE_def)
  have l: "logged (log ?s) 1 2 [40]"
    using log_at_run [of ?m "(\<lambda>_. no_buf)(0 := pinned_buf 40 ?v)" "[40]"] by (simp add: logged_iff hdr_ok_def run_log_fields params area_def)
  have e: "loghead 2 (sectors ?s) = []" by (simp add: run_log_fields zero_head)
  have b: "bcache 0 1 (\<lambda>_. 0) {} (dblock ?u) ?u" by (rule run_log_boot) simp
  obtain t hs where t: "commit ?s = Ok () t" "\<forall>k. k \<notin> area 2 (length [40 :: nat]) \<longrightarrow> dblk (sectors t) k = ((dblk ?m)(40 := ?v)) k"
    and r: "\<forall>q (u :: klog). hcrash (sectors ?s) hs (sectors u) \<longrightarrow> bcache q 1 (\<lambda>_. 0) {} (dblock u) u \<longrightarrow> log_at (log u) 1 2 \<longrightarrow>
      (\<exists>v. recover_from_log u = Ok () v \<and>
        ((\<forall>k. k \<notin> area 2 (length [40 :: nat]) \<longrightarrow> dblk (sectors v) k = dblk (sectors ?s) k) \<or>
         (\<forall>k. k \<notin> area 2 (length [40 :: nat]) \<longrightarrow> dblk (sectors v) k = ((dblk ?m)(40 := ?v)) k)))"
    using commit_crash_atomic [OF c l _ e] by auto
  have "hcrash (sectors ?s) hs (sectors ?u)" by (simp add: run_log_fields hcrash_first)
  with r b log_at_run [of ?m "\<lambda>_. no_buf" "[]"] obtain v where v: "recover_from_log ?u = Ok () v"
    "(\<forall>k. k \<notin> area 2 (length [40 :: nat]) \<longrightarrow> dblk (sectors v) k = dblk (sectors ?s) k) \<or>
     (\<forall>k. k \<notin> area 2 (length [40 :: nat]) \<longrightarrow> dblk (sectors v) k = ((dblk ?m)(40 := ?v)) k)" by blast
  have a: "40 \<notin> area 2 (length [40 :: nat])" by (simp add: area_def)
  have z: "dblk ?m 40 = replicate 1024 0" by (simp add: dblk_def replicate_add [symmetric])
  have "dblk (sectors t) 40 = ?v" using t(2) a by simp
  moreover have "dblk (sectors v) 40 \<in> {replicate 1024 0, ?v}" using v(2) a z by (auto simp: run_log_fields)
  ultimately show ?thesis using t(1) v(1) by blast
qed

theorem recovery_idempotent_witness:
  "\<exists>t. recover_from_log (run_log (\<lambda>_. replicate 512 0) (\<lambda>_. no_buf) []) = Ok () t \<and> loghead 2 (sectors t) = [] \<and>
     dblk (sectors t) 40 = replicate 1024 0"
proof -
  let ?m = "\<lambda>_ :: nat. replicate 512 (0 :: u8)" let ?u = "run_log ?m (\<lambda>_. no_buf) []"
  have b: "bcache 0 1 (\<lambda>_. 0) {} (dblock ?u) ?u" by (rule run_log_boot) simp
  have h: "loghead 2 (sectors ?u) = []" by (simp add: run_log_fields zero_head)
  then have "hdr_ok 2 (loghead 2 (sectors ?u))" by (simp add: hdr_ok_def params)
  from recovery_idempotent [OF b log_at_run this] obtain t where "recover_from_log ?u = Ok () t" "loghead 2 (sectors t) = []"
    "\<forall>k. k \<notin> area 2 (length (loghead 2 (sectors ?u))) \<longrightarrow> dblk (sectors t) k = recovered 2 (sectors ?u) k" by blast
  moreover have "dblk ?m 40 = replicate 1024 0" by (simp add: dblk_def replicate_add [symmetric])
  moreover have "(40 :: nat) \<notin> area 2 (length (loghead 2 (sectors ?u)))" unfolding h by (simp add: area_def)
  ultimately show ?thesis unfolding recovered_def h by (intro exI [of _ t]) (simp add: run_log_fields)
qed

section \<open>Whole transactions\<close>

lemma log_find_ok:
  assumes "\<And>j. j < length h \<Longrightarrow> u32_of (bl j) = h ! j" and "i + k = length h" and "n \<notin> set (take i h)" and "distinct h"
  shows "log_find k i n bl = (if n \<in> set h then (THE j. j < length h \<and> h ! j = n) else length h)"
  using assms(2,3)
proof (induction k arbitrary: i)
  case 0
  then show ?case by simp
next
  case (Suc k)
  have i: "i < length h" "u32_of (bl i) = h ! i" using Suc.prems(1) assms(1) by simp_all
  show ?case
  proof (cases "h ! i = n")
    case True
    then have "(THE j. j < length h \<and> h ! j = n) = i" using i assms(4) by (intro the_equality) (auto simp: nth_eq_iff_index_eq)
    with True i show ?thesis by auto
  next
    case False
    have "n \<notin> set (take (Suc i) h)" using Suc.prems(2) False i(1) by (simp add: take_Suc_conv_app_nth)
    with False i Suc.IH [of "Suc i"] Suc.prems(1) show ?thesis by simp
  qed
qed

lemma log_find_old:
  assumes "\<And>j. j < length h \<Longrightarrow> u32_of (bl j) = h ! j" and "distinct h" and "n \<in> set h"
  shows "log_find (length h) 0 n bl < length h" and "h ! log_find (length h) 0 n bl = n"
proof -
  from assms(3) obtain j where j: "j < length h" "h ! j = n" by (auto simp: in_set_conv_nth)
  then have "(THE j. j < length h \<and> h ! j = n) = j" using assms(2) by (intro the_equality) (auto simp: nth_eq_iff_index_eq)
  then show "log_find (length h) 0 n bl < length h" "h ! log_find (length h) 0 n bl = n"
    using log_find_ok [OF assms(1), of 0 "length h" n] j assms(2,3) by simp_all
qed

lemma log_find_new:
  assumes "\<And>j. j < length h \<Longrightarrow> u32_of (bl j) = h ! j" and "distinct h" and "n \<notin> set h"
  shows "log_find (length h) 0 n bl = length h"
  using log_find_ok [OF assms(1), of 0 "length h" n] assms(2,3) by simp

text \<open>The log inside a transaction: \<open>h\<close> are the blocks logged so far, \<open>m\<close> the number of operations under way.\<close>

definition in_tx :: "logst \<Rightarrow> nat \<Rightarrow> nat \<Rightarrow> nat list \<Rightarrow> int \<Rightarrow> bool" where
  "in_tx lg d st h m \<longleftrightarrow> logged lg d st h \<and> lh_n lg = int (length h) \<and> outstanding lg = m \<and> \<not> committing lg"

lemma bpin_in_section:
  assumes "\<And>l. lk_free l sp" and "spin t = taken LkLog sp"
  shows "bpin b t = Ok () (upd_buf b (\<lambda>x. x\<lparr>refcnt := inc32 (refcnt x)\<rparr>) t)"
proof -
  have f: "lk_free LkBcache (spin t)" using lk_free_taken [OF _ assms(1,1), of LkLog LkBcache] by (simp add: assms(2))
  have c: "calm (spin t) = spin t" using calm_taken [OF lk_free_ok [OF assms(1)]] by (simp add: assms(2))
  from section_ok [OF f, where f = "\<lambda>s. Ok () (upd_buf b (\<lambda>x. x\<lparr>refcnt := inc32 (refcnt x)\<rparr>) s)"]
  show ?thesis by (simp add: bpin_def c upd_buf_def upd_order)
qed

lemma log_write_ok:
  fixes s :: "'z klog_scheme"
  assumes c: "bcache p d R H C s" and b: "bufof d (bufs s) b n" and lg: "in_tx (log s) d st h m" "1 \<le> m"
    and n: "n < 2 ^ 31" "R n + 1 < 2 ^ 32" "n \<notin> area st (LOGSIZE - 1)"
    and room: "n \<in> set h \<or> Suc (length h) < LOGSIZE" "int (length h) < log_size (log s) - 1"
  obtains t where "log_write b s = Ok () t"
    "bcache p d (if n \<in> set h then R else R(n := R n + 1)) H C t" "in_tx (log t) d st (if n \<in> set h then h else h @ [n]) m"
    "log_size (log t) = log_size (log s)" "jrun p s t []" "bufof d (bufs t) b n"
    "t = s\<lparr>bufs := bufs t, log := log t\<rparr>" "\<And>b n. bufof d (bufs s) b n \<Longrightarrow> bufof d (bufs t) b n"
proof -
  note l = loggedD [OF lg(1) [unfolded in_tx_def, THEN conjunct1]]
  have li: "lh_n (log s) = int (length h)" "outstanding (log s) = m" "logged (log s) d st h" using lg(1) by (simp_all add: in_tx_def)
  note q = quiet_D [OF bcacheD(1) [OF c]]
  have bn: "blockno (bufs s b) = n" using b by (simp add: bufof_def)
  have s32n: "s32 (int n) = int n" using n(1) by (rule s32_small)
  let ?i = "log_find (length h) 0 n (lh_block (log s))"
  let ?l = "(log s)\<lparr>lh_block := (lh_block (log s))(?i := int n)\<rparr>"
  let ?f = "\<lambda>s. if lh_n (log s) \<ge> int LOGSIZE \<or> lh_n (log s) \<ge> log_size (log s) - 1 then Panic ''too big a transaction''
       else if outstanding (log s) < 1 then Panic ''log_write outside of trans''
       else let i = log_find (nat (lh_n (log s))) 0 (blockno (bufs s b)) (lh_block (log s));
                s = upd_log (\<lambda>l. l\<lparr>lh_block := (lh_block l)(i := s32 (int (blockno (bufs s b))))\<rparr>) s
            in if int i = lh_n (log s)
               then bindr (bpin b s) (\<lambda>_ s. Ok () (upd_log (\<lambda>l. l\<lparr>lh_n := lh_n l + 1\<rparr>) s))
               else Ok () s"
  have g: "\<not> (lh_n (log s) \<ge> int LOGSIZE \<or> lh_n (log s) \<ge> log_size (log s) - 1)" "\<not> outstanding (log s) < 1"
    using li l(4) room lg(2) by auto
  let ?s1 = "s\<lparr>spin := taken LkLog (spin s)\<rparr>" let ?s2 = "?s1\<lparr>log := ?l\<rparr>"
  have f: "?f ?s1 = (if int ?i = int (length h) then bindr (bpin b ?s2) (\<lambda>_ s. Ok () (upd_log (\<lambda>l. l\<lparr>lh_n := lh_n l + 1\<rparr>) s)) else Ok () ?s2)"
    using g by (simp add: Let_def upd_log_def bn s32n li(1))
  have fd: "\<And>j. j < length h \<Longrightarrow> u32_of (lh_block (log s) j) = h ! j" by (rule l(7))
  show ?thesis
  proof (cases "n \<in> set h")
    case True
    note o = log_find_old [OF fd l(6) True]
    have "lh_block (log s) ?i = int n" using o li(3) by (simp add: logged_def)
    then have same: "?l = log s" by (simp add: fun_upd_idem)
    have "locking LkLog ?f s = Ok () ((?s1\<lparr>log := log s\<rparr>)\<lparr>spin := spin s\<rparr>)"
      by (rule quiet_section [OF bcacheD(1) [OF c]]) (use f o(1) same in simp_all)
    moreover have "(?s1\<lparr>log := log s\<rparr>)\<lparr>spin := spin s\<rparr> = s" by simp
    ultimately have "log_write b s = Ok () s" by (simp only: log_write_def)
    then show ?thesis
      by (rule that) (use True c b lg(1) jstep_run [OF jstep_refl] in simp_all)
  next
    case False
    have i: "?i = length h" by (rule log_find_new [OF fd l(6) False])
    let ?B = "(bufs s)(b := (bufs s b)\<lparr>refcnt := inc32 (refcnt (bufs s b))\<rparr>)"
    let ?l2 = "?l\<lparr>lh_n := int (length h) + 1\<rparr>" let ?t = "s\<lparr>bufs := ?B, log := ?l2\<rparr>"
    have "bpin b ?s2 = Ok () (upd_buf b (\<lambda>x. x\<lparr>refcnt := inc32 (refcnt x)\<rparr>) ?s2)" by (rule bpin_in_section [OF q(7)]) simp
    then have "?f ?s1 = Ok () (?s1\<lparr>bufs := ?B, log := ?l2\<rparr>)" using f i li(1) by (simp add: upd_log_def upd_buf_def)
    then have "locking LkLog ?f s = Ok () ((?s1\<lparr>bufs := ?B, log := ?l2\<rparr>)\<lparr>spin := spin s\<rparr>)"
      by (rule quiet_section [OF bcacheD(1) [OF c]]) simp
    then have w: "log_write b s = Ok () ?t" by (simp add: log_write_def upd_order)
    have inc: "inc32 (R n) = R n + 1" using n(2) by (rule inc32_small)
    note B = bref_section [where g = inc32, OF c b n(2) _ inc]
    have e: "?B = (bufs s)(b := (bufs s b)\<lparr>refcnt := R n + 1\<rparr>)" using btabD(6) [OF bcacheD(6) [OF c] b] inc by simp
    have lt: "logged ?l2 d st (h @ [n])"
      using li(3) room(1) False n i unfolding logged_def by (auto simp: nth_append less_Suc_eq)
    have u: "bufof d ?B b' k = bufof d (bufs s) b' k" for b' k by (rule bufof_upd [OF b]) simp_all
    show ?thesis
    proof (rule that [OF w])
      show "bcache p d (if n \<in> set h then R else R(n := R n + 1)) H C ?t" using B(2) False e by simp
      show "in_tx (log ?t) d st (if n \<in> set h then h else h @ [n]) m" using lt False lg(1) by (simp add: in_tx_def)
      show "jrun p s ?t []" by (auto simp: jrun_def intro: wtrace.none)
      show "bufof d (bufs ?t) b n" using u b by simp
      show "bufof d (bufs ?t) b' n'" if "bufof d (bufs s) b' n'" for b' n' using u that by simp
    qed simp_all
  qed
qed

text \<open>A system call that replaces the contents of some blocks, as the file system does it.\<close>

fun updates :: "nat \<Rightarrow> (nat \<times> u8 list) list \<Rightarrow> 'z klog_scheme \<Rightarrow> ('z klog_scheme, unit) res" where
  "updates d [] s = Ok () s"
| "updates d ((n, v) # us) s =
     bindr (bread d n s) (\<lambda>b s.
     bindr (log_write b (upd_buf b (\<lambda>x. x\<lparr>bdata := v\<rparr>) s)) (\<lambda>_ s.
     bindr (brelse b s) (\<lambda>_ s. updates d us s)))"

definition transaction :: "nat \<Rightarrow> (nat \<times> u8 list) list \<Rightarrow> 'z klog_scheme \<Rightarrow> ('z klog_scheme, unit) res" where
  "transaction d us s = bindr (begin_op s) (\<lambda>_ s. bindr (updates d us s) (\<lambda>_ s. end_op s))"

definition upd_ok :: "nat \<Rightarrow> nat \<times> u8 list \<Rightarrow> bool" where
  "upd_ok st u \<longleftrightarrow> fst u < 2 ^ 31 \<and> fst u \<notin> area st (LOGSIZE - 1) \<and> length (snd u) = BSIZE"

lemma update_ok:
  fixes s :: "'z klog_scheme"
  assumes c: "bcache p d (pins h) {} C s" and lg: "in_tx (log s) d st h m" "1 \<le> m" and u: "upd_ok st (n, v)"
    and room: "n \<in> set h \<or> Suc (length h) < LOGSIZE" "int (length h) < log_size (log s) - 1"
  obtains b s1 s2 t where "bread d n s = Ok b s1" "log_write b (upd_buf b (\<lambda>x. x\<lparr>bdata := v\<rparr>) s1) = Ok () s2" "brelse b s2 = Ok () t"
    "bcache p d (pins (if n \<in> set h then h else h @ [n])) {} (C(n := v)) t"
    "in_tx (log t) d st (if n \<in> set h then h else h @ [n]) m" "log_size (log t) = log_size (log s)" "jrun p s t []"
proof -
  have u': "n < 2 ^ 31" "n \<notin> area st (LOGSIZE - 1)" "length v = BSIZE" using u by (simp_all add: upd_ok_def)
  have l: "length h < NBUF" "distinct h" using lg(1) loggedD(5,6) by (auto simp: in_tx_def)
  have p1: "pins h n + 1 < 2 ^ 32" "pins h n \<le> 1" by (simp_all add: pins_def)
  obtain b s1 where 1: "bread d n s = Ok b s1" "bcache p d ((pins h)(n := pins h n + 1)) (insert n {}) C s1" "bufof d (bufs s1) b n"
    "bstep p d (pins h) s s1" "sectors s1 = sectors s" "dhist s1 = dhist s \<or> dhist s1 = dhist s @ [sectors s]"
    by (rule bread_ok [OF c, of n]) (use u' p1 l pins_card in auto)
  let ?R = "(pins h)(n := pins h n + 1)" let ?h = "if n \<in> set h then h else h @ [n]"
  let ?u = "s1\<lparr>bufs := (bufs s1)(b := (bufs s1 b)\<lparr>bdata := v\<rparr>)\<rparr>"
  have cu: "bcache p d ?R (insert n {}) (C(n := v)) ?u" and su: "bstep p d ?R s1 ?u" using bmodify_ok [OF 1(2,3) _ u'(3)] by auto
  have bu: "bufof d (bufs ?u) b n" using bstep_bufof [OF su _ 1(3)] by simp
  have l1: "log s1 = log s" using 1(4) by (simp add: bstep_def bframe_log)
  have lu: "in_tx (log ?u) d st h m" "int (length h) < log_size (log ?u) - 1" using lg(1) room(2) l1 by simp_all
  have r1: "?R n + 1 < 2 ^ 32" using p1(2) by simp
  obtain s2 where 2: "log_write b ?u = Ok () s2" "bcache p d (if n \<in> set h then ?R else ?R(n := ?R n + 1)) (insert n {}) (C(n := v)) s2"
    "in_tx (log s2) d st ?h m" "log_size (log s2) = log_size (log ?u)" "jrun p ?u s2 []" "bufof d (bufs s2) b n"
    by (rule log_write_ok [OF cu bu lu(1) lg(2) u'(1) r1 u'(2) room(1) lu(2)]) blast
  let ?R2 = "if n \<in> set h then ?R else ?R(n := ?R n + 1)"
  have "?R2 n = 2" by (simp add: pins_def)
  then have n1: "?R2 n = 1 \<Longrightarrow> (C(n := v)) n = dblock s2 n" by simp
  obtain t where 3: "brelse b s2 = Ok () t" "bcache p d (?R2(n := ?R2 n - 1)) (insert n {} - {n}) (C(n := v)) t"
    "bstep p d ?R2 s2 t" "sectors t = sectors s2" "dhist t = dhist s2"
    by (rule brelse_ok [OF 2(2) 2(6) _ n1]) simp
  have "?R2(n := ?R2 n - 1) = pins ?h" by (auto simp: pins_def fun_eq_iff)
  then have ct: "bcache p d (pins ?h) {} (C(n := v)) t" by (rule bcache_cong [OF 3(2)]) simp_all
  have l3: "log t = log s2" using 3(3) by (simp add: bstep_def bframe_log)
  have "jrun p s s1 []" "jrun p s1 ?u []" "jrun p s2 t []"
    using jstep_run [OF jstep_reads [OF 1(4-6)]] jstep_run [OF jstep_reads [OF su]] jstep_run [OF jstep_reads [OF 3(3,4)]] 3(5) by simp_all
  note j = jrun_trans [OF this(1) jrun_trans [OF this(2) jrun_trans [OF 2(5) this(3)]]]
  have up: "upd_buf b (\<lambda>x. x\<lparr>bdata := v\<rparr>) s1 = ?u" by (simp add: upd_buf_def)
  show ?thesis
    by (rule that [OF 1(1) _ 3(1) ct]) (use 2(1,3,4) l3 l1 j up in simp_all)
qed

lemma updates_ok:
  fixes s :: "'z klog_scheme"
  assumes "bcache p d (pins h) {} C s" and "in_tx (log s) d st h m" "1 \<le> m" and "\<forall>u \<in> set us. upd_ok st u"
    and "card (set h \<union> fst ` set us) < LOGSIZE" "int (card (set h \<union> fst ` set us)) < log_size (log s) - 1"
  shows "\<exists>t h'. updates d us s = Ok () t \<and> bcache p d (pins h') {} (upds us C) t \<and> in_tx (log t) d st h' m \<and> jrun p s t []"
  using assms
proof (induction us arbitrary: h C s)
  case Nil
  then show ?case by (auto intro: jstep_run jstep_refl)
next
  case (Cons u us)
  obtain n v where u: "u = (n, v)" by (cases u)
  let ?h = "if n \<in> set h then h else h @ [n]"
  have dh: "distinct h" using Cons.prems(2) loggedD(6) by (auto simp: in_tx_def)
  have len: "length h = card (set h)" using dh by (simp add: distinct_card)
  have le: "card (set h) \<le> card (set h \<union> fst ` set (u # us))" by (rule card_mono) auto
  have sh: "set ?h = insert n (set h)" by auto
  have un: "set ?h \<union> fst ` set us = set h \<union> fst ` set (u # us)" using u by auto
  have "card (insert n (set h)) \<le> card (set h \<union> fst ` set (u # us))" by (rule card_mono) (auto simp: u)
  then have r: "n \<in> set h \<or> Suc (length h) < LOGSIZE" using Cons.prems(5) len by (cases "n \<in> set h") auto
  have r2: "int (length h) < log_size (log s) - 1" using Cons.prems(6) le len by linarith
  have uo: "upd_ok st (n, v)" using Cons.prems(4) u by simp
  obtain b s1 s2 t1 where 1: "bread d n s = Ok b s1" "log_write b (upd_buf b (\<lambda>x. x\<lparr>bdata := v\<rparr>) s1) = Ok () s2" "brelse b s2 = Ok () t1"
    "bcache p d (pins ?h) {} (C(n := v)) t1" "in_tx (log t1) d st ?h m" "log_size (log t1) = log_size (log s)" "jrun p s t1 []"
    by (rule update_ok [OF Cons.prems(1-3) uo r r2])
  have us: "\<forall>u \<in> set us. upd_ok st u" using Cons.prems(4) by simp
  have cd: "card (set ?h \<union> fst ` set us) < LOGSIZE" "int (card (set ?h \<union> fst ` set us)) < log_size (log t1) - 1"
    unfolding un using Cons.prems(5,6) 1(6) by simp_all
  obtain t h' where 2: "updates d us t1 = Ok () t" "bcache p d (pins h') {} (upds us (C(n := v))) t" "in_tx (log t) d st h' m" "jrun p t1 t []"
    using Cons.IH [OF 1(4,5) Cons.prems(3) us cd] by blast
  show ?case using 1(1-3) 2 jrun_trans [OF 1(7) 2(4)] by (intro exI [of _ t] exI [of _ h']) (simp add: u)
qed

lemma begin_op_ok:
  assumes q: "quiet p s" and l: "in_tx (log s) d st [] 0"
  shows "begin_op s = Ok () (s\<lparr>log := (log s)\<lparr>outstanding := 1\<rparr>\<rparr>)"
proof -
  note Q = quiet_D [OF q]
  let ?s1 = "s\<lparr>spin := taken LkLog (spin s)\<rparr>" let ?s2 = "?s1\<lparr>log := (log s)\<lparr>outstanding := 1\<rparr>\<rparr>"
  have a: "acq LkLog s = Ok () ?s1" by (rule acq_free [OF Q(7)])
  have "s32 (int MAXOPBLOCKS) = int MAXOPBLOCKS" by (rule s32_small) (simp add: params)
  then have "begin_op_loop ?s1 = rel LkLog ?s2"
    using l by (simp add: begin_op_loop_def in_tx_def upd_log_def params)
  moreover have "rel LkLog ?s2 = Ok () (?s2\<lparr>spin := calm (spin s)\<rparr>)" by (rule rel_taken [OF _ Q(7)]) simp
  moreover have "?s2\<lparr>spin := calm (spin s)\<rparr> = s\<lparr>log := (log s)\<lparr>outstanding := 1\<rparr>\<rparr>"
    by (rule klog.equality) (simp_all add: Q(2))
  ultimately show ?thesis by (simp add: begin_op_def a)
qed

lemma end_op_commits:
  fixes s :: "'z klog_scheme"
  assumes c: "bcache p d (pins h) {} C s" and l: "in_tx (log s) d st h 1" and e: "loghead st (sectors s) = []"
  obtains t hs C' where "end_op s = Ok () t" "dhist t = dhist s @ hs" "in_tx (log t) d st [] 0" "loghead st (sectors t) = []"
    "bcache p d (\<lambda>_. 0) {} C' t" "\<forall>k. k \<notin> area st (length h) \<longrightarrow> C' k = C k" "\<forall>k. k \<notin> area st (length h) \<longrightarrow> dblk (sectors t) k = C k"
    "\<forall>x. hcrash (sectors s) hs x \<longrightarrow> loghead st x = [] \<or> loghead st x = h"
    "\<forall>x. hcrash (sectors s) hs x \<longrightarrow> (\<forall>k. k \<notin> area st (length h) \<longrightarrow> recovered st x k = dblk (sectors s) k) \<or>
       (\<forall>k. k \<notin> area st (length h) \<longrightarrow> recovered st x k = C k)"
proof -
  let ?l1 = "(log s)\<lparr>outstanding := 0, committing := True\<rparr>" let ?s1 = "s\<lparr>log := ?l1\<rparr>"
  note q = bcacheD(1) [OF c]
  let ?f = "\<lambda>s. let s = upd_log (\<lambda>l. l\<lparr>outstanding := outstanding l - 1\<rparr>) s in
       if committing (log s) then Panic ''log.committing''
       else if outstanding (log s) = 0 then Ok True (upd_log (\<lambda>l. l\<lparr>committing := True\<rparr>) s)
       else bindr (wakeup ChLog s) (\<lambda>_ s. Ok False s)"
  have "?f (s\<lparr>spin := taken LkLog (spin s)\<rparr>) = Ok True (s\<lparr>spin := taken LkLog (spin s), log := ?l1\<rparr>)"
    using l by (simp add: in_tx_def upd_log_def Let_def)
  then have "locking LkLog ?f s = Ok True ((s\<lparr>spin := taken LkLog (spin s), log := ?l1\<rparr>)\<lparr>spin := spin s\<rparr>)"
    by (rule quiet_section [OF q]) simp
  moreover have "(s\<lparr>spin := taken LkLog (spin s), log := ?l1\<rparr>)\<lparr>spin := spin s\<rparr> = ?s1" by (rule klog.equality) simp_all
  ultimately have 1: "locking LkLog ?f s = Ok True ?s1" by simp
  have c1: "bcache p d (pins h) {} C ?s1" using c by simp
  have l1: "logged (log ?s1) d st h" "lh_n (log ?s1) = int (length h)" using l by (simp_all add: in_tx_def logged_def)
  have e1: "loghead st (sectors ?s1) = []" using e by simp
  obtain t1 hs C' where 2: "commit ?s1 = Ok () t1" "dhist t1 = dhist s @ hs" "log t1 = ?l1\<lparr>lh_n := 0\<rparr>" "loghead st (sectors t1) = []"
    "bcache p d (\<lambda>_. 0) {} C' t1" "\<forall>k. k \<notin> area st (length h) \<longrightarrow> C' k = C k" "\<forall>k. k \<notin> area st (length h) \<longrightarrow> dblk (sectors t1) k = C k"
    "\<forall>x. hcrash (sectors s) hs x \<longrightarrow> loghead st x = [] \<or> loghead st x = h"
    "\<forall>x. hcrash (sectors s) hs x \<longrightarrow> (\<forall>k. k \<notin> area st (length h) \<longrightarrow> recovered st x k = dblk (sectors s) k) \<or>
       (\<forall>k. k \<notin> area st (length h) \<longrightarrow> recovered st x k = C k)"
  proof (cases "h = []")
    case True
    have z: "lh_n (log s) = 0" "pins h = (\<lambda>_. 0)" using l1(2) True by (simp_all add: pins_def fun_eq_iff)
    have cd: "C k = dblk (sectors s) k" for k using btabD(12) [OF bcacheD(6) [OF c]] z(2) by (simp add: dblock_dblk)
    have rc: "recovered st (sectors s) = dblk (sectors s)" by (simp add: recovered_def e)
    show ?thesis
      by (rule that [of ?s1 "[]" C]) (use c z True e cd rc in \<open>simp_all add: commit_def\<close>)
  next
    case False
    obtain t1 hs C' where "commit ?s1 = Ok () t1" "dhist t1 = dhist ?s1 @ hs" "log t1 = (log ?s1)\<lparr>lh_n := 0\<rparr>" "loghead st (sectors t1) = []"
      "bcache p d (\<lambda>_. 0) {} C' t1" "\<forall>k. k \<notin> area st (length h) \<longrightarrow> C' k = C k" "\<forall>k. k \<notin> area st (length h) \<longrightarrow> dblk (sectors t1) k = C k"
      "\<forall>x. hcrash (sectors ?s1) hs x \<longrightarrow> loghead st x = [] \<or> loghead st x = h"
      "\<forall>x. hcrash (sectors ?s1) hs x \<longrightarrow> (\<forall>k. k \<notin> area st (length h) \<longrightarrow> recovered st x k = dblk (sectors ?s1) k) \<or>
         (\<forall>k. k \<notin> area st (length h) \<longrightarrow> recovered st x k = C k)"
      by (rule commit_run [OF c1 l1(1) False e1])
    then show ?thesis by (intro that [of t1 hs C']) simp_all
  qed
  note q1 = bcacheD(1) [OF 2(5)]
  let ?P = "woken ChLog (Some p) {..<NPROC} (procs t1)" let ?l2 = "(log t1)\<lparr>committing := False\<rparr>" let ?t = "t1\<lparr>procs := ?P, log := ?l2\<rparr>"
  let ?g = "\<lambda>s. wakeup ChLog (upd_log (\<lambda>l. l\<lparr>committing := False\<rparr>) s)" let ?u = "t1\<lparr>spin := taken LkLog (spin t1), log := ?l2\<rparr>"
  have "wakeup ChLog ?u = Ok () (?u\<lparr>procs := woken ChLog (Some p) {..<NPROC} (procs ?u)\<rparr>)"
    by (rule wakeup_taken [OF quiet_D(1) [OF q1], of LkLog]) simp_all
  then have "?g (t1\<lparr>spin := taken LkLog (spin t1)\<rparr>) = Ok () (?u\<lparr>procs := ?P\<rparr>)" by (simp add: upd_log_def)
  then have "locking LkLog ?g t1 = Ok () ((?u\<lparr>procs := ?P\<rparr>)\<lparr>spin := spin t1\<rparr>)" by (rule quiet_section [OF q1]) simp
  moreover have "(?u\<lparr>procs := ?P\<rparr>)\<lparr>spin := spin t1\<rparr> = ?t" by (rule klog.equality) simp_all
  ultimately have 3: "locking LkLog ?g t1 = Ok () ?t" by simp
  have r: "end_op s = Ok () ?t" unfolding end_op_def 1 bindr_simps by (simp add: 2(1) 3)
  have "bcache p d (\<lambda>_. 0) {} C' (t1\<lparr>procs := ?P\<rparr>)"
    by (rule bcacheI [OF 2(5) bcacheD(6) [OF 2(5)]]) (use bcacheD(2,4,5) [OF 2(5)] eased_woken in simp_all)
  then have ct: "bcache p d (\<lambda>_. 0) {} C' ?t" by simp
  have "log_at (log s) d st" using l by (simp add: in_tx_def logged_iff)
  then have lt: "in_tx (log ?t) d st [] 0" by (simp add: in_tx_def 2(3) logged_iff log_at_def hdr_ok_def params)
  show ?thesis by (rule that [OF r _ lt _ ct 2(6) _ 2(8,9)]) (simp_all add: 2(2,4,7))
qed

text \<open>
  The end of a transaction that has changed the blocks \<open>h\<close> in the cache, so that the contents are \<open>C'\<close>, and has not touched the medium
  since state \<open>s\<close>.
\<close>

lemma tx_commits:
  fixes u :: "'z klog_scheme" and s :: "'y klog_scheme"
  assumes cs: "\<And>k. C k = dblk (sectors s) k" and e: "loghead st (sectors s) = []" and cu: "bcache p d (pins h) {} C' u"
    and lu: "in_tx (log u) d st h 1" and m1: "sectors u = sectors s" and h1: "dhist u = dhist s @ hs1" "wtrace (sectors s) [] hs1"
  obtains t hs C'' where "end_op u = Ok () t" "dhist t = dhist s @ hs" "in_tx (log t) d st [] 0" "loghead st (sectors t) = []"
    "bcache p d (\<lambda>_. 0) {} C'' t" "\<forall>k. k \<notin> area st (LOGSIZE - 1) \<longrightarrow> C'' k = C' k \<and> dblk (sectors t) k = C' k"
    "\<forall>x. hcrash (sectors s) hs x \<longrightarrow> hdr_ok st (loghead st x) \<and>
      ((\<forall>k. k \<notin> area st (LOGSIZE - 1) \<longrightarrow> recovered st x k = C k) \<or> (\<forall>k. k \<notin> area st (LOGSIZE - 1) \<longrightarrow> recovered st x k = C' k))"
proof -
  have e1: "loghead st (sectors u) = []" using e m1 by simp
  obtain t hs C'' where 3: "end_op u = Ok () t" "dhist t = dhist u @ hs" "in_tx (log t) d st [] 0" "loghead st (sectors t) = []"
    "bcache p d (\<lambda>_. 0) {} C'' t" "\<forall>k. k \<notin> area st (length h) \<longrightarrow> C'' k = C' k" "\<forall>k. k \<notin> area st (length h) \<longrightarrow> dblk (sectors t) k = C' k"
    "\<forall>x. hcrash (sectors u) hs x \<longrightarrow> loghead st x = [] \<or> loghead st x = h"
    "\<forall>x. hcrash (sectors u) hs x \<longrightarrow> (\<forall>k. k \<notin> area st (length h) \<longrightarrow> recovered st x k = dblk (sectors u) k) \<or>
       (\<forall>k. k \<notin> area st (length h) \<longrightarrow> recovered st x k = C' k)" by (rule end_op_commits [OF cu lu e1])
  have lh: "logged (log u) d st h" using lu by (simp add: in_tx_def)
  have "length h \<le> LOGSIZE - 1" using loggedD(4) [OF lh] by linarith
  note ar = area_mono [OF this, of st]
  have ok: "hdr_ok st h" "hdr_ok st []" using lh by (simp_all add: logged_iff hdr_ok_def params)
  have hx: "hcrash (sectors u) hs x" if "hcrash (sectors s) (hs1 @ hs) x" for x
    using h1(2) that unfolding m1
    by (induction "sectors s" "[] :: (nat \<times> u8 list) list" hs1 rule: wtrace.induct) (auto simp: torn_same hcrash_first)
  have crash: "\<forall>x. hcrash (sectors s) (hs1 @ hs) x \<longrightarrow> hdr_ok st (loghead st x) \<and>
      ((\<forall>k. k \<notin> area st (LOGSIZE - 1) \<longrightarrow> recovered st x k = C k) \<or> (\<forall>k. k \<notin> area st (LOGSIZE - 1) \<longrightarrow> recovered st x k = C' k))"
  proof (intro allI impI)
    fix x assume "hcrash (sectors s) (hs1 @ hs) x"
    note x = hx [OF this]
    have "hdr_ok st (loghead st x)" using 3(8) x ok by auto
    moreover have "(\<forall>k. k \<notin> area st (length h) \<longrightarrow> recovered st x k = C k) \<or> (\<forall>k. k \<notin> area st (length h) \<longrightarrow> recovered st x k = C' k)"
      using 3(9) x by (simp add: m1 cs)
    ultimately show "hdr_ok st (loghead st x) \<and> ((\<forall>k. k \<notin> area st (LOGSIZE - 1) \<longrightarrow> recovered st x k = C k) \<or>
       (\<forall>k. k \<notin> area st (LOGSIZE - 1) \<longrightarrow> recovered st x k = C' k))" using ar by blast
  qed
  have "\<forall>k. k \<notin> area st (LOGSIZE - 1) \<longrightarrow> C'' k = C' k \<and> dblk (sectors t) k = C' k" using 3(6,7) ar by blast
  from that [OF 3(1) _ 3(3-5) this crash] show ?thesis by (simp add: 3(2) h1(1))
qed

text \<open>
  C8. A system call's transaction, from \<open>begin_op\<close> over the updates of some blocks through \<open>log_write\<close> to \<open>end_op\<close>, is atomic
  with respect to crashes. On an idle log it returns, with the log idle again, and the file system's blocks, as seen
  through the cache and on the disk, are the old ones with all updates applied. A crash at any time leaves a medium with a
  well-formed header from which recovery makes either all the old blocks or all the new ones.
\<close>

theorem transaction_atomic:
  fixes s :: "'z klog_scheme"
  assumes c: "bcache p d (\<lambda>_. 0) {} C s" and l: "in_tx (log s) d st [] 0" and e: "loghead st (sectors s) = []"
    and us: "\<forall>u \<in> set us. upd_ok st u" and n: "card (fst ` set us) < LOGSIZE" "int (card (fst ` set us)) < log_size (log s) - 1"
  shows "\<exists>t hs C'. transaction d us s = Ok () t \<and> dhist t = dhist s @ hs \<and> in_tx (log t) d st [] 0 \<and> loghead st (sectors t) = [] \<and>
    bcache p d (\<lambda>_. 0) {} C' t \<and>
    (\<forall>k. k \<notin> area st (LOGSIZE - 1) \<longrightarrow> C' k = upds us C k \<and> dblk (sectors t) k = upds us C k) \<and>
    (\<forall>x. hcrash (sectors s) hs x \<longrightarrow> hdr_ok st (loghead st x) \<and>
      ((\<forall>k. k \<notin> area st (LOGSIZE - 1) \<longrightarrow> recovered st x k = C k) \<or>
       (\<forall>k. k \<notin> area st (LOGSIZE - 1) \<longrightarrow> recovered st x k = upds us C k)))"
proof -
  let ?s1 = "s\<lparr>log := (log s)\<lparr>outstanding := 1\<rparr>\<rparr>"
  have p0: "pins [] = (\<lambda>_. 0)" by (simp add: pins_def fun_eq_iff)
  have 1: "begin_op s = Ok () ?s1" by (rule begin_op_ok [OF bcacheD(1) [OF c] l])
  have "bcache p d (pins []) {} C ?s1" "in_tx (log ?s1) d st [] 1" using c l p0 by (simp_all add: in_tx_def logged_def)
  then obtain t1 h where 2: "updates d us ?s1 = Ok () t1" "bcache p d (pins h) {} (upds us C) t1" "in_tx (log t1) d st h 1" "jrun p ?s1 t1 []"
    using updates_ok [of p d "[]" C ?s1 st 1 us] us n by auto
  then have m1: "sectors t1 = sectors s" by (simp add: jrun_def)
  from 2(4) obtain hs1 where h1: "dhist t1 = dhist s @ hs1" "wtrace (sectors s) [] hs1" by (auto simp: jrun_def)
  have cs: "C k = dblk (sectors s) k" for k using btabD(12) [OF bcacheD(6) [OF c]] by (simp add: dblock_dblk)
  show ?thesis by (rule tx_commits [OF cs e 2(2,3) m1 h1]) (use 1 2(1) in \<open>auto simp: transaction_def\<close>)
qed

theorem transaction_atomic_witness:
  "\<exists>t. transaction 1 [(40, replicate 1024 7), (41, replicate 1024 8)] (run_log (\<lambda>_. replicate 512 0) (\<lambda>_. no_buf) []) = Ok () t \<and>
     dblk (sectors t) 40 = replicate 1024 7 \<and> dblk (sectors t) 41 = replicate 1024 8 \<and> in_tx (log t) 1 2 [] 0"
proof -
  let ?m = "\<lambda>_ :: nat. replicate 512 (0 :: u8)" let ?u = "run_log ?m (\<lambda>_. no_buf) []"
  let ?us = "[(40 :: nat, replicate 1024 7 :: u8 list), (41, replicate 1024 8)]"
  have b: "bcache 0 1 (\<lambda>_. 0) {} (dblock ?u) ?u" by (rule run_log_boot) simp
  have l: "in_tx (log ?u) 1 2 [] 0"
    using log_at_run [of ?m "\<lambda>_. no_buf" "[]"] by (simp add: in_tx_def logged_iff hdr_ok_def run_log_fields params)
  have e: "loghead 2 (sectors ?u) = []" by (simp add: run_log_fields zero_head)
  have us: "\<forall>u \<in> set ?us. upd_ok 2 u" by (simp add: upd_ok_def area_def params BSIZE_def)
  have n: "card (fst ` set ?us) < LOGSIZE" "int (card (fst ` set ?us)) < log_size (log ?u) - 1" by (simp_all add: params run_log_fields)
  from transaction_atomic [OF b l e us n] obtain t where t: "transaction 1 ?us ?u = Ok () t" "in_tx (log t) 1 2 [] 0"
    "\<forall>k. k \<notin> area 2 (LOGSIZE - 1) \<longrightarrow> dblk (sectors t) k = upds ?us (dblock ?u) k" by blast
  have "(40 :: nat) \<notin> area 2 (LOGSIZE - 1)" "(41 :: nat) \<notin> area 2 (LOGSIZE - 1)" by (simp_all add: area_def params)
  then have "dblk (sectors t) 40 = replicate 1024 7" "dblk (sectors t) 41 = replicate 1024 8" using t(3) by simp_all
  with t(1,2) show ?thesis by blast
qed

end
