(* ===== verification/Fstx.thy ===== *)
theory Fstx
  imports Fs Journal
begin

text \<open>
  The operations of \<open>kernel/fs.c\<close> inside a transaction. Here the disk is what the buffer cache shows: a function from block numbers
  to contents, which \<open>bread\<close> reads and \<open>log_write\<close> changes. On it are stated what \<open>balloc\<close>, \<open>bfree\<close>, \<open>bmap\<close>, \<open>iupdate\<close>, \<open>readi\<close> and
  \<open>writei\<close> do to the bitmap, to inodes and to the contents of files.
\<close>

section \<open>Blocks in a transaction\<close>

text \<open>
  \<open>ftx p d st h H C s\<close>: process \<open>p\<close> runs alone inside a transaction on device \<open>d\<close>, whose log starts at block \<open>st\<close> and has
  the blocks \<open>h\<close> so far; \<open>H\<close> are the blocks whose buffers the process holds, \<open>C\<close> the contents of all blocks. What is not in the log
  is as on the medium.
\<close>

definition refs :: "nat list \<Rightarrow> nat set \<Rightarrow> nat \<Rightarrow> nat" where
  "refs h H n = pins h n + (if n \<in> H then 1 else 0)"

definition ftx :: "nat \<Rightarrow> nat \<Rightarrow> nat \<Rightarrow> nat list \<Rightarrow> nat set \<Rightarrow> (nat \<Rightarrow> u8 list) \<Rightarrow> 'z klog_scheme \<Rightarrow> bool" where
  "ftx p d st h H C s \<longleftrightarrow> bcache p d (refs h H) H C s \<and> (\<exists>m \<ge> 1. in_tx (log s) d st h m) \<and> finite H \<and>
     (\<forall>n. n \<notin> set h \<longrightarrow> C n = dblock s n)"

text \<open>\<open>room k h H s\<close>: the log and the cache have room for \<open>k\<close> more blocks.\<close>

definition room :: "nat \<Rightarrow> nat list \<Rightarrow> nat set \<Rightarrow> 'z klog_scheme \<Rightarrow> bool" where
  "room k h H s \<longleftrightarrow> length h + card H + k < LOGSIZE \<and> int (length h + k) < log_size (log s)"

text \<open>What the operations leave alone: the medium, the size and the users of the log, and the buffers that are held.\<close>

definition fstep :: "nat \<Rightarrow> nat \<Rightarrow> nat set \<Rightarrow> 'z klog_scheme \<Rightarrow> 'z klog_scheme \<Rightarrow> bool" where
  "fstep p d H s t \<longleftrightarrow> jrun p s t [] \<and> log_size (log t) = log_size (log s) \<and> outstanding (log t) = outstanding (log s) \<and>
     (\<forall>b n. n \<in> H \<longrightarrow> bufof d (bufs s) b n \<longrightarrow> bufof d (bufs t) b n)"

lemma fstep_refl [intro]: "fstep p d H s s"
  by (simp add: fstep_def jstep_run jstep_refl)

lemma fstep_trans: "fstep p d H s t \<Longrightarrow> fstep p d H' t u \<Longrightarrow> H \<subseteq> H' \<Longrightarrow> fstep p d H s u"
  unfolding fstep_def using jrun_trans [of p s t "[]" u "[]"] by auto

lemma fstep_bufof: "fstep p d H s t \<Longrightarrow> n \<in> H \<Longrightarrow> bufof d (bufs s) b n \<Longrightarrow> bufof d (bufs t) b n"
  by (simp add: fstep_def)

lemma fstep_log_size: "fstep p d H s t \<Longrightarrow> log_size (log t) = log_size (log s)"
  by (simp add: fstep_def)

lemma room_mono: "room k h H s \<Longrightarrow> k' \<le> k \<Longrightarrow> room k' h H s"
  by (auto simp: room_def)

lemma refs_card: "distinct h \<Longrightarrow> finite H \<Longrightarrow> card {k. 0 < refs h H k} \<le> length h + card H"
proof -
  assume "distinct h" "finite H"
  moreover have "{k. 0 < refs h H k} = set h \<union> H" by (auto simp: refs_def pins_def)
  ultimately show ?thesis using card_Un_le [of "set h" H] by (simp add: distinct_card)
qed

lemma ftx_log:
  assumes "ftx p d st h H C s"
  shows "distinct h" "length h < LOGSIZE" "set h \<inter> area st (LOGSIZE - 1) = {}"
proof -
  obtain m where "in_tx (log s) d st h m" using assms by (auto simp: ftx_def)
  then have "logged (log s) d st h" by (simp add: in_tx_def)
  then show "distinct h" "length h < LOGSIZE" "set h \<inter> area st (LOGSIZE - 1) = {}"
    using loggedD(4,6) unfolding logged_def by blast+
qed

lemma ftx_bdata: "ftx p d st h H C s \<Longrightarrow> bufof d (bufs s) b n \<Longrightarrow> bdata (bufs s b) = C n"
  unfolding ftx_def using btabD(7) [OF bcacheD(6)] by blast

lemma ftx_quiet: "ftx p d st h H C s \<Longrightarrow> quiet p s"
  unfolding ftx_def using bcacheD(1) by blast

lemma ftx_length: "ftx p d st h H C s \<Longrightarrow> length (C n) = BSIZE"
proof -
  assume f: "ftx p d st h H C s"
  then have c: "bcache p d (refs h H) H C s" by (simp add: ftx_def)
  note T = btabD [OF bcacheD(6) [OF c]]
  show ?thesis
  proof (cases "refs h H n = 0")
    case True
    then show ?thesis using T(12) bcacheD(7) [OF c] by simp
  next
    case False
    then obtain b where b: "bufof d (bufs s) b n" using T(11) by blast
    then show ?thesis using T(2) [of b] T(7) [OF b] by (simp add: bufof_def)
  qed
qed

lemma jrun_dblock: "jrun p s t [] \<Longrightarrow> dblock t = dblock s"
  by (simp add: jrun_def dblock_dblk)

lemma bframe_lmore: "bframe s t \<Longrightarrow> klog.more t = klog.more s"
  unfolding bframe_def by (erule ssubst) simp

lemma tx_bread:
  fixes s :: "'z klog_scheme"
  assumes f: "ftx p d st h H C s" and n: "n \<notin> H" "n < 2 ^ 31" and r: "room 0 h H s"
  obtains b t where "bread d n s = Ok b t" "ftx p d st h (insert n H) C t" "bufof d (bufs t) b n" "bdata (bufs t b) = C n"
    "fstep p d H s t" "klog.more t = klog.more s"
proof -
  have c: "bcache p d (refs h H) H C s" and l: "\<exists>m \<ge> 1. in_tx (log s) d st h m" and fin: "finite H" and cl: "\<forall>n. n \<notin> set h \<longrightarrow> C n = dblock s n"
    using f by (simp_all add: ftx_def)
  have cd: "card {k. 0 < refs h H k} < NBUF" using refs_card [OF ftx_log(1) [OF f] fin] r by (simp add: room_def params)
  have r1: "refs h H n + 1 < 2 ^ 32" using n(1) by (simp add: refs_def pins_def)
  obtain b t where 1: "bread d n s = Ok b t" "bcache p d ((refs h H)(n := refs h H n + 1)) (insert n H) C t" "bufof d (bufs t) b n"
    "bstep p d (refs h H) s t" "sectors t = sectors s" "dhist t = dhist s \<or> dhist t = dhist s @ [sectors s]"
    by (rule bread_ok [OF c n r1 cd])
  have "(refs h H)(n := refs h H n + 1) = refs h (insert n H)" using n(1) by (auto simp: refs_def fun_eq_iff)
  then have c': "bcache p d (refs h (insert n H)) (insert n H) C t" using 1(2) by simp
  have j: "jrun p s t []" by (rule jstep_run [OF jstep_reads [OF 1(4-6)]])
  have lt: "log t = log s" using 1(4) by (simp add: bstep_def bframe_log)
  have ft: "ftx p d st h (insert n H) C t" using c' l fin cl lt jrun_dblock [OF j] by (simp add: ftx_def)
  have fs: "fstep p d H s t" using j lt bstep_bufof [OF 1(4)] by (auto simp: fstep_def refs_def)
  have mo: "klog.more t = klog.more s" by (rule bframe_lmore) (use 1(4) in \<open>simp add: bstep_def\<close>)
  show ?thesis by (rule that [OF 1(1) ft 1(3) ftx_bdata [OF ft 1(3)] fs mo])
qed

lemma tx_brelse:
  fixes s :: "'z klog_scheme"
  assumes f: "ftx p d st h H C s" and b: "bufof d (bufs s) b n" "n \<in> H"
  obtains t where "brelse b s = Ok () t" "ftx p d st h (H - {n}) C t" "fstep p d (H - {n}) s t" "klog.more t = klog.more s"
proof -
  have c: "bcache p d (refs h H) H C s" and l: "\<exists>m \<ge> 1. in_tx (log s) d st h m" and fin: "finite H" and cl: "\<forall>n. n \<notin> set h \<longrightarrow> C n = dblock s n"
    using f by (simp_all add: ftx_def)
  have "C n = dblock s n" if "refs h H n = 1" using that cl b(2) by (auto simp: refs_def pins_def split: if_splits)
  from brelse_ok [OF c b this]
  obtain t where 1: "brelse b s = Ok () t" "bcache p d ((refs h H)(n := refs h H n - 1)) (H - {n}) C t" "bstep p d (refs h H) s t"
    "sectors t = sectors s" "dhist t = dhist s" "\<And>b n. bufof d (bufs t) b n = bufof d (bufs s) b n" by blast
  have "(refs h H)(n := refs h H n - 1) = refs h (H - {n})" using b(2) by (auto simp: refs_def fun_eq_iff)
  then have c': "bcache p d (refs h (H - {n})) (H - {n}) C t" using 1(2) by simp
  have j: "jrun p s t []" by (rule jstep_run [OF jstep_reads [OF 1(3,4)]]) (simp add: 1(5))
  have lt: "log t = log s" using 1(3) by (simp add: bstep_def bframe_log)
  have ft: "ftx p d st h (H - {n}) C t" using c' l fin cl lt jrun_dblock [OF j] by (simp add: ftx_def)
  have fs: "fstep p d (H - {n}) s t" using j lt 1(6) by (auto simp: fstep_def)
  have mo: "klog.more t = klog.more s" by (rule bframe_lmore) (use 1(3) in \<open>simp add: bstep_def\<close>)
  show ?thesis by (rule that [OF 1(1) ft fs mo])
qed

text \<open>A change of a held block, with the \<open>log_write\<close> that follows it.\<close>

definition addlog :: "nat \<Rightarrow> nat list \<Rightarrow> nat list" where
  "addlog n h = (if n \<in> set h then h else h @ [n])"

lemma set_addlog [simp]: "set (addlog n h) = insert n (set h)"
  by (auto simp: addlog_def)

lemma addlog_length: "length (addlog n h) \<le> Suc (length h)"
  by (simp add: addlog_def)

lemma room_addlog: "room (Suc k) h H s \<Longrightarrow> log_size (log t) = log_size (log s) \<Longrightarrow> room k (addlog n h) H t"
  using addlog_length [of n h] by (auto simp: room_def)

lemma tx_update:
  fixes s :: "'z klog_scheme"
  assumes f: "ftx p d st h H C s" and b: "bufof d (bufs s) b n" "n \<in> H" and n: "n < 2 ^ 31" "n \<notin> area st (LOGSIZE - 1)"
    and v: "length (g (C n)) = BSIZE" and r: "room (Suc k) h H s"
  obtains t where "log_write b (upd_data b g s) = Ok () t" "ftx p d st (addlog n h) H (C(n := g (C n))) t" "fstep p d H s t"
    "klog.more t = klog.more s" "bufof d (bufs t) b n" "room k (addlog n h) H t"
proof -
  have c: "bcache p d (refs h H) H C s" and fin: "finite H" and cl: "\<forall>n. n \<notin> set h \<longrightarrow> C n = dblock s n" using f by (simp_all add: ftx_def)
  obtain m where m: "1 \<le> m" "in_tx (log s) d st h m" using f by (auto simp: ftx_def)
  let ?v = "g (C n)" let ?u = "s\<lparr>bufs := (bufs s)(b := (bufs s b)\<lparr>bdata := ?v\<rparr>)\<rparr>"
  have up: "upd_data b g s = ?u" using ftx_bdata [OF f b(1)] by (simp add: upd_data_def upd_buf_def)
  have cu: "bcache p d (refs h H) H (C(n := ?v)) ?u" and su: "bstep p d (refs h H) s ?u" using bmodify_ok [OF c b v] by auto
  have pos: "0 < refs h H k" if "k \<in> H" for k using that by (simp add: refs_def)
  have bu: "bufof d (bufs ?u) b n" by (rule bstep_bufof [OF su pos [OF b(2)] b(1)])
  have "0 < card H" using b(2) fin by (auto simp: card_gt_0_iff)
  then have rm: "n \<in> set h \<or> Suc (length h) < LOGSIZE" "int (length h) < log_size (log ?u) - 1" using r by (auto simp: room_def)
  have r1: "refs h H n + 1 < 2 ^ 32" by (simp add: refs_def pins_def)
  have mu: "in_tx (log ?u) d st h m" using m(2) by simp
  obtain t where 1: "log_write b ?u = Ok () t" "bcache p d (if n \<in> set h then refs h H else (refs h H)(n := refs h H n + 1)) H (C(n := ?v)) t"
    "in_tx (log t) d st (if n \<in> set h then h else h @ [n]) m" "log_size (log t) = log_size (log ?u)" "jrun p ?u t []" "bufof d (bufs t) b n"
    "t = ?u\<lparr>bufs := bufs t, log := log t\<rparr>" "\<And>b n. bufof d (bufs ?u) b n \<Longrightarrow> bufof d (bufs t) b n"
    using log_write_ok [OF cu bu mu m(1) n(1) r1 n(2) rm] by blast
  have "(if n \<in> set h then refs h H else (refs h H)(n := refs h H n + 1)) = refs (addlog n h) H"
    by (auto simp: refs_def pins_def fun_eq_iff)
  then have c': "bcache p d (refs (addlog n h) H) H (C(n := ?v)) t" using 1(2) by simp
  have j: "jrun p s t []" using jrun_trans [OF jstep_run [OF jstep_reads [OF su]] 1(5)] by simp
  have ft: "ftx p d st (addlog n h) H (C(n := ?v)) t"
    using c' 1(3) m(1) fin cl jrun_dblock [OF j] by (auto simp: ftx_def addlog_def)
  have ls: "log_size (log t) = log_size (log s)" using 1(4) by simp
  have "outstanding (log t) = outstanding (log s)" using 1(3) m(2) by (simp add: in_tx_def)
  then have fs: "fstep p d H s t" using j ls 1(8) bstep_bufof [OF su pos] by (simp add: fstep_def)
  have mo: "klog.more t = klog.more s" by (subst 1(7)) simp
  show ?thesis by (rule that [OF _ ft fs mo 1(6) room_addlog [OF r ls]]) (simp add: up 1(1))
qed

lemma room_move:
  assumes "room k h H s" and "log_size (log t) = log_size (log s)" and "length h' + card H' + k' \<le> length h + card H + k"
    and "length h' + k' \<le> length h + k"
  shows "room k' h' H' t"
proof -
  have "int (length h' + k') \<le> int (length h + k)" using assms(4) by (subst of_nat_le_iff)
  then show ?thesis using assms unfolding room_def by linarith
qed

lemma card_insert_le': "finite H \<Longrightarrow> card (insert n H) \<le> Suc (card H)"
  by (cases "n \<in> H") (simp_all add: insert_absorb)

lemma ftx_finite: "ftx p d st h H C s \<Longrightarrow> finite H"
  by (simp add: ftx_def)

lemma tx_modify:
  fixes s :: "'z klog_scheme"
  assumes f: "ftx p d st h H C s" and n: "n \<notin> H" "n < 2 ^ 31" "n \<notin> area st (LOGSIZE - 1)"
    and v: "length (g (C n)) = BSIZE" and r: "room (Suc (Suc k)) h H s"
  obtains t where "bindr (bread d n s) (\<lambda>b s. bindr (log_write b (upd_data b g s)) (\<lambda>_ s. brelse b s)) = Ok () t"
    "ftx p d st (addlog n h) H (C(n := g (C n))) t" "fstep p d H s t" "klog.more t = klog.more s" "room (Suc k) (addlog n h) H t"
proof -
  note ci = card_insert_le' [OF ftx_finite [OF f], of n]
  obtain b t where 1: "bread d n s = Ok b t" "ftx p d st h (insert n H) C t" "bufof d (bufs t) b n" "fstep p d H s t" "klog.more t = klog.more s"
    by (rule tx_bread [OF f n(1,2) room_mono [OF r]]) simp
  have r1: "room (Suc k) h (insert n H) t" by (rule room_move [OF r fstep_log_size [OF 1(4)]]) (use ci in simp_all)
  obtain u where 2: "log_write b (upd_data b g t) = Ok () u" "ftx p d st (addlog n h) (insert n H) (C(n := g (C n))) u"
    "fstep p d (insert n H) t u" "klog.more u = klog.more t" "bufof d (bufs u) b n"
    by (rule tx_update [where g = g, OF 1(2,3) insertI1 n(2,3) v r1])
  obtain w where 3: "brelse b u = Ok () w" "ftx p d st (addlog n h) (insert n H - {n}) (C(n := g (C n))) w" "fstep p d (insert n H - {n}) u w"
    "klog.more w = klog.more u" by (rule tx_brelse [OF 2(2,5) insertI1])
  have H: "insert n H - {n} = H" using n(1) by simp
  have fs: "fstep p d H s w" using fstep_trans [OF fstep_trans [OF 1(4) 2(3)] 3(3) [unfolded H]] by blast
  have r2: "room (Suc k) (addlog n h) H w"
    by (rule room_move [OF r fstep_log_size [OF fs]]) (use addlog_length [of n h] in simp_all)
  show ?thesis
    by (rule that [OF _ 3(2) [unfolded H] fs _ r2]) (simp_all add: 1(1,5) 2(1,4) 3(1,4))
qed

section \<open>The block allocator\<close>

lemma more_fs: "klog.more t = klog.more s \<Longrightarrow> sb t = sb s \<and> inodes t = inodes s"
  by (cases s; cases t) simp

text \<open>
  The layout: the bitmap blocks, the inode blocks and the log are apart, and block numbers are small. \<open>isfree C S b\<close>: the bitmap has
  no mark for block \<open>b\<close>. Blocks of the metadata are never free.
\<close>

definition bmaps :: "superblock \<Rightarrow> nat set" where
  "bmaps S = {sb_bmapstart S..sb_bmapstart S + sb_size S div BPB}"

definition iblocks :: "superblock \<Rightarrow> nat set" where
  "iblocks S = {sb_inodestart S..sb_inodestart S + sb_ninodes S div IPB}"

definition geom :: "nat \<Rightarrow> superblock \<Rightarrow> bool" where
  "geom st S \<longleftrightarrow> sb_size S \<le> 2 ^ 31 \<and> sb_bmapstart S + sb_size S div BPB < 2 ^ 31 \<and> sb_inodestart S + sb_ninodes S div IPB < 2 ^ 31 \<and>
     (bmaps S \<union> iblocks S) \<inter> area st (LOGSIZE - 1) = {} \<and> bmaps S \<inter> iblocks S = {}"

definition isfree :: "(nat \<Rightarrow> u8 list) \<Rightarrow> superblock \<Rightarrow> nat \<Rightarrow> bool" where
  "isfree C S b \<longleftrightarrow> b < sb_size S \<and> \<not> getbit (C (BBLOCK b S)) (b mod BPB)"

definition fixed_blocks :: "nat \<Rightarrow> superblock \<Rightarrow> nat set" where
  "fixed_blocks st S = insert 0 (bmaps S \<union> iblocks S \<union> area st (LOGSIZE - 1))"

definition alloc_ok :: "nat \<Rightarrow> superblock \<Rightarrow> (nat \<Rightarrow> u8 list) \<Rightarrow> bool" where
  "alloc_ok st S C \<longleftrightarrow> geom st S \<and> (\<forall>b. isfree C S b \<longrightarrow> b \<notin> fixed_blocks st S)"

lemma BBLOCK_in:
  assumes "geom st S" and "b < sb_size S"
  shows "BBLOCK b S = sb_bmapstart S + b div BPB" "BBLOCK b S \<in> bmaps S" "BBLOCK b S < 2 ^ 31" "BBLOCK b S \<notin> area st (LOGSIZE - 1)"
proof -
  have "b div BPB \<le> sb_size S div BPB" using assms(2) by (simp add: div_le_mono)
  then show 1: "BBLOCK b S = sb_bmapstart S + b div BPB" and 2: "BBLOCK b S \<in> bmaps S" and "BBLOCK b S < 2 ^ 31"
    using assms(1) by (auto simp: BBLOCK_def geom_def bmaps_def)
  show "BBLOCK b S \<notin> area st (LOGSIZE - 1)" using 2 assms(1) by (auto simp: geom_def)
qed

definition mark :: "nat \<Rightarrow> u8 list \<Rightarrow> u8 list" where
  "mark bi d = d[bi div 8 := d ! (bi div 8) OR bitmask bi]"

definition unmark :: "nat \<Rightarrow> u8 list \<Rightarrow> u8 list" where
  "unmark bi d = d[bi div 8 := d ! (bi div 8) AND NOT (bitmask bi)]"

lemma length_mark [simp]: "length (mark bi d) = length d" "length (unmark bi d) = length d"
  by (simp_all add: mark_def unmark_def)

lemma getbit_mark:
  assumes "i div 8 < length d"
  shows "getbit (mark i d) j \<longleftrightarrow> j = i \<or> getbit d j" "getbit (unmark i d) j \<longleftrightarrow> j \<noteq> i \<and> getbit d j"
  unfolding mark_def unmark_def by (subst getbit_update [OF assms]; simp add: bit_byte_ops)+

lemma div_mod_eq: "(a::nat) div k = b div k \<Longrightarrow> a mod k = b mod k \<Longrightarrow> a = b"
  by (metis div_mult_mod_eq)

lemma mod_BPB_byte [simp]: "b mod BPB div 8 < BSIZE"
proof -
  have "b mod BPB < BSIZE * 8" unfolding BPB_def by (rule mod_less_divisor) (simp add: BSIZE_def)
  then show ?thesis by (rule less_mult_imp_div_less)
qed

lemma isfree_mark:
  assumes g: "geom st S" and b: "b < sb_size S" and l: "length (C (BBLOCK b S)) = BSIZE"
  shows "isfree (C(BBLOCK b S := mark (b mod BPB) (C (BBLOCK b S)))) S x \<longleftrightarrow> isfree C S x \<and> x \<noteq> b"
    and "isfree (C(BBLOCK b S := unmark (b mod BPB) (C (BBLOCK b S)))) S x \<longleftrightarrow> isfree C S x \<or> x = b"
proof -
  have i: "b mod BPB div 8 < length (C (BBLOCK b S))" unfolding l by simp
  have "BBLOCK x S = BBLOCK b S \<longleftrightarrow> x div BPB = b div BPB" if "x < sb_size S" using BBLOCK_in(1) [OF g] that b by simp
  then have "x < sb_size S \<Longrightarrow> BBLOCK x S = BBLOCK b S \<Longrightarrow> x mod BPB = b mod BPB \<Longrightarrow> x = b" using div_mod_eq by blast
  then show "isfree (C(BBLOCK b S := mark (b mod BPB) (C (BBLOCK b S)))) S x \<longleftrightarrow> isfree C S x \<and> x \<noteq> b"
    and "isfree (C(BBLOCK b S := unmark (b mod BPB) (C (BBLOCK b S)))) S x \<longleftrightarrow> isfree C S x \<or> x = b"
    using b by (auto simp: isfree_def getbit_mark [OF i])
qed

lemma isfree_other: "(\<And>n. n \<in> bmaps S \<Longrightarrow> C n = C' n) \<Longrightarrow> geom st S \<Longrightarrow> isfree C S b = isfree C' S b"
  unfolding isfree_def using BBLOCK_in(2) [of st S b] by auto

lemma bfind_Some:
  "bi \<le> x \<Longrightarrow> x < bi + k \<Longrightarrow> b + x < sz \<Longrightarrow> \<not> getbit d x \<Longrightarrow> (\<And>y. bi \<le> y \<Longrightarrow> y < x \<Longrightarrow> getbit d y) \<Longrightarrow> bfind k bi b sz d = Some x"
proof (induction k arbitrary: bi)
  case (Suc k)
  show ?case
  proof (cases "bi = x")
    case True
    then show ?thesis using Suc.prems by (simp add: and_bitmask_zero getbit_def)
  next
    case False
    then have "bfind k (Suc bi) b sz d = Some x" using Suc.prems by (intro Suc.IH) simp_all
    moreover have "getbit d bi" using Suc.prems False by simp
    ultimately show ?thesis using Suc.prems False by (simp add: and_bitmask_zero getbit_def)
  qed
qed simp

lemma bfind_None: "(\<And>y. bi \<le> y \<Longrightarrow> y < bi + k \<Longrightarrow> b + y < sz \<Longrightarrow> getbit d y) \<Longrightarrow> bfind k bi b sz d = None"
proof (induction k arbitrary: bi)
  case (Suc k)
  have "bfind k (Suc bi) b sz d = None" using Suc.prems by (intro Suc.IH) simp_all
  moreover have "getbit d bi" if "b + bi < sz" using Suc.prems [of bi] that by simp
  ultimately show ?case by (auto simp: and_bitmask_zero getbit_def)
qed simp

lemma bzero_ok:
  fixes s :: "'z kfs_scheme"
  assumes f: "ftx p d st h H C s" and n: "n \<notin> H" "n < 2 ^ 31" "n \<notin> area st (LOGSIZE - 1)" and r: "room (Suc (Suc k)) h H s"
  obtains t where "bzero d n s = Ok () t" "ftx p d st (addlog n h) H (C(n := replicate BSIZE 0)) t" "fstep p d H s t"
    "klog.more t = klog.more s" "room (Suc k) (addlog n h) H t"
proof -
  obtain t where 1: "bindr (bread d n s) (\<lambda>b s. bindr (log_write b (upd_data b (\<lambda>_. replicate BSIZE 0) s)) (\<lambda>_ s. brelse b s)) = Ok () t"
    "ftx p d st (addlog n h) H (C(n := replicate BSIZE 0)) t" "fstep p d H s t" "klog.more t = klog.more s" "room (Suc k) (addlog n h) H t"
    by (rule tx_modify [where g = "\<lambda>_. replicate BSIZE 0", OF f n _ r]) simp
  show ?thesis by (rule that [OF 1(1) [folded bzero_def] 1(2-5)])
qed

text \<open>The bits of the bitmap block that holds block \<open>b\<close>, a multiple of \<open>BPB\<close>.\<close>

lemma BBLOCK_row: "y < BPB \<Longrightarrow> BBLOCK (BPB * j + y) S = BBLOCK (BPB * j) S" "y < BPB \<Longrightarrow> (BPB * j + y) mod BPB = y"
  by (simp_all add: BBLOCK_def)

lemma isfree_row: "y < BPB \<Longrightarrow> BPB * j + y < sb_size S \<Longrightarrow> isfree C S (BPB * j + y) \<longleftrightarrow> \<not> getbit (C (BBLOCK (BPB * j) S)) y"
  by (simp add: isfree_def BBLOCK_row)

lemma bfind_row_Some:
  assumes "isfree C S x" and "\<And>y. y < x \<Longrightarrow> \<not> isfree C S y" and "x div BPB = j"
  shows "bfind BPB 0 (BPB * j) (sb_size S) (C (BBLOCK (BPB * j) S)) = Some (x mod BPB)"
proof (rule bfind_Some)
  have x: "BPB * j + x mod BPB = x" unfolding assms(3) [symmetric] by simp
  have pos: "0 < BPB" by (simp add: BPB_def BSIZE_def)
  then show m: "x mod BPB < 0 + BPB" by simp
  show "BPB * j + x mod BPB < sb_size S" unfolding x using assms(1) by (simp add: isfree_def)
  then show "\<not> getbit (C (BBLOCK (BPB * j) S)) (x mod BPB)" using isfree_row [of "x mod BPB" j S C] m assms(1) x by simp
  fix y assume y: "y < x mod BPB"
  have "BPB * j + y < x" using x y by simp
  moreover have "BPB * j + y < sb_size S" using calculation assms(1) by (simp add: isfree_def)
  ultimately show "getbit (C (BBLOCK (BPB * j) S)) y" using isfree_row [of y j S C] assms(2) y m by simp
qed simp

lemma bfind_row_None:
  assumes "\<And>y. y < x \<Longrightarrow> \<not> isfree C S y" and "j < x div BPB"
  shows "bfind BPB 0 (BPB * j) (sb_size S) (C (BBLOCK (BPB * j) S)) = None"
proof (rule bfind_None)
  fix y assume y: "y < 0 + BPB" "BPB * j + y < sb_size S"
  have "BPB * Suc j \<le> BPB * (x div BPB)" using assms(2) by (intro mult_le_mono2) simp
  also have "\<dots> \<le> x" by simp
  finally have "BPB * j + y < x" using y(1) by simp
  then show "getbit (C (BBLOCK (BPB * j) S)) y" using isfree_row [of y j S C] assms(1) y by simp
qed

definition taken_block :: "superblock \<Rightarrow> nat \<Rightarrow> (nat \<Rightarrow> u8 list) \<Rightarrow> nat \<Rightarrow> u8 list" where
  "taken_block S x C = C(BBLOCK x S := mark (x mod BPB) (C (BBLOCK x S)), x := replicate BSIZE 0)"

lemma balloc_hit:
  fixes s :: "'z kfs_scheme"
  assumes f: "ftx p d st h H C s" and a: "alloc_ok st S C" and sS: "sb s = S"
    and x: "isfree C S x" "\<And>y. y < x \<Longrightarrow> \<not> isfree C S y" and H: "H \<inter> bmaps S = {}" "x \<notin> H"
    and r: "room (Suc (Suc (Suc n))) h H s"
  obtains t where "balloc_loop (Suc k) (BPB * (x div BPB)) d s = Ok x t"
    "ftx p d st (addlog x (addlog (BBLOCK x S) h)) H (taken_block S x C) t" "fstep p d H s t" "klog.more t = klog.more s"
    "room (Suc n) (addlog x (addlog (BBLOCK x S) h)) H t"
proof -
  let ?j = "x div BPB" let ?m = "BBLOCK x S" let ?bi = "x mod BPB"
  have g: "geom st S" and xf: "x \<notin> fixed_blocks st S" using a x(1) by (auto simp: alloc_ok_def)
  have xs: "x < sb_size S" using x(1) by (simp add: isfree_def)
  note B = BBLOCK_in [OF g xs]
  have m: "BBLOCK (BPB * ?j) S = ?m" using BBLOCK_row(1) [of ?bi ?j S] by (simp add: BPB_def BSIZE_def)
  have mH: "?m \<notin> H" using B(2) H(1) by auto
  have x31: "x < 2 ^ 31" "x \<notin> area st (LOGSIZE - 1)" "x \<noteq> ?m" using xs g xf B(2) by (auto simp: geom_def fixed_blocks_def)
  note ci = card_insert_le' [OF ftx_finite [OF f], of ?m]
  obtain b t where 1: "bread d ?m s = Ok b t" "ftx p d st h (insert ?m H) C t" "bufof d (bufs t) b ?m" "bdata (bufs t b) = C ?m"
    "fstep p d H s t" "klog.more t = klog.more s" by (rule tx_bread [OF f mH B(3) room_mono [OF r]]) simp
  have r1: "room (Suc (Suc n)) h (insert ?m H) t" by (rule room_move [OF r fstep_log_size [OF 1(5)]]) (use ci in simp_all)
  have l: "length (mark ?bi (C ?m)) = BSIZE" using ftx_length [OF f] by simp
  obtain u where 2: "log_write b (upd_data b (mark ?bi) t) = Ok () u" "ftx p d st (addlog ?m h) (insert ?m H) (C(?m := mark ?bi (C ?m))) u"
    "fstep p d (insert ?m H) t u" "klog.more u = klog.more t" "bufof d (bufs u) b ?m"
    by (rule tx_update [where g = "mark ?bi", OF 1(2,3) insertI1 B(3,4) l r1])
  obtain v where 3: "brelse b u = Ok () v" "ftx p d st (addlog ?m h) (insert ?m H - {?m}) (C(?m := mark ?bi (C ?m))) v"
    "fstep p d (insert ?m H - {?m}) u v" "klog.more v = klog.more u" by (rule tx_brelse [OF 2(2,5) insertI1])
  have HH: "insert ?m H - {?m} = H" using mH by simp
  have fs: "fstep p d H s v" using fstep_trans [OF fstep_trans [OF 1(5) 2(3)] 3(3) [unfolded HH]] by blast
  have r2: "room (Suc (Suc n)) (addlog ?m h) H v"
    by (rule room_move [OF r fstep_log_size [OF fs]]) (use addlog_length [of ?m h] in simp_all)
  obtain w where 4: "bzero d x v = Ok () w"
    "ftx p d st (addlog x (addlog ?m h)) H ((C(?m := mark ?bi (C ?m)))(x := replicate BSIZE 0)) w" "fstep p d H v w"
    "klog.more w = klog.more v" "room (Suc n) (addlog x (addlog ?m h)) H w" by (rule bzero_ok [OF 3(2) [unfolded HH] H(2) x31(1,2) r2])
  have st: "sb t = S" using more_fs [OF 1(6)] sS by simp
  have fd: "bfind BPB 0 (BPB * ?j) (sb_size S) (C ?m) = Some ?bi" using bfind_row_Some [OF x refl] by (simp add: m)
  have xx: "BPB * ?j + ?bi = x" by simp
  have lt: "BPB * ?j < sb_size S" by (rule le_less_trans [OF times_div_less_eq_dividend xs])
  have "balloc_loop (Suc k) (BPB * ?j) d s = Ok x w"
    using lt by (simp add: sS m 1(1,4) st fd xx 2(1) 3(1) 4(1) mark_def [symmetric] Let_def)
  from that [OF this 4(2) [folded taken_block_def] fstep_trans [OF fs 4(3)] _ 4(5)] show ?thesis
    by (simp add: 4(4) 3(4) 2(4) 1(6))
qed

lemma tx_skip:
  fixes s :: "'z klog_scheme"
  assumes f: "ftx p d st h H C s" and n: "n \<notin> H" "n < 2 ^ 31" and r: "room k h H s"
  obtains b t u where "bread d n s = Ok b t" "brelse b t = Ok () u" "bdata (bufs t b) = C n" "klog.more t = klog.more s" "ftx p d st h H C u"
    "fstep p d H s u" "klog.more u = klog.more s" "room k h H u"
proof -
  obtain b t where 1: "bread d n s = Ok b t" "ftx p d st h (insert n H) C t" "bufof d (bufs t) b n" "bdata (bufs t b) = C n"
    "fstep p d H s t" "klog.more t = klog.more s" by (rule tx_bread [OF f n room_mono [OF r]]) simp
  obtain u where 2: "brelse b t = Ok () u" "ftx p d st h (insert n H - {n}) C u" "fstep p d (insert n H - {n}) t u"
    "klog.more u = klog.more t" by (rule tx_brelse [OF 1(2,3) insertI1])
  have H: "insert n H - {n} = H" using n(1) by simp
  have fs: "fstep p d H s u" using fstep_trans [OF 1(5) 2(3) [unfolded H]] by blast
  show ?thesis
    by (rule that [OF 1(1) 2(1) 1(4,6) 2(2) [unfolded H] fs trans [OF 2(4) 1(6)] room_move [OF r fstep_log_size [OF fs]]]) simp_all
qed

lemma balloc_loop_ok:
  fixes s :: "'z kfs_scheme"
  assumes f: "ftx p d st h H C s" and a: "alloc_ok st S C" and sS: "sb s = S"
    and x: "isfree C S x" "\<And>y. y < x \<Longrightarrow> \<not> isfree C S y" and H: "H \<inter> bmaps S = {}" "x \<notin> H"
    and r: "room (Suc (Suc (Suc n))) h H s" and j: "j \<le> x div BPB" "x div BPB < j + k"
  obtains t where "balloc_loop k (BPB * j) d s = Ok x t"
    "ftx p d st (addlog x (addlog (BBLOCK x S) h)) H (taken_block S x C) t" "fstep p d H s t" "klog.more t = klog.more s"
    "room (Suc n) (addlog x (addlog (BBLOCK x S) h)) H t"
  using f sS r j
proof (induction k arbitrary: j s thesis)
  case (Suc k)
  show ?case
  proof (cases "j = x div BPB")
    case True
    show ?thesis by (rule balloc_hit [where k = k, OF Suc.prems(2) a Suc.prems(3) x H Suc.prems(4)]) (assumption, rule Suc.prems(1) [unfolded True])
  next
    case False
    let ?m = "BBLOCK (BPB * j) S"
    have g: "geom st S" using a by (simp add: alloc_ok_def)
    have "BPB * j \<le> BPB * (x div BPB)" using Suc.prems(5) by (rule mult_le_mono2)
    also have "\<dots> \<le> x" by simp
    also have "x < sb_size S" using x(1) by (simp add: isfree_def)
    finally have lt: "BPB * j < sb_size S" .
    note B = BBLOCK_in [OF g lt]
    have mH: "?m \<notin> H" using B(2) H(1) by auto
    obtain b t u where 1: "bread d ?m s = Ok b t" "brelse b t = Ok () u" "bdata (bufs t b) = C ?m" "klog.more t = klog.more s" "ftx p d st h H C u"
      "fstep p d H s u" "klog.more u = klog.more s" "room (Suc (Suc (Suc n))) h H u" by (rule tx_skip [OF Suc.prems(2) mH B(3) Suc.prems(4)])
    have none: "bfind BPB 0 (BPB * j) (sb_size S) (C ?m) = None" by (rule bfind_row_None [OF x(2) le_neq_trans [OF Suc.prems(5) False]])
    have st: "sb t = S" "sb u = S" using more_fs [OF 1(4)] more_fs [OF 1(7)] Suc.prems(3) by simp_all
    have e: "balloc_loop (Suc k) (BPB * j) d s = balloc_loop k (BPB * Suc j) d u"
      using lt by (simp add: Suc.prems(3) 1(1-3) st none add.commute)
    have j': "Suc j \<le> x div BPB" "x div BPB < Suc j + k" using False Suc.prems(5,6) by simp_all
    obtain v where 2: "balloc_loop k (BPB * Suc j) d u = Ok x v"
      "ftx p d st (addlog x (addlog (BBLOCK x S) h)) H (taken_block S x C) v" "fstep p d H u v" "klog.more v = klog.more u"
      "room (Suc n) (addlog x (addlog (BBLOCK x S) h)) H v" by (rule Suc.IH [OF _ 1(5) st(2) 1(8) j'])
    show ?thesis
      by (rule Suc.prems(1) [OF _ 2(2) fstep_trans [OF 1(6) 2(3) order_refl] trans [OF 2(4) 1(7)] 2(5)]) (simp only: e 2(1))
  qed
qed simp

lemma balloc_ok:
  fixes s :: "'z kfs_scheme"
  assumes f: "ftx p d st h H C s" and a: "alloc_ok st (sb s) C" and x: "isfree C (sb s) x" "\<And>y. y < x \<Longrightarrow> \<not> isfree C (sb s) y"
    and H: "H \<inter> bmaps (sb s) = {}" "x \<notin> H" and r: "room (Suc (Suc (Suc n))) h H s"
  obtains t where "balloc d s = Ok x t"
    "ftx p d st (addlog x (addlog (BBLOCK x (sb s)) h)) H (taken_block (sb s) x C) t" "fstep p d H s t" "klog.more t = klog.more s"
    "room (Suc n) (addlog x (addlog (BBLOCK x (sb s)) h)) H t"
proof -
  have "x div BPB \<le> sb_size (sb s) div BPB" using x(1) by (simp add: isfree_def div_le_mono)
  then have j: "0 \<le> x div BPB" "x div BPB < 0 + (sb_size (sb s) div BPB + 2)" by simp_all
  obtain t where 1: "balloc_loop (sb_size (sb s) div BPB + 2) (BPB * 0) d s = Ok x t"
    "ftx p d st (addlog x (addlog (BBLOCK x (sb s)) h)) H (taken_block (sb s) x C) t" "fstep p d H s t" "klog.more t = klog.more s"
    "room (Suc n) (addlog x (addlog (BBLOCK x (sb s)) h)) H t" by (rule balloc_loop_ok [OF f a refl x H r j])
  show ?thesis by (rule that [OF _ 1(2-5)]) (use 1(1) in \<open>simp add: balloc_def\<close>)
qed

lemma taken_block_other: "geom st S \<Longrightarrow> x < sb_size S \<Longrightarrow> n \<notin> bmaps S \<Longrightarrow> n \<noteq> x \<Longrightarrow> taken_block S x C n = C n"
  unfolding taken_block_def using BBLOCK_in(2) [of st S x] by auto

lemma taken_block_same [simp]: "taken_block S x C x = replicate BSIZE 0"
  by (simp add: taken_block_def)

lemma taken_block_free:
  assumes a: "alloc_ok st S C" and x: "isfree C S x" and l: "\<And>n. length (C n) = BSIZE"
  shows "isfree (taken_block S x C) S y \<longleftrightarrow> isfree C S y \<and> y \<noteq> x" "alloc_ok st S (taken_block S x C)"
proof -
  have g: "geom st S" and xs: "x < sb_size S" and xm: "x \<notin> bmaps S" using a x by (auto simp: alloc_ok_def isfree_def fixed_blocks_def)
  have "isfree (taken_block S x C) S y = isfree (C(BBLOCK x S := mark (x mod BPB) (C (BBLOCK x S)))) S y" for y
    by (rule isfree_other [OF _ g]) (use xm in \<open>auto simp: taken_block_def\<close>)
  then show 1: "isfree (taken_block S x C) S y \<longleftrightarrow> isfree C S y \<and> y \<noteq> x" for y using isfree_mark(1) [OF g xs l] by simp
  show "alloc_ok st S (taken_block S x C)" using a unfolding alloc_ok_def 1 by blast
qed

lemma bfree_ok:
  fixes s :: "'z kfs_scheme"
  assumes f: "ftx p d st h H C s" and a: "geom st (sb s)" and x: "x < sb_size (sb s)" "\<not> isfree C (sb s) x"
    and H: "H \<inter> bmaps (sb s) = {}" and r: "room (Suc (Suc n)) h H s"
  obtains t where "bfree d x s = Ok () t"
    "ftx p d st (addlog (BBLOCK x (sb s)) h) H (C(BBLOCK x (sb s) := unmark (x mod BPB) (C (BBLOCK x (sb s))))) t" "fstep p d H s t"
    "klog.more t = klog.more s" "room (Suc n) (addlog (BBLOCK x (sb s)) h) H t"
proof -
  let ?m = "BBLOCK x (sb s)" let ?bi = "x mod BPB"
  note B = BBLOCK_in [OF a x(1)]
  have mH: "?m \<notin> H" using B(2) H by auto
  have l: "length (unmark ?bi (C ?m)) = BSIZE" using ftx_length [OF f] by simp
  obtain t where 1: "bindr (bread d ?m s) (\<lambda>b s. bindr (log_write b (upd_data b (unmark ?bi) s)) (\<lambda>_ s. brelse b s)) = Ok () t"
    "ftx p d st (addlog ?m h) H (C(?m := unmark ?bi (C ?m))) t" "fstep p d H s t" "klog.more t = klog.more s" "room (Suc n) (addlog ?m h) H t"
    by (rule tx_modify [where g = "unmark ?bi", OF f mH B(3,4) l r])
  obtain b u where 2: "bread d ?m s = Ok b u" "bdata (bufs u b) = C ?m" by (rule tx_bread [OF f mH B(3) room_mono [OF r]]) simp
  have "getbit (C ?m) ?bi" using x by (simp add: isfree_def)
  then have "bfree d x s = Ok () t" using 1(1) by (simp add: bfree_def 2 and_bitmask_zero getbit_def Let_def unmark_def [abs_def])
  from that [OF this 1(2-5)] show ?thesis .
qed

section \<open>The blocks of a file\<close>

text \<open>
  \<open>a\<close> is the array \<open>addrs\<close> of an inode, \<open>blockat C a k\<close> its block number \<open>k\<close>, 0 where none is allocated, and \<open>fbyte C a q\<close>
  the byte at offset \<open>q\<close>; a part that is not allocated reads as zeros.
\<close>

definition blockat :: "(nat \<Rightarrow> u8 list) \<Rightarrow> nat list \<Rightarrow> nat \<Rightarrow> nat" where
  "blockat C a k =
     (if k < NDIRECT then a ! k else if a ! NDIRECT = 0 then 0 else rd32 (4 * (k - NDIRECT)) (C (a ! NDIRECT)))"

definition fbyte :: "(nat \<Rightarrow> u8 list) \<Rightarrow> nat list \<Rightarrow> nat \<Rightarrow> u8" where
  "fbyte C a q = (let b = blockat C a (q div BSIZE) in if b = 0 then 0 else C b ! (q mod BSIZE))"

definition owned :: "(nat \<Rightarrow> u8 list) \<Rightarrow> nat list \<Rightarrow> nat set" where
  "owned C a = insert (a ! NDIRECT) (blockat C a ` {..<MAXFILE}) - {0}"

text \<open>A file owns blocks that are marked and outside the metadata, and no block twice.\<close>

definition file_ok :: "nat \<Rightarrow> superblock \<Rightarrow> (nat \<Rightarrow> u8 list) \<Rightarrow> nat list \<Rightarrow> bool" where
  "file_ok st S C a \<longleftrightarrow> length a = NDIRECT + 1 \<and>
     (\<forall>b \<in> owned C a. b < sb_size S \<and> \<not> isfree C S b \<and> b \<notin> fixed_blocks st S) \<and>
     (\<forall>k < MAXFILE. \<forall>l < MAXFILE. blockat C a k = blockat C a l \<longrightarrow> blockat C a k \<noteq> 0 \<longrightarrow> k = l) \<and>
     (\<forall>k < MAXFILE. blockat C a k \<noteq> 0 \<longrightarrow> blockat C a k \<noteq> a ! NDIRECT)"

lemma ownedI: "k < MAXFILE \<Longrightarrow> blockat C a k \<noteq> 0 \<Longrightarrow> blockat C a k \<in> owned C a" "a ! NDIRECT \<noteq> 0 \<Longrightarrow> a ! NDIRECT \<in> owned C a"
  by (simp_all add: owned_def)

lemma file_okD:
  assumes "file_ok st S C a"
  shows "length a = NDIRECT + 1" "b \<in> owned C a \<Longrightarrow> b < sb_size S" "b \<in> owned C a \<Longrightarrow> \<not> isfree C S b"
    "b \<in> owned C a \<Longrightarrow> b \<notin> bmaps S" "b \<in> owned C a \<Longrightarrow> b \<notin> area st (LOGSIZE - 1)" "b \<in> owned C a \<Longrightarrow> b \<notin> iblocks S"
    "k < MAXFILE \<Longrightarrow> l < MAXFILE \<Longrightarrow> blockat C a k = blockat C a l \<Longrightarrow> blockat C a k \<noteq> 0 \<Longrightarrow> k = l"
    "k < MAXFILE \<Longrightarrow> blockat C a k \<noteq> 0 \<Longrightarrow> blockat C a k \<noteq> a ! NDIRECT" "b \<in> owned C a \<Longrightarrow> b \<notin> fixed_blocks st S"
  using assms unfolding file_ok_def fixed_blocks_def by blast+

text \<open>
  A free block \<open>x\<close> joins a file: as its block number \<open>k\<close>, when \<open>T = Some k\<close>, or as its table of indirect blocks, when
  \<open>T = None\<close>.
\<close>

definition joins :: "nat \<Rightarrow> superblock \<Rightarrow> nat \<Rightarrow> nat option \<Rightarrow> (nat \<Rightarrow> u8 list) \<Rightarrow> nat list \<Rightarrow> (nat \<Rightarrow> u8 list) \<Rightarrow> nat list \<Rightarrow> bool" where
  "joins st S x T C a C' a' \<longleftrightarrow> length a' = NDIRECT + 1 \<and> isfree C S x \<and> alloc_ok st S C' \<and> (\<forall>y. isfree C' S y \<longleftrightarrow> isfree C S y \<and> y \<noteq> x) \<and>
     (\<forall>k < MAXFILE. blockat C' a' k = (if T = Some k then x else blockat C a k)) \<and>
     (case T of None \<Rightarrow> a ! NDIRECT = 0 \<and> a' ! NDIRECT = x
      | Some k \<Rightarrow> k < MAXFILE \<and> blockat C a k = 0 \<and> a' ! NDIRECT = a ! NDIRECT \<and> C' x = replicate BSIZE 0) \<and>
     (\<forall>n. n \<notin> bmaps S \<longrightarrow> n \<noteq> x \<longrightarrow> n = 0 \<or> n \<noteq> a ! NDIRECT \<longrightarrow> C' n = C n)"

lemma joins_owned:
  assumes f: "file_ok st S C a" and j: "joins st S x T C a C' a'" and "alloc_ok st S C"
  shows "owned C' a' = insert x (owned C a)"
proof -
  have x0: "x \<noteq> 0" using j assms(3) by (auto simp: joins_def alloc_ok_def fixed_blocks_def)
  have B: "blockat C' a' k = (if T = Some k then x else blockat C a k)" if "k < MAXFILE" for k using j that by (simp add: joins_def)
  show ?thesis
  proof (cases T)
    case None
    then have "blockat C' a' ` {..<MAXFILE} = blockat C a ` {..<MAXFILE}" using B by (intro image_cong) auto
    then show ?thesis using j None x0 by (auto simp: owned_def joins_def)
  next
    case (Some k)
    then have k: "k < MAXFILE" "blockat C a k = 0" "a' ! NDIRECT = a ! NDIRECT" using j by (auto simp: joins_def)
    have "blockat C' a' ` {..<MAXFILE} = insert x (blockat C a ` ({..<MAXFILE} - {k}))"
      using B k(1) Some by (auto simp: image_iff)
    moreover have "blockat C a ` {..<MAXFILE} - {0} = blockat C a ` ({..<MAXFILE} - {k}) - {0}" using k(2) by auto
    ultimately show ?thesis unfolding owned_def k(3) using x0 by auto
  qed
qed

lemma joins_ok:
  assumes f: "file_ok st S C a" and a: "alloc_ok st S C" and j: "joins st S x T C a C' a'"
  shows "file_ok st S C' a'"
proof -
  have xf: "isfree C S x" and xx: "x \<notin> fixed_blocks st S" "x < sb_size S" using j a by (auto simp: joins_def alloc_ok_def isfree_def)
  have xo: "x \<notin> owned C a" using file_okD(3) [OF f] xf by blast
  have B: "blockat C' a' k = (if T = Some k then x else blockat C a k)" if "k < MAXFILE" for k using j that by (simp add: joins_def)
  have fr: "isfree C' S y \<longleftrightarrow> isfree C S y \<and> y \<noteq> x" for y using j by (simp add: joins_def)
  have 1: "b < sb_size S \<and> \<not> isfree C' S b \<and> b \<notin> fixed_blocks st S" if "b \<in> owned C' a'" for b
    using that xx file_okD(2,3,9) [OF f, of b] unfolding joins_owned [OF f j a] fr by auto
  have ne: "blockat C a k \<noteq> x" if "k < MAXFILE" for k using xo xx that ownedI(1) [of k C a] by (cases "blockat C a k = 0") (auto simp: fixed_blocks_def)
  have 2: "k = l" if "k < MAXFILE" "l < MAXFILE" "blockat C' a' k = blockat C' a' l" "blockat C' a' k \<noteq> 0" for k l
    using that B [of k] B [of l] ne [of k] ne [of l] file_okD(7) [OF f, of k l] by (auto split: if_splits)
  have 3: "blockat C' a' k \<noteq> a' ! NDIRECT" if k: "k < MAXFILE" "blockat C' a' k \<noteq> 0" for k
  proof (cases T)
    case None
    then show ?thesis using j B [OF k(1)] ne [OF k(1)] by (simp add: joins_def)
  next
    case (Some l)
    then have "a' ! NDIRECT = a ! NDIRECT" using j by (simp add: joins_def)
    moreover have "a ! NDIRECT \<noteq> x" using xo xx(1) ownedI(2) [of a C] by (auto simp: fixed_blocks_def)
    ultimately show ?thesis using B [OF k(1)] file_okD(8) [OF f k(1)] k(2) by (auto split: if_splits)
  qed
  have "length a' = NDIRECT + 1" using j by (simp add: joins_def)
  then show ?thesis unfolding file_ok_def using 1 2 3 by blast
qed

lemma joins_fbyte:
  assumes f: "file_ok st S C a" and a: "alloc_ok st S C" and j: "joins st S x T C a C' a'" and q: "q < MAXFILE * BSIZE"
  shows "fbyte C' a' q = fbyte C a q"
proof -
  have k: "q div BSIZE < MAXFILE" using q by (rule less_mult_imp_div_less)
  have m: "q mod BSIZE < BSIZE" by (simp add: BSIZE_def)
  have x0: "x \<noteq> 0" using j a by (auto simp: joins_def alloc_ok_def fixed_blocks_def)
  have B: "blockat C' a' (q div BSIZE) = (if T = Some (q div BSIZE) then x else blockat C a (q div BSIZE))" using j k by (simp add: joins_def)
  show ?thesis
  proof (cases "T = Some (q div BSIZE)")
    case True
    then have "blockat C a (q div BSIZE) = 0" "C' x = replicate BSIZE 0" using j by (auto simp: joins_def)
    then show ?thesis using True B x0 m by (simp add: fbyte_def)
  next
    case False
    let ?b = "blockat C a (q div BSIZE)"
    have "C' ?b = C ?b" if b: "?b \<noteq> 0"
    proof -
      note o = ownedI(1) [OF k b]
      have "?b \<noteq> x" using file_okD(3) [OF f o] j by (auto simp: joins_def)
      then show ?thesis using file_okD(4) [OF f o] file_okD(8) [OF f k b] j by (simp add: joins_def)
    qed
    then show ?thesis using False B by (simp add: fbyte_def Let_def)
  qed
qed

lemma rd32_zeros [simp]: "rd32 off (replicate n 0) = 0"
proof -
  have "le_val (replicate k 0) = 0" for k by (induction k) simp_all
  then show ?thesis by (simp add: rd32_def get_at_def)
qed

lemma NDIRECT_less: "k < NDIRECT \<Longrightarrow> k < MAXFILE"
  by (simp add: MAXFILE_def)

lemma joins_slot:
  assumes f: "file_ok st S C a" and a: "alloc_ok st S C" and x: "isfree C S x" and l: "\<And>n. length (C n) = BSIZE"
    and k: "k \<le> NDIRECT" "a ! k = 0"
  shows "joins st S x (if k < NDIRECT then Some k else None) C a (taken_block S x C) (a[k := x])"
proof -
  let ?C = "taken_block S x C" let ?a = "a[k := x]" let ?T = "if k < NDIRECT then Some k else None"
  have g: "geom st S" and xs: "x < sb_size S" and x0: "x \<noteq> 0" using a x by (auto simp: alloc_ok_def isfree_def fixed_blocks_def)
  have la: "length a = NDIRECT + 1" by (rule file_okD(1) [OF f])
  have other: "?C n = C n" if "n \<notin> bmaps S" "n \<noteq> x" for n by (rule taken_block_other [OF g xs that])
  have t: "?C (a ! NDIRECT) = C (a ! NDIRECT)" if "a ! NDIRECT \<noteq> 0"
    using other file_okD(3,4) [OF f ownedI(2) [of a C]] that x by metis
  have B: "blockat ?C ?a j = (if ?T = Some j then x else blockat C a j)" for j
  proof (cases "k < NDIRECT")
    case True
    then show ?thesis using la t by (auto simp: blockat_def nth_list_update)
  next
    case False
    then have "k = NDIRECT" using k(1) by simp
    then show ?thesis using la k(2) x0 by (auto simp: blockat_def nth_list_update)
  qed
  have A: "case ?T of None \<Rightarrow> a ! NDIRECT = 0 \<and> ?a ! NDIRECT = x
      | Some k \<Rightarrow> k < MAXFILE \<and> blockat C a k = 0 \<and> ?a ! NDIRECT = a ! NDIRECT \<and> ?C x = replicate BSIZE 0"
    using k la NDIRECT_less by (cases "k < NDIRECT") (auto simp: blockat_def)
  note F = taken_block_free [OF a x l]
  show ?thesis unfolding joins_def using la x F B A other by (intro conjI allI impI) simp_all
qed

lemma joins_entry:
  assumes f: "file_ok st S C a" and a: "alloc_ok st S C" and x: "isfree C S x" and l: "\<And>n. length (C n) = BSIZE"
    and m: "m = a ! NDIRECT" "m \<noteq> 0" and k: "NDIRECT \<le> k" "k < MAXFILE" "blockat C a k = 0"
  shows "joins st S x (Some k) C a ((taken_block S x C)(m := wr32 (4 * (k - NDIRECT)) x (C m))) a"
proof -
  let ?e = "4 * (k - NDIRECT)" let ?C = "(taken_block S x C)(m := wr32 ?e x (C m))"
  have g: "geom st S" and xs: "x < sb_size S" and x0: "x \<noteq> 0" using a x by (auto simp: alloc_ok_def isfree_def fixed_blocks_def)
  have x32: "x mod 2 ^ 32 = x" using xs g by (simp add: geom_def)
  have la: "length a = NDIRECT + 1" by (rule file_okD(1) [OF f])
  have mo: "m \<in> owned C a" using ownedI(2) [of a C] m by simp
  have mx: "m \<noteq> x" "m \<notin> bmaps S" using file_okD(3,4) [OF f mo] x by auto
  have other: "?C n = C n" if "n \<notin> bmaps S" "n \<noteq> x" "n = 0 \<or> n \<noteq> a ! NDIRECT" for n
    using taken_block_other [OF g xs that(1,2)] that(3) m by auto
  have e: "?e + 4 \<le> BSIZE" using k(1,2) by (simp add: MAXFILE_def NINDIRECT_def NDIRECT_def BSIZE_def)
  have B: "blockat ?C a j = (if Some k = Some j then x else blockat C a j)" for j
  proof (cases "j < NDIRECT")
    case True
    then show ?thesis using k(1) by (auto simp: blockat_def)
  next
    case False
    then have "blockat ?C a j = rd32 (4 * (j - NDIRECT)) (wr32 ?e x (C m))" "blockat C a j = rd32 (4 * (j - NDIRECT)) (C m)"
      using m by (simp_all add: blockat_def)
    moreover have "rd32 ?e (wr32 ?e x (C m)) = x" using rd_wr_same(2) [of ?e "C m" x] e l x32 by simp
    moreover have "rd32 (4 * (j - NDIRECT)) (wr32 ?e x (C m)) = rd32 (4 * (j - NDIRECT)) (C m)" if "j \<noteq> k"
      by (rule rd32_wr32_other) (use that e l False k(1) in auto)
    ultimately show ?thesis by auto
  qed
  have F: "isfree ?C S y = isfree (taken_block S x C) S y" for y by (rule isfree_other [OF _ g]) (use mx in auto)
  note F' = taken_block_free [OF a x l]
  have A: "alloc_ok st S ?C" using F'(2) unfolding alloc_ok_def F .
  have O: "\<forall>n. n \<notin> bmaps S \<longrightarrow> n \<noteq> x \<longrightarrow> n = 0 \<or> n \<noteq> a ! NDIRECT \<longrightarrow> ?C n = C n" using other by blast
  show ?thesis unfolding joins_def using la x F F'(1) B A k m mx by (intro conjI O allI impI) simp_all
qed

section \<open>\<open>bmap\<close>\<close>

definition nfree :: "(nat \<Rightarrow> u8 list) \<Rightarrow> superblock \<Rightarrow> nat" where
  "nfree C S = card {b. isfree C S b}"

lemma isfree_finite [simp]: "finite {b. isfree C S b}"
  by (rule finite_subset [of _ "{..<sb_size S}"]) (auto simp: isfree_def)

lemma free_least:
  assumes "0 < nfree C S"
  obtains x where "isfree C S x" "\<And>y. y < x \<Longrightarrow> \<not> isfree C S y"
proof -
  have "\<exists>x. isfree C S x" using assms by (auto simp: nfree_def card_gt_0_iff)
  then show ?thesis using that LeastI_ex [of "isfree C S"] not_less_Least [of _ "isfree C S"] by blast
qed

text \<open>
  What operations on a file leave alone: the blocks that are in use, but not by this file, and are not bitmap blocks; and where the
  blocks of the file are.
\<close>

definition kept :: "nat \<Rightarrow> superblock \<Rightarrow> (nat \<Rightarrow> u8 list) \<Rightarrow> nat list \<Rightarrow> (nat \<Rightarrow> u8 list) \<Rightarrow> nat list \<Rightarrow> bool" where
  "kept st S C a C' a' \<longleftrightarrow> (\<forall>n. n \<notin> bmaps S \<longrightarrow> \<not> isfree C S n \<longrightarrow> n \<notin> owned C a \<longrightarrow> C' n = C n) \<and>
     (\<forall>b. isfree C' S b \<longrightarrow> isfree C S b) \<and> owned C' a' \<subseteq> owned C a \<union> {b. isfree C S b} \<and>
     (\<forall>k < MAXFILE. blockat C a k \<noteq> 0 \<longrightarrow> blockat C' a' k = blockat C a k)"

lemma kept_refl [intro]: "kept st S C a C a"
  by (auto simp: kept_def)

lemma kept_trans:
  assumes 1: "kept st S C a C' a'" and 2: "kept st S C' a' C'' a''"
  shows "kept st S C a C'' a''"
proof -
  have fr: "isfree C' S b \<Longrightarrow> isfree C S b" for b using 1 by (simp add: kept_def)
  have ow: "owned C' a' \<subseteq> owned C a \<union> {b. isfree C S b}" using 1 by (simp add: kept_def)
  have "C'' n = C n" if n: "n \<notin> bmaps S" "\<not> isfree C S n" "n \<notin> owned C a" for n
  proof -
    have "\<not> isfree C' S n" "n \<notin> owned C' a'" using fr ow n by auto
    then have "C'' n = C' n" using 2 n(1) by (simp add: kept_def)
    also have "\<dots> = C n" using 1 n by (simp add: kept_def)
    finally show ?thesis .
  qed
  moreover have "isfree C'' S b \<Longrightarrow> isfree C S b" for b using 2 fr by (simp add: kept_def)
  moreover have "owned C'' a'' \<subseteq> owned C' a' \<union> {b. isfree C' S b}" using 2 by (simp add: kept_def)
  then have "owned C'' a'' \<subseteq> owned C a \<union> {b. isfree C S b}" using ow fr by blast
  moreover have "blockat C'' a'' k = blockat C a k" if "k < MAXFILE" "blockat C a k \<noteq> 0" for k using 1 2 that by (simp add: kept_def)
  ultimately show ?thesis by (simp add: kept_def)
qed

lemma joins_kept:
  assumes f: "file_ok st S C a" and a: "alloc_ok st S C" and j: "joins st S x T C a C' a'"
  shows "kept st S C a C' a'" "nfree C S = Suc (nfree C' S)"
proof -
  have x: "isfree C S x" and fr: "isfree C' S y \<longleftrightarrow> isfree C S y \<and> y \<noteq> x" for y using j by (simp_all add: joins_def)
  have "C' n = C n" if n: "n \<notin> bmaps S" "\<not> isfree C S n" "n \<notin> owned C a" for n
    using j n x ownedI(2) [of a C] by (cases "a ! NDIRECT = 0") (auto simp: joins_def)
  moreover have "blockat C' a' k = blockat C a k" if "k < MAXFILE" "blockat C a k \<noteq> 0" for k using j that by (auto simp: joins_def)
  ultimately show "kept st S C a C' a'" unfolding kept_def joins_owned [OF f j a] fr using x by blast
  have "{b. isfree C S b} = insert x {b. isfree C' S b}" "x \<notin> {b. isfree C' S b}" using x fr by auto
  then show "nfree C S = Suc (nfree C' S)" unfolding nfree_def by simp
qed

definition setaddrs :: "nat \<Rightarrow> nat list \<Rightarrow> (nat \<Rightarrow> inode) \<Rightarrow> nat \<Rightarrow> inode" where
  "setaddrs i a I = I(i := (I i)\<lparr>icopy := (icopy (I i))\<lparr>di_addrs := a\<rparr>\<rparr>)"

lemma setaddrs_simps [simp]:
  "iaddrs (setaddrs i a I i) = a" "setaddrs i a (setaddrs i b I) = setaddrs i a I" "idev (setaddrs i a I j) = idev (I j)"
  "inum (setaddrs i a I j) = inum (I j)" "setaddrs i (iaddrs (I i)) I = I" "isize (setaddrs i a I j) = isize (I j)"
  by (simp_all add: setaddrs_def)

lemma ftx_fs [simp]: "ftx p d st h H C (s\<lparr>inodes := I\<rparr>) = ftx p d st h H C s" "room k h H (s\<lparr>inodes := I\<rparr>) = room k h H s"
  by (simp_all add: ftx_def room_def bcache_def quiet_def calm_in_def vidle_def dblock_dblk)

lemma fstep_fs: "fstep p d H s t \<Longrightarrow> fstep p d H s (t\<lparr>inodes := I\<rparr>)"
  by (simp add: fstep_def jrun_def)

text \<open>
  \<open>fsat p d st i h C s\<close>: a transaction in which no buffer is held, a bitmap and the file of the inode at \<open>i\<close> that are well formed.
  \<open>fsgo\<close>: how the operations on this file change the state.
\<close>

definition fsat :: "nat \<Rightarrow> nat \<Rightarrow> nat \<Rightarrow> nat \<Rightarrow> nat list \<Rightarrow> (nat \<Rightarrow> u8 list) \<Rightarrow> 'z kfs_scheme \<Rightarrow> bool" where
  "fsat p d st i h C s \<longleftrightarrow> ftx p d st h {} C s \<and> alloc_ok st (sb s) C \<and> file_ok st (sb s) C (iaddrs (inodes s i)) \<and> idev (inodes s i) = d"

definition fsgo :: "nat \<Rightarrow> nat \<Rightarrow> nat \<Rightarrow> nat \<Rightarrow> (nat \<Rightarrow> u8 list) \<Rightarrow> 'z kfs_scheme \<Rightarrow> (nat \<Rightarrow> u8 list) \<Rightarrow> 'z kfs_scheme \<Rightarrow> bool" where
  "fsgo p d st i C s C' t \<longleftrightarrow> fstep p d {} s t \<and> sb t = sb s \<and> kfs.more t = kfs.more s \<and>
     inodes t = setaddrs i (iaddrs (inodes t i)) (inodes s) \<and> kept st (sb s) C (iaddrs (inodes s i)) C' (iaddrs (inodes t i))"

lemma fsgo_refl [intro]: "fsgo p d st i C s C s"
  by (auto simp: fsgo_def)

lemma fsgo_trans: "fsgo p d st i C s C' t \<Longrightarrow> fsgo p d st i C' t C'' u \<Longrightarrow> fsgo p d st i C s C'' u"
proof -
  assume 1: "fsgo p d st i C s C' t" and 2: "fsgo p d st i C' t C'' u"
  have "inodes u = setaddrs i (iaddrs (inodes u i)) (setaddrs i (iaddrs (inodes t i)) (inodes s))" using 1 2 by (metis fsgo_def)
  then have "inodes u = setaddrs i (iaddrs (inodes u i)) (inodes s)" by simp
  moreover have "kept st (sb s) C (iaddrs (inodes s i)) C'' (iaddrs (inodes u i))"
    by (rule kept_trans [where C' = C' and a' = "iaddrs (inodes t i)"]) (use 1 2 in \<open>simp_all add: fsgo_def\<close>)
  ultimately show ?thesis using 1 2 fstep_trans [of p d "{}" s t "{}" u] by (simp add: fsgo_def)
qed

lemma fsat_D:
  assumes "fsat p d st i h C s"
  shows "ftx p d st h {} C s" "alloc_ok st (sb s) C" "file_ok st (sb s) C (iaddrs (inodes s i))" "idev (inodes s i) = d" "geom st (sb s)"
    "length (C n) = BSIZE"
  using assms ftx_length [of p d st h "{}" C s n] by (simp_all add: fsat_def alloc_ok_def)

lemma more_kfs: "klog.more t = klog.more s \<Longrightarrow> sb t = sb s \<and> inodes t = inodes s \<and> kfs.more t = kfs.more s"
  by (cases s; cases t) simp

lemma upd_addrs: "upd_icopy i (\<lambda>x. x\<lparr>di_addrs := (di_addrs x)[k := v]\<rparr>) s = s\<lparr>inodes := setaddrs i ((iaddrs (inodes s i))[k := v]) (inodes s)\<rparr>"
  by (simp add: upd_icopy_def upd_inode_def setaddrs_def)

lemma joined:
  assumes I: "fsat p d st i h C s" and t: "klog.more t = klog.more s" "ftx p d st h' {} C' t" "fstep p d {} s t"
    and j: "joins st (sb s) x T C (iaddrs (inodes s i)) C' a'"
  defines "u \<equiv> t\<lparr>inodes := setaddrs i a' (inodes t)\<rparr>"
  shows "fsat p d st i h' C' u" "fsgo p d st i C s C' u" "nfree C (sb s) = Suc (nfree C' (sb u))" "sb u = sb s" "iaddrs (inodes u i) = a'"
    "q < MAXFILE * BSIZE \<Longrightarrow> fbyte C' (iaddrs (inodes u i)) q = fbyte C (iaddrs (inodes s i)) q"
proof -
  note D = fsat_D [OF I] note J = joins_kept [OF D(3,2) j]
  have m: "sb t = sb s" "inodes t = inodes s" "kfs.more t = kfs.more s" using more_kfs [OF t(1)] by simp_all
  have "alloc_ok st (sb s) C'" using j by (simp add: joins_def)
  then show "fsat p d st i h' C' u" using t(2) joins_ok [OF D(3,2) j] D(4) m by (simp add: fsat_def u_def)
  show "fsgo p d st i C s C' u" using J(1) fstep_fs [OF t(3)] m by (simp add: fsgo_def u_def)
  show "nfree C (sb s) = Suc (nfree C' (sb u))" "sb u = sb s" "iaddrs (inodes u i) = a'" using J(2) m by (simp_all add: u_def)
  show "q < MAXFILE * BSIZE \<Longrightarrow> fbyte C' (iaddrs (inodes u i)) q = fbyte C (iaddrs (inodes s i)) q"
    using joins_fbyte [OF D(3,2) j] by (simp add: u_def)
qed

lemma bmap_slot_new:
  fixes s :: "'z kfs_scheme"
  assumes I: "fsat p d st i h C s" and k: "k \<le> NDIRECT" "iaddrs (inodes s i) ! k = 0" and fr: "0 < nfree C (sb s)"
    and r: "room (Suc (Suc (Suc n))) h {} s"
  obtains x t h' C' where "bmap_slot i k s = Ok x t" "x \<noteq> 0" "iaddrs (inodes t i) = (iaddrs (inodes s i))[k := x]" "fsat p d st i h' C' t"
    "fsgo p d st i C s C' t" "nfree C (sb s) = Suc (nfree C' (sb t))" "room (Suc n) h' {} t"
    "\<forall>q < MAXFILE * BSIZE. fbyte C' (iaddrs (inodes t i)) q = fbyte C (iaddrs (inodes s i)) q"
proof -
  note D = fsat_D [OF I]
  obtain x where x: "isfree C (sb s) x" "\<And>y. y < x \<Longrightarrow> \<not> isfree C (sb s) y" using free_least [OF fr] by blast
  have x0: "x \<noteq> 0" using D(2) x(1) by (auto simp: alloc_ok_def fixed_blocks_def)
  obtain t where 1: "balloc d s = Ok x t"
    "ftx p d st (addlog x (addlog (BBLOCK x (sb s)) h)) {} (taken_block (sb s) x C) t" "fstep p d {} s t" "klog.more t = klog.more s"
    "room (Suc n) (addlog x (addlog (BBLOCK x (sb s)) h)) {} t" by (rule balloc_ok [OF D(1,2) x _ _ r]) simp_all
  note j = joins_slot [OF D(3,2) x(1) D(6) k]
  note J = joined [OF I 1(4,2,3) j]
  have m: "inodes t = inodes s" using more_kfs [OF 1(4)] by simp
  have e: "bmap_slot i k s = Ok x (t\<lparr>inodes := setaddrs i ((iaddrs (inodes s i))[k := x]) (inodes t)\<rparr>)"
    using k(2) x0 D(4) by (simp add: bmap_slot_def 1(1) upd_addrs m)
  show ?thesis by (rule that [OF e x0 J(5,1,2,3)]) (use 1(5) J(6) in simp_all)
qed

text \<open>The part of \<open>bmap\<close> that looks up entry \<open>e\<close> of the table of indirect blocks \<open>m\<close>.\<close>

definition bmap_entry :: "nat \<Rightarrow> nat \<Rightarrow> nat \<Rightarrow> 'z kfs_scheme \<Rightarrow> ('z kfs_scheme, nat) res" where
  "bmap_entry i e m s =
     bindr (bread (idev (inodes s i)) m s) (\<lambda>bp s.
     let a = rd32 (4 * e) (bdata (bufs s bp)) in
     bindr (if a = 0
            then bindr (balloc (idev (inodes s i)) s) (\<lambda>a s.
                 if a \<noteq> 0 then bindr (log_write bp (upd_data bp (wr32 (4 * e) a) s)) (\<lambda>_ s. Ok a s) else Ok a s)
            else Ok a s) (\<lambda>a s.
     bindr (brelse bp s) (\<lambda>_ s. Ok a s)))"

lemma bmap_cases:
  "bn < NDIRECT \<Longrightarrow> bmap i bn s = bmap_slot i bn s"
  "NDIRECT \<le> bn \<Longrightarrow> bn < MAXFILE \<Longrightarrow> bmap i bn s = bindr (bmap_slot i NDIRECT s) (\<lambda>a s. if a = 0 then Ok 0 s else bmap_entry i (bn - NDIRECT) a s)"
proof -
  show "bn < NDIRECT \<Longrightarrow> bmap i bn s = bmap_slot i bn s" by (simp add: bmap_def)
  assume "NDIRECT \<le> bn" "bn < MAXFILE"
  then have "\<not> bn < NDIRECT" "bn - NDIRECT < NINDIRECT" by (simp_all add: MAXFILE_def)
  then show "bmap i bn s = bindr (bmap_slot i NDIRECT s) (\<lambda>a s. if a = 0 then Ok 0 s else bmap_entry i (bn - NDIRECT) a s)"
    unfolding bmap_def bmap_entry_def Let_def by simp
qed

lemma bmap_slot_old: "iaddrs (inodes s i) ! k \<noteq> 0 \<Longrightarrow> bmap_slot i k s = Ok (iaddrs (inodes s i) ! k) s"
  by (simp add: bmap_slot_def)

lemma owned_small:
  assumes "fsat p d st i h C s" and "m \<in> owned C (iaddrs (inodes s i))"
  shows "m < 2 ^ 31" "m \<notin> area st (LOGSIZE - 1)" "m \<notin> bmaps (sb s)" "\<not> isfree C (sb s) m"
  using file_okD(2-5) [OF fsat_D(3) [OF assms(1)] assms(2)] fsat_D(5) [OF assms(1)] by (simp_all add: geom_def)

lemma bmap_entry_ok:
  fixes s :: "'z kfs_scheme"
  assumes I: "fsat p d st i h C s" and m: "iaddrs (inodes s i) ! NDIRECT = m" "m \<noteq> 0" and bn: "NDIRECT \<le> bn" "bn < MAXFILE"
    and fr: "blockat C (iaddrs (inodes s i)) bn = 0 \<Longrightarrow> 0 < nfree C (sb s)" and r: "room (Suc (Suc (Suc (Suc n)))) h {} s"
  obtains x t h' C' where "bmap_entry i (bn - NDIRECT) m s = Ok x t" "x \<noteq> 0" "blockat C' (iaddrs (inodes t i)) bn = x" "fsat p d st i h' C' t"
    "fsgo p d st i C s C' t" "nfree C (sb s) \<le> Suc (nfree C' (sb t))" "room (Suc n) h' {} t"
    "\<forall>q < MAXFILE * BSIZE. fbyte C' (iaddrs (inodes t i)) q = fbyte C (iaddrs (inodes s i)) q"
    "blockat C (iaddrs (inodes s i)) bn \<noteq> 0 \<longrightarrow> C' = C \<and> inodes t = inodes s \<and> h' = h"
proof -
  note D = fsat_D [OF I]
  let ?e = "bn - NDIRECT" let ?a = "iaddrs (inodes s i)"
  have mo: "m \<in> owned C ?a" using ownedI(2) [of ?a C] m by simp
  note M = owned_small [OF I mo]
  have ba: "blockat C ?a bn = rd32 (4 * ?e) (C m)" using m bn(1) by (simp add: blockat_def)
  obtain b t where 1: "bread d m s = Ok b t" "ftx p d st h {m} C t" "bufof d (bufs t) b m" "bdata (bufs t b) = C m"
    "fstep p d {} s t" "klog.more t = klog.more s" by (rule tx_bread [OF D(1) _ M(1) room_mono [OF r]]) simp_all
  have i1: "inodes t = inodes s" "sb t = sb s" using more_kfs [OF 1(6)] by simp_all
  show ?thesis
  proof (cases "blockat C ?a bn = 0")
    case False
    obtain u where 2: "brelse b t = Ok () u" "ftx p d st h ({m} - {m}) C u" "fstep p d ({m} - {m}) t u" "klog.more u = klog.more t"
      by (rule tx_brelse [OF 1(2,3)]) simp
    have fs: "fstep p d {} s u" using fstep_trans [OF 1(5) 2(3)] by simp
    have u: "sb u = sb s" "inodes u = inodes s" "kfs.more u = kfs.more s" using more_kfs [OF trans [OF 2(4) 1(6)]] by simp_all
    have e: "bmap_entry i ?e m s = Ok (blockat C ?a bn) u" using False ba by (simp add: bmap_entry_def D(4) 1(1,4) 2(1))
    have I': "fsat p d st i h C u" "fsgo p d st i C s C u" using I fs 2(2) u by (auto simp: fsat_def fsgo_def)
    show ?thesis by (rule that [OF e False _ I' _ room_move [OF r fstep_log_size [OF fs]]]) (simp_all add: u)
  next
    case True
    obtain x where x: "isfree C (sb t) x" "\<And>y. y < x \<Longrightarrow> \<not> isfree C (sb t) y" using free_least [OF fr [OF True]] unfolding i1 by blast
    have x0: "x \<noteq> 0" using D(2) x(1) by (auto simp: alloc_ok_def fixed_blocks_def i1)
    have xm: "x \<noteq> m" using M(4) x(1) i1 by auto
    have r1: "room (Suc (Suc (Suc n))) h {m} t" by (rule room_move [OF r fstep_log_size [OF 1(5)]]) simp_all
    have Hm: "{m} \<inter> bmaps (sb t) = {}" "x \<notin> {m}" using M(3) xm i1 by auto
    have a1: "alloc_ok st (sb t) C" using D(2) i1 by simp
    obtain u where 2: "balloc d t = Ok x u"
      "ftx p d st (addlog x (addlog (BBLOCK x (sb t)) h)) {m} (taken_block (sb t) x C) u" "fstep p d {m} t u" "klog.more u = klog.more t"
      "room (Suc n) (addlog x (addlog (BBLOCK x (sb t)) h)) {m} u" using balloc_ok [OF 1(2) a1 x Hm r1] by blast
    let ?C = "taken_block (sb s) x C" let ?h = "addlog x (addlog (BBLOCK x (sb s)) h)" let ?g = "wr32 (4 * ?e) x"
    have bu: "bufof d (bufs u) b m" by (rule fstep_bufof [OF 2(3) _ 1(3)]) simp
    have Cm: "?C m = C m" by (rule taken_block_other [OF D(5) _ M(3)]) (use x(1) xm i1 in \<open>auto simp: isfree_def\<close>)
    have l: "length (?g (?C m)) = BSIZE" using bn D(6) [of m] unfolding Cm
      by (subst length_wr(2)) (simp_all add: MAXFILE_def NINDIRECT_def NDIRECT_def BSIZE_def)
    obtain v where 3: "log_write b (upd_data b ?g u) = Ok () v" "ftx p d st (addlog m ?h) {m} (?C(m := ?g (?C m))) v" "fstep p d {m} u v"
      "klog.more v = klog.more u" "bufof d (bufs v) b m" "room n (addlog m ?h) {m} v"
      by (rule tx_update [where g = ?g, OF 2(2) [unfolded i1] bu _ M(1,2) l 2(5) [unfolded i1]]) simp
    obtain w where 4: "brelse b v = Ok () w" "ftx p d st (addlog m ?h) ({m} - {m}) (?C(m := ?g (?C m))) w" "fstep p d ({m} - {m}) v w"
      "klog.more w = klog.more v" by (rule tx_brelse [OF 3(2,5)]) simp
    have fs: "fstep p d {} s w" using fstep_trans [OF fstep_trans [OF fstep_trans [OF 1(5) 2(3)] 3(3)] 4(3)] by simp
    have mo': "klog.more w = klog.more s" by (simp only: 4(4) 3(4) 2(4) 1(6))
    have fw: "ftx p d st (addlog m ?h) {} (?C(m := ?g (C m))) w" using 4(2) by (simp add: Cm)
    note j = joins_entry [OF D(3,2) x(1) [unfolded i1] D(6) m(1) [symmetric] m(2) bn True]
    note J = joined [OF I mo' fw fs j]
    have iw: "inodes w = inodes s" using more_kfs [OF mo'] by simp
    have ww: "w\<lparr>inodes := setaddrs i ?a (inodes w)\<rparr> = w" by (simp add: iw)
    note J = J [unfolded ww]
    have e: "bmap_entry i ?e m s = Ok x w" using True ba x0 by (simp add: bmap_entry_def D(4) i1 1(1,4) 2(1) 3(1) 4(1))
    have bx: "blockat (?C(m := ?g (C m))) (iaddrs (inodes w i)) bn = x" using j bn(2) by (simp add: joins_def iw)
    have "length (addlog m ?h) \<le> Suc (Suc (Suc (length h)))"
      using addlog_length [of m ?h] addlog_length [of x "addlog (BBLOCK x (sb s)) h"] addlog_length [of "BBLOCK x (sb s)" h] by linarith
    then have r2: "room (Suc n) (addlog m ?h) {} w" by (intro room_move [OF r fstep_log_size [OF fs]]) simp_all
    show ?thesis by (rule that [OF e x0 bx J(1,2) _ r2]) (use J(3,6) True in simp_all)
  qed
qed

lemma bmap_ok:
  fixes s :: "'z kfs_scheme"
  assumes I: "fsat p d st i h C s" and bn: "bn < MAXFILE" and fr: "blockat C (iaddrs (inodes s i)) bn = 0 \<Longrightarrow> 2 \<le> nfree C (sb s)"
    and r: "room (n + 6) h {} s"
  obtains x t h' C' where "bmap i bn s = Ok x t" "x \<noteq> 0" "blockat C' (iaddrs (inodes t i)) bn = x" "fsat p d st i h' C' t"
    "fsgo p d st i C s C' t" "nfree C (sb s) \<le> nfree C' (sb t) + 2" "room (Suc n) h' {} t"
    "\<forall>q < MAXFILE * BSIZE. fbyte C' (iaddrs (inodes t i)) q = fbyte C (iaddrs (inodes s i)) q"
    "blockat C (iaddrs (inodes s i)) bn \<noteq> 0 \<longrightarrow> C' = C \<and> inodes t = inodes s \<and> h' = h"
proof -
  let ?a = "iaddrs (inodes s i)"
  have la: "length ?a = NDIRECT + 1" by (rule file_okD(1) [OF fsat_D(3) [OF I]])
  have r3: "room (Suc (Suc (Suc (n + 3)))) h {} s" by (rule room_mono [OF r]) simp
  show ?thesis
  proof (cases "bn < NDIRECT")
    case True
    then have ba: "blockat C a bn = a ! bn" for C a by (simp add: blockat_def)
    show ?thesis
    proof (cases "?a ! bn = 0")
      case old: False
      have e: "bmap i bn s = Ok (?a ! bn) s" using bmap_slot_old [OF old] bmap_cases(1) [OF True, of i s] by simp
      show ?thesis by (rule that [OF e old ba I]) (use room_mono [OF r] in auto)
    next
      case new: True
      have f0: "0 < nfree C (sb s)" using fr new ba by simp
      obtain x t h' C' where 1: "bmap_slot i bn s = Ok x t" "x \<noteq> 0" "iaddrs (inodes t i) = ?a[bn := x]" "fsat p d st i h' C' t"
        "fsgo p d st i C s C' t" "nfree C (sb s) = Suc (nfree C' (sb t))" "room (Suc (n + 3)) h' {} t"
        "\<forall>q < MAXFILE * BSIZE. fbyte C' (iaddrs (inodes t i)) q = fbyte C ?a q" by (rule bmap_slot_new [OF I less_imp_le [OF True] new f0 r3])
      have e: "bmap i bn s = Ok x t" using 1(1) bmap_cases(1) [OF True, of i s] by simp
      have bx: "blockat C' (iaddrs (inodes t i)) bn = x" using True la by (simp add: ba 1(3))
      show ?thesis by (rule that [OF e 1(2) bx 1(4,5) _ room_mono [OF 1(7)] 1(8)]) (use 1(6) new ba in simp_all)
    qed
  next
    case False
    then have ge: "NDIRECT \<le> bn" by simp
    show ?thesis
    proof (cases "?a ! NDIRECT = 0")
      case old: False
      have r4: "room (Suc (Suc (Suc (Suc n)))) h {} s" by (rule room_mono [OF r]) simp
      have f0: "0 < nfree C (sb s)" if "blockat C ?a bn = 0" using fr that by simp
      obtain x t h' C' where 1: "bmap_entry i (bn - NDIRECT) (?a ! NDIRECT) s = Ok x t" "x \<noteq> 0" "blockat C' (iaddrs (inodes t i)) bn = x"
        "fsat p d st i h' C' t" "fsgo p d st i C s C' t" "nfree C (sb s) \<le> Suc (nfree C' (sb t))" "room (Suc n) h' {} t"
        "\<forall>q < MAXFILE * BSIZE. fbyte C' (iaddrs (inodes t i)) q = fbyte C ?a q"
        "blockat C ?a bn \<noteq> 0 \<longrightarrow> C' = C \<and> inodes t = inodes s \<and> h' = h" by (rule bmap_entry_ok [OF I refl old ge bn f0 r4])
      have e: "bmap i bn s = Ok x t" using 1(1) old bmap_cases(2) [OF ge bn, of i s] bmap_slot_old [OF old] by simp
      show ?thesis by (rule that [OF e 1(2-5) _ 1(7-9)]) (use 1(6) in simp)
    next
      case new: True
      have b0: "blockat C ?a bn = 0" using False new by (simp add: blockat_def)
      then have f0: "0 < nfree C (sb s)" using fr by simp
      obtain m t h1 C1 where 1: "bmap_slot i NDIRECT s = Ok m t" "m \<noteq> 0" "iaddrs (inodes t i) = ?a[NDIRECT := m]" "fsat p d st i h1 C1 t"
        "fsgo p d st i C s C1 t" "nfree C (sb s) = Suc (nfree C1 (sb t))" "room (Suc (n + 3)) h1 {} t"
        "\<forall>q < MAXFILE * BSIZE. fbyte C1 (iaddrs (inodes t i)) q = fbyte C ?a q" by (rule bmap_slot_new [OF I order_refl new f0 r3])
      have r4: "room (Suc (Suc (Suc (Suc n)))) h1 {} t" by (rule room_mono [OF 1(7)]) simp
      have m: "iaddrs (inodes t i) ! NDIRECT = m" using la by (simp add: 1(3))
      have f1: "0 < nfree C1 (sb t)" using fr [OF b0] 1(6) by simp
      obtain x u h' C' where 2: "bmap_entry i (bn - NDIRECT) m t = Ok x u" "x \<noteq> 0" "blockat C' (iaddrs (inodes u i)) bn = x"
        "fsat p d st i h' C' u" "fsgo p d st i C1 t C' u" "nfree C1 (sb t) \<le> Suc (nfree C' (sb u))" "room (Suc n) h' {} u"
        "\<forall>q < MAXFILE * BSIZE. fbyte C' (iaddrs (inodes u i)) q = fbyte C1 (iaddrs (inodes t i)) q"
        by (rule bmap_entry_ok [OF 1(4) m 1(2) ge bn f1 r4])
      have e: "bmap i bn s = Ok x u" using 1(1,2) 2(1) bmap_cases(2) [OF ge bn, of i s] by simp
      show ?thesis by (rule that [OF e 2(2-4) fsgo_trans [OF 1(5) 2(5)] _ 2(7)]) (use 1(6,8) 2(6,8) b0 in simp_all)
    qed
  qed
qed

end
