(* ===== verification/Fsfile.thy ===== *)
theory Fsfile
  imports Fstx File
begin

text \<open>
  Contents of files: \<open>readi\<close>, \<open>writei\<close> and \<open>iupdate\<close> of \<open>kernel/fs.c\<close> inside a transaction, over the abstraction of a file as the
  sequence of its bytes. The theory also shows that a \<open>dinode\<close> is read back from the bytes of its block.
\<close>

section \<open>Bytes and blocks\<close>

lemma off_in_block: "off mod BSIZE + j < BSIZE \<Longrightarrow> (off + j) div BSIZE = off div BSIZE" "off mod BSIZE + j < BSIZE \<Longrightarrow> (off + j) mod BSIZE = off mod BSIZE + j"
proof -
  assume a: "off mod BSIZE + j < BSIZE"
  have e: "off div BSIZE * BSIZE + (off mod BSIZE + j) = off + j" by (simp only: add.assoc [symmetric] div_mult_mod_eq)
  have "(off div BSIZE * BSIZE + (off mod BSIZE + j)) div BSIZE = off div BSIZE + (off mod BSIZE + j) div BSIZE"
    by (rule div_mult_self3) (simp add: BSIZE_def)
  then show "(off + j) div BSIZE = off div BSIZE" unfolding e using a by (simp only: div_less add_0_right)
  have "(off div BSIZE * BSIZE + (off mod BSIZE + j)) mod BSIZE = (off mod BSIZE + j) mod BSIZE" by (rule mod_mult_self3)
  then show "(off + j) mod BSIZE = off mod BSIZE + j" unfolding e using a by (simp only: mod_less)
qed

lemma block_bytes:
  assumes "m \<le> BSIZE - off mod BSIZE" and "blockat C a (off div BSIZE) = b" "b \<noteq> 0" and "length (C b) = BSIZE"
  shows "get_at (off mod BSIZE) m (C b) = map (fbyte C a) [off..<off + m]"
proof (rule nth_equalityI)
  have "off mod BSIZE < BSIZE" by (simp add: BSIZE_def)
  then have l: "length (get_at (off mod BSIZE) m (C b)) = m" using assms(1,4) by (simp add: get_at_def)
  then show "length (get_at (off mod BSIZE) m (C b)) = length (map (fbyte C a) [off..<off + m])" by simp
  fix j assume "j < length (get_at (off mod BSIZE) m (C b))"
  then have j: "j < m" using l by simp
  have o: "off mod BSIZE + j < BSIZE" using j assms(1) by simp
  show "get_at (off mod BSIZE) m (C b) ! j = map (fbyte C a) [off..<off + m] ! j"
    using j assms(2-4) o off_in_block [OF o] by (simp add: get_at_def fbyte_def)
qed

lemma room_keep: "room k h {} s \<Longrightarrow> fsgo p d st i C s C' t \<Longrightarrow> room k h {} t"
  by (rule room_move [of k h "{}" s]) (auto simp: fsgo_def fstep_def)

text \<open>A block of the file is read and released.\<close>

lemma file_bread:
  fixes s :: "'z kfs_scheme"
  assumes I: "fsat p d st i h C s" and x: "x \<in> owned C (iaddrs (inodes s i))" and r: "room k h {} s"
  obtains b t u where "bread d x s = Ok b t" "brelse b t = Ok () u" "bdata (bufs t b) = C x" "inodes t = inodes s" "quiet p t"
    "fsat p d st i h C u" "fsgo p d st i C s C u" "inodes u = inodes s"
proof -
  note D = fsat_D [OF I] note M = owned_small [OF I x]
  obtain b t u where 1: "bread d x s = Ok b t" "brelse b t = Ok () u" "bdata (bufs t b) = C x" "klog.more t = klog.more s" "ftx p d st h {} C u"
    "fstep p d {} s u" "klog.more u = klog.more s" "room k h {} u" by (rule tx_skip [OF D(1) _ M(1) r]) simp
  obtain b' t' where 2: "bread d x s = Ok b' t'" "ftx p d st h (insert x {}) C t'" by (rule tx_bread [OF D(1) _ M(1) room_mono [OF r]]) simp_all
  have t: "inodes t = inodes s" "inodes u = inodes s" "sb u = sb s" "kfs.more u = kfs.more s" using more_kfs [OF 1(4)] more_kfs [OF 1(7)] by simp_all
  have "fsat p d st i h C u" "fsgo p d st i C s C u" using I 1(5,6) t by (auto simp: fsat_def fsgo_def)
  then show ?thesis using 2 ftx_quiet [OF 2(2)] 1(1) by (intro that [OF 1(1-3) t(1) _ _ _ t(2)]) simp_all
qed

text \<open>\<open>bmap\<close> of a block that the file has.\<close>

lemma bmap_old:
  fixes s :: "'z kfs_scheme"
  assumes I: "fsat p d st i h C s" and k: "k < MAXFILE" "blockat C (iaddrs (inodes s i)) k = x" "x \<noteq> 0" and r: "room n h {} s"
  obtains t where "bmap i k s = Ok x t" "fsat p d st i h C t" "fsgo p d st i C s C t" "inodes t = inodes s"
proof (cases "k < NDIRECT")
  case True
  then have a: "iaddrs (inodes s i) ! k = x" using k(2) by (simp add: blockat_def)
  have "bmap i k s = Ok x s" using bmap_cases(1) [OF True, of i s] bmap_slot_old [of s i k] a k(3) by simp
  then show ?thesis using I by (intro that [of s]) auto
next
  case False
  let ?m = "iaddrs (inodes s i) ! NDIRECT" let ?e = "k - NDIRECT"
  have m: "?m \<noteq> 0" "rd32 (4 * ?e) (C ?m) = x" using False k(2,3) by (auto simp: blockat_def split: if_splits)
  obtain b t u where 1: "bread d ?m s = Ok b t" "brelse b t = Ok () u" "bdata (bufs t b) = C ?m" "fsat p d st i h C u" "fsgo p d st i C s C u"
    "inodes u = inodes s" by (rule file_bread [OF I ownedI(2) [OF m(1)] r])
  have "bmap_entry i ?e ?m s = Ok x u" using m(2) k(3) fsat_D(4) [OF I] by (simp add: bmap_entry_def 1(1-3))
  then have "bmap i k s = Ok x u" using bmap_cases(2) [of k i s] bmap_slot_old [OF m(1)] m(1) False k(1) by simp
  then show ?thesis using 1(4-6) by (intro that)
qed

lemma either_copyout_kern: "quiet p s \<Longrightarrow> either_copyout KernDst bs s = Ok (0, bs) s"
proof -
  assume q: "quiet p s"
  note Q = quiet_D [OF q]
  show ?thesis using Q(8,9) myproc_ok [of s] by (simp add: either_copyout_def Q(2))
qed

lemma either_copyin_kern: "quiet p s \<Longrightarrow> either_copyin (KernSrc bs) m s = Ok (0, take m bs) s"
proof -
  assume q: "quiet p s"
  note Q = quiet_D [OF q]
  show ?thesis using Q(8,9) myproc_ok [of s] by (simp add: either_copyin_def Q(2))
qed

section \<open>Reading\<close>

lemma readi_loop_ok:
  fixes s :: "'z kfs_scheme"
  assumes I: "fsat p d st i h C s" and n: "tot \<le> n" "off + (n - tot) \<le> MAXFILE * BSIZE" and r: "room k h {} s"
    and full: "\<And>q. off \<le> q \<Longrightarrow> q < off + (n - tot) \<Longrightarrow> blockat C (iaddrs (inodes s i)) (q div BSIZE) \<noteq> 0"
  obtains t where "readi_loop i KernDst off tot n out s = Ok (int n, out @ map (fbyte C (iaddrs (inodes s i))) [off..<off + (n - tot)]) t"
    "fsat p d st i h C t" "fsgo p d st i C s C t" "inodes t = inodes s"
  using I n r full
proof (induction "n - tot" arbitrary: tot off out s thesis rule: less_induct)
  case less
  let ?a = "iaddrs (inodes s i)"
  show ?case
  proof (cases "tot = n")
    case True
    then show ?thesis using less.prems(2) by (intro less.prems(1) [of s]) (auto simp: readi_loop.simps [of i KernDst off n n])
  next
    case False
    define m where "m = min (n - tot) (BSIZE - off mod BSIZE)"
    have lt: "tot < n" using False less.prems(3) by simp
    have B: "off mod BSIZE < BSIZE" by (simp add: BSIZE_def)
    have m: "0 < m" "m \<le> n - tot" "m \<le> BSIZE - off mod BSIZE" using lt B by (simp_all add: m_def)
    have kb: "off div BSIZE < MAXFILE" using less.prems(4) lt by (intro less_mult_imp_div_less) simp
    define x where "x = blockat C ?a (off div BSIZE)"
    have x0: "x \<noteq> 0" using less.prems(6) [of off] lt by (simp add: x_def)
    obtain t where 1: "bmap i (off div BSIZE) s = Ok x t" "fsat p d st i h C t" "fsgo p d st i C s C t" "inodes t = inodes s"
      by (rule bmap_old [OF less.prems(2) kb x_def [symmetric] x0 less.prems(5)])
    note rt = room_keep [OF less.prems(5) 1(3)]
    have xo: "x \<in> owned C (iaddrs (inodes t i))" unfolding 1(4) using ownedI(1) [OF kb] x0 by (simp add: x_def)
    obtain b u v where 2: "bread d x t = Ok b u" "brelse b u = Ok () v" "bdata (bufs u b) = C x" "inodes u = inodes t" "quiet p u"
      "fsat p d st i h C v" "fsgo p d st i C t C v" "inodes v = inodes t" by (rule file_bread [OF 1(2) xo rt])
    have iv: "inodes v = inodes s" using 2(8) 1(4) by simp
    have gv: "fsgo p d st i C s C v" by (rule fsgo_trans [OF 1(3) 2(7)])
    have dev: "idev (inodes t i) = d" using fsat_D(4) [OF 1(2)] .
    have bytes: "get_at (off mod BSIZE) m (C x) = map (fbyte C ?a) [off..<off + m]"
      by (rule block_bytes [OF m(3) x_def [symmetric] x0 fsat_D(6) [OF 1(2)]])
    have e: "readi_loop i KernDst off tot n out s = readi_loop i KernDst (off + m) (tot + m) n (out @ map (fbyte C ?a) [off..<off + m]) v"
      using lt x0 either_copyout_kern [OF 2(5)]
      by (simp add: readi_loop.simps [of i KernDst off tot] 1(1) dev 2(1-3) m_def [symmetric] Let_def bytes)
    have full': "blockat C (iaddrs (inodes v i)) (q div BSIZE) \<noteq> 0" if "off + m \<le> q" "q < off + m + (n - (tot + m))" for q
      unfolding iv by (rule less.prems(6)) (use that m(2) lt in simp_all)
    have a1: "n - (tot + m) < n - tot" and a4: "tot + m \<le> n" and a5: "off + m + (n - (tot + m)) \<le> MAXFILE * BSIZE"
      using m lt less.prems(4) by simp_all
    obtain w where 3: "readi_loop i KernDst (off + m) (tot + m) n (out @ map (fbyte C ?a) [off..<off + m]) v =
        Ok (int n, (out @ map (fbyte C ?a) [off..<off + m]) @ map (fbyte C (iaddrs (inodes v i))) [off + m..<off + m + (n - (tot + m))]) w"
      "fsat p d st i h C w" "fsgo p d st i C v C w" "inodes w = inodes v"
      by (rule less.hyps [where tot = "tot + m" and off = "off + m" and s = v, OF a1 _ 2(6) a4 a5 room_keep [OF less.prems(5) gv] full'])
    have cat: "map (fbyte C ?a) [off..<off + m] @ map (fbyte C ?a) [off + m..<off + m + (n - (tot + m))] = map (fbyte C ?a) [off..<off + (n - tot)]"
      using m(2) lt upt_add_eq_append [of off "off + m" "n - (tot + m)"] by (simp flip: map_append)
    show ?thesis
      by (rule less.prems(1) [OF _ 3(2) fsgo_trans [OF gv 3(3)] trans [OF 3(4) iv]]) (simp add: e 3(1) iv cat)
  qed
qed

section \<open>Writing\<close>

lemma nth_put_at:
  assumes "off + length bs \<le> length d" and "j < length d"
  shows "put_at off bs d ! j = (if off \<le> j \<and> j < off + length bs then bs ! (j - off) else d ! j)"
  using assms by (auto simp: put_at_def nth_append min_def)

definition overwrite :: "nat \<Rightarrow> u8 list \<Rightarrow> (nat \<Rightarrow> u8) \<Rightarrow> nat \<Rightarrow> u8" where
  "overwrite off bs f q = (if off \<le> q \<and> q < off + length bs then bs ! (q - off) else f q)"

lemma overwrite_append: "overwrite (off + length bs) cs (overwrite off bs f) = overwrite off (bs @ cs) f"
  by (auto simp: overwrite_def fun_eq_iff nth_append)

text \<open>Changing a data block of a file.\<close>

lemma data_block:
  assumes f: "file_ok st S C a" and g: "geom st S" and a: "alloc_ok st S C" and k: "k < MAXFILE" "blockat C a k = x" "x \<noteq> 0"
  shows "blockat (C(x := v)) a = blockat C a" "owned (C(x := v)) a = owned C a" "isfree (C(x := v)) S = isfree C S" "file_ok st S (C(x := v)) a"
    "alloc_ok st S (C(x := v))" "kept st S C a (C(x := v)) a" "nfree (C(x := v)) S = nfree C S"
proof -
  have x: "x \<in> owned C a" using ownedI(1) [OF k(1), of C a] k(2,3) by simp
  have "x \<noteq> a ! NDIRECT" using file_okD(8) [OF f k(1)] k(2,3) by simp
  then show 1: "blockat (C(x := v)) a = blockat C a" by (auto simp: blockat_def fun_eq_iff)
  then show 2: "owned (C(x := v)) a = owned C a" by (simp add: owned_def)
  show 3: "isfree (C(x := v)) S = isfree C S" by (rule ext, rule isfree_other [OF _ g]) (use file_okD(4) [OF f x] in auto)
  show "file_ok st S (C(x := v)) a" using f unfolding file_ok_def 1 2 3 .
  show "alloc_ok st S (C(x := v))" using a unfolding alloc_ok_def 3 .
  show "kept st S C a (C(x := v)) a" unfolding kept_def 1 2 3 using x by auto
  show "nfree (C(x := v)) S = nfree C S" unfolding nfree_def 3 ..
qed

lemma fbyte_write:
  assumes f: "file_ok st S C a" and g: "geom st S" and a: "alloc_ok st S C" and k: "off div BSIZE < MAXFILE" "blockat C a (off div BSIZE) = x" "x \<noteq> 0"
    and l: "length (C x) = BSIZE" "off mod BSIZE + length bs \<le> BSIZE" and q: "q < MAXFILE * BSIZE"
  shows "fbyte (C(x := put_at (off mod BSIZE) bs (C x))) a q = overwrite off bs (fbyte C a) q"
proof -
  note B = data_block(1) [OF f g a k, of "put_at (off mod BSIZE) bs (C x)"]
  have qk: "q div BSIZE < MAXFILE" using q by (rule less_mult_imp_div_less)
  have qb: "q mod BSIZE < BSIZE" by (simp add: BSIZE_def)
  have dm: "q = q div BSIZE * BSIZE + q mod BSIZE" "off = off div BSIZE * BSIZE + off mod BSIZE" by simp_all
  show ?thesis
  proof (cases "q div BSIZE = off div BSIZE")
    case True
    define c where "c = off div BSIZE * BSIZE"
    have mod_eq: "q = c + q mod BSIZE" "off = c + off mod BSIZE" using dm True by (simp_all add: c_def)
    have le: "off \<le> q \<longleftrightarrow> off mod BSIZE \<le> q mod BSIZE" and lt: "q < off + length bs \<longleftrightarrow> q mod BSIZE < off mod BSIZE + length bs"
      and df: "q - off = q mod BSIZE - off mod BSIZE" using mod_eq by linarith+
    have p: "put_at (off mod BSIZE) bs (C x) ! (q mod BSIZE) =
        (if off \<le> q \<and> q < off + length bs then bs ! (q - off) else C x ! (q mod BSIZE))"
      unfolding le lt df by (rule nth_put_at) (use l qb in simp_all)
    show ?thesis using k(2,3) by (simp add: fbyte_def B True p overwrite_def)
  next
    case False
    have ne: "blockat C a (q div BSIZE) \<noteq> x" using file_okD(7) [OF f qk k(1)] k(2,3) False by auto
    have "\<not> (off \<le> q \<and> q < off + length bs)"
    proof
      assume o: "off \<le> q \<and> q < off + length bs"
      then have "off mod BSIZE + (q - off) < BSIZE" using l(2) by linarith
      from off_in_block(1) [OF this] o False show False by simp
    qed
    then have "overwrite off bs (fbyte C a) q = fbyte C a q" unfolding overwrite_def by (rule if_not_P)
    then show ?thesis using ne by (simp add: fbyte_def B Let_def)
  qed
qed

lemma write_round:
  fixes s :: "'z kfs_scheme"
  assumes I: "fsat p d st i h C s" and k: "off div BSIZE < MAXFILE" "blockat C (iaddrs (inodes s i)) (off div BSIZE) = x" "x \<noteq> 0"
    and l: "off mod BSIZE + length bs \<le> BSIZE" and r: "room (Suc (Suc n)) h {} s"
  obtains b t u v C' where "bread d x s = Ok b t" "quiet p t" "log_write b (upd_data b (put_at (off mod BSIZE) bs) t) = Ok () u" "brelse b u = Ok () v"
    "fsat p d st i (addlog x h) C' v" "fsgo p d st i C s C' v" "inodes v = inodes s" "nfree C' (sb v) = nfree C (sb s)" "room (Suc n) (addlog x h) {} v"
    "\<forall>q < MAXFILE * BSIZE. fbyte C' (iaddrs (inodes v i)) q = overwrite off bs (fbyte C (iaddrs (inodes s i))) q"
proof -
  note D = fsat_D [OF I] let ?a = "iaddrs (inodes s i)" let ?g = "put_at (off mod BSIZE) bs" let ?C = "C(x := ?g (C x))"
  have xo: "x \<in> owned C ?a" using ownedI(1) [OF k(1), of C ?a] k(2,3) by simp
  note M = owned_small [OF I xo]
  obtain b t where 1: "bread d x s = Ok b t" "ftx p d st h {x} C t" "bufof d (bufs t) b x" "fstep p d {} s t" "klog.more t = klog.more s"
    by (rule tx_bread [OF D(1) _ M(1) room_mono [OF r]]) simp_all
  have r1: "room (Suc n) h {x} t" by (rule room_move [OF r fstep_log_size [OF 1(4)]]) simp_all
  have lg: "length (?g (C x)) = BSIZE" using l D(6) [of x] by simp
  obtain u where 2: "log_write b (upd_data b ?g t) = Ok () u" "ftx p d st (addlog x h) {x} ?C u" "fstep p d {x} t u" "klog.more u = klog.more t"
    "bufof d (bufs u) b x" by (rule tx_update [where g = ?g, OF 1(2,3) _ M(1,2) lg r1]) simp
  obtain v where 3: "brelse b u = Ok () v" "ftx p d st (addlog x h) ({x} - {x}) ?C v" "fstep p d ({x} - {x}) u v" "klog.more v = klog.more u"
    by (rule tx_brelse [OF 2(2,5)]) simp
  have fs: "fstep p d {} s v" using fstep_trans [OF fstep_trans [OF 1(4) 2(3)] 3(3)] by simp
  have v: "sb v = sb s" "inodes v = inodes s" "kfs.more v = kfs.more s" using more_kfs [of v s] 3(4) 2(4) 1(5) by simp_all
  note B = data_block [OF D(3,5,2) k, of "?g (C x)"]
  have rv: "room (Suc n) (addlog x h) {} v" by (rule room_move [OF r fstep_log_size [OF fs]]) (use addlog_length [of x h] in simp_all)
  have I': "fsat p d st i (addlog x h) ?C v" "fsgo p d st i C s ?C v" using 3(2) fs B(4-6) D(4) v by (simp_all add: fsat_def fsgo_def)
  show ?thesis
    by (rule that [OF 1(1) ftx_quiet [OF 1(2)] 2(1) 3(1) I' v(2) _ rv])
      (use B(7) fbyte_write [OF D(3,5,2) k D(6) l] v in simp_all)
qed

text \<open>The number of blocks that \<open>l\<close> bytes from offset \<open>off\<close> on touch.\<close>

definition spans :: "nat \<Rightarrow> nat \<Rightarrow> nat" where
  "spans off l = (if l = 0 then 0 else (off + l - 1) div BSIZE + 1 - off div BSIZE)"

lemma spans_step:
  assumes l: "0 < l" and m: "m = min l (BSIZE - off mod BSIZE)"
  shows "spans off l = Suc (spans (off + m) (l - m))"
proof -
  have B: "off mod BSIZE < BSIZE" "0 < BSIZE" by (simp_all add: BSIZE_def)
  show ?thesis
  proof (cases "l \<le> BSIZE - off mod BSIZE")
    case True
    then have o: "off mod BSIZE + (l - 1) < BSIZE" using l B by linarith
    have "(off + l - 1) div BSIZE = off div BSIZE" using off_in_block(1) [OF o] l by simp
    then show ?thesis using True l m by (simp add: spans_def)
  next
    case False
    then have lm: "m = BSIZE - off mod BSIZE" "0 < l - m" "m \<le> l" using m by simp_all
    define c where "c = off div BSIZE * BSIZE"
    have "off = c + off mod BSIZE" by (simp add: c_def)
    then have "off + m = c + BSIZE" using lm(1) B(1) by linarith
    then have om: "off + m = (off div BSIZE + 1) * BSIZE" by (simp add: c_def)
    have d: "(off + m) div BSIZE = off div BSIZE + 1" unfolding om using B(2) by simp
    have "off + m \<le> off + l - 1" using lm by simp
    then have "(off + m) div BSIZE \<le> (off + l - 1) div BSIZE" by (rule div_le_mono)
    moreover have "off + m + (l - m) - 1 = off + l - 1" using lm by simp
    ultimately show ?thesis using lm(2) l d by (simp add: spans_def)
  qed
qed

lemma writei_loop_ok:
  fixes s :: "'z kfs_scheme"
  assumes I: "fsat p d st i h C s" and n: "tot + length bs = n" "off + length bs \<le> MAXFILE * BSIZE"
    and fr: "2 * spans off (length bs) \<le> nfree C (sb s)" and r: "room (6 * spans off (length bs) + Suc k) h {} s"
  obtains t h' C' where "writei_loop i (KernSrc bs) off tot n s = Ok (n, off + length bs) t" "fsat p d st i h' C' t" "fsgo p d st i C s C' t"
    "room (Suc k) h' {} t" "\<forall>q < MAXFILE * BSIZE. fbyte C' (iaddrs (inodes t i)) q = overwrite off bs (fbyte C (iaddrs (inodes s i))) q"
    "\<forall>q. off \<le> q \<and> q < off + length bs \<longrightarrow> blockat C' (iaddrs (inodes t i)) (q div BSIZE) \<noteq> 0"
  using I n fr r
proof (induction "length bs" arbitrary: bs tot off s h C thesis rule: less_induct)
  case less
  let ?a = "iaddrs (inodes s i)" let ?o = "off mod BSIZE"
  show ?case
  proof (cases "bs = []")
    case True
    then have e: "writei_loop i (KernSrc bs) off tot n s = Ok (n, off + length bs) s"
      using less.prems(3) by (simp add: writei_loop.simps [of i "KernSrc []" off n n])
    show ?thesis by (rule less.prems(1) [OF e less.prems(2) fsgo_refl]) (use less.prems(6) True in \<open>auto simp: spans_def overwrite_def\<close>)
  next
    case False
    define m where "m = min (length bs) (BSIZE - ?o)"
    have B: "?o < BSIZE" by (simp add: BSIZE_def)
    have m: "0 < m" "m \<le> length bs" "?o + m \<le> BSIZE" using False B by (auto simp: m_def)
    have lt: "tot < n" "n - tot = length bs" using less.prems(3) False by auto
    have "off < MAXFILE * BSIZE" using less.prems(4) m(1,2) by linarith
    then have kb: "off div BSIZE < MAXFILE" by (rule less_mult_imp_div_less)
    define N where "N = spans (off + m) (length (drop m bs))"
    have sp: "spans off (length bs) = Suc N" using spans_step [OF _ m_def] False by (simp add: N_def)
    have r1: "room ((6 * N + Suc k) + 6) h {} s" by (rule room_mono [OF less.prems(6)]) (simp add: sp)
    obtain x t h1 C1 where 1: "bmap i (off div BSIZE) s = Ok x t" "x \<noteq> 0" "blockat C1 (iaddrs (inodes t i)) (off div BSIZE) = x"
      "fsat p d st i h1 C1 t" "fsgo p d st i C s C1 t" "nfree C (sb s) \<le> nfree C1 (sb t) + 2" "room (Suc (6 * N + Suc k)) h1 {} t"
      "\<forall>q < MAXFILE * BSIZE. fbyte C1 (iaddrs (inodes t i)) q = fbyte C ?a q"
      by (rule bmap_ok [OF less.prems(2) kb _ r1]) (use less.prems(5) sp in simp)
    have r2: "room (Suc (Suc (6 * N + k))) h1 {} t" using 1(7) by simp
    have l: "?o + length (take m bs) \<le> BSIZE" using m by simp
    obtain b u v w C2 where 2: "bread d x t = Ok b u" "quiet p u" "log_write b (upd_data b (put_at ?o (take m bs)) u) = Ok () v" "brelse b v = Ok () w"
      "fsat p d st i (addlog x h1) C2 w" "fsgo p d st i C1 t C2 w" "inodes w = inodes t" "nfree C2 (sb w) = nfree C1 (sb t)"
      "room (Suc (6 * N + k)) (addlog x h1) {} w"
      "\<forall>q < MAXFILE * BSIZE. fbyte C2 (iaddrs (inodes w i)) q = overwrite off (take m bs) (fbyte C1 (iaddrs (inodes t i))) q"
      by (rule write_round [OF 1(4) kb 1(3,2) l r2])
    have dev: "idev (inodes t i) = d" by (rule fsat_D(4) [OF 1(4)])
    have e: "writei_loop i (KernSrc bs) off tot n s = writei_loop i (KernSrc (drop m bs)) (off + m) (tot + m) n w"
      using lt(1) 1(2) either_copyin_kern [OF 2(2)]
      by (simp add: writei_loop.simps [of i "KernSrc bs" off tot] 1(1) dev 2(1,3,4) lt(2) m_def [symmetric] Let_def)
    have a: "length (drop m bs) < length bs" "tot + m + length (drop m bs) = n" "off + m + length (drop m bs) \<le> MAXFILE * BSIZE"
      using m less.prems(3,4) by simp_all
    have f2: "2 * spans (off + m) (length (drop m bs)) \<le> nfree C2 (sb w)" using less.prems(5) 1(6) 2(8) sp by (simp add: N_def)
    have r3: "room (6 * spans (off + m) (length (drop m bs)) + Suc k) (addlog x h1) {} w" using 2(9) by (simp add: N_def)
    obtain y h' C' where 3: "writei_loop i (KernSrc (drop m bs)) (off + m) (tot + m) n w = Ok (n, off + m + length (drop m bs)) y"
      "fsat p d st i h' C' y" "fsgo p d st i C2 w C' y" "room (Suc k) h' {} y"
      "\<forall>q < MAXFILE * BSIZE. fbyte C' (iaddrs (inodes y i)) q = overwrite (off + m) (drop m bs) (fbyte C2 (iaddrs (inodes w i))) q"
      "\<forall>q. off + m \<le> q \<and> q < off + m + length (drop m bs) \<longrightarrow> blockat C' (iaddrs (inodes y i)) (q div BSIZE) \<noteq> 0"
      by (rule less.hyps [OF a(1) _ 2(5) a(2,3) f2 r3])
    have "overwrite off bs = (\<lambda>f. overwrite (off + m) (drop m bs) (overwrite off (take m bs) f))"
      using overwrite_append [of off "take m bs" "drop m bs"] m by simp
    then have fb: "\<forall>q < MAXFILE * BSIZE. fbyte C' (iaddrs (inodes y i)) q = overwrite off bs (fbyte C ?a) q"
      using 3(5) 2(10) 1(8) by (simp add: overwrite_def)
    have "blockat C' (iaddrs (inodes y i)) (off div BSIZE) = x"
      using fsgo_trans [OF 2(6) 3(3)] 1(2,3) kb by (auto simp: fsgo_def kept_def)
    then have "blockat C' (iaddrs (inodes y i)) (q div BSIZE) \<noteq> 0" if "off \<le> q" "q < off + m" for q
      using off_in_block(1) [of off "q - off"] that m(3) 1(2) by simp
    then have fu: "\<forall>q. off \<le> q \<and> q < off + length bs \<longrightarrow> blockat C' (iaddrs (inodes y i)) (q div BSIZE) \<noteq> 0"
      using 3(6) m(2) by (metis add.assoc le_add_diff_inverse length_drop not_le)
    show ?thesis
      by (rule less.prems(1) [OF _ 3(2) fsgo_trans [OF 1(5) fsgo_trans [OF 2(6) 3(3)]] 3(4) fb fu]) (use m in \<open>simp add: e 3(1)\<close>)
  qed
qed

section \<open>Inodes on disk\<close>

definition dinode_ok :: "dinode \<Rightarrow> bool" where
  "dinode_ok x \<longleftrightarrow> (\<forall>v \<in> {di_type x, di_major x, di_minor x, di_nlink x}. - (2 ^ 15) \<le> v \<and> v < 2 ^ 15) \<and> di_size x < 2 ^ 32 \<and>
     length (di_addrs x) = NDIRECT + 1 \<and> (\<forall>a \<in> set (di_addrs x). a < 2 ^ 32)"

lemma get_put_inner: "k + n \<le> length bs \<Longrightarrow> off \<le> length d \<Longrightarrow> get_at (off + k) n (put_at off bs d) = get_at k n bs"
  by (simp add: put_at_def get_at_def)

lemma get_at_append:
  "n = length xs \<Longrightarrow> get_at 0 n (xs @ ys) = xs" "length xs \<le> k \<Longrightarrow> get_at k n (xs @ ys) = get_at (k - length xs) n ys"
  by (simp_all add: get_at_def)

lemma get_addr: "k < length as \<Longrightarrow> get_at (4 * k) 4 (concat (map (le_bytes 4) as)) = le_bytes 4 (as ! k)"
proof (induction as arbitrary: k)
  case (Cons a as)
  show ?case
  proof (cases k)
    case 0
    then show ?thesis by (simp add: get_at_append)
  next
    case (Suc j)
    then have "get_at (4 * k) 4 (le_bytes 4 a @ concat (map (le_bytes 4) as)) = get_at (4 * j) 4 (concat (map (le_bytes 4) as))"
      by (subst get_at_append) simp_all
    then show ?thesis using Cons Suc by simp
  qed
qed simp

lemma s16_u16: "- (2 ^ 15) \<le> x \<Longrightarrow> x < 2 ^ 15 \<Longrightarrow> s16 (u16_of x mod 2 ^ 16) = x"
proof -
  assume x: "- (2 ^ 15) \<le> x" "x < 2 ^ 15"
  have u: "int (u16_of x mod 2 ^ 16) = x mod 2 ^ 16" by (simp add: u16_of_def zmod_int)
  have "s16 (u16_of x mod 2 ^ 16) = (x mod 2 ^ 16 + 2 ^ 15) mod 2 ^ 16 - 2 ^ 15" unfolding s16_def u ..
  also have "\<dots> = (x + 2 ^ 15) mod 2 ^ 16 - 2 ^ 15" by (simp only: mod_add_left_eq)
  also have "\<dots> = x" using x by simp
  finally show ?thesis .
qed

lemma length_dinode_bytes: "length (di_addrs x) = NDIRECT + 1 \<Longrightarrow> length (dinode_bytes x) = 64"
proof -
  assume l: "length (di_addrs x) = NDIRECT + 1"
  have "length (concat (map (le_bytes 4) as)) = 4 * length as" for as by (induction as) simp_all
  then show ?thesis using l by (simp add: dinode_bytes_def NDIRECT_def)
qed

lemma dinode_bytes_fields:
  assumes "dinode_ok x"
  shows "s16 (le_val (get_at 0 2 (dinode_bytes x))) = di_type x" "s16 (le_val (get_at 2 2 (dinode_bytes x))) = di_major x"
    "s16 (le_val (get_at 4 2 (dinode_bytes x))) = di_minor x" "s16 (le_val (get_at 6 2 (dinode_bytes x))) = di_nlink x"
    "le_val (get_at 8 4 (dinode_bytes x)) = di_size x" "k < NDIRECT + 1 \<Longrightarrow> le_val (get_at (12 + 4 * k) 4 (dinode_bytes x)) = di_addrs x ! k"
proof -
  note G = dinode_bytes_def get_at_append le_val_le_bytes
  have r: "- (2 ^ 15) \<le> v \<and> v < 2 ^ 15" if "v \<in> {di_type x, di_major x, di_minor x, di_nlink x}" for v using assms that by (auto simp: dinode_ok_def)
  show "s16 (le_val (get_at 0 2 (dinode_bytes x))) = di_type x" "s16 (le_val (get_at 2 2 (dinode_bytes x))) = di_major x"
    "s16 (le_val (get_at 4 2 (dinode_bytes x))) = di_minor x" "s16 (le_val (get_at 6 2 (dinode_bytes x))) = di_nlink x"
    using s16_u16 r by (simp_all add: G)
  show "le_val (get_at 8 4 (dinode_bytes x)) = di_size x" using assms by (simp add: G dinode_ok_def)
  assume k: "k < NDIRECT + 1"
  then have "get_at (12 + 4 * k) 4 (dinode_bytes x) = get_at (4 * k) 4 (concat (map (le_bytes 4) (di_addrs x)))" by (simp add: G)
  also have "\<dots> = le_bytes 4 (di_addrs x ! k)" using k assms by (intro get_addr) (simp add: dinode_ok_def)
  finally show "le_val (get_at (12 + 4 * k) 4 (dinode_bytes x)) = di_addrs x ! k" using k assms by (simp add: le_val_le_bytes dinode_ok_def)
qed

lemma get_put_dinode:
  assumes "dinode_ok x" and "64 * i + 64 \<le> length b"
  shows "get_dinode i (put_dinode i x b) = x"
proof -
  have l: "length (dinode_bytes x) = 64" using assms(1) by (intro length_dinode_bytes) (simp add: dinode_ok_def)
  have g: "get_at (64 * i + k) n (put_dinode i x b) = get_at k n (dinode_bytes x)" if "k + n \<le> 64" for k n
    unfolding put_dinode_def using that assms(2) l by (intro get_put_inner) simp_all
  have a: "map (\<lambda>k. le_val (get_at (12 + 4 * k) 4 (dinode_bytes x))) [0..<NDIRECT + 1] = di_addrs x"
    by (rule nth_equalityI) (use assms(1) dinode_bytes_fields(6) [OF assms(1)] in \<open>simp_all add: dinode_ok_def del: upt_Suc\<close>)
  have "map (\<lambda>k. rd32 (64 * i + 12 + 4 * k) (put_dinode i x b)) [0..<NDIRECT + 1] = map (\<lambda>k. le_val (get_at (12 + 4 * k) 4 (dinode_bytes x))) [0..<NDIRECT + 1]"
    unfolding rd32_def by (rule map_cong [OF refl]) (use g in \<open>simp add: NDIRECT_def add.assoc\<close>)
  then have A: "map (\<lambda>k. rd32 (64 * i + 12 + 4 * k) (put_dinode i x b)) [0..<NDIRECT + 1] = di_addrs x" unfolding a .
  show ?thesis unfolding get_dinode_def Let_def A
    using dinode_bytes_fields(1-5) [OF assms(1)] g [of 0 2] g [of 2 2] g [of 4 2] g [of 6 2] g [of 8 4] by (simp add: rd16_def rd32_def)
qed

lemma get_put_dinode_other:
  assumes "length (di_addrs x) = NDIRECT + 1" and "64 * i + 64 \<le> length b" and "j \<noteq> i"
  shows "get_dinode j (put_dinode i x b) = get_dinode j b"
proof -
  have l: "length (dinode_bytes x) = 64" by (rule length_dinode_bytes [OF assms(1)])
  have g: "get_at (64 * j + k) n (put_dinode i x b) = get_at (64 * j + k) n b" if "k + n \<le> 64" for k n
    unfolding put_dinode_def by (rule get_put_disjoint) (use that assms(2,3) l in auto)
  have "map (\<lambda>k. rd32 (64 * j + 12 + 4 * k) (put_dinode i x b)) [0..<NDIRECT + 1] = map (\<lambda>k. rd32 (64 * j + 12 + 4 * k) b) [0..<NDIRECT + 1]"
    unfolding rd32_def by (rule map_cong [OF refl]) (use g in \<open>simp add: NDIRECT_def add.assoc\<close>)
  then show ?thesis using g [of 0 2] g [of 2 2] g [of 4 2] g [of 6 2] g [of 8 4] by (simp add: get_dinode_def rd16_def rd32_def Let_def del: upt_Suc)
qed

section \<open>Updating the inode\<close>

lemma meta_block:
  assumes f: "file_ok st S C a" and g: "geom st S" and a: "alloc_ok st S C" and x: "x \<in> iblocks S"
  shows "blockat (C(x := v)) a = blockat C a" "owned (C(x := v)) a = owned C a" "isfree (C(x := v)) S = isfree C S" "file_ok st S (C(x := v)) a"
    "alloc_ok st S (C(x := v))" "fbyte (C(x := v)) a q = fbyte C a q \<or> q \<ge> MAXFILE * BSIZE"
proof -
  have xo: "x \<notin> owned C a" "x \<notin> bmaps S" using file_okD(6) [OF f] x g by (auto simp: geom_def)
  have "a ! NDIRECT \<noteq> 0 \<Longrightarrow> x \<noteq> a ! NDIRECT" using ownedI(2) [of a C] xo by auto
  then show 1: "blockat (C(x := v)) a = blockat C a" by (auto simp: blockat_def fun_eq_iff)
  then show 2: "owned (C(x := v)) a = owned C a" by (simp add: owned_def)
  show 3: "isfree (C(x := v)) S = isfree C S" by (rule ext, rule isfree_other [OF _ g]) (use xo in auto)
  show "file_ok st S (C(x := v)) a" using f unfolding file_ok_def 1 2 3 .
  show "alloc_ok st S (C(x := v))" using a unfolding alloc_ok_def 3 .
  show "fbyte (C(x := v)) a q = fbyte C a q \<or> q \<ge> MAXFILE * BSIZE"
  proof (cases "q < MAXFILE * BSIZE")
    case True
    then have "q div BSIZE < MAXFILE" by (rule less_mult_imp_div_less)
    then have "blockat C a (q div BSIZE) \<noteq> 0 \<Longrightarrow> blockat C a (q div BSIZE) \<noteq> x" using ownedI(1) xo by metis
    then show ?thesis by (auto simp: fbyte_def 1 Let_def)
  qed simp
qed

lemma IBLOCK_in:
  assumes "geom st S" and "n < sb_ninodes S"
  shows "IBLOCK n S \<in> iblocks S" "IBLOCK n S < 2 ^ 31" "IBLOCK n S \<notin> area st (LOGSIZE - 1)"
proof -
  have "n div IPB \<le> sb_ninodes S div IPB" using assms(2) by (simp add: div_le_mono)
  then show 1: "IBLOCK n S \<in> iblocks S" and "IBLOCK n S < 2 ^ 31" using assms(1) by (auto simp: IBLOCK_def geom_def iblocks_def)
  show "IBLOCK n S \<notin> area st (LOGSIZE - 1)" using 1 assms(1) by (auto simp: geom_def)
qed

lemma in_iblock: "64 * (n mod IPB) + 64 \<le> BSIZE"
proof -
  have "n mod IPB < 16" unfolding IPB_def BSIZE_def by simp
  then show ?thesis by (simp add: BSIZE_def)
qed

lemma iupdate_ok:
  fixes s :: "'z kfs_scheme"
  assumes I: "fsat p d st i h C s" and ino: "inum (inodes s i) < sb_ninodes (sb s)" and r: "room (Suc (Suc n)) h {} s"
  defines "B \<equiv> IBLOCK (inum (inodes s i)) (sb s)" and "g \<equiv> put_dinode (inum (inodes s i) mod IPB) (icopy (inodes s i))"
  obtains t where "iupdate i s = Ok () t" "fsat p d st i (addlog B h) (C(B := g (C B))) t" "fstep p d {} s t" "klog.more t = klog.more s"
    "room (Suc n) (addlog B h) {} t"
proof -
  note D = fsat_D [OF I] note M = IBLOCK_in [OF D(5) ino, folded B_def]
  have la: "length (iaddrs (inodes s i)) = NDIRECT + 1" by (rule file_okD(1) [OF D(3)])
  have l: "length (g (C B)) = BSIZE"
    unfolding g_def put_dinode_def using D(6) [of B] in_iblock length_dinode_bytes [OF la] by (subst length_put_at) simp_all
  obtain t where 1: "bindr (bread d B s) (\<lambda>b s. bindr (log_write b (upd_data b g s)) (\<lambda>_ s. brelse b s)) = Ok () t"
    "ftx p d st (addlog B h) {} (C(B := g (C B))) t" "fstep p d {} s t" "klog.more t = klog.more s" "room (Suc n) (addlog B h) {} t"
    by (rule tx_modify [where g = g, OF D(1) _ M(2,3) l r]) simp
  obtain b u where 2: "bread d B s = Ok b u" "klog.more u = klog.more s" by (rule tx_bread [OF D(1) _ M(2) room_mono [OF r]]) simp_all
  have u: "inodes u = inodes s" using more_kfs [OF 2(2)] by simp
  have e: "iupdate i s = Ok () t" using 1(1) by (simp add: iupdate_def D(4) B_def [symmetric] 2(1) u g_def [symmetric] Let_def)
  have "sb t = sb s" "inodes t = inodes s" using more_kfs [OF 1(4)] by simp_all
  then have "fsat p d st i (addlog B h) (C(B := g (C B))) t" using 1(2) meta_block(4,5) [OF D(3,5,2) M(1)] D(4) by (simp add: fsat_def)
  from that [OF e this 1(3-5)] show ?thesis .
qed

lemma upd_size: "upd_icopy i (\<lambda>x. x\<lparr>di_size := v\<rparr>) s = s\<lparr>inodes := (inodes s)(i := (inodes s i)\<lparr>icopy := (icopy (inodes s i))\<lparr>di_size := v\<rparr>\<rparr>)\<rparr>"
  by (simp add: upd_icopy_def upd_inode_def)

lemma file_addrs_small:
  assumes "file_ok st S C a" and "geom st S" and "x \<in> set a"
  shows "x < 2 ^ 32"
proof (cases "x = 0")
  case False
  obtain k where k: "k < NDIRECT + 1" "a ! k = x" using assms(3) file_okD(1) [OF assms(1)] by (auto simp: in_set_conv_nth)
  have "x \<in> owned C a"
  proof (cases "k = NDIRECT")
    case True
    then show ?thesis using ownedI(2) [of a C] k(2) False by simp
  next
    case ne: False
    then have "k < NDIRECT" using k(1) by simp
    then have "blockat C a k = x" "k < MAXFILE" using k(2) NDIRECT_less by (simp_all add: blockat_def)
    then show ?thesis using ownedI(1) [of k C a] False by simp
  qed
  then show ?thesis using file_okD(2) [OF assms(1)] assms(2) by (fastforce simp: geom_def)
qed simp

text \<open>What \<open>writei\<close> promises: \<open>C'\<close> and \<open>t\<close> are the contents of the blocks and the state after writing \<open>bs\<close> at \<open>off\<close>.\<close>

definition written :: "nat \<Rightarrow> nat \<Rightarrow> nat \<Rightarrow> u8 list \<Rightarrow> (nat \<Rightarrow> u8 list) \<Rightarrow> 'z kfs_scheme \<Rightarrow> (nat \<Rightarrow> u8 list) \<Rightarrow> 'z kfs_scheme \<Rightarrow> bool" where
  "written st i off bs C s C' t \<longleftrightarrow>
     (let S = sb s; a = iaddrs (inodes s i); a' = iaddrs (inodes t i); B = IBLOCK (inum (inodes s i)) S; j = inum (inodes s i) mod IPB in
      sb t = S \<and> inodes t = (inodes s)(i := (inodes s i)\<lparr>icopy := (icopy (inodes s i))\<lparr>di_addrs := a',
        di_size := max (isize (inodes s i)) (off + length bs)\<rparr>\<rparr>) \<and>
      (\<forall>q < MAXFILE * BSIZE. fbyte C' a' q = overwrite off bs (fbyte C a) q) \<and>
      get_dinode j (C' B) = icopy (inodes t i) \<and> (\<forall>k. k \<noteq> j \<longrightarrow> get_dinode k (C' B) = get_dinode k (C B)) \<and>
      (\<forall>n. n \<notin> bmaps S \<longrightarrow> \<not> isfree C S n \<longrightarrow> n \<notin> owned C a \<longrightarrow> n \<noteq> B \<longrightarrow> C' n = C n) \<and> (\<forall>b. isfree C' S b \<longrightarrow> isfree C S b))"

lemma writei_ok:
  fixes s :: "'z kfs_scheme"
  assumes I: "fsat p d st i h C s" and off: "off \<le> isize (inodes s i)" "off + length bs \<le> MAXFILE * BSIZE"
    and ino: "inum (inodes s i) < sb_ninodes (sb s)" and dok: "dinode_ok (icopy (inodes s i))"
    and fr: "2 * spans off (length bs) \<le> nfree C (sb s)" and r: "room (6 * spans off (length bs) + Suc (Suc n)) h {} s"
  obtains t h' C' where "writei i (KernSrc bs) off (length bs) s = Ok (int (length bs)) t" "fsat p d st i h' C' t" "written st i off bs C s C' t"
    "fstep p d {} s t" "room (Suc n) h' {} t" "\<forall>q. off \<le> q \<and> q < off + length bs \<longrightarrow> blockat C' (iaddrs (inodes t i)) (q div BSIZE) \<noteq> 0"
proof -
  note D = fsat_D [OF I]
  let ?B = "IBLOCK (inum (inodes s i)) (sb s)" let ?j = "inum (inodes s i) mod IPB" let ?v = "max (isize (inodes s i)) (off + length bs)"
  obtain t1 h1 C1 where 1: "writei_loop i (KernSrc bs) off 0 (length bs) s = Ok (length bs, off + length bs) t1" "fsat p d st i h1 C1 t1"
    "fsgo p d st i C s C1 t1" "room (Suc (Suc n)) h1 {} t1"
    "\<forall>q < MAXFILE * BSIZE. fbyte C1 (iaddrs (inodes t1 i)) q = overwrite off bs (fbyte C (iaddrs (inodes s i))) q"
    "\<forall>q. off \<le> q \<and> q < off + length bs \<longrightarrow> blockat C1 (iaddrs (inodes t1 i)) (q div BSIZE) \<noteq> 0"
    by (rule writei_loop_ok [where tot = 0 and n = "length bs", OF I _ off(2) fr r]) simp
  define a1 where "a1 = iaddrs (inodes t1 i)"
  define x where "x = (icopy (inodes s i))\<lparr>di_addrs := a1, di_size := ?v\<rparr>"
  define u where "u = t1\<lparr>inodes := (inodes s)(i := (inodes s i)\<lparr>icopy := x\<rparr>)\<rparr>"
  have i1: "inodes t1 = setaddrs i a1 (inodes s)" "sb t1 = sb s" and k1: "kept st (sb s) C (iaddrs (inodes s i)) C1 a1" and f1: "fstep p d {} s t1"
    using 1(3) by (simp_all add: fsgo_def a1_def)
  have s2: "(if off + length bs > isize (inodes t1 i) then upd_icopy i (\<lambda>x. x\<lparr>di_size := off + length bs\<rparr>) t1 else t1) = u"
  proof (cases "off + length bs > isize (inodes t1 i)")
    case True
    then show ?thesis using i1(1) by (simp add: upd_size u_def x_def setaddrs_def max_def)
  next
    case False
    then have "inodes t1 = (inodes s)(i := (inodes s i)\<lparr>icopy := x\<rparr>)" using i1(1) by (simp add: x_def setaddrs_def max_def)
    then show ?thesis using False by (simp add: u_def)
  qed
  have Iu: "fsat p d st i h1 C1 u" "sb u = sb s" using 1(2) i1(2) D(4) by (simp_all add: fsat_def u_def x_def a1_def)
  have ou: "inum (inodes u i) < sb_ninodes (sb u)" "room (Suc (Suc n)) h1 {} u" using ino Iu(2) 1(4) by (simp_all add: u_def)
  have nu: "inum (inodes u i) = inum (inodes s i)" "icopy (inodes u i) = x" by (simp_all add: u_def)
  let ?C = "C1(?B := put_dinode ?j x (C1 ?B))"
  obtain t where 2: "iupdate i u = Ok () t" "fsat p d st i (addlog ?B h1) ?C t" "fstep p d {} u t" "klog.more t = klog.more u" "room (Suc n) (addlog ?B h1) {} t"
    by (rule iupdate_ok [OF Iu(1) ou, unfolded nu Iu(2)])
  have t: "sb t = sb s" "inodes t = (inodes s)(i := (inodes s i)\<lparr>icopy := x\<rparr>)" using more_kfs [OF 2(4)] Iu(2) by (simp_all add: u_def)
  have e: "writei i (KernSrc bs) off (length bs) s = Ok (int (length bs)) t"
  proof -
    have "off + length bs < 2 ^ 32" using off(2) by (simp add: MAXFILE_def NDIRECT_def NINDIRECT_def BSIZE_def)
    then show ?thesis using off s2 2(1) by (cases "isize (inodes t1 i) < off + length bs") (simp_all add: writei_def 1(1) Let_def)
  qed
  note M = IBLOCK_in [OF D(5) ino]
  note MB = meta_block [OF fsat_D(3) [OF 1(2)] fsat_D(5,2) [OF 1(2)], unfolded i1(2), OF M(1), folded a1_def]
  have Bf: "?B \<notin> bmaps (sb s)" "\<not> isfree C (sb s) ?B" "?B \<notin> owned C (iaddrs (inodes s i))"
    using M(1) D(2,5) file_okD(6) [OF D(3)] by (auto simp: geom_def alloc_ok_def fixed_blocks_def)
  have xo: "dinode_ok x"
    using dok off(2) file_addrs_small [OF fsat_D(3,5) [OF 1(2)]] file_okD(1) [OF fsat_D(3) [OF 1(2)]]
    by (auto simp: dinode_ok_def x_def a1_def MAXFILE_def NDIRECT_def NINDIRECT_def BSIZE_def)
  have l: "64 * ?j + 64 \<le> length (C1 ?B)" using in_iblock fsat_D(6) [OF 1(2)] by simp
  have C1B: "C1 ?B = C ?B" using k1 Bf by (simp add: kept_def)
  have dn: "get_dinode k (?C ?B) = get_dinode k (C ?B)" if "k \<noteq> ?j" for k
    using get_put_dinode_other [OF _ l that] xo by (simp add: C1B dinode_ok_def)
  have dn1: "get_dinode ?j (?C ?B) = x" using get_put_dinode [OF xo l] by simp
  have fb: "\<forall>q < MAXFILE * BSIZE. fbyte ?C a1 q = overwrite off bs (fbyte C (iaddrs (inodes s i))) q"
    using 1(5) MB(6) [of "put_dinode ?j x (C1 ?B)"] by (metis a1_def not_le)
  have W: "written st i off bs C s ?C t"
    unfolding written_def Let_def t fun_upd_same using fb dn dn1 k1 MB(3) by (simp add: x_def kept_def)
  have fs: "fstep p d {} s t" using fstep_trans [OF f1 _ order_refl, of t] 2(3) by (simp add: u_def fstep_def jrun_def)
  have fu: "\<forall>q. off \<le> q \<and> q < off + length bs \<longrightarrow> blockat ?C (iaddrs (inodes t i)) (q div BSIZE) \<noteq> 0"
    using 1(6) MB(1) t(2) by (simp add: x_def a1_def)
  show ?thesis by (rule that [OF e 2(2) W fs 2(5) fu])
qed

section \<open>The properties\<close>

text \<open>
  C7. The block allocator. With a free block below the size of the file system, and a bitmap that marks the log, the inodes and itself
  as used, \<open>balloc\<close> inside a transaction returns the first free block: its block is zeroed, its bit is set, every other bit and every
  other block is as before. \<open>bfree\<close> of the block afterwards does not panic and gives exactly this block back.
\<close>

theorem balloc_takes_first_free:
  fixes s :: "'z kfs_scheme"
  assumes "ftx p d st h {} C s" and "alloc_ok st (sb s) C" and "0 < nfree C (sb s)" and "room 5 h {} s"
  shows "\<exists>x t h' C'. balloc d s = Ok x t \<and> isfree C (sb s) x \<and> (\<forall>y < x. \<not> isfree C (sb s) y) \<and> ftx p d st h' {} C' t \<and>
    alloc_ok st (sb s) C' \<and> C' x = replicate BSIZE 0 \<and> (\<forall>y. isfree C' (sb s) y \<longleftrightarrow> isfree C (sb s) y \<and> y \<noteq> x) \<and>
    (\<forall>n. n \<notin> bmaps (sb s) \<longrightarrow> n \<noteq> x \<longrightarrow> C' n = C n) \<and>
    (\<exists>u h'' C''. bfree d x t = Ok () u \<and> ftx p d st h'' {} C'' u \<and> (\<forall>y. isfree C'' (sb s) y = isfree C (sb s) y) \<and>
       (\<forall>n. n \<notin> bmaps (sb s) \<longrightarrow> C'' n = C' n))"
proof -
  obtain x where x: "isfree C (sb s) x" "\<And>y. y < x \<Longrightarrow> \<not> isfree C (sb s) y" using free_least [OF assms(3)] by blast
  let ?C = "taken_block (sb s) x C" let ?m = "BBLOCK x (sb s)" let ?U = "?C(?m := unmark (x mod BPB) (?C ?m))"
  have r: "room (Suc (Suc (Suc 2))) h {} s" using assms(4) by (simp add: numeral_eq_Suc)
  have e1: "{} \<inter> bmaps (sb s) = {}" "x \<notin> {}" by simp_all
  obtain t where 1: "balloc d s = Ok x t" "ftx p d st (addlog x (addlog ?m h)) {} ?C t" "klog.more t = klog.more s"
    "room (Suc 2) (addlog x (addlog ?m h)) {} t" by (rule balloc_ok [OF assms(1,2) x e1 r])
  have st: "sb t = sb s" using more_kfs [OF 1(3)] by simp
  have g: "geom st (sb s)" and xs: "x < sb_size (sb s)" using assms(2) x(1) by (simp_all add: alloc_ok_def isfree_def)
  note F = taken_block_free [OF assms(2) x(1) ftx_length [OF assms(1)]]
  have nf: "\<not> isfree ?C (sb t) x" using F(1) [of x] st by simp
  have g1: "geom st (sb t)" "x < sb_size (sb t)" using g xs st by simp_all
  have r1: "room (Suc (Suc 1)) (addlog x (addlog ?m h)) {} t" using 1(4) by (simp add: numeral_eq_Suc)
  obtain u where 2: "bfree d x t = Ok () u" "ftx p d st (addlog ?m (addlog x (addlog ?m h))) {} ?U u"
    by (rule bfree_ok [OF 1(2) g1 nf _ r1, unfolded st]) simp
  have f2: "isfree ?U (sb s) y = isfree C (sb s) y" for y
    unfolding isfree_mark(2) [where C = ?C, OF g xs ftx_length [OF 1(2)]] F(1) using x(1) by auto
  have o2: "n \<notin> bmaps (sb s) \<longrightarrow> ?U n = ?C n" for n using BBLOCK_in(2) [OF g xs] by auto
  have o1: "n \<notin> bmaps (sb s) \<longrightarrow> n \<noteq> x \<longrightarrow> ?C n = C n" for n using taken_block_other [OF g xs] by blast
  have F2: "\<exists>u h'' C''. bfree d x t = Ok () u \<and> ftx p d st h'' {} C'' u \<and> (\<forall>y. isfree C'' (sb s) y = isfree C (sb s) y) \<and>
       (\<forall>n. n \<notin> bmaps (sb s) \<longrightarrow> C'' n = ?C n)"
    using 2 f2 o2 by (intro exI [of _ u] exI [of _ "addlog ?m (addlog x (addlog ?m h))"] exI [of _ ?U] conjI allI)
  show ?thesis
    by (rule exI [of _ x], rule exI [of _ t], rule exI [of _ "addlog x (addlog ?m h)"], rule exI [of _ ?C], intro conjI allI impI F2)
      (use 1(1,2) x F o1 in simp_all)
qed

text \<open>
  C6. Files keep what is written to them. \<open>writei\<close> of a kernel buffer at an offset inside the file, inside a transaction with room in the
  log and enough free blocks, returns the number of bytes: the contents of the file are the old ones with the range overwritten, across
  block boundaries, direct and indirect blocks and blocks allocated on the way; the size grows to the end of the range if it was
  smaller; the inode on disk is the inode in memory, and the other inodes of its block, all blocks of other files and all
  metadata but the bitmap are untouched; nothing has reached the medium before the commit. \<open>readi\<close> of the range then returns
  exactly the bytes that were written.
\<close>

theorem writei_readi:
  fixes s :: "'z kfs_scheme"
  assumes I: "fsat p d st i h C s" and off: "off \<le> isize (inodes s i)" "off + length bs \<le> MAXFILE * BSIZE"
    and ino: "inum (inodes s i) < sb_ninodes (sb s)" and dok: "dinode_ok (icopy (inodes s i))"
    and fr: "2 * spans off (length bs) \<le> nfree C (sb s)" and r: "room (6 * spans off (length bs) + 2) h {} s"
  shows "\<exists>t u h' C'. writei i (KernSrc bs) off (length bs) s = Ok (int (length bs)) t \<and> fsat p d st i h' C' t \<and>
    written st i off bs C s C' t \<and> dblock t = dblock s \<and> readi i KernDst off (length bs) t = Ok (int (length bs), bs) u"
proof -
  have r2: "room (6 * spans off (length bs) + Suc (Suc 0)) h {} s" using r by simp
  obtain t h' C' where 1: "writei i (KernSrc bs) off (length bs) s = Ok (int (length bs)) t" "fsat p d st i h' C' t" "written st i off bs C s C' t"
    "fstep p d {} s t" "room (Suc 0) h' {} t" "\<forall>q. off \<le> q \<and> q < off + length bs \<longrightarrow> blockat C' (iaddrs (inodes t i)) (q div BSIZE) \<noteq> 0"
    by (rule writei_ok [OF I off ino dok fr r2])
  let ?a = "iaddrs (inodes t i)"
  have sz: "isize (inodes t i) = max (isize (inodes s i)) (off + length bs)"
  proof -
    have "inodes t = (inodes s)(i := (inodes s i)\<lparr>icopy := (icopy (inodes s i))\<lparr>di_addrs := ?a,
        di_size := max (isize (inodes s i)) (off + length bs)\<rparr>\<rparr>)" using 1(3) by (simp add: written_def Let_def)
    from arg_cong [OF this, of "\<lambda>I. isize (I i)"] show ?thesis by simp
  qed
  have a: "off + (length bs - 0) \<le> MAXFILE * BSIZE" using off(2) by simp
  have fu: "blockat C' ?a (q div BSIZE) \<noteq> 0" if "off \<le> q" "q < off + (length bs - 0)" for q using 1(6) that by simp
  obtain u where 2: "readi_loop i KernDst off 0 (length bs) [] t = Ok (int (length bs), [] @ map (fbyte C' ?a) [off..<off + (length bs - 0)]) u"
    by (rule readi_loop_ok [OF 1(2) le0 a 1(5) fu])
  have b: "map (fbyte C' ?a) [off..<off + length bs] = bs"
    by (rule nth_equalityI) (use 1(3) off(2) in \<open>auto simp: written_def Let_def overwrite_def\<close>)
  have o32: "off + length bs < 2 ^ 32" using off(2) by (simp add: MAXFILE_def NDIRECT_def NINDIRECT_def BSIZE_def)
  have "readi i KernDst off (length bs) t = Ok (int (length bs), bs) u" using 2 b o32 by (simp add: readi_def sz)
  moreover have "dblock t = dblock s" using 1(4) by (intro jrun_dblock [of p]) (simp add: fstep_def)
  ultimately show ?thesis using 1(1-3) by blast
qed

lemma spans_bound: "length bs \<le> n * BSIZE \<Longrightarrow> spans off (length bs) \<le> Suc n"
proof -
  assume l: "length bs \<le> n * BSIZE"
  define c where "c = off div BSIZE * BSIZE"
  have "off = c + off mod BSIZE" "off mod BSIZE < BSIZE" by (simp_all add: c_def BSIZE_def)
  then have "off + length bs - 1 < c + BSIZE + n * BSIZE" using l by linarith
  also have "\<dots> = (off div BSIZE + 1 + n) * BSIZE" by (simp add: c_def distrib_right)
  finally have "(off + length bs - 1) div BSIZE < off div BSIZE + 1 + n" by (rule less_mult_imp_div_less)
  then have "(off + length bs - 1) div BSIZE + 1 - off div BSIZE \<le> Suc n" by linarith
  then show ?thesis by (simp only: spans_def) simp
qed

section \<open>An example\<close>

text \<open>A small file system: the log at 2 to 31, inodes at 32 and 33, the bitmap at 34; blocks 40 to 47 are free. The file is empty.\<close>

definition small_sb :: superblock where
  "small_sb = \<lparr>sb_magic = FSMAGIC, sb_size = 48, sb_nblocks = 13, sb_ninodes = 16, sb_nlog = 30, sb_logstart = 2, sb_inodestart = 32,
     sb_bmapstart = 34\<rparr>"

definition small_medium :: "nat \<Rightarrow> u8 list" where
  "small_medium i = (if i = 68 then replicate 5 (- 1) @ replicate 507 0 else replicate 512 0)"

definition run_fs :: kfs where
  "run_fs = klog.extend ((run_log small_medium (\<lambda>_. no_buf) [])\<lparr>log := (log (run_log small_medium (\<lambda>_. no_buf) []))\<lparr>outstanding := 1\<rparr>\<rparr>)
     \<lparr>sb = small_sb, inodes = (\<lambda>_. \<lparr>idev = 1, inum = 1, iref = 1, ivalid = True, icopy = dinode_new T_FILE\<rparr>)\<rparr>"

lemma run_fs_fields:
  "spin run_fs = run_spin" "procs run_fs = procs (run_bio no_buf small_medium)" "device run_fs = vserve" "bufs run_fs = (\<lambda>_. no_buf)"
  "sectors run_fs = small_medium" "slocks run_fs = (\<lambda>_. \<lparr>sl_locked = False, sl_name = [], sl_pid = 0\<rparr>)"
  "vq run_fs = vq (run_bio no_buf small_medium)" "vdisk run_fs = vdisk (run_bio no_buf small_medium)" "lru (blist run_fs)"
  "log run_fs = \<lparr>log_start = 2, log_size = 30, outstanding = 1, committing = False, log_dev = 1, lh_n = 0, lh_block = (\<lambda>i. int ([] ! i))\<rparr>"
  "sb run_fs = small_sb" "inodes run_fs = (\<lambda>_. \<lparr>idev = 1, inum = 1, iref = 1, ivalid = True, icopy = dinode_new T_FILE\<rparr>)"
  using run_log_fields [of small_medium "\<lambda>_. no_buf" "[]"] by (simp_all add: run_fs_def klog.defs)

lemma run_fs_ready: "quiet 0 run_fs" "vidle run_fs"
  using run_log_ready [of small_medium "\<lambda>_. no_buf" "[]"]
  by (simp_all add: quiet_def calm_in_def vidle_def run_fs_fields run_log_fields)

lemma run_fs_ftx: "ftx 0 1 2 [] {} (dblock run_fs) run_fs"
proof -
  have "bcache 0 1 (\<lambda>_. 0) {} (dblock run_fs) run_fs"
    by (rule bcache_start) (simp_all add: run_fs_ready run_fs_fields vserve_ok no_buf_def BSIZE_def small_medium_def)
  moreover have "in_tx (log run_fs) 1 2 [] 1" by (simp add: in_tx_def logged_def run_fs_fields u32_of_def params)
  moreover have "refs [] {} = (\<lambda>_. 0)" by (simp add: refs_def pins_def fun_eq_iff)
  ultimately show ?thesis by (auto simp: ftx_def)
qed

lemma run_fs_bitmap: "dblock run_fs 34 = replicate 5 (- 1) @ replicate 1019 0"
  by (simp add: dblock_def run_fs_fields small_medium_def flip: replicate_add)

lemma run_fs_free: "isfree (dblock run_fs) small_sb b \<longleftrightarrow> 40 \<le> b \<and> b < 48"
proof (cases "b < 48")
  case True
  have B: "BBLOCK b small_sb = 34" "b mod BPB = b" using True by (simp_all add: BBLOCK_def small_sb_def BPB_def BSIZE_def)
  have "getbit (replicate 5 (- 1) @ replicate 1019 0) b \<longleftrightarrow> b div 8 < 5"
  proof (cases "b div 8 < 5")
    case lt: True
    then show ?thesis by (simp add: getbit_def nth_append)
  next
    case ge: False
    then show ?thesis using True by (simp add: getbit_def nth_append)
  qed
  then show ?thesis using True by (auto simp: isfree_def B run_fs_bitmap) (simp_all add: small_sb_def)
qed (simp add: isfree_def small_sb_def)

lemma run_fs_alloc: "alloc_ok 2 small_sb (dblock run_fs)" "nfree (dblock run_fs) small_sb = 8"
proof -
  show "alloc_ok 2 small_sb (dblock run_fs)"
    unfolding alloc_ok_def run_fs_free by (auto simp: geom_def fixed_blocks_def bmaps_def iblocks_def small_sb_def area_def params BPB_def IPB_def BSIZE_def)
  have "{b. isfree (dblock run_fs) small_sb b} = {40..<48}" unfolding run_fs_free by auto
  then show "nfree (dblock run_fs) small_sb = 8" by (simp add: nfree_def)
qed

lemma run_fs_fsat: "fsat 0 1 2 0 [] (dblock run_fs) run_fs"
proof -
  define z :: "nat list" where "z = replicate (NDIRECT + 1) 0"
  have a: "iaddrs (inodes run_fs 0) = z" by (simp add: run_fs_fields dinode_new_def z_def)
  have b: "blockat C z k = 0" for C k by (auto simp: blockat_def z_def simp del: replicate_Suc)
  have "z ! NDIRECT = 0" "length z = NDIRECT + 1" by (simp_all add: z_def del: replicate_Suc)
  then have "owned C z = {}" "length z = NDIRECT + 1" for C by (auto simp: owned_def b)
  then have "file_ok 2 small_sb (dblock run_fs) z" by (simp add: file_ok_def b)
  then show ?thesis using run_fs_ftx run_fs_alloc(1) unfolding fsat_def a by (simp add: run_fs_fields)
qed

theorem balloc_takes_first_free_witness:
  "\<exists>t h' C'. balloc 1 run_fs = Ok 40 t \<and> ftx 0 1 2 h' {} C' t \<and> C' 40 = replicate BSIZE 0 \<and> \<not> isfree C' small_sb 40 \<and> isfree C' small_sb 41 \<and>
     (\<exists>u h'' C''. bfree 1 40 t = Ok () u \<and> ftx 0 1 2 h'' {} C'' u \<and> isfree C'' small_sb 40)"
proof -
  have "alloc_ok 2 (sb run_fs) (dblock run_fs)" "0 < nfree (dblock run_fs) (sb run_fs)" "room 5 [] {} run_fs"
    using run_fs_alloc by (simp_all add: run_fs_fields room_def params)
  from balloc_takes_first_free [OF run_fs_ftx this, unfolded run_fs_fields(11) run_fs_free] show ?thesis
  proof (elim exE conjE)
    fix x t h' C' u h'' C''
    assume 1: "balloc 1 run_fs = Ok x t" "40 \<le> x" "\<forall>y < x. \<not> (40 \<le> y \<and> y < 48)" "ftx 0 1 2 h' {} C' t" "C' x = replicate BSIZE 0"
      "\<forall>y. isfree C' small_sb y \<longleftrightarrow> (40 \<le> y \<and> y < 48) \<and> y \<noteq> x"
      and 2: "bfree 1 x t = Ok () u" "ftx 0 1 2 h'' {} C'' u" "\<forall>y. isfree C'' small_sb y \<longleftrightarrow> 40 \<le> y \<and> y < 48"
    have "\<not> 40 < x" using 1(3) by auto
    then have x: "x = 40" using 1(2) by simp
    have "isfree C'' small_sb 40" "\<not> isfree C' small_sb 40" "isfree C' small_sb 41" using 1(6) 2(3) x by simp_all
    then show ?thesis using 1(1,4,5) 2(1,2) unfolding x by blast
  qed
qed

lemma run_fs_file:
  "isize (inodes run_fs 0) = 0" "inum (inodes run_fs 0) < sb_ninodes (sb run_fs)" "dinode_ok (icopy (inodes run_fs 0))"
  by (simp_all add: run_fs_fields dinode_new_def small_sb_def dinode_ok_def T_FILE_def)

theorem writei_readi_witness:
  "\<exists>t u h' C'. writei 0 (KernSrc [7, 8, 9]) 0 3 run_fs = Ok 3 t \<and> fsat 0 1 2 0 h' C' t \<and> written 2 0 0 [7, 8, 9] (dblock run_fs) run_fs C' t \<and>
     dblock t = dblock run_fs \<and> readi 0 KernDst 0 3 t = Ok (3, [7, 8, 9]) u"
proof -
  have s: "spans 0 (length [7, 8, 9 :: u8]) = 1" by (simp add: spans_def BSIZE_def)
  show ?thesis
    using writei_readi [OF run_fs_fsat, of 0 "[7, 8, 9]"] run_fs_file run_fs_alloc(2) unfolding s
    by (simp add: run_fs_fields room_def params MAXFILE_def NDIRECT_def NINDIRECT_def BSIZE_def numeral_3_eq_3)
qed

section \<open>Writing a file is atomic\<close>

lemma fsat_start:
  assumes "bcache p d (\<lambda>_. 0) {} C s" and "in_tx (log s) d st [] 0" and "alloc_ok st (sb s) C" and "file_ok st (sb s) C (iaddrs (inodes s i))"
    and "idev (inodes s i) = d"
  shows "fsat p d st i [] C (s\<lparr>log := (log s)\<lparr>outstanding := 1\<rparr>\<rparr>)"
proof -
  have "refs [] {} = (\<lambda>_. 0)" by (simp add: refs_def pins_def fun_eq_iff)
  moreover have "C n = dblock s n" for n using btabD(12) [OF bcacheD(6) [OF assms(1)]] by simp
  moreover have "in_tx ((log s)\<lparr>outstanding := 1\<rparr>) d st [] 1" using assms(2) by (simp add: in_tx_def logged_def)
  ultimately show ?thesis using assms by (auto simp: fsat_def ftx_def dblock_dblk)
qed


text \<open>The example with the log idle.\<close>

definition idle_fs :: kfs where
  "idle_fs = run_fs\<lparr>log := (log run_fs)\<lparr>outstanding := 0\<rparr>\<rparr>"

lemma idle_fs_ready: "bcache 0 1 (\<lambda>_. 0) {} (dblock run_fs) idle_fs" "in_tx (log idle_fs) 1 2 [] 0" "loghead 2 (sectors idle_fs) = []"
proof -
  have "refs [] {} = (\<lambda>_. 0)" by (simp add: refs_def pins_def fun_eq_iff)
  then show "bcache 0 1 (\<lambda>_. 0) {} (dblock run_fs) idle_fs" using run_fs_ftx by (simp add: ftx_def idle_fs_def)
  show "in_tx (log idle_fs) 1 2 [] 0" by (simp add: idle_fs_def in_tx_def logged_def run_fs_fields u32_of_def params)
  have "loghead 2 small_medium = loghead 2 (\<lambda>_. replicate 512 0)" by (simp add: loghead_def small_medium_def)
  then show "loghead 2 (sectors idle_fs) = []" by (simp add: idle_fs_def run_fs_fields zero_head)
qed


end
