(* ===== verification/Mkfs.thy ===== *)
theory Mkfs
  imports Fsfile
begin

text \<open>
  The program that builds the file system image, \<open>mkfs/mkfs.c\<close>, which runs on the host. A failed assertion and a call of \<open>die\<close> end the
  program and are the outcome \<open>Panic\<close>. What it prints is left out. The image it leaves is shown to be a file system that the kernel's code relies on: the superblock,
  the bitmap, and every file with its blocks and contents.
\<close>

section \<open>The code\<close>

text \<open>
  The image file by blocks and its length in blocks, and the two counters. \<open>good_io\<close> is the number of further transfers of a sector
  that succeed.
\<close>

record mkfs =
  img :: "nat \<Rightarrow> u8 list"
  imgsize :: nat
  freeinode :: nat
  freeblock :: nat
  good_io :: nat

definition NINODES :: nat where "NINODES = 200"
definition nbitmap :: nat where "nbitmap = FSSIZE div (BSIZE * 8) + 1"
definition ninodeblocks :: nat where "ninodeblocks = NINODES div IPB + 1"
definition nlog :: nat where "nlog = LOGSIZE"
definition nmeta :: nat where "nmeta = 2 + nlog + ninodeblocks + nbitmap"
definition nblocks :: nat where "nblocks = FSSIZE - nmeta"

text \<open>The conversions to little-endian byte order, on a host that has this order.\<close>

definition xshort :: "nat \<Rightarrow> nat" where "xshort x = le_val (le_bytes 2 x)"
definition xint :: "nat \<Rightarrow> nat" where "xint x = le_val (le_bytes 4 x)"

definition mkfs_sb :: superblock where
  "mkfs_sb = \<lparr>sb_magic = FSMAGIC, sb_size = xint FSSIZE, sb_nblocks = xint nblocks, sb_ninodes = xint NINODES, sb_nlog = xint nlog,
     sb_logstart = xint 2, sb_inodestart = xint (2 + nlog), sb_bmapstart = xint (2 + nlog + ninodeblocks)\<rparr>"

definition sb_bytes :: "superblock \<Rightarrow> u8 list" where
  "sb_bytes S = concat (map (le_bytes 4) [sb_magic S, sb_size S, sb_nblocks S, sb_ninodes S, sb_nlog S, sb_logstart S, sb_inodestart S, sb_bmapstart S])"

text \<open>The offset \<open>sec * BSIZE\<close> is a \<open>uint\<close>. A read past the end of the file is short.\<close>

definition wsect :: "nat \<Rightarrow> u8 list \<Rightarrow> mkfs \<Rightarrow> (mkfs, unit) res" where
  "wsect sec b s =
     (let k = sec * BSIZE mod 2 ^ 32 div BSIZE in
      if good_io s = 0 then Panic ''write''
      else Ok () (s\<lparr>good_io := good_io s - 1, img := (img s)(k := b), imgsize := max (imgsize s) (Suc k)\<rparr>))"

definition rsect :: "nat \<Rightarrow> mkfs \<Rightarrow> (mkfs, u8 list) res" where
  "rsect sec s =
     (let k = sec * BSIZE mod 2 ^ 32 div BSIZE in
      if good_io s = 0 \<or> imgsize s \<le> k then Panic ''read'' else Ok (img s k) (s\<lparr>good_io := good_io s - 1\<rparr>))"

definition winode :: "nat \<Rightarrow> dinode \<Rightarrow> mkfs \<Rightarrow> (mkfs, unit) res" where
  "winode ino ip s =
     bindr (rsect (IBLOCK ino mkfs_sb) s) (\<lambda>buf s. wsect (IBLOCK ino mkfs_sb) (put_dinode (ino mod IPB) ip buf) s)"

definition rinode :: "nat \<Rightarrow> mkfs \<Rightarrow> (mkfs, dinode) res" where
  "rinode ino s = bindr (rsect (IBLOCK ino mkfs_sb) s) (\<lambda>buf s. Ok (get_dinode (ino mod IPB) buf) s)"

definition mk_ialloc :: "int \<Rightarrow> mkfs \<Rightarrow> (mkfs, nat) res" where
  "mk_ialloc type s =
     (let ino = freeinode s;
          s = s\<lparr>freeinode := (freeinode s + 1) mod 2 ^ 32\<rparr>;
          din = \<lparr>di_type = type, di_major = 0, di_minor = 0, di_nlink = 1, di_size = xint 0, di_addrs = replicate (NDIRECT + 1) 0\<rparr>
      in bindr (winode ino din s) (\<lambda>_ s. Ok ino s))"

definition mk_balloc :: "nat \<Rightarrow> mkfs \<Rightarrow> (mkfs, unit) res" where
  "mk_balloc n s =
     (if n \<ge> BSIZE * 8 then Panic ''used < BSIZE * 8''
      else wsect (sb_bmapstart mkfs_sb) (fold (\<lambda>i buf. buf[i div 8 := buf ! (i div 8) OR bitmask i]) [0..<n] (replicate BSIZE 0)) s)"

text \<open>\<open>freeblock++\<close>; the counter is a \<open>uint\<close>.\<close>

definition new_block :: "mkfs \<Rightarrow> nat \<times> mkfs" where
  "new_block s = (freeblock s, s\<lparr>freeblock := (freeblock s + 1) mod 2 ^ 32\<rparr>)"

text \<open>Entry \<open>k\<close> of the inode's array gets a new block if it has none.\<close>

definition mk_slot :: "nat \<Rightarrow> dinode \<Rightarrow> mkfs \<Rightarrow> dinode \<times> mkfs" where
  "mk_slot k din s =
     (if xint (di_addrs din ! k) = 0
      then let (b, s) = new_block s in (din\<lparr>di_addrs := (di_addrs din)[k := xint b]\<rparr>, s) else (din, s))"

text \<open>The block of an inode for its block number \<open>fbn\<close>, with the inode that may have got new blocks.\<close>

definition iappend_block :: "nat \<Rightarrow> dinode \<Rightarrow> mkfs \<Rightarrow> (mkfs, nat \<times> dinode) res" where
  "iappend_block fbn din s =
     (if fbn < NDIRECT
      then let (din, s) = mk_slot fbn din s in Ok (xint (di_addrs din ! fbn), din) s
      else let (din, s) = mk_slot NDIRECT din s in
           bindr (rsect (xint (di_addrs din ! NDIRECT)) s) (\<lambda>indirect s.
           if rd32 (4 * (fbn - NDIRECT)) indirect = 0
           then let (b, s) = new_block s; indirect = wr32 (4 * (fbn - NDIRECT)) (xint b) indirect in
                bindr (wsect (xint (di_addrs din ! NDIRECT)) indirect s) (\<lambda>_ s.
                Ok (xint (rd32 (4 * (fbn - NDIRECT)) indirect), din) s)
           else Ok (xint (rd32 (4 * (fbn - NDIRECT)) indirect), din) s))"

function iappend_loop :: "u8 list \<Rightarrow> nat \<Rightarrow> dinode \<Rightarrow> mkfs \<Rightarrow> (mkfs, nat \<times> dinode) res" where
  "iappend_loop p off din s =
     (if p = [] then Ok (off, din) s
      else let fbn = off div BSIZE in
           if fbn \<ge> MAXFILE then Panic ''fbn < MAXFILE''
           else bindr (iappend_block fbn din s) (\<lambda>x s.
                let n1 = min (length p) ((fbn + 1) * BSIZE - off) in
                bindr (rsect (fst x) s) (\<lambda>buf s.
                bindr (wsect (fst x) (put_at (off - fbn * BSIZE) (take n1 p) buf) s) (\<lambda>_ s.
                iappend_loop (drop n1 p) (off + n1) (snd x) s))))"
  by pat_completeness auto
termination
proof (relation "measure (\<lambda>(p, off, din, s). length p)")
  fix p :: "u8 list" and off fbn n1 :: nat and din :: dinode and s s' :: mkfs and x :: "nat \<times> dinode"
  assume a: "p \<noteq> []" "fbn = off div BSIZE" "n1 = min (length p) ((fbn + 1) * BSIZE - off)"
  have "off < (off div BSIZE + 1) * BSIZE" using dividend_less_div_times [of BSIZE off] by (simp add: BSIZE_def)
  then show "((drop n1 p, off + n1, snd x, s'), p, off, din, s) \<in> measure (\<lambda>(p, off, din, s). length p)" using a by simp
qed auto

declare iappend_loop.simps [simp del]

definition iappend :: "nat \<Rightarrow> u8 list \<Rightarrow> mkfs \<Rightarrow> (mkfs, unit) res" where
  "iappend ino p s =
     bindr (rinode ino s) (\<lambda>din s.
     bindr (iappend_loop p (xint (di_size din)) din s) (\<lambda>x s.
     winode ino ((snd x)\<lparr>di_size := xint (fst x)\<rparr>) s))"

fun iappend_all :: "nat \<Rightarrow> u8 list list \<Rightarrow> mkfs \<Rightarrow> (mkfs, unit) res" where
  "iappend_all ino [] s = Ok () s"
| "iappend_all ino (b # bs) s = (if b = [] then Ok () s else bindr (iappend ino b s) (\<lambda>_ s. iappend_all ino bs s))"

text \<open>The name of a file in the image, from the path on the host.\<close>

definition shortname :: "u8 list \<Rightarrow> u8 list" where
  "shortname a = (if take 5 a = cstr ''user/'' then drop 5 a else a)"

definition mk_dirent :: "nat \<Rightarrow> u8 list \<Rightarrow> u8 list" where
  "mk_dirent ino name = le_bytes 2 (xshort ino) @ take (DIRSIZ - 1) name @ replicate (DIRSIZ - min (DIRSIZ - 1) (length name)) 0"

text \<open>
  The loop over the files. \<open>host a\<close> are the results of the reads of file \<open>a\<close>, or \<open>None\<close> when it cannot be opened.
\<close>

fun add_files :: "(u8 list \<Rightarrow> u8 list list option) \<Rightarrow> nat \<Rightarrow> u8 list list \<Rightarrow> mkfs \<Rightarrow> (mkfs, unit) res" where
  "add_files host rootino [] s = Ok () s"
| "add_files host rootino (a # as) s =
     (let name = shortname a in
      if 47 \<in> set name then Panic ''index''
      else case host a of
        None \<Rightarrow> Panic ''open''
      | Some reads \<Rightarrow>
          let name = (if name \<noteq> [] \<and> hd name = 95 then tl name else name) in
          bindr (mk_ialloc T_FILE s) (\<lambda>ino s.
          bindr (iappend rootino (mk_dirent ino name) s) (\<lambda>_ s.
          bindr (iappend_all ino reads s) (\<lambda>_ s.
          add_files host rootino as s))))"

fun wzeroes :: "nat list \<Rightarrow> mkfs \<Rightarrow> (mkfs, unit) res" where
  "wzeroes [] s = Ok () s"
| "wzeroes (i # is) s = bindr (wsect i (replicate BSIZE 0) s) (\<lambda>_ s. wzeroes is s)"

text \<open>The program; \<open>opened\<close> tells whether the image file can be opened.\<close>

definition mkfs_main :: "bool \<Rightarrow> (u8 list \<Rightarrow> u8 list list option) \<Rightarrow> u8 list list \<Rightarrow> nat \<Rightarrow> (mkfs, unit) res" where
  "mkfs_main opened host argv io =
     (if length argv < 2 then Panic ''Usage: mkfs fs.img files...''
      else if \<not> opened then Panic ''open''
      else let s = \<lparr>img = (\<lambda>_. replicate BSIZE 0), imgsize = 0, freeinode = 1, freeblock = nmeta, good_io = io\<rparr> in
           bindr (wzeroes [0..<FSSIZE] s) (\<lambda>_ s.
           bindr (wsect 1 (put_at 0 (sb_bytes mkfs_sb) (replicate BSIZE 0)) s) (\<lambda>_ s.
           bindr (mk_ialloc T_DIR s) (\<lambda>rootino s.
           if rootino \<noteq> ROOTINO then Panic ''rootino == ROOTINO''
           else bindr (iappend rootino (mk_dirent rootino [46]) s) (\<lambda>_ s.
                bindr (iappend rootino (mk_dirent rootino [46, 46]) s) (\<lambda>_ s.
                bindr (add_files host rootino (drop 2 argv) s) (\<lambda>_ s.
                bindr (rinode rootino s) (\<lambda>din s.
                bindr (winode rootino (din\<lparr>di_size := xint ((xint (di_size din) div BSIZE + 1) * BSIZE)\<rparr>) s) (\<lambda>_ s.
                mk_balloc (freeblock s) s)))))))))"

section \<open>The layout\<close>

lemma xint_small: "x < 2 ^ 32 \<Longrightarrow> xint x = x"
  by (simp add: xint_def le_val_le_bytes)

lemma xint_idem: "xint (rd32 off d) = rd32 off d"
  using rd32_less by (rule xint_small)

lemma mkfs_layout:
  "nmeta = 46" "sb_size mkfs_sb = 2000" "sb_ninodes mkfs_sb = 200" "sb_inodestart mkfs_sb = 32" "sb_bmapstart mkfs_sb = 45" "sb_logstart mkfs_sb = 2"
  "sb_nlog mkfs_sb = 30" "FSSIZE = 2000" "NINODES = 200" "LOGSIZE = 30"
  by (simp_all add: nmeta_def nlog_def ninodeblocks_def nbitmap_def mkfs_sb_def NINODES_def xint_small params fs_consts nblocks_def)

lemma mkfs_geom: "geom 2 mkfs_sb" "bmaps mkfs_sb = {45}" "iblocks mkfs_sb = {32..44}" "fixed_blocks 2 mkfs_sb = insert 0 {2..45}"
proof -
  have b: "bmaps mkfs_sb = {45}" and i: "iblocks mkfs_sb = {32..44}" and a: "area 2 (LOGSIZE - 1) = {2..31}"
    by (simp_all add: bmaps_def iblocks_def mkfs_layout BPB_def IPB_def BSIZE_def area_def)
  show "bmaps mkfs_sb = {45}" "iblocks mkfs_sb = {32..44}" by (rule b, rule i)
  show "geom 2 mkfs_sb" unfolding geom_def b i a by (simp add: mkfs_layout BPB_def IPB_def BSIZE_def)
  show "fixed_blocks 2 mkfs_sb = insert 0 {2..45}" unfolding fixed_blocks_def b i a by auto
qed

lemma mkfs_BBLOCK: "b < 2000 \<Longrightarrow> BBLOCK b mkfs_sb = 45" "b < 2000 \<Longrightarrow> b mod BPB = b"
  by (simp_all add: BBLOCK_def mkfs_layout BPB_def BSIZE_def)

lemma mkfs_IBLOCK: "n < 200 \<Longrightarrow> IBLOCK n mkfs_sb = 32 + n div IPB" "n < 200 \<Longrightarrow> IBLOCK n mkfs_sb \<in> {32..44}"
proof -
  assume n: "n < 200"
  have d: "n div IPB \<le> 12" using n div_le_mono [of n 199 16] by (simp add: IPB_def BSIZE_def)
  then show "IBLOCK n mkfs_sb = 32 + n div IPB" by (simp add: IBLOCK_def mkfs_layout)
  then show "IBLOCK n mkfs_sb \<in> {32..44}" using d by simp
qed

lemma mkfs_superblock: "get_sb (put_at 0 (sb_bytes mkfs_sb) (replicate BSIZE 0)) = mkfs_sb"
proof -
  let ?as = "[sb_magic mkfs_sb, sb_size mkfs_sb, sb_nblocks mkfs_sb, sb_ninodes mkfs_sb, sb_nlog mkfs_sb, sb_logstart mkfs_sb, sb_inodestart mkfs_sb, sb_bmapstart mkfs_sb]"
  have l: "length (sb_bytes mkfs_sb) = 32" by (simp add: sb_bytes_def)
  have "rd32 (4 * k) (put_at 0 (sb_bytes mkfs_sb) (replicate BSIZE 0)) = ?as ! k mod 2 ^ 32" if "k < 8" for k
    using get_put_inner [of "4 * k" 4 "sb_bytes mkfs_sb" 0 "replicate BSIZE 0"] that l get_addr [of k ?as]
    by (simp add: rd32_def sb_bytes_def le_val_le_bytes)
  note r = this [of 0] this [of 1] this [of 2] this [of 3] this [of 4] this [of 5] this [of 6] this [of 7]
  have s: "x mod 2 ^ 32 = x" if "x \<in> set ?as" for x using that by (auto simp: mkfs_sb_def FSMAGIC_def xint_def le_val_le_bytes)
  show ?thesis using r s by (simp add: get_sb_def)
qed

section \<open>Sectors\<close>

lemma sec_small: "k < 4194304 \<Longrightarrow> k * BSIZE mod 4294967296 div BSIZE = k"
  by (simp add: BSIZE_def)

lemma wsect_small: "k < 2000 \<Longrightarrow> wsect k b s = Ok u t \<longleftrightarrow> 0 < good_io s \<and> t = s\<lparr>good_io := good_io s - 1, img := (img s)(k := b), imgsize := max (imgsize s) (Suc k)\<rparr>"
  by (auto simp: wsect_def sec_small Let_def)

lemma rsect_small: "k < 4194304 \<Longrightarrow> rsect k s = Ok b t \<longleftrightarrow> 0 < good_io s \<and> k < imgsize s \<and> b = img s k \<and> t = s\<lparr>good_io := good_io s - 1\<rparr>"
  by (auto simp: rsect_def sec_small Let_def)

text \<open>The contents the image would have if the program ended now: with the bitmap of the blocks handed out so far.\<close>

definition marks :: "nat \<Rightarrow> u8 list" where
  "marks n = fold (\<lambda>i buf. buf[i div 8 := buf ! (i div 8) OR bitmask i]) [0..<n] (replicate BSIZE 0)"

definition view :: "mkfs \<Rightarrow> nat \<Rightarrow> u8 list" where
  "view s = (img s)(45 := marks (freeblock s))"

lemma marks_Suc: "marks (Suc n) = mark n (marks n)"
  by (simp add: marks_def mark_def)

lemma marks_length [simp]: "length (marks n) = BSIZE"
  by (induction n) (simp_all add: marks_Suc, simp add: marks_def)

lemma marks_bit: "n \<le> 2000 \<Longrightarrow> b < 2000 \<Longrightarrow> getbit (marks n) b \<longleftrightarrow> b < n"
proof (induction n)
  case 0
  have "b div 8 < BSIZE" using 0 less_mult_imp_div_less [of b 250 8] by (simp add: BSIZE_def)
  then show ?case by (simp add: marks_def)
next
  case (Suc n)
  have "n div 8 < BSIZE" using Suc.prems less_mult_imp_div_less [of n 250 8] by (simp add: BSIZE_def)
  then have "getbit (mark n (marks n)) b \<longleftrightarrow> b = n \<or> getbit (marks n) b" by (intro getbit_mark) simp
  then show ?case using Suc by (auto simp: marks_Suc)
qed

section \<open>Appending to a file\<close>

definition mk_base :: "mkfs \<Rightarrow> bool" where
  "mk_base s \<longleftrightarrow> (\<forall>k. length (img s k) = BSIZE) \<and> imgsize s = 2000 \<and> 46 \<le> freeblock s \<and> freeblock s \<le> 2000 \<and>
     (\<forall>k \<ge> freeblock s. img s k = replicate BSIZE 0)"

lemma mk_base_io [simp]: "mk_base (s\<lparr>good_io := n\<rparr>) = mk_base s" "view (s\<lparr>good_io := n\<rparr>) = view s" "mk_base (s\<lparr>freeinode := n\<rparr>) = mk_base s"
  "view (s\<lparr>freeinode := n\<rparr>) = view s"
  by (simp_all add: mk_base_def view_def)

lemma view_alloc:
  assumes "mk_base s"
  shows "isfree (view s) mkfs_sb b \<longleftrightarrow> freeblock s \<le> b \<and> b < 2000" "alloc_ok 2 mkfs_sb (view s)" "length (view s n) = BSIZE"
proof -
  show 1: "isfree (view s) mkfs_sb b \<longleftrightarrow> freeblock s \<le> b \<and> b < 2000" for b
    using assms marks_bit [of "freeblock s" b] mkfs_BBLOCK [of b] by (cases "b < 2000") (auto simp: isfree_def view_def mkfs_layout mk_base_def)
  show "alloc_ok 2 mkfs_sb (view s)" unfolding alloc_ok_def 1 using assms mkfs_geom by (auto simp: mk_base_def)
  show "length (view s n) = BSIZE" using assms by (simp add: view_def mk_base_def)
qed

lemma new_block_ok:
  assumes "mk_base s" and "freeblock s < 2000"
  shows "new_block s = (freeblock s, s\<lparr>freeblock := freeblock s + 1\<rparr>)" "mk_base (s\<lparr>freeblock := freeblock s + 1\<rparr>)"
    "view (s\<lparr>freeblock := freeblock s + 1\<rparr>) = taken_block mkfs_sb (freeblock s) (view s)" "isfree (view s) mkfs_sb (freeblock s)"
proof -
  let ?x = "freeblock s"
  show "new_block s = (?x, s\<lparr>freeblock := ?x + 1\<rparr>)" using assms by (simp add: new_block_def)
  show "mk_base (s\<lparr>freeblock := ?x + 1\<rparr>)" using assms by (auto simp: mk_base_def)
  show "isfree (view s) mkfs_sb ?x" using view_alloc(1) [OF assms(1)] assms(2) by simp
  have x: "?x \<noteq> 45" "img s ?x = replicate BSIZE 0" using assms(1) by (auto simp: mk_base_def)
  show "view (s\<lparr>freeblock := ?x + 1\<rparr>) = taken_block mkfs_sb ?x (view s)"
    using x by (auto simp: view_def taken_block_def mkfs_BBLOCK [OF assms(2)] marks_Suc fun_eq_iff)
qed

text \<open>How a file grows: the contents stay, and so do the blocks of other files.\<close>

definition grew :: "mkfs \<Rightarrow> nat list \<Rightarrow> mkfs \<Rightarrow> nat list \<Rightarrow> bool" where
  "grew s a t b \<longleftrightarrow> mk_base t \<and> file_ok 2 mkfs_sb (view t) b \<and> kept 2 mkfs_sb (view s) a (view t) b \<and> freeinode t = freeinode s \<and>
     (\<forall>q < MAXFILE * BSIZE. fbyte (view t) b q = fbyte (view s) a q)"

lemma grew_trans: "grew s a t b \<Longrightarrow> grew t b u c \<Longrightarrow> grew s a u c"
  unfolding grew_def using kept_trans [of 2 mkfs_sb "view s" a "view t" b] by auto

lemma grew_joins:
  assumes "mk_base s" and "file_ok 2 mkfs_sb (view s) a" and "joins 2 mkfs_sb x T (view s) a (view t) b" and "mk_base t" "freeinode t = freeinode s"
  shows "grew s a t b"
  unfolding grew_def using assms joins_ok [OF assms(2) view_alloc(2) [OF assms(1)] assms(3)] joins_kept(1) [OF assms(2) view_alloc(2) [OF assms(1)] assms(3)]
    joins_fbyte [OF assms(2) view_alloc(2) [OF assms(1)] assms(3)] by blast

lemma addr_xint:
  assumes "mk_base s" and "file_ok 2 mkfs_sb (view s) a" and "k \<le> NDIRECT"
  shows "xint (a ! k) = a ! k" "a ! k < 2000"
proof -
  have la: "length a = NDIRECT + 1" by (rule file_okD(1) [OF assms(2)])
  show "xint (a ! k) = a ! k" using file_addrs_small [OF assms(2) mkfs_geom(1), of "a ! k"] la assms(3) by (intro xint_small) simp
  show "a ! k < 2000"
  proof (cases "a ! k = 0")
    case False
    have "a ! k \<in> owned (view s) a"
    proof (cases "k = NDIRECT")
      case True
      then show ?thesis using ownedI(2) [of a "view s"] False by simp
    next
      case ne: False
      then have "blockat (view s) a k = a ! k" "k < MAXFILE" using assms(3) NDIRECT_less [of k] by (simp_all add: blockat_def)
      then show ?thesis using ownedI(1) [of k "view s" a] False by simp
    qed
    then show ?thesis using file_okD(2) [OF assms(2)] by (simp add: mkfs_layout)
  qed simp
qed

lemma mk_slot_ok:
  assumes b: "mk_base s" and f: "file_ok 2 mkfs_sb (view s) (di_addrs din)" and k: "k \<le> NDIRECT" and fr: "di_addrs din ! k = 0 \<Longrightarrow> freeblock s < 2000"
  obtains a t where "mk_slot k din s = (din\<lparr>di_addrs := a\<rparr>, t)" "grew s (di_addrs din) t a" "a ! k \<noteq> 0"
proof (cases "di_addrs din ! k = 0")
  case False
  have "mk_slot k din s = (din\<lparr>di_addrs := di_addrs din\<rparr>, s)" using False addr_xint(1) [OF b f k] by (simp add: mk_slot_def)
  moreover have "grew s (di_addrs din) s (di_addrs din)" using b f by (auto simp: grew_def)
  ultimately show ?thesis using False by (intro that)
next
  case True
  let ?x = "freeblock s" let ?a = "(di_addrs din)[k := ?x]"
  note N = new_block_ok [OF b fr [OF True]]
  have x: "xint ?x = ?x" using fr [OF True] by (simp add: xint_small)
  have "mk_slot k din s = (din\<lparr>di_addrs := ?a\<rparr>, s\<lparr>freeblock := ?x + 1\<rparr>)"
    using addr_xint(1) [OF b f k] True by (simp add: mk_slot_def N(1) x)
  moreover have "grew s (di_addrs din) (s\<lparr>freeblock := ?x + 1\<rparr>) ?a"
    by (rule grew_joins [OF b f _ N(2)]) (use joins_slot [OF f view_alloc(2) [OF b] N(4) view_alloc(3) [OF b] k True] N(3) in simp_all)
  moreover have "?a ! k \<noteq> 0" using file_okD(1) [OF f] k b by (simp add: mk_base_def)
  ultimately show ?thesis by (rule that)
qed

lemma owned_block:
  assumes "mk_base s" and "file_ok 2 mkfs_sb (view s) a" and "x \<in> owned (view s) a"
  shows "x < freeblock s" "x < 2000" "46 \<le> x \<or> x = 1" "view s x = img s x"
proof -
  note F = file_okD(2,3,9) [OF assms(2), of x]
  show x: "x < 2000" using F assms(3) by (simp add: mkfs_layout)
  then show "x < freeblock s" using F assms(3) view_alloc(1) [OF assms(1), of x] by auto
  show "46 \<le> x \<or> x = 1" using F(3) assms(3) by (auto simp: mkfs_geom)
  then show "view s x = img s x" by (auto simp: view_def)
qed

lemma mk_entry_ok:
  assumes b: "mk_base t" and f: "file_ok 2 mkfs_sb (view t) a" and m: "m = a ! NDIRECT" "m \<noteq> 0" and k: "NDIRECT \<le> k" "k < MAXFILE" "blockat (view t) a k = 0"
    and fr: "freeblock t < 2000"
    and u: "img u = (img t)(m := wr32 (4 * (k - NDIRECT)) (freeblock t) (img t m))" "imgsize u = 2000" "freeblock u = freeblock t + 1" "freeinode u = freeinode t"
  shows "grew t a u a" "blockat (view u) a k = freeblock t"
proof -
  let ?x = "freeblock t" let ?e = "4 * (k - NDIRECT)"
  note N = new_block_ok [OF b fr]
  have mo: "m \<in> owned (view t) a" using ownedI(2) [of a "view t"] m by simp
  note O = owned_block [OF b f mo]
  have e: "?e + 4 \<le> BSIZE" using k by (simp add: MAXFILE_def NINDIRECT_def BSIZE_def)
  have l: "length (img t n) = BSIZE" for n using b by (simp add: mk_base_def)
  have m45: "m \<noteq> 45" "m \<noteq> ?x" using O by auto
  have v: "view u = (taken_block mkfs_sb ?x (view t))(m := wr32 ?e ?x (view t m))"
    using m45 O(4) u(1,3) unfolding N(3) [symmetric] by (auto simp: view_def fun_eq_iff)
  have j: "joins 2 mkfs_sb ?x (Some k) (view t) a (view u) a"
    unfolding v by (rule joins_entry [OF f view_alloc(2) [OF b] N(4) view_alloc(3) [OF b] m k])
  have "mk_base u" using b u fr O e l by (auto simp: mk_base_def)
  then show "grew t a u a" by (rule grew_joins [OF b f j _ u(4)])
  show "blockat (view u) a k = ?x" using j k(2) by (simp add: joins_def)
qed

lemma block_read:
  assumes g: "grew s a' t a" and k: "k < MAXFILE" and x: "blockat (view t) a k = x" "x \<noteq> 0" and r: "rsect x t = Ok buf u"
  shows "buf = view t x" "u = t\<lparr>good_io := good_io t - 1\<rparr>" "0 < good_io t"
proof -
  have b: "mk_base t" and f: "file_ok 2 mkfs_sb (view t) a" using g by (simp_all add: grew_def)
  have "x \<in> owned (view t) a" using ownedI(1) [OF k, of "view t" a] x by simp
  note O = owned_block [OF b f this]
  show "buf = view t x" "u = t\<lparr>good_io := good_io t - 1\<rparr>" "0 < good_io t" using r O rsect_small [of x t buf u] by simp_all
qed

lemma read_end: "mk_base s \<Longrightarrow> rsect (freeblock s) t = Ok buf u \<Longrightarrow> imgsize t = 2000 \<Longrightarrow> freeblock s < 2000"
  by (auto simp: rsect_small mk_base_def)

lemma mk_slot_end:
  assumes "mk_base s" and "file_ok 2 mkfs_sb (view s) (di_addrs din)" and k: "k \<le> NDIRECT" "di_addrs din ! k = 0"
  shows "mk_slot k din s = (din\<lparr>di_addrs := (di_addrs din)[k := freeblock s]\<rparr>, s\<lparr>freeblock := freeblock s + 1\<rparr>)"
    "(di_addrs din)[k := freeblock s] ! k = freeblock s" "xint (freeblock s) = freeblock s"
proof -
  show "xint (freeblock s) = freeblock s" using assms(1) by (simp add: mk_base_def xint_small)
  then show "mk_slot k din s = (din\<lparr>di_addrs := (di_addrs din)[k := freeblock s]\<rparr>, s\<lparr>freeblock := freeblock s + 1\<rparr>)"
    using addr_xint(1) [OF assms(1-3)] k(2) assms(1) by (simp add: mk_slot_def new_block_def mk_base_def)
  show "(di_addrs din)[k := freeblock s] ! k = freeblock s" using file_okD(1) [OF assms(2)] k(1) by simp
qed

lemma iappend_block_direct:
  assumes b: "mk_base s" and f: "file_ok 2 mkfs_sb (view s) (di_addrs din)" and k: "fbn < NDIRECT"
    and e: "iappend_block fbn din s = Ok (x, din') t" and r: "rsect x t = Ok buf u"
  obtains a where "din' = din\<lparr>di_addrs := a\<rparr>" "grew s (di_addrs din) t a" "blockat (view t) a fbn = x" "x \<noteq> 0"
proof -
  have k': "fbn \<le> NDIRECT" using k by simp
  have fr: "freeblock s < 2000" if z: "di_addrs din ! fbn = 0"
  proof -
    note E = mk_slot_end [OF b f k' z]
    have "x = freeblock s" "imgsize t = 2000" using e k b by (auto simp: iappend_block_def E mk_base_def)
    then show ?thesis using read_end [OF b] r by blast
  qed
  obtain a t' where a: "mk_slot fbn din s = (din\<lparr>di_addrs := a\<rparr>, t')" "grew s (di_addrs din) t' a" "a ! fbn \<noteq> 0" by (rule mk_slot_ok [OF b f k' fr])
  have "mk_base t'" "file_ok 2 mkfs_sb (view t') a" using a(2) by (simp_all add: grew_def)
  then have "xint (a ! fbn) = a ! fbn" by (rule addr_xint(1) [OF _ _ k'])
  then have "x = a ! fbn" "din' = din\<lparr>di_addrs := a\<rparr>" "t = t'" using e k a(1) by (auto simp: iappend_block_def)
  then show ?thesis using a(2,3) k by (intro that) (simp_all add: blockat_def)
qed

lemma iappend_block_indirect:
  assumes b: "mk_base s" and f: "file_ok 2 mkfs_sb (view s) (di_addrs din)" and k: "NDIRECT \<le> fbn" "fbn < MAXFILE"
    and e: "iappend_block fbn din s = Ok (x, din') t" and r: "rsect x t = Ok buf u"
  obtains a where "din' = din\<lparr>di_addrs := a\<rparr>" "grew s (di_addrs din) t a" "blockat (view t) a fbn = x" "x \<noteq> 0"
proof -
  let ?e = "4 * (fbn - NDIRECT)"
  have nk: "\<not> fbn < NDIRECT" using k by simp
  have fr: "freeblock s < 2000" if z: "di_addrs din ! NDIRECT = 0"
  proof -
    note E = mk_slot_end [OF b f le_refl z]
    obtain ind t1 where "rsect (freeblock s) (s\<lparr>freeblock := freeblock s + 1\<rparr>) = Ok ind t1" using e nk by (auto simp: iappend_block_def E bindr_eq_Ok)
    then show ?thesis using read_end [OF b] b by (simp add: mk_base_def)
  qed
  obtain a s1 where a: "mk_slot NDIRECT din s = (din\<lparr>di_addrs := a\<rparr>, s1)" "grew s (di_addrs din) s1 a" "a ! NDIRECT \<noteq> 0"
    by (rule mk_slot_ok [OF b f le_refl fr])
  have b1: "mk_base s1" and f1: "file_ok 2 mkfs_sb (view s1) a" using a(2) by (simp_all add: grew_def)
  define m where "m = a ! NDIRECT"
  have mx: "xint m = m" and mo: "m \<in> owned (view s1) a" using addr_xint(1) [OF b1 f1 le_refl] ownedI(2) [of a "view s1"] a(3) by (simp_all add: m_def)
  note O = owned_block [OF b1 f1 mo]
  have B: "blockat (view s1) a fbn = rd32 ?e (img s1 m)" using nk a(3) O(4) by (simp add: blockat_def m_def)
  define s2 where "s2 = s1\<lparr>good_io := good_io s1 - 1\<rparr>"
  have g2: "grew s (di_addrs din) s2 a" using a(2) by (simp add: s2_def grew_def)
  have e2: "(if rd32 ?e (img s1 m) = 0
      then bindr (wsect m (wr32 ?e (xint (freeblock s1)) (img s1 m)) (snd (new_block s2))) (\<lambda>_ s. Ok (rd32 ?e (wr32 ?e (xint (freeblock s1)) (img s1 m)), din\<lparr>di_addrs := a\<rparr>) s)
      else Ok (rd32 ?e (img s1 m), din\<lparr>di_addrs := a\<rparr>) s2) = Ok (x, din') t"
  proof -
    obtain ind s2' where i: "rsect m s1 = Ok ind s2'" and E: "(if rd32 ?e ind = 0
      then bindr (wsect m (wr32 ?e (xint (fst (new_block s2'))) ind) (snd (new_block s2'))) (\<lambda>_ s. Ok (xint (rd32 ?e (wr32 ?e (xint (fst (new_block s2'))) ind)), din\<lparr>di_addrs := a\<rparr>) s)
      else Ok (xint (rd32 ?e ind), din\<lparr>di_addrs := a\<rparr>) s2') = Ok (x, din') t"
      using e nk by (auto simp: iappend_block_def a(1) bindr_eq_Ok m_def [symmetric] mx split_beta Let_def cong: if_cong)
    have "ind = img s1 m" "s2' = s2" using i O rsect_small [of m s1 ind s2'] by (simp_all add: s2_def)
    note I = this
    have n: "fst (new_block s2) = freeblock s1" by (simp add: new_block_def s2_def)
    show ?thesis using E unfolding I n xint_idem .
  qed
  show ?thesis
  proof (cases "rd32 ?e (img s1 m) = 0")
    case False
    then show ?thesis using e2 g2 B by (intro that [of a]) (auto simp: s2_def)
  next
    case True
    have fx: "xint (freeblock s1) = freeblock s1" and fm: "freeblock s1 mod 2 ^ 32 = freeblock s1" "(freeblock s1 + 1) mod 2 ^ 32 = freeblock s1 + 1"
      using b1 by (simp_all add: mk_base_def xint_small)
    have l: "?e \<le> length (img s1 m)" using k b1 by (simp add: mk_base_def MAXFILE_def NINDIRECT_def BSIZE_def)
    have t: "x = freeblock s1" "din' = din\<lparr>di_addrs := a\<rparr>" "img t = (img s1)(m := wr32 ?e (freeblock s1) (img s1 m))" "imgsize t = 2000"
      "freeblock t = freeblock s1 + 1" "freeinode t = freeinode s1"
      using e2 True b1 O(2) rd_wr_same(2) [OF l, of "freeblock s1"] fm fx
      by (auto simp: bindr_eq_Ok wsect_small new_block_def s2_def mk_base_def)
    have fr1: "freeblock s1 < 2000" using read_end [OF b1] r t by blast
    have z: "blockat (view s1) a fbn = 0" using B True by simp
    note M = mk_entry_ok [OF b1 f1 refl a(3) k z fr1 t(3) [unfolded m_def] t(4-6)]
    show ?thesis using grew_trans [OF a(2) M(1)] M(2) t(1,2) b1 by (intro that) (auto simp: mk_base_def)
  qed
qed

text \<open>A file whose contents change to \<open>f\<close>.\<close>

definition grown :: "mkfs \<Rightarrow> nat list \<Rightarrow> mkfs \<Rightarrow> nat list \<Rightarrow> (nat \<Rightarrow> u8) \<Rightarrow> bool" where
  "grown s a t b f \<longleftrightarrow> mk_base t \<and> file_ok 2 mkfs_sb (view t) b \<and> kept 2 mkfs_sb (view s) a (view t) b \<and> freeinode t = freeinode s \<and>
     (\<forall>q < MAXFILE * BSIZE. fbyte (view t) b q = f q)"

lemma grown_trans:
  assumes "grown s a t b f" and "grown t b u c (overwrite off p (fbyte (view t) b))"
  shows "grown s a u c (overwrite off p f)"
  unfolding grown_def
proof (intro conjI allI impI)
  show "kept 2 mkfs_sb (view s) a (view u) c" using assms kept_trans by (fastforce simp: grown_def)
  fix q
  assume "q < MAXFILE * BSIZE"
  then show "fbyte (view u) c q = overwrite off p f q" using assms by (simp add: grown_def overwrite_def)
qed (use assms in \<open>simp_all add: grown_def\<close>)

lemma block_write:
  assumes g: "grew s a' t a" and k: "off div BSIZE < MAXFILE" and x: "blockat (view t) a (off div BSIZE) = x" "x \<noteq> 0"
    and l: "off mod BSIZE + length bs \<le> BSIZE" and w: "wsect x (put_at (off mod BSIZE) bs (view t x)) (t\<lparr>good_io := n\<rparr>) = Ok () u"
  shows "grown s a' u a (overwrite off bs (fbyte (view s) a'))"
proof -
  have b: "mk_base t" and f: "file_ok 2 mkfs_sb (view t) a" and fi: "freeinode t = freeinode s" and kp: "kept 2 mkfs_sb (view s) a' (view t) a"
    and fb: "\<forall>q < MAXFILE * BSIZE. fbyte (view t) a q = fbyte (view s) a' q" using g by (simp_all add: grew_def)
  have "x \<in> owned (view t) a" using ownedI(1) [OF k, of "view t" a] x by simp
  note O = owned_block [OF b f this]
  let ?v = "put_at (off mod BSIZE) bs (view t x)"
  have u: "img u = (img t)(x := ?v)" "imgsize u = 2000" "freeblock u = freeblock t" "freeinode u = freeinode t"
    using w b O(2) by (auto simp: wsect_small mk_base_def)
  have lv: "length ?v = BSIZE" using l view_alloc(3) [OF b, of x] by simp
  have v: "view u = (view t)(x := ?v)" using u O(3) by (auto simp: view_def fun_eq_iff)
  note D = data_block [OF f mkfs_geom(1) view_alloc(2) [OF b] k x, of ?v]
  show ?thesis unfolding grown_def
  proof (intro conjI allI impI)
    show "mk_base u" using b u lv O(1) by (auto simp: mk_base_def)
    show "file_ok 2 mkfs_sb (view u) a" unfolding v by (rule D(4))
    show "kept 2 mkfs_sb (view s) a' (view u) a" unfolding v by (rule kept_trans [OF kp D(6)])
    show "freeinode u = freeinode s" using u(4) fi by simp
    fix q
    assume q: "q < MAXFILE * BSIZE"
    show "fbyte (view u) a q = overwrite off bs (fbyte (view s) a') q"
      using fbyte_write [OF f mkfs_geom(1) view_alloc(2) [OF b] k x view_alloc(3) [OF b] l q] fb q unfolding v by (simp add: overwrite_def)
  qed
qed

lemma iappend_loop_ok:
  assumes "mk_base s" and "file_ok 2 mkfs_sb (view s) (di_addrs din)" and "iappend_loop p off din s = Ok x t" and "off \<le> MAXFILE * BSIZE"
  obtains a where "x = (off + length p, din\<lparr>di_addrs := a\<rparr>)" "grown s (di_addrs din) t a (overwrite off p (fbyte (view s) (di_addrs din)))"
    "off + length p \<le> MAXFILE * BSIZE"
  using assms
proof (induction "length p" arbitrary: p off din s thesis rule: less_induct)
  case less
  note prems = less.prems(2-5) and that = less.prems(1)
  let ?k = "off div BSIZE" let ?a = "di_addrs din"
  show ?case
  proof (cases "p = []")
    case True
    then have "x = (off, din)" "t = s" using prems(3) by (simp_all add: iappend_loop.simps [of "[]"])
    then show ?thesis using prems True by (intro that [of ?a]) (auto simp: grown_def overwrite_def)
  next
    case False
    define n1 where "n1 = min (length p) ((?k + 1) * BSIZE - off)"
    have om: "off - ?k * BSIZE = off mod BSIZE" "(?k + 1) * BSIZE - off = BSIZE - off mod BSIZE" by (simp_all add: minus_div_mult_eq_mod, simp add: minus_div_mult_eq_mod [symmetric])
    have n1': "min (length p) (BSIZE + ?k * BSIZE - off) = n1" by (simp add: n1_def)
    have n1: "0 < n1" "n1 \<le> length p" "off mod BSIZE + n1 \<le> BSIZE"
      using False mod_less_divisor [of BSIZE off] unfolding n1_def om by (auto simp: BSIZE_def min_def)
    have k: "?k < MAXFILE" using prems(3) False by (auto simp: iappend_loop.simps [of p off din s] Let_def split: if_splits)
    obtain b din' s1 buf s2 s3 where e: "iappend_block ?k din s = Ok (b, din') s1" "rsect b s1 = Ok buf s2"
        "wsect b (put_at (off mod BSIZE) (take n1 p) buf) s2 = Ok () s3" "iappend_loop (drop n1 p) (off + n1) din' s3 = Ok x t"
      using prems(3) False k by (auto simp: iappend_loop.simps [of p off din s] Let_def bindr_eq_Ok n1' om(1))
    obtain a where a: "din' = din\<lparr>di_addrs := a\<rparr>" "grew s ?a s1 a" "blockat (view s1) a ?k = b" "b \<noteq> 0"
    proof (cases "?k < NDIRECT")
      case True
      show ?thesis by (rule iappend_block_direct [OF prems(1,2) True e(1,2)]) (rule that)
    next
      case False
      then have "NDIRECT \<le> ?k" by simp
      then show ?thesis by (rule iappend_block_indirect [OF prems(1,2) _ k e(1,2)]) (rule that)
    qed
    note R = block_read [OF a(2) k a(3,4) e(2)]
    have l: "off mod BSIZE + length (take n1 p) \<le> BSIZE" using n1 by simp
    have 3: "grown s ?a s3 a (overwrite off (take n1 p) (fbyte (view s) ?a))"
      by (rule block_write [OF a(2) k a(3,4) l e(3) [unfolded R(1,2)]])
    have le: "off + n1 \<le> MAXFILE * BSIZE"
    proof -
      have "off + n1 \<le> ?k * BSIZE + BSIZE" using n1(3) div_mult_mod_eq [of off BSIZE] by linarith
      also have "\<dots> \<le> MAXFILE * BSIZE" using k mult_le_mono1 [of "Suc ?k" MAXFILE BSIZE] by simp
      finally show ?thesis .
    qed
    have lt: "length (drop n1 p) < length p" using n1 by simp
    have b3: "mk_base s3" "file_ok 2 mkfs_sb (view s3) (di_addrs din')" using 3 a(1) by (simp_all add: grown_def)
    obtain a2 where 4: "x = (off + n1 + length (drop n1 p), din'\<lparr>di_addrs := a2\<rparr>)"
        "grown s3 (di_addrs din') t a2 (overwrite (off + n1) (drop n1 p) (fbyte (view s3) (di_addrs din')))" "off + n1 + length (drop n1 p) \<le> MAXFILE * BSIZE"
      by (rule less.hyps [OF lt _ b3 e(4) le])
    have "grown s ?a t a2 (overwrite (off + n1) (drop n1 p) (overwrite off (take n1 p) (fbyte (view s) ?a)))"
      using grown_trans [OF 3] 4(2) a(1) by simp
    moreover have "overwrite (off + n1) (drop n1 p) (overwrite off (take n1 p) (fbyte (view s) ?a)) = overwrite off p (fbyte (view s) ?a)"
      using overwrite_append [of off "take n1 p" "drop n1 p" "fbyte (view s) ?a"] n1(2) by simp
    ultimately show ?thesis using 4(1,3) a(1) n1(2) by (intro that [of a2]) simp_all
  qed
qed

section \<open>The files of the image\<close>

definition din_of :: "(nat \<Rightarrow> u8 list) \<Rightarrow> nat \<Rightarrow> dinode" where
  "din_of C n = get_dinode (n mod IPB) (C (IBLOCK n mkfs_sb))"

text \<open>Inode \<open>n\<close> of an image is a file of the given type and size, with the given contents followed by zeros.\<close>

definition holds_file :: "(nat \<Rightarrow> u8 list) \<Rightarrow> nat \<Rightarrow> int \<Rightarrow> nat \<Rightarrow> u8 list \<Rightarrow> bool" where
  "holds_file C n type sz bs \<longleftrightarrow> dinode_ok (din_of C n) \<and> di_type (din_of C n) = type \<and> di_nlink (din_of C n) = 1 \<and> di_size (din_of C n) = sz \<and>
     file_ok 2 mkfs_sb C (di_addrs (din_of C n)) \<and> 1 \<notin> owned C (di_addrs (din_of C n)) \<and>
     (\<forall>q < MAXFILE * BSIZE. fbyte C (di_addrs (din_of C n)) q = (if q < length bs then bs ! q else 0))"

definition kind_of :: "nat \<Rightarrow> int" where "kind_of n = (if n = ROOTINO then T_DIR else T_FILE)"

definition apart :: "(nat \<Rightarrow> u8 list) \<Rightarrow> nat \<Rightarrow> nat \<Rightarrow> bool" where
  "apart C m n \<longleftrightarrow> owned C (di_addrs (din_of C m)) \<inter> owned C (di_addrs (din_of C n)) = {}"

definition mk_inv :: "mkfs \<Rightarrow> (nat \<Rightarrow> u8 list) \<Rightarrow> bool" where
  "mk_inv s F \<longleftrightarrow> mk_base s \<and> 1 \<le> freeinode s \<and> freeinode s \<le> 200 \<and> get_sb (img s 1) = mkfs_sb \<and>
     (\<forall>n. 1 \<le> n \<and> n < freeinode s \<longrightarrow> length (F n) \<le> MAXFILE * BSIZE \<and> holds_file (view s) n (kind_of n) (length (F n)) (F n)) \<and>
     (\<forall>m n. 1 \<le> m \<and> m < freeinode s \<and> 1 \<le> n \<and> n < freeinode s \<and> m \<noteq> n \<longrightarrow> apart (view s) m n)"

text \<open>A file that changes leaves the other files as they are.\<close>

lemma kept_other:
  assumes k: "kept 2 mkfs_sb C a C' a'" and f: "file_ok 2 mkfs_sb C c" and d: "owned C c \<inter> owned C a = {}"
  shows "blockat C' c = blockat C c" "owned C' c = owned C c" "file_ok 2 mkfs_sb C' c" "owned C' c \<inter> owned C' a' = {}"
    "q < MAXFILE * BSIZE \<Longrightarrow> fbyte C' c q = fbyte C c q"
proof -
  have e: "C' b = C b" if "b \<in> owned C c" for b using k that d file_okD(3,4) [OF f that] by (auto simp: kept_def)
  show 1: "blockat C' c = blockat C c" using e [of "c ! NDIRECT"] ownedI(2) [of c C] by (auto simp: blockat_def fun_eq_iff)
  then show 2: "owned C' c = owned C c" by (simp add: owned_def)
  have "\<not> isfree C' mkfs_sb b" if "b \<in> owned C c" for b using k file_okD(3) [OF f that] by (auto simp: kept_def)
  then show "file_ok 2 mkfs_sb C' c" using f unfolding file_ok_def 1 2 by blast
  show "owned C' c \<inter> owned C' a' = {}" using k d file_okD(3) [OF f] unfolding 2 by (fastforce simp: kept_def)
  assume "q < MAXFILE * BSIZE"
  then have "q div BSIZE < MAXFILE" by (rule less_mult_imp_div_less)
  then show "fbyte C' c q = fbyte C c q" unfolding fbyte_def 1 using e ownedI(1) [of "q div BSIZE" C c] by (simp add: Let_def)
qed

text \<open>The blocks of the inodes are changed by \<open>winode\<close> only.\<close>

lemma kept_din:
  assumes "mk_base s" and k: "kept 2 mkfs_sb (view s) a C' a'" and f: "file_ok 2 mkfs_sb (view s) a" and n: "n < 200"
  shows "C' (IBLOCK n mkfs_sb) = view s (IBLOCK n mkfs_sb)" "din_of C' n = din_of (view s) n"
proof -
  have i: "IBLOCK n mkfs_sb \<in> {32..44}" by (rule mkfs_IBLOCK(2) [OF n])
  have "\<not> isfree (view s) mkfs_sb (IBLOCK n mkfs_sb)" using view_alloc(1) [OF assms(1)] i assms(1) by (auto simp: mk_base_def)
  moreover have "IBLOCK n mkfs_sb \<notin> owned (view s) a" using file_okD(6) [OF f] i by (auto simp: mkfs_geom)
  ultimately show "C' (IBLOCK n mkfs_sb) = view s (IBLOCK n mkfs_sb)" using k i by (auto simp: kept_def mkfs_geom)
  then show "din_of C' n = din_of (view s) n" by (simp add: din_of_def)
qed

lemma winode_ok:
  assumes b: "mk_base s" and n: "n < 200" and d: "dinode_ok din" and w: "winode n din s = Ok () t"
  shows "mk_base t" "freeinode t = freeinode s" "img t 1 = img s 1" "din_of (view t) n = din" "m < 200 \<Longrightarrow> m \<noteq> n \<Longrightarrow> din_of (view t) m = din_of (view s) m"
    "\<exists>v. view t = (view s)(IBLOCK n mkfs_sb := v)"
proof -
  let ?B = "IBLOCK n mkfs_sb"
  have B: "?B \<in> {32..44}" by (rule mkfs_IBLOCK(2) [OF n])
  have l: "length (img s k) = BSIZE" for k using b by (simp add: mk_base_def)
  have t: "img t = (img s)(?B := put_dinode (n mod IPB) din (img s ?B))" "imgsize t = 2000" "freeblock t = freeblock s" "freeinode t = freeinode s"
    using w B b by (auto simp: winode_def bindr_eq_Ok rsect_small wsect_small mk_base_def)
  have lp: "length (put_dinode (n mod IPB) din (img s ?B)) = BSIZE"
    using in_iblock [of n] l d length_dinode_bytes [of din] by (simp add: put_dinode_def dinode_ok_def)
  show "mk_base t" using b t B lp by (auto simp: mk_base_def)
  show "freeinode t = freeinode s" by (rule t(4))
  show "img t 1 = img s 1" using t(1) B by auto
  have v: "view t = (view s)(?B := put_dinode (n mod IPB) din (img s ?B))" using t B by (auto simp: view_def fun_eq_iff)
  then show "\<exists>v. view t = (view s)(?B := v)" by blast
  have vs: "view s ?B = img s ?B" using B by (auto simp: view_def)
  show "din_of (view t) n = din" using get_put_dinode [OF d, of "n mod IPB" "img s ?B"] in_iblock [of n] l by (simp add: din_of_def v)
  assume m: "m < 200" "m \<noteq> n"
  show "din_of (view t) m = din_of (view s) m"
  proof (cases "IBLOCK m mkfs_sb = ?B")
    case False
    then show ?thesis by (simp add: din_of_def v)
  next
    case True
    then have "m div IPB = n div IPB" using mkfs_IBLOCK(1) m(1) n by simp
    then have "m mod IPB \<noteq> n mod IPB" using m(2) by (metis div_mult_mod_eq)
    then show ?thesis using get_put_dinode_other [of din "n mod IPB" "img s ?B" "m mod IPB"] in_iblock [of n] l d True vs
      by (simp add: din_of_def v dinode_ok_def)
  qed
qed

lemma mk_inv_file:
  assumes "mk_inv s F" and "1 \<le> n" and "n < freeinode s"
  shows "length (F n) \<le> MAXFILE * BSIZE" "holds_file (view s) n (kind_of n) (length (F n)) (F n)" "n < 200"
    "1 \<le> m \<Longrightarrow> m < freeinode s \<Longrightarrow> m \<noteq> n \<Longrightarrow> owned (view s) (di_addrs (din_of (view s) m)) \<inter> owned (view s) (di_addrs (din_of (view s) n)) = {}"
  using assms by (auto simp: mk_inv_def apart_def)

lemma holds_file_cong:
  assumes "holds_file C n ty sz bs" and "din_of C' n = din_of C n" and "file_ok 2 mkfs_sb C' (di_addrs (din_of C n))"
    and "owned C' (di_addrs (din_of C n)) = owned C (di_addrs (din_of C n))"
    and "\<And>q. q < MAXFILE * BSIZE \<Longrightarrow> fbyte C' (di_addrs (din_of C n)) q = fbyte C (di_addrs (din_of C n)) q"
  shows "holds_file C' n ty sz bs"
  using assms unfolding holds_file_def by simp

lemma files_step:
  assumes I: "mk_inv s F" and n: "1 \<le> n" "n < 200" and f: "file_ok 2 mkfs_sb (view s) a" "1 \<notin> owned (view s) a"
    and d: "\<And>m. 1 \<le> m \<Longrightarrow> m < freeinode s \<Longrightarrow> m \<noteq> n \<Longrightarrow> owned (view s) (di_addrs (din_of (view s) m)) \<inter> owned (view s) a = {}"
    and g: "grown s a t a' (\<lambda>q. if q < length bs then bs ! q else 0)" and w: "winode n din (t\<lparr>freeinode := N\<rparr>) = Ok () u"
    and din: "dinode_ok din" "di_addrs din = a'" "di_type din = kind_of n" "di_nlink din = 1" "di_size din = length bs" and l: "length bs \<le> MAXFILE * BSIZE"
    and N: "\<And>m. 1 \<le> m \<and> m < N \<longleftrightarrow> 1 \<le> m \<and> m < freeinode s \<or> m = n" "1 \<le> N" "N \<le> 200"
  shows "mk_inv u (F(n := bs))" "freeinode u = N"
proof -
  have b: "mk_base s" and s1: "get_sb (img s 1) = mkfs_sb" using I by (simp_all add: mk_inv_def)
  have bt: "mk_base t" and ft: "file_ok 2 mkfs_sb (view t) a'" and kp: "kept 2 mkfs_sb (view s) a (view t) a'"
    and fb: "\<And>q. q < MAXFILE * BSIZE \<Longrightarrow> fbyte (view t) a' q = (if q < length bs then bs ! q else 0)" using g by (simp_all add: grown_def)
  have bt': "mk_base (t\<lparr>freeinode := N\<rparr>)" using bt by simp
  note W = winode_ok [OF bt' n(2) din(1) w]
  show fu: "freeinode u = N" using W(2) by simp
  obtain v where v: "view u = (view t)(IBLOCK n mkfs_sb := v)" using W(6) by auto
  have B: "IBLOCK n mkfs_sb \<in> iblocks mkfs_sb" using mkfs_IBLOCK(2) [OF n(2)] by (simp add: mkfs_geom)
  have M: "owned (view u) c = owned (view t) c" "file_ok 2 mkfs_sb (view u) c" "q < MAXFILE * BSIZE \<Longrightarrow> fbyte (view u) c q = fbyte (view t) c q"
    if "file_ok 2 mkfs_sb (view t) c" for c q
    using meta_block(2,4) [OF that mkfs_geom(1) view_alloc(2) [OF bt] B, where v = v]
      meta_block(6) [OF that mkfs_geom(1) view_alloc(2) [OF bt] B, where v = v and q = q] unfolding v by auto
  have nf: "\<not> isfree (view s) mkfs_sb 1" using view_alloc(1) [OF b, of 1] b by (simp add: mk_base_def)
  have "view t 1 = view s 1" using kp nf f(2) by (auto simp: kept_def mkfs_geom)
  then have i1: "img u 1 = img s 1" using W(3) by (simp add: view_def)
  have o1: "1 \<notin> owned (view t) a'" using kp nf f(2) by (auto simp: kept_def)
  have hn: "holds_file (view u) n (kind_of n) (length bs) bs" using M [OF ft] o1 fb by (simp add: holds_file_def W(4) din)
  have O: "holds_file (view u) m (kind_of m) (length (F m)) (F m)" "length (F m) \<le> MAXFILE * BSIZE"
    "din_of (view u) m = din_of (view s) m" "owned (view u) (di_addrs (din_of (view s) m)) = owned (view s) (di_addrs (din_of (view s) m))"
    "owned (view u) (di_addrs (din_of (view s) m)) \<inter> owned (view u) a' = {}"
    if m: "1 \<le> m" "m < freeinode s" "m \<noteq> n" for m
  proof -
    note H = mk_inv_file [OF I m(1,2)]
    let ?c = "di_addrs (din_of (view s) m)"
    have fm: "file_ok 2 mkfs_sb (view s) ?c" using H(2) by (simp add: holds_file_def)
    note K = kept_other [OF kp fm d [OF m]]
    show 3: "din_of (view u) m = din_of (view s) m" using W(5) [OF H(3) m(3)] kept_din(2) [OF b kp f(1) H(3)] by simp
    show 4: "owned (view u) ?c = owned (view s) ?c" using M(1) [OF K(3)] K(2) by simp
    show "holds_file (view u) m (kind_of m) (length (F m)) (F m)"
      by (rule holds_file_cong [OF H(2) 3 M(2) [OF K(3)] 4]) (use M(3) [OF K(3)] K(5) in simp)
    show "length (F m) \<le> MAXFILE * BSIZE" by (rule H(1))
    show "owned (view u) ?c \<inter> owned (view u) a' = {}" using M(1) [OF ft] 4 K(2,4) by simp
  qed
  have an: "apart (view u) m n" "apart (view u) n m" if "1 \<le> m" "m < freeinode s" "m \<noteq> n" for m
    using O(3,5) [OF that] W(4) din(2) by (auto simp: apart_def)
  have ao: "apart (view u) m k" if "1 \<le> m" "m < freeinode s" "m \<noteq> n" "1 \<le> k" "k < freeinode s" "k \<noteq> n" "m \<noteq> k" for m k
    using O(3,4) [OF that(1-3)] O(3,4) [OF that(4-6)] mk_inv_file(4) [OF I that(4,5,1,2,7)] by (simp add: apart_def)
  show "mk_inv u (F(n := bs))" unfolding mk_inv_def
  proof (intro conjI allI impI)
    show "mk_base u" by (rule W(1))
    show "get_sb (img u 1) = mkfs_sb" using s1 i1 by simp
    show "1 \<le> freeinode u" "freeinode u \<le> 200" using fu N by simp_all
  next
    fix m
    assume "1 \<le> m \<and> m < freeinode u"
    then have m: "1 \<le> m \<and> m < freeinode s \<or> m = n" using N(1) fu by simp
    show "length ((F(n := bs)) m) \<le> MAXFILE * BSIZE" using m O(2) l by auto
    show "holds_file (view u) m (kind_of m) (length ((F(n := bs)) m)) ((F(n := bs)) m)" using m O(1) hn by auto
  next
    fix m k
    assume "1 \<le> m \<and> m < freeinode u \<and> 1 \<le> k \<and> k < freeinode u \<and> m \<noteq> k"
    then have "(1 \<le> m \<and> m < freeinode s \<or> m = n) \<and> (1 \<le> k \<and> k < freeinode s \<or> k = n) \<and> m \<noteq> k" using N(1) fu by auto
    then show "apart (view u) m k" using an ao by metis
  qed
qed

lemma rinode_ok: "mk_base s \<Longrightarrow> n < 200 \<Longrightarrow> rinode n s = Ok din t \<Longrightarrow> din = din_of (view s) n \<and> t = s\<lparr>good_io := good_io s - 1\<rparr>"
  using mkfs_IBLOCK(2) [of n] by (auto simp: rinode_def bindr_eq_Ok rsect_small din_of_def view_def)

lemma MAXFILE_small: "MAXFILE * BSIZE < 2 ^ 32"
  by (simp add: MAXFILE_def NDIRECT_def NINDIRECT_def BSIZE_def)

lemma mk_inv_io [simp]: "mk_inv (s\<lparr>good_io := k\<rparr>) F = mk_inv s F"
  by (simp add: mk_inv_def)

lemma iappend_ok:
  assumes I: "mk_inv s F" and n: "1 \<le> n" "n < freeinode s" and e: "iappend n p s = Ok () t"
  shows "mk_inv t (F(n := F n @ p))" "freeinode t = freeinode s"
proof -
  note H = mk_inv_file [OF I n]
  let ?d = "din_of (view s) n" let ?a = "di_addrs ?d" let ?s = "s\<lparr>good_io := good_io s - 1\<rparr>"
  have b: "mk_base s" using I by (simp add: mk_inv_def)
  have h: "dinode_ok ?d" "di_type ?d = kind_of n" "di_nlink ?d = 1" "di_size ?d = length (F n)" "file_ok 2 mkfs_sb (view s) ?a" "1 \<notin> owned (view s) ?a"
    and fb: "\<And>q. q < MAXFILE * BSIZE \<Longrightarrow> fbyte (view s) ?a q = (if q < length (F n) then F n ! q else 0)"
    using H(2) by (simp_all add: holds_file_def)
  have x: "xint (di_size ?d) = length (F n)" using H(1) MAXFILE_small h(4) by (simp add: xint_small)
  obtain din s1 y s2 where s: "rinode n s = Ok din s1" "iappend_loop p (xint (di_size din)) din s1 = Ok y s2"
      "winode n ((snd y)\<lparr>di_size := xint (fst y)\<rparr>) s2 = Ok () t"
    using e by (auto simp: iappend_def bindr_eq_Ok)
  have s1: "din = ?d" "s1 = ?s" using rinode_ok [OF b H(3) s(1)] by simp_all
  have b1: "mk_base ?s" "file_ok 2 mkfs_sb (view ?s) (di_addrs ?d)" using b h(5) by simp_all
  obtain a where a: "y = (length (F n) + length p, ?d\<lparr>di_addrs := a\<rparr>)" "grown ?s ?a s2 a (overwrite (length (F n)) p (fbyte (view ?s) ?a))"
      "length (F n) + length p \<le> MAXFILE * BSIZE"
    by (rule iappend_loop_ok [OF b1 s(2) [unfolded s1 x] H(1)])
  have g: "grown s ?a s2 a (\<lambda>q. if q < length (F n @ p) then (F n @ p) ! q else 0)"
    using a(2) fb by (auto simp: grown_def overwrite_def nth_append)
  define din' where "din' = ?d\<lparr>di_addrs := a, di_size := length (F n @ p)\<rparr>"
  have fa: "file_ok 2 mkfs_sb (view s2) a" and fi: "freeinode s2 = freeinode s" using g by (simp_all add: grown_def)
  have "dinode_ok din'" using h(1) a(3) MAXFILE_small file_okD(1) [OF fa] file_addrs_small [OF fa mkfs_geom(1)] by (simp add: dinode_ok_def din'_def)
  moreover have "winode n din' (s2\<lparr>freeinode := freeinode s\<rparr>) = Ok () t"
  proof -
    have "s2\<lparr>freeinode := freeinode s\<rparr> = s2" unfolding fi [symmetric] by simp
    then show ?thesis using s(3) a(1,3) MAXFILE_small by (simp add: din'_def xint_small)
  qed
  moreover have "1 \<le> freeinode s" "freeinode s \<le> 200" using I by (simp_all add: mk_inv_def)
  ultimately show "mk_inv t (F(n := F n @ p))" "freeinode t = freeinode s"
    using files_step [OF I n(1) H(3) h(5,6) mk_inv_file(4) [OF I n] g, of din' "freeinode s" t] h n a(3) by (auto simp: din'_def)
qed

lemma empty_file:
  "owned C (replicate (NDIRECT + 1) 0) = {}" "fbyte C (replicate (NDIRECT + 1) 0) q = 0"
  "file_ok 2 mkfs_sb C (replicate (NDIRECT + 1) 0)"
proof -
  have z: "blockat C (replicate (NDIRECT + 1) 0) k = 0" for k by (auto simp: blockat_def simp del: replicate_Suc)
  show o: "owned C (replicate (NDIRECT + 1) 0) = {}" unfolding owned_def z by (auto simp del: replicate_Suc)
  show "fbyte C (replicate (NDIRECT + 1) 0) q = 0" unfolding fbyte_def z by simp
  show "file_ok 2 mkfs_sb C (replicate (NDIRECT + 1) 0)" unfolding file_ok_def o z by simp
qed

lemma mk_ialloc_ok:
  assumes I: "mk_inv s F" and n: "freeinode s < 200" and e: "mk_ialloc ty s = Ok n t" and ty: "ty = kind_of (freeinode s)"
  shows "n = freeinode s" "freeinode t = freeinode s + 1" "mk_inv t (F(n := []))"
proof -
  let ?a = "replicate (NDIRECT + 1) 0"
  define din where "din = \<lparr>di_type = ty, di_major = 0, di_minor = 0, di_nlink = 1, di_size = 0, di_addrs = ?a\<rparr>"
  have n1: "1 \<le> freeinode s" and b: "mk_base s" using I by (simp_all add: mk_inv_def)
  have N: "n = freeinode s" and w: "winode n din (s\<lparr>freeinode := freeinode s + 1\<rparr>) = Ok () t"
    using e n by (auto simp: mk_ialloc_def bindr_eq_Ok din_def xint_small Let_def)
  have g: "grown s ?a s ?a (\<lambda>q. if q < length ([] :: u8 list) then [] ! q else 0)"
    unfolding grown_def empty_file(2) using b empty_file(3) by auto
  have "dinode_ok din" by (auto simp: dinode_ok_def din_def ty kind_of_def T_DIR_def T_FILE_def simp del: replicate_Suc)
  note S = files_step [OF I n1 n empty_file(3) _ _ g w [unfolded N] this]
  have m: "1 \<le> m \<and> m < freeinode s + 1 \<longleftrightarrow> 1 \<le> m \<and> m < freeinode s \<or> m = freeinode s" for m using n1 by auto
  show "mk_inv t (F(n := []))" unfolding N by (rule S(1)) (use n ty m in \<open>simp_all add: din_def empty_file(1) del: replicate_Suc One_nat_def\<close>)
  show "freeinode t = freeinode s + 1" by (rule S(2)) (use n ty m in \<open>simp_all add: din_def empty_file(1) del: replicate_Suc One_nat_def\<close>)
  show "n = freeinode s" by (rule N)
qed

lemma iappend_all_ok:
  "mk_inv s F \<Longrightarrow> 1 \<le> n \<Longrightarrow> n < freeinode s \<Longrightarrow> iappend_all n bs s = Ok () t \<Longrightarrow>
     mk_inv t (F(n := F n @ concat (takeWhile (\<lambda>b. b \<noteq> []) bs))) \<and> freeinode t = freeinode s"
proof (induction bs arbitrary: s F)
  case (Cons b bs)
  show ?case
  proof (cases "b = []")
    case True
    then show ?thesis using Cons.prems by simp
  next
    case False
    then obtain u where u: "iappend n b s = Ok () u" "iappend_all n bs u = Ok () t" using Cons.prems(4) by (auto simp: bindr_eq_Ok)
    note A = iappend_ok [OF Cons.prems(1-3) u(1)]
    show ?thesis using Cons.IH [OF A(1) Cons.prems(2) _ u(2)] A(2) Cons.prems(3) False by (simp del: fun_upd_apply add: fun_upd_same)
  qed
qed simp

section \<open>The whole program\<close>

text \<open>What the image has of the files named on the command line.\<close>

definition fname :: "u8 list \<Rightarrow> u8 list" where
  "fname a = (if shortname a \<noteq> [] \<and> hd (shortname a) = 95 then tl (shortname a) else shortname a)"

definition contents :: "(u8 list \<Rightarrow> u8 list list option) \<Rightarrow> u8 list \<Rightarrow> u8 list" where
  "contents host a = (case host a of None \<Rightarrow> [] | Some reads \<Rightarrow> concat (takeWhile (\<lambda>b. b \<noteq> []) reads))"

definition entries :: "nat \<Rightarrow> u8 list list \<Rightarrow> u8 list" where
  "entries n as = concat (map (\<lambda>x. mk_dirent (fst x) (fname (snd x))) (enumerate n as))"

lemma mk_dirent_length [simp]: "length (mk_dirent n name) = 16"
  by (simp add: mk_dirent_def DIRSIZ_def)

lemma entries_length [simp]: "length (entries n as) = 16 * length as"
  by (induction as arbitrary: n) (simp_all add: entries_def)

lemma add_files_ok:
  "mk_inv s F \<Longrightarrow> 2 \<le> freeinode s \<Longrightarrow> freeinode s + length as \<le> 200 \<Longrightarrow> add_files host ROOTINO as s = Ok () t \<Longrightarrow>
     \<exists>G. mk_inv t G \<and> freeinode t = freeinode s + length as \<and> G ROOTINO = F ROOTINO @ entries (freeinode s) as \<and>
       (\<forall>n. 2 \<le> n \<and> n < freeinode s \<longrightarrow> G n = F n) \<and> (\<forall>i < length as. G (freeinode s + i) = contents host (as ! i))"
proof (induction as arbitrary: s F)
  case Nil
  then show ?case by (auto simp: entries_def)
next
  case (Cons a as)
  obtain reads n s1 s2 s3 where h: "host a = Some reads" and e: "mk_ialloc T_FILE s = Ok n s1" "iappend ROOTINO (mk_dirent n (fname a)) s1 = Ok () s2"
      "iappend_all n reads s2 = Ok () s3" "add_files host ROOTINO as s3 = Ok () t"
    using Cons.prems(4) by (auto simp: Let_def bindr_eq_Ok fname_def split: if_splits option.splits)
  have r: "ROOTINO = 1" by (simp add: ROOTINO_def)
  have lt: "freeinode s < 200" using Cons.prems(3) by simp
  have k: "T_FILE = kind_of (freeinode s)" using Cons.prems(2) r by (simp add: kind_of_def)
  note A = mk_ialloc_ok [OF Cons.prems(1) lt e(1) k]
  have r1: "1 \<le> ROOTINO" "ROOTINO < freeinode s1" using A(2) Cons.prems(2) r by simp_all
  note B = iappend_ok [OF A(3) r1 e(2)]
  have n: "1 \<le> n" "n < freeinode s2" using A(1,2) B(2) Cons.prems(2) by simp_all
  note C = iappend_all_ok [OF B(1) n e(3)]
  let ?F = "F(n := contents host a, ROOTINO := F ROOTINO @ mk_dirent n (fname a))"
  have ne: "n \<noteq> ROOTINO" using A(1) Cons.prems(2) r by simp
  have i3: "mk_inv s3 ?F" using C ne h by (simp add: contents_def fun_upd_twist fun_upd_same fun_upd_other del: fun_upd_apply)
  have f3: "freeinode s3 = Suc (freeinode s)" using C B(2) A(2) by simp
  obtain G where G: "mk_inv t G" "freeinode t = Suc (freeinode s) + length as" "G ROOTINO = ?F ROOTINO @ entries (Suc (freeinode s)) as"
      "\<forall>m. 2 \<le> m \<and> m < Suc (freeinode s) \<longrightarrow> G m = ?F m" "\<forall>i < length as. G (Suc (freeinode s) + i) = contents host (as ! i)"
    using Cons.IH [OF i3 _ _ e(4), unfolded f3] Cons.prems(2,3) by auto
  have "G (freeinode s + i) = contents host ((a # as) ! i)" if "i < length (a # as)" for i
    using that G(4,5) A(1) Cons.prems(2) r by (cases i) auto
  moreover have "G m = F m" if "2 \<le> m" "m < freeinode s" for m using G(4) that A(1) r by auto
  moreover have "G ROOTINO = F ROOTINO @ entries (freeinode s) (a # as)" using G(3) A(1) by (simp add: entries_def)
  ultimately show ?case using G(1,2) by auto
qed

lemma wzeroes_iff:
  "m \<le> n \<Longrightarrow> n \<le> 2000 \<Longrightarrow> img s = (\<lambda>_. replicate BSIZE 0) \<Longrightarrow> wzeroes [m..<n] s = Ok () t \<longleftrightarrow>
     n - m \<le> good_io s \<and> t = s\<lparr>good_io := good_io s - (n - m), imgsize := (if m < n then max (imgsize s) n else imgsize s)\<rparr>"
proof (induction "n - m" arbitrary: m s)
  case (Suc k)
  let ?u = "s\<lparr>good_io := good_io s - 1, imgsize := max (imgsize s) (Suc m)\<rparr>"
  have m: "m < n" "k = n - Suc m" using Suc by auto
  have i: "(img s)(m := replicate BSIZE 0) = img s" using Suc.prems(3) by auto
  have "wsect m (replicate BSIZE 0) s = (if good_io s = 0 then Panic ''write'' else Ok () ?u)"
    using m Suc.prems(2) i by (simp add: wsect_def sec_small Let_def)
  then have "wzeroes [m..<n] s = Ok () t \<longleftrightarrow> 0 < good_io s \<and> wzeroes [Suc m..<n] ?u = Ok () t" using m by (simp add: upt_conv_Cons)
  also have "\<dots> \<longleftrightarrow> 0 < good_io s \<and> n - Suc m \<le> good_io ?u \<and>
      t = ?u\<lparr>good_io := good_io ?u - (n - Suc m), imgsize := (if Suc m < n then max (imgsize ?u) n else imgsize ?u)\<rparr>"
    using Suc.hyps(1) [OF m(2), of ?u] m Suc.prems by simp
  also have "\<dots> \<longleftrightarrow> n - m \<le> good_io s \<and> t = s\<lparr>good_io := good_io s - (n - m), imgsize := (if m < n then max (imgsize s) n else imgsize s)\<rparr>"
  proof -
    have "(if Suc m < n then max (imgsize ?u) n else imgsize ?u) = max (imgsize s) n" using m by auto
    moreover have "0 < good_io s \<and> n - Suc m \<le> good_io s - 1 \<longleftrightarrow> n - m \<le> good_io s" using m by arith
    ultimately show ?thesis using m by (auto simp: Suc_diff_Suc)
  qed
  finally show ?case .
qed auto

definition padded :: "u8 list \<Rightarrow> u8 list" where
  "padded bs = bs @ replicate (BSIZE - length bs mod BSIZE) 0"

lemma padded_length: "length (padded bs) = (length bs div BSIZE + 1) * BSIZE"
proof -
  define c where "c = length bs div BSIZE * BSIZE"
  have "length bs mod BSIZE < BSIZE" "length bs = c + length bs mod BSIZE" by (simp_all add: BSIZE_def c_def)
  then show ?thesis by (simp add: padded_def c_def [symmetric])
qed

lemma padded_nth: "(if q < length (padded bs) then padded bs ! q else 0) = (if q < length bs then bs ! q else 0)"
  by (simp add: padded_def nth_append)

definition mkfs_start :: "nat \<Rightarrow> mkfs" where
  "mkfs_start k = \<lparr>img = (\<lambda>_. replicate BSIZE 0)(1 := put_at 0 (sb_bytes mkfs_sb) (replicate BSIZE 0)), imgsize = 2000, freeinode = 1, freeblock = 46, good_io = k\<rparr>"

lemma mkfs_start_ok: "mk_inv (mkfs_start k) F"
proof -
  have "length (sb_bytes mkfs_sb) = 32" by (simp add: sb_bytes_def)
  then have "length (put_at 0 (sb_bytes mkfs_sb) (replicate BSIZE 0)) = BSIZE" by (simp add: BSIZE_def)
  then show ?thesis by (simp add: mk_inv_def mk_base_def mkfs_start_def mkfs_superblock)
qed

text \<open>The size of the root directory is rounded up to the next block.\<close>

lemma fix_root_ok:
  assumes I: "mk_inv s F" and n: "1 < freeinode s" and l: "length (F ROOTINO) < NDIRECT * BSIZE" and r: "rinode ROOTINO s = Ok din u"
    and w: "winode ROOTINO (din\<lparr>di_size := xint ((xint (di_size din) div BSIZE + 1) * BSIZE)\<rparr>) u = Ok () t"
  shows "mk_inv t (F(ROOTINO := padded (F ROOTINO)))" "freeinode t = freeinode s"
proof -
  have R: "1 \<le> ROOTINO" "ROOTINO < freeinode s" "ROOTINO < 200" using n by (simp_all add: ROOTINO_def)
  let ?d = "din_of (view s) ROOTINO" let ?a = "di_addrs ?d"
  have b: "mk_base s" and N: "1 \<le> freeinode s" "freeinode s \<le> 200" using I by (simp_all add: mk_inv_def)
  have s1: "din = ?d" "u = s\<lparr>good_io := good_io s - 1\<rparr>" using rinode_ok [OF b R(3) r] by simp_all
  note H = mk_inv_file [OF I R(1,2)]
  have h: "dinode_ok ?d" "di_type ?d = kind_of ROOTINO" "di_nlink ?d = 1" "di_size ?d = length (F ROOTINO)" "file_ok 2 mkfs_sb (view s) ?a" "1 \<notin> owned (view s) ?a"
    and fb: "\<And>q. q < MAXFILE * BSIZE \<Longrightarrow> fbyte (view s) ?a q = (if q < length (F ROOTINO) then F ROOTINO ! q else 0)"
    using H(2) by (simp_all add: holds_file_def)
  have g: "grown s ?a u ?a (\<lambda>q. if q < length (padded (F ROOTINO)) then padded (F ROOTINO) ! q else 0)"
    unfolding padded_nth using b h(5) fb kept_refl by (simp add: grown_def s1)
  have lp: "length (padded (F ROOTINO)) \<le> MAXFILE * BSIZE"
  proof -
    have "length (F ROOTINO) div BSIZE + 1 \<le> MAXFILE" using less_mult_imp_div_less [OF l] by (simp add: MAXFILE_def)
    then show ?thesis unfolding padded_length by (rule mult_le_mono1)
  qed
  have x: "xint (length (F ROOTINO)) = length (F ROOTINO)" "xint (length (padded (F ROOTINO))) = length (padded (F ROOTINO))"
    using H(1) lp MAXFILE_small by (simp_all add: xint_small)
  define d' where "d' = ?d\<lparr>di_size := length (padded (F ROOTINO))\<rparr>"
  have d': "dinode_ok d'" "di_addrs d' = ?a" "di_type d' = kind_of ROOTINO" "di_nlink d' = 1" "di_size d' = length (padded (F ROOTINO))"
    using h lp MAXFILE_small by (simp_all add: dinode_ok_def d'_def)
  have u: "u\<lparr>freeinode := freeinode s\<rparr> = u" by (simp add: s1)
  have w': "winode ROOTINO d' (u\<lparr>freeinode := freeinode s\<rparr>) = Ok () t"
    using w unfolding u s1(1) h(4) x(1) padded_length [symmetric] x(2) d'_def .
  have m: "1 \<le> m \<and> m < freeinode s \<longleftrightarrow> 1 \<le> m \<and> m < freeinode s \<or> m = ROOTINO" for m using R by auto
  note S = files_step [OF I R(1,3) h(5,6) mk_inv_file(4) [OF I R(1,2)] g w' d' lp m N]
  show "mk_inv t (F(ROOTINO := padded (F ROOTINO)))" "freeinode t = freeinode s" using S by simp_all
qed

lemma mk_balloc_ok:
  assumes "mk_base s" and "mk_balloc (freeblock s) s = Ok () t"
  shows "img t = view s" "freeblock t = freeblock s"
  using assms by (auto simp: mk_balloc_def view_def mkfs_layout marks_def wsect_small mk_base_def split: if_splits)

definition root_entries :: "u8 list list \<Rightarrow> u8 list" where
  "root_entries argv = mk_dirent ROOTINO [46] @ mk_dirent ROOTINO [46, 46] @ entries 2 (drop 2 argv)"

lemma mkfs_built:
  assumes e: "mkfs_main opened host argv io = Ok () t" and l: "length argv \<le> 200"
  obtains s G where "mk_inv s G" "img t = view s" "freeblock t = freeblock s" "freeinode s = length argv" "2 \<le> length argv" "G ROOTINO = padded (root_entries argv)"
    "\<And>i. 2 \<le> i \<Longrightarrow> i < length argv \<Longrightarrow> G i = contents host (argv ! i)"
proof -
  have R: "ROOTINO = 1" by (simp add: ROOTINO_def)
  have l2: "2 \<le> length argv" using e by (auto simp: mkfs_main_def split: if_splits)
  define s0 where "s0 = \<lparr>img = (\<lambda>_. replicate BSIZE 0), imgsize = 0, freeinode = 1, freeblock = nmeta, good_io = io\<rparr>"
  obtain s1 s2 r s3 s4 s5 s6 din s7 s8 where E: "wzeroes [0..<FSSIZE] s0 = Ok () s1" "wsect 1 (put_at 0 (sb_bytes mkfs_sb) (replicate BSIZE 0)) s1 = Ok () s2"
      "mk_ialloc T_DIR s2 = Ok r s3" "r = ROOTINO" "iappend ROOTINO (mk_dirent ROOTINO [46]) s3 = Ok () s4" "iappend ROOTINO (mk_dirent ROOTINO [46, 46]) s4 = Ok () s5"
      "add_files host ROOTINO (drop 2 argv) s5 = Ok () s6" "rinode ROOTINO s6 = Ok din s7"
      "winode ROOTINO (din\<lparr>di_size := xint ((xint (di_size din) div BSIZE + 1) * BSIZE)\<rparr>) s7 = Ok () s8" "mk_balloc (freeblock s8) s8 = Ok () t"
    using e by (auto simp: mkfs_main_def s0_def [symmetric] Let_def bindr_eq_Ok simp del: One_nat_def split: if_splits)
  have z: "wzeroes [0..<2000] s0 = Ok () s1 \<longleftrightarrow> 2000 \<le> good_io s0 \<and> s1 = s0\<lparr>good_io := good_io s0 - 2000, imgsize := 2000\<rparr>"
    using wzeroes_iff [of 0 2000 s0 s1] by (simp add: s0_def)
  have s1: "s1 = s0\<lparr>good_io := good_io s0 - 2000, imgsize := 2000\<rparr>" using E(1) z unfolding mkfs_layout by simp
  have "s2 = mkfs_start (good_io s1 - 1)" using E(2) by (simp add: wsect_small s1 s0_def mkfs_start_def mkfs_layout)
  then have i2: "mk_inv s2 (\<lambda>_. [])" and f2: "freeinode s2 = 1" using mkfs_start_ok by (simp, simp add: mkfs_start_def)
  have "freeinode s2 < 200" "T_DIR = kind_of (freeinode s2)" using f2 R by (simp_all add: kind_of_def)
  note A3 = mk_ialloc_ok [OF i2 this(1) E(3) this(2)]
  have f3: "1 \<le> ROOTINO" "ROOTINO < freeinode s3" using A3(2) f2 R by simp_all
  note A4 = iappend_ok [OF A3(3) f3 E(5)]
  note A5 = iappend_ok [OF A4(1) f3(1) _ E(6)]
  let ?d = "mk_dirent ROOTINO [46] @ mk_dirent ROOTINO [46, 46]"
  define F5 where "F5 = (\<lambda>_. [] :: u8 list)(ROOTINO := ?d)"
  have i5: "mk_inv s5 F5" and f5: "freeinode s5 = 2"
    using A5 A4(2) f3(2) A3(2) f2 E(4) by (simp_all add: F5_def fun_upd_same del: fun_upd_apply)
  have "freeinode s5 + length (drop 2 argv) \<le> 200" using l l2 f5 by simp
  from add_files_ok [OF i5 _ this E(7)] obtain G where G: "mk_inv s6 G" "freeinode s6 = length argv" "G ROOTINO = root_entries argv"
      "\<forall>i < length argv - 2. G (2 + i) = contents host (drop 2 argv ! i)"
    using l2 f5 by (auto simp: F5_def root_entries_def)
  have lr: "length (G ROOTINO) < NDIRECT * BSIZE" using l l2 by (simp add: G(3) root_entries_def NDIRECT_def BSIZE_def)
  have f6: "1 < freeinode s6" using l2 G(2) by simp
  note A8 = fix_root_ok [OF G(1) f6 lr E(8,9)]
  have b8: "mk_base s8" using A8(1) by (simp add: mk_inv_def)
  show ?thesis
  proof (rule that [OF A8(1) mk_balloc_ok [OF b8 E(10)]])
    show "freeinode s8 = length argv" "2 \<le> length argv" using A8(2) G(2) l2 by simp_all
    show "(G(ROOTINO := padded (G ROOTINO))) ROOTINO = padded (root_entries argv)" using G(3) by simp
    fix i
    assume i: "2 \<le> i" "i < length argv"
    then obtain k where "i = 2 + k" using le_Suc_ex by blast
    then show "(G(ROOTINO := padded (G ROOTINO))) i = contents host (argv ! i)" using G(4) [rule_format, of k] R i by simp
  qed
qed

text \<open>Progress of the steps of a small run.\<close>

lemma winode_runs:
  assumes "mk_base s" and "n < 200" and "2 \<le> good_io s"
  shows "\<exists>t. winode n din s = Ok () t \<and> good_io t = good_io s - 2 \<and> freeblock t = freeblock s"
proof -
  let ?B = "IBLOCK n mkfs_sb"
  have B: "?B \<in> {32..44}" by (rule mkfs_IBLOCK(2) [OF assms(2)])
  have r: "rsect ?B s = Ok (img s ?B) (s\<lparr>good_io := good_io s - 1\<rparr>)" using B assms(1,3) by (auto simp: rsect_small mk_base_def)
  have w: "\<exists>t. wsect ?B v (s\<lparr>good_io := good_io s - 1\<rparr>) = Ok () t \<and> good_io t = good_io s - 2 \<and> freeblock t = freeblock s" for v
    using B assms(3) by (auto simp: wsect_small)
  show ?thesis using w by (simp add: winode_def r)
qed

lemma mk_ialloc_runs:
  assumes "mk_inv s F" and "freeinode s < 200" and "2 \<le> good_io s"
  shows "\<exists>n t. mk_ialloc ty s = Ok n t \<and> good_io t = good_io s - 2 \<and> freeblock t = freeblock s"
proof -
  have b: "mk_base (s\<lparr>freeinode := (freeinode s + 1) mod 2 ^ 32\<rparr>)" using assms(1) by (simp add: mk_inv_def)
  show ?thesis unfolding mk_ialloc_def Let_def
    using winode_runs [OF b assms(2), of "\<lparr>di_type = ty, di_major = 0, di_minor = 0, di_nlink = 1, di_size = xint 0, di_addrs = replicate (NDIRECT + 1) 0\<rparr>"] assms(3)
    by (auto simp del: replicate_Suc)
qed

text \<open>Appending within the first block of a file.\<close>

lemma iappend_runs:
  assumes I: "mk_inv s F" and n: "1 \<le> n" "n < freeinode s" and p: "p \<noteq> []" "length (F n) + length p \<le> BSIZE" and fr: "freeblock s < 2000" and io: "5 \<le> good_io s"
  shows "\<exists>t. iappend n p s = Ok () t \<and> good_io t = good_io s - 5 \<and> freeblock t \<le> freeblock s + 1"
proof -
  note H = mk_inv_file [OF I n]
  let ?d = "din_of (view s) n" let ?a = "di_addrs ?d" let ?o = "length (F n)"
  define s' where "s' = s\<lparr>good_io := good_io s - 1\<rparr>"
  have b: "mk_base s'" "mk_base s" and f: "file_ok 2 mkfs_sb (view s') ?a" and sz: "di_size ?d = ?o" using I H(2) by (simp_all add: mk_inv_def holds_file_def s'_def)
  have x: "xint (di_size ?d) = ?o" using H(1) MAXFILE_small sz by (simp add: xint_small)
  have r: "rinode n s = Ok ?d s'"
    using mkfs_IBLOCK(2) [OF H(3)] b io by (auto simp: rinode_def bindr_eq_Ok rsect_small din_of_def view_def mk_base_def s'_def)
  have o: "?o div BSIZE = 0" "?o < BSIZE" using p by (cases p, simp_all)+
  obtain a t where a: "mk_slot 0 ?d s' = (?d\<lparr>di_addrs := a\<rparr>, t)" "grew s' ?a t a" "a ! 0 \<noteq> 0" by (rule mk_slot_ok [OF b(1) f le0]) (use fr in \<open>simp_all add: s'_def\<close>)
  have bt: "mk_base t" and ft: "file_ok 2 mkfs_sb (view t) a" using a(2) by (simp_all add: grew_def)
  have gt: "good_io t = good_io s - 1" "freeblock t \<le> freeblock s + 1" using a(1) by (auto simp: mk_slot_def new_block_def s'_def split: if_splits)
  note X = addr_xint [OF bt ft, of 0, simplified]
  define u where "u = t\<lparr>good_io := good_io t - 2, img := (img t)(a ! 0 := put_at ?o p (img t (a ! 0)))\<rparr>"
  have rs: "rsect (a ! 0) t = Ok (img t (a ! 0)) (t\<lparr>good_io := good_io t - 1\<rparr>)" using bt X(2) gt io by (simp add: rsect_small mk_base_def)
  have ws: "wsect (a ! 0) (put_at ?o p (img t (a ! 0))) (t\<lparr>good_io := good_io t - 1\<rparr>) = Ok () u"
    using bt X(2) gt io by (simp add: wsect_small u_def mk_base_def)
  have k: "iappend_block 0 ?d s' = Ok (a ! 0, ?d\<lparr>di_addrs := a\<rparr>) t" using X(1) by (simp add: iappend_block_def a(1) NDIRECT_def)
  have m: "0 < MAXFILE" "min (length p) (BSIZE - ?o) = length p" using p by (simp_all add: MAXFILE_def NDIRECT_def)
  have L: "iappend_loop p ?o ?d s' = Ok (?o + length p, ?d\<lparr>di_addrs := a\<rparr>) u"
    unfolding iappend_loop.simps [of p] using p(1) m by (simp add: o k rs ws Let_def iappend_loop.simps [of "[]"] del: One_nat_def)
  obtain a' where "grown s' ?a u a' (overwrite ?o p (fbyte (view s') ?a))" by (rule iappend_loop_ok [OF b(1) f L H(1)])
  then have bu: "mk_base u" by (simp add: grown_def)
  have gu: "good_io u = good_io s - 3" "freeblock u = freeblock t" using gt by (simp_all add: u_def)
  have "2 \<le> good_io u" using gu(1) io by simp
  then show ?thesis using winode_runs [OF bu H(3), of "?d\<lparr>di_addrs := a, di_size := xint (?o + length p)\<rparr>"] gu gt by (auto simp: iappend_def r x L)
qed

lemma mk_dirent_ne [simp]: "mk_dirent n name \<noteq> []"
  using mk_dirent_length [of n name] by (auto simp del: mk_dirent_length)

lemma iappend_goes:
  assumes "mk_inv s F" and "1 \<le> n" "n < freeinode s" and "p \<noteq> []" "length (F n) + length p \<le> BSIZE" and "freeblock s < 2000" and "5 \<le> good_io s"
  obtains t where "iappend n p s = Ok () t" "mk_inv t (F(n := F n @ p))" "freeinode t = freeinode s" "good_io t = good_io s - 5" "freeblock t \<le> freeblock s + 1"
  using iappend_runs [OF assms] iappend_ok [OF assms(1-3)] by blast

lemma mk_ialloc_goes:
  assumes "mk_inv s F" and "freeinode s < 200" and "2 \<le> good_io s"
  obtains t where "mk_ialloc (kind_of (freeinode s)) s = Ok (freeinode s) t" "mk_inv t (F(freeinode s := []))" "freeinode t = freeinode s + 1" "good_io t = good_io s - 2"
    "freeblock t = freeblock s"
  using mk_ialloc_runs [OF assms, of "kind_of (freeinode s)"] mk_ialloc_ok [OF assms(1,2), of "kind_of (freeinode s)"] by blast

lemma mkfs_small: "\<exists>t. mkfs_main True (\<lambda>_. Some [[120]]) [[109], [105], [97]] 3000 = Ok () t"
proof -
  have R: "ROOTINO = 1" by (simp add: ROOTINO_def)
  let ?z = "\<lparr>img = (\<lambda>_. replicate BSIZE 0), imgsize = 0, freeinode = 1, freeblock = nmeta, good_io = 3000\<rparr>"
  define s1 where "s1 = ?z\<lparr>good_io := 1000, imgsize := 2000\<rparr>"
  define s2 where "s2 = mkfs_start 999"
  have z: "wzeroes [0..<FSSIZE] ?z = Ok () s1" using wzeroes_iff [of 0 2000 ?z s1] by (simp add: s1_def mkfs_layout)
  have w: "wsect 1 (put_at 0 (sb_bytes mkfs_sb) (replicate BSIZE 0)) s1 = Ok () s2" by (simp add: wsect_small s1_def s2_def mkfs_start_def mkfs_layout)
  have 2: "mk_inv s2 (\<lambda>_. [])" "freeinode s2 = 1" "good_io s2 = 999" "freeblock s2 = 46" using mkfs_start_ok by (simp_all add: s2_def, simp_all add: mkfs_start_def)
  obtain s3 where 3: "mk_ialloc T_DIR s2 = Ok ROOTINO s3" "mk_inv s3 ((\<lambda>_. [])(1 := []))" "freeinode s3 = 2" "good_io s3 = 997" "freeblock s3 = 46"
    by (rule mk_ialloc_goes [OF 2(1)]) (use 2 R in \<open>simp_all add: kind_of_def\<close>)
  obtain s4 where 4: "iappend ROOTINO (mk_dirent ROOTINO [46]) s3 = Ok () s4" "mk_inv s4 ((\<lambda>_. [])(1 := mk_dirent ROOTINO [46]))" "freeinode s4 = 2" "good_io s4 = 992" "freeblock s4 \<le> 47"
    by (rule iappend_goes [OF 3(2), of ROOTINO "mk_dirent ROOTINO [46]"]) (use 3 R in \<open>simp_all add: BSIZE_def\<close>)
  obtain s5 where 5: "iappend ROOTINO (mk_dirent ROOTINO [46, 46]) s4 = Ok () s5" "mk_inv s5 ((\<lambda>_. [])(1 := mk_dirent ROOTINO [46] @ mk_dirent ROOTINO [46, 46]))"
      "freeinode s5 = 2" "good_io s5 = 987" "freeblock s5 \<le> 48"
    by (rule iappend_goes [OF 4(2), of ROOTINO "mk_dirent ROOTINO [46, 46]"]) (use 4 R in \<open>simp_all add: BSIZE_def\<close>)
  define F :: "nat \<Rightarrow> u8 list" where "F = ((\<lambda>_. [])(1 := mk_dirent ROOTINO [46] @ mk_dirent ROOTINO [46, 46]))(2 := [])"
  have F: "length (F 1) = 32" "F 2 = []" by (simp_all add: F_def)
  obtain s6 where 6: "mk_ialloc T_FILE s5 = Ok 2 s6" "mk_inv s6 F" "freeinode s6 = 3" "good_io s6 = 985" "freeblock s6 \<le> 48"
    by (rule mk_ialloc_goes [OF 5(2)]) (use 5 R in \<open>simp_all add: kind_of_def F_def\<close>)
  obtain s7 where 7: "iappend ROOTINO (mk_dirent 2 [97]) s6 = Ok () s7" "mk_inv s7 (F(1 := F 1 @ mk_dirent 2 [97]))" "freeinode s7 = 3" "good_io s7 = 980" "freeblock s7 \<le> 49"
    by (rule iappend_goes [OF 6(2), of ROOTINO "mk_dirent 2 [97]"]) (use 6 R F in \<open>simp_all add: BSIZE_def\<close>)
  obtain s8 where 8: "iappend 2 [120] s7 = Ok () s8" "mk_inv s8 (F(1 := F 1 @ mk_dirent 2 [97], 2 := [120]))" "freeinode s8 = 3" "good_io s8 = 975" "freeblock s8 \<le> 50"
    by (rule iappend_goes [OF 7(2), of 2 "[120]"]) (use 7 F in \<open>simp_all add: BSIZE_def\<close>)
  have b8: "mk_base s8" using 8(2) by (simp add: mk_inv_def)
  obtain din s9 where 9: "rinode ROOTINO s8 = Ok din s9" "s9 = s8\<lparr>good_io := 974\<rparr>"
    using mkfs_IBLOCK(2) [of ROOTINO] b8 8(4) R by (auto simp: rinode_def bindr_eq_Ok rsect_small mk_base_def)
  let ?d = "din\<lparr>di_size := xint ((xint (di_size din) div BSIZE + 1) * BSIZE)\<rparr>"
  obtain s10 where 10: "winode ROOTINO ?d s9 = Ok () s10" "good_io s10 = 972" "freeblock s10 \<le> 50"
    using winode_runs [of s9 ROOTINO ?d] b8 8(5) R by (auto simp: 9(2))
  have "\<exists>t. mk_balloc (freeblock s10) s10 = Ok () t" using 10(2,3) by (simp add: mk_balloc_def mkfs_layout wsect_small BSIZE_def)
  moreover have "add_files (\<lambda>_. Some [[120]]) ROOTINO [[97]] s5 = Ok () s8" using 6(1) 7(1) 8(1) by (simp add: shortname_def cstr_def Let_def)
  ultimately show ?thesis using z w 3(1) 4(1) 5(1) 9(1) 10(1) by (simp add: mkfs_main_def Let_def del: One_nat_def upt_Suc)
qed

text \<open>
  C11. The image that \<open>mkfs\<close> builds is a file system of the kind the kernel's code relies on: when the program succeeds, given fewer
  files than there are inodes, block 1 has the superblock of the layout, the bitmap marks exactly the blocks below \<open>freeblock\<close> as
  used and none of the metadata is free, the root directory has the entries of all files and its size is rounded up to a block, each
  file named on the command line has the contents that were read from the host (the inode number is the index of the argument), and no
  two files share a block.
\<close>

theorem mkfs_image:
  assumes "mkfs_main opened host argv io = Ok () t" and "length argv \<le> NINODES"
  shows "get_sb (img t 1) = mkfs_sb \<and> alloc_ok 2 mkfs_sb (img t) \<and> (\<forall>b. isfree (img t) mkfs_sb b \<longleftrightarrow> freeblock t \<le> b \<and> b < FSSIZE) \<and>
    holds_file (img t) ROOTINO T_DIR ((length (root_entries argv) div BSIZE + 1) * BSIZE) (root_entries argv) \<and>
    (\<forall>i. 2 \<le> i \<and> i < length argv \<longrightarrow> holds_file (img t) i T_FILE (length (contents host (argv ! i))) (contents host (argv ! i))) \<and>
    (\<forall>m n. 1 \<le> m \<and> m < length argv \<and> 1 \<le> n \<and> n < length argv \<and> m \<noteq> n \<longrightarrow> apart (img t) m n)"
proof -
  have R: "ROOTINO = 1" by (simp add: ROOTINO_def)
  obtain s G where I: "mk_inv s G" and v: "img t = view s" "freeblock t = freeblock s" and n: "freeinode s = length argv" "2 \<le> length argv"
    and r: "G ROOTINO = padded (root_entries argv)" and G: "\<And>i. 2 \<le> i \<Longrightarrow> i < length argv \<Longrightarrow> G i = contents host (argv ! i)"
    using mkfs_built [OF assms(1) assms(2) [unfolded mkfs_layout(9)]] by blast
  have b: "mk_base s" using I by (simp add: mk_inv_def)
  have h: "holds_file (view s) i (kind_of i) (length (G i)) (G i)" if "1 \<le> i" "i < length argv" for i using mk_inv_file(2) [OF I] that n by simp
  show ?thesis unfolding v
  proof (intro conjI allI impI)
    show "get_sb (view s 1) = mkfs_sb" using I by (simp add: mk_inv_def view_def)
    show "alloc_ok 2 mkfs_sb (view s)" by (rule view_alloc(2) [OF b])
    show "isfree (view s) mkfs_sb k \<longleftrightarrow> freeblock s \<le> k \<and> k < FSSIZE" for k using view_alloc(1) [OF b] by (simp add: mkfs_layout)
    show "holds_file (view s) ROOTINO T_DIR ((length (root_entries argv) div BSIZE + 1) * BSIZE) (root_entries argv)"
      using h [of ROOTINO] n(2) R unfolding r padded_length [symmetric] holds_file_def padded_nth by (simp add: kind_of_def)
    show "holds_file (view s) i T_FILE (length (contents host (argv ! i))) (contents host (argv ! i))" if "2 \<le> i \<and> i < length argv" for i
      using h [of i] that G R by (simp add: kind_of_def)
    show "apart (view s) m k" if "1 \<le> m \<and> m < length argv \<and> 1 \<le> k \<and> k < length argv \<and> m \<noteq> k" for m k
      using I that n by (auto simp: mk_inv_def)
  qed
qed

theorem mkfs_image_witness:
  "case mkfs_main True (\<lambda>_. Some [[120]]) [[109], [105], [97]] 3000 of
     Ok _ t \<Rightarrow> get_sb (img t 1) = mkfs_sb \<and> holds_file (img t) 1 T_DIR 1024 (mk_dirent 1 [46] @ mk_dirent 1 [46, 46] @ mk_dirent 2 [97]) \<and>
       holds_file (img t) 2 T_FILE 1 [120] \<and> apart (img t) 1 2 | _ \<Rightarrow> False"
proof -
  obtain t where t: "mkfs_main True (\<lambda>_. Some [[120]]) [[109], [105], [97]] 3000 = Ok () t" using mkfs_small by blast
  have "root_entries [[109], [105], [97]] = mk_dirent 1 [46] @ mk_dirent 1 [46, 46] @ mk_dirent 2 [97]"
    by (simp add: root_entries_def entries_def fname_def shortname_def ROOTINO_def cstr_def)
  moreover have "contents (\<lambda>_. Some [[120]]) a = [120]" for a by (simp add: contents_def)
  ultimately have "get_sb (img t 1) = mkfs_sb" "holds_file (img t) 1 T_DIR 1024 (mk_dirent 1 [46] @ mk_dirent 1 [46, 46] @ mk_dirent 2 [97])"
    "holds_file (img t) 2 T_FILE 1 [120]" "apart (img t) 1 2"
    using mkfs_image [OF t] by (simp_all add: NINODES_def ROOTINO_def BSIZE_def)
  then show ?thesis by (simp add: t)
qed

end
