(* ===== verification/Spec2Isabelle.thy ===== *)
theory Spec2Isabelle
  imports Kmain Usermem Uspace Grep Sh Umalloc Utools Fsfile Mkfs
begin

text \<open>
  A verification development for the operating system under \<open>src\<close>, a descendant of xv6 for RISC-V whose page allocator and file objects
  come from a buddy allocator: the kernel (\<open>src/kernel\<close>), its user programs (\<open>src/user\<close>) and the program that builds the file system
  image (\<open>src/mkfs\<close>).

  \<^bold>\<open>The parts and how they interact.\<close> \<open>main.c\<close> sets up the allocator (\<open>kalloc.c\<close> over \<open>buddy.c\<close>, whose free lists are \<open>list.c\<close>), page
  tables (\<open>vm.c\<close>), processes (\<open>proc.c\<close>), traps (\<open>trap.c\<close>, \<open>plic.c\<close>), the buffer cache (\<open>bio.c\<close>) over the disk driver (\<open>virtio_disk.c\<close>), and
  enters the scheduler. A system call enters through \<open>trap.c\<close> and \<open>syscall.c\<close> and runs in \<open>sysproc.c\<close> or \<open>sysfile.c\<close>; file calls go through
  \<open>file.c\<close> to pipes (\<open>pipe.c\<close>), devices (\<open>console.c\<close> over \<open>uart.c\<close>) or inodes (\<open>fs.c\<close>), whose blocks are changed inside transactions of the
  log (\<open>log.c\<close>) on the buffer cache. Everything is protected by spin locks (\<open>spinlock.c\<close>) and sleep locks (\<open>sleeplock.c\<close>). \<open>mkfs\<close>
  produces the image whose superblock, bitmap, inodes and directories \<open>fs.c\<close> works on. User programs see the kernel through system calls.

  \<^bold>\<open>How code becomes definitions.\<close> A C function is a definition of the same name on the state of the kernel (with a prefix \<open>u\<close> or \<open>mk_\<close>
  where a user routine or one of \<open>mkfs\<close> has the name of a kernel routine). Its result (theory \<open>Prelude\<close>) is \<open>Ok v s\<close>, a value and the
  new state; \<open>Panic\<close>, a call of \<open>panic\<close>; \<open>Fault\<close>, behaviour that C leaves undefined, as an access to a null pointer or beyond an
  array; \<open>Sleep c s\<close>, the process has given up the processor in a call of \<open>sleep\<close> on channel \<open>c\<close>; \<open>Spin lk\<close>, a spin lock is taken
  and the hart waits for it; or \<open>Diverge\<close>, a loop that does not end. \<open>bindr\<close> composes results. Code that can sleep in a loop is a
  definition of the loop's body and its continuation, whose name ends in \<open>_loop\<close>, and the process resumes there. Machine integers are
  words, or integers with the wrap-around written out, where their width matters. The state is a chain of records, one per component,
  each extending the one below: \<open>kst0\<close> (spin locks), \<open>kproc\<close>, \<open>kmem\<close>, \<open>kvm\<close>, \<open>kslp\<close>, \<open>kio\<close>, \<open>kuart\<close>, \<open>kdsk\<close>, \<open>kbio\<close>, \<open>klog\<close>, \<open>kfs\<close>,
  \<open>kcons\<close>, \<open>kfile\<close>, \<open>kpr\<close>, \<open>ksys\<close>, \<open>ktrap\<close>, \<open>kmain\<close>.

  \<^bold>\<open>Theories and code of the kernel.\<close>
  \<^item> \<open>Klist\<close>: \<open>list.c\<close>, with the locale \<open>list_family\<close> of disjoint lists. \<open>Spinlock\<close>: \<open>spinlock.c\<close>, mutual exclusion over all
    interleavings of the harts. \<open>Layout\<close>: \<open>param.h\<close>, \<open>constants.h\<close>, \<open>memlayout.h\<close>, the macros of \<open>riscv.h\<close>.
  \<^item> \<open>Buddy\<close>: \<open>buddy.c\<close>; \<open>Buddy_Inv\<close> and \<open>Buddy_Ops\<close>: its invariant, the refinement to a set of live blocks, and the locale
    \<open>block_allocator\<close>, whose clients never get overlapping blocks; \<open>Buddy_Init\<close>: \<open>bd_init\<close> establishes the invariant. \<open>Kalloc\<close>:
    \<open>kalloc.c\<close> and the locked entry points.
  \<^item> \<open>Kproc\<close> and \<open>Proc\<close>: \<open>proc.c\<close>. \<open>Kstring\<close>: \<open>string.c\<close>, the routines against what the C library promises. \<open>Vm\<close>: \<open>vm.c\<close>; \<open>Ptable\<close>,
    \<open>Usermem\<close>, \<open>Uspace\<close>: page tables as maps, copies between kernel and user memory, growth, copy and release of address spaces.
  \<^item> \<open>Sleeplock\<close>: \<open>sleeplock.c\<close>. \<open>Devio\<close>: device registers. \<open>Ring\<close>: the locale \<open>fifo\<close> of ring buffers with counters that run freely.
    \<open>Uart\<close>: \<open>uart.c\<close>. \<open>Printf\<close>: \<open>printf.c\<close>. \<open>Console\<close>: \<open>console.c\<close>. \<open>Virtio\<close>: \<open>virtio_disk.c\<close>, and that a request transfers its block.
  \<^item> \<open>Bio\<close>: \<open>bio.c\<close>; \<open>Bcache\<close>: the cache as reference counts, locks and contents by block number. \<open>Encode\<close>: integers in byte blocks.
    \<open>Log\<close>: \<open>log.c\<close>; \<open>Redo\<close>: the locale \<open>redo_log\<close>, redo logging on a medium that can crash during every write; \<open>Journal\<close>: commits,
    recovery and transactions of \<open>log.c\<close> are atomic under crashes.
  \<^item> \<open>Uaccess\<close>: \<open>either_copyin\<close> and \<open>either_copyout\<close>. \<open>Fs\<close>: \<open>fs.c\<close>; \<open>Fstx\<close> and \<open>Fsfile\<close>: the block allocator, \<open>bmap\<close>, inodes and file
    contents inside a transaction, and that a chunk of a \<open>write\<close> is all or nothing when the machine crashes.
  \<^item> \<open>File\<close>: \<open>pipe.c\<close>, \<open>file.c\<close>. \<open>Exec\<close>: \<open>exec.c\<close>, \<open>elf.h\<close>. \<open>Sysargs\<close>, \<open>Syscall\<close>: \<open>syscall.c\<close>. \<open>Sysproc\<close>: \<open>sysproc.c\<close>. \<open>Sysfile\<close>:
    \<open>sysfile.c\<close>. \<open>Trap\<close>: \<open>trap.c\<close>, \<open>plic.c\<close>. \<open>Kmain\<close>: \<open>start.c\<close>, \<open>main.c\<close>.

  \<^bold>\<open>User programs and the image builder.\<close>
  \<^item> \<open>Uprog\<close>: \<open>ulib.c\<close> and \<open>printf.c\<close> of \<open>src/user\<close>. A program runs on a script, the list of the kernel's answers to its system calls;
    when the script is used up the program waits in its last call. A \<open>read\<close> with a positive result has stored exactly that many bytes.
  \<^item> \<open>Grep\<close>: \<open>grep.c\<close>, the matcher against the meaning of patterns and the lines printed. \<open>Sh\<close>: \<open>sh.c\<close>, the parser returns on every line
    and reads back every printed command. \<open>Umalloc\<close>: \<open>umalloc.c\<close> refines a set of free bytes. \<open>Utools\<close>: \<open>cat.c\<close>, \<open>echo.c\<close>, \<open>wc.c\<close>,
    \<open>ls.c\<close>, \<open>kill.c\<close>, \<open>ln.c\<close>, \<open>mkdir.c\<close>, \<open>rm.c\<close>, \<open>zombie.c\<close>, \<open>init.c\<close>.
  \<^item> \<open>Mkfs\<close>: \<open>mkfs.c\<close>. The image has the superblock, bitmap, directory and files that the predicates of \<open>Fstx\<close> ask for.

  \<^bold>\<open>Bounds and counters.\<close> Loops are structural recursions, functions with a termination proof, or recursions over a counter. Counters
  are computed from the bound the C code has: the number of buffers for the list of buffers, of bitmap blocks for \<open>balloc\<close>, of
  inodes for \<open>ialloc\<close>, of directory entries from the directory's size, of pages from the length of a range, of pending bytes for a
  ring. Where the counter is used up and the C loop would go on the result is \<open>Diverge\<close>; the theorems that say an
  operation returns \<open>Ok\<close> show that this does not happen. \<open>firstk\<close> of the buddy allocator really diverges above \<open>2 ^ 63\<close>
  bytes, and a wait for a device that never answers does too.

  \<^bold>\<open>Not modelled.\<close>
  \<^item> The assembly files \<open>entry.S\<close>, \<open>swtch.S\<close>, \<open>trampoline.S\<close>, \<open>kernelvec.S\<close>, \<open>initcode.S\<close> and the generated \<open>usys.S\<close>: they are below the
    level of C. A routine that calls \<open>swtch\<close> is split at the call, trap handlers start from the saved registers.
  \<^item> The devices (disk, serial port, interrupt controller, timer): they are parameters of the state, with their documented
    behaviour as hypotheses of the theorems that need it.
  \<^item> Preemption inside kernel code: theorems on operations that take locks are about one process running between its lock
    operations; \<open>Spinlock\<close> shows why the locked sections do not interleave.
  \<^item> The test programs (\<open>usertests.c\<close>, \<open>grind.c\<close>, \<open>stressfs.c\<close>, \<open>forktest.c\<close>, \<open>reparenttest.c\<close>, \<open>alloctest.c\<close>), which drive the system
    from outside, and the scripts that build and grade, which are pure input and output. \<open>defs.h\<close> and \<open>types.h\<close> are declarations only.
\<close>

end
